(* ===== verification/AwtkPrelude.thy ===== *)
theory AwtkPrelude
  imports Main "HOL-Library.Word" "HOL-Library.Multiset"
begin

text \<open>
  Shared vocabulary of the development: the status codes of \<open>src/src/tkc/types_def.h\<close>, the
  rule by which every foreach loop reads the status of its visitor, machine arithmetic on 32-bit
  quantities held as \<open>nat\<close> or \<open>int\<close>, the loops that move array elements by one or
  more places, and the generic list lemmas the components share.

  The memory allocator is a parameter: \<open>alloc_t\<close> says whether a block of a size is granted.
  Addresses (\<open>void*\<close>) are natural numbers, \<open>0\<close> is NULL. An object that a function
  receives by a pointer which it checks against NULL first is a record here, so that the guard is
  satisfied by its type.
\<close>

named_theorems abs_simps "equations that compute the abstraction of the result of an operation"
named_theorems inv_intros "preservation of the representation invariants"

section \<open>Status codes\<close>

datatype ret_t =
    RET_OK | RET_OOM | RET_FAIL | RET_NOT_IMPL | RET_QUIT | RET_FOUND | RET_BUSY | RET_REMOVE
  | RET_REPEAT | RET_NOT_FOUND | RET_DONE | RET_STOP | RET_SKIP | RET_CONTINUE
  | RET_OBJECT_CHANGED | RET_ITEMS_CHANGED | RET_BAD_PARAMS | RET_TIMEOUT | RET_CRC | RET_IO
  | RET_EOS | RET_NOT_MODIFIED | RET_NO_PERMISSION | RET_INVALID_ADDR | RET_EXCEED_RANGE
  | RET_MAX_NR

text \<open>
  What a loop does with the status of its visitor: go on with a new status, remove the current
  element and go on, or leave the loop with the status.
\<close>

datatype visit_step = Visit_next ret_t | Visit_remove ret_t | Visit_break ret_t

definition foreach_visit_result :: "ret_t \<Rightarrow> visit_step" where
  "foreach_visit_result r =
     (if r = RET_CONTINUE then Visit_next RET_OK
      else if r = RET_SKIP then Visit_next RET_OK
      else if r = RET_REMOVE then Visit_remove RET_OK
      else if r = RET_REPEAT then Visit_next RET_OK
      else if r \<noteq> RET_OK then Visit_break r
      else Visit_next r)"

lemma foreach_visit_result_cases:
  obtains (nxt) "foreach_visit_result r = Visit_next RET_OK"
    | (remove) "r = RET_REMOVE" "foreach_visit_result r = Visit_remove RET_OK"
    | (break) "foreach_visit_result r = Visit_break r"
      "r \<notin> {RET_OK, RET_CONTINUE, RET_SKIP, RET_REMOVE, RET_REPEAT}"
  by (cases "r \<in> {RET_OK, RET_CONTINUE, RET_SKIP, RET_REPEAT}"; cases "r = RET_REMOVE")
    (auto simp: foreach_visit_result_def)

section \<open>Machine integers and addresses\<close>

type_synonym ptr = nat

abbreviation (input) NULL :: ptr where "NULL \<equiv> 0"

type_synonym byte = "8 word"

type_synonym alloc_t = "nat \<Rightarrow> bool"

type_synonym compare_t = "ptr \<Rightarrow> ptr \<Rightarrow> int"

definition u32 :: "nat \<Rightarrow> nat" where
  "u32 n = n mod 2 ^ 32"

definition s32 :: "int \<Rightarrow> int" where
  "s32 i = (i + 2 ^ 31) mod 2 ^ 32 - 2 ^ 31"

lemma u32_id [simp]: "n < 2 ^ 32 \<Longrightarrow> u32 n = n"
  by (simp add: u32_def)

lemma u32_less [simp]: "u32 n < 2 ^ 32"
  by (simp add: u32_def)

lemma u32_pred: "0 < i \<Longrightarrow> i < 2 ^ 32 \<Longrightarrow> u32 (i + (2 ^ 32 - 1)) = i - 1"
proof (cases i)
  case (Suc j)
  have "(j + 2 ^ 32) mod 2 ^ 32 = j mod (2 ^ 32 :: nat)" by (rule mod_add_self2)
  moreover assume "i < 2 ^ 32"
  ultimately show ?thesis using Suc by (simp add: u32_def)
qed simp

lemma s32_id [simp]: "- (2 ^ 31) \<le> i \<Longrightarrow> i < 2 ^ 31 \<Longrightarrow> s32 i = i"
  by (simp add: s32_def)

lemma s32_nat [simp]: "n < 2 ^ 31 \<Longrightarrow> s32 (int n) = int n"
  by (simp add: s32_def)

text \<open>
  A foreach loop over a sequence, as every container promises it: the status, the visitor's
  context, the elements kept and the elements removed.
\<close>

fun visit_list :: "('c \<Rightarrow> ptr \<Rightarrow> ret_t \<times> 'c) \<Rightarrow> 'c \<Rightarrow> ptr list \<Rightarrow> ret_t \<Rightarrow> ret_t \<times> 'c \<times> ptr list \<times> ptr list" where
  "visit_list visit ctx [] ret = (ret, ctx, [], [])"
| "visit_list visit ctx (p # ps) ret =
     (case visit ctx p of (r, ctx') \<Rightarrow>
        (case foreach_visit_result r of
           Visit_next r \<Rightarrow> (case visit_list visit ctx' ps r of (r', c, keep, gone) \<Rightarrow> (r', c, p # keep, gone))
         | Visit_remove r \<Rightarrow> (case visit_list visit ctx' ps r of (r', c, keep, gone) \<Rightarrow> (r', c, keep, p # gone))
         | Visit_break r \<Rightarrow> (r, ctx', p # ps, [])))"

text \<open>\<open>(int)(a - b)\<close> for 32-bit numbers is \<open>0\<close> for equal ones only.\<close>

lemma s32_diff_0: "a < 2 ^ 32 \<Longrightarrow> b < 2 ^ 32 \<Longrightarrow> s32 (int a - int b) = 0 \<longleftrightarrow> a = b"
proof
  assume ab: "a < 2 ^ 32" "b < 2 ^ 32" and "s32 (int a - int b) = 0"
  then have "(int a - int b + 2 ^ 31) mod 2 ^ 32 = 2 ^ 31" by (simp add: s32_def)
  then have "(int a - int b) mod 2 ^ 32 = 0"
    by (metis (no_types, opaque_lifting) add_diff_cancel_right' diff_self mod_0 mod_diff_left_eq)
  then have "int a mod 2 ^ 32 = int b mod 2 ^ 32" by (simp add: mod_eq_dvd_iff dvd_eq_mod_eq_0)
  moreover have "int a mod 2 ^ 32 = int a" "int b mod 2 ^ 32 = int b" using ab by (simp_all add: mod_pos_pos_trivial)
  ultimately show "a = b" by simp
qed (simp add: s32_def)

lemma s32_diff_0_mod: "s32 (int a - int b) = 0 \<longleftrightarrow> a mod 2 ^ 32 = b mod 2 ^ 32"
proof -
  have r: "int a mod 2 ^ 32 = int (a mod 2 ^ 32)" "int b mod 2 ^ 32 = int (b mod 2 ^ 32)" by (simp_all add: zmod_int)
  have c: "(2 ^ 31 :: int) mod 2 ^ 32 = 2 ^ 31" by simp
  have "s32 (int a - int b) = 0 \<longleftrightarrow> (int a - int b + 2 ^ 31) mod 2 ^ 32 = 2 ^ 31"
    by (simp only: s32_def right_minus_eq)
  also have "\<dots> \<longleftrightarrow> (int a - int b + 2 ^ 31) mod 2 ^ 32 = (2 ^ 31) mod (2 ^ 32 :: int)"
    by (simp only: c)
  also have "\<dots> \<longleftrightarrow> int a mod 2 ^ 32 = int b mod 2 ^ 32"
    by (simp only: mod_eq_dvd_iff add_diff_cancel_right')
  finally show ?thesis unfolding r by simp
qed

section \<open>Comparison functions\<close>

text \<open>
  The contract of \<open>tk_compare_t\<close> on the elements a caller really compares (\<open>ok\<close>): the
  sign of the result is a total preorder. What the sorted containers need of their comparator is
  proved once in this locale.
\<close>

locale comparator =
  fixes ok :: "'a \<Rightarrow> bool" and cmp :: "'a \<Rightarrow> 'a \<Rightarrow> int"
  assumes cmp_sym: "ok a \<Longrightarrow> ok b \<Longrightarrow> 0 \<le> cmp a b \<longleftrightarrow> cmp b a \<le> 0"
    and cmp_trans: "ok a \<Longrightarrow> ok b \<Longrightarrow> ok c \<Longrightarrow> cmp a b \<le> 0 \<Longrightarrow> cmp b c \<le> 0 \<Longrightarrow> cmp a c \<le> 0"
begin

lemma cmp_total: "ok a \<Longrightarrow> ok b \<Longrightarrow> cmp a b \<le> 0 \<or> cmp b a \<le> 0"
  using cmp_sym[of a b] by linarith

lemma cmp_refl: "ok a \<Longrightarrow> cmp a a = 0"
  using cmp_sym[of a a] by linarith

lemma cmp_less_trans:
  assumes "ok a" "ok b" "ok c" and "cmp a b < 0" and "cmp b c \<le> 0"
  shows "cmp a c < 0"
proof (rule ccontr)
  assume "\<not> cmp a c < 0"
  then have "cmp c a \<le> 0"
    using assms(1,3) cmp_sym[of a c] by simp
  then have "cmp b a \<le> 0"
    using assms(1,2,3,5) cmp_trans[of b c a] by simp
  then show False
    using assms(1,2,4) cmp_sym[of a b] by simp
qed

end

text \<open>
  \<open>pointer_compare\<close> returns the distance of two addresses, converted from
  \<open>ptrdiff_t\<close> to \<open>int\<close>; \<open>compare_always_equal\<close> makes every element match.
\<close>

definition pointer_compare :: compare_t where
  "pointer_compare a b = s32 (int a - int b)"

definition compare_always_equal :: compare_t where
  "compare_always_equal a b = 0"

interpretation pointer_cmp: comparator "\<lambda>p. p < 2 ^ 31" pointer_compare
  by unfold_locales (auto simp: pointer_compare_def)

interpretation equal_cmp: comparator "\<lambda>p. True" compare_always_equal
  by unfold_locales (auto simp: compare_always_equal_def)

lemma pointer_compare_eq:
  "a < 2 ^ 31 \<Longrightarrow> b < 2 ^ 31 \<Longrightarrow> pointer_compare a b = 0 \<longleftrightarrow> a = b"
  by (auto simp: pointer_compare_def)

section \<open>Loops that move array elements\<close>

text \<open>\<open>for (; i < n; i++) elms[i] = elms[i + k];\<close>\<close>

function move_down :: "'a list \<Rightarrow> nat \<Rightarrow> nat \<Rightarrow> nat \<Rightarrow> 'a list" where
  "move_down es k i n = (if i < n then move_down (es[i := es ! (i + k)]) k (Suc i) n else es)"
  by pat_completeness auto
termination by (relation "measure (\<lambda>(es, k, i, n). n - i)") auto

text \<open>\<open>while (s >= p) *d-- = *s--;\<close> with \<open>s = d - 1\<close>\<close>

function move_up :: "'a list \<Rightarrow> nat \<Rightarrow> nat \<Rightarrow> 'a list" where
  "move_up es p d = (if p < d then move_up (es[d := es ! (d - 1)]) p (d - 1) else es)"
  by pat_completeness auto
termination by (relation "measure (\<lambda>(es, p, d). d)") auto

text \<open>\<open>for (; i < n; i++) elms[i] = v;\<close>\<close>

function fill_range :: "'a list \<Rightarrow> 'a \<Rightarrow> nat \<Rightarrow> nat \<Rightarrow> 'a list" where
  "fill_range es v i n = (if i < n then fill_range (es[i := v]) v (Suc i) n else es)"
  by pat_completeness auto
termination by (relation "measure (\<lambda>(es, v, i, n). n - i)") auto

declare move_down.simps [simp del] move_up.simps [simp del] fill_range.simps [simp del]

lemma length_move_down [simp]: "length (move_down es k i n) = length es"
  by (induction es k i n rule: move_down.induct) (simp add: move_down.simps)

lemma length_move_up [simp]: "length (move_up es p d) = length es"
  by (induction es p d rule: move_up.induct) (simp add: move_up.simps)

lemma length_fill_range [simp]: "length (fill_range es v i n) = length es"
  by (induction es v i n rule: fill_range.induct) (simp add: fill_range.simps)

lemma nth_move_down:
  "0 < k \<Longrightarrow> n + k \<le> length es \<Longrightarrow> j < length es \<Longrightarrow>
   move_down es k i n ! j = (if i \<le> j \<and> j < n then es ! (j + k) else es ! j)"
proof (induction es k i n rule: move_down.induct)
  case (1 es k i n)
  show ?case
  proof (cases "i < n")
    case True
    with 1 show ?thesis
      by (auto simp: move_down.simps[of es k i n] nth_list_update)
  next
    case False
    then show ?thesis by (auto simp: move_down.simps[of es k i n])
  qed
qed

lemma nth_move_up:
  "d < length es \<Longrightarrow> j < length es \<Longrightarrow>
   move_up es p d ! j = (if p < j \<and> j \<le> d then es ! (j - 1) else es ! j)"
proof (induction es p d rule: move_up.induct)
  case (1 es p d)
  show ?case
  proof (cases "p < d")
    case True
    with 1 show ?thesis
      by (auto simp: move_up.simps[of es p d] nth_list_update)
  next
    case False
    then show ?thesis by (auto simp: move_up.simps[of es p d])
  qed
qed

lemma nth_fill_range:
  "n \<le> length es \<Longrightarrow> j < length es \<Longrightarrow>
   fill_range es v i n ! j = (if i \<le> j \<and> j < n then v else es ! j)"
proof (induction es v i n rule: fill_range.induct)
  case (1 es v i n)
  show ?case
  proof (cases "i < n")
    case True
    with 1 show ?thesis
      by (auto simp: fill_range.simps[of es v i n] nth_list_update)
  next
    case False
    then show ?thesis by (auto simp: fill_range.simps[of es v i n])
  qed
qed

section \<open>List lemmas\<close>

lemma take_move_down:
  assumes "i + k \<le> n" and "n \<le> length es" and "0 < k"
  shows "take (n - k) (move_down es k i (n - k)) = take i es @ drop (i + k) (take n es)"
proof (rule nth_equalityI)
  fix j assume "j < length (take (n - k) (move_down es k i (n - k)))"
  then have j: "j < n - k" "j < length es" using assms by auto
  then show "take (n - k) (move_down es k i (n - k)) ! j = (take i es @ drop (i + k) (take n es)) ! j"
    using assms by (cases "j < i") (auto simp: nth_move_down nth_append ac_simps)
qed (use assms in auto)

lemma take_move_up:
  assumes "p \<le> n" and "n < length es"
  shows "take (Suc n) ((move_up es p n)[p := x]) = take p es @ x # drop p (take n es)"
proof (rule nth_equalityI)
  fix j assume "j < length (take (Suc n) ((move_up es p n)[p := x]))"
  then have j: "j < Suc n" "j < length es" using assms by auto
  then show "take (Suc n) ((move_up es p n)[p := x]) ! j = (take p es @ x # drop p (take n es)) ! j"
    using assms by (cases "j < p"; cases "j = p")
      (auto simp: nth_move_up nth_append nth_Cons' nth_list_update)
qed (use assms in auto)

lemma filter_take_Suc:
  "i < length xs \<Longrightarrow> filter P (take (Suc i) xs) = filter P (take i xs) @ (if P (xs ! i) then [xs ! i] else [])"
  by (simp add: take_Suc_conv_app_nth)

section \<open>Evaluation of pointer programs\<close>

text \<open>
  The rest of a program is not simplified before the value it is bound to is known; with this rule
  the simplifier runs a loop over the heap on concrete states.
\<close>

lemma bind_weak_cong: "m = m' \<Longrightarrow> Option.bind m f = Option.bind m' f"
  by simp

end
