(* ===== verification/TkQsort.thy ===== *)
theory TkQsort
  imports AwtkPrelude
begin

text \<open>
  \<open>tk_qsort\<close> of \<open>src/src/tkc/utils.c\<close>: the in-place quicksort over an array of
  pointers that \<open>darray_sort\<close> calls. The two inner scans, the partition loop that moves a
  hole between the two ends, and the recursion are kept as the code has them; the array is a list
  updated by index. Shown: the partition splits the range around the pivot, and for every
  comparator that is a total preorder the result is a sorted permutation that leaves everything
  outside the range alone.
\<close>

section \<open>The code\<close>

text \<open>\<open>while (cmp(array[right], x) >= 0 && left < right) right--;\<close>\<close>

fun scan_right :: "compare_t \<Rightarrow> ptr list \<Rightarrow> ptr \<Rightarrow> nat \<Rightarrow> nat \<Rightarrow> nat" where
  "scan_right cmp a x left right =
     (if cmp (a ! right) x \<ge> 0 \<and> left < right then scan_right cmp a x left (right - 1) else right)"

text \<open>\<open>while (cmp(array[left], x) <= 0 && left < right) left++;\<close>\<close>

function scan_left :: "compare_t \<Rightarrow> ptr list \<Rightarrow> ptr \<Rightarrow> nat \<Rightarrow> nat \<Rightarrow> nat" where
  "scan_left cmp a x left right =
     (if cmp (a ! left) x \<le> 0 \<and> left < right then scan_left cmp a x (left + 1) right else left)"
  by pat_completeness auto
termination by (relation "measure (\<lambda>(cmp, a, x, l, r). r - l)") auto

declare scan_right.simps [simp del] scan_left.simps [simp del]

lemma scan_right_bounds:
  "left \<le> right \<Longrightarrow> left \<le> scan_right cmp a x left right \<and> scan_right cmp a x left right \<le> right"
proof (induction cmp a x left right rule: scan_right.induct)
  case (1 cmp a x left right)
  show ?case
  proof (cases "cmp (a ! right) x \<ge> 0 \<and> left < right")
    case True
    then have "left \<le> scan_right cmp a x left (right - 1) \<and> scan_right cmp a x left (right - 1) \<le> right - 1"
      using "1.IH" by linarith
    with True show ?thesis by (auto simp: scan_right.simps[of cmp a x left right])
  qed (use "1.prems" in \<open>auto simp: scan_right.simps[of cmp a x left right]\<close>)
qed

lemma scan_left_bounds:
  "left \<le> right \<Longrightarrow> left \<le> scan_left cmp a x left right \<and> scan_left cmp a x left right \<le> right"
proof (induction cmp a x left right rule: scan_left.induct)
  case (1 cmp a x left right)
  show ?case
  proof (cases "cmp (a ! left) x \<le> 0 \<and> left < right")
    case True
    then have "left + 1 \<le> scan_left cmp a x (left + 1) right \<and> scan_left cmp a x (left + 1) right \<le> right"
      using 1 by simp
    with True show ?thesis by (auto simp: scan_left.simps[of cmp a x left right])
  qed (use "1.prems" in \<open>auto simp: scan_left.simps[of cmp a x left right]\<close>)
qed

text \<open>The body of the outer loop: one move from the right end, one from the left end.\<close>

definition qs_from_right :: "compare_t \<Rightarrow> ptr list \<Rightarrow> ptr \<Rightarrow> nat \<Rightarrow> nat \<Rightarrow> ptr list \<times> nat \<times> nat" where
  "qs_from_right cmp a x left right =
     (let right = scan_right cmp a x left right
      in if left \<noteq> right then (a[left := a ! right], left + 1, right) else (a, left, right))"

definition qs_from_left :: "compare_t \<Rightarrow> ptr list \<Rightarrow> ptr \<Rightarrow> nat \<Rightarrow> nat \<Rightarrow> ptr list \<times> nat \<times> nat" where
  "qs_from_left cmp a x left right =
     (let left = scan_left cmp a x left right
      in if left \<noteq> right then (a[right := a ! left], left, right - 1) else (a, left, right))"

lemma qs_from_right_bounds:
  "left < right \<Longrightarrow> qs_from_right cmp a x left right = (a', left', right') \<Longrightarrow>
   left \<le> left' \<and> left' \<le> right' \<and> right' \<le> right \<and> right' - left' < right - left"
  using scan_right_bounds[of left right cmp a x]
  by (auto simp: qs_from_right_def Let_def split: if_splits)

lemma qs_from_left_bounds:
  "left \<le> right \<Longrightarrow> qs_from_left cmp a x left right = (a', left', right') \<Longrightarrow>
   left \<le> left' \<and> left' \<le> right' \<and> right' \<le> right"
  using scan_left_bounds[of left right cmp a x]
  by (auto simp: qs_from_left_def Let_def split: if_splits)

function qs_partition :: "compare_t \<Rightarrow> ptr list \<Rightarrow> ptr \<Rightarrow> nat \<Rightarrow> nat \<Rightarrow> ptr list \<times> nat" where
  "qs_partition cmp a x left right =
     (if left < right then
        (case qs_from_right cmp a x left right of (a1, left1, right1) \<Rightarrow>
           (case qs_from_left cmp a1 x left1 right1 of (a2, left2, right2) \<Rightarrow>
              qs_partition cmp a2 x left2 right2))
      else (a, left))"
  by pat_completeness auto
termination
proof (relation "measure (\<lambda>(cmp, a, x, l, r). r - l)", goal_cases)
  case (2 cmp a x left right a1 t1 left1 right1 a2 t2 left2 right2)
  then have "left1 \<le> right1 \<and> right1 - left1 < right - left" "left1 \<le> left2 \<and> left2 \<le> right2 \<and> right2 \<le> right1"
    using qs_from_right_bounds[of left right cmp a x a1 left1 right1]
      qs_from_left_bounds[of left1 right1 cmp a1 x a2 left2 right2] by auto
  with 2 show ?case by auto
qed simp

declare qs_partition.simps [simp del]

lemma qs_partition_empty: "\<not> left < right \<Longrightarrow> qs_partition cmp a x left right = (a, left)"
  by (simp add: qs_partition.simps)

lemma qs_partition_bounds:
  "left \<le> right \<Longrightarrow> qs_partition cmp a x left right = (a', m) \<Longrightarrow> left \<le> m \<and> m \<le> right"
proof (induction cmp a x left right rule: qs_partition.induct)
  case (1 cmp a x left right)
  show ?case
  proof (cases "left < right")
    case True
    obtain a1 l1 r1 where r: "qs_from_right cmp a x left right = (a1, l1, r1)" by (cases "qs_from_right cmp a x left right")
    obtain a2 l2 r2 where l: "qs_from_left cmp a1 x l1 r1 = (a2, l2, r2)" by (cases "qs_from_left cmp a1 x l1 r1")
    note b = qs_from_right_bounds[OF True r]
    note b' = qs_from_left_bounds[OF _ l]
    have "qs_partition cmp a2 x l2 r2 = (a', m)"
      using "1.prems"(2) True r l by (simp add: qs_partition.simps[of cmp a x left right])
    then have "l2 \<le> m \<and> m \<le> r2"
      using "1.IH"[OF True r[symmetric] refl l[symmetric] refl] b b' by auto
    then show ?thesis using b b' by auto
  next
    case False
    then have "m = left" using "1.prems"(2) qs_partition_empty[of left right cmp a x] by simp
    then show ?thesis using "1.prems"(1) by simp
  qed
qed

lemma qs_partition_inside:
  "qs_partition cmp a x left right = (a', m) \<Longrightarrow> left \<le> m \<and> (left < m \<longrightarrow> m \<le> right)"
  using qs_partition_bounds[of left right cmp a x a' m] qs_partition_empty[of left right cmp a x]
  by (cases "left < right") auto

function tk_quick_sort_impl :: "compare_t \<Rightarrow> ptr list \<Rightarrow> nat \<Rightarrow> nat \<Rightarrow> ptr list" where
  "tk_quick_sort_impl cmp a save_left save_right =
     (let x = a ! save_left
      in case qs_partition cmp a x save_left save_right of (a1, left) \<Rightarrow>
           (let a2 = a1[left := x];
                a3 = (if save_left < left then tk_quick_sort_impl cmp a2 save_left (left - 1) else a2)
            in if save_right > left then tk_quick_sort_impl cmp a3 (left + 1) save_right else a3))"
  by pat_completeness auto
termination
proof (relation "measure (\<lambda>(cmp, a, l, r). r - l)", goal_cases)
  case (2 cmp a save_left save_right x a1 left)
  then show ?case
    using qs_partition_inside[of cmp a x save_left save_right a1 left] by auto
next
  case (3 cmp a save_left save_right x a1 left)
  then show ?case
    using qs_partition_inside[of cmp a x save_left save_right a1 left] by auto
qed simp

declare tk_quick_sort_impl.simps [simp del]

definition tk_qsort :: "compare_t \<Rightarrow> ptr list \<Rightarrow> nat \<Rightarrow> ret_t \<times> ptr list" where
  "tk_qsort cmp a nr = (RET_OK, if nr > 1 then tk_quick_sort_impl cmp a 0 (nr - 1) else a)"

section \<open>The partition\<close>

text \<open>
  One move keeps the multiset that the array has once the pivot is put back into the hole, leaves
  everything outside the current range alone, and extends the two finished ends.
\<close>

definition qs_moved :: "compare_t \<Rightarrow> ptr \<Rightarrow> ptr list \<Rightarrow> nat \<Rightarrow> nat \<Rightarrow> ptr list \<Rightarrow> nat \<Rightarrow> nat \<Rightarrow> bool" where
  "qs_moved cmp x a left right a' left' right' \<longleftrightarrow>
     length a' = length a \<and>
     (\<forall>i. i < left \<or> right < i \<longrightarrow> a' ! i = a ! i) \<and>
     (\<forall>i. left \<le> i \<and> i < left' \<longrightarrow> cmp (a' ! i) x \<le> 0) \<and>
     (\<forall>i. right' < i \<and> i \<le> right \<longrightarrow> 0 \<le> cmp (a' ! i) x)"

lemma scan_right_passed:
  "scan_right cmp a x left right < i \<Longrightarrow> i \<le> right \<Longrightarrow> 0 \<le> cmp (a ! i) x"
proof (induction cmp a x left right rule: scan_right.induct)
  case (1 cmp a x left right)
  show ?case
  proof (cases "cmp (a ! right) x \<ge> 0 \<and> left < right")
    case True
    then have "scan_right cmp a x left right = scan_right cmp a x left (right - 1)"
      by (simp add: scan_right.simps[of cmp a x left right])
    then show ?thesis using 1 True by (cases "i = right") auto
  next
    case False
    then have "scan_right cmp a x left right = right" by (subst scan_right.simps) auto
    then show ?thesis using "1.prems" by simp
  qed
qed

lemma scan_right_stop:
  "scan_right cmp a x left right \<noteq> left \<Longrightarrow> left \<le> right \<Longrightarrow>
   cmp (a ! scan_right cmp a x left right) x < 0"
proof (induction cmp a x left right rule: scan_right.induct)
  case (1 cmp a x left right)
  show ?case
  proof (cases "cmp (a ! right) x \<ge> 0 \<and> left < right")
    case True
    then have "scan_right cmp a x left right = scan_right cmp a x left (right - 1)"
      by (simp add: scan_right.simps[of cmp a x left right])
    then show ?thesis using 1 True by auto
  next
    case False
    then have "scan_right cmp a x left right = right" by (subst scan_right.simps) auto
    then show ?thesis using "1.prems" False by auto
  qed
qed

lemma scan_left_passed:
  "left \<le> i \<Longrightarrow> i < scan_left cmp a x left right \<Longrightarrow> cmp (a ! i) x \<le> 0"
proof (induction cmp a x left right rule: scan_left.induct)
  case (1 cmp a x left right)
  show ?case
  proof (cases "cmp (a ! left) x \<le> 0 \<and> left < right")
    case True
    then have "scan_left cmp a x left right = scan_left cmp a x (left + 1) right"
      by (simp add: scan_left.simps[of cmp a x left right])
    then show ?thesis using 1 True by (cases "i = left") auto
  next
    case False
    then have "scan_left cmp a x left right = left" by (subst scan_left.simps) auto
    then show ?thesis using "1.prems" by simp
  qed
qed

lemma scan_left_stop:
  "scan_left cmp a x left right \<noteq> right \<Longrightarrow> left \<le> right \<Longrightarrow>
   0 < cmp (a ! scan_left cmp a x left right) x"
proof (induction cmp a x left right rule: scan_left.induct)
  case (1 cmp a x left right)
  show ?case
  proof (cases "cmp (a ! left) x \<le> 0 \<and> left < right")
    case True
    then have "scan_left cmp a x left right = scan_left cmp a x (left + 1) right"
      by (simp add: scan_left.simps[of cmp a x left right])
    then show ?thesis using 1 True by auto
  next
    case False
    then have "scan_left cmp a x left right = left" by (subst scan_left.simps) auto
    then show ?thesis using "1.prems" False by auto
  qed
qed

text \<open>Moving the element at \<open>j\<close> into the hole at \<open>i\<close> and the hole to \<open>j\<close>.\<close>

lemma mset_move_hole:
  assumes "i < length a" and "j < length a"
  shows "mset (a[i := a ! j, j := x]) = mset (a[i := x])"
proof (cases "i = j")
  case False
  let ?b = "a[i := x]"
  have "a[i := a ! j, j := x] = ?b[j := ?b ! i, i := ?b ! j]"
    using False assms by (intro nth_equalityI) (auto simp: nth_list_update)
  then show ?thesis using assms mset_swap[of i ?b j] by simp
qed simp

lemma qs_from_right_moved:
  assumes "left < right" and "right < length a" and "qs_from_right cmp a x left right = (a', left', right')"
  shows "qs_moved cmp x a left right a' left' right'"
    and "mset (a'[right' := x]) = mset (a[left := x])"
proof -
  let ?r = "scan_right cmp a x left right"
  have b: "left \<le> ?r" "?r \<le> right" using scan_right_bounds assms(1) by (simp_all add: less_imp_le)
  show "qs_moved cmp x a left right a' left' right'"
    using assms b scan_right_passed[of cmp a x left right] scan_right_stop[of cmp a x left right]
    by (auto simp: qs_from_right_def Let_def qs_moved_def nth_list_update less_Suc_eq split: if_splits)
  show "mset (a'[right' := x]) = mset (a[left := x])"
    using assms b by (auto simp: qs_from_right_def Let_def mset_move_hole split: if_splits)
qed

lemma qs_from_left_moved:
  assumes "left \<le> right" and "right < length a" and "qs_from_left cmp a x left right = (a', left', right')"
  shows "qs_moved cmp x a left right a' left' right'"
    and "mset (a'[left' := x]) = mset (a[right := x])"
proof -
  let ?l = "scan_left cmp a x left right"
  have b: "left \<le> ?l" "?l \<le> right" using scan_left_bounds assms(1) by simp_all
  show "qs_moved cmp x a left right a' left' right'"
    using assms b scan_left_passed[of left _ cmp a x right] scan_left_stop[of cmp a x left right]
    by (auto simp: qs_from_left_def Let_def qs_moved_def nth_list_update split: if_splits)
  show "mset (a'[left' := x]) = mset (a[right := x])"
    using assms b by (auto simp: qs_from_left_def Let_def mset_move_hole split: if_splits)
qed

lemma qs_moved_trans:
  assumes "qs_moved cmp x a l r a1 l1 r1" and "qs_moved cmp x a1 l1 r1 a2 l2 r2"
    and "l \<le> l1" and "r1 \<le> r"
  shows "qs_moved cmp x a l r a2 l2 r2"
  unfolding qs_moved_def
proof (intro conjI allI impI)
  fix i assume i: "l \<le> i \<and> i < l2"
  show "cmp (a2 ! i) x \<le> 0"
  proof (cases "i < l1")
    case True
    then have "a2 ! i = a1 ! i" using assms(2) by (simp add: qs_moved_def)
    then show ?thesis using assms(1) i True by (simp add: qs_moved_def)
  qed (use assms(2) i in \<open>simp add: qs_moved_def\<close>)
next
  fix i assume i: "r2 < i \<and> i \<le> r"
  show "0 \<le> cmp (a2 ! i) x"
  proof (cases "r1 < i")
    case True
    then have "a2 ! i = a1 ! i" using assms(2) by (simp add: qs_moved_def)
    then show ?thesis using assms(1) i True by (simp add: qs_moved_def)
  qed (use assms(2) i in \<open>simp add: qs_moved_def\<close>)
next
  fix i assume i: "i < l \<or> r < i"
  then have "a2 ! i = a1 ! i" using assms(2,3,4) by (auto simp: qs_moved_def)
  then show "a2 ! i = a ! i" using assms(1) i by (auto simp: qs_moved_def)
qed (use assms(1,2) in \<open>simp add: qs_moved_def\<close>)

lemma qs_partition_moved:
  "right < length a \<Longrightarrow> left \<le> right \<Longrightarrow> qs_partition cmp a x left right = (a', m) \<Longrightarrow>
   qs_moved cmp x a left right a' m m \<and> mset (a'[m := x]) = mset (a[left := x])"
proof (induction cmp a x left right rule: qs_partition.induct)
  case (1 cmp a x left right)
  show ?case
  proof (cases "left < right")
    case True
    obtain a1 l1 r1 where r: "qs_from_right cmp a x left right = (a1, l1, r1)" by (cases "qs_from_right cmp a x left right")
    obtain a2 l2 r2 where l: "qs_from_left cmp a1 x l1 r1 = (a2, l2, r2)" by (cases "qs_from_left cmp a1 x l1 r1")
    note b = qs_from_right_bounds[OF True r]
    note rm = qs_from_right_moved[OF True "1.prems"(1) r]
    have len: "length a1 = length a" using rm(1) by (simp add: qs_moved_def)
    have lm: "qs_moved cmp x a1 l1 r1 a2 l2 r2" "mset (a2[l2 := x]) = mset (a1[r1 := x])"
      using qs_from_left_moved[OF _ _ l] b len "1.prems"(1) by auto
    have b': "l1 \<le> l2 \<and> l2 \<le> r2 \<and> r2 \<le> r1" using qs_from_left_bounds[OF _ l] b by simp
    have len2: "length a2 = length a" using lm(1) len by (simp add: qs_moved_def)
    have "qs_partition cmp a2 x l2 r2 = (a', m)"
      using "1.prems"(3) True r l by (simp add: qs_partition.simps[of cmp a x left right])
    then have ih: "qs_moved cmp x a2 l2 r2 a' m m \<and> mset (a'[m := x]) = mset (a2[l2 := x])"
      using "1.IH"[OF True r[symmetric] refl l[symmetric] refl] b b' "1.prems"(1) len2 by auto
    have "qs_moved cmp x a left right a2 l2 r2"
      using qs_moved_trans[OF rm(1) lm(1)] b by simp
    then have "qs_moved cmp x a left right a' m m"
      using qs_moved_trans ih b b' by (meson le_trans)
    then show ?thesis using ih lm(2) rm(2) by simp
  next
    case False
    then have "a' = a" "m = left" using "1.prems"(3) qs_partition_empty[of left right cmp a x] by auto
    then show ?thesis using "1.prems"(2) False by (simp add: qs_moved_def)
  qed
qed

section \<open>The recursion\<close>

text \<open>The elements of the range and what a permutation inside the range keeps.\<close>

definition seg :: "'a list \<Rightarrow> nat \<Rightarrow> nat \<Rightarrow> 'a list" where
  "seg a l r = take (Suc r - l) (drop l a)"

definition same_outside :: "nat \<Rightarrow> nat \<Rightarrow> 'a list \<Rightarrow> 'a list \<Rightarrow> bool" where
  "same_outside l r a a' \<longleftrightarrow> length a' = length a \<and> mset a' = mset a \<and> (\<forall>i. i < l \<or> r < i \<longrightarrow> a' ! i = a ! i)"

lemma all_seg:
  assumes "r < length a"
  shows "(\<forall>y \<in> set (seg a l r). P y) \<longleftrightarrow> (\<forall>i. l \<le> i \<and> i \<le> r \<longrightarrow> P (a ! i))"
proof -
  have "(\<forall>y \<in> set (seg a l r). P y) \<longleftrightarrow> (\<forall>k < length (seg a l r). P (seg a l r ! k))"
    by (metis in_set_conv_nth)
  also have "\<dots> \<longleftrightarrow> (\<forall>k < Suc r - l. P (a ! (l + k)))"
    using assms by (auto simp: seg_def)
  also have "\<dots> \<longleftrightarrow> (\<forall>i. l \<le> i \<and> i \<le> r \<longrightarrow> P (a ! i))"
  proof (intro iffI allI impI)
    fix i assume *: "\<forall>k < Suc r - l. P (a ! (l + k))" and i: "l \<le> i \<and> i \<le> r"
    then have "i - l < Suc r - l" by arith
    with * have "P (a ! (l + (i - l)))" by blast
    then show "P (a ! i)" using i by simp
  qed auto
  finally show ?thesis .
qed

lemma seg_split: "l \<le> Suc r \<Longrightarrow> a = take l a @ seg a l r @ drop (Suc r) a"
  by (metis append_take_drop_id drop_drop le_add_diff_inverse2 seg_def)

lemma same_outside_seg:
  assumes "same_outside l r a a'" and "l \<le> Suc r"
  shows "mset (seg a' l r) = mset (seg a l r)"
proof -
  have "take l a' = take l a" and "drop (Suc r) a' = drop (Suc r) a"
    using assms(1) by (auto simp: same_outside_def intro!: nth_equalityI)
  moreover have "mset a' = mset a" using assms(1) by (simp add: same_outside_def)
  ultimately show ?thesis
    using seg_split[OF assms(2), of a] seg_split[OF assms(2), of a']
    by (metis add_left_cancel add_right_cancel mset_append)
qed

lemma same_outside_all:
  assumes "same_outside l r a a'" and "l \<le> Suc r" and "r < length a"
    and "\<forall>i. l \<le> i \<and> i \<le> r \<longrightarrow> P (a ! i)"
  shows "\<forall>i. l \<le> i \<and> i \<le> r \<longrightarrow> P (a' ! i)"
proof -
  have "set (seg a' l r) = set (seg a l r)"
    using same_outside_seg[OF assms(1,2)] by (metis set_mset_mset)
  moreover have "length a' = length a" using assms(1) by (simp add: same_outside_def)
  ultimately show ?thesis
    using all_seg[OF assms(3), of l P] all_seg[of r a' l P] assms(3,4) by simp
qed

lemma same_outside_trans:
  "same_outside l r a b \<Longrightarrow> same_outside l' r' b c \<Longrightarrow> l \<le> l' \<Longrightarrow> r' \<le> r \<Longrightarrow> same_outside l r a c"
  unfolding same_outside_def by (metis le_less_trans less_le_trans)

definition range_sorted :: "compare_t \<Rightarrow> ptr list \<Rightarrow> nat \<Rightarrow> nat \<Rightarrow> bool" where
  "range_sorted cmp a l r \<longleftrightarrow> (\<forall>i j. l \<le> i \<and> i < j \<and> j \<le> r \<longrightarrow> cmp (a ! i) (a ! j) \<le> 0)"

text \<open>Two sorted ends around a pivot make a sorted range.\<close>

lemma range_sorted_join:
  assumes "comparator ok cmp" and "\<forall>i. l \<le> i \<and> i \<le> r \<longrightarrow> ok (a ! i)" and "l \<le> m" and "m \<le> r"
    and lower: "\<forall>i. l \<le> i \<and> i < m \<longrightarrow> cmp (a ! i) (a ! m) \<le> 0"
    and upper: "\<forall>i. m < i \<and> i \<le> r \<longrightarrow> 0 \<le> cmp (a ! i) (a ! m)"
    and left: "l < m \<longrightarrow> range_sorted cmp a l (m - 1)"
    and right: "m < r \<longrightarrow> range_sorted cmp a (m + 1) r"
  shows "range_sorted cmp a l r"
  unfolding range_sorted_def
proof (intro allI impI)
  fix i j assume ij: "l \<le> i \<and> i < j \<and> j \<le> r"
  have up: "cmp (a ! m) (a ! j) \<le> 0" if "m < j"
    using that upper ij assms(2,3,4) comparator.cmp_sym[OF assms(1), of "a ! j" "a ! m"] by auto
  consider "j < m" | "m < i" | "i \<le> m \<and> m \<le> j" by linarith
  then show "cmp (a ! i) (a ! j) \<le> 0"
  proof cases
    case 1
    then show ?thesis using left ij by (auto simp: range_sorted_def)
  next
    case 2
    then show ?thesis using right ij by (auto simp: range_sorted_def)
  next
    case 3
    show ?thesis
    proof (cases "i = m \<or> j = m")
      case True
      then show ?thesis using ij up lower 3 by auto
    next
      case False
      then have "cmp (a ! i) (a ! m) \<le> 0" "cmp (a ! m) (a ! j) \<le> 0" using up lower ij 3 by auto
      moreover have "ok (a ! i)" "ok (a ! m)" "ok (a ! j)"
        using assms(2) ij 3 by auto
      ultimately show ?thesis using comparator.cmp_trans[OF assms(1)] by blast
    qed
  qed
qed

text \<open>What the body of one call has done before the first recursive call.\<close>

lemma qs_split_around_pivot:
  assumes "left \<le> right" and "right < length a" and "qs_partition cmp a (a ! left) left right = (a1, m)"
  defines "b \<equiv> a1[m := a ! left]"
  shows "left \<le> m" and "m \<le> right" and "same_outside left right a b" and "b ! m = a ! left"
    and "\<forall>i. left \<le> i \<and> i < m \<longrightarrow> cmp (b ! i) (a ! left) \<le> 0"
    and "\<forall>i. m < i \<and> i \<le> right \<longrightarrow> 0 \<le> cmp (b ! i) (a ! left)"
proof -
  note bm = qs_partition_bounds[OF assms(1,3)]
  note pm = qs_partition_moved[OF assms(2,1,3)]
  show "left \<le> m" "m \<le> right" using bm by simp_all
  show "same_outside left right a b"
    using pm bm by (auto simp: same_outside_def qs_moved_def b_def)
  show "b ! m = a ! left"
    using pm bm assms(2) by (simp add: b_def qs_moved_def)
  show "\<forall>i. left \<le> i \<and> i < m \<longrightarrow> cmp (b ! i) (a ! left) \<le> 0"
    "\<forall>i. m < i \<and> i \<le> right \<longrightarrow> 0 \<le> cmp (b ! i) (a ! left)"
    using pm bm by (auto simp: b_def qs_moved_def)
qed

lemma tk_quick_sort_impl_correct:
  "comparator ok cmp \<Longrightarrow> left \<le> right \<Longrightarrow> right < length a \<Longrightarrow> \<forall>i. left \<le> i \<and> i \<le> right \<longrightarrow> ok (a ! i) \<Longrightarrow>
    same_outside left right a (tk_quick_sort_impl cmp a left right) \<and>
    range_sorted cmp (tk_quick_sort_impl cmp a left right) left right"
proof (induction cmp a left right rule: tk_quick_sort_impl.induct)
  case (1 cmp a left right)
  obtain a1 m where p: "qs_partition cmp a (a ! left) left right = (a1, m)"
    by (cases "qs_partition cmp a (a ! left) left right")
  define b where "b = a1[m := a ! left]"
  define c where "c = (if left < m then tk_quick_sort_impl cmp b left (m - 1) else b)"
  define d where "d = (if right > m then tk_quick_sort_impl cmp c (m + 1) right else c)"
  have d: "tk_quick_sort_impl cmp a left right = d"
    using p by (simp add: tk_quick_sort_impl.simps[of cmp a left right] b_def c_def d_def)
  note sp = qs_split_around_pivot[OF "1.prems"(2,3) p, folded b_def]
  have len: "length b = length a" using sp(3) by (simp add: same_outside_def)
  have ok_b: "\<forall>i. left \<le> i \<and> i \<le> right \<longrightarrow> ok (b ! i)"
    using same_outside_all[OF sp(3), of ok] "1.prems" by simp
  have c: "same_outside left (m - 1) b c \<and> (left < m \<longrightarrow> range_sorted cmp c left (m - 1))"
  proof (cases "left < m")
    case True
    have "same_outside left (m - 1) b (tk_quick_sort_impl cmp b left (m - 1)) \<and>
        range_sorted cmp (tk_quick_sort_impl cmp b left (m - 1)) left (m - 1)"
      using "1.IH"(1)[OF refl p[symmetric] b_def True] "1.prems"(1) True sp(2) "1.prems"(3) len ok_b by fastforce
    then show ?thesis using True by (simp add: c_def)
  qed (simp add: c_def same_outside_def)
  have bc: "same_outside left right b c"
    using c sp(2) by (intro same_outside_trans[of left right b b left "m - 1" c]) (auto simp: same_outside_def)
  have ok_c: "\<forall>i. left \<le> i \<and> i \<le> right \<longrightarrow> ok (c ! i)"
    using same_outside_all[OF bc, of ok] ok_b len "1.prems"(2,3) by simp
  have cd: "same_outside (m + 1) right c d \<and> (m < right \<longrightarrow> range_sorted cmp d (m + 1) right)"
  proof (cases "m < right")
    case True
    have "length c = length a" using bc len by (simp add: same_outside_def)
    then have "same_outside (m + 1) right c (tk_quick_sort_impl cmp c (m + 1) right) \<and>
        range_sorted cmp (tk_quick_sort_impl cmp c (m + 1) right) (m + 1) right"
      using "1.IH"(2)[OF refl p[symmetric] b_def c_def True] "1.prems"(1) True sp(1) "1.prems"(3) ok_c by fastforce
    then show ?thesis using True by (simp add: d_def)
  qed (simp add: d_def same_outside_def)
  have bd: "same_outside left right b d"
    using same_outside_trans[OF bc, of "m + 1" right d] cd sp(1) by simp
  have cb: "c ! i = b ! i" if "m \<le> i" for i
    using that c by (cases "left < m") (auto simp: same_outside_def c_def)
  have dc: "d ! i = c ! i" if "i \<le> m" for i
    using that cd by (auto simp: same_outside_def)
  have dm: "d ! m = a ! left" using cb[of m] dc[of m] sp(4) by simp
  have lower: "\<forall>i. left \<le> i \<and> i < m \<longrightarrow> cmp (d ! i) (d ! m) \<le> 0"
  proof (cases "left < m")
    case True
    then have "\<forall>i. left \<le> i \<and> i \<le> m - 1 \<longrightarrow> cmp (c ! i) (a ! left) \<le> 0"
      using same_outside_all[of left "m - 1" b c "\<lambda>y. cmp y (a ! left) \<le> 0"] c sp(2,5) len "1.prems"(3)
      by fastforce
    then show ?thesis using dc dm by auto
  qed simp
  have upper: "\<forall>i. m < i \<and> i \<le> right \<longrightarrow> 0 \<le> cmp (d ! i) (d ! m)"
    using same_outside_all[of "m + 1" right c d "\<lambda>y. 0 \<le> cmp y (a ! left)"] cd cb sp(2,6) bc len
      "1.prems"(3) dm by (auto simp: same_outside_def Suc_le_eq)
  have "left < m \<longrightarrow> range_sorted cmp d left (m - 1)"
    using c dc by (auto simp: range_sorted_def)
  then have "range_sorted cmp d left right"
    using range_sorted_join[OF "1.prems"(1) _ sp(1,2) lower upper] cd same_outside_all[OF bd, of ok] ok_b len
      "1.prems"(2,3) by simp
  moreover have "same_outside left right a d"
    using same_outside_trans[OF sp(3) bd] by simp
  ultimately show ?case by (simp add: d)
qed

text \<open>
  \<open>darray_sort\<close> and every other caller use \<open>tk_qsort\<close> through this fact: the first
  \<open>nr\<close> elements become a sorted permutation of themselves, the rest of the array stays.
\<close>

lemma tk_qsort_spec:
  assumes "comparator ok cmp" and "nr \<le> length a" and "\<forall>i < nr. ok (a ! i)"
  shows "fst (tk_qsort cmp a nr) = RET_OK"
    and "length (snd (tk_qsort cmp a nr)) = length a"
    and "mset (take nr (snd (tk_qsort cmp a nr))) = mset (take nr a)"
    and "drop nr (snd (tk_qsort cmp a nr)) = drop nr a"
    and "sorted_wrt (\<lambda>x y. cmp x y \<le> 0) (take nr (snd (tk_qsort cmp a nr)))"
proof -
  let ?b = "snd (tk_qsort cmp a nr)"
  show "fst (tk_qsort cmp a nr) = RET_OK" by (simp add: tk_qsort_def)
  have b: "length ?b = length a \<and> mset (take nr ?b) = mset (take nr a) \<and> drop nr ?b = drop nr a \<and>
     sorted_wrt (\<lambda>x y. cmp x y \<le> 0) (take nr ?b)"
  proof (cases "nr > 1")
    case True
    have s: "same_outside 0 (nr - 1) a ?b \<and> range_sorted cmp ?b 0 (nr - 1)"
      using tk_quick_sort_impl_correct[of ok cmp 0 "nr - 1" a] assms True by (auto simp: tk_qsort_def)
    then have "length ?b = length a" "drop nr ?b = drop nr a"
      using assms(2) True by (auto simp: same_outside_def intro!: nth_equalityI)
    moreover have "mset (take nr ?b) = mset (take nr a)"
      using same_outside_seg[of 0 "nr - 1" a ?b] s True by (simp add: seg_def)
    moreover have "sorted_wrt (\<lambda>x y. cmp x y \<le> 0) (take nr ?b)"
      using s True by (auto simp: range_sorted_def sorted_wrt_iff_nth_less)
    ultimately show ?thesis by simp
  next
    case False
    then have "nr = 0 \<or> nr = 1" by linarith
    then show ?thesis using False by (cases a) (auto simp: tk_qsort_def)
  qed
  show "length ?b = length a" "mset (take nr ?b) = mset (take nr a)" "drop nr ?b = drop nr a"
    "sorted_wrt (\<lambda>x y. cmp x y \<le> 0) (take nr ?b)"
    using b by simp_all
qed

end
