(* ===== verification/Darray.thy ===== *)
theory Darray
  imports TkQsort
begin

text \<open>
  The dynamic array of \<open>src/src/tkc/darray.c\<close>, operation by operation. The block
  \<open>elms\<close> is a list whose length is the capacity (\<open>None\<close> when it has never been
  allocated); \<open>size\<close> and \<open>capacity\<close> are the 32-bit counters. Calls of the element
  destructor are recorded in \<open>da_destroyed\<close>, in the order of the calls. The memory allocator
  is a parameter \<open>alloc\<close>: whether a block of that many pointers is granted.
\<close>

section \<open>State\<close>

record darray =
  da_size :: nat
  da_capacity :: nat
  da_elms :: "ptr list option"
  da_compare :: "compare_t option"
  da_destroyed :: "ptr list"

definition elms_of :: "darray \<Rightarrow> ptr list" where
  "elms_of d = (case da_elms d of None \<Rightarrow> [] | Some es \<Rightarrow> es)"

text \<open>What a client sees: the elements in use.\<close>

definition darray_abs :: "darray \<Rightarrow> ptr list" where
  "darray_abs d = take (da_size d) (elms_of d)"

text \<open>
  The call through \<open>darray->compare\<close>: the pointer is set by \<open>darray_init\<close> and NULL
  only after \<open>darray_deinit\<close>, where such a call would trap.
\<close>

definition own_compare :: "darray \<Rightarrow> compare_t" where
  "own_compare d = the (da_compare d)"

text \<open>
  The bound on the capacity is the range in which the \<open>int32_t\<close> loop variables of the code
  are exact.
\<close>

definition darray_inv :: "darray \<Rightarrow> bool" where
  "darray_inv d \<longleftrightarrow> da_size d \<le> da_capacity d \<and> length (elms_of d) = da_capacity d \<and>
     da_capacity d < 2 ^ 31 \<and> (da_elms d = None \<longrightarrow> da_capacity d = 0) \<and> da_compare d \<noteq> None"

section \<open>Operations\<close>

text \<open>
  The second component is whether the array is returned (\<open>False\<close> for the NULL of a failed
  allocation).
\<close>

definition darray_init :: "alloc_t \<Rightarrow> nat \<Rightarrow> compare_t option \<Rightarrow> darray \<times> bool" where
  "darray_init alloc capacity compare =
     (let d = \<lparr>da_size = 0, da_capacity = 0, da_elms = None,
               da_compare = Some (case compare of Some c \<Rightarrow> c | None \<Rightarrow> pointer_compare),
               da_destroyed = []\<rparr>
      in if capacity > 0 then
           (if alloc capacity
            then (d\<lparr>da_elms := Some (replicate capacity NULL), da_capacity := capacity\<rparr>, True)
            else (d, False))
         else (d, True))"

definition darray_create :: "alloc_t \<Rightarrow> nat \<Rightarrow> compare_t option \<Rightarrow> darray option" where
  "darray_create alloc capacity compare =
     (case darray_init alloc capacity compare of (d, ok) \<Rightarrow> if ok then Some d else None)"

text \<open>
  \<open>realloc\<close> keeps the old elements; the elements past the old capacity are set to NULL.
\<close>

definition darray_extend :: "alloc_t \<Rightarrow> darray \<Rightarrow> nat \<Rightarrow> ret_t \<times> darray" where
  "darray_extend alloc d capacity =
     (if capacity = 0 \<or> (da_elms d \<noteq> None \<and> capacity \<le> da_capacity d) then (RET_OK, d)
      else let old_capacity = da_capacity d
           in if alloc capacity
              then (RET_OK, d\<lparr>da_elms := Some (take capacity (elms_of d) @ replicate (capacity - old_capacity) NULL),
                              da_capacity := capacity\<rparr>)
              else (RET_FAIL, d))"

definition darray_auto_extend :: "alloc_t \<Rightarrow> darray \<Rightarrow> bool \<times> darray" where
  "darray_auto_extend alloc d =
     (if da_elms d \<noteq> None \<and> da_size d < da_capacity d then (True, d)
      else let capacity = u32 (da_capacity d div 2 + da_capacity d + 1)
           in case darray_extend alloc d capacity of (r, d') \<Rightarrow> (r = RET_OK, d'))"

text \<open>The scan \<open>for (i = 0; i < size; i++)\<close> with \<open>int32_t size\<close>.\<close>

function find_index_loop :: "compare_t \<Rightarrow> ptr list \<Rightarrow> ptr \<Rightarrow> nat \<Rightarrow> int \<Rightarrow> int" where
  "find_index_loop cmp es data i sz =
     (if int i < sz then
        (if cmp (es ! i) data = 0 then int i else find_index_loop cmp es data (Suc i) sz)
      else -1)"
  by pat_completeness auto
termination by (relation "measure (\<lambda>(cmp, es, data, i, sz). nat (sz - int i))") auto

definition darray_find_index_ex :: "darray \<Rightarrow> compare_t option \<Rightarrow> ptr \<Rightarrow> int" where
  "darray_find_index_ex d compare data =
     (let cmp = (case compare of
                   None \<Rightarrow> (case da_compare d of Some c \<Rightarrow> c | None \<Rightarrow> pointer_compare)
                 | Some c \<Rightarrow> c)
      in find_index_loop cmp (elms_of d) data 0 (s32 (int (da_size d))))"

definition darray_find_index :: "darray \<Rightarrow> ptr \<Rightarrow> int" where
  "darray_find_index d data = darray_find_index_ex d None data"

definition darray_find_ex :: "darray \<Rightarrow> compare_t option \<Rightarrow> ptr \<Rightarrow> ptr" where
  "darray_find_ex d cmp ctx =
     (let pos = darray_find_index_ex d cmp ctx in if pos \<ge> 0 then elms_of d ! nat pos else NULL)"

definition darray_find :: "darray \<Rightarrow> ptr \<Rightarrow> ptr" where
  "darray_find d data = darray_find_ex d None data"

text \<open>\<open>darray->destroy(iter)\<close>\<close>

definition destroy_elem :: "ptr \<Rightarrow> darray \<Rightarrow> darray" where
  "destroy_elem p d = d\<lparr>da_destroyed := da_destroyed d @ [p]\<rparr>"

definition set_elms :: "ptr list \<Rightarrow> darray \<Rightarrow> darray" where
  "set_elms es d = d\<lparr>da_elms := (case da_elms d of None \<Rightarrow> None | Some _ \<Rightarrow> Some es)\<rparr>"

definition darray_remove_index :: "darray \<Rightarrow> nat \<Rightarrow> ret_t \<times> darray" where
  "darray_remove_index d index =
     (if index < da_size d then
        (let iter = elms_of d ! index;
             es = move_down (elms_of d) 1 index (da_size d - 1);
             es = es[da_size d - 1 := NULL]
         in (RET_OK, destroy_elem iter ((set_elms es d)\<lparr>da_size := da_size d - 1\<rparr>)))
      else (RET_BAD_PARAMS, d))"

definition darray_remove_range :: "alloc_t \<Rightarrow> darray \<Rightarrow> nat \<Rightarrow> nat \<Rightarrow> ret_t \<times> darray" where
  "darray_remove_range alloc d start end =
     (if start < end \<and> end \<le> da_size d then
        (if da_elms d \<noteq> None then
           (let range_size = end - start
            in if alloc range_size then
                 (let removed = take range_size (drop start (elms_of d));
                      es = move_down (elms_of d) range_size start (da_size d - range_size);
                      es = fill_range es NULL (da_size d - range_size) (da_size d)
                  in (RET_OK, fold destroy_elem removed ((set_elms es d)\<lparr>da_size := da_size d - range_size\<rparr>)))
               else (RET_OOM, d))
         else (RET_OK, d))
      else (RET_BAD_PARAMS, d))"

definition darray_remove_ex :: "darray \<Rightarrow> compare_t option \<Rightarrow> ptr \<Rightarrow> ret_t \<times> darray" where
  "darray_remove_ex d cmp ctx =
     (let index = darray_find_index_ex d cmp ctx
      in if index < 0 then (RET_NOT_FOUND, d) else darray_remove_index d (nat index))"

definition darray_remove :: "darray \<Rightarrow> ptr \<Rightarrow> ret_t \<times> darray" where
  "darray_remove d data = darray_remove_ex d None data"

text \<open>
  \<open>darray_remove_all\<close> counts the matches, collects them, and compacts the array in place.
\<close>

function count_matches :: "compare_t \<Rightarrow> ptr list \<Rightarrow> ptr \<Rightarrow> nat \<Rightarrow> int \<Rightarrow> nat" where
  "count_matches cmp es ctx i sz =
     (if int i < sz then
        (if cmp (es ! i) ctx = 0 \<and> es ! i \<noteq> NULL then 1 else 0) + count_matches cmp es ctx (Suc i) sz
      else 0)"
  by pat_completeness auto
termination by (relation "measure (\<lambda>(cmp, es, ctx, i, sz). nat (sz - int i))") auto

function remove_all_loop :: "compare_t \<Rightarrow> ptr \<Rightarrow> ptr list \<Rightarrow> ptr list \<Rightarrow> nat \<Rightarrow> nat \<Rightarrow> int \<Rightarrow> ptr list \<times> ptr list \<times> nat" where
  "remove_all_loop cmp ctx es removed i k sz =
     (if int i < sz then
        (let iter = es ! i
         in if cmp iter ctx = 0
            then remove_all_loop cmp ctx (es[i := NULL]) (if iter \<noteq> NULL then removed @ [iter] else removed)
                   (Suc i) k sz
            else remove_all_loop cmp ctx (if k \<noteq> i then es[k := es ! i] else es) removed (Suc i) (Suc k) sz)
      else (es, removed, k))"
  by pat_completeness auto
termination by (relation "measure (\<lambda>(cmp, ctx, es, removed, i, k, sz). nat (sz - int i))") auto

definition darray_remove_all :: "alloc_t \<Rightarrow> darray \<Rightarrow> compare_t option \<Rightarrow> ptr \<Rightarrow> ret_t \<times> darray" where
  "darray_remove_all alloc d cmp ctx =
     (let sz = s32 (int (da_size d));
          cmp = (case cmp of Some c \<Rightarrow> c | None \<Rightarrow> own_compare d);
          remove_count = count_matches cmp (elms_of d) ctx 0 sz
      in if remove_count > 0 \<and> \<not> alloc remove_count then (RET_OOM, d)
         else case remove_all_loop cmp ctx (elms_of d) [] 0 0 sz of (es, removed, k) \<Rightarrow>
                (RET_OK, fold destroy_elem (take remove_count removed) ((set_elms es d)\<lparr>da_size := k\<rparr>)))"

definition darray_sort :: "darray \<Rightarrow> compare_t option \<Rightarrow> ret_t \<times> darray" where
  "darray_sort d cmp =
     (let cmp = (case cmp of Some c \<Rightarrow> c | None \<Rightarrow> own_compare d)
      in case da_elms d of
           None \<Rightarrow> (RET_BAD_PARAMS, d)
         | Some es \<Rightarrow> (case tk_qsort cmp es (da_size d) of (r, es') \<Rightarrow> (r, d\<lparr>da_elms := Some es'\<rparr>)))"

definition darray_pop :: "darray \<Rightarrow> ptr \<times> darray" where
  "darray_pop d =
     (if da_size d > 0 then (elms_of d ! (da_size d - 1), d\<lparr>da_size := da_size d - 1\<rparr>) else (NULL, d))"

definition darray_tail :: "darray \<Rightarrow> ptr" where
  "darray_tail d = (if da_size d > 0 then elms_of d ! (da_size d - 1) else NULL)"

definition darray_head :: "darray \<Rightarrow> ptr" where
  "darray_head d = (if da_size d > 0 then elms_of d ! 0 else NULL)"

definition darray_insert :: "alloc_t \<Rightarrow> darray \<Rightarrow> nat \<Rightarrow> ptr \<Rightarrow> ret_t \<times> darray" where
  "darray_insert alloc d index data =
     (let index = min index (da_size d)
      in case darray_auto_extend alloc d of (ok, d) \<Rightarrow>
           if ok then
             (let es = move_up (elms_of d) index (da_size d);
                  es = es[index := data]
              in (RET_OK, (set_elms es d)\<lparr>da_size := u32 (da_size d + 1)\<rparr>))
           else (RET_OOM, d))"

definition darray_push :: "alloc_t \<Rightarrow> darray \<Rightarrow> ptr \<Rightarrow> ret_t \<times> darray" where
  "darray_push alloc d data = darray_insert alloc d (da_size d) data"

definition darray_push_unique :: "alloc_t \<Rightarrow> darray \<Rightarrow> ptr \<Rightarrow> ret_t \<times> darray" where
  "darray_push_unique alloc d data =
     (if darray_find_index d data \<ge> 0 then (RET_FAIL, d) else darray_insert alloc d (da_size d) data)"

text \<open>Pushes the matches of \<open>d\<close> one by one; the first failing push ends the loop.\<close>

function find_all_loop :: "alloc_t \<Rightarrow> compare_t \<Rightarrow> ptr list \<Rightarrow> ptr \<Rightarrow> nat \<Rightarrow> int \<Rightarrow> darray \<Rightarrow> ret_t \<times> darray" where
  "find_all_loop alloc cmp es ctx i sz matched =
     (if int i < sz then
        (if cmp (es ! i) ctx = 0 then
           (case darray_push alloc matched (es ! i) of (r, matched') \<Rightarrow>
              if r = RET_OK then find_all_loop alloc cmp es ctx (Suc i) sz matched' else (RET_OOM, matched'))
         else find_all_loop alloc cmp es ctx (Suc i) sz matched)
      else (RET_OK, matched))"
  by pat_completeness auto
termination by (relation "measure (\<lambda>(alloc, cmp, es, ctx, i, sz, matched). nat (sz - int i))") auto

definition darray_find_all :: "alloc_t \<Rightarrow> darray \<Rightarrow> compare_t option \<Rightarrow> ptr \<Rightarrow> darray \<Rightarrow> ret_t \<times> darray" where
  "darray_find_all alloc d cmp ctx matched =
     (let cmp = (case cmp of Some c \<Rightarrow> c | None \<Rightarrow> own_compare d)
      in find_all_loop alloc cmp (elms_of d) ctx 0 (s32 (int (da_size d))) matched)"

definition darray_count :: "darray \<Rightarrow> ptr \<Rightarrow> nat" where
  "darray_count d data =
     (if da_elms d \<noteq> None then length (filter (\<lambda>iter. own_compare d iter data = 0) (darray_abs d)) else 0)"

text \<open>
  The visitor threads a context of its own and does not touch the array; its status decides what
  happens to the current element.
\<close>

function foreach_loop :: "('c \<Rightarrow> ptr \<Rightarrow> ret_t \<times> 'c) \<Rightarrow> 'c \<Rightarrow> darray \<Rightarrow> nat \<Rightarrow> ret_t \<Rightarrow> ret_t \<times> 'c \<times> darray" where
  "foreach_loop visit ctx d i ret =
     (if i < da_size d then
        (case visit ctx (elms_of d ! i) of (ret, ctx') \<Rightarrow>
           (case foreach_visit_result ret of
              Visit_next r \<Rightarrow> foreach_loop visit ctx' d (Suc i) r
            | Visit_remove r \<Rightarrow> foreach_loop visit ctx' (snd (darray_remove_index d i)) i r
            | Visit_break r \<Rightarrow> (r, ctx', d)))
      else (ret, ctx, d))"
  by pat_completeness auto
termination
  by (relation "measure (\<lambda>(visit, ctx, d, i, ret). da_size d - i)")
    (auto simp: darray_remove_index_def Let_def destroy_elem_def set_elms_def)

definition darray_foreach :: "darray \<Rightarrow> ('c \<Rightarrow> ptr \<Rightarrow> ret_t \<times> 'c) \<Rightarrow> 'c \<Rightarrow> ret_t \<times> 'c \<times> darray" where
  "darray_foreach d visit ctx =
     (if da_elms d \<noteq> None then foreach_loop visit ctx d 0 RET_OK else (RET_OK, ctx, d))"

text \<open>\<open>for (i = count - 1; i >= 0; i--)\<close>: from the last element to the first.\<close>

fun clear_loop :: "darray \<Rightarrow> nat \<Rightarrow> darray" where
  "clear_loop d 0 = d"
| "clear_loop d (Suc i) =
     (let iter = elms_of d ! i;
          d = (set_elms ((elms_of d)[i := NULL]) d)\<lparr>da_size := da_size d - 1\<rparr>
      in clear_loop (destroy_elem iter d) i)"

definition darray_clear :: "darray \<Rightarrow> ret_t \<times> darray" where
  "darray_clear d =
     (if da_elms d \<noteq> None then (RET_OK, (clear_loop d (nat (s32 (int (da_size d)))))\<lparr>da_size := 0\<rparr>)
      else (RET_OK, d))"

definition darray_set :: "darray \<Rightarrow> nat \<Rightarrow> ptr \<Rightarrow> ret_t \<times> darray" where
  "darray_set d index data =
     (if index < da_size d then (RET_OK, set_elms ((elms_of d)[index := data]) d) else (RET_BAD_PARAMS, d))"

definition darray_replace :: "darray \<Rightarrow> nat \<Rightarrow> ptr \<Rightarrow> ret_t \<times> darray" where
  "darray_replace d index data =
     (if index < da_size d
      then (RET_OK, set_elms ((elms_of d)[index := data]) (destroy_elem (elms_of d ! index) d))
      else (RET_BAD_PARAMS, d))"

definition darray_get :: "darray \<Rightarrow> nat \<Rightarrow> ptr" where
  "darray_get d index = (if index < da_size d then elms_of d ! index else NULL)"

text \<open>The binary search; the second component is \<open>*ret_low\<close> where the code sets it.\<close>

function bsearch_loop :: "compare_t \<Rightarrow> ptr list \<Rightarrow> ptr \<Rightarrow> int \<Rightarrow> int \<Rightarrow> int \<times> int option" where
  "bsearch_loop cmp es ctx low high =
     (if low \<le> high then
        (let mid = low + (high - low) div 2;
             result = cmp (es ! nat mid) ctx
         in if result = 0 then (mid, None)
            else if result < 0 then bsearch_loop cmp es ctx (mid + 1) high
            else bsearch_loop cmp es ctx low (mid - 1))
      else (-1, Some low))"
  by pat_completeness auto
termination
  by (relation "measure (\<lambda>(cmp, es, ctx, low, high). nat (high - low + 1))") auto

definition darray_bsearch_index_ex :: "darray \<Rightarrow> compare_t option \<Rightarrow> ptr \<Rightarrow> int \<times> int option" where
  "darray_bsearch_index_ex d cmp ctx =
     (if da_size d = 0 then (-1, Some 0)
      else let cmp = (case cmp of None \<Rightarrow> own_compare d | Some c \<Rightarrow> c)
           in bsearch_loop cmp (elms_of d) ctx 0 (s32 (int (da_size d) - 1)))"

definition darray_bsearch_index :: "darray \<Rightarrow> compare_t option \<Rightarrow> ptr \<Rightarrow> int" where
  "darray_bsearch_index d cmp ctx = fst (darray_bsearch_index_ex d cmp ctx)"

definition darray_bsearch :: "darray \<Rightarrow> compare_t option \<Rightarrow> ptr \<Rightarrow> ptr" where
  "darray_bsearch d cmp ctx =
     (let index = darray_bsearch_index d cmp ctx in if index \<ge> 0 then elms_of d ! nat index else NULL)"

text \<open>\<open>low\<close> is \<open>-1\<close> until the search sets it.\<close>

definition darray_sorted_insert :: "alloc_t \<Rightarrow> darray \<Rightarrow> ptr \<Rightarrow> compare_t option \<Rightarrow> bool \<Rightarrow> ret_t \<times> darray" where
  "darray_sorted_insert alloc d data cmp replace_if_exist =
     (if da_size d = 0 then darray_push alloc d data
      else case darray_bsearch_index_ex d cmp data of (found, ret_low) \<Rightarrow>
        (let low = (case ret_low of Some l \<Rightarrow> l | None \<Rightarrow> -1)
         in if found \<ge> 0 \<and> replace_if_exist then darray_replace d (nat found) data
            else let index = (if found \<ge> 0 then found + 1 else low)
                 in if index \<ge> s32 (int (da_size d)) then darray_push alloc d data
                    else darray_insert alloc d (nat index) data))"

function reverse_loop :: "ptr list \<Rightarrow> nat \<Rightarrow> nat \<Rightarrow> ptr list" where
  "reverse_loop es start end =
     (if start < end then reverse_loop (es[start := es ! end, end := es ! start]) (start + 1) (end - 1) else es)"
  by pat_completeness auto
termination by (relation "measure (\<lambda>(es, start, end). end - start)") auto

definition darray_reverse :: "darray \<Rightarrow> ret_t \<times> darray" where
  "darray_reverse d =
     (if da_size d < 2 then (RET_OK, d)
      else (RET_OK, set_elms (reverse_loop (elms_of d) 0 (da_size d - 1)) d))"

text \<open>\<open>memset(darray, 0x00, sizeof(darray_t))\<close> also clears the comparator.\<close>

definition darray_deinit :: "darray \<Rightarrow> ret_t \<times> darray" where
  "darray_deinit d =
     (if da_elms d \<noteq> None then
        (RET_OK, \<lparr>da_size = 0, da_capacity = 0, da_elms = None, da_compare = None,
                  da_destroyed = da_destroyed (snd (darray_clear d))\<rparr>)
      else (RET_OK, d))"

declare find_index_loop.simps [simp del] count_matches.simps [simp del] remove_all_loop.simps [simp del]
  find_all_loop.simps [simp del] foreach_loop.simps [simp del] bsearch_loop.simps [simp del]
  reverse_loop.simps [simp del]

text \<open>A loop whose condition fails returns its state.\<close>

lemma loop_ends [simp]:
  "sz \<le> int i \<Longrightarrow> find_index_loop cmp es x i sz = -1"
  "sz \<le> int i \<Longrightarrow> count_matches cmp es x i sz = 0"
  "sz \<le> int i \<Longrightarrow> remove_all_loop cmp x es ps i k sz = (es, ps, k)"
  "sz \<le> int i \<Longrightarrow> find_all_loop alloc cmp es x i sz m = (RET_OK, m)"
  "da_size d \<le> i \<Longrightarrow> foreach_loop visit ctx d i r = (r, ctx, d)"
  "high < low \<Longrightarrow> bsearch_loop cmp es x low high = (-1, Some low)"
  "hi \<le> lo \<Longrightarrow> reverse_loop es lo hi = es"
  by (simp_all add: find_index_loop.simps count_matches.simps remove_all_loop.simps find_all_loop.simps
      foreach_loop.simps bsearch_loop.simps reverse_loop.simps)

section \<open>Representation\<close>

lemma elms_of_update [simp]:
  "elms_of (d\<lparr>da_size := n\<rparr>) = elms_of d" "elms_of (d\<lparr>da_capacity := n\<rparr>) = elms_of d"
  "elms_of (d\<lparr>da_destroyed := ps\<rparr>) = elms_of d" "elms_of (d\<lparr>da_elms := e\<rparr>) = (case e of None \<Rightarrow> [] | Some es \<Rightarrow> es)"
  by (simp_all add: elms_of_def)

lemma elms_of_set_elms [simp]: "da_elms d \<noteq> None \<Longrightarrow> elms_of (set_elms es d) = es"
  by (auto simp: set_elms_def)

lemma set_elms_fields [simp]:
  "da_size (set_elms es d) = da_size d" "da_capacity (set_elms es d) = da_capacity d"
  "da_compare (set_elms es d) = da_compare d" "da_destroyed (set_elms es d) = da_destroyed d"
  "da_elms (set_elms es d) = None \<longleftrightarrow> da_elms d = None"
  by (auto simp: set_elms_def split: option.splits)

lemma destroy_elem_fields [simp]:
  "da_size (destroy_elem p d) = da_size d" "da_capacity (destroy_elem p d) = da_capacity d"
  "da_compare (destroy_elem p d) = da_compare d" "da_elms (destroy_elem p d) = da_elms d"
  "elms_of (destroy_elem p d) = elms_of d" "da_destroyed (destroy_elem p d) = da_destroyed d @ [p]"
  by (simp_all add: destroy_elem_def)

lemma fold_destroy_elem:
  "fold destroy_elem ps d = d\<lparr>da_destroyed := da_destroyed d @ ps\<rparr>"
  by (induction ps arbitrary: d) (simp_all add: destroy_elem_def)

lemma darray_inv_nonempty: "darray_inv d \<Longrightarrow> i < da_size d \<Longrightarrow> da_elms d \<noteq> None"
  by (auto simp: darray_inv_def)

lemma length_abs [simp]: "darray_inv d \<Longrightarrow> length (darray_abs d) = da_size d"
  by (auto simp: darray_inv_def darray_abs_def)

lemma nth_abs: "darray_inv d \<Longrightarrow> i < da_size d \<Longrightarrow> darray_abs d ! i = elms_of d ! i"
  by (simp add: darray_abs_def)

lemma s32_size [simp]: "darray_inv d \<Longrightarrow> s32 (int (da_size d)) = int (da_size d)"
  by (auto simp: darray_inv_def)

lemmas darray_inv_simps = darray_inv_def darray_abs_def

section \<open>Growing and inserting\<close>

lemma darray_init_inv [inv_intros]:
  "capacity < 2 ^ 31 \<Longrightarrow> darray_inv (fst (darray_init alloc capacity compare))"
  by (simp add: darray_init_def Let_def darray_inv_def elms_of_def)

lemma darray_init_abs [abs_simps]: "darray_abs (fst (darray_init alloc capacity compare)) = []"
  by (simp add: darray_init_def Let_def darray_abs_def)

lemma darray_extend_spec:
  assumes "darray_inv d" and "capacity < 2 ^ 31" and "darray_extend alloc d capacity = (r, d')"
  shows "darray_inv d'" and "darray_abs d' = darray_abs d" and "da_size d' = da_size d"
    and "da_destroyed d' = da_destroyed d" and "da_compare d' = da_compare d"
    and "r = RET_OK \<Longrightarrow> 0 < capacity \<Longrightarrow> da_elms d' \<noteq> None \<and> capacity \<le> da_capacity d'"
  using assms by (auto simp: darray_extend_def Let_def darray_inv_simps min_def split: if_splits)

lemma darray_auto_extend_spec:
  assumes "darray_inv d" and "da_size d < 2 ^ 30" and "darray_auto_extend alloc d = (ok, d')"
  shows "darray_inv d'" and "darray_abs d' = darray_abs d" and "da_size d' = da_size d"
    and "da_destroyed d' = da_destroyed d" and "da_compare d' = da_compare d"
    and "ok \<Longrightarrow> da_elms d' \<noteq> None \<and> da_size d < da_capacity d'"
proof -
  have "darray_inv d' \<and> darray_abs d' = darray_abs d \<and> da_size d' = da_size d \<and>
    da_destroyed d' = da_destroyed d \<and> da_compare d' = da_compare d \<and>
    (ok \<longrightarrow> da_elms d' \<noteq> None \<and> da_size d < da_capacity d')"
  proof (cases "da_elms d \<noteq> None \<and> da_size d < da_capacity d")
    case True
    then show ?thesis using assms by (simp add: darray_auto_extend_def)
  next
    case False
    let ?c = "u32 (da_capacity d div 2 + da_capacity d + 1)"
    have full: "da_capacity d = da_size d" using False assms(1) by (auto simp: darray_inv_def)
    then have c: "?c = da_size d div 2 + da_size d + 1" "?c < 2 ^ 31" using assms(2) by simp_all
    obtain r where r: "darray_extend alloc d ?c = (r, d')" "ok = (r = RET_OK)"
      using assms(3) False by (auto simp: darray_auto_extend_def Let_def split: prod.splits)
    show ?thesis
      using darray_extend_spec[OF assms(1) c(2) r(1)] c(1) r(2) by auto
  qed
  then show "darray_inv d'" "darray_abs d' = darray_abs d" "da_size d' = da_size d"
    "da_destroyed d' = da_destroyed d" "da_compare d' = da_compare d"
    "ok \<Longrightarrow> da_elms d' \<noteq> None \<and> da_size d < da_capacity d'" by auto
qed

text \<open>
  Insertion: either the allocator refused and nothing a client sees has changed, or the new
  element sits at \<open>min index size\<close> and the rest keeps its order.
\<close>

lemma darray_insert_cases:
  assumes "darray_inv d" and "da_size d < 2 ^ 30" and "darray_insert alloc d index x = (r, d')"
  shows "darray_inv d' \<and> da_destroyed d' = da_destroyed d \<and> da_compare d' = da_compare d \<and>
    (r = RET_OK \<and> darray_abs d' = take index (darray_abs d) @ x # drop index (darray_abs d) \<or>
     r = RET_OOM \<and> darray_abs d' = darray_abs d)"
proof -
  obtain ok d1 where e: "darray_auto_extend alloc d = (ok, d1)" by (cases "darray_auto_extend alloc d")
  note sp = darray_auto_extend_spec[OF assms(1,2) e]
  show ?thesis
  proof (cases ok)
    case False
    then show ?thesis using assms(3) e sp by (simp add: darray_insert_def Let_def)
  next
    case True
    let ?i = "min index (da_size d)"
    let ?es = "(move_up (elms_of d1) ?i (da_size d))[?i := x]"
    have d': "r = RET_OK" "d' = (set_elms ?es d1)\<lparr>da_size := u32 (da_size d + 1)\<rparr>"
      using assms(3) e sp True by (simp_all add: darray_insert_def Let_def)
    have room: "da_elms d1 \<noteq> None" "da_size d < length (elms_of d1)"
      using sp(1,6) True by (auto simp: darray_inv_def)
    then have "darray_abs d' = take ?i (elms_of d1) @ x # drop ?i (take (da_size d) (elms_of d1))"
      using take_move_up[of ?i "da_size d" "elms_of d1" x] d' assms(2) by (simp add: darray_abs_def)
    moreover have old: "take (da_size d) (elms_of d1) = darray_abs d"
      using sp(2,3) by (simp add: darray_abs_def)
    moreover have "take ?i (elms_of d1) = take index (darray_abs d)"
      unfolding old[symmetric] by (simp add: min.commute)
    moreover have "drop ?i (darray_abs d) = drop index (darray_abs d)"
      using assms(1) by (simp add: min_def)
    ultimately have "darray_abs d' = take index (darray_abs d) @ x # drop index (darray_abs d)"
      by simp
    moreover have "darray_inv d'"
      using sp(1) d' room assms(2) by (auto simp: darray_inv_def)
    ultimately show ?thesis using d' sp by simp
  qed
qed

lemma darray_push_cases:
  assumes "darray_inv d" and "da_size d < 2 ^ 30" and "darray_push alloc d x = (r, d')"
  shows "darray_inv d' \<and> da_destroyed d' = da_destroyed d \<and> da_compare d' = da_compare d \<and>
    (r = RET_OK \<and> darray_abs d' = darray_abs d @ [x] \<or> r = RET_OOM \<and> darray_abs d' = darray_abs d)"
  using darray_insert_cases[OF assms(1,2), of alloc "da_size d" x r d'] assms(1,3)
  by (simp add: darray_push_def)

section \<open>Removing\<close>

lemma darray_remove_index_spec:
  assumes "darray_inv d" and "index < da_size d"
  shows "fst (darray_remove_index d index) = RET_OK"
    and "darray_inv (snd (darray_remove_index d index))"
    and "darray_abs (snd (darray_remove_index d index)) = take index (darray_abs d) @ drop (Suc index) (darray_abs d)"
    and "da_destroyed (snd (darray_remove_index d index)) = da_destroyed d @ [darray_abs d ! index]"
    and "da_compare (snd (darray_remove_index d index)) = da_compare d"
proof -
  let ?es = "(move_down (elms_of d) 1 index (da_size d - 1))[da_size d - 1 := NULL]"
  have ne: "da_elms d \<noteq> None" using assms by (rule darray_inv_nonempty)
  have len: "da_size d \<le> length (elms_of d)" using assms(1) by (simp add: darray_inv_def)
  have eq: "darray_remove_index d index =
      (RET_OK, destroy_elem (elms_of d ! index) ((set_elms ?es d)\<lparr>da_size := da_size d - 1\<rparr>))"
    using assms(2) by (simp add: darray_remove_index_def Let_def)
  show "fst (darray_remove_index d index) = RET_OK"
    "da_compare (snd (darray_remove_index d index)) = da_compare d"
    by (simp_all add: eq)
  show "da_destroyed (snd (darray_remove_index d index)) = da_destroyed d @ [darray_abs d ! index]"
    using assms by (simp add: eq nth_abs)
  show "darray_inv (snd (darray_remove_index d index))"
    using assms ne by (auto simp: eq darray_inv_def)
  have "darray_abs (snd (darray_remove_index d index)) = take (da_size d - 1) (move_down (elms_of d) 1 index (da_size d - 1))"
    using ne by (simp add: eq darray_abs_def)
  also have "\<dots> = take index (elms_of d) @ drop (index + 1) (take (da_size d) (elms_of d))"
    using take_move_down[of index 1 "da_size d" "elms_of d"] assms(2) len by simp
  finally show "darray_abs (snd (darray_remove_index d index)) = take index (darray_abs d) @ drop (Suc index) (darray_abs d)"
    using assms(2) by (simp add: darray_abs_def min_def)
qed

lemma darray_remove_range_spec:
  assumes "darray_inv d" and "start < stop" and "stop \<le> da_size d" and "alloc (stop - start)"
  shows "fst (darray_remove_range alloc d start stop) = RET_OK"
    and "darray_inv (snd (darray_remove_range alloc d start stop))"
    and "darray_abs (snd (darray_remove_range alloc d start stop)) = take start (darray_abs d) @ drop stop (darray_abs d)"
    and "da_destroyed (snd (darray_remove_range alloc d start stop)) =
         da_destroyed d @ take (stop - start) (drop start (darray_abs d))"
proof -
  let ?k = "stop - start" and ?n = "da_size d"
  let ?es = "fill_range (move_down (elms_of d) ?k start (?n - ?k)) NULL (?n - ?k) ?n"
  have ne: "da_elms d \<noteq> None" using assms darray_inv_nonempty[of d start] by simp
  have len: "?n \<le> length (elms_of d)" using assms(1) by (simp add: darray_inv_def)
  have eq: "darray_remove_range alloc d start stop =
      (RET_OK, fold destroy_elem (take ?k (drop start (elms_of d))) ((set_elms ?es d)\<lparr>da_size := ?n - ?k\<rparr>))"
    using assms ne by (simp add: darray_remove_range_def Let_def)
  show "fst (darray_remove_range alloc d start stop) = RET_OK" by (simp add: eq)
  show "da_destroyed (snd (darray_remove_range alloc d start stop)) =
         da_destroyed d @ take ?k (drop start (darray_abs d))"
    using assms(2,3) by (simp add: eq fold_destroy_elem darray_abs_def drop_take min_def)
  show "darray_inv (snd (darray_remove_range alloc d start stop))"
    using assms(1) ne by (auto simp: eq fold_destroy_elem darray_inv_def)
  have "darray_abs (snd (darray_remove_range alloc d start stop)) = take (?n - ?k) ?es"
    using ne by (simp add: eq fold_destroy_elem darray_abs_def)
  also have "\<dots> = take (?n - ?k) (move_down (elms_of d) ?k start (?n - ?k))"
    using len by (intro nth_equalityI) (auto simp: nth_fill_range)
  also have "\<dots> = take start (elms_of d) @ drop (start + ?k) (take ?n (elms_of d))"
    using assms(2,3) len by (intro take_move_down) auto
  finally show "darray_abs (snd (darray_remove_range alloc d start stop)) = take start (darray_abs d) @ drop stop (darray_abs d)"
    using assms(2,3) by (simp add: darray_abs_def min_def)
qed

text \<open>The compaction loop and its counting pass.\<close>

lemma drop_take_step:
  "i < n \<Longrightarrow> n \<le> length es \<Longrightarrow> drop i (take n es) = es ! i # drop (Suc i) (take n es)"
  by (simp add: Cons_nth_drop_Suc[symmetric])

lemma drop_take_update: "k \<le> i \<Longrightarrow> drop (Suc i) (take n (es[k := x])) = drop (Suc i) (take n es)"
  by (simp add: drop_take drop_update_cancel)

lemma remove_all_loop_spec:
  "remove_all_loop cmp ctx es removed i k (int n) = (es', removed', k') \<Longrightarrow> k \<le> i \<Longrightarrow> i \<le> n \<Longrightarrow> n \<le> length es \<Longrightarrow>
   take k' es' = take k es @ filter (\<lambda>p. cmp p ctx \<noteq> 0) (drop i (take n es)) \<and>
   removed' = removed @ filter (\<lambda>p. cmp p ctx = 0 \<and> p \<noteq> NULL) (drop i (take n es)) \<and>
   length es' = length es \<and> k' \<le> n"
proof (induction cmp ctx es removed i k "int n" rule: remove_all_loop.induct)
  case (1 cmp ctx es removed i k)
  show ?case
  proof (cases "i < n")
    case False
    then show ?thesis using "1.prems" by simp
  next
    case True
    note st = drop_take_step[OF True "1.prems"(4)]
    show ?thesis
    proof (cases "cmp (es ! i) ctx = 0")
      case m: True
      have "remove_all_loop cmp ctx (es[i := NULL]) (if es ! i \<noteq> NULL then removed @ [es ! i] else removed)
          (Suc i) k (int n) = (es', removed', k')"
        using "1.prems"(1) True m by (simp add: remove_all_loop.simps[of cmp ctx es removed i k] Let_def)
      then show ?thesis
        using "1.hyps"(1)[OF _ refl m] "1.prems" True m st
        by (auto simp: drop_take_update)
    next
      case nm: False
      let ?es = "if k \<noteq> i then es[k := es ! i] else es"
      have "remove_all_loop cmp ctx ?es removed (Suc i) (Suc k) (int n) = (es', removed', k')"
        using "1.prems"(1) True nm by (simp add: remove_all_loop.simps[of cmp ctx es removed i k] Let_def)
      moreover have "take (Suc k) ?es = take k es @ [es ! i]"
        using "1.prems"(2,4) True by (auto simp: take_Suc_conv_app_nth)
      moreover have "drop (Suc i) (take n ?es) = drop (Suc i) (take n es)"
        using "1.prems"(2) by (auto simp: drop_take_update)
      ultimately show ?thesis
        using "1.hyps"(2)[OF _ refl nm] "1.prems" True nm st by auto
    qed
  qed
qed

lemma count_matches_spec:
  "i \<le> n \<Longrightarrow> n \<le> length es \<Longrightarrow> count_matches cmp es ctx i (int n) =
   length (filter (\<lambda>p. cmp p ctx = 0 \<and> p \<noteq> NULL) (drop i (take n es)))"
proof (induction cmp es ctx i "int n" rule: count_matches.induct)
  case (1 cmp es ctx i)
  show ?case
  proof (cases "i < n")
    case True
    then show ?thesis
      using 1 drop_take_step[OF True "1.prems"(2)] by (simp add: count_matches.simps[of cmp es ctx i])
  qed (use "1.prems" in simp)
qed

text \<open>
  \<open>darray_remove_all\<close> keeps exactly the elements that do not match, in their order, and
  destroys exactly the matches that are not NULL, once each and in order.
\<close>

lemma darray_remove_all_spec:
  assumes "darray_inv d" and c: "c = (case cmp of Some c \<Rightarrow> c | None \<Rightarrow> own_compare d)"
    and hit: "hits = filter (\<lambda>p. c p ctx = 0 \<and> p \<noteq> NULL) (darray_abs d)"
    and mem: "hits = [] \<or> alloc (length hits)"
  shows "fst (darray_remove_all alloc d cmp ctx) = RET_OK"
    and "darray_inv (snd (darray_remove_all alloc d cmp ctx))"
    and "darray_abs (snd (darray_remove_all alloc d cmp ctx)) = filter (\<lambda>p. c p ctx \<noteq> 0) (darray_abs d)"
    and "da_destroyed (snd (darray_remove_all alloc d cmp ctx)) = da_destroyed d @ hits"
proof -
  have len: "da_size d \<le> length (elms_of d)" using assms(1) by (simp add: darray_inv_def)
  obtain es removed k where l: "remove_all_loop c ctx (elms_of d) [] 0 0 (int (da_size d)) = (es, removed, k)"
    by (cases "remove_all_loop c ctx (elms_of d) [] 0 0 (int (da_size d))")
  have sp: "take k es = filter (\<lambda>p. c p ctx \<noteq> 0) (darray_abs d)" "removed = hits"
    "length es = length (elms_of d)" "k \<le> da_size d"
    using remove_all_loop_spec[OF l] len by (simp_all add: hit darray_abs_def)
  have cnt: "count_matches c (elms_of d) ctx 0 (int (da_size d)) = length hits"
    using count_matches_spec[of 0 "da_size d" "elms_of d" c ctx] len by (simp add: hit darray_abs_def)
  have eq: "darray_remove_all alloc d cmp ctx =
      (RET_OK, fold destroy_elem hits ((set_elms es d)\<lparr>da_size := k\<rparr>))"
    using l mem assms(1) sp(2) by (auto simp: darray_remove_all_def Let_def c[symmetric] cnt)
  show "fst (darray_remove_all alloc d cmp ctx) = RET_OK"
    "da_destroyed (snd (darray_remove_all alloc d cmp ctx)) = da_destroyed d @ hits"
    by (simp_all add: eq fold_destroy_elem)
  show "darray_inv (snd (darray_remove_all alloc d cmp ctx))"
    using assms(1) sp(3,4) by (cases "da_elms d = None") (auto simp: eq fold_destroy_elem darray_inv_def set_elms_def elms_of_def)
  show "darray_abs (snd (darray_remove_all alloc d cmp ctx)) = filter (\<lambda>p. c p ctx \<noteq> 0) (darray_abs d)"
    using sp assms(1) by (cases "da_elms d = None") (auto simp: eq fold_destroy_elem darray_abs_def set_elms_def elms_of_def darray_inv_def)
qed

section \<open>Searching\<close>

lemma find_index_loop_spec:
  "n \<le> length es \<Longrightarrow> find_index_loop cmp es x i (int n) = r \<Longrightarrow>
   (r = -1 \<and> (\<forall>j. i \<le> j \<and> j < n \<longrightarrow> cmp (es ! j) x \<noteq> 0)) \<or>
   (\<exists>j. r = int j \<and> i \<le> j \<and> j < n \<and> cmp (es ! j) x = 0 \<and> (\<forall>m. i \<le> m \<and> m < j \<longrightarrow> cmp (es ! m) x \<noteq> 0))"
proof (induction cmp es x i "int n" rule: find_index_loop.induct)
  case (1 cmp es x i)
  show ?case
  proof (cases "i < n \<and> cmp (es ! i) x \<noteq> 0")
    case True
    then have "find_index_loop cmp es x (Suc i) (int n) = r"
      using "1.prems"(2) by (simp add: find_index_loop.simps[of cmp es x i])
    then have "(r = -1 \<and> (\<forall>j. Suc i \<le> j \<and> j < n \<longrightarrow> cmp (es ! j) x \<noteq> 0)) \<or>
      (\<exists>j. r = int j \<and> Suc i \<le> j \<and> j < n \<and> cmp (es ! j) x = 0 \<and> (\<forall>m. Suc i \<le> m \<and> m < j \<longrightarrow> cmp (es ! m) x \<noteq> 0))"
      using "1.hyps" True "1.prems"(1) by simp
    then show ?thesis using True by (metis Suc_leD Suc_leI le_neq_implies_less)
  next
    case False
    then show ?thesis using "1.prems" by (cases "i < n") (auto simp: find_index_loop.simps[of cmp es x i])
  qed
qed

text \<open>\<open>find\<close> is the first match, or NULL.\<close>

lemma darray_find_index_ex_spec:
  assumes "darray_inv d" and c: "c = (case cmp of Some c \<Rightarrow> c | None \<Rightarrow> own_compare d)"
  shows "darray_find_index_ex d cmp x = -1 \<and> (\<forall>p \<in> set (darray_abs d). c p x \<noteq> 0) \<or>
    (\<exists>j < da_size d. darray_find_index_ex d cmp x = int j \<and> c (darray_abs d ! j) x = 0 \<and>
       (\<forall>m < j. c (darray_abs d ! m) x \<noteq> 0))"
proof -
  have n: "da_size d \<le> length (elms_of d)" using assms(1) by (simp add: darray_inv_def)
  have "darray_find_index_ex d cmp x = find_index_loop c (elms_of d) x 0 (int (da_size d))"
    using assms by (cases cmp; cases "da_compare d") (auto simp: darray_find_index_ex_def own_compare_def darray_inv_def)
  then show ?thesis
    using find_index_loop_spec[OF n, of c x 0] n
    by (auto simp: darray_abs_def in_set_conv_nth)
qed

text \<open>
  An array is ordered for a key when the elements below it come before the elements above it;
  every array sorted by a lawful comparator is ordered for every key.
\<close>

definition key_ordered :: "compare_t \<Rightarrow> ptr \<Rightarrow> ptr list \<Rightarrow> bool" where
  "key_ordered cmp x xs \<longleftrightarrow> (\<forall>i j. i < j \<and> j < length xs \<longrightarrow>
     (0 < cmp (xs ! i) x \<longrightarrow> 0 < cmp (xs ! j) x) \<and> (cmp (xs ! j) x < 0 \<longrightarrow> cmp (xs ! i) x < 0))"

lemma key_orderedD:
  "key_ordered cmp x xs \<Longrightarrow> i < j \<Longrightarrow> j < length xs \<Longrightarrow> cmp (xs ! j) x \<le> 0 \<Longrightarrow> cmp (xs ! i) x \<le> 0"
  "key_ordered cmp x xs \<Longrightarrow> i < j \<Longrightarrow> j < length xs \<Longrightarrow> 0 \<le> cmp (xs ! i) x \<Longrightarrow> 0 \<le> cmp (xs ! j) x"
  unfolding key_ordered_def by (meson linorder_not_less)+

lemma sorted_key_ordered:
  assumes "comparator ok cmp" and "sorted_wrt (\<lambda>a b. cmp a b \<le> 0) xs" and "\<forall>p \<in> set xs. ok p" and "ok x"
  shows "key_ordered cmp x xs"
  unfolding key_ordered_def
proof (intro allI impI conjI)
  fix i j assume ij: "i < j \<and> j < length xs"
  then have le: "cmp (xs ! i) (xs ! j) \<le> 0" using assms(2) by (simp add: sorted_wrt_iff_nth_less)
  have ok: "ok (xs ! i)" "ok (xs ! j)" using assms(3) ij by auto
  note sym = comparator.cmp_sym[OF assms(1)] and tr = comparator.cmp_trans[OF assms(1)]
  show "0 < cmp (xs ! j) x" if "0 < cmp (xs ! i) x"
  proof (rule ccontr)
    assume "\<not> 0 < cmp (xs ! j) x"
    then have "cmp (xs ! i) x \<le> 0" using tr[OF ok(1,2) assms(4) le] by simp
    then show False using that by simp
  qed
  show "cmp (xs ! i) x < 0" if "cmp (xs ! j) x < 0"
  proof (rule ccontr)
    assume "\<not> cmp (xs ! i) x < 0"
    then have "cmp x (xs ! i) \<le> 0" using sym[OF ok(1) assms(4)] by linarith
    then have "cmp x (xs ! j) \<le> 0" using tr[OF assms(4) ok(1,2) _ le] by simp
    then show False using that sym[OF ok(2) assms(4)] by linarith
  qed
qed

lemma bsearch_loop_spec:
  "key_ordered cmp x (take n es) \<Longrightarrow> n \<le> length es \<Longrightarrow> 0 \<le> low \<Longrightarrow> low \<le> high + 1 \<Longrightarrow> high < int n \<Longrightarrow>
   \<forall>j. int j < low \<longrightarrow> cmp (es ! j) x < 0 \<Longrightarrow> \<forall>j < n. high < int j \<longrightarrow> 0 < cmp (es ! j) x \<Longrightarrow>
   (\<exists>j < n. bsearch_loop cmp es x low high = (int j, None) \<and> cmp (es ! j) x = 0) \<or>
   (\<exists>l \<le> n. bsearch_loop cmp es x low high = (-1, Some (int l)) \<and> (\<forall>j < l. cmp (es ! j) x < 0) \<and>
      (\<forall>j < n. l \<le> j \<longrightarrow> 0 < cmp (es ! j) x))"
proof (induction cmp es x low high rule: bsearch_loop.induct)
  case (1 cmp es x low high)
  show ?case
  proof (cases "low \<le> high")
    case False
    then have "low = high + 1" using "1.prems"(4) by simp
    then have "nat low \<le> n \<and> bsearch_loop cmp es x low high = (-1, Some (int (nat low))) \<and>
        (\<forall>j < nat low. cmp (es ! j) x < 0) \<and> (\<forall>j < n. nat low \<le> j \<longrightarrow> 0 < cmp (es ! j) x)"
      using False "1.prems" by (auto simp: zless_nat_eq_int_zless nat_le_iff)
    then show ?thesis by blast
  next
    case True
    define m where "m = nat (low + (high - low) div 2)"
    have m: "low + (high - low) div 2 = int m" "low \<le> int m" "int m \<le> high" "m < n"
      using True "1.prems"(3,5) by (auto simp: m_def)
    have ord: "(0 < cmp (es ! i) x \<longrightarrow> 0 < cmp (es ! j) x) \<and> (cmp (es ! j) x < 0 \<longrightarrow> cmp (es ! i) x < 0)"
      if "i < j" "j < n" for i j
      using that "1.prems"(1,2) unfolding key_ordered_def by (auto dest!: spec[of _ i] spec[of _ j])
    consider (eq) "cmp (es ! m) x = 0" | (less) "cmp (es ! m) x < 0" | (gt) "0 < cmp (es ! m) x" by linarith
    then show ?thesis
    proof cases
      case eq
      then show ?thesis using True m by (auto simp: bsearch_loop.simps[of cmp es x low high] Let_def)
    next
      case less
      then have "bsearch_loop cmp es x low high = bsearch_loop cmp es x (int m + 1) high"
        using True m by (simp add: bsearch_loop.simps[of cmp es x low high] Let_def)
      moreover have "cmp (es ! j) x < 0" if "int j < int m + 1" for j
        using that less ord[of j m] m(4) by (cases "j = m") auto
      ultimately show ?thesis
        using "1.IH"(1)[OF True refl refl] less m "1.prems" by simp
    next
      case gt
      then have "bsearch_loop cmp es x low high = bsearch_loop cmp es x low (int m - 1)"
        using True m by (simp add: bsearch_loop.simps[of cmp es x low high] Let_def)
      moreover have "0 < cmp (es ! j) x" if "j < n" "int m - 1 < int j" for j
        using that gt ord[of m j] by (cases "j = m") auto
      ultimately show ?thesis
        using "1.IH"(2)[OF True refl refl] gt m "1.prems" by simp
    qed
  qed
qed

lemma darray_bsearch_index_ex_spec:
  assumes "darray_inv d" and c: "c = (case cmp of Some c \<Rightarrow> c | None \<Rightarrow> own_compare d)"
    and "key_ordered c x (darray_abs d)"
  shows "(\<exists>j < da_size d. darray_bsearch_index_ex d cmp x = (int j, None) \<and> c (darray_abs d ! j) x = 0) \<or>
    (\<exists>l \<le> da_size d. darray_bsearch_index_ex d cmp x = (-1, Some (int l)) \<and>
       (\<forall>j < l. c (darray_abs d ! j) x < 0) \<and> (\<forall>j < da_size d. l \<le> j \<longrightarrow> 0 < c (darray_abs d ! j) x))"
proof (cases "da_size d = 0")
  case True
  then show ?thesis by (simp add: darray_bsearch_index_ex_def)
next
  case False
  have n: "da_size d \<le> length (elms_of d)" using assms(1) by (simp add: darray_inv_def)
  have "s32 (int (da_size d) - 1) = int (da_size d) - 1"
    using assms(1) by (auto simp: darray_inv_def)
  then have "darray_bsearch_index_ex d cmp x = bsearch_loop c (elms_of d) x 0 (int (da_size d) - 1)"
    using False c by (cases cmp) (auto simp: darray_bsearch_index_ex_def Let_def)
  then show ?thesis
    using bsearch_loop_spec[of c x "da_size d" "elms_of d" 0 "int (da_size d) - 1"] assms(3) n
    by (auto simp: darray_abs_def)
qed

section \<open>Sorted arrays\<close>

lemma darray_sort_spec:
  assumes "darray_inv d" and "comparator ok c" and c: "c = (case cmp of Some c \<Rightarrow> c | None \<Rightarrow> own_compare d)"
    and "\<forall>p \<in> set (darray_abs d). ok p" and "da_elms d \<noteq> None"
  shows "fst (darray_sort d cmp) = RET_OK" and "darray_inv (snd (darray_sort d cmp))"
    and "mset (darray_abs (snd (darray_sort d cmp))) = mset (darray_abs d)"
    and "sorted_wrt (\<lambda>a b. c a b \<le> 0) (darray_abs (snd (darray_sort d cmp)))"
    and "da_destroyed (snd (darray_sort d cmp)) = da_destroyed d"
proof -
  obtain es where es: "da_elms d = Some es" using assms(5) by blast
  have n: "da_size d \<le> length es" using assms(1) es by (simp add: darray_inv_def elms_of_def)
  have "\<forall>i < da_size d. ok (es ! i)"
    using assms(4) n es by (simp add: darray_abs_def elms_of_def all_set_conv_all_nth)
  note q = tk_qsort_spec[OF assms(2) n this]
  have eq: "darray_sort d cmp = (fst (tk_qsort c es (da_size d)), d\<lparr>da_elms := Some (snd (tk_qsort c es (da_size d)))\<rparr>)"
    by (simp add: darray_sort_def c[symmetric] es split: prod.splits)
  show "fst (darray_sort d cmp) = RET_OK" "da_destroyed (snd (darray_sort d cmp)) = da_destroyed d"
    "mset (darray_abs (snd (darray_sort d cmp))) = mset (darray_abs d)"
    "sorted_wrt (\<lambda>a b. c a b \<le> 0) (darray_abs (snd (darray_sort d cmp)))"
    using q by (simp_all add: eq darray_abs_def elms_of_def es)
  show "darray_inv (snd (darray_sort d cmp))"
    using assms(1) q(2) by (simp add: eq darray_inv_def es elms_of_def)
qed

lemma darray_replace_spec:
  assumes "darray_inv d" and "index < da_size d"
  shows "fst (darray_replace d index x) = RET_OK" and "darray_inv (snd (darray_replace d index x))"
    and "darray_abs (snd (darray_replace d index x)) = (darray_abs d)[index := x]"
    and "da_destroyed (snd (darray_replace d index x)) = da_destroyed d @ [darray_abs d ! index]"
proof -
  have ne: "da_elms d \<noteq> None" using assms by (rule darray_inv_nonempty)
  then have "elms_of (set_elms ((elms_of d)[index := x]) (destroy_elem (elms_of d ! index) d)) = (elms_of d)[index := x]"
    by simp
  then show "fst (darray_replace d index x) = RET_OK" "darray_inv (snd (darray_replace d index x))"
    "darray_abs (snd (darray_replace d index x)) = (darray_abs d)[index := x]"
    "da_destroyed (snd (darray_replace d index x)) = da_destroyed d @ [darray_abs d ! index]"
    using assms ne by (simp_all add: darray_replace_def darray_abs_def darray_inv_def take_update_swap)
qed

text \<open>Inserting between the elements below and the elements not below keeps the order.\<close>

lemma sorted_wrt_insert_at:
  assumes "sorted_wrt P xs" and "\<forall>j < l. P (xs ! j) x" and "\<forall>j < length xs. l \<le> j \<longrightarrow> P x (xs ! j)" and "l \<le> length xs"
  shows "sorted_wrt P (take l xs @ x # drop l xs)"
proof -
  have "\<forall>a \<in> set (take l xs). P a x"
    using assms(2,4) by (auto simp: in_set_conv_nth)
  moreover have "\<forall>b \<in> set (drop l xs). P x b"
    using assms(3,4) by (auto simp: in_set_conv_nth)
  moreover have "sorted_wrt P (take l xs @ drop l xs)" using assms(1) by simp
  ultimately show ?thesis unfolding sorted_wrt_append by auto
qed

lemma mset_take_drop [simp]: "mset (take l xs) + mset (drop l xs) = mset xs"
  by (metis append_take_drop_id mset_append)

lemma mset_insert_at: "mset (take l xs @ x # drop l xs) = add_mset x (mset xs)"
  by simp

lemma sorted_wrt_replace_equal:
  assumes "comparator ok c" and "sorted_wrt (\<lambda>a b. c a b \<le> 0) xs" and "\<forall>p \<in> set xs. ok p" and "ok x"
    and "j < length xs" and "c (xs ! j) x = 0"
  shows "sorted_wrt (\<lambda>a b. c a b \<le> 0) (xs[j := x])"
  unfolding sorted_wrt_iff_nth_less
proof (intro allI impI)
  fix m n assume mn: "m < n" "n < length (xs[j := x])"
  then have ok: "ok (xs ! m)" "ok (xs ! n)" "ok (xs ! j)" using assms(3,5) by auto
  have le: "a < b \<Longrightarrow> b < length xs \<Longrightarrow> c (xs ! a) (xs ! b) \<le> 0" for a b
    using assms(2) by (simp add: sorted_wrt_iff_nth_less)
  have xj: "c x (xs ! j) \<le> 0" using comparator.cmp_sym[OF assms(1) ok(3) assms(4)] assms(6) by simp
  note tr = comparator.cmp_trans[OF assms(1)]
  show "c (xs[j := x] ! m) (xs[j := x] ! n) \<le> 0"
    using tr[OF assms(4) ok(3,2) xj] tr[OF ok(1,3) assms(4)] le[of m n] le[of j n] le[of m j] mn assms(5,6)
    by (cases "m = j"; cases "n = j") simp_all
qed

lemma insert_or_push:
  assumes "darray_inv d" and "da_size d < 2 ^ 30" and "l \<le> da_size d"
    and "(if int l \<ge> s32 (int (da_size d)) then darray_push alloc d x else darray_insert alloc d (nat (int l)) x) = (RET_OK, d')"
  shows "darray_inv d' \<and> darray_abs d' = take l (darray_abs d) @ x # drop l (darray_abs d) \<and> da_destroyed d' = da_destroyed d"
proof (cases "l = da_size d")
  case True
  then show ?thesis using assms darray_push_cases[OF assms(1,2), of alloc x RET_OK d'] by simp
next
  case False
  then show ?thesis using assms darray_insert_cases[OF assms(1,2), of alloc l x RET_OK d'] by simp
qed

text \<open>
  \<open>darray_sorted_insert\<close> keeps a sorted array sorted. When an equal element is there it is
  either replaced (and destroyed) or the new one is put right behind it.
\<close>

lemma darray_sorted_insert_at:
  assumes inv: "darray_inv d" "da_size d < 2 ^ 30" and c: "c = (case cmp of Some c \<Rightarrow> c | None \<Rightarrow> own_compare d)"
    and key: "key_ordered c x (darray_abs d)"
    and run: "darray_sorted_insert alloc d x cmp replace = (RET_OK, d')"
  shows "darray_inv d' \<and>
    ((\<exists>l \<le> da_size d. darray_abs d' = take l (darray_abs d) @ x # drop l (darray_abs d) \<and> da_destroyed d' = da_destroyed d \<and>
        (\<forall>j < l. c (darray_abs d ! j) x \<le> 0) \<and> (\<forall>j < da_size d. l \<le> j \<longrightarrow> 0 \<le> c (darray_abs d ! j) x) \<and>
        (replace \<longrightarrow> (\<forall>p \<in> set (darray_abs d). c p x \<noteq> 0))) \<or>
     (replace \<and> (\<exists>j < da_size d. c (darray_abs d ! j) x = 0 \<and> darray_abs d' = (darray_abs d)[j := x] \<and>
        da_destroyed d' = da_destroyed d @ [darray_abs d ! j])))"
proof (cases "da_size d = 0")
  case True
  then have "darray_push alloc d x = (RET_OK, d')" using run by (simp add: darray_sorted_insert_def)
  then show ?thesis using darray_push_cases[OF inv] True inv(1) by (auto simp: darray_abs_def)
next
  case ne: False
  from darray_bsearch_index_ex_spec[OF inv(1) c key] consider
    (found) j where "j < da_size d" "darray_bsearch_index_ex d cmp x = (int j, None)" "c (darray_abs d ! j) x = 0"
  | (low) l where "l \<le> da_size d" "darray_bsearch_index_ex d cmp x = (-1, Some (int l))"
      "\<forall>j < l. c (darray_abs d ! j) x < 0" "\<forall>j < da_size d. l \<le> j \<longrightarrow> 0 < c (darray_abs d ! j) x"
    by blast
  then show ?thesis
  proof cases
    case low
    have "\<forall>p \<in> set (darray_abs d). c p x \<noteq> 0"
      using low(3,4) inv(1) by (auto simp: in_set_conv_nth) (metis linorder_not_less less_irrefl)
    moreover have "darray_inv d' \<and> darray_abs d' = take l (darray_abs d) @ x # drop l (darray_abs d) \<and> da_destroyed d' = da_destroyed d"
      using insert_or_push[OF inv low(1), of alloc x d'] run ne low(2)
      by (simp add: darray_sorted_insert_def Let_def split: if_splits)
    ultimately show ?thesis using low(1,3,4) by (auto simp: less_imp_le)
  next
    case found
    show ?thesis
    proof (cases replace)
      case True
      then have "d' = snd (darray_replace d j x)"
        using run ne found(2) by (simp add: darray_sorted_insert_def)
      then show ?thesis using darray_replace_spec[OF inv(1) found(1)] found True by auto
    next
      case False
      have "darray_inv d' \<and> darray_abs d' = take (Suc j) (darray_abs d) @ x # drop (Suc j) (darray_abs d) \<and> da_destroyed d' = da_destroyed d"
      proof (rule insert_or_push[OF inv])
        have "nat (1 + int j) = Suc j" by simp
        then show "(if int (Suc j) \<ge> s32 (int (da_size d)) then darray_push alloc d x
            else darray_insert alloc d (nat (int (Suc j))) x) = (RET_OK, d')"
          using run ne found(2) False
          by (simp add: darray_sorted_insert_def Let_def add.commute split: if_splits)
      qed (use found(1) in simp)
      moreover have "c (darray_abs d ! i) x \<le> 0" if "i < Suc j" for i
        using that key_orderedD(1)[OF key, of i j] found(1,3) inv(1) by (cases "i = j") auto
      moreover have "0 \<le> c (darray_abs d ! i) x" if "Suc j \<le> i" "i < da_size d" for i
        using that key_orderedD(2)[OF key, of j i] found(1,3) inv(1) by auto
      ultimately show ?thesis using found(1) False by (intro conjI disjI1 exI[of _ "Suc j"]) auto
    qed
  qed
qed

lemma darray_sorted_insert_spec:
  assumes inv: "darray_inv d" "da_size d < 2 ^ 30" and cmp: "comparator ok c"
    and c: "c = (case cmp of Some c \<Rightarrow> c | None \<Rightarrow> own_compare d)"
    and ok: "\<forall>p \<in> set (darray_abs d). ok p" "ok x"
    and sorted: "sorted_wrt (\<lambda>a b. c a b \<le> 0) (darray_abs d)"
    and run: "darray_sorted_insert alloc d x cmp replace = (RET_OK, d')"
  shows "darray_inv d'" and "sorted_wrt (\<lambda>a b. c a b \<le> 0) (darray_abs d')"
    and "(mset (darray_abs d') = add_mset x (mset (darray_abs d)) \<and> da_destroyed d' = da_destroyed d \<and>
        (replace \<longrightarrow> (\<forall>p \<in> set (darray_abs d). c p x \<noteq> 0))) \<or>
      (replace \<and> (\<exists>j < da_size d. c (darray_abs d ! j) x = 0 \<and> darray_abs d' = (darray_abs d)[j := x] \<and>
         da_destroyed d' = da_destroyed d @ [darray_abs d ! j]))"
proof -
  note at = darray_sorted_insert_at[OF inv c sorted_key_ordered[OF cmp sorted ok] run]
  show "darray_inv d'" using at by blast
  show "(mset (darray_abs d') = add_mset x (mset (darray_abs d)) \<and> da_destroyed d' = da_destroyed d \<and>
        (replace \<longrightarrow> (\<forall>p \<in> set (darray_abs d). c p x \<noteq> 0))) \<or>
      (replace \<and> (\<exists>j < da_size d. c (darray_abs d ! j) x = 0 \<and> darray_abs d' = (darray_abs d)[j := x] \<and>
         da_destroyed d' = da_destroyed d @ [darray_abs d ! j]))"
    using at by (auto simp: mset_insert_at)
  show "sorted_wrt (\<lambda>a b. c a b \<le> 0) (darray_abs d')"
    using conjunct2[OF at]
  proof (elim disjE exE conjE)
    fix l assume l: "l \<le> da_size d" "darray_abs d' = take l (darray_abs d) @ x # drop l (darray_abs d)"
      "\<forall>j < l. c (darray_abs d ! j) x \<le> 0" "\<forall>j < da_size d. l \<le> j \<longrightarrow> 0 \<le> c (darray_abs d ! j) x"
    have "c x (darray_abs d ! j) \<le> 0" if "j < da_size d" "l \<le> j" for j
      using l(4) that comparator.cmp_sym[OF cmp, of "darray_abs d ! j" x] ok inv(1) by auto
    then show ?thesis unfolding l(2) using sorted l(1,3) inv(1) by (intro sorted_wrt_insert_at) auto
  next
    fix j assume "j < da_size d" "c (darray_abs d ! j) x = 0" "darray_abs d' = (darray_abs d)[j := x]"
    then show ?thesis using sorted_wrt_replace_equal[OF cmp sorted ok, of j] inv(1) by simp
  qed
qed

text \<open>No insertion touches the comparator.\<close>

lemma insert_compare [simp]:
  "da_compare (snd (darray_insert alloc d i x)) = da_compare d"
  "da_compare (snd (darray_push alloc d x)) = da_compare d"
  "da_compare (snd (darray_replace d i x)) = da_compare d"
  "da_compare (snd (darray_sorted_insert alloc d x cmp replace)) = da_compare d"
  by (auto simp: darray_insert_def darray_push_def darray_replace_def darray_sorted_insert_def Let_def
      darray_auto_extend_def darray_extend_def split: prod.splits if_splits option.splits)

section \<open>Reversing, clearing, visiting\<close>

lemma length_reverse_loop [simp]: "length (reverse_loop es lo hi) = length es"
  by (induction es lo hi rule: reverse_loop.induct) (simp add: reverse_loop.simps)

lemma nth_reverse_loop:
  "hi < length es \<Longrightarrow> j < length es \<Longrightarrow>
   reverse_loop es lo hi ! j = (if lo \<le> j \<and> j \<le> hi then es ! (lo + hi - j) else es ! j)"
proof (induction es lo hi rule: reverse_loop.induct)
  case (1 es lo hi)
  show ?case
  proof (cases "lo < hi")
    case True
    then have step: "reverse_loop es lo hi = reverse_loop (es[lo := es ! hi, hi := es ! lo]) (lo + 1) (hi - 1)"
      by (simp add: reverse_loop.simps[of es lo hi])
    consider "j = lo" | "j = hi" | "lo < j" "j < hi" | "j < lo \<or> hi < j" using True by linarith
    then show ?thesis using True "1.IH" "1.prems" by cases (auto simp: step nth_list_update)
  next
    case False
    then show ?thesis by (cases "lo = hi \<and> j = lo") (auto simp: reverse_loop.simps[of es lo hi])
  qed
qed

lemma darray_reverse_spec:
  assumes "darray_inv d"
  shows "fst (darray_reverse d) = RET_OK" and "darray_inv (snd (darray_reverse d))"
    and "darray_abs (snd (darray_reverse d)) = rev (darray_abs d)"
proof -
  have len: "da_size d \<le> length (elms_of d)" using assms by (simp add: darray_inv_def)
  have ne: "\<not> da_size d < 2 \<Longrightarrow> da_elms d \<noteq> None" using assms by (auto simp: darray_inv_def)
  show "fst (darray_reverse d) = RET_OK" by (simp add: darray_reverse_def)
  show "darray_inv (snd (darray_reverse d))"
    using assms ne by (auto simp: darray_reverse_def darray_inv_def)
  show "darray_abs (snd (darray_reverse d)) = rev (darray_abs d)"
  proof (cases "da_size d < 2")
    case True
    then have "length (darray_abs d) = 0 \<or> length (darray_abs d) = 1" using assms by auto
    then have "rev (darray_abs d) = darray_abs d" by (auto simp: length_Suc_conv)
    then show ?thesis using True by (simp add: darray_reverse_def)
  next
    case False
    have "take (da_size d) (reverse_loop (elms_of d) 0 (da_size d - 1)) = rev (take (da_size d) (elms_of d))"
      using len False by (intro nth_equalityI) (auto simp: nth_reverse_loop rev_nth)
    then show ?thesis using False ne by (simp add: darray_reverse_def darray_abs_def)
  qed
qed

lemma clear_loop_spec:
  "da_elms d \<noteq> None \<Longrightarrow> n \<le> length (elms_of d) \<Longrightarrow>
   da_destroyed (clear_loop d n) = da_destroyed d @ rev (take n (elms_of d)) \<and>
   da_capacity (clear_loop d n) = da_capacity d \<and> length (elms_of (clear_loop d n)) = length (elms_of d) \<and>
   da_compare (clear_loop d n) = da_compare d \<and> da_elms (clear_loop d n) \<noteq> None"
proof (induction d n rule: clear_loop.induct)
  case (2 d i)
  let ?d = "destroy_elem (elms_of d ! i) ((set_elms ((elms_of d)[i := NULL]) d)\<lparr>da_size := da_size d - 1\<rparr>)"
  have "take i (elms_of ?d) = take i (elms_of d)" using "2.prems" by simp
  moreover have "rev (take (Suc i) (elms_of d)) = elms_of d ! i # rev (take i (elms_of d))"
    using "2.prems" by (simp add: take_Suc_conv_app_nth)
  ultimately show ?case using 2 by simp
qed simp

text \<open>Clearing destroys every element once, from the last to the first.\<close>

lemma darray_clear_spec:
  assumes "darray_inv d"
  shows "fst (darray_clear d) = RET_OK" and "darray_inv (snd (darray_clear d))"
    and "darray_abs (snd (darray_clear d)) = []"
    and "da_destroyed (snd (darray_clear d)) = da_destroyed d @ rev (darray_abs d)"
proof -
  have "da_size d \<le> length (elms_of d)" using assms by (simp add: darray_inv_def)
  note cl = clear_loop_spec[OF _ this]
  show "fst (darray_clear d) = RET_OK" "darray_inv (snd (darray_clear d))" "darray_abs (snd (darray_clear d)) = []"
    "da_destroyed (snd (darray_clear d)) = da_destroyed d @ rev (darray_abs d)"
    using assms cl by (cases "da_elms d = None"; auto simp: darray_clear_def darray_abs_def darray_inv_def elms_of_def)+
qed

lemma foreach_loop_refines:
  "darray_inv d \<Longrightarrow> i \<le> da_size d \<Longrightarrow>
   visit_list visit ctx (drop i (darray_abs d)) ret = (r, c, keep, gone) \<Longrightarrow>
   foreach_loop visit ctx d i ret = (r', c', d') \<Longrightarrow>
   r' = r \<and> c' = c \<and> darray_inv d' \<and> darray_abs d' = take i (darray_abs d) @ keep \<and> da_destroyed d' = da_destroyed d @ gone"
proof (induction visit ctx d i ret arbitrary: r c keep gone rule: foreach_loop.induct)
  case (1 visit ctx d i ret)
  show ?case
  proof (cases "i < da_size d")
    case False
    then show ?thesis using "1.prems" by auto
  next
    case True
    then have dr: "drop i (darray_abs d) = darray_abs d ! i # drop (Suc i) (darray_abs d)"
      using "1.prems"(1) by (simp add: Cons_nth_drop_Suc)
    obtain v c1 where v: "visit ctx (darray_abs d ! i) = (v, c1)" by (cases "visit ctx (darray_abs d ! i)")
    have v': "visit ctx (elms_of d ! i) = (v, c1)" using v nth_abs[OF "1.prems"(1) True] by simp
    show ?thesis
    proof (cases "foreach_visit_result v")
      case (Visit_next r1)
      obtain r2 c2 k2 g2 where vl: "visit_list visit c1 (drop (Suc i) (darray_abs d)) r1 = (r2, c2, k2, g2)"
        by (metis prod_cases4)
      have "foreach_loop visit c1 d (Suc i) r1 = (r', c', d')"
        using "1.prems"(4) True v' Visit_next by (simp add: foreach_loop.simps[of visit ctx d i])
      from "1.IH"(1)[OF True v'[symmetric] Visit_next "1.prems"(1) _ vl this] "1.prems"(3) True v vl Visit_next dr
      show ?thesis using "1.prems"(1) by (auto simp: take_Suc_conv_app_nth)
    next
      case (Visit_remove r1)
      let ?d = "snd (darray_remove_index d i)"
      note rm = darray_remove_index_spec[OF "1.prems"(1) True]
      have size: "da_size ?d = da_size d - 1" using rm(2,3) "1.prems"(1) True length_abs[of ?d] by simp
      have rest: "drop i (darray_abs ?d) = drop (Suc i) (darray_abs d)" "take i (darray_abs ?d) = take i (darray_abs d)"
        using rm(3) "1.prems"(1) True by simp_all
      obtain r2 c2 k2 g2 where vl: "visit_list visit c1 (drop (Suc i) (darray_abs d)) r1 = (r2, c2, k2, g2)"
        by (metis prod_cases4)
      have "foreach_loop visit c1 ?d i r1 = (r', c', d')"
        using "1.prems"(4) True v' Visit_remove by (simp add: foreach_loop.simps[of visit ctx d i])
      from "1.IH"(2)[OF True v'[symmetric] Visit_remove rm(2) _ _ this, of r2 c2 k2 g2] "1.prems"(3) True v vl
        Visit_remove dr rest size
      show ?thesis using rm(4) by auto
    next
      case (Visit_break r1)
      then show ?thesis
        using "1.prems" True v v' dr by (auto simp: foreach_loop.simps[of visit ctx d i] id_take_nth_drop[symmetric])
    qed
  qed
qed

lemma darray_foreach_refines:
  assumes "darray_inv d" and "visit_list visit ctx (darray_abs d) RET_OK = (r, c, keep, gone)"
    and "darray_foreach d visit ctx = (r', c', d')"
  shows "r' = r \<and> c' = c \<and> darray_inv d' \<and> darray_abs d' = keep \<and> da_destroyed d' = da_destroyed d @ gone"
proof (cases "da_elms d = None")
  case True
  then have "darray_abs d = []" by (simp add: darray_abs_def elms_of_def)
  then show ?thesis using assms True by (auto simp: darray_foreach_def)
next
  case False
  then show ?thesis
    using foreach_loop_refines[OF assms(1), of 0 visit ctx RET_OK r c keep gone r' c' d'] assms(2,3)
    by (simp add: darray_foreach_def)
qed

section \<open>Properties\<close>

lemma darray_insert_granted:
  "(\<And>n. alloc n) \<Longrightarrow> fst (darray_insert alloc d index x) = RET_OK"
  by (simp add: darray_insert_def darray_auto_extend_def darray_extend_def Let_def split: prod.splits)

text \<open>
  \<open>darray_insert\<close> puts the element at the index (at the end for a larger index),
  growing the block when it is full and moving the later elements up one place. The only error is
  an allocator that refuses the larger block, and then the array is unchanged.
\<close>

theorem darray_insert_refines:
  assumes "darray_inv d" and "da_size d < 2 ^ 30" and "darray_insert alloc d index x = (r, d')"
  shows "darray_inv d' \<and> da_destroyed d' = da_destroyed d \<and>
    ((\<forall>n. alloc n) \<longrightarrow> r = RET_OK) \<and>
    (r = RET_OK \<and> darray_abs d' = take index (darray_abs d) @ x # drop index (darray_abs d) \<or>
     r = RET_OOM \<and> darray_abs d' = darray_abs d)"
  using darray_insert_cases[OF assms] darray_insert_granted[of alloc d index x] assms(3) by auto

abbreviation (input) darray_example :: darray where
  "darray_example \<equiv> \<lparr>da_size = 3, da_capacity = 3, da_elms = Some [5, 9, 5], da_compare = Some pointer_compare,
     da_destroyed = []\<rparr>"

lemma darray_example_inv: "darray_inv darray_example"
  by (simp add: darray_inv_def elms_of_def)

theorem darray_insert_refines_witness:
  "\<exists>d'. darray_insert (\<lambda>_. True) darray_example 1 7 = (RET_OK, d') \<and> darray_abs d' = [5, 7, 9, 5]"
proof -
  obtain r d' where run: "darray_insert (\<lambda>_. True) darray_example 1 7 = (r, d')" by fastforce
  from darray_insert_refines[OF darray_example_inv _ run] show ?thesis
    using run by (auto simp: darray_abs_def elms_of_def)
qed

text \<open>
  \<open>darray_remove_all\<close> removes every element that compares equal and keeps the others in
  order; each removed element is destroyed exactly once, whatever compare function is passed.
\<close>

theorem darray_remove_all_exact:
  assumes "darray_inv d" and "c = (case cmp of Some c \<Rightarrow> c | None \<Rightarrow> own_compare d)"
    and "hits = filter (\<lambda>p. c p ctx = 0 \<and> p \<noteq> NULL) (darray_abs d)" and "hits = [] \<or> alloc (length hits)"
  shows "\<exists>d'. darray_remove_all alloc d cmp ctx = (RET_OK, d') \<and> darray_inv d' \<and>
    darray_abs d' = filter (\<lambda>p. c p ctx \<noteq> 0) (darray_abs d) \<and> da_destroyed d' = da_destroyed d @ hits"
  using darray_remove_all_spec[where c = c and ctx = ctx and hits = hits and d = d and cmp = cmp and alloc = alloc, OF assms] by (metis prod.collapse)

theorem darray_remove_all_exact_witness:
  "\<exists>d'. darray_remove_all (\<lambda>_. True) darray_example None 5 = (RET_OK, d') \<and>
     darray_abs d' = [9] \<and> da_destroyed d' = [5, 5]"
proof -
  have "filter (\<lambda>p. own_compare darray_example p 5 \<noteq> 0) (darray_abs darray_example) = [9]"
    "filter (\<lambda>p. own_compare darray_example p 5 = 0 \<and> p \<noteq> NULL) (darray_abs darray_example) = [5, 5]"
    by (simp_all add: darray_abs_def elms_of_def own_compare_def pointer_compare_def s32_def)
  then show ?thesis
    using darray_remove_all_exact[OF darray_example_inv, where c = "own_compare darray_example" and
        alloc = "\<lambda>_. True" and cmp = None and ctx = 5 and hits = "[5, 5]"] by fastforce
qed

text \<open>
  C6. \<open>darray_sort\<close>, the in-place quick sort of \<open>tk_qsort\<close>, terminates and leaves a
  permutation of the elements that is sorted by the compare function, for every compare function
  whose sign is a total preorder on the elements.
\<close>

theorem darray_sort_sorts:
  assumes "darray_inv d" and "comparator ok c" and "c = (case cmp of Some c \<Rightarrow> c | None \<Rightarrow> own_compare d)"
    and "\<forall>p \<in> set (darray_abs d). ok p" and "da_elms d \<noteq> None"
  shows "\<exists>d'. darray_sort d cmp = (RET_OK, d') \<and> darray_inv d' \<and>
    mset (darray_abs d') = mset (darray_abs d) \<and> sorted_wrt (\<lambda>a b. c a b \<le> 0) (darray_abs d') \<and>
    da_destroyed d' = da_destroyed d"
  using darray_sort_spec[OF assms] by (metis prod.collapse)

theorem darray_sort_sorts_witness:
  "\<exists>d'. darray_sort darray_example None = (RET_OK, d') \<and> mset (darray_abs d') = {#5, 5, 9#} \<and>
     sorted_wrt (\<lambda>a b. pointer_compare a b \<le> 0) (darray_abs d')"
proof -
  have "pointer_compare = own_compare darray_example" "darray_abs darray_example = [5, 9, 5]"
    by (simp_all add: own_compare_def darray_abs_def elms_of_def)
  then show ?thesis
    using darray_sort_sorts[OF darray_example_inv pointer_cmp.comparator_axioms, of None]
    by (fastforce simp: add_mset_commute)
qed

text \<open>
  C9. The binary search of a sorted array finds an element that compares equal when there is one,
  and otherwise gives the one place where the key belongs.
\<close>

theorem darray_bsearch_exact:
  assumes "darray_inv d" and "c = (case cmp of Some c \<Rightarrow> c | None \<Rightarrow> own_compare d)"
    and "comparator ok c" and "sorted_wrt (\<lambda>a b. c a b \<le> 0) (darray_abs d)"
    and "\<forall>p \<in> set (darray_abs d). ok p" and "ok x"
  shows "(\<exists>j < da_size d. darray_bsearch_index_ex d cmp x = (int j, None) \<and> c (darray_abs d ! j) x = 0) \<or>
    (\<exists>l \<le> da_size d. darray_bsearch_index_ex d cmp x = (-1, Some (int l)) \<and>
       (\<forall>j < l. c (darray_abs d ! j) x < 0) \<and> (\<forall>j < da_size d. l \<le> j \<longrightarrow> 0 < c (darray_abs d ! j) x))"
  by (rule darray_bsearch_index_ex_spec[OF assms(1,2) sorted_key_ordered[OF assms(3-6)]])

abbreviation (input) darray_sorted_example :: darray where
  "darray_sorted_example \<equiv> \<lparr>da_size = 3, da_capacity = 4, da_elms = Some [2, 5, 9, 0], da_compare = Some pointer_compare,
     da_destroyed = []\<rparr>"

lemma darray_sorted_example:
  "darray_inv darray_sorted_example" "darray_abs darray_sorted_example = [2, 5, 9]"
  "sorted_wrt (\<lambda>a b. pointer_compare a b \<le> 0) [2, 5, 9]"
  "pointer_compare = (case None of Some c \<Rightarrow> c | None \<Rightarrow> own_compare darray_sorted_example)"
  by (simp_all add: darray_inv_def elms_of_def darray_abs_def pointer_compare_def s32_def own_compare_def)

theorem darray_bsearch_exact_witness:
  "\<exists>l \<le> 3. darray_bsearch_index_ex darray_sorted_example None 6 = (-1, Some (int l)) \<and>
     (\<forall>j < l. pointer_compare ([2, 5, 9] ! j) 6 < 0) \<and> (\<forall>j < 3. l \<le> j \<longrightarrow> 0 < pointer_compare ([2, 5, 9] ! j) 6)"
proof -
  have "\<forall>j < 3. pointer_compare ([2, 5, 9] ! j) 6 \<noteq> 0"
    by (simp add: numeral_3_eq_3 All_less_Suc pointer_compare_def s32_def)
  then show ?thesis
    using darray_bsearch_exact[OF darray_sorted_example(1,4) pointer_cmp.comparator_axioms, where x = 6]
      darray_sorted_example(2,3) by fastforce
qed

text \<open>
  C8. \<open>darray_sorted_insert\<close> keeps a sorted array sorted: it adds the element, or, when
  asked to replace, puts it in the place of an equal one, which it destroys; a duplicate is only
  ever added when replacing was not asked for.
\<close>

theorem darray_sorted_insert_keeps_order:
  assumes "darray_inv d" "da_size d < 2 ^ 30" and "comparator ok c"
    and "c = (case cmp of Some c \<Rightarrow> c | None \<Rightarrow> own_compare d)"
    and "\<forall>p \<in> set (darray_abs d). ok p" "ok x"
    and "sorted_wrt (\<lambda>a b. c a b \<le> 0) (darray_abs d)"
    and "darray_sorted_insert alloc d x cmp replace = (RET_OK, d')"
  shows "darray_inv d' \<and> sorted_wrt (\<lambda>a b. c a b \<le> 0) (darray_abs d') \<and>
     (mset (darray_abs d') = add_mset x (mset (darray_abs d)) \<and> da_destroyed d' = da_destroyed d \<and>
        (replace \<longrightarrow> (\<forall>p \<in> set (darray_abs d). c p x \<noteq> 0)) \<or>
      replace \<and> (\<exists>j < da_size d. c (darray_abs d ! j) x = 0 \<and> darray_abs d' = (darray_abs d)[j := x] \<and>
         da_destroyed d' = da_destroyed d @ [darray_abs d ! j]))"
  using darray_sorted_insert_spec[OF assms] by blast

theorem darray_sorted_insert_keeps_order_witness:
  "\<exists>d'. darray_sorted_insert (\<lambda>_. True) darray_sorted_example 5 None False = (RET_OK, d') \<and>
     sorted_wrt (\<lambda>a b. pointer_compare a b \<le> 0) (darray_abs d') \<and> mset (darray_abs d') = {#2, 5, 5, 9#}"
proof -
  let ?run = "darray_sorted_insert (\<lambda>_. True) darray_sorted_example 5 None False"
  have "fst ?run = RET_OK"
    by (simp add: darray_sorted_insert_def darray_bsearch_index_ex_def own_compare_def pointer_compare_def s32_def
      elms_of_def darray_insert_def darray_auto_extend_def bsearch_loop.simps Let_def)
  then obtain d' where run: "?run = (RET_OK, d')" by (metis prod.collapse)
  have "pointer_compare 2 5 \<le> 0 \<and> pointer_compare 2 9 \<le> 0 \<and> pointer_compare 5 9 \<le> 0"
    by (simp add: pointer_compare_def s32_def)
  with darray_sorted_insert_keeps_order[OF darray_sorted_example(1) _ pointer_cmp.comparator_axioms
      darray_sorted_example(4) _ _ _ run] run
  show ?thesis by (auto simp: darray_sorted_example(2) add_mset_commute)
qed

end
