(* ===== verification/HashTable.thy ===== *)
theory HashTable
  imports Darray
begin

text \<open>
  The chained hash table of \<open>src/src/tkc/hash_table.c\<close>: a fixed number of buckets, each a
  sorted dynamic array. The outer array of bucket pointers never changes its length after
  \<open>hash_table_init\<close>, so it is the list of its buckets here. Shown: the representation
  invariant, that an insertion adds the element or replaces the equal one, and that a lookup finds
  an element exactly when an equal one is stored, whenever equal elements have equal hashes.
\<close>

section \<open>State and operations\<close>

record hash_table =
  ht_hash :: "ptr \<Rightarrow> nat"
  ht_compare :: compare_t
  ht_buckets :: "darray list"

fun create_buckets :: "alloc_t \<Rightarrow> compare_t \<Rightarrow> nat \<Rightarrow> darray list option" where
  "create_buckets alloc compare 0 = Some []"
| "create_buckets alloc compare (Suc n) =
     (case darray_create alloc 5 (Some compare) of
        None \<Rightarrow> None
      | Some arr \<Rightarrow> (case create_buckets alloc compare n of None \<Rightarrow> None | Some bs \<Rightarrow> Some (arr # bs)))"

definition hash_table_init :: "alloc_t \<Rightarrow> nat \<Rightarrow> compare_t option \<Rightarrow> (ptr \<Rightarrow> nat) option \<Rightarrow> hash_table option" where
  "hash_table_init alloc capacity compare hash =
     (case (compare, hash) of
        (Some c, Some h) \<Rightarrow>
          (if capacity > 0 then
             (case darray_init alloc capacity None of (_, ok) \<Rightarrow>
                if ok then
                  (case create_buckets alloc c capacity of
                     None \<Rightarrow> None
                   | Some bs \<Rightarrow> Some \<lparr>ht_hash = h, ht_compare = c, ht_buckets = bs\<rparr>)
                else None)
           else None)
      | _ \<Rightarrow> None)"

definition hash_table_get_array :: "hash_table \<Rightarrow> ptr \<Rightarrow> nat option" where
  "hash_table_get_array h ctx =
     (if length (ht_buckets h) > 0 then Some (ht_hash h ctx mod length (ht_buckets h)) else None)"

definition hash_table_find :: "hash_table \<Rightarrow> compare_t option \<Rightarrow> ptr \<Rightarrow> ptr" where
  "hash_table_find h cmp ctx =
     (case hash_table_get_array h ctx of
        None \<Rightarrow> NULL
      | Some i \<Rightarrow> darray_find_ex (ht_buckets h ! i) cmp ctx)"

definition set_bucket :: "nat \<Rightarrow> darray \<Rightarrow> hash_table \<Rightarrow> hash_table" where
  "set_bucket i arr h = h\<lparr>ht_buckets := (ht_buckets h)[i := arr]\<rparr>"

definition hash_table_add :: "alloc_t \<Rightarrow> hash_table \<Rightarrow> ptr \<Rightarrow> bool \<Rightarrow> ret_t \<times> hash_table" where
  "hash_table_add alloc h data replace_if_exist =
     (case hash_table_get_array h data of
        None \<Rightarrow> (RET_BAD_PARAMS, h)
      | Some i \<Rightarrow>
          (case darray_sorted_insert alloc (ht_buckets h ! i) data (Some (ht_compare h)) replace_if_exist of
             (r, arr) \<Rightarrow> (r, set_bucket i arr h)))"

text \<open>The parameter \<open>cmp\<close> is not used: the comparator of the table decides.\<close>

definition hash_table_remove :: "hash_table \<Rightarrow> compare_t option \<Rightarrow> ptr \<Rightarrow> ret_t \<times> hash_table" where
  "hash_table_remove h cmp ctx =
     (case hash_table_get_array h ctx of
        None \<Rightarrow> (RET_BAD_PARAMS, h)
      | Some i \<Rightarrow>
          (case darray_remove_ex (ht_buckets h ! i) (Some (ht_compare h)) ctx of
             (r, arr) \<Rightarrow> (r, set_bucket i arr h)))"

definition hash_table_remove_all :: "alloc_t \<Rightarrow> hash_table \<Rightarrow> compare_t option \<Rightarrow> ptr \<Rightarrow> ret_t \<times> hash_table" where
  "hash_table_remove_all alloc h cmp ctx =
     (RET_OK, h\<lparr>ht_buckets := map (\<lambda>arr. snd (darray_remove_all alloc arr cmp ctx)) (ht_buckets h)\<rparr>)"

definition hash_table_size :: "hash_table \<Rightarrow> int" where
  "hash_table_size h = s32 (int (sum_list (map da_size (ht_buckets h))))"

text \<open>The comparator of a bucket is replaced during the count and then set to the table's.\<close>

definition hash_table_count :: "hash_table \<Rightarrow> compare_t option \<Rightarrow> ptr \<Rightarrow> int \<times> hash_table" where
  "hash_table_count h cmp ctx =
     (s32 (int (sum_list (map (\<lambda>arr. darray_count (arr\<lparr>da_compare := cmp\<rparr>) ctx) (ht_buckets h)))),
      h\<lparr>ht_buckets := map (\<lambda>arr. arr\<lparr>da_compare := Some (ht_compare h)\<rparr>) (ht_buckets h)\<rparr>)"

definition hash_table_clear :: "hash_table \<Rightarrow> ret_t \<times> hash_table" where
  "hash_table_clear h = (RET_OK, h\<lparr>ht_buckets := map (\<lambda>arr. snd (darray_clear arr)) (ht_buckets h)\<rparr>)"

text \<open>The status of a whole bucket decides whether the next bucket is visited.\<close>

fun foreach_buckets :: "('c \<Rightarrow> ptr \<Rightarrow> ret_t \<times> 'c) \<Rightarrow> 'c \<Rightarrow> darray list \<Rightarrow> ret_t \<Rightarrow> ret_t \<times> 'c \<times> darray list" where
  "foreach_buckets visit ctx [] ret = (ret, ctx, [])"
| "foreach_buckets visit ctx (b # bs) ret =
     (case darray_foreach b visit ctx of (r, ctx', b') \<Rightarrow>
        (case foreach_visit_result r of
           Visit_next r' \<Rightarrow> (case foreach_buckets visit ctx' bs r' of (r'', c, bs') \<Rightarrow> (r'', c, b' # bs'))
         | Visit_remove r' \<Rightarrow> (case foreach_buckets visit ctx' bs r' of (r'', c, bs') \<Rightarrow> (r'', c, b' # bs'))
         | Visit_break r' \<Rightarrow> (r', ctx', b' # bs)))"

definition hash_table_foreach :: "hash_table \<Rightarrow> ('c \<Rightarrow> ptr \<Rightarrow> ret_t \<times> 'c) \<Rightarrow> 'c \<Rightarrow> ret_t \<times> 'c \<times> hash_table" where
  "hash_table_foreach h visit ctx =
     (case foreach_buckets visit ctx (ht_buckets h) RET_OK of (r, c, bs) \<Rightarrow> (r, c, h\<lparr>ht_buckets := bs\<rparr>))"

text \<open>The two hash functions the library ships: a byte sum (\<open>char\<close> is signed) and a cast.\<close>

definition hash_table_hash_str :: "8 word list \<Rightarrow> 32 word" where
  "hash_table_hash_str s = fold (\<lambda>c v. v + scast c) s 0"

definition hash_table_hash_int :: "int \<Rightarrow> 32 word" where
  "hash_table_hash_int i = word_of_int i"

section \<open>Invariant\<close>

text \<open>What is stored, bucket by bucket.\<close>

definition ht_contents :: "hash_table \<Rightarrow> ptr list" where
  "ht_contents h = concat (map darray_abs (ht_buckets h))"

definition bucket_ok :: "(ptr \<Rightarrow> bool) \<Rightarrow> hash_table \<Rightarrow> nat \<Rightarrow> darray \<Rightarrow> bool" where
  "bucket_ok ok h i arr \<longleftrightarrow> darray_inv arr \<and> da_compare arr = Some (ht_compare h) \<and>
     (\<forall>p \<in> set (darray_abs arr). ok p \<and> ht_hash h p mod length (ht_buckets h) = i) \<and>
     sorted_wrt (\<lambda>a b. ht_compare h a b \<le> 0) (darray_abs arr)"

definition hash_table_inv :: "(ptr \<Rightarrow> bool) \<Rightarrow> hash_table \<Rightarrow> bool" where
  "hash_table_inv ok h \<longleftrightarrow> ht_buckets h \<noteq> [] \<and>
     (\<forall>i < length (ht_buckets h). bucket_ok ok h i (ht_buckets h ! i))"

text \<open>Equal elements must have equal hashes.\<close>

definition hash_respects :: "(ptr \<Rightarrow> bool) \<Rightarrow> hash_table \<Rightarrow> bool" where
  "hash_respects ok h \<longleftrightarrow> (\<forall>p q. ok p \<and> ok q \<and> ht_compare h p q = 0 \<longrightarrow> ht_hash h p = ht_hash h q)"

lemma set_bucket_simps [simp]:
  "ht_hash (set_bucket i a h) = ht_hash h" "ht_compare (set_bucket i a h) = ht_compare h"
  "ht_buckets (set_bucket i a h) = (ht_buckets h)[i := a]"
  by (simp_all add: set_bucket_def)

lemma bucket_ok_set_bucket [simp]: "bucket_ok ok (set_bucket j a h) i b = bucket_ok ok h i b"
  by (simp add: bucket_ok_def)

lemma hash_table_inv_update:
  "hash_table_inv ok h \<Longrightarrow> bucket_ok ok h i a \<Longrightarrow> hash_table_inv ok (set_bucket i a h)"
  by (auto simp: hash_table_inv_def) (metis nth_list_update_eq nth_list_update_neq)

lemma darray_create_spec:
  "darray_create alloc n (Some c) = Some d \<Longrightarrow> n < 2 ^ 31 \<Longrightarrow>
   darray_inv d \<and> darray_abs d = [] \<and> da_compare d = Some c"
  by (auto simp: darray_create_def darray_init_def Let_def darray_inv_def darray_abs_def elms_of_def split: if_splits)

lemma create_buckets_spec:
  "create_buckets alloc c n = Some bs \<Longrightarrow>
   length bs = n \<and> (\<forall>b \<in> set bs. darray_inv b \<and> darray_abs b = [] \<and> da_compare b = Some c)"
proof (induction n arbitrary: bs)
  case (Suc n)
  then show ?case using darray_create_spec[of alloc 5 c] by (auto split: option.splits)
qed simp

lemma hash_table_init_inv [inv_intros]:
  "hash_table_init alloc capacity compare hash = Some h \<Longrightarrow> hash_table_inv ok h \<and> ht_contents h = []"
  using create_buckets_spec[of alloc _ capacity]
  by (auto simp: hash_table_init_def hash_table_inv_def bucket_ok_def ht_contents_def
      split: option.splits if_splits prod.splits dest!: create_buckets_spec)

lemma get_array_bucket:
  assumes "hash_table_inv ok h"
  obtains i where "hash_table_get_array h x = Some i" "i = ht_hash h x mod length (ht_buckets h)"
    "i < length (ht_buckets h)" "bucket_ok ok h i (ht_buckets h ! i)"
  using assms by (auto simp: hash_table_get_array_def hash_table_inv_def)

lemma ht_contents_set: "set (ht_contents h) = (\<Union>b \<in> set (ht_buckets h). set (darray_abs b))"
  by (simp add: ht_contents_def)

lemma bucket_subset: "i < length (ht_buckets h) \<Longrightarrow> set (darray_abs (ht_buckets h ! i)) \<subseteq> set (ht_contents h)"
  unfolding ht_contents_set by (metis UN_upper nth_mem)

lemma mset_concat_update:
  "i < length bs \<Longrightarrow> mset (concat (map f (bs[i := b]))) + mset (f (bs ! i)) = mset (concat (map f bs)) + mset (f b)"
  by (induction bs arbitrary: i) (auto split: nat.splits simp: ac_simps)

section \<open>Insertion and lookup\<close>

text \<open>The elements equal to \<open>x\<close> all sit in the bucket of \<open>x\<close>.\<close>

lemma equal_in_bucket:
  assumes "hash_table_inv ok h" and "hash_respects ok h" and "ok x" and "p \<in> set (ht_contents h)"
    and "ht_compare h p x = 0"
  shows "p \<in> set (darray_abs (ht_buckets h ! (ht_hash h x mod length (ht_buckets h))))"
proof -
  obtain i where i: "i < length (ht_buckets h)" "p \<in> set (darray_abs (ht_buckets h ! i))"
    using assms(4) unfolding ht_contents_set by (metis UN_E in_set_conv_nth)
  then have "bucket_ok ok h i (ht_buckets h ! i)" using assms(1) by (simp add: hash_table_inv_def)
  then have "ok p" "ht_hash h p mod length (ht_buckets h) = i" using i(2) by (auto simp: bucket_ok_def)
  then show ?thesis using i assms(2,3,5) by (auto simp: hash_respects_def)
qed

lemma hash_table_find_spec:
  assumes "hash_table_inv ok h" and "hash_respects ok h" and "ok x" and "NULL \<notin> set (ht_contents h)"
  shows "hash_table_find h None x \<noteq> NULL \<longleftrightarrow> (\<exists>p \<in> set (ht_contents h). ht_compare h p x = 0)"
    and "hash_table_find h None x \<noteq> NULL \<Longrightarrow>
      hash_table_find h None x \<in> set (ht_contents h) \<and> ht_compare h (hash_table_find h None x) x = 0"
proof -
  let ?c = "ht_compare h"
  obtain i where i: "hash_table_get_array h x = Some i" "i = ht_hash h x mod length (ht_buckets h)"
    "i < length (ht_buckets h)" "bucket_ok ok h i (ht_buckets h ! i)"
    using get_array_bucket[OF assms(1)] .
  let ?b = "ht_buckets h ! i"
  have inv: "darray_inv ?b" and own: "own_compare ?b = ?c"
    using i(4) by (auto simp: bucket_ok_def own_compare_def)
  have find: "hash_table_find h None x = darray_find_ex ?b None x" by (simp add: hash_table_find_def i(1))
  have sub: "set (darray_abs ?b) \<subseteq> set (ht_contents h)" using i(3) by (rule bucket_subset)
  consider (miss) "hash_table_find h None x = NULL" "\<forall>p \<in> set (darray_abs ?b). ?c p x \<noteq> 0"
    | (hit) j where "j < da_size ?b" "hash_table_find h None x = darray_abs ?b ! j" "?c (darray_abs ?b ! j) x = 0"
    using darray_find_index_ex_spec[OF inv, of ?c None x] own nth_abs[OF inv]
    by (auto simp: find darray_find_ex_def Let_def)
  note cases = this
  show "hash_table_find h None x \<noteq> NULL \<longleftrightarrow> (\<exists>p \<in> set (ht_contents h). ?c p x = 0)"
  proof (cases rule: cases)
    case miss
    then show ?thesis using equal_in_bucket[OF assms(1-3)] i(2) by auto
  next
    case (hit j)
    then have "darray_abs ?b ! j \<in> set (ht_contents h)" using sub inv by auto
    moreover from this have "darray_abs ?b ! j \<noteq> NULL" using assms(4) by metis
    ultimately show ?thesis using hit by auto
  qed
  show "hash_table_find h None x \<noteq> NULL \<Longrightarrow>
      hash_table_find h None x \<in> set (ht_contents h) \<and> ?c (hash_table_find h None x) x = 0"
    using sub inv by (cases rule: cases) auto
qed

lemma hash_table_add_spec:
  assumes inv: "hash_table_inv ok h" and cmp: "comparator ok (ht_compare h)" and resp: "hash_respects ok h" and "ok x"
    and small: "\<forall>b \<in> set (ht_buckets h). da_size b < 2 ^ 30"
    and run: "hash_table_add alloc h x replace = (RET_OK, h')"
  shows "hash_table_inv ok h'"
    and "(mset (ht_contents h') = add_mset x (mset (ht_contents h)) \<and>
          (replace \<longrightarrow> (\<forall>p \<in> set (ht_contents h). ht_compare h p x \<noteq> 0))) \<or>
         (replace \<and> (\<exists>p \<in> set (ht_contents h). ht_compare h p x = 0 \<and>
            mset (ht_contents h') = add_mset x (mset (ht_contents h) - {#p#})))"
    and "ht_compare h' = ht_compare h \<and> ht_hash h' = ht_hash h"
proof -
  let ?c = "ht_compare h"
  obtain i where i: "hash_table_get_array h x = Some i" "i = ht_hash h x mod length (ht_buckets h)"
    "i < length (ht_buckets h)" "bucket_ok ok h i (ht_buckets h ! i)"
    using get_array_bucket[OF inv] .
  let ?b = "ht_buckets h ! i"
  obtain a where a: "darray_sorted_insert alloc ?b x (Some ?c) replace = (RET_OK, a)" "h' = set_bucket i a h"
    using run i(1) by (auto simp: hash_table_add_def split: prod.splits)
  have b: "darray_inv ?b" "da_size ?b < 2 ^ 30" "\<forall>p \<in> set (darray_abs ?b). ok p"
    "sorted_wrt (\<lambda>p q. ?c p q \<le> 0) (darray_abs ?b)"
    using i(3,4) small by (auto simp: bucket_ok_def)
  have c: "?c = (case Some ?c of Some c \<Rightarrow> c | None \<Rightarrow> own_compare ?b)" by simp
  note ins = darray_sorted_insert_spec[OF b(1,2) cmp c b(3) assms(4) b(4) a(1)]
  have mset': "mset (ht_contents h') + mset (darray_abs ?b) = mset (ht_contents h) + mset (darray_abs a)"
    using mset_concat_update[OF i(3), of darray_abs a] by (simp add: ht_contents_def a(2))
  have miss: "\<forall>p \<in> set (darray_abs ?b). ?c p x \<noteq> 0 \<Longrightarrow> \<forall>p \<in> set (ht_contents h). ?c p x \<noteq> 0"
    using equal_in_bucket[OF inv resp assms(4)] i(2) by blast
  have sub: "set (darray_abs ?b) \<subseteq> set (ht_contents h)" using i(3) by (rule bucket_subset)
  show "(mset (ht_contents h') = add_mset x (mset (ht_contents h)) \<and>
          (replace \<longrightarrow> (\<forall>p \<in> set (ht_contents h). ?c p x \<noteq> 0))) \<or>
         (replace \<and> (\<exists>p \<in> set (ht_contents h). ?c p x = 0 \<and>
            mset (ht_contents h') = add_mset x (mset (ht_contents h) - {#p#})))"
    using ins(3)
  proof (elim disjE conjE exE)
    fix j assume j: "replace" "j < da_size ?b" "?c (darray_abs ?b ! j) x = 0" "darray_abs a = (darray_abs ?b)[j := x]"
    let ?p = "darray_abs ?b ! j"
    have p: "?p \<in> set (darray_abs ?b)" using j(2) b(1) by simp
    obtain B where B: "mset (darray_abs ?b) = add_mset ?p B" using p by (metis multi_member_split set_mset_mset)
    obtain C where C: "mset (ht_contents h) = add_mset ?p C" using p sub by (metis multi_member_split set_mset_mset subsetD)
    have "mset (darray_abs a) = add_mset x B"
      using j(2,4) b(1) B by (simp add: mset_update)
    then have "mset (ht_contents h') = add_mset x (mset (ht_contents h) - {#?p#})"
      using mset' B C by simp
    then show ?thesis using j(1,3) p sub by auto
  qed (use mset' miss in auto)
  show "ht_compare h' = ht_compare h \<and> ht_hash h' = ht_hash h" by (simp add: a(2))
  have "set (darray_abs a) \<subseteq> insert x (set (darray_abs ?b))"
    using ins(3) by (auto dest!: mset_eq_setD[of "darray_abs a" "x # darray_abs ?b", simplified] dest: set_update_subset_insert[THEN subsetD])
  moreover have "da_compare a = da_compare ?b"
    using insert_compare(4)[of alloc ?b x "Some ?c" replace] by (simp add: a(1))
  ultimately have "bucket_ok ok h i a"
    using ins(1,2) b(3) i(2,4) assms(4) by (auto simp: bucket_ok_def)
  then show "hash_table_inv ok h'" using inv by (simp add: a(2) hash_table_inv_update)
qed

section \<open>Properties\<close>

text \<open>
  C10. Lookup in the hash table is exact: it returns an element that compares equal to the key
  when the table holds one and NULL otherwise, although it searches one bucket only.
\<close>

theorem hash_table_find_exact:
  assumes "hash_table_inv ok h" and "hash_respects ok h" and "ok x" and "NULL \<notin> set (ht_contents h)"
  shows "if \<exists>p \<in> set (ht_contents h). ht_compare h p x = 0
    then hash_table_find h None x \<in> set (ht_contents h) \<and> ht_compare h (hash_table_find h None x) x = 0
    else hash_table_find h None x = NULL"
  using hash_table_find_spec[OF assms] by auto

text \<open>
  Insertion into the hash table keeps every bucket sorted and every element in the bucket of
  its hash value, and changes the contents by the new element: added, or, when replacing is asked
  for and an equal element is present, exchanged with it.
\<close>

theorem hash_table_add_contents:
  assumes "hash_table_inv ok h" and "comparator ok (ht_compare h)" and "hash_respects ok h" and "ok x"
    and "\<forall>b \<in> set (ht_buckets h). da_size b < 2 ^ 30"
    and "hash_table_add alloc h x replace = (RET_OK, h')"
  shows "hash_table_inv ok h' \<and>
    (mset (ht_contents h') = add_mset x (mset (ht_contents h)) \<and>
       (replace \<longrightarrow> (\<forall>p \<in> set (ht_contents h). ht_compare h p x \<noteq> 0)) \<or>
     replace \<and> (\<exists>p \<in> set (ht_contents h). ht_compare h p x = 0 \<and>
       mset (ht_contents h') = add_mset x (mset (ht_contents h) - {#p#})))"
  using hash_table_add_spec[OF assms] by blast

definition bucket_of :: "ptr list \<Rightarrow> darray" where
  "bucket_of xs = \<lparr>da_size = length xs, da_capacity = length xs, da_elms = Some xs,
     da_compare = Some pointer_compare, da_destroyed = []\<rparr>"

definition hash_example :: hash_table where
  "hash_example = \<lparr>ht_hash = (\<lambda>p. p), ht_compare = pointer_compare, ht_buckets = [bucket_of [2, 4], bucket_of [7]]\<rparr>"

lemma hash_example_sel:
  "ht_hash hash_example = (\<lambda>p. p)" "ht_compare hash_example = pointer_compare"
  "ht_buckets hash_example = [bucket_of [2, 4], bucket_of [7]]"
  by (simp_all add: hash_example_def)

lemma bucket_of_abs [simp]: "darray_abs (bucket_of xs) = xs" "da_compare (bucket_of xs) = Some pointer_compare"
  "length xs < 2 ^ 31 \<Longrightarrow> darray_inv (bucket_of xs)"
  by (simp_all add: darray_abs_def bucket_of_def elms_of_def darray_inv_def)

lemma hash_example:
  "hash_table_inv (\<lambda>p. p < 2 ^ 31) hash_example" "hash_respects (\<lambda>p. p < 2 ^ 31) hash_example"
  "ht_contents hash_example = [2, 4, 7]" "comparator (\<lambda>p. p < 2 ^ 31) (ht_compare hash_example)"
proof -
  have "bucket_ok (\<lambda>p. p < 2 ^ 31) hash_example 0 (bucket_of [2, 4])"
    "bucket_ok (\<lambda>p. p < 2 ^ 31) hash_example 1 (bucket_of [7])"
    by (simp_all add: bucket_ok_def hash_example_sel pointer_compare_def s32_def numeral_2_eq_2[symmetric] del: One_nat_def)
  then show "hash_table_inv (\<lambda>p. p < 2 ^ 31) hash_example"
    by (auto simp: hash_table_inv_def hash_example_sel less_Suc_eq)
  show "hash_respects (\<lambda>p. p < 2 ^ 31) hash_example"
    by (auto simp: hash_respects_def hash_example_sel pointer_compare_eq)
  show "ht_contents hash_example = [2, 4, 7]"
    by (simp add: ht_contents_def hash_example_sel)
  show "comparator (\<lambda>p. p < 2 ^ 31) (ht_compare hash_example)"
    unfolding hash_example_sel by (rule pointer_cmp.comparator_axioms)
qed

theorem hash_table_find_exact_witness: "hash_table_find hash_example None 7 = 7"
proof -
  let ?r = "hash_table_find hash_example None 7"
  have "\<exists>p \<in> set (ht_contents hash_example). ht_compare hash_example p 7 = 0"
    by (simp add: hash_example(3) hash_example_sel pointer_compare_def s32_def)
  then have "?r \<in> set (ht_contents hash_example) \<and> ht_compare hash_example ?r 7 = 0"
    using hash_table_find_exact[OF hash_example(1,2), of 7] by (simp add: hash_example(3))
  then have "?r \<in> {2, 4, 7}" "pointer_compare ?r 7 = 0" by (simp_all add: hash_example(3) hash_example_sel)
  then show ?thesis by (elim insertE) (simp_all add: pointer_compare_def s32_def)
qed

theorem hash_table_add_contents_witness:
  "\<exists>h'. hash_table_add (\<lambda>_. True) hash_example 4 True = (RET_OK, h') \<and> mset (ht_contents h') = {#2, 4, 7#}"
proof -
  let ?run = "hash_table_add (\<lambda>_. True) hash_example 4 True"
  have b: "bucket_of [2, 4] = \<lparr>da_size = 2, da_capacity = 2, da_elms = Some [2, 4],
     da_compare = Some pointer_compare, da_destroyed = []\<rparr>"
    by (simp add: bucket_of_def)
  have "darray_bsearch_index_ex (bucket_of [2, 4]) (Some pointer_compare) 4 = (1, None)"
    by (simp add: b darray_bsearch_index_ex_def bsearch_loop.simps pointer_compare_def s32_def elms_of_def Let_def)
  then have "fst (darray_sorted_insert (\<lambda>_. True) (bucket_of [2, 4]) 4 (Some pointer_compare) True) = RET_OK"
    by (simp add: darray_sorted_insert_def b darray_replace_def)
  then have "fst ?run = RET_OK"
    by (auto simp: hash_table_add_def hash_table_get_array_def hash_example_sel numeral_2_eq_2[symmetric] split: prod.splits)
  then obtain h' where run: "?run = (RET_OK, h')" by (metis prod.collapse)
  have "\<forall>b \<in> set (ht_buckets hash_example). da_size b < 2 ^ 30"
    by (simp add: hash_example_sel bucket_of_def)
  from hash_table_add_contents[OF hash_example(1,4,2) _ this run]
  have "mset (ht_contents h') = {#2, 4, 7#} \<or> mset (ht_contents h') = add_mset 4 {#2, 4, 7#} \<and>
      (\<forall>p \<in> {2, 4, 7}. pointer_compare p 4 \<noteq> 0)"
    by (auto simp: hash_example(3) hash_example_sel pointer_compare_eq)
  moreover have "pointer_compare 4 4 = 0" by (simp add: pointer_compare_eq)
  ultimately show ?thesis using run by auto
qed

end
