(* ===== verification/ListContainer.thy ===== *)
theory ListContainer
  imports AwtkPrelude
begin

text \<open>
  What a client of a linked list relies on, stated once for both list implementations. A list
  state \<open>s\<close> represents a sequence of element pointers; an operation returns \<open>None\<close>
  exactly when the code would read a dangling pointer or loop for ever, so each law also promises
  that the operation ends and touches live nodes only.

  The second half derives what the timer and idle managers need: a list in which a key is unique
  stays so, and removing by key removes that element and no other.
\<close>

section \<open>The sequence operations\<close>

text \<open>
  \<open>remove_n P n xs\<close> removes matches from the front until the counter, decremented at each
  match, becomes \<open>0\<close>; it returns what is kept, what is removed and the counter.
\<close>

fun remove_n :: "('a \<Rightarrow> bool) \<Rightarrow> int \<Rightarrow> 'a list \<Rightarrow> 'a list \<times> 'a list \<times> int" where
  "remove_n P n [] = ([], [], n)"
| "remove_n P n (x # xs) =
     (if P x then
        (if n - 1 = 0 then (xs, [x], 0)
         else (case remove_n P (n - 1) xs of (keep, gone, m) \<Rightarrow> (keep, x # gone, m)))
      else (case remove_n P n xs of (keep, gone, m) \<Rightarrow> (x # keep, gone, m)))"

lemma remove_n_all: "n \<le> 0 \<Longrightarrow> remove_n P n xs = (filter (\<lambda>x. \<not> P x) xs, filter P xs, n - int (length (filter P xs)))"
  by (induction xs arbitrary: n) auto

lemma remove_n_one:
  "remove_n P 1 xs = (case dropWhile (\<lambda>x. \<not> P x) xs of
     [] \<Rightarrow> (xs, [], 1) | y # ys \<Rightarrow> (takeWhile (\<lambda>x. \<not> P x) xs @ ys, [y], 0))"
proof (induction xs)
  case (Cons x xs)
  then show ?case by (cases "P x"; cases "dropWhile (\<lambda>x. \<not> P x) xs") (simp_all del: dropWhile_eq_Nil_conv)
qed simp

lemma remove_n_mset: "remove_n P n xs = (keep, gone, m) \<Longrightarrow> mset xs = mset keep + mset gone"
  by (induction xs arbitrary: n keep gone m) (auto split: if_splits prod.splits)

lemma remove_n_gone: "remove_n P n xs = (keep, gone, m) \<Longrightarrow> x \<in> set gone \<Longrightarrow> P x"
  by (induction xs arbitrary: n keep gone m) (auto split: if_splits prod.splits)

lemma remove_n_unused: "remove_n P n xs = (keep, gone, m) \<Longrightarrow> m = n - int (length gone)"
  by (induction xs arbitrary: n keep gone m) (fastforce split: if_splits prod.splits)+

lemma remove_n_keep: "remove_n P n xs = (keep, gone, m) \<Longrightarrow> m \<noteq> 0 \<Longrightarrow> keep = filter (\<lambda>x. \<not> P x) xs"
  by (induction xs arbitrary: n keep gone m) (auto split: if_splits prod.splits)

lemma remove_n_map:
  "remove_n (\<lambda>x. P (f x)) n xs = (keep, gone, m) \<Longrightarrow> remove_n P n (map f xs) = (map f keep, map f gone, m)"
  by (induction xs arbitrary: n keep gone m) (auto split: if_splits prod.splits)

lemma find_map: "find P (map f xs) = map_option f (find (\<lambda>x. P (f x)) xs)"
  by (induction xs) auto

text \<open>The destructor is not called for NULL.\<close>

abbreviation live :: "ptr list \<Rightarrow> ptr list" where
  "live ps \<equiv> filter (\<lambda>p. p \<noteq> 0) ps"

definition first_match :: "compare_t \<Rightarrow> ptr \<Rightarrow> ptr list \<Rightarrow> ptr" where
  "first_match cmp ctx xs = (case find (\<lambda>x. cmp x ctx = 0) xs of None \<Rightarrow> NULL | Some x \<Rightarrow> x)"

text \<open>
  The nodes of a linked list are listed as pairs of address and data; \<open>addr_of ns q\<close> is the
  address of the first one, \<open>q\<close> when there is none.
\<close>

fun addr_of :: "(ptr \<times> ptr) list \<Rightarrow> ptr \<Rightarrow> ptr" where
  "addr_of [] q = q"
| "addr_of ((a, d) # ns) q = a"

lemma addr_of_append [simp]: "addr_of (ms @ ns) q = addr_of ms (addr_of ns q)"
  by (induction ms) auto

lemma addr_of_mem: "ns \<noteq> [] \<Longrightarrow> addr_of ns q \<in> fst ` set ns"
  by (cases ns) auto

section \<open>The contract\<close>

locale list_container =
  fixes rep :: "'s \<Rightarrow> ptr list \<Rightarrow> bool"
    and fresh :: "'s \<Rightarrow> ptr \<Rightarrow> bool"
    and destroyed :: "'s \<Rightarrow> ptr list"
    and append_op :: "'s \<Rightarrow> ptr \<Rightarrow> ptr \<Rightarrow> (ret_t \<times> 's) option"
    and remove_op :: "'s \<Rightarrow> compare_t \<Rightarrow> ptr \<Rightarrow> int \<Rightarrow> (ret_t \<times> 's) option"
    and find_op :: "'s \<Rightarrow> compare_t \<Rightarrow> ptr \<Rightarrow> ptr option"
  assumes append_law: "rep s xs \<Longrightarrow> fresh s new \<Longrightarrow>
      \<exists>s'. append_op s new x = Some (RET_OK, s') \<and> rep s' (xs @ [x]) \<and> destroyed s' = destroyed s"
    and append_oom: "append_op s NULL x = Some (RET_OOM, s)"
    and remove_law: "rep s xs \<Longrightarrow> 0 < n \<Longrightarrow> remove_n (\<lambda>x. cmp x ctx = 0) n xs = (keep, gone, m) \<Longrightarrow>
      \<exists>s'. remove_op s cmp ctx n = Some (if gone = [] then RET_NOT_FOUND else RET_OK, s') \<and> rep s' keep \<and>
        destroyed s' = destroyed s @ live gone"
    and find_law: "rep s xs \<Longrightarrow> find_op s cmp ctx = Some (first_match cmp ctx xs)"
begin

text \<open>An element that has just been appended is found when nothing before it matches.\<close>

lemma append_then_find:
  assumes "rep s xs" and "fresh s new" and "\<forall>y \<in> set xs. cmp y ctx \<noteq> 0" and "cmp x ctx = 0"
  shows "\<exists>s'. append_op s new x = Some (RET_OK, s') \<and> find_op s' cmp ctx = Some x"
proof -
  obtain s' where s': "append_op s new x = Some (RET_OK, s')" "rep s' (xs @ [x])"
    using append_law[OF assms(1,2)] by blast
  have "find (\<lambda>y. cmp y ctx = 0) (xs @ [x]) = Some x"
    using assms(3,4) by (induction xs) auto
  then show ?thesis using s' find_law[OF s'(2)] by (simp add: first_match_def)
qed

lemma remove_one:
  assumes "rep s xs"
  shows "\<exists>s'. remove_op s cmp ctx 1 =
      Some (if \<exists>x \<in> set xs. cmp x ctx = 0 then RET_OK else RET_NOT_FOUND, s') \<and>
    rep s' (takeWhile (\<lambda>x. cmp x ctx \<noteq> 0) xs @ tl (dropWhile (\<lambda>x. cmp x ctx \<noteq> 0) xs)) \<and>
    destroyed s' = destroyed s @ live (case find (\<lambda>x. cmp x ctx = 0) xs of None \<Rightarrow> [] | Some x \<Rightarrow> [x])"
proof (cases "dropWhile (\<lambda>x. cmp x ctx \<noteq> 0) xs")
  case Nil
  then have none: "\<forall>x \<in> set xs. cmp x ctx \<noteq> 0" by (simp add: dropWhile_eq_Nil_conv)
  then have "find (\<lambda>x. cmp x ctx = 0) xs = None" by (auto simp: find_None_iff)
  then show ?thesis
    using remove_law[OF assms, of 1 cmp ctx xs "[]" 1] none by (simp add: remove_n_one Nil takeWhile_eq_all_conv[THEN iffD2])
next
  case (Cons y ys)
  then have y: "cmp y ctx = 0" "y \<in> set xs"
    by (metis (mono_tags, lifting) hd_dropWhile list.distinct(1) list.sel(1))
      (metis Cons set_dropWhileD list.set_intros(1))
  have "find (\<lambda>x. cmp x ctx = 0) xs = Some y"
    using Cons by (induction xs) (auto split: if_splits)
  then show ?thesis
    using remove_law[OF assms, of 1 cmp ctx "takeWhile (\<lambda>x. cmp x ctx \<noteq> 0) xs @ ys" "[y]" 0] Cons y
    by (auto simp: remove_n_one)
qed

text \<open>Removing by a key that is unique leaves exactly the elements with another key.\<close>

lemma remove_by_key:
  assumes "rep s xs" and "distinct (map key xs)" and "\<And>x. x \<in> set xs \<Longrightarrow> cmp x ctx = 0 \<longleftrightarrow> key x = k"
  shows "\<exists>s'. remove_op s cmp ctx 1 = Some (if k \<in> key ` set xs then RET_OK else RET_NOT_FOUND, s') \<and>
    rep s' (filter (\<lambda>x. key x \<noteq> k) xs) \<and> destroyed s' = destroyed s @ live (filter (\<lambda>x. key x = k) xs)"
proof -
  have split: "takeWhile (\<lambda>x. cmp x ctx \<noteq> 0) xs @ tl (dropWhile (\<lambda>x. cmp x ctx \<noteq> 0) xs) = filter (\<lambda>x. key x \<noteq> k) xs \<and>
      (case find (\<lambda>x. cmp x ctx = 0) xs of None \<Rightarrow> [] | Some x \<Rightarrow> [x]) = filter (\<lambda>x. key x = k) xs"
    using assms(2,3)
  proof (induction xs)
    case (Cons x xs)
    show ?case
    proof (cases "key x = k")
      case True
      then have "\<forall>y \<in> set xs. key y \<noteq> k" using Cons.prems(1) by (auto simp: image_iff)
      then have "filter (\<lambda>y. key y \<noteq> k) xs = xs" "filter (\<lambda>y. key y = k) xs = []" by (simp_all add: filter_empty_conv)
      then show ?thesis using Cons.prems(2) True by simp
    next
      case False
      then show ?thesis using Cons.IH Cons.prems by simp
    qed
  qed simp
  have "(\<exists>x \<in> set xs. cmp x ctx = 0) \<longleftrightarrow> k \<in> key ` set xs" using assms(3) by auto
  then show ?thesis using remove_one[OF assms(1), of cmp ctx] split by simp
qed

end

section \<open>The list contract as an executable specification\<close>

text \<open>
  The operations both lists offer, as data. \<open>list_exec\<close> is what each means on a plain list
  of element pointers: the status and pointer the caller sees, the new list, the elements handed to
  the element destructor. The address of a new node (NULL when the allocator has none) is part of
  the operation.
\<close>

datatype list_op =
    Op_append ptr ptr
  | Op_prepend ptr ptr
  | Op_insert nat ptr ptr
  | Op_remove compare_t ptr int
  | Op_find compare_t ptr
  | Op_get nat
  | Op_head_pop
  | Op_tail_pop
  | Op_reverse
  | Op_remove_all

type_synonym list_out = "ret_t \<times> ptr"

fun list_exec :: "list_op \<Rightarrow> ptr list \<Rightarrow> list_out \<times> ptr list \<times> ptr list" where
  "list_exec (Op_append new x) xs = (if new = NULL then ((RET_OOM, NULL), xs, []) else ((RET_OK, NULL), xs @ [x], []))"
| "list_exec (Op_prepend new x) xs = (if new = NULL then ((RET_OOM, NULL), xs, []) else ((RET_OK, NULL), x # xs, []))"
| "list_exec (Op_insert i new x) xs =
     (if new = NULL then ((RET_OOM, NULL), xs, []) else ((RET_OK, NULL), take i xs @ x # drop i xs, []))"
| "list_exec (Op_remove cmp ctx n) xs =
     (case remove_n (\<lambda>x. cmp x ctx = 0) n xs of
        (keep, gone, _) \<Rightarrow> ((if gone = [] then RET_NOT_FOUND else RET_OK, NULL), keep, live gone))"
| "list_exec (Op_find cmp ctx) xs = ((RET_OK, first_match cmp ctx xs), xs, [])"
| "list_exec (Op_get i) xs = ((RET_OK, if i < length xs then xs ! i else NULL), xs, [])"
| "list_exec Op_head_pop xs = ((RET_OK, if xs = [] then NULL else hd xs), tl xs, [])"
| "list_exec Op_tail_pop xs = ((RET_OK, if xs = [] then NULL else last xs), butlast xs, [])"
| "list_exec Op_reverse xs = ((RET_OK, NULL), rev xs, [])"
| "list_exec Op_remove_all xs = ((RET_OK, NULL), [], live xs)"

primrec list_run :: "list_op list \<Rightarrow> ptr list \<Rightarrow> list_out list \<times> ptr list \<times> ptr list" where
  "list_run [] xs = ([], xs, [])"
| "list_run (op # ops) xs =
     (case list_exec op xs of (out, xs', gone) \<Rightarrow>
        (case list_run ops xs' of (outs, ys, gone') \<Rightarrow> (out # outs, ys, gone @ gone')))"

text \<open>
  Runs of an implementation. \<open>None\<close> is a trap (a NULL or dangling pointer followed, a
  failed ENSURE). \<open>admissible_run\<close> says that each operation is admissible in the state it
  is started in.
\<close>

primrec impl_run :: "('s \<Rightarrow> list_op \<Rightarrow> (list_out \<times> 's) option) \<Rightarrow> 's \<Rightarrow> list_op list \<Rightarrow> (list_out list \<times> 's) option" where
  "impl_run exec s [] = Some ([], s)"
| "impl_run exec s (op # ops) =
     (case exec s op of
        None \<Rightarrow> None
      | Some (out, s') \<Rightarrow> map_option (\<lambda>(outs, s''). (out # outs, s'')) (impl_run exec s' ops))"

primrec admissible_run :: "('s \<Rightarrow> list_op \<Rightarrow> bool) \<Rightarrow> ('s \<Rightarrow> list_op \<Rightarrow> (list_out \<times> 's) option) \<Rightarrow> 's \<Rightarrow> list_op list \<Rightarrow> bool" where
  "admissible_run adm exec s [] \<longleftrightarrow> True"
| "admissible_run adm exec s (op # ops) \<longleftrightarrow> adm s op \<and>
     (case exec s op of None \<Rightarrow> True | Some (out, s') \<Rightarrow> admissible_run adm exec s' ops)"

locale list_implementation =
  fixes rep :: "'s \<Rightarrow> ptr list \<Rightarrow> bool"
    and destroyed :: "'s \<Rightarrow> ptr list"
    and adm :: "'s \<Rightarrow> list_op \<Rightarrow> bool"
    and exec :: "'s \<Rightarrow> list_op \<Rightarrow> (list_out \<times> 's) option"
  assumes exec_law: "rep s xs \<Longrightarrow> adm s op \<Longrightarrow> list_exec op xs = (out, xs', gone) \<Longrightarrow>
      \<exists>s'. exec s op = Some (out, s') \<and> rep s' xs' \<and> destroyed s' = destroyed s @ gone"
begin

lemma run_refines:
  "rep s xs \<Longrightarrow> admissible_run adm exec s ops \<Longrightarrow> list_run ops xs = (outs, ys, gone) \<Longrightarrow>
   \<exists>s'. impl_run exec s ops = Some (outs, s') \<and> rep s' ys \<and> destroyed s' = destroyed s @ gone"
proof (induction ops arbitrary: s xs outs gone)
  case (Cons op ops)
  obtain out xs' g where ex: "list_exec op xs = (out, xs', g)" by (metis prod_cases3)
  obtain outs' g' where lr: "list_run ops xs' = (outs', ys, g')" "outs = out # outs'" "gone = g @ g'"
    using Cons.prems(3) ex by (auto split: prod.splits)
  obtain s1 where s1: "exec s op = Some (out, s1)" "rep s1 xs'" "destroyed s1 = destroyed s @ g"
    using exec_law[OF Cons.prems(1) _ ex] Cons.prems(2) by auto
  have "admissible_run adm exec s1 ops" using Cons.prems(2) s1(1) by simp
  from Cons.IH[OF s1(2) this lr(1)] show ?case using s1 lr by auto
qed simp

end

end
