(* ===== verification/Slist.thy ===== *)
theory Slist
  imports ListContainer "HOL-Library.Monad_Syntax"
begin

text \<open>
  The singly linked list of \<open>src/src/tkc/slist.c\<close> over an explicit store of nodes. An
  operation returns \<open>None\<close> when it reads a node that does not exist (a dangling or NULL
  pointer) or does not end; every other outcome is \<open>Some\<close>. The address that the node
  allocator hands out is an argument \<open>new\<close>, \<open>0\<close> when it fails. Calls of the element
  destructor are recorded in \<open>sl_destroyed\<close>, and the node allocators the list has destroyed
  in \<open>sl_dead_allocators\<close>.

  Shown: on a list that represents a sequence, every operation returns, reads only live nodes and
  represents the result of the sequence operation; freed nodes leave the store.
\<close>

section \<open>State\<close>

record snode =
  nd_data :: ptr
  nd_next :: ptr

record slist =
  sl_first :: ptr
  sl_last :: ptr
  sl_size :: nat
  sl_compare :: compare_t
  sl_node_allocator :: ptr
  sl_allocator_shared :: bool
  sl_nodes :: "ptr \<Rightarrow> snode option"
  sl_destroyed :: "ptr list"
  sl_dead_allocators :: "ptr list"

section \<open>Operations\<close>

definition slist_init :: "compare_t option \<Rightarrow> slist" where
  "slist_init compare =
     \<lparr>sl_first = NULL, sl_last = NULL, sl_size = 0,
      sl_compare = (case compare of Some c \<Rightarrow> c | None \<Rightarrow> pointer_compare),
      sl_node_allocator = NULL, sl_allocator_shared = False,
      sl_nodes = (\<lambda>_. None), sl_destroyed = [], sl_dead_allocators = []\<rparr>"

definition slist_create_node :: "slist \<Rightarrow> ptr \<Rightarrow> ptr \<Rightarrow> slist" where
  "slist_create_node s new data =
     (if new \<noteq> NULL then s\<lparr>sl_nodes := (sl_nodes s)(new \<mapsto> \<lparr>nd_data = data, nd_next = NULL\<rparr>)\<rparr> else s)"

definition slist_destroy_node :: "slist \<Rightarrow> ptr \<Rightarrow> slist option" where
  "slist_destroy_node s node =
     (if node \<noteq> NULL then do {
        nd \<leftarrow> sl_nodes s node;
        let s = (if nd_data nd \<noteq> NULL then s\<lparr>sl_destroyed := sl_destroyed s @ [nd_data nd]\<rparr> else s);
        Some (s\<lparr>sl_nodes := (sl_nodes s)(node := None)\<rparr>)
      } else Some s)"

text \<open>\<open>while (iter != NULL && i < index)\<close>: at most \<open>index\<close> steps.\<close>

fun next_steps :: "(ptr \<Rightarrow> snode option) \<Rightarrow> ptr \<Rightarrow> nat \<Rightarrow> ptr option" where
  "next_steps h iter 0 = Some iter"
| "next_steps h iter (Suc n) =
     (if iter \<noteq> NULL then do { nd \<leftarrow> h iter; next_steps h (nd_next nd) n } else Some iter)"

definition slist_get_node :: "slist \<Rightarrow> nat \<Rightarrow> ptr option" where
  "slist_get_node s index =
     (if index < sl_size s then
        (if index = sl_size s - 1 then Some (sl_last s) else next_steps (sl_nodes s) (sl_first s) index)
      else Some NULL)"

partial_function (option) find_node :: "(ptr \<Rightarrow> snode option) \<Rightarrow> (ptr \<Rightarrow> bool) \<Rightarrow> ptr \<Rightarrow> ptr option" where
  "find_node h P iter =
     (if iter \<noteq> NULL then do {
        nd \<leftarrow> h iter;
        if P (nd_data nd) then Some iter else find_node h P (nd_next nd)
      } else Some NULL)"

text \<open>The loop of \<open>slist_find_ex\<close> stops at the first matching node and returns its data.\<close>

definition slist_find_ex :: "slist \<Rightarrow> compare_t option \<Rightarrow> ptr \<Rightarrow> ptr option" where
  "slist_find_ex s compare ctx =
     (if sl_first s = NULL then Some NULL
      else do {
        let real_compare = (case compare of Some c \<Rightarrow> c | None \<Rightarrow> sl_compare s);
        iter \<leftarrow> find_node (sl_nodes s) (\<lambda>x. real_compare x ctx = 0) (sl_first s);
        if iter \<noteq> NULL then map_option nd_data (sl_nodes s iter) else Some NULL
      })"

definition slist_find :: "slist \<Rightarrow> ptr \<Rightarrow> ptr option" where
  "slist_find s ctx = slist_find_ex s None ctx"

text \<open>\<open>node->next = q\<close>\<close>

definition set_next :: "ptr \<Rightarrow> ptr \<Rightarrow> slist \<Rightarrow> slist option" where
  "set_next p q s = do { nd \<leftarrow> sl_nodes s p; Some (s\<lparr>sl_nodes := (sl_nodes s)(p \<mapsto> nd\<lparr>nd_next := q\<rparr>)\<rparr>) }"

definition get_next :: "slist \<Rightarrow> ptr \<Rightarrow> ptr option" where
  "get_next s p = map_option nd_next (sl_nodes s p)"

definition slist_insert_node :: "slist \<Rightarrow> ptr \<Rightarrow> ptr \<Rightarrow> slist option" where
  "slist_insert_node s node prev = do {
     s \<leftarrow> (if sl_first s = NULL \<or> sl_last s = NULL then Some (s\<lparr>sl_first := node, sl_last := node\<rparr>)
           else if prev = NULL then do {
             s \<leftarrow> set_next node (sl_first s) s;
             Some (s\<lparr>sl_first := node\<rparr>)
           } else do {
             let s = (if prev = sl_last s then s\<lparr>sl_last := node\<rparr> else s);
             n \<leftarrow> get_next s prev;
             s \<leftarrow> set_next node n s;
             set_next prev node s
           });
     Some (s\<lparr>sl_size := u32 (sl_size s + 1)\<rparr>)
   }"

text \<open>\<open>prev\<close> is read only where the code reads it.\<close>

definition slist_remove_node :: "slist \<Rightarrow> ptr \<Rightarrow> ptr \<Rightarrow> slist option" where
  "slist_remove_node s node prev =
     (if sl_size s > 0 then do {
        s \<leftarrow> (if sl_first s = sl_last s then Some (s\<lparr>sl_first := NULL, sl_last := NULL\<rparr>)
              else if prev = NULL \<or> node = sl_first s then do {
                n \<leftarrow> get_next s (sl_first s);
                Some (s\<lparr>sl_first := n\<rparr>)
              } else do {
                pn \<leftarrow> get_next s prev;
                if pn = sl_last s \<or> node = sl_last s then do {
                  s \<leftarrow> set_next prev NULL s;
                  Some (s\<lparr>sl_last := prev\<rparr>)
                } else do {
                  pnn \<leftarrow> get_next s pn;
                  set_next prev pnn s
                }
              });
        Some (s\<lparr>sl_size := sl_size s - 1\<rparr>)
      } else Some s)"

text \<open>
  The loop of \<open>slist_remove_ex\<close>; the result is the counter and the list. The counter has 32 bits
  in the code; only one that starts next to the smallest number could leave them.
\<close>

partial_function (option) remove_ex_loop ::
  "compare_t \<Rightarrow> ptr \<Rightarrow> slist \<Rightarrow> ptr \<Rightarrow> ptr \<Rightarrow> int \<Rightarrow> (int \<times> slist) option" where
  "remove_ex_loop compare ctx s iter prev n =
     (if iter \<noteq> NULL then do {
        nd \<leftarrow> sl_nodes s iter;
        if compare (nd_data nd) ctx = 0 then do {
          let next = nd_next nd;
          s \<leftarrow> slist_remove_node s iter prev;
          s \<leftarrow> slist_destroy_node s iter;
          if n - 1 = 0 then Some (n - 1, s)
          else remove_ex_loop compare ctx s next prev (n - 1)
        } else remove_ex_loop compare ctx s (nd_next nd) iter n
      } else Some (n, s))"

text \<open>
  The loop ends with the counter at \<open>0\<close> only by the early return, unless it started at
  \<open>0\<close>.
\<close>

definition slist_remove_ex :: "slist \<Rightarrow> compare_t \<Rightarrow> ptr \<Rightarrow> int \<Rightarrow> (ret_t \<times> slist) option" where
  "slist_remove_ex s compare ctx remove_size = do {
     (n, s) \<leftarrow> remove_ex_loop compare ctx s (sl_first s) NULL remove_size;
     Some (if remove_size = n then RET_NOT_FOUND else RET_OK, s)
   }"

definition slist_remove :: "slist \<Rightarrow> ptr \<Rightarrow> (ret_t \<times> slist) option" where
  "slist_remove s ctx = slist_remove_ex s (sl_compare s) ctx 1"

definition slist_append :: "slist \<Rightarrow> ptr \<Rightarrow> ptr \<Rightarrow> (ret_t \<times> slist) option" where
  "slist_append s new data =
     (let s1 = slist_create_node s new data
      in if new \<noteq> NULL then do { s2 \<leftarrow> slist_insert_node s1 new (sl_last s1); Some (RET_OK, s2) }
         else Some (RET_OOM, s1))"

definition slist_prepend :: "slist \<Rightarrow> ptr \<Rightarrow> ptr \<Rightarrow> (ret_t \<times> slist) option" where
  "slist_prepend s new data =
     (let s1 = slist_create_node s new data
      in if new \<noteq> NULL then do { s2 \<leftarrow> slist_insert_node s1 new NULL; Some (RET_OK, s2) }
         else Some (RET_OOM, s1))"

text \<open>
  \<open>ENSURE(prev != NULL)\<close> is an assertion of the debug build: a failing one ends the program
  (\<open>None\<close>).
\<close>

definition slist_insert :: "slist \<Rightarrow> nat \<Rightarrow> ptr \<Rightarrow> ptr \<Rightarrow> (ret_t \<times> slist) option" where
  "slist_insert s index new data =
     (let s1 = slist_create_node s new data
      in if new \<noteq> NULL then do {
           prev \<leftarrow> (if index > 0 then do {
                      p \<leftarrow> slist_get_node s1 (u32 (min index (sl_size s1) + (2 ^ 32 - 1)));
                      if p \<noteq> NULL then Some p else None
                    } else Some NULL);
           s2 \<leftarrow> slist_insert_node s1 new prev;
           Some (RET_OK, s2)
         }
         else Some (RET_OOM, s1))"

text \<open>The visitor threads a context; an element it asks to remove is unlinked and freed.\<close>

partial_function (option) slist_foreach_loop ::
  "('c \<Rightarrow> ptr \<Rightarrow> ret_t \<times> 'c) \<Rightarrow> 'c \<Rightarrow> slist \<Rightarrow> ptr \<Rightarrow> ptr \<Rightarrow> ret_t \<Rightarrow> (ret_t \<times> 'c \<times> slist) option" where
  "slist_foreach_loop visit ctx s iter prev ret =
     (if iter \<noteq> NULL then do {
        nd \<leftarrow> sl_nodes s iter;
        case visit ctx (nd_data nd) of (v, ctx') \<Rightarrow>
          (case foreach_visit_result v of
             Visit_next r \<Rightarrow> slist_foreach_loop visit ctx' s (nd_next nd) iter r
           | Visit_remove r \<Rightarrow> do {
               let next = nd_next nd;
               s \<leftarrow> slist_remove_node s iter prev;
               s \<leftarrow> slist_destroy_node s iter;
               slist_foreach_loop visit ctx' s next prev r
             }
           | Visit_break r \<Rightarrow> Some (r, ctx', s))
      } else Some (ret, ctx, s))"

definition slist_foreach :: "slist \<Rightarrow> ('c \<Rightarrow> ptr \<Rightarrow> ret_t \<times> 'c) \<Rightarrow> 'c \<Rightarrow> (ret_t \<times> 'c \<times> slist) option" where
  "slist_foreach s visit ctx = slist_foreach_loop visit ctx s (sl_first s) NULL RET_OK"

text \<open>\<open>iter->data = NULL\<close> before the node is freed keeps the data from being destroyed.\<close>

definition take_data :: "slist \<Rightarrow> ptr \<Rightarrow> (ptr \<times> slist) option" where
  "take_data s iter = do {
     nd \<leftarrow> sl_nodes s iter;
     s \<leftarrow> slist_destroy_node (s\<lparr>sl_nodes := (sl_nodes s)(iter \<mapsto> nd\<lparr>nd_data := NULL\<rparr>)\<rparr>) iter;
     Some (nd_data nd, s)
   }"

definition slist_tail_pop :: "slist \<Rightarrow> (ptr \<times> slist) option" where
  "slist_tail_pop s =
     (if sl_first s = NULL then Some (NULL, s)
      else do {
        (iter, prev) \<leftarrow> (if sl_size s \<ge> 2 then do {
             prev \<leftarrow> slist_get_node s (sl_size s - 2);
             if prev \<noteq> NULL then do { iter \<leftarrow> get_next s prev; Some (iter, prev) } else None
           } else Some (sl_first s, NULL));
        s \<leftarrow> slist_remove_node s iter prev;
        take_data s iter
      })"

definition slist_head_pop :: "slist \<Rightarrow> (ptr \<times> slist) option" where
  "slist_head_pop s =
     (if sl_first s = NULL then Some (NULL, s)
      else do {
        let iter = sl_first s;
        s \<leftarrow> slist_remove_node s iter NULL;
        take_data s iter
      })"

definition slist_tail :: "slist \<Rightarrow> ptr option" where
  "slist_tail s = (if sl_last s = NULL then Some NULL else map_option nd_data (sl_nodes s (sl_last s)))"

definition slist_head :: "slist \<Rightarrow> ptr option" where
  "slist_head s = (if sl_first s = NULL then Some NULL else map_option nd_data (sl_nodes s (sl_first s)))"

definition slist_is_empty :: "slist \<Rightarrow> bool" where
  "slist_is_empty s \<longleftrightarrow> sl_size s = 0"

definition slist_size :: "slist \<Rightarrow> int" where
  "slist_size s = s32 (int (sl_size s))"

partial_function (option) count_nodes :: "(ptr \<Rightarrow> snode option) \<Rightarrow> (ptr \<Rightarrow> bool) \<Rightarrow> ptr \<Rightarrow> nat \<Rightarrow> nat option" where
  "count_nodes h P iter n =
     (if iter \<noteq> NULL then do {
        nd \<leftarrow> h iter;
        count_nodes h P (nd_next nd) (if P (nd_data nd) then n + 1 else n)
      } else Some n)"

definition slist_count :: "slist \<Rightarrow> ptr \<Rightarrow> nat option" where
  "slist_count s ctx = count_nodes (sl_nodes s) (\<lambda>x. sl_compare s x ctx = 0) (sl_first s) 0"

partial_function (option) destroy_nodes :: "slist \<Rightarrow> ptr \<Rightarrow> slist option" where
  "destroy_nodes s iter =
     (if iter \<noteq> NULL then do {
        nd \<leftarrow> sl_nodes s iter;
        s \<leftarrow> slist_destroy_node s iter;
        destroy_nodes s (nd_next nd)
      } else Some s)"

definition slist_remove_all :: "slist \<Rightarrow> (ret_t \<times> slist) option" where
  "slist_remove_all s =
     (if sl_first s \<noteq> NULL then do {
        s \<leftarrow> destroy_nodes (s\<lparr>sl_first := NULL\<rparr>) (sl_first s);
        Some (RET_OK, s\<lparr>sl_last := NULL, sl_size := 0\<rparr>)
      } else Some (RET_OK, s))"

partial_function (option) slist_reverse_loop :: "slist \<Rightarrow> ptr \<Rightarrow> ptr \<Rightarrow> (ptr \<times> slist) option" where
  "slist_reverse_loop s iter prev =
     (if iter \<noteq> NULL then do {
        next \<leftarrow> get_next s iter;
        s \<leftarrow> set_next iter prev s;
        slist_reverse_loop s next iter
      } else Some (prev, s))"

definition slist_reverse :: "slist \<Rightarrow> (ret_t \<times> slist) option" where
  "slist_reverse s = do {
     let first = sl_first s;
     (prev, s) \<leftarrow> slist_reverse_loop (s\<lparr>sl_last := first\<rparr>) first NULL;
     Some (RET_OK, s\<lparr>sl_first := prev\<rparr>)
   }"

definition slist_set_node_allocator_impl :: "slist \<Rightarrow> ptr \<Rightarrow> bool \<Rightarrow> ret_t \<times> slist" where
  "slist_set_node_allocator_impl s allocator shared =
     (if sl_node_allocator s \<noteq> allocator then
        (if slist_is_empty s then
           (RET_OK, s\<lparr>sl_dead_allocators := sl_dead_allocators s @
                        (if sl_node_allocator s \<noteq> NULL \<and> \<not> sl_allocator_shared s then [sl_node_allocator s] else []),
                      sl_node_allocator := allocator, sl_allocator_shared := shared\<rparr>)
         else (RET_FAIL, s))
      else (RET_OK, s\<lparr>sl_allocator_shared := shared\<rparr>))"

definition slist_set_node_allocator :: "slist \<Rightarrow> ptr \<Rightarrow> ret_t \<times> slist" where
  "slist_set_node_allocator s allocator = slist_set_node_allocator_impl s allocator False"

definition slist_set_shared_node_allocator :: "slist \<Rightarrow> ptr \<Rightarrow> ret_t \<times> slist" where
  "slist_set_shared_node_allocator s allocator = slist_set_node_allocator_impl s allocator True"

definition slist_deinit :: "slist \<Rightarrow> (ret_t \<times> slist) option" where
  "slist_deinit s = do {
     (r, s) \<leftarrow> slist_remove_all s;
     if r = RET_OK then Some (r, snd (slist_set_node_allocator s NULL)) else Some (r, s)
   }"

definition slist_get :: "slist \<Rightarrow> nat \<Rightarrow> ptr option" where
  "slist_get s index =
     (if index < sl_size s then do {
        node \<leftarrow> slist_get_node s index;
        if node \<noteq> NULL then map_option nd_data (sl_nodes s node) else None
      } else Some NULL)"


section \<open>Representation\<close>

text \<open>
  \<open>seg h ns q\<close>: the nodes \<open>ns\<close>, given as pairs of address and data, are chained in the
  store \<open>h\<close> and the last one points to \<open>q\<close>.
\<close>

fun seg :: "(ptr \<Rightarrow> snode option) \<Rightarrow> (ptr \<times> ptr) list \<Rightarrow> ptr \<Rightarrow> bool" where
  "seg h [] q \<longleftrightarrow> True"
| "seg h ((a, d) # ns) q \<longleftrightarrow> a \<noteq> NULL \<and> h a = Some \<lparr>nd_data = d, nd_next = addr_of ns q\<rparr> \<and> seg h ns q"

definition last_addr :: "(ptr \<times> ptr) list \<Rightarrow> ptr" where
  "last_addr ns = (if ns = [] then NULL else fst (last ns))"

text \<open>
  The shape of a list whose nodes are \<open>ns\<close>, in a store that holds these nodes and the nodes
  \<open>X\<close> besides. With \<open>X = {}\<close> the store is exactly the list: nothing leaks.
\<close>

definition shape :: "slist \<Rightarrow> (ptr \<times> ptr) list \<Rightarrow> ptr set \<Rightarrow> bool" where
  "shape s ns X \<longleftrightarrow> distinct (map fst ns) \<and> seg (sl_nodes s) ns NULL \<and>
     dom (sl_nodes s) = fst ` set ns \<union> X \<and> X \<inter> fst ` set ns = {} \<and>
     sl_first s = addr_of ns NULL \<and> sl_last s = last_addr ns \<and> sl_size s = length ns \<and> length ns < 2 ^ 32"

definition slist_rep :: "slist \<Rightarrow> ptr list \<Rightarrow> bool" where
  "slist_rep s xs \<longleftrightarrow> (\<exists>ns. shape s ns {} \<and> map snd ns = xs)"

definition slist_fresh :: "slist \<Rightarrow> ptr \<Rightarrow> bool" where
  "slist_fresh s new \<longleftrightarrow> new \<noteq> NULL \<and> sl_nodes s new = None \<and> sl_size s + 1 < 2 ^ 32"

text \<open>The fields that no operation on the elements changes.\<close>

definition slist_conf :: "slist \<Rightarrow> compare_t \<times> ptr \<times> bool \<times> ptr list" where
  "slist_conf s = (sl_compare s, sl_node_allocator s, sl_allocator_shared s, sl_dead_allocators s)"

lemma seg_append [simp]: "seg h (ms @ ns) q \<longleftrightarrow> seg h ms (addr_of ns q) \<and> seg h ns q"
  by (induction ms) auto

lemma seg_upd [simp]: "a \<notin> fst ` set ns \<Longrightarrow> seg (h(a := v)) ns q = seg h ns q"
  by (induction ns) auto

lemma seg_nonnull: "seg h ns q \<Longrightarrow> NULL \<notin> fst ` set ns"
  by (induction ns) force+

lemma seg_eq_on: "seg h ns q \<Longrightarrow> (\<And>a. a \<in> fst ` set ns \<Longrightarrow> h' a = h a) \<Longrightarrow> seg h' ns q"
  by (induction ns) auto

lemma last_addr_simps [simp]:
  "last_addr [] = NULL" "last_addr (ns @ [(a, d)]) = a" "last_addr [(a, d)] = a"
  by (simp_all add: last_addr_def)

lemma last_addr_append: "ns \<noteq> [] \<Longrightarrow> last_addr (ms @ ns) = last_addr ns"
  by (simp add: last_addr_def)

lemma last_addr_Cons: "last_addr (n # ns) = (if ns = [] then fst n else last_addr ns)"
  by (simp add: last_addr_def)

lemma last_addr_mem: "ns \<noteq> [] \<Longrightarrow> last_addr ns \<in> fst ` set ns"
  by (simp add: last_addr_def)

lemma addr_of_NULL: "seg h ns NULL \<Longrightarrow> addr_of ns NULL = NULL \<longleftrightarrow> ns = []"
  by (cases ns) auto

lemma last_addr_NULL: "seg h ns q \<Longrightarrow> last_addr ns = NULL \<longleftrightarrow> ns = []"
  using last_addr_mem[of ns] seg_nonnull[of h ns q] by (cases "ns = []") force+

lemma last_addr_neq: "a \<notin> fst ` set ns \<Longrightarrow> ns \<noteq> [] \<Longrightarrow> last_addr ns \<noteq> a \<and> a \<noteq> last_addr ns"
  using last_addr_mem[of ns] by metis

lemma shapeD:
  assumes "shape s ns X"
  shows "distinct (map fst ns)" "seg (sl_nodes s) ns NULL" "dom (sl_nodes s) = fst ` set ns \<union> X"
    "X \<inter> fst ` set ns = {}" "sl_first s = addr_of ns NULL" "sl_last s = last_addr ns"
    "sl_size s = length ns" "length ns < 2 ^ 32"
  using assms by (simp_all add: shape_def)

lemma shape_first_last:
  "shape s ns X \<Longrightarrow> sl_first s = NULL \<longleftrightarrow> ns = []" "shape s ns X \<Longrightarrow> sl_last s = NULL \<longleftrightarrow> ns = []"
  by (auto simp: shape_def addr_of_NULL last_addr_NULL)

lemma slist_init_rep: "slist_rep (slist_init c) []"
  by (auto simp: slist_rep_def shape_def slist_init_def intro!: exI[of _ "[]"])

section \<open>Inserting a node\<close>

lemma create_node_shape:
  assumes "shape s ns {}" and "slist_fresh s new"
  shows "shape (slist_create_node s new x) ns {new}"
    "sl_nodes (slist_create_node s new x) new = Some \<lparr>nd_data = x, nd_next = NULL\<rparr>"
proof -
  have "new \<notin> fst ` set ns" using assms by (auto simp: shape_def slist_fresh_def)
  then show "shape (slist_create_node s new x) ns {new}"
    "sl_nodes (slist_create_node s new x) new = Some \<lparr>nd_data = x, nd_next = NULL\<rparr>"
    using assms by (auto simp: shape_def slist_fresh_def slist_create_node_def)
qed

lemma create_node_frame [simp]:
  "slist_conf (slist_create_node s new x) = slist_conf s"
  "sl_destroyed (slist_create_node s new x) = sl_destroyed s"
  by (simp_all add: slist_create_node_def slist_conf_def)

lemma insert_node_spec:
  assumes sh: "shape s (pre @ post) {new}"
    and new: "sl_nodes s new = Some \<lparr>nd_data = x, nd_next = NULL\<rparr>" "new \<noteq> NULL"
    and room: "length (pre @ post) + 1 < 2 ^ 32"
  shows "\<exists>s'. slist_insert_node s new (last_addr pre) = Some s' \<and> shape s' (pre @ (new, x) # post) {} \<and>
    slist_conf s' = slist_conf s \<and> sl_destroyed s' = sl_destroyed s"
proof -
  note D = shapeD[OF sh]
  have fresh: "new \<notin> fst ` set pre" "new \<notin> fst ` set post" using D(4) by auto
  show ?thesis
  proof (cases pre rule: rev_cases)
    case Nil
    show ?thesis
    proof (cases "post = []")
      case True
      then show ?thesis using D new room Nil
        by (auto simp: slist_insert_node_def shape_def slist_conf_def)
    next
      case False
      then have "sl_first s \<noteq> NULL" "sl_last s \<noteq> NULL" using shape_first_last[OF sh] by simp_all
      then show ?thesis using D new room Nil fresh False
        by (auto simp: slist_insert_node_def shape_def slist_conf_def set_next_def last_addr_Cons)
    qed
  next
    case (snoc ps p)
    obtain a d where p: "p = (a, d)" by (cases p)
    have "sl_first s \<noteq> NULL" "sl_last s \<noteq> NULL" using shape_first_last[OF sh] snoc by simp_all
    moreover have "a \<noteq> NULL" using D(2) snoc p by simp
    moreover have "a \<noteq> new" using fresh snoc p by auto
    moreover have "a = last_addr (pre @ post) \<longleftrightarrow> post = []"
      using D(1) last_addr_neq[of a post] snoc p by (cases "post = []") (simp_all add: last_addr_append last_addr_Cons)
    ultimately show ?thesis using D new room snoc p fresh
      by (auto simp: slist_insert_node_def shape_def slist_conf_def set_next_def get_next_def last_addr_Cons last_addr_append)
  qed
qed

section \<open>Removing a node\<close>

lemma remove_node_spec:
  assumes sh: "shape s (pre @ (a, d) # post) X"
  shows "\<exists>s' nd. slist_remove_node s a (last_addr pre) = Some s' \<and> shape s' (pre @ post) (insert a X) \<and>
    sl_nodes s' a = Some nd \<and> nd_data nd = d \<and>
    slist_conf s' = slist_conf s \<and> sl_destroyed s' = sl_destroyed s"
proof -
  note D = shapeD[OF sh]
  have a: "a \<noteq> NULL" "a \<notin> fst ` set pre" "a \<notin> fst ` set post" "a \<notin> X" using D(1,2,4) by auto
  have one: "sl_first s = sl_last s \<longleftrightarrow> pre = [] \<and> post = []"
  proof (cases pre)
    case Nil
    then show ?thesis using D(1,5,6) last_addr_neq[of a post] by (cases "post = []") (simp_all add: last_addr_Cons)
  next
    case (Cons p ps)
    then have "addr_of (pre @ (a, d) # post) NULL = fst p" by (cases p) simp
    moreover have "last_addr (pre @ (a, d) # post) \<in> fst ` set ((a, d) # post)"
      using last_addr_mem[of "(a, d) # post"] by (simp add: last_addr_append)
    ultimately show ?thesis using Cons D(1,5,6) by (auto simp: image_iff)
  qed
  show ?thesis
  proof (cases pre rule: rev_cases)
    case Nil
    then show ?thesis using D a one
      by (auto simp: slist_remove_node_def shape_def slist_conf_def get_next_def last_addr_Cons)
  next
    case (snoc ps p)
    obtain b e where p: "p = (b, e)" by (cases p)
    have b: "b \<noteq> NULL" "b \<noteq> a" "b \<notin> fst ` set post" "b \<notin> fst ` set ps" using D(1,2) snoc p by auto
    have nofirst: "a \<noteq> sl_first s" using D(1,5) snoc p addr_of_mem[of "ps @ [(b, e)]" "a"] by auto
    have last: "a = sl_last s \<longleftrightarrow> post = []"
      using D(1,6) snoc p last_addr_neq[of a post] by (cases "post = []") (simp_all add: last_addr_append last_addr_Cons)
    show ?thesis
    proof (cases "post = []")
      case True
      then show ?thesis using D a b one nofirst last snoc p
        by (auto simp: slist_remove_node_def shape_def slist_conf_def get_next_def set_next_def)
    next
      case False
      then show ?thesis using D a b one nofirst last snoc p
        by (auto simp: slist_remove_node_def shape_def slist_conf_def get_next_def set_next_def last_addr_append last_addr_Cons)
    qed
  qed
qed

lemma destroy_node_spec:
  assumes sh: "shape s ns (insert a X)" and "a \<notin> X" "a \<noteq> NULL" "sl_nodes s a = Some nd"
  shows "\<exists>s'. slist_destroy_node s a = Some s' \<and> shape s' ns X \<and> slist_conf s' = slist_conf s \<and>
    sl_destroyed s' = sl_destroyed s @ live [nd_data nd]"
  using assms by (auto simp: slist_destroy_node_def shape_def slist_conf_def Let_def)

lemma unlink_spec:
  assumes sh: "shape s (pre @ (a, d) # post) {}"
  shows "\<exists>s1 s'. slist_remove_node s a (last_addr pre) = Some s1 \<and> slist_destroy_node s1 a = Some s' \<and>
    shape s' (pre @ post) {} \<and> slist_conf s' = slist_conf s \<and> sl_destroyed s' = sl_destroyed s @ live [d]"
proof -
  obtain s1 nd where s1: "slist_remove_node s a (last_addr pre) = Some s1" "shape s1 (pre @ post) {a}"
    "sl_nodes s1 a = Some nd" "nd_data nd = d" "slist_conf s1 = slist_conf s" "sl_destroyed s1 = sl_destroyed s"
    using remove_node_spec[OF sh] by blast
  have "a \<noteq> NULL" using shapeD(2)[OF sh] by simp
  then show ?thesis using destroy_node_spec[OF s1(2) _ _ s1(3)] s1 by auto
qed


section \<open>The operations refine the sequence operations\<close>

lemma shape_head: "shape s (pre @ (a, d) # post) X \<Longrightarrow>
   a \<noteq> NULL \<and> sl_nodes s a = Some \<lparr>nd_data = d, nd_next = addr_of post NULL\<rparr>"
  by (simp add: shape_def)

lemma remove_ex_loop_spec:
  "shape s (pre @ post) {} \<Longrightarrow> remove_n (\<lambda>x. compare (snd x) ctx = 0) n post = (keep, gone, m) \<Longrightarrow>
   \<exists>s'. remove_ex_loop compare ctx s (addr_of post NULL) (last_addr pre) n = Some (m, s') \<and>
     shape s' (pre @ keep) {} \<and> slist_conf s' = slist_conf s \<and>
     sl_destroyed s' = sl_destroyed s @ live (map snd gone)"
proof (induction post arbitrary: s pre n keep gone m)
  case Nil
  then show ?case by (simp add: remove_ex_loop.simps)
next
  case (Cons x post)
  obtain a d where x: "x = (a, d)" by (cases x)
  note hd = shape_head[OF Cons.prems(1)[unfolded x]]
  show ?case
  proof (cases "compare d ctx = 0")
    case match: True
    obtain s1 s2 where s2: "slist_remove_node s a (last_addr pre) = Some s1" "slist_destroy_node s1 a = Some s2"
      "shape s2 (pre @ post) {}" "slist_conf s2 = slist_conf s" "sl_destroyed s2 = sl_destroyed s @ live [d]"
      using unlink_spec[OF Cons.prems(1)[unfolded x]] by blast
    show ?thesis
    proof (cases "n - 1 = 0")
      case True
      then show ?thesis using Cons.prems(2) match s2 hd x by (auto simp: remove_ex_loop.simps)
    next
      case False
      obtain keep' gone' m' where r: "remove_n (\<lambda>x. compare (snd x) ctx = 0) (n - 1) post = (keep', gone', m')"
        by (metis prod_cases3)
      from Cons.IH[OF s2(3) r] show ?thesis
        using Cons.prems(2) match s2 hd x False r by (fastforce simp: remove_ex_loop.simps[of _ _ _ a])
    qed
  next
    case False
    obtain keep' gone' m' where r: "remove_n (\<lambda>x. compare (snd x) ctx = 0) n post = (keep', gone', m')"
      by (metis prod_cases3)
    have "shape s ((pre @ [x]) @ post) {}" using Cons.prems(1) by simp
    from Cons.IH[OF this r] show ?thesis
      using Cons.prems(2) False hd x r by (auto simp: remove_ex_loop.simps[of _ _ _ a])
  qed
qed

lemma slist_remove_ex_spec:
  assumes "slist_rep s xs" and "remove_n (\<lambda>x. compare x ctx = 0) n xs = (keep, gone, m)"
  shows "\<exists>s'. slist_remove_ex s compare ctx n = Some (if gone = [] then RET_NOT_FOUND else RET_OK, s') \<and>
    slist_rep s' keep \<and> slist_conf s' = slist_conf s \<and> sl_destroyed s' = sl_destroyed s @ live gone"
proof -
  obtain ns where ns: "shape s ns {}" "xs = map snd ns" using assms(1) by (auto simp: slist_rep_def)
  obtain k g m' where r: "remove_n (\<lambda>x. compare (snd x) ctx = 0) n ns = (k, g, m')" by (metis prod_cases3)
  have e: "keep = map snd k" "gone = map snd g" "m = m'"
    using remove_n_map[where P = "\<lambda>d. compare d ctx = 0" and f = snd, OF r] assms(2) ns(2) by simp_all
  obtain s' where s': "remove_ex_loop compare ctx s (sl_first s) NULL n = Some (m, s')"
    "shape s' k {}" "slist_conf s' = slist_conf s" "sl_destroyed s' = sl_destroyed s @ live gone"
    using remove_ex_loop_spec[of s "[]" ns compare ctx n k g m'] ns r e shapeD(5)[OF ns(1)] by auto
  have "n = m \<longleftrightarrow> gone = []" using remove_n_unused[OF assms(2)] by simp
  then show ?thesis using s' e by (auto simp: slist_remove_ex_def slist_rep_def)
qed

lemma slist_insert_at_spec:
  assumes "shape s (pre @ post) {}" and "slist_fresh s new"
  shows "\<exists>s'. slist_insert_node (slist_create_node s new x) new (last_addr pre) = Some s' \<and>
    shape s' (pre @ (new, x) # post) {} \<and> slist_conf s' = slist_conf s \<and> sl_destroyed s' = sl_destroyed s"
proof -
  note c = create_node_shape[OF assms]
  have "new \<noteq> NULL" "length (pre @ post) + 1 < 2 ^ 32"
    using assms(2) shapeD(7)[OF assms(1)] by (auto simp: slist_fresh_def)
  from insert_node_spec[OF c(1) c(2) this] show ?thesis by simp
qed

lemma slist_append_spec:
  assumes "slist_rep s xs" and "slist_fresh s new"
  shows "\<exists>s'. slist_append s new x = Some (RET_OK, s') \<and> slist_rep s' (xs @ [x]) \<and>
    slist_conf s' = slist_conf s \<and> sl_destroyed s' = sl_destroyed s"
proof -
  obtain ns where ns: "shape s (ns @ []) {}" "xs = map snd ns" using assms(1) by (auto simp: slist_rep_def)
  have last: "sl_last (slist_create_node s new x) = last_addr ns"
    using shapeD(6)[OF ns(1)] by (simp add: slist_create_node_def)
  obtain s' where s': "slist_insert_node (slist_create_node s new x) new (last_addr ns) = Some s'"
    "shape s' (ns @ [(new, x)]) {}" "slist_conf s' = slist_conf s" "sl_destroyed s' = sl_destroyed s"
    using slist_insert_at_spec[OF ns(1) assms(2), of x] by blast
  have "slist_rep s' (xs @ [x])" using s'(2) ns(2) unfolding slist_rep_def by (intro exI[of _ "ns @ [(new, x)]"]) simp
  then show ?thesis using s' last assms(2) by (simp add: slist_append_def slist_fresh_def)
qed

lemma slist_prepend_spec:
  assumes "slist_rep s xs" and "slist_fresh s new"
  shows "\<exists>s'. slist_prepend s new x = Some (RET_OK, s') \<and> slist_rep s' (x # xs) \<and>
    slist_conf s' = slist_conf s \<and> sl_destroyed s' = sl_destroyed s"
proof -
  obtain ns where ns: "shape s ([] @ ns) {}" "xs = map snd ns" using assms(1) by (auto simp: slist_rep_def)
  obtain s' where s': "slist_insert_node (slist_create_node s new x) new NULL = Some s'"
    "shape s' ((new, x) # ns) {}" "slist_conf s' = slist_conf s" "sl_destroyed s' = sl_destroyed s"
    using slist_insert_at_spec[OF ns(1) assms(2), of x] by auto
  have "slist_rep s' (x # xs)" using s'(2) ns(2) unfolding slist_rep_def by (intro exI[of _ "(new, x) # ns"]) simp
  then show ?thesis using s' assms(2) by (simp add: slist_prepend_def slist_fresh_def)
qed

text \<open>Walking to a node by its index.\<close>

lemma next_steps_spec: "seg h ns NULL \<Longrightarrow> i \<le> length ns \<Longrightarrow> next_steps h (addr_of ns NULL) i = Some (addr_of (drop i ns) NULL)"
proof (induction ns arbitrary: i)
  case (Cons x ns)
  obtain a d where "x = (a, d)" by (cases x)
  with Cons show ?case by (cases i) auto
qed simp

lemma get_node_spec:
  assumes "shape s ns X" and "i < length ns"
  shows "slist_get_node s i = Some (fst (ns ! i))"
proof -
  have "addr_of (drop i ns) NULL = fst (ns ! i)"
    using assms(2) by (metis Cons_nth_drop_Suc addr_of.simps(2) prod.collapse)
  then show ?thesis
    using assms next_steps_spec[of "sl_nodes s" ns i]
    by (auto simp: slist_get_node_def shape_def last_addr_def last_conv_nth)
qed

lemma last_addr_take: "i < length ns \<Longrightarrow> last_addr (take (Suc i) ns) = fst (ns ! i)"
  by (simp add: last_addr_def take_Suc_conv_app_nth)

text \<open>Inserting at an index past the end appends; an empty list takes index \<open>0\<close> only.\<close>

lemma slist_insert_spec:
  assumes rep: "slist_rep s xs" and fr: "slist_fresh s new" and "xs \<noteq> [] \<or> index = 0" and "index < 2 ^ 32"
  shows "\<exists>s'. slist_insert s index new x = Some (RET_OK, s') \<and>
    slist_rep s' (take index xs @ x # drop index xs) \<and>
    slist_conf s' = slist_conf s \<and> sl_destroyed s' = sl_destroyed s"
proof -
  obtain ns where ns: "shape s ns {}" "xs = map snd ns" using rep by (auto simp: slist_rep_def)
  let ?i = "min index (length ns)" and ?s = "slist_create_node s new x"
  have eq: "take ?i ns = take index ns" "drop ?i ns = drop index ns" by (simp_all add: min_def)
  have "shape s (take ?i ns @ drop ?i ns) {}" using ns by simp
  from slist_insert_at_spec[OF this fr, of x] obtain s' where
    s': "slist_insert_node ?s new (last_addr (take ?i ns)) = Some s'"
      "shape s' (take ?i ns @ (new, x) # drop ?i ns) {}" "slist_conf s' = slist_conf s" "sl_destroyed s' = sl_destroyed s"
    by blast
  have "slist_rep s' (take index xs @ x # drop index xs)"
    using s'(2) ns(2) eq unfolding slist_rep_def
    by (intro exI[of _ "take ?i ns @ (new, x) # drop ?i ns"]) (simp add: take_map drop_map)
  moreover have "slist_insert s index new x = Some (RET_OK, s')"
  proof (cases "index = 0")
    case True
    then show ?thesis using s'(1) fr by (simp add: slist_insert_def slist_fresh_def)
  next
    case False
    have sh: "shape ?s ns {new}" by (rule create_node_shape[OF ns(1) fr])
    have size: "sl_size ?s = length ns" "length ns < 2 ^ 32" using shapeD(7,8)[OF sh] by simp_all
    have pos: "0 < ?i" using False assms(3) ns(2) by auto
    have bound: "?i < 2 ^ 32" using assms(4) by simp
    have "u32 (min index (sl_size ?s) + (2 ^ 32 - 1)) = ?i - 1"
      using u32_pred[OF pos bound] size by simp
    moreover have "slist_get_node ?s (?i - 1) = Some (last_addr (take ?i ns))"
    proof -
      have "?i - 1 < length ns" using pos by linarith
      then show ?thesis using get_node_spec[OF sh] last_addr_take[of "?i - 1" ns] pos by simp
    qed
    moreover have "last_addr (take ?i ns) \<noteq> NULL"
    proof -
      have "seg (sl_nodes ?s) (take ?i ns @ drop ?i ns) NULL" using shapeD(2)[OF sh] by simp
      then have "seg (sl_nodes ?s) (take ?i ns) (addr_of (drop ?i ns) NULL)" unfolding seg_append by blast
      moreover have "take ?i ns \<noteq> []" using pos by auto
      ultimately show ?thesis using last_addr_NULL by blast
    qed
    ultimately show ?thesis using s'(1) fr False by (simp add: slist_insert_def slist_fresh_def)
  qed
  ultimately show ?thesis using s' by blast
qed


lemma find_node_spec:
  "seg h ns NULL \<Longrightarrow> find_node h P (addr_of ns NULL) =
     Some (case find (\<lambda>x. P (snd x)) ns of None \<Rightarrow> NULL | Some x \<Rightarrow> fst x)"
proof (induction ns)
  case Nil
  then show ?case by (simp add: find_node.simps)
next
  case (Cons x ns)
  obtain a d where "x = (a, d)" by (cases x)
  with Cons show ?case by (auto simp: find_node.simps[of h P a])
qed

lemma seg_lookup: "seg h ns q \<Longrightarrow> x \<in> set ns \<Longrightarrow> fst x \<noteq> NULL \<and> map_option nd_data (h (fst x)) = Some (snd x)"
  by (induction ns) auto

lemma slist_find_node_spec:
  assumes "slist_rep s xs"
  shows "find P xs = None \<Longrightarrow> find_node (sl_nodes s) P (sl_first s) = Some NULL"
    "find P xs = Some d \<Longrightarrow> \<exists>a nd. find_node (sl_nodes s) P (sl_first s) = Some a \<and> a \<noteq> NULL \<and>
       sl_nodes s a = Some nd \<and> nd_data nd = d"
proof -
  obtain ns where ns: "shape s ns {}" "xs = map snd ns" using assms by (auto simp: slist_rep_def)
  note D = shapeD[OF ns(1)]
  show "find P xs = None \<Longrightarrow> find_node (sl_nodes s) P (sl_first s) = Some NULL"
    using D(5) ns(2) find_node_spec[OF D(2), of P] by (simp add: find_map)
  assume "find P xs = Some d"
  then obtain x where x: "find (\<lambda>x. P (snd x)) ns = Some x" "snd x = d" using ns(2) by (auto simp: find_map)
  then have "x \<in> set ns" by (auto simp: find_Some_iff)
  then show "\<exists>a nd. find_node (sl_nodes s) P (sl_first s) = Some a \<and> a \<noteq> NULL \<and>
       sl_nodes s a = Some nd \<and> nd_data nd = d"
    using D(5) find_node_spec[OF D(2), of P] x seg_lookup[OF D(2)] by fastforce
qed

lemma slist_find_ex_spec:
  assumes "slist_rep s xs"
  shows "slist_find_ex s compare ctx =
    Some (first_match (case compare of Some c \<Rightarrow> c | None \<Rightarrow> sl_compare s) ctx xs)"
proof -
  let ?c = "case compare of Some c \<Rightarrow> c | None \<Rightarrow> sl_compare s"
  obtain ns where ns: "shape s ns {}" "xs = map snd ns" using assms by (auto simp: slist_rep_def)
  note D = shapeD[OF ns(1)]
  show ?thesis
  proof (cases "find (\<lambda>x. ?c (snd x) ctx = 0) ns")
    case None
    then show ?thesis using D ns(2) find_node_spec[OF D(2), of "\<lambda>x. ?c x ctx = 0"]
      by (auto simp: slist_find_ex_def first_match_def find_map addr_of_NULL)
  next
    case (Some x)
    then have "x \<in> set ns" by (auto simp: find_Some_iff)
    note l = seg_lookup[OF D(2) this]
    have "ns \<noteq> []" using \<open>x \<in> set ns\<close> by auto
    then show ?thesis using D(5) ns(2) Some l find_node_spec[OF D(2), of "\<lambda>x. ?c x ctx = 0"] shape_first_last(1)[OF ns(1)]
      by (simp add: slist_find_ex_def first_match_def find_map)
  qed
qed

lemma count_nodes_spec:
  "seg h ns NULL \<Longrightarrow> count_nodes h P (addr_of ns NULL) n = Some (n + length (filter P (map snd ns)))"
proof (induction ns arbitrary: n)
  case Nil
  then show ?case by (simp add: count_nodes.simps)
next
  case (Cons x ns)
  obtain a d where "x = (a, d)" by (cases x)
  with Cons show ?case by (auto simp: count_nodes.simps[of h P a])
qed

lemma slist_count_spec:
  "slist_rep s xs \<Longrightarrow> slist_count s ctx = Some (length (filter (\<lambda>x. sl_compare s x ctx = 0) xs))"
  using count_nodes_spec by (fastforce simp: slist_rep_def slist_count_def shape_def)

lemma slist_get_spec:
  "slist_rep s xs \<Longrightarrow> slist_get s i = Some (if i < length xs then xs ! i else NULL)"
proof -
  assume "slist_rep s xs"
  then obtain ns where ns: "shape s ns {}" "xs = map snd ns" by (auto simp: slist_rep_def)
  note D = shapeD[OF ns(1)]
  show ?thesis
  proof (cases "i < length ns")
    case True
    with seg_lookup[OF D(2), of "ns ! i"] show ?thesis using D(7) ns get_node_spec[OF ns(1) True]
      by (simp add: slist_get_def)
  next
    case False
    then show ?thesis using D(7) ns by (simp add: slist_get_def)
  qed
qed

lemma slist_ends_spec:
  assumes "slist_rep s xs"
  shows "slist_head s = Some (if xs = [] then NULL else hd xs)" "slist_tail s = Some (if xs = [] then NULL else last xs)"
    "slist_is_empty s \<longleftrightarrow> xs = []" "slist_size s = s32 (int (length xs))"
proof -
  obtain ns where ns: "shape s ns {}" "xs = map snd ns" using assms by (auto simp: slist_rep_def)
  note D = shapeD[OF ns(1)]
  show "slist_head s = Some (if xs = [] then NULL else hd xs)"
    using D(2,5) ns(2) by (cases ns) (auto simp: slist_head_def)
  show "slist_tail s = Some (if xs = [] then NULL else last xs)"
    using D(2,6) ns(2) seg_lookup[OF D(2), of "last ns"]
    by (cases ns rule: rev_cases) (auto simp: slist_tail_def)
  show "slist_is_empty s \<longleftrightarrow> xs = []" "slist_size s = s32 (int (length xs))"
    using D(7) ns(2) by (simp_all add: slist_is_empty_def slist_size_def)
qed

text \<open>\<open>foreach\<close> follows the abstract visitor loop.\<close>

lemma slist_foreach_loop_spec:
  "shape s (pre @ post) {} \<Longrightarrow> visit_list visit ctx (map snd post) ret = (r, c, keep, gone) \<Longrightarrow>
   \<exists>s' ks. slist_foreach_loop visit ctx s (addr_of post NULL) (last_addr pre) ret = Some (r, c, s') \<and>
     map snd ks = keep \<and> shape s' (pre @ ks) {} \<and> slist_conf s' = slist_conf s \<and>
     sl_destroyed s' = sl_destroyed s @ live gone"
proof (induction post arbitrary: s pre ctx ret r c keep gone)
  case Nil
  then show ?case by (auto simp: slist_foreach_loop.simps)
next
  case (Cons x post)
  obtain a d where x: "x = (a, d)" by (cases x)
  note hd = shape_head[OF Cons.prems(1)[unfolded x]]
  obtain v c1 where v: "visit ctx d = (v, c1)" by (cases "visit ctx d")
  show ?case
  proof (cases "foreach_visit_result v")
    case (Visit_next r1)
    obtain r2 c2 k2 g2 where vl: "visit_list visit c1 (map snd post) r1 = (r2, c2, k2, g2)" by (metis prod_cases4)
    have "shape s ((pre @ [x]) @ post) {}" using Cons.prems(1) by simp
    from Cons.IH[OF this vl] obtain s' ks where
      "slist_foreach_loop visit c1 s (addr_of post NULL) a r1 = Some (r2, c2, s')"
      "map snd ks = k2" "shape s' (pre @ x # ks) {}" "slist_conf s' = slist_conf s"
      "sl_destroyed s' = sl_destroyed s @ live g2" using x by auto
    then show ?thesis using Cons.prems(2) hd x v vl Visit_next
      by (auto simp: slist_foreach_loop.simps[of _ _ _ a] intro!: exI[of _ "x # ks"])
  next
    case (Visit_remove r1)
    obtain r2 c2 k2 g2 where vl: "visit_list visit c1 (map snd post) r1 = (r2, c2, k2, g2)" by (metis prod_cases4)
    obtain s1 s2 where s2: "slist_remove_node s a (last_addr pre) = Some s1" "slist_destroy_node s1 a = Some s2"
      "shape s2 (pre @ post) {}" "slist_conf s2 = slist_conf s" "sl_destroyed s2 = sl_destroyed s @ live [d]"
      using unlink_spec[OF Cons.prems(1)[unfolded x]] by blast
    from Cons.IH[OF s2(3) vl] show ?thesis using Cons.prems(2) hd x v vl s2 Visit_remove
      by (auto simp: slist_foreach_loop.simps[of _ _ _ a])
  next
    case (Visit_break r1)
    then show ?thesis using Cons.prems hd x v
      by (auto simp: slist_foreach_loop.simps[of _ _ _ a] intro!: exI[of _ "x # post"])
  qed
qed

lemma slist_foreach_spec:
  assumes "slist_rep s xs" and "visit_list visit ctx xs RET_OK = (r, c, keep, gone)"
  shows "\<exists>s'. slist_foreach s visit ctx = Some (r, c, s') \<and> slist_rep s' keep \<and>
    slist_conf s' = slist_conf s \<and> sl_destroyed s' = sl_destroyed s @ live gone"
proof -
  obtain ns where ns: "shape s ([] @ ns) {}" "xs = map snd ns" using assms(1) by (auto simp: slist_rep_def)
  from slist_foreach_loop_spec[OF ns(1), of visit ctx RET_OK r c keep gone] assms(2) ns shapeD(5)[OF ns(1)]
  show ?thesis by (auto simp: slist_foreach_def slist_rep_def)
qed

text \<open>Popping hands the data over instead of destroying it.\<close>

lemma take_data_spec:
  assumes "shape s ns {a}" and "a \<noteq> NULL" and "sl_nodes s a = Some nd"
  shows "\<exists>s'. take_data s a = Some (nd_data nd, s') \<and> shape s' ns {} \<and> slist_conf s' = slist_conf s \<and>
    sl_destroyed s' = sl_destroyed s"
proof -
  let ?s = "s\<lparr>sl_nodes := (sl_nodes s)(a \<mapsto> nd\<lparr>nd_data := NULL\<rparr>)\<rparr>"
  have "shape ?s ns (insert a {})" using assms by (auto simp: shape_def)
  from destroy_node_spec[OF this] assms(2)
  show ?thesis using assms(3) by (auto simp: take_data_def slist_conf_def)
qed

lemma slist_head_pop_spec:
  assumes "slist_rep s xs"
  shows "\<exists>s'. slist_head_pop s = Some (if xs = [] then NULL else hd xs, s') \<and> slist_rep s' (tl xs) \<and>
    slist_conf s' = slist_conf s \<and> sl_destroyed s' = sl_destroyed s"
proof -
  obtain ns where ns: "shape s ns {}" "xs = map snd ns" using assms by (auto simp: slist_rep_def)
  show ?thesis
  proof (cases ns)
    case Nil
    then show ?thesis using ns shapeD(5)[OF ns(1)] assms by (auto simp: slist_head_pop_def)
  next
    case (Cons x post)
    obtain a d where x: "x = (a, d)" by (cases x)
    have sh: "shape s ([] @ (a, d) # post) {}" using ns(1) Cons x by simp
    obtain s1 nd where s1: "slist_remove_node s a NULL = Some s1" "shape s1 post {a}"
      "sl_nodes s1 a = Some nd" "nd_data nd = d" "slist_conf s1 = slist_conf s" "sl_destroyed s1 = sl_destroyed s"
      using remove_node_spec[OF sh] by auto
    have a: "a \<noteq> NULL" "sl_first s = a" using sh by (auto simp: shape_def)
    from take_data_spec[OF s1(2) a(1) s1(3)] show ?thesis
      using s1 a ns(2) Cons x by (auto simp: slist_head_pop_def slist_rep_def)
  qed
qed

lemma slist_tail_pop_spec:
  assumes "slist_rep s xs"
  shows "\<exists>s'. slist_tail_pop s = Some (if xs = [] then NULL else last xs, s') \<and> slist_rep s' (butlast xs) \<and>
    slist_conf s' = slist_conf s \<and> sl_destroyed s' = sl_destroyed s"
proof -
  obtain ns where ns: "shape s ns {}" "xs = map snd ns" using assms by (auto simp: slist_rep_def)
  show ?thesis
  proof (cases ns rule: rev_cases)
    case Nil
    then show ?thesis using ns shapeD(5)[OF ns(1)] assms by (auto simp: slist_tail_pop_def)
  next
    case (snoc pre x)
    obtain a d where x: "x = (a, d)" by (cases x)
    have sh: "shape s (pre @ (a, d) # []) {}" using ns(1) snoc x by simp
    note D = shapeD[OF sh]
    obtain s1 nd where s1: "slist_remove_node s a (last_addr pre) = Some s1" "shape s1 pre {a}"
      "sl_nodes s1 a = Some nd" "nd_data nd = d" "slist_conf s1 = slist_conf s" "sl_destroyed s1 = sl_destroyed s"
      using remove_node_spec[OF sh] by auto
    have a: "a \<noteq> NULL" "sl_first s \<noteq> NULL" using D(2) shape_first_last(1)[OF sh] by auto
    have "(if sl_size s \<ge> 2 then do {
             prev \<leftarrow> slist_get_node s (sl_size s - 2);
             if prev \<noteq> NULL then do { iter \<leftarrow> get_next s prev; Some (iter, prev) } else None
           } else Some (sl_first s, NULL)) = Some (a, last_addr pre)"
    proof (cases pre rule: rev_cases)
      case Nil
      then show ?thesis using D(5,7) by simp
    next
      case (snoc qs y)
      obtain b e where y: "y = (b, e)" by (cases y)
      have "slist_get_node s (length qs) = Some b"
        using get_node_spec[OF sh, of "length qs"] snoc y by (simp add: nth_append)
      moreover have "b \<noteq> NULL" "get_next s b = Some a" using D(2) snoc y by (auto simp: get_next_def)
      ultimately show ?thesis using D(7) snoc y by simp
    qed
    then have "slist_tail_pop s = take_data s1 a" using a s1(1) by (simp add: slist_tail_pop_def)
    moreover have "xs \<noteq> []" "last xs = d" "butlast xs = map snd pre" using ns(2) snoc x by simp_all
    ultimately show ?thesis
      using take_data_spec[OF s1(2) a(1) s1(3)] s1 by (auto simp: slist_rep_def)
  qed
qed


text \<open>The reversal turns the links of the nodes it has passed.\<close>

lemma reverse_loop_spec:
  "seg (sl_nodes s) post NULL \<Longrightarrow> seg (sl_nodes s) (rev pre) NULL \<Longrightarrow> distinct (map fst (pre @ post)) \<Longrightarrow>
   \<exists>h. slist_reverse_loop s (addr_of post NULL) (addr_of (rev pre) NULL) =
      Some (addr_of (rev (pre @ post)) NULL, s\<lparr>sl_nodes := h\<rparr>) \<and>
     seg h (rev (pre @ post)) NULL \<and> dom h = dom (sl_nodes s)"
proof (induction post arbitrary: s pre)
  case Nil
  then show ?case by (auto simp: slist_reverse_loop.simps intro!: exI[of _ "sl_nodes s"])
next
  case (Cons x post)
  obtain a d where x: "x = (a, d)" by (cases x)
  let ?s = "s\<lparr>sl_nodes := (sl_nodes s)(a \<mapsto> \<lparr>nd_data = d, nd_next = addr_of (rev pre) NULL\<rparr>)\<rparr>"
  have a: "a \<noteq> NULL" "sl_nodes s a = Some \<lparr>nd_data = d, nd_next = addr_of post NULL\<rparr>" using Cons.prems(1) x by simp_all
  have fresh: "a \<notin> fst ` set post" "a \<notin> fst ` set (rev pre)" using Cons.prems(3) x by auto
  have "seg (sl_nodes ?s) post NULL" "seg (sl_nodes ?s) (rev (pre @ [x])) NULL" "distinct (map fst ((pre @ [x]) @ post))"
    using Cons.prems fresh x a(1) by simp_all
  from Cons.IH[OF this] obtain h where
    h: "slist_reverse_loop ?s (addr_of post NULL) a = Some (addr_of (rev (pre @ x # post)) NULL, ?s\<lparr>sl_nodes := h\<rparr>)"
      "seg h (rev (pre @ x # post)) NULL" "dom h = dom (sl_nodes ?s)"
    using x by (auto simp del: fun_upd_apply)
  have "slist_reverse_loop s a (addr_of (rev pre) NULL) = slist_reverse_loop ?s (addr_of post NULL) a"
    using a by (simp add: slist_reverse_loop.simps[of s a] get_next_def set_next_def)
  moreover have "dom h = dom (sl_nodes s)" using h(3) a(2) by auto
  ultimately show ?case using h x by (intro exI[of _ h]) simp
qed

lemma slist_reverse_spec:
  assumes "slist_rep s xs"
  shows "\<exists>s'. slist_reverse s = Some (RET_OK, s') \<and> slist_rep s' (rev xs) \<and>
    slist_conf s' = slist_conf s \<and> sl_destroyed s' = sl_destroyed s"
proof -
  obtain ns where ns: "shape s ns {}" "xs = map snd ns" using assms by (auto simp: slist_rep_def)
  note D = shapeD[OF ns(1)]
  obtain h where h: "slist_reverse_loop (s\<lparr>sl_last := sl_first s\<rparr>) (sl_first s) NULL =
      Some (addr_of (rev ns) NULL, s\<lparr>sl_last := sl_first s, sl_nodes := h\<rparr>)" "seg h (rev ns) NULL" "dom h = dom (sl_nodes s)"
    using reverse_loop_spec[of "s\<lparr>sl_last := sl_first s\<rparr>" ns "[]"] D(1,2,5) by auto
  let ?s = "s\<lparr>sl_last := sl_first s, sl_nodes := h, sl_first := addr_of (rev ns) NULL\<rparr>"
  have "last_addr (rev ns) = addr_of ns NULL" by (cases ns) auto
  then have "shape ?s (rev ns) {}" using D h by (simp add: shape_def rev_map[symmetric])
  then have "slist_rep ?s (rev xs)" using ns(2) unfolding slist_rep_def by (intro exI[of _ "rev ns"]) (simp add: rev_map)
  then show ?thesis using h(1) by (simp add: slist_reverse_def Let_def slist_conf_def)
qed

lemma destroy_nodes_spec:
  "seg (sl_nodes s) ns NULL \<Longrightarrow> distinct (map fst ns) \<Longrightarrow> dom (sl_nodes s) = fst ` set ns \<Longrightarrow>
   destroy_nodes s (addr_of ns NULL) =
     Some (s\<lparr>sl_nodes := \<lambda>_. None, sl_destroyed := sl_destroyed s @ live (map snd ns)\<rparr>)"
proof (induction ns arbitrary: s)
  case Nil
  then show ?case by (simp add: destroy_nodes.simps)
next
  case (Cons x ns)
  obtain a d where x: "x = (a, d)" by (cases x)
  have a: "a \<noteq> NULL" "sl_nodes s a = Some \<lparr>nd_data = d, nd_next = addr_of ns NULL\<rparr>" "a \<notin> fst ` set ns"
    using Cons.prems x by auto
  obtain s1 where s1: "slist_destroy_node s a = Some s1" "sl_nodes s1 = (sl_nodes s)(a := None)"
    "sl_destroyed s1 = sl_destroyed s @ live [d]" "s1 = s\<lparr>sl_nodes := sl_nodes s1, sl_destroyed := sl_destroyed s1\<rparr>"
    using a by (auto simp: slist_destroy_node_def Let_def)
  have "destroy_nodes s1 (addr_of ns NULL) =
      Some (s1\<lparr>sl_nodes := \<lambda>_. None, sl_destroyed := sl_destroyed s1 @ live (map snd ns)\<rparr>)"
  proof (rule Cons.IH)
    show "seg (sl_nodes s1) ns NULL" unfolding s1(2) seg_upd[OF a(3)] using Cons.prems(1) x by simp
    show "distinct (map fst ns)" using Cons.prems(2) by simp
    show "dom (sl_nodes s1) = fst ` set ns" unfolding s1(2) using Cons.prems(3) x a(3) by simp
  qed
  moreover have "s1\<lparr>sl_nodes := \<lambda>_. None, sl_destroyed := z\<rparr> = s\<lparr>sl_nodes := \<lambda>_. None, sl_destroyed := z\<rparr>" for z
    by (subst s1(4)) simp
  ultimately show ?case using a s1(1,3) x by (simp add: destroy_nodes.simps[of s a])
qed

lemma slist_remove_all_spec:
  assumes "slist_rep s xs"
  shows "\<exists>s'. slist_remove_all s = Some (RET_OK, s') \<and> slist_rep s' [] \<and> slist_conf s' = slist_conf s \<and>
    sl_destroyed s' = sl_destroyed s @ live xs"
proof -
  obtain ns where ns: "shape s ns {}" "xs = map snd ns" using assms by (auto simp: slist_rep_def)
  note D = shapeD[OF ns(1)]
  show ?thesis
  proof (cases "ns = []")
    case True
    then show ?thesis using D(5) ns assms by (simp add: slist_remove_all_def)
  next
    case False
    have "destroy_nodes (s\<lparr>sl_first := NULL\<rparr>) (addr_of ns NULL) =
        Some (s\<lparr>sl_first := NULL, sl_nodes := \<lambda>_. None, sl_destroyed := sl_destroyed s @ live xs\<rparr>)"
      using destroy_nodes_spec[of "s\<lparr>sl_first := NULL\<rparr>" ns] D(1,2,3) ns(2) by simp
    then show ?thesis using False D(5) shape_first_last(1)[OF ns(1)]
      by (auto simp: slist_remove_all_def slist_rep_def shape_def slist_conf_def intro!: exI[of _ "[]"])
  qed
qed

text \<open>
  A node allocator is replaced on an empty list only, and one that is not shared is destroyed
  with the replacement.
\<close>

lemma slist_set_node_allocator_spec:
  assumes "slist_rep s xs" and "slist_set_node_allocator_impl s al shared = (r, s')"
  shows "slist_rep s' xs"
    and "r = (if al = sl_node_allocator s \<or> xs = [] then RET_OK else RET_FAIL)"
    and "r = RET_OK \<Longrightarrow> sl_node_allocator s' = al \<and> sl_allocator_shared s' = shared"
    and "r \<noteq> RET_OK \<Longrightarrow> s' = s"
    and "sl_dead_allocators s' = sl_dead_allocators s @
      (if r = RET_OK \<and> sl_node_allocator s \<notin> {NULL, al} \<and> \<not> sl_allocator_shared s then [sl_node_allocator s] else [])"
  using assms slist_ends_spec(3)[OF assms(1)]
  by (auto simp: slist_set_node_allocator_impl_def slist_rep_def shape_def split: if_splits)

lemma slist_deinit_spec:
  assumes "slist_rep s xs"
  shows "\<exists>s'. slist_deinit s = Some (RET_OK, s') \<and> slist_rep s' [] \<and> sl_node_allocator s' = NULL \<and>
    sl_destroyed s' = sl_destroyed s @ live xs \<and>
    sl_dead_allocators s' = sl_dead_allocators s @
      (if sl_node_allocator s \<noteq> NULL \<and> \<not> sl_allocator_shared s then [sl_node_allocator s] else [])"
proof -
  obtain s1 where s1: "slist_remove_all s = Some (RET_OK, s1)" "slist_rep s1 []" "slist_conf s1 = slist_conf s"
    "sl_destroyed s1 = sl_destroyed s @ live xs"
    using slist_remove_all_spec[OF assms] by blast
  obtain r s2 where s2: "slist_set_node_allocator_impl s1 NULL False = (r, s2)" by fastforce
  note A = slist_set_node_allocator_spec[OF s1(2) s2]
  have "r = RET_OK" using A(2) by simp
  moreover have "sl_destroyed s2 = sl_destroyed s1"
    using s2 by (auto simp: slist_set_node_allocator_impl_def split: if_splits)
  ultimately show ?thesis using s1 s2 A
    by (auto simp: slist_deinit_def slist_set_node_allocator_def slist_conf_def)
qed

section \<open>The contract of a list\<close>

interpretation sl: list_container slist_rep slist_fresh sl_destroyed slist_append slist_remove_ex
  "\<lambda>s c. slist_find_ex s (Some c)"
proof unfold_locales
  fix s xs new x
  assume "slist_rep s xs" and "slist_fresh s new"
  then show "\<exists>s'. slist_append s new x = Some (RET_OK, s') \<and> slist_rep s' (xs @ [x]) \<and> sl_destroyed s' = sl_destroyed s"
    using slist_append_spec by blast
qed (use slist_remove_ex_spec slist_find_ex_spec in
      \<open>fastforce simp: slist_append_def slist_create_node_def\<close>)+

section \<open>The singly linked list implements the list contract\<close>

text \<open>
  An operation is admissible when the allocator answers with NULL or with the address of a block
  that is not in use, and, for \<open>slist_insert\<close>, when the list is not empty or the index is
  \<open>0\<close> (the code traps on its ENSURE otherwise).
\<close>

fun slist_adm :: "slist \<Rightarrow> list_op \<Rightarrow> bool" where
  "slist_adm s (Op_append new x) \<longleftrightarrow> new = NULL \<or> slist_fresh s new"
| "slist_adm s (Op_prepend new x) \<longleftrightarrow> new = NULL \<or> slist_fresh s new"
| "slist_adm s (Op_insert i new x) \<longleftrightarrow>
     new = NULL \<or> slist_fresh s new \<and> (\<not> slist_is_empty s \<or> i = 0) \<and> i < 2 ^ 32"
| "slist_adm s op \<longleftrightarrow> True"

fun slist_exec :: "slist \<Rightarrow> list_op \<Rightarrow> (list_out \<times> slist) option" where
  "slist_exec s (Op_append new x) = map_option (\<lambda>(r, s'). ((r, NULL), s')) (slist_append s new x)"
| "slist_exec s (Op_prepend new x) = map_option (\<lambda>(r, s'). ((r, NULL), s')) (slist_prepend s new x)"
| "slist_exec s (Op_insert i new x) = map_option (\<lambda>(r, s'). ((r, NULL), s')) (slist_insert s i new x)"
| "slist_exec s (Op_remove cmp ctx n) = map_option (\<lambda>(r, s'). ((r, NULL), s')) (slist_remove_ex s cmp ctx n)"
| "slist_exec s (Op_find cmp ctx) = map_option (\<lambda>p. ((RET_OK, p), s)) (slist_find_ex s (Some cmp) ctx)"
| "slist_exec s (Op_get i) = map_option (\<lambda>p. ((RET_OK, p), s)) (slist_get s i)"
| "slist_exec s Op_head_pop = map_option (\<lambda>(p, s'). ((RET_OK, p), s')) (slist_head_pop s)"
| "slist_exec s Op_tail_pop = map_option (\<lambda>(p, s'). ((RET_OK, p), s')) (slist_tail_pop s)"
| "slist_exec s Op_reverse = map_option (\<lambda>(r, s'). ((r, NULL), s')) (slist_reverse s)"
| "slist_exec s Op_remove_all = map_option (\<lambda>(r, s'). ((r, NULL), s')) (slist_remove_all s)"

lemma slist_oom:
  "slist_append s NULL x = Some (RET_OOM, s)" "slist_prepend s NULL x = Some (RET_OOM, s)"
  "slist_insert s i NULL x = Some (RET_OOM, s)"
  by (simp_all add: slist_append_def slist_prepend_def slist_insert_def slist_create_node_def)

lemma slist_exec_law:
  assumes rep: "slist_rep s xs" and adm: "slist_adm s op" and ex: "list_exec op xs = (out, xs', gone)"
  shows "\<exists>s'. slist_exec s op = Some (out, s') \<and> slist_rep s' xs' \<and> sl_destroyed s' = sl_destroyed s @ gone"
proof (cases op)
  case (Op_append new x)
  then show ?thesis using slist_append_spec[OF rep, of new x] rep adm ex by (cases "new = NULL") (auto simp: slist_oom)
next
  case (Op_prepend new x)
  then show ?thesis using slist_prepend_spec[OF rep, of new x] rep adm ex by (cases "new = NULL") (auto simp: slist_oom)
next
  case (Op_insert i new x)
  then show ?thesis
    using slist_insert_spec[OF rep, of new i x] slist_ends_spec(3)[OF rep] rep adm ex
    by (cases "new = NULL") (auto simp: slist_oom)
next
  case (Op_remove cmp ctx n)
  obtain keep gone' m where rn: "remove_n (\<lambda>x. cmp x ctx = 0) n xs = (keep, gone', m)" by (metis prod_cases3)
  show ?thesis using Op_remove slist_remove_ex_spec[where compare = cmp, OF rep rn] ex rn by auto
next
  case (Op_find cmp ctx)
  then show ?thesis using slist_find_ex_spec[OF rep, of "Some cmp" ctx] rep ex by auto
next
  case (Op_get i)
  then show ?thesis using slist_get_spec[OF rep, of i] rep ex by auto
next
  case Op_head_pop
  then show ?thesis using slist_head_pop_spec[OF rep] ex by auto
next
  case Op_tail_pop
  then show ?thesis using slist_tail_pop_spec[OF rep] ex by auto
next
  case Op_reverse
  then show ?thesis using slist_reverse_spec[OF rep] ex by auto
next
  case Op_remove_all
  then show ?thesis using slist_remove_all_spec[OF rep] ex by auto
qed

interpretation sli: list_implementation slist_rep sl_destroyed slist_adm slist_exec
  by unfold_locales (rule slist_exec_law)

section \<open>Properties\<close>

lemmas slist_eval = slist_init_def slist_fresh_def slist_append_def slist_prepend_def slist_insert_def
  slist_create_node_def slist_insert_node_def slist_get_node_def slist_is_empty_def slist_remove_ex_def
  slist_remove_node_def slist_destroy_node_def slist_reverse_def slist_head_pop_def take_data_def
  slist_get_def slist_find_ex_def get_next_def set_next_def next_steps.simps find_node.simps
  remove_ex_loop.simps slist_reverse_loop.simps pointer_compare_def s32_def u32_def Let_def

text \<open>
  C1. The singly linked list refines the list contract. From any well-formed chain of heap nodes
  that holds the elements \<open>xs\<close>, every admissible sequence of appends, prepends, inserts,
  removals by key, lookups, pops at both ends, reversals and clearings runs without following a
  NULL or dangling pointer, returns what the same sequence returns on a plain list, ends in a
  well-formed chain for the resulting list, and hands exactly the removed elements to the element
  destructor, in order.
\<close>

theorem slist_refines_list:
  assumes "slist_rep s xs" and "admissible_run slist_adm slist_exec s ops" and "list_run ops xs = (outs, ys, gone)"
  shows "\<exists>s'. impl_run slist_exec s ops = Some (outs, s') \<and> slist_rep s' ys \<and> sl_destroyed s' = sl_destroyed s @ gone"
  by (rule sli.run_refines[OF assms])

theorem slist_refines_list_witness:
  "\<exists>s'. impl_run slist_exec (slist_init None)
      [Op_append 100 7, Op_append 108 9, Op_insert 1 116 8, Op_remove pointer_compare 9 1, Op_append 0 5,
       Op_reverse, Op_head_pop, Op_get 0] =
    Some ([(RET_OK, 0), (RET_OK, 0), (RET_OK, 0), (RET_OK, 0), (RET_OOM, 0), (RET_OK, 0), (RET_OK, 8), (RET_OK, 7)], s') \<and>
    slist_rep s' [7] \<and> sl_destroyed s' = [9]"
proof -
  let ?ops = "[Op_append 100 7, Op_append 108 9, Op_insert 1 116 8, Op_remove pointer_compare 9 1, Op_append 0 5,
       Op_reverse, Op_head_pop, Op_get 0]"
  have "admissible_run slist_adm slist_exec (slist_init None) ?ops"
    by (simp add: slist_eval cong: bind_weak_cong)
  moreover have "list_run ?ops [] =
    ([(RET_OK, 0), (RET_OK, 0), (RET_OK, 0), (RET_OK, 0), (RET_OOM, 0), (RET_OK, 0), (RET_OK, 8), (RET_OK, 7)], [7], [9])"
    by code_simp
  moreover have "sl_destroyed (slist_init None) = []" by (simp add: slist_init_def)
  ultimately show ?thesis using slist_refines_list[OF slist_init_rep[of None], of ?ops] by auto
qed

end
