(* ===== verification/IdAlloc.thy ===== *)
theory IdAlloc
  imports ListContainer "HOL-Library.Monad_Syntax"
begin

text \<open>
  The loop by which the timer and the idle manager choose an id: count up, skip the invalid id
  \<open>0\<close>, and go on while the id is in use. \<open>used\<close> is the search in the list of the
  manager. Shown: as long as some valid id is free the loop ends with one.
\<close>

partial_function (option) next_free_id :: "(nat \<Rightarrow> bool option) \<Rightarrow> nat \<Rightarrow> (nat \<times> nat) option" where
  "next_free_id used next = (
     let i0 = next;
         next = u32 (next + 1);
         (i0, next) = (if i0 = 0 then (next, u32 (next + 1)) else (i0, next))
     in do {
       u \<leftarrow> used i0;
       if u then next_free_id used next else Some (i0, next)
     })"

lemma next_free_id_spec:
  assumes used: "\<And>i. i < 2 ^ 32 \<Longrightarrow> used i = Some (i \<in> U)" and free: "u \<notin> U" "0 < u" "u < 2 ^ 32" and n: "n < 2 ^ 32"
  shows "\<exists>i0 n'. next_free_id used n = Some (i0, n') \<and> i0 \<noteq> 0 \<and> i0 < 2 ^ 32 \<and> i0 \<notin> U \<and> n' < 2 ^ 32"
  using n
proof (induction "if n \<le> u then u - n else u + 2 ^ 32 - n" arbitrary: n rule: less_induct)
  case less
  define i0 n1 where i: "i0 = (if n = 0 then 1 else n)" "n1 = u32 (i0 + 1)"
  have i0: "i0 \<noteq> 0" "i0 < 2 ^ 32" "n1 < 2 ^ 32" using less.prems by (auto simp: i u32_def)
  have step: "next_free_id used n = (if i0 \<in> U then next_free_id used n1 else Some (i0, n1))"
    using used[OF i0(2)] by (subst next_free_id.simps) (auto simp: i u32_def)
  show ?case
  proof (cases "i0 \<in> U")
    case True
    then have neq: "u \<noteq> i0" using free by auto
    have "(if n1 \<le> u then u - n1 else u + 2 ^ 32 - n1) < (if n \<le> u then u - n else u + 2 ^ 32 - n)"
    proof (cases "n = 0 \<or> n < 2 ^ 32 - 1")
      case True
      then have "n1 = i0 + 1" by (auto simp: i)
      then show ?thesis using neq free less.prems by (auto simp: i split: if_splits)
    next
      case False
      then have n: "n = 2 ^ 32 - 1" using less.prems by auto
      then have "n1 = 0" by (simp add: i u32_def)
      then show ?thesis using free neq n by (auto simp: i)
    qed
    from less.hyps[OF this i0(3)] show ?thesis using step True by simp
  next
    case False
    then show ?thesis using step i0 by auto
  qed
qed

text \<open>With fewer than \<open>2^32 - 1\<close> ids in use, one is free.\<close>

lemma free_id_exists:
  assumes "finite U" and "card U < 2 ^ 32 - 1"
  shows "\<exists>u. u \<notin> U \<and> 0 < u \<and> u < (2 ^ 32 :: nat)"
proof (rule ccontr)
  assume "\<not> ?thesis"
  then have "{1 ..< 2 ^ 32 :: nat} \<subseteq> U" by auto
  then have "card {1 ..< 2 ^ 32 :: nat} \<le> card U" using assms(1) card_mono by blast
  then show False using assms(2) by simp
qed

end
