(* ===== verification/ObjList.thy ===== *)
theory ObjList
  imports Slist IdAlloc
begin

text \<open>
  A list of reference-counted objects, as the timer manager and the idle manager keep one: the
  objects live in a store of their own, with the reference count of \<open>src/src/tkc/object.c\<close>
  as their parent record; the list holds their addresses and owns one reference of each, which it
  drops when it removes the element. Every object has a 32-bit id, read by \<open>key\<close>.

  \<open>ol_fired\<close> records the objects whose callback ran, \<open>ol_finalized\<close> the objects
  that were destroyed; both are for observation only.
\<close>

section \<open>State and operations\<close>

record tk_object =
  ob_ref :: nat

record 'o managed =
  ol_list :: slist
  ol_objs :: "ptr \<Rightarrow> 'o option"
  ol_fired :: "ptr list"
  ol_finalized :: "ptr list"

text \<open>
  \<open>tk_object_ref\<close> and \<open>tk_object_unref\<close>. \<open>None\<close> is a dangling pointer or the
  failed \<open>ENSURE\<close> on the count. The destructors of these objects do not use the manager.
\<close>

definition obj_ref :: "ptr \<Rightarrow> ('a tk_object_scheme, 'm) managed_scheme \<Rightarrow> ('a tk_object_scheme, 'm) managed_scheme option" where
  "obj_ref p m = do {
     t \<leftarrow> ol_objs m p;
     Some (m\<lparr>ol_objs := (ol_objs m)(p \<mapsto> t\<lparr>ob_ref := ob_ref t + 1\<rparr>)\<rparr>)
   }"

definition obj_unref :: "ptr \<Rightarrow> ('a tk_object_scheme, 'm) managed_scheme \<Rightarrow> ('a tk_object_scheme, 'm) managed_scheme option" where
  "obj_unref p m = do {
     t \<leftarrow> ol_objs m p;
     if ob_ref t = 0 then None
     else if ob_ref t = 1 then
       Some (m\<lparr>ol_objs := (ol_objs m)(p := None), ol_finalized := ol_finalized m @ [p]\<rparr>)
     else Some (m\<lparr>ol_objs := (ol_objs m)(p \<mapsto> t\<lparr>ob_ref := ob_ref t - 1\<rparr>)\<rparr>)
   }"

primrec obj_unref_all :: "ptr list \<Rightarrow> ('a tk_object_scheme, 'm) managed_scheme \<Rightarrow> ('a tk_object_scheme, 'm) managed_scheme option" where
  "obj_unref_all [] m = Some m"
| "obj_unref_all (p # ps) m = do { m \<leftarrow> obj_unref p m; obj_unref_all ps m }"

text \<open>
  A comparison function of the code reads the object behind the list element; it is applied to the
  object here. The list of a consistent manager holds addresses of objects only.
\<close>

definition on_obj :: "('o, 'm) managed_scheme \<Rightarrow> ('o \<Rightarrow> int) \<Rightarrow> compare_t" where
  "on_obj m f = (\<lambda>p _. case ol_objs m p of Some t \<Rightarrow> f t | None \<Rightarrow> - 1)"

text \<open>\<open>slist_remove_ex\<close> with \<open>tk_object_unref\<close> as the destructor of the elements.\<close>

definition objs_remove_ex ::
  "('a tk_object_scheme, 'm) managed_scheme \<Rightarrow> ('a tk_object_scheme \<Rightarrow> int) \<Rightarrow> int \<Rightarrow>
     (ret_t \<times> ('a tk_object_scheme, 'm) managed_scheme) option" where
  "objs_remove_ex m f n = do {
     (r, s) \<leftarrow> slist_remove_ex (ol_list m) (on_obj m f) NULL n;
     m' \<leftarrow> obj_unref_all (drop (length (sl_destroyed (ol_list m))) (sl_destroyed s)) (m\<lparr>ol_list := s\<rparr>);
     Some (r, m')
   }"

text \<open>\<open>slist_remove_all\<close> and \<open>slist_deinit\<close> with the same destructor.\<close>

definition objs_clear ::
  "(slist \<Rightarrow> (ret_t \<times> slist) option) \<Rightarrow> ('a tk_object_scheme, 'm) managed_scheme \<Rightarrow>
     (ret_t \<times> ('a tk_object_scheme, 'm) managed_scheme) option" where
  "objs_clear clear m = do {
     (r, s) \<leftarrow> clear (ol_list m);
     m' \<leftarrow> obj_unref_all (drop (length (sl_destroyed (ol_list m))) (sl_destroyed s)) (m\<lparr>ol_list := s\<rparr>);
     Some (r, m')
   }"

text \<open>Search by an id: the dummy object the code passes carries the id only.\<close>

definition cmp_id :: "('o \<Rightarrow> nat) \<Rightarrow> 'o \<Rightarrow> nat \<Rightarrow> int" where
  "cmp_id key a i = s32 (int (key a) - int i)"

definition set_obj :: "ptr \<Rightarrow> ('o \<Rightarrow> 'o) \<Rightarrow> ('o, 'm) managed_scheme \<Rightarrow> ('o, 'm) managed_scheme option" where
  "set_obj p f m = do { t \<leftarrow> ol_objs m p; Some (m\<lparr>ol_objs := (ol_objs m)(p \<mapsto> f t)\<rparr>) }"

text \<open>The first listed object with a property, as the loops over \<open>iter->data\<close> find it.\<close>

definition first_obj :: "('o, 'm) managed_scheme \<Rightarrow> ('o \<Rightarrow> bool) \<Rightarrow> ptr option" where
  "first_obj m P = do {
     iter \<leftarrow> find_node (sl_nodes (ol_list m)) (\<lambda>p. case ol_objs m p of Some t \<Rightarrow> P t | None \<Rightarrow> False)
       (sl_first (ol_list m));
     if iter \<noteq> NULL then map_option nd_data (sl_nodes (ol_list m) iter) else Some NULL
   }"

text \<open>\<open>while (dispatch_one(...) == RET_OK);\<close>\<close>

partial_function (option) repeat_ok :: "('s \<Rightarrow> (ret_t \<times> 's) option) \<Rightarrow> 's \<Rightarrow> 's option" where
  "repeat_ok one s = do { (r, s) \<leftarrow> one s; if r = RET_OK then repeat_ok one s else Some s }"

section \<open>Consistency\<close>

text \<open>
  The list holds the addresses \<open>ps\<close> of live objects with distinct valid ids; every one of them
  carries at least the reference of the list.
\<close>

definition id_of :: "('o \<Rightarrow> nat) \<Rightarrow> (ptr \<Rightarrow> 'o option) \<Rightarrow> ptr \<Rightarrow> nat" where
  "id_of key objs p = (case objs p of Some t \<Rightarrow> key t | None \<Rightarrow> 0)"

definition objs_ok :: "('a tk_object_scheme \<Rightarrow> nat) \<Rightarrow> slist \<Rightarrow> (ptr \<Rightarrow> 'a tk_object_scheme option) \<Rightarrow> ptr list \<Rightarrow> bool" where
  "objs_ok key s objs ps \<longleftrightarrow> slist_rep s ps \<and> distinct (map (id_of key objs) ps) \<and>
     (\<forall>p \<in> set ps. p \<noteq> NULL \<and> (\<exists>t. objs p = Some t \<and> 0 < key t \<and> key t < 2 ^ 32 \<and> 0 < ob_ref t))"

definition drop_ref :: "'a tk_object_scheme \<Rightarrow> 'a tk_object_scheme option" where
  "drop_ref t = (if ob_ref t = 1 then None else Some (t\<lparr>ob_ref := ob_ref t - 1\<rparr>))"

definition objs_drop :: "(ptr \<Rightarrow> 'a tk_object_scheme option) \<Rightarrow> ptr list \<Rightarrow> ptr \<Rightarrow> 'a tk_object_scheme option" where
  "objs_drop objs ps = (\<lambda>p. if p \<in> set ps then Option.bind (objs p) drop_ref else objs p)"

definition last_ref :: "(ptr \<Rightarrow> 'a tk_object_scheme option) \<Rightarrow> ptr \<Rightarrow> bool" where
  "last_ref objs p \<longleftrightarrow> map_option ob_ref (objs p) = Some 1"

definition at_obj :: "(ptr \<Rightarrow> 'o option) \<Rightarrow> ('o \<Rightarrow> bool) \<Rightarrow> ptr \<Rightarrow> bool" where
  "at_obj objs P p = (case objs p of Some t \<Rightarrow> P t | None \<Rightarrow> False)"

lemma cmp_id_0: "key t < 2 ^ 32 \<Longrightarrow> tid < 2 ^ 32 \<Longrightarrow> cmp_id key t tid = 0 \<longleftrightarrow> key t = tid"
  by (simp add: cmp_id_def s32_diff_0)

lemma objs_okD:
  assumes "objs_ok key s objs ps"
  shows "slist_rep s ps" "distinct (map (id_of key objs) ps)" "distinct ps"
    "\<And>p. p \<in> set ps \<Longrightarrow> p \<noteq> NULL \<and> (\<exists>t. objs p = Some t \<and> 0 < key t \<and> key t < 2 ^ 32 \<and> 0 < ob_ref t)"
  using assms by (auto simp: objs_ok_def distinct_map)

lemma objs_ok_init: "objs_ok key (slist_init c) (\<lambda>_. None) []"
  using slist_init_rep by (simp add: objs_ok_def)

lemma objs_ok_filter:
  assumes "objs_ok key s objs ps" and "slist_rep s' (filter P ps)" and "\<And>p. p \<in> set ps \<Longrightarrow> P p \<Longrightarrow> objs' p = objs p"
  shows "objs_ok key s' objs' (filter P ps)"
proof -
  have e: "map (id_of key objs') (filter P ps) = map (id_of key objs) (filter P ps)" using assms(3) by (auto simp: id_of_def)
  have "distinct (map (id_of key objs') (filter P ps))"
    unfolding e using objs_okD(2)[OF assms(1)] by (rule distinct_map_filter)
  then show ?thesis using assms objs_okD(4)[OF assms(1)] unfolding objs_ok_def by simp
qed

lemma objs_ok_cong: "objs_ok key s objs ps \<Longrightarrow> (\<And>p. p \<in> set ps \<Longrightarrow> objs' p = objs p) \<Longrightarrow> objs_ok key s objs' ps"
  using objs_ok_filter[of key s objs ps s "\<lambda>_. True" objs'] by (simp add: objs_ok_def)

lemma objs_ok_upd:
  assumes "objs_ok key s objs ps" and "objs p = Some t" and "key t' = key t" and "0 < ob_ref t'"
  shows "objs_ok key s (objs(p \<mapsto> t')) ps"
proof -
  have "id_of key (objs(p \<mapsto> t')) q = id_of key objs q" for q using assms(2,3) by (simp add: id_of_def)
  then have e: "map (id_of key (objs(p \<mapsto> t'))) ps = map (id_of key objs) ps" by (simp del: fun_upd_apply)
  have "distinct (map (id_of key (objs(p \<mapsto> t'))) ps)" unfolding e by (rule objs_okD(2)[OF assms(1)])
  moreover have "q \<noteq> NULL \<and> (\<exists>t. (objs(p \<mapsto> t')) q = Some t \<and> 0 < key t \<and> key t < 2 ^ 32 \<and> 0 < ob_ref t)"
    if "q \<in> set ps" for q using objs_okD(4)[OF assms(1) that] assms(2-4) by (cases "q = p") auto
  ultimately show ?thesis using objs_okD(1)[OF assms(1)] unfolding objs_ok_def by blast
qed

lemma objs_ok_append:
  assumes ok: "objs_ok key s objs ps" and s': "slist_rep s' (ps @ [p])" and p: "p \<noteq> NULL" "objs p = None"
    and t: "0 < key t" "key t < 2 ^ 32" "0 < ob_ref t" "key t \<notin> id_of key objs ` set ps"
  shows "objs_ok key s' (objs(p \<mapsto> t)) (ps @ [p])"
proof -
  have notin: "p \<notin> set ps" using objs_okD(4)[OF ok] p(2) by force
  then have ids: "map (id_of key (objs(p \<mapsto> t))) ps = map (id_of key objs) ps" by (auto simp: id_of_def)
  have "id_of key (objs(p \<mapsto> t)) p = key t" by (simp add: id_of_def)
  then have "distinct (map (id_of key (objs(p \<mapsto> t))) (ps @ [p]))"
    unfolding map_append ids using objs_okD(2)[OF ok] t(4) by simp
  moreover have "\<forall>q \<in> set (ps @ [p]). q \<noteq> NULL \<and> (\<exists>t'. (objs(p \<mapsto> t)) q = Some t' \<and> 0 < key t' \<and> key t' < 2 ^ 32 \<and> 0 < ob_ref t')"
    using objs_okD(4)[OF ok] p t by auto
  ultimately show ?thesis using s' by (simp only: objs_ok_def)
qed

lemma objs_ok_single:
  assumes "p \<noteq> NULL" and "0 < key t" "key t < 2 ^ 32" "0 < ob_ref t"
  shows "\<exists>s. objs_ok key s [p \<mapsto> t] [p]"
proof -
  have "slist_fresh (slist_init None) 1" by (simp add: slist_fresh_def slist_init_def)
  from slist_append_spec[OF slist_init_rep this] obtain s where "slist_rep s [p]" by fastforce
  then show ?thesis using objs_ok_append[where ps = "[]" and s' = s and p = p and t = t, OF objs_ok_init[where key = key and c = None]] assms by auto
qed

section \<open>Searching by id\<close>

lemma find_by_id_spec:
  assumes ok: "objs_ok key (ol_list m) (ol_objs m) ps" and tid: "0 < tid" "tid < 2 ^ 32"
  shows "\<exists>p. slist_find_ex (ol_list m) (Some (on_obj m (\<lambda>t. cmp_id key t tid))) NULL = Some p \<and>
    (p \<noteq> NULL \<longleftrightarrow> tid \<in> id_of key (ol_objs m) ` set ps) \<and>
    (p \<noteq> NULL \<longrightarrow> p \<in> set ps \<and> id_of key (ol_objs m) p = tid)"
proof -
  let ?c = "on_obj m (\<lambda>t. cmp_id key t tid)"
  have iff: "?c p NULL = 0 \<longleftrightarrow> id_of key (ol_objs m) p = tid" if "p \<in> set ps" for p
    using objs_okD(4)[OF ok that] tid by (auto simp: on_obj_def id_of_def cmp_id_0)
  have f: "slist_find_ex (ol_list m) (Some ?c) NULL = Some (first_match ?c NULL ps)"
    using slist_find_ex_spec[OF objs_okD(1)[OF ok]] by simp
  show ?thesis
  proof (cases "find (\<lambda>x. ?c x NULL = 0) ps")
    case None
    then have "tid \<notin> id_of key (ol_objs m) ` set ps" using iff by (auto simp: find_None_iff)
    then show ?thesis using f None by (simp add: first_match_def)
  next
    case (Some p)
    then have p: "p \<in> set ps" "id_of key (ol_objs m) p = tid" using iff by (auto simp: find_Some_iff)
    then show ?thesis using f Some objs_okD(4)[OF ok p(1)] by (auto simp: first_match_def)
  qed
qed

lemma next_id_spec:
  assumes find: "\<And>i. i < 2 ^ 32 \<Longrightarrow> used i = Some (i \<in> id_of key objs ` set ps)"
    and n: "n < 2 ^ 32" and few: "length ps < 2 ^ 32 - 2"
  shows "\<exists>tid next. next_free_id used n = Some (tid, next) \<and>
    0 < tid \<and> tid < 2 ^ 32 \<and> tid \<notin> id_of key objs ` set ps \<and> next < 2 ^ 32"
proof -
  let ?U = "id_of key objs ` set ps"
  have "card ?U \<le> length ps" using card_image_le[of "set ps" "id_of key objs"] card_length[of ps] by simp
  then obtain u where u: "u \<notin> ?U" "0 < u" "u < 2 ^ 32" using free_id_exists[of ?U] few by auto
  from next_free_id_spec[of used ?U u, OF find u n] show ?thesis by auto
qed

section \<open>Removing\<close>

lemma obj_unref_eq:
  assumes "ol_objs m p = Some t" "0 < ob_ref t"
  shows "obj_unref p m = Some (m\<lparr>ol_objs := objs_drop (ol_objs m) [p],
    ol_finalized := ol_finalized m @ filter (last_ref (ol_objs m)) [p]\<rparr>)"
proof -
  have "objs_drop (ol_objs m) [p] = (ol_objs m)(p := drop_ref t)" using assms by (auto simp: objs_drop_def)
  then show ?thesis using assms by (simp add: obj_unref_def last_ref_def drop_ref_def)
qed

lemma obj_unref_all_eq:
  "distinct ps \<Longrightarrow> (\<And>p. p \<in> set ps \<Longrightarrow> \<exists>t. ol_objs m p = Some t \<and> 0 < ob_ref t) \<Longrightarrow>
   obj_unref_all ps m = Some (m\<lparr>ol_objs := objs_drop (ol_objs m) ps,
     ol_finalized := ol_finalized m @ filter (last_ref (ol_objs m)) ps\<rparr>)"
proof (induction ps arbitrary: m)
  case Nil
  then show ?case by (simp add: objs_drop_def)
next
  case (Cons p ps)
  let ?m = "m\<lparr>ol_objs := objs_drop (ol_objs m) [p], ol_finalized := ol_finalized m @ filter (last_ref (ol_objs m)) [p]\<rparr>"
  obtain t where t: "ol_objs m p = Some t" "0 < ob_ref t" using Cons.prems(2) by force
  have same: "ol_objs ?m q = ol_objs m q" if "q \<in> set ps" for q
    using that Cons.prems(1) by (auto simp: objs_drop_def)
  have "obj_unref_all ps ?m = Some (?m\<lparr>ol_objs := objs_drop (ol_objs ?m) ps,
     ol_finalized := ol_finalized ?m @ filter (last_ref (ol_objs ?m)) ps\<rparr>)"
    using Cons.prems same by (intro Cons.IH) auto
  moreover have "filter (last_ref (ol_objs ?m)) ps = filter (last_ref (ol_objs m)) ps"
    using same by (intro filter_cong) (simp_all add: last_ref_def)
  moreover have "objs_drop (ol_objs ?m) ps = objs_drop (ol_objs m) (p # ps)"
    using Cons.prems(1) by (auto simp: objs_drop_def)
  ultimately show ?case using obj_unref_eq[OF t] by simp
qed

lemma objs_ok_live: "objs_ok key s objs ps \<Longrightarrow> set xs \<subseteq> set ps \<Longrightarrow> live xs = xs"
  using objs_okD(4) by (fastforce simp: filter_id_conv)

text \<open>Removal by a comparison keeps the rest in order and drops one reference of what goes.\<close>

lemma objs_remove_ex_spec:
  assumes ok: "objs_ok key (ol_list m) (ol_objs m) ps"
    and rn: "remove_n (\<lambda>p. on_obj m f p NULL = 0) n ps = (keep, gone, k)"
  shows "\<exists>s. objs_remove_ex m f n = Some (if gone = [] then RET_NOT_FOUND else RET_OK,
      m\<lparr>ol_list := s, ol_objs := objs_drop (ol_objs m) gone,
         ol_finalized := ol_finalized m @ filter (last_ref (ol_objs m)) gone\<rparr>) \<and>
    objs_ok key s (objs_drop (ol_objs m) gone) keep"
proof -
  have ms: "mset ps = mset keep + mset gone" by (rule remove_n_mset[OF rn])
  then have sets: "set gone \<subseteq> set ps" "set keep \<subseteq> set ps"
    by (metis Un_upper2 set_mset_mset set_mset_union, metis Un_upper1 set_mset_mset set_mset_union)
  have "mset (map (id_of key (ol_objs m)) ps) = mset (map (id_of key (ol_objs m)) (keep @ gone))" using ms by simp
  then have dist: "distinct (map (id_of key (ol_objs m)) (keep @ gone))"
    using objs_okD(2)[OF ok] mset_eq_imp_distinct_iff by blast
  then have dg: "distinct gone" "set keep \<inter> set gone = {}" by (auto simp: distinct_map)
  obtain s where s: "slist_remove_ex (ol_list m) (on_obj m f) NULL n = Some (if gone = [] then RET_NOT_FOUND else RET_OK, s)"
    "slist_rep s keep" "sl_destroyed s = sl_destroyed (ol_list m) @ gone"
    using slist_remove_ex_spec[where compare = "on_obj m f" and ctx = NULL, OF objs_okD(1)[OF ok] rn] objs_ok_live[OF ok sets(1)] by auto
  let ?objs = "objs_drop (ol_objs m) gone"
  have un: "obj_unref_all gone (m\<lparr>ol_list := s\<rparr>) = Some (m\<lparr>ol_list := s, ol_objs := ?objs,
     ol_finalized := ol_finalized m @ filter (last_ref (ol_objs m)) gone\<rparr>)"
    using obj_unref_all_eq[OF dg(1), of "m\<lparr>ol_list := s\<rparr>"] objs_okD(4)[OF ok] sets(1) by fastforce
  have same: "?objs p = ol_objs m p" if "p \<in> set keep" for p using that dg(2) by (auto simp: objs_drop_def)
  then have e: "map (id_of key ?objs) keep = map (id_of key (ol_objs m)) keep" by (auto simp: id_of_def)
  have "distinct (map (id_of key ?objs) keep)" unfolding e using dist by simp
  then have "objs_ok key s ?objs keep"
    using s(2) objs_okD(4)[OF ok] sets(2) same unfolding objs_ok_def by (metis subsetD)
  then show ?thesis using s un by (auto simp: objs_remove_ex_def)
qed

lemma remove_by_id_spec:
  assumes ok: "objs_ok key (ol_list m) (ol_objs m) ps" and p: "p \<in> set ps" "ol_objs m p = Some t"
  shows "\<exists>s. objs_remove_ex m (\<lambda>o'. cmp_id key o' (key t)) 1 = Some (RET_OK,
      m\<lparr>ol_list := s, ol_objs := objs_drop (ol_objs m) [p],
         ol_finalized := ol_finalized m @ filter (last_ref (ol_objs m)) [p]\<rparr>) \<and>
    objs_ok key s (objs_drop (ol_objs m) [p]) (filter (\<lambda>q. q \<noteq> p) ps)"
proof -
  let ?c = "\<lambda>q. on_obj m (\<lambda>o'. cmp_id key o' (key t)) q NULL = 0"
  have t: "0 < key t" "key t < 2 ^ 32" using objs_okD(4)[OF ok p(1)] p(2) by auto
  have inj: "inj_on (id_of key (ol_objs m)) (set ps)" using objs_okD(2)[OF ok] by (simp add: distinct_map)
  have iff: "?c q \<longleftrightarrow> q = p" if "q \<in> set ps" for q
  proof -
    have "?c q \<longleftrightarrow> id_of key (ol_objs m) q = key t"
      using objs_okD(4)[OF ok that] t by (auto simp: on_obj_def id_of_def cmp_id_0)
    also have "\<dots> \<longleftrightarrow> id_of key (ol_objs m) q = id_of key (ol_objs m) p" using p(2) by (simp add: id_of_def)
    also have "\<dots> \<longleftrightarrow> q = p" using inj that p(1) by (auto dest: inj_onD)
    finally show ?thesis .
  qed
  have "remove_n ?c 1 xs = (filter (\<lambda>q. q \<noteq> p) xs, filter (\<lambda>q. q = p) xs, if p \<in> set xs then 0 else 1)"
    if "set xs \<subseteq> set ps" "distinct xs" for xs
    using that
  proof (induction xs)
    case (Cons x xs)
    have "p \<notin> set xs \<Longrightarrow> filter (\<lambda>q. q \<noteq> p) xs = xs \<and> filter (\<lambda>q. q = p) xs = []" by (induction xs) auto
    then show ?case using Cons iff[of x] by (cases "x = p") auto
  qed simp
  from this[OF subset_refl objs_okD(3)[OF ok]] p(1)
  have "remove_n ?c 1 ps = (filter (\<lambda>q. q \<noteq> p) ps, filter (\<lambda>q. q = p) ps, 0)" by simp
  moreover have "filter (\<lambda>q. q = p) ps = [p]"
    using p(1) objs_okD(3)[OF ok] by (induction ps) (auto simp: filter_empty_conv)
  ultimately show ?thesis using objs_remove_ex_spec[OF ok, of "\<lambda>o'. cmp_id key o' (key t)" 1] by fastforce
qed

text \<open>Removing all objects of an owner.\<close>

lemma remove_all_by_spec:
  assumes ok: "objs_ok key (ol_list m) (ol_objs m) ps"
    and iff: "\<And>p t. p \<in> set ps \<Longrightarrow> ol_objs m p = Some t \<Longrightarrow> f t = 0 \<longleftrightarrow> mine t"
  defines "hit \<equiv> at_obj (ol_objs m) mine"
  shows "\<exists>s. objs_remove_ex m f (- 1) = Some (if filter hit ps = [] then RET_NOT_FOUND else RET_OK,
      m\<lparr>ol_list := s, ol_objs := objs_drop (ol_objs m) (filter hit ps),
         ol_finalized := ol_finalized m @ filter (last_ref (ol_objs m)) (filter hit ps)\<rparr>) \<and>
    objs_ok key s (objs_drop (ol_objs m) (filter hit ps)) (filter (\<lambda>p. \<not> hit p) ps)"
proof -
  have "on_obj m f p NULL = 0 \<longleftrightarrow> hit p" if "p \<in> set ps" for p
    using objs_okD(4)[OF ok that] iff[OF that] by (auto simp: on_obj_def hit_def at_obj_def)
  then have "remove_n (\<lambda>p. on_obj m f p NULL = 0) (- 1) ps =
      (filter (\<lambda>p. \<not> hit p) ps, filter hit ps, - 1 - int (length (filter hit ps)))"
    by (simp add: remove_n_all cong: filter_cong)
  from objs_remove_ex_spec[OF ok this] show ?thesis by simp
qed

lemma first_obj_spec:
  assumes "objs_ok key (ol_list m) (ol_objs m) ps"
  shows "first_obj m P = Some (case find (at_obj (ol_objs m) P) ps of None \<Rightarrow> NULL | Some p \<Rightarrow> p)"
proof -
  have e: "(\<lambda>p. case ol_objs m p of Some t \<Rightarrow> P t | None \<Rightarrow> False) = at_obj (ol_objs m) P"
    by (simp add: at_obj_def fun_eq_iff)
  note f = slist_find_node_spec[OF objs_okD(1)[OF assms], of "at_obj (ol_objs m) P"]
  show ?thesis
  proof (cases "find (at_obj (ol_objs m) P) ps")
    case None
    then show ?thesis using f(1) by (simp add: first_obj_def e)
  next
    case (Some p)
    then show ?thesis using f(2)[OF Some] by (auto simp: first_obj_def e)
  qed
qed

section \<open>Sweeps\<close>

text \<open>
  A dispatch cycle takes the first available object again and again until there is none. The
  locale is the contract of one such step: it makes the object unavailable, runs its callback or
  not (\<open>fires\<close>), and keeps it in the list or not (\<open>stays\<close>). Then the cycle visits every
  available object exactly once, in the order of the list.
\<close>

definition hit :: "(ptr \<Rightarrow> 'o option) \<Rightarrow> (ptr \<Rightarrow> 'o \<Rightarrow> bool) \<Rightarrow> ptr \<Rightarrow> bool" where
  "hit objs P p = at_obj objs (P p) p"

definition objs_after :: "(ptr \<Rightarrow> 'o \<Rightarrow> 'o option) \<Rightarrow> (ptr \<Rightarrow> 'o option) \<Rightarrow> ptr list \<Rightarrow> ptr \<Rightarrow> 'o option" where
  "objs_after after objs ps = (\<lambda>p. if p \<in> set ps then Option.bind (objs p) (after p) else objs p)"

lemma objs_after_other [simp]: "q \<notin> set ps \<Longrightarrow> objs_after after objs ps q = objs q"
  by (simp add: objs_after_def)

lemma objs_after_Nil [simp]: "objs_after after objs [] = objs"
  by (simp add: objs_after_def)

lemma find_at_obj_None: "(\<And>p. p \<in> set ps \<Longrightarrow> \<not> at_obj objs P p) \<Longrightarrow> find (at_obj objs P) ps = None"
  by (auto simp: find_None_iff)

locale sweep =
  fixes key :: "'a tk_object_scheme \<Rightarrow> nat"
    and one :: "('a tk_object_scheme, 'm) managed_scheme \<Rightarrow> (ret_t \<times> ('a tk_object_scheme, 'm) managed_scheme) option"
    and avail :: "'a tk_object_scheme \<Rightarrow> bool"
    and fires stays :: "ptr \<Rightarrow> 'a tk_object_scheme \<Rightarrow> bool"
    and after :: "ptr \<Rightarrow> 'a tk_object_scheme \<Rightarrow> 'a tk_object_scheme option"
  assumes one_done: "objs_ok key (ol_list m) (ol_objs m) ps \<Longrightarrow> find (at_obj (ol_objs m) avail) ps = None \<Longrightarrow>
      one m = Some (RET_DONE, m)"
    and one_step: "objs_ok key (ol_list m) (ol_objs m) ps \<Longrightarrow> find (at_obj (ol_objs m) avail) ps = Some p \<Longrightarrow>
      ol_objs m p = Some t \<Longrightarrow>
      \<exists>s fin. one m = Some (RET_OK, m\<lparr>ol_list := s, ol_objs := (ol_objs m)(p := after p t),
          ol_fired := ol_fired m @ (if fires p t then [p] else []), ol_finalized := fin\<rparr>) \<and>
        objs_ok key s ((ol_objs m)(p := after p t)) (filter (\<lambda>q. q \<noteq> p \<or> stays p t) ps)"
    and after_visited: "stays p t \<Longrightarrow> \<exists>t'. after p t = Some t' \<and> \<not> avail t'"
begin

lemma sweep_spec:
  "objs_ok key (ol_list m) (ol_objs m) (passed @ todo) \<Longrightarrow>
   (\<And>p. p \<in> set passed \<Longrightarrow> \<not> at_obj (ol_objs m) avail p) \<Longrightarrow> (\<And>p. p \<in> set todo \<Longrightarrow> at_obj (ol_objs m) avail p) \<Longrightarrow>
   \<exists>s fin. repeat_ok one m = Some (m\<lparr>ol_list := s, ol_objs := objs_after after (ol_objs m) todo,
       ol_fired := ol_fired m @ filter (hit (ol_objs m) fires) todo, ol_finalized := fin\<rparr>) \<and>
     objs_ok key s (objs_after after (ol_objs m) todo) (passed @ filter (hit (ol_objs m) stays) todo)"
proof (induction todo arbitrary: m passed)
  case Nil
  then have "one m = Some (RET_DONE, m)" using one_done[of m passed] find_at_obj_None[OF Nil.prems(2)] by simp
  then have "repeat_ok one m = Some m" by (simp add: repeat_ok.simps)
  then show ?case using Nil.prems(1) by (intro exI[of _ "ol_list m"] exI[of _ "ol_finalized m"]) simp
next
  case (Cons p todo)
  obtain t where t: "ol_objs m p = Some t" using objs_okD(4)[OF Cons.prems(1)] by force
  let ?objs = "(ol_objs m)(p := after p t)"
  have dist: "p \<notin> set passed" "p \<notin> set todo" using objs_okD(3)[OF Cons.prems(1)] by auto
  have first: "find (at_obj (ol_objs m) avail) (passed @ p # todo) = Some p"
    using Cons.prems(2,3) by (induction passed) (auto split: if_splits)
  let ?mid = "if stays p t then [p] else []"
  have "filter (\<lambda>q. q \<noteq> p \<or> stays p t) (passed @ p # todo) = (passed @ ?mid) @ todo"
  proof -
    have f: "p \<notin> set xs \<Longrightarrow> filter (\<lambda>q. q \<noteq> p \<or> stays p t) xs = xs" for xs by (induction xs) auto
    show ?thesis unfolding filter_append filter.simps f[OF dist(1)] f[OF dist(2)] by simp
  qed
  then obtain s fin where st: "one m = Some (RET_OK, m\<lparr>ol_list := s, ol_objs := ?objs,
         ol_fired := ol_fired m @ (if fires p t then [p] else []), ol_finalized := fin\<rparr>)"
    "objs_ok key s ?objs ((passed @ ?mid) @ todo)"
    using one_step[OF Cons.prems(1) first t] by auto
  define m1 where "m1 = m\<lparr>ol_list := s, ol_objs := ?objs,
         ol_fired := ol_fired m @ (if fires p t then [p] else []), ol_finalized := fin\<rparr>"
  have m1: "ol_list m1 = s" "ol_objs m1 = ?objs" "one m = Some (RET_OK, m1)" using st(1) by (simp_all add: m1_def)
  have same: "at_obj ?objs P q = at_obj (ol_objs m) P q" if "q \<noteq> p" for q P using that by (simp add: at_obj_def)
  have a1: "\<not> at_obj (ol_objs m1) avail q" if "q \<in> set (passed @ ?mid)" for q
  proof (cases "q = p")
    case True
    then have "stays p t" using that dist by (auto split: if_splits)
    then show ?thesis using after_visited[of p t] True by (auto simp: m1 at_obj_def)
  next
    case False
    then show ?thesis using that Cons.prems(2) same[OF False] by (auto simp: m1 split: if_splits)
  qed
  have a2: "at_obj (ol_objs m1) avail q" if "q \<in> set todo" for q
    using Cons.prems(3)[of q] same[of q] dist that m1(2) by auto
  have flt: "filter (hit ?objs P) todo = filter (hit (ol_objs m) P) todo" for P
    using dist(2) unfolding hit_def by (intro filter_cong refl) (metis same)
  have oa: "objs_after after ?objs todo = objs_after after (ol_objs m) (p # todo)"
    using dist t by (auto simp: objs_after_def)
  have ok1: "objs_ok key (ol_list m1) (ol_objs m1) ((passed @ ?mid) @ todo)" using st(2) by (simp add: m1)
  obtain s2 fin2 where r: "repeat_ok one m1 = Some (m1\<lparr>ol_list := s2, ol_objs := objs_after after (ol_objs m1) todo,
       ol_fired := ol_fired m1 @ filter (hit (ol_objs m1) fires) todo, ol_finalized := fin2\<rparr>)"
     "objs_ok key s2 (objs_after after (ol_objs m1) todo) ((passed @ ?mid) @ filter (hit (ol_objs m1) stays) todo)"
    using Cons.IH[OF ok1 a1 a2] by blast
  have "repeat_ok one m = repeat_ok one m1" using m1(3) by (simp add: repeat_ok.simps[of one m])
  then have "repeat_ok one m = Some (m\<lparr>ol_list := s2, ol_objs := objs_after after (ol_objs m) (p # todo),
       ol_fired := ol_fired m @ filter (hit (ol_objs m) fires) (p # todo), ol_finalized := fin2\<rparr>)"
    using r(1) t oa flt by (simp add: m1_def hit_def at_obj_def)
  moreover have "(passed @ ?mid) @ filter (hit (ol_objs m1) stays) todo = passed @ filter (hit (ol_objs m) stays) (p # todo)"
    using t flt m1(2) by (simp add: hit_def at_obj_def)
  ultimately show ?case using r(2) oa m1(2) by auto
qed

lemma sweep_all:
  assumes "objs_ok key (ol_list m) (ol_objs m) ps" and "\<And>p t. p \<in> set ps \<Longrightarrow> ol_objs m p = Some t \<Longrightarrow> avail t"
  shows "\<exists>s fin. repeat_ok one m = Some (m\<lparr>ol_list := s, ol_objs := objs_after after (ol_objs m) ps,
       ol_fired := ol_fired m @ filter (hit (ol_objs m) fires) ps, ol_finalized := fin\<rparr>) \<and>
     objs_ok key s (objs_after after (ol_objs m) ps) (filter (hit (ol_objs m) stays) ps)"
proof -
  have "at_obj (ol_objs m) avail p" if "p \<in> set ps" for p
    using objs_okD(4)[OF assms(1) that] assms(2)[OF that] by (auto simp: at_obj_def)
  then show ?thesis using sweep_spec[of m "[]" ps] assms(1) by simp
qed

end

end
