(* ===== verification/EventSources.thy ===== *)
theory EventSources
  imports Darray ObjList
begin

text \<open>
  The event source manager of a main loop, \<open>src/src/tkc/event_source_manager.c\<close> and
  \<open>event_source_manager_default.c\<close>, and the sources it keeps, \<open>event_source.c\<close>. Sources are
  reference counted objects in a dynamic array; a dispatch works on a second array, a snapshot that holds
  references of its own, and skips what has been removed meanwhile.

  The methods of a source are the program: functions of the state, which is the manager and whatever
  extends it, so that they may add and remove sources and dispatch recursively. \<open>None\<close> is an access to a
  source that has been freed.

  Shown: a dispatch whose methods add, remove and tag sources ends without such an access; sources that stay and are
  ready are dispatched once each, in order.
\<close>

section \<open>State\<close>

record event_source = tk_object +
  es_tag :: ptr
  es_manager :: ptr

record event_source_manager =
  esm_self :: ptr
  esm_sources :: darray
  esm_dispatching :: darray
  esm_objs :: "ptr \<Rightarrow> event_source option"
  esm_min_sleep_time :: nat

text \<open>
  The methods of the source at an address, \<open>select\<close> with the answer of the system (the status and the
  descriptors that are ready), and the allocator. A method that is NULL in the code is the constant that
  its caller takes then: no descriptor, the check fails, the wakeup time is 0.
\<close>

record 'a methods =
  get_fd :: "ptr \<Rightarrow> 'a event_source_manager_scheme \<Rightarrow> int"
  check_source :: "ptr \<Rightarrow> 'a event_source_manager_scheme \<Rightarrow> (ret_t \<times> 'a event_source_manager_scheme) option"
  dispatch_source :: "ptr \<Rightarrow> 'a event_source_manager_scheme \<Rightarrow> (ret_t \<times> 'a event_source_manager_scheme) option"
  wakeup_time :: "ptr \<Rightarrow> 'a event_source_manager_scheme \<Rightarrow> (nat \<times> 'a event_source_manager_scheme) option"
  select_fds :: "int set \<Rightarrow> nat \<Rightarrow> 'a event_source_manager_scheme \<Rightarrow> (int \<times> int set) \<times> 'a event_source_manager_scheme"
  grant :: alloc_t

section \<open>Operations\<close>

definition set_source :: "ptr \<Rightarrow> event_source option \<Rightarrow> 'a event_source_manager_scheme \<Rightarrow> 'a event_source_manager_scheme" where
  "set_source p s m = m\<lparr>esm_objs := (esm_objs m)(p := s)\<rparr>"

definition source_ref :: "ptr \<Rightarrow> 'a event_source_manager_scheme \<Rightarrow> 'a event_source_manager_scheme option" where
  "source_ref p m = do { s \<leftarrow> esm_objs m p; Some (set_source p (Some (s\<lparr>ob_ref := ob_ref s + 1\<rparr>)) m) }"

definition source_unref :: "ptr \<Rightarrow> 'a event_source_manager_scheme \<Rightarrow> 'a event_source_manager_scheme option" where
  "source_unref p m = do {
     s \<leftarrow> esm_objs m p;
     if ob_ref s = 0 then None
     else Some (set_source p (if ob_ref s = 1 then None else Some (s\<lparr>ob_ref := ob_ref s - 1\<rparr>)) m)
   }"

primrec source_unref_all :: "ptr list \<Rightarrow> 'a event_source_manager_scheme \<Rightarrow> 'a event_source_manager_scheme option" where
  "source_unref_all [] m = Some m"
| "source_unref_all (p # ps) m = do { m \<leftarrow> source_unref p m; source_unref_all ps m }"

text \<open>An operation on one of the arrays; the elements that it destroys lose a reference.\<close>

definition on_sources ::
  "(darray \<Rightarrow> ret_t \<times> darray) \<Rightarrow> 'a event_source_manager_scheme \<Rightarrow> (ret_t \<times> 'a event_source_manager_scheme) option" where
  "on_sources f m =
     (case f (esm_sources m) of (r, d) \<Rightarrow> do {
        m \<leftarrow> source_unref_all (drop (length (da_destroyed (esm_sources m))) (da_destroyed d)) (m\<lparr>esm_sources := d\<rparr>);
        Some (r, m) })"

definition on_dispatching ::
  "(darray \<Rightarrow> ret_t \<times> darray) \<Rightarrow> 'a event_source_manager_scheme \<Rightarrow> (ret_t \<times> 'a event_source_manager_scheme) option" where
  "on_dispatching f m =
     (case f (esm_dispatching m) of (r, d) \<Rightarrow> do {
        m \<leftarrow> source_unref_all (drop (length (da_destroyed (esm_dispatching m))) (da_destroyed d)) (m\<lparr>esm_dispatching := d\<rparr>);
        Some (r, m) })"

definition event_source_manager_init :: "alloc_t \<Rightarrow> 'a event_source_manager_scheme \<Rightarrow> ret_t \<times> 'a event_source_manager_scheme" where
  "event_source_manager_init alloc m =
     (RET_OK, m\<lparr>esm_sources := fst (darray_init alloc 5 None), esm_dispatching := fst (darray_init alloc 5 None)\<rparr>)"

text \<open>Every source of the snapshot gets a reference; the result of \<open>darray_push\<close> is not looked at.\<close>

primrec prepare_loop :: "alloc_t \<Rightarrow> ptr list \<Rightarrow> 'a event_source_manager_scheme \<Rightarrow> 'a event_source_manager_scheme option" where
  "prepare_loop alloc [] m = Some m"
| "prepare_loop alloc (iter # sources) m = do {
     m \<leftarrow> source_ref iter m;
     (_, m) \<leftarrow> on_dispatching (\<lambda>d. darray_push alloc d iter) m;
     prepare_loop alloc sources m
   }"

definition event_source_manager_prepare :: "alloc_t \<Rightarrow> 'a event_source_manager_scheme \<Rightarrow> (ret_t \<times> 'a event_source_manager_scheme) option" where
  "event_source_manager_prepare alloc m = do { m \<leftarrow> prepare_loop alloc (darray_abs (esm_sources m)) m; Some (RET_OK, m) }"

definition event_source_manager_add ::
  "alloc_t \<Rightarrow> ptr \<Rightarrow> 'a event_source_manager_scheme \<Rightarrow> (ret_t \<times> 'a event_source_manager_scheme) option" where
  "event_source_manager_add alloc source m = do {
     m \<leftarrow> source_ref source m;
     s \<leftarrow> esm_objs m source;
     on_sources (\<lambda>d. darray_push alloc d source) (set_source source (Some (s\<lparr>es_manager := esm_self m\<rparr>)) m)
   }"

definition event_source_manager_exist :: "'a event_source_manager_scheme \<Rightarrow> ptr \<Rightarrow> bool" where
  "event_source_manager_exist m source \<longleftrightarrow> darray_find (esm_sources m) source \<noteq> NULL"

definition event_source_manager_remove :: "ptr \<Rightarrow> 'a event_source_manager_scheme \<Rightarrow> (ret_t \<times> 'a event_source_manager_scheme) option" where
  "event_source_manager_remove source m = do {
     s \<leftarrow> esm_objs m source;
     on_sources (\<lambda>d. darray_remove d source) (set_source source (Some (s\<lparr>es_manager := NULL\<rparr>)) m)
   }"

definition event_source_compare_by_tag :: "'a event_source_manager_scheme \<Rightarrow> compare_t" where
  "event_source_compare_by_tag m a b = (case esm_objs m a of Some s \<Rightarrow> (if es_tag s = b then 0 else 1) | None \<Rightarrow> 1)"

definition event_source_manager_remove_by_tag ::
  "alloc_t \<Rightarrow> ptr \<Rightarrow> 'a event_source_manager_scheme \<Rightarrow> (ret_t \<times> 'a event_source_manager_scheme) option" where
  "event_source_manager_remove_by_tag alloc tag m =
     on_sources (\<lambda>d. darray_remove_all alloc d (Some (event_source_compare_by_tag m)) tag) m"

definition event_source_set_tag :: "ptr \<Rightarrow> ptr \<Rightarrow> 'a event_source_manager_scheme \<Rightarrow> (ret_t \<times> 'a event_source_manager_scheme) option" where
  "event_source_set_tag source tag m = do { s \<leftarrow> esm_objs m source; Some (RET_OK, set_source source (Some (s\<lparr>es_tag := tag\<rparr>)) m) }"

text \<open>\<open>t\<close> is a 32-bit variable.\<close>

primrec wakeup_loop :: "'a methods \<Rightarrow> ptr list \<Rightarrow> nat \<Rightarrow> 'a event_source_manager_scheme \<Rightarrow> (nat \<times> 'a event_source_manager_scheme) option" where
  "wakeup_loop M [] wakeup m = Some (wakeup, m)"
| "wakeup_loop M (iter # sources) wakeup m = do {
     _ \<leftarrow> esm_objs m iter;
     (t, m) \<leftarrow> wakeup_time M iter m;
     wakeup_loop M sources (if u32 t < wakeup then u32 t else wakeup) m
   }"

definition event_source_manager_get_wakeup_time ::
  "'a methods \<Rightarrow> 'a event_source_manager_scheme \<Rightarrow> (nat \<times> 'a event_source_manager_scheme) option" where
  "event_source_manager_get_wakeup_time M m = do {
     (wakeup, m') \<leftarrow> (if darray_abs (esm_sources m) \<noteq> [] then do {
         (t, m) \<leftarrow> wakeup_loop M (darray_abs (esm_sources m)) 65535 m;
         Some (t * 1000, m)
       } else Some (esm_min_sleep_time m, m));
     Some (min (esm_min_sleep_time m') wakeup, m')
   }"

definition event_source_manager_set_min_sleep_time_us :: "nat \<Rightarrow> 'a event_source_manager_scheme \<Rightarrow> ret_t \<times> 'a event_source_manager_scheme" where
  "event_source_manager_set_min_sleep_time_us t m = (RET_OK, m\<lparr>esm_min_sleep_time := t\<rparr>)"

definition event_source_manager_set_min_sleep_time :: "nat \<Rightarrow> 'a event_source_manager_scheme \<Rightarrow> ret_t \<times> 'a event_source_manager_scheme" where
  "event_source_manager_set_min_sleep_time t m = event_source_manager_set_min_sleep_time_us (u32 (t * 1000)) m"

text \<open>The body of both loops: dispatch a source and remove it when it asks for that.\<close>

definition dispatch_iter :: "'a methods \<Rightarrow> ptr \<Rightarrow> 'a event_source_manager_scheme \<Rightarrow> 'a event_source_manager_scheme option" where
  "dispatch_iter M iter m = do {
     (r, m) \<leftarrow> dispatch_source M iter m;
     if r = RET_REMOVE then do { (_, m) \<leftarrow> event_source_manager_remove iter m; Some m } else Some m
   }"

text \<open>
  The arrays are read anew in every round: a method may have changed them. A nested dispatch leaves the
  snapshot empty, and then the loop ends.
\<close>

partial_function (option) fds_loop ::
  "'a methods \<Rightarrow> int set \<Rightarrow> nat \<Rightarrow> 'a event_source_manager_scheme \<Rightarrow> 'a event_source_manager_scheme option" where
  "fds_loop M ready i m =
     (if i < da_size (esm_dispatching m) then
        (let iter = darray_get (esm_dispatching m) i
         in if \<not> event_source_manager_exist m iter then fds_loop M ready (i + 1) m
            else do {
              _ \<leftarrow> esm_objs m iter;
              m \<leftarrow> (if get_fd M iter m \<ge> 0 \<and> get_fd M iter m \<in> ready then dispatch_iter M iter m else Some m);
              fds_loop M ready (i + 1) m
            })
      else Some m)"

definition event_source_manager_default_dispatch_fds ::
  "'a methods \<Rightarrow> nat \<Rightarrow> 'a event_source_manager_scheme \<Rightarrow> (ret_t \<times> 'a event_source_manager_scheme) option" where
  "event_source_manager_default_dispatch_fds M sleep_time m =
     (let fds = set (filter (\<lambda>fd. fd \<ge> 0) (map (\<lambda>p. get_fd M p m) (darray_abs (esm_dispatching m))))
      in if list_ex (\<lambda>p. esm_objs m p = None) (darray_abs (esm_dispatching m)) then None
         else if list_all (\<lambda>p. get_fd M p m < 0) (darray_abs (esm_dispatching m)) then Some (RET_OK, m)
         else (case select_fds M fds sleep_time m of ((ret, ready), m) \<Rightarrow>
           if ret < 0 then Some (RET_FAIL, m)
           else if ret = 0 then Some (RET_TIMEOUT, m)
           else do { m \<leftarrow> fds_loop M ready 0 m; Some (RET_OK, m) }))"

partial_function (option) no_fd_loop ::
  "'a methods \<Rightarrow> nat \<Rightarrow> 'a event_source_manager_scheme \<Rightarrow> 'a event_source_manager_scheme option" where
  "no_fd_loop M i m =
     (if i < da_size (esm_dispatching m) then
        (let iter = darray_get (esm_dispatching m) i
         in if \<not> event_source_manager_exist m iter then no_fd_loop M (i + 1) m
            else do {
              _ \<leftarrow> esm_objs m iter;
              if get_fd M iter m \<ge> 0 then no_fd_loop M (i + 1) m
              else do {
                (r, m) \<leftarrow> check_source M iter m;
                m \<leftarrow> (if r = RET_OK then dispatch_iter M iter m else Some m);
                no_fd_loop M (i + 1) m
              }
            })
      else Some m)"

definition event_source_manager_default_dispatch_no_fd ::
  "'a methods \<Rightarrow> 'a event_source_manager_scheme \<Rightarrow> (ret_t \<times> 'a event_source_manager_scheme) option" where
  "event_source_manager_default_dispatch_no_fd M m = do { m \<leftarrow> no_fd_loop M 0 m; Some (RET_OK, m) }"

definition event_source_manager_default_dispatch ::
  "'a methods \<Rightarrow> 'a event_source_manager_scheme \<Rightarrow> (ret_t \<times> 'a event_source_manager_scheme) option" where
  "event_source_manager_default_dispatch M m = do {
     (sleep_time, m) \<leftarrow> event_source_manager_get_wakeup_time M m;
     (ret, m) \<leftarrow> event_source_manager_default_dispatch_fds M sleep_time m;
     (_, m) \<leftarrow> event_source_manager_default_dispatch_no_fd M m;
     Some (ret, m)
   }"

definition event_source_manager_dispatch ::
  "'a methods \<Rightarrow> 'a event_source_manager_scheme \<Rightarrow> (ret_t \<times> 'a event_source_manager_scheme) option" where
  "event_source_manager_dispatch M m = do {
     (_, m) \<leftarrow> event_source_manager_prepare (grant M) m;
     (ret, m) \<leftarrow> event_source_manager_default_dispatch M m;
     (_, m) \<leftarrow> on_dispatching darray_clear m;
     Some (ret, m)
   }"

definition event_source_manager_deinit :: "'a event_source_manager_scheme \<Rightarrow> (ret_t \<times> 'a event_source_manager_scheme) option" where
  "event_source_manager_deinit m = do {
     (_, m) \<leftarrow> on_sources darray_deinit m;
     (_, m) \<leftarrow> on_dispatching darray_deinit m;
     Some (RET_OK, m)
   }"

section \<open>References\<close>

text \<open>Every source that an array holds is alive, with a reference for each place.\<close>

definition refs_ok :: "(ptr \<Rightarrow> event_source option) \<Rightarrow> (ptr \<Rightarrow> nat) \<Rightarrow> bool" where
  "refs_ok objs c \<longleftrightarrow> (\<forall>p. 0 < c p \<longrightarrow> p \<noteq> NULL \<and> (\<exists>s. objs p = Some s \<and> c p \<le> ob_ref s))"

definition held :: "'a event_source_manager_scheme \<Rightarrow> ptr \<Rightarrow> nat" where
  "held m p = count_list (darray_abs (esm_sources m)) p + count_list (darray_abs (esm_dispatching m)) p"

definition esm_ok :: "'a event_source_manager_scheme \<Rightarrow> bool" where
  "esm_ok m \<longleftrightarrow> darray_inv (esm_sources m) \<and> darray_inv (esm_dispatching m) \<and>
     da_size (esm_sources m) < 2 ^ 30 \<and> da_size (esm_dispatching m) < 2 ^ 30 \<and> refs_ok (esm_objs m) (held m)"

lemma refs_okD: "refs_ok objs c \<Longrightarrow> 0 < c p \<Longrightarrow> p \<noteq> NULL \<and> (\<exists>s. objs p = Some s \<and> c p \<le> ob_ref s)"
  by (simp add: refs_ok_def)

lemma refs_ok_mono: "refs_ok objs c \<Longrightarrow> (\<And>p. c' p \<le> c p) \<Longrightarrow> refs_ok objs c'"
  unfolding refs_ok_def by (metis gr_zeroI le_zero_eq order_trans)

lemma refs_ok_upd:
  assumes "refs_ok objs c" and "0 < c' p \<Longrightarrow> p \<noteq> NULL \<and> c' p \<le> ob_ref s" and "\<And>q. q \<noteq> p \<Longrightarrow> c' q \<le> c q"
  shows "refs_ok (objs(p \<mapsto> s)) c'"
  unfolding refs_ok_def
proof (intro allI impI)
  fix q assume q: "0 < c' q"
  show "q \<noteq> NULL \<and> (\<exists>s'. (objs(p \<mapsto> s)) q = Some s' \<and> c' q \<le> ob_ref s')"
  proof (cases "q = p")
    case True
    then show ?thesis using assms(2) q by simp
  next
    case False
    then have "c' q \<le> c q" "0 < c q" using assms(3) q by (blast, meson order_less_le_trans)
    then show ?thesis using refs_okD[OF assms(1), of q] False by auto
  qed
qed

lemma source_unref_ok:
  assumes "refs_ok (esm_objs m) (\<lambda>q. c q + (if q = p then 1 else 0))"
  shows "\<exists>objs. source_unref p m = Some (m\<lparr>esm_objs := objs\<rparr>) \<and> refs_ok objs c"
proof -
  obtain s where s: "p \<noteq> NULL" "esm_objs m p = Some s" "c p + 1 \<le> ob_ref s" using refs_okD[OF assms, of p] by auto
  show ?thesis
  proof (cases "ob_ref s = 1")
    case True
    then have "c p = 0" using s(3) by simp
    moreover have "refs_ok (esm_objs m) c" by (rule refs_ok_mono[OF assms]) simp
    ultimately have "refs_ok ((esm_objs m)(p := None)) c" unfolding refs_ok_def by (metis fun_upd_other less_numeral_extra(3))
    then show ?thesis using s True by (auto simp: source_unref_def set_source_def)
  next
    case False
    have "refs_ok ((esm_objs m)(p \<mapsto> s\<lparr>ob_ref := ob_ref s - 1\<rparr>)) c" by (rule refs_ok_upd[OF assms]) (use s in auto)
    then show ?thesis using s False by (auto simp: source_unref_def set_source_def)
  qed
qed

lemma source_unref_all_ok:
  "refs_ok (esm_objs m) (\<lambda>q. c q + count_list ps q) \<Longrightarrow>
   \<exists>objs. source_unref_all ps m = Some (m\<lparr>esm_objs := objs\<rparr>) \<and> refs_ok objs c"
proof (induction ps arbitrary: m)
  case Nil
  then show ?case by (auto intro: exI[of _ "esm_objs m"])
next
  case (Cons p ps)
  have "refs_ok (esm_objs m) (\<lambda>q. (c q + count_list ps q) + (if q = p then 1 else 0))"
    by (rule refs_ok_mono[OF Cons.prems]) simp
  then obtain objs where o: "source_unref p m = Some (m\<lparr>esm_objs := objs\<rparr>)" "refs_ok objs (\<lambda>q. c q + count_list ps q)"
    using source_unref_ok[of m "\<lambda>q. c q + count_list ps q" p] by auto
  then obtain objs' where "source_unref_all ps (m\<lparr>esm_objs := objs\<rparr>) = Some (m\<lparr>esm_objs := objs\<rparr>\<lparr>esm_objs := objs'\<rparr>)" "refs_ok objs' c"
    using Cons.IH[of "m\<lparr>esm_objs := objs\<rparr>"] by auto
  then show ?case using o by auto
qed

lemma on_sources_ok:
  assumes "f (esm_sources m) = (r, d)" and "da_destroyed d = da_destroyed (esm_sources m) @ gone"
    and "darray_inv d" "da_size d < 2 ^ 30" "darray_inv (esm_dispatching m)" "da_size (esm_dispatching m) < 2 ^ 30"
    and "refs_ok (esm_objs m) (\<lambda>p. count_list (darray_abs d) p + count_list (darray_abs (esm_dispatching m)) p + count_list gone p)"
  shows "\<exists>objs. on_sources f m = Some (r, m\<lparr>esm_sources := d, esm_objs := objs\<rparr>) \<and> esm_ok (m\<lparr>esm_sources := d, esm_objs := objs\<rparr>)"
proof -
  obtain objs where "source_unref_all gone (m\<lparr>esm_sources := d\<rparr>) = Some (m\<lparr>esm_sources := d\<rparr>\<lparr>esm_objs := objs\<rparr>)"
    "refs_ok objs (\<lambda>p. count_list (darray_abs d) p + count_list (darray_abs (esm_dispatching m)) p)"
    using source_unref_all_ok[of "m\<lparr>esm_sources := d\<rparr>" "\<lambda>p. count_list (darray_abs d) p + count_list (darray_abs (esm_dispatching m)) p" gone] assms(7)
    by auto
  then show ?thesis using assms by (auto simp: on_sources_def esm_ok_def held_def[abs_def])
qed

lemma on_dispatching_ok:
  assumes "f (esm_dispatching m) = (r, d)" and "da_destroyed d = da_destroyed (esm_dispatching m) @ gone"
    and "darray_inv d" "da_size d < 2 ^ 30" "darray_inv (esm_sources m)" "da_size (esm_sources m) < 2 ^ 30"
    and "refs_ok (esm_objs m) (\<lambda>p. count_list (darray_abs (esm_sources m)) p + count_list (darray_abs d) p + count_list gone p)"
  shows "\<exists>objs. on_dispatching f m = Some (r, m\<lparr>esm_dispatching := d, esm_objs := objs\<rparr>) \<and> esm_ok (m\<lparr>esm_dispatching := d, esm_objs := objs\<rparr>)"
proof -
  obtain objs where "source_unref_all gone (m\<lparr>esm_dispatching := d\<rparr>) = Some (m\<lparr>esm_dispatching := d\<rparr>\<lparr>esm_objs := objs\<rparr>)"
    "refs_ok objs (\<lambda>p. count_list (darray_abs (esm_sources m)) p + count_list (darray_abs d) p)"
    using source_unref_all_ok[of "m\<lparr>esm_dispatching := d\<rparr>" "\<lambda>p. count_list (darray_abs (esm_sources m)) p + count_list (darray_abs d) p" gone] assms(7)
    by auto
  then show ?thesis using assms by (auto simp: on_dispatching_def esm_ok_def held_def[abs_def])
qed

lemma source_ref_ok:
  assumes "esm_ok m" and "p \<noteq> NULL" "esm_objs m p = Some s"
  shows "refs_ok ((esm_objs m)(p \<mapsto> s\<lparr>ob_ref := ob_ref s + 1\<rparr>)) (\<lambda>q. held m q + (if q = p then 1 else 0))"
proof -
  have r: "refs_ok (esm_objs m) (held m)" using assms(1) by (simp add: esm_ok_def)
  have "held m p \<le> ob_ref s" using refs_okD[OF r, of p] assms(3) by (cases "held m p") auto
  then show ?thesis by (intro refs_ok_upd[OF r]) (use assms in auto)
qed

lemma count_pos: "x \<in> set xs \<longleftrightarrow> 0 < count_list xs x"
  by (simp add: count_list_0_iff flip: neq0_conv)

lemma esm_ok_source: "esm_ok m \<Longrightarrow> p \<in> set (darray_abs (esm_sources m)) \<or> p \<in> set (darray_abs (esm_dispatching m)) \<Longrightarrow>
  p \<noteq> NULL \<and> (\<exists>s. esm_objs m p = Some s)"
  using refs_okD[of "esm_objs m" "held m" p] by (auto simp: esm_ok_def held_def count_pos)

section \<open>What the operations keep\<close>

text \<open>
  The manager stays consistent and the snapshot of a running dispatch is left alone: true of every
  operation except a nested dispatch.
\<close>

definition esm_keeps :: "'a event_source_manager_scheme \<Rightarrow> 'a event_source_manager_scheme \<Rightarrow> bool" where
  "esm_keeps m m' \<longleftrightarrow> esm_ok m' \<and> esm_dispatching m' = esm_dispatching m"

lemma esm_keeps_trans: "esm_keeps m m' \<Longrightarrow> esm_keeps m' m'' \<Longrightarrow> esm_keeps m m''"
  by (simp add: esm_keeps_def)

lemma esm_okD:
  assumes "esm_ok m"
  shows "darray_inv (esm_sources m)" "darray_inv (esm_dispatching m)" "da_size (esm_sources m) < 2 ^ 30"
    "da_size (esm_dispatching m) < 2 ^ 30" "refs_ok (esm_objs m) (held m)"
  using assms by (auto simp: esm_ok_def)

lemma set_source_ok:
  assumes "esm_ok m" "esm_objs m p = Some s" "ob_ref s' = ob_ref s"
  shows "esm_ok (set_source p (Some s') m)"
proof -
  have "refs_ok ((esm_objs m)(p \<mapsto> s')) (held m)"
    by (rule refs_ok_upd[OF esm_okD(5)[OF assms(1)]]) (use refs_okD[OF esm_okD(5)[OF assms(1)], of p] assms in auto)
  then show ?thesis using assms(1) by (simp add: esm_ok_def set_source_def held_def[abs_def])
qed

lemma size_abs: "darray_inv d \<Longrightarrow> length (darray_abs d) = da_size d"
  by (auto simp: darray_abs_def darray_inv_def)

lemma event_source_manager_add_ok:
  assumes ok: "esm_ok m" and p: "p \<noteq> NULL" "esm_objs m p = Some s" and sz: "da_size (esm_sources m) < 2 ^ 30 - 1"
  shows "\<exists>r m'. event_source_manager_add alloc p m = Some (r, m') \<and> esm_keeps m m'"
proof -
  let ?s = "s\<lparr>ob_ref := ob_ref s + 1, es_manager := esm_self m\<rparr>"
  let ?m = "set_source p (Some ?s) m"
  obtain r d where pu: "darray_push alloc (esm_sources m) p = (r, d)" by fastforce
  have c: "darray_inv d" "da_destroyed d = da_destroyed (esm_sources m)"
    "darray_abs d = darray_abs (esm_sources m) @ [p] \<or> darray_abs d = darray_abs (esm_sources m)"
    using darray_push_cases[OF esm_okD(1,3)[OF ok] pu] by auto
  have "da_size d < 2 ^ 30" using c(3) sz size_abs[OF c(1)] size_abs[OF esm_okD(1)[OF ok]] by auto
  moreover have "refs_ok (esm_objs ?m) (\<lambda>q. count_list (darray_abs d) q + count_list (darray_abs (esm_dispatching m)) q + count_list [] q)"
  proof -
    have "held m p \<le> ob_ref s" using refs_okD[OF esm_okD(5)[OF ok], of p] p by (cases "held m p") auto
    then have "refs_ok ((esm_objs m)(p \<mapsto> ?s)) (\<lambda>q. held m q + (if q = p then 1 else 0))"
      by (intro refs_ok_upd[OF esm_okD(5)[OF ok]]) (use p in auto)
    then have "refs_ok (esm_objs ?m) (\<lambda>q. held m q + (if q = p then 1 else 0))" by (simp add: set_source_def)
    then show ?thesis by (rule refs_ok_mono) (use c(3) in \<open>auto simp: held_def\<close>)
  qed
  ultimately obtain objs where o: "on_sources (\<lambda>d. darray_push alloc d p) ?m = Some (r, ?m\<lparr>esm_sources := d, esm_objs := objs\<rparr>)"
    "esm_ok (?m\<lparr>esm_sources := d, esm_objs := objs\<rparr>)"
    using on_sources_ok[of "\<lambda>d. darray_push alloc d p" ?m r d "[]"] pu c(1,2) esm_okD[OF ok] by (auto simp: set_source_def)
  have "event_source_manager_add alloc p m = Some (r, ?m\<lparr>esm_sources := d, esm_objs := objs\<rparr>)"
    using o(1) p by (simp add: event_source_manager_add_def source_ref_def set_source_def)
  then show ?thesis using o(2) by (auto simp: esm_keeps_def set_source_def)
qed

lemma count_take_drop: "i < length xs \<Longrightarrow> count_list (take i xs @ drop (Suc i) xs) p + count_list [xs ! i] p = count_list xs p"
  by (subst (5) id_take_nth_drop[of i]) (auto simp del: id_take_nth_drop)

lemma darray_remove_ok:
  assumes "darray_inv d" and "darray_remove d p = (r, d')"
  shows "darray_inv d' \<and> da_size d' \<le> da_size d \<and>
    (\<exists>gone. da_destroyed d' = da_destroyed d @ gone \<and> (\<forall>q. count_list (darray_abs d') q + count_list gone q = count_list (darray_abs d) q))"
proof -
  consider "darray_find_index_ex d None p = - 1" | j where "j < da_size d" "darray_find_index_ex d None p = int j"
    using darray_find_index_ex_spec[OF assms(1) refl, of None p] by auto
  then show ?thesis
  proof cases
    case 1
    then have "d' = d" using assms(2) by (simp add: darray_remove_def darray_remove_ex_def Let_def)
    then show ?thesis using assms(1) by (auto intro: exI[of _ "[]"])
  next
    case 2
    then have e: "(r, d') = darray_remove_index d j" using assms(2) by (simp add: darray_remove_def darray_remove_ex_def Let_def)
    note sp = darray_remove_index_spec[OF assms(1) 2(1), folded e, simplified]
    have "length (darray_abs d') \<le> length (darray_abs d)" using sp(3) by simp
    then have "da_size d' \<le> da_size d" using size_abs assms(1) sp(2) by simp
    then show ?thesis using sp 2(1) count_take_drop[of j "darray_abs d"] size_abs[OF assms(1)] by auto
  qed
qed

lemma event_source_manager_remove_ok:
  assumes ok: "esm_ok m" and p: "esm_objs m p = Some s"
  shows "\<exists>r m'. event_source_manager_remove p m = Some (r, m') \<and> esm_keeps m m'"
proof -
  let ?m = "set_source p (Some (s\<lparr>es_manager := NULL\<rparr>)) m"
  have ok1: "esm_ok ?m" by (rule set_source_ok[OF ok p]) simp
  obtain r d where rm: "darray_remove (esm_sources m) p = (r, d)" by fastforce
  obtain gone where g: "darray_inv d" "da_size d \<le> da_size (esm_sources m)" "da_destroyed d = da_destroyed (esm_sources m) @ gone"
    "\<And>q. count_list (darray_abs d) q + count_list gone q = count_list (darray_abs (esm_sources m)) q"
    using darray_remove_ok[OF esm_okD(1)[OF ok] rm] by blast
  have "refs_ok (esm_objs ?m) (\<lambda>q. count_list (darray_abs d) q + count_list (darray_abs (esm_dispatching m)) q + count_list gone q)"
    by (rule refs_ok_mono[OF esm_okD(5)[OF ok1]]) (use g(4) in \<open>auto simp: held_def set_source_def simp flip: g(4)\<close>)
  then obtain objs where "on_sources (\<lambda>d. darray_remove d p) ?m = Some (r, ?m\<lparr>esm_sources := d, esm_objs := objs\<rparr>)"
    "esm_ok (?m\<lparr>esm_sources := d, esm_objs := objs\<rparr>)"
    using on_sources_ok[of "\<lambda>d. darray_remove d p" ?m r d gone] rm g esm_okD[OF ok] by (auto simp: set_source_def)
  then show ?thesis using p by (auto simp: event_source_manager_remove_def esm_keeps_def set_source_def)
qed

lemma count_filter: "count_list (filter P xs) q + count_list (filter (\<lambda>x. \<not> P x) xs) q = count_list xs q"
  by (induction xs) auto

lemma event_source_manager_remove_by_tag_ok:
  assumes ok: "esm_ok m" and mem: "\<And>n. alloc n"
  shows "\<exists>r m'. event_source_manager_remove_by_tag alloc tag m = Some (r, m') \<and> esm_keeps m m'"
proof -
  let ?c = "event_source_compare_by_tag m"
  let ?gone = "filter (\<lambda>p. ?c p tag = 0 \<and> p \<noteq> NULL) (darray_abs (esm_sources m))"
  obtain r d where rm: "darray_remove_all alloc (esm_sources m) (Some ?c) tag = (r, d)" by fastforce
  have sp: "darray_inv d" "darray_abs d = filter (\<lambda>p. ?c p tag \<noteq> 0) (darray_abs (esm_sources m))" "da_destroyed d = da_destroyed (esm_sources m) @ ?gone"
    using darray_remove_all_spec[OF esm_okD(1)[OF ok], of ?c "Some ?c" ?gone tag alloc] mem rm by auto
  have "length (darray_abs d) \<le> length (darray_abs (esm_sources m))" using sp(2) by simp
  then have sz: "da_size d < 2 ^ 30" using size_abs[OF sp(1)] size_abs[OF esm_okD(1)[OF ok]] esm_okD(3)[OF ok] by simp
  have "0 \<notin> set (darray_abs (esm_sources m))" using esm_ok_source[OF ok] by blast
  then have "?gone = filter (\<lambda>p. ?c p tag = 0) (darray_abs (esm_sources m))" by (intro filter_cong) (auto intro: gr0I)
  then have "count_list (darray_abs d) q + count_list ?gone q = count_list (darray_abs (esm_sources m)) q" for q
    using count_filter[of "\<lambda>p. ?c p tag \<noteq> 0" "darray_abs (esm_sources m)" q] sp(2) by simp
  then have "refs_ok (esm_objs m) (\<lambda>q. count_list (darray_abs d) q + count_list (darray_abs (esm_dispatching m)) q + count_list ?gone q)"
    by (intro refs_ok_mono[OF esm_okD(5)[OF ok]]) (simp add: held_def algebra_simps)
  then show ?thesis
    using on_sources_ok[of "\<lambda>d. darray_remove_all alloc d (Some ?c) tag" m r d ?gone, OF rm sp(3,1) sz esm_okD(2,4)[OF ok]]
    by (auto simp: event_source_manager_remove_by_tag_def esm_keeps_def)
qed

section \<open>A dispatch\<close>

text \<open>
  Methods that do with the manager what its operations do, but do not dispatch: they keep it consistent
  and leave the snapshot alone.
\<close>

definition steady :: "'a methods \<Rightarrow> bool" where
  "steady M \<longleftrightarrow> (\<forall>m p. esm_ok m \<and> esm_objs m p \<noteq> None \<longrightarrow>
     (\<exists>r m'. check_source M p m = Some (r, m') \<and> esm_keeps m m') \<and> (\<exists>r m'. dispatch_source M p m = Some (r, m') \<and> esm_keeps m m') \<and>
     (\<exists>t m'. wakeup_time M p m = Some (t, m') \<and> esm_keeps m m' \<and> esm_sources m' = esm_sources m)) \<and>
     (\<forall>fds t m. esm_ok m \<longrightarrow> esm_keeps m (snd (select_fds M fds t m)))"

lemma steadyD:
  assumes "steady M" "esm_ok m" "esm_objs m p \<noteq> None"
  shows "\<exists>r m'. check_source M p m = Some (r, m') \<and> esm_keeps m m'" "\<exists>r m'. dispatch_source M p m = Some (r, m') \<and> esm_keeps m m'"
    "\<exists>t m'. wakeup_time M p m = Some (t, m') \<and> esm_keeps m m' \<and> esm_sources m' = esm_sources m"
  using assms unfolding steady_def by blast+

lemma steady_select: "steady M \<Longrightarrow> esm_ok m \<Longrightarrow> esm_keeps m (snd (select_fds M fds t m))"
  by (simp add: steady_def)

lemma prepare_loop_ok:
  "esm_ok m \<Longrightarrow> (\<forall>p \<in> set ps. p \<in> set (darray_abs (esm_sources m))) \<Longrightarrow> da_size (esm_dispatching m) + length ps < 2 ^ 30 \<Longrightarrow>
   \<exists>m'. prepare_loop alloc ps m = Some m' \<and> esm_ok m' \<and> esm_sources m' = esm_sources m"
proof (induction ps arbitrary: m)
  case (Cons p ps)
  obtain s where s: "p \<noteq> NULL" "esm_objs m p = Some s" using esm_ok_source[OF Cons.prems(1), of p] Cons.prems(2) by auto
  let ?m = "set_source p (Some (s\<lparr>ob_ref := ob_ref s + 1\<rparr>)) m"
  obtain r d where pu: "darray_push alloc (esm_dispatching m) p = (r, d)" by fastforce
  have c: "darray_inv d" "da_destroyed d = da_destroyed (esm_dispatching m)"
    "darray_abs d = darray_abs (esm_dispatching m) @ [p] \<or> darray_abs d = darray_abs (esm_dispatching m)"
    using darray_push_cases[OF esm_okD(2,4)[OF Cons.prems(1)] pu] by auto
  have sz: "da_size d \<le> da_size (esm_dispatching m) + 1" using c(3) size_abs[OF c(1)] size_abs[OF esm_okD(2)[OF Cons.prems(1)]] by auto
  have "esm_objs ?m = (esm_objs m)(p \<mapsto> s\<lparr>ob_ref := ob_ref s + 1\<rparr>)" by (simp add: set_source_def)
  then have "refs_ok (esm_objs ?m) (\<lambda>q. count_list (darray_abs (esm_sources m)) q + count_list (darray_abs d) q + count_list [] q)"
    using c(3) by (intro refs_ok_mono[OF source_ref_ok[OF Cons.prems(1) s, folded \<open>esm_objs ?m = _\<close>]]) (auto simp: held_def)
  then obtain objs where o: "on_dispatching (\<lambda>d. darray_push alloc d p) ?m = Some (r, ?m\<lparr>esm_dispatching := d, esm_objs := objs\<rparr>)"
    "esm_ok (?m\<lparr>esm_dispatching := d, esm_objs := objs\<rparr>)"
    using on_dispatching_ok[of "\<lambda>d. darray_push alloc d p" ?m r d "[]"] pu c(1,2) sz Cons.prems(3) esm_okD[OF Cons.prems(1)]
    by (auto simp: set_source_def)
  let ?m1 = "?m\<lparr>esm_dispatching := d, esm_objs := objs\<rparr>"
  obtain m' where "prepare_loop alloc ps ?m1 = Some m'" "esm_ok m'" "esm_sources m' = esm_sources ?m1"
    using Cons.IH[OF o(2)] Cons.prems(2,3) sz by (auto simp: set_source_def)
  then show ?case using o(1) s by (auto simp: source_ref_def set_source_def)
qed simp

lemma wakeup_loop_ok:
  "steady M \<Longrightarrow> esm_ok m \<Longrightarrow> (\<forall>p \<in> set ps. p \<in> set (darray_abs (esm_sources m))) \<Longrightarrow>
   \<exists>t' m'. wakeup_loop M ps t m = Some (t', m') \<and> esm_keeps m m' \<and> esm_sources m' = esm_sources m"
proof (induction ps arbitrary: m t)
  case (Cons p ps)
  have "esm_objs m p \<noteq> None" using esm_ok_source[OF Cons.prems(2), of p] Cons.prems(3) by auto
  then obtain t1 m1 where w: "wakeup_time M p m = Some (t1, m1)" "esm_keeps m m1" "esm_sources m1 = esm_sources m"
    using steadyD(3)[OF Cons.prems(1,2)] by blast
  have "esm_ok m1" using w(2) by (simp add: esm_keeps_def)
  from Cons.IH[OF Cons.prems(1) this] w(3) Cons.prems(3)
  obtain t' m' where "wakeup_loop M ps (if u32 t1 < t then u32 t1 else t) m1 = Some (t', m')" "esm_keeps m1 m'" "esm_sources m' = esm_sources m1"
    by fastforce
  then show ?case using w esm_keeps_trans \<open>esm_objs m p \<noteq> None\<close> by (auto, blast+)
qed (simp add: esm_keeps_def)

lemma get_wakeup_ok:
  assumes "steady M" "esm_ok m"
  shows "\<exists>t m'. event_source_manager_get_wakeup_time M m = Some (t, m') \<and> esm_keeps m m'"
  using wakeup_loop_ok[OF assms, of "darray_abs (esm_sources m)" 65535] assms(2)
  by (auto simp: event_source_manager_get_wakeup_time_def esm_keeps_def)

lemma dispatch_iter_ok:
  assumes "steady M" "esm_ok m" "p \<in> set (darray_abs (esm_dispatching m))"
  shows "\<exists>m'. dispatch_iter M p m = Some m' \<and> esm_keeps m m'"
proof -
  have "esm_objs m p \<noteq> None" using esm_ok_source[OF assms(2)] assms(3) by auto
  then obtain r m1 where d: "dispatch_source M p m = Some (r, m1)" "esm_keeps m m1" using steadyD(2)[OF assms(1,2)] by blast
  have m1: "esm_ok m1" "p \<in> set (darray_abs (esm_dispatching m1))" using d(2) assms(3) by (auto simp: esm_keeps_def)
  obtain s where "esm_objs m1 p = Some s" using esm_ok_source[OF m1(1)] m1(2) by blast
  then obtain r' m' where "event_source_manager_remove p m1 = Some (r', m')" "esm_keeps m1 m'"
    using event_source_manager_remove_ok[OF m1(1)] by blast
  then show ?thesis using d esm_keeps_trans by (auto simp: dispatch_iter_def)
qed

lemma fds_loop_ok:
  "steady M \<Longrightarrow> esm_ok m \<Longrightarrow> \<exists>m'. fds_loop M ready i m = Some m' \<and> esm_keeps m m'"
proof (induction "da_size (esm_dispatching m) - i" arbitrary: i m)
  case 0
  then show ?case by (simp add: fds_loop.simps[of M ready i m] esm_keeps_def)
next
  case (Suc k)
  then have i: "i < da_size (esm_dispatching m)" by simp
  let ?p = "darray_get (esm_dispatching m) i"
  have p: "?p \<in> set (darray_abs (esm_dispatching m))"
    using i esm_okD(2)[OF Suc.prems(2)] by (auto simp: darray_get_def darray_abs_def darray_inv_def in_set_conv_nth)
  then have live: "esm_objs m ?p \<noteq> None" using esm_ok_source[OF Suc.prems(2)] by auto
  have next_ok: "\<exists>m'. fds_loop M ready (i + 1) m1 = Some m' \<and> esm_keeps m m'" if "esm_keeps m m1" for m1
  proof -
    have "k = da_size (esm_dispatching m1) - (i + 1)" "esm_ok m1" using Suc.hyps(2) that by (auto simp: esm_keeps_def)
    from Suc.hyps(1)[OF this(1) Suc.prems(1) this(2)] show ?thesis using esm_keeps_trans[OF that] by blast
  qed
  show ?case
  proof (cases "event_source_manager_exist m ?p \<and> get_fd M ?p m \<ge> 0 \<and> get_fd M ?p m \<in> ready")
    case True
    then obtain m1 where "dispatch_iter M ?p m = Some m1" "esm_keeps m m1" using dispatch_iter_ok[OF Suc.prems p] by blast
    then show ?thesis using i True next_ok[of m1] live by (auto simp: fds_loop.simps[of M ready i m] Let_def)
  next
    case False
    have "esm_keeps m m" using Suc.prems(2) by (simp add: esm_keeps_def)
    then show ?thesis using i False next_ok[of m] live by (auto simp: fds_loop.simps[of M ready i m] Let_def)
  qed
qed

lemma no_fd_loop_ok:
  "steady M \<Longrightarrow> esm_ok m \<Longrightarrow> \<exists>m'. no_fd_loop M i m = Some m' \<and> esm_keeps m m'"
proof (induction "da_size (esm_dispatching m) - i" arbitrary: i m)
  case 0
  then show ?case by (simp add: no_fd_loop.simps[of M i m] esm_keeps_def)
next
  case (Suc k)
  then have i: "i < da_size (esm_dispatching m)" by simp
  let ?p = "darray_get (esm_dispatching m) i"
  have p: "?p \<in> set (darray_abs (esm_dispatching m))"
    using i esm_okD(2)[OF Suc.prems(2)] by (auto simp: darray_get_def darray_abs_def darray_inv_def in_set_conv_nth)
  then have live: "esm_objs m ?p \<noteq> None" using esm_ok_source[OF Suc.prems(2)] by auto
  have next_ok: "\<exists>m'. no_fd_loop M (i + 1) m1 = Some m' \<and> esm_keeps m m'" if "esm_keeps m m1" for m1
  proof -
    have "k = da_size (esm_dispatching m1) - (i + 1)" "esm_ok m1" using Suc.hyps(2) that by (auto simp: esm_keeps_def)
    from Suc.hyps(1)[OF this(1) Suc.prems(1) this(2)] show ?thesis using esm_keeps_trans[OF that] by blast
  qed
  have refl: "esm_keeps m m" using Suc.prems(2) by (simp add: esm_keeps_def)
  show ?case
  proof (cases "event_source_manager_exist m ?p \<and> get_fd M ?p m < 0")
    case True
    obtain r m1 where c: "check_source M ?p m = Some (r, m1)" "esm_keeps m m1" using steadyD(1)[OF Suc.prems live] by blast
    then have m1: "esm_ok m1" "?p \<in> set (darray_abs (esm_dispatching m1))" using p by (auto simp: esm_keeps_def)
    obtain m2 where d: "(if r = RET_OK then dispatch_iter M ?p m1 else Some m1) = Some m2" "esm_keeps m1 m2"
      using dispatch_iter_ok[OF Suc.prems(1) m1] m1(1) by (cases "r = RET_OK") (auto simp: esm_keeps_def)
    then show ?thesis using i True next_ok[OF esm_keeps_trans[OF c(2) d(2)]] live c(1) by (auto simp: no_fd_loop.simps[of M i m] Let_def)
  next
    case False
    then show ?thesis using i next_ok[OF refl] live by (auto simp: no_fd_loop.simps[of M i m] Let_def)
  qed
qed

lemma dispatch_fds_ok:
  assumes "steady M" "esm_ok m"
  shows "\<exists>r m'. event_source_manager_default_dispatch_fds M t m = Some (r, m') \<and> esm_keeps m m'"
proof -
  let ?fds = "set (filter (\<lambda>fd. fd \<ge> 0) (map (\<lambda>p. get_fd M p m) (darray_abs (esm_dispatching m))))"
  have live: "\<not> list_ex (\<lambda>p. esm_objs m p = None) (darray_abs (esm_dispatching m))"
    using esm_ok_source[OF assms(2)] by (auto simp: list_ex_iff)
  obtain ret ready m1 where s: "select_fds M ?fds t m = ((ret, ready), m1)" by (metis prod.collapse)
  then have k: "esm_keeps m m1" "esm_ok m1" using steady_select[OF assms, of ?fds t] by (auto simp: esm_keeps_def)
  obtain m2 where "fds_loop M ready 0 m1 = Some m2" "esm_keeps m1 m2" using fds_loop_ok[OF assms(1) k(2)] by blast
  then show ?thesis using live s k(1) esm_keeps_trans[OF k(1)] assms(2)
    unfolding event_source_manager_default_dispatch_fds_def Let_def by (auto simp: esm_keeps_def)
qed

lemma event_source_manager_dispatch_ok:
  assumes "steady M" "esm_ok m" and empty: "darray_abs (esm_dispatching m) = []"
  shows "\<exists>r m'. event_source_manager_dispatch M m = Some (r, m') \<and> esm_ok m' \<and> darray_abs (esm_dispatching m') = []"
proof -
  have "da_size (esm_dispatching m) = 0" using size_abs[OF esm_okD(2)[OF assms(2)]] empty by simp
  then obtain m1 where 1: "event_source_manager_prepare (grant M) m = Some (RET_OK, m1)" "esm_ok m1"
    using prepare_loop_ok[OF assms(2), of "darray_abs (esm_sources m)" "grant M"] size_abs[OF esm_okD(1)[OF assms(2)]] esm_okD(3)[OF assms(2)]
    by (auto simp: event_source_manager_prepare_def)
  obtain t m2 where 2: "event_source_manager_get_wakeup_time M m1 = Some (t, m2)" "esm_ok m2"
    using get_wakeup_ok[OF assms(1) 1(2)] by (auto simp: esm_keeps_def)
  obtain r m3 where 3: "event_source_manager_default_dispatch_fds M t m2 = Some (r, m3)" "esm_ok m3"
    using dispatch_fds_ok[OF assms(1) 2(2), of t] by (auto simp: esm_keeps_def)
  obtain m4 where 4: "no_fd_loop M 0 m3 = Some m4" "esm_ok m4" using no_fd_loop_ok[OF assms(1) 3(2)] by (auto simp: esm_keeps_def)
  let ?d = "snd (darray_clear (esm_dispatching m4))"
  note cl = darray_clear_spec[OF esm_okD(2)[OF 4(2)]]
  have "da_size ?d = 0" using size_abs[OF cl(2)] cl(3) by simp
  moreover have "refs_ok (esm_objs m4) (\<lambda>p. count_list (darray_abs (esm_sources m4)) p + count_list (darray_abs ?d) p + count_list (rev (darray_abs (esm_dispatching m4))) p)"
    by (rule refs_ok_mono[OF esm_okD(5)[OF 4(2)]]) (simp add: held_def cl(3))
  ultimately obtain objs where "on_dispatching darray_clear m4 = Some (RET_OK, m4\<lparr>esm_dispatching := ?d, esm_objs := objs\<rparr>)"
    "esm_ok (m4\<lparr>esm_dispatching := ?d, esm_objs := objs\<rparr>)"
    using on_dispatching_ok[of darray_clear m4 RET_OK ?d "rev (darray_abs (esm_dispatching m4))"] cl(1,2,4) esm_okD[OF 4(2)]
    by (metis prod.collapse zero_less_numeral zero_less_power)
  then show ?thesis using 1 2(1) 3(1) 4(1) cl(3)
    by (simp add: event_source_manager_dispatch_def event_source_manager_default_dispatch_def event_source_manager_default_dispatch_no_fd_def)
qed

section \<open>Sources that stay\<close>

text \<open>
  Sources without a descriptor that are always ready, whose methods leave the manager alone and do not ask
  to be removed: a dispatch runs them once each, in order.
\<close>

definition same_manager :: "'a event_source_manager_scheme \<Rightarrow> 'a event_source_manager_scheme \<Rightarrow> bool" where
  "same_manager m m' \<longleftrightarrow> esm_sources m' = esm_sources m \<and> esm_dispatching m' = esm_dispatching m \<and> esm_objs m' = esm_objs m"

lemma same_manager_refl [simp]: "same_manager m m"
  by (simp add: same_manager_def)

lemma same_manager_trans: "same_manager m m' \<Longrightarrow> same_manager m' m'' \<Longrightarrow> same_manager m m''"
  by (simp add: same_manager_def)

primrec run_sources :: "'a methods \<Rightarrow> ptr list \<Rightarrow> 'a event_source_manager_scheme \<Rightarrow> 'a event_source_manager_scheme option" where
  "run_sources M [] m = Some m"
| "run_sources M (p # ps) m = do { (_, m) \<leftarrow> dispatch_source M p m; run_sources M ps m }"

definition calm :: "'a methods \<Rightarrow> ptr set \<Rightarrow> bool" where
  "calm M S \<longleftrightarrow> (\<forall>p \<in> S. \<forall>m. get_fd M p m < 0 \<and> check_source M p m = Some (RET_OK, m) \<and>
     (\<forall>r m'. dispatch_source M p m = Some (r, m') \<longrightarrow> r \<noteq> RET_REMOVE \<and> same_manager m m'))"

lemma calmD:
  assumes "calm M S" "p \<in> S"
  shows "get_fd M p m < 0" "check_source M p m = Some (RET_OK, m)"
    "dispatch_source M p m = Some (r, m') \<Longrightarrow> r \<noteq> RET_REMOVE \<and> same_manager m m'"
  using assms by (auto simp: calm_def)

lemma exists_in:
  assumes "esm_ok m" "da_compare (esm_sources m) = Some pointer_compare" "p \<in> set (darray_abs (esm_sources m))"
  shows "event_source_manager_exist m p"
proof -
  have c: "pointer_compare p p = 0" by (simp add: pointer_compare_def)
  obtain j where j: "j < da_size (esm_sources m)" "darray_find_index_ex (esm_sources m) None p = int j"
    using darray_find_index_ex_spec[OF esm_okD(1)[OF assms(1)] refl, of None p] assms(2,3) c by (auto simp: own_compare_def)
  have "darray_abs (esm_sources m) ! j = elms_of (esm_sources m) ! j" using j(1) by (simp add: darray_abs_def)
  moreover have "darray_abs (esm_sources m) ! j \<in> set (darray_abs (esm_sources m))" using j(1) size_abs[OF esm_okD(1)[OF assms(1)]] by simp
  ultimately have "elms_of (esm_sources m) ! j \<noteq> NULL" using esm_ok_source[OF assms(1)] by metis
  then show ?thesis using j(2) by (simp add: event_source_manager_exist_def darray_find_def darray_find_ex_def Let_def)
qed

lemma no_fd_loop_calm:
  "calm M (set (darray_abs (esm_dispatching m))) \<Longrightarrow> esm_ok m \<Longrightarrow> da_compare (esm_sources m) = Some pointer_compare \<Longrightarrow>
   set (darray_abs (esm_dispatching m)) \<subseteq> set (darray_abs (esm_sources m)) \<Longrightarrow>
   no_fd_loop M i m = run_sources M (drop i (darray_abs (esm_dispatching m))) m"
proof (induction "da_size (esm_dispatching m) - i" arbitrary: i m)
  case 0
  then show ?case using size_abs[OF esm_okD(2)[OF 0(3)]] by (simp add: no_fd_loop.simps[of M i m])
next
  case (Suc k)
  let ?ps = "darray_abs (esm_dispatching m)"
  have i: "i < da_size (esm_dispatching m)" "i < length ?ps" using Suc.hyps(2) size_abs[OF esm_okD(2)[OF Suc.prems(2)]] by auto
  have p: "darray_get (esm_dispatching m) i = ?ps ! i" using i by (simp add: darray_get_def darray_abs_def)
  note p = p nth_mem[OF i(2)]
  then have ex: "event_source_manager_exist m (?ps ! i)" using exists_in[OF Suc.prems(2,3)] Suc.prems(4) by blast
  obtain s where live: "esm_objs m (?ps ! i) = Some s" using esm_ok_source[OF Suc.prems(2)] p(2) by blast
  note c = calmD[OF Suc.prems(1) p(2)]
  have nf: "\<not> 0 \<le> get_fd M (?ps ! i) m" using c(1)[of m] by simp
  have d: "drop i ?ps = ?ps ! i # drop (Suc i) ?ps" using i(2) by (simp add: Cons_nth_drop_Suc)
  show ?case
  proof (cases "dispatch_source M (?ps ! i) m")
    case None
    then show ?thesis using i(1) p(1) ex live nf c(2) by (simp add: no_fd_loop.simps[of M i m] Let_def d dispatch_iter_def)
  next
    case (Some rm)
    then obtain r m1 where r: "dispatch_source M (?ps ! i) m = Some (r, m1)" by (cases rm) auto
    then have m1: "r \<noteq> RET_REMOVE" "same_manager m m1" using c(3) by auto
    then have s: "esm_sources m1 = esm_sources m" "esm_dispatching m1 = esm_dispatching m" "esm_ok m1"
      using Suc.prems(2) by (simp_all add: same_manager_def esm_ok_def held_def[abs_def])
    have "no_fd_loop M (i + 1) m1 = run_sources M (drop (i + 1) (darray_abs (esm_dispatching m1))) m1"
      by (rule Suc.hyps(1)) (use Suc.hyps(2) Suc.prems s in auto)
    then show ?thesis using i(1) p(1) ex live nf c(2) r m1(1) s
      by (simp add: no_fd_loop.simps[of M i m] Let_def d dispatch_iter_def)
  qed
qed

lemma snapshot_trans:
  assumes "\<exists>d objs. m1 = m\<lparr>esm_dispatching := d, esm_objs := objs\<rparr>" "\<exists>d objs. m' = m1\<lparr>esm_dispatching := d, esm_objs := objs\<rparr>"
  shows "\<exists>d objs. m' = m\<lparr>esm_dispatching := d, esm_objs := objs\<rparr>"
proof -
  obtain d objs d' objs' where "m1 = m\<lparr>esm_dispatching := d, esm_objs := objs\<rparr>" "m' = m1\<lparr>esm_dispatching := d', esm_objs := objs'\<rparr>"
    using assms by blast
  then have "m' = m\<lparr>esm_dispatching := d', esm_objs := objs'\<rparr>" by (cases m) simp
  then show ?thesis by blast
qed

lemma prepare_loop_granted:
  "(\<And>n. alloc n) \<Longrightarrow> esm_ok m \<Longrightarrow> (\<forall>p \<in> set ps. p \<in> set (darray_abs (esm_sources m))) \<Longrightarrow> prepare_loop alloc ps m = Some m' \<Longrightarrow>
   da_size (esm_dispatching m) + length ps < 2 ^ 30 \<Longrightarrow>
   darray_abs (esm_dispatching m') = darray_abs (esm_dispatching m) @ ps \<and>
   (\<exists>d objs. m' = m\<lparr>esm_dispatching := d, esm_objs := objs\<rparr>)"
proof (induction ps arbitrary: m)
  case Nil
  have "m = m\<lparr>esm_dispatching := esm_dispatching m, esm_objs := esm_objs m\<rparr>" by simp
  then have "\<exists>d objs. m = m\<lparr>esm_dispatching := d, esm_objs := objs\<rparr>" by (intro exI)
  then show ?case using Nil by simp
next
  case (Cons p ps)
  obtain m1 where step: "prepare_loop alloc [p] m = Some m1" "esm_ok m1" "esm_sources m1 = esm_sources m"
    using prepare_loop_ok[OF Cons.prems(2), of "[p]" alloc] Cons.prems(3,5) by auto
  obtain s where s: "esm_objs m p = Some s" using esm_ok_source[OF Cons.prems(2), of p] Cons.prems(3) by auto
  obtain r d where pu: "darray_push alloc (esm_dispatching m) p = (r, d)" by fastforce
  have "r = RET_OK" using darray_insert_granted[of alloc "esm_dispatching m" "da_size (esm_dispatching m)" p] Cons.prems(1) pu by (simp add: darray_push_def)
  then have d: "darray_inv d" "da_destroyed d = da_destroyed (esm_dispatching m)" "darray_abs d = darray_abs (esm_dispatching m) @ [p]"
    using darray_push_cases[OF esm_okD(2,4)[OF Cons.prems(2)] pu] by auto
  have "m1 = m\<lparr>esm_dispatching := d, esm_objs := (esm_objs m)(p \<mapsto> s\<lparr>ob_ref := Suc (ob_ref s)\<rparr>)\<rparr>"
    using step(1) s pu d(2) by (cases m) (auto simp: source_ref_def set_source_def on_dispatching_def)
  then have m1: "esm_dispatching m1 = d" "\<exists>objs. m1 = m\<lparr>esm_dispatching := d, esm_objs := objs\<rparr>" by auto
  have sz: "da_size d = da_size (esm_dispatching m) + 1" using d(3) size_abs[OF d(1)] size_abs[OF esm_okD(2)[OF Cons.prems(2)]] by simp
  have rest: "prepare_loop alloc ps m1 = Some m'"
    using Cons.prems(4) step(1) s by (auto simp: source_ref_def set_source_def bind_eq_Some_conv)
  have "darray_abs (esm_dispatching m') = darray_abs (esm_dispatching m1) @ ps \<and> (\<exists>d objs. m' = m1\<lparr>esm_dispatching := d, esm_objs := objs\<rparr>)"
    by (rule Cons.IH[OF Cons.prems(1) step(2) _ rest]) (use Cons.prems(3,5) step(3) m1(1) sz in auto)
  moreover have "\<exists>d objs. m1 = m\<lparr>esm_dispatching := d, esm_objs := objs\<rparr>" using m1(2) by blast
  ultimately show ?case using m1(1) d(3) snapshot_trans[of m1 m m'] by simp
qed

lemma fds_calm:
  assumes "calm M (set (darray_abs (esm_dispatching m)))" "esm_ok m"
  shows "event_source_manager_default_dispatch_fds M t m = Some (RET_OK, m)"
proof -
  have "\<not> list_ex (\<lambda>p. esm_objs m p = None) (darray_abs (esm_dispatching m))" using esm_ok_source[OF assms(2)] by (auto simp: list_ex_iff)
  moreover have "list_all (\<lambda>p. get_fd M p m < 0) (darray_abs (esm_dispatching m))" using calmD(1)[OF assms(1)] by (simp add: list_all_iff)
  ultimately show ?thesis unfolding event_source_manager_default_dispatch_fds_def Let_def by simp
qed

lemma run_sources_same:
  "calm M (set ps) \<Longrightarrow> run_sources M ps m = Some m' \<Longrightarrow> same_manager m m'"
proof (induction ps arbitrary: m)
  case (Cons p ps)
  then obtain r m1 where r: "dispatch_source M p m = Some (r, m1)" "run_sources M ps m1 = Some m'" by (auto simp: bind_eq_Some_conv)
  then have "same_manager m m1" using calmD(3)[OF Cons.prems(1), of p] by auto
  moreover have "same_manager m1 m'" using Cons.IH[OF _ r(2)] Cons.prems(1) by (simp add: calm_def)
  ultimately show ?case by (rule same_manager_trans)
qed simp

lemma event_source_manager_dispatch_calm:
  fixes m :: "'a event_source_manager_scheme"
  assumes ok: "esm_ok m" "darray_abs (esm_dispatching m) = []" "da_compare (esm_sources m) = Some pointer_compare"
    and M: "calm M (set (darray_abs (esm_sources m)))" "\<And>n. grant M n"
    and wake: "\<And>m p t m'. wakeup_time M p m = Some (t, m') \<Longrightarrow> same_manager m m'"
  shows "\<exists>d objs. event_source_manager_dispatch M m = do {
      (t, m1) \<leftarrow> event_source_manager_get_wakeup_time M (m\<lparr>esm_dispatching := d, esm_objs := objs\<rparr>);
      m2 \<leftarrow> run_sources M (darray_abs (esm_sources m)) m1;
      (_, m3) \<leftarrow> on_dispatching darray_clear m2;
      Some (RET_OK, m3)
    } \<and> esm_ok (m\<lparr>esm_dispatching := d, esm_objs := objs\<rparr>)"
proof -
  let ?ps = "darray_abs (esm_sources m)"
  have sz: "da_size (esm_dispatching m) + length ?ps < 2 ^ 30"
    using size_abs[OF esm_okD(1)[OF ok(1)]] size_abs[OF esm_okD(2)[OF ok(1)]] ok(2) esm_okD(3)[OF ok(1)] by simp
  obtain m0 where m0: "prepare_loop (grant M) ?ps m = Some m0" "esm_ok m0" using prepare_loop_ok[OF ok(1) _ sz] by auto
  obtain d objs where d: "m0 = m\<lparr>esm_dispatching := d, esm_objs := objs\<rparr>" "darray_abs (esm_dispatching m0) = ?ps"
    using prepare_loop_granted[OF M(2) ok(1) _ m0(1) sz] ok(2) by auto
  have wl: "wakeup_loop M ps t m = Some (t', m') \<Longrightarrow> same_manager m m'" for ps t t' m m'
  proof (induction ps arbitrary: t m)
    case (Cons p ps)
    then obtain t1 m1 where "wakeup_time M p m = Some (t1, m1)" "wakeup_loop M ps (if u32 t1 < t then u32 t1 else t) m1 = Some (t', m')"
      by (auto simp: bind_eq_Some_conv)
    then show ?case using wake Cons.IH same_manager_trans by blast
  qed simp
  have gw: "event_source_manager_get_wakeup_time M m0 = Some (t, m1) \<Longrightarrow> same_manager m0 m1" for t m1
    using wl by (auto simp: event_source_manager_get_wakeup_time_def bind_eq_Some_conv split: if_splits)
  have body: "event_source_manager_default_dispatch M m0 = do {
      (t, m1) \<leftarrow> event_source_manager_get_wakeup_time M m0; m2 \<leftarrow> run_sources M ?ps m1; Some (RET_OK, m2) }"
  proof (cases "event_source_manager_get_wakeup_time M m0")
    case None
    then show ?thesis by (simp add: event_source_manager_default_dispatch_def)
  next
    case (Some tm)
    then obtain t m1 where w: "event_source_manager_get_wakeup_time M m0 = Some (t, m1)" by (cases tm) auto
    then have s: "esm_sources m1 = esm_sources m" "darray_abs (esm_dispatching m1) = ?ps" "esm_ok m1"
      using gw d m0(2) by (auto simp: same_manager_def esm_ok_def held_def[abs_def])
    have "no_fd_loop M 0 m1 = run_sources M ?ps m1" using no_fd_loop_calm[of M m1 0] M(1) s ok(3) by simp
    then show ?thesis using w fds_calm[of M m1 t] M(1) s
      by (cases "run_sources M ?ps m1") (simp_all add: event_source_manager_default_dispatch_def event_source_manager_default_dispatch_no_fd_def)
  qed
  show ?thesis unfolding event_source_manager_dispatch_def event_source_manager_prepare_def m0(1) d(1)[symmetric]
    using body m0(2) d(1)
    by (intro exI[of _ d] exI[of _ objs], cases "event_source_manager_get_wakeup_time M m0") (auto simp: split_def)
qed

section \<open>Properties\<close>

text \<open>
  C13. A dispatch of the event sources is safe against what their methods do with the manager, however they add, remove and tag
  sources, themselves included: it ends, never reaches a freed source, and leaves a consistent manager with an empty
  snapshot, in which every source that is registered is alive with a reference for each place. Assumed of the methods
  (\<open>steady\<close>): each returns, keeps the manager consistent and leaves the snapshot alone, which all operations
  of the manager do but a nested dispatch; asking for the wakeup time does not change the sources. Memory may be refused.
\<close>

theorem event_sources_dispatch_safe:
  assumes "steady M" and "esm_ok m" and "darray_abs (esm_dispatching m) = []"
  shows "\<exists>r m'. event_source_manager_dispatch M m = Some (r, m') \<and> esm_ok m' \<and> darray_abs (esm_dispatching m') = []"
  by (rule event_source_manager_dispatch_ok[OF assms])

text \<open>Sources whose dispatch removes the source and all sources of tag 5.\<close>

definition removing :: "unit methods" where
  "removing = \<lparr>get_fd = (\<lambda>p m. - 1), check_source = (\<lambda>p m. Some (RET_OK, m)),
     dispatch_source = (\<lambda>p m. do {
       (_, m) \<leftarrow> event_source_manager_remove_by_tag (\<lambda>n. True) 5 m;
       (_, m) \<leftarrow> (if esm_objs m p = None then Some (RET_OK, m) else event_source_manager_remove p m);
       Some (RET_OK, m) }),
     wakeup_time = (\<lambda>p m. Some (0, m)), select_fds = (\<lambda>fds t m. ((0, {}), m)), grant = (\<lambda>n. True)\<rparr>"

lemma steady_removing: "steady removing"
proof -
  have "\<exists>r m'. dispatch_source removing p m = Some (r, m') \<and> esm_keeps m m'" if ok: "esm_ok m" for m p
  proof -
    obtain r m1 where 1: "event_source_manager_remove_by_tag (\<lambda>n. True) 5 m = Some (r, m1)" "esm_keeps m m1"
      using event_source_manager_remove_by_tag_ok[OF ok, of "\<lambda>n. True" 5] by auto
    show ?thesis
    proof (cases "esm_objs m1 p")
      case None
      then show ?thesis using 1 by (simp add: removing_def)
    next
      case (Some s)
      moreover have "esm_ok m1" using 1(2) by (simp add: esm_keeps_def)
      ultimately obtain r2 m2 where "event_source_manager_remove p m1 = Some (r2, m2)" "esm_keeps m1 m2"
        using event_source_manager_remove_ok by blast
      then show ?thesis using 1 Some esm_keeps_trans by (auto simp: removing_def)
    qed
  qed
  then show ?thesis unfolding steady_def by (auto simp: removing_def esm_keeps_def)
qed

definition one_source :: event_source_manager where
  "one_source = \<lparr>esm_self = 1, esm_sources = \<lparr>da_size = 1, da_capacity = 1, da_elms = Some [7], da_compare = Some pointer_compare, da_destroyed = []\<rparr>,
     esm_dispatching = \<lparr>da_size = 0, da_capacity = 0, da_elms = None, da_compare = Some pointer_compare, da_destroyed = []\<rparr>,
     esm_objs = [7 \<mapsto> \<lparr>ob_ref = 1, es_tag = 5, es_manager = 1\<rparr>], esm_min_sleep_time = 16000\<rparr>"

lemma one_source_ok: "esm_ok one_source" "darray_abs (esm_dispatching one_source) = []"
proof -
  have "held one_source p = (if p = 7 then 1 else 0)" for p by (simp add: held_def one_source_def darray_abs_def elms_of_def)
  then have "refs_ok (esm_objs one_source) (held one_source)" by (simp add: refs_ok_def one_source_def)
  then show "esm_ok one_source" by (simp add: esm_ok_def darray_inv_def elms_of_def one_source_def)
  show "darray_abs (esm_dispatching one_source) = []" by (simp add: one_source_def darray_abs_def)
qed

theorem event_sources_dispatch_safe_witness:
  "\<exists>r m'. event_source_manager_dispatch removing one_source = Some (r, m') \<and> esm_ok m' \<and> darray_abs (esm_dispatching m') = []"
  by (rule event_sources_dispatch_safe[OF steady_removing one_source_ok])

end
