(* ===== verification/Dlist.thy ===== *)
theory Dlist
  imports ListContainer "HOL-Library.Monad_Syntax"
begin

text \<open>
  The doubly linked list of \<open>src/src/tkc/dlist.c\<close> over an explicit store of nodes, with the
  conventions of the singly linked list: \<open>None\<close> is the read of a node that does not exist, a
  loop that does not end or a failed \<open>ENSURE\<close>, and \<open>new\<close> is the address the node
  allocator hands out. The size is the signed 32-bit field of the code. A loop that the code
  writes once per direction is one definition here, which takes the direction.

  Shown: on a list that represents a sequence, every operation returns, reads only live nodes and
  represents the result of the sequence operation, from either end.
\<close>

section \<open>State\<close>

record dnode =
  dn_prev :: ptr
  dn_next :: ptr
  dn_data :: ptr

record dlist =
  dl_first :: ptr
  dl_last :: ptr
  dl_size :: int
  dl_compare :: compare_t
  dl_node_allocator :: ptr
  dl_allocator_shared :: bool
  dl_nodes :: "ptr \<Rightarrow> dnode option"
  dl_destroyed :: "ptr list"
  dl_dead_allocators :: "ptr list"

abbreviation INT32_MAX :: int where "INT32_MAX \<equiv> 2 ^ 31 - 1"

section \<open>Operations\<close>

definition dlist_init :: "compare_t option \<Rightarrow> dlist" where
  "dlist_init compare =
     \<lparr>dl_first = NULL, dl_last = NULL, dl_size = 0,
      dl_compare = (case compare of Some c \<Rightarrow> c | None \<Rightarrow> pointer_compare),
      dl_node_allocator = NULL, dl_allocator_shared = False,
      dl_nodes = (\<lambda>_. None), dl_destroyed = [], dl_dead_allocators = []\<rparr>"

definition dlist_create_node :: "dlist \<Rightarrow> ptr \<Rightarrow> ptr \<Rightarrow> dlist" where
  "dlist_create_node s new data =
     (if new \<noteq> NULL
      then s\<lparr>dl_nodes := (dl_nodes s)(new \<mapsto> \<lparr>dn_prev = NULL, dn_next = NULL, dn_data = data\<rparr>)\<rparr> else s)"

definition dlist_destroy_node :: "dlist \<Rightarrow> ptr \<Rightarrow> dlist option" where
  "dlist_destroy_node s node =
     (if node \<noteq> NULL then do {
        nd \<leftarrow> dl_nodes s node;
        let s = (if dn_data nd \<noteq> NULL then s\<lparr>dl_destroyed := dl_destroyed s @ [dn_data nd]\<rparr> else s);
        Some (s\<lparr>dl_nodes := (dl_nodes s)(node := None)\<rparr>)
      } else Some s)"

text \<open>The link a loop follows: \<open>prev\<close> in reverse, \<open>next\<close> otherwise; where it starts.\<close>

definition step_of :: "bool \<Rightarrow> dnode \<Rightarrow> ptr" where
  "step_of reverse nd = (if reverse then dn_prev nd else dn_next nd)"

definition start_of :: "bool \<Rightarrow> dlist \<Rightarrow> ptr" where
  "start_of reverse s = (if reverse then dl_last s else dl_first s)"

fun walk :: "(ptr \<Rightarrow> dnode option) \<Rightarrow> bool \<Rightarrow> ptr \<Rightarrow> nat \<Rightarrow> ptr option" where
  "walk h reverse iter 0 = Some iter"
| "walk h reverse iter (Suc n) =
     (if iter \<noteq> NULL then do { nd \<leftarrow> h iter; walk h reverse (step_of reverse nd) n } else Some iter)"

text \<open>The walk starts at the nearer end: \<open>index\<close> steps forward or \<open>size - 1 - index\<close> back.\<close>

definition dlist_get_node :: "dlist \<Rightarrow> nat \<Rightarrow> ptr option" where
  "dlist_get_node s index =
     (if index < nat (dl_size s mod 2 ^ 32) then
        (if int index < dl_size s div 2 then walk (dl_nodes s) False (dl_first s) index
         else walk (dl_nodes s) True (dl_last s) (nat (dl_size s - 1 - int index)))
      else Some NULL)"

partial_function (option) dfind_node :: "(ptr \<Rightarrow> dnode option) \<Rightarrow> bool \<Rightarrow> (ptr \<Rightarrow> bool) \<Rightarrow> ptr \<Rightarrow> ptr option" where
  "dfind_node h reverse P iter =
     (if iter \<noteq> NULL then do {
        nd \<leftarrow> h iter;
        if P (dn_data nd) then Some (dn_data nd) else dfind_node h reverse P (step_of reverse nd)
      } else Some NULL)"

definition dlist_find_ex :: "dlist \<Rightarrow> compare_t option \<Rightarrow> ptr \<Rightarrow> bool \<Rightarrow> ptr option" where
  "dlist_find_ex s compare ctx reverse =
     (let real_compare = (case compare of Some c \<Rightarrow> c | None \<Rightarrow> dl_compare s)
      in dfind_node (dl_nodes s) reverse (\<lambda>x. real_compare x ctx = 0) (start_of reverse s))"

definition dlist_find :: "dlist \<Rightarrow> ptr \<Rightarrow> ptr option" where
  "dlist_find s ctx = dlist_find_ex s None ctx False"

definition dlist_find_last :: "dlist \<Rightarrow> ptr \<Rightarrow> ptr option" where
  "dlist_find_last s ctx = dlist_find_ex s None ctx True"

text \<open>\<open>p->f = v\<close> for a field of a node.\<close>

definition upd_node :: "ptr \<Rightarrow> (dnode \<Rightarrow> dnode) \<Rightarrow> dlist \<Rightarrow> dlist option" where
  "upd_node p f s = do { nd \<leftarrow> dl_nodes s p; Some (s\<lparr>dl_nodes := (dl_nodes s)(p \<mapsto> f nd)\<rparr>) }"

definition dlist_insert_node :: "dlist \<Rightarrow> ptr \<Rightarrow> ptr \<Rightarrow> dlist option" where
  "dlist_insert_node s node next = do {
     s \<leftarrow> (if dl_first s = NULL \<or> dl_last s = NULL then Some (s\<lparr>dl_first := node, dl_last := node\<rparr>)
           else if next = NULL then do {
             s \<leftarrow> upd_node (dl_last s) (dn_next_update (\<lambda>_. node)) s;
             s \<leftarrow> upd_node node (dn_prev_update (\<lambda>_. dl_last s)) s;
             Some (s\<lparr>dl_last := node\<rparr>)
           } else if next = dl_first s then do {
             s \<leftarrow> upd_node (dl_first s) (dn_prev_update (\<lambda>_. node)) s;
             s \<leftarrow> upd_node node (dn_next_update (\<lambda>_. dl_first s)) s;
             Some (s\<lparr>dl_first := node\<rparr>)
           } else do {
             s \<leftarrow> upd_node node (dn_next_update (\<lambda>_. next)) s;
             nn \<leftarrow> dl_nodes s next;
             s \<leftarrow> upd_node node (dn_prev_update (\<lambda>_. dn_prev nn)) s;
             if dn_prev nn = NULL then None
             else do {
               s \<leftarrow> upd_node (dn_prev nn) (dn_next_update (\<lambda>_. node)) s;
               upd_node next (dn_prev_update (\<lambda>_. node)) s
             }
           });
     Some (s\<lparr>dl_size := s32 (dl_size s + 1)\<rparr>)
   }"

definition dlist_remove_node :: "dlist \<Rightarrow> ptr \<Rightarrow> dlist option" where
  "dlist_remove_node s node =
     (if dl_size s > 0 then do {
        s \<leftarrow> (if dl_first s = dl_last s then Some (s\<lparr>dl_first := NULL, dl_last := NULL\<rparr>)
              else if node = dl_first s then do {
                nd \<leftarrow> dl_nodes s (dl_first s);
                if dn_next nd = NULL then None
                else upd_node (dn_next nd) (dn_prev_update (\<lambda>_. NULL)) (s\<lparr>dl_first := dn_next nd\<rparr>)
              } else if node = dl_last s then do {
                nd \<leftarrow> dl_nodes s (dl_last s);
                if dn_prev nd = NULL then None
                else upd_node (dn_prev nd) (dn_next_update (\<lambda>_. NULL)) (s\<lparr>dl_last := dn_prev nd\<rparr>)
              } else do {
                nd \<leftarrow> dl_nodes s node;
                if dn_prev nd = NULL then None
                else do {
                  s \<leftarrow> upd_node (dn_prev nd) (dn_next_update (\<lambda>_. dn_next nd)) s;
                  nd \<leftarrow> dl_nodes s node;
                  if dn_next nd = NULL then None
                  else upd_node (dn_next nd) (dn_prev_update (\<lambda>_. dn_prev nd)) s
                }
              });
        Some (s\<lparr>dl_size := dl_size s - 1\<rparr>)
      } else Some s)"

text \<open>The counter has 32 bits in the code; only one that starts next to the smallest number could leave them.\<close>

partial_function (option) dremove_ex_loop ::
  "bool \<Rightarrow> compare_t \<Rightarrow> ptr \<Rightarrow> dlist \<Rightarrow> ptr \<Rightarrow> int \<Rightarrow> (int \<times> dlist) option" where
  "dremove_ex_loop reverse compare ctx s iter n =
     (if iter \<noteq> NULL then do {
        nd \<leftarrow> dl_nodes s iter;
        if compare (dn_data nd) ctx = 0 then do {
          let next = step_of reverse nd;
          s \<leftarrow> dlist_remove_node s iter;
          s \<leftarrow> dlist_destroy_node s iter;
          if n - 1 = 0 then Some (n - 1, s)
          else dremove_ex_loop reverse compare ctx s next (n - 1)
        } else dremove_ex_loop reverse compare ctx s (step_of reverse nd) n
      } else Some (n, s))"

definition dlist_remove_ex :: "dlist \<Rightarrow> compare_t option \<Rightarrow> ptr \<Rightarrow> int \<Rightarrow> bool \<Rightarrow> (ret_t \<times> dlist) option" where
  "dlist_remove_ex s compare ctx remove_size reverse =
     (let n = (if remove_size < 0 then INT32_MAX else remove_size);
          real_compare = (case compare of Some c \<Rightarrow> c | None \<Rightarrow> dl_compare s)
      in if n > 0 then do {
           (n', s) \<leftarrow> dremove_ex_loop reverse real_compare ctx s (start_of reverse s) n;
           Some (if n' = 0 then RET_OK else if remove_size = n' then RET_NOT_FOUND else RET_OK, s)
         } else Some (RET_BAD_PARAMS, s))"

definition dlist_remove :: "dlist \<Rightarrow> ptr \<Rightarrow> (ret_t \<times> dlist) option" where
  "dlist_remove s ctx = dlist_remove_ex s (Some (dl_compare s)) ctx 1 False"

definition dlist_remove_last :: "dlist \<Rightarrow> ptr \<Rightarrow> (ret_t \<times> dlist) option" where
  "dlist_remove_last s ctx = dlist_remove_ex s (Some (dl_compare s)) ctx 1 True"

definition dlist_append :: "dlist \<Rightarrow> ptr \<Rightarrow> ptr \<Rightarrow> (ret_t \<times> dlist) option" where
  "dlist_append s new data =
     (let s1 = dlist_create_node s new data
      in if new \<noteq> NULL then do { s2 \<leftarrow> dlist_insert_node s1 new NULL; Some (RET_OK, s2) }
         else Some (RET_OOM, s1))"

definition dlist_prepend :: "dlist \<Rightarrow> ptr \<Rightarrow> ptr \<Rightarrow> (ret_t \<times> dlist) option" where
  "dlist_prepend s new data =
     (let s1 = dlist_create_node s new data
      in if new \<noteq> NULL then do { s2 \<leftarrow> dlist_insert_node s1 new (dl_first s1); Some (RET_OK, s2) }
         else Some (RET_OOM, s1))"

definition dlist_insert :: "dlist \<Rightarrow> nat \<Rightarrow> ptr \<Rightarrow> ptr \<Rightarrow> (ret_t \<times> dlist) option" where
  "dlist_insert s index new data =
     (let s1 = dlist_create_node s new data
      in if new \<noteq> NULL then do {
           target \<leftarrow> (if index < nat (dl_size s1 mod 2 ^ 32) then do {
                        p \<leftarrow> dlist_get_node s1 index;
                        if p \<noteq> NULL then Some p else None
                      } else Some NULL);
           s2 \<leftarrow> dlist_insert_node s1 new target;
           Some (RET_OK, s2)
         }
         else Some (RET_OOM, s1))"

partial_function (option) dforeach_loop ::
  "bool \<Rightarrow> ('c \<Rightarrow> ptr \<Rightarrow> ret_t \<times> 'c) \<Rightarrow> 'c \<Rightarrow> dlist \<Rightarrow> ptr \<Rightarrow> ret_t \<Rightarrow> (ret_t \<times> 'c \<times> dlist) option" where
  "dforeach_loop reverse visit ctx s iter ret =
     (if iter \<noteq> NULL then do {
        nd \<leftarrow> dl_nodes s iter;
        case visit ctx (dn_data nd) of (v, ctx') \<Rightarrow>
          (case foreach_visit_result v of
             Visit_next r \<Rightarrow> dforeach_loop reverse visit ctx' s (step_of reverse nd) r
           | Visit_remove r \<Rightarrow> do {
               let next = step_of reverse nd;
               s \<leftarrow> dlist_remove_node s iter;
               s \<leftarrow> dlist_destroy_node s iter;
               dforeach_loop reverse visit ctx' s next r
             }
           | Visit_break r \<Rightarrow> Some (r, ctx', s))
      } else Some (ret, ctx, s))"

definition dlist_foreach :: "dlist \<Rightarrow> ('c \<Rightarrow> ptr \<Rightarrow> ret_t \<times> 'c) \<Rightarrow> 'c \<Rightarrow> (ret_t \<times> 'c \<times> dlist) option" where
  "dlist_foreach s visit ctx = dforeach_loop False visit ctx s (dl_first s) RET_OK"

definition dlist_foreach_reverse :: "dlist \<Rightarrow> ('c \<Rightarrow> ptr \<Rightarrow> ret_t \<times> 'c) \<Rightarrow> 'c \<Rightarrow> (ret_t \<times> 'c \<times> dlist) option" where
  "dlist_foreach_reverse s visit ctx = dforeach_loop True visit ctx s (dl_last s) RET_OK"

definition dlist_pop :: "dlist \<Rightarrow> bool \<Rightarrow> (ptr \<times> dlist) option" where
  "dlist_pop s head =
     (let iter = (if head then dl_first s else dl_last s)
      in if iter = NULL then Some (NULL, s)
         else do {
           s \<leftarrow> dlist_remove_node s iter;
           nd \<leftarrow> dl_nodes s iter;
           s \<leftarrow> upd_node iter (dn_data_update (\<lambda>_. NULL)) s;
           s \<leftarrow> dlist_destroy_node s iter;
           Some (dn_data nd, s)
         })"

definition dlist_tail_pop :: "dlist \<Rightarrow> (ptr \<times> dlist) option" where
  "dlist_tail_pop s = dlist_pop s False"

definition dlist_head_pop :: "dlist \<Rightarrow> (ptr \<times> dlist) option" where
  "dlist_head_pop s = dlist_pop s True"

definition dlist_tail :: "dlist \<Rightarrow> ptr option" where
  "dlist_tail s = (if dl_last s = NULL then Some NULL else map_option dn_data (dl_nodes s (dl_last s)))"

definition dlist_head :: "dlist \<Rightarrow> ptr option" where
  "dlist_head s = (if dl_first s = NULL then Some NULL else map_option dn_data (dl_nodes s (dl_first s)))"

definition dlist_is_empty :: "dlist \<Rightarrow> bool" where
  "dlist_is_empty s \<longleftrightarrow> dl_size s = 0"

definition dlist_size :: "dlist \<Rightarrow> int" where
  "dlist_size s = dl_size s"

partial_function (option) dcount_nodes :: "(ptr \<Rightarrow> dnode option) \<Rightarrow> (ptr \<Rightarrow> bool) \<Rightarrow> ptr \<Rightarrow> int \<Rightarrow> int option" where
  "dcount_nodes h P iter n =
     (if iter \<noteq> NULL then do {
        nd \<leftarrow> h iter;
        dcount_nodes h P (dn_next nd) (if P (dn_data nd) then n + 1 else n)
      } else Some n)"

definition dlist_count :: "dlist \<Rightarrow> ptr \<Rightarrow> int option" where
  "dlist_count s ctx = dcount_nodes (dl_nodes s) (\<lambda>x. dl_compare s x ctx = 0) (dl_first s) 0"

partial_function (option) ddestroy_nodes :: "dlist \<Rightarrow> ptr \<Rightarrow> dlist option" where
  "ddestroy_nodes s iter =
     (if iter \<noteq> NULL then do {
        nd \<leftarrow> dl_nodes s iter;
        s \<leftarrow> dlist_destroy_node s iter;
        ddestroy_nodes s (dn_next nd)
      } else Some s)"

definition dlist_remove_all :: "dlist \<Rightarrow> (ret_t \<times> dlist) option" where
  "dlist_remove_all s =
     (if dl_first s \<noteq> NULL then do {
        s \<leftarrow> ddestroy_nodes (s\<lparr>dl_first := NULL\<rparr>) (dl_first s);
        Some (RET_OK, s\<lparr>dl_last := NULL, dl_size := 0\<rparr>)
      } else Some (RET_OK, s))"

text \<open>The two links are swapped, so that the loop goes on along the new \<open>prev\<close>.\<close>

partial_function (option) dlist_reverse_loop :: "dlist \<Rightarrow> ptr \<Rightarrow> dlist option" where
  "dlist_reverse_loop s iter =
     (if iter \<noteq> NULL then do {
        s \<leftarrow> upd_node iter (\<lambda>nd. nd\<lparr>dn_prev := dn_next nd, dn_next := dn_prev nd\<rparr>) s;
        nd \<leftarrow> dl_nodes s iter;
        dlist_reverse_loop s (dn_prev nd)
      } else Some s)"

definition dlist_reverse :: "dlist \<Rightarrow> (ret_t \<times> dlist) option" where
  "dlist_reverse s = do {
     s \<leftarrow> dlist_reverse_loop s (dl_first s);
     Some (RET_OK, s\<lparr>dl_first := dl_last s, dl_last := dl_first s\<rparr>)
   }"

definition dlist_set_node_allocator_impl :: "dlist \<Rightarrow> ptr \<Rightarrow> bool \<Rightarrow> ret_t \<times> dlist" where
  "dlist_set_node_allocator_impl s allocator shared =
     (if dl_node_allocator s \<noteq> allocator then
        (if dlist_is_empty s then
           (RET_OK, s\<lparr>dl_dead_allocators := dl_dead_allocators s @
                        (if dl_node_allocator s \<noteq> NULL \<and> \<not> dl_allocator_shared s then [dl_node_allocator s] else []),
                      dl_node_allocator := allocator, dl_allocator_shared := shared\<rparr>)
         else (RET_FAIL, s))
      else (RET_OK, s\<lparr>dl_allocator_shared := shared\<rparr>))"

definition dlist_set_node_allocator :: "dlist \<Rightarrow> ptr \<Rightarrow> ret_t \<times> dlist" where
  "dlist_set_node_allocator s allocator = dlist_set_node_allocator_impl s allocator False"

definition dlist_set_shared_node_allocator :: "dlist \<Rightarrow> ptr \<Rightarrow> ret_t \<times> dlist" where
  "dlist_set_shared_node_allocator s allocator = dlist_set_node_allocator_impl s allocator True"

definition dlist_deinit :: "dlist \<Rightarrow> (ret_t \<times> dlist) option" where
  "dlist_deinit s = do {
     (r, s) \<leftarrow> dlist_remove_all s;
     if r = RET_OK then Some (r, snd (dlist_set_node_allocator s NULL)) else Some (r, s)
   }"

definition dlist_get :: "dlist \<Rightarrow> nat \<Rightarrow> ptr option" where
  "dlist_get s index =
     (if index < nat (dl_size s mod 2 ^ 32) then do {
        node \<leftarrow> dlist_get_node s index;
        if node \<noteq> NULL then map_option dn_data (dl_nodes s node) else None
      } else Some NULL)"


section \<open>Representation\<close>

text \<open>
  \<open>dseg h p ns q\<close>: the nodes \<open>ns\<close> are chained in both directions between the node \<open>p\<close>
  before and the node \<open>q\<close> after them. The last address of \<open>ns\<close> is the first one of the
  reversed list.
\<close>

fun dseg :: "(ptr \<Rightarrow> dnode option) \<Rightarrow> ptr \<Rightarrow> (ptr \<times> ptr) list \<Rightarrow> ptr \<Rightarrow> bool" where
  "dseg h p [] q \<longleftrightarrow> True"
| "dseg h p ((a, d) # ns) q \<longleftrightarrow> a \<noteq> NULL \<and>
     h a = Some \<lparr>dn_prev = p, dn_next = addr_of ns q, dn_data = d\<rparr> \<and> dseg h a ns q"

definition dshape :: "dlist \<Rightarrow> (ptr \<times> ptr) list \<Rightarrow> ptr set \<Rightarrow> bool" where
  "dshape s ns X \<longleftrightarrow> distinct (map fst ns) \<and> dseg (dl_nodes s) NULL ns NULL \<and>
     dom (dl_nodes s) = fst ` set ns \<union> X \<and> X \<inter> fst ` set ns = {} \<and>
     dl_first s = addr_of ns NULL \<and> dl_last s = addr_of (rev ns) NULL \<and>
     dl_size s = int (length ns) \<and> length ns < 2 ^ 31"

definition dlist_rep :: "dlist \<Rightarrow> ptr list \<Rightarrow> bool" where
  "dlist_rep s xs \<longleftrightarrow> (\<exists>ns. dshape s ns {} \<and> map snd ns = xs)"

definition dlist_fresh :: "dlist \<Rightarrow> ptr \<Rightarrow> bool" where
  "dlist_fresh s new \<longleftrightarrow> new \<noteq> NULL \<and> dl_nodes s new = None \<and> dl_size s + 1 < 2 ^ 31"

definition dlist_conf :: "dlist \<Rightarrow> compare_t \<times> ptr \<times> bool \<times> ptr list" where
  "dlist_conf s = (dl_compare s, dl_node_allocator s, dl_allocator_shared s, dl_dead_allocators s)"

lemma dseg_append [simp]:
  "dseg h p (ms @ ns) q \<longleftrightarrow> dseg h p ms (addr_of ns q) \<and> dseg h (addr_of (rev ms) p) ns q"
proof (induction ms arbitrary: p)
  case (Cons x ms)
  then show ?case by (cases x) (auto simp: addr_of_append)
qed simp

lemma dseg_upd [simp]: "a \<notin> fst ` set ns \<Longrightarrow> dseg (h(a := v)) p ns q = dseg h p ns q"
  by (induction ns arbitrary: p) auto

lemma dseg_nonnull: "dseg h p ns q \<Longrightarrow> NULL \<notin> fst ` set ns"
  by (induction ns arbitrary: p) force+

lemma dseg_lookup: "dseg h p ns q \<Longrightarrow> x \<in> set ns \<Longrightarrow> fst x \<noteq> NULL \<and> map_option dn_data (h (fst x)) = Some (snd x)"
  by (induction ns arbitrary: p) auto

lemma addr_of_rev_mem: "ns \<noteq> [] \<Longrightarrow> addr_of (rev ns) q \<in> fst ` set ns"
  using addr_of_mem[of "rev ns" q] by simp

lemma addr_of_NULL_iff: "NULL \<notin> fst ` set ns \<Longrightarrow> addr_of ns NULL = NULL \<longleftrightarrow> ns = []"
  by (cases ns) auto

lemma dshapeD:
  assumes "dshape s ns X"
  shows "distinct (map fst ns)" "dseg (dl_nodes s) NULL ns NULL" "dom (dl_nodes s) = fst ` set ns \<union> X"
    "X \<inter> fst ` set ns = {}" "dl_first s = addr_of ns NULL" "dl_last s = addr_of (rev ns) NULL"
    "dl_size s = int (length ns)" "length ns < 2 ^ 31"
  using assms by (simp_all add: dshape_def)

lemma dshape_ends:
  assumes "dshape s ns X"
  shows "dl_first s = NULL \<longleftrightarrow> ns = []" "dl_last s = NULL \<longleftrightarrow> ns = []"
  using dshapeD(2,5,6)[OF assms] dseg_nonnull addr_of_NULL_iff[of ns] addr_of_NULL_iff[of "rev ns"] by auto

lemma dlist_init_rep: "dlist_rep (dlist_init c) []"
  by (auto simp: dlist_rep_def dshape_def dlist_init_def intro!: exI[of _ "[]"])

section \<open>Inserting a node\<close>

lemma dcreate_node_shape:
  assumes "dshape s ns {}" and "dlist_fresh s new"
  shows "dshape (dlist_create_node s new x) ns {new}"
    "dl_nodes (dlist_create_node s new x) new = Some \<lparr>dn_prev = NULL, dn_next = NULL, dn_data = x\<rparr>"
proof -
  have "new \<notin> fst ` set ns" using assms by (auto simp: dshape_def dlist_fresh_def)
  then show "dshape (dlist_create_node s new x) ns {new}"
    "dl_nodes (dlist_create_node s new x) new = Some \<lparr>dn_prev = NULL, dn_next = NULL, dn_data = x\<rparr>"
    using assms by (auto simp: dshape_def dlist_fresh_def dlist_create_node_def)
qed

lemma dcreate_node_frame [simp]:
  "dlist_conf (dlist_create_node s new x) = dlist_conf s"
  "dl_destroyed (dlist_create_node s new x) = dl_destroyed s"
  "dl_first (dlist_create_node s new x) = dl_first s"
  "dl_size (dlist_create_node s new x) = dl_size s"
  by (simp_all add: dlist_create_node_def dlist_conf_def)

lemma dinsert_node_spec:
  assumes sh: "dshape s (pre @ post) {new}"
    and new: "dl_nodes s new = Some \<lparr>dn_prev = NULL, dn_next = NULL, dn_data = x\<rparr>" "new \<noteq> NULL"
    and room: "int (length (pre @ post)) + 1 < 2 ^ 31"
  shows "\<exists>s'. dlist_insert_node s new (addr_of post NULL) = Some s' \<and> dshape s' (pre @ (new, x) # post) {} \<and>
    dlist_conf s' = dlist_conf s \<and> dl_destroyed s' = dl_destroyed s"
proof -
  note D = dshapeD[OF sh]
  have fresh: "new \<notin> fst ` set pre" "new \<notin> fst ` set post" using D(4) by auto
  note unf = dlist_insert_node_def dshape_def dlist_conf_def upd_node_def
  show ?thesis
  proof (cases "pre @ post = []")
    case True
    then show ?thesis using D new room by (auto simp: unf)
  next
    case nonempty: False
    then have ends: "dl_first s \<noteq> NULL" "dl_last s \<noteq> NULL" using dshape_ends[OF sh] by simp_all
    show ?thesis
    proof (cases post)
      case Nil
      then obtain ps a d where pre: "pre = ps @ [(a, d)]" using nonempty by (cases pre rule: rev_cases) auto
      have "a \<noteq> NULL" "a \<noteq> new" "a \<notin> fst ` set ps" using D(1,2) fresh pre Nil by auto
      then show ?thesis using D new room ends fresh Nil pre by (auto simp: unf)
    next
      case (Cons y qs)
      obtain b e where y: "y = (b, e)" by (cases y)
      have b: "b \<noteq> NULL" "b \<noteq> new" "b \<notin> fst ` set qs" "b \<notin> fst ` set pre" using D(1,2) fresh Cons y by auto
      show ?thesis
      proof (cases pre rule: rev_cases)
        case Nil
        then show ?thesis using D new room ends fresh Cons y b
          by (auto simp: unf)
      next
        case (snoc ps z)
        obtain a d where z: "z = (a, d)" by (cases z)
        have a: "a \<noteq> NULL" "a \<noteq> new" "a \<noteq> b" "a \<notin> fst ` set ps" "a \<notin> fst ` set qs" using D(1,2) fresh Cons y snoc z by auto
        have "dl_first s = addr_of pre b" using D(5) Cons y by simp
        moreover have "addr_of pre b \<in> fst ` set pre" by (rule addr_of_mem) (simp add: snoc)
        ultimately have "b \<noteq> dl_first s" using b(4) by metis
        then show ?thesis using D new room ends fresh Cons y b snoc z a
          by (auto simp: unf)
      qed
    qed
  qed
qed


section \<open>Removing a node\<close>

lemma dremove_node_spec:
  assumes sh: "dshape s (pre @ (a, d) # post) X"
  shows "\<exists>s' nd. dlist_remove_node s a = Some s' \<and> dshape s' (pre @ post) (insert a X) \<and>
    dl_nodes s' a = Some nd \<and> dn_data nd = d \<and>
    dlist_conf s' = dlist_conf s \<and> dl_destroyed s' = dl_destroyed s"
proof -
  note D = dshapeD[OF sh]
  have a: "a \<noteq> NULL" "a \<notin> fst ` set pre" "a \<notin> fst ` set post" "a \<notin> X" using D(1,2,4) by auto
  note unf = dlist_remove_node_def dshape_def dlist_conf_def upd_node_def
  have first: "dl_first s = addr_of pre a" and last: "dl_last s = addr_of (rev post) a" using D(5,6) by simp_all
  have first_eq: "dl_first s = a \<longleftrightarrow> pre = []"
    using first a(2) addr_of_mem[of pre a] by (cases "pre = []") (simp_all, metis)
  have last_eq: "dl_last s = a \<longleftrightarrow> post = []"
    using last a(3) addr_of_rev_mem[of post a] by (cases "post = []") (simp_all, metis)
  have one: "dl_first s = dl_last s \<longleftrightarrow> pre = [] \<and> post = []"
  proof
    assume eq: "dl_first s = dl_last s"
    show "pre = [] \<and> post = []"
    proof (rule ccontr)
      assume "\<not> (pre = [] \<and> post = [])"
      then have ne: "pre \<noteq> []" "post \<noteq> []" using eq first_eq last_eq by auto
      have "dl_first s \<in> fst ` set pre" "dl_last s \<in> fst ` set post"
        using first last addr_of_mem[OF ne(1)] addr_of_rev_mem[OF ne(2)] by simp_all
      then show False using eq D(1) by auto
    qed
  qed (use first last in simp)
  show ?thesis
  proof (cases pre rule: rev_cases)
    case Nil
    show ?thesis
    proof (cases post)
      case Nil
      then show ?thesis using D a one \<open>pre = []\<close> by (auto simp: unf)
    next
      case (Cons y qs)
      obtain b e where y: "y = (b, e)" by (cases y)
      have "b \<noteq> NULL" "b \<noteq> a" "b \<notin> fst ` set qs" using D(1,2) Cons y by auto
      then show ?thesis using D a one Nil Cons y by (auto simp: unf)
    qed
  next
    case (snoc ps z)
    obtain c f where z: "z = (c, f)" by (cases z)
    have c: "c \<noteq> NULL" "c \<noteq> a" "c \<notin> fst ` set ps" "c \<notin> fst ` set post" using D(1,2) snoc z by auto
    have nofirst: "a \<noteq> dl_first s" using first_eq snoc by auto
    show ?thesis
    proof (cases post)
      case Nil
      then show ?thesis using D a one c nofirst last_eq snoc z by (auto simp: unf)
    next
      case (Cons y qs)
      obtain b e where y: "y = (b, e)" by (cases y)
      have "b \<noteq> NULL" "b \<noteq> a" "b \<noteq> c" "b \<notin> fst ` set qs" "b \<notin> fst ` set ps" "c \<notin> fst ` set qs"
        using D(1,2) c Cons y snoc z by auto
      moreover have "a \<noteq> dl_last s" using last_eq Cons by auto
      ultimately show ?thesis using D a one c nofirst snoc z Cons y by (auto simp: unf)
    qed
  qed
qed

lemma ddestroy_node_spec:
  assumes "dshape s ns (insert a X)" and "a \<notin> X" "a \<noteq> NULL" "dl_nodes s a = Some nd"
  shows "\<exists>s'. dlist_destroy_node s a = Some s' \<and> dshape s' ns X \<and> dlist_conf s' = dlist_conf s \<and>
    dl_destroyed s' = dl_destroyed s @ live [dn_data nd]"
  using assms by (auto simp: dlist_destroy_node_def dshape_def dlist_conf_def Let_def)

lemma dunlink_spec:
  assumes sh: "dshape s (pre @ (a, d) # post) {}"
  shows "\<exists>s1 s'. dlist_remove_node s a = Some s1 \<and> dlist_destroy_node s1 a = Some s' \<and>
    dshape s' (pre @ post) {} \<and> dlist_conf s' = dlist_conf s \<and> dl_destroyed s' = dl_destroyed s @ live [d]"
proof -
  obtain s1 nd where s1: "dlist_remove_node s a = Some s1" "dshape s1 (pre @ post) {a}"
    "dl_nodes s1 a = Some nd" "dn_data nd = d" "dlist_conf s1 = dlist_conf s" "dl_destroyed s1 = dl_destroyed s"
    using dremove_node_spec[OF sh] by blast
  have "a \<noteq> NULL" using dshapeD(2)[OF sh] by simp
  then show ?thesis using ddestroy_node_spec[OF s1(2) _ _ s1(3)] s1 by auto
qed

section \<open>Loops in both directions\<close>

text \<open>
  The order in which a loop meets the elements, and the list of which a loop has passed
  \<open>passed\<close> and has \<open>todo\<close> before it, both in the order of the loop.
\<close>

definition order :: "bool \<Rightarrow> 'a list \<Rightarrow> 'a list" where
  "order reverse xs = (if reverse then rev xs else xs)"

lemma order_simps [simp]:
  "order r [] = []" "order r (order r xs) = xs" "set (order r xs) = set xs" "length (order r xs) = length xs"
  "map f (order r xs) = order r (map f xs)" "filter P (order r xs) = order r (filter P xs)"
  "order r xs = [] \<longleftrightarrow> xs = []" "distinct (order r xs) = distinct xs"
  by (simp_all add: order_def rev_map rev_filter)

lemma order_split: "\<exists>pre post. order r (passed @ (a, d) # todo) = pre @ (a, d) # post \<and> order r (passed @ todo) = pre @ post"
  by (cases r) (auto simp: order_def)

lemma start_of_order: "dshape s (order r ns) X \<Longrightarrow> start_of r s = addr_of ns NULL"
  by (cases r) (simp_all add: start_of_def order_def dshape_def)

lemma dshape_head: "dshape s (order r (passed @ (a, d) # todo)) X \<Longrightarrow>
   a \<noteq> NULL \<and> (\<exists>nd. dl_nodes s a = Some nd \<and> dn_data nd = d \<and> step_of r nd = addr_of todo NULL)"
  by (cases r) (auto simp: order_def dshape_def step_of_def)

lemma dunlink_order:
  assumes "dshape s (order r (passed @ (a, d) # todo)) {}"
  shows "\<exists>s1 s'. dlist_remove_node s a = Some s1 \<and> dlist_destroy_node s1 a = Some s' \<and>
    dshape s' (order r (passed @ todo)) {} \<and> dlist_conf s' = dlist_conf s \<and>
    dl_destroyed s' = dl_destroyed s @ live [d]"
proof -
  obtain pre post where e: "order r (passed @ (a, d) # todo) = pre @ (a, d) # post" "order r (passed @ todo) = pre @ post"
    using order_split by metis
  show ?thesis using dunlink_spec[of s pre a d post] assms e by simp
qed

lemma dremove_ex_loop_spec:
  "dshape s (order r (passed @ todo)) {} \<Longrightarrow> remove_n (\<lambda>x. compare (snd x) ctx = 0) n todo = (keep, gone, m) \<Longrightarrow>
   \<exists>s'. dremove_ex_loop r compare ctx s (addr_of todo NULL) n = Some (m, s') \<and>
     dshape s' (order r (passed @ keep)) {} \<and> dlist_conf s' = dlist_conf s \<and>
     dl_destroyed s' = dl_destroyed s @ live (map snd gone)"
proof (induction todo arbitrary: s passed n keep gone m)
  case Nil
  then show ?case by (simp add: dremove_ex_loop.simps)
next
  case (Cons x todo)
  obtain a d where x: "x = (a, d)" by (cases x)
  obtain nd where hd: "a \<noteq> NULL" "dl_nodes s a = Some nd" "dn_data nd = d" "step_of r nd = addr_of todo NULL"
    using dshape_head[OF Cons.prems(1)[unfolded x]] by blast
  show ?case
  proof (cases "compare d ctx = 0")
    case match: True
    obtain s1 s2 where s2: "dlist_remove_node s a = Some s1" "dlist_destroy_node s1 a = Some s2"
      "dshape s2 (order r (passed @ todo)) {}" "dlist_conf s2 = dlist_conf s" "dl_destroyed s2 = dl_destroyed s @ live [d]"
      using dunlink_order[OF Cons.prems(1)[unfolded x]] by blast
    show ?thesis
    proof (cases "n - 1 = 0")
      case True
      then show ?thesis using Cons.prems(2) match s2 hd x by (auto simp: dremove_ex_loop.simps)
    next
      case False
      obtain keep' gone' m' where rn: "remove_n (\<lambda>x. compare (snd x) ctx = 0) (n - 1) todo = (keep', gone', m')"
        by (metis prod_cases3)
      from Cons.IH[OF s2(3) rn] show ?thesis
        using Cons.prems(2) match s2 hd x False rn by (fastforce simp: dremove_ex_loop.simps[of _ _ _ _ a])
    qed
  next
    case False
    obtain keep' gone' m' where rn: "remove_n (\<lambda>x. compare (snd x) ctx = 0) n todo = (keep', gone', m')"
      by (metis prod_cases3)
    have "dshape s (order r ((passed @ [x]) @ todo)) {}" using Cons.prems(1) by simp
    from Cons.IH[OF this rn] show ?thesis
      using Cons.prems(2) False hd x rn by (auto simp: dremove_ex_loop.simps[of _ _ _ _ a])
  qed
qed

text \<open>
  With a negative \<open>remove_size\<close> every match is removed; the status is then RET_OK also when
  nothing matched.
\<close>

lemma dlist_remove_ex_spec:
  assumes rep: "dlist_rep s xs" and k: "k = (if n < 0 then INT32_MAX else n)" "0 < k"
    and rn: "remove_n (\<lambda>x. (case compare of Some c \<Rightarrow> c | None \<Rightarrow> dl_compare s) x ctx = 0) k (order r xs) = (keep, gone, m)"
  shows "\<exists>s'. dlist_remove_ex s compare ctx n r = Some (if gone = [] \<and> 0 < n then RET_NOT_FOUND else RET_OK, s') \<and>
    dlist_rep s' (order r keep) \<and> dlist_conf s' = dlist_conf s \<and> dl_destroyed s' = dl_destroyed s @ live gone"
proof -
  let ?c = "case compare of Some c \<Rightarrow> c | None \<Rightarrow> dl_compare s"
  obtain ns where ns: "dshape s ns {}" "xs = map snd ns" using rep by (auto simp: dlist_rep_def)
  let ?os = "order r ns"
  have sh: "dshape s (order r ([] @ ?os)) {}" using ns(1) by simp
  obtain k1 g1 m1 where r: "remove_n (\<lambda>x. ?c (snd x) ctx = 0) k ?os = (k1, g1, m1)" by (metis prod_cases3)
  have e: "keep = map snd k1" "gone = map snd g1" "m = m1"
    using remove_n_map[where P = "\<lambda>d. ?c d ctx = 0" and f = snd, OF r] rn ns(2) by simp_all
  obtain s' where s': "dremove_ex_loop r ?c ctx s (start_of r s) k = Some (m, s')"
    "dshape s' (order r k1) {}" "dlist_conf s' = dlist_conf s" "dl_destroyed s' = dl_destroyed s @ live gone"
    using dremove_ex_loop_spec[where compare = ?c, OF sh r] start_of_order[of s r ?os] ns(1) e by auto
  have m: "m = k - int (length gone)" by (rule remove_n_unused[OF rn])
  have "length xs = length keep + length gone" using arg_cong[OF remove_n_mset[OF rn], of size] by simp
  then have "0 \<le> m \<or> 0 \<le> n" using m k dshapeD(8)[OF ns(1)] ns(2) by auto
  then have "m = 0 \<or> n = m \<longleftrightarrow> m = 0 \<or> gone = [] \<and> 0 < n" using m k by auto
  moreover have "gone = [] \<Longrightarrow> m \<noteq> 0" using m k by auto
  ultimately show ?thesis using s' e k by (auto simp: dlist_remove_ex_def dlist_rep_def)
qed


lemma dinsert_at_spec:
  assumes "dshape s (pre @ post) {}" and "dlist_fresh s new"
  shows "\<exists>s'. dlist_insert_node (dlist_create_node s new x) new (addr_of post NULL) = Some s' \<and>
    dshape s' (pre @ (new, x) # post) {} \<and> dlist_conf s' = dlist_conf s \<and> dl_destroyed s' = dl_destroyed s"
proof -
  note c = dcreate_node_shape[OF assms]
  have "new \<noteq> NULL" "int (length (pre @ post)) + 1 < 2 ^ 31"
    using assms(2) dshapeD(7)[OF assms(1)] by (auto simp: dlist_fresh_def)
  from dinsert_node_spec[OF c(1) c(2) this] show ?thesis by simp
qed

lemma dlist_rep_between: "dshape s' (pre @ (new, x) # post) {} \<Longrightarrow> dlist_rep s' (map snd pre @ x # map snd post)"
  unfolding dlist_rep_def by (intro exI[of _ "pre @ (new, x) # post"]) simp

lemma dlist_append_spec:
  assumes "dlist_rep s xs" and "dlist_fresh s new"
  shows "\<exists>s'. dlist_append s new x = Some (RET_OK, s') \<and> dlist_rep s' (xs @ [x]) \<and>
    dlist_conf s' = dlist_conf s \<and> dl_destroyed s' = dl_destroyed s"
proof -
  obtain ns where ns: "dshape s (ns @ []) {}" "xs = map snd ns" using assms(1) by (auto simp: dlist_rep_def)
  from dinsert_at_spec[OF ns(1) assms(2), of x] obtain s' where
    s': "dlist_insert_node (dlist_create_node s new x) new NULL = Some s'" "dshape s' (ns @ [(new, x)]) {}"
      "dlist_conf s' = dlist_conf s" "dl_destroyed s' = dl_destroyed s" by auto
  then show ?thesis using dlist_rep_between[of s' ns new x "[]"] ns(2) assms(2)
    by (auto simp: dlist_append_def dlist_fresh_def)
qed

lemma dlist_prepend_spec:
  assumes "dlist_rep s xs" and "dlist_fresh s new"
  shows "\<exists>s'. dlist_prepend s new x = Some (RET_OK, s') \<and> dlist_rep s' (x # xs) \<and>
    dlist_conf s' = dlist_conf s \<and> dl_destroyed s' = dl_destroyed s"
proof -
  obtain ns where ns: "dshape s ([] @ ns) {}" "xs = map snd ns" using assms(1) by (auto simp: dlist_rep_def)
  from dinsert_at_spec[OF ns(1) assms(2), of x] obtain s' where
    s': "dlist_insert_node (dlist_create_node s new x) new (dl_first s) = Some s'" "dshape s' ([] @ (new, x) # ns) {}"
      "dlist_conf s' = dlist_conf s" "dl_destroyed s' = dl_destroyed s" using dshapeD(5)[OF ns(1)] by auto
  then show ?thesis using dlist_rep_between[OF s'(2)] ns(2) assms(2)
    by (auto simp: dlist_prepend_def dlist_fresh_def)
qed

text \<open>Walking from the nearer end reaches the node at the index.\<close>

lemma walk_spec:
  "dshape s (order r (passed @ todo)) X \<Longrightarrow> i \<le> length todo \<Longrightarrow>
   walk (dl_nodes s) r (addr_of todo NULL) i = Some (addr_of (drop i todo) NULL)"
proof (induction i arbitrary: passed todo)
  case (Suc i)
  then obtain x rest where todo: "todo = x # rest" by (cases todo) auto
  obtain a d where x: "x = (a, d)" by (cases x)
  obtain nd where "a \<noteq> NULL" "dl_nodes s a = Some nd" "step_of r nd = addr_of rest NULL"
    using dshape_head[of s r passed a d rest X] Suc.prems(1) todo x by auto
  moreover have "dshape s (order r ((passed @ [x]) @ rest)) X" using Suc.prems(1) todo by simp
  ultimately show ?case using Suc.IH[of "passed @ [x]" rest] Suc.prems(2) todo x by simp
qed simp

lemma addr_of_drop: "i < length ns \<Longrightarrow> addr_of (drop i ns) q = fst (ns ! i)"
  by (metis Cons_nth_drop_Suc addr_of.simps(2) prod.collapse)

lemma dget_node_spec:
  assumes "dshape s ns X" and "i < length ns"
  shows "dlist_get_node s i = Some (fst (ns ! i))"
proof -
  note D = dshapeD[OF assms(1)]
  have fwd: "walk (dl_nodes s) False (dl_first s) i = Some (fst (ns ! i))"
    using walk_spec[of s False "[]" ns X i] assms D(5) by (simp add: order_def addr_of_drop)
  let ?j = "length ns - 1 - i"
  have "walk (dl_nodes s) True (dl_last s) ?j = Some (fst (rev ns ! ?j))"
    using walk_spec[of s True "[]" "rev ns" X ?j] assms D(6) by (simp add: order_def addr_of_drop)
  moreover have "rev ns ! ?j = ns ! i" using assms(2) by (simp add: rev_nth)
  moreover have "nat (dl_size s - 1 - int i) = ?j" using D(7) assms(2) by simp
  ultimately show ?thesis using fwd D(7,8) assms(2) by (auto simp: dlist_get_node_def)
qed

lemma dlist_get_spec: "dlist_rep s xs \<Longrightarrow> dlist_get s i = Some (if i < length xs then xs ! i else NULL)"
proof -
  assume "dlist_rep s xs"
  then obtain ns where ns: "dshape s ns {}" "xs = map snd ns" by (auto simp: dlist_rep_def)
  note D = dshapeD[OF ns(1)]
  show ?thesis
  proof (cases "i < length ns")
    case True
    with dseg_lookup[OF D(2), of "ns ! i"] show ?thesis using D(7,8) ns dget_node_spec[OF ns(1) True]
      by (simp add: dlist_get_def)
  next
    case False
    then show ?thesis using D(7,8) ns by (simp add: dlist_get_def)
  qed
qed

lemma dlist_insert_spec:
  assumes rep: "dlist_rep s xs" and fr: "dlist_fresh s new"
  shows "\<exists>s'. dlist_insert s index new x = Some (RET_OK, s') \<and>
    dlist_rep s' (take index xs @ x # drop index xs) \<and>
    dlist_conf s' = dlist_conf s \<and> dl_destroyed s' = dl_destroyed s"
proof -
  obtain ns where ns: "dshape s ns {}" "xs = map snd ns" using rep by (auto simp: dlist_rep_def)
  note D = dshapeD[OF ns(1)]
  have "dshape s (take index ns @ drop index ns) {}" using ns by simp
  from dinsert_at_spec[OF this fr, of x] obtain s' where
    s': "dlist_insert_node (dlist_create_node s new x) new (addr_of (drop index ns) NULL) = Some s'"
      "dshape s' (take index ns @ (new, x) # drop index ns) {}" "dlist_conf s' = dlist_conf s" "dl_destroyed s' = dl_destroyed s"
    by blast
  have "dlist_rep s' (take index xs @ x # drop index xs)"
    using dlist_rep_between[OF s'(2)] ns(2) by (simp add: take_map drop_map)
  moreover have "dlist_insert s index new x = Some (RET_OK, s')"
  proof (cases "index < length ns")
    case True
    have "dlist_get_node (dlist_create_node s new x) index = Some (fst (ns ! index))"
      by (rule dget_node_spec[OF dcreate_node_shape(1)[OF ns(1) fr] True])
    moreover have "fst (ns ! index) \<noteq> NULL" using dseg_lookup[OF D(2), of "ns ! index"] True by simp
    ultimately show ?thesis using s'(1) fr True D(7,8) by (simp add: dlist_insert_def dlist_fresh_def addr_of_drop)
  next
    case False
    then show ?thesis using s'(1) fr D(7,8) by (simp add: dlist_insert_def dlist_fresh_def)
  qed
  ultimately show ?thesis using s' by blast
qed

lemma dfind_node_spec:
  "dshape s (order r (passed @ todo)) X \<Longrightarrow> dfind_node (dl_nodes s) r P (addr_of todo NULL) =
     Some (case find P (map snd todo) of None \<Rightarrow> NULL | Some d \<Rightarrow> d)"
proof (induction todo arbitrary: passed)
  case Nil
  then show ?case by (simp add: dfind_node.simps)
next
  case (Cons x todo)
  obtain a d where x: "x = (a, d)" by (cases x)
  obtain nd where hd: "a \<noteq> NULL" "dl_nodes s a = Some nd" "dn_data nd = d" "step_of r nd = addr_of todo NULL"
    using dshape_head[OF Cons.prems(1)[unfolded x]] by blast
  have "dshape s (order r ((passed @ [x]) @ todo)) X" using Cons.prems(1) by simp
  from Cons.IH[OF this] show ?case using hd x by (auto simp: dfind_node.simps[of _ _ _ a])
qed

lemma dlist_find_ex_spec:
  assumes "dlist_rep s xs"
  shows "dlist_find_ex s compare ctx r =
    Some (first_match (case compare of Some c \<Rightarrow> c | None \<Rightarrow> dl_compare s) ctx (order r xs))"
proof -
  obtain ns where ns: "dshape s ns {}" "xs = map snd ns" using assms by (auto simp: dlist_rep_def)
  have sh: "dshape s (order r ([] @ order r ns)) {}" using ns(1) by simp
  have "start_of r s = addr_of (order r ns) NULL" using start_of_order[of s r "order r ns"] ns(1) by simp
  then show ?thesis using dfind_node_spec[OF sh] ns(2) by (simp add: dlist_find_ex_def first_match_def)
qed

lemma dforeach_loop_spec:
  "dshape s (order r (passed @ todo)) {} \<Longrightarrow> visit_list visit ctx (map snd todo) ret = (v, c, keep, gone) \<Longrightarrow>
   \<exists>s' ks. dforeach_loop r visit ctx s (addr_of todo NULL) ret = Some (v, c, s') \<and>
     map snd ks = keep \<and> dshape s' (order r (passed @ ks)) {} \<and> dlist_conf s' = dlist_conf s \<and>
     dl_destroyed s' = dl_destroyed s @ live gone"
proof (induction todo arbitrary: s passed ctx ret v c keep gone)
  case Nil
  then show ?case by (auto simp: dforeach_loop.simps)
next
  case (Cons x todo)
  obtain a d where x: "x = (a, d)" by (cases x)
  obtain nd where hd: "a \<noteq> NULL" "dl_nodes s a = Some nd" "dn_data nd = d" "step_of r nd = addr_of todo NULL"
    using dshape_head[OF Cons.prems(1)[unfolded x]] by blast
  obtain v1 c1 where v: "visit ctx d = (v1, c1)" by (cases "visit ctx d")
  show ?case
  proof (cases "foreach_visit_result v1")
    case (Visit_next r1)
    obtain r2 c2 k2 g2 where vl: "visit_list visit c1 (map snd todo) r1 = (r2, c2, k2, g2)" by (metis prod_cases4)
    have "dshape s (order r ((passed @ [x]) @ todo)) {}" using Cons.prems(1) by simp
    from Cons.IH[OF this vl] obtain s' ks where
      "dforeach_loop r visit c1 s (addr_of todo NULL) r1 = Some (r2, c2, s')"
      "map snd ks = k2" "dshape s' (order r (passed @ x # ks)) {}" "dlist_conf s' = dlist_conf s"
      "dl_destroyed s' = dl_destroyed s @ live g2" using x by auto
    then show ?thesis using Cons.prems(2) hd x v vl Visit_next
      by (auto simp: dforeach_loop.simps[of _ _ _ _ a] intro!: exI[of _ "x # ks"])
  next
    case (Visit_remove r1)
    obtain r2 c2 k2 g2 where vl: "visit_list visit c1 (map snd todo) r1 = (r2, c2, k2, g2)" by (metis prod_cases4)
    obtain s1 s2 where s2: "dlist_remove_node s a = Some s1" "dlist_destroy_node s1 a = Some s2"
      "dshape s2 (order r (passed @ todo)) {}" "dlist_conf s2 = dlist_conf s" "dl_destroyed s2 = dl_destroyed s @ live [d]"
      using dunlink_order[OF Cons.prems(1)[unfolded x]] by blast
    from Cons.IH[OF s2(3) vl] show ?thesis using Cons.prems(2) hd x v vl s2 Visit_remove
      by (auto simp: dforeach_loop.simps[of _ _ _ _ a])
  next
    case (Visit_break r1)
    then show ?thesis using Cons.prems hd x v
      by (auto simp: dforeach_loop.simps[of _ _ _ _ a] intro!: exI[of _ "x # todo"])
  qed
qed

lemma dlist_foreach_both:
  assumes "dlist_rep s xs" and "visit_list visit ctx (order r xs) RET_OK = (v, c, keep, gone)"
  shows "\<exists>s'. (if r then dlist_foreach_reverse s visit ctx else dlist_foreach s visit ctx) = Some (v, c, s') \<and>
    dlist_rep s' (order r keep) \<and> dlist_conf s' = dlist_conf s \<and> dl_destroyed s' = dl_destroyed s @ live gone"
proof -
  obtain ns where ns: "dshape s ns {}" "xs = map snd ns" using assms(1) by (auto simp: dlist_rep_def)
  have sh: "dshape s (order r ([] @ order r ns)) {}" using ns(1) by simp
  have vl: "visit_list visit ctx (map snd (order r ns)) RET_OK = (v, c, keep, gone)" using assms(2) ns(2) by simp
  obtain s' ks where s': "dforeach_loop r visit ctx s (addr_of (order r ns) NULL) RET_OK = Some (v, c, s')"
    "map snd ks = keep" "dshape s' (order r ks) {}" "dlist_conf s' = dlist_conf s" "dl_destroyed s' = dl_destroyed s @ live gone"
    using dforeach_loop_spec[OF sh vl] by auto
  have "start_of r s = addr_of (order r ns) NULL" using start_of_order[of s r "order r ns"] ns(1) by simp
  moreover have "dlist_rep s' (order r keep)" using s'(2,3) unfolding dlist_rep_def
    by (intro exI[of _ "order r ks"]) auto
  ultimately show ?thesis using s'
    by (auto simp: dlist_foreach_def dlist_foreach_reverse_def start_of_def)
qed


text \<open>
  The reversal: behind the loop the nodes are chained backwards up to the current node, before it
  the old chain is intact.
\<close>

lemma dreverse_loop_spec:
  "dseg (dl_nodes s) (addr_of (rev pre) NULL) post NULL \<Longrightarrow> dseg (dl_nodes s) (addr_of post NULL) (rev pre) NULL \<Longrightarrow>
   distinct (map fst (pre @ post)) \<Longrightarrow>
   \<exists>h. dlist_reverse_loop s (addr_of post NULL) = Some (s\<lparr>dl_nodes := h\<rparr>) \<and>
     dseg h NULL (rev (pre @ post)) NULL \<and> dom h = dom (dl_nodes s)"
proof (induction post arbitrary: s pre)
  case Nil
  then show ?case by (auto simp: dlist_reverse_loop.simps intro!: exI[of _ "dl_nodes s"])
next
  case (Cons x post)
  obtain a d where x: "x = (a, d)" by (cases x)
  let ?nd = "\<lparr>dn_prev = addr_of post NULL, dn_next = addr_of (rev pre) NULL, dn_data = d\<rparr>"
  let ?h = "(dl_nodes s)(a \<mapsto> ?nd)"
  let ?s = "s\<lparr>dl_nodes := ?h\<rparr>"
  have a: "a \<noteq> NULL" "dl_nodes s a = Some \<lparr>dn_prev = addr_of (rev pre) NULL, dn_next = addr_of post NULL, dn_data = d\<rparr>"
    using Cons.prems(1) x by simp_all
  have fresh: "a \<notin> fst ` set post" "a \<notin> fst ` set (rev pre)" using Cons.prems(3) x by auto
  have "dseg ?h (addr_of (rev (pre @ [x])) NULL) post NULL"
    unfolding dseg_upd[OF fresh(1)] using Cons.prems(1) x by simp
  moreover have "dseg ?h (addr_of post NULL) (rev (pre @ [x])) NULL"
    using Cons.prems(2) x fresh(2) a(1) by simp
  moreover have "distinct (map fst ((pre @ [x]) @ post))" using Cons.prems(3) by simp
  ultimately obtain h where h: "dlist_reverse_loop ?s (addr_of post NULL) = Some (?s\<lparr>dl_nodes := h\<rparr>)"
    "dseg h NULL (rev (pre @ x # post)) NULL" "dom h = dom ?h"
    using Cons.IH[of ?s "pre @ [x]"] by (auto simp del: fun_upd_apply)
  have "dlist_reverse_loop s a = dlist_reverse_loop ?s (addr_of post NULL)"
    using a by (simp add: dlist_reverse_loop.simps[of s a] upd_node_def)
  moreover have "dom h = dom (dl_nodes s)" using h(3) a(2) by auto
  ultimately show ?case using h(1,2) x by (intro exI[of _ h]) simp
qed

lemma dlist_reverse_spec:
  assumes "dlist_rep s xs"
  shows "\<exists>s'. dlist_reverse s = Some (RET_OK, s') \<and> dlist_rep s' (rev xs) \<and>
    dlist_conf s' = dlist_conf s \<and> dl_destroyed s' = dl_destroyed s"
proof -
  obtain ns where ns: "dshape s ns {}" "xs = map snd ns" using assms by (auto simp: dlist_rep_def)
  note D = dshapeD[OF ns(1)]
  obtain h where h: "dlist_reverse_loop s (dl_first s) = Some (s\<lparr>dl_nodes := h\<rparr>)"
    "dseg h NULL (rev ns) NULL" "dom h = dom (dl_nodes s)"
    using dreverse_loop_spec[of s "[]" ns] D(1,2,5) by auto
  let ?s = "s\<lparr>dl_nodes := h, dl_first := dl_last s, dl_last := dl_first s\<rparr>"
  have "dshape ?s (rev ns) {}" using D h by (simp add: dshape_def rev_map[symmetric])
  then have "dlist_rep ?s (rev xs)" using ns(2) unfolding dlist_rep_def by (intro exI[of _ "rev ns"]) (simp add: rev_map)
  then show ?thesis using h(1) by (simp add: dlist_reverse_def dlist_conf_def)
qed

lemma dlist_ends_spec:
  assumes "dlist_rep s xs"
  shows "dlist_head s = Some (if xs = [] then NULL else hd xs)" "dlist_tail s = Some (if xs = [] then NULL else last xs)"
    "dlist_is_empty s \<longleftrightarrow> xs = []" "dlist_size s = int (length xs)"
proof -
  obtain ns where ns: "dshape s ns {}" "xs = map snd ns" using assms by (auto simp: dlist_rep_def)
  note D = dshapeD[OF ns(1)]
  show "dlist_head s = Some (if xs = [] then NULL else hd xs)"
    using D(2,5) ns(2) by (cases ns) (auto simp: dlist_head_def)
  show "dlist_tail s = Some (if xs = [] then NULL else last xs)"
    using D(2,6) ns(2) by (cases ns rule: rev_cases) (auto simp: dlist_tail_def)
  show "dlist_is_empty s \<longleftrightarrow> xs = []" "dlist_size s = int (length xs)"
    using D(7) ns(2) by (simp_all add: dlist_is_empty_def dlist_size_def)
qed

lemma dcount_nodes_spec:
  "dseg h p ns NULL \<Longrightarrow> dcount_nodes h P (addr_of ns NULL) n = Some (n + int (length (filter P (map snd ns))))"
proof (induction ns arbitrary: n p)
  case Nil
  then show ?case by (simp add: dcount_nodes.simps)
next
  case (Cons x ns)
  obtain a d where "x = (a, d)" by (cases x)
  with Cons show ?case by (auto simp: dcount_nodes.simps[of h P a])
qed

lemma dlist_count_spec:
  "dlist_rep s xs \<Longrightarrow> dlist_count s ctx = Some (int (length (filter (\<lambda>x. dl_compare s x ctx = 0) xs)))"
  using dcount_nodes_spec by (fastforce simp: dlist_rep_def dlist_count_def dshape_def)

lemma dlist_pop_spec:
  assumes "dlist_rep s xs"
  shows "\<exists>s'. dlist_pop s head = Some (if xs = [] then NULL else if head then hd xs else last xs, s') \<and>
    dlist_rep s' (if head then tl xs else butlast xs) \<and>
    dlist_conf s' = dlist_conf s \<and> dl_destroyed s' = dl_destroyed s"
proof -
  obtain ns where ns: "dshape s ns {}" "xs = map snd ns" using assms by (auto simp: dlist_rep_def)
  show ?thesis
  proof (cases "ns = []")
    case True
    then show ?thesis using ns dshapeD(5,6)[OF ns(1)] assms by (auto simp: dlist_pop_def)
  next
    case False
    then obtain pre a d post where split: "ns = pre @ (a, d) # post" "if head then pre = [] else post = []"
      by (cases head) (metis append_Nil list.exhaust prod.collapse, metis append_butlast_last_id prod.collapse)
    have sh: "dshape s (pre @ (a, d) # post) {}" using ns(1) split(1) by simp
    obtain s1 nd where s1: "dlist_remove_node s a = Some s1" "dshape s1 (pre @ post) {a}"
      "dl_nodes s1 a = Some nd" "dn_data nd = d" "dlist_conf s1 = dlist_conf s" "dl_destroyed s1 = dl_destroyed s"
      using dremove_node_spec[OF sh] by blast
    have a: "a \<noteq> NULL" "(if head then dl_first s else dl_last s) = a" using sh split(2) by (auto simp: dshape_def)
    let ?s = "s1\<lparr>dl_nodes := (dl_nodes s1)(a \<mapsto> nd\<lparr>dn_data := NULL\<rparr>)\<rparr>"
    have "dshape ?s (pre @ post) (insert a {})" using s1(2,3) by (auto simp: dshape_def image_Un)
    from ddestroy_node_spec[OF this _ a(1), of "nd\<lparr>dn_data := NULL\<rparr>"] obtain s' where
      s': "dlist_destroy_node ?s a = Some s'" "dshape s' (pre @ post) {}" "dlist_conf s' = dlist_conf ?s"
        "dl_destroyed s' = dl_destroyed ?s" by auto
    have "dlist_rep s' (if head then tl xs else butlast xs)"
      using s'(2) ns(2) split unfolding dlist_rep_def
      by (intro exI[of _ "pre @ post"]) (auto simp: butlast_append split: if_splits)
    moreover have "dlist_pop s head = Some (d, s')"
      using a s1(1,3,4) s'(1) by (simp add: dlist_pop_def Let_def upd_node_def)
    moreover have "d = (if xs = [] then NULL else if head then hd xs else last xs)"
      using ns(2) split by (auto split: if_splits)
    ultimately show ?thesis using s'(3,4) s1(5,6) by (simp add: dlist_conf_def)
  qed
qed

lemma ddestroy_nodes_spec:
  "dseg (dl_nodes s) p ns NULL \<Longrightarrow> distinct (map fst ns) \<Longrightarrow> dom (dl_nodes s) = fst ` set ns \<Longrightarrow>
   ddestroy_nodes s (addr_of ns NULL) =
     Some (s\<lparr>dl_nodes := \<lambda>_. None, dl_destroyed := dl_destroyed s @ live (map snd ns)\<rparr>)"
proof (induction ns arbitrary: s p)
  case Nil
  then show ?case by (simp add: ddestroy_nodes.simps)
next
  case (Cons x ns)
  obtain a d where x: "x = (a, d)" by (cases x)
  have a: "a \<noteq> NULL" "dl_nodes s a = Some \<lparr>dn_prev = p, dn_next = addr_of ns NULL, dn_data = d\<rparr>" "a \<notin> fst ` set ns"
    using Cons.prems x by auto
  obtain s1 where s1: "dlist_destroy_node s a = Some s1" "dl_nodes s1 = (dl_nodes s)(a := None)"
    "dl_destroyed s1 = dl_destroyed s @ live [d]" "s1 = s\<lparr>dl_nodes := dl_nodes s1, dl_destroyed := dl_destroyed s1\<rparr>"
    using a by (auto simp: dlist_destroy_node_def Let_def)
  have "ddestroy_nodes s1 (addr_of ns NULL) =
      Some (s1\<lparr>dl_nodes := \<lambda>_. None, dl_destroyed := dl_destroyed s1 @ live (map snd ns)\<rparr>)"
  proof (rule Cons.IH)
    show "dseg (dl_nodes s1) a ns NULL" unfolding s1(2) dseg_upd[OF a(3)] using Cons.prems(1) x by simp
    show "distinct (map fst ns)" using Cons.prems(2) by simp
    show "dom (dl_nodes s1) = fst ` set ns" unfolding s1(2) using Cons.prems(3) x a(3) by simp
  qed
  moreover have "s1\<lparr>dl_nodes := \<lambda>_. None, dl_destroyed := z\<rparr> = s\<lparr>dl_nodes := \<lambda>_. None, dl_destroyed := z\<rparr>" for z
    by (subst s1(4)) simp
  ultimately show ?case using a s1(1,3) x by (simp add: ddestroy_nodes.simps[of s a])
qed

lemma dlist_remove_all_spec:
  assumes "dlist_rep s xs"
  shows "\<exists>s'. dlist_remove_all s = Some (RET_OK, s') \<and> dlist_rep s' [] \<and> dlist_conf s' = dlist_conf s \<and>
    dl_destroyed s' = dl_destroyed s @ live xs"
proof -
  obtain ns where ns: "dshape s ns {}" "xs = map snd ns" using assms by (auto simp: dlist_rep_def)
  note D = dshapeD[OF ns(1)]
  show ?thesis
  proof (cases "ns = []")
    case True
    then show ?thesis using D(5) ns assms by (simp add: dlist_remove_all_def)
  next
    case False
    have "ddestroy_nodes (s\<lparr>dl_first := NULL\<rparr>) (addr_of ns NULL) =
        Some (s\<lparr>dl_first := NULL, dl_nodes := \<lambda>_. None, dl_destroyed := dl_destroyed s @ live xs\<rparr>)"
      using ddestroy_nodes_spec[of "s\<lparr>dl_first := NULL\<rparr>" NULL ns] D(1,2,3) ns(2) by simp
    then show ?thesis using False D(5) dshape_ends(1)[OF ns(1)]
      by (auto simp: dlist_remove_all_def dlist_rep_def dshape_def dlist_conf_def intro!: exI[of _ "[]"])
  qed
qed

lemma dlist_set_node_allocator_spec:
  assumes "dlist_rep s xs" and "dlist_set_node_allocator_impl s al shared = (r, s')"
  shows "dlist_rep s' xs"
    and "r = (if al = dl_node_allocator s \<or> xs = [] then RET_OK else RET_FAIL)"
    and "r = RET_OK \<Longrightarrow> dl_node_allocator s' = al \<and> dl_allocator_shared s' = shared"
    and "r \<noteq> RET_OK \<Longrightarrow> s' = s"
  using assms dlist_ends_spec(3)[OF assms(1)]
  by (auto simp: dlist_set_node_allocator_impl_def dlist_rep_def dshape_def split: if_splits)

section \<open>The contract of a list\<close>

interpretation dl: list_container dlist_rep dlist_fresh dl_destroyed dlist_append
  "\<lambda>s c ctx n. dlist_remove_ex s (Some c) ctx n False" "\<lambda>s c ctx. dlist_find_ex s (Some c) ctx False"
proof unfold_locales
  fix s xs new x
  assume "dlist_rep s xs" and "dlist_fresh s new"
  then show "\<exists>s'. dlist_append s new x = Some (RET_OK, s') \<and> dlist_rep s' (xs @ [x]) \<and> dl_destroyed s' = dl_destroyed s"
    using dlist_append_spec by blast
next
  fix s xs n and cmp :: compare_t and ctx keep gone m
  assume a: "dlist_rep s xs" "0 < n" "remove_n (\<lambda>x. cmp x ctx = 0) n xs = (keep, gone, m)"
  from dlist_remove_ex_spec[OF a(1), of n n "Some cmp" ctx False keep gone m] a(2,3)
  show "\<exists>s'. dlist_remove_ex s (Some cmp) ctx n False = Some (if gone = [] then RET_NOT_FOUND else RET_OK, s') \<and>
      dlist_rep s' keep \<and> dl_destroyed s' = dl_destroyed s @ live gone"
    by (auto simp: order_def)
qed (use dlist_find_ex_spec in \<open>simp_all add: dlist_append_def dlist_create_node_def order_def\<close>)

section \<open>The doubly linked list implements the list contract\<close>

fun dlist_adm :: "dlist \<Rightarrow> list_op \<Rightarrow> bool" where
  "dlist_adm s (Op_append new x) \<longleftrightarrow> new = NULL \<or> dlist_fresh s new"
| "dlist_adm s (Op_prepend new x) \<longleftrightarrow> new = NULL \<or> dlist_fresh s new"
| "dlist_adm s (Op_insert i new x) \<longleftrightarrow> new = NULL \<or> dlist_fresh s new"
| "dlist_adm s (Op_remove cmp ctx n) \<longleftrightarrow> 0 < n"
| "dlist_adm s op \<longleftrightarrow> True"

fun dlist_exec :: "dlist \<Rightarrow> list_op \<Rightarrow> (list_out \<times> dlist) option" where
  "dlist_exec s (Op_append new x) = map_option (\<lambda>(r, s'). ((r, NULL), s')) (dlist_append s new x)"
| "dlist_exec s (Op_prepend new x) = map_option (\<lambda>(r, s'). ((r, NULL), s')) (dlist_prepend s new x)"
| "dlist_exec s (Op_insert i new x) = map_option (\<lambda>(r, s'). ((r, NULL), s')) (dlist_insert s i new x)"
| "dlist_exec s (Op_remove cmp ctx n) = map_option (\<lambda>(r, s'). ((r, NULL), s')) (dlist_remove_ex s (Some cmp) ctx n False)"
| "dlist_exec s (Op_find cmp ctx) = map_option (\<lambda>p. ((RET_OK, p), s)) (dlist_find_ex s (Some cmp) ctx False)"
| "dlist_exec s (Op_get i) = map_option (\<lambda>p. ((RET_OK, p), s)) (dlist_get s i)"
| "dlist_exec s Op_head_pop = map_option (\<lambda>(p, s'). ((RET_OK, p), s')) (dlist_head_pop s)"
| "dlist_exec s Op_tail_pop = map_option (\<lambda>(p, s'). ((RET_OK, p), s')) (dlist_tail_pop s)"
| "dlist_exec s Op_reverse = map_option (\<lambda>(r, s'). ((r, NULL), s')) (dlist_reverse s)"
| "dlist_exec s Op_remove_all = map_option (\<lambda>(r, s'). ((r, NULL), s')) (dlist_remove_all s)"

lemma dlist_oom:
  "dlist_append s NULL x = Some (RET_OOM, s)" "dlist_prepend s NULL x = Some (RET_OOM, s)"
  "dlist_insert s i NULL x = Some (RET_OOM, s)"
  by (simp_all add: dlist_append_def dlist_prepend_def dlist_insert_def dlist_create_node_def)

lemma dlist_exec_law:
  assumes rep: "dlist_rep s xs" and adm: "dlist_adm s op" and ex: "list_exec op xs = (out, xs', gone)"
  shows "\<exists>s'. dlist_exec s op = Some (out, s') \<and> dlist_rep s' xs' \<and> dl_destroyed s' = dl_destroyed s @ gone"
proof (cases op)
  case (Op_append new x)
  then show ?thesis using dlist_append_spec[OF rep, of new x] rep adm ex by (cases "new = NULL") (auto simp: dlist_oom)
next
  case (Op_prepend new x)
  then show ?thesis using dlist_prepend_spec[OF rep, of new x] rep adm ex by (cases "new = NULL") (auto simp: dlist_oom)
next
  case (Op_insert i new x)
  then show ?thesis using dlist_insert_spec[OF rep, of new i x] rep adm ex by (cases "new = NULL") (auto simp: dlist_oom)
next
  case (Op_remove cmp ctx n)
  obtain keep gone' m where rn: "remove_n (\<lambda>x. cmp x ctx = 0) n xs = (keep, gone', m)" by (metis prod_cases3)
  show ?thesis
    using Op_remove adm ex rn dlist_remove_ex_spec[OF rep, of n n "Some cmp" ctx False keep gone' m]
    by (auto simp: order_def)
next
  case (Op_find cmp ctx)
  then show ?thesis using dlist_find_ex_spec[OF rep, of "Some cmp" ctx False] rep ex by (auto simp: order_def)
next
  case (Op_get i)
  then show ?thesis using dlist_get_spec[OF rep, of i] rep ex by auto
next
  case Op_head_pop
  then show ?thesis using dlist_pop_spec[OF rep, of True] ex by (auto simp: dlist_head_pop_def)
next
  case Op_tail_pop
  then show ?thesis using dlist_pop_spec[OF rep, of False] ex by (auto simp: dlist_tail_pop_def)
next
  case Op_reverse
  then show ?thesis using dlist_reverse_spec[OF rep] ex by auto
next
  case Op_remove_all
  then show ?thesis using dlist_remove_all_spec[OF rep] ex by auto
qed

interpretation dli: list_implementation dlist_rep dl_destroyed dlist_adm dlist_exec
  by unfold_locales (rule dlist_exec_law)

section \<open>Properties\<close>

lemmas dlist_eval = dlist_init_def dlist_fresh_def dlist_append_def dlist_prepend_def dlist_insert_def
  dlist_create_node_def dlist_insert_node_def dlist_get_node_def dlist_remove_ex_def step_of_def start_of_def
  dlist_remove_node_def dlist_destroy_node_def dlist_reverse_def dlist_tail_pop_def dlist_pop_def upd_node_def
  walk.simps dremove_ex_loop.simps dlist_reverse_loop.simps pointer_compare_def s32_def u32_def Let_def

text \<open>
  C2. The doubly linked list refines the same contract: every admissible sequence of operations
  keeps the forward and the backward chain consistent with one list of elements, never follows a
  NULL or dangling pointer, and returns and destroys what the plain list says.
\<close>

theorem dlist_refines_list:
  assumes "dlist_rep s xs" and "admissible_run dlist_adm dlist_exec s ops" and "list_run ops xs = (outs, ys, gone)"
  shows "\<exists>s'. impl_run dlist_exec s ops = Some (outs, s') \<and> dlist_rep s' ys \<and> dl_destroyed s' = dl_destroyed s @ gone"
  by (rule dli.run_refines[OF assms])

theorem dlist_refines_list_witness:
  "\<exists>s'. impl_run dlist_exec (dlist_init None)
      [Op_append 100 7, Op_prepend 108 9, Op_insert 1 116 8, Op_reverse, Op_remove pointer_compare 8 2, Op_tail_pop] =
    Some ([(RET_OK, 0), (RET_OK, 0), (RET_OK, 0), (RET_OK, 0), (RET_OK, 0), (RET_OK, 9)], s') \<and>
    dlist_rep s' [7] \<and> dl_destroyed s' = [8]"
proof -
  let ?ops = "[Op_append 100 7, Op_prepend 108 9, Op_insert 1 116 8, Op_reverse, Op_remove pointer_compare 8 2, Op_tail_pop]"
  have "admissible_run dlist_adm dlist_exec (dlist_init None) ?ops"
    by (simp add: dlist_eval cong: bind_weak_cong)
  moreover have "list_run ?ops [] =
    ([(RET_OK, 0), (RET_OK, 0), (RET_OK, 0), (RET_OK, 0), (RET_OK, 0), (RET_OK, 9)], [7], [8])"
    by code_simp
  moreover have "dl_destroyed (dlist_init None) = []" by (simp add: dlist_init_def)
  ultimately show ?thesis using dlist_refines_list[OF dlist_init_rep[of None], of ?ops] by auto
qed

text \<open>
  C7. A visitor of the doubly linked list, in either direction: the list is traversed completely
  or up to the status that stops it, the elements the visitor answers \<open>RET_REMOVE\<close> for are
  unlinked and destroyed during the traversal, and all others stay, in their order.
\<close>

theorem dlist_foreach_protocol:
  assumes "dlist_rep s xs" and "visit_list visit ctx (if backwards then rev xs else xs) RET_OK = (v, c, keep, gone)"
  shows "\<exists>s'. (if backwards then dlist_foreach_reverse s visit ctx else dlist_foreach s visit ctx) = Some (v, c, s') \<and>
    dlist_rep s' (if backwards then rev keep else keep) \<and> dl_destroyed s' = dl_destroyed s @ live gone"
  using dlist_foreach_both[OF assms(1), of visit ctx backwards v c keep gone] assms(2) unfolding order_def by blast

theorem dlist_foreach_protocol_witness:
  "\<exists>s0 s'. dlist_rep s0 [7] \<and>
    dlist_foreach_reverse s0 (\<lambda>n p. (if p = 7 then RET_REMOVE else RET_OK, Suc n)) 0 = Some (RET_OK, 1, s') \<and>
    dlist_rep s' [] \<and> dl_destroyed s' = dl_destroyed s0 @ [7]"
proof -
  have "dlist_fresh (dlist_init None) 100" by code_simp
  from dlist_append_spec[OF dlist_init_rep[of None] this, of 7] obtain s0 where s0: "dlist_rep s0 [7]" by auto
  let ?visit = "\<lambda>n p. (if p = 7 then RET_REMOVE else RET_OK, Suc n)"
  have "visit_list ?visit 0 [7] RET_OK = (RET_OK, 1, [], [7])" by (simp add: foreach_visit_result_def)
  with dlist_foreach_protocol[OF s0, of ?visit 0 True RET_OK 1 "[]" "[7]"] s0 show ?thesis by auto
qed

end
