(* ===== verification/Circular.thy ===== *)
theory Circular
  imports AwtkPrelude
begin

text \<open>
  Cyclic storage, shared by the ring buffer and the event queue: the elements that lie in an array
  from a position on, around its end, and the contract of a first-in first-out channel.
\<close>

section \<open>Reading and writing around the end of an array\<close>

definition circ :: "nat \<Rightarrow> nat \<Rightarrow> 'a list \<Rightarrow> 'a list" where
  "circ r n d = map (\<lambda>i. d ! ((r + i) mod length d)) [0..<n]"

text \<open>\<open>memcpy(d + off, xs, n)\<close>\<close>

definition overwrite :: "'a list \<Rightarrow> nat \<Rightarrow> 'a list \<Rightarrow> 'a list" where
  "overwrite d off xs = take off d @ xs @ drop (off + length xs) d"

lemma length_circ [simp]: "length (circ r n d) = n"
  by (simp add: circ_def)

lemma nth_circ [simp]: "i < n \<Longrightarrow> circ r n d ! i = d ! ((r + i) mod length d)"
  by (simp add: circ_def)

lemma circ_0 [simp]: "circ r 0 d = []"
  by (simp add: circ_def)

lemma length_overwrite [simp]: "off + length xs \<le> length d \<Longrightarrow> length (overwrite d off xs) = length d"
  by (simp add: overwrite_def)

lemma nth_overwrite:
  "off + length xs \<le> length d \<Longrightarrow> i < length d \<Longrightarrow>
   overwrite d off xs ! i = (if off \<le> i \<and> i < off + length xs then xs ! (i - off) else d ! i)"
  by (auto simp: overwrite_def nth_append)

lemma take_circ: "k \<le> n \<Longrightarrow> take k (circ r n d) = circ r k d"
  by (rule nth_equalityI) auto

lemma drop_circ: "drop k (circ r n d) = circ ((r + k) mod length d) (n - k) d"
  by (rule nth_equalityI) (auto simp: mod_simps ac_simps)

lemma mod_once: "r < l \<Longrightarrow> a < l \<Longrightarrow> (r + a) mod l = (if r + a < l then r + a else r + a - (l :: nat))"
  by (simp add: le_mod_geq)

lemma mod_return:
  assumes "r < c" and "0 < k" and "k \<le> (c :: nat)"
  shows "r = (r + k) mod c \<longleftrightarrow> k = c"
  using assms by (cases "k = c") (auto simp: mod_once)

lemma mod_add_cancel_less:
  assumes "(r + a) mod l = (r + b) mod (l :: nat)" and "a < l" "b < l"
  shows "a = b"
proof -
  have "r mod l < l" using assms(2) by simp
  moreover have "(r mod l + a) mod l = (r mod l + b) mod l" using assms(1) by (simp add: mod_simps)
  ultimately show ?thesis using assms(2,3) by (simp add: mod_once split: if_splits)
qed

lemma circ_append: "circ r n d @ circ ((r + n) mod length d) m d = circ r (n + m) d"
proof -
  have "circ r (n + m) d = take n (circ r (n + m) d) @ drop n (circ r (n + m) d)" by simp
  then show ?thesis unfolding drop_circ by (simp add: take_circ)
qed

lemma circ_slice: "r + n \<le> length d \<Longrightarrow> circ r n d = take n (drop r d)"
proof (rule nth_equalityI)
  fix i assume a: "r + n \<le> length d" and "i < length (circ r n d)"
  then have "i < n" "(r + i) mod length d = r + i" by auto
  then show "circ r n d ! i = take n (drop r d) ! i" using a by simp
qed auto

lemma circ_wrap:
  assumes "r < length d" and "length d - r \<le> n" and "n \<le> length d"
  shows "circ r n d = drop r d @ take (n - (length d - r)) d"
proof -
  let ?k = "length d - r"
  have "circ r n d = circ r ?k d @ circ ((r + ?k) mod length d) (n - ?k) d"
    using circ_append[of r ?k d "n - ?k"] assms by simp
  moreover have "circ r ?k d = drop r d" using circ_slice[of r ?k d] assms by simp
  moreover have "circ ((r + ?k) mod length d) (n - ?k) d = take (n - ?k) d"
    using circ_slice[of 0 "n - ?k" d] assms by simp
  ultimately show ?thesis by simp
qed

text \<open>Writing behind the stored elements appends, when there is room for what is written.\<close>

lemma circ_overwrite:
  assumes "0 < length d" and "n + length xs \<le> length d" and "off = (r + n) mod length d" and "off + length xs \<le> length d"
  shows "circ r n (overwrite d off xs) = circ r n d"
    and "circ r (n + length xs) (overwrite d off xs) = circ r n d @ xs"
proof -
  let ?d = "overwrite d off xs" and ?l = "length d"
  have len: "length ?d = ?l" using assms(4) by simp
  have keep: "?d ! ((r + i) mod ?l) = d ! ((r + i) mod ?l)" if "i < n" for i
  proof -
    have "\<not> (off \<le> (r + i) mod ?l \<and> (r + i) mod ?l < off + length xs)"
    proof
      assume a: "off \<le> (r + i) mod ?l \<and> (r + i) mod ?l < off + length xs"
      let ?j = "(r + i) mod ?l - off"
      have j: "?j < length xs" "off + ?j = (r + i) mod ?l" using a by auto
      have "(r + i) mod ?l = (r + (n + ?j)) mod ?l"
        using j(2) assms(3) by (metis add.assoc mod_add_left_eq mod_mod_trivial)
      moreover have "i < ?l" "n + ?j < ?l" using j(1) that assms(2) by auto
      ultimately have "i = n + ?j" by (rule mod_add_cancel_less)
      then show False using that by simp
    qed
    then show ?thesis using nth_overwrite[OF assms(4), of "(r + i) mod ?l"] assms(1) by auto
  qed
  then show c: "circ r n ?d = circ r n d" using len by (simp add: circ_def)
  have "circ off (length xs) ?d = xs"
    using circ_slice[of off "length xs" ?d] len assms(4) by (simp add: overwrite_def)
  then show "circ r (n + length xs) ?d = circ r n d @ xs"
    using circ_append[of r n ?d "length xs"] c len assms(3) by simp
qed

section \<open>First in, first out\<close>

primrec run_ops :: "('s \<Rightarrow> 'op \<Rightarrow> 'out \<times> 's) \<Rightarrow> 's \<Rightarrow> 'op list \<Rightarrow> ('op \<times> 'out) list \<times> 's" where
  "run_ops exec s [] = ([], s)"
| "run_ops exec s (op # ops) =
     (case exec s op of (out, s1) \<Rightarrow> (case run_ops exec s1 ops of (tr, s2) \<Rightarrow> ((op, out) # tr, s2)))"

text \<open>
  A channel executes operations; each one accepts some elements and delivers some. The law: what
  was stored followed by what is accepted is what is delivered followed by what is stored then.
\<close>

locale fifo =
  fixes inv :: "'s \<Rightarrow> bool"
    and contents :: "'s \<Rightarrow> 'a list"
    and exec :: "'s \<Rightarrow> 'op \<Rightarrow> 'out \<times> 's"
    and accepted :: "'op \<Rightarrow> 'out \<Rightarrow> 'a list"
    and delivered :: "'op \<Rightarrow> 'out \<Rightarrow> 'a list"
    and valid_op :: "'op \<Rightarrow> bool"
  assumes exec_inv: "inv s \<Longrightarrow> valid_op op \<Longrightarrow> exec s op = (out, s') \<Longrightarrow> inv s'"
    and exec_law: "inv s \<Longrightarrow> valid_op op \<Longrightarrow> exec s op = (out, s') \<Longrightarrow>
      contents s @ accepted op out = delivered op out @ contents s'"
begin

text \<open>However sends and receives are interleaved, the elements come out in the order they went in.\<close>

lemma run_fifo:
  "inv s \<Longrightarrow> list_all valid_op ops \<Longrightarrow> run_ops exec s ops = (tr, s') \<Longrightarrow>
   inv s' \<and> contents s @ concat (map (\<lambda>(op, out). accepted op out) tr) =
     concat (map (\<lambda>(op, out). delivered op out) tr) @ contents s'"
proof (induction ops arbitrary: s tr)
  case (Cons op ops)
  obtain out s1 where e: "exec s op = (out, s1)" by fastforce
  obtain tr1 s2 where r: "run_ops exec s1 ops = (tr1, s2)" by fastforce
  have "inv s1" using exec_inv[OF Cons.prems(1) _ e] Cons.prems(2) by simp
  from Cons.IH[OF this, of tr1] Cons.prems(2,3) e r
  have ih: "inv s'" "contents s1 @ concat (map (\<lambda>(op, out). accepted op out) tr1) =
      concat (map (\<lambda>(op, out). delivered op out) tr1) @ contents s'" "tr = (op, out) # tr1" by auto
  let ?a = "concat (map (\<lambda>(op, out). accepted op out) tr1)"
  have "contents s @ accepted op out = delivered op out @ contents s1"
    using exec_law[OF Cons.prems(1) _ e] Cons.prems(2) by simp
  then have "(contents s @ accepted op out) @ ?a = delivered op out @ contents s1 @ ?a" by simp
  then show ?case unfolding ih(2) using ih(1,3) by simp
qed simp

end

end
