(* ===== verification/RingBuffer.thy ===== *)
theory RingBuffer
  imports Circular
begin

text \<open>
  The byte ring buffer of \<open>src/src/tkc/ring_buffer.c\<close>. The cursors are unsigned 32-bit
  numbers; sums that the code forms are reduced with \<open>u32\<close>. A block of memory comes with
  arbitrary contents from the parameter \<open>alloc\<close>; \<open>None\<close> is a failed allocation.

  Shown: the buffer is a queue of bytes. Reading delivers the oldest bytes, writing appends as many
  bytes as there is room for after growing, growing keeps the contents, and over any sequence of
  operations the bytes come out in the order they went in.
\<close>

section \<open>State\<close>

type_synonym balloc_t = "nat \<Rightarrow> byte list option"

record ring_buffer =
  rb_r :: nat
  rb_w :: nat
  rb_full :: bool
  rb_capacity :: nat
  rb_max_capacity :: nat
  rb_data :: "byte list"

section \<open>Operations\<close>

text \<open>The flag \<open>self\<close> says whether the structure itself is allocated.\<close>

definition ring_buffer_create :: "bool \<Rightarrow> balloc_t \<Rightarrow> nat \<Rightarrow> nat \<Rightarrow> ring_buffer option" where
  "ring_buffer_create self alloc init_capacity max_capacity =
     (if init_capacity \<ge> 32 \<and> self then
        (case alloc init_capacity of
           Some data \<Rightarrow> Some \<lparr>rb_r = 0, rb_w = 0, rb_full = False, rb_capacity = init_capacity,
             rb_max_capacity = max init_capacity max_capacity, rb_data = replicate init_capacity 0\<rparr>
         | None \<Rightarrow> None)
      else None)"

definition ring_buffer_is_full :: "ring_buffer \<Rightarrow> bool" where
  "ring_buffer_is_full s = rb_full s"

definition ring_buffer_is_empty :: "ring_buffer \<Rightarrow> bool" where
  "ring_buffer_is_empty s \<longleftrightarrow> \<not> rb_full s \<and> rb_r s = rb_w s"

definition ring_buffer_size :: "ring_buffer \<Rightarrow> nat" where
  "ring_buffer_size s =
     (if rb_full s then rb_capacity s
      else if rb_w s \<ge> rb_r s then rb_w s - rb_r s
      else rb_capacity s - (rb_r s - rb_w s))"

definition ring_buffer_free_size :: "ring_buffer \<Rightarrow> nat" where
  "ring_buffer_free_size s = rb_capacity s - ring_buffer_size s"

definition ring_buffer_reset :: "ring_buffer \<Rightarrow> ret_t \<times> ring_buffer" where
  "ring_buffer_reset s =
     (RET_OK, s\<lparr>rb_full := False, rb_r := rb_w s, rb_data := replicate (rb_capacity s) 0\<rparr>)"

definition ring_buffer_set_read_cursor :: "ring_buffer \<Rightarrow> nat \<Rightarrow> ring_buffer" where
  "ring_buffer_set_read_cursor s r = s\<lparr>rb_r := r mod rb_capacity s, rb_full := False\<rparr>"

definition ring_buffer_set_read_cursor_delta :: "ring_buffer \<Rightarrow> nat \<Rightarrow> ring_buffer" where
  "ring_buffer_set_read_cursor_delta s r_delta = ring_buffer_set_read_cursor s (u32 (rb_r s + r_delta))"

definition ring_buffer_set_write_cursor :: "ring_buffer \<Rightarrow> nat \<Rightarrow> ring_buffer" where
  "ring_buffer_set_write_cursor s w =
     (let s = s\<lparr>rb_w := w mod rb_capacity s\<rparr>
      in if rb_r s = rb_w s then s\<lparr>rb_full := True\<rparr> else s)"

definition ring_buffer_set_write_cursor_delta :: "ring_buffer \<Rightarrow> nat \<Rightarrow> ring_buffer" where
  "ring_buffer_set_write_cursor_delta s w_delta = ring_buffer_set_write_cursor s (u32 (rb_w s + w_delta))"

text \<open>The bytes copied to the caller; their number is the result of the C function.\<close>

definition ring_buffer_read :: "ring_buffer \<Rightarrow> nat \<Rightarrow> byte list \<times> ring_buffer" where
  "ring_buffer_read s sz =
     (if sz = 0 then ([], s)
      else if rb_r s \<noteq> rb_w s \<or> rb_full s then
        (let s0 = s\<lparr>rb_full := False\<rparr>
         in if rb_r s < rb_w s then
              (let rsize = min (rb_w s - rb_r s) sz
               in (take rsize (drop (rb_r s) (rb_data s)), ring_buffer_set_read_cursor_delta s0 rsize))
            else
              (let rsize = min (rb_capacity s - rb_r s) sz;
                   out = take rsize (drop (rb_r s) (rb_data s));
                   s1 = ring_buffer_set_read_cursor_delta s0 rsize
               in if rsize < sz then
                    (let rsize2 = min (rb_w s1) (sz - rsize)
                     in (out @ take rsize2 (rb_data s1), ring_buffer_set_read_cursor s1 rsize2))
                  else (out, s1)))
      else ([], s))"

definition ring_buffer_peek :: "ring_buffer \<Rightarrow> nat \<Rightarrow> byte list \<times> ring_buffer" where
  "ring_buffer_peek s sz =
     (case ring_buffer_read s sz of (out, s1) \<Rightarrow> (out, s1\<lparr>rb_r := rb_r s, rb_full := rb_full s\<rparr>))"

definition ring_buffer_read_len :: "ring_buffer \<Rightarrow> nat \<Rightarrow> ret_t \<times> byte list \<times> ring_buffer" where
  "ring_buffer_read_len s sz =
     (if ring_buffer_size s \<ge> sz then
        (case ring_buffer_read s sz of (out, s1) \<Rightarrow> (if length out = sz then RET_OK else RET_FAIL, out, s1))
      else (RET_FAIL, [], s))"

definition ring_buffer_skip :: "ring_buffer \<Rightarrow> nat \<Rightarrow> ret_t \<times> ring_buffer" where
  "ring_buffer_skip s sz =
     (if ring_buffer_size s \<ge> sz \<and> sz > 0 then
        (RET_OK, s\<lparr>rb_full := False, rb_r := u32 (rb_r s + sz) mod rb_capacity s\<rparr>)
      else (RET_FAIL, s))"

definition ring_buffer_ensure_write_space :: "balloc_t \<Rightarrow> ring_buffer \<Rightarrow> nat \<Rightarrow> ret_t \<times> ring_buffer" where
  "ring_buffer_ensure_write_space alloc s sz =
     (let free_size = ring_buffer_free_size s
      in if free_size \<ge> sz then (RET_OK, s)
         else if rb_capacity s = rb_max_capacity s then (RET_FAIL, s)
         else (let old_size = ring_buffer_size s;
                   capacity = u32 (rb_capacity s + (sz - free_size))
               in if capacity \<le> rb_max_capacity s then
                    (case alloc capacity of
                       None \<Rightarrow> (RET_OOM, s)
                     | Some data \<Rightarrow>
                         (case ring_buffer_read_len s old_size of (ret, out, s1) \<Rightarrow>
                            if ret = RET_OK then
                              (RET_OK, s1\<lparr>rb_r := 0, rb_w := old_size, rb_data := overwrite data 0 out,
                                          rb_capacity := capacity\<rparr>)
                            else (RET_FAIL, s1)))
                  else (RET_FAIL, s)))"

definition ring_buffer_write :: "balloc_t \<Rightarrow> ring_buffer \<Rightarrow> byte list \<Rightarrow> nat \<times> ring_buffer" where
  "ring_buffer_write alloc s0 buff =
     (let sz = length buff;
          s = snd (ring_buffer_ensure_write_space alloc s0 sz)
      in if sz = 0 \<or> ring_buffer_free_size s = 0 then (0, s)
         else if rb_r s \<noteq> rb_w s \<or> \<not> rb_full s then
           (if rb_w s < rb_r s then
              (let rsize = min (rb_r s - rb_w s) sz
               in (rsize, ring_buffer_set_write_cursor_delta
                            (s\<lparr>rb_data := overwrite (rb_data s) (rb_w s) (take rsize buff)\<rparr>) rsize))
            else
              (let rsize = min (rb_capacity s - rb_w s) sz;
                   s1 = ring_buffer_set_write_cursor_delta
                          (s\<lparr>rb_data := overwrite (rb_data s) (rb_w s) (take rsize buff)\<rparr>) rsize
               in if rsize < sz then
                    (let rsize2 = min (rb_r s1) (sz - rsize)
                     in (rsize + rsize2,
                         ring_buffer_set_write_cursor
                           (s1\<lparr>rb_data := overwrite (rb_data s1) 0 (take rsize2 (drop rsize buff))\<rparr>) rsize2))
                  else (rsize, s1)))
         else (0, s))"

definition ring_buffer_write_len :: "balloc_t \<Rightarrow> ring_buffer \<Rightarrow> byte list \<Rightarrow> ret_t \<times> ring_buffer" where
  "ring_buffer_write_len alloc s buff =
     (case ring_buffer_ensure_write_space alloc s (length buff) of (ret, s1) \<Rightarrow>
        if ret = RET_OK then
          (case ring_buffer_write alloc s1 buff of (n, s2) \<Rightarrow> (if n = length buff then RET_OK else RET_FAIL, s2))
        else (RET_FAIL, s1))"

section \<open>The queue of bytes\<close>

definition rb_inv :: "ring_buffer \<Rightarrow> bool" where
  "rb_inv s \<longleftrightarrow> 0 < rb_capacity s \<and> length (rb_data s) = rb_capacity s \<and> rb_r s < rb_capacity s \<and>
     rb_w s < rb_capacity s \<and> rb_capacity s \<le> rb_max_capacity s \<and> rb_max_capacity s < 2 ^ 31 \<and>
     (rb_full s \<longrightarrow> rb_r s = rb_w s)"

definition rb_contents :: "ring_buffer \<Rightarrow> byte list" where
  "rb_contents s = circ (rb_r s) (ring_buffer_size s) (rb_data s)"

text \<open>The write cursor is the read cursor plus the size, around the end.\<close>

definition rb_at :: "ring_buffer \<Rightarrow> nat \<Rightarrow> bool" where
  "rb_at s n \<longleftrightarrow> n \<le> rb_capacity s \<and> rb_w s = (rb_r s + n) mod rb_capacity s \<and> (rb_full s \<longleftrightarrow> n = rb_capacity s)"

lemma rb_at_size: "rb_inv s \<Longrightarrow> rb_at s (ring_buffer_size s)"
  by (auto simp: rb_inv_def rb_at_def ring_buffer_size_def mod_once)

lemma rb_at_D: "rb_inv s \<Longrightarrow> rb_at s n \<Longrightarrow> ring_buffer_size s = n"
  by (cases "n = rb_capacity s") (auto simp: rb_inv_def rb_at_def ring_buffer_size_def mod_once split: if_splits)

lemma rb_size_le: "rb_inv s \<Longrightarrow> ring_buffer_size s \<le> rb_capacity s"
  using rb_at_size by (auto simp: rb_at_def)

lemma rb_contents_length [simp]: "length (rb_contents s) = ring_buffer_size s"
  by (simp add: rb_contents_def)

lemma rb_flags:
  assumes "rb_inv s"
  shows "ring_buffer_is_empty s \<longleftrightarrow> rb_contents s = []" "ring_buffer_is_full s \<longleftrightarrow> length (rb_contents s) = rb_capacity s"
    "ring_buffer_free_size s = rb_capacity s - length (rb_contents s)"
proof -
  have "ring_buffer_size s = 0 \<longleftrightarrow> \<not> rb_full s \<and> rb_r s = rb_w s"
    using assms by (auto simp: rb_inv_def ring_buffer_size_def split: if_splits)
  then show "ring_buffer_is_empty s \<longleftrightarrow> rb_contents s = []"
    by (metis length_0_conv rb_contents_length ring_buffer_is_empty_def)
  show "ring_buffer_is_full s \<longleftrightarrow> length (rb_contents s) = rb_capacity s"
    using rb_at_size[OF assms] by (simp add: rb_at_def ring_buffer_is_full_def)
qed (simp add: ring_buffer_free_size_def)

lemma ring_buffer_create_spec:
  assumes "ring_buffer_create self alloc n m = Some s" and "max n m < 2 ^ 31"
  shows "rb_inv s" and "rb_contents s = []"
  using assms by (auto simp: ring_buffer_create_def rb_inv_def rb_contents_def ring_buffer_size_def
      split: if_splits option.splits)

lemma ring_buffer_reset_spec:
  "rb_inv s \<Longrightarrow> rb_inv (snd (ring_buffer_reset s)) \<and> rb_contents (snd (ring_buffer_reset s)) = []"
  by (auto simp: ring_buffer_reset_def rb_inv_def rb_contents_def ring_buffer_size_def)

text \<open>Moving the read cursor over the oldest \<open>k\<close> bytes drops them.\<close>

lemma rb_advance:
  assumes inv: "rb_inv s" and k: "0 < k" "k \<le> ring_buffer_size s"
    and s': "s' = s\<lparr>rb_r := (rb_r s + k) mod rb_capacity s, rb_full := False\<rparr>"
  shows "rb_inv s'" and "rb_contents s' = drop k (rb_contents s)"
proof -
  let ?n = "ring_buffer_size s"
  have at: "rb_at s ?n" by (rule rb_at_size[OF inv])
  show i: "rb_inv s'" using inv s' by (auto simp: rb_inv_def)
  have "rb_w s = (rb_r s + k + (?n - k)) mod rb_capacity s" using at k(2) by (simp add: rb_at_def)
  then have "rb_w s = ((rb_r s + k) mod rb_capacity s + (?n - k)) mod rb_capacity s"
    unfolding mod_add_left_eq .
  then have "rb_at s' (?n - k)" using at k s' unfolding rb_at_def by auto
  then have "ring_buffer_size s' = ?n - k" by (rule rb_at_D[OF i])
  then show "rb_contents s' = drop k (rb_contents s)"
    using s' inv by (simp add: rb_contents_def drop_circ rb_inv_def)
qed


text \<open>Reading delivers the oldest bytes and drops them.\<close>

lemma ring_buffer_read_spec:
  assumes inv: "rb_inv s" and rd: "ring_buffer_read s n = (out, s')"
  shows "out = take n (rb_contents s)" "rb_inv s'" "rb_contents s' = drop n (rb_contents s)"
    "rb_capacity s' = rb_capacity s \<and> rb_max_capacity s' = rb_max_capacity s \<and> rb_data s' = rb_data s \<and> rb_w s' = rb_w s"
proof -
  let ?size = "ring_buffer_size s" and ?cap = "rb_capacity s"
  define k where "k = min ?size n"
  have I: "length (rb_data s) = ?cap" "rb_r s < ?cap" "rb_w s < ?cap" "?cap < 2 ^ 31" "rb_full s \<longrightarrow> rb_r s = rb_w s"
    using inv by (auto simp: rb_inv_def)
  have tk: "take n (rb_contents s) = circ (rb_r s) k (rb_data s)" "drop n (rb_contents s) = drop k (rb_contents s)"
    using take_circ[of n ?size "rb_r s" "rb_data s"] by (auto simp: k_def rb_contents_def min_def take_circ)
  have "out = circ (rb_r s) k (rb_data s) \<and>
    (k = 0 \<and> s' = s \<or> 0 < k \<and> s' = s\<lparr>rb_r := (rb_r s + k) mod ?cap, rb_full := False\<rparr>)"
  proof (cases "n = 0 \<or> \<not> (rb_r s \<noteq> rb_w s \<or> rb_full s)")
    case True
    then have "k = 0" using rb_flags(1)[OF inv] by (auto simp: k_def ring_buffer_size_def)
    then show ?thesis using rd True by (auto simp: ring_buffer_read_def split: if_splits)
  next
    case False
    show ?thesis
    proof (cases "rb_r s < rb_w s")
      case True
      then have k: "k = min (rb_w s - rb_r s) n" "0 < k" using False I by (auto simp: k_def ring_buffer_size_def)
      have "out = take k (drop (rb_r s) (rb_data s))" "s' = s\<lparr>rb_r := (rb_r s + k) mod ?cap, rb_full := False\<rparr>"
        using rd False True I k
        by (auto simp: ring_buffer_read_def Let_def ring_buffer_set_read_cursor_delta_def ring_buffer_set_read_cursor_def)
      moreover have "rb_r s + k \<le> length (rb_data s)" using k I True by auto
      ultimately show ?thesis using circ_slice k(2) by metis
    next
      case ge: False
      then have size: "?size = ?cap - rb_r s + rb_w s" using False I by (auto simp: ring_buffer_size_def)
      show ?thesis
      proof (cases "n \<le> ?cap - rb_r s")
        case True
        then have k: "k = n" "0 < k" using size False by (auto simp: k_def)
        have "out = take k (drop (rb_r s) (rb_data s))" "s' = s\<lparr>rb_r := (rb_r s + k) mod ?cap, rb_full := False\<rparr>"
          using rd False ge I k True min_absorb2[OF True]
          by (auto simp: ring_buffer_read_def Let_def ring_buffer_set_read_cursor_delta_def ring_buffer_set_read_cursor_def
              split: if_splits)
        moreover have "rb_r s + k \<le> length (rb_data s)" using k I True by auto
        ultimately show ?thesis using circ_slice k(2) by metis
      next
        case more: False
        let ?m = "?cap - rb_r s" and ?k2 = "min (rb_w s) (n - (?cap - rb_r s))"
        have k: "k = ?m + ?k2" "0 < k" using size more I by (auto simp: k_def)
        have "(rb_r s + k) mod ?cap = ?k2 mod ?cap" using k(1) I(2) by simp
        moreover have m: "min ?m n = ?m" "?m < n" "rb_r s + ?m < 2 ^ 32" "rb_r s + ?m = ?cap" using more I by simp_all
        have "ring_buffer_read s n = (drop (rb_r s) (rb_data s) @ take ?k2 (rb_data s),
            s\<lparr>rb_r := ?k2 mod ?cap, rb_full := False\<rparr>)"
          unfolding ring_buffer_read_def Let_def ring_buffer_set_read_cursor_delta_def ring_buffer_set_read_cursor_def m(1)
          using m ge False I(1) by (simp only: if_False if_True) simp
        ultimately have "out = drop (rb_r s) (rb_data s) @ take ?k2 (rb_data s)"
          "s' = s\<lparr>rb_r := (rb_r s + k) mod ?cap, rb_full := False\<rparr>"
          using rd by simp_all
        moreover have "circ (rb_r s) k (rb_data s) = drop (rb_r s) (rb_data s) @ take (k - (length (rb_data s) - rb_r s)) (rb_data s)"
        proof (rule circ_wrap)
          have "k \<le> ?cap" using rb_size_le[OF inv] by (simp add: k_def)
          then show "k \<le> length (rb_data s)" using I(1) by simp
        qed (use I k in simp_all)
        ultimately show ?thesis using k I(1) by simp
      qed
    qed
  qed
  then have out: "out = circ (rb_r s) k (rb_data s)"
    and st: "k = 0 \<and> s' = s \<or> 0 < k \<and> s' = s\<lparr>rb_r := (rb_r s + k) mod ?cap, rb_full := False\<rparr>" by simp_all
  show "out = take n (rb_contents s)" using out tk by simp
  have "k \<le> ?size" by (simp add: k_def)
  with st show "rb_inv s'" "rb_contents s' = drop n (rb_contents s)"
    unfolding tk(2) using inv rb_advance[OF inv, of k s'] by auto
  show "rb_capacity s' = rb_capacity s \<and> rb_max_capacity s' = rb_max_capacity s \<and> rb_data s' = rb_data s \<and> rb_w s' = rb_w s"
    using st by auto
qed

lemma ring_buffer_peek_spec:
  assumes "rb_inv s"
  shows "ring_buffer_peek s n = (take n (rb_contents s), s)"
proof -
  obtain out s1 where rd: "ring_buffer_read s n = (out, s1)" by fastforce
  note R = ring_buffer_read_spec[OF assms rd]
  have "s1\<lparr>rb_r := rb_r s, rb_full := rb_full s\<rparr> = s" using R(4) by (cases s; cases s1) simp
  then show ?thesis using rd R(1) by (simp add: ring_buffer_peek_def)
qed

lemma ring_buffer_skip_spec:
  assumes inv: "rb_inv s" and sk: "ring_buffer_skip s n = (r, s')"
  shows "r = (if 0 < n \<and> n \<le> length (rb_contents s) then RET_OK else RET_FAIL)" "rb_inv s'"
    "rb_contents s' = (if r = RET_OK then drop n (rb_contents s) else rb_contents s)"
proof -
  show r: "r = (if 0 < n \<and> n \<le> length (rb_contents s) then RET_OK else RET_FAIL)"
    using sk by (auto simp: ring_buffer_skip_def split: if_splits)
  have "rb_inv s' \<and> rb_contents s' = (if r = RET_OK then drop n (rb_contents s) else rb_contents s)"
  proof (cases "r = RET_OK")
    case True
    then have n: "0 < n" "n \<le> ring_buffer_size s" using r by (auto split: if_splits)
    have "rb_r s + n < 2 ^ 32" using inv n rb_size_le[OF inv] by (auto simp: rb_inv_def)
    then have "s' = s\<lparr>rb_r := (rb_r s + n) mod rb_capacity s, rb_full := False\<rparr>"
      using sk n by (auto simp: ring_buffer_skip_def)
    from rb_advance[OF inv n this] True show ?thesis by simp
  next
    case False
    then show ?thesis using inv sk by (auto simp: ring_buffer_skip_def split: if_splits)
  qed
  then show "rb_inv s'" "rb_contents s' = (if r = RET_OK then drop n (rb_contents s) else rb_contents s)" by auto
qed


section \<open>Writing\<close>

text \<open>A granted block has the size that was asked for.\<close>

definition alloc_ok :: "balloc_t \<Rightarrow> bool" where
  "alloc_ok alloc \<longleftrightarrow> (\<forall>n b. alloc n = Some b \<longrightarrow> length b = n)"

definition rb_room :: "ring_buffer \<Rightarrow> nat" where
  "rb_room s = rb_capacity s - length (rb_contents s)"

text \<open>
  Making room keeps the contents, whether it succeeds or not. It succeeds when there is room
  already, or when the grown buffer stays within the maximum and memory is granted.
\<close>

lemma ring_buffer_ensure_write_space_spec:
  assumes inv: "rb_inv s" and ok: "alloc_ok alloc" and n: "n < 2 ^ 31"
    and en: "ring_buffer_ensure_write_space alloc s n = (r, s')"
  shows "rb_inv s'" "rb_contents s' = rb_contents s" "rb_max_capacity s' = rb_max_capacity s"
    "r = RET_OK \<longleftrightarrow> n \<le> rb_room s \<or>
       length (rb_contents s) + n \<le> rb_max_capacity s \<and> alloc (length (rb_contents s) + n) \<noteq> None"
    "r = RET_OK \<Longrightarrow> n \<le> rb_room s'" "r \<noteq> RET_OK \<or> n \<le> rb_room s \<Longrightarrow> s' = s"
proof -
  let ?size = "ring_buffer_size s" and ?free = "ring_buffer_free_size s"
  have I: "length (rb_data s) = rb_capacity s" "rb_capacity s \<le> rb_max_capacity s" "rb_max_capacity s < 2 ^ 31"
    "?size \<le> rb_capacity s"
    using inv rb_size_le[OF inv] by (auto simp: rb_inv_def)
  have free: "?free = rb_capacity s - ?size" "rb_room s = ?free" by (simp_all add: ring_buffer_free_size_def rb_room_def)
  have cap: "u32 (rb_capacity s + (n - ?free)) = ?size + n" if "\<not> n \<le> ?free"
  proof -
    have "rb_capacity s + (n - ?free) = ?size + n" using that free I by simp
    then show ?thesis using n I by simp
  qed
  obtain out s1 where rd: "ring_buffer_read s ?size = (out, s1)" by fastforce
  note R = ring_buffer_read_spec[OF inv rd]
  have out: "length out = ?size" "out = rb_contents s" using R(1) by simp_all
  have rl: "ring_buffer_read_len s ?size = (RET_OK, out, s1)" using rd out by (simp add: ring_buffer_read_len_def)
  have full: "\<not> rb_full s1"
  proof
    assume "rb_full s1"
    then have "ring_buffer_size s1 = rb_capacity s" using R(4) by (simp add: ring_buffer_size_def)
    moreover have "length (rb_contents s1) = 0" using R(3) by simp
    ultimately show False using inv by (simp add: rb_inv_def)
  qed
  have grow: "rb_inv s2 \<and> rb_contents s2 = rb_contents s \<and> rb_max_capacity s2 = rb_max_capacity s \<and> n \<le> rb_room s2"
    if "\<not> n \<le> ?free" "?size + n \<le> rb_max_capacity s" "alloc (?size + n) = Some data"
      "s2 = s1\<lparr>rb_r := 0, rb_w := ?size, rb_data := overwrite data 0 out, rb_capacity := ?size + n\<rparr>" for s2 data
  proof -
    have len: "length data = ?size + n" using ok that(3) by (simp add: alloc_ok_def)
    then have len2: "length (overwrite data 0 out) = ?size + n" using out by simp
    have "rb_inv s2" using that len2 full R(4) I by (auto simp: rb_inv_def)
    moreover have size2: "ring_buffer_size s2 = ?size" using that(4) full by (simp add: ring_buffer_size_def)
    moreover have "rb_contents s2 = rb_contents s"
      using circ_slice[of 0 ?size "overwrite data 0 out"] len2 size2 that(4) out(1)
      by (simp add: rb_contents_def overwrite_def flip: out(2)) (simp add: out(2) rb_contents_def)
    ultimately show ?thesis using that(4) R(4) by (simp add: rb_room_def)
  qed
  have "rb_inv s' \<and> rb_contents s' = rb_contents s \<and> rb_max_capacity s' = rb_max_capacity s \<and>
    (r = RET_OK \<longleftrightarrow> n \<le> rb_room s \<or>
       length (rb_contents s) + n \<le> rb_max_capacity s \<and> alloc (length (rb_contents s) + n) \<noteq> None) \<and>
    (r = RET_OK \<longrightarrow> n \<le> rb_room s') \<and> (r \<noteq> RET_OK \<or> n \<le> rb_room s \<longrightarrow> s' = s)"
  proof (cases "n \<le> ?free")
    case True
    then show ?thesis using en inv free by (simp add: ring_buffer_ensure_write_space_def Let_def)
  next
    case False
    show ?thesis
    proof (cases "rb_capacity s \<noteq> rb_max_capacity s \<and> ?size + n \<le> rb_max_capacity s \<and> alloc (?size + n) \<noteq> None")
      case True
      then obtain data where data: "alloc (?size + n) = Some data" by auto
      have e: "r = RET_OK" "s' = s1\<lparr>rb_r := 0, rb_w := ?size, rb_data := overwrite data 0 out, rb_capacity := ?size + n\<rparr>"
        using en False True data rl cap[OF False] by (simp_all add: ring_buffer_ensure_write_space_def Let_def)
      show ?thesis using grow[OF False _ data e(2)] True False free e(1) by auto
    next
      case no: False
      have "r \<noteq> RET_OK \<and> s' = s"
        using en False no rl cap[OF False] by (auto simp: ring_buffer_ensure_write_space_def Let_def split: if_splits)
      moreover have "\<not> (?size + n \<le> rb_max_capacity s \<and> alloc (?size + n) \<noteq> None)" using no False free I by auto
      ultimately show ?thesis using inv False free by simp
    qed
  qed
  then show "rb_inv s'" "rb_contents s' = rb_contents s" "rb_max_capacity s' = rb_max_capacity s"
    "r = RET_OK \<longleftrightarrow> n \<le> rb_room s \<or>
       length (rb_contents s) + n \<le> rb_max_capacity s \<and> alloc (length (rb_contents s) + n) \<noteq> None"
    "r = RET_OK \<Longrightarrow> n \<le> rb_room s'" "r \<noteq> RET_OK \<or> n \<le> rb_room s \<Longrightarrow> s' = s" by blast+
qed

text \<open>Storing bytes behind the contents, up to the end of the array.\<close>

lemma rb_store:
  assumes inv: "rb_inv s" and xs: "xs \<noteq> []" "ring_buffer_size s + length xs \<le> rb_capacity s" "rb_w s + length xs \<le> rb_capacity s"
    and s': "s' = ring_buffer_set_write_cursor (s\<lparr>rb_data := overwrite (rb_data s) (rb_w s) xs\<rparr>) (rb_w s + length xs)"
  shows "rb_inv s'" "rb_contents s' = rb_contents s @ xs" "rb_capacity s' = rb_capacity s" "rb_r s' = rb_r s"
    "rb_w s' = (rb_w s + length xs) mod rb_capacity s" "length (rb_data s') = rb_capacity s"
proof -
  let ?n = "ring_buffer_size s" and ?cap = "rb_capacity s"
  have I: "length (rb_data s) = ?cap" "0 < ?cap" "rb_r s < ?cap" using inv by (auto simp: rb_inv_def)
  have at: "rb_at s ?n" by (rule rb_at_size[OF inv])
  have less: "?n < ?cap" using xs by (cases xs) auto
  then have nofull: "\<not> rb_full s" using at by (simp add: rb_at_def)
  show f: "rb_capacity s' = ?cap" "rb_r s' = rb_r s" "rb_w s' = (rb_w s + length xs) mod ?cap" "length (rb_data s') = ?cap"
    using s' xs I by (simp_all add: ring_buffer_set_write_cursor_def Let_def)
  have d: "rb_data s' = overwrite (rb_data s) (rb_w s) xs" "rb_full s' \<longleftrightarrow> rb_r s = (rb_w s + length xs) mod ?cap"
    using s' nofull by (simp_all add: ring_buffer_set_write_cursor_def Let_def)
  show i: "rb_inv s'" using inv s' xs nofull by (auto simp: rb_inv_def ring_buffer_set_write_cursor_def Let_def)
  have w: "rb_w s' = (rb_r s + (?n + length xs)) mod ?cap" using f(3) at by (simp add: rb_at_def mod_simps add.assoc)
  have "rb_full s' \<longleftrightarrow> ?n + length xs = ?cap"
  proof -
    have "rb_r s = (rb_r s + (?n + length xs)) mod ?cap \<longleftrightarrow> ?n + length xs = ?cap"
      using xs I less by (cases "?n + length xs = ?cap") (auto simp: mod_once)
    then show ?thesis using d(2) f(3) w by simp
  qed
  then have "rb_at s' (?n + length xs)" using w f xs(2) by (simp add: rb_at_def)
  then have "ring_buffer_size s' = ?n + length xs" by (rule rb_at_D[OF i])
  then show "rb_contents s' = rb_contents s @ xs"
    using circ_overwrite(2)[of "rb_data s" ?n xs "rb_w s" "rb_r s"] I xs at f(2) d(1) by (simp add: rb_contents_def rb_at_def)
qed


text \<open>Writing appends as many bytes as there is room for after growing.\<close>

lemma ring_buffer_write_spec:
  assumes inv0: "rb_inv s0" and ok: "alloc_ok alloc" and len: "length buff < 2 ^ 31"
    and en: "ring_buffer_ensure_write_space alloc s0 (length buff) = (r0, s)"
    and wr: "ring_buffer_write alloc s0 buff = (k, s')"
  shows "k = min (length buff) (rb_room s)" "rb_inv s'" "rb_contents s' = rb_contents s0 @ take k buff"
    "rb_max_capacity s' = rb_max_capacity s0"
proof -
  note E = ring_buffer_ensure_write_space_spec[OF inv0 ok len en]
  let ?n = "length buff" and ?cap = "rb_capacity s" and ?size = "ring_buffer_size s"
  have inv: "rb_inv s" by (rule E(1))
  have I: "length (rb_data s) = ?cap" "rb_r s < ?cap" "rb_w s < ?cap" "?cap < 2 ^ 31" "rb_full s \<longrightarrow> rb_r s = rb_w s"
    using inv by (auto simp: rb_inv_def)
  have room: "rb_room s = ?cap - ?size" "ring_buffer_free_size s = ?cap - ?size"
    by (simp_all add: rb_room_def ring_buffer_free_size_def)
  have eq: "snd (ring_buffer_ensure_write_space alloc s0 ?n) = s" using en by simp
  have max0: "rb_max_capacity s2 = rb_max_capacity s" if "s2 = ring_buffer_set_write_cursor (s1\<lparr>rb_data := d\<rparr>) w"
    "rb_max_capacity s1 = rb_max_capacity s" for s1 s2 d w
    using that by (simp add: ring_buffer_set_write_cursor_def Let_def)
  have "k = min ?n (rb_room s) \<and> rb_inv s' \<and> rb_contents s' = rb_contents s @ take k buff \<and>
    rb_max_capacity s' = rb_max_capacity s"
  proof (cases "?n = 0 \<or> ring_buffer_free_size s = 0")
    case True
    then have "k = 0" "s' = s" using wr eq by (simp_all add: ring_buffer_write_def Let_def)
    then show ?thesis using True room inv by auto
  next
    case False
    then have nofull: "\<not> rb_full s" using room by (auto simp: ring_buffer_size_def)
    show ?thesis
    proof (cases "rb_w s < rb_r s")
      case True
      let ?k = "min (rb_r s - rb_w s) ?n"
      have "rb_w s + ?k < 2 ^ 32" using I True by auto
      then have e: "k = ?k" "s' = ring_buffer_set_write_cursor
          (s\<lparr>rb_data := overwrite (rb_data s) (rb_w s) (take ?k buff)\<rparr>) (rb_w s + length (take ?k buff))"
        using wr eq False nofull True unfolding length_take
        by (auto simp: ring_buffer_write_def Let_def ring_buffer_set_write_cursor_delta_def min.commute)
      have size: "?size = ?cap - (rb_r s - rb_w s)" using nofull True by (simp add: ring_buffer_size_def)
      have pre: "take ?k buff \<noteq> []" "?size + length (take ?k buff) \<le> ?cap" "rb_w s + length (take ?k buff) \<le> ?cap"
        using False True size I by auto
      have "k = min ?n (rb_room s)" using e(1) size room I True by auto
      then show ?thesis using rb_store[OF inv pre e(2)] e(1) max0[OF e(2)] by simp
    next
      case ge: False
      have size: "?size = rb_w s - rb_r s" using nofull ge by (simp add: ring_buffer_size_def)
      define m where "m = min (?cap - rb_w s) ?n"
      have u: "rb_w s + m < 2 ^ 32" "length (take m buff) = m" using I by (auto simp: m_def)
      define s1 where "s1 = ring_buffer_set_write_cursor
          (s\<lparr>rb_data := overwrite (rb_data s) (rb_w s) (take m buff)\<rparr>) (rb_w s + length (take m buff))"
      have pre: "take m buff \<noteq> []" "?size + length (take m buff) \<le> ?cap" "rb_w s + length (take m buff) \<le> ?cap"
        using False ge size I by (auto simp: m_def)
      note S = rb_store[OF inv pre s1_def]
      have max1: "rb_max_capacity s1 = rb_max_capacity s" by (rule max0[OF s1_def refl])
      have wr1: "(k, s') = (if m < ?n then
             (m + min (rb_r s1) (?n - m), ring_buffer_set_write_cursor
                (s1\<lparr>rb_data := overwrite (rb_data s1) 0 (take (min (rb_r s1) (?n - m)) (drop m buff))\<rparr>) (min (rb_r s1) (?n - m)))
           else (m, s1))"
        using wr False nofull ge u
        unfolding ring_buffer_write_def Let_def eq m_def[symmetric] ring_buffer_set_write_cursor_delta_def s1_def
        by (cases "m < ?n") auto
      show ?thesis
      proof (cases "m < ?n")
        case False
        then have m: "m = ?n" by (simp add: m_def)
        then have "?n \<le> ?cap - ?size" using size I by (auto simp: m_def)
        then show ?thesis using wr1 m S(1,2) room max1 by (auto simp: min_def)
      next
        case True
        then have m: "m = ?cap - rb_w s" by (auto simp: m_def)
        define xs where "xs = take (min (rb_r s1) (?n - m)) (drop m buff)"
        have xl: "length xs = min (rb_r s) (?n - m)" using S(4) by (simp add: xs_def)
        have w1: "rb_w s1 = 0" using S(5) m I(3) True by simp
        have e: "k = m + length xs" "s' = ring_buffer_set_write_cursor
            (s1\<lparr>rb_data := overwrite (rb_data s1) (rb_w s1) xs\<rparr>) (rb_w s1 + length xs)"
          using wr1 True xl S(4) w1 by (simp_all add: xs_def)
        have size1: "ring_buffer_size s1 = ?size + m" using arg_cong[OF S(2), of length] u(2) by simp
        have tk: "take m buff @ xs = take k buff" using e(1) xl S(4) by (simp add: xs_def take_add)
        have k: "k = min ?n (rb_room s)" using e(1) xl m True room size I(2,3) ge unfolding min_def by (simp split: if_splits) linarith+
        show ?thesis
        proof (cases "xs = []")
          case True
          then have "rb_r s1 = 0" using xl S(4) \<open>m < ?n\<close> by auto
          then have "?size + m = ?cap" using S(4) size m I(3) by simp
          then have "rb_full s1" using rb_at_size[OF S(1)] size1 S(3) by (simp add: rb_at_def)
          then have "s' = s1" using e(2) True w1 \<open>rb_r s1 = 0\<close>
            by (simp add: ring_buffer_set_write_cursor_def overwrite_def Let_def)
          then show ?thesis using S(1,2) tk k True max1 by simp
        next
          case False
          have "ring_buffer_size s1 + length xs \<le> rb_capacity s1" "rb_w s1 + length xs \<le> rb_capacity s1"
            using size1 xl size m I ge S(3) w1 by auto
          note T = rb_store[OF S(1) False this e(2)]
          show ?thesis using T(1,2) S(2) tk k max0[OF e(2) max1] by simp
        qed
      qed
    qed
  qed
  then show "k = min (length buff) (rb_room s)" "rb_inv s'" "rb_contents s' = rb_contents s0 @ take k buff"
    "rb_max_capacity s' = rb_max_capacity s0" using E(2,3) by simp_all
qed

text \<open>\<open>write_len\<close> stores all bytes or none.\<close>

lemma ring_buffer_write_len_spec:
  assumes inv: "rb_inv s" and ok: "alloc_ok alloc" and len: "length buff < 2 ^ 31"
    and wr: "ring_buffer_write_len alloc s buff = (r, s')"
  shows "r = RET_OK \<longleftrightarrow> fst (ring_buffer_ensure_write_space alloc s (length buff)) = RET_OK"
    "rb_inv s'" "rb_contents s' = (if r = RET_OK then rb_contents s @ buff else rb_contents s)"
proof -
  obtain r1 s1 where en: "ring_buffer_ensure_write_space alloc s (length buff) = (r1, s1)" by fastforce
  note E = ring_buffer_ensure_write_space_spec[OF inv ok len en]
  have "(r = RET_OK \<longleftrightarrow> r1 = RET_OK) \<and> rb_inv s' \<and>
    rb_contents s' = (if r = RET_OK then rb_contents s @ buff else rb_contents s)"
  proof (cases "r1 = RET_OK")
    case True
    obtain k s2 where w: "ring_buffer_write alloc s1 buff = (k, s2)" by fastforce
    obtain r2 s1' where en1: "ring_buffer_ensure_write_space alloc s1 (length buff) = (r2, s1')" by fastforce
    have "s1' = s1" by (rule ring_buffer_ensure_write_space_spec(6)[OF E(1) ok len en1]) (use E(5)[OF True] in simp)
    then have "k = length buff" using ring_buffer_write_spec(1)[OF E(1) ok len en1 w] E(5)[OF True] by simp
    then show ?thesis using wr en True w ring_buffer_write_spec(2,3)[OF E(1) ok len en1 w] E(2)
      by (auto simp: ring_buffer_write_len_def)
  next
    case False
    then show ?thesis using wr en E by (auto simp: ring_buffer_write_len_def)
  qed
  then show "r = RET_OK \<longleftrightarrow> fst (ring_buffer_ensure_write_space alloc s (length buff)) = RET_OK"
    "rb_inv s'" "rb_contents s' = (if r = RET_OK then rb_contents s @ buff else rb_contents s)" using en by simp_all
qed

section \<open>The contract of a channel\<close>

datatype rb_op = Rb_write balloc_t "byte list" | Rb_write_len balloc_t "byte list" | Rb_read nat | Rb_peek nat | Rb_read_len nat

text \<open>The result of an operation: how many bytes were taken from the caller and the bytes handed out.\<close>

fun rb_exec :: "ring_buffer \<Rightarrow> rb_op \<Rightarrow> (nat \<times> byte list) \<times> ring_buffer" where
  "rb_exec s (Rb_write alloc xs) = (case ring_buffer_write alloc s xs of (k, s') \<Rightarrow> ((k, []), s'))"
| "rb_exec s (Rb_write_len alloc xs) =
     (case ring_buffer_write_len alloc s xs of (r, s') \<Rightarrow> ((if r = RET_OK then length xs else 0, []), s'))"
| "rb_exec s (Rb_read n) = (case ring_buffer_read s n of (out, s') \<Rightarrow> ((0, out), s'))"
| "rb_exec s (Rb_peek n) = (case ring_buffer_peek s n of (out, s') \<Rightarrow> ((0, out), s'))"
| "rb_exec s (Rb_read_len n) = (case ring_buffer_read_len s n of (r, out, s') \<Rightarrow> ((0, out), s'))"

fun rb_accepted :: "rb_op \<Rightarrow> nat \<times> byte list \<Rightarrow> byte list" where
  "rb_accepted (Rb_write alloc xs) (k, _) = take k xs"
| "rb_accepted (Rb_write_len alloc xs) (k, _) = take k xs"
| "rb_accepted _ _ = []"

fun rb_delivered :: "rb_op \<Rightarrow> nat \<times> byte list \<Rightarrow> byte list" where
  "rb_delivered (Rb_read n) (_, out) = out"
| "rb_delivered (Rb_read_len n) (_, out) = out"
| "rb_delivered _ _ = []"

fun rb_valid :: "rb_op \<Rightarrow> bool" where
  "rb_valid (Rb_write alloc xs) \<longleftrightarrow> alloc_ok alloc \<and> length xs < 2 ^ 31"
| "rb_valid (Rb_write_len alloc xs) \<longleftrightarrow> alloc_ok alloc \<and> length xs < 2 ^ 31"
| "rb_valid _ = True"

lemma rb_exec_step:
  assumes "rb_inv s" "rb_valid op" "rb_exec s op = (out, s')"
  shows "rb_inv s' \<and> rb_contents s @ rb_accepted op out = rb_delivered op out @ rb_contents s'"
proof (cases op)
  case (Rb_write alloc xs)
  obtain r s1 where "ring_buffer_ensure_write_space alloc s (length xs) = (r, s1)" by fastforce
  with ring_buffer_write_spec[OF assms(1) _ _ this] Rb_write assms(2,3) show ?thesis
    by (fastforce split: prod.splits)
next
  case (Rb_write_len alloc xs)
  with ring_buffer_write_len_spec[OF assms(1)] assms(2,3) show ?thesis by (fastforce split: prod.splits)
next
  case (Rb_read n)
  with ring_buffer_read_spec[OF assms(1)] assms(3) show ?thesis by (fastforce split: prod.splits)
next
  case (Rb_peek n)
  with ring_buffer_peek_spec[OF assms(1)] assms(1,3) show ?thesis by simp
next
  case (Rb_read_len n)
  show ?thesis
  proof (cases "n \<le> ring_buffer_size s")
    case True
    with ring_buffer_read_spec[OF assms(1)] assms(3) Rb_read_len show ?thesis
      by (fastforce simp: ring_buffer_read_len_def split: prod.splits)
  next
    case False
    with assms(1,3) Rb_read_len show ?thesis by (auto simp: ring_buffer_read_len_def)
  qed
qed

interpretation rb: fifo rb_inv rb_contents rb_exec rb_accepted rb_delivered rb_valid
  by unfold_locales (use rb_exec_step in simp_all)

section \<open>Properties\<close>

text \<open>
  C3. The ring buffer is a first-in first-out byte stream. Along every sequence of writes, reads
  and peeks, wherever the cursors stand and however often the data is moved into a larger block,
  the bytes the writes accepted are, in order, the bytes the reads delivered followed by the bytes
  still in the buffer.
\<close>

theorem ring_buffer_fifo:
  assumes "rb_inv s" and "list_all rb_valid ops" and "run_ops rb_exec s ops = (tr, s')"
  shows "rb_inv s' \<and> rb_contents s @ concat (map (\<lambda>(op, out). rb_accepted op out) tr) =
     concat (map (\<lambda>(op, out). rb_delivered op out) tr) @ rb_contents s'"
  by (rule rb.run_fifo[OF assms])

text \<open>
  \<open>ring_buffer_write\<close> appends as much of the data as fits: all of it when the free room
  is enough or the buffer may still grow by what is missing and the allocator grants the block,
  and otherwise exactly the free room, without loss of the bytes that were there.
\<close>

theorem ring_buffer_write_exact:
  assumes "rb_inv s" and "alloc_ok alloc" and "length buff < 2 ^ 31" and "ring_buffer_write alloc s buff = (k, s')"
  defines "needed \<equiv> length (rb_contents s) + length buff"
  shows "k = (if length buff \<le> rb_room s \<or> needed \<le> rb_max_capacity s \<and> alloc needed \<noteq> None
      then length buff else rb_room s) \<and>
    rb_inv s' \<and> rb_contents s' = rb_contents s @ take k buff"
proof -
  obtain r0 s0 where en: "ring_buffer_ensure_write_space alloc s (length buff) = (r0, s0)" by fastforce
  note e = ring_buffer_ensure_write_space_spec[OF assms(1,2,3) en]
  note w = ring_buffer_write_spec[OF assms(1,2,3) en assms(4)]
  show ?thesis
  proof (cases "r0 = RET_OK")
    case True
    then show ?thesis using e(4,5) w unfolding needed_def by auto
  next
    case False
    then have "s0 = s" "\<not> length buff \<le> rb_room s" using e(4,6) by auto
    then show ?thesis using False e(4) w unfolding needed_def by auto
  qed
qed

definition zero_alloc :: balloc_t where
  "zero_alloc n = Some (replicate n 0)"

lemma zero_alloc_ok: "alloc_ok zero_alloc"
  by (simp add: alloc_ok_def zero_alloc_def)

lemma ring_buffer_example:
  obtains s where "ring_buffer_create True zero_alloc 32 33 = Some s" "rb_inv s" "rb_contents s = []"
    "rb_capacity s = 32" "rb_max_capacity s = 33"
proof -
  obtain s where s: "ring_buffer_create True zero_alloc 32 33 = Some s" "rb_capacity s = 32" "rb_max_capacity s = 33"
    by (simp add: ring_buffer_create_def zero_alloc_def)
  show thesis using that[OF s(1) _ _ s(2,3)] ring_buffer_create_spec[OF s(1)] by simp
qed

theorem ring_buffer_fifo_witness:
  "\<exists>s tr s'. ring_buffer_create True zero_alloc 32 33 = Some s \<and>
    run_ops rb_exec s [Rb_write zero_alloc [1, 2, 3], Rb_peek 3, Rb_read 2, Rb_write_len zero_alloc [4]] = (tr, s') \<and>
    rb_inv s' \<and> concat (map (\<lambda>(op, out). rb_accepted op out) tr) =
      concat (map (\<lambda>(op, out). rb_delivered op out) tr) @ rb_contents s'"
proof -
  let ?ops = "[Rb_write zero_alloc [1, 2, 3], Rb_peek 3, Rb_read 2, Rb_write_len zero_alloc [4]]"
  obtain s where s: "ring_buffer_create True zero_alloc 32 33 = Some s" "rb_inv s" "rb_contents s = []"
    by (rule ring_buffer_example)
  obtain tr s' where run: "run_ops rb_exec s ?ops = (tr, s')" by fastforce
  have "list_all rb_valid ?ops" by (simp add: zero_alloc_ok)
  from ring_buffer_fifo[OF s(2) this run] show ?thesis using s run by auto
qed

theorem ring_buffer_write_exact_witness:
  "\<exists>s s'. ring_buffer_create True zero_alloc 32 33 = Some s \<and>
    ring_buffer_write zero_alloc s (replicate 33 1) = (33, s') \<and> rb_contents s' = replicate 33 1"
proof -
  obtain s where s: "ring_buffer_create True zero_alloc 32 33 = Some s" "rb_inv s" "rb_contents s = []"
    "rb_max_capacity s = 33"
    by (rule ring_buffer_example)
  obtain k s' where run: "ring_buffer_write zero_alloc s (replicate 33 1) = (k, s')" by fastforce
  from ring_buffer_write_exact[OF s(2) zero_alloc_ok _ run] show ?thesis using s run by (simp add: zero_alloc_def)
qed

end
