(* ===== verification/EventQueue.thy ===== *)
theory EventQueue
  imports Circular
begin

text \<open>
  The fixed-size request queue of the main loop, \<open>src/src/base/event_queue.c\<close>. The type of a
  request (the union \<open>event_queue_req_t\<close>) is a parameter \<open>'e\<close>; the queue copies requests
  and never looks into them.

  Shown: sending appends unless the queue holds \<open>capacity\<close> requests, receiving takes the
  oldest one, replacing the last request exchanges the youngest one, and over any sequence of
  operations the requests come out in the order they were sent.
\<close>

section \<open>State and operations\<close>

record 'e event_queue =
  eq_r :: nat
  eq_w :: nat
  eq_full :: bool
  eq_capacity :: nat
  eq_events :: "'e list"

text \<open>The allocated block is zeroed; \<open>zero\<close> is the request whose bytes are all zero.\<close>

definition event_queue_create :: "bool \<Rightarrow> 'e \<Rightarrow> nat \<Rightarrow> 'e event_queue option" where
  "event_queue_create granted zero capacity =
     (if capacity > 1 \<and> granted then
        Some \<lparr>eq_r = 0, eq_w = 0, eq_full = False, eq_capacity = capacity, eq_events = replicate capacity zero\<rparr>
      else None)"

definition event_queue_recv :: "'e event_queue \<Rightarrow> (ret_t \<times> 'e option) \<times> 'e event_queue" where
  "event_queue_recv q =
     (if eq_r q \<noteq> eq_w q \<or> eq_full q then
        ((RET_OK, Some (eq_events q ! eq_r q)),
         q\<lparr>eq_r := (if eq_r q + 1 < eq_capacity q then eq_r q + 1 else 0), eq_full := False\<rparr>)
      else ((RET_FAIL, None), q))"

definition event_queue_send :: "'e event_queue \<Rightarrow> 'e \<Rightarrow> ret_t \<times> 'e event_queue" where
  "event_queue_send q e =
     (if eq_r q \<noteq> eq_w q \<or> \<not> eq_full q then
        (let q = q\<lparr>eq_events := (eq_events q)[eq_w q := e]\<rparr>;
             q = q\<lparr>eq_w := (if eq_w q + 1 < eq_capacity q then eq_w q + 1 else 0)\<rparr>;
             q = (if eq_r q = eq_w q then q\<lparr>eq_full := True\<rparr> else q)
         in (RET_OK, q))
      else (RET_FAIL, q))"

definition event_queue_replace_last :: "'e event_queue \<Rightarrow> 'e \<Rightarrow> ret_t \<times> 'e event_queue" where
  "event_queue_replace_last q e =
     (RET_OK, q\<lparr>eq_events := (eq_events q)[(if eq_w q > 0 then eq_w q - 1 else eq_capacity q - 1) := e]\<rparr>)"

section \<open>The queue of requests\<close>

definition eq_inv :: "'e event_queue \<Rightarrow> bool" where
  "eq_inv q \<longleftrightarrow> 1 < eq_capacity q \<and> eq_capacity q < 2 ^ 16 \<and> length (eq_events q) = eq_capacity q \<and>
     eq_r q < eq_capacity q \<and> eq_w q < eq_capacity q \<and> (eq_full q \<longrightarrow> eq_r q = eq_w q)"

definition eq_size :: "'e event_queue \<Rightarrow> nat" where
  "eq_size q =
     (if eq_full q then eq_capacity q
      else if eq_r q \<le> eq_w q then eq_w q - eq_r q else eq_capacity q - (eq_r q - eq_w q))"

definition eq_contents :: "'e event_queue \<Rightarrow> 'e list" where
  "eq_contents q = circ (eq_r q) (eq_size q) (eq_events q)"

lemma length_eq_contents [simp]: "length (eq_contents q) = eq_size q"
  by (simp add: eq_contents_def)

lemma step_mod: "i < n \<Longrightarrow> (if i + 1 < n then i + 1 else 0) = (i + 1) mod (n :: nat)"
proof -
  assume "i < n"
  then consider "i + 1 < n" | "i + 1 = n" by linarith
  then show ?thesis by cases simp_all
qed

lemma pred_mod: "0 < m \<Longrightarrow> (m - 1) mod c = (if m mod c = 0 then c - 1 else m mod c - (1 :: nat))" if "0 < c"
  using that by (cases m) (auto simp: mod_Suc)

text \<open>The write cursor is the read cursor plus the size, around the end.\<close>

definition eq_at :: "'e event_queue \<Rightarrow> nat \<Rightarrow> bool" where
  "eq_at q n \<longleftrightarrow> n \<le> eq_capacity q \<and> eq_w q = (eq_r q + n) mod eq_capacity q \<and> (eq_full q \<longleftrightarrow> n = eq_capacity q)"

lemma eq_at_size: "eq_inv q \<Longrightarrow> eq_at q (eq_size q)"
  by (auto simp: eq_inv_def eq_at_def eq_size_def mod_once)

lemma eq_at_D: "eq_inv q \<Longrightarrow> eq_at q n \<Longrightarrow> eq_size q = n"
  by (cases "n = eq_capacity q") (auto simp: eq_inv_def eq_at_def eq_size_def mod_once split: if_splits)

lemma eq_empty: "eq_inv q \<Longrightarrow> eq_contents q = [] \<longleftrightarrow> eq_r q = eq_w q \<and> \<not> eq_full q"
  by (auto simp: eq_inv_def eq_size_def split: if_splits simp flip: length_0_conv)

lemma event_queue_create_spec:
  "event_queue_create granted zero c = Some q \<Longrightarrow> c < 2 ^ 16 \<Longrightarrow> eq_inv q \<and> eq_contents q = []"
  by (auto simp: event_queue_create_def eq_inv_def eq_contents_def eq_size_def split: if_splits)

lemma event_queue_send_spec:
  assumes inv: "eq_inv q" and sd: "event_queue_send q e = (r, q')"
  shows "r = (if length (eq_contents q) = eq_capacity q then RET_FAIL else RET_OK)" "eq_inv q'"
    "eq_contents q' = (if r = RET_OK then eq_contents q @ [e] else eq_contents q)"
    "eq_capacity q' = eq_capacity q" "r \<noteq> RET_OK \<Longrightarrow> q' = q"
proof -
  let ?n = "eq_size q" and ?c = "eq_capacity q"
  have I: "1 < ?c" "length (eq_events q) = ?c" "eq_r q < ?c" "eq_w q < ?c" "eq_full q \<longrightarrow> eq_r q = eq_w q"
    using inv by (auto simp: eq_inv_def)
  have at: "eq_at q ?n" by (rule eq_at_size[OF inv])
  have "r = (if ?n = ?c then RET_FAIL else RET_OK) \<and> eq_inv q' \<and> eq_capacity q' = ?c \<and>
    eq_contents q' = (if r = RET_OK then eq_contents q @ [e] else eq_contents q) \<and> (r \<noteq> RET_OK \<longrightarrow> q' = q)"
  proof (cases "eq_full q")
    case True
    then have "?n = ?c" using at by (simp add: eq_at_def)
    moreover have "r = RET_FAIL" "q' = q" using sd True I(5) by (simp_all add: event_queue_send_def)
    ultimately show ?thesis using inv by simp
  next
    case False
    let ?w = "(eq_w q + 1) mod ?c"
    have less: "?n < ?c" using False at by (auto simp: eq_at_def)
    have q': "r = RET_OK" "eq_r q' = eq_r q \<and> eq_w q' = ?w \<and> eq_capacity q' = ?c \<and>
        eq_events q' = (eq_events q)[eq_w q := e] \<and> (eq_full q' \<longleftrightarrow> eq_r q = ?w)"
      using sd False unfolding step_mod[OF I(4), symmetric]
      by (auto simp: event_queue_send_def Let_def split: if_splits)
    have inv': "eq_inv q'" using inv q'(2) by (auto simp: eq_inv_def)
    have w: "?w = (eq_r q + (?n + 1)) mod ?c" using at by (simp add: eq_at_def mod_simps)
    have "eq_r q = ?w \<longleftrightarrow> ?n + 1 = ?c"
      unfolding w by (rule mod_return) (use I less in simp_all)
    then have "eq_at q' (?n + 1)" using q'(2) w less by (simp add: eq_at_def)
    then have size: "eq_size q' = ?n + 1" by (rule eq_at_D[OF inv'])
    have "(eq_events q)[eq_w q := e] = overwrite (eq_events q) (eq_w q) [e]"
      using I by (simp add: overwrite_def upd_conv_take_nth_drop)
    then have "eq_contents q' = eq_contents q @ [e]"
      using circ_overwrite(2)[of "eq_events q" ?n "[e]" "eq_w q" "eq_r q"] I less at q'(2) size
      by (simp add: eq_contents_def eq_at_def)
    then show ?thesis using q' inv' less by simp
  qed
  then show "r = (if length (eq_contents q) = eq_capacity q then RET_FAIL else RET_OK)" "eq_inv q'"
    "eq_contents q' = (if r = RET_OK then eq_contents q @ [e] else eq_contents q)"
    "eq_capacity q' = eq_capacity q" "r \<noteq> RET_OK \<Longrightarrow> q' = q" by simp_all
qed

lemma event_queue_recv_spec:
  assumes inv: "eq_inv q" and rc: "event_queue_recv q = ((r, out), q')"
  shows "r = (if eq_contents q = [] then RET_FAIL else RET_OK)"
    "out = (if eq_contents q = [] then None else Some (hd (eq_contents q)))"
    "eq_inv q'" "eq_contents q' = tl (eq_contents q)" "eq_capacity q' = eq_capacity q"
proof -
  let ?n = "eq_size q" and ?c = "eq_capacity q"
  have I: "1 < ?c" "length (eq_events q) = ?c" "eq_r q < ?c" "eq_w q < ?c" using inv by (auto simp: eq_inv_def)
  have at: "eq_at q ?n" by (rule eq_at_size[OF inv])
  have "r = (if eq_contents q = [] then RET_FAIL else RET_OK) \<and>
    out = (if eq_contents q = [] then None else Some (hd (eq_contents q))) \<and>
    eq_inv q' \<and> eq_contents q' = tl (eq_contents q) \<and> eq_capacity q' = ?c"
  proof (cases "eq_contents q = []")
    case True
    then show ?thesis using rc inv eq_empty[OF inv] by (auto simp: event_queue_recv_def)
  next
    case False
    then have pos: "0 < ?n" by (metis gr0I length_0_conv length_eq_contents)
    have hd: "hd (eq_contents q) = eq_events q ! eq_r q" using False pos I by (simp add: hd_conv_nth eq_contents_def)
    let ?r = "(eq_r q + 1) mod ?c"
    have q': "r = RET_OK" "out = Some (hd (eq_contents q))" "q' = q\<lparr>eq_r := ?r, eq_full := False\<rparr>"
      using rc False eq_empty[OF inv] step_mod[OF I(3)] hd by (auto simp: event_queue_recv_def)
    have inv': "eq_inv q'" using inv q'(3) by (auto simp: eq_inv_def)
    have "eq_w q = (eq_r q + 1 + (?n - 1)) mod ?c" using at pos by (simp add: eq_at_def)
    then have "eq_w q = (?r + (?n - 1)) mod ?c" unfolding mod_add_left_eq .
    then have "eq_at q' (?n - 1)" using at pos q'(3) unfolding eq_at_def by auto
    then have "eq_size q' = ?n - 1" by (rule eq_at_D[OF inv'])
    then have "eq_contents q' = tl (eq_contents q)"
      using q'(3) I drop_circ[of 1 "eq_r q" ?n "eq_events q"] by (simp add: eq_contents_def drop_Suc)
    then show ?thesis using q' inv' False by simp
  qed
  then show "r = (if eq_contents q = [] then RET_FAIL else RET_OK)"
    "out = (if eq_contents q = [] then None else Some (hd (eq_contents q)))"
    "eq_inv q'" "eq_contents q' = tl (eq_contents q)" "eq_capacity q' = eq_capacity q" by simp_all
qed

text \<open>The slot before the write cursor holds the youngest request; on an empty queue it is unused.\<close>

lemma event_queue_replace_last_spec:
  assumes inv: "eq_inv q"
  shows "eq_inv (snd (event_queue_replace_last q e))"
    "eq_contents (snd (event_queue_replace_last q e)) =
       (if eq_contents q = [] then [] else butlast (eq_contents q) @ [e])"
proof -
  let ?n = "eq_size q" and ?c = "eq_capacity q" and ?q = "snd (event_queue_replace_last q e)"
  let ?i = "if eq_w q > 0 then eq_w q - 1 else ?c - 1"
  have I: "1 < ?c" "length (eq_events q) = ?c" "eq_r q < ?c" "eq_w q < ?c" using inv by (auto simp: eq_inv_def)
  have at: "eq_at q ?n" by (rule eq_at_size[OF inv])
  have f: "eq_events ?q = (eq_events q)[?i := e]" "eq_r ?q = eq_r q" "eq_w ?q = eq_w q" "eq_full ?q = eq_full q" "eq_capacity ?q = ?c"
    by (simp_all add: event_queue_replace_last_def)
  show "eq_inv ?q" using inv f by (simp add: eq_inv_def)
  have size: "eq_size ?q = ?n" using f by (simp add: eq_size_def)
  show "eq_contents ?q = (if eq_contents q = [] then [] else butlast (eq_contents q) @ [e])"
  proof (cases "eq_contents q = []")
    case True
    then show ?thesis using size by (metis length_0_conv length_eq_contents)
  next
    case False
    then have pos: "0 < ?n" by (metis gr0I length_0_conv length_eq_contents)
    have "(eq_r q + ?n - 1) mod ?c = ?i" using pred_mod[of ?c "eq_r q + ?n"] at pos I(1) by (auto simp: eq_at_def)
    then have i: "?i = (eq_r q + (?n - 1)) mod ?c" "?i < ?c" using pos I by auto
    define j where "j = ?i"
    have j: "j = (eq_r q + (?n - 1)) mod ?c" "j < ?c" "eq_events ?q = (eq_events q)[j := e]"
      unfolding j_def using i f(1) by simp_all
    have "(eq_events q)[j := e] = overwrite (eq_events q) j [e]"
      using I(2) j(2) by (simp add: overwrite_def upd_conv_take_nth_drop)
    moreover have "circ (eq_r q) (?n - 1 + length [e]) (overwrite (eq_events q) j [e]) = circ (eq_r q) (?n - 1) (eq_events q) @ [e]"
    proof (rule circ_overwrite(2))
      show "j + length [e] \<le> length (eq_events q)" using I(2) j(2) by simp
      show "?n - 1 + length [e] \<le> length (eq_events q)" "0 < length (eq_events q)"
        using I(1,2) at pos by (auto simp: eq_at_def)
      show "j = (eq_r q + (?n - 1)) mod length (eq_events q)" using I(2) j(1) by simp
    qed
    ultimately have "eq_contents ?q = circ (eq_r q) (?n - 1) (eq_events q) @ [e]"
      using f(2) size pos j(3) by (simp add: eq_contents_def)
    moreover have "butlast (eq_contents q) = circ (eq_r q) (?n - 1) (eq_events q)"
      by (simp add: butlast_conv_take eq_contents_def take_circ)
    ultimately show ?thesis using False by simp
  qed
qed

section \<open>The contract of a channel\<close>

datatype 'e eq_op = Eq_send 'e | Eq_recv

fun eq_exec :: "'e event_queue \<Rightarrow> 'e eq_op \<Rightarrow> (ret_t \<times> 'e option) \<times> 'e event_queue" where
  "eq_exec q (Eq_send e) = (case event_queue_send q e of (r, q') \<Rightarrow> ((r, None), q'))"
| "eq_exec q Eq_recv = event_queue_recv q"

fun eq_accepted :: "'e eq_op \<Rightarrow> ret_t \<times> 'e option \<Rightarrow> 'e list" where
  "eq_accepted (Eq_send e) (r, _) = (if r = RET_OK then [e] else [])"
| "eq_accepted Eq_recv _ = []"

fun eq_delivered :: "'e eq_op \<Rightarrow> ret_t \<times> 'e option \<Rightarrow> 'e list" where
  "eq_delivered Eq_recv (r, Some e) = (if r = RET_OK then [e] else [])"
| "eq_delivered _ _ = []"

lemma eq_exec_step:
  assumes "eq_inv q" "eq_exec q op = (out, q')"
  shows "eq_inv q' \<and> eq_contents q @ eq_accepted op out = eq_delivered op out @ eq_contents q'"
proof (cases op)
  case (Eq_send e)
  obtain r q1 where s: "event_queue_send q e = (r, q1)" by fastforce
  from event_queue_send_spec[OF assms(1) s] show ?thesis using assms(2) Eq_send s by auto
next
  case Eq_recv
  obtain r x q1 where s: "event_queue_recv q = ((r, x), q1)" by (metis prod.collapse)
  from event_queue_recv_spec[OF assms(1) s] show ?thesis using assms(2) Eq_recv s
    by (cases "eq_contents q") auto
qed

interpretation eq: fifo eq_inv eq_contents eq_exec eq_accepted eq_delivered "\<lambda>_. True"
  by unfold_locales (use eq_exec_step in blast)+

section \<open>Properties\<close>

text \<open>
  C11. The event queue loses, duplicates and reorders nothing: along every sequence of sends and
  receives, the events whose send returned \<open>RET_OK\<close> are, in order, the events received
  followed by the events still queued.
\<close>

theorem event_queue_fifo:
  assumes "eq_inv q" and "run_ops eq_exec q ops = (tr, q')"
  shows "eq_inv q' \<and> eq_contents q @ concat (map (\<lambda>(op, out). eq_accepted op out) tr) =
     concat (map (\<lambda>(op, out). eq_delivered op out) tr) @ eq_contents q'"
  using eq.run_fifo[OF assms(1) _ assms(2)] by (simp add: list_all_iff)

text \<open>
  C12. A send fails exactly when the queue holds its capacity of events, a receive exactly when it
  holds none, and a failed operation changes nothing.
\<close>

theorem event_queue_refuses_only_when_full:
  assumes "eq_inv q"
  shows "(fst (event_queue_send q e) = RET_OK \<longleftrightarrow> length (eq_contents q) < eq_capacity q) \<and>
    (fst (event_queue_send q e) \<noteq> RET_OK \<longrightarrow> snd (event_queue_send q e) = q) \<and>
    (fst (event_queue_recv q) = (if eq_contents q = [] then (RET_FAIL, None) else (RET_OK, Some (hd (eq_contents q))))) \<and>
    (eq_contents q = [] \<longrightarrow> snd (event_queue_recv q) = q)"
proof -
  have le: "length (eq_contents q) \<le> eq_capacity q" using eq_at_size[OF assms] by (simp add: eq_at_def)
  obtain r q1 where s: "event_queue_send q e = (r, q1)" by fastforce
  obtain r2 out q2 where v: "event_queue_recv q = ((r2, out), q2)" by (metis prod.collapse)
  have "eq_contents q = [] \<Longrightarrow> q2 = q" using v eq_empty[OF assms] by (simp add: event_queue_recv_def)
  then show ?thesis
    using event_queue_send_spec[OF assms s] event_queue_recv_spec[OF assms v] le by (auto simp: s v)
qed

lemma event_queue_example:
  obtains q where "event_queue_create True 0 2 = Some (q :: nat event_queue)" "eq_inv q" "eq_contents q = []"
    "eq_capacity q = 2"
proof -
  obtain q :: "nat event_queue" where q: "event_queue_create True 0 2 = Some q" "eq_capacity q = 2"
    by (simp add: event_queue_create_def)
  show thesis using that[OF q(1) _ _ q(2)] event_queue_create_spec[OF q(1)] by simp
qed

theorem event_queue_fifo_witness:
  "\<exists>q tr q'. event_queue_create True 0 2 = Some (q :: nat event_queue) \<and>
    run_ops eq_exec q [Eq_send 5, Eq_send 6, Eq_send 7, Eq_recv, Eq_send 8] = (tr, q') \<and>
    concat (map (\<lambda>(op, out). eq_accepted op out) tr) = concat (map (\<lambda>(op, out). eq_delivered op out) tr) @ eq_contents q'"
proof -
  obtain q :: "nat event_queue" where q: "event_queue_create True 0 2 = Some q" "eq_inv q" "eq_contents q = []"
    by (rule event_queue_example)
  obtain tr q' where run: "run_ops eq_exec q [Eq_send 5, Eq_send 6, Eq_send 7, Eq_recv, Eq_send 8] = (tr, q')"
    by fastforce
  from event_queue_fifo[OF q(2) run] show ?thesis using q run by auto
qed

theorem event_queue_refuses_only_when_full_witness:
  "\<exists>q. event_queue_create True 0 2 = Some (q :: nat event_queue) \<and> fst (event_queue_send q 5) = RET_OK \<and>
    fst (event_queue_recv q) = (RET_FAIL, None)"
proof -
  obtain q :: "nat event_queue" where q: "event_queue_create True 0 2 = Some q" "eq_inv q" "eq_contents q = []"
    "eq_capacity q = 2"
    by (rule event_queue_example)
  from event_queue_refuses_only_when_full[OF q(2), of 5] show ?thesis using q by auto
qed

end
