(* ===== verification/Rect.thy ===== *)
theory Rect
  imports AwtkPrelude
begin

text \<open>
  Integer rectangles, \<open>src/src/tkc/rect.c\<close>. Coordinates are 32-bit signed numbers; every sum
  and difference the code forms is reduced with \<open>s32\<close>. A rectangle stands for the set of
  pixels that \<open>rect_contains\<close> accepts.

  Shown, for rectangles whose edges lie within \<open>\<plusminus>2^29\<close>: the intersection is exact, the
  merge is the least rectangle around both, the difference is a partition into four disjoint
  pieces, and clipping to a screen keeps the visible pixels.
\<close>

section \<open>Data and operations\<close>

record rect =
  rx :: int
  ry :: int
  rw :: int
  rh :: int

definition rect_init :: "int \<Rightarrow> int \<Rightarrow> int \<Rightarrow> int \<Rightarrow> rect" where
  "rect_init x y w h = \<lparr>rx = x, ry = y, rw = w, rh = h\<rparr>"

definition rect_contains :: "rect \<Rightarrow> int \<Rightarrow> int \<Rightarrow> bool" where
  "rect_contains r x y \<longleftrightarrow> x \<ge> rx r \<and> x < s32 (rx r + rw r) \<and> y \<ge> ry r \<and> y < s32 (ry r + rh r)"

definition rect_merge :: "rect \<Rightarrow> rect \<Rightarrow> rect" where
  "rect_merge dr r =
     (if rw r > 0 \<and> rh r > 0 then
        (if rw dr > 0 \<and> rh dr > 0 then
           (let x = min (rx dr) (rx r);
                y = min (ry dr) (ry r);
                right = max (s32 (rx r + rw r)) (s32 (rx dr + rw dr));
                bottom = max (s32 (ry r + rh r)) (s32 (ry dr + rh dr))
            in rect_init x y (s32 (right - x)) (s32 (bottom - y)))
         else r)
      else dr)"

definition rect_has_intersect :: "rect \<Rightarrow> rect \<Rightarrow> bool" where
  "rect_has_intersect r1 r2 =
     (let right1 = s32 (rx r1 + rw r1 - 1);
          right2 = s32 (rx r2 + rw r2 - 1);
          bottom1 = s32 (ry r1 + rh r1 - 1);
          bottom2 = s32 (ry r2 + rh r2 - 1)
      in \<not> (right1 < rx r2 \<or> right2 < rx r1 \<or> bottom1 < ry r2 \<or> bottom2 < ry r1))"

definition rect_intersect :: "rect \<Rightarrow> rect \<Rightarrow> rect" where
  "rect_intersect r1 r2 =
     (let bottom1 = s32 (ry r1 + rh r1 - 1);
          bottom2 = s32 (ry r2 + rh r2 - 1);
          right1 = s32 (rx r1 + rw r1 - 1);
          right2 = s32 (rx r2 + rw r2 - 1);
          top = max (ry r1) (ry r2);
          left = max (rx r1) (rx r2);
          right = min right1 right2;
          bottom = min bottom1 bottom2
      in rect_init left top
           (if right \<ge> left then s32 (right - left + 1) else 0)
           (if bottom \<ge> top then s32 (bottom - top + 1) else 0))"

text \<open>The four pieces of \<open>r1\<close> outside \<open>r2\<close>, and whether there are any.\<close>

definition rect_diff :: "rect \<Rightarrow> rect \<Rightarrow> bool \<times> rect \<times> rect \<times> rect \<times> rect" where
  "rect_diff r1 r2 =
     (let zero = rect_init 0 0 0 0;
          inn = rect_intersect r1 r2
      in if rw inn = 0 \<or> rh inn = 0 then (True, r1, zero, zero, zero)
         else if inn = r1 then (False, zero, zero, zero, zero)
         else
           (let right1 = s32 (rx r1 + rw r1 - 1);
                right2 = s32 (rx r2 + rw r2 - 1);
                bottom1 = s32 (ry r1 + rh r1 - 1);
                bottom2 = s32 (ry r2 + rh r2 - 1)
            in (True,
                rect_init (rx r1) (ry r1) (rw r1) (max (s32 (ry inn - ry r1)) 0),
                rect_init (rx r1) (ry inn) (max (s32 (rx inn - rx r1)) 0) (rh inn),
                rect_init (s32 (rx inn + rw inn)) (ry inn) (max (s32 (right1 - right2)) 0) (rh inn),
                rect_init (rx r1) (s32 (ry inn + rh inn)) (rw r1) (max (s32 (bottom1 - bottom2)) 0))))"

text \<open>One axis of the macro \<open>rectX_fix\<close>; the code treats both axes alike and interleaved.\<close>

definition fix_axis :: "int \<Rightarrow> int \<Rightarrow> int \<Rightarrow> int \<times> int" where
  "fix_axis p n m =
     (let p = (if p < 0 then 0 else p);
          (p, n) = (if p > m then (m, 0) else (p, n));
          n = (if n < 0 then 0 else n);
          n = (if s32 (p + n) > m then s32 (m - p) else n);
          n = (if n < 0 then 0 else n)
      in (p, n))"

definition rect_fix :: "rect \<Rightarrow> int \<Rightarrow> int \<Rightarrow> rect" where
  "rect_fix r max_w max_h =
     (case fix_axis (rx r) (rw r) max_w of (x, w) \<Rightarrow>
        (case fix_axis (ry r) (rh r) max_h of (y, h) \<Rightarrow> rect_init x y w h))"

section \<open>Pixels\<close>

definition points :: "rect \<Rightarrow> (int \<times> int) set" where
  "points r = {(x, y). rect_contains r x y}"

definition rect_ok :: "rect \<Rightarrow> bool" where
  "rect_ok r \<longleftrightarrow> - (2 ^ 29) \<le> rx r \<and> 0 \<le> rw r \<and> rx r + rw r \<le> 2 ^ 29 \<and>
     - (2 ^ 29) \<le> ry r \<and> 0 \<le> rh r \<and> ry r + rh r \<le> 2 ^ 29"

abbreviation nonempty :: "rect \<Rightarrow> bool" where
  "nonempty r \<equiv> 0 < rw r \<and> 0 < rh r"

lemma rect_init_simps [simp]:
  "rx (rect_init x y w h) = x" "ry (rect_init x y w h) = y" "rw (rect_init x y w h) = w" "rh (rect_init x y w h) = h"
  by (simp_all add: rect_init_def)

lemma rect_ok_init: "rect_ok (rect_init x y w h) \<longleftrightarrow> - (2 ^ 29) \<le> x \<and> 0 \<le> w \<and> x + w \<le> 2 ^ 29 \<and>
     - (2 ^ 29) \<le> y \<and> 0 \<le> h \<and> y + h \<le> 2 ^ 29"
  by (simp add: rect_ok_def)

lemma rect_ok_s32:
  assumes "rect_ok r"
  shows "s32 (rx r + rw r) = rx r + rw r" "s32 (ry r + rh r) = ry r + rh r"
    "s32 (rx r + rw r - 1) = rx r + rw r - 1" "s32 (ry r + rh r - 1) = ry r + rh r - 1"
  using assms by (auto simp: rect_ok_def intro!: s32_id)

lemma mem_points: "rect_ok r \<Longrightarrow> (x, y) \<in> points r \<longleftrightarrow> rx r \<le> x \<and> x < rx r + rw r \<and> ry r \<le> y \<and> y < ry r + rh r"
  by (auto simp: points_def rect_contains_def rect_ok_s32)

lemma points_empty: "rect_ok r \<Longrightarrow> points r = {} \<longleftrightarrow> \<not> nonempty r"
proof -
  assume ok: "rect_ok r"
  have "nonempty r \<Longrightarrow> (rx r, ry r) \<in> points r" using ok by (simp add: mem_points)
  moreover have "\<not> nonempty r \<Longrightarrow> points r = {}" using ok by (auto simp: mem_points)
  ultimately show ?thesis by blast
qed

text \<open>A rectangle with pixels is determined by them.\<close>

lemma points_subset:
  assumes "rect_ok a" "rect_ok b" "nonempty a"
  shows "points a \<subseteq> points b \<longleftrightarrow>
    rx b \<le> rx a \<and> rx a + rw a \<le> rx b + rw b \<and> ry b \<le> ry a \<and> ry a + rh a \<le> ry b + rh b"
proof
  assume s: "points a \<subseteq> points b"
  have "(rx a, ry a) \<in> points a" "(rx a + rw a - 1, ry a + rh a - 1) \<in> points a"
    using assms by (simp_all add: mem_points)
  then have "(rx a, ry a) \<in> points b" "(rx a + rw a - 1, ry a + rh a - 1) \<in> points b" using s by auto
  then show "rx b \<le> rx a \<and> rx a + rw a \<le> rx b + rw b \<and> ry b \<le> ry a \<and> ry a + rh a \<le> ry b + rh b"
    using assms by (simp add: mem_points)
qed (use assms in \<open>auto simp: mem_points\<close>)

section \<open>What the operations compute\<close>

lemma rect_intersect_eq:
  assumes "rect_ok r1" "rect_ok r2"
  shows "rx (rect_intersect r1 r2) = max (rx r1) (rx r2)" "ry (rect_intersect r1 r2) = max (ry r1) (ry r2)"
    "rw (rect_intersect r1 r2) = max 0 (min (rx r1 + rw r1) (rx r2 + rw r2) - max (rx r1) (rx r2))"
    "rh (rect_intersect r1 r2) = max 0 (min (ry r1 + rh r1) (ry r2 + rh r2) - max (ry r1) (ry r2))"
proof -
  have s: "s32 (min (a - 1) (b - 1) - c + 1) = min a b - c"
    if "- (2 ^ 29) \<le> a" "a \<le> 2 ^ 29" "- (2 ^ 29) \<le> b" "b \<le> 2 ^ 29" "- (2 ^ 29) \<le> c" "c \<le> 2 ^ 29" for a b c :: int
  proof -
    have "min (a - 1) (b - 1) - c + 1 = min a b - c" by linarith
    then show ?thesis using that by (simp add: s32_id min_def)
  qed
  have b: "- (2 ^ 29) \<le> rx r + rw r" "rx r + rw r \<le> 2 ^ 29" "- (2 ^ 29) \<le> ry r + rh r" "ry r + rh r \<le> 2 ^ 29"
    "- (2 ^ 29) \<le> rx r" "rx r \<le> 2 ^ 29" "- (2 ^ 29) \<le> ry r" "ry r \<le> 2 ^ 29" if "rect_ok r" for r
    using that by (auto simp: rect_ok_def)
  have m: "- (2 ^ 29) \<le> max (rx r1) (rx r2)" "max (rx r1) (rx r2) \<le> 2 ^ 29"
    "- (2 ^ 29) \<le> max (ry r1) (ry r2)" "max (ry r1) (ry r2) \<le> 2 ^ 29"
    using b[OF assms(1)] b[OF assms(2)] by (auto simp: max_def)
  note e = s[OF b(1,2)[OF assms(1)] b(1,2)[OF assms(2)] m(1,2)] s[OF b(3,4)[OF assms(1)] b(3,4)[OF assms(2)] m(3,4)]
  show "rx (rect_intersect r1 r2) = max (rx r1) (rx r2)" "ry (rect_intersect r1 r2) = max (ry r1) (ry r2)"
    by (simp_all add: rect_intersect_def Let_def)
  show "rw (rect_intersect r1 r2) = max 0 (min (rx r1 + rw r1) (rx r2 + rw r2) - max (rx r1) (rx r2))"
    "rh (rect_intersect r1 r2) = max 0 (min (ry r1 + rh r1) (ry r2 + rh r2) - max (ry r1) (ry r2))"
    unfolding rect_intersect_def Let_def rect_init_simps rect_ok_s32[OF assms(1)] rect_ok_s32[OF assms(2)] e
    by (simp_all add: max_def min_def)
qed

lemma rect_intersect_points:
  assumes "rect_ok r1" "rect_ok r2"
  shows "rect_ok (rect_intersect r1 r2)" "points (rect_intersect r1 r2) = points r1 \<inter> points r2"
proof -
  show ok: "rect_ok (rect_intersect r1 r2)"
    using assms unfolding rect_ok_def rect_intersect_eq[OF assms] by (simp add: max_def min_def)
  have axis: "max a b \<le> x \<and> x < max a b + max 0 (min p q - max a b) \<longleftrightarrow> (a \<le> x \<and> x < p) \<and> b \<le> x \<and> x < q"
    for a b p q x :: int by (simp add: max_def min_def) linarith
  have "(x, y) \<in> points (rect_intersect r1 r2) \<longleftrightarrow> (x, y) \<in> points r1 \<inter> points r2" for x y
    using axis[of "rx r1" "rx r2" x "rx r1 + rw r1" "rx r2 + rw r2"] axis[of "ry r1" "ry r2" y "ry r1 + rh r1" "ry r2 + rh r2"]
    unfolding Int_iff mem_points[OF ok] mem_points[OF assms(1)] mem_points[OF assms(2)] rect_intersect_eq[OF assms]
    by blast
  then show "points (rect_intersect r1 r2) = points r1 \<inter> points r2" by auto
qed

lemma rect_has_intersect_points:
  assumes "rect_ok r1" "rect_ok r2" "nonempty r1" "nonempty r2"
  shows "rect_has_intersect r1 r2 \<longleftrightarrow> points r1 \<inter> points r2 \<noteq> {}"
proof -
  have "points r1 \<inter> points r2 \<noteq> {} \<longleftrightarrow> nonempty (rect_intersect r1 r2)"
    using rect_intersect_points[OF assms(1,2)] points_empty by metis
  also have "\<dots> \<longleftrightarrow> rect_has_intersect r1 r2"
    unfolding rect_intersect_eq[OF assms(1,2)] rect_has_intersect_def Let_def
      rect_ok_s32[OF assms(1)] rect_ok_s32[OF assms(2)] using assms(3,4) by (auto simp: max_def min_def)
  finally show ?thesis by simp
qed

lemma rect_merge_eq:
  assumes "rect_ok a" "rect_ok b" "nonempty a" "nonempty b"
  shows "rx (rect_merge a b) = min (rx a) (rx b)" "ry (rect_merge a b) = min (ry a) (ry b)"
    "rw (rect_merge a b) = max (rx a + rw a) (rx b + rw b) - min (rx a) (rx b)"
    "rh (rect_merge a b) = max (ry a + rh a) (ry b + rh b) - min (ry a) (ry b)"
proof -
  have "s32 (max (rx b + rw b) (rx a + rw a) - min (rx a) (rx b)) = max (rx a + rw a) (rx b + rw b) - min (rx a) (rx b)"
    "s32 (max (ry b + rh b) (ry a + rh a) - min (ry a) (ry b)) = max (ry a + rh a) (ry b + rh b) - min (ry a) (ry b)"
    using assms by (subst s32_id; auto simp: rect_ok_def min_def max_def)+
  then show "rx (rect_merge a b) = min (rx a) (rx b)" "ry (rect_merge a b) = min (ry a) (ry b)"
    "rw (rect_merge a b) = max (rx a + rw a) (rx b + rw b) - min (rx a) (rx b)"
    "rh (rect_merge a b) = max (ry a + rh a) (ry b + rh b) - min (ry a) (ry b)"
    using assms by (simp_all add: rect_merge_def Let_def rect_ok_s32)
qed

text \<open>The merge is the least rectangle around both; an empty one is ignored.\<close>

lemma rect_merge_points:
  assumes "rect_ok a" "rect_ok b"
  shows "rect_ok (rect_merge a b)" "points a \<subseteq> points (rect_merge a b)" "points b \<subseteq> points (rect_merge a b)"
    "nonempty a \<or> nonempty b \<Longrightarrow> nonempty (rect_merge a b)"
    "rect_ok c \<Longrightarrow> points a \<subseteq> points c \<Longrightarrow> points b \<subseteq> points c \<Longrightarrow> points (rect_merge a b) \<subseteq> points c"
proof -
  consider (both) "nonempty a" "nonempty b" | (a) "\<not> nonempty b" "rect_merge a b = a"
    | (b) "nonempty b" "\<not> nonempty a" "rect_merge a b = b"
    by (cases "nonempty b"; cases "nonempty a") (auto simp: rect_merge_def)
  then have "rect_ok (rect_merge a b) \<and> points a \<subseteq> points (rect_merge a b) \<and> points b \<subseteq> points (rect_merge a b) \<and>
    (nonempty a \<or> nonempty b \<longrightarrow> nonempty (rect_merge a b)) \<and>
    (rect_ok c \<longrightarrow> points a \<subseteq> points c \<longrightarrow> points b \<subseteq> points c \<longrightarrow> points (rect_merge a b) \<subseteq> points c)"
  proof cases
    case both
    note e = rect_merge_eq[OF assms both]
    have ok: "rect_ok (rect_merge a b)" using assms unfolding rect_ok_def e by (simp add: max_def min_def)
    have ne: "nonempty (rect_merge a b)" using both unfolding e by (simp add: max_def min_def)
    have ab: "points a \<subseteq> points (rect_merge a b)" "points b \<subseteq> points (rect_merge a b)"
      unfolding points_subset[OF assms(1) ok both(1)] points_subset[OF assms(2) ok both(2)] e by (simp_all add: max_def min_def)
    have "points (rect_merge a b) \<subseteq> points c" if "rect_ok c" "points a \<subseteq> points c" "points b \<subseteq> points c"
      using that(2,3) unfolding points_subset[OF assms(1) that(1) both(1)] points_subset[OF assms(2) that(1) both(2)]
        points_subset[OF ok that(1) ne] e by (simp add: max_def min_def)
    then show ?thesis using ok ne ab by blast
  next
    case a
    then have "points b = {}" using assms(2) by (simp add: points_empty)
    then show ?thesis using a assms by auto
  next
    case b
    then have "points a = {}" using assms(1) by (simp add: points_empty)
    then show ?thesis using b assms by auto
  qed
  then show "rect_ok (rect_merge a b)" "points a \<subseteq> points (rect_merge a b)" "points b \<subseteq> points (rect_merge a b)"
    "nonempty a \<or> nonempty b \<Longrightarrow> nonempty (rect_merge a b)"
    "rect_ok c \<Longrightarrow> points a \<subseteq> points c \<Longrightarrow> points b \<subseteq> points c \<Longrightarrow> points (rect_merge a b) \<subseteq> points c" by blast+
qed


text \<open>
  The difference. \<open>strip\<close> describes one piece by its edges; the piece has no pixels when an
  edge is not before the opposite one.
\<close>

lemma mem_strip:
  assumes "rect_ok (rect_init x y (max (a - x) 0) (max (b - y) 0))"
  shows "(u, v) \<in> points (rect_init x y (max (a - x) 0) (max (b - y) 0)) \<longleftrightarrow> x \<le> u \<and> u < a \<and> y \<le> v \<and> v < b"
  using mem_points[OF assms] by (auto simp: max_def)

lemma rect_diff_pieces:
  assumes ok: "rect_ok r1" "rect_ok r2" and ne: "nonempty (rect_intersect r1 r2)" and neq: "rect_intersect r1 r2 \<noteq> r1"
  defines "l \<equiv> max (rx r1) (rx r2)" and "t \<equiv> max (ry r1) (ry r2)"
    and "r \<equiv> min (rx r1 + rw r1) (rx r2 + rw r2)" and "b \<equiv> min (ry r1 + rh r1) (ry r2 + rh r2)"
  shows "rect_diff r1 r2 = (True,
      rect_init (rx r1) (ry r1) (max (rx r1 + rw r1 - rx r1) 0) (max (t - ry r1) 0),
      rect_init (rx r1) t (max (l - rx r1) 0) (max (b - t) 0),
      rect_init r t (max (rx r1 + rw r1 - r) 0) (max (b - t) 0),
      rect_init (rx r1) b (max (rx r1 + rw r1 - rx r1) 0) (max (ry r1 + rh r1 - b) 0))"
proof -
  note E = rect_intersect_eq[OF ok]
  have pos: "l < r" "t < b" using ne unfolding E l_def t_def r_def b_def by (simp_all add: max_def split: if_splits)
  have I: "rx (rect_intersect r1 r2) = l" "ry (rect_intersect r1 r2) = t" "rw (rect_intersect r1 r2) = r - l"
    "rh (rect_intersect r1 r2) = b - t"
    using pos unfolding E by (simp_all add: l_def t_def r_def b_def)
  have B: "- (2 ^ 29) \<le> l" "l \<le> 2 ^ 29" "- (2 ^ 29) \<le> t" "t \<le> 2 ^ 29" "- (2 ^ 29) \<le> r" "r \<le> 2 ^ 29" "- (2 ^ 29) \<le> b" "b \<le> 2 ^ 29"
    using ok by (auto simp: rect_ok_def l_def t_def r_def b_def max_def min_def)
  have O: "- (2 ^ 29) \<le> rx s \<and> 0 \<le> rw s \<and> rx s + rw s \<le> 2 ^ 29 \<and> - (2 ^ 29) \<le> ry s \<and> 0 \<le> rh s \<and> ry s + rh s \<le> 2 ^ 29"
    if "rect_ok s" for s using that by (simp add: rect_ok_def)
  have S: "s32 (t - ry r1) = t - ry r1" "s32 (l - rx r1) = l - rx r1" "s32 (l + (r - l)) = r" "s32 (t + (b - t)) = b"
    "s32 (rx r1 + rw r1 - 1 - (rx r2 + rw r2 - 1)) = (rx r1 + rw r1) - (rx r2 + rw r2)"
    "s32 (ry r1 + rh r1 - 1 - (ry r2 + rh r2 - 1)) = (ry r1 + rh r1) - (ry r2 + rh r2)"
    using B O[OF ok(1)] O[OF ok(2)] by (subst s32_id; simp)+
  have M: "max ((rx r1 + rw r1) - (rx r2 + rw r2)) 0 = max (rx r1 + rw r1 - r) 0"
    "max ((ry r1 + rh r1) - (ry r2 + rh r2)) 0 = max (ry r1 + rh r1 - b) 0"
    by (simp_all add: r_def b_def max_def min_def)
  have W: "max (b - t) 0 = b - t" "max (rx r1 + rw r1 - rx r1) 0 = rw r1"
    using pos O[OF ok(1)] by simp_all
  show ?thesis
    unfolding rect_diff_def Let_def I rect_ok_s32[OF ok(1)] rect_ok_s32[OF ok(2)] S M W using pos neq by simp
qed

lemma rect_diff_points:
  assumes ok: "rect_ok r1" "rect_ok r2" and d: "rect_diff r1 r2 = (some, o1, o2, o3, o4)"
  shows "points o1 \<union> points o2 \<union> points o3 \<union> points o4 = points r1 - points r2"
    "points o1 \<inter> (points o2 \<union> points o3 \<union> points o4) = {}" "points o2 \<inter> (points o3 \<union> points o4) = {}"
    "points o3 \<inter> points o4 = {}"
    "some \<longleftrightarrow> \<not> (nonempty r1 \<and> points r1 \<subseteq> points r2)"
    "rect_ok o1 \<and> rect_ok o2 \<and> rect_ok o3 \<and> rect_ok o4"
proof -
  let ?in = "rect_intersect r1 r2"
  note In = rect_intersect_points[OF ok]
  have zero: "points (rect_init 0 0 0 0) = {}" "rect_ok (rect_init 0 0 0 0)"
    by (auto simp: points_empty rect_ok_init)
  have nn: "0 \<le> rw ?in" "0 \<le> rh ?in" using In(1) by (auto simp: rect_ok_def)
  have "points o1 \<union> points o2 \<union> points o3 \<union> points o4 = points r1 - points r2 \<and>
    points o1 \<inter> (points o2 \<union> points o3 \<union> points o4) = {} \<and> points o2 \<inter> (points o3 \<union> points o4) = {} \<and>
    points o3 \<inter> points o4 = {} \<and> (some \<longleftrightarrow> \<not> (nonempty r1 \<and> points r1 \<subseteq> points r2)) \<and>
    rect_ok o1 \<and> rect_ok o2 \<and> rect_ok o3 \<and> rect_ok o4"
  proof (cases "nonempty ?in")
    case False
    then have e: "points r1 \<inter> points r2 = {}" using In points_empty by blast
    have "rw ?in = 0 \<or> rh ?in = 0" using False nn by auto
    then have "some" "o1 = r1" "o2 = rect_init 0 0 0 0" "o3 = rect_init 0 0 0 0" "o4 = rect_init 0 0 0 0"
      using d by (auto simp: rect_diff_def Let_def)
    moreover have "\<not> (nonempty r1 \<and> points r1 \<subseteq> points r2)" using e points_empty[OF ok(1)] by blast
    ultimately show ?thesis using e zero ok by auto
  next
    case True
    show ?thesis
    proof (cases "?in = r1")
      case eq: True
      then have "\<not> some" "o1 = rect_init 0 0 0 0" "o2 = rect_init 0 0 0 0" "o3 = rect_init 0 0 0 0" "o4 = rect_init 0 0 0 0"
        using d True by (auto simp: rect_diff_def Let_def)
      moreover have "points r1 \<subseteq> points r2" "nonempty r1" using In(2) True eq by auto
      ultimately show ?thesis using zero by auto
    next
      case neq: False
      define l t r b where lt: "l = max (rx r1) (rx r2)" "t = max (ry r1) (ry r2)"
        "r = min (rx r1 + rw r1) (rx r2 + rw r2)" "b = min (ry r1 + rh r1) (ry r2 + rh r2)"
      have pieces: "some" "o1 = rect_init (rx r1) (ry r1) (max (rx r1 + rw r1 - rx r1) 0) (max (t - ry r1) 0)"
        "o2 = rect_init (rx r1) t (max (l - rx r1) 0) (max (b - t) 0)"
        "o3 = rect_init r t (max (rx r1 + rw r1 - r) 0) (max (b - t) 0)"
        "o4 = rect_init (rx r1) b (max (rx r1 + rw r1 - rx r1) 0) (max (ry r1 + rh r1 - b) 0)"
        using d rect_diff_pieces[OF ok True neq] lt by auto
      have pos: "l < r" "t < b" "rx r1 \<le> l" "r \<le> rx r1 + rw r1" "ry r1 \<le> t" "b \<le> ry r1 + rh r1"
        using True unfolding rect_intersect_eq[OF ok] lt by (simp_all add: max_def split: if_splits)
      have B: "- (2 ^ 29) \<le> rx r1" "0 \<le> rw r1" "rx r1 + rw r1 \<le> 2 ^ 29" "- (2 ^ 29) \<le> ry r1" "0 \<le> rh r1" "ry r1 + rh r1 \<le> 2 ^ 29"
        using ok(1) by (simp_all add: rect_ok_def)
      have oks: "rect_ok o1" "rect_ok o2" "rect_ok o3" "rect_ok o4"
        unfolding pieces rect_ok_init using pos B by (simp_all add: max_def)
      note mem = mem_strip[OF oks(1)[unfolded pieces(2-5)], folded pieces(2-5)] mem_strip[OF oks(2)[unfolded pieces(2-5)], folded pieces(2-5)]
        mem_strip[OF oks(3)[unfolded pieces(2-5)], folded pieces(2-5)] mem_strip[OF oks(4)[unfolded pieces(2-5)], folded pieces(2-5)]
      have diff: "(u, v) \<in> points r1 - points r2 \<longleftrightarrow> rx r1 \<le> u \<and> u < rx r1 + rw r1 \<and> ry r1 \<le> v \<and> v < ry r1 + rh r1 \<and>
          \<not> (l \<le> u \<and> u < r \<and> t \<le> v \<and> v < b)" for u v
        unfolding lt Diff_iff mem_points[OF ok(1)] mem_points[OF ok(2)] by auto
      have un: "(u, v) \<in> points o1 \<union> points o2 \<union> points o3 \<union> points o4 \<longleftrightarrow> (u, v) \<in> points r1 - points r2" for u v
        unfolding diff Un_iff mem using pos by auto
      have "points o1 \<inter> (points o2 \<union> points o3 \<union> points o4) = {}" "points o2 \<inter> (points o3 \<union> points o4) = {}"
        "points o3 \<inter> points o4 = {}" using mem pos by auto
      moreover have "points o1 \<union> points o2 \<union> points o3 \<union> points o4 = points r1 - points r2" using un by auto
      moreover have "\<not> points r1 \<subseteq> points r2"
      proof
        assume "points r1 \<subseteq> points r2"
        then have "points ?in = points r1" using In(2) by blast
        moreover have "nonempty r1" using pos by auto
        ultimately have "rx ?in = rx r1 \<and> rx ?in + rw ?in = rx r1 + rw r1 \<and> ry ?in = ry r1 \<and> ry ?in + rh ?in = ry r1 + rh r1"
          using points_subset[OF In(1) ok(1) True] points_subset[OF ok(1) In(1)] by auto
        then have "?in = r1" by (intro rect.equality) auto
        then show False using neq by simp
      qed
      ultimately show ?thesis using pieces(1) oks by blast
    qed
  qed
  then show "points o1 \<union> points o2 \<union> points o3 \<union> points o4 = points r1 - points r2"
    "points o1 \<inter> (points o2 \<union> points o3 \<union> points o4) = {}" "points o2 \<inter> (points o3 \<union> points o4) = {}"
    "points o3 \<inter> points o4 = {}" "some \<longleftrightarrow> \<not> (nonempty r1 \<and> points r1 \<subseteq> points r2)"
    "rect_ok o1 \<and> rect_ok o2 \<and> rect_ok o3 \<and> rect_ok o4" by blast+
qed

text \<open>
  Clipping to a screen: the result lies on the screen and no visible pixel is lost. A rectangle that
  begins left of the screen is moved, not cut, so the result may have pixels that were not in it.
\<close>

lemma fix_axis_spec:
  assumes "- (2 ^ 29) \<le> p" "0 \<le> n" "p + n \<le> 2 ^ 29" "0 \<le> m" "m \<le> 2 ^ 29" and "fix_axis p n m = (p', n')"
  shows "0 \<le> p'" "0 \<le> n'" "p' + n' \<le> m" "p \<le> x \<Longrightarrow> x < p + n \<Longrightarrow> 0 \<le> x \<Longrightarrow> x < m \<Longrightarrow> p' \<le> x \<and> x < p' + n'"
    "0 \<le> p \<Longrightarrow> p' \<le> x \<Longrightarrow> x < p' + n' \<Longrightarrow> p \<le> x \<and> x < p + n"
proof -
  define q where "q = max p 0"
  have s: "q + n \<le> 2 ^ 30" "0 \<le> q" using assms by (auto simp: q_def)
  have e: "fix_axis p n m = (if q > m then (m, 0) else (q, if q + n > m then m - q else n))"
  proof -
    have q: "(if p < 0 then 0 else p) = q" by (simp add: q_def)
    show ?thesis
    proof (cases "q > m")
      case True
      then show ?thesis using assms(4,5) unfolding fix_axis_def Let_def q by simp
    next
      case False
      have "s32 (q + n) = q + n" "s32 (m - q) = m - q" using s assms(2,4,5) by (simp_all add: s32_id)
      then show ?thesis using False assms(2) unfolding fix_axis_def Let_def q by simp
    qed
  qed
  show "0 \<le> p'" "0 \<le> n'" "p' + n' \<le> m" "p \<le> x \<Longrightarrow> x < p + n \<Longrightarrow> 0 \<le> x \<Longrightarrow> x < m \<Longrightarrow> p' \<le> x \<and> x < p' + n'"
    "0 \<le> p \<Longrightarrow> p' \<le> x \<Longrightarrow> x < p' + n' \<Longrightarrow> p \<le> x \<and> x < p + n"
    using e assms by (auto simp: q_def split: if_splits)
qed

lemma rect_fix_points:
  assumes ok: "rect_ok r" and m: "0 \<le> w" "w \<le> 2 ^ 29" "0 \<le> h" "h \<le> 2 ^ 29"
  shows "rect_ok (rect_fix r w h)" "points (rect_fix r w h) \<subseteq> points (rect_init 0 0 w h)"
    "points r \<inter> points (rect_init 0 0 w h) \<subseteq> points (rect_fix r w h)"
    "0 \<le> rx r \<Longrightarrow> 0 \<le> ry r \<Longrightarrow> points (rect_fix r w h) = points r \<inter> points (rect_init 0 0 w h)"
proof -
  obtain x' w' where ax: "fix_axis (rx r) (rw r) w = (x', w')" by fastforce
  obtain y' h' where ay: "fix_axis (ry r) (rh r) h = (y', h')" by fastforce
  have f: "rect_fix r w h = rect_init x' y' w' h'" using ax ay by (simp add: rect_fix_def)
  have B: "- (2 ^ 29) \<le> rx r" "0 \<le> rw r" "rx r + rw r \<le> 2 ^ 29" "- (2 ^ 29) \<le> ry r" "0 \<le> rh r" "ry r + rh r \<le> 2 ^ 29"
    using ok by (simp_all add: rect_ok_def)
  note X = fix_axis_spec[OF B(1,2,3) m(1,2) ax] and Y = fix_axis_spec[OF B(4,5,6) m(3,4) ay]
  show ok': "rect_ok (rect_fix r w h)" using X(1,2,3) Y(1,2,3) m by (simp add: f rect_ok_init)
  have okS: "rect_ok (rect_init 0 0 w h)" using m by (simp add: rect_ok_init)
  show sub: "points (rect_fix r w h) \<subseteq> points (rect_init 0 0 w h)"
    using X(1,3) Y(1,3) mem_points[OF ok'] mem_points[OF okS] by (auto simp: f)
  show sup: "points r \<inter> points (rect_init 0 0 w h) \<subseteq> points (rect_fix r w h)"
    using X(4) Y(4) mem_points[OF ok'] mem_points[OF okS] mem_points[OF ok] by (auto simp: f)
  show "points (rect_fix r w h) = points r \<inter> points (rect_init 0 0 w h)" if "0 \<le> rx r" "0 \<le> ry r"
  proof -
    have "points (rect_fix r w h) \<subseteq> points r"
      using X(5)[OF that(1)] Y(5)[OF that(2)] mem_points[OF ok'] mem_points[OF ok] by (auto simp: f)
    then show ?thesis using sub sup by blast
  qed
qed

section \<open>Properties\<close>

text \<open>
  \<open>rect_intersect\<close> computes exactly the common points of two rectangles, and
  \<open>rect_has_intersect\<close> says whether there are any.
\<close>

theorem rect_intersect_exact:
  assumes "rect_ok r1" and "rect_ok r2"
  shows "points (rect_intersect r1 r2) = points r1 \<inter> points r2 \<and>
    (nonempty r1 \<and> nonempty r2 \<longrightarrow> (rect_has_intersect r1 r2 \<longleftrightarrow> points r1 \<inter> points r2 \<noteq> {}))"
  using rect_intersect_points(2)[OF assms] rect_has_intersect_points[OF assms] by blast

text \<open>
  \<open>rect_merge\<close> is the least bounding rectangle: it covers both arguments, and every
  rectangle that covers both covers it.
\<close>

theorem rect_merge_least_bound:
  assumes "rect_ok a" and "rect_ok b"
  shows "points a \<union> points b \<subseteq> points (rect_merge a b) \<and>
    (\<forall>c. rect_ok c \<and> points a \<union> points b \<subseteq> points c \<longrightarrow> points (rect_merge a b) \<subseteq> points c)"
  using rect_merge_points(2,3,5)[OF assms] by blast

text \<open>
  C14. \<open>rect_diff\<close> cuts a rectangle out of another: its four results are pairwise disjoint
  and together they are exactly the points of the first that are not in the second. The status
  tells whether anything is left.
\<close>

theorem rect_diff_partition:
  assumes "rect_ok r1" and "rect_ok r2" and "rect_diff r1 r2 = (some, o1, o2, o3, o4)"
  shows "points o1 \<union> points o2 \<union> points o3 \<union> points o4 = points r1 - points r2 \<and>
    points o1 \<inter> points o2 = {} \<and> points o1 \<inter> points o3 = {} \<and> points o1 \<inter> points o4 = {} \<and>
    points o2 \<inter> points o3 = {} \<and> points o2 \<inter> points o4 = {} \<and> points o3 \<inter> points o4 = {} \<and>
    (some \<longleftrightarrow> \<not> (nonempty r1 \<and> points r1 \<subseteq> points r2))"
  using rect_diff_points(1-5)[OF assms] by blast

lemma rect_examples: "rect_ok (rect_init 0 0 10 10)" "rect_ok (rect_init 5 5 10 2)"
  by (simp_all add: rect_ok_def rect_init_def)

theorem rect_intersect_exact_witness:
  "points (rect_intersect (rect_init 0 0 10 10) (rect_init 5 5 10 2)) =
     points (rect_init 0 0 10 10) \<inter> points (rect_init 5 5 10 2)"
  using rect_intersect_exact[OF rect_examples] by simp

theorem rect_merge_least_bound_witness:
  "points (rect_init 0 0 10 10) \<union> points (rect_init 5 5 10 2) \<subseteq> points (rect_init 0 0 15 10)"
proof -
  have "rect_merge (rect_init 0 0 10 10) (rect_init 5 5 10 2) = rect_init 0 0 15 10"
    by (simp add: rect_merge_def rect_init_def s32_def)
  then show ?thesis using rect_merge_least_bound[OF rect_examples] by simp
qed

theorem rect_diff_partition_witness:
  "points (rect_init 0 0 10 5) \<union> points (rect_init 0 5 5 2) \<union> points (rect_init 10 5 0 2) \<union> points (rect_init 0 7 10 3) =
   points (rect_init 0 0 10 10) - points (rect_init 5 5 10 2)"
proof -
  have "rect_diff (rect_init 0 0 10 10) (rect_init 5 5 10 2) =
    (True, rect_init 0 0 10 5, rect_init 0 5 5 2, rect_init 10 5 0 2, rect_init 0 7 10 3)"
    by (simp add: rect_diff_def rect_intersect_def rect_init_def s32_def Let_def)
  from rect_diff_partition[OF rect_examples this] show ?thesis by (elim conjE)
qed

end
