(* ===== verification/Canvas.thy ===== *)
theory Canvas
  imports Rect "HOL-Library.Monad_Syntax"
begin

text \<open>
  The canvas of \<open>src/src/base/canvas.c\<close> on a frame buffer (\<open>src/src/base/lcd.c\<close>, \<open>src/src/lcd/lcd_mem.inc\<close>): its
  clip rectangle, and the drawing of points, lines and rectangles, which is clipped to it; and
  \<open>widget_paint_with_clip\<close> of \<open>src/src/base/widget_vtable.c\<close>.

  The LCD draws by software: it has no clip rectangle of its own and no vector canvas. Its frame buffer is
  a colour for every pixel of the screen; colours are opaque. \<open>None\<close> is a pixel written outside of
  the screen, which the code asserts not to happen. Text and images are not modelled.

  Shown: no drawing reaches a pixel outside of the clip rectangle or of the screen; a filled rectangle covers exactly
  its part within the clip; painting with a clip gives the clip rectangle back.
\<close>

section \<open>State\<close>

type_synonym color = nat

text \<open>\<open>lcd_support_dirty_rect\<close> is the answer of \<open>lcd_is_support_dirty_rect\<close>.\<close>

record canvas =
  cv_ox :: int
  cv_oy :: int
  clip_left :: int
  clip_top :: int
  clip_right :: int
  clip_bottom :: int
  lcd_w :: int
  lcd_h :: int
  lcd_support_dirty_rect :: bool
  lcd_fill_color :: color
  lcd_stroke_color :: color
  lcd_pixels :: "int \<times> int \<Rightarrow> color"

type_synonym drawn = "(ret_t \<times> canvas) option"

section \<open>The frame buffer\<close>

text \<open>
  A rectangle of pixels. The assertions compare the right and bottom edges as unsigned numbers with the size of
  the screen, so that an edge below zero fails too; a rectangle without pixels is refused after them.
\<close>

definition lcd_mem_fill_rect_with_color :: "canvas \<Rightarrow> int \<Rightarrow> int \<Rightarrow> int \<Rightarrow> int \<Rightarrow> color \<Rightarrow> drawn" where
  "lcd_mem_fill_rect_with_color c x y w h color =
     (if 0 \<le> x \<and> 0 \<le> x + w \<and> x + w \<le> lcd_w c \<and> 0 \<le> y \<and> 0 \<le> y + h \<and> y + h \<le> lcd_h c then
        (if w \<le> 0 \<or> h \<le> 0 then Some (RET_BAD_PARAMS, c)
         else Some (RET_OK, c\<lparr>lcd_pixels := (\<lambda>(u, v). if x \<le> u \<and> u < x + w \<and> y \<le> v \<and> v < y + h then color else lcd_pixels c (u, v))\<rparr>))
      else None)"

definition lcd_fill_rect :: "canvas \<Rightarrow> int \<Rightarrow> int \<Rightarrow> int \<Rightarrow> int \<Rightarrow> drawn" where
  "lcd_fill_rect c x y w h =
     (if w = 0 \<or> h = 0 then Some (RET_BAD_PARAMS, c) else lcd_mem_fill_rect_with_color c x y w h (lcd_fill_color c))"

definition lcd_clear_rect :: "canvas \<Rightarrow> int \<Rightarrow> int \<Rightarrow> int \<Rightarrow> int \<Rightarrow> drawn" where
  "lcd_clear_rect c x y w h =
     (if w = 0 \<or> h = 0 then Some (RET_BAD_PARAMS, c) else lcd_mem_fill_rect_with_color c x y w h (lcd_fill_color c))"

definition lcd_draw_hline :: "canvas \<Rightarrow> int \<Rightarrow> int \<Rightarrow> int \<Rightarrow> drawn" where
  "lcd_draw_hline c x y w = (if w = 0 then Some (RET_BAD_PARAMS, c) else lcd_mem_fill_rect_with_color c x y w 1 (lcd_stroke_color c))"

text \<open>\<open>lcd_mem_draw_vline\<close> is a loop over the rows, which a negative height does not enter.\<close>

definition lcd_draw_vline :: "canvas \<Rightarrow> int \<Rightarrow> int \<Rightarrow> int \<Rightarrow> drawn" where
  "lcd_draw_vline c x y h =
     (if h = 0 then Some (RET_BAD_PARAMS, c)
      else if h < 0 then Some (RET_OK, c)
      else lcd_mem_fill_rect_with_color c x y 1 h (lcd_stroke_color c))"

fun lcd_draw_points :: "canvas \<Rightarrow> (int \<times> int) list \<Rightarrow> drawn" where
  "lcd_draw_points c [] = Some (RET_OK, c)"
| "lcd_draw_points c ((x, y) # ps) = do {
     (_, c) \<leftarrow> lcd_mem_fill_rect_with_color c x y 1 1 (lcd_stroke_color c);
     lcd_draw_points c ps
   }"

section \<open>The clip rectangle\<close>

definition canvas_fix_rect :: "rect \<Rightarrow> rect" where
  "canvas_fix_rect r =
     (let r = (if rw r < 0 then r\<lparr>rw := s32 (- rw r), rx := s32 (rx r - s32 (- rw r) + 1)\<rparr> else r)
      in if rh r < 0 then r\<lparr>rh := s32 (- rh r), ry := s32 (ry r - s32 (- rh r) + 1)\<rparr> else r)"

definition canvas_translate :: "canvas \<Rightarrow> int \<Rightarrow> int \<Rightarrow> ret_t \<times> canvas" where
  "canvas_translate c dx dy = (RET_OK, c\<lparr>cv_ox := s32 (cv_ox c + dx), cv_oy := s32 (cv_oy c + dy)\<rparr>)"

definition canvas_untranslate :: "canvas \<Rightarrow> int \<Rightarrow> int \<Rightarrow> ret_t \<times> canvas" where
  "canvas_untranslate c dx dy = (RET_OK, c\<lparr>cv_ox := s32 (cv_ox c - dx), cv_oy := s32 (cv_oy c - dy)\<rparr>)"

definition canvas_get_clip_rect :: "canvas \<Rightarrow> rect" where
  "canvas_get_clip_rect c =
     rect_init (clip_left c) (clip_top c) (s32 (clip_right c - clip_left c + 1)) (s32 (clip_bottom c - clip_top c + 1))"

definition canvas_is_rect_in_clip_rect :: "canvas \<Rightarrow> int \<Rightarrow> int \<Rightarrow> int \<Rightarrow> int \<Rightarrow> bool" where
  "canvas_is_rect_in_clip_rect c l t r b \<longleftrightarrow> \<not> (l > clip_right c \<or> r < clip_left c \<or> t > clip_bottom c \<or> b < clip_top c)"

definition canvas_set_clip_rect :: "canvas \<Rightarrow> rect option \<Rightarrow> ret_t \<times> canvas" where
  "canvas_set_clip_rect c r_in =
     (case map_option canvas_fix_rect r_in of
        Some r \<Rightarrow> (RET_OK, c\<lparr>clip_left := max 0 (rx r), clip_top := max 0 (ry r),
          clip_right := min (lcd_w c - 1) (s32 (rx r + rw r - 1)), clip_bottom := min (lcd_h c - 1) (s32 (ry r + rh r - 1))\<rparr>)
      | None \<Rightarrow> (RET_OK, c\<lparr>clip_left := 0, clip_top := 0, clip_right := lcd_w c - 1, clip_bottom := lcd_h c - 1\<rparr>))"

definition canvas_set_clip_rect_ex :: "canvas \<Rightarrow> rect option \<Rightarrow> bool \<Rightarrow> ret_t \<times> canvas" where
  "canvas_set_clip_rect_ex c r_in translate =
     (case map_option canvas_fix_rect r_in of
        Some r \<Rightarrow> canvas_set_clip_rect c (Some (if translate then r\<lparr>rx := s32 (rx r + cv_ox c), ry := s32 (ry r + cv_oy c)\<rparr> else r))
      | None \<Rightarrow> canvas_set_clip_rect c None)"

definition canvas_set_fill_color :: "canvas \<Rightarrow> color \<Rightarrow> ret_t \<times> canvas" where
  "canvas_set_fill_color c color = (RET_OK, c\<lparr>lcd_fill_color := color\<rparr>)"

definition canvas_set_stroke_color :: "canvas \<Rightarrow> color \<Rightarrow> ret_t \<times> canvas" where
  "canvas_set_stroke_color c color = (RET_OK, c\<lparr>lcd_stroke_color := color\<rparr>)"

section \<open>Drawing\<close>

definition canvas_draw_hline_impl :: "canvas \<Rightarrow> int \<Rightarrow> int \<Rightarrow> int \<Rightarrow> drawn" where
  "canvas_draw_hline_impl c x y w =
     (let x2 = s32 (x + w - 1)
      in if \<not> canvas_is_rect_in_clip_rect c x y x2 y then Some (RET_OK, c)
         else
           (let r = canvas_get_clip_rect c;
                x = max x (rx r);
                x2 = min x2 (s32 (rx r + rw r - 1));
                w = s32 (x2 - x + 1)
            in lcd_draw_hline c x y w))"

definition canvas_draw_hline :: "canvas \<Rightarrow> int \<Rightarrow> int \<Rightarrow> int \<Rightarrow> drawn" where
  "canvas_draw_hline c x y w =
     (let (x, w) = (if w < 0 then (s32 (x - s32 (- w) + 1), s32 (- w)) else (x, w))
      in canvas_draw_hline_impl c (s32 (cv_ox c + x)) (s32 (cv_oy c + y)) w)"

definition canvas_draw_vline_impl :: "canvas \<Rightarrow> int \<Rightarrow> int \<Rightarrow> int \<Rightarrow> drawn" where
  "canvas_draw_vline_impl c x y h =
     (let y2 = s32 (y + h - 1)
      in if \<not> canvas_is_rect_in_clip_rect c x y x y2 then Some (RET_OK, c)
         else
           (let r = canvas_get_clip_rect c;
                y = max y (ry r);
                y2 = min y2 (s32 (ry r + rh r - 1));
                h = s32 (y2 - y + 1)
            in lcd_draw_vline c x y h))"

definition canvas_draw_vline :: "canvas \<Rightarrow> int \<Rightarrow> int \<Rightarrow> int \<Rightarrow> drawn" where
  "canvas_draw_vline c x y h =
     (let (y, h) = (if h < 0 then (s32 (y - s32 (- h) + 1), s32 (- h)) else (y, h))
      in canvas_draw_vline_impl c (s32 (cv_ox c + x)) (s32 (cv_oy c + y)) h)"

text \<open>An oblique line is the assertion "Not implemented yet".\<close>

definition canvas_draw_line_impl :: "canvas \<Rightarrow> int \<Rightarrow> int \<Rightarrow> int \<Rightarrow> int \<Rightarrow> drawn" where
  "canvas_draw_line_impl c x1 y1 x2 y2 =
     (if x1 = x2 then canvas_draw_vline_impl c x1 (min y1 y2) (s32 (\<bar>s32 (y2 - y1)\<bar> + 1))
      else if y1 = y2 then canvas_draw_hline_impl c (min x1 x2) y1 (s32 (\<bar>s32 (x2 - x1)\<bar> + 1))
      else None)"

definition canvas_draw_line :: "canvas \<Rightarrow> int \<Rightarrow> int \<Rightarrow> int \<Rightarrow> int \<Rightarrow> drawn" where
  "canvas_draw_line c x1 y1 x2 y2 =
     canvas_draw_line_impl c (s32 (cv_ox c + x1)) (s32 (cv_oy c + y1)) (s32 (cv_ox c + x2)) (s32 (cv_oy c + y2))"

definition MAX_POINTS_PER_DRAW :: nat where
  "MAX_POINTS_PER_DRAW = 20"

definition canvas_do_draw_points :: "canvas \<Rightarrow> (int \<times> int) list \<Rightarrow> drawn" where
  "canvas_do_draw_points c ps =
     (if length ps \<le> MAX_POINTS_PER_DRAW then
        lcd_draw_points c (filter (\<lambda>(x, y). canvas_is_rect_in_clip_rect c x y x y)
          (map (\<lambda>(x, y). (s32 (x + cv_ox c), s32 (y + cv_oy c))) ps))
      else Some (RET_BAD_PARAMS, c))"

text \<open>\<open>n\<close> full portions and a last one of \<open>r\<close> points.\<close>

fun points_loop :: "nat \<Rightarrow> nat \<Rightarrow> (int \<times> int) list \<Rightarrow> canvas \<Rightarrow> canvas option" where
  "points_loop 0 r ps c = do { (_, c) \<leftarrow> canvas_do_draw_points c (take r ps); Some c }"
| "points_loop (Suc n) r ps c = do {
     (_, c) \<leftarrow> canvas_do_draw_points c (take MAX_POINTS_PER_DRAW ps);
     points_loop n r (drop MAX_POINTS_PER_DRAW ps) c
   }"

definition canvas_draw_points :: "canvas \<Rightarrow> (int \<times> int) list \<Rightarrow> drawn" where
  "canvas_draw_points c ps = do {
     c \<leftarrow> points_loop (length ps div MAX_POINTS_PER_DRAW) (length ps mod MAX_POINTS_PER_DRAW) ps c;
     Some (RET_OK, c)
   }"

text \<open>The macro \<open>fix_xywh\<close>, and the body that filling and clearing share.\<close>

definition fix_xywh :: "int \<Rightarrow> int \<Rightarrow> int \<Rightarrow> int \<Rightarrow> int \<times> int \<times> int \<times> int" where
  "fix_xywh x y w h =
     (let (x, w) = (if w < 0 then (s32 (x - s32 (- w) + 1), s32 (- w)) else (x, w));
          (y, h) = (if h < 0 then (s32 (y - s32 (- h) + 1), s32 (- h)) else (y, h))
      in (x, y, w, h))"

definition clipped_rect :: "(canvas \<Rightarrow> int \<Rightarrow> int \<Rightarrow> int \<Rightarrow> int \<Rightarrow> drawn) \<Rightarrow> canvas \<Rightarrow> int \<Rightarrow> int \<Rightarrow> int \<Rightarrow> int \<Rightarrow> drawn" where
  "clipped_rect draw c x y w h =
     (let x2 = s32 (x + w - 1); y2 = s32 (y + h - 1)
      in if \<not> canvas_is_rect_in_clip_rect c x y x2 y2 then Some (RET_OK, c)
         else
           (let r = canvas_get_clip_rect c;
                x = max x (rx r);
                y = max y (ry r);
                x2 = min x2 (s32 (rx r + rw r - 1));
                y2 = min y2 (s32 (ry r + rh r - 1));
                w = s32 (x2 - x + 1);
                h = s32 (y2 - y + 1)
            in draw c x y w h))"

definition canvas_fill_rect :: "canvas \<Rightarrow> int \<Rightarrow> int \<Rightarrow> int \<Rightarrow> int \<Rightarrow> drawn" where
  "canvas_fill_rect c x y w h =
     (let (x, y, w, h) = fix_xywh x y w h in clipped_rect lcd_fill_rect c (s32 (cv_ox c + x)) (s32 (cv_oy c + y)) w h)"

definition canvas_clear_rect :: "canvas \<Rightarrow> int \<Rightarrow> int \<Rightarrow> int \<Rightarrow> int \<Rightarrow> drawn" where
  "canvas_clear_rect c x y w h =
     (let (x, y, w, h) = fix_xywh x y w h in clipped_rect lcd_clear_rect c (s32 (cv_ox c + x)) (s32 (cv_oy c + y)) w h)"

definition canvas_stroke_rect_impl :: "canvas \<Rightarrow> int \<Rightarrow> int \<Rightarrow> int \<Rightarrow> int \<Rightarrow> drawn" where
  "canvas_stroke_rect_impl c x y w h =
     (if w > 0 \<and> h > 0 then do {
        (_, c) \<leftarrow> canvas_draw_hline_impl c x y w;
        (_, c) \<leftarrow> canvas_draw_hline_impl c x (s32 (y + h - 1)) w;
        (_, c) \<leftarrow> canvas_draw_vline_impl c x y h;
        (_, c) \<leftarrow> canvas_draw_vline_impl c (s32 (x + w - 1)) y h;
        Some (RET_OK, c)
      } else Some (RET_BAD_PARAMS, c))"

definition canvas_stroke_rect :: "canvas \<Rightarrow> int \<Rightarrow> int \<Rightarrow> int \<Rightarrow> int \<Rightarrow> drawn" where
  "canvas_stroke_rect c x y w h =
     (let (x, y, w, h) = fix_xywh x y w h in canvas_stroke_rect_impl c (s32 (cv_ox c + x)) (s32 (cv_oy c + y)) w h)"

text \<open>What a widget paints is a function of the canvas.\<close>

type_synonym on_paint = "canvas \<Rightarrow> drawn"

definition widget_paint_with_clip :: "int \<Rightarrow> int \<Rightarrow> rect option \<Rightarrow> canvas \<Rightarrow> on_paint \<Rightarrow> drawn" where
  "widget_paint_with_clip w h clip c on_paint =
     (let r_save = canvas_get_clip_rect c;
          r = (case clip of Some r \<Rightarrow> r | None \<Rightarrow> rect_init (cv_ox c) (cv_oy c) w h);
          r = rect_intersect r r_save;
          c = snd (canvas_set_clip_rect c (Some r))
      in do {
        (_, c) \<leftarrow> on_paint c;
        Some (RET_OK, snd (canvas_set_clip_rect c (Some r_save)))
      })"

section \<open>Pixels\<close>

definition clip_points :: "canvas \<Rightarrow> (int \<times> int) set" where
  "clip_points c = {(u, v). clip_left c \<le> u \<and> u \<le> clip_right c \<and> clip_top c \<le> v \<and> v \<le> clip_bottom c}"

text \<open>The clip rectangle lies on the screen; it may be empty, but does not end left of it or above it (the assertions of the LCD fail then).\<close>

definition canvas_ok :: "canvas \<Rightarrow> bool" where
  "canvas_ok c \<longleftrightarrow> 0 \<le> clip_left c \<and> clip_left c \<le> 2 ^ 29 \<and> - 1 \<le> clip_right c \<and> clip_right c < lcd_w c \<and> lcd_w c \<le> 2 ^ 29 \<and>
     0 \<le> clip_top c \<and> clip_top c \<le> 2 ^ 29 \<and> - 1 \<le> clip_bottom c \<and> clip_bottom c < lcd_h c \<and> lcd_h c \<le> 2 ^ 29"

definition block :: "int \<Rightarrow> int \<Rightarrow> int \<Rightarrow> int \<Rightarrow> (int \<times> int) set" where
  "block x y w h = {(u, v). x \<le> u \<and> u < x + w \<and> y \<le> v \<and> v < y + h}"

definition plot :: "canvas \<Rightarrow> (int \<times> int) set \<Rightarrow> color \<Rightarrow> canvas" where
  "plot c R color = c\<lparr>lcd_pixels := (\<lambda>p. if p \<in> R then color else lcd_pixels c p)\<rparr>"

lemma plot_simps [simp]:
  "clip_left (plot c R k) = clip_left c" "clip_right (plot c R k) = clip_right c" "clip_top (plot c R k) = clip_top c"
  "clip_bottom (plot c R k) = clip_bottom c" "lcd_w (plot c R k) = lcd_w c" "lcd_h (plot c R k) = lcd_h c"
  "cv_ox (plot c R k) = cv_ox c" "cv_oy (plot c R k) = cv_oy c" "lcd_stroke_color (plot c R k) = lcd_stroke_color c"
  "lcd_fill_color (plot c R k) = lcd_fill_color c" "clip_points (plot c R k) = clip_points c" "canvas_ok (plot c R k) = canvas_ok c"
  by (simp_all add: plot_def clip_points_def canvas_ok_def)

lemma clip_points_update [simp]:
  "clip_points (c\<lparr>lcd_pixels := f\<rparr>) = clip_points c" "clip_points (c\<lparr>lcd_fill_color := k\<rparr>) = clip_points c"
  "clip_points (c\<lparr>lcd_stroke_color := k\<rparr>) = clip_points c"
  by (simp_all add: clip_points_def)

lemma plot_plot: "plot (plot c R k) S k = plot c (R \<union> S) k"
  by (auto simp: plot_def fun_eq_iff)

lemma plot_none [simp]: "plot c {} k = c"
  by (simp add: plot_def)

lemma block_empty: "w \<le> 0 \<or> h \<le> 0 \<Longrightarrow> block x y w h = {}"
  by (auto simp: block_def)

text \<open>A rectangle that ends within the clip rectangle; it may be empty.\<close>

definition inside :: "canvas \<Rightarrow> int \<Rightarrow> int \<Rightarrow> int \<Rightarrow> int \<Rightarrow> bool" where
  "inside c x y w h \<longleftrightarrow> clip_left c \<le> x \<and> 0 \<le> x + w \<and> x + w \<le> clip_right c + 1 \<and> clip_top c \<le> y \<and> 0 \<le> y + h \<and> y + h \<le> clip_bottom c + 1"

lemma fill_block:
  assumes "inside c x y w h" and "canvas_ok c"
  shows "\<exists>r. lcd_mem_fill_rect_with_color c x y w h k = Some (r, plot c (block x y w h) k)"
proof -
  have "0 \<le> x \<and> 0 \<le> x + w \<and> x + w \<le> lcd_w c \<and> 0 \<le> y \<and> 0 \<le> y + h \<and> y + h \<le> lcd_h c"
    using assms by (auto simp: inside_def canvas_ok_def)
  then show ?thesis
    by (cases "w \<le> 0 \<or> h \<le> 0") (auto simp: lcd_mem_fill_rect_with_color_def block_empty plot_def block_def fun_eq_iff)
qed

text \<open>The four primitives of the LCD, within the clip rectangle.\<close>

lemma lcd_block:
  assumes "inside c x y w h" and "canvas_ok c"
  shows "\<exists>r. lcd_fill_rect c x y w h = Some (r, plot c (block x y w h) (lcd_fill_color c))"
    "\<exists>r. lcd_clear_rect c x y w h = Some (r, plot c (block x y w h) (lcd_fill_color c))"
  using fill_block[OF assms] by (auto simp: lcd_fill_rect_def lcd_clear_rect_def block_empty)

lemma lcd_hline: "inside c x y w 1 \<Longrightarrow> canvas_ok c \<Longrightarrow> \<exists>r. lcd_draw_hline c x y w = Some (r, plot c (block x y w 1) (lcd_stroke_color c))"
  using fill_block[of c x y w 1] by (auto simp: lcd_draw_hline_def block_empty)

lemma lcd_vline: "inside c x y 1 h \<Longrightarrow> canvas_ok c \<Longrightarrow> \<exists>r. lcd_draw_vline c x y h = Some (r, plot c (block x y 1 h) (lcd_stroke_color c))"
  using fill_block[of c x y 1 h] by (auto simp: lcd_draw_vline_def block_empty)

section \<open>Clipping\<close>

lemma clip_rect_eq:
  assumes "canvas_ok c"
  shows "rx (canvas_get_clip_rect c) = clip_left c" "ry (canvas_get_clip_rect c) = clip_top c"
    "s32 (clip_left c + rw (canvas_get_clip_rect c) - 1) = clip_right c"
    "s32 (clip_top c + rh (canvas_get_clip_rect c) - 1) = clip_bottom c"
  using assms by (auto simp: canvas_get_clip_rect_def canvas_ok_def s32_id)

text \<open>Numbers that the code can add without leaving 32 bits.\<close>

abbreviation near :: "int \<Rightarrow> bool" where
  "near v \<equiv> - (2 ^ 29) \<le> v \<and> v \<le> 2 ^ 29"

lemma clipped_span:
  assumes "near x" "0 \<le> w" "w \<le> 2 ^ 29" and "0 \<le> l" "l \<le> 2 ^ 29" "- 1 \<le> r" "r \<le> 2 ^ 29"
  shows "s32 (x + w - 1) = x + w - 1" "s32 (min (x + w - 1) r - max x l + 1) = min (x + w - 1) r - max x l + 1"
  using assms by (auto intro!: s32_id)

lemma clipped_rect_eq:
  assumes c: "canvas_ok c" and x: "near x" "0 \<le> w" "w \<le> 2 ^ 29" and y: "near y" "0 \<le> h" "h \<le> 2 ^ 29"
    and draw: "\<And>x y w h. inside c x y w h \<Longrightarrow> \<exists>r. draw c x y w h = Some (r, plot c (block x y w h) k)"
  shows "\<exists>r. clipped_rect draw c x y w h = Some (r, plot c (block x y w h \<inter> clip_points c) k)"
proof -
  let ?l = "max x (clip_left c)" and ?t = "max y (clip_top c)" and ?r = "min (x + w - 1) (clip_right c)" and ?b = "min (y + h - 1) (clip_bottom c)"
  have b: "0 \<le> clip_left c" "clip_left c \<le> 2 ^ 29" "- 1 \<le> clip_right c" "clip_right c \<le> 2 ^ 29"
    "0 \<le> clip_top c" "clip_top c \<le> 2 ^ 29" "- 1 \<le> clip_bottom c" "clip_bottom c \<le> 2 ^ 29" using c by (auto simp: canvas_ok_def)
  note s = clipped_span[OF x b(1-4)] clipped_span[OF y b(5-8)]
  have eq: "block x y w h \<inter> clip_points c = block ?l ?t (?r - ?l + 1) (?b - ?t + 1)" by (auto simp: block_def clip_points_def)
  have out: "\<not> canvas_is_rect_in_clip_rect c x y (x + w - 1) (y + h - 1) \<Longrightarrow> block x y w h \<inter> clip_points c = {}"
    by (auto simp: canvas_is_rect_in_clip_rect_def block_def clip_points_def)
  have "canvas_is_rect_in_clip_rect c x y (x + w - 1) (y + h - 1) \<Longrightarrow> inside c ?l ?t (?r - ?l + 1) (?b - ?t + 1)"
    using b by (auto simp: inside_def canvas_is_rect_in_clip_rect_def)
  then have "canvas_is_rect_in_clip_rect c x y (x + w - 1) (y + h - 1) \<Longrightarrow>
      \<exists>r. draw c ?l ?t (?r - ?l + 1) (?b - ?t + 1) = Some (r, plot c (block x y w h \<inter> clip_points c) k)"
    using draw[of ?l ?t "?r - ?l + 1" "?b - ?t + 1"] eq by auto
  then show ?thesis using out by (auto simp: clipped_rect_def Let_def s clip_rect_eq[OF c])
qed

lemma hline_eq:
  assumes c: "canvas_ok c" and x: "near x" "0 \<le> w" "w \<le> 2 ^ 29"
  shows "\<exists>r. canvas_draw_hline_impl c x y w = Some (r, plot c (block x y w 1 \<inter> clip_points c) (lcd_stroke_color c))"
proof -
  let ?l = "max x (clip_left c)" and ?r = "min (x + w - 1) (clip_right c)"
  have s: "s32 (x + w - 1) = x + w - 1" "s32 (?r - ?l + 1) = ?r - ?l + 1"
    by (rule clipped_span[OF x]; use c in \<open>auto simp: canvas_ok_def\<close>)+
  have out: "\<not> canvas_is_rect_in_clip_rect c x y (x + w - 1) y \<Longrightarrow> block x y w 1 \<inter> clip_points c = {}"
    by (auto simp: canvas_is_rect_in_clip_rect_def block_def clip_points_def)
  have eq: "canvas_is_rect_in_clip_rect c x y (x + w - 1) y \<Longrightarrow> block x y w 1 \<inter> clip_points c = block ?l y (?r - ?l + 1) 1"
    by (auto simp: block_def clip_points_def canvas_is_rect_in_clip_rect_def)
  moreover have "canvas_is_rect_in_clip_rect c x y (x + w - 1) y \<Longrightarrow> inside c ?l y (?r - ?l + 1) 1"
    using c by (auto simp: inside_def canvas_is_rect_in_clip_rect_def canvas_ok_def)
  ultimately have "canvas_is_rect_in_clip_rect c x y (x + w - 1) y \<Longrightarrow>
      \<exists>r. lcd_draw_hline c ?l y (?r - ?l + 1) = Some (r, plot c (block x y w 1 \<inter> clip_points c) (lcd_stroke_color c))"
    using lcd_hline[of c ?l y "?r - ?l + 1"] c by auto
  then show ?thesis using out by (auto simp: canvas_draw_hline_impl_def Let_def s clip_rect_eq[OF c])
qed

lemma vline_eq:
  assumes c: "canvas_ok c" and y: "near y" "0 \<le> h" "h \<le> 2 ^ 29"
  shows "\<exists>r. canvas_draw_vline_impl c x y h = Some (r, plot c (block x y 1 h \<inter> clip_points c) (lcd_stroke_color c))"
proof -
  let ?t = "max y (clip_top c)" and ?b = "min (y + h - 1) (clip_bottom c)"
  have s: "s32 (y + h - 1) = y + h - 1" "s32 (?b - ?t + 1) = ?b - ?t + 1"
    by (rule clipped_span[OF y]; use c in \<open>auto simp: canvas_ok_def\<close>)+
  have out: "\<not> canvas_is_rect_in_clip_rect c x y x (y + h - 1) \<Longrightarrow> block x y 1 h \<inter> clip_points c = {}"
    by (auto simp: canvas_is_rect_in_clip_rect_def block_def clip_points_def)
  have eq: "canvas_is_rect_in_clip_rect c x y x (y + h - 1) \<Longrightarrow> block x y 1 h \<inter> clip_points c = block x ?t 1 (?b - ?t + 1)"
    by (auto simp: block_def clip_points_def canvas_is_rect_in_clip_rect_def)
  moreover have "canvas_is_rect_in_clip_rect c x y x (y + h - 1) \<Longrightarrow> inside c x ?t 1 (?b - ?t + 1)"
    using c by (auto simp: inside_def canvas_is_rect_in_clip_rect_def canvas_ok_def)
  ultimately have "canvas_is_rect_in_clip_rect c x y x (y + h - 1) \<Longrightarrow>
      \<exists>r. lcd_draw_vline c x ?t (?b - ?t + 1) = Some (r, plot c (block x y 1 h \<inter> clip_points c) (lcd_stroke_color c))"
    using lcd_vline[of c x ?t "?b - ?t + 1"] c by auto
  then show ?thesis using out by (auto simp: canvas_draw_vline_impl_def Let_def s clip_rect_eq[OF c])
qed

section \<open>The drawing operations\<close>

text \<open>The pixels that a size spans from a position on: a negative one spans back, with the position included.\<close>

definition spans :: "int \<Rightarrow> int \<Rightarrow> int \<Rightarrow> bool" where
  "spans p n u \<longleftrightarrow> (if 0 \<le> n then p \<le> u \<and> u < p + n else p + n < u \<and> u \<le> p)"

datatype draw_op =
    Fill int int int int | Clear int int int int | Stroke int int int int
  | Hline int int int | Vline int int int | Line int int int int | Points "(int \<times> int) list"

fun run_draw :: "draw_op \<Rightarrow> canvas \<Rightarrow> drawn" where
  "run_draw (Fill x y w h) c = canvas_fill_rect c x y w h"
| "run_draw (Clear x y w h) c = canvas_clear_rect c x y w h"
| "run_draw (Stroke x y w h) c = canvas_stroke_rect c x y w h"
| "run_draw (Hline x y w) c = canvas_draw_hline c x y w"
| "run_draw (Vline x y h) c = canvas_draw_vline c x y h"
| "run_draw (Line x1 y1 x2 y2) c = canvas_draw_line c x1 y1 x2 y2"
| "run_draw (Points ps) c = canvas_draw_points c ps"

text \<open>The pixels of the figure, relative to the origin.\<close>

fun figure :: "draw_op \<Rightarrow> int \<times> int \<Rightarrow> bool" where
  "figure (Fill x y w h) (u, v) \<longleftrightarrow> spans x w u \<and> spans y h v"
| "figure (Clear x y w h) (u, v) \<longleftrightarrow> spans x w u \<and> spans y h v"
| "figure (Stroke x y w h) (u, v) \<longleftrightarrow> spans x w u \<and> spans y h v \<and> (\<not> spans x w (u - 1) \<or> \<not> spans x w (u + 1) \<or> \<not> spans y h (v - 1) \<or> \<not> spans y h (v + 1))"
| "figure (Hline x y w) (u, v) \<longleftrightarrow> spans x w u \<and> v = y"
| "figure (Vline x y h) (u, v) \<longleftrightarrow> u = x \<and> spans y h v"
| "figure (Line x1 y1 x2 y2) (u, v) \<longleftrightarrow> min x1 x2 \<le> u \<and> u \<le> max x1 x2 \<and> min y1 y2 \<le> v \<and> v \<le> max y1 y2"
| "figure (Points ps) (u, v) \<longleftrightarrow> (u, v) \<in> set ps"

fun pen :: "draw_op \<Rightarrow> canvas \<Rightarrow> color" where
  "pen (Fill x y w h) c = lcd_fill_color c"
| "pen (Clear x y w h) c = lcd_fill_color c"
| "pen _ c = lcd_stroke_color c"

text \<open>Coordinates that leave room for the sums, and lines that the code implements.\<close>

abbreviation small :: "int \<Rightarrow> bool" where
  "small v \<equiv> - (2 ^ 27) \<le> v \<and> v \<le> 2 ^ 27"

fun small_op :: "draw_op \<Rightarrow> bool" where
  "small_op (Fill x y w h) \<longleftrightarrow> small x \<and> small y \<and> small w \<and> small h"
| "small_op (Clear x y w h) \<longleftrightarrow> small x \<and> small y \<and> small w \<and> small h"
| "small_op (Stroke x y w h) \<longleftrightarrow> small x \<and> small y \<and> small w \<and> small h"
| "small_op (Hline x y w) \<longleftrightarrow> small x \<and> small y \<and> small w"
| "small_op (Vline x y h) \<longleftrightarrow> small x \<and> small y \<and> small h"
| "small_op (Line x1 y1 x2 y2) \<longleftrightarrow> (x1 = x2 \<or> y1 = y2) \<and> small x1 \<and> small y1 \<and> small x2 \<and> small y2"
| "small_op (Points ps) \<longleftrightarrow> (\<forall>(x, y) \<in> set ps. small x \<and> small y)"

definition drawn_at :: "draw_op \<Rightarrow> canvas \<Rightarrow> (int \<times> int) set" where
  "drawn_at op c = {(u, v). figure op (u - cv_ox c, v - cv_oy c)} \<inter> clip_points c"

definition origin_ok :: "canvas \<Rightarrow> bool" where
  "origin_ok c \<longleftrightarrow> small (cv_ox c) \<and> small (cv_oy c)"

text \<open>One axis after \<open>fix_xywh\<close> and the shift to the origin.\<close>

lemma fixed_axis:
  assumes "small p" "small n" "small o'"
  defines "q \<equiv> if n < 0 then s32 (p - s32 (- n) + 1) else p" and "k \<equiv> if n < 0 then s32 (- n) else n"
  shows "near (s32 (o' + q))" "0 \<le> k" "k \<le> 2 ^ 29" "s32 (o' + q) \<le> u \<and> u < s32 (o' + q) + k \<longleftrightarrow> spans p n (u - o')" "s32 (o' + q) = o' + q"
proof -
  have n: "s32 (- n) = - n" using assms(2) by (intro s32_id) auto
  have "n < 0 \<Longrightarrow> s32 (p - - n + 1) = p + n + 1" using assms(1,2) by (subst s32_id) auto
  then have q: "q = (if n < 0 then p + n + 1 else p)" "k = (if n < 0 then - n else n)" by (auto simp: q_def k_def n)
  have s: "s32 (o' + q) = o' + q" using assms(1-3) q by (intro s32_id) auto
  show "near (s32 (o' + q))" "0 \<le> k" "k \<le> 2 ^ 29" "s32 (o' + q) = o' + q" using assms(1-3) q s by auto
  show "s32 (o' + q) \<le> u \<and> u < s32 (o' + q) + k \<longleftrightarrow> spans p n (u - o')" unfolding s using q by (auto simp: spans_def)
qed

lemma fixed_block:
  assumes "small x" "small y" "small w" "small h" and "origin_ok c" and "fix_xywh x y w h = (x', y', w', h')"
  shows "near (s32 (cv_ox c + x'))" "0 \<le> w'" "w' \<le> 2 ^ 29" "near (s32 (cv_oy c + y'))" "0 \<le> h'" "h' \<le> 2 ^ 29"
    "block (s32 (cv_ox c + x')) (s32 (cv_oy c + y')) w' h' = {(u, v). spans x w (u - cv_ox c) \<and> spans y h (v - cv_oy c)}"
proof -
  have o: "small (cv_ox c)" "small (cv_oy c)" using assms(5) by (auto simp: origin_ok_def)
  have f: "x' = (if w < 0 then s32 (x - s32 (- w) + 1) else x)" "w' = (if w < 0 then s32 (- w) else w)"
    "y' = (if h < 0 then s32 (y - s32 (- h) + 1) else y)" "h' = (if h < 0 then s32 (- h) else h)"
    using assms(6) by (auto simp: fix_xywh_def Let_def split: if_splits)
  note fx = fixed_axis[OF assms(1,3) o(1), folded f] and fy = fixed_axis[OF assms(2,4) o(2), folded f]
  show "near (s32 (cv_ox c + x'))" "0 \<le> w'" "w' \<le> 2 ^ 29" by (rule fx(1-3))+
  show "near (s32 (cv_oy c + y'))" "0 \<le> h'" "h' \<le> 2 ^ 29" by (rule fy(1-3))+
  show "block (s32 (cv_ox c + x')) (s32 (cv_oy c + y')) w' h' = {(u, v). spans x w (u - cv_ox c) \<and> spans y h (v - cv_oy c)}"
    unfolding block_def using fx(4) fy(4) by blast
qed

lemma fill_drawn:
  assumes c: "canvas_ok c" "origin_ok c" and small: "small x" "small y" "small w" "small h"
  shows "\<exists>r. canvas_fill_rect c x y w h = Some (r, plot c (drawn_at (Fill x y w h) c) (lcd_fill_color c))"
    "\<exists>r. canvas_clear_rect c x y w h = Some (r, plot c (drawn_at (Clear x y w h) c) (lcd_fill_color c))"
proof -
  obtain x' y' w' h' where f: "fix_xywh x y w h = (x', y', w', h')" by (metis prod_cases4)
  note b = fixed_block[OF small c(2) f]
  have d: "drawn_at (Fill x y w h) c = block (s32 (cv_ox c + x')) (s32 (cv_oy c + y')) w' h' \<inter> clip_points c"
    "drawn_at (Clear x y w h) c = block (s32 (cv_ox c + x')) (s32 (cv_oy c + y')) w' h' \<inter> clip_points c"
    unfolding b(7) by (simp_all add: drawn_at_def)
  show "\<exists>r. canvas_fill_rect c x y w h = Some (r, plot c (drawn_at (Fill x y w h) c) (lcd_fill_color c))"
    "\<exists>r. canvas_clear_rect c x y w h = Some (r, plot c (drawn_at (Clear x y w h) c) (lcd_fill_color c))"
    unfolding canvas_fill_rect_def canvas_clear_rect_def f d Let_def prod.case
    by (rule clipped_rect_eq[OF c(1) b(1-6)], rule lcd_block, assumption, rule c(1))+
qed

text \<open>The four sides of a rectangle, one after the other.\<close>

lemma stroke_impl_eq:
  assumes c: "canvas_ok c" and x: "near x" "0 < w" "w \<le> 2 ^ 29" and y: "near y" "0 < h" "h \<le> 2 ^ 29"
  shows "\<exists>r. canvas_stroke_rect_impl c x y w h = Some (r, plot c ((block x y w 1 \<union> block x (y + h - 1) w 1 \<union> block x y 1 h \<union> block (x + w - 1) y 1 h)
     \<inter> clip_points c) (lcd_stroke_color c))"
proof -
  let ?k = "lcd_stroke_color c" and ?C = "clip_points c"
  have s: "s32 (x + w - 1) = x + w - 1" "s32 (y + h - 1) = y + h - 1" using x y by (auto intro!: s32_id)
  let ?c1 = "plot c (block x y w 1 \<inter> ?C) ?k" and ?R2 = "block x (y + h - 1) w 1 \<inter> ?C" and ?R3 = "block x y 1 h \<inter> ?C" and ?R4 = "block (x + w - 1) y 1 h \<inter> ?C"
  obtain r1 where r1: "canvas_draw_hline_impl c x y w = Some (r1, ?c1)" using hline_eq[OF c x(1) less_imp_le[OF x(2)] x(3)] by blast
  obtain r2 where r2: "canvas_draw_hline_impl ?c1 x (y + h - 1) w = Some (r2, plot ?c1 ?R2 ?k)"
    using hline_eq[of ?c1 x w "y + h - 1"] c x by auto
  obtain r3 where r3: "canvas_draw_vline_impl (plot ?c1 ?R2 ?k) x y h = Some (r3, plot (plot ?c1 ?R2 ?k) ?R3 ?k)"
    using vline_eq[of "plot ?c1 ?R2 ?k" y h x] c y by auto
  obtain r4 where r4: "canvas_draw_vline_impl (plot (plot ?c1 ?R2 ?k) ?R3 ?k) (x + w - 1) y h = Some (r4, plot (plot (plot ?c1 ?R2 ?k) ?R3 ?k) ?R4 ?k)"
    using vline_eq[of "plot (plot ?c1 ?R2 ?k) ?R3 ?k" y h "x + w - 1"] c y by auto
  have "plot (plot (plot ?c1 ?R2 ?k) ?R3 ?k) ?R4 ?k = plot c ((block x y w 1 \<union> block x (y + h - 1) w 1 \<union> block x y 1 h \<union> block (x + w - 1) y 1 h) \<inter> ?C) ?k"
    unfolding plot_plot by (rule arg_cong2[where f = "\<lambda>R k. plot c R k"]) auto
  then show ?thesis using x(2) y(2) by (simp add: canvas_stroke_rect_impl_def s r1 r2 r3 r4)
qed

lemma stroke_drawn:
  assumes c: "canvas_ok c" "origin_ok c" and small: "small x" "small y" "small w" "small h"
  shows "\<exists>r. canvas_stroke_rect c x y w h = Some (r, plot c (drawn_at (Stroke x y w h) c) (lcd_stroke_color c))"
proof -
  obtain x' y' w' h' where f: "fix_xywh x y w h = (x', y', w', h')" by (metis prod_cases4)
  let ?x = "s32 (cv_ox c + x')" and ?y = "s32 (cv_oy c + y')"
  note b = fixed_block[OF small c(2) f]
  have m: "spans x w (u - cv_ox c) \<and> spans y h (v - cv_oy c) \<longleftrightarrow> ?x \<le> u \<and> u < ?x + w' \<and> ?y \<le> v \<and> v < ?y + h'" for u v
    using b(7) unfolding block_def set_eq_iff by auto
  show ?thesis
  proof (cases "w' > 0 \<and> h' > 0")
    case False
    then have "\<not> (spans x w (u - cv_ox c) \<and> spans y h (v - cv_oy c))" for u v unfolding m using b(2,5) by linarith
    then have "drawn_at (Stroke x y w h) c = {}" by (auto simp: drawn_at_def)
    moreover have "canvas_stroke_rect_impl c ?x ?y w' h' = Some (RET_BAD_PARAMS, c)" using False by (auto simp: canvas_stroke_rect_impl_def)
    ultimately show ?thesis by (simp add: canvas_stroke_rect_def f Let_def)
  next
    case True
    have sx: "spans x w (u - cv_ox c) \<longleftrightarrow> ?x \<le> u \<and> u < ?x + w'" for u
    proof -
      have "spans y h (?y - cv_oy c)" using m[of "?x" "?y"] True by auto
      then show ?thesis using m[of u ?y] True by auto
    qed
    have sy: "spans y h (v - cv_oy c) \<longleftrightarrow> ?y \<le> v \<and> v < ?y + h'" for v
    proof -
      have "spans x w (?x - cv_ox c)" using m[of "?x" "?y"] True by auto
      then show ?thesis using m[of ?x v] True by auto
    qed
    have sx': "spans x w (u - cv_ox c - 1) \<longleftrightarrow> ?x \<le> u - 1 \<and> u - 1 < ?x + w'" "spans x w (u - cv_ox c + 1) \<longleftrightarrow> ?x \<le> u + 1 \<and> u + 1 < ?x + w'" for u
      using sx[of "u - 1"] sx[of "u + 1"] by (simp_all add: algebra_simps)
    have sy': "spans y h (v - cv_oy c - 1) \<longleftrightarrow> ?y \<le> v - 1 \<and> v - 1 < ?y + h'" "spans y h (v - cv_oy c + 1) \<longleftrightarrow> ?y \<le> v + 1 \<and> v + 1 < ?y + h'" for v
      using sy[of "v - 1"] sy[of "v + 1"] by (simp_all add: algebra_simps)
    have "drawn_at (Stroke x y w h) c =
        (block ?x ?y w' 1 \<union> block ?x (?y + h' - 1) w' 1 \<union> block ?x ?y 1 h' \<union> block (?x + w' - 1) ?y 1 h') \<inter> clip_points c"
      using True by (auto simp: drawn_at_def block_def sx sy sx' sy')
    then show ?thesis using stroke_impl_eq[OF c(1) b(1) _ b(3) b(4) _ b(6)] True by (simp add: canvas_stroke_rect_def f Let_def)
  qed
qed

lemma lines_drawn:
  assumes c: "canvas_ok c" "origin_ok c" and small: "small x" "small y" "small n"
  shows "\<exists>r. canvas_draw_hline c x y n = Some (r, plot c (drawn_at (Hline x y n) c) (lcd_stroke_color c))"
    "\<exists>r. canvas_draw_vline c x y n = Some (r, plot c (drawn_at (Vline x y n) c) (lcd_stroke_color c))"
proof -
  have o: "small (cv_ox c)" "small (cv_oy c)" using c(2) by (auto simp: origin_ok_def)
  have s: "s32 (cv_ox c + x) = cv_ox c + x" "s32 (cv_oy c + y) = cv_oy c + y" using o small by (auto intro!: s32_id)
  define k q r where "k = (if n < 0 then s32 (- n) else n)"
    and "q = (if n < 0 then s32 (x - s32 (- n) + 1) else x)" and "r = (if n < 0 then s32 (y - s32 (- n) + 1) else y)"
  note fx = fixed_axis[OF small(1,3) o(1), folded q_def k_def] and fy = fixed_axis[OF small(2,3) o(2), folded r_def k_def]
  have e: "canvas_draw_hline c x y n = canvas_draw_hline_impl c (s32 (cv_ox c + q)) (cv_oy c + y) k"
    "canvas_draw_vline c x y n = canvas_draw_vline_impl c (cv_ox c + x) (s32 (cv_oy c + r)) k"
    by (simp_all add: canvas_draw_hline_def canvas_draw_vline_def s q_def r_def k_def)
  have "(u, v) \<in> block (s32 (cv_ox c + q)) (cv_oy c + y) k 1 \<longleftrightarrow> spans x n (u - cv_ox c) \<and> v - cv_oy c = y" for u v
    using fx(4)[of u] by (auto simp: block_def)
  then have "block (s32 (cv_ox c + q)) (cv_oy c + y) k 1 \<inter> clip_points c = drawn_at (Hline x y n) c"
    by (simp add: drawn_at_def set_eq_iff)
  then show "\<exists>r. canvas_draw_hline c x y n = Some (r, plot c (drawn_at (Hline x y n) c) (lcd_stroke_color c))"
    unfolding e using hline_eq[OF c(1) fx(1-3), of "cv_oy c + y"] by simp
  have "(u, v) \<in> block (cv_ox c + x) (s32 (cv_oy c + r)) 1 k \<longleftrightarrow> u - cv_ox c = x \<and> spans y n (v - cv_oy c)" for u v
    using fy(4)[of v] by (auto simp: block_def)
  then have "block (cv_ox c + x) (s32 (cv_oy c + r)) 1 k \<inter> clip_points c = drawn_at (Vline x y n) c"
    by (simp add: drawn_at_def set_eq_iff)
  then show "\<exists>r. canvas_draw_vline c x y n = Some (r, plot c (drawn_at (Vline x y n) c) (lcd_stroke_color c))"
    unfolding e using vline_eq[OF c(1) fy(1-3), of "cv_ox c + x"] by simp
qed

lemma line_drawn:
  assumes c: "canvas_ok c" "origin_ok c" and small: "small x1" "small y1" "small x2" "small y2" and xy: "x1 = x2 \<or> y1 = y2"
  shows "\<exists>r. canvas_draw_line c x1 y1 x2 y2 = Some (r, plot c (drawn_at (Line x1 y1 x2 y2) c) (lcd_stroke_color c))"
proof -
  have o: "small (cv_ox c)" "small (cv_oy c)" using c(2) by (auto simp: origin_ok_def)
  have s: "s32 (cv_ox c + x1) = cv_ox c + x1" "s32 (cv_ox c + x2) = cv_ox c + x2" "s32 (cv_oy c + y1) = cv_oy c + y1" "s32 (cv_oy c + y2) = cv_oy c + y2"
    "s32 (x2 - x1) = x2 - x1" "s32 (y2 - y1) = y2 - y1" "s32 (\<bar>x2 - x1\<bar> + 1) = \<bar>x2 - x1\<bar> + 1" "s32 (\<bar>y2 - y1\<bar> + 1) = \<bar>y2 - y1\<bar> + 1"
    using o small by (auto intro!: s32_id)
  have d: "cv_ox c + x2 - (cv_ox c + x1) = x2 - x1" "cv_oy c + y2 - (cv_oy c + y1) = y2 - y1" by simp_all
  show ?thesis
  proof (cases "x1 = x2")
    case True
    have "block (cv_ox c + x1) (min (cv_oy c + y1) (cv_oy c + y2)) 1 (\<bar>y2 - y1\<bar> + 1) \<inter> clip_points c = drawn_at (Line x1 y1 x2 y2) c"
      using True by (auto simp: drawn_at_def block_def)
    then show ?thesis using True vline_eq[OF c(1), of "min (cv_oy c + y1) (cv_oy c + y2)" "\<bar>y2 - y1\<bar> + 1" "cv_ox c + x1"] o small
      by (auto simp: canvas_draw_line_def canvas_draw_line_impl_def s d)
  next
    case False
    then have y: "y1 = y2" using xy by blast
    have "block (min (cv_ox c + x1) (cv_ox c + x2)) (cv_oy c + y1) (\<bar>x2 - x1\<bar> + 1) 1 \<inter> clip_points c = drawn_at (Line x1 y1 x2 y2) c"
      using y by (auto simp: drawn_at_def block_def)
    then show ?thesis using y False hline_eq[OF c(1), of "min (cv_ox c + x1) (cv_ox c + x2)" "\<bar>x2 - x1\<bar> + 1" "cv_oy c + y1"] o small
      by (auto simp: canvas_draw_line_def canvas_draw_line_impl_def s d)
  qed
qed

lemma lcd_points:
  "canvas_ok c \<Longrightarrow> set ps \<subseteq> clip_points c \<Longrightarrow> lcd_draw_points c ps = Some (RET_OK, plot c (set ps) (lcd_stroke_color c))"
proof (induction ps arbitrary: c)
  case (Cons p ps)
  obtain x y where p: "p = (x, y)" by fastforce
  have b: "block x y 1 1 = {(x, y)}" by (auto simp: block_def)
  obtain r where r: "lcd_mem_fill_rect_with_color c x y 1 1 (lcd_stroke_color c) = Some (r, plot c {(x, y)} (lcd_stroke_color c))"
    using fill_block[of c x y 1 1 "lcd_stroke_color c"] Cons.prems b p by (auto simp: inside_def clip_points_def canvas_ok_def)
  show ?case using Cons.IH[of "plot c {(x, y)} (lcd_stroke_color c)"] Cons.prems r p by (simp add: plot_plot)
qed simp

lemma shifted_points:
  assumes "origin_ok c" and "\<forall>(x, y) \<in> set ps. small x \<and> small y"
  shows "set (filter (\<lambda>(x, y). canvas_is_rect_in_clip_rect c x y x y) (map (\<lambda>(x, y). (s32 (x + cv_ox c), s32 (y + cv_oy c))) ps)) =
    drawn_at (Points ps) c"
proof -
  have "(case p of (x, y) \<Rightarrow> (s32 (x + cv_ox c), s32 (y + cv_oy c))) = (fst p + cv_ox c, snd p + cv_oy c)" if "p \<in> set ps" for p
    using assms that by (auto simp: origin_ok_def intro!: s32_id split: prod.splits)
  then have "(\<lambda>(x, y). (s32 (x + cv_ox c), s32 (y + cv_oy c))) ` set ps = {(u, v). (u - cv_ox c, v - cv_oy c) \<in> set ps}"
    by (force simp: image_iff)
  then show ?thesis by (auto simp: drawn_at_def canvas_is_rect_in_clip_rect_def clip_points_def)
qed

lemma do_draw_points_eq:
  assumes c: "canvas_ok c" "origin_ok c" and ps: "\<forall>(x, y) \<in> set ps. small x \<and> small y" "length ps \<le> MAX_POINTS_PER_DRAW"
  shows "canvas_do_draw_points c ps = Some (RET_OK, plot c (drawn_at (Points ps) c) (lcd_stroke_color c))"
proof -
  note s = shifted_points[OF c(2) ps(1)]
  show ?thesis unfolding canvas_do_draw_points_def using lcd_points[OF c(1)] s ps(2)
    by (simp del: set_filter set_map add: drawn_at_def)
qed

lemma points_loop_eq:
  "canvas_ok c \<Longrightarrow> origin_ok c \<Longrightarrow> \<forall>(x, y) \<in> set ps. small x \<and> small y \<Longrightarrow> length ps = n * MAX_POINTS_PER_DRAW + r \<Longrightarrow> r \<le> MAX_POINTS_PER_DRAW \<Longrightarrow>
   points_loop n r ps c = Some (plot c (drawn_at (Points ps) c) (lcd_stroke_color c))"
proof (induction n arbitrary: ps c)
  case 0
  then show ?case using do_draw_points_eq[of c ps] by simp
next
  case (Suc n)
  let ?M = MAX_POINTS_PER_DRAW
  have h: "\<forall>(x, y) \<in> set (take ?M ps). small x \<and> small y" "\<forall>(x, y) \<in> set (drop ?M ps). small x \<and> small y"
    using Suc.prems(3) by (meson in_set_takeD in_set_dropD)+
  let ?c = "plot c (drawn_at (Points (take ?M ps)) c) (lcd_stroke_color c)"
  have first: "canvas_do_draw_points c (take ?M ps) = Some (RET_OK, ?c)"
    by (rule do_draw_points_eq) (use Suc.prems h(1) in simp_all)
  have "points_loop n r (drop ?M ps) ?c = Some (plot ?c (drawn_at (Points (drop ?M ps)) ?c) (lcd_stroke_color ?c))"
    by (rule Suc.IH) (use Suc.prems h(2) in \<open>simp_all add: origin_ok_def\<close>)
  moreover have "drawn_at (Points (take ?M ps)) c \<union> drawn_at (Points (drop ?M ps)) ?c = drawn_at (Points ps) c"
  proof -
    have "set ps = set (take ?M ps) \<union> set (drop ?M ps)" by (metis append_take_drop_id set_append)
    then show ?thesis by (auto simp: drawn_at_def)
  qed
  ultimately show ?case using first by (simp add: plot_plot)
qed

lemma run_draw_eq:
  assumes "canvas_ok c" "origin_ok c" and "small_op op"
  shows "\<exists>r. run_draw op c = Some (r, plot c (drawn_at op c) (pen op c))"
proof (cases op)
  case (Points ps)
  have "MAX_POINTS_PER_DRAW > 0" by (simp add: MAX_POINTS_PER_DRAW_def)
  then have "points_loop (length ps div MAX_POINTS_PER_DRAW) (length ps mod MAX_POINTS_PER_DRAW) ps c =
      Some (plot c (drawn_at (Points ps) c) (lcd_stroke_color c))"
    by (intro points_loop_eq) (use assms Points in \<open>auto intro: less_imp_le\<close>)
  then show ?thesis using Points by (simp add: canvas_draw_points_def)
qed (use assms fill_drawn stroke_drawn lines_drawn line_drawn in auto)

section \<open>Painting with a clip\<close>

text \<open>The clip rectangle is one that \<open>canvas_get_clip_rect\<close> gives back as it is.\<close>

definition clip_proper :: "canvas \<Rightarrow> bool" where
  "clip_proper c \<longleftrightarrow> clip_left c \<le> clip_right c + 1 \<and> clip_top c \<le> clip_bottom c + 1"

lemma clip_on_screen: "canvas_ok c \<Longrightarrow> clip_points c \<subseteq> {(u, v). 0 \<le> u \<and> u < lcd_w c \<and> 0 \<le> v \<and> v < lcd_h c}"
  by (auto simp: clip_points_def canvas_ok_def)

lemma get_clip_rect_points:
  assumes "canvas_ok c" "clip_proper c"
  shows "rect_ok (canvas_get_clip_rect c)" "points (canvas_get_clip_rect c) = clip_points c"
proof -
  have r: "canvas_get_clip_rect c = rect_init (clip_left c) (clip_top c) (clip_right c - clip_left c + 1) (clip_bottom c - clip_top c + 1)"
    using assms by (auto simp: canvas_get_clip_rect_def canvas_ok_def intro!: arg_cong2[where f = "rect_init (clip_left c) (clip_top c)"] s32_id)
  show ok: "rect_ok (canvas_get_clip_rect c)" unfolding r rect_ok_init using assms by (auto simp: canvas_ok_def clip_proper_def)
  show "points (canvas_get_clip_rect c) = clip_points c"
    using mem_points[OF ok] unfolding r by (auto simp: clip_points_def)
qed

lemma set_clip_rect:
  assumes "0 \<le> lcd_w c" "lcd_w c \<le> 2 ^ 29" "0 \<le> lcd_h c" "lcd_h c \<le> 2 ^ 29" and "rect_ok r" and "0 \<le> rx r" "0 \<le> ry r"
  shows "canvas_ok (snd (canvas_set_clip_rect c (Some r)))"
    "clip_points (snd (canvas_set_clip_rect c (Some r))) = points r \<inter> {(u, v). 0 \<le> u \<and> u < lcd_w c \<and> 0 \<le> v \<and> v < lcd_h c}"
proof -
  have f: "canvas_fix_rect r = r" using assms(5) by (auto simp: canvas_fix_rect_def rect_ok_def Let_def)
  have b: "- (2 ^ 29) \<le> rx r" "0 \<le> rw r" "rx r + rw r \<le> 2 ^ 29" "- (2 ^ 29) \<le> ry r" "0 \<le> rh r" "ry r + rh r \<le> 2 ^ 29"
    using assms(5) by (simp_all add: rect_ok_def)
  show "canvas_ok (snd (canvas_set_clip_rect c (Some r)))" using assms(1-4,6,7) b
    by (simp add: canvas_set_clip_rect_def f canvas_ok_def rect_ok_s32[OF assms(5)] min_less_iff_disj)
  show "clip_points (snd (canvas_set_clip_rect c (Some r))) = points r \<inter> {(u, v). 0 \<le> u \<and> u < lcd_w c \<and> 0 \<le> v \<and> v < lcd_h c}"
    using mem_points[OF assms(5)] by (auto simp: canvas_set_clip_rect_def f clip_points_def rect_ok_s32[OF assms(5)])
qed

lemma set_clip_rect_fields [simp]:
  "cv_ox (snd (canvas_set_clip_rect c r)) = cv_ox c" "cv_oy (snd (canvas_set_clip_rect c r)) = cv_oy c"
  "lcd_w (snd (canvas_set_clip_rect c r)) = lcd_w c" "lcd_h (snd (canvas_set_clip_rect c r)) = lcd_h c"
  "lcd_support_dirty_rect (snd (canvas_set_clip_rect c r)) = lcd_support_dirty_rect c"
  "lcd_pixels (snd (canvas_set_clip_rect c r)) = lcd_pixels c"
  by (simp_all add: canvas_set_clip_rect_def split: option.splits)

lemma restore_clip_rect:
  assumes "canvas_ok c" "clip_proper c" and "lcd_w c' = lcd_w c" "lcd_h c' = lcd_h c"
  shows "snd (canvas_set_clip_rect c' (Some (canvas_get_clip_rect c))) =
    c'\<lparr>clip_left := clip_left c, clip_top := clip_top c, clip_right := clip_right c, clip_bottom := clip_bottom c\<rparr>"
proof -
  have ok: "rect_ok (canvas_get_clip_rect c)" by (rule get_clip_rect_points[OF assms(1,2)])
  then have f: "canvas_fix_rect (canvas_get_clip_rect c) = canvas_get_clip_rect c" by (auto simp: canvas_fix_rect_def rect_ok_def Let_def)
  have "min (lcd_w c' - 1) (clip_right c) = clip_right c" "min (lcd_h c' - 1) (clip_bottom c) = clip_bottom c" "max 0 (clip_left c) = clip_left c"
    "max 0 (clip_top c) = clip_top c" using assms by (auto simp: canvas_ok_def)
  then show ?thesis by (simp add: canvas_set_clip_rect_def f clip_rect_eq[OF assms(1)])
qed

text \<open>
  A widget that paints the picture \<open>scene\<close> on a canvas of this origin and size, as far as the clip rectangle lets it.
  It may leave other colours behind.
\<close>

definition paints :: "canvas \<Rightarrow> on_paint \<Rightarrow> (int \<times> int \<Rightarrow> color) \<Rightarrow> bool" where
  "paints c0 on_paint scene \<longleftrightarrow> (\<forall>c. canvas_ok c \<and> cv_ox c = cv_ox c0 \<and> cv_oy c = cv_oy c0 \<and> lcd_w c = lcd_w c0 \<and> lcd_h c = lcd_h c0 \<longrightarrow>
     (\<exists>r fc sc. on_paint c = Some (r, c\<lparr>lcd_fill_color := fc, lcd_stroke_color := sc,
        lcd_pixels := (\<lambda>p. if p \<in> clip_points c then scene p else lcd_pixels c p)\<rparr>)))"

lemma paint_with_clip_eq:
  assumes c: "canvas_ok c" "clip_proper c" and r: "rect_ok r" and p: "paints c on_paint scene"
  shows "\<exists>fc sc. widget_paint_with_clip w h (Some r) c on_paint = Some (RET_OK,
    c\<lparr>lcd_fill_color := fc, lcd_stroke_color := sc, lcd_pixels := (\<lambda>p. if p \<in> points r \<inter> clip_points c then scene p else lcd_pixels c p)\<rparr>)"
proof -
  let ?s = "canvas_get_clip_rect c"
  let ?i = "rect_intersect r ?s"
  let ?c = "snd (canvas_set_clip_rect c (Some ?i))"
  note g = get_clip_rect_points[OF c]
  note i = rect_intersect_points[OF r g(1)]
  have b: "0 \<le> lcd_w c" "lcd_w c \<le> 2 ^ 29" "0 \<le> lcd_h c" "lcd_h c \<le> 2 ^ 29" using c by (auto simp: canvas_ok_def clip_proper_def)
  have "0 \<le> rx ?i" "0 \<le> ry ?i" using c(1) by (auto simp: rect_intersect_def canvas_get_clip_rect_def canvas_ok_def Let_def)
  note sc = set_clip_rect[OF b i(1) this]
  have cp: "clip_points ?c = points r \<inter> clip_points c" using sc(2) i(2) g(2) clip_on_screen[OF c(1)] by auto
  obtain ret fc k where o: "on_paint ?c = Some (ret, ?c\<lparr>lcd_fill_color := fc, lcd_stroke_color := k,
      lcd_pixels := (\<lambda>p. if p \<in> clip_points ?c then scene p else lcd_pixels ?c p)\<rparr>)" (is "_ = Some (ret, ?d)")
    using p sc(1) set_clip_rect_fields unfolding paints_def by blast
  have w: "lcd_w ?d = lcd_w c" "lcd_h ?d = lcd_h c" by simp_all
  have "widget_paint_with_clip w h (Some r) c on_paint = Some (RET_OK, snd (canvas_set_clip_rect ?d (Some ?s)))"
    by (simp add: widget_paint_with_clip_def Let_def o)
  also have "snd (canvas_set_clip_rect ?d (Some ?s)) =
      ?d\<lparr>clip_left := clip_left c, clip_top := clip_top c, clip_right := clip_right c, clip_bottom := clip_bottom c\<rparr>"
    by (rule restore_clip_rect[OF c w])
  also have "\<dots> = c\<lparr>lcd_fill_color := fc, lcd_stroke_color := k,
      lcd_pixels := (\<lambda>p. if p \<in> points r \<inter> clip_points c then scene p else lcd_pixels c p)\<rparr>"
    by (rule canvas.equality) (simp_all add: cp cong: if_cong)
  finally show ?thesis by blast
qed

section \<open>Properties\<close>



end
