(* ===== verification/DirtyRects.thy ===== *)
theory DirtyRects
  imports Canvas
begin

text \<open>
  The dirty rectangles of a window, \<open>src/src/base/dirty_rects.h\<close> and \<open>dirty_rects.inc\<close>:
  at most ten rectangles and the rectangle around everything added since the last reset. Painting
  goes to the canvas of \<open>Canvas\<close>; logging and timing are left out.

  Shown: whatever is added, every dirty pixel stays covered by the rectangles and by the bounding
  one, the array is never overrun; painting, without the debug frames, brings the picture of the widget
  up to date on every dirty pixel within the clip rectangle, and paints no more than each mode stands for.
\<close>

section \<open>State and operations\<close>

definition TK_MAX_DIRTY_RECT_NR :: nat where "TK_MAX_DIRTY_RECT_NR = 10"

record dirty_rects =
  dr_nr :: nat
  dr_max :: rect
  dr_rects :: "rect list"
  dr_debug :: bool
  dr_profile :: bool
  dr_disable_multiple :: bool

definition dirty_rects_reset :: dirty_rects where
  "dirty_rects_reset =
     \<lparr>dr_nr = 0, dr_max = rect_init 0 0 0 0, dr_rects = replicate TK_MAX_DIRTY_RECT_NR (rect_init 0 0 0 0),
      dr_debug = False, dr_profile = False, dr_disable_multiple = False\<rparr>"

definition dirty_rects_remove :: "dirty_rects \<Rightarrow> nat \<Rightarrow> ret_t \<times> dirty_rects" where
  "dirty_rects_remove d index =
     (if index < dr_nr d then
        (RET_OK, d\<lparr>dr_rects := move_down (dr_rects d) 1 index (dr_nr d - 1), dr_nr := dr_nr d - 1\<rparr>)
      else (RET_BAD_PARAMS, d))"

text \<open>The first rectangle from \<open>i\<close> on that meets the rectangle \<open>r\<close>.\<close>

function find_hit :: "rect \<Rightarrow> dirty_rects \<Rightarrow> nat \<Rightarrow> nat option" where
  "find_hit r d i =
     (if i < dr_nr d then (if rect_has_intersect r (dr_rects d ! i) then Some i else find_hit r d (Suc i)) else None)"
  by pat_completeness auto
termination by (relation "measure (\<lambda>(r, d, i). dr_nr d - i)") auto

declare find_hit.simps [simp del]

lemma find_hit_Some: "find_hit r d i = Some j \<Longrightarrow> i \<le> j \<and> j < dr_nr d \<and> rect_has_intersect r (dr_rects d ! j)"
proof (induction r d i rule: find_hit.induct)
  case (1 r d i)
  then show ?case by (subst (asm) find_hit.simps) (auto split: if_splits)
qed

lemma find_hit_None: "find_hit r d i = None \<Longrightarrow> i \<le> j \<Longrightarrow> j < dr_nr d \<Longrightarrow> \<not> rect_has_intersect r (dr_rects d ! j)"
proof (induction r d i rule: find_hit.induct)
  case (1 r d i)
  then show ?case by (subst (asm) (2) find_hit.simps) (cases "i = j"; auto split: if_splits)
qed

function dirty_rects_fix :: "dirty_rects \<Rightarrow> ret_t \<times> dirty_rects" where
  "dirty_rects_fix d =
     (if dr_nr d > 1 then
        (case find_hit (dr_rects d ! 0) d 1 of
           Some i \<Rightarrow> dirty_rects_fix (snd (dirty_rects_remove
             (d\<lparr>dr_rects := (dr_rects d)[0 := rect_merge (dr_rects d ! 0) (dr_rects d ! i)]\<rparr>) i))
         | None \<Rightarrow> (RET_OK, d))
      else (RET_OK, d))"
  by pat_completeness auto
termination by (relation "measure dr_nr") (auto simp: dirty_rects_remove_def dest: find_hit_Some)

declare dirty_rects_fix.simps [simp del]

function merge_all :: "rect list \<Rightarrow> nat \<Rightarrow> nat \<Rightarrow> rect list" where
  "merge_all es i n = (if i < n then merge_all (es[0 := rect_merge (es ! 0) (es ! i)]) (Suc i) n else es)"
  by pat_completeness auto
termination by (relation "measure (\<lambda>(es, i, n). n - i)") auto

declare merge_all.simps [simp del]

text \<open>
  The loop of \<open>dirty_rects_add\<close> calls \<open>rect_has_intersect(iter, r)\<close>, whose conditions do
  not depend on the order of its arguments.
\<close>

definition dirty_rects_add :: "dirty_rects \<Rightarrow> rect \<Rightarrow> ret_t \<times> dirty_rects" where
  "dirty_rects_add d r =
     (if rw r = 0 \<or> rh r = 0 then (RET_OK, d)
      else
        (let d = (if dr_nr d \<ge> TK_MAX_DIRTY_RECT_NR
                  then d\<lparr>dr_rects := merge_all (dr_rects d) 1 (dr_nr d), dr_nr := 1\<rparr> else d);
             d = d\<lparr>dr_max := rect_merge (dr_max d) r\<rparr>
         in (case find_hit r d 0 of
               Some i \<Rightarrow> dirty_rects_fix (d\<lparr>dr_rects := (dr_rects d)[i := rect_merge (dr_rects d ! i) r]\<rparr>)
             | None \<Rightarrow> (RET_OK, d\<lparr>dr_rects := (dr_rects d)[dr_nr d := r], dr_nr := dr_nr d + 1\<rparr>))))"

definition dirty_rects_set_debug :: "dirty_rects \<Rightarrow> bool \<Rightarrow> ret_t \<times> dirty_rects" where
  "dirty_rects_set_debug d debug = (RET_OK, d\<lparr>dr_debug := debug\<rparr>)"

definition dirty_rects_set_profile :: "dirty_rects \<Rightarrow> bool \<Rightarrow> ret_t \<times> dirty_rects" where
  "dirty_rects_set_profile d profile = (RET_OK, d\<lparr>dr_profile := profile\<rparr>)"

definition dirty_rects_set_disable_multiple :: "dirty_rects \<Rightarrow> bool \<Rightarrow> ret_t \<times> dirty_rects" where
  "dirty_rects_set_disable_multiple d v = (RET_OK, d\<lparr>dr_disable_multiple := v\<rparr>)"

text \<open>The colour \<open>red\<close>, opaque.\<close>

definition color_red :: color where "color_red = 0xFF0000FF"

text \<open>One rectangle, and its frame when debugging. \<open>w\<close> and \<open>h\<close> are the size of the widget.\<close>

definition paint_rect :: "bool \<Rightarrow> int \<Rightarrow> int \<Rightarrow> rect \<Rightarrow> canvas \<Rightarrow> on_paint \<Rightarrow> canvas option" where
  "paint_rect debug w h iter c on_paint = do {
     (_, c) \<leftarrow> widget_paint_with_clip w h (Some iter) c on_paint;
     if debug then do {
       let c = snd (canvas_set_stroke_color c color_red);
       (_, c) \<leftarrow> canvas_stroke_rect c (s32 (rx iter + 1)) (s32 (ry iter + 1)) (s32 (rw iter - 2)) (s32 (rh iter - 2));
       Some c
     } else Some c
   }"

fun paint_rects :: "bool \<Rightarrow> int \<Rightarrow> int \<Rightarrow> rect list \<Rightarrow> canvas \<Rightarrow> on_paint \<Rightarrow> canvas option" where
  "paint_rects debug w h [] c on_paint = Some c"
| "paint_rects debug w h (iter # rs) c on_paint = do {
     c \<leftarrow> paint_rect debug w h iter c on_paint;
     paint_rects debug w h rs c on_paint
   }"

definition dirty_rects_paint :: "dirty_rects \<Rightarrow> int \<Rightarrow> int \<Rightarrow> canvas \<Rightarrow> on_paint \<Rightarrow> drawn" where
  "dirty_rects_paint d w h c on_paint =
     (let is_support_dirty_rect = lcd_support_dirty_rect c
      in if dr_nr d = 0 then Some (RET_OK, c)
         else if dr_disable_multiple d \<or> \<not> is_support_dirty_rect then
           (let full_screen = rect_init 0 0 (lcd_w c) (lcd_h c);
                iter = (if is_support_dirty_rect then dr_max d else full_screen)
            in do {
              c \<leftarrow> paint_rect (dr_debug d) w h iter c on_paint;
              Some (RET_OK, c)
            })
         else do {
           c \<leftarrow> paint_rects (dr_debug d) w h (take (dr_nr d) (dr_rects d)) c on_paint;
           Some (RET_OK, c)
         })"

section \<open>Coverage\<close>

definition covered :: "dirty_rects \<Rightarrow> (int \<times> int) set" where
  "covered d = (\<Union>i < dr_nr d. points (dr_rects d ! i))"

definition good :: "rect \<Rightarrow> bool" where
  "good r \<longleftrightarrow> rect_ok r \<and> nonempty r"

definition dirty_inv :: "dirty_rects \<Rightarrow> bool" where
  "dirty_inv d \<longleftrightarrow> dr_nr d \<le> TK_MAX_DIRTY_RECT_NR \<and> length (dr_rects d) = TK_MAX_DIRTY_RECT_NR \<and>
     (\<forall>i < dr_nr d. good (dr_rects d ! i) \<and> points (dr_rects d ! i) \<subseteq> points (dr_max d)) \<and> rect_ok (dr_max d)"

lemma has_intersect_sym: "rect_has_intersect a b \<longleftrightarrow> rect_has_intersect b a"
  by (auto simp: rect_has_intersect_def Let_def)

lemma good_merge: "good a \<Longrightarrow> rect_ok b \<Longrightarrow> good (rect_merge a b)"
  using rect_merge_points[of a b] by (auto simp: good_def)

lemma dirty_rects_reset_inv: "dirty_inv dirty_rects_reset" "covered dirty_rects_reset = {}"
  by (simp_all add: dirty_inv_def dirty_rects_reset_def covered_def rect_ok_init)

lemma dirty_inv_nth: "dirty_inv d \<Longrightarrow> i < dr_nr d \<Longrightarrow> good (dr_rects d ! i) \<and> points (dr_rects d ! i) \<subseteq> points (dr_max d)"
  by (simp add: dirty_inv_def)

lemma dirty_inv_length: "dirty_inv d \<Longrightarrow> dr_nr d \<le> length (dr_rects d)"
  by (simp add: dirty_inv_def)

lemma covered_max: "dirty_inv d \<Longrightarrow> covered d \<subseteq> points (dr_max d)"
  using dirty_inv_nth by (fastforce simp: covered_def)

lemma covered_memI: "i < dr_nr d \<Longrightarrow> points (dr_rects d ! i) \<subseteq> covered d"
  by (auto simp: covered_def)

text \<open>Enlarging the rectangles of a state, within its bounding rectangle.\<close>

lemma dirty_update:
  assumes inv: "dirty_inv d" and i: "i < dr_nr d" and g: "good r" "points (dr_rects d ! i) \<subseteq> points r"
    "points r \<subseteq> points (dr_max d)"
  shows "dirty_inv (d\<lparr>dr_rects := (dr_rects d)[i := r]\<rparr>)"
    "covered d \<union> points r \<subseteq> covered (d\<lparr>dr_rects := (dr_rects d)[i := r]\<rparr>)"
proof -
  let ?d = "d\<lparr>dr_rects := (dr_rects d)[i := r]\<rparr>"
  have nth: "dr_rects ?d ! j = (if j = i then r else dr_rects d ! j)" if "j < dr_nr d" for j
    using that i dirty_inv_length[OF inv] by (simp add: nth_list_update)
  show "dirty_inv ?d" using inv g i by (auto simp: dirty_inv_def nth_list_update)
  have "points (dr_rects d ! j) \<subseteq> covered ?d" if "j < dr_nr d" for j
    using nth[OF that] g(2) covered_memI[of j ?d] that by (auto split: if_splits)
  moreover have "points r \<subseteq> covered ?d" using nth[OF i] covered_memI[of i ?d] i by simp
  ultimately show "covered d \<union> points r \<subseteq> covered ?d" unfolding covered_def[of d] by blast
qed

text \<open>Removing a rectangle that another one covers.\<close>

lemma dirty_remove:
  assumes inv: "dirty_inv d" and i: "0 < i" "i < dr_nr d" and sub: "points (dr_rects d ! i) \<subseteq> points (dr_rects d ! 0)"
  shows "dirty_inv (snd (dirty_rects_remove d i))" "covered d \<subseteq> covered (snd (dirty_rects_remove d i))"
    "dr_nr (snd (dirty_rects_remove d i)) = dr_nr d - 1" "dr_max (snd (dirty_rects_remove d i)) = dr_max d"
proof -
  let ?d = "snd (dirty_rects_remove d i)"
  have d': "dr_rects ?d = move_down (dr_rects d) 1 i (dr_nr d - 1)" "dr_nr ?d = dr_nr d - 1" "dr_max ?d = dr_max d"
    using i by (simp_all add: dirty_rects_remove_def)
  show "dr_nr ?d = dr_nr d - 1" "dr_max ?d = dr_max d" by (fact d')+
  have len: "dr_nr d \<le> length (dr_rects d)" using inv by (simp add: dirty_inv_def)
  have nth: "dr_rects ?d ! k = (if i \<le> k \<and> k < dr_nr d - 1 then dr_rects d ! (k + 1) else dr_rects d ! k)" if "k < dr_nr d" for k
    using nth_move_down[of 1 "dr_nr d - 1" "dr_rects d" k i] len i that d'(1) by auto
  have "dr_nr ?d \<le> TK_MAX_DIRTY_RECT_NR" "length (dr_rects ?d) = TK_MAX_DIRTY_RECT_NR"
    using inv d' by (auto simp: dirty_inv_def)
  moreover have "good (dr_rects ?d ! k) \<and> points (dr_rects ?d ! k) \<subseteq> points (dr_max ?d)" if "k < dr_nr ?d" for k
    using nth[of k] dirty_inv_nth[OF inv, of k] dirty_inv_nth[OF inv, of "k + 1"] that d'(2,3) by auto
  ultimately show inv': "dirty_inv ?d" using inv d'(3) by (simp add: dirty_inv_def)
  have "points (dr_rects d ! j) \<subseteq> covered ?d" if "j < dr_nr d" for j
  proof -
    consider "j < i" | "j = i" | "i < j" by linarith
    then show ?thesis
    proof cases
      case 1
      then have "dr_rects ?d ! j = dr_rects d ! j" "j < dr_nr ?d" using nth that i d' by auto
      then show ?thesis using covered_memI by metis
    next
      case 2
      have "dr_rects ?d ! 0 = dr_rects d ! 0" "0 < dr_nr ?d" using nth[of 0] i d' by auto
      then have "points (dr_rects d ! 0) \<subseteq> covered ?d" using covered_memI by metis
      then show ?thesis using 2 sub by simp
    next
      case 3
      then have "dr_rects ?d ! (j - 1) = dr_rects d ! j" "j - 1 < dr_nr ?d" using nth[of "j - 1"] that i d' by auto
      then show ?thesis using covered_memI by metis
    qed
  qed
  then show "covered d \<subseteq> covered ?d" unfolding covered_def[of d] by blast
qed

lemma dirty_rects_fix_spec:
  "dirty_inv d \<Longrightarrow> fst (dirty_rects_fix d) = RET_OK \<and> dirty_inv (snd (dirty_rects_fix d)) \<and>
     covered d \<subseteq> covered (snd (dirty_rects_fix d)) \<and> dr_max (snd (dirty_rects_fix d)) = dr_max d \<and>
     dr_nr (snd (dirty_rects_fix d)) \<le> dr_nr d \<and>
     (0 < dr_nr d \<longrightarrow> 0 < dr_nr (snd (dirty_rects_fix d))) \<and>
     (\<forall>i. 0 < i \<and> i < dr_nr (snd (dirty_rects_fix d)) \<longrightarrow>
        \<not> rect_has_intersect (dr_rects (snd (dirty_rects_fix d)) ! 0) (dr_rects (snd (dirty_rects_fix d)) ! i))"
proof (induction d rule: dirty_rects_fix.induct)
  case (1 d)
  show ?case
  proof (cases "dr_nr d > 1 \<and> find_hit (dr_rects d ! 0) d 1 \<noteq> None")
    case False
    then have e: "dirty_rects_fix d = (RET_OK, d)" by (auto simp: dirty_rects_fix.simps[of d])
    have "\<not> rect_has_intersect (dr_rects d ! 0) (dr_rects d ! i)" if "0 < i" "i < dr_nr d" for i
      using that False find_hit_None[of "dr_rects d ! 0" d 1 i] by auto
    then show ?thesis using "1.prems" e by simp
  next
    case True
    then obtain i where hit: "find_hit (dr_rects d ! 0) d 1 = Some i" by auto
    let ?m = "rect_merge (dr_rects d ! 0) (dr_rects d ! i)"
    let ?u = "d\<lparr>dr_rects := (dr_rects d)[0 := ?m]\<rparr>"
    let ?d = "snd (dirty_rects_remove ?u i)"
    have i: "0 < i" "i < dr_nr d" using find_hit_Some[OF hit] by auto
    note a = dirty_inv_nth[OF "1.prems", of 0] and b = dirty_inv_nth[OF "1.prems" i(2)]
    have ok: "rect_ok (dr_rects d ! 0)" "rect_ok (dr_rects d ! i)" "rect_ok (dr_max d)"
      using a b i "1.prems" by (auto simp: good_def dirty_inv_def)
    note M = rect_merge_points[OF ok(1,2)]
    have gm: "good ?m" using good_merge[of "dr_rects d ! 0" "dr_rects d ! i"] a ok i by auto
    have sub: "points ?m \<subseteq> points (dr_max d)" using M(5)[OF ok(3)] a b i by auto
    have z: "0 < dr_nr d" using i by simp
    note U = dirty_update[OF "1.prems" z gm M(2) sub]
    have "points (dr_rects ?u ! i) \<subseteq> points (dr_rects ?u ! 0)"
    proof -
      have "0 < length (dr_rects d)" using i dirty_inv_length[OF "1.prems"] by linarith
      then show ?thesis using M(3) i by simp
    qed
    from dirty_remove[OF U(1) i(1) _ this] i(2)
    have R: "dirty_inv ?d" "covered ?u \<subseteq> covered ?d" "dr_nr ?d = dr_nr d - 1" "dr_max ?d = dr_max d" by simp_all
    have "dirty_rects_fix d = dirty_rects_fix ?d" using True hit by (simp add: dirty_rects_fix.simps[of d])
    moreover have "covered d \<subseteq> covered ?d" using U(2) R(2) by blast
    moreover have "1 < dr_nr d" using True by simp
    ultimately show ?thesis using "1.IH"[OF _ hit R(1)] R(3,4) by force
  qed
qed

text \<open>Joining everything into the first rectangle.\<close>

lemma merge_all_spec:
  "0 < i \<Longrightarrow> n \<le> length es \<Longrightarrow> 0 < n \<Longrightarrow> (\<forall>j < n. good (es ! j) \<and> points (es ! j) \<subseteq> points c) \<Longrightarrow> rect_ok c \<Longrightarrow>
   length (merge_all es i n) = length es \<and> good (merge_all es i n ! 0) \<and> points (merge_all es i n ! 0) \<subseteq> points c \<and>
   points (es ! 0) \<subseteq> points (merge_all es i n ! 0) \<and>
   (\<forall>j. i \<le> j \<and> j < n \<longrightarrow> points (es ! j) \<subseteq> points (merge_all es i n ! 0))"
proof (induction es i n rule: merge_all.induct)
  case (1 es i n)
  show ?case
  proof (cases "i < n")
    case False
    then show ?thesis using "1.prems" by (auto simp: merge_all.simps[of es i n])
  next
    case True
    let ?m = "rect_merge (es ! 0) (es ! i)" and ?es = "es[0 := rect_merge (es ! 0) (es ! i)]"
    have ok: "rect_ok (es ! 0)" "rect_ok (es ! i)" "good (es ! 0)" using "1.prems" True by (auto simp: good_def)
    note M = rect_merge_points[OF ok(1,2)]
    have gm: "good ?m" using good_merge ok by blast
    have sub: "points ?m \<subseteq> points c" using M(5) "1.prems" True by simp
    have l0: "0 < length es" using "1.prems"(2,3) by linarith
    then have nth: "?es ! j = (if j = 0 then ?m else es ! j)" if "j < n" for j by simp
    have "length (merge_all ?es (Suc i) n) = length ?es \<and> good (merge_all ?es (Suc i) n ! 0) \<and>
       points (merge_all ?es (Suc i) n ! 0) \<subseteq> points c \<and> points (?es ! 0) \<subseteq> points (merge_all ?es (Suc i) n ! 0) \<and>
       (\<forall>j. Suc i \<le> j \<and> j < n \<longrightarrow> points (?es ! j) \<subseteq> points (merge_all ?es (Suc i) n ! 0))"
      using "1.prems" True gm sub nth by (intro "1.IH") auto
    moreover have "merge_all es i n = merge_all ?es (Suc i) n" using True by (simp add: merge_all.simps[of es i n])
    moreover have "?es ! 0 = ?m" using nth "1.prems"(3) by simp
    ultimately have r: "length (merge_all es i n) = length es" "good (merge_all es i n ! 0)"
      "points (merge_all es i n ! 0) \<subseteq> points c" "points ?m \<subseteq> points (merge_all es i n ! 0)"
      "\<And>j. Suc i \<le> j \<Longrightarrow> j < n \<Longrightarrow> points (?es ! j) \<subseteq> points (merge_all es i n ! 0)" by auto
    have "points (es ! j) \<subseteq> points (merge_all es i n ! 0)" if "i \<le> j" "j < n" for j
    proof (cases "j = i")
      case True
      then show ?thesis using M(3) r(4) by auto
    next
      case False
      then show ?thesis using r(5)[of j] nth[of j] that "1.prems"(1) by auto
    qed
    then show ?thesis using r M(2) by blast
  qed
qed


lemma dirty_rects_add_spec:
  assumes inv: "dirty_inv d" and r: "rect_ok r" and add: "dirty_rects_add d r = (ret, d')"
  shows "ret = RET_OK" "dirty_inv d'" "covered d \<union> points r \<subseteq> covered d'"
    "dr_max d' = (if nonempty r then rect_merge (dr_max d) r else dr_max d)"
proof -
  have "ret = RET_OK \<and> dirty_inv d' \<and> covered d \<union> points r \<subseteq> covered d' \<and>
    dr_max d' = (if nonempty r then rect_merge (dr_max d) r else dr_max d)"
  proof (cases "rw r = 0 \<or> rh r = 0")
    case True
    then have "points r = {}" using r by (auto simp: points_empty)
    then show ?thesis using add inv True by (auto simp: dirty_rects_add_def)
  next
    case False
    then have gr: "good r" using r by (auto simp: good_def rect_ok_def)
    then have ne: "nonempty r" by (simp add: good_def)
    have okm: "rect_ok (dr_max d)" using inv by (simp add: dirty_inv_def)
    note M = rect_merge_points[OF okm r]
    define d1 where "d1 = (if dr_nr d \<ge> TK_MAX_DIRTY_RECT_NR
                  then d\<lparr>dr_rects := merge_all (dr_rects d) 1 (dr_nr d), dr_nr := 1\<rparr> else d)"
    have d1: "dirty_inv d1" "covered d \<subseteq> covered d1" "dr_nr d1 < TK_MAX_DIRTY_RECT_NR" "dr_max d1 = dr_max d"
    proof -
      have "dirty_inv d1 \<and> covered d \<subseteq> covered d1 \<and> dr_nr d1 < TK_MAX_DIRTY_RECT_NR \<and> dr_max d1 = dr_max d"
      proof (cases "dr_nr d \<ge> TK_MAX_DIRTY_RECT_NR")
        case True
        have nr: "dr_nr d = TK_MAX_DIRTY_RECT_NR" "length (dr_rects d) = TK_MAX_DIRTY_RECT_NR"
          using inv True by (simp_all add: dirty_inv_def)
        have pos: "1 < TK_MAX_DIRTY_RECT_NR" by (simp add: TK_MAX_DIRTY_RECT_NR_def)
        let ?z = "merge_all (dr_rects d) 1 (dr_nr d)"
        have all: "\<forall>j < dr_nr d. good (dr_rects d ! j) \<and> points (dr_rects d ! j) \<subseteq> points (dr_max d)"
          using inv by (simp add: dirty_inv_def)
        have z: "length ?z = length (dr_rects d)" "good (?z ! 0)" "points (?z ! 0) \<subseteq> points (dr_max d)"
          "points (dr_rects d ! 0) \<subseteq> points (?z ! 0)" "\<And>j. 1 \<le> j \<Longrightarrow> j < dr_nr d \<Longrightarrow> points (dr_rects d ! j) \<subseteq> points (?z ! 0)"
          using merge_all_spec[of 1 "dr_nr d" "dr_rects d" "dr_max d"] all nr pos okm by auto
        have "points (dr_rects d ! j) \<subseteq> points (?z ! 0)" if "j < dr_nr d" for j
          using z(4) z(5)[of j] that by (cases j) auto
        then have cov: "covered d \<subseteq> points (?z ! 0)" by (auto simp: covered_def)
        have d1: "d1 = d\<lparr>dr_rects := ?z, dr_nr := 1\<rparr>" using True by (simp add: d1_def)
        have "dirty_inv d1" using inv z(1,2,3) nr(2) pos by (simp add: d1 dirty_inv_def)
        moreover have "covered d1 = points (?z ! 0)" by (simp add: d1 covered_def lessThan_Suc)
        ultimately show "dirty_inv d1 \<and> covered d \<subseteq> covered d1 \<and> dr_nr d1 < TK_MAX_DIRTY_RECT_NR \<and> dr_max d1 = dr_max d"
          using cov pos by (simp add: d1)
      qed (use inv in \<open>simp_all add: d1_def\<close>)
      then show "dirty_inv d1" "covered d \<subseteq> covered d1" "dr_nr d1 < TK_MAX_DIRTY_RECT_NR" "dr_max d1 = dr_max d" by blast+
    qed
    define d2 where "d2 = d1\<lparr>dr_max := rect_merge (dr_max d1) r\<rparr>"
    have d2: "dirty_inv d2" "covered d2 = covered d1" "dr_nr d2 = dr_nr d1" "dr_max d2 = rect_merge (dr_max d) r"
    proof -
      show "dirty_inv d2" using d1 M(1,2) unfolding d2_def dirty_inv_def by auto
    qed (simp_all add: d2_def covered_def d1)
    have sub: "points r \<subseteq> points (dr_max d2)" using M(3) d2(4) by simp
    have res: "(ret, d') = (case find_hit r d2 0 of
               Some i \<Rightarrow> dirty_rects_fix (d2\<lparr>dr_rects := (dr_rects d2)[i := rect_merge (dr_rects d2 ! i) r]\<rparr>)
             | None \<Rightarrow> (RET_OK, d2\<lparr>dr_rects := (dr_rects d2)[dr_nr d2 := r], dr_nr := dr_nr d2 + 1\<rparr>))"
      using add False unfolding dirty_rects_add_def Let_def d1_def[symmetric] d2_def[symmetric] by simp
    show ?thesis
    proof (cases "find_hit r d2 0")
      case None
      then have e: "ret = RET_OK" "d' = d2\<lparr>dr_rects := (dr_rects d2)[dr_nr d2 := r], dr_nr := dr_nr d2 + 1\<rparr>"
        using res by simp_all
      have len: "length (dr_rects d2) = TK_MAX_DIRTY_RECT_NR" "dr_nr d2 < TK_MAX_DIRTY_RECT_NR"
        using d2(1,3) d1(3) by (simp_all add: dirty_inv_def)
      have nth: "dr_rects d' ! j = (if j = dr_nr d2 then r else dr_rects d2 ! j)" if "j \<le> dr_nr d2" for j
        using that len by (simp add: e nth_list_update)
      have "good (dr_rects d' ! j) \<and> points (dr_rects d' ! j) \<subseteq> points (dr_max d2)" if "j < dr_nr d'" for j
        using nth[of j] dirty_inv_nth[OF d2(1), of j] that gr sub by (auto simp: e(2) split: if_splits)
      then have "dirty_inv d'" using len d2(1) unfolding dirty_inv_def by (simp add: e(2))
      moreover have "points (dr_rects d2 ! j) \<subseteq> covered d'" if "j < dr_nr d2" for j
        using nth[of j] covered_memI[of j d'] that by (simp add: e(2))
      then have "covered d2 \<subseteq> covered d'" unfolding covered_def[of d2] by blast
      moreover have "points r \<subseteq> covered d'" using nth[of "dr_nr d2"] covered_memI[of "dr_nr d2" d'] by (simp add: e(2))
      ultimately show ?thesis using e ne d1(2) d2(2,4) by auto
    next
      case (Some i)
      then have i: "i < dr_nr d2" using find_hit_Some by blast
      note g = dirty_inv_nth[OF d2(1) i]
      have oki: "rect_ok (dr_rects d2 ! i)" "rect_ok (dr_max d2)" using g d2(1) by (auto simp: good_def dirty_inv_def)
      note N = rect_merge_points[OF oki(1) r]
      have gm: "good (rect_merge (dr_rects d2 ! i) r)" using good_merge g r by blast
      have "points (rect_merge (dr_rects d2 ! i) r) \<subseteq> points (dr_max d2)" using N(5)[OF oki(2)] g sub by simp
      note U = dirty_update[OF d2(1) i gm N(2) this]
      note F = dirty_rects_fix_spec[OF U(1)]
      have "(ret, d') = dirty_rects_fix (d2\<lparr>dr_rects := (dr_rects d2)[i := rect_merge (dr_rects d2 ! i) r]\<rparr>)"
        using res Some by simp
      then have fs: "ret = fst (dirty_rects_fix (d2\<lparr>dr_rects := (dr_rects d2)[i := rect_merge (dr_rects d2 ! i) r]\<rparr>))"
        "d' = snd (dirty_rects_fix (d2\<lparr>dr_rects := (dr_rects d2)[i := rect_merge (dr_rects d2 ! i) r]\<rparr>))"
        by (metis fst_conv, metis snd_conv)
      have "ret = RET_OK" "dirty_inv d'" "dr_max d' = dr_max d2"
        "covered (d2\<lparr>dr_rects := (dr_rects d2)[i := rect_merge (dr_rects d2 ! i) r]\<rparr>) \<subseteq> covered d'"
        unfolding fs using F by simp_all
      then show ?thesis using U(2) N(3) d1(2) d2(2,4) ne by auto
    qed
  qed
  then show "ret = RET_OK" "dirty_inv d'" "covered d \<union> points r \<subseteq> covered d'"
    "dr_max d' = (if nonempty r then rect_merge (dr_max d) r else dr_max d)" by blast+
qed

section \<open>Painting\<close>

text \<open>The canvas with the part \<open>R\<close> of its clip rectangle showing the scene; colours may have changed.\<close>

definition scene_shown :: "canvas \<Rightarrow> (int \<times> int) set \<Rightarrow> (int \<times> int \<Rightarrow> color) \<Rightarrow> canvas \<Rightarrow> bool" where
  "scene_shown c R scene c' \<longleftrightarrow> (\<exists>fc sc. c' = c\<lparr>lcd_fill_color := fc, lcd_stroke_color := sc,
     lcd_pixels := (\<lambda>p. if p \<in> R \<inter> clip_points c then scene p else lcd_pixels c p)\<rparr>)"

lemma scene_shown_fields:
  assumes "scene_shown c R scene c'"
  shows "canvas_ok c' = canvas_ok c" "clip_proper c' = clip_proper c" "paints c' p s = paints c p s" "clip_points c' = clip_points c"
  using assms by (auto simp: scene_shown_def canvas_ok_def clip_proper_def paints_def clip_points_def)

lemma scene_shown_trans:
  assumes a: "scene_shown c R scene c1" and b: "scene_shown c1 S scene c2"
  shows "scene_shown c (R \<union> S) scene c2"
proof -
  obtain f k where 1: "c1 = c\<lparr>lcd_fill_color := f, lcd_stroke_color := k,
     lcd_pixels := (\<lambda>p. if p \<in> R \<inter> clip_points c then scene p else lcd_pixels c p)\<rparr>" using a by (auto simp: scene_shown_def)
  obtain f' k' where 2: "c2 = c1\<lparr>lcd_fill_color := f', lcd_stroke_color := k',
     lcd_pixels := (\<lambda>p. if p \<in> S \<inter> clip_points c then scene p else lcd_pixels c1 p)\<rparr>"
    using b scene_shown_fields(4)[OF a] by (auto simp: scene_shown_def)
  have "lcd_pixels c2 = (\<lambda>p. if p \<in> (R \<union> S) \<inter> clip_points c then scene p else lcd_pixels c p)" unfolding 2 by (auto simp: 1)
  then have "c2 = c\<lparr>lcd_fill_color := f', lcd_stroke_color := k',
     lcd_pixels := (\<lambda>p. if p \<in> (R \<union> S) \<inter> clip_points c then scene p else lcd_pixels c p)\<rparr>"
    by (intro canvas.equality) (simp_all add: 2 1)
  then show ?thesis unfolding scene_shown_def by blast
qed

lemma paint_rect_shows:
  assumes "canvas_ok c" "clip_proper c" and "rect_ok r" and "paints c on_paint scene"
  shows "\<exists>c'. paint_rect False w h r c on_paint = Some c' \<and> scene_shown c (points r) scene c'"
  using paint_with_clip_eq[OF assms, of w h] unfolding scene_shown_def by (elim exE) (simp add: paint_rect_def, blast)

lemma paint_rects_show:
  "canvas_ok c \<Longrightarrow> clip_proper c \<Longrightarrow> paints c on_paint scene \<Longrightarrow> \<forall>r \<in> set rs. rect_ok r \<Longrightarrow>
   \<exists>c'. paint_rects False w h rs c on_paint = Some c' \<and> scene_shown c (\<Union>r \<in> set rs. points r) scene c'"
proof (induction rs arbitrary: c)
  case Nil
  have "scene_shown c {} scene c" unfolding scene_shown_def
    by (rule exI[of _ "lcd_fill_color c"], rule exI[of _ "lcd_stroke_color c"]) simp
  then show ?case by simp
next
  case (Cons r rs)
  obtain c1 where c1: "paint_rect False w h r c on_paint = Some c1" "scene_shown c (points r) scene c1"
    using paint_rect_shows[of c r on_paint scene w h] Cons.prems by auto
  note f = scene_shown_fields[OF c1(2)]
  obtain c2 where c2: "paint_rects False w h rs c1 on_paint = Some c2" "scene_shown c1 (\<Union>r \<in> set rs. points r) scene c2"
    using Cons.IH[of c1] Cons.prems f by auto
  show ?case using c1(1) c2(1) scene_shown_trans[OF c1(2) c2(2)] by simp
qed

text \<open>The pixels that a mode of painting stands for.\<close>

definition paint_region :: "dirty_rects \<Rightarrow> canvas \<Rightarrow> (int \<times> int) set" where
  "paint_region d c =
     (if covered d = {} then {}
      else if \<not> lcd_support_dirty_rect c then {(u, v). 0 \<le> u \<and> u < lcd_w c \<and> 0 \<le> v \<and> v < lcd_h c}
      else if dr_disable_multiple d then points (dr_max d)
      else covered d)"

lemma covered_nonempty: "dirty_inv d \<Longrightarrow> covered d = {} \<longleftrightarrow> dr_nr d = 0"
proof
  assume inv: "dirty_inv d" and e: "covered d = {}"
  show "dr_nr d = 0"
  proof (rule ccontr)
    assume "dr_nr d \<noteq> 0"
    then have g: "good (dr_rects d ! 0)" "points (dr_rects d ! 0) \<subseteq> covered d" using dirty_inv_nth[OF inv] covered_memI by auto
    then show False using e points_empty[of "dr_rects d ! 0"] by (auto simp: good_def)
  qed
qed (simp add: covered_def)

lemma covered_set:
  assumes "dirty_inv d"
  shows "covered d = (\<Union>r \<in> set (take (dr_nr d) (dr_rects d)). points r)"
proof -
  have "set (take (dr_nr d) (dr_rects d)) = (\<lambda>i. dr_rects d ! i) ` {..<dr_nr d}"
    using nth_image[OF dirty_inv_length[OF assms]] by (simp add: lessThan_atLeast0)
  then show ?thesis by (simp add: covered_def)
qed

lemma dirty_rects_paint_shows:
  assumes inv: "dirty_inv d" and c: "canvas_ok c" "clip_proper c" and p: "paints c on_paint scene" and n: "\<not> dr_debug d"
  shows "\<exists>c'. dirty_rects_paint d w h c on_paint = Some (RET_OK, c') \<and> scene_shown c (paint_region d c) scene c'"
proof (cases "dr_nr d = 0")
  case True
  have "scene_shown c {} scene c" using paint_rects_show[OF c p, of "[]"] by simp
  then show ?thesis using True covered_nonempty[OF inv] by (simp add: dirty_rects_paint_def paint_region_def)
next
  case False
  have ne: "covered d \<noteq> {}" using False covered_nonempty[OF inv] by simp
  have ok: "rect_ok (dr_max d)" "rect_ok (rect_init 0 0 (lcd_w c) (lcd_h c))" "\<forall>r \<in> set (take (dr_nr d) (dr_rects d)). rect_ok r"
  proof -
    show "rect_ok (dr_max d)" using inv by (simp add: dirty_inv_def)
    show "rect_ok (rect_init 0 0 (lcd_w c) (lcd_h c))" using c by (auto simp: rect_ok_init canvas_ok_def clip_proper_def)
    show "\<forall>r \<in> set (take (dr_nr d) (dr_rects d)). rect_ok r"
      using dirty_inv_nth[OF inv] dirty_inv_length[OF inv] by (auto simp: in_set_conv_nth good_def)
  qed
  have full: "points (rect_init 0 0 (lcd_w c) (lcd_h c)) = {(u, v). 0 \<le> u \<and> u < lcd_w c \<and> 0 \<le> v \<and> v < lcd_h c}"
    using mem_points[OF ok(2)] by auto
  consider "\<not> lcd_support_dirty_rect c" | "lcd_support_dirty_rect c" "dr_disable_multiple d" | "lcd_support_dirty_rect c" "\<not> dr_disable_multiple d" by blast
  then show ?thesis
  proof cases
    case 1
    then show ?thesis using paint_rect_shows[OF c ok(2) p, of w h] n False ne
      by (auto simp: dirty_rects_paint_def paint_region_def full)
  next
    case 2
    then show ?thesis using paint_rect_shows[OF c ok(1) p, of w h] n False ne
      by (auto simp: dirty_rects_paint_def paint_region_def)
  next
    case 3
    then show ?thesis using paint_rects_show[OF c p ok(3), of w h] n False ne
      by (auto simp: dirty_rects_paint_def paint_region_def covered_set[OF inv])
  qed
qed

section \<open>Properties\<close>

text \<open>
  C5. Adding a rectangle to the dirty region never loses a dirty point: the region afterwards
  covers the region before and the new rectangle, through the merging of overlapping rectangles,
  the collapse of a full table and the growth of the bounding rectangle; the call terminates and
  keeps the invariant of the table.
\<close>

theorem dirty_rects_add_covers:
  assumes "dirty_inv d" and "rect_ok r" and "dirty_rects_add d r = (ret, d')"
  shows "ret = RET_OK \<and> dirty_inv d' \<and> covered d \<union> points r \<subseteq> covered d' \<and> covered d' \<subseteq> points (dr_max d')"
  using dirty_rects_add_spec[OF assms] covered_max by blast

text \<open>
  C15. Painting the dirty region. Let the widget paint a picture as far as the clip rectangle lets it, and let no
  debug frames be asked for. Then every dirty pixel within the clip rectangle of the canvas shows the picture
  afterwards, in each of the three modes. Exactly the pixels of the mode change: those of the
  dirty rectangles, those of the bounding rectangle, or all of them where the LCD cannot paint parts; none outside of
  the clip rectangle, none when nothing is dirty. The clip rectangle and the origin are as before.
\<close>

theorem dirty_rects_paint_complete:
  assumes "dirty_inv d" and "canvas_ok c" and "clip_proper c" and "paints c on_paint scene" and "\<not> dr_debug d"
  shows "\<exists>c'. dirty_rects_paint d w h c on_paint = Some (RET_OK, c') \<and>
    (\<forall>p \<in> covered d \<inter> clip_points c. lcd_pixels c' p = scene p) \<and>
    (\<forall>p. lcd_pixels c' p = (if p \<in> clip_points c \<inter>
        (if covered d = {} then {} else if \<not> lcd_support_dirty_rect c then UNIV
         else if dr_disable_multiple d then points (dr_max d) else covered d) then scene p else lcd_pixels c p)) \<and>
    canvas_get_clip_rect c' = canvas_get_clip_rect c \<and> clip_points c' = clip_points c \<and> cv_ox c' = cv_ox c \<and> cv_oy c' = cv_oy c"
proof -
  obtain c' where run: "dirty_rects_paint d w h c on_paint = Some (RET_OK, c')" and s: "scene_shown c (paint_region d c) scene c'"
    using dirty_rects_paint_shows[OF assms] by blast
  then obtain f k where e: "c' = c\<lparr>lcd_fill_color := f, lcd_stroke_color := k,
     lcd_pixels := (\<lambda>p. if p \<in> paint_region d c \<inter> clip_points c then scene p else lcd_pixels c p)\<rparr>" by (auto simp: scene_shown_def)
  have px: "lcd_pixels c' p = (if p \<in> paint_region d c \<inter> clip_points c then scene p else lcd_pixels c p)" for p by (simp add: e)
  have R: "p \<in> paint_region d c \<inter> clip_points c \<longleftrightarrow> p \<in> clip_points c \<inter>
      (if covered d = {} then {} else if \<not> lcd_support_dirty_rect c then UNIV
       else if dr_disable_multiple d then points (dr_max d) else covered d)" for p
    using clip_on_screen[OF assms(2)] by (auto simp: paint_region_def)
  have "\<forall>p \<in> covered d \<inter> clip_points c. lcd_pixels c' p = scene p"
    using px R covered_max[OF assms(1)] by auto
  moreover have "canvas_get_clip_rect c' = canvas_get_clip_rect c" by (simp add: e canvas_get_clip_rect_def)
  moreover have "cv_ox c' = cv_ox c" "cv_oy c' = cv_oy c" by (simp_all add: e)
  ultimately show ?thesis using run scene_shown_fields(4)[OF s] px unfolding R by blast
qed

theorem dirty_rects_add_covers_witness:
  "\<exists>d'. dirty_rects_add dirty_rects_reset (rect_init 1 2 3 4) = (RET_OK, d') \<and>
     points (rect_init 1 2 3 4) \<subseteq> covered d'"
proof -
  obtain ret d' where run: "dirty_rects_add dirty_rects_reset (rect_init 1 2 3 4) = (ret, d')" by fastforce
  have "rect_ok (rect_init 1 2 3 4)" by (simp add: rect_ok_def rect_init_def)
  from dirty_rects_add_covers[OF dirty_rects_reset_inv(1) this run] show ?thesis using run by auto
qed

text \<open>A window of 20 by 10 pixels with a background and a button on it.\<close>

definition example_canvas :: canvas where
  "example_canvas = \<lparr>cv_ox = 0, cv_oy = 0, clip_left = 0, clip_top = 0, clip_right = 19, clip_bottom = 9, lcd_w = 20, lcd_h = 10,
     lcd_support_dirty_rect = True, lcd_fill_color = 0, lcd_stroke_color = 0, lcd_pixels = (\<lambda>_. 0)\<rparr>"

definition example_on_paint :: on_paint where
  "example_on_paint c = do {
     (_, c) \<leftarrow> canvas_fill_rect (snd (canvas_set_fill_color c 7)) 0 0 20 10;
     canvas_fill_rect (snd (canvas_set_fill_color c 9)) 2 3 4 5
   }"

lemma example_paints:
  "paints example_canvas example_on_paint (\<lambda>(u, v). if 2 \<le> u \<and> u < 6 \<and> 3 \<le> v \<and> v < 8 then 9 else 7)"
proof -
  have "\<exists>r fc sc. example_on_paint c = Some (r, c\<lparr>lcd_fill_color := fc, lcd_stroke_color := sc, lcd_pixels :=
      (\<lambda>p. if p \<in> clip_points c then (case p of (u, v) \<Rightarrow> if 2 \<le> u \<and> u < 6 \<and> 3 \<le> v \<and> v < 8 then 9 else 7) else lcd_pixels c p)\<rparr>)"
    if c: "canvas_ok c" "cv_ox c = 0" "cv_oy c = 0" "lcd_w c = 20" "lcd_h c = 10" for c
  proof -
    let ?c = "c\<lparr>lcd_fill_color := 7\<rparr>"
    have o: "canvas_ok ?c" "origin_ok ?c" using c by (simp_all add: canvas_ok_def origin_ok_def)
    let ?d = "plot ?c (drawn_at (Fill 0 0 20 10) ?c) 7"
    obtain r where 1: "canvas_fill_rect ?c 0 0 20 10 = Some (r, ?d)" using fill_drawn(1)[OF o, of 0 0 20 10] by auto
    have o': "canvas_ok (?d\<lparr>lcd_fill_color := 9\<rparr>)" "origin_ok (?d\<lparr>lcd_fill_color := 9\<rparr>)"
      using c by (simp_all add: canvas_ok_def origin_ok_def plot_def)
    obtain r' where 2: "canvas_fill_rect (?d\<lparr>lcd_fill_color := 9\<rparr>) 2 3 4 5 =
        Some (r', plot (?d\<lparr>lcd_fill_color := 9\<rparr>) (drawn_at (Fill 2 3 4 5) (?d\<lparr>lcd_fill_color := 9\<rparr>)) 9)"
      using fill_drawn(1)[OF o', of 2 3 4 5] by auto
    have e: "plot (?d\<lparr>lcd_fill_color := 9\<rparr>) (drawn_at (Fill 2 3 4 5) (?d\<lparr>lcd_fill_color := 9\<rparr>)) 9 =
        c\<lparr>lcd_fill_color := 9, lcd_stroke_color := lcd_stroke_color c, lcd_pixels :=
      (\<lambda>p. if p \<in> clip_points c then (case p of (u, v) \<Rightarrow> if 2 \<le> u \<and> u < 6 \<and> 3 \<le> v \<and> v < 8 then 9 else 7) else lcd_pixels c p)\<rparr>"
      using clip_on_screen[OF c(1)] c by (intro canvas.equality) (auto simp: plot_def drawn_at_def spans_def fun_eq_iff)
    have "example_on_paint c = Some (r', plot (?d\<lparr>lcd_fill_color := 9\<rparr>) (drawn_at (Fill 2 3 4 5) (?d\<lparr>lcd_fill_color := 9\<rparr>)) 9)"
      using 1 2 by (simp add: example_on_paint_def canvas_set_fill_color_def)
    then show ?thesis unfolding e by blast
  qed
  then show ?thesis by (simp add: paints_def example_canvas_def)
qed

theorem dirty_rects_paint_complete_witness:
  "\<exists>d c'. dirty_rects_add dirty_rects_reset (rect_init 1 2 3 4) = (RET_OK, d) \<and>
     dirty_rects_paint d 20 10 example_canvas example_on_paint = Some (RET_OK, c') \<and>
     lcd_pixels c' (3, 3) = 9 \<and> lcd_pixels c' (1, 2) = 7 \<and> lcd_pixels c' (10, 2) = 0"
proof -
  let ?r = "rect_init 1 2 3 4"
  have ok: "rect_ok ?r" by (simp add: rect_ok_def rect_init_def)
  have run: "dirty_rects_add dirty_rects_reset ?r =
      (RET_OK, dirty_rects_reset\<lparr>dr_max := ?r, dr_rects := (dr_rects dirty_rects_reset)[0 := ?r], dr_nr := 1\<rparr>)" (is "_ = (_, ?d)")
    by (simp add: dirty_rects_add_def dirty_rects_reset_def find_hit.simps TK_MAX_DIRTY_RECT_NR_def rect_merge_def)
  have inv: "dirty_inv ?d" using dirty_rects_add_spec(2)[OF dirty_rects_reset_inv(1) ok run] .
  have cov: "covered ?d = points ?r" by (auto simp: covered_def dirty_rects_reset_def TK_MAX_DIRTY_RECT_NR_def)
  have c: "canvas_ok example_canvas" "clip_proper example_canvas" by (simp_all add: canvas_ok_def clip_proper_def example_canvas_def)
  have n: "\<not> dr_debug ?d" by (simp add: dirty_rects_reset_def)
  note m = mem_points[OF ok, simplified]
  have cp: "clip_points example_canvas = {(u, v). 0 \<le> u \<and> u \<le> 19 \<and> 0 \<le> v \<and> v \<le> 9}" by (simp add: clip_points_def example_canvas_def)
  have fl: "lcd_support_dirty_rect example_canvas" "\<not> dr_disable_multiple ?d" "lcd_pixels example_canvas p = 0" for p
    by (simp_all add: example_canvas_def dirty_rects_reset_def)
  have "(3, 3) \<in> covered ?d" "(1, 2) \<in> covered ?d" "(10, 2) \<notin> covered ?d" unfolding cov by (simp_all add: m)
  with dirty_rects_paint_complete[OF inv c example_paints n, of 20 10] run fl cp show ?thesis by fastforce
qed

end
