(* ===== verification/Timers.thy ===== *)
theory Timers
  imports ObjList
begin

text \<open>
  The timer manager, \<open>src/src/tkc/timer_manager.c\<close>, the timer objects it keeps,
  \<open>src/src/tkc/timer_info.c\<close>, and the functions of \<open>src/src/base/timer.c\<close> on the default
  manager. The timers are objects with a reference count, in a list of theory
  \<open>ObjList\<close>. The clock is the
  sequence of values that the calls of \<open>get_time\<close> return. A callback is a function of the
  manager's state, so it may do with the manager what the program could.

  \<open>None\<close> is, as in the list, a dangling read, a failed \<open>ENSURE\<close> or a loop without end.
  Two fields that exist for observation only: \<open>ol_fired\<close> records the timers whose callback
  ran, \<open>ol_finalized\<close> the objects that were destroyed.
\<close>

section \<open>State\<close>

record timer_info = tk_object +
  ti_on_timer :: ptr
  ti_ctx :: ptr
  ti_id :: nat
  ti_now :: nat
  ti_start :: nat
  ti_duration :: nat
  ti_suspend :: bool
  ti_busy :: bool
  ti_type :: nat

record timer_manager = "timer_info managed" +
  tm_next_timer_id :: nat
  tm_last_dispatch_time :: nat
  tm_time :: "nat \<Rightarrow> nat"
  tm_calls :: nat

definition u64 :: "nat \<Rightarrow> nat" where
  "u64 n = n mod 2 ^ 64"

text \<open>\<open>(uint32_t)(a - b)\<close> for 64-bit numbers.\<close>

definition diff32 :: "nat \<Rightarrow> nat \<Rightarrow> nat" where
  "diff32 a b = u32 (u64 (a + (2 ^ 64 - b)))"

type_synonym timer_func = "ptr \<Rightarrow> ptr \<Rightarrow> timer_manager \<Rightarrow> (ret_t \<times> timer_manager) option"

section \<open>Operations\<close>

definition get_time :: "timer_manager \<Rightarrow> nat \<times> timer_manager" where
  "get_time tm = (tm_time tm (tm_calls tm), tm\<lparr>tm_calls := tm_calls tm + 1\<rparr>)"

definition timer_manager_init :: "(nat \<Rightarrow> nat) \<Rightarrow> timer_manager" where
  "timer_manager_init time =
     \<lparr>ol_list = slist_init None, ol_objs = (\<lambda>_. None), ol_fired = [], ol_finalized = [],
      tm_next_timer_id = 1, tm_last_dispatch_time = time 0, tm_time = time, tm_calls = 1\<rparr>"

definition timer_info_compare_by_id :: "timer_info \<Rightarrow> timer_info \<Rightarrow> int" where
  "timer_info_compare_by_id a b = s32 (int (ti_id a) - int (ti_id b))"

definition timer_info_compare_by_ctx :: "timer_info \<Rightarrow> ptr \<Rightarrow> int" where
  "timer_info_compare_by_ctx a b = s32 (int (ti_ctx a) - int b)"

definition timer_info_compare_by_ctx_and_type :: "timer_info \<Rightarrow> timer_info \<Rightarrow> int" where
  "timer_info_compare_by_ctx_and_type a b =
     (if ti_type a = ti_type b then s32 (int (ti_ctx a) - int (ti_ctx b)) else - 1)"

definition timer_info_zero :: timer_info where
  "timer_info_zero = \<lparr>ob_ref = 0, ti_on_timer = NULL, ti_ctx = NULL, ti_id = 0, ti_now = 0, ti_start = 0, ti_duration = 0,
     ti_suspend = False, ti_busy = False, ti_type = 0\<rparr>"

definition timer_info_init_dummy :: "nat \<Rightarrow> timer_info" where
  "timer_info_init_dummy tid = timer_info_zero\<lparr>ti_id := tid\<rparr>"

definition timer_info_init_dummy_with_ctx_and_type :: "nat \<Rightarrow> ptr \<Rightarrow> timer_info" where
  "timer_info_init_dummy_with_ctx_and_type type ctx = timer_info_zero\<lparr>ti_ctx := ctx, ti_type := type\<rparr>"

definition timer_by_id :: "nat \<Rightarrow> timer_info \<Rightarrow> int" where
  "timer_by_id tid t = timer_info_compare_by_id t (timer_info_init_dummy tid)"

definition timer_manager_find :: "timer_manager \<Rightarrow> nat \<Rightarrow> ptr option" where
  "timer_manager_find tm timer_id =
     (if timer_id = 0 then Some NULL else slist_find_ex (ol_list tm) (Some (on_obj tm (timer_by_id timer_id))) NULL)"

definition timer_manager_get_next_timer_id :: "timer_manager \<Rightarrow> (nat \<times> timer_manager) option" where
  "timer_manager_get_next_timer_id tm = do {
     (tid, next) \<leftarrow> next_free_id (\<lambda>i. map_option (\<lambda>p. p \<noteq> NULL) (timer_manager_find tm i)) (tm_next_timer_id tm);
     Some (tid, tm\<lparr>tm_next_timer_id := next\<rparr>)
   }"

text \<open>The result of \<open>timer_manager_append\<close> is not looked at.\<close>

definition timer_manager_append :: "timer_manager \<Rightarrow> ptr \<Rightarrow> ptr \<Rightarrow> (ret_t \<times> timer_manager) option" where
  "timer_manager_append tm node timer = do {
     (r, s) \<leftarrow> slist_append (ol_list tm) node timer;
     Some (r, tm\<lparr>ol_list := s\<rparr>)
   }"

definition timer_info_create ::
  "timer_manager \<Rightarrow> ptr \<Rightarrow> ptr \<Rightarrow> nat \<Rightarrow> ptr \<Rightarrow> ptr \<Rightarrow> nat \<Rightarrow> nat \<Rightarrow> nat \<Rightarrow> (ptr \<times> timer_manager) option" where
  "timer_info_create tm obj node tid on_timer ctx duration type now =
     (if obj = NULL then Some (NULL, tm)
      else
        (case get_time tm of (start, tm) \<Rightarrow>
           let t = \<lparr>ob_ref = 1, ti_on_timer = on_timer, ti_ctx = ctx, ti_id = tid, ti_now = now, ti_start = start,
                    ti_duration = duration, ti_suspend = False, ti_busy = False, ti_type = type\<rparr>;
               tm = tm\<lparr>ol_objs := (ol_objs tm)(obj \<mapsto> t)\<rparr>
           in if tid \<noteq> 0 then do { (r, tm) \<leftarrow> timer_manager_append tm node obj; Some (obj, tm) }
              else do { tm \<leftarrow> obj_unref obj tm; Some (NULL, tm) }))"

text \<open>The variable \<open>now\<close> of the code has 32 bits.\<close>

definition timer_manager_add_with_type_and_id ::
  "timer_manager \<Rightarrow> ptr \<Rightarrow> ptr \<Rightarrow> nat \<Rightarrow> ptr \<Rightarrow> ptr \<Rightarrow> nat \<Rightarrow> nat \<Rightarrow> bool \<Rightarrow> (nat \<times> timer_manager) option" where
  "timer_manager_add_with_type_and_id tm obj node tid on_timer ctx duration type is_check_id =
     (if on_timer = NULL \<or> tid = 0 then Some (0, tm)
      else do {
        found \<leftarrow> (if is_check_id then timer_manager_find tm tid else Some NULL);
        if found \<noteq> NULL then Some (0, tm)
        else
          (case (if duration \<noteq> 0 then (case get_time tm of (t, tm) \<Rightarrow> (u32 t, tm)) else (0, tm)) of (now, tm) \<Rightarrow> do {
             (timer, tm) \<leftarrow> timer_info_create tm obj node tid on_timer ctx duration type now;
             if timer = NULL then Some (0, tm)
             else do { t \<leftarrow> ol_objs tm timer; Some (ti_id t, tm) }
           })
      })"

definition timer_manager_add_with_type ::
  "timer_manager \<Rightarrow> ptr \<Rightarrow> ptr \<Rightarrow> ptr \<Rightarrow> ptr \<Rightarrow> nat \<Rightarrow> nat \<Rightarrow> (nat \<times> timer_manager) option" where
  "timer_manager_add_with_type tm obj node on_timer ctx duration type = do {
     (tid, tm) \<leftarrow> timer_manager_get_next_timer_id tm;
     timer_manager_add_with_type_and_id tm obj node tid on_timer ctx duration type False
   }"

definition timer_manager_add ::
  "timer_manager \<Rightarrow> ptr \<Rightarrow> ptr \<Rightarrow> ptr \<Rightarrow> ptr \<Rightarrow> nat \<Rightarrow> (nat \<times> timer_manager) option" where
  "timer_manager_add tm obj node on_timer ctx duration = timer_manager_add_with_type tm obj node on_timer ctx duration 0"

definition timer_manager_add_with_id ::
  "timer_manager \<Rightarrow> ptr \<Rightarrow> ptr \<Rightarrow> nat \<Rightarrow> ptr \<Rightarrow> ptr \<Rightarrow> nat \<Rightarrow> (nat \<times> timer_manager) option" where
  "timer_manager_add_with_id tm obj node tid on_timer ctx duration =
     timer_manager_add_with_type_and_id tm obj node tid on_timer ctx duration 0 True"

definition timer_manager_all_remove_by_ctx_and_type :: "timer_manager \<Rightarrow> nat \<Rightarrow> ptr \<Rightarrow> (ret_t \<times> timer_manager) option" where
  "timer_manager_all_remove_by_ctx_and_type tm type ctx =
     objs_remove_ex tm (\<lambda>t. timer_info_compare_by_ctx_and_type t (timer_info_init_dummy_with_ctx_and_type type ctx)) (- 1)"

definition timer_manager_all_remove_by_ctx :: "timer_manager \<Rightarrow> ptr \<Rightarrow> (ret_t \<times> timer_manager) option" where
  "timer_manager_all_remove_by_ctx tm ctx = objs_remove_ex tm (\<lambda>t. timer_info_compare_by_ctx t ctx) (- 1)"

definition timer_manager_remove :: "timer_manager \<Rightarrow> nat \<Rightarrow> (ret_t \<times> timer_manager) option" where
  "timer_manager_remove tm timer_id =
     (if timer_id = 0 then Some (RET_BAD_PARAMS, tm) else objs_remove_ex tm (timer_by_id timer_id) 1)"

definition timer_manager_reset :: "timer_manager \<Rightarrow> nat \<Rightarrow> (ret_t \<times> timer_manager) option" where
  "timer_manager_reset tm timer_id = do {
     info \<leftarrow> timer_manager_find tm timer_id;
     if info = NULL then Some (RET_NOT_FOUND, tm)
     else (case get_time tm of (now, tm) \<Rightarrow> do {
       tm \<leftarrow> set_obj info (ti_start_update (\<lambda>_. now)) tm;
       Some (RET_OK, tm)
     })
   }"

definition timer_info_on_timer :: "timer_func \<Rightarrow> ptr \<Rightarrow> nat \<Rightarrow> timer_manager \<Rightarrow> (ret_t \<times> timer_manager) option" where
  "timer_info_on_timer call timer now tm = do {
     t \<leftarrow> ol_objs tm timer;
     if ti_on_timer t = NULL then Some (RET_BAD_PARAMS, tm)
     else if ti_busy t then Some (RET_BUSY, tm)
     else do {
       tm \<leftarrow> set_obj timer (\<lambda>t. t\<lparr>ti_busy := True, ti_now := now\<rparr>) tm;
       (ret, tm) \<leftarrow> call (ti_on_timer t) timer (tm\<lparr>ol_fired := ol_fired tm @ [timer]\<rparr>);
       tm \<leftarrow> set_obj timer (ti_busy_update (\<lambda>_. False)) tm;
       Some (ret, tm)
     }
   }"

definition timer_info_is_available :: "timer_info \<Rightarrow> nat \<Rightarrow> bool" where
  "timer_info_is_available t now \<longleftrightarrow> \<not> ti_busy t \<and> ti_now t < now"

definition timer_manager_dispatch_one :: "timer_func \<Rightarrow> nat \<Rightarrow> timer_manager \<Rightarrow> (ret_t \<times> timer_manager) option" where
  "timer_manager_dispatch_one call now tm = do {
     timer \<leftarrow> first_obj tm (\<lambda>t. timer_info_is_available t now);
     if timer \<noteq> NULL then do {
       tm \<leftarrow> obj_ref timer tm;
       tm \<leftarrow> set_obj timer (ti_now_update (\<lambda>_. now)) tm;
       t \<leftarrow> ol_objs tm timer;
       tm \<leftarrow> (if \<not> ti_suspend t \<and> ti_duration t \<le> diff32 now (ti_start t) then do {
                (ret, tm) \<leftarrow> timer_info_on_timer call timer now tm;
                if ret \<noteq> RET_REPEAT then do {
                  t \<leftarrow> ol_objs tm timer;
                  (_, tm) \<leftarrow> timer_manager_remove tm (ti_id t);
                  Some tm
                } else set_obj timer (ti_start_update (\<lambda>_. now)) tm
              } else Some tm);
       tm \<leftarrow> obj_unref timer tm;
       Some (RET_OK, tm)
     } else Some (RET_DONE, tm)
   }"

definition timer_manager_dispatch :: "timer_func \<Rightarrow> timer_manager \<Rightarrow> (ret_t \<times> timer_manager) option" where
  "timer_manager_dispatch call tm =
     (case get_time tm of (now, tm) \<Rightarrow>
        (if sl_first (ol_list tm) = NULL then Some (RET_OK, tm\<lparr>tm_last_dispatch_time := now\<rparr>)
         else do {
           tm \<leftarrow> repeat_ok (timer_manager_dispatch_one call now) (tm\<lparr>tm_last_dispatch_time := now\<rparr>);
           Some (RET_OK, tm)
         }))"

definition timer_manager_count :: "timer_manager \<Rightarrow> int" where
  "timer_manager_count tm = slist_size (ol_list tm)"

partial_function (option) next_time_loop :: "timer_manager \<Rightarrow> ptr \<Rightarrow> nat \<Rightarrow> nat option" where
  "next_time_loop tm iter t =
     (if iter \<noteq> NULL then do {
        nd \<leftarrow> sl_nodes (ol_list tm) iter;
        timer \<leftarrow> ol_objs tm (nd_data nd);
        next_time_loop tm (nd_next nd)
          (if ti_duration timer < diff32 t (ti_start timer) then u64 (ti_start timer + ti_duration timer) else t)
      } else Some t)"

definition timer_manager_next_time :: "timer_manager \<Rightarrow> (nat \<times> timer_manager) option" where
  "timer_manager_next_time tm =
     (case get_time tm of (now, tm) \<Rightarrow> do {
        t \<leftarrow> next_time_loop tm (sl_first (ol_list tm)) (u64 (now + 65535));
        Some (t, tm)
      })"

definition timer_manager_deinit :: "timer_manager \<Rightarrow> (ret_t \<times> timer_manager) option" where
  "timer_manager_deinit tm = do { (r, tm) \<leftarrow> objs_clear slist_deinit tm; Some (RET_OK, tm) }"

text \<open>\<open>src/src/base/timer.c\<close>\<close>

definition timer_suspend :: "timer_manager \<Rightarrow> nat \<Rightarrow> (ret_t \<times> timer_manager) option" where
  "timer_suspend tm timer_id = do {
     timer \<leftarrow> timer_manager_find tm timer_id;
     if timer = NULL then Some (RET_BAD_PARAMS, tm)
     else do { tm \<leftarrow> set_obj timer (ti_suspend_update (\<lambda>_. True)) tm; Some (RET_OK, tm) }
   }"

definition timer_resume :: "timer_manager \<Rightarrow> nat \<Rightarrow> (ret_t \<times> timer_manager) option" where
  "timer_resume tm timer_id = do {
     timer \<leftarrow> timer_manager_find tm timer_id;
     if timer = NULL then Some (RET_BAD_PARAMS, tm)
     else do { tm \<leftarrow> set_obj timer (ti_suspend_update (\<lambda>_. False)) tm; timer_manager_reset tm timer_id }
   }"

definition timer_modify_ex :: "timer_manager \<Rightarrow> nat \<Rightarrow> nat \<Rightarrow> bool \<Rightarrow> (ret_t \<times> timer_manager) option" where
  "timer_modify_ex tm timer_id duration reset_timer = do {
     info \<leftarrow> timer_manager_find tm timer_id;
     if info = NULL then Some (RET_NOT_FOUND, tm)
     else do {
       tm \<leftarrow> set_obj info (ti_duration_update (\<lambda>_. duration)) tm;
       if reset_timer then
         (case get_time tm of (now, tm) \<Rightarrow> do {
            tm \<leftarrow> set_obj info (ti_start_update (\<lambda>_. now)) tm;
            Some (RET_OK, tm)
          })
       else Some (RET_OK, tm)
     }
   }"


section \<open>A consistent manager\<close>

abbreviation timers_ok :: "timer_manager \<Rightarrow> ptr list \<Rightarrow> bool" where
  "timers_ok tm ps \<equiv> objs_ok ti_id (ol_list tm) (ol_objs tm) ps"

lemma timer_by_id_eq: "timer_by_id tid = (\<lambda>t. cmp_id ti_id t tid)"
  by (simp add: fun_eq_iff timer_by_id_def timer_info_compare_by_id_def timer_info_init_dummy_def cmp_id_def)

lemma timers_ok_init: "timers_ok (timer_manager_init time) []"
  using objs_ok_init by (simp add: timer_manager_init_def)

text \<open>Searching by id.\<close>

lemma timer_manager_find_NULL:
  assumes ok: "timers_ok tm ps" and tid: "tid < 2 ^ 32"
  shows "\<exists>p. timer_manager_find tm tid = Some p \<and> (p \<noteq> NULL \<longleftrightarrow> tid \<in> id_of ti_id (ol_objs tm) ` set ps) \<and>
    (p \<noteq> NULL \<longrightarrow> p \<in> set ps \<and> id_of ti_id (ol_objs tm) p = tid)"
proof (cases "tid = 0")
  case True
  have "id_of ti_id (ol_objs tm) p \<noteq> 0" if "p \<in> set ps" for p
    using objs_okD(4)[OF ok that] by (auto simp: id_of_def)
  then show ?thesis using True by (force simp: timer_manager_find_def)
next
  case False
  then show ?thesis using find_by_id_spec[OF ok _ tid] by (simp add: timer_manager_find_def timer_by_id_eq)
qed

text \<open>A new id is valid and unused; the choice ends while an id is left.\<close>

lemma timer_manager_get_next_timer_id_spec:
  assumes ok: "timers_ok tm ps" and n: "tm_next_timer_id tm < 2 ^ 32" and few: "length ps < 2 ^ 32 - 2"
  shows "\<exists>tid next. timer_manager_get_next_timer_id tm = Some (tid, tm\<lparr>tm_next_timer_id := next\<rparr>) \<and>
    0 < tid \<and> tid < 2 ^ 32 \<and> tid \<notin> id_of ti_id (ol_objs tm) ` set ps \<and> next < 2 ^ 32"
proof -
  have "map_option (\<lambda>p. p \<noteq> NULL) (timer_manager_find tm i) = Some (i \<in> id_of ti_id (ol_objs tm) ` set ps)" if "i < 2 ^ 32" for i
    using timer_manager_find_NULL[OF ok that] by auto
  from next_id_spec[of "\<lambda>i. map_option (\<lambda>p. p \<noteq> NULL) (timer_manager_find tm i)", OF this n few] show ?thesis
    by (auto simp: timer_manager_get_next_timer_id_def)
qed

section \<open>Adding\<close>

lemma timer_manager_add_with_type_and_id_spec:
  assumes ok: "timers_ok tm ps" and tid: "0 < tid" "tid < 2 ^ 32"
    and fn: "on_timer \<noteq> NULL" and obj: "obj \<noteq> NULL" "ol_objs tm obj = None" and node: "slist_fresh (ol_list tm) node"
  shows "\<exists>r tm'. timer_manager_add_with_type_and_id tm obj node tid on_timer ctx duration type check = Some (r, tm') \<and>
    (if check \<and> tid \<in> id_of ti_id (ol_objs tm) ` set ps then r = 0 \<and> tm' = tm
     else r = tid \<and> (tid \<notin> id_of ti_id (ol_objs tm) ` set ps \<longrightarrow> timers_ok tm' (ps @ [obj])) \<and>
       (\<exists>t. ol_objs tm' = (ol_objs tm)(obj \<mapsto> t) \<and> ti_id t = tid \<and> ti_on_timer t = on_timer \<and> ti_ctx t = ctx \<and>
          ti_duration t = duration \<and> ti_type t = type \<and> ob_ref t = 1 \<and> \<not> ti_suspend t \<and> \<not> ti_busy t) \<and>
       ol_fired tm' = ol_fired tm \<and> ol_finalized tm' = ol_finalized tm)"
proof -
  let ?U = "id_of ti_id (ol_objs tm) ` set ps"
  obtain p where p: "timer_manager_find tm tid = Some p" "p \<noteq> NULL \<longleftrightarrow> tid \<in> ?U"
    using timer_manager_find_NULL[OF ok tid(2)] by blast
  show ?thesis
  proof (cases "check \<and> tid \<in> ?U")
    case True
    then show ?thesis using p tid fn by (simp add: timer_manager_add_with_type_and_id_def)
  next
    case False
    obtain now tm1 where now: "(now, tm1) = (if duration \<noteq> 0 then (case get_time tm of (t, tm) \<Rightarrow> (u32 t, tm)) else (0, tm))"
      by (metis surj_pair)
    have tm1: "ol_list tm1 = ol_list tm" "ol_objs tm1 = ol_objs tm" "ol_fired tm1 = ol_fired tm" "ol_finalized tm1 = ol_finalized tm"
      using now by (auto simp: get_time_def split: if_splits)
    obtain s where s: "slist_append (ol_list tm) node obj = Some (RET_OK, s)" "slist_rep s (ps @ [obj])"
      using slist_append_spec[OF objs_okD(1)[OF ok] node] by blast
    let ?t = "\<lparr>ob_ref = 1, ti_on_timer = on_timer, ti_ctx = ctx, ti_id = tid, ti_now = now, ti_start = fst (get_time tm1),
       ti_duration = duration, ti_suspend = False, ti_busy = False, ti_type = type\<rparr>"
    let ?tm = "tm1\<lparr>tm_calls := tm_calls tm1 + 1, ol_objs := (ol_objs tm)(obj \<mapsto> ?t), ol_list := s\<rparr>"
    have cr: "timer_info_create tm1 obj node tid on_timer ctx duration type now = Some (obj, ?tm)"
      using obj(1) tid s(1) tm1 by (simp add: timer_info_create_def timer_manager_append_def get_time_def)
    have "timer_manager_add_with_type_and_id tm obj node tid on_timer ctx duration type check = Some (tid, ?tm)"
      using p False tid fn obj(1) cr now[symmetric] unfolding timer_manager_add_with_type_and_id_def
      by (cases check) simp_all
    moreover have "objs_ok ti_id s ((ol_objs tm)(obj \<mapsto> ?t)) (ps @ [obj])" if "tid \<notin> ?U"
      using objs_ok_append[OF ok s(2) obj, of ?t] tid that by simp
    ultimately show ?thesis using False tm1 by (intro exI[of _ tid] exI[of _ ?tm]) auto
  qed
qed

lemma timer_manager_add_spec:
  assumes ok: "timers_ok tm ps" and n: "tm_next_timer_id tm < 2 ^ 32" and few: "length ps < 2 ^ 32 - 2"
    and fn: "on_timer \<noteq> NULL" and obj: "obj \<noteq> NULL" "ol_objs tm obj = None" and node: "slist_fresh (ol_list tm) node"
  shows "\<exists>tid tm'. timer_manager_add tm obj node on_timer ctx duration = Some (tid, tm') \<and>
    0 < tid \<and> tid \<notin> id_of ti_id (ol_objs tm) ` set ps \<and>
    timers_ok tm' (ps @ [obj]) \<and> id_of ti_id (ol_objs tm') obj = tid \<and>
    timer_manager_find tm' tid = Some obj"
proof -
  obtain tid nxt where g: "timer_manager_get_next_timer_id tm = Some (tid, tm\<lparr>tm_next_timer_id := nxt\<rparr>)"
    "0 < tid" "tid < 2 ^ 32" "tid \<notin> id_of ti_id (ol_objs tm) ` set ps"
    using timer_manager_get_next_timer_id_spec[OF ok n few] by blast
  let ?tm = "tm\<lparr>tm_next_timer_id := nxt\<rparr>"
  obtain r tm' where a: "timer_manager_add_with_type_and_id ?tm obj node tid on_timer ctx duration 0 False = Some (r, tm')"
    "r = tid" "timers_ok tm' (ps @ [obj])" "id_of ti_id (ol_objs tm') obj = tid"
    using timer_manager_add_with_type_and_id_spec[of ?tm ps tid on_timer obj node ctx duration 0 False] ok g fn obj node
    by (auto simp: id_of_def)
  obtain q where q: "timer_manager_find tm' tid = Some q" "q \<noteq> NULL \<longleftrightarrow> tid \<in> id_of ti_id (ol_objs tm') ` set (ps @ [obj])"
    "q \<noteq> NULL \<longrightarrow> q \<in> set (ps @ [obj]) \<and> id_of ti_id (ol_objs tm') q = tid"
    using timer_manager_find_NULL[OF a(3) g(3)] by blast
  have "q \<in> set (ps @ [obj])" "id_of ti_id (ol_objs tm') q = tid" using q a(4) by auto
  moreover have "inj_on (id_of ti_id (ol_objs tm')) (set (ps @ [obj]))" using objs_okD(2)[OF a(3)] by (simp only: distinct_map)
  ultimately have "q = obj" using a(4) by (auto dest: inj_onD)
  then show ?thesis using g a q(1) by (auto simp: timer_manager_add_def timer_manager_add_with_type_def)
qed


section \<open>Removing\<close>

lemma timer_manager_remove_spec:
  assumes ok: "timers_ok tm ps" and p: "p \<in> set ps" "ol_objs tm p = Some t"
  shows "\<exists>s. timer_manager_remove tm (ti_id t) = Some (RET_OK,
      tm\<lparr>ol_list := s, ol_objs := objs_drop (ol_objs tm) [p],
         ol_finalized := ol_finalized tm @ filter (last_ref (ol_objs tm)) [p]\<rparr>) \<and>
    objs_ok ti_id s (objs_drop (ol_objs tm) [p]) (filter (\<lambda>q. q \<noteq> p) ps)"
  using remove_by_id_spec[OF ok p] objs_okD(4)[OF ok p(1)] p(2)
  by (auto simp: timer_manager_remove_def timer_by_id_eq)

text \<open>Removing all timers of an owner. Addresses are compared through the \<open>int\<close> of their distance.\<close>

lemma timer_manager_all_remove_by_ctx_spec:
  fixes ctx :: ptr
  assumes ok: "timers_ok tm ps"
  defines "mine \<equiv> at_obj (ol_objs tm) (\<lambda>t. ti_ctx t mod 2 ^ 32 = ctx mod 2 ^ 32)"
  shows "\<exists>s. timer_manager_all_remove_by_ctx tm ctx = Some (if filter mine ps = [] then RET_NOT_FOUND else RET_OK,
      tm\<lparr>ol_list := s, ol_objs := objs_drop (ol_objs tm) (filter mine ps),
         ol_finalized := ol_finalized tm @ filter (last_ref (ol_objs tm)) (filter mine ps)\<rparr>) \<and>
    objs_ok ti_id s (objs_drop (ol_objs tm) (filter mine ps)) (filter (\<lambda>p. \<not> mine p) ps)"
  unfolding mine_def timer_manager_all_remove_by_ctx_def
  by (rule remove_all_by_spec[OF ok]) (simp only: timer_info_compare_by_ctx_def s32_diff_0_mod)

section \<open>Dispatching\<close>

text \<open>
  What a cycle at time \<open>now\<close> does with a timer, for callbacks that leave the manager alone and
  answer \<open>res\<close>: whether the callback runs, whether the timer stays, and the object after it.
\<close>

definition timer_due :: "nat \<Rightarrow> timer_info \<Rightarrow> bool" where
  "timer_due now t \<longleftrightarrow> \<not> ti_suspend t \<and> ti_duration t \<le> diff32 now (ti_start t)"

definition timer_fires :: "nat \<Rightarrow> ptr \<Rightarrow> timer_info \<Rightarrow> bool" where
  "timer_fires now p t \<longleftrightarrow> timer_due now t \<and> ti_on_timer t \<noteq> NULL"

definition timer_stays :: "(ptr \<Rightarrow> ptr \<Rightarrow> ret_t) \<Rightarrow> nat \<Rightarrow> ptr \<Rightarrow> timer_info \<Rightarrow> bool" where
  "timer_stays res now p t \<longleftrightarrow> \<not> timer_due now t \<or> timer_fires now p t \<and> res (ti_on_timer t) p = RET_REPEAT"

definition timer_after :: "(ptr \<Rightarrow> ptr \<Rightarrow> ret_t) \<Rightarrow> nat \<Rightarrow> ptr \<Rightarrow> timer_info \<Rightarrow> timer_info option" where
  "timer_after res now p t =
     (let t' = t\<lparr>ti_now := now\<rparr>
      in if timer_stays res now p t then Some (if timer_due now t then t'\<lparr>ti_start := now\<rparr> else t') else drop_ref t')"

abbreviation quiet :: "(ptr \<Rightarrow> ptr \<Rightarrow> ret_t) \<Rightarrow> timer_func" where
  "quiet res \<equiv> \<lambda>f p tm. Some (res f p, tm)"

lemma timer_step_spec:
  assumes ok: "timers_ok tm ps" and first: "find (at_obj (ol_objs tm) (\<lambda>t. timer_info_is_available t now)) ps = Some p"
    and pt: "ol_objs tm p = Some t"
  shows "\<exists>s fin. timer_manager_dispatch_one (quiet res) now tm = Some (RET_OK,
      tm\<lparr>ol_list := s, ol_objs := (ol_objs tm)(p := timer_after res now p t),
         ol_fired := ol_fired tm @ (if timer_fires now p t then [p] else []), ol_finalized := fin\<rparr>) \<and>
    objs_ok ti_id s ((ol_objs tm)(p := timer_after res now p t)) (filter (\<lambda>q. q \<noteq> p \<or> timer_stays res now p t) ps)"
proof -
  have p: "p \<in> set ps" and busy: "\<not> ti_busy t"
    using first pt by (auto simp: find_Some_iff at_obj_def timer_info_is_available_def)
  then have ref: "p \<noteq> NULL" "0 < ob_ref t" using objs_okD(4)[OF ok p] pt by auto
  have fo: "first_obj tm (\<lambda>t. timer_info_is_available t now) = Some p" using first_obj_spec[OF ok] first by simp
  define t1 where "t1 = t\<lparr>ob_ref := ob_ref t + 1, ti_now := now\<rparr>"
  have t1: "ti_suspend t1 = ti_suspend t" "ti_duration t1 = ti_duration t" "ti_start t1 = ti_start t" "ti_on_timer t1 = ti_on_timer t"
    "ti_id t1 = ti_id t" "ob_ref t1 = ob_ref t + 1" "\<not> ti_busy t1" "ti_now t1 = now"
    using busy by (simp_all add: t1_def)
  have idle: "t1\<lparr>ti_now := now, ti_busy := False\<rparr> = t1" using t1(7,8) by (cases t1) simp
  let ?o1 = "(ol_objs tm)(p \<mapsto> t1)" and ?o = "(ol_objs tm)(p := timer_after res now p t)"
  have ok1: "objs_ok ti_id (ol_list tm) ?o1 ps" by (rule objs_ok_upd[OF ok pt]) (simp_all add: t1)
  let ?fired = "ol_fired tm @ (if timer_fires now p t then [p] else [])"
  define tm1 where "tm1 = tm\<lparr>ol_objs := ?o1, ol_fired := ?fired\<rparr>"
  have call: "timer_info_on_timer (quiet res) p now (tm\<lparr>ol_objs := ?o1\<rparr>) =
      Some (if ti_on_timer t = NULL then RET_BAD_PARAMS else res (ti_on_timer t) p, tm1)" if "timer_due now t"
    using that t1 by (simp add: timer_info_on_timer_def set_obj_def tm1_def timer_fires_def idle)
  have unref: "obj_unref p tm2 = Some (tm2\<lparr>ol_objs := objs_drop (ol_objs tm2) [p],
     ol_finalized := ol_finalized tm2 @ filter (last_ref (ol_objs tm2)) [p]\<rparr>)"
    if "ol_objs tm2 p = Some t2" "0 < ob_ref t2" for tm2 :: timer_manager and t2
    using obj_unref_eq that by blast
  have dispatch: "timer_manager_dispatch_one (quiet res) now tm = do {
       tm \<leftarrow> (if timer_due now t then do {
                (ret, tm) \<leftarrow> timer_info_on_timer (quiet res) p now (tm\<lparr>ol_objs := ?o1\<rparr>);
                if ret \<noteq> RET_REPEAT then do {
                  t \<leftarrow> ol_objs tm p;
                  (_, tm) \<leftarrow> timer_manager_remove tm (ti_id t);
                  Some tm
                } else set_obj p (ti_start_update (\<lambda>_. now)) tm
              } else Some (tm\<lparr>ol_objs := ?o1\<rparr>));
       tm \<leftarrow> obj_unref p tm;
       Some (RET_OK, tm) }"
    using fo ref(1) pt
    by (simp add: timer_manager_dispatch_one_def obj_ref_def set_obj_def t1_def timer_due_def Let_def case_prod_beta
        cong: if_cong)
  show ?thesis
  proof (cases "timer_stays res now p t")
    case True
    define t2 where "t2 = (if timer_due now t then t1\<lparr>ti_start := now\<rparr> else t1)"
    let ?tm2 = "tm\<lparr>ol_objs := (ol_objs tm)(p \<mapsto> t2), ol_fired := ?fired\<rparr>"
    have t2: "ob_ref t2 = ob_ref t + 1" "t2\<lparr>ob_ref := ob_ref t\<rparr> = (if timer_due now t then t\<lparr>ti_now := now, ti_start := now\<rparr> else t\<lparr>ti_now := now\<rparr>)"
      by (auto simp: t2_def t1_def)
    have "timer_manager_dispatch_one (quiet res) now tm = do { tm \<leftarrow> obj_unref p ?tm2; Some (RET_OK, tm) }"
    proof (cases "timer_due now t")
      case due: True
      have "set_obj p (ti_start_update (\<lambda>_. now)) tm1 = Some ?tm2" using due by (simp add: set_obj_def tm1_def t2_def)
      then show ?thesis unfolding dispatch using True call due by (simp add: timer_stays_def timer_fires_def)
    next
      case False
      have "tm\<lparr>ol_objs := ?o1\<rparr> = ?tm2" using False by (simp add: t2_def timer_fires_def)
      then show ?thesis unfolding dispatch using False by simp
    qed
    also have "\<dots> = Some (RET_OK, tm\<lparr>ol_objs := ?o, ol_fired := ?fired\<rparr>)"
      using unref[of ?tm2 t2] t2 True ref
      by (auto simp: objs_drop_def drop_ref_def last_ref_def timer_after_def fun_eq_iff Let_def)
    finally have d: "timer_manager_dispatch_one (quiet res) now tm = Some (RET_OK, tm\<lparr>ol_objs := ?o, ol_fired := ?fired\<rparr>)" .
    have "objs_ok ti_id (ol_list tm) ?o ps"
      using True objs_ok_upd[OF ok pt] ref by (simp add: timer_after_def Let_def)
    then show ?thesis using True d
      by (intro exI[of _ "ol_list tm"] exI[of _ "ol_finalized tm"]) simp
  next
    case False
    then have due: "timer_due now t" by (simp add: timer_stays_def)
    obtain s where rm: "timer_manager_remove tm1 (ti_id t1) = Some (RET_OK,
        tm1\<lparr>ol_list := s, ol_objs := objs_drop ?o1 [p], ol_finalized := ol_finalized tm1 @ filter (last_ref ?o1) [p]\<rparr>)"
      "objs_ok ti_id s (objs_drop ?o1 [p]) (filter (\<lambda>q. q \<noteq> p) ps)"
      using timer_manager_remove_spec[of tm1 ps p t1] ok1 p by (auto simp: tm1_def)
    let ?tm2 = "tm\<lparr>ol_list := s, ol_objs := (ol_objs tm)(p \<mapsto> t\<lparr>ti_now := now\<rparr>), ol_fired := ?fired\<rparr>"
    have od: "objs_drop ?o1 [p] = (ol_objs tm)(p \<mapsto> t\<lparr>ti_now := now\<rparr>)"
      using ref by (auto simp: objs_drop_def drop_ref_def t1_def)
    have "timer_manager_dispatch_one (quiet res) now tm = do { tm \<leftarrow> obj_unref p ?tm2; Some (RET_OK, tm) }"
    proof -
      have "filter (last_ref ?o1) [p] = []" using t1(6) ref by (simp add: last_ref_def)
      then have "tm1\<lparr>ol_list := s, ol_objs := objs_drop ?o1 [p], ol_finalized := ol_finalized tm1 @ filter (last_ref ?o1) [p]\<rparr> = ?tm2"
        unfolding od by (simp add: tm1_def)
      then have rm2: "timer_manager_remove tm1 (ti_id t1) = Some (RET_OK, ?tm2)" using rm(1) by simp
      have "ol_objs tm1 p = Some t1" by (simp add: tm1_def)
      then show ?thesis unfolding dispatch using False due call rm2 by (auto simp: timer_stays_def timer_fires_def)
    qed
    moreover have o: "objs_drop (ol_objs ?tm2) [p] = ?o"
      using False by (auto simp: objs_drop_def timer_after_def Let_def)
    ultimately have d: "timer_manager_dispatch_one (quiet res) now tm =
        Some (RET_OK, ?tm2\<lparr>ol_objs := ?o, ol_finalized := ol_finalized tm @ filter (last_ref (ol_objs ?tm2)) [p]\<rparr>)"
      using unref[of ?tm2 "t\<lparr>ti_now := now\<rparr>"] ref by simp
    have "objs_ok ti_id s ?o (filter (\<lambda>q. q \<noteq> p) ps)"
      by (rule objs_ok_cong[OF rm(2)]) (auto simp: objs_drop_def)
    moreover have "filter (\<lambda>q. q \<noteq> p \<or> timer_stays res now p t) ps = filter (\<lambda>q. q \<noteq> p) ps" using False by simp
    ultimately show ?thesis using d
      by (intro exI[of _ s] exI[of _ "ol_finalized tm @ filter (last_ref (ol_objs ?tm2)) [p]"]) simp
  qed
qed

interpretation timer_sweep: sweep ti_id "\<lambda>tm :: timer_manager. timer_manager_dispatch_one (quiet res) now tm"
  "\<lambda>t. timer_info_is_available t now" "timer_fires now" "timer_stays res now" "timer_after res now"
  for res now
proof
  fix tm :: timer_manager and ps
  assume "timers_ok tm ps" "find (at_obj (ol_objs tm) (\<lambda>t. timer_info_is_available t now)) ps = None"
  then show "timer_manager_dispatch_one (quiet res) now tm = Some (RET_DONE, tm)"
    by (simp add: timer_manager_dispatch_one_def first_obj_spec)
next
  fix p t assume "timer_stays res now p t"
  then show "\<exists>t'. timer_after res now p t = Some t' \<and> \<not> timer_info_is_available t' now"
    by (simp add: timer_after_def timer_info_is_available_def Let_def)
qed (rule timer_step_spec)

text \<open>
  A dispatch cycle visits every idle timer exactly once: the callbacks of the due timers run once
  each, in the order of the list, the finished timers leave and the others stay.
\<close>

lemma timer_manager_dispatch_spec:
  assumes ok: "timers_ok tm ps"
    and idle: "\<And>p t. p \<in> set ps \<Longrightarrow> ol_objs tm p = Some t \<Longrightarrow> \<not> ti_busy t \<and> ti_now t < tm_time tm (tm_calls tm)"
  defines "now \<equiv> tm_time tm (tm_calls tm)"
  shows "\<exists>tm'. timer_manager_dispatch (quiet res) tm = Some (RET_OK, tm') \<and>
    ol_fired tm' = ol_fired tm @ filter (hit (ol_objs tm) (timer_fires now)) ps \<and>
    ol_objs tm' = objs_after (timer_after res now) (ol_objs tm) ps \<and>
    timers_ok tm' (filter (hit (ol_objs tm) (timer_stays res now)) ps) \<and>
    tm_last_dispatch_time tm' = now"
proof -
  let ?tm = "tm\<lparr>tm_calls := tm_calls tm + 1, tm_last_dispatch_time := now\<rparr>"
  have empty: "sl_first (ol_list tm) = NULL \<longleftrightarrow> ps = []"
    using objs_okD(1)[OF ok] shape_first_last(1) by (auto simp: slist_rep_def)
  show ?thesis
  proof (cases "ps = []")
    case True
    then show ?thesis using empty ok by (simp add: timer_manager_dispatch_def get_time_def now_def)
  next
    case False
    have ok1: "timers_ok ?tm ps" using ok by simp
    have av: "timer_info_is_available t now" if "p \<in> set ps" "ol_objs ?tm p = Some t" for p t
      using idle[OF that(1)] that(2) by (auto simp: timer_info_is_available_def now_def)
    obtain s fin where "repeat_ok (timer_manager_dispatch_one (quiet res) now) ?tm = Some (?tm\<lparr>ol_list := s,
       ol_objs := objs_after (timer_after res now) (ol_objs ?tm) ps,
       ol_fired := ol_fired ?tm @ filter (hit (ol_objs ?tm) (timer_fires now)) ps, ol_finalized := fin\<rparr>)"
     "objs_ok ti_id s (objs_after (timer_after res now) (ol_objs ?tm) ps) (filter (hit (ol_objs ?tm) (timer_stays res now)) ps)"
      using timer_sweep.sweep_all[where now = now and res = res, OF ok1] av by auto
    then show ?thesis using False empty by (simp add: timer_manager_dispatch_def get_time_def now_def)
  qed
qed

section \<open>The next wake-up\<close>

definition next_step :: "(ptr \<Rightarrow> timer_info option) \<Rightarrow> ptr \<Rightarrow> nat \<Rightarrow> nat" where
  "next_step objs p t =
     (case objs p of Some ti \<Rightarrow> if ti_duration ti < diff32 t (ti_start ti) then u64 (ti_start ti + ti_duration ti) else t | None \<Rightarrow> t)"

lemma next_time_loop_spec:
  "seg (sl_nodes (ol_list tm)) ns NULL \<Longrightarrow> (\<And>p. p \<in> snd ` set ns \<Longrightarrow> ol_objs tm p \<noteq> None) \<Longrightarrow>
   next_time_loop tm (addr_of ns NULL) t = Some (fold (next_step (ol_objs tm)) (map snd ns) t)"
proof (induction ns arbitrary: t)
  case Nil
  then show ?case by (simp add: next_time_loop.simps)
next
  case (Cons x ns)
  obtain a p where x: "x = (a, p)" by (cases x)
  obtain ti where "ol_objs tm p = Some ti" using Cons.prems(2)[of p] x by auto
  then show ?case using Cons x by (auto simp: next_time_loop.simps[of tm a] next_step_def)
qed

lemma timer_manager_next_time_eq:
  assumes ok: "timers_ok tm ps"
  shows "timer_manager_next_time tm = Some (fold (next_step (ol_objs tm)) ps (u64 (tm_time tm (tm_calls tm) + 65535)),
    tm\<lparr>tm_calls := tm_calls tm + 1\<rparr>)"
proof -
  obtain ns where ns: "shape (ol_list tm) ns {}" "ps = map snd ns" using objs_okD(1)[OF ok] by (auto simp: slist_rep_def)
  let ?tm = "tm\<lparr>tm_calls := tm_calls tm + 1\<rparr>"
  have "ol_objs ?tm p \<noteq> None" if "p \<in> snd ` set ns" for p
  proof -
    have "p \<in> set ps" using that ns(2) by auto
    then show ?thesis using objs_okD(4)[OF ok] by fastforce
  qed
  from next_time_loop_spec[of ?tm ns, OF _ this] shapeD(2,5)[OF ns(1)] ns(2) show ?thesis
    by (simp add: timer_manager_next_time_def get_time_def)
qed

text \<open>
  The result is the earliest due time when no timer was started after another one fell due; the
  example below shows that it need not be otherwise.
\<close>

lemma diff32_less: "b \<le> a \<Longrightarrow> a < 2 ^ 64 \<Longrightarrow> a - b < 2 ^ 32 \<Longrightarrow> diff32 a b = a - b"
proof -
  assume a: "b \<le> a" "a < 2 ^ 64" "a - b < 2 ^ 32"
  have e: "a + (2 ^ 64 - b) = (a - b) + 2 ^ 64" using a by simp
  have "(a - b) mod 2 ^ 64 = a - b" using a by (intro mod_less) linarith
  then have "u64 (a + (2 ^ 64 - b)) = a - b" unfolding u64_def e mod_add_self2 .
  then show ?thesis using a by (simp add: diff32_def)
qed

definition due_at :: "(ptr \<Rightarrow> timer_info option) \<Rightarrow> ptr \<Rightarrow> nat" where
  "due_at objs p = (case objs p of Some ti \<Rightarrow> ti_start ti + ti_duration ti | None \<Rightarrow> 0)"

lemma next_steps_min:
  "(\<And>p. p \<in> set ps \<Longrightarrow> \<exists>ti. objs p = Some ti \<and> lo \<le> ti_start ti \<and> ti_start ti \<le> hi \<and> hi \<le> ti_start ti + ti_duration ti) \<Longrightarrow>
   hi \<le> t \<Longrightarrow> t < 2 ^ 64 \<Longrightarrow> t - lo < 2 ^ 32 \<Longrightarrow>
   fold (next_step objs) ps t = Min (insert t (due_at objs ` set ps))"
proof (induction ps arbitrary: t)
  case (Cons p ps)
  obtain ti where ti: "objs p = Some ti" "lo \<le> ti_start ti" "ti_start ti \<le> hi" "hi \<le> ti_start ti + ti_duration ti"
    using Cons.prems(1)[of p] by auto
  have "diff32 t (ti_start ti) = t - ti_start ti" using ti Cons.prems(2-4) by (intro diff32_less) auto
  then have step: "next_step objs p t = min t (due_at objs p)"
    using ti Cons.prems(3) by (auto simp: next_step_def due_at_def u64_def)
  have "fold (next_step objs) ps (min t (due_at objs p)) = Min (insert (min t (due_at objs p)) (due_at objs ` set ps))"
    using Cons.prems ti by (intro Cons.IH) (auto simp: due_at_def)
  also have "\<dots> = Min (insert t (due_at objs ` set (p # ps)))"
    by (cases "ps = []") (auto simp: min.assoc min.left_commute)
  finally show ?case using step by simp
qed simp

lemma timer_manager_next_time_spec:
  assumes ok: "timers_ok tm ps"
    and now: "now = tm_time tm (tm_calls tm)" "now + 65535 < 2 ^ 64"
    and started: "\<And>p t. p \<in> set ps \<Longrightarrow> ol_objs tm p = Some t \<Longrightarrow>
      now < ti_start t + (2 ^ 32 - 65535) \<and> ti_start t \<le> hi \<and> hi \<le> ti_start t + ti_duration t"
    and hi: "hi \<le> now"
  shows "\<exists>tm'. timer_manager_next_time tm = Some (Min (insert (now + 65535) (due_at (ol_objs tm) ` set ps)), tm')"
proof -
  define lo where "lo = (if ps = [] then now else Min ((\<lambda>p. ti_start (the (ol_objs tm p))) ` set ps))"
  have lo: "lo \<le> ti_start t" if "p \<in> set ps" "ol_objs tm p = Some t" for p t
    using that by (auto simp: lo_def intro!: Min.coboundedI image_eqI[of _ _ p])
  have "now + 65535 - lo < 2 ^ 32"
  proof (cases "ps = []")
    case False
    then have "lo \<in> (\<lambda>p. ti_start (the (ol_objs tm p))) ` set ps" by (simp add: lo_def)
    then obtain p where p: "p \<in> set ps" "lo = ti_start (the (ol_objs tm p))" by auto
    then show ?thesis using started[OF p(1)] objs_okD(4)[OF ok p(1)] by fastforce
  qed (simp add: lo_def)
  moreover have "\<exists>ti. ol_objs tm p = Some ti \<and> lo \<le> ti_start ti \<and> ti_start ti \<le> hi \<and> hi \<le> ti_start ti + ti_duration ti"
    if "p \<in> set ps" for p
    using objs_okD(4)[OF ok that] started[OF that] lo[OF that] by blast
  ultimately have "fold (next_step (ol_objs tm)) ps (now + 65535) = Min (insert (now + 65535) (due_at (ol_objs tm) ` set ps))"
    using hi now(2) by (intro next_steps_min) auto
  moreover have "u64 (now + 65535) = now + 65535" using now(2) by (simp add: u64_def)
  ultimately show ?thesis using timer_manager_next_time_eq[OF ok] now(1) by simp
qed


text \<open>
  The stamp that shall keep a timer, added by a callback, out of the running cycle is cut to 32
  bits. Once the clock has passed \<open>2^32\<close> the new timer counts as not yet visited; if the clock
  moved on since the cycle began, the unsigned difference makes it due at once.
\<close>

lemma timer_added_in_callback_fires:
  assumes fn: "on_timer \<noteq> NULL" and tid: "tid \<noteq> 0" and obj: "obj \<noteq> NULL" and rep: "slist_rep (ol_list tm) ps" "slist_fresh (ol_list tm) node"
    and d: "duration \<noteq> 0" "duration \<le> 2 ^ 32 - 1000"
    and now: "2 ^ 32 \<le> now" "now < tm_time tm (tm_calls tm + 1)" "tm_time tm (tm_calls tm + 1) \<le> now + 1000" "now < 2 ^ 63"
  shows "\<exists>tm' t. timer_manager_add_with_type_and_id tm obj node tid on_timer ctx duration type False = Some (tid, tm') \<and>
    ol_objs tm' obj = Some t \<and> timer_info_is_available t now \<and> timer_due now t"
proof -
  let ?start = "tm_time tm (tm_calls tm + 1)"
  obtain s where s: "slist_append (ol_list tm) node obj = Some (RET_OK, s)"
    using slist_append_spec[OF rep] by blast
  let ?t = "\<lparr>ob_ref = 1, ti_on_timer = on_timer, ti_ctx = ctx, ti_id = tid, ti_now = u32 (tm_time tm (tm_calls tm)), ti_start = ?start,
       ti_duration = duration, ti_suspend = False, ti_busy = False, ti_type = type\<rparr>"
  have "timer_manager_add_with_type_and_id tm obj node tid on_timer ctx duration type False = Some (tid,
      tm\<lparr>tm_calls := tm_calls tm + 2, ol_objs := (ol_objs tm)(obj \<mapsto> ?t), ol_list := s\<rparr>)"
    using fn tid obj d(1) s
    by (simp add: timer_manager_add_with_type_and_id_def timer_info_create_def timer_manager_append_def get_time_def)
  moreover have "timer_info_is_available ?t now"
    using now(1) u32_less[of "tm_time tm (tm_calls tm)"] by (simp add: timer_info_is_available_def)
  moreover have "timer_due now ?t"
  proof -
    define k where "k = ?start - now"
    have k: "0 < k" "k \<le> 1000" "?start = now + k" using now by (auto simp: k_def)
    have "now + (2 ^ 64 - (now + k)) = 2 ^ 64 - k" using now(4) k by simp
    then have "diff32 now ?start = u32 (2 ^ 64 - k)" using k by (simp add: diff32_def u64_def)
    also have "\<dots> = 2 ^ 32 - k"
    proof -
      have e: "2 ^ 64 - k = (2 ^ 32 - k) + (2 ^ 32 - 1) * 2 ^ 32" using k by simp
      show ?thesis unfolding u32_def e mod_mult_self1 using k by simp
    qed
    finally show ?thesis using d(2) k by (simp add: timer_due_def)
  qed
  ultimately show ?thesis by (intro exI[of _ "tm\<lparr>tm_calls := tm_calls tm + 2, ol_objs := (ol_objs tm)(obj \<mapsto> ?t), ol_list := s\<rparr>"] exI[of _ ?t]) simp
qed

section \<open>Properties\<close>

text \<open>
  C17. A timer that is added gets an id that is valid and not in use, however often the id counter
  has wrapped around, and is found under this id afterwards; the search for the id ends.
\<close>

theorem timer_add_fresh_id:
  assumes "timers_ok tm ps" and "tm_next_timer_id tm < 2 ^ 32" and "length ps < 2 ^ 32 - 2"
    and "on_timer \<noteq> NULL" and "obj \<noteq> NULL" "ol_objs tm obj = None" and "slist_fresh (ol_list tm) node"
  shows "\<exists>tid tm'. timer_manager_add tm obj node on_timer ctx duration = Some (tid, tm') \<and>
    0 < tid \<and> tid \<notin> id_of ti_id (ol_objs tm) ` set ps \<and>
    timers_ok tm' (ps @ [obj]) \<and> timer_manager_find tm' tid = Some obj"
  using timer_manager_add_spec[OF assms] by blast

theorem timer_add_fresh_id_witness:
  "\<exists>tid tm'. timer_manager_add (timer_manager_init (\<lambda>n. n)) 500 600 7 8 10 = Some (tid, tm') \<and>
    0 < tid \<and> timers_ok tm' [500] \<and> timer_manager_find tm' tid = Some 500"
proof -
  have "slist_fresh (slist_init None) 600" by (simp add: slist_fresh_def slist_init_def)
  then show ?thesis
    using timer_add_fresh_id[OF timers_ok_init[of "\<lambda>n. n"], of 7 500 600 8 10] by (simp add: timer_manager_init_def)
qed

text \<open>
  C4. A dispatch cycle ends and visits every timer of the list exactly once: the callbacks of the
  timers that are due and not suspended run once each, in the order of the list; a timer whose
  callback does not ask to be repeated leaves the list and loses a reference, every other one
  stays. This holds for callbacks that leave the manager alone, when no timer is busy or was
  visited at this time before.
\<close>

theorem timer_dispatch_once:
  assumes "timers_ok tm ps"
    and "\<forall>p \<in> set ps. \<forall>t. ol_objs tm p = Some t \<longrightarrow> \<not> ti_busy t \<and> ti_now t < tm_time tm (tm_calls tm)"
  defines "now \<equiv> tm_time tm (tm_calls tm)"
  shows "\<exists>tm'. timer_manager_dispatch (\<lambda>f p tm. Some (res f p, tm)) tm = Some (RET_OK, tm') \<and>
    ol_fired tm' = ol_fired tm @ filter (hit (ol_objs tm) (timer_fires now)) ps \<and>
    ol_objs tm' = objs_after (timer_after res now) (ol_objs tm) ps \<and>
    timers_ok tm' (filter (hit (ol_objs tm) (timer_stays res now)) ps)"
  using timer_manager_dispatch_spec[where res = res, OF assms(1)] assms(2) unfolding now_def by auto

theorem timer_dispatch_once_witness:
  "\<exists>tm tm'. ol_objs tm 500 = Some (timer_info_zero\<lparr>ob_ref := 1, ti_id := 3, ti_on_timer := 7, ti_duration := 10\<rparr>) \<and>
    timer_manager_dispatch (\<lambda>f p tm. Some (RET_REMOVE, tm)) tm = Some (RET_OK, tm') \<and>
    ol_fired tm' = [500] \<and> timers_ok tm' []"
proof -
  let ?t = "timer_info_zero\<lparr>ob_ref := 1, ti_id := 3, ti_on_timer := 7, ti_duration := 10\<rparr>"
  obtain s where s: "objs_ok ti_id s [500 \<mapsto> ?t] [500]" using objs_ok_single[of 500 ti_id ?t] by auto
  let ?tm = "(timer_manager_init (\<lambda>n. 20 * n))\<lparr>ol_list := s, ol_objs := [500 \<mapsto> ?t]\<rparr>"
  have now: "tm_time ?tm (tm_calls ?tm) = 20" by (simp add: timer_manager_init_def)
  have f: "timer_fires 20 500 ?t" "\<not> timer_stays (\<lambda>_ _. RET_REMOVE) 20 500 ?t"
    by (simp_all add: timer_fires_def timer_stays_def timer_due_def diff32_def u64_def u32_def timer_info_zero_def)
  have ok: "timers_ok ?tm [500]" using s by simp
  obtain tm' where tm': "timer_manager_dispatch (\<lambda>f p tm. Some (RET_REMOVE, tm)) ?tm = Some (RET_OK, tm')"
    "ol_fired tm' = ol_fired ?tm @ filter (hit (ol_objs ?tm) (timer_fires 20)) [500]"
    "timers_ok tm' (filter (hit (ol_objs ?tm) (timer_stays (\<lambda>_ _. RET_REMOVE) 20)) [500])"
    using timer_dispatch_once[where res = "\<lambda>_ _. RET_REMOVE", OF ok] unfolding now by (auto simp: timer_info_zero_def)
  have "ol_fired tm' = [500]" "timers_ok tm' []"
    using tm'(2,3) f by (simp_all add: hit_def at_obj_def timer_manager_init_def)
  then show ?thesis using tm'(1) by (intro exI[of _ ?tm] exI[of _ tm']) simp
qed

text \<open>
  Removing the timers of an owner removes exactly the timers whose owner has an address equal
  to the given one in its low 32 bits (the comparison function returns the distance of the
  addresses as an \<open>int\<close>), keeps the others in order and drops one reference of each removed
  timer.
\<close>

theorem timer_remove_by_owner:
  fixes ctx :: ptr
  assumes "timers_ok tm ps"
  defines "mine \<equiv> at_obj (ol_objs tm) (\<lambda>t. ti_ctx t mod 2 ^ 32 = ctx mod 2 ^ 32)"
  shows "\<exists>tm'. timer_manager_all_remove_by_ctx tm ctx =
      Some (if \<exists>p \<in> set ps. mine p then RET_OK else RET_NOT_FOUND, tm') \<and>
    timers_ok tm' (filter (\<lambda>p. \<not> mine p) ps) \<and>
    ol_objs tm' = objs_drop (ol_objs tm) (filter mine ps)"
  using timer_manager_all_remove_by_ctx_spec[OF assms(1), of ctx] unfolding mine_def
  by (auto simp: filter_empty_conv)

theorem timer_remove_by_owner_witness:
  "\<exists>tm tm'. ol_objs tm 500 = Some (timer_info_zero\<lparr>ob_ref := 1, ti_id := 3, ti_ctx := 8\<rparr>) \<and>
    timer_manager_all_remove_by_ctx tm (8 + 2 ^ 32) = Some (RET_OK, tm') \<and> timers_ok tm' []"
proof -
  let ?t = "timer_info_zero\<lparr>ob_ref := 1, ti_id := 3, ti_ctx := 8\<rparr>"
  obtain s where s: "objs_ok ti_id s [500 \<mapsto> ?t] [500]" using objs_ok_single[of 500 ti_id ?t] by auto
  let ?tm = "(timer_manager_init (\<lambda>n. 20 * n))\<lparr>ol_list := s, ol_objs := [500 \<mapsto> ?t]\<rparr>"
  have "timers_ok ?tm [500]" using s by simp
  then obtain tm' where "timer_manager_all_remove_by_ctx ?tm (8 + 2 ^ 32) = Some (RET_OK, tm')" "timers_ok tm' []"
    using timer_remove_by_owner[of ?tm "[500]" "8 + 2 ^ 32"] by (auto simp: at_obj_def)
  then show ?thesis by (intro exI[of _ ?tm] exI[of _ tm']) simp
qed

text \<open>
  The wake-up time is the earliest due time of all timers, or 65535 ms ahead when none is due
  before, provided no timer was started after another one had fallen due (and none was started
  longer ago than the 32-bit difference can tell).
\<close>

theorem timer_next_time_earliest:
  assumes "timers_ok tm ps"
    and "now = tm_time tm (tm_calls tm)" "now + 65535 < 2 ^ 64"
    and "\<forall>p \<in> set ps. \<forall>t. ol_objs tm p = Some t \<longrightarrow>
      now < ti_start t + (2 ^ 32 - 65535) \<and> ti_start t \<le> hi \<and> hi \<le> ti_start t + ti_duration t"
    and "hi \<le> now"
  shows "\<exists>tm'. timer_manager_next_time tm = Some (Min (insert (now + 65535) (due_at (ol_objs tm) ` set ps)), tm')"
  by (rule timer_manager_next_time_spec[OF assms(1-3) _ assms(5)]) (use assms(4) in blast)

theorem timer_next_time_earliest_witness:
  "\<exists>tm tm'. ol_objs tm 500 = Some (timer_info_zero\<lparr>ob_ref := 1, ti_id := 3, ti_duration := 30\<rparr>) \<and>
    tm_time tm (tm_calls tm) = 20 \<and> timer_manager_next_time tm = Some (30, tm')"
proof -
  let ?t = "timer_info_zero\<lparr>ob_ref := 1, ti_id := 3, ti_duration := 30\<rparr>"
  obtain s where s: "objs_ok ti_id s [500 \<mapsto> ?t] [500]" using objs_ok_single[of 500 ti_id ?t] by auto
  let ?tm = "(timer_manager_init (\<lambda>n. 20 * n))\<lparr>ol_list := s, ol_objs := [500 \<mapsto> ?t]\<rparr>"
  have "timers_ok ?tm [500]" using s by simp
  then obtain tm' where "timer_manager_next_time ?tm = Some (30, tm')"
    using timer_next_time_earliest[of ?tm "[500]" 20 10] by (auto simp: due_at_def timer_info_zero_def timer_manager_init_def)
  then show ?thesis by (intro exI[of _ ?tm] exI[of _ tm']) (simp add: timer_manager_init_def)
qed

text \<open>
  The wake-up time is not always the earliest: with a timer that was due at \<open>10\<close> and a
  second one that was started later, the loop goes back behind the start of the second one, the
  32-bit difference wraps, and the result is the due time of the second timer.
\<close>

theorem timer_next_time_misses_due_timer:
  assumes "timers_ok tm [p, q]" and "tm_time tm (tm_calls tm) = 1000"
    and "ol_objs tm p = Some t1" "ti_start t1 = 0" "ti_duration t1 = 10"
    and "ol_objs tm q = Some t2" "ti_start t2 = 500" "ti_duration t2 = 1000"
  shows "\<exists>tm'. timer_manager_next_time tm = Some (1500, tm') \<and> due_at (ol_objs tm) p = 10"
  using timer_manager_next_time_eq[OF assms(1)] assms(2-)
  by (simp add: next_step_def diff32_def u64_def u32_def due_at_def)

theorem timer_next_time_misses_due_timer_witness:
  "\<exists>tm tm' p. timer_manager_next_time tm = Some (1500, tm') \<and> due_at (ol_objs tm) p = 10"
proof -
  let ?t1 = "timer_info_zero\<lparr>ob_ref := 1, ti_id := 3, ti_duration := 10\<rparr>"
  let ?t2 = "timer_info_zero\<lparr>ob_ref := 1, ti_id := 4, ti_start := 500, ti_duration := 1000\<rparr>"
  let ?objs = "[500 \<mapsto> ?t1, 600 \<mapsto> ?t2]"
  have "\<exists>s. slist_rep s [500, 600]"
    using sli.run_refines[OF slist_init_rep[of None], of "[Op_append 1 500, Op_append 2 600]"]
    by (auto simp: slist_eval cong: bind_weak_cong)
  then obtain s where s: "slist_rep s [500, 600]" ..
  let ?tm = "(timer_manager_init (\<lambda>n. 1000))\<lparr>ol_list := s, ol_objs := ?objs\<rparr>"
  have "timers_ok ?tm [500, 600]" using s by (simp add: objs_ok_def id_of_def)
  then obtain tm' where tm': "timer_manager_next_time ?tm = Some (1500, tm')" "due_at (ol_objs ?tm) 500 = 10"
    using timer_next_time_misses_due_timer[of ?tm 500 600 ?t1 ?t2] by (auto simp: timer_manager_init_def timer_info_zero_def)
  then show ?thesis by (intro exI[of _ ?tm] exI[of _ tm'] exI[of _ 500]) simp
qed

text \<open>
  The guard that shall keep a timer, added by a callback, out of the running dispatch cycle
  fails once the clock (milliseconds in 64 bits) has passed \<open>2^32\<close>: the stamp of the new
  timer is cut to 32 bits, so the cycle at time \<open>now\<close> takes it for not yet visited, and when
  the clock moved on since the cycle began, the unsigned difference makes it due at once, whatever
  its duration.
\<close>

theorem timer_added_in_callback_fires_early:
  assumes "on_timer \<noteq> NULL" and "tid \<noteq> 0" and "obj \<noteq> NULL" and "slist_rep (ol_list tm) ps" "slist_fresh (ol_list tm) node"
    and "duration \<noteq> 0" "duration \<le> 2 ^ 32 - 1000"
    and "2 ^ 32 \<le> now" "now < tm_time tm (tm_calls tm + 1)" "tm_time tm (tm_calls tm + 1) \<le> now + 1000" "now < 2 ^ 63"
  shows "\<exists>tm' t. timer_manager_add_with_type_and_id tm obj node tid on_timer ctx duration type False = Some (tid, tm') \<and>
    ol_objs tm' obj = Some t \<and> timer_info_is_available t now \<and> timer_due now t"
  by (rule timer_added_in_callback_fires[OF assms])

theorem timer_added_in_callback_fires_early_witness:
  "\<exists>tm' t. timer_manager_add_with_type_and_id (timer_manager_init (\<lambda>n. 2 ^ 32 + n)) 500 600 3 7 8 60000 0 False = Some (3, tm') \<and>
    ol_objs tm' 500 = Some t \<and> timer_info_is_available t (2 ^ 32 + 1) \<and> timer_due (2 ^ 32 + 1) t"
proof -
  have "slist_fresh (slist_init None) 600" by (simp add: slist_fresh_def slist_init_def)
  then show ?thesis
    using timer_added_in_callback_fires_early[of 7 3 500 "timer_manager_init (\<lambda>n. 2 ^ 32 + n)" "[]" 600 60000 "2 ^ 32 + 1" 8 0]
    by (simp add: timer_manager_init_def slist_init_rep)
qed

end
