(* ===== verification/Idles.thy ===== *)
theory Idles
  imports ObjList
begin

text \<open>
  The idle manager, \<open>src/src/tkc/idle_manager.c\<close>, the idle objects it keeps,
  \<open>src/src/tkc/idle_info.c\<close>, and \<open>idle_set_on_destroy\<close> of \<open>src/src/base/idle.c\<close>.
  A dispatch cycle runs every idle callback once; the number of the cycle, stored in the object
  when its callback runs, tells which ones are done. A callback is a function of the manager's
  state, so it may add and remove idles, and dispatch recursively.
\<close>

section \<open>State\<close>

record idle_info = tk_object +
  ii_on_idle :: ptr
  ii_ctx :: ptr
  ii_id :: nat
  ii_on_destroy :: ptr
  ii_on_destroy_ctx :: ptr
  ii_dispatch_id :: nat
  ii_busy :: bool
  ii_type :: nat

record idle_manager = "idle_info managed" +
  im_next_idle_id :: nat
  im_dispatch_times :: nat

type_synonym idle_func = "ptr \<Rightarrow> ptr \<Rightarrow> idle_manager \<Rightarrow> (ret_t \<times> idle_manager) option"

definition idle_info_zero :: idle_info where
  "idle_info_zero = \<lparr>ob_ref = 0, ii_on_idle = NULL, ii_ctx = NULL, ii_id = 0, ii_on_destroy = NULL,
     ii_on_destroy_ctx = NULL, ii_dispatch_id = 0, ii_busy = False, ii_type = 0\<rparr>"

section \<open>Operations\<close>

definition idle_manager_init :: idle_manager where
  "idle_manager_init = \<lparr>ol_list = slist_init None, ol_objs = (\<lambda>_. None), ol_fired = [], ol_finalized = [],
     im_next_idle_id = 1, im_dispatch_times = 0\<rparr>"

definition idle_info_compare_by_id :: "idle_info \<Rightarrow> idle_info \<Rightarrow> int" where
  "idle_info_compare_by_id a b = s32 (int (ii_id a) - int (ii_id b))"

definition idle_info_compare_by_ctx :: "idle_info \<Rightarrow> ptr \<Rightarrow> int" where
  "idle_info_compare_by_ctx a b = s32 (int (ii_ctx a) - int b)"

definition idle_info_compare_by_ctx_and_type :: "idle_info \<Rightarrow> idle_info \<Rightarrow> int" where
  "idle_info_compare_by_ctx_and_type a b =
     (if ii_type a = ii_type b then s32 (int (ii_ctx a) - int (ii_ctx b)) else - 1)"

definition idle_info_init_dummy_with_ctx_and_type :: "nat \<Rightarrow> ptr \<Rightarrow> idle_info" where
  "idle_info_init_dummy_with_ctx_and_type type ctx = idle_info_zero\<lparr>ii_ctx := ctx, ii_type := type\<rparr>"

definition idle_info_init_dummy :: "nat \<Rightarrow> idle_info" where
  "idle_info_init_dummy iid = idle_info_zero\<lparr>ii_id := iid\<rparr>"

definition idle_by_id :: "nat \<Rightarrow> idle_info \<Rightarrow> int" where
  "idle_by_id iid t = idle_info_compare_by_id t (idle_info_init_dummy iid)"

definition idle_manager_deinit :: "idle_manager \<Rightarrow> (ret_t \<times> idle_manager) option" where
  "idle_manager_deinit im = objs_clear slist_deinit im"

definition idle_manager_remove_all :: "idle_manager \<Rightarrow> (ret_t \<times> idle_manager) option" where
  "idle_manager_remove_all im = objs_clear slist_remove_all im"

definition idle_manager_remove_all_by_ctx_and_type :: "idle_manager \<Rightarrow> nat \<Rightarrow> ptr \<Rightarrow> (ret_t \<times> idle_manager) option" where
  "idle_manager_remove_all_by_ctx_and_type im type ctx =
     objs_remove_ex im (\<lambda>t. idle_info_compare_by_ctx_and_type t (idle_info_init_dummy_with_ctx_and_type type ctx)) (- 1)"

definition idle_manager_remove_all_by_ctx :: "idle_manager \<Rightarrow> ptr \<Rightarrow> (ret_t \<times> idle_manager) option" where
  "idle_manager_remove_all_by_ctx im ctx = objs_remove_ex im (\<lambda>t. idle_info_compare_by_ctx t ctx) (- 1)"

definition idle_manager_remove :: "idle_manager \<Rightarrow> nat \<Rightarrow> (ret_t \<times> idle_manager) option" where
  "idle_manager_remove im idle_id =
     (if idle_id = 0 then Some (RET_BAD_PARAMS, im) else objs_remove_ex im (idle_by_id idle_id) 1)"

definition idle_manager_find :: "idle_manager \<Rightarrow> nat \<Rightarrow> ptr option" where
  "idle_manager_find im idle_id =
     (if idle_id = 0 then Some NULL else slist_find_ex (ol_list im) (Some (on_obj im (idle_by_id idle_id))) NULL)"

definition idle_manager_get_next_idle_id :: "idle_manager \<Rightarrow> (nat \<times> idle_manager) option" where
  "idle_manager_get_next_idle_id im = do {
     (iid, next) \<leftarrow> next_free_id (\<lambda>i. map_option (\<lambda>p. p \<noteq> NULL) (idle_manager_find im i)) (im_next_idle_id im);
     Some (iid, im\<lparr>im_next_idle_id := next\<rparr>)
   }"

definition idle_manager_append :: "idle_manager \<Rightarrow> ptr \<Rightarrow> ptr \<Rightarrow> (ret_t \<times> idle_manager) option" where
  "idle_manager_append im node idle = do {
     (r, s) \<leftarrow> slist_append (ol_list im) node idle;
     Some (r, im\<lparr>ol_list := s\<rparr>)
   }"

text \<open>
  \<open>obj\<close> and \<open>node\<close> are the allocator's answers for the object and for the list node. The
  result of \<open>idle_manager_append\<close> is not looked at.
\<close>

definition idle_info_create ::
  "idle_manager \<Rightarrow> ptr \<Rightarrow> ptr \<Rightarrow> nat \<Rightarrow> ptr \<Rightarrow> ptr \<Rightarrow> nat \<Rightarrow> (ptr \<times> idle_manager) option" where
  "idle_info_create im obj node iid on_idle ctx type =
     (if obj = NULL then Some (NULL, im)
      else
        (let t = idle_info_zero\<lparr>ob_ref := 1, ii_ctx := ctx, ii_on_idle := on_idle, ii_type := type, ii_id := iid\<rparr>;
             im = im\<lparr>ol_objs := (ol_objs im)(obj \<mapsto> t)\<rparr>
         in if iid \<noteq> 0 then do { (r, im) \<leftarrow> idle_manager_append im node obj; Some (obj, im) }
            else do { im \<leftarrow> obj_unref obj im; Some (NULL, im) }))"

definition idle_manager_add_with_type_and_id ::
  "idle_manager \<Rightarrow> ptr \<Rightarrow> ptr \<Rightarrow> nat \<Rightarrow> ptr \<Rightarrow> ptr \<Rightarrow> nat \<Rightarrow> bool \<Rightarrow> (nat \<times> idle_manager) option" where
  "idle_manager_add_with_type_and_id im obj node iid on_idle ctx type check_id =
     (if on_idle = NULL then Some (0, im)
      else do {
        found \<leftarrow> (if check_id then idle_manager_find im iid else Some NULL);
        if found \<noteq> NULL then Some (0, im)
        else do {
          (idle, im) \<leftarrow> idle_info_create im obj node iid on_idle ctx type;
          if idle = NULL then Some (0, im)
          else do { t \<leftarrow> ol_objs im idle; Some (ii_id t, im) }
        }
      })"

definition idle_manager_add_with_type ::
  "idle_manager \<Rightarrow> ptr \<Rightarrow> ptr \<Rightarrow> ptr \<Rightarrow> ptr \<Rightarrow> nat \<Rightarrow> (nat \<times> idle_manager) option" where
  "idle_manager_add_with_type im obj node on_idle ctx type = do {
     (iid, im) \<leftarrow> idle_manager_get_next_idle_id im;
     idle_manager_add_with_type_and_id im obj node iid on_idle ctx type False
   }"

definition idle_manager_add :: "idle_manager \<Rightarrow> ptr \<Rightarrow> ptr \<Rightarrow> ptr \<Rightarrow> ptr \<Rightarrow> (nat \<times> idle_manager) option" where
  "idle_manager_add im obj node on_idle ctx = idle_manager_add_with_type im obj node on_idle ctx 0"

definition idle_manager_add_with_id ::
  "idle_manager \<Rightarrow> ptr \<Rightarrow> ptr \<Rightarrow> nat \<Rightarrow> ptr \<Rightarrow> ptr \<Rightarrow> (nat \<times> idle_manager) option" where
  "idle_manager_add_with_id im obj node iid on_idle ctx =
     idle_manager_add_with_type_and_id im obj node iid on_idle ctx 0 True"

definition idle_info_is_available :: "idle_info \<Rightarrow> nat \<Rightarrow> bool" where
  "idle_info_is_available t dispatch_id \<longleftrightarrow> \<not> ii_busy t \<and> ii_dispatch_id t \<noteq> dispatch_id"

definition idle_info_on_idle :: "idle_func \<Rightarrow> ptr \<Rightarrow> nat \<Rightarrow> idle_manager \<Rightarrow> (ret_t \<times> idle_manager) option" where
  "idle_info_on_idle call idle dispatch_id im = do {
     t \<leftarrow> ol_objs im idle;
     if ii_on_idle t = NULL then Some (RET_BAD_PARAMS, im)
     else if ii_busy t then Some (RET_BUSY, im)
     else do {
       im \<leftarrow> set_obj idle (\<lambda>t. t\<lparr>ii_busy := True, ii_dispatch_id := dispatch_id\<rparr>) im;
       (ret, im) \<leftarrow> call (ii_on_idle t) idle (im\<lparr>ol_fired := ol_fired im @ [idle]\<rparr>);
       im \<leftarrow> set_obj idle (ii_busy_update (\<lambda>_. False)) im;
       Some (ret, im)
     }
   }"

definition idle_manager_dispatch_one :: "idle_func \<Rightarrow> nat \<Rightarrow> idle_manager \<Rightarrow> (ret_t \<times> idle_manager) option" where
  "idle_manager_dispatch_one call dispatch_id im = do {
     idle \<leftarrow> first_obj im (\<lambda>t. idle_info_is_available t dispatch_id);
     if idle \<noteq> NULL then do {
       im \<leftarrow> obj_ref idle im;
       (ret, im) \<leftarrow> idle_info_on_idle call idle dispatch_id im;
       im \<leftarrow> (if ret \<noteq> RET_REPEAT then do {
                t \<leftarrow> ol_objs im idle;
                (_, im) \<leftarrow> idle_manager_remove im (ii_id t);
                Some im
              } else Some im);
       im \<leftarrow> obj_unref idle im;
       Some (RET_OK, im)
     } else Some (RET_DONE, im)
   }"

definition idle_manager_dispatch :: "idle_func \<Rightarrow> idle_manager \<Rightarrow> (ret_t \<times> idle_manager) option" where
  "idle_manager_dispatch call im =
     (let im = im\<lparr>im_dispatch_times := u32 (im_dispatch_times im + 1)\<rparr>
      in if sl_first (ol_list im) = NULL then Some (RET_OK, im)
         else do {
           im \<leftarrow> repeat_ok (idle_manager_dispatch_one call (im_dispatch_times im)) im;
           Some (RET_OK, im)
         })"

definition idle_manager_count :: "idle_manager \<Rightarrow> int" where
  "idle_manager_count im = slist_size (ol_list im)"

definition idle_manager_exist :: "idle_manager \<Rightarrow> ptr \<Rightarrow> ptr \<Rightarrow> bool option" where
  "idle_manager_exist im on_idle ctx =
     map_option (\<lambda>p. p \<noteq> NULL) (first_obj im (\<lambda>t. ii_on_idle t = on_idle \<and> ii_ctx t = ctx))"

definition idle_set_on_destroy :: "idle_manager \<Rightarrow> nat \<Rightarrow> ptr \<Rightarrow> ptr \<Rightarrow> (ret_t \<times> idle_manager) option" where
  "idle_set_on_destroy im idle_id on_destroy on_destroy_ctx = do {
     item \<leftarrow> idle_manager_find im idle_id;
     if item = NULL then Some (RET_BAD_PARAMS, im)
     else do {
       im \<leftarrow> set_obj item (\<lambda>t. t\<lparr>ii_on_destroy := on_destroy, ii_on_destroy_ctx := on_destroy_ctx\<rparr>) im;
       Some (RET_OK, im)
     }
   }"

section \<open>A consistent manager\<close>

abbreviation idles_ok :: "idle_manager \<Rightarrow> ptr list \<Rightarrow> bool" where
  "idles_ok im ps \<equiv> objs_ok ii_id (ol_list im) (ol_objs im) ps"

lemma idle_by_id_eq: "idle_by_id iid = (\<lambda>t. cmp_id ii_id t iid)"
  by (simp add: fun_eq_iff idle_by_id_def idle_info_compare_by_id_def idle_info_init_dummy_def cmp_id_def)

lemma idles_ok_init: "idles_ok idle_manager_init []"
  using objs_ok_init by (simp add: idle_manager_init_def)

lemma idle_manager_find_NULL:
  assumes ok: "idles_ok im ps" and iid: "iid < 2 ^ 32"
  shows "\<exists>p. idle_manager_find im iid = Some p \<and> (p \<noteq> NULL \<longleftrightarrow> iid \<in> id_of ii_id (ol_objs im) ` set ps) \<and>
    (p \<noteq> NULL \<longrightarrow> p \<in> set ps \<and> id_of ii_id (ol_objs im) p = iid)"
proof (cases "iid = 0")
  case True
  have "id_of ii_id (ol_objs im) p \<noteq> 0" if "p \<in> set ps" for p
    using objs_okD(4)[OF ok that] by (auto simp: id_of_def)
  then show ?thesis using True by (force simp: idle_manager_find_def)
next
  case False
  then show ?thesis using find_by_id_spec[OF ok _ iid] by (simp add: idle_manager_find_def idle_by_id_eq)
qed

lemma idle_manager_add_spec:
  assumes ok: "idles_ok im ps" and n: "im_next_idle_id im < 2 ^ 32" and few: "length ps < 2 ^ 32 - 2"
    and fn: "on_idle \<noteq> NULL" and obj: "obj \<noteq> NULL" "ol_objs im obj = None" and node: "slist_fresh (ol_list im) node"
  shows "\<exists>iid im'. idle_manager_add im obj node on_idle ctx = Some (iid, im') \<and>
    0 < iid \<and> iid \<notin> id_of ii_id (ol_objs im) ` set ps \<and> idles_ok im' (ps @ [obj]) \<and>
    ol_objs im' = (ol_objs im)(obj \<mapsto>
      idle_info_zero\<lparr>ob_ref := 1, ii_ctx := ctx, ii_on_idle := on_idle, ii_id := iid\<rparr>)"
proof -
  have "map_option (\<lambda>p. p \<noteq> NULL) (idle_manager_find im i) = Some (i \<in> id_of ii_id (ol_objs im) ` set ps)" if "i < 2 ^ 32" for i
    using idle_manager_find_NULL[OF ok that] by auto
  from next_id_spec[of "\<lambda>i. map_option (\<lambda>p. p \<noteq> NULL) (idle_manager_find im i)", OF this n few]
  obtain iid nxt where g: "idle_manager_get_next_idle_id im = Some (iid, im\<lparr>im_next_idle_id := nxt\<rparr>)"
    "0 < iid" "iid < 2 ^ 32" "iid \<notin> id_of ii_id (ol_objs im) ` set ps"
    by (auto simp: idle_manager_get_next_idle_id_def)
  obtain s where s: "slist_append (ol_list im) node obj = Some (RET_OK, s)" "slist_rep s (ps @ [obj])"
    using slist_append_spec[OF objs_okD(1)[OF ok] node] by blast
  let ?t = "idle_info_zero\<lparr>ob_ref := 1, ii_ctx := ctx, ii_on_idle := on_idle, ii_id := iid\<rparr>"
  let ?im = "im\<lparr>im_next_idle_id := nxt, ol_objs := (ol_objs im)(obj \<mapsto> ?t), ol_list := s\<rparr>"
  have "?t\<lparr>ii_type := 0\<rparr> = ?t" by (simp add: idle_info_zero_def)
  then have "idle_manager_add im obj node on_idle ctx = Some (iid, ?im)"
    using g fn obj(1) s(1)
    by (simp add: idle_manager_add_def idle_manager_add_with_type_def idle_manager_add_with_type_and_id_def
      idle_info_create_def idle_manager_append_def Let_def idle_info_zero_def)
  moreover have "idles_ok ?im (ps @ [obj])" using objs_ok_append[OF ok s(2) obj, of ?t] g by simp
  ultimately show ?thesis using g by (intro exI[of _ iid] exI[of _ ?im]) simp
qed

lemma idle_manager_remove_spec:
  assumes ok: "idles_ok im ps" and p: "p \<in> set ps" "ol_objs im p = Some t"
  shows "\<exists>s. idle_manager_remove im (ii_id t) = Some (RET_OK,
      im\<lparr>ol_list := s, ol_objs := objs_drop (ol_objs im) [p],
         ol_finalized := ol_finalized im @ filter (last_ref (ol_objs im)) [p]\<rparr>) \<and>
    objs_ok ii_id s (objs_drop (ol_objs im) [p]) (filter (\<lambda>q. q \<noteq> p) ps)"
  using remove_by_id_spec[OF ok p] objs_okD(4)[OF ok p(1)] p(2)
  by (auto simp: idle_manager_remove_def idle_by_id_eq)

lemma idle_manager_remove_all_by_ctx_spec:
  fixes ctx :: ptr
  assumes ok: "idles_ok im ps"
  defines "mine \<equiv> at_obj (ol_objs im) (\<lambda>t. ii_ctx t mod 2 ^ 32 = ctx mod 2 ^ 32)"
  shows "\<exists>s. idle_manager_remove_all_by_ctx im ctx = Some (if filter mine ps = [] then RET_NOT_FOUND else RET_OK,
      im\<lparr>ol_list := s, ol_objs := objs_drop (ol_objs im) (filter mine ps),
         ol_finalized := ol_finalized im @ filter (last_ref (ol_objs im)) (filter mine ps)\<rparr>) \<and>
    objs_ok ii_id s (objs_drop (ol_objs im) (filter mine ps)) (filter (\<lambda>p. \<not> mine p) ps)"
  unfolding mine_def idle_manager_remove_all_by_ctx_def
  by (rule remove_all_by_spec[OF ok]) (simp only: idle_info_compare_by_ctx_def s32_diff_0_mod)

section \<open>Dispatching\<close>

definition idle_fires :: "ptr \<Rightarrow> idle_info \<Rightarrow> bool" where
  "idle_fires p t \<longleftrightarrow> ii_on_idle t \<noteq> NULL"

definition idle_stays :: "(ptr \<Rightarrow> ptr \<Rightarrow> ret_t) \<Rightarrow> ptr \<Rightarrow> idle_info \<Rightarrow> bool" where
  "idle_stays res p t \<longleftrightarrow> idle_fires p t \<and> res (ii_on_idle t) p = RET_REPEAT"

definition idle_after :: "(ptr \<Rightarrow> ptr \<Rightarrow> ret_t) \<Rightarrow> nat \<Rightarrow> ptr \<Rightarrow> idle_info \<Rightarrow> idle_info option" where
  "idle_after res k p t =
     (let t' = (if idle_fires p t then t\<lparr>ii_dispatch_id := k\<rparr> else t)
      in if idle_stays res p t then Some t' else drop_ref t')"

abbreviation quiet_idle :: "(ptr \<Rightarrow> ptr \<Rightarrow> ret_t) \<Rightarrow> idle_func" where
  "quiet_idle res \<equiv> \<lambda>f p im. Some (res f p, im)"

lemma idle_step_spec:
  assumes ok: "idles_ok im ps" and first: "find (at_obj (ol_objs im) (\<lambda>t. idle_info_is_available t k)) ps = Some p"
    and pt: "ol_objs im p = Some t"
  shows "\<exists>s fin. idle_manager_dispatch_one (quiet_idle res) k im = Some (RET_OK,
      im\<lparr>ol_list := s, ol_objs := (ol_objs im)(p := idle_after res k p t),
         ol_fired := ol_fired im @ (if idle_fires p t then [p] else []), ol_finalized := fin\<rparr>) \<and>
    objs_ok ii_id s ((ol_objs im)(p := idle_after res k p t)) (filter (\<lambda>q. q \<noteq> p \<or> idle_stays res p t) ps)"
proof -
  have p: "p \<in> set ps" and busy: "\<not> ii_busy t"
    using first pt by (auto simp: find_Some_iff at_obj_def idle_info_is_available_def)
  then have ref: "p \<noteq> NULL" "0 < ob_ref t" using objs_okD(4)[OF ok p] pt by auto
  have fo: "first_obj im (\<lambda>t. idle_info_is_available t k) = Some p" using first_obj_spec[OF ok] first by simp
  define t1 where "t1 = (if idle_fires p t then t\<lparr>ob_ref := ob_ref t + 1, ii_dispatch_id := k\<rparr> else t\<lparr>ob_ref := ob_ref t + 1\<rparr>)"
  let ?o1 = "(ol_objs im)(p \<mapsto> t1)" and ?o = "(ol_objs im)(p := idle_after res k p t)"
  let ?fired = "ol_fired im @ (if idle_fires p t then [p] else [])"
  let ?im1 = "im\<lparr>ol_objs := ?o1, ol_fired := ?fired\<rparr>"
  have t1: "ii_id t1 = ii_id t" "ob_ref t1 = ob_ref t + 1" by (simp_all add: t1_def)
  have ok1: "objs_ok ii_id (ol_list im) ?o1 ps" by (rule objs_ok_upd[OF ok pt]) (simp_all add: t1)
  have call: "idle_info_on_idle (quiet_idle res) p k (im\<lparr>ol_objs := (ol_objs im)(p \<mapsto> t\<lparr>ob_ref := ob_ref t + 1\<rparr>)\<rparr>) =
      Some (if idle_fires p t then res (ii_on_idle t) p else RET_BAD_PARAMS, ?im1)"
    using busy by (cases t; cases "ii_on_idle t = NULL") (simp_all add: idle_info_on_idle_def set_obj_def idle_fires_def t1_def)
  have start: "obj_ref p im = Some (im\<lparr>ol_objs := (ol_objs im)(p \<mapsto> t\<lparr>ob_ref := ob_ref t + 1\<rparr>)\<rparr>)"
    using pt by (simp add: obj_ref_def)
  have dispatch: "idle_manager_dispatch_one (quiet_idle res) k im = do {
       im \<leftarrow> (if \<not> idle_stays res p t then do {
                (_, im) \<leftarrow> idle_manager_remove ?im1 (ii_id t1);
                Some im
              } else Some ?im1);
       im \<leftarrow> obj_unref p im;
       Some (RET_OK, im) }"
    using fo ref(1) start call by (simp add: idle_manager_dispatch_one_def idle_stays_def)
  show ?thesis
  proof (cases "idle_stays res p t")
    case True
    have "obj_unref p ?im1 = Some (im\<lparr>ol_objs := ?o, ol_fired := ?fired\<rparr>)"
      using obj_unref_eq[of ?im1 p t1] t1 ref True
      by (auto simp: objs_drop_def drop_ref_def last_ref_def idle_after_def fun_eq_iff Let_def t1_def idle_stays_def)
    then have d: "idle_manager_dispatch_one (quiet_idle res) k im = Some (RET_OK, im\<lparr>ol_objs := ?o, ol_fired := ?fired\<rparr>)"
      using dispatch True by simp
    have "objs_ok ii_id (ol_list im) ?o ps"
      using True objs_ok_upd[OF ok pt] ref by (simp add: idle_after_def Let_def)
    then show ?thesis using True d by (intro exI[of _ "ol_list im"] exI[of _ "ol_finalized im"]) simp
  next
    case False
    obtain s where rm: "idle_manager_remove ?im1 (ii_id t1) = Some (RET_OK,
        ?im1\<lparr>ol_list := s, ol_objs := objs_drop ?o1 [p], ol_finalized := ol_finalized ?im1 @ filter (last_ref ?o1) [p]\<rparr>)"
      "objs_ok ii_id s (objs_drop ?o1 [p]) (filter (\<lambda>q. q \<noteq> p) ps)"
      using idle_manager_remove_spec[of ?im1 ps p t1] ok1 p by auto
    define t2 where "t2 = (if idle_fires p t then t\<lparr>ii_dispatch_id := k\<rparr> else t)"
    let ?im2 = "im\<lparr>ol_list := s, ol_objs := (ol_objs im)(p \<mapsto> t2), ol_fired := ?fired\<rparr>"
    have od: "objs_drop ?o1 [p] = (ol_objs im)(p \<mapsto> t2)"
      using ref by (auto simp: objs_drop_def drop_ref_def t1_def t2_def)
    have "filter (last_ref ?o1) [p] = []" using t1(2) ref by (simp add: last_ref_def)
    then have e: "?im1\<lparr>ol_list := s, ol_objs := objs_drop ?o1 [p], ol_finalized := ol_finalized ?im1 @ filter (last_ref ?o1) [p]\<rparr> = ?im2"
      unfolding od by simp
    have "obj_unref p ?im2 = Some (?im2\<lparr>ol_objs := objs_drop (ol_objs ?im2) [p],
        ol_finalized := ol_finalized im @ filter (last_ref (ol_objs ?im2)) [p]\<rparr>)"
      using obj_unref_eq[of ?im2 p t2] ref by (simp add: t2_def)
    moreover have o: "objs_drop (ol_objs ?im2) [p] = ?o"
      using False by (auto simp: objs_drop_def idle_after_def t2_def Let_def)
    ultimately have d: "idle_manager_dispatch_one (quiet_idle res) k im =
        Some (RET_OK, ?im2\<lparr>ol_objs := ?o, ol_finalized := ol_finalized im @ filter (last_ref (ol_objs ?im2)) [p]\<rparr>)"
      using dispatch False rm(1) unfolding e by simp
    have "objs_ok ii_id s ?o (filter (\<lambda>q. q \<noteq> p) ps)"
      by (rule objs_ok_cong[OF rm(2)]) (auto simp: objs_drop_def)
    moreover have "filter (\<lambda>q. q \<noteq> p \<or> idle_stays res p t) ps = filter (\<lambda>q. q \<noteq> p) ps" using False by simp
    ultimately show ?thesis using d
      by (intro exI[of _ s] exI[of _ "ol_finalized im @ filter (last_ref (ol_objs ?im2)) [p]"]) simp
  qed
qed

interpretation idle_sweep: sweep ii_id "\<lambda>im :: idle_manager. idle_manager_dispatch_one (quiet_idle res) k im"
  "\<lambda>t. idle_info_is_available t k" idle_fires "idle_stays res" "idle_after res k"
  for res k
proof
  fix im :: idle_manager and ps
  assume "idles_ok im ps" "find (at_obj (ol_objs im) (\<lambda>t. idle_info_is_available t k)) ps = None"
  then show "idle_manager_dispatch_one (quiet_idle res) k im = Some (RET_DONE, im)"
    by (simp add: idle_manager_dispatch_one_def first_obj_spec)
next
  fix p t assume "idle_stays res p t"
  then show "\<exists>t'. idle_after res k p t = Some t' \<and> \<not> idle_info_is_available t' k"
    by (simp add: idle_after_def idle_info_is_available_def idle_stays_def)
qed (rule idle_step_spec)

lemma idle_manager_dispatch_spec:
  assumes ok: "idles_ok im ps" and k: "im_dispatch_times im + 1 < 2 ^ 32"
    and idle: "\<And>p t. p \<in> set ps \<Longrightarrow> ol_objs im p = Some t \<Longrightarrow> \<not> ii_busy t \<and> ii_dispatch_id t \<le> im_dispatch_times im"
  shows "\<exists>im'. idle_manager_dispatch (quiet_idle res) im = Some (RET_OK, im') \<and>
    ol_fired im' = ol_fired im @ filter (hit (ol_objs im) idle_fires) ps \<and>
    ol_objs im' = objs_after (idle_after res (im_dispatch_times im + 1)) (ol_objs im) ps \<and>
    idles_ok im' (filter (hit (ol_objs im) (idle_stays res)) ps) \<and>
    im_dispatch_times im' = im_dispatch_times im + 1"
proof -
  let ?k = "im_dispatch_times im + 1"
  let ?im = "im\<lparr>im_dispatch_times := ?k\<rparr>"
  have empty: "sl_first (ol_list im) = NULL \<longleftrightarrow> ps = []"
    using objs_okD(1)[OF ok] shape_first_last(1) by (auto simp: slist_rep_def)
  show ?thesis
  proof (cases "ps = []")
    case True
    then show ?thesis using empty ok k by (simp add: idle_manager_dispatch_def)
  next
    case False
    have ok1: "idles_ok ?im ps" using ok by simp
    have av: "idle_info_is_available t ?k" if "p \<in> set ps" "ol_objs ?im p = Some t" for p t
      using idle[OF that(1)] that(2) by (auto simp: idle_info_is_available_def)
    obtain s fin where "repeat_ok (idle_manager_dispatch_one (quiet_idle res) ?k) ?im = Some (?im\<lparr>ol_list := s,
       ol_objs := objs_after (idle_after res ?k) (ol_objs ?im) ps,
       ol_fired := ol_fired ?im @ filter (hit (ol_objs ?im) idle_fires) ps, ol_finalized := fin\<rparr>)"
     "objs_ok ii_id s (objs_after (idle_after res ?k) (ol_objs ?im) ps) (filter (hit (ol_objs ?im) (idle_stays res)) ps)"
      using idle_sweep.sweep_all[where k = ?k and res = res, OF ok1] av by auto
    then show ?thesis using False empty k by (simp add: idle_manager_dispatch_def)
  qed
qed

section \<open>Properties\<close>

text \<open>
  An idle dispatch cycle ends and runs every idle callback of the list exactly once, in order;
  the idles that do not answer \<open>RET_REPEAT\<close> leave the list and lose a reference, the others
  stay and carry the number of the cycle.
\<close>

theorem idle_dispatch_once:
  assumes "idles_ok im ps" and "im_dispatch_times im + 1 < 2 ^ 32"
    and "\<forall>p \<in> set ps. \<forall>t. ol_objs im p = Some t \<longrightarrow>
      \<not> ii_busy t \<and> ii_dispatch_id t \<le> im_dispatch_times im \<and> ii_on_idle t \<noteq> NULL"
  shows "\<exists>im'. idle_manager_dispatch (\<lambda>f p im. Some (res f p, im)) im = Some (RET_OK, im') \<and>
    ol_fired im' = ol_fired im @ ps \<and>
    ol_objs im' = objs_after (idle_after res (im_dispatch_times im + 1)) (ol_objs im) ps \<and>
    idles_ok im' (filter (hit (ol_objs im) (idle_stays res)) ps)"
proof -
  have "hit (ol_objs im) idle_fires p" if "p \<in> set ps" for p
    using objs_okD(4)[OF assms(1) that] assms(3) that by (auto simp: hit_def at_obj_def idle_fires_def)
  then have "filter (hit (ol_objs im) idle_fires) ps = ps" by (simp add: filter_id_conv)
  then show ?thesis using idle_manager_dispatch_spec[where res = res, OF assms(1,2)] assms(3) by auto
qed

theorem idle_dispatch_once_witness:
  "\<exists>im im'. ol_objs im 500 = Some (idle_info_zero\<lparr>ob_ref := 1, ii_id := 3, ii_on_idle := 7\<rparr>) \<and>
    idle_manager_dispatch (\<lambda>f p im. Some (RET_REPEAT, im)) im = Some (RET_OK, im') \<and>
    ol_fired im' = [500] \<and> idles_ok im' [500]"
proof -
  let ?t = "idle_info_zero\<lparr>ob_ref := 1, ii_id := 3, ii_on_idle := 7\<rparr>"
  obtain s where s: "objs_ok ii_id s [500 \<mapsto> ?t] [500]" using objs_ok_single[of 500 ii_id ?t] by auto
  let ?im = "idle_manager_init\<lparr>ol_list := s, ol_objs := [500 \<mapsto> ?t]\<rparr>"
  have ok: "idles_ok ?im [500]" using s by simp
  obtain im' where im': "idle_manager_dispatch (\<lambda>f p im. Some (RET_REPEAT, im)) ?im = Some (RET_OK, im')"
    "ol_fired im' = ol_fired ?im @ [500]" "idles_ok im' (filter (hit (ol_objs ?im) (idle_stays (\<lambda>_ _. RET_REPEAT))) [500])"
    using idle_dispatch_once[where res = "\<lambda>_ _. RET_REPEAT", OF ok] by (auto simp: idle_manager_init_def idle_info_zero_def)
  have "ol_fired im' = [500]" "idles_ok im' [500]"
    using im'(2,3) by (simp_all add: hit_def at_obj_def idle_stays_def idle_fires_def idle_info_zero_def idle_manager_init_def)
  then show ?thesis using im'(1) by (intro exI[of _ ?im] exI[of _ im']) simp
qed

end
