(* ===== verification/Utf8.thy ===== *)
theory Utf8
  imports AwtkPrelude
begin

text \<open>
  The UTF-8 codec of \<open>src/src/tkc/utf8.c\<close>. A C string is the list of its characters before the
  terminator; the character at its end is NUL, and no function reads beyond it, for NUL is not a
  continuation byte. A wide string is a list of code units as unsigned numbers; \<open>wsize\<close> is
  \<open>sizeof(wchar_t)\<close>, 2 or 4. The caller's buffer is represented by the characters written to it.

  Shown: encoding and decoding are inverse on every wide string the encoder accepts, for both sizes of
  \<open>wchar_t\<close>, and a trimmed string always decodes.
\<close>

unbundle bit_operations_syntax

section \<open>One character\<close>

definition char_at :: "string \<Rightarrow> nat \<Rightarrow> nat" where
  "char_at s i = (if i < length s then of_char (s ! i) else 0)"

text \<open>\<open>None\<close> is the \<open>-1\<close> of an illegal first byte.\<close>

definition utf8_get_char_len :: "nat \<Rightarrow> nat option" where
  "utf8_get_char_len c =
     (if c < 0x80 then Some 1
      else if c AND 0xE0 = 0xC0 then Some 2
      else if c AND 0xF0 = 0xE0 then Some 3
      else if c AND 0xF8 = 0xF0 then Some 4
      else if c AND 0xFC = 0xF8 then Some 5
      else if c AND 0xFE = 0xFC then Some 6
      else None)"

definition tk_utf8_get_bytes_of_leading :: "nat \<Rightarrow> nat" where
  "tk_utf8_get_bytes_of_leading c = (case utf8_get_char_len c of Some n \<Rightarrow> n | None \<Rightarrow> 2 ^ 32 - 1)"

text \<open>\<open>for (i = 1; i < len; ++i)\<close>: the following bytes, six bits each.\<close>

function join_bytes :: "string \<Rightarrow> nat \<Rightarrow> nat \<Rightarrow> nat \<Rightarrow> nat \<Rightarrow> nat option" where
  "join_bytes s p i len result =
     (if i < len then
        (if char_at s (p + i) AND 0xC0 \<noteq> 0x80 then None
         else join_bytes s p (Suc i) len (push_bit 6 result OR (char_at s (p + i) AND 0x3F)))
      else Some result)"
  by pat_completeness auto
termination by (relation "measure (\<lambda>(s, p, i, len, result). len - i)") auto

text \<open>The character at \<open>p\<close> and the position of the next one.\<close>

definition utf8_get_char :: "string \<Rightarrow> nat \<Rightarrow> (nat \<times> nat) option" where
  "utf8_get_char s p =
     (let c = char_at s p
      in case utf8_get_char_len c of
           None \<Rightarrow> None
         | Some len \<Rightarrow>
             (case join_bytes s p 1 len (c AND (2 ^ (8 - len) - 1)) of
                None \<Rightarrow> None
              | Some result \<Rightarrow> Some (result, p + len)))"

definition unichar_len :: "nat \<Rightarrow> nat" where
  "unichar_len c =
     (if c < 0x80 then 1 else if c < 0x800 then 2 else if c < 0x10000 then 3
      else if c < 0x200000 then 4 else if c < 0x4000000 then 5 else 6)"

text \<open>\<open>for (i = len - 1; i > 0; --i)\<close>: the last byte takes the lowest bits; what is left of
  the code point is for the first byte.\<close>

fun split_bytes :: "nat \<Rightarrow> nat \<Rightarrow> string \<Rightarrow> nat \<times> string" where
  "split_bytes 0 c out = (c, out)"
| "split_bytes (Suc i) c out = split_bytes i (drop_bit 6 c) (char_of ((c AND 0x3F) OR 0x80) # out)"

definition first_byte_mark :: "nat list" where
  "first_byte_mark = [0x00, 0x00, 0xC0, 0xE0, 0xF0, 0xF8, 0xFC]"

definition unichar_to_utf8 :: "nat \<Rightarrow> string" where
  "unichar_to_utf8 c =
     (let len = unichar_len c
      in case split_bytes (len - 1) c [] of (c, out) \<Rightarrow> char_of (c OR first_byte_mark ! len) # out)"

section \<open>Strings\<close>

text \<open>The loop of the encoder: the units not converted and the text written.\<close>

function encode_loop :: "nat \<Rightarrow> nat \<Rightarrow> nat list \<Rightarrow> string \<Rightarrow> nat list \<times> string" where
  "encode_loop wsize out_size [] out = ([], out)"
| "encode_loop wsize out_size (wc # ws) out =
     (if wc = 0 then (wc # ws, out)
      else (let pair = wsize = 2 \<and> 0xD800 \<le> wc \<and> wc \<le> 0xDBFF \<and> ws \<noteq> [] \<and> 0xDC00 \<le> hd ws \<and> hd ws \<le> 0xDFFF;
                code = if pair then 0x10000 + (push_bit 10 (wc - 0xD800) OR (hd ws - 0xDC00)) else wc;
                tmp = unichar_to_utf8 code
            in if length out + length tmp \<ge> out_size then (if pair then ws else wc # ws, out)
               else encode_loop wsize out_size (if pair then tl ws else ws) (out @ tmp)))"
  by pat_completeness auto
termination by (relation "measure (\<lambda>(wsize, out_size, ws, out). length ws)") auto

text \<open>
  The flag is whether the function returns its buffer and not NULL; the text is what the buffer
  holds in either case. A buffer of size \<open>0\<close> is refused.
\<close>

definition tk_utf8_from_utf16_ex :: "nat \<Rightarrow> nat list \<Rightarrow> nat \<Rightarrow> nat \<Rightarrow> bool \<times> string" where
  "tk_utf8_from_utf16_ex wsize in_str in_size out_size =
     (if out_size = 0 then (False, [])
      else (case encode_loop wsize out_size (take in_size in_str) [] of
              (ws, out) \<Rightarrow> (ws = [] \<or> hd ws = 0, out)))"

definition tk_utf8_from_utf16 :: "nat \<Rightarrow> nat list \<Rightarrow> nat \<Rightarrow> bool \<times> string" where
  "tk_utf8_from_utf16 wsize str out_size = tk_utf8_from_utf16_ex wsize str (length str) out_size"

lemma utf8_get_char_next: "utf8_get_char s p = Some (v, q) \<Longrightarrow> p < q"
  by (auto simp: utf8_get_char_def utf8_get_char_len_def Let_def split: option.splits if_splits)

text \<open>The loop of the decoder; \<open>None\<close> is the NULL it returns.\<close>

function decode_loop :: "nat \<Rightarrow> string \<Rightarrow> nat \<Rightarrow> nat \<Rightarrow> nat \<Rightarrow> nat list \<Rightarrow> nat list option" where
  "decode_loop wsize str p sz out_size out =
     (if p < sz \<and> length out + 1 < out_size then
        (case utf8_get_char str p of
           None \<Rightarrow> None
         | Some (val, next) \<Rightarrow>
             if wsize = 4 then decode_loop wsize str next sz out_size (out @ [val])
             else if wsize = 2 then
               (if val < 0x10000 then decode_loop wsize str next sz out_size (out @ [val])
                else (let val = val - 0x10000; high = (0xD800 + drop_bit 10 val) mod 2 ^ 16
                      in if length out + 2 < out_size then
                           decode_loop wsize str next sz out_size (out @ [high, 0xDC00 + (val AND 0x3FF)])
                         else None))
             else decode_loop wsize str next sz out_size out)
      else Some out)"
  by pat_completeness auto
termination
  by (relation "measure (\<lambda>(wsize, str, p, sz, out_size, out). sz - p)")
    (auto dest!: utf8_get_char_next)

definition tk_utf8_to_utf16_ex :: "nat \<Rightarrow> string \<Rightarrow> nat \<Rightarrow> nat \<Rightarrow> nat list option" where
  "tk_utf8_to_utf16_ex wsize str sz out_size =
     (if out_size = 0 then None else decode_loop wsize str 0 sz out_size [])"

definition tk_utf8_to_utf16 :: "nat \<Rightarrow> string \<Rightarrow> nat \<Rightarrow> nat list option" where
  "tk_utf8_to_utf16 wsize str out_size = tk_utf8_to_utf16_ex wsize str (length str) out_size"

text \<open>\<open>sz < 0\<close> asks for the length of the string.\<close>

definition tk_utf8_dup_utf16 :: "nat \<Rightarrow> alloc_t \<Rightarrow> nat list \<Rightarrow> int \<Rightarrow> string option" where
  "tk_utf8_dup_utf16 wsize alloc in_str sz =
     (let sz = if sz < 0 then length in_str else nat sz;
          out_size = u32 (sz * 4 + 2)
      in if alloc out_size then
           (case tk_utf8_from_utf16_ex wsize in_str sz (out_size - 1) of
              (ok, out) \<Rightarrow> if ok then Some out else None)
         else None)"

text \<open>
  \<open>for (i = 1; i < n; ++i)\<close>: whether the following bytes continue the character. The loop
  ends at the terminator at the latest, also for the \<open>n\<close> of an illegal first byte.
\<close>

function continues :: "string \<Rightarrow> nat \<Rightarrow> nat \<Rightarrow> nat \<Rightarrow> bool" where
  "continues str p i n =
     (if i < n then
        (if char_at str (p + i) AND 0xC0 \<noteq> 0x80 \<or> char_at str (p + i) = 0 then False
         else continues str p (Suc i) n)
      else True)"
  by pat_completeness auto
termination by (relation "measure (\<lambda>(str, p, i, n). n - i)") auto

lemma bytes_of_leading_pos: "0 < tk_utf8_get_bytes_of_leading c"
  by (auto simp: tk_utf8_get_bytes_of_leading_def utf8_get_char_len_def split: option.splits if_splits)

function trim_loop :: "string \<Rightarrow> nat \<Rightarrow> string" where
  "trim_loop str p =
     (if char_at str p \<noteq> 0 then
        (let n = tk_utf8_get_bytes_of_leading (char_at str p)
         in if continues str p 1 n then trim_loop str (p + n) else take p str)
      else str)"
  by pat_completeness auto
termination
  by (relation "measure (\<lambda>(str, p). length str - p)")
    (auto simp: char_at_def Let_def bytes_of_leading_pos diff_less_mono2 split: if_splits)

definition tk_utf8_trim_invalid_char :: "string \<Rightarrow> string" where
  "tk_utf8_trim_invalid_char str = trim_loop str 0"

declare join_bytes.simps [simp del] decode_loop.simps [simp del] continues.simps [simp del] trim_loop.simps [simp del]

section \<open>Bytes of a character\<close>

lemma upt_from_0: "2 \<le> n \<Longrightarrow> [0..<n] = 0 # 1 # [2..<n]"
  by (metis One_nat_def Suc_1 Suc_le_lessD le0 le_less_trans less_Suc_eq_le upt_conv_Cons)

lemmas byte_table = upt_from_0 upt_rec_numeral utf8_get_char_len_def first_byte_mark_def

lemma and_mask_mod: "x AND 0x3F = x mod (64 :: nat)" "x AND 0x3FF = x mod (1024 :: nat)"
  using take_bit_eq_mask[of 6 x] take_bit_eq_mask[of 10 x] by (simp_all add: take_bit_eq_mod mask_eq_exp_minus_1)

lemma shift_low:
  assumes "y < 2 ^ n"
  shows "push_bit n x OR y = push_bit n x + (y :: nat)"
proof -
  have "y = take_bit n y" using assms by (simp add: take_bit_nat_eq_self)
  then have "push_bit n x AND y = push_bit n x AND take_bit n y" by simp
  also have "\<dots> = 0" by (auto simp: bit_eq_iff bit_simps)
  finally show ?thesis by (rule disjunctive_add_eq_or [symmetric])
qed

lemma follow_byte:
  assumes "y < 64"
  shows "(y OR 0x80) AND 0xC0 = (0x80 :: nat)" "(y OR 0x80) AND 0x3F = y" "y OR 0x80 < 256" "y OR 0x80 \<noteq> 0"
proof -
  have "list_all (\<lambda>y. (y OR 0x80) AND 0xC0 = (0x80 :: nat) \<and> (y OR 0x80) AND 0x3F = y \<and> y OR 0x80 < 256 \<and> y OR 0x80 \<noteq> 0) [0..<64]"
    by (simp add: byte_table)
  then show "(y OR 0x80) AND 0xC0 = (0x80 :: nat)" "(y OR 0x80) AND 0x3F = y" "y OR 0x80 < 256" "y OR 0x80 \<noteq> 0"
    unfolding list_all_iff using assms by fastforce+
qed

lemma first_byte:
  assumes "len \<in> {2, 3, 4, 5, 6}" and "x < 2 ^ (7 - len)"
  shows "utf8_get_char_len (x OR first_byte_mark ! len) = Some len"
    "(x OR first_byte_mark ! len) AND (2 ^ (8 - len) - 1) = x" "x OR first_byte_mark ! len < 256" "x OR first_byte_mark ! len \<noteq> 0"
proof -
  have "list_all (\<lambda>len. list_all (\<lambda>x. utf8_get_char_len (x OR first_byte_mark ! len) = Some len \<and>
    (x OR first_byte_mark ! len) AND (2 ^ (8 - len) - 1) = x \<and> x OR first_byte_mark ! len < 256 \<and> x OR first_byte_mark ! len \<noteq> 0)
    [0..<2 ^ (7 - len)]) [2, 3, 4, 5, 6]"
    by (simp add: byte_table)
  then have "len \<in> set [2, 3, 4, 5, 6] \<longrightarrow> x \<in> set [0..<2 ^ (7 - len)] \<longrightarrow> utf8_get_char_len (x OR first_byte_mark ! len) = Some len \<and>
    (x OR first_byte_mark ! len) AND (2 ^ (8 - len) - 1) = x \<and> x OR first_byte_mark ! len < 256 \<and> x OR first_byte_mark ! len \<noteq> 0"
    unfolding list_all_iff by blast
  moreover have x: "len \<in> set [2, 3, 4, 5, 6]" "x \<in> set [0..<2 ^ (7 - len)]"
    using assms by (simp_all only: set_simps set_upt atLeastLessThan_iff le0 simp_thms)
  ultimately show "utf8_get_char_len (x OR first_byte_mark ! len) = Some len"
    "(x OR first_byte_mark ! len) AND (2 ^ (8 - len) - 1) = x" "x OR first_byte_mark ! len < 256" "x OR first_byte_mark ! len \<noteq> 0"
    by blast+
qed

lemma low_char: "utf8_get_char_len (c AND 0x7F) = Some 1" if "c < 0x80"
proof -
  have "c AND 0x7F = c" using take_bit_eq_mask[of 7 c] that by (simp add: take_bit_eq_mod mask_eq_exp_minus_1)
  then show ?thesis using that by (simp add: utf8_get_char_len_def)
qed

text \<open>The bytes after the first one.\<close>

fun follow_bytes :: "nat \<Rightarrow> nat \<Rightarrow> string" where
  "follow_bytes 0 c = []"
| "follow_bytes (Suc i) c = char_of ((drop_bit (6 * i) c AND 0x3F) OR 0x80) # follow_bytes i c"

lemma length_follow_bytes [simp]: "length (follow_bytes i c) = i"
  by (induction i) auto

lemma follow_bytes_snoc: "follow_bytes (Suc i) c = follow_bytes i (drop_bit 6 c) @ [char_of ((c AND 0x3F) OR 0x80)]"
  by (induction i) (auto simp: drop_bit_drop_bit ac_simps)

lemma split_bytes_eq: "split_bytes i c out = (drop_bit (6 * i) c, follow_bytes i c @ out)"
  by (induction i arbitrary: c out) (auto simp del: follow_bytes.simps(2) simp: follow_bytes_snoc drop_bit_drop_bit ac_simps)

lemma char_at_mid: "char_at (pre @ s @ post) (length pre + i) = (if i < length s then of_char (s ! i) else char_at post (i - length s))"
  by (auto simp: char_at_def nth_append)

lemma join_step: "push_bit 6 (drop_bit 6 x) OR (x AND 0x3F) = (x :: nat)"
proof -
  have "x AND 0x3F = take_bit 6 x" by (simp add: and_mask_mod take_bit_eq_mod)
  then show ?thesis using shift_low[of "take_bit 6 x" 6 "drop_bit 6 x", OF take_bit_nat_less_exp] bits_ident[of 6 x] by simp
qed

lemma join_bytes_follow:
  "join_bytes (pre @ follow_bytes n c @ post) (length pre - k) k (k + n) (drop_bit (6 * n) c) = Some c" if "k \<le> length pre"
  using that
proof (induction n arbitrary: pre k)
  case 0
  then show ?case by (simp add: join_bytes.simps)
next
  case (Suc n)
  let ?x = "drop_bit (6 * n) c"
  let ?b = "(?x AND 0x3F) OR 0x80"
  have b: "of_char (char_of ?b :: char) = ?b" "?b AND 0xC0 = 0x80" "?b AND 0x3F = ?x AND 0x3F"
    using follow_byte[of "?x AND 0x3F"] by (simp_all add: and_mask_mod)
  have at: "char_at (pre @ follow_bytes (Suc n) c @ post) (length pre - k + k) = ?b"
    using Suc.prems char_at_mid[of pre "follow_bytes (Suc n) c" post 0] b by simp
  have d: "drop_bit (6 * Suc n) c = drop_bit 6 ?x" by (simp add: drop_bit_drop_bit ac_simps)
  have "join_bytes (pre @ follow_bytes (Suc n) c @ post) (length pre - k) k (k + Suc n) (drop_bit (6 * Suc n) c) =
    join_bytes (pre @ follow_bytes (Suc n) c @ post) (length pre - k) (Suc k) (k + Suc n) ?x"
    by (subst join_bytes.simps) (simp only: at b d join_step, simp)
  also have "\<dots> = Some c"
    using Suc.IH[of "Suc k" "pre @ [char_of ?b]"] Suc.prems by simp
  finally show ?case .
qed

lemma unichar_len_cases:
  obtains (one) "c < 0x80" "unichar_len c = 1"
    | (more) "unichar_len c \<in> {2, 3, 4, 5, 6}" "c < 2 ^ 31 \<longrightarrow> drop_bit (6 * (unichar_len c - 1)) c < 2 ^ (7 - unichar_len c)"
proof (cases "c < 0x80")
  case True
  then show ?thesis by (intro one) (auto simp: unichar_len_def)
next
  case False
  show ?thesis
  proof (rule more)
    show "unichar_len c \<in> {2, 3, 4, 5, 6}" using False by (auto simp: unichar_len_def)
    show "c < 2 ^ 31 \<longrightarrow> drop_bit (6 * (unichar_len c - 1)) c < 2 ^ (7 - unichar_len c)"
      using False by (auto simp: unichar_len_def drop_bit_eq_div less_mult_imp_div_less)
  qed
qed

lemma unichar_to_utf8_eq:
  "unichar_to_utf8 c = char_of (drop_bit (6 * (unichar_len c - 1)) c OR first_byte_mark ! unichar_len c) # follow_bytes (unichar_len c - 1) c"
  by (simp add: unichar_to_utf8_def split_bytes_eq Let_def)

lemma length_unichar_to_utf8: "length (unichar_to_utf8 c) = unichar_len c"
  by (cases c rule: unichar_len_cases) (auto simp: unichar_to_utf8_eq)

lemma utf8_get_char_unichar:
  assumes "c < 2 ^ 31"
  shows "utf8_get_char (pre @ unichar_to_utf8 c @ post) (length pre) = Some (c, length pre + unichar_len c)"
proof (cases c rule: unichar_len_cases)
  case one
  have "c AND 0x7F = c" using take_bit_eq_mask[of 7 c] one by (simp add: take_bit_eq_mod mask_eq_exp_minus_1)
  moreover have "char_at (pre @ unichar_to_utf8 c @ post) (length pre) = c"
    using one char_at_mid[of pre "unichar_to_utf8 c" post 0] by (simp add: unichar_to_utf8_eq first_byte_mark_def)
  ultimately show ?thesis using one by (simp add: utf8_get_char_def utf8_get_char_len_def join_bytes.simps)
next
  case more
  let ?l = "unichar_len c" and ?x = "drop_bit (6 * (unichar_len c - 1)) c"
  let ?b = "?x OR first_byte_mark ! ?l"
  note b = first_byte[OF more(1) mp[OF more(2) assms]]
  have "char_at (pre @ unichar_to_utf8 c @ post) (length pre) = ?b"
    using b(3) char_at_mid[of pre "unichar_to_utf8 c" post 0] by (simp add: unichar_to_utf8_eq)
  moreover have "join_bytes (pre @ unichar_to_utf8 c @ post) (length pre) 1 ?l ?x = Some c"
  proof -
    obtain n where n: "?l = Suc n" using more(1) by (cases ?l) auto
    then show ?thesis using join_bytes_follow[of 1 "pre @ [char_of ?b]" n c post] by (simp add: unichar_to_utf8_eq)
  qed
  ultimately show ?thesis using b(1,2) by (simp add: utf8_get_char_def)
qed

lemma of_char_eq_0: "of_char c = (0 :: nat) \<longleftrightarrow> c = CHR 0x00"
proof -
  have "of_char c = (of_char (CHR 0x00) :: nat) \<longleftrightarrow> c = CHR 0x00" by (rule of_char_eq_iff)
  then show ?thesis by simp
qed

lemma char_of_not_nul: "0 < b \<Longrightarrow> b < 256 \<Longrightarrow> char_of (b :: nat) \<noteq> CHR 0x00"
  by (simp flip: of_char_eq_0)

lemma follow_bytes_no_nul: "CHR 0x00 \<notin> set (follow_bytes i c)"
proof (induction i)
  case (Suc i)
  have "char_of ((drop_bit (6 * i) c AND 0x3F) OR 0x80) \<noteq> CHR 0x00"
    using follow_byte(3,4)[of "drop_bit (6 * i) c AND 0x3F"] by (intro char_of_not_nul) (simp_all add: and_mask_mod)
  with Suc show ?case by auto
qed simp

lemma unichar_no_nul:
  assumes "0 < c" "c < 2 ^ 31"
  shows "CHR 0x00 \<notin> set (unichar_to_utf8 c)"
proof (cases c rule: unichar_len_cases)
  case one
  then show ?thesis using char_of_not_nul[of c] assms by (auto simp: unichar_to_utf8_eq first_byte_mark_def)
next
  case more
  note b = first_byte[OF more(1) mp[OF more(2) assms(2)]]
  show ?thesis using char_of_not_nul[OF _ b(3)] b(4) follow_bytes_no_nul by (auto simp: unichar_to_utf8_eq)
qed

section \<open>Wide strings\<close>

text \<open>The units a wide string may have: any 16-bit unit, or a code point of at most 31 bits.\<close>

definition units_ok :: "nat \<Rightarrow> nat list \<Rightarrow> bool" where
  "units_ok wsize ws \<longleftrightarrow> (wsize = 2 \<or> wsize = 4) \<and> list_all (\<lambda>c. 0 < c \<and> c < (if wsize = 2 then 2 ^ 16 else 2 ^ 31)) ws"

lemma surrogate_code:
  assumes "0xD800 \<le> h" "h \<le> 0xDBFF" "0xDC00 \<le> l" "l \<le> (0xDFFF :: nat)"
    and code: "code = 0x10000 + (push_bit 10 (h - 0xD800) OR (l - 0xDC00))"
  shows "0x10000 \<le> code" "code < 2 ^ 31" "(0xD800 + drop_bit 10 (code - 0x10000)) mod 2 ^ 16 = h"
    "0xDC00 + ((code - 0x10000) AND 0x3FF) = l"
proof -
  have "push_bit 10 (h - 0xD800) OR (l - 0xDC00) = (h - 0xD800) * 1024 + (l - 0xDC00)"
    using shift_low[of "l - 0xDC00" 10 "h - 0xD800"] assms by (simp add: push_bit_eq_mult)
  then have c: "code = 0x10000 + ((h - 0xD800) * 1024 + (l - 0xDC00))" using code by simp
  have "(h - 0xD800) * 1024 \<le> 0x3FF * 1024" using assms by (intro mult_le_mono1) simp
  then show "code < 2 ^ 31" unfolding c using assms by simp
  show "0x10000 \<le> code" unfolding c by simp
  have "((h - 0xD800) * 1024 + (l - 0xDC00)) div 1024 = h - 0xD800" using assms by simp
  then show "(0xD800 + drop_bit 10 (code - 0x10000)) mod 2 ^ 16 = h" unfolding c using assms by (simp add: drop_bit_eq_div)
  have "l - 0xDC00 < 1024" using assms by simp
  then have "((h - 0xD800) * 1024 + (l - 0xDC00)) mod 1024 = l - 0xDC00" by (metis mod_less mod_mult_self3)
  then show "0xDC00 + ((code - 0x10000) AND 0x3FF) = l" unfolding c using assms by (simp add: and_mask_mod)
qed

text \<open>One round of the encoder: the units it takes, the code point they are, the rest.\<close>

lemma encode_loop_round:
  assumes ok: "units_ok wsize ws" and "ws \<noteq> []"
  obtains code us rest where "ws = us @ rest" "us \<noteq> []" "0 < code" "code < 2 ^ 31" "units_ok wsize rest"
    "us = [code] \<and> (wsize = 2 \<longrightarrow> code < 0x10000) \<or>
     wsize = 2 \<and> 0x10000 \<le> code \<and> us = [(0xD800 + drop_bit 10 (code - 0x10000)) mod 2 ^ 16, 0xDC00 + ((code - 0x10000) AND 0x3FF)]"
    "\<And>n out. length out + unichar_len code < n \<Longrightarrow> encode_loop wsize n ws out = encode_loop wsize n rest (out @ unichar_to_utf8 code)"
    "\<And>n out. \<not> length out + unichar_len code < n \<Longrightarrow> \<exists>w v. encode_loop wsize n ws out = (w # v, out) \<and> w \<noteq> 0"
proof -
  obtain wc vs where ws: "ws = wc # vs" using assms(2) by (cases ws) auto
  define pair where "pair \<longleftrightarrow> wsize = 2 \<and> 0xD800 \<le> wc \<and> wc \<le> 0xDBFF \<and> vs \<noteq> [] \<and> 0xDC00 \<le> hd vs \<and> hd vs \<le> 0xDFFF"
  define code where "code = (if pair then 0x10000 + (push_bit 10 (wc - 0xD800) OR (hd vs - 0xDC00)) else wc)"
  have wc: "0 < wc" "wc < (if wsize = 2 then 2 ^ 16 else 2 ^ 31)" using ok ws by (auto simp: units_ok_def)
  have run: "encode_loop wsize n ws out =
      (if \<not> length out + unichar_len code < n then (if pair then vs else wc # vs, out)
       else encode_loop wsize n (if pair then tl vs else vs) (out @ unichar_to_utf8 code))" for n out
    unfolding ws encode_loop.simps pair_def[symmetric] Let_def code_def[symmetric] length_unichar_to_utf8 using wc(1) by simp
  show ?thesis
  proof (cases pair)
    case True
    then obtain l rest where vs: "vs = l # rest" by (cases vs) (auto simp: pair_def)
    have c: "code = 0x10000 + (push_bit 10 (wc - 0xD800) OR (l - 0xDC00))" using True vs by (simp add: code_def)
    have pr: "wsize = 2" "0xD800 \<le> wc" "wc \<le> 0xDBFF" "0xDC00 \<le> l" "l \<le> 0xDFFF" using True vs by (auto simp: pair_def)
    note sur = surrogate_code[OF pr(2-5) c]
    show ?thesis
    proof (rule that[of "[wc, l]" rest code])
      show "ws = [wc, l] @ rest" "units_ok wsize rest" using ws vs ok by (auto simp: units_ok_def)
      show "[wc, l] = [code] \<and> (wsize = 2 \<longrightarrow> code < 0x10000) \<or> wsize = 2 \<and> 0x10000 \<le> code \<and>
          [wc, l] = [(0xD800 + drop_bit 10 (code - 0x10000)) mod 2 ^ 16, 0xDC00 + ((code - 0x10000) AND 0x3FF)]"
        unfolding sur(3,4) using pr(1) sur(1) by blast
    qed (use sur(1,2) pr run vs True in auto)
  next
    case False
    show ?thesis
      by (rule that[of "[wc]" vs code])
        (use False wc run ws ok in \<open>auto simp: code_def units_ok_def split: if_splits\<close>)
  qed
qed

text \<open>What the encoder writes is a prefix of what it has written in the end.\<close>

lemma encode_loop_extends: "units_ok wsize ws \<Longrightarrow> \<exists>t. snd (encode_loop wsize n ws out) = out @ t"
proof (induction ws arbitrary: out rule: length_induct)
  case (1 ws)
  show ?case
  proof (cases "ws = []")
    case False
    obtain code us rest where r: "ws = us @ rest" "us \<noteq> []" "0 < code" "code < 2 ^ 31" "units_ok wsize rest"
      and step: "\<And>n out. length out + unichar_len code < n \<Longrightarrow> encode_loop wsize n ws out = encode_loop wsize n rest (out @ unichar_to_utf8 code)"
        "\<And>n out. \<not> length out + unichar_len code < n \<Longrightarrow> \<exists>w v. encode_loop wsize n ws out = (w # v, out) \<and> w \<noteq> 0"
      by (rule encode_loop_round[OF "1.prems" False]) blast
    have "length rest < length ws" using r by simp
    then obtain t where "snd (encode_loop wsize n rest (out @ unichar_to_utf8 code)) = (out @ unichar_to_utf8 code) @ t"
      using "1.IH" r(5) by blast
    then show ?thesis using step[of out n] by (cases "length out + unichar_len code < n") auto
  qed simp
qed

lemma decode_encoded:
  assumes "encode_loop wsize n ws out = ([], s)" and "units_ok wsize ws" and "length acc + length ws < m"
  shows "decode_loop wsize s (length out) (length s) m acc = Some (acc @ ws)"
  using assms
proof (induction ws arbitrary: acc out rule: length_induct)
  case (1 ws)
  show ?case
  proof (cases "ws = []")
    case True
    then show ?thesis using "1.prems" by (simp add: decode_loop.simps)
  next
    case False
    obtain code us rest where r: "ws = us @ rest" "us \<noteq> []" "0 < code" "code < 2 ^ 31" "units_ok wsize rest"
      and us: "us = [code] \<and> (wsize = 2 \<longrightarrow> code < 0x10000) \<or>
        wsize = 2 \<and> 0x10000 \<le> code \<and> us = [(0xD800 + drop_bit 10 (code - 0x10000)) mod 2 ^ 16, 0xDC00 + ((code - 0x10000) AND 0x3FF)]"
      and step: "\<And>n out. length out + unichar_len code < n \<Longrightarrow> encode_loop wsize n ws out = encode_loop wsize n rest (out @ unichar_to_utf8 code)"
        "\<And>n out. \<not> length out + unichar_len code < n \<Longrightarrow> \<exists>w v. encode_loop wsize n ws out = (w # v, out) \<and> w \<noteq> 0"
      by (rule encode_loop_round[OF "1.prems"(2) False]) blast
    let ?tmp = "unichar_to_utf8 code"
    have run: "encode_loop wsize n rest (out @ ?tmp) = ([], s)"
      using "1.prems"(1) step[of out n] by (cases "length out + unichar_len code < n") auto
    then obtain post where s: "s = out @ ?tmp @ post" using encode_loop_extends[OF r(5), of n "out @ ?tmp"] by auto
    have get: "utf8_get_char s (length out) = Some (code, length (out @ ?tmp))"
      unfolding s using utf8_get_char_unichar[OF r(4)] by (simp add: length_unichar_to_utf8)
    have ne: "length out < length s" using s by (simp add: unichar_to_utf8_eq)
    have IH: "decode_loop wsize s (length (out @ ?tmp)) (length s) m (acc @ us) = Some (acc @ us @ rest)"
      using "1.IH"[rule_format, of rest "out @ ?tmp" "acc @ us"] run r "1.prems"(3) by simp
    have w: "wsize = 2 \<or> wsize = 4" using r(5) by (simp add: units_ok_def)
    have m: "length acc + length us < m" using "1.prems"(3) r(1) by simp
    show ?thesis using us
    proof (elim disjE conjE)
      assume "us = [code]" "wsize = 2 \<longrightarrow> code < 0x10000"
      then show ?thesis using get ne IH m w r(1) by (subst decode_loop.simps) auto
    next
      assume "wsize = 2" "0x10000 \<le> code"
        "us = [(0xD800 + drop_bit 10 (code - 0x10000)) mod 2 ^ 16, 0xDC00 + ((code - 0x10000) AND 0x3FF)]"
      then show ?thesis using get ne IH m r(1) by (subst decode_loop.simps) (simp add: Let_def)
    qed
  qed
qed

text \<open>Six bytes for every unit are enough room for the encoder, and it writes no NUL.\<close>

lemma encode_loop_room:
  assumes "units_ok wsize ws" and "length out + 6 * length ws < n"
  shows "fst (encode_loop wsize n ws out) = []"
  using assms
proof (induction ws arbitrary: out rule: length_induct)
  case (1 ws)
  show ?case
  proof (cases "ws = []")
    case False
    obtain code us rest where r: "ws = us @ rest" "us \<noteq> []" "0 < code" "code < 2 ^ 31" "units_ok wsize rest"
      and step: "\<And>n out. length out + unichar_len code < n \<Longrightarrow> encode_loop wsize n ws out = encode_loop wsize n rest (out @ unichar_to_utf8 code)"
      by (rule encode_loop_round[OF "1.prems"(1) False]) blast
    have six: "unichar_len code \<le> 6" by (simp add: unichar_len_def)
    have us: "1 \<le> length us" using r(2) by (cases us) auto
    then have "length out + unichar_len code < n" "length (out @ unichar_to_utf8 code) + 6 * length rest < n"
      using "1.prems"(2) r(1) six by (auto simp: length_unichar_to_utf8)
    then show ?thesis using "1.IH" step r us by simp
  qed simp
qed

lemma encode_loop_no_nul:
  assumes "units_ok wsize ws" and "CHR 0x00 \<notin> set out"
  shows "CHR 0x00 \<notin> set (snd (encode_loop wsize n ws out))"
  using assms
proof (induction ws arbitrary: out rule: length_induct)
  case (1 ws)
  show ?case
  proof (cases "ws = []")
    case True
    then show ?thesis using "1.prems" by simp
  next
    case False
    obtain code us rest where r: "ws = us @ rest" "us \<noteq> []" "0 < code" "code < 2 ^ 31" "units_ok wsize rest"
      and step: "\<And>n out. length out + unichar_len code < n \<Longrightarrow> encode_loop wsize n ws out = encode_loop wsize n rest (out @ unichar_to_utf8 code)"
        "\<And>n out. \<not> length out + unichar_len code < n \<Longrightarrow> \<exists>w v. encode_loop wsize n ws out = (w # v, out) \<and> w \<noteq> 0"
      by (rule encode_loop_round[OF "1.prems"(1) False]) blast
    have "CHR 0x00 \<notin> set (snd (encode_loop wsize n rest (out @ unichar_to_utf8 code)))"
      using "1.IH" r unichar_no_nul "1.prems"(2) by simp
    then show ?thesis using step[of out n] "1.prems"(2) by (cases "length out + unichar_len code < n") auto
  qed
qed

lemma encode_loop_bound: "length out < n \<Longrightarrow> length (snd (encode_loop wsize n ws out)) < n"
proof (induction wsize n ws out rule: encode_loop.induct)
  case (2 wsize n wc ws out)
  then show ?case by (subst encode_loop.simps) (simp add: Let_def)
qed simp

section \<open>Trimming\<close>

lemma continues_length:
  assumes "continues str p i n" "i < n"
  shows "p + n \<le> length str"
  using assms
proof (induction str p i n rule: continues.induct)
  case (1 str p i n)
  have c: "char_at str (p + i) \<noteq> 0" "continues str p (Suc i) n"
    using "1.prems" by (simp_all add: continues.simps[of str p i n] split: if_splits)
  show ?case
  proof (cases "Suc i < n")
    case True
    then show ?thesis using "1.IH" c "1.prems" by (simp add: continues.simps[of str p i n] split: if_splits)
  next
    case False
    then show ?thesis using c(1) "1.prems"(2) by (simp add: char_at_def split: if_splits)
  qed
qed

lemma char_at_take: "i < q \<Longrightarrow> char_at (take q str) i = char_at str i"
  by (simp add: char_at_def)

lemma join_bytes_continues:
  assumes "continues str p i n" and "p + n \<le> q"
  shows "join_bytes (take q str) p i n r \<noteq> None"
  using assms
proof (induction str p i n arbitrary: r rule: continues.induct)
  case (1 str p i n)
  then show ?case by (simp add: continues.simps[of str p i n] join_bytes.simps[of _ p i n] char_at_take split: if_splits)
qed

lemma join_bytes_stops: "\<not> continues str p i n \<Longrightarrow> join_bytes str p i n r = None"
proof (induction str p i n arbitrary: r rule: continues.induct)
  case (1 str p i n)
  then show ?case by (auto simp: continues.simps[of str p i n] join_bytes.simps[of _ p i n] split: if_splits)
qed

lemma trim_loop_decodes:
  assumes "p \<le> length str" and "length str < 2 ^ 32 - 1" and "CHR 0x00 \<notin> set str"
  shows "\<exists>q. trim_loop str p = take q str \<and> p \<le> q \<and> q \<le> length str \<and>
    (q < length str \<longrightarrow> utf8_get_char str q = None) \<and> (\<forall>m acc. decode_loop 4 (take q str) p q m acc \<noteq> None)"
  using assms
proof (induction str p rule: trim_loop.induct)
  case (1 str p)
  let ?n = "tk_utf8_get_bytes_of_leading (char_at str p)"
  show ?case
  proof (cases "char_at str p \<noteq> 0 \<and> continues str p 1 ?n")
    case True
    have n: "p + ?n \<le> length str" "utf8_get_char_len (char_at str p) = Some ?n"
    proof -
      have "1 < ?n \<longrightarrow> p + ?n \<le> length str" using continues_length True by blast
      moreover have "p < length str" using True by (auto simp: char_at_def split: if_splits)
      ultimately show "p + ?n \<le> length str" using bytes_of_leading_pos[of "char_at str p"] by linarith
      then show "utf8_get_char_len (char_at str p) = Some ?n"
        using "1.prems"(2) by (auto simp: tk_utf8_get_bytes_of_leading_def split: option.splits)
    qed
    obtain q where q: "trim_loop str (p + ?n) = take q str" "p + ?n \<le> q" "q \<le> length str"
      "q < length str \<longrightarrow> utf8_get_char str q = None"
      "\<forall>m acc. decode_loop 4 (take q str) (p + ?n) q m acc \<noteq> None"
      using "1.IH" True n "1.prems" by auto
    obtain v where "join_bytes (take q str) p 1 ?n (char_at str p AND (2 ^ (8 - ?n) - 1)) = Some v"
      using join_bytes_continues[of str p 1 ?n q] True q(2) by fastforce
    then have "\<exists>v. utf8_get_char (take q str) p = Some (v, p + ?n)"
      using n q(2) bytes_of_leading_pos[of "char_at str p"] by (simp add: utf8_get_char_def char_at_take Let_def)
    then show ?thesis using q True bytes_of_leading_pos[of "char_at str p"]
      by (intro exI[of _ q]) (auto simp: trim_loop.simps[of str p] decode_loop.simps[of 4 _ p])
  next
    case False
    have "char_at str p = 0 \<longrightarrow> p = length str"
      using "1.prems"(1,3) by (auto simp: char_at_def of_char_eq_0 in_set_conv_nth split: if_splits)
    with False have "trim_loop str p = take p str" by (auto simp: trim_loop.simps[of str p] Let_def)
    moreover have "p < length str \<longrightarrow> utf8_get_char str p = None"
    proof
      assume "p < length str"
      then have "\<not> continues str p 1 ?n" using False \<open>char_at str p = 0 \<longrightarrow> p = length str\<close> by blast
      then show "utf8_get_char str p = None" using join_bytes_stops[of str p 1]
        by (auto simp: utf8_get_char_def tk_utf8_get_bytes_of_leading_def Let_def split: option.splits)
    qed
    ultimately show ?thesis using "1.prems"(1) by (intro exI[of _ p]) (simp add: decode_loop.simps)
  qed
qed

section \<open>Properties\<close>

text \<open>
  C21. UTF-8 conversion of a wide string and back is the identity. For both sizes of \<open>wchar_t\<close> the
  encoder converts every string of non-zero units (surrogate pairs, also broken ones, for 16 bits;
  values up to 31 bits for 32) when the buffer has six bytes per unit, its text has no NUL inside, and
  the decoder gives back exactly the units, when they fit.
\<close>

theorem utf8_roundtrip:
  assumes "units_ok wsize ws" and "6 * length ws < n" and "length ws < m"
  shows "\<exists>s. tk_utf8_from_utf16 wsize ws n = (True, s) \<and> CHR 0x00 \<notin> set s \<and> tk_utf8_to_utf16 wsize s m = Some ws"
proof -
  obtain s where s: "encode_loop wsize n ws [] = ([], s)"
    using encode_loop_room[OF assms(1), of "[]" n] assms(2) by (cases "encode_loop wsize n ws []") auto
  then show ?thesis
    using decode_encoded[OF s assms(1), of "[]" m] encode_loop_no_nul[OF assms(1), of "[]" n] assms(2,3)
    by (auto simp: tk_utf8_from_utf16_def tk_utf8_from_utf16_ex_def tk_utf8_to_utf16_def tk_utf8_to_utf16_ex_def)
qed

theorem utf8_roundtrip_witness:
  "\<exists>s. tk_utf8_from_utf16 2 [0x41, 0xD83D, 0xDE00, 0xDC00] 25 = (True, s) \<and> CHR 0x00 \<notin> set s \<and>
     tk_utf8_to_utf16 2 s 5 = Some [0x41, 0xD83D, 0xDE00, 0xDC00]"
  by (rule utf8_roundtrip) (simp_all add: units_ok_def)

text \<open>
  Trimming makes a string decodable and takes no more than needed. What
  \<open>tk_utf8_trim_invalid_char\<close> leaves is a prefix in which the decoder never meets an illegal
  sequence, and when something was cut off, it began with a broken character.
\<close>

theorem utf8_trim_decodes:
  assumes "CHR 0x00 \<notin> set str" and "length str < 2 ^ 32 - 1" and "0 < m"
  shows "\<exists>q \<le> length str. tk_utf8_trim_invalid_char str = take q str \<and>
    (q < length str \<longrightarrow> utf8_get_char str q = None) \<and> tk_utf8_to_utf16 4 (tk_utf8_trim_invalid_char str) m \<noteq> None"
  using trim_loop_decodes[of 0 str] assms
  by (auto simp: tk_utf8_trim_invalid_char_def tk_utf8_to_utf16_def tk_utf8_to_utf16_ex_def min_absorb2)

theorem utf8_trim_decodes_witness:
  "\<exists>q \<le> 3. tk_utf8_trim_invalid_char [CHR 0x41, CHR 0xE4, CHR 0xB8] = take q [CHR 0x41, CHR 0xE4, CHR 0xB8] \<and>
    (q < 3 \<longrightarrow> utf8_get_char [CHR 0x41, CHR 0xE4, CHR 0xB8] q = None) \<and> tk_utf8_to_utf16 4 (tk_utf8_trim_invalid_char [CHR 0x41, CHR 0xE4, CHR 0xB8]) 10 \<noteq> None"
  using utf8_trim_decodes[of "[CHR 0x41, CHR 0xE4, CHR 0xB8]" 10] by (simp add: numeral_3_eq_3)

end
