(* ===== verification/Str.thy ===== *)
theory Str
  imports Circular Utf8 "HOL-Library.Char_ord"
begin

text \<open>
  The growing string of \<open>src/src/tkc/str.c\<close>, with the helpers of \<open>utils.c\<close> it calls.
  \<open>st_str\<close> is the block the structure points to, byte for byte (the empty list is NULL), and
  \<open>st_block\<close> is the size the allocator, or the caller who attached the block, gave it: a write
  beyond the block makes the two disagree. Sizes and capacities are unsigned 32-bit numbers.
  Arguments of type \<open>const char*\<close> are C strings, the characters before their terminator; they
  are not NULL, as the functions check. \<open>alloc\<close> says which block sizes the allocator grants.
\<close>

abbreviation NUL :: char where "NUL \<equiv> CHR 0x00"

section \<open>State\<close>

record str_t =
  st_size :: nat
  st_capacity :: nat
  st_str :: string
  st_extendable :: bool
  st_block :: nat

text \<open>\<open>memcpy\<close> or \<open>memset\<close> of the characters \<open>xs\<close> to \<open>str->str + off\<close>.\<close>

definition put :: "str_t \<Rightarrow> nat \<Rightarrow> string \<Rightarrow> str_t" where
  "put s off xs = s\<lparr>st_str := overwrite (st_str s) off xs\<rparr>"

text \<open>The C string that begins at \<open>off\<close>; \<open>tk_strlen(str->str + off)\<close> is its length.\<close>

definition c_str :: "str_t \<Rightarrow> nat \<Rightarrow> string" where
  "c_str s off = takeWhile (\<lambda>c. c \<noteq> NUL) (drop off (st_str s))"

text \<open>Statements \<open>return_value_if_fail(m == RET_OK, e)\<close> in a row.\<close>

definition if_ok :: "ret_t \<times> str_t \<Rightarrow> ret_t \<Rightarrow> (str_t \<Rightarrow> ret_t \<times> str_t) \<Rightarrow> ret_t \<times> str_t" where
  "if_ok m e f = (case m of (r, s) \<Rightarrow> if r = RET_OK then f s else (e, s))"

section \<open>Storage\<close>

definition str_extend :: "alloc_t \<Rightarrow> str_t \<Rightarrow> nat \<Rightarrow> ret_t \<times> str_t" where
  "str_extend alloc s capacity =
     (if capacity \<le> st_capacity s then (RET_OK, s)
      else if \<not> st_extendable s then (RET_FAIL, s)
      else if capacity > 0 then
        (let n = u32 (capacity + 1)
         in if alloc n then
              (let s = s\<lparr>st_str := take n (st_str s) @ replicate (n - length (st_str s)) NUL, st_block := n\<rparr>;
                   s = put s capacity [NUL];
                   s = s\<lparr>st_capacity := capacity\<rparr>
               in (RET_OK, put s (st_size s) (replicate (capacity + 1 - st_size s) NUL)))
            else (RET_FAIL, s))
      else (RET_OK, s))"

definition str_shrink :: "str_t \<Rightarrow> nat \<Rightarrow> ret_t \<times> str_t" where
  "str_shrink s sz =
     (if sz < st_size s then (RET_OK, put (s\<lparr>st_size := sz\<rparr>) sz [NUL]) else (RET_OK, s))"

definition str_init :: "alloc_t \<Rightarrow> nat \<Rightarrow> str_t option" where
  "str_init alloc capacity =
     (case str_extend alloc \<lparr>st_size = 0, st_capacity = 0, st_str = [], st_extendable = True, st_block = 0\<rparr> capacity of
        (r, s) \<Rightarrow> if r = RET_OK then Some s else None)"

text \<open>The caller's buffer, with its contents.\<close>

definition str_attach_with_size :: "string \<Rightarrow> nat \<Rightarrow> nat \<Rightarrow> str_t option" where
  "str_attach_with_size buff sz capacity =
     (if capacity > 0 \<and> sz < capacity then
        Some (put \<lparr>st_size = sz, st_capacity = capacity, st_str = buff, st_extendable = False, st_block = length buff\<rparr> sz [NUL])
      else None)"

definition str_attach :: "string \<Rightarrow> nat \<Rightarrow> str_t option" where
  "str_attach buff capacity =
     (if capacity > 0 then str_attach_with_size (overwrite buff 0 (replicate capacity NUL)) 0 capacity else None)"

definition str_reset :: "str_t \<Rightarrow> ret_t \<times> str_t" where
  "str_reset s = (RET_OK, s\<lparr>st_str := [], st_block := 0, st_size := 0, st_capacity := 0\<rparr>)"

definition str_clear :: "str_t \<Rightarrow> ret_t \<times> str_t" where
  "str_clear s = (let s = s\<lparr>st_size := 0\<rparr> in (RET_OK, if st_str s \<noteq> [] then put s 0 [NUL] else s))"

section \<open>Setting and appending\<close>

text \<open>\<open>tk_strncpy\<close> pads with NUL up to \<open>len\<close> and stores one more.\<close>

definition tk_strncpy :: "string \<Rightarrow> nat \<Rightarrow> string" where
  "tk_strncpy src len = take len src @ replicate (len - length src) NUL @ [NUL]"

definition str_set_with_len :: "alloc_t \<Rightarrow> str_t \<Rightarrow> string \<Rightarrow> nat \<Rightarrow> ret_t \<times> str_t" where
  "str_set_with_len alloc s text len =
     if_ok (str_extend alloc s (u32 (len + 1))) RET_BAD_PARAMS (\<lambda>s.
       let s = put s 0 (tk_strncpy text len);
           s = put (s\<lparr>st_size := len\<rparr>) len [NUL]
       in (RET_OK, s\<lparr>st_size := length (c_str s 0)\<rparr>))"

definition str_set :: "alloc_t \<Rightarrow> str_t \<Rightarrow> string \<Rightarrow> ret_t \<times> str_t" where
  "str_set alloc s text = str_set_with_len alloc s text (length text)"

definition str_append_with_len :: "alloc_t \<Rightarrow> str_t \<Rightarrow> string \<Rightarrow> nat \<Rightarrow> ret_t \<times> str_t" where
  "str_append_with_len alloc s text sz =
     if_ok (str_extend alloc s (u32 (st_size s + sz + 1))) RET_BAD_PARAMS (\<lambda>s.
       let s = put s (st_size s) (take sz text);
           s = s\<lparr>st_size := u32 (st_size s + sz)\<rparr>
       in (RET_OK, put s (st_size s) [NUL]))"

definition str_append :: "alloc_t \<Rightarrow> str_t \<Rightarrow> string \<Rightarrow> ret_t \<times> str_t" where
  "str_append alloc s text = str_append_with_len alloc s text (length text)"

definition str_append_char :: "alloc_t \<Rightarrow> str_t \<Rightarrow> char \<Rightarrow> ret_t \<times> str_t" where
  "str_append_char alloc s c =
     if_ok (str_extend alloc s (u32 (st_size s + 2))) RET_BAD_PARAMS (\<lambda>s.
       let s = (put s (st_size s) [c])\<lparr>st_size := st_size s + 1\<rparr>
       in (RET_OK, put s (st_size s) [NUL]))"

definition str_append_n_chars :: "alloc_t \<Rightarrow> str_t \<Rightarrow> char \<Rightarrow> nat \<Rightarrow> ret_t \<times> str_t" where
  "str_append_n_chars alloc s c n =
     if_ok (str_extend alloc s (u32 (st_size s + n + 1))) RET_BAD_PARAMS (\<lambda>s.
       let s = (put s (st_size s) (replicate n c))\<lparr>st_size := u32 (st_size s + n)\<rparr>
       in (RET_OK, put s (st_size s) [NUL]))"

text \<open>The encoder leaves the rest of its room as it was, and ends its text with NUL.\<close>

definition str_append_wchar_with_len :: "nat \<Rightarrow> alloc_t \<Rightarrow> str_t \<Rightarrow> nat list \<Rightarrow> nat \<Rightarrow> ret_t \<times> str_t" where
  "str_append_wchar_with_len wsize alloc s text len =
     (let sz = u32 (len * 6 + 1)
      in if_ok (str_extend alloc s (u32 (st_size s + sz + 1))) RET_OOM (\<lambda>s.
           let room = u32 (st_capacity s + 2 ^ 32 - st_size s - 1);
               s = (if room = 0 then s else put s (st_size s) (snd (tk_utf8_from_utf16_ex wsize text len room) @ [NUL]))
           in (RET_OK, s\<lparr>st_size := st_size s + length (c_str s (st_size s))\<rparr>)))"

definition str_append_wchar :: "nat \<Rightarrow> alloc_t \<Rightarrow> str_t \<Rightarrow> nat list \<Rightarrow> ret_t \<times> str_t" where
  "str_append_wchar wsize alloc s text = str_append_wchar_with_len wsize alloc s text (length text)"

definition str_from_wstr_with_len :: "nat \<Rightarrow> alloc_t \<Rightarrow> str_t \<Rightarrow> nat list option \<Rightarrow> nat \<Rightarrow> ret_t \<times> str_t" where
  "str_from_wstr_with_len wsize alloc s wstr len =
     (let s = snd (str_clear s)
      in case wstr of
           None \<Rightarrow> (RET_OK, s)
         | Some ws \<Rightarrow>
             (let sz = u32 (len * 6 + 1)
              in if_ok (str_extend alloc s (u32 (sz + 1))) RET_OOM (\<lambda>s.
                   if sz > 0 then
                     (let s = put s 0 (snd (tk_utf8_from_utf16_ex wsize ws len sz) @ [NUL])
                      in (RET_OK, s\<lparr>st_size := length (c_str s 0)\<rparr>))
                   else (RET_OK, snd (str_set alloc s [])))))"

definition str_from_wstr :: "nat \<Rightarrow> alloc_t \<Rightarrow> str_t \<Rightarrow> nat list \<Rightarrow> ret_t \<times> str_t" where
  "str_from_wstr wsize alloc s ws = str_from_wstr_with_len wsize alloc s (Some ws) (length ws)"

text \<open>\<open>toupper\<close> and \<open>tolower\<close> of the C locale.\<close>

definition toupper :: "char \<Rightarrow> char" where
  "toupper c = (if CHR ''a'' \<le> c \<and> c \<le> CHR ''z'' then char_of (of_char c - 32 :: nat) else c)"

definition tolower :: "char \<Rightarrow> char" where
  "tolower c = (if CHR ''A'' \<le> c \<and> c \<le> CHR ''Z'' then char_of (of_char c + 32 :: nat) else c)"

text \<open>Loops that append character by character; the first failure ends them.\<close>

fun append_each :: "alloc_t \<Rightarrow> (char \<Rightarrow> char) \<Rightarrow> str_t \<Rightarrow> string \<Rightarrow> ret_t \<times> str_t" where
  "append_each alloc f s [] = (RET_OK, s)"
| "append_each alloc f s (c # cs) =
     (case str_append_char alloc s (f c) of (r, s) \<Rightarrow> if r = RET_OK then append_each alloc f s cs else (r, s))"

definition str_append_uppercase :: "alloc_t \<Rightarrow> str_t \<Rightarrow> string \<Rightarrow> ret_t \<times> str_t" where
  "str_append_uppercase alloc s text = append_each alloc toupper s text"

definition str_append_lowercase :: "alloc_t \<Rightarrow> str_t \<Rightarrow> string \<Rightarrow> ret_t \<times> str_t" where
  "str_append_lowercase alloc s text = append_each alloc tolower s text"

text \<open>The arguments up to the NULL that ends them.\<close>

fun append_all :: "alloc_t \<Rightarrow> str_t \<Rightarrow> string list \<Rightarrow> ret_t \<times> str_t" where
  "append_all alloc s [] = (RET_OK, s)"
| "append_all alloc s (p # ps) = if_ok (str_append alloc s p) RET_OOM (\<lambda>s. append_all alloc s ps)"

definition str_append_more :: "alloc_t \<Rightarrow> str_t \<Rightarrow> string \<Rightarrow> string list \<Rightarrow> ret_t \<times> str_t" where
  "str_append_more alloc s text others = if_ok (str_append alloc s text) RET_OOM (\<lambda>s. append_all alloc s others)"

text \<open>What \<open>"%d"\<close> and its kin print.\<close>

fun dec_text :: "nat \<Rightarrow> string" where
  "dec_text n = (if n < 10 then [char_of (48 + n)] else dec_text (n div 10) @ [char_of (48 + n mod 10)])"

definition int_text :: "int \<Rightarrow> string" where
  "int_text i = (if i < 0 then CHR ''-'' # dec_text (nat (- i)) else dec_text (nat i))"

declare dec_text.simps [simp del]

definition str_append_int :: "alloc_t \<Rightarrow> str_t \<Rightarrow> int \<Rightarrow> ret_t \<times> str_t" where
  "str_append_int alloc s value = str_append alloc s (int_text value)"

definition str_append_uint32 :: "alloc_t \<Rightarrow> str_t \<Rightarrow> nat \<Rightarrow> ret_t \<times> str_t" where
  "str_append_uint32 alloc s value = str_append alloc s (dec_text value)"

definition str_append_int64 :: "alloc_t \<Rightarrow> str_t \<Rightarrow> int \<Rightarrow> ret_t \<times> str_t" where
  "str_append_int64 alloc s value = str_append alloc s (int_text value)"

definition str_append_uint64 :: "alloc_t \<Rightarrow> str_t \<Rightarrow> nat \<Rightarrow> ret_t \<times> str_t" where
  "str_append_uint64 alloc s value = str_append alloc s (dec_text value)"

definition str_from_int :: "alloc_t \<Rightarrow> str_t \<Rightarrow> int \<Rightarrow> ret_t \<times> str_t" where
  "str_from_int alloc s value = str_set alloc s (int_text value)"

definition str_from_uint32 :: "alloc_t \<Rightarrow> str_t \<Rightarrow> nat \<Rightarrow> ret_t \<times> str_t" where
  "str_from_uint32 alloc s value = str_set alloc s (dec_text value)"

definition str_from_int64 :: "alloc_t \<Rightarrow> str_t \<Rightarrow> int \<Rightarrow> ret_t \<times> str_t" where
  "str_from_int64 alloc s value = str_set alloc s (int_text value)"

definition str_from_uint64 :: "alloc_t \<Rightarrow> str_t \<Rightarrow> nat \<Rightarrow> ret_t \<times> str_t" where
  "str_from_uint64 alloc s value = str_set alloc s (dec_text value)"

section \<open>Inserting, removing, changing\<close>

definition str_insert_with_len :: "alloc_t \<Rightarrow> str_t \<Rightarrow> nat \<Rightarrow> string \<Rightarrow> nat \<Rightarrow> ret_t \<times> str_t" where
  "str_insert_with_len alloc s offset text sz =
     (if offset \<le> st_size s then
        if_ok (str_extend alloc s (u32 (st_size s + sz + 1))) RET_OOM (\<lambda>s.
          let move_size = st_size s - offset;
              s = (if move_size > 0 then put s (offset + sz) (take move_size (drop offset (st_str s))) else s);
              s = put s offset (take sz text);
              s = s\<lparr>st_size := u32 (st_size s + sz)\<rparr>
          in (RET_OK, put s (st_size s) [NUL]))
      else (RET_BAD_PARAMS, s))"

definition str_insert :: "alloc_t \<Rightarrow> str_t \<Rightarrow> nat \<Rightarrow> string \<Rightarrow> ret_t \<times> str_t" where
  "str_insert alloc s offset text =
     (if offset \<le> st_size s then str_insert_with_len alloc s offset text (length text) else (RET_BAD_PARAMS, s))"

definition str_remove :: "str_t \<Rightarrow> nat \<Rightarrow> nat \<Rightarrow> ret_t \<times> str_t" where
  "str_remove s offset sz =
     (if u32 (offset + sz) \<le> st_size s \<and> sz > 0 then
        (let s = put s offset (c_str s (offset + sz));
             s = s\<lparr>st_size := st_size s - sz\<rparr>
         in (RET_OK, put s (st_size s) [NUL]))
      else (RET_BAD_PARAMS, s))"

definition str_pop :: "str_t \<Rightarrow> ret_t \<times> str_t" where
  "str_pop s =
     (if st_size s > 0 then
        (let s = s\<lparr>st_size := st_size s - 1\<rparr> in (RET_OK, put s (st_size s) [NUL]))
      else (RET_BAD_PARAMS, s))"

text \<open>\<open>tk_str_trim_left\<close> with \<open>tk_skip_chars\<close>, and \<open>tk_str_trim_right\<close>.\<close>

definition tk_str_trim_left :: "str_t \<Rightarrow> string \<Rightarrow> str_t" where
  "tk_str_trim_left s chars =
     (let p = length (takeWhile (\<lambda>c. c \<in> set chars) (c_str s 0))
      in if p \<noteq> 0 then put s 0 (c_str s p @ [NUL]) else s)"

fun trim_end :: "string \<Rightarrow> string \<Rightarrow> nat \<Rightarrow> nat" where
  "trim_end cs chars 0 = 0"
| "trim_end cs chars (Suc p) = (if cs ! p \<in> set chars then trim_end cs chars p else Suc p)"

definition tk_str_trim_right :: "str_t \<Rightarrow> string \<Rightarrow> str_t" where
  "tk_str_trim_right s chars =
     (if c_str s 0 = [] then s else put s (trim_end (c_str s 0) chars (length (c_str s 0))) [NUL])"

definition str_trim_left :: "str_t \<Rightarrow> string \<Rightarrow> ret_t \<times> str_t" where
  "str_trim_left s text =
     (if st_str s = [] then (RET_BAD_PARAMS, s)
      else if st_size s = 0 then (RET_OK, s)
      else (let s = tk_str_trim_left s text in (RET_OK, s\<lparr>st_size := length (c_str s 0)\<rparr>)))"

definition str_trim_right :: "str_t \<Rightarrow> string \<Rightarrow> ret_t \<times> str_t" where
  "str_trim_right s text =
     (if st_str s = [] then (RET_BAD_PARAMS, s)
      else if st_size s = 0 then (RET_OK, s)
      else (let s = tk_str_trim_right s text in (RET_OK, s\<lparr>st_size := length (c_str s 0)\<rparr>)))"

definition str_trim :: "str_t \<Rightarrow> string \<Rightarrow> ret_t \<times> str_t" where
  "str_trim s text = (if st_size s = 0 then (RET_OK, s) else str_trim_right (snd (str_trim_left s text)) text)"

definition tk_str_remove_str_right :: "str_t \<Rightarrow> string \<Rightarrow> str_t" where
  "tk_str_remove_str_right s text =
     (let n = length (c_str s 0); len = length text
      in if len \<le> n \<and> c_str s (n - len) = text then put s (n - len) [NUL] else s)"

definition str_remove_str_right :: "str_t \<Rightarrow> string \<Rightarrow> ret_t \<times> str_t" where
  "str_remove_str_right s text =
     (if st_str s = [] then (RET_BAD_PARAMS, s)
      else if st_size s = 0 then (RET_OK, s)
      else (let s = tk_str_remove_str_right s text in (RET_OK, s\<lparr>st_size := length (c_str s 0)\<rparr>)))"

text \<open>\<open>for (i = 0; i < n; i++) p[i] = f(p[i]);\<close>\<close>

definition map_chars :: "(char \<Rightarrow> char) \<Rightarrow> str_t \<Rightarrow> ret_t \<times> str_t" where
  "map_chars f s =
     (if st_str s = [] then (RET_BAD_PARAMS, s) else (RET_OK, put s 0 (map f (take (st_size s) (st_str s)))))"

definition str_to_lower :: "str_t \<Rightarrow> ret_t \<times> str_t" where
  "str_to_lower s = map_chars tolower s"

definition str_to_upper :: "str_t \<Rightarrow> ret_t \<times> str_t" where
  "str_to_upper s = map_chars toupper s"

text \<open>\<open>while (start < end)\<close> of \<open>str_reverse\<close>, on the indices of the two ends.\<close>

function swap_ends :: "string \<Rightarrow> nat \<Rightarrow> nat \<Rightarrow> string" where
  "swap_ends b i j = (if i < j then swap_ends (b[i := b ! j, j := b ! i]) (Suc i) (j - 1) else b)"
  by pat_completeness auto
termination by (relation "measure (\<lambda>(b, i, j). j - i)") auto

declare swap_ends.simps [simp del]

definition str_reverse :: "str_t \<Rightarrow> ret_t \<times> str_t" where
  "str_reverse s =
     (if st_size s > 1 then (RET_OK, s\<lparr>st_str := swap_ends (st_str s) 0 (st_size s - 1)\<rparr>) else (RET_OK, s))"

definition str_dequote :: "str_t \<Rightarrow> char \<Rightarrow> ret_t \<times> str_t" where
  "str_dequote s quote_char =
     (if st_str s \<noteq> [] \<and> st_size s \<ge> 2 \<and> st_str s ! 0 = quote_char \<and> st_str s ! (st_size s - 1) = quote_char then
        (let s = put s 0 (take (st_size s - 2) (drop 1 (st_str s)));
             s = s\<lparr>st_size := st_size s - 2\<rparr>
         in (RET_OK, put s (st_size s) [NUL]))
      else (RET_BAD_PARAMS, s))"

text \<open>\<open>other\<close> is read up to its terminator.\<close>

function prefix_len :: "str_t \<Rightarrow> string \<Rightarrow> nat \<Rightarrow> nat" where
  "prefix_len s other i =
     (if i < st_size s \<and> i < st_capacity s \<and> i < length other \<and> st_str s ! i = other ! i then prefix_len s other (Suc i) else i)"
  by pat_completeness auto
termination by (relation "measure (\<lambda>(s, other, i). st_size s - i)") auto

declare prefix_len.simps [simp del]

definition str_common_prefix :: "str_t \<Rightarrow> string \<Rightarrow> ret_t \<times> str_t" where
  "str_common_prefix s other =
     (if st_str s = [] then (RET_BAD_PARAMS, s)
      else (let i = prefix_len s other 0
            in if i < st_capacity s then (RET_OK, (put s i [NUL])\<lparr>st_size := i\<rparr>)
               else if st_capacity s > 0 then
                 (RET_OK, (put s (st_capacity s - 1) [NUL])\<lparr>st_size := st_capacity s - 1\<rparr>)
               else (RET_OK, s\<lparr>st_size := i\<rparr>)))"

section \<open>Searching and replacing\<close>

definition str_eq :: "str_t option \<Rightarrow> string option \<Rightarrow> bool" where
  "str_eq s text =
     (case (s, text) of
        (None, None) \<Rightarrow> True
      | (Some s, None) \<Rightarrow> st_str s = []
      | (None, Some _) \<Rightarrow> False
      | (Some s, Some t) \<Rightarrow> st_str s \<noteq> [] \<and> c_str s 0 = t)"

definition str_start_with :: "str_t \<Rightarrow> string \<Rightarrow> bool" where
  "str_start_with s text \<longleftrightarrow> st_str s \<noteq> [] \<and> take (length text) (c_str s 0) = text"

definition str_end_with :: "str_t \<Rightarrow> string \<Rightarrow> bool" where
  "str_end_with s text \<longleftrightarrow> st_str s \<noteq> [] \<and> length text \<le> st_size s \<and>
     take (length text) (c_str s (st_size s - length text)) = text"

text \<open>\<open>strstr\<close>: the rest of the string from the first occurrence on.\<close>

fun strstr :: "string \<Rightarrow> string \<Rightarrow> string option" where
  "strstr [] t = (if t = [] then Some [] else None)"
| "strstr (c # cs) t = (if take (length t) (c # cs) = t then Some (c # cs) else strstr cs t)"

lemma strstr_length: "strstr p t = Some q \<Longrightarrow> t \<noteq> [] \<Longrightarrow> q \<noteq> [] \<and> length q \<le> length p"
  by (induction p t rule: strstr.induct) (auto split: if_splits)

function count_loop :: "string \<Rightarrow> string \<Rightarrow> nat" where
  "count_loop p t =
     (if t = [] then 0
      else (case strstr p t of None \<Rightarrow> 0 | Some q \<Rightarrow> Suc (count_loop (drop (length t) q) t)))"
  by pat_completeness auto
termination
  by (relation "measure (\<lambda>(p, t). length p)") (auto dest!: strstr_length simp: neq_Nil_conv)

declare count_loop.simps [simp del]

definition str_count_sub_str :: "str_t \<Rightarrow> string \<Rightarrow> nat \<Rightarrow> nat" where
  "str_count_sub_str s t start_pos = count_loop (c_str s start_pos) t"

definition str_count :: "str_t \<Rightarrow> string \<Rightarrow> nat" where
  "str_count s substr = str_count_sub_str s substr 0"

text \<open>
  The loop of \<open>str_replace_impl\<close>: the text it writes for the C string that is left. In place
  the write position never passes the read position, for the new text is no longer than the old one.
\<close>

function replace_loop :: "string \<Rightarrow> string \<Rightarrow> string \<Rightarrow> string" where
  "replace_loop p t new_text =
     (if p = [] \<or> t = [] then p
      else if take (length t) p = t then new_text @ replace_loop (drop (length t) p) t new_text
      else hd p # replace_loop (tl p) t new_text)"
  by pat_completeness auto
termination by (relation "measure (\<lambda>(p, t, n). length p)") auto

declare replace_loop.simps [simp del]

definition str_replace_impl :: "str_t \<Rightarrow> string \<Rightarrow> nat \<Rightarrow> string \<Rightarrow> string \<Rightarrow> nat \<times> str_t" where
  "str_replace_impl s dst start_pos t new_text =
     (let out = take start_pos (st_str s) @ replace_loop (c_str s start_pos) t new_text
      in (length out, s\<lparr>st_str := overwrite dst 0 (out @ [NUL])\<rparr>))"

definition str_replace_ex :: "alloc_t \<Rightarrow> str_t \<Rightarrow> nat \<Rightarrow> string \<Rightarrow> string \<Rightarrow> ret_t \<times> str_t" where
  "str_replace_ex alloc s pos t new_text =
     (if st_str s = [] \<or> t = [] \<or> \<not> pos < st_size s then (RET_BAD_PARAMS, s)
      else (let count = str_count_sub_str s t pos
            in if count > 0 then
                 (if length new_text \<le> length t then
                    (case str_replace_impl s (st_str s) pos t new_text of (sz, s) \<Rightarrow> (RET_OK, s\<lparr>st_size := sz\<rparr>))
                  else if st_extendable s then
                    (let capacity = u32 (st_size s + count * (length new_text - length t) + 1);
                         temp_str = (if alloc capacity then replicate capacity NUL else [])
                     in case str_replace_impl s temp_str pos t new_text of
                          (sz, s) \<Rightarrow> (RET_OK, s\<lparr>st_size := sz, st_capacity := capacity, st_block := length temp_str\<rparr>))
                  else (RET_FAIL, s))
               else (RET_OK, s)))"

definition str_replace :: "alloc_t \<Rightarrow> str_t \<Rightarrow> string \<Rightarrow> string \<Rightarrow> ret_t \<times> str_t" where
  "str_replace alloc s t new_text = str_replace_ex alloc s 0 t new_text"

section \<open>Text forms: XML entities, C escapes, JSON, hexadecimal\<close>

definition entity_at :: "string \<Rightarrow> char \<times> nat" where
  "entity_at s =
     (if take 3 s = ''lt;'' then (CHR ''<'', 3)
      else if take 3 s = ''gt;'' then (CHR ''>'', 3)
      else if take 4 s = ''amp;'' then (CHR ''&'', 4)
      else if take 5 s = ''quot;'' \<or> take 6 s = ''quota;'' then (CHR 0x22, 5)
      else if take 5 s = ''nbsp;'' then (CHR '' '', 5)
      else (CHR ''&'', 0))"

text \<open>\<open>n\<close> is \<open>s - text\<close>.\<close>

function decode_entities :: "string \<Rightarrow> nat \<Rightarrow> nat \<Rightarrow> string" where
  "decode_entities s n len =
     (if s \<noteq> [] \<and> n < len then
        (case (if hd s = CHR ''&'' then entity_at (tl s) else (hd s, 0)) of
           (c, k) \<Rightarrow> c # decode_entities (drop k (tl s)) (n + 1 + k) len)
      else [])"
  by pat_completeness auto
termination by (relation "measure (\<lambda>(s, n, len). len - n)") auto

declare decode_entities.simps [simp del]

definition str_decode_xml_entity_with_len :: "alloc_t \<Rightarrow> str_t \<Rightarrow> string \<Rightarrow> nat \<Rightarrow> ret_t \<times> str_t" where
  "str_decode_xml_entity_with_len alloc s text len =
     if_ok (str_extend alloc s (u32 (len + 1))) RET_OOM (\<lambda>s.
       let d = decode_entities text 0 len
       in (RET_OK, (put s 0 (d @ [NUL]))\<lparr>st_size := length d\<rparr>))"

definition str_decode_xml_entity :: "alloc_t \<Rightarrow> str_t \<Rightarrow> string \<Rightarrow> ret_t \<times> str_t" where
  "str_decode_xml_entity alloc s text = str_decode_xml_entity_with_len alloc s text (length text)"

definition entity_of :: "char \<Rightarrow> string option" where
  "entity_of c =
     (if c = CHR ''<'' then Some ''&lt;'' else if c = CHR ''>'' then Some ''&gt;''
      else if c = CHR ''&'' then Some ''&amp;'' else if c = CHR 0x22 then Some ''&quot;'' else None)"

fun encode_entities :: "alloc_t \<Rightarrow> str_t \<Rightarrow> string \<Rightarrow> ret_t \<times> str_t" where
  "encode_entities alloc s [] = (RET_OK, s)"
| "encode_entities alloc s (c # cs) =
     if_ok (case entity_of c of Some e \<Rightarrow> str_append alloc s e | None \<Rightarrow> str_append_char alloc s c) RET_OOM
       (\<lambda>s. encode_entities alloc s cs)"

definition str_encode_xml_entity_with_len :: "alloc_t \<Rightarrow> str_t \<Rightarrow> string \<Rightarrow> nat \<Rightarrow> ret_t \<times> str_t" where
  "str_encode_xml_entity_with_len alloc s text len = encode_entities alloc s (take len text)"

definition str_encode_xml_entity :: "alloc_t \<Rightarrow> str_t \<Rightarrow> string \<Rightarrow> ret_t \<times> str_t" where
  "str_encode_xml_entity alloc s text = str_encode_xml_entity_with_len alloc s text (length text)"

text \<open>\<open>s_str_char_escape_pairs\<close>: the letter and the character it stands for.\<close>

definition escape_pairs :: "(char \<times> char) list" where
  "escape_pairs = [(CHR ''n'', CHR 0x0A), (CHR ''t'', CHR 0x09), (CHR ''r'', CHR 0x0D), (CHR ''b'', CHR 0x08),
     (CHR ''f'', CHR 0x0C), (CHR ''a'', CHR 0x07), (CHR ''v'', CHR 0x0B), (CHR ''e'', CHR 0x1B)]"

definition str_escape_char :: "char \<Rightarrow> char" where
  "str_escape_char c = (case find (\<lambda>(e, u). u = c) escape_pairs of Some (e, u) \<Rightarrow> e | None \<Rightarrow> c)"

text \<open>
  The text after the backslash; the result is the character and the number of characters read.
  \<open>scan\<close> is \<open>sscanf(s, "%02x", &v)\<close> of the C library, \<open>0\<close> when there is no number.
\<close>

definition str_unescape_char :: "(string \<Rightarrow> nat) \<Rightarrow> string \<Rightarrow> char \<times> nat" where
  "str_unescape_char scan s =
     (case s of
        [] \<Rightarrow> (CHR 0x5C, 1)
      | c # cs \<Rightarrow>
          if c = CHR 0x27 \<or> c = CHR 0x22 \<or> c = CHR 0x5C \<or> c = CHR ''?'' then (c, 1)
          else if c = CHR ''x'' then (char_of (scan cs), 3)
          else (case find (\<lambda>(e, u). e = c) escape_pairs of Some (e, u) \<Rightarrow> (u, 1) | None \<Rightarrow> (NUL, 1)))"

definition needs_escape :: "char \<Rightarrow> bool" where
  "needs_escape c \<longleftrightarrow> str_escape_char c \<noteq> c \<or> str_escape_char c \<in> {CHR 0x5C, CHR 0x27, CHR 0x22}"

fun escape_loop :: "alloc_t \<Rightarrow> str_t \<Rightarrow> string \<Rightarrow> str_t" where
  "escape_loop alloc s [] = s"
| "escape_loop alloc s (c # cs) =
     (let s = (if needs_escape c then snd (str_append_char alloc s (CHR 0x5C)) else s)
      in escape_loop alloc (snd (str_append_char alloc s (str_escape_char c))) cs)"

text \<open>For a size below \<open>2 ^ 31\<close>: \<open>tk_min_int\<close> takes a larger one for a negative number.\<close>

definition str_append_escape :: "alloc_t \<Rightarrow> str_t \<Rightarrow> string \<Rightarrow> nat \<Rightarrow> ret_t \<times> str_t" where
  "str_append_escape alloc s text sz = (RET_OK, escape_loop alloc s (take (min (length text) sz) text))"

function unescape_loop :: "(string \<Rightarrow> nat) \<Rightarrow> alloc_t \<Rightarrow> str_t \<Rightarrow> string \<Rightarrow> nat \<Rightarrow> nat \<Rightarrow> str_t" where
  "unescape_loop scan alloc s p i sz =
     (if i < sz then
        (let c = hd p
         in case (if c = CHR 0x5C then str_unescape_char scan (tl p) else (c, 0)) of
              (c, nr) \<Rightarrow> unescape_loop scan alloc (snd (str_append_char alloc s c)) (drop nr (tl p)) (i + nr + 1) sz)
      else s)"
  by pat_completeness auto
termination by (relation "measure (\<lambda>(scan, alloc, s, p, i, sz). sz - i)") auto

declare unescape_loop.simps [simp del]

definition str_append_unescape :: "(string \<Rightarrow> nat) \<Rightarrow> alloc_t \<Rightarrow> str_t \<Rightarrow> string \<Rightarrow> nat \<Rightarrow> ret_t \<times> str_t" where
  "str_append_unescape scan alloc s text sz = (RET_OK, unescape_loop scan alloc s text 0 (min (length text) sz))"

text \<open>The loop of \<open>str_unescape\<close> in the block, on the indices of \<open>s\<close> and \<open>d\<close>.\<close>

function unescape_in_place :: "(string \<Rightarrow> nat) \<Rightarrow> str_t \<Rightarrow> nat \<Rightarrow> nat \<Rightarrow> str_t" where
  "unescape_in_place scan s si di =
     (if si < st_size s then
        (let c = st_str s ! si
         in case (if c = CHR 0x5C then str_unescape_char scan (c_str s (si + 1)) else (c, 0)) of
              (c, nr) \<Rightarrow> unescape_in_place scan (put s di [c]) (si + 1 + nr) (di + 1))
      else (put s di [NUL])\<lparr>st_size := di\<rparr>)"
  by pat_completeness auto
termination by (relation "measure (\<lambda>(scan, s, si, di). st_size s - si)") (auto simp: put_def)

declare unescape_in_place.simps [simp del]

definition str_unescape :: "(string \<Rightarrow> nat) \<Rightarrow> str_t \<Rightarrow> ret_t \<times> str_t" where
  "str_unescape scan s = (if st_str s = [] then (RET_BAD_PARAMS, s) else (RET_OK, unescape_in_place scan s 0 0))"

lemma insert_size: "st_size (snd (str_insert_with_len alloc s off text sz)) \<le> st_size s + sz"
  by (auto simp: str_insert_with_len_def if_ok_def str_extend_def put_def Let_def u32_def
      intro: order.trans[OF mod_less_eq_dividend] split: prod.splits if_splits)

lemma escape_measure:
  "i < st_size s \<Longrightarrow> st_size (snd (str_insert_with_len alloc s i t 1)) - (i + 2) < st_size s - i"
  using insert_size[of alloc s i t 1] by linarith

function escape_in_place :: "alloc_t \<Rightarrow> str_t \<Rightarrow> nat \<Rightarrow> str_t" where
  "escape_in_place alloc s i =
     (if i < st_size s then
        (let c = st_str s ! i
         in if needs_escape c then
              escape_in_place alloc (put (snd (str_insert_with_len alloc s i [CHR 0x5C] 1)) (i + 1) [str_escape_char c]) (i + 2)
            else escape_in_place alloc (put s i [str_escape_char c]) (i + 1))
      else s)"
  by pat_completeness auto
termination
  by (relation "measure (\<lambda>(alloc, s, i). st_size s - i)") (auto simp: put_def intro: escape_measure[simplified])

declare escape_in_place.simps [simp del]

definition str_escape :: "alloc_t \<Rightarrow> str_t \<Rightarrow> ret_t \<times> str_t" where
  "str_escape alloc s = (if st_str s = [] then (RET_BAD_PARAMS, s) else (RET_OK, escape_in_place alloc s 0))"

definition str_append_c_str :: "alloc_t \<Rightarrow> str_t \<Rightarrow> string option \<Rightarrow> ret_t \<times> str_t" where
  "str_append_c_str alloc s text =
     if_ok (str_append_char alloc s (CHR 0x22)) RET_OOM (\<lambda>s.
       let s = (case text of Some t \<Rightarrow> snd (str_append_escape alloc s t (length t)) | None \<Rightarrow> s)
       in if_ok (str_append_char alloc s (CHR 0x22)) RET_OOM (\<lambda>s. (RET_OK, s)))"

definition json_escape :: "char \<Rightarrow> string option" where
  "json_escape c =
     (if c = CHR 0x22 then Some [CHR 0x5C, CHR 0x22] else if c = CHR 0x0A then Some [CHR 0x5C, CHR ''n'']
      else if c = CHR 0x0D then Some [CHR 0x5C, CHR ''r''] else if c = CHR 0x09 then Some [CHR 0x5C, CHR ''t'']
      else if c = CHR 0x08 then Some [CHR 0x5C, CHR ''b''] else if c = CHR 0x0C then Some [CHR 0x5C, CHR ''f'']
      else if c = CHR 0x5C then Some [CHR 0x5C, CHR 0x5C] else None)"

fun json_loop :: "alloc_t \<Rightarrow> str_t \<Rightarrow> string \<Rightarrow> ret_t \<times> str_t" where
  "json_loop alloc s [] = (RET_OK, s)"
| "json_loop alloc s (c # cs) =
     if_ok (case json_escape c of Some e \<Rightarrow> str_append alloc s e | None \<Rightarrow> str_append_char alloc s c) RET_OOM
       (\<lambda>s. json_loop alloc s cs)"

definition str_append_json_str :: "alloc_t \<Rightarrow> str_t \<Rightarrow> string option \<Rightarrow> ret_t \<times> str_t" where
  "str_append_json_str alloc s text =
     if_ok (str_append_char alloc s (CHR 0x22)) RET_OOM (\<lambda>s.
       case json_loop alloc s (case text of Some t \<Rightarrow> t | None \<Rightarrow> []) of (r, s) \<Rightarrow>
         if r \<noteq> RET_OK then (r, s)
         else if_ok (str_append_char alloc s (CHR 0x22)) RET_OOM (\<lambda>s. (RET_OK, s)))"

definition str_append_json_int_pair :: "alloc_t \<Rightarrow> str_t \<Rightarrow> string \<Rightarrow> int \<Rightarrow> ret_t \<times> str_t" where
  "str_append_json_int_pair alloc s key value =
     if_ok (str_append_json_str alloc s (Some key)) RET_OOM (\<lambda>s.
       if_ok (str_append_char alloc s (CHR '':'')) RET_OOM (\<lambda>s.
         if_ok (str_append_int alloc s value) RET_OOM (\<lambda>s. (RET_OK, s))))"

definition str_append_json_str_pair :: "alloc_t \<Rightarrow> str_t \<Rightarrow> string \<Rightarrow> string \<Rightarrow> ret_t \<times> str_t" where
  "str_append_json_str_pair alloc s key value =
     if_ok (str_append_json_str alloc s (Some key)) RET_OOM (\<lambda>s.
       if_ok (str_append_char alloc s (CHR '':'')) RET_OOM (\<lambda>s.
         if_ok (str_append_json_str alloc s (Some value)) RET_OOM (\<lambda>s. (RET_OK, s))))"

definition str_append_json_bool_pair :: "alloc_t \<Rightarrow> str_t \<Rightarrow> string \<Rightarrow> bool \<Rightarrow> ret_t \<times> str_t" where
  "str_append_json_bool_pair alloc s key value =
     if_ok (str_append_json_str alloc s (Some key)) RET_OOM (\<lambda>s.
       if_ok (str_append_char alloc s (CHR '':'')) RET_OOM (\<lambda>s.
         if_ok (str_append alloc s (if value then ''true'' else ''false'')) RET_OOM (\<lambda>s. (RET_OK, s))))"

text \<open>\<open>"%02x"\<close>; another format is what \<open>tk_snprintf\<close> prints with it, cut to its buffer.\<close>

definition hex2 :: "nat \<Rightarrow> string" where
  "hex2 b = [''0123456789abcdef'' ! (b div 16 mod 16), ''0123456789abcdef'' ! (b mod 16)]"

fun hex_loop :: "(nat \<Rightarrow> string) \<Rightarrow> alloc_t \<Rightarrow> str_t \<Rightarrow> nat list \<Rightarrow> ret_t \<times> str_t" where
  "hex_loop fmt alloc s [] = (RET_OK, s)"
| "hex_loop fmt alloc s (b # bs) = if_ok (str_append alloc s (take 62 (fmt b))) RET_OOM (\<lambda>s. hex_loop fmt alloc s bs)"

definition str_encode_hex :: "alloc_t \<Rightarrow> str_t \<Rightarrow> nat list \<Rightarrow> (nat \<Rightarrow> string) option \<Rightarrow> ret_t \<times> str_t" where
  "str_encode_hex alloc s data fmt = hex_loop (case fmt of Some f \<Rightarrow> f | None \<Rightarrow> hex2) alloc s data"

section \<open>The text a string holds\<close>

text \<open>
  The block has the size it was given, the capacity lies within it, and the terminator is within the
  capacity. A NULL block has no capacity.
\<close>

definition str_inv :: "str_t \<Rightarrow> bool" where
  "str_inv s \<longleftrightarrow> length (st_str s) = st_block s \<and> st_size s \<le> st_capacity s \<and> st_capacity s \<le> st_block s \<and>
     (st_block s > 0 \<longrightarrow> st_size s < st_capacity s \<and> st_str s ! st_size s = NUL)"

definition str_text :: "str_t \<Rightarrow> string" where
  "str_text s = take (st_size s) (st_str s)"

lemma str_text_length [simp]: "str_inv s \<Longrightarrow> length (str_text s) = st_size s"
  by (auto simp: str_inv_def str_text_def)

lemma str_init_spec:
  assumes "str_init alloc capacity = Some s" and "capacity + 1 < 2 ^ 32"
  shows "str_inv s \<and> str_text s = [] \<and> st_extendable s"
  using assms by (auto simp: str_init_def str_extend_def put_def overwrite_def str_inv_def str_text_def nth_append Let_def
      split: if_splits)

lemma str_attach_spec:
  assumes "str_attach_with_size buff sz capacity = Some s" and "capacity \<le> length buff"
  shows "str_inv s \<and> str_text s = take sz buff \<and> \<not> st_extendable s"
  using assms by (auto simp: str_attach_with_size_def put_def overwrite_def str_inv_def str_text_def nth_append split: if_splits)

text \<open>Storing a text of \<open>n\<close> characters and its terminator.\<close>

lemma str_store:
  assumes "str_inv s" and "length b = st_block s" and "n < st_capacity s"
  shows "str_inv (s\<lparr>st_size := n, st_str := overwrite b n [NUL]\<rparr>)"
    and "str_text (s\<lparr>st_size := n, st_str := overwrite b n [NUL]\<rparr>) = take n b"
  using assms by (auto simp: str_inv_def str_text_def overwrite_def nth_append)

lemma str_extend_spec:
  assumes inv: "str_inv s" and cap: "capacity + 1 < 2 ^ 32" and run: "str_extend alloc s capacity = (r, s')"
  shows "str_inv s'" "str_text s' = str_text s" "st_size s' = st_size s" "st_extendable s' = st_extendable s"
    "r = RET_OK \<Longrightarrow> capacity \<le> st_capacity s'" "r = RET_OK \<or> r = RET_FAIL \<and> s' = s"
    "r = RET_OK \<longleftrightarrow> capacity \<le> st_capacity s \<or> st_extendable s \<and> alloc (capacity + 1)"
proof -
  have "str_inv s' \<and> str_text s' = str_text s \<and> st_size s' = st_size s \<and> st_extendable s' = st_extendable s \<and>
    (r = RET_OK \<longrightarrow> capacity \<le> st_capacity s') \<and> (r = RET_OK \<or> r = RET_FAIL \<and> s' = s) \<and>
    (r = RET_OK \<longleftrightarrow> capacity \<le> st_capacity s \<or> st_extendable s \<and> alloc (capacity + 1))"
  proof (cases "capacity \<le> st_capacity s \<or> \<not> st_extendable s \<or> \<not> alloc (capacity + 1)")
    case True
    then show ?thesis using run inv cap by (auto simp: str_extend_def split: if_splits)
  next
    case False
    have le: "length (st_str s) \<le> capacity + 1 \<or> st_size s \<le> capacity" "st_size s < capacity" "st_size s \<le> length (st_str s)"
      using inv False by (auto simp: str_inv_def)
    have s': "r = RET_OK" "s' = s\<lparr>st_str := take (st_size s) (st_str s) @ replicate (capacity + 1 - st_size s) NUL,
        st_block := capacity + 1, st_capacity := capacity\<rparr>"
      using run False cap le(2,3) by (auto simp: str_extend_def put_def overwrite_def Let_def min_def)
    then show ?thesis using le inv False by (auto simp: str_inv_def str_text_def nth_append)
  qed
  then show "str_inv s'" "str_text s' = str_text s" "st_size s' = st_size s" "st_extendable s' = st_extendable s"
    "r = RET_OK \<Longrightarrow> capacity \<le> st_capacity s'" "r = RET_OK \<or> r = RET_FAIL \<and> s' = s"
    "r = RET_OK \<longleftrightarrow> capacity \<le> st_capacity s \<or> st_extendable s \<and> alloc (capacity + 1)" by blast+
qed

end
