(* ===== verification/StrText.thy ===== *)
theory StrText
  imports Str
begin

text \<open>
  What the operations of \<open>Str\<close> do to the text a string holds. Each operation either succeeds
  and changes the text by a function on lists, or fails and leaves the text as it was; in both cases
  it writes within its block only and keeps the terminator. The escaped forms (C escapes, XML
  entities) are read back as they were.
\<close>

section \<open>Results of operations\<close>

definition grants :: "alloc_t \<Rightarrow> str_t \<Rightarrow> bool" where
  "grants alloc s \<longleftrightarrow> st_extendable s \<and> (\<forall>n. alloc n)"

lemma str_upd_swap: "s\<lparr>st_size := n, st_str := b\<rparr> = (s\<lparr>st_str := b, st_size := n\<rparr> :: str_t)"
  by (cases s) simp

text \<open>The operation yields the text \<open>t\<close> or fails for want of memory.\<close>

definition yields :: "alloc_t \<Rightarrow> str_t \<Rightarrow> string \<Rightarrow> ret_t \<times> str_t \<Rightarrow> bool" where
  "yields alloc s t m \<longleftrightarrow>
     (case m of (r, s') \<Rightarrow> str_inv s' \<and> st_extendable s' = st_extendable s \<and>
        (r = RET_OK \<longrightarrow> str_text s' = t) \<and> (r \<noteq> RET_OK \<longrightarrow> str_text s' = str_text s \<and> \<not> grants alloc s))"

lemma yields_same [intro]: "str_inv s \<Longrightarrow> str_text s = t \<Longrightarrow> yields alloc s t (RET_OK, s)"
  by (simp add: yields_def)

lemma yields_storeI:
  assumes "str_inv s" and "length b = st_block s" and "n < st_capacity s"
    and "s' = s\<lparr>st_size := n, st_str := overwrite b n [NUL]\<rparr>" and "t = take n b"
  shows "yields alloc s t (RET_OK, s')"
  using str_store[OF assms(1-3)] assms(4,5) by (simp add: yields_def)

lemma yields_extend:
  assumes inv: "str_inv s" and cap: "capacity + 1 < 2 ^ 32" and e: "e \<noteq> RET_OK"
    and step: "\<And>s1. str_inv s1 \<Longrightarrow> str_text s1 = str_text s \<Longrightarrow> st_size s1 = st_size s \<Longrightarrow> capacity \<le> st_capacity s1 \<Longrightarrow>
      yields alloc s1 t (f s1)"
  shows "yields alloc s t (if_ok (str_extend alloc s capacity) e f)"
proof -
  obtain r s1 where run: "str_extend alloc s capacity = (r, s1)" by fastforce
  note x = str_extend_spec[OF inv cap run]
  show ?thesis
  proof (cases "r = RET_OK")
    case True
    then show ?thesis using step[OF x(1-3) x(5)] run x(2,4) by (auto simp: if_ok_def yields_def grants_def)
  next
    case False
    then show ?thesis using x run e by (auto simp: if_ok_def yields_def grants_def)
  qed
qed

lemma str_inv_block: "str_inv s \<Longrightarrow> length (st_str s) = st_block s"
  by (simp add: str_inv_def)

lemma str_inv_room: "str_inv s \<Longrightarrow> n < st_capacity s \<Longrightarrow> n < st_block s \<and> n < st_capacity s"
  by (auto simp: str_inv_def)

lemma take_overwrite: "off \<le> length b \<Longrightarrow> take (off + length xs) (overwrite b off xs) = take off b @ xs"
  by (simp add: overwrite_def)

lemma str_append_with_len_yields:
  assumes inv: "str_inv s" and len: "length xs = sz" and fits: "st_size s + sz + 2 < 2 ^ 32"
  shows "yields alloc s (str_text s @ xs) (str_append_with_len alloc s xs sz)"
  unfolding str_append_with_len_def
proof (rule yields_extend[OF inv])
  fix s1 assume s1: "str_inv s1" "str_text s1 = str_text s" "st_size s1 = st_size s" "u32 (st_size s + sz + 1) \<le> st_capacity s1"
  have r: "st_size s + sz < st_block s1 \<and> st_size s + sz < st_capacity s1"
    by (rule str_inv_room) (use s1 fits in simp_all)
  show "yields alloc s1 (str_text s @ xs) (let s = put s1 (st_size s1) (take sz xs); s = s\<lparr>st_size := u32 (st_size s + sz)\<rparr>
      in (RET_OK, put s (st_size s) [NUL]))"
    unfolding Let_def
    by (rule yields_storeI[where b = "overwrite (st_str s1) (st_size s1) xs" and n = "st_size s1 + sz"])
      (use s1 r fits len take_overwrite[of "st_size s1" "st_str s1" xs] in
        \<open>simp_all add: str_inv_block put_def str_text_def\<close>)
qed (use fits in simp_all)

lemma str_append_yields:
  "str_inv s \<Longrightarrow> st_size s + length xs + 2 < 2 ^ 32 \<Longrightarrow> yields alloc s (str_text s @ xs) (str_append alloc s xs)"
  unfolding str_append_def by (rule str_append_with_len_yields) simp_all

lemma str_append_char_eq: "st_size s + 3 < 2 ^ 32 \<Longrightarrow> str_append_char alloc s c = str_append_with_len alloc s [c] 1"
  by (auto simp: str_append_char_def str_append_with_len_def if_ok_def put_def Let_def str_extend_def split: if_splits)

lemma str_append_char_yields:
  "str_inv s \<Longrightarrow> st_size s + 3 < 2 ^ 32 \<Longrightarrow> yields alloc s (str_text s @ [c]) (str_append_char alloc s c)"
  by (simp add: str_append_char_eq str_append_with_len_yields)

lemma str_append_n_chars_eq:
  "str_append_n_chars alloc s c n = str_append_with_len alloc s (replicate n c) n"
  by (simp add: str_append_n_chars_def str_append_with_len_def put_def Let_def)

lemma str_append_n_chars_yields:
  "str_inv s \<Longrightarrow> st_size s + n + 2 < 2 ^ 32 \<Longrightarrow> yields alloc s (str_text s @ replicate n c) (str_append_n_chars alloc s c n)"
  by (simp add: str_append_n_chars_eq str_append_with_len_yields)

lemma c_str_text:
  assumes "str_inv s" and "NUL \<notin> set (str_text s)" and "off \<le> st_size s"
  shows "c_str s off = drop off (str_text s)"
proof (cases "st_block s = 0")
  case True
  then show ?thesis using assms by (auto simp: str_inv_def c_str_def str_text_def)
next
  case False
  then have l: "st_size s < length (st_str s)" "st_str s ! st_size s = NUL" using assms(1) by (auto simp: str_inv_def)
  then have "st_str s = str_text s @ NUL # drop (Suc (st_size s)) (st_str s)"
    using id_take_nth_drop[OF l(1)] by (simp add: str_text_def)
  then have "drop off (st_str s) = drop off (str_text s) @ NUL # drop (Suc (st_size s)) (st_str s)"
    using assms(3) str_text_length[OF assms(1)] by (metis diff_is_0_eq' drop0 drop_append)
  moreover have "NUL \<notin> set (drop off (str_text s))" using assms(2) by (meson in_set_dropD)
  ultimately show ?thesis unfolding c_str_def by (auto simp: takeWhile_append takeWhile_eq_all_conv)
qed

lemma str_set_with_len_yields:
  assumes inv: "str_inv s" and len: "len \<le> length xs" and nul: "NUL \<notin> set xs" and fits: "len + 2 < 2 ^ 32"
  shows "yields alloc s (take len xs) (str_set_with_len alloc s xs len)"
  unfolding str_set_with_len_def
proof (rule yields_extend[OF inv])
  fix s1 assume s1: "str_inv s1" "str_text s1 = str_text s" "st_size s1 = st_size s" "u32 (len + 1) \<le> st_capacity s1"
  have r: "len < st_block s1 \<and> len < st_capacity s1" by (rule str_inv_room) (use s1 fits in simp_all)
  let ?b = "overwrite (st_str s1) 0 (tk_strncpy xs len)"
  let ?s = "s1\<lparr>st_size := len, st_str := overwrite ?b len [NUL]\<rparr>"
  have b: "length ?b = st_block s1" "take len ?b = take len xs"
    using s1 r len by (auto simp: str_inv_block tk_strncpy_def) (simp add: overwrite_def)
  note st = str_store[OF s1(1) b(1)] r
  have "str_inv ?s" "str_text ?s = take len xs" using st b(2) by simp_all
  moreover have "c_str ?s 0 = take len xs"
    using c_str_text[of ?s 0] calculation nul by (auto dest: in_set_takeD)
  ultimately show "yields alloc s1 (take len xs) (let s = put s1 0 (tk_strncpy xs len); s = put (s\<lparr>st_size := len\<rparr>) len [NUL]
      in (RET_OK, s\<lparr>st_size := length (c_str s 0)\<rparr>))"
    using len by (simp add: yields_def put_def min_absorb2 str_upd_swap)
qed (use fits in simp_all)

lemma str_set_yields:
  "str_inv s \<Longrightarrow> NUL \<notin> set xs \<Longrightarrow> length xs + 2 < 2 ^ 32 \<Longrightarrow> yields alloc s xs (str_set alloc s xs)"
  using str_set_with_len_yields[of s "length xs" xs] by (simp add: str_set_def)

lemma str_insert_with_len_yields:
  assumes inv: "str_inv s" and len: "length xs = sz" and off: "off \<le> st_size s" and fits: "st_size s + sz + 2 < 2 ^ 32"
  shows "yields alloc s (take off (str_text s) @ xs @ drop off (str_text s)) (str_insert_with_len alloc s off xs sz)"
  unfolding str_insert_with_len_def if_P[OF off]
proof (rule yields_extend[OF inv])
  fix s1 assume s1: "str_inv s1" "str_text s1 = str_text s" "st_size s1 = st_size s" "u32 (st_size s + sz + 1) \<le> st_capacity s1"
  have r: "st_size s + sz < st_block s1 \<and> st_size s + sz < st_capacity s1"
    by (rule str_inv_room) (use s1 fits in simp_all)
  define b1 where "b1 = (if st_size s1 - off > 0 then overwrite (st_str s1) (off + sz) (take (st_size s1 - off) (drop off (st_str s1))) else st_str s1)"
  define b where "b = overwrite b1 off xs"
  have l1: "length b1 = st_block s1" using s1(1,3) r off by (auto simp: b1_def str_inv_block)
  have l: "length b = st_block s1" using l1 r len off by (simp add: b_def)
  have "take (st_size s1 + sz) b = take off (str_text s1) @ xs @ drop off (str_text s1)"
    using r s1(1,3) off len l1 by (auto simp: b_def b1_def overwrite_def str_text_def str_inv_block drop_take min_def)
  then show "yields alloc s1 (take off (str_text s) @ xs @ drop off (str_text s))
     (let move_size = st_size s1 - off; s = if move_size > 0 then put s1 (off + sz) (take move_size (drop off (st_str s1))) else s1;
          s = put s off (take sz xs); s = s\<lparr>st_size := u32 (st_size s + sz)\<rparr> in (RET_OK, put s (st_size s) [NUL]))"
    unfolding Let_def
    by (intro yields_storeI[where b = b and n = "st_size s1 + sz"])
      (use s1 r l fits len in \<open>auto simp: put_def b_def b1_def\<close>)
qed (use fits in simp_all)

section \<open>Editing in place\<close>

lemma str_inv_in: "str_inv s \<Longrightarrow> st_block s > 0 \<Longrightarrow> n \<le> st_size s \<Longrightarrow> n < st_block s \<and> n < st_capacity s"
  by (auto simp: str_inv_def)

lemma str_inv_nonnull: "str_inv s \<Longrightarrow> st_str s \<noteq> [] \<longleftrightarrow> st_block s > 0"
  by (auto simp: str_inv_def)

text \<open>Cutting the text, or overwriting its beginning and cutting.\<close>

lemma yields_cut:
  assumes "str_inv s" and "st_block s > 0" and "length xs = n" and "n \<le> st_size s"
    and "s' = s\<lparr>st_size := n, st_str := overwrite (overwrite (st_str s) 0 xs) n [NUL]\<rparr>"
  shows "yields alloc s xs (RET_OK, s')"
proof (rule yields_storeI[OF assms(1) _ _ assms(5)])
  have n: "n < st_block s \<and> n < st_capacity s" by (rule str_inv_in) (use assms in auto)
  then show "length (overwrite (st_str s) 0 xs) = st_block s" "n < st_capacity s"
    using assms(1,3) by (simp_all add: str_inv_block)
  show "xs = take n (overwrite (st_str s) 0 xs)" using assms(3) by (simp add: overwrite_def)
qed

lemma overwrite_take: "n \<le> length b \<Longrightarrow> overwrite b 0 (take n b) = b"
  by (simp add: overwrite_def min_absorb2)

lemma str_shrink_yields: "str_inv s \<Longrightarrow> yields alloc s (take n (str_text s)) (str_shrink s n)"
proof (cases "n < st_size s")
  case True
  assume inv: "str_inv s"
  have bl: "st_block s > 0" using True inv by (auto simp: str_inv_def)
  have "n \<le> length (st_str s)" using True inv by (auto simp: str_inv_def)
  then have "yields alloc s (take n (st_str s)) (RET_OK, s\<lparr>st_size := n, st_str := overwrite (st_str s) n [NUL]\<rparr>)"
    by (intro yields_cut[OF inv bl]) (use True in \<open>auto simp: overwrite_take\<close>)
  then show ?thesis using True by (simp add: str_shrink_def put_def str_text_def min_absorb1)
qed (auto simp: str_shrink_def)

lemma str_clear_yields: "str_inv s \<Longrightarrow> yields alloc s [] (str_clear s)"
  using yields_cut[of s "[]" 0] by (auto simp: str_clear_def put_def Let_def str_inv_nonnull overwrite_def str_inv_def
      str_text_def yields_def)

lemma str_pop_yields: "str_inv s \<Longrightarrow> st_size s > 0 \<Longrightarrow> yields alloc s (butlast (str_text s)) (str_pop s)"
  using str_shrink_yields[of s alloc "st_size s - 1"]
  by (simp add: str_pop_def str_shrink_def Let_def put_def butlast_conv_take)

lemma overwrite_end:
  "off + length ys < length b \<Longrightarrow>
   overwrite (overwrite b off ys) (off + length ys) [x] = take off b @ ys @ x # drop (Suc (off + length ys)) b"
  by (simp add: overwrite_def)

lemma str_remove_yields:
  assumes inv: "str_inv s" and nul: "NUL \<notin> set (str_text s)" and r: "off + n \<le> st_size s" "0 < n" and fits: "off + n < 2 ^ 32"
  shows "yields alloc s (take off (str_text s) @ drop (off + n) (str_text s)) (str_remove s off n)"
proof -
  have bl: "st_block s > 0" using r inv by (auto simp: str_inv_def)
  have c: "c_str s (off + n) = drop (off + n) (str_text s)" by (rule c_str_text[OF inv nul r(1)])
  let ?xs = "take off (str_text s) @ drop (off + n) (str_text s)"
  have less: "st_size s - n < st_block s" using r bl inv by (auto simp: str_inv_def)
  have "overwrite (overwrite (st_str s) off (drop (off + n) (str_text s))) (st_size s - n) [NUL] =
      overwrite (overwrite (st_str s) 0 ?xs) (st_size s - n) [NUL]"
    using overwrite_end[of off "drop (off + n) (str_text s)" "st_str s" NUL] overwrite_end[of 0 ?xs "st_str s" NUL] inv r bl less
    by (simp add: str_inv_def str_text_def min_absorb1)
  then have eq: "str_remove s off n =
      (RET_OK, s\<lparr>st_size := st_size s - n, st_str := overwrite (overwrite (st_str s) 0 ?xs) (st_size s - n) [NUL]\<rparr>)"
    using r fits by (simp add: str_remove_def c Let_def put_def str_upd_swap)
  show ?thesis unfolding eq by (rule yields_cut[OF inv bl _ _ refl]) (use r inv in auto)
qed

lemma map_chars_yields:
  assumes inv: "str_inv s" and bl: "st_str s \<noteq> []"
  shows "yields alloc s (map f (str_text s)) (map_chars f s)"
proof -
  have l: "st_size s < length (st_str s)" "st_str s ! st_size s = NUL" using inv bl by (auto simp: str_inv_def)
  let ?xs = "map f (take (st_size s) (st_str s))"
  have len: "length ?xs = st_size s" using l by simp
  have "overwrite (st_str s) 0 ?xs = ?xs @ NUL # drop (Suc (st_size s)) (st_str s)"
    using l len Cons_nth_drop_Suc[OF l(1)] by (simp add: overwrite_def)
  then have eq: "overwrite (st_str s) 0 ?xs = overwrite (overwrite (st_str s) 0 ?xs) (st_size s) [NUL]"
    using overwrite_end[of 0 ?xs "st_str s" NUL] l len by simp
  have s': "map_chars f s = (RET_OK, s\<lparr>st_size := st_size s, st_str := overwrite (overwrite (st_str s) 0 ?xs) (st_size s) [NUL]\<rparr>)"
    unfolding eq[symmetric] using bl by (simp add: map_chars_def put_def)
  show ?thesis unfolding s' str_text_def
    by (rule yields_cut[OF inv _ len _ refl]) (use bl inv in \<open>auto simp: str_inv_nonnull\<close>)
qed

lemma swap_ends_nth:
  assumes "j < length b"
  shows "length (swap_ends b i j) = length b \<and>
    (\<forall>k < length b. swap_ends b i j ! k = (if i \<le> k \<and> k \<le> j then b ! (i + j - k) else b ! k))"
  using assms
proof (induction b i j rule: swap_ends.induct)
  case (1 b i j)
  show ?case
  proof (cases "i < j")
    case True
    let ?b = "b[i := b ! j, j := b ! i]"
    have IH: "length (swap_ends ?b (Suc i) (j - 1)) = length b"
      "\<forall>k < length b. swap_ends ?b (Suc i) (j - 1) ! k = (if Suc i \<le> k \<and> k \<le> j - 1 then ?b ! (i + j - k) else ?b ! k)"
      using "1.IH"[OF True] "1.prems" True by simp_all
    have "swap_ends ?b (Suc i) (j - 1) ! k = (if i \<le> k \<and> k \<le> j then b ! (i + j - k) else b ! k)" if k: "k < length b" for k
    proof -
      consider "k = i" | "k = j" | "i < k \<and> k < j" | "k < i \<or> j < k" by linarith
      then show ?thesis using IH(2) k True "1.prems" by cases (auto simp: nth_list_update)
    qed
    then show ?thesis using IH(1) True by (simp add: swap_ends.simps[of b i j])
  next
    case False
    then have "i + j - k = k" if "i \<le> k" "k \<le> j" for k using that by linarith
    with False show ?thesis by (simp add: swap_ends.simps[of b i j])
  qed
qed

lemma str_reverse_yields:
  assumes inv: "str_inv s"
  shows "yields alloc s (rev (str_text s)) (str_reverse s)"
proof (cases "st_size s > 1")
  case True
  let ?b = "swap_ends (st_str s) 0 (st_size s - 1)"
  have bl: "st_block s > 0" "st_size s < length (st_str s)" using True inv by (auto simp: str_inv_def)
  have sw: "length ?b = length (st_str s)" "\<forall>k < length (st_str s). ?b ! k = (if k \<le> st_size s - 1 then st_str s ! (st_size s - 1 - k) else st_str s ! k)"
    using swap_ends_nth[of "st_size s - 1" "st_str s" 0] bl by auto
  have t: "take (st_size s) ?b = rev (str_text s)"
    using sw bl True by (intro nth_equalityI) (auto simp: str_text_def rev_nth)
  have "?b = overwrite ?b (st_size s) [NUL]"
  proof -
    have "\<not> st_size s \<le> st_size s - 1" using True by linarith
    then have "?b ! st_size s = NUL" using sw bl inv by (simp add: str_inv_def)
    then show ?thesis using sw(1) bl(2) id_take_nth_drop[of "st_size s" ?b] by (simp add: overwrite_def)
  qed
  then have s': "str_reverse s = (RET_OK, s\<lparr>st_size := st_size s, st_str := overwrite ?b (st_size s) [NUL]\<rparr>)"
    using True by (simp add: str_reverse_def)
  show ?thesis unfolding s'
    by (rule yields_storeI[OF inv _ _ refl]) (use sw(1) bl inv t in \<open>auto simp: str_inv_def\<close>)
next
  case False
  then have "rev (str_text s) = str_text s" using str_text_length[OF inv] by (cases "str_text s"; cases "tl (str_text s)") auto
  then show ?thesis using False inv by (auto simp: str_reverse_def)
qed

lemma str_dequote_yields:
  assumes inv: "str_inv s" and q: "st_str s \<noteq> []" "2 \<le> st_size s" "st_str s ! 0 = q" "st_str s ! (st_size s - 1) = q"
  shows "yields alloc s (butlast (tl (str_text s))) (str_dequote s q)"
proof -
  let ?xs = "take (st_size s - 2) (drop 1 (st_str s))"
  have l: "length ?xs = st_size s - 2" "butlast (tl (str_text s)) = ?xs"
  proof -
    obtain c cs where c: "st_str s = c # cs" using q(1) by (cases "st_str s") auto
    then have n: "st_size s \<le> length cs" using inv by (auto simp: str_inv_def)
    show "length ?xs = st_size s - 2" using c n by simp
    obtain m where "st_size s = Suc (Suc m)" using q(2) by (metis add_2_eq_Suc le_Suc_ex)
    then show "butlast (tl (str_text s)) = ?xs" using c n by (simp add: str_text_def butlast_take)
  qed
  have s': "str_dequote s q = (RET_OK, s\<lparr>st_size := st_size s - 2, st_str := overwrite (overwrite (st_str s) 0 ?xs) (st_size s - 2) [NUL]\<rparr>)"
    using q by (simp add: str_dequote_def Let_def put_def str_upd_swap)
  show ?thesis unfolding s' l(2) by (rule yields_cut[OF inv _ l(1) _ refl]) (use inv q in \<open>auto simp: str_inv_nonnull\<close>)
qed

text \<open>Storing a shorter C string at the beginning and measuring it.\<close>

lemma yields_measure:
  assumes inv: "str_inv s" and bl: "st_block s > 0" and nul: "NUL \<notin> set xs" and len: "length xs \<le> st_size s"
    and b: "st_str s1 = overwrite (overwrite (st_str s) 0 xs) (length xs) [NUL]" and s1: "s1 = s\<lparr>st_str := st_str s1\<rparr>"
  shows "yields alloc s xs (RET_OK, s1\<lparr>st_size := length (c_str s1 0)\<rparr>)"
proof -
  have "takeWhile (\<lambda>c. c \<noteq> NUL) (st_str s1) = xs"
    using overwrite_end[of 0 xs "st_str s" NUL] b len nul inv bl
    by (simp add: str_inv_def takeWhile_append takeWhile_eq_all_conv)
  then have "s1\<lparr>st_size := length (c_str s1 0)\<rparr> =
      s\<lparr>st_size := length xs, st_str := overwrite (overwrite (st_str s) 0 xs) (length xs) [NUL]\<rparr>"
    using b s1 by (metis c_str_def drop0 str_upd_swap str_t.surjective str_t.update_convs(1) str_t.update_convs(3))
  then show ?thesis using yields_cut[OF inv bl refl len] by simp
qed

lemma put_cut: "n \<le> length (st_str s) \<Longrightarrow> st_str (put s n [NUL]) = overwrite (overwrite (st_str s) 0 (take n (st_str s))) n [NUL]"
  by (simp add: put_def overwrite_take)

lemma yields_put_cut:
  assumes inv: "str_inv s" and bl: "st_block s > 0" and nul: "NUL \<notin> set (str_text s)" and n: "n \<le> st_size s" and s1: "s1 = put s n [NUL]"
  shows "yields alloc s (take n (str_text s)) (RET_OK, s1\<lparr>st_size := length (c_str s1 0)\<rparr>)"
proof -
  have l: "n \<le> length (st_str s)" "st_size s \<le> length (st_str s)" using n inv bl by (auto simp: str_inv_def)
  have t: "take n (str_text s) = take n (st_str s)" "length (take n (str_text s)) = n"
    using n l by (auto simp: str_text_def min_absorb1 min_absorb2)
  have "NUL \<notin> set (take n (str_text s))" using nul by (auto dest: in_set_takeD)
  then show ?thesis
    by (rule yields_measure[OF inv bl]) (use t n inv put_cut[OF l(1)] s1 in \<open>auto simp: put_def\<close>)
qed

lemma str_trim_left_yields:
  assumes inv: "str_inv s" and nn: "st_str s \<noteq> []" and nul: "NUL \<notin> set (str_text s)"
  shows "yields alloc s (dropWhile (\<lambda>c. c \<in> set chars) (str_text s)) (str_trim_left s chars)"
proof (cases "st_size s = 0")
  case True
  then show ?thesis using inv nn by (auto simp: str_trim_left_def str_text_def)
next
  case False
  let ?p = "length (takeWhile (\<lambda>c. c \<in> set chars) (str_text s))"
  have c: "c_str s 0 = str_text s" using c_str_text[OF inv nul] by simp
  have p: "?p \<le> st_size s" using length_takeWhile_le[of _ "str_text s"] inv by simp
  have d: "drop ?p (str_text s) = dropWhile (\<lambda>c. c \<in> set chars) (str_text s)" by (simp add: dropWhile_eq_drop)
  have bl: "st_block s > 0" using nn inv by (simp add: str_inv_nonnull)
  show ?thesis
  proof (cases "?p = 0")
    case True
    then have "dropWhile (\<lambda>c. c \<in> set chars) (str_text s) = str_text s" using d by simp
    then show ?thesis using True nn False c inv by (simp add: str_trim_left_def tk_str_trim_left_def str_text_length yields_def)
  next
    case False
    let ?s1 = "put s 0 (c_str s ?p @ [NUL])"
    have cp: "c_str s ?p = drop ?p (str_text s)" by (rule c_str_text[OF inv nul p])
    have "yields alloc s (c_str s ?p) (RET_OK, ?s1\<lparr>st_size := length (c_str ?s1 0)\<rparr>)"
    proof (rule yields_measure[OF inv bl])
      show "NUL \<notin> set (c_str s ?p)" using nul cp by (auto dest: in_set_dropD)
      show le: "length (c_str s ?p) \<le> st_size s" using cp inv by simp
      have "length (c_str s ?p) < length (st_str s)" using le inv bl by (auto simp: str_inv_def)
      then show "st_str ?s1 = overwrite (overwrite (st_str s) 0 (c_str s ?p)) (length (c_str s ?p)) [NUL]"
        using overwrite_end[of 0 "c_str s ?p" "st_str s" NUL] by (simp add: put_def overwrite_def)
    qed (simp add: put_def)
    then show ?thesis using False \<open>st_size s \<noteq> 0\<close> nn c d cp by (simp add: str_trim_left_def tk_str_trim_left_def Let_def)
  qed
qed

lemma trim_end_take: "n \<le> length cs \<Longrightarrow> trim_end cs chars n \<le> n \<and>
    take (trim_end cs chars n) cs = rev (dropWhile (\<lambda>c. c \<in> set chars) (rev (take n cs)))"
  by (induction cs chars n rule: trim_end.induct) (auto simp: take_Suc_conv_app_nth)

lemma str_trim_right_yields:
  assumes inv: "str_inv s" and nn: "st_str s \<noteq> []" and nul: "NUL \<notin> set (str_text s)"
  shows "yields alloc s (rev (dropWhile (\<lambda>c. c \<in> set chars) (rev (str_text s)))) (str_trim_right s chars)"
proof (cases "st_size s = 0")
  case True
  then show ?thesis using inv nn by (auto simp: str_trim_right_def str_text_def)
next
  case False
  have c: "c_str s 0 = str_text s" using c_str_text[OF inv nul] by simp
  have ne: "str_text s \<noteq> []" using False str_text_length[OF inv] by auto
  note t = trim_end_take[of "length (str_text s)" "str_text s" chars]
  have bl: "st_block s > 0" using nn inv by (simp add: str_inv_nonnull)
  show ?thesis
    using yields_put_cut[OF inv bl nul, of "trim_end (str_text s) chars (st_size s)"] t inv nn False c ne
    by (simp add: str_trim_right_def tk_str_trim_right_def Let_def)
qed

lemma str_remove_str_right_yields:
  assumes inv: "str_inv s" and nn: "st_str s \<noteq> []" and nul: "NUL \<notin> set (str_text s)"
  shows "yields alloc s (if \<exists>t. str_text s = t @ xs then take (length (str_text s) - length xs) (str_text s) else str_text s)
    (str_remove_str_right s xs)"
proof (cases "st_size s = 0")
  case True
  then show ?thesis using inv nn by (auto simp: str_remove_str_right_def str_text_def)
next
  case False
  have c: "off \<le> st_size s \<Longrightarrow> c_str s off = drop off (str_text s)" for off using c_str_text[OF inv nul] .
  have "length xs \<le> st_size s \<and> drop (st_size s - length xs) (str_text s) = xs \<longleftrightarrow> (\<exists>t. str_text s = t @ xs)"
    using str_text_length[OF inv] by (auto intro: exI[of _ "take (st_size s - length xs) (str_text s)"]) (metis append_take_drop_id)
  moreover have "take (length (str_text s) - length xs) (str_text s) = take (st_size s - length xs) (str_text s)" using inv by simp
  moreover have "st_block s > 0" using nn inv by (simp add: str_inv_nonnull)
  moreover note yields_put_cut[OF inv this nul, of "st_size s - length xs", OF _ refl] yields_same[OF inv refl]
  ultimately show ?thesis
    using inv nn False c[of 0] c[of "st_size s - length xs"]
    by (simp add: str_remove_str_right_def tk_str_remove_str_right_def Let_def)
qed

text \<open>The length of the common prefix.\<close>

fun common_len :: "string \<Rightarrow> string \<Rightarrow> nat" where
  "common_len (x # xs) (y # ys) = (if x = y then Suc (common_len xs ys) else 0)"
| "common_len xs ys = 0"

lemma common_len_le: "common_len xs ys \<le> length xs"
  by (induction xs ys rule: common_len.induct) auto

lemma prefix_len_eq:
  assumes "str_inv s" and "i \<le> st_size s"
  shows "prefix_len s other i = i + common_len (drop i (str_text s)) (drop i other)"
  using assms
proof (induction s other i rule: prefix_len.induct)
  case (1 s other i)
  show ?case
  proof (cases "i < st_size s \<and> i < length other")
    case True
    have b: "st_block s > 0" using True "1.prems"(1) by (auto simp: str_inv_def)
    then have cap: "st_size s < st_capacity s" using "1.prems"(1) by (simp add: str_inv_def)
    have "i < length (st_str s)" using True b "1.prems"(1) by (auto simp: str_inv_def)
    then have d: "drop i (str_text s) = st_str s ! i # drop (Suc i) (str_text s)" "drop i other = other ! i # drop (Suc i) other"
      using True "1.prems"(1) Cons_nth_drop_Suc[of i "str_text s"] Cons_nth_drop_Suc[of i other] by (auto simp: str_text_def)
    show ?thesis
      using "1.IH" "1.prems" True cap by (subst prefix_len.simps) (auto simp: d)
  next
    case False
    then have "drop i (str_text s) = [] \<or> drop i other = []" using "1.prems" by auto
    then have "common_len (drop i (str_text s)) (drop i other) = 0" by (auto simp: neq_Nil_conv elim: common_len.elims)
    then show ?thesis using False by (subst prefix_len.simps) auto
  qed
qed

lemma str_common_prefix_yields:
  assumes inv: "str_inv s" and nn: "st_str s \<noteq> []"
  shows "yields alloc s (take (common_len (str_text s) other) (str_text s)) (str_common_prefix s other)"
proof -
  let ?i = "common_len (str_text s) other"
  have bl: "st_block s > 0" using nn inv by (simp add: str_inv_nonnull)
  have i: "?i \<le> st_size s" "prefix_len s other 0 = ?i"
    using common_len_le[of "str_text s" other] prefix_len_eq[OF inv, of 0] inv by auto
  then have cap: "?i < st_capacity s" "?i \<le> length (st_str s)" using inv bl by (auto simp: str_inv_def)
  have t: "take ?i (str_text s) = take ?i (st_str s)" using i(1) by (simp add: str_text_def min_absorb1)
  have s': "str_common_prefix s other =
      (RET_OK, s\<lparr>st_size := ?i, st_str := overwrite (overwrite (st_str s) 0 (take ?i (st_str s))) ?i [NUL]\<rparr>)"
    using nn i(2) cap by (simp add: str_common_prefix_def Let_def put_def overwrite_take str_upd_swap)
  show ?thesis unfolding s' t by (rule yields_cut[OF inv bl _ i(1) refl]) (use cap in simp)
qed

section \<open>Replacing\<close>

lemma count_loop_step:
  assumes "t \<noteq> []"
  shows "count_loop p t =
    (if p = [] then 0 else if take (length t) p = t then Suc (count_loop (drop (length t) p) t) else count_loop (tl p) t)"
  using assms by (cases p) (simp_all add: count_loop.simps)

lemma replace_loop_length:
  assumes "t \<noteq> []"
  shows "length (replace_loop p t n) + count_loop p t * length t = length p + count_loop p t * length n"
proof (induction p t n rule: replace_loop.induct)
  case (1 p t n)
  consider "p = []" | "t = []" | (hit) "p \<noteq> []" "t \<noteq> []" "take (length t) p = t" | (miss) "p \<noteq> []" "t \<noteq> []" "take (length t) p \<noteq> t" by blast
  then show ?case
  proof cases
    case hit
    then have "length p = length t + length (drop (length t) p)" by (metis append_take_drop_id length_append)
    then show ?thesis using "1.IH"(1) hit by (simp add: replace_loop.simps[of p t] count_loop_step[of t p])
  next
    case miss
    then show ?thesis using "1.IH"(2) by (simp add: replace_loop.simps[of p t] count_loop_step[of t p])
  qed (simp_all add: replace_loop.simps count_loop.simps)
qed

lemma replace_loop_set: "set (replace_loop p t n) \<subseteq> set p \<union> set n"
proof (induction p t n rule: replace_loop.induct)
  case (1 p t n)
  consider "p = [] \<or> t = []" | (hit) "\<not> (p = [] \<or> t = [])" "take (length t) p = t" | (miss) "\<not> (p = [] \<or> t = [])" "take (length t) p \<noteq> t" by blast
  then show ?case
  proof cases
    case hit
    then have "set (replace_loop p t n) \<subseteq> set n \<union> set (drop (length t) p)"
      using "1.IH"(1) by (subst replace_loop.simps) auto
    then show ?thesis using set_drop_subset[of "length t" p] by blast
  next
    case miss
    then have "set (replace_loop p t n) \<subseteq> {hd p} \<union> (set (tl p) \<union> set n)"
      using "1.IH"(2) by (subst replace_loop.simps) auto
    then show ?thesis using miss(1) by (cases p) auto
  qed (auto simp: replace_loop.simps[of p t])
qed

text \<open>Without an occurrence nothing changes.\<close>

lemma replace_loop_none: "t \<noteq> [] \<Longrightarrow> count_loop p t = 0 \<Longrightarrow> replace_loop p t n = p"
proof (induction p)
  case (Cons c cs)
  then have "take (length t) (c # cs) \<noteq> t \<and> count_loop cs t = 0" using count_loop_step[of t "c # cs"] by (auto split: if_splits)
  then show ?case using Cons by (subst replace_loop.simps) simp
qed (simp add: replace_loop.simps)

definition replaced :: "string \<Rightarrow> nat \<Rightarrow> string \<Rightarrow> string \<Rightarrow> string" where
  "replaced x pos t n = take pos x @ replace_loop (drop pos x) t n"

lemma str_replace_ex_yields:
  assumes inv: "str_inv s" and nn: "st_str s \<noteq> []" and nul: "NUL \<notin> set (str_text s)" and t: "t \<noteq> []" and pos: "pos < st_size s"
    and mem: "length t < length n \<Longrightarrow> st_extendable s \<Longrightarrow> alloc (length (replaced (str_text s) pos t n) + 1)"
    and fits: "length (replaced (str_text s) pos t n) + 1 < 2 ^ 32"
  shows "yields alloc s (replaced (str_text s) pos t n) (str_replace_ex alloc s pos t n)"
proof -
  let ?out = "replaced (str_text s) pos t n"
  let ?count = "count_loop (drop pos (str_text s)) t"
  have bl: "st_block s > 0" using nn inv by (simp add: str_inv_nonnull)
  have c: "c_str s pos = drop pos (str_text s)" using c_str_text[OF inv nul] pos by simp
  have size: "st_size s < length (st_str s)" using inv bl by (auto simp: str_inv_def)
  have out: "take pos (st_str s) @ replace_loop (c_str s pos) t n = ?out"
    using pos by (simp add: replaced_def c str_text_def min_absorb1)
  have len: "length ?out + ?count * length t = st_size s + ?count * length n"
    using replace_loop_length[OF t, of "drop pos (str_text s)" n] pos inv by (simp add: replaced_def min_absorb2)
  have end1: "overwrite b 0 (?out @ [NUL]) = overwrite (overwrite b 0 ?out) (length ?out) [NUL]" if "length ?out < length b" for b
    using that overwrite_end[of 0 ?out b NUL] by (simp add: overwrite_def)
  show ?thesis
  proof (cases "?count = 0")
    case True
    then have "?out = str_text s" by (simp add: replaced_def replace_loop_none[OF t])
    then show ?thesis using True nn t pos inv c by (auto simp: str_replace_ex_def str_count_sub_str_def)
  next
    case False
    show ?thesis
    proof (cases "length n \<le> length t")
      case True
      then have le: "length ?out \<le> st_size s" using len by (metis add_le_cancel_right add_left_mono mult_le_mono2)
      have s': "str_replace_ex alloc s pos t n =
          (RET_OK, s\<lparr>st_size := length ?out, st_str := overwrite (overwrite (st_str s) 0 ?out) (length ?out) [NUL]\<rparr>)"
        using False True nn t pos c out end1[of "st_str s"] le size
        by (simp add: str_replace_ex_def str_count_sub_str_def str_replace_impl_def str_upd_swap Let_def)
      show ?thesis unfolding s' by (rule yields_cut[OF inv bl refl le refl])
    next
      case longer: False
      show ?thesis
      proof (cases "st_extendable s")
        case True
        let ?cap = "length ?out + 1"
        have cap: "u32 (st_size s + ?count * (length n - length t) + 1) = ?cap"
        proof -
          have "?count * (length n - length t) + ?count * length t = ?count * length n"
            using longer by (metis add_mult_distrib2 le_add_diff_inverse2 nat_le_linear)
          then have "st_size s + ?count * (length n - length t) + 1 = ?cap" using len by linarith
          then show ?thesis using fits by simp
        qed
        then have s': "str_replace_ex alloc s pos t n =
            (RET_OK, s\<lparr>st_str := ?out @ [NUL], st_size := length ?out, st_capacity := ?cap, st_block := ?cap\<rparr>)"
          using False longer nn t pos c out True mem
          by (simp add: str_replace_ex_def str_count_sub_str_def str_replace_impl_def overwrite_def Let_def)
        show ?thesis unfolding s' yields_def by (auto simp: str_inv_def str_text_def nth_append)
      next
        case False
        then show ?thesis using longer nn t pos c inv \<open>?count \<noteq> 0\<close>
          by (simp add: str_replace_ex_def str_count_sub_str_def yields_def grants_def)
      qed
    qed
  qed
qed

section \<open>Escaped text\<close>

lemma yieldsE:
  assumes "yields alloc s t m" and "grants alloc s"
  obtains s' where "m = (RET_OK, s')" "str_inv s'" "str_text s' = t" "grants alloc s'" "st_size s' = length t"
  using assms by (cases m) (auto simp: yields_def grants_def str_text_length)

definition entities :: "string \<Rightarrow> string" where
  "entities t = concat (map (\<lambda>c. case entity_of c of Some e \<Rightarrow> e | None \<Rightarrow> [c]) t)"

lemma entities_simps [simp]:
  "entities [] = []" "entities (c # cs) = (case entity_of c of Some e \<Rightarrow> e | None \<Rightarrow> [c]) @ entities cs"
  by (simp_all add: entities_def)

lemma length_entity: "entity_of c = Some e \<Longrightarrow> 1 \<le> length e \<and> length e \<le> 6"
  by (auto simp: entity_of_def split: if_splits)

lemma encode_entities_grants:
  assumes "str_inv s" and "grants alloc s" and "st_size s + length (entities t) + 3 < 2 ^ 32"
  shows "\<exists>s'. encode_entities alloc s t = (RET_OK, s') \<and> str_inv s' \<and> str_text s' = str_text s @ entities t \<and> grants alloc s'"
  using assms
proof (induction t arbitrary: s)
  case (Cons c cs)
  let ?e = "case entity_of c of Some e \<Rightarrow> e | None \<Rightarrow> [c]"
  have room: "st_size s + length ?e + 3 < 2 ^ 32" using Cons.prems(3) by simp
  have "yields alloc s (str_text s @ ?e) (case entity_of c of Some e \<Rightarrow> str_append alloc s e | None \<Rightarrow> str_append_char alloc s c)"
  proof (cases "entity_of c")
    case None
    then show ?thesis using str_append_char_yields[OF Cons.prems(1), of alloc c] room by simp
  next
    case (Some e)
    then show ?thesis using str_append_yields[OF Cons.prems(1), of e alloc] room by simp
  qed
  then obtain s1 where s1: "(case entity_of c of Some e \<Rightarrow> str_append alloc s e | None \<Rightarrow> str_append_char alloc s c) = (RET_OK, s1)"
    "str_inv s1" "str_text s1 = str_text s @ ?e" "grants alloc s1" "st_size s1 = length (str_text s @ ?e)"
    by (rule yieldsE[OF _ Cons.prems(2)]) blast
  then have "st_size s1 + length (entities cs) + 3 < 2 ^ 32" using Cons.prems(1,3) by simp
  from Cons.IH[OF s1(2,4) this] show ?case using s1 by (auto simp: if_ok_def)
qed auto

lemma entity_cases:
  obtains (special) e where "entity_of c = Some (CHR ''&'' # e)" "\<And>rest. entity_at (e @ rest) = (c, length e)"
  | (plain) "entity_of c = None" "c \<noteq> CHR ''&''"
proof (cases "entity_of c")
  case None
  then show ?thesis using plain by (auto simp: entity_of_def split: if_splits)
next
  case (Some e)
  show ?thesis
    by (rule special[of "tl e"]) (use Some in \<open>auto simp: entity_of_def entity_at_def split: if_splits\<close>)
qed

lemma decode_entities_step:
  "n < len \<Longrightarrow> c \<noteq> CHR ''&'' \<Longrightarrow> decode_entities (c # s) n len = c # decode_entities s (Suc n) len"
  "n < len \<Longrightarrow> entity_at s = (c, k) \<Longrightarrow> decode_entities (CHR ''&'' # s) n len = c # decode_entities (drop k s) (n + 1 + k) len"
  by (subst decode_entities.simps; simp)+

lemma decode_encoded_entities: "n + length (entities t) \<le> len \<Longrightarrow> decode_entities (entities t) n len = t"
proof (induction t arbitrary: n)
  case (Cons c cs)
  show ?case
  proof (cases c rule: entity_cases)
    case (special e)
    then show ?thesis using Cons by (simp add: decode_entities_step(2)[OF _ special(2)])
  next
    case plain
    then show ?thesis using Cons by (simp add: decode_entities_step(1))
  qed
qed (simp add: decode_entities.simps)

lemma decode_entities_length: "length (decode_entities s n len) \<le> len - n"
proof (induction s n len rule: decode_entities.induct)
  case (1 s n len)
  show ?case
  proof (cases "s \<noteq> [] \<and> n < len")
    case True
    obtain c k where ck: "(if hd s = CHR ''&'' then entity_at (tl s) else (hd s, 0)) = (c, k)" by fastforce
    have "length (decode_entities (drop k (tl s)) (n + 1 + k) len) \<le> len - (n + 1 + k)"
      using "1.IH"[OF True] ck by simp
    then show ?thesis using True ck by (subst decode_entities.simps) auto
  next
    case False
    then show ?thesis by (subst decode_entities.simps) auto
  qed
qed

lemma str_decode_xml_entity_yields:
  assumes inv: "str_inv s" and fits: "len + 2 < 2 ^ 32"
  shows "yields alloc s (decode_entities t 0 len) (str_decode_xml_entity_with_len alloc s t len)"
  unfolding str_decode_xml_entity_with_len_def
proof (rule yields_extend[OF inv])
  let ?d = "decode_entities t 0 len"
  fix s1 assume s1: "str_inv s1" "str_text s1 = str_text s" "st_size s1 = st_size s" "u32 (len + 1) \<le> st_capacity s1"
  have cap: "length ?d < st_capacity s1" using s1(4) fits decode_entities_length[of t 0 len] by simp
  then have l: "length ?d < length (st_str s1)" using s1(1) by (auto simp: str_inv_def)
  have "overwrite (st_str s1) 0 (?d @ [NUL]) = overwrite (overwrite (st_str s1) 0 ?d) (length ?d) [NUL]"
    using l overwrite_end[of 0 ?d "st_str s1" NUL] by (simp add: overwrite_def)
  then show "yields alloc s1 ?d (let d = ?d in (RET_OK, put s1 0 (d @ [NUL])\<lparr>st_size := length d\<rparr>))"
    unfolding Let_def
    by (intro yields_storeI[OF s1(1), where b = "overwrite (st_str s1) 0 ?d" and n = "length ?d"])
      (use l cap s1(1) in \<open>auto simp: put_def str_upd_swap str_inv_block overwrite_def\<close>)
qed (use fits in simp_all)

text \<open>C escapes.\<close>

definition escaped :: "string \<Rightarrow> string" where
  "escaped t = concat (map (\<lambda>c. if needs_escape c then [CHR 0x5C, str_escape_char c] else [c]) t)"

lemma escaped_simps [simp]:
  "escaped [] = []" "escaped (c # cs) = (if needs_escape c then [CHR 0x5C, str_escape_char c] else [c]) @ escaped cs"
  by (simp_all add: escaped_def)

lemmas escape_table = needs_escape_def str_escape_char_def str_unescape_char_def escape_pairs_def

definition special_chars :: "string" where
  "special_chars = [CHR 0x0A, CHR 0x09, CHR 0x0D, CHR 0x08, CHR 0x0C, CHR 0x07, CHR 0x0B, CHR 0x1B, CHR 0x5C, CHR 0x27, CHR 0x22]"

lemma special_unescape: "c \<in> set special_chars \<Longrightarrow> needs_escape c \<and> str_unescape_char scan (str_escape_char c # rest) = (c, 1)"
  unfolding special_chars_def set_simps
  by (elim insertE; simp only: escape_table) simp_all

lemma not_special: "c \<notin> set special_chars \<Longrightarrow> \<not> needs_escape c \<and> str_escape_char c = c \<and> c \<noteq> CHR 0x5C"
proof -
  assume c: "c \<notin> set special_chars"
  then have "find (\<lambda>(e, u). u = c) escape_pairs = None"
    unfolding find_None_iff by (auto simp: special_chars_def escape_pairs_def)
  then have "str_escape_char c = c" by (simp add: str_escape_char_def)
  then show ?thesis using c by (simp add: needs_escape_def special_chars_def)
qed

lemma needs_escape_cases:
  fixes c :: char and scan :: "string \<Rightarrow> nat"
  obtains (yes) "needs_escape c" "\<And>rest. str_unescape_char scan (str_escape_char c # rest) = (c, 1)"
  | (no) "\<not> needs_escape c" "str_escape_char c = c" "c \<noteq> CHR 0x5C"
  using special_unescape[of c scan] not_special[of c] by (cases "c \<in> set special_chars") blast+

lemma append_char_grants:
  assumes "str_inv s" and "grants alloc s" and "st_size s + 3 < 2 ^ 32"
  obtains s' where "str_append_char alloc s c = (RET_OK, s')" "str_inv s'" "str_text s' = str_text s @ [c]" "grants alloc s'"
    "st_size s' = st_size s + 1"
proof (rule yieldsE[OF str_append_char_yields[OF assms(1,3), of alloc c] assms(2)])
  fix s' assume "str_append_char alloc s c = (RET_OK, s')" "str_inv s'" "str_text s' = str_text s @ [c]" "grants alloc s'"
    "st_size s' = length (str_text s @ [c])"
  then show thesis using assms(1) by (intro that) simp_all
qed

lemma escape_loop_grants:
  assumes "str_inv s" and "grants alloc s" and "st_size s + length (escaped t) + 3 < 2 ^ 32"
  shows "str_inv (escape_loop alloc s t) \<and> str_text (escape_loop alloc s t) = str_text s @ escaped t \<and>
    grants alloc (escape_loop alloc s t)"
  using assms
proof (induction t arbitrary: s)
  case (Cons c cs)
  show ?case
  proof (cases rule: needs_escape_cases[of c "\<lambda>_. 0"])
    case yes
    obtain s1 where s1: "str_append_char alloc s (CHR 0x5C) = (RET_OK, s1)" "str_inv s1" "str_text s1 = str_text s @ [CHR 0x5C]"
      "grants alloc s1" "st_size s1 = st_size s + 1"
      by (rule append_char_grants[of s alloc]) (use Cons.prems in auto)
    obtain s2 where s2: "str_append_char alloc s1 (str_escape_char c) = (RET_OK, s2)" "str_inv s2"
      "str_text s2 = str_text s1 @ [str_escape_char c]" "grants alloc s2" "st_size s2 = st_size s1 + 1"
      by (rule append_char_grants[of s1 alloc]) (use Cons.prems s1 yes in auto)
    have "st_size s2 + length (escaped cs) + 3 < 2 ^ 32" using Cons.prems(3) s1 s2 yes by simp
    from Cons.IH[OF s2(2,4) this] show ?thesis using yes(1) s1 s2 by simp
  next
    case no
    obtain s1 where s1: "str_append_char alloc s c = (RET_OK, s1)" "str_inv s1" "str_text s1 = str_text s @ [c]"
      "grants alloc s1" "st_size s1 = st_size s + 1"
      by (rule append_char_grants[of s alloc]) (use Cons.prems in auto)
    have "st_size s1 + length (escaped cs) + 3 < 2 ^ 32" using Cons.prems(3) s1 no by simp
    from Cons.IH[OF s1(2,4) this] show ?thesis using no s1 by simp
  qed
qed simp

lemma unescape_loop_step:
  "i < sz \<Longrightarrow> c \<noteq> CHR 0x5C \<Longrightarrow>
   unescape_loop scan alloc s (c # p) i sz = unescape_loop scan alloc (snd (str_append_char alloc s c)) p (i + 1) sz"
  "i < sz \<Longrightarrow> str_unescape_char scan p = (c, nr) \<Longrightarrow>
   unescape_loop scan alloc s (CHR 0x5C # p) i sz = unescape_loop scan alloc (snd (str_append_char alloc s c)) (drop nr p) (i + nr + 1) sz"
  by (subst unescape_loop.simps; simp)+

lemma unescape_loop_grants:
  assumes "str_inv s" and "grants alloc s" and "st_size s + length t + 3 < 2 ^ 32" and "i + length (escaped t) = sz"
  shows "str_inv (unescape_loop scan alloc s (escaped t) i sz) \<and> str_text (unescape_loop scan alloc s (escaped t) i sz) = str_text s @ t"
  using assms
proof (induction t arbitrary: s i)
  case (Cons c cs)
  obtain s1 where s1: "str_append_char alloc s c = (RET_OK, s1)" "str_inv s1" "str_text s1 = str_text s @ [c]"
    "grants alloc s1" "st_size s1 = st_size s + 1"
    by (rule append_char_grants[of s alloc]) (use Cons.prems in auto)
  have room: "st_size s1 + length cs + 3 < 2 ^ 32" using Cons.prems(3) s1 by simp
  show ?case
  proof (cases rule: needs_escape_cases[of c scan])
    case yes
    have "unescape_loop scan alloc s (escaped (c # cs)) i sz = unescape_loop scan alloc s1 (escaped cs) (i + 2) sz"
      using unescape_loop_step(2)[OF _ yes(2)] yes(1) s1(1) Cons.prems(4) by simp
    then show ?thesis using Cons.IH[OF s1(2,4) room, of "i + 2"] Cons.prems(4) yes(1) s1(3) by simp
  next
    case no
    have "unescape_loop scan alloc s (escaped (c # cs)) i sz = unescape_loop scan alloc s1 (escaped cs) (i + 1) sz"
      using unescape_loop_step(1)[OF _ no(3)] no(1) s1(1) Cons.prems(4) by simp
    then show ?thesis using Cons.IH[OF s1(2,4) room, of "i + 1"] Cons.prems(4) no(1) s1(3) by simp
  qed
qed (simp add: unescape_loop.simps)

section \<open>A sequence of operations\<close>

datatype str_op =
    Op_set string | Op_append string | Op_append_char char | Op_append_n char nat | Op_insert nat string
  | Op_remove nat nat | Op_pop | Op_clear | Op_shrink nat | Op_reverse | Op_lower | Op_upper | Op_dequote char
  | Op_trim_left string | Op_trim_right string | Op_remove_right string | Op_common_prefix string
  | Op_replace nat string string | Op_decode_xml string

fun str_exec :: "alloc_t \<Rightarrow> str_op \<Rightarrow> str_t \<Rightarrow> ret_t \<times> str_t" where
  "str_exec alloc (Op_set x) s = str_set alloc s x"
| "str_exec alloc (Op_append x) s = str_append alloc s x"
| "str_exec alloc (Op_append_char c) s = str_append_char alloc s c"
| "str_exec alloc (Op_append_n c n) s = str_append_n_chars alloc s c n"
| "str_exec alloc (Op_insert off x) s = str_insert alloc s off x"
| "str_exec alloc (Op_remove off n) s = str_remove s off n"
| "str_exec alloc Op_pop s = str_pop s"
| "str_exec alloc Op_clear s = str_clear s"
| "str_exec alloc (Op_shrink n) s = str_shrink s n"
| "str_exec alloc Op_reverse s = str_reverse s"
| "str_exec alloc Op_lower s = str_to_lower s"
| "str_exec alloc Op_upper s = str_to_upper s"
| "str_exec alloc (Op_dequote q) s = str_dequote s q"
| "str_exec alloc (Op_trim_left x) s = str_trim_left s x"
| "str_exec alloc (Op_trim_right x) s = str_trim_right s x"
| "str_exec alloc (Op_remove_right x) s = str_remove_str_right s x"
| "str_exec alloc (Op_common_prefix x) s = str_common_prefix s x"
| "str_exec alloc (Op_replace pos t n) s = str_replace_ex alloc s pos t n"
| "str_exec alloc (Op_decode_xml x) s = str_decode_xml_entity alloc s x"

text \<open>The same operation on a text; \<open>None\<close> is refused.\<close>

fun text_exec :: "str_op \<Rightarrow> string \<Rightarrow> string option" where
  "text_exec (Op_set x) t = Some x"
| "text_exec (Op_append x) t = Some (t @ x)"
| "text_exec (Op_append_char c) t = Some (t @ [c])"
| "text_exec (Op_append_n c n) t = Some (t @ replicate n c)"
| "text_exec (Op_insert off x) t = (if off \<le> length t then Some (take off t @ x @ drop off t) else None)"
| "text_exec (Op_remove off n) t = (if off + n \<le> length t \<and> 0 < n then Some (take off t @ drop (off + n) t) else None)"
| "text_exec Op_pop t = (if t = [] then None else Some (butlast t))"
| "text_exec Op_clear t = Some []"
| "text_exec (Op_shrink n) t = Some (take n t)"
| "text_exec Op_reverse t = Some (rev t)"
| "text_exec Op_lower t = Some (map tolower t)"
| "text_exec Op_upper t = Some (map toupper t)"
| "text_exec (Op_dequote q) t = (if 2 \<le> length t \<and> hd t = q \<and> last t = q then Some (butlast (tl t)) else None)"
| "text_exec (Op_trim_left x) t = Some (dropWhile (\<lambda>c. c \<in> set x) t)"
| "text_exec (Op_trim_right x) t = Some (rev (dropWhile (\<lambda>c. c \<in> set x) (rev t)))"
| "text_exec (Op_remove_right x) t = Some (if \<exists>u. t = u @ x then take (length t - length x) t else t)"
| "text_exec (Op_common_prefix x) t = Some (take (common_len t x) t)"
| "text_exec (Op_replace pos x n) t = (if x \<noteq> [] \<and> pos < length t then Some (replaced t pos x n) else None)"
| "text_exec (Op_decode_xml x) t = Some (decode_entities x 0 (length x))"

text \<open>
  What a caller must grant: C strings as arguments, sizes that fit into 32 bits, and memory for a
  replacement that makes the text longer, for the code does not check that allocation.
\<close>

fun op_ok :: "alloc_t \<Rightarrow> str_op \<Rightarrow> str_t \<Rightarrow> bool" where
  "op_ok alloc (Op_set x) s \<longleftrightarrow> NUL \<notin> set x \<and> length x + 2 < 2 ^ 32"
| "op_ok alloc (Op_append x) s \<longleftrightarrow> NUL \<notin> set x \<and> st_size s + length x + 2 < 2 ^ 32"
| "op_ok alloc (Op_append_char c) s \<longleftrightarrow> NUL \<noteq> c \<and> st_size s + 3 < 2 ^ 32"
| "op_ok alloc (Op_append_n c n) s \<longleftrightarrow> NUL \<noteq> c \<and> st_size s + n + 2 < 2 ^ 32"
| "op_ok alloc (Op_insert off x) s \<longleftrightarrow> NUL \<notin> set x \<and> st_size s + length x + 2 < 2 ^ 32"
| "op_ok alloc (Op_remove off n) s \<longleftrightarrow> off + n < 2 ^ 32"
| "op_ok alloc (Op_replace pos t n) s \<longleftrightarrow> NUL \<notin> set n \<and> length (replaced (str_text s) pos t n) + 1 < 2 ^ 32 \<and>
     (length t < length n \<and> st_extendable s \<longrightarrow> alloc (length (replaced (str_text s) pos t n) + 1))"
| "op_ok alloc (Op_decode_xml x) s \<longleftrightarrow> NUL \<notin> set x \<and> length x + 2 < 2 ^ 32"
| "op_ok alloc _ s \<longleftrightarrow> st_size s < 2 ^ 32"

lemma str_text_Nil: "str_inv s \<Longrightarrow> str_text s = [] \<longleftrightarrow> st_size s = 0"
  using str_text_length[of s] by (metis length_0_conv)

lemma str_text_ends:
  assumes "str_inv s" and "0 < st_size s"
  shows "st_str s ! 0 = hd (str_text s)" "st_str s ! (st_size s - 1) = last (str_text s)"
proof -
  have "str_text s \<noteq> []" using assms by (simp add: str_text_Nil)
  then show "st_str s ! 0 = hd (str_text s)" "st_str s ! (st_size s - 1) = last (str_text s)"
    using assms by (simp_all add: hd_conv_nth last_conv_nth) (simp_all add: str_text_def)
qed

lemma str_exec_refused:
  assumes "str_inv s" and "op_ok alloc op s" and "text_exec op (str_text s) = None"
  shows "str_exec alloc op s = (RET_BAD_PARAMS, s)"
  using assms
proof (cases op)
  case (Op_dequote q)
  then show ?thesis using assms str_text_ends[of s] by (auto simp: str_dequote_def split: if_splits)
next
  case Op_pop
  have "str_text s = []" using assms(3) Op_pop by (auto split: if_splits)
  then have "st_size s = 0" using str_text_length[OF assms(1)] by simp
  then show ?thesis using Op_pop by (simp add: str_pop_def)
qed (auto simp: str_insert_def str_remove_def str_replace_ex_def split: if_splits)

lemma str_exec_yields:
  assumes inv: "str_inv s" and nul: "NUL \<notin> set (str_text s)" and ok: "op_ok alloc op s"
    and t: "text_exec op (str_text s) = Some t" and run: "str_exec alloc op s = (r, s')"
  shows "yields alloc s t (r, s') \<or> st_str s = [] \<and> r = RET_BAD_PARAMS \<and> s' = s"
proof (cases "st_str s = []")
  case True
  then have e: "st_size s = 0" "str_text s = []" using inv by (auto simp: str_inv_def str_text_def)
  note runs = run[symmetric] str_set_yields[OF inv, of _ alloc] str_append_yields[OF inv, of _ alloc] str_append_char_yields[OF inv, of alloc]
    str_append_n_chars_yields[OF inv, of _ alloc] str_decode_xml_entity_yields[OF inv, of _ alloc]
    str_clear_yields[OF inv, of alloc] str_reverse_yields[OF inv, of alloc] str_shrink_yields[OF inv, of alloc]
    str_insert_with_len_yields[OF inv, of _ _ _ alloc]
  show ?thesis
    by (cases op) (use True e ok t runs in \<open>auto simp: map_chars_def str_to_lower_def str_to_upper_def str_trim_left_def
      str_trim_right_def str_remove_str_right_def str_common_prefix_def str_insert_def str_decode_xml_entity_def split: if_splits\<close>)
next
  case False
  have "yields alloc s t (str_exec alloc op s)"
  proof (cases op)
    case (Op_dequote q)
    then show ?thesis using t inv False str_text_ends[OF inv] str_dequote_yields[OF inv False, of q alloc] by (auto split: if_splits)
  next
    case Op_pop
    then show ?thesis using t inv str_pop_yields[OF inv, of alloc] by (auto simp: str_text_Nil split: if_splits)
  next
    case (Op_remove off n)
    then show ?thesis using t inv ok str_remove_yields[OF inv nul, of off n alloc] by (auto split: if_splits simp: str_inv_def)
  next
    case (Op_remove_right x)
    then show ?thesis using t str_remove_str_right_yields[OF inv False nul, where xs = x and alloc = alloc] by simp
  next
    case (Op_replace pos x n)
    then show ?thesis using t inv ok str_replace_ex_yields[OF inv False nul, of x pos n alloc] by (auto split: if_splits)
  qed (use t ok inv nul False in \<open>auto simp: str_to_lower_def str_to_upper_def str_insert_def str_decode_xml_entity_def
      str_set_yields str_append_yields str_append_char_yields str_append_n_chars_yields str_insert_with_len_yields
      str_clear_yields str_shrink_yields str_reverse_yields map_chars_yields str_trim_left_yields str_trim_right_yields
      str_remove_str_right_yields str_common_prefix_yields str_decode_xml_entity_yields split: if_splits\<close>)
  then show ?thesis using run by simp
qed

lemma case_no_nul: "tolower c = NUL \<longleftrightarrow> c = NUL" "toupper c = NUL \<longleftrightarrow> c = NUL"
proof -
  have *: "CHR ''A'' \<le> c \<Longrightarrow> c \<le> CHR ''Z'' \<Longrightarrow> of_char c + 32 < (256 :: nat)"
    "CHR ''a'' \<le> c \<Longrightarrow> c \<le> CHR ''z'' \<Longrightarrow> 0 < of_char c - (32 :: nat) \<and> of_char c - 32 < (256 :: nat)"
    by (auto simp: less_eq_char_def)
  have 2: "CHR ''A'' \<le> c \<Longrightarrow> c \<noteq> NUL" "CHR ''a'' \<le> c \<Longrightarrow> c \<noteq> NUL" by auto
  show "tolower c = NUL \<longleftrightarrow> c = NUL" "toupper c = NUL \<longleftrightarrow> c = NUL"
    using * 2 char_of_not_nul[of "of_char c + 32"] char_of_not_nul[of "of_char c - 32"]
    by (auto simp: tolower_def toupper_def)
qed

lemma map_no_nul: "(\<And>c. f c = NUL \<longleftrightarrow> c = NUL) \<Longrightarrow> NUL \<notin> set t \<Longrightarrow> NUL \<notin> set (map f t)"
  by (induction t) (simp_all add: eq_commute[of NUL])

lemma decode_entities_set: "NUL \<notin> set s \<Longrightarrow> NUL \<notin> set (decode_entities s n len)"
proof (induction s n len rule: decode_entities.induct)
  case (1 s n len)
  show ?case
  proof (cases "s \<noteq> [] \<and> n < len")
    case True
    obtain c k where ck: "(if hd s = CHR ''&'' then entity_at (tl s) else (hd s, 0)) = (c, k)" by fastforce
    have sub: "NUL \<notin> set (drop k (tl s))" using "1.prems" True by (meson in_set_dropD list.set_sel(2))
    have "c \<noteq> NUL"
    proof -
      have "hd s \<noteq> NUL" using True "1.prems" list.set_sel(1) by metis
      then show ?thesis using ck by (auto simp: entity_at_def split: if_splits)
    qed
    then show ?thesis using "1.IH"[OF True ck[symmetric] sub] True ck by (simp add: decode_entities.simps[of s n len])
  next
    case False
    then have "decode_entities s n len = []" by (subst decode_entities.simps) auto
    then show ?thesis by simp
  qed
qed

lemma text_exec_no_nul:
  assumes "NUL \<notin> set (str_text s)" and "op_ok alloc op s" and "text_exec op (str_text s) = Some t"
  shows "NUL \<notin> set t"
proof (cases op)
  case (Op_replace pos x n)
  then have "t = take pos (str_text s) @ replace_loop (drop pos (str_text s)) x n" using assms(3) by (auto simp: replaced_def split: if_splits)
  then show ?thesis using replace_loop_set[of "drop pos (str_text s)" x n] assms(1,2) Op_replace
    by (auto dest: in_set_takeD in_set_dropD)
next
  case Op_lower
  then have "t = map tolower (str_text s)" using assms(3) by simp
  then show ?thesis using assms(1) map_no_nul[of tolower] case_no_nul(1) by blast
next
  case Op_upper
  then have "t = map toupper (str_text s)" using assms(3) by simp
  then show ?thesis using assms(1) map_no_nul[of toupper] case_no_nul(2) by blast
next
  case (Op_trim_right x)
  then have "t = rev (dropWhile (\<lambda>c. c \<in> set x) (rev (str_text s)))" using assms(3) by simp
  then show ?thesis using assms(1) set_dropWhileD[of NUL _ "rev (str_text s)"] by auto
next
  case (Op_dequote q)
  then show ?thesis using assms by (cases "str_text s") (auto dest: in_set_butlastD split: if_splits)
qed (use assms in \<open>auto simp: decode_entities_set dest: in_set_takeD in_set_dropD in_set_butlastD set_dropWhileD
    split: if_splits\<close>)

section \<open>Operations that append in several steps\<close>

text \<open>
  A failure in the middle leaves what was appended before it. \<open>fits k s\<close>: a string in order, with room for
  \<open>k\<close> more characters in the 32 bits of its size.
\<close>

definition fits :: "nat \<Rightarrow> str_t \<Rightarrow> bool" where
  "fits k s \<longleftrightarrow> str_inv s \<and> NUL \<notin> set (str_text s) \<and> st_size s + k + 2 < 2 ^ 32"

lemma fits_mono: "fits k s \<Longrightarrow> j \<le> k \<Longrightarrow> fits j s"
  by (auto simp: fits_def)

lemma fits_yields:
  assumes "yields alloc s (str_text s @ xs) m" and "fits (length xs + k) s" and "NUL \<notin> set xs"
  shows "fits k (snd m)"
proof -
  obtain r s' where m: "m = (r, s')" by fastforce
  have i: "str_inv s'" "str_text s' = str_text s @ xs \<or> str_text s' = str_text s" using assms(1) m by (auto simp: yields_def)
  then have "st_size s' = length (str_text s @ xs) \<or> st_size s' = length (str_text s)" by (metis str_text_length)
  then show ?thesis using i assms(2,3) m by (auto simp: fits_def)
qed

lemma fits_append: "fits (length xs + k) s \<Longrightarrow> NUL \<notin> set xs \<Longrightarrow> fits k (snd (str_append alloc s xs))"
  by (rule fits_yields[OF str_append_yields]) (auto simp: fits_def)

lemma fits_char: "fits (Suc k) s \<Longrightarrow> c \<noteq> NUL \<Longrightarrow> fits k (snd (str_append_char alloc s c))"
  by (rule fits_yields[OF str_append_char_yields]) (auto simp: fits_def)

lemma fits_if_ok:
  assumes "fits k (snd m)" and "j \<le> k" and "\<And>s. fits k s \<Longrightarrow> fits j (snd (f s))"
  shows "fits j (snd (if_ok m e f))"
  using assms fits_mono by (cases m) (auto simp: if_ok_def)

lemma fits_each:
  "fits (length cs + k) s \<Longrightarrow> (\<And>c. f c = NUL \<longleftrightarrow> c = NUL) \<Longrightarrow> NUL \<notin> set cs \<Longrightarrow> fits k (snd (append_each alloc f s cs))"
proof (induction cs arbitrary: s)
  case (Cons c cs)
  obtain r s1 where c: "str_append_char alloc s (f c) = (r, s1)" by fastforce
  have "f c \<noteq> NUL" using Cons.prems(2)[of c] Cons.prems(3) by auto
  then have s1: "fits (length cs + k) s1" using fits_char[of "length cs + k" s "f c" alloc] Cons.prems(1) c by simp
  have "fits k (snd (append_each alloc f s1 cs))" by (rule Cons.IH[OF s1 Cons.prems(2)]) (use Cons.prems(3) in simp)
  then show ?case using c fits_mono[OF s1, of k] by simp
qed simp

lemma fits_all:
  "fits (sum_list (map length ps) + k) s \<Longrightarrow> \<forall>p \<in> set ps. NUL \<notin> set p \<Longrightarrow> fits k (snd (append_all alloc s ps))"
proof (induction ps arbitrary: s)
  case (Cons p ps)
  show ?case unfolding append_all.simps
    by (rule fits_if_ok[where k = "sum_list (map length ps) + k"]) (use Cons in \<open>auto intro: fits_append simp: add.assoc\<close>)
qed simp

lemma fits_entities:
  "fits (6 * length cs + k) s \<Longrightarrow> NUL \<notin> set cs \<Longrightarrow> fits k (snd (encode_entities alloc s cs))"
proof (induction cs arbitrary: s)
  case (Cons c cs)
  have "fits (6 * length cs + k) (snd (case entity_of c of Some e \<Rightarrow> str_append alloc s e | None \<Rightarrow> str_append_char alloc s c))"
  proof (cases "entity_of c")
    case (Some e)
    then have "length e \<le> 6" "NUL \<notin> set e" by (auto simp: entity_of_def split: if_splits)
    then show ?thesis using Some Cons.prems(1) by (auto intro!: fits_append intro: fits_mono)
  next
    case None
    then show ?thesis using Cons.prems by (auto intro!: fits_char intro: fits_mono)
  qed
  then show ?case unfolding encode_entities.simps by (rule fits_if_ok) (use Cons in auto)
qed simp

lemma escape_char_no_nul: "c \<noteq> NUL \<Longrightarrow> str_escape_char c \<noteq> NUL"
  by (auto simp: str_escape_char_def escape_pairs_def)

lemma fits_escape: "fits (2 * length cs + k) s \<Longrightarrow> NUL \<notin> set cs \<Longrightarrow> fits k (escape_loop alloc s cs)"
proof (induction cs arbitrary: s)
  case (Cons c cs)
  let ?s = "if needs_escape c then snd (str_append_char alloc s (CHR 0x5C)) else s"
  have "fits (Suc (2 * length cs + k)) ?s" using Cons.prems by (auto intro: fits_char fits_mono)
  then have "fits (2 * length cs + k) (snd (str_append_char alloc ?s (str_escape_char c)))"
    using Cons.prems by (intro fits_char escape_char_no_nul) auto
  then show ?case using Cons by (simp add: Let_def)
qed simp

lemma fits_json: "fits (2 * length cs + k) s \<Longrightarrow> NUL \<notin> set cs \<Longrightarrow> fits k (snd (json_loop alloc s cs))"
proof (induction cs arbitrary: s)
  case (Cons c cs)
  have "fits (2 * length cs + k) (snd (case json_escape c of Some e \<Rightarrow> str_append alloc s e | None \<Rightarrow> str_append_char alloc s c))"
  proof (cases "json_escape c")
    case (Some e)
    then have "length e = 2" "NUL \<notin> set e" by (auto simp: json_escape_def split: if_splits)
    then show ?thesis using Some Cons.prems(1) by (auto intro!: fits_append)
  next
    case None
    then show ?thesis using Cons.prems by (auto intro!: fits_char intro: fits_mono)
  qed
  then show ?case unfolding json_loop.simps by (rule fits_if_ok) (use Cons in auto)
qed simp

lemma fits_hex:
  "fits (2 * length bs + k) s \<Longrightarrow> fits k (snd (hex_loop hex2 alloc s bs))"
proof (induction bs arbitrary: s)
  case (Cons b bs)
  have d: "n < 16 \<Longrightarrow> ''0123456789abcdef'' ! n \<noteq> NUL" for n
    using nth_mem[of n "''0123456789abcdef''"] by auto
  have h: "take 62 (hex2 b) = hex2 b" "length (hex2 b) = 2" "NUL \<notin> set (hex2 b)" using d[of "b div 16 mod 16"] d[of "b mod 16"] by (auto simp: hex2_def)
  show ?case unfolding hex_loop.simps
    by (rule fits_if_ok[where k = "2 * length bs + k"]) (use Cons h in \<open>auto intro!: fits_append\<close>)
qed simp

lemma dec_text_no_nul: "NUL \<notin> set (dec_text n)"
proof (induction n rule: dec_text.induct)
  case (1 n)
  have d: "k < 10 \<Longrightarrow> char_of (48 + k) \<noteq> NUL" for k :: nat
  proof
    assume k: "k < 10" "char_of (48 + k) = NUL"
    then have "(of_char (char_of (48 + k) :: char) :: nat) = 0" by simp
    then show False using k(1) by simp
  qed
  show ?case using 1 d[of n] d[of "n mod 10"] by (subst dec_text.simps) auto
qed

lemma int_text_no_nul: "NUL \<notin> set (int_text i)"
  using dec_text_no_nul by (auto simp: int_text_def)

datatype str_multi =
    Multi_more string "string list" | Multi_upper string | Multi_lower string | Multi_entities string | Multi_escape string nat
  | Multi_c_str "string option" | Multi_json_str "string option" | Multi_json_int string int | Multi_json_pair string string
  | Multi_json_bool string bool | Multi_hex "nat list" | Multi_int int | Multi_uint nat

fun multi_exec :: "alloc_t \<Rightarrow> str_multi \<Rightarrow> str_t \<Rightarrow> ret_t \<times> str_t" where
  "multi_exec alloc (Multi_more x xs) s = str_append_more alloc s x xs"
| "multi_exec alloc (Multi_upper x) s = str_append_uppercase alloc s x"
| "multi_exec alloc (Multi_lower x) s = str_append_lowercase alloc s x"
| "multi_exec alloc (Multi_entities x) s = str_encode_xml_entity alloc s x"
| "multi_exec alloc (Multi_escape x n) s = str_append_escape alloc s x n"
| "multi_exec alloc (Multi_c_str x) s = str_append_c_str alloc s x"
| "multi_exec alloc (Multi_json_str x) s = str_append_json_str alloc s x"
| "multi_exec alloc (Multi_json_int key i) s = str_append_json_int_pair alloc s key i"
| "multi_exec alloc (Multi_json_pair key x) s = str_append_json_str_pair alloc s key x"
| "multi_exec alloc (Multi_json_bool key b) s = str_append_json_bool_pair alloc s key b"
| "multi_exec alloc (Multi_hex bs) s = str_encode_hex alloc s bs None"
| "multi_exec alloc (Multi_int i) s = str_append_int alloc s i"
| "multi_exec alloc (Multi_uint n) s = str_append_uint32 alloc s n"

text \<open>The most that is appended, and C strings as arguments.\<close>

fun multi_length :: "str_multi \<Rightarrow> nat" where
  "multi_length (Multi_more x xs) = length x + sum_list (map length xs)"
| "multi_length (Multi_upper x) = length x"
| "multi_length (Multi_lower x) = length x"
| "multi_length (Multi_entities x) = 6 * length x"
| "multi_length (Multi_escape x n) = 2 * length x"
| "multi_length (Multi_c_str x) = 2 + 2 * length (case x of Some t \<Rightarrow> t | None \<Rightarrow> [])"
| "multi_length (Multi_json_str x) = 2 + 2 * length (case x of Some t \<Rightarrow> t | None \<Rightarrow> [])"
| "multi_length (Multi_json_int key i) = 3 + 2 * length key + length (int_text i)"
| "multi_length (Multi_json_pair key x) = 5 + 2 * length key + 2 * length x"
| "multi_length (Multi_json_bool key b) = 8 + 2 * length key"
| "multi_length (Multi_hex bs) = 2 * length bs"
| "multi_length (Multi_int i) = length (int_text i)"
| "multi_length (Multi_uint n) = length (dec_text n)"

fun multi_args :: "str_multi \<Rightarrow> string list" where
  "multi_args (Multi_more x xs) = x # xs"
| "multi_args (Multi_upper x) = [x]" | "multi_args (Multi_lower x) = [x]" | "multi_args (Multi_entities x) = [x]"
| "multi_args (Multi_escape x n) = [x]"
| "multi_args (Multi_c_str x) = (case x of Some t \<Rightarrow> [t] | None \<Rightarrow> [])"
| "multi_args (Multi_json_str x) = (case x of Some t \<Rightarrow> [t] | None \<Rightarrow> [])"
| "multi_args (Multi_json_int key i) = [key]" | "multi_args (Multi_json_pair key x) = [key, x]" | "multi_args (Multi_json_bool key b) = [key]"
| "multi_args _ = []"

definition multi_ok :: "str_multi \<Rightarrow> str_t \<Rightarrow> bool" where
  "multi_ok op s \<longleftrightarrow> st_size s + multi_length op + 2 < 2 ^ 32 \<and> (\<forall>x \<in> set (multi_args op). NUL \<notin> set x)"

text \<open>The quoted forms.\<close>

lemma fits_json_str:
  assumes "fits (2 + 2 * length (case x of Some t \<Rightarrow> t | None \<Rightarrow> []) + k) s" and "\<forall>t. x = Some t \<longrightarrow> NUL \<notin> set t"
  shows "fits k (snd (str_append_json_str alloc s x))"
proof -
  let ?t = "case x of Some t \<Rightarrow> t | None \<Rightarrow> []"
  have body: "fits (Suc k) (snd (json_loop alloc s1 ?t))" if "fits (2 * length ?t + Suc k) s1" for s1
    by (rule fits_json[OF that]) (use assms(2) in \<open>auto split: option.splits\<close>)
  have close: "fits k (snd (if_ok (str_append_char alloc s1 (CHR 0x22)) RET_OOM (\<lambda>s. (RET_OK, s))))" if "fits (Suc k) s1" for s1
    by (rule fits_if_ok[where k = k]) (auto intro: fits_char[OF that])
  show ?thesis unfolding str_append_json_str_def
  proof (rule fits_if_ok[where k = "2 * length ?t + Suc k"])
    show "fits (2 * length ?t + Suc k) (snd (str_append_char alloc s (CHR 0x22)))" by (rule fits_char) (use assms(1) in simp_all)
    fix s1 assume "fits (2 * length ?t + Suc k) s1"
    then have "fits (Suc k) (snd (json_loop alloc s1 ?t))" by (rule body)
    then show "fits k (snd (case json_loop alloc s1 ?t of (r, s) \<Rightarrow>
        if r \<noteq> RET_OK then (r, s) else if_ok (str_append_char alloc s (CHR 0x22)) RET_OOM (\<lambda>s. (RET_OK, s))))"
      using close fits_mono[of "Suc k" _ k] by (auto split: prod.splits)
  qed simp
qed

lemma fits_c_str:
  assumes "fits (2 + 2 * length (case x of Some t \<Rightarrow> t | None \<Rightarrow> []) + k) s" and "\<forall>t. x = Some t \<longrightarrow> NUL \<notin> set t"
  shows "fits k (snd (str_append_c_str alloc s x))"
  unfolding str_append_c_str_def
proof (rule fits_if_ok[where k = "2 * length (case x of Some t \<Rightarrow> t | None \<Rightarrow> []) + Suc k"])
  show "fits (2 * length (case x of Some t \<Rightarrow> t | None \<Rightarrow> []) + Suc k) (snd (str_append_char alloc s (CHR 0x22)))"
    by (rule fits_char) (use assms(1) in simp_all)
  fix s1 assume s1: "fits (2 * length (case x of Some t \<Rightarrow> t | None \<Rightarrow> []) + Suc k) s1"
  have "fits (Suc k) (case x of Some t \<Rightarrow> snd (str_append_escape alloc s1 t (length t)) | None \<Rightarrow> s1)"
    using fits_escape[of _ "Suc k" s1 alloc] s1 assms(2) by (auto simp: str_append_escape_def split: option.splits)
  from fits_char[OF this, of "CHR 0x22" alloc]
  have "fits k (snd (str_append_char alloc (case x of Some t \<Rightarrow> snd (str_append_escape alloc s1 t (length t)) | None \<Rightarrow> s1) (CHR 0x22)))" by simp
  then show "fits k (snd (let s = case x of Some t \<Rightarrow> snd (str_append_escape alloc s1 t (length t)) | None \<Rightarrow> s1
      in if_ok (str_append_char alloc s (CHR 0x22)) RET_OOM (\<lambda>s. (RET_OK, s))))"
    unfolding Let_def by (rule fits_if_ok) simp_all
qed simp

lemma fits_pair:
  assumes "fits (3 + 2 * length key + n + k) s" and "NUL \<notin> set key" and "\<And>s. fits (n + k) s \<Longrightarrow> fits k (snd (f s))"
  shows "fits k (snd (if_ok (str_append_json_str alloc s (Some key)) RET_OOM (\<lambda>s.
    if_ok (str_append_char alloc s (CHR '':'')) RET_OOM (\<lambda>s. if_ok (f s) RET_OOM (\<lambda>s. (RET_OK, s))))))"
proof (rule fits_if_ok[where k = "Suc (n + k)"])
  have "fits (2 + 2 * length (case Some key of Some t \<Rightarrow> t | None \<Rightarrow> []) + Suc (n + k)) s" by (rule fits_mono[OF assms(1)]) simp
  then show "fits (Suc (n + k)) (snd (str_append_json_str alloc s (Some key)))" by (rule fits_json_str) (use assms(2) in simp)
  fix s1 assume "fits (Suc (n + k)) s1"
  then have "fits (n + k) (snd (str_append_char alloc s1 (CHR '':'')))" by (rule fits_char) simp
  then show "fits k (snd (if_ok (str_append_char alloc s1 (CHR '':'')) RET_OOM (\<lambda>s. if_ok (f s) RET_OOM (\<lambda>s. (RET_OK, s)))))"
    by (rule fits_if_ok) (auto intro: fits_if_ok[OF assms(3)])
qed simp

lemma multi_fits:
  assumes "str_inv s" "NUL \<notin> set (str_text s)" and "multi_ok op s" and "multi_exec alloc op s = (r, s')"
  shows "str_inv s' \<and> NUL \<notin> set (str_text s')"
proof -
  have s: "fits (multi_length op) s" "\<forall>x \<in> set (multi_args op). NUL \<notin> set x" using assms(1-3) by (auto simp: fits_def multi_ok_def)
  have "fits 0 (snd (multi_exec alloc op s))"
  proof (cases op)
    case (Multi_more x xs)
    have "fits 0 (snd (if_ok (str_append alloc s x) RET_OOM (\<lambda>s. append_all alloc s xs)))"
      by (rule fits_if_ok[where k = "sum_list (map length xs) + 0"]) (use s Multi_more in \<open>auto intro: fits_append fits_all[where k = 0, simplified]\<close>)
    then show ?thesis using Multi_more by (simp add: str_append_more_def)
  next
    case (Multi_upper x)
    then show ?thesis using s fits_each[of x 0 s toupper alloc] case_no_nul by (simp add: str_append_uppercase_def)
  next
    case (Multi_lower x)
    then show ?thesis using s fits_each[of x 0 s tolower alloc] case_no_nul by (simp add: str_append_lowercase_def)
  next
    case (Multi_entities x)
    then show ?thesis using s fits_entities[of x 0 s alloc] by (simp add: str_encode_xml_entity_def str_encode_xml_entity_with_len_def)
  next
    case (Multi_escape x n)
    have "fits 0 (escape_loop alloc s (take (min (length x) n) x))"
      by (rule fits_escape) (use s Multi_escape in \<open>auto intro: fits_mono dest: in_set_takeD\<close>)
    then show ?thesis using Multi_escape by (simp add: str_append_escape_def)
  next
    case (Multi_c_str x)
    then show ?thesis using s fits_c_str[of x 0 s alloc] by simp
  next
    case (Multi_json_str x)
    then show ?thesis using s fits_json_str[of x 0 s alloc] by simp
  next
    case (Multi_json_int key i)
    have "fits 0 (snd (str_append_int alloc s1 i))" if "fits (length (int_text i) + 0) s1" for s1
      unfolding str_append_int_def by (rule fits_append[OF that int_text_no_nul])
    from fits_pair[where n = "length (int_text i)" and k = 0 and f = "\<lambda>s. str_append_int alloc s i", OF _ _ this] show ?thesis using s Multi_json_int by (simp add: str_append_json_int_pair_def)
  next
    case (Multi_json_pair key x)
    have "fits 0 (snd (str_append_json_str alloc s1 (Some x)))" if "fits (2 + 2 * length x + 0) s1" for s1
      by (rule fits_json_str) (use that s Multi_json_pair in simp_all)
    from fits_pair[where n = "2 + 2 * length x" and k = 0 and f = "\<lambda>s. str_append_json_str alloc s (Some x)", OF _ _ this] show ?thesis using s Multi_json_pair by (simp add: str_append_json_str_pair_def add.assoc)
  next
    case (Multi_json_bool key b)
    have "fits 0 (snd (str_append alloc s1 (if b then ''true'' else ''false'')))" if "fits (5 + 0) s1" for s1
      by (rule fits_append) (use that in \<open>auto intro: fits_mono\<close>)
    from fits_pair[where n = "5" and k = 0 and f = "\<lambda>s. str_append alloc s (if b then ''true'' else ''false'')", OF _ _ this] show ?thesis using s Multi_json_bool by (simp add: str_append_json_bool_pair_def)
  next
    case (Multi_hex bs)
    then show ?thesis using s fits_hex[of bs 0 s alloc] by (simp add: str_encode_hex_def)
  next
    case (Multi_int i)
    then show ?thesis using s fits_append[of "int_text i" 0 s alloc] int_text_no_nul by (simp add: str_append_int_def)
  next
    case (Multi_uint n)
    then show ?thesis using s fits_append[of "dec_text n" 0 s alloc] dec_text_no_nul by (simp add: str_append_uint32_def)
  qed
  then show ?thesis using assms(4) by (simp add: fits_def)
qed

text \<open>The strings a program can get to by these operations.\<close>

inductive str_reach :: "alloc_t \<Rightarrow> str_t \<Rightarrow> bool" for alloc where
  init: "str_init alloc n = Some s \<Longrightarrow> n + 1 < 2 ^ 32 \<Longrightarrow> str_reach alloc s"
| attach: "str_attach_with_size buff sz capacity = Some s \<Longrightarrow> capacity \<le> length buff \<Longrightarrow> NUL \<notin> set (take sz buff) \<Longrightarrow> str_reach alloc s"
| step: "str_reach alloc s \<Longrightarrow> op_ok alloc op s \<Longrightarrow> str_exec alloc op s = (r, s') \<Longrightarrow> str_reach alloc s'"
| multi: "str_reach alloc s \<Longrightarrow> multi_ok mop s \<Longrightarrow> multi_exec alloc mop s = (r, s') \<Longrightarrow> str_reach alloc s'"

inductive_cases str_reach_stepE: "str_reach alloc s"

lemma str_step:
  assumes inv: "str_inv s" and nul: "NUL \<notin> set (str_text s)" and ok: "op_ok alloc op s" and run: "str_exec alloc op s = (r, s')"
  shows "str_inv s' \<and> NUL \<notin> set (str_text s') \<and>
    (r = RET_OK \<longrightarrow> text_exec op (str_text s) = Some (str_text s')) \<and> (r \<noteq> RET_OK \<longrightarrow> str_text s' = str_text s) \<and>
    (grants alloc s \<and> st_str s \<noteq> [] \<longrightarrow> (r = RET_OK \<longleftrightarrow> text_exec op (str_text s) \<noteq> None))"
proof (cases "text_exec op (str_text s)")
  case None
  then show ?thesis using str_exec_refused[OF inv ok None] run inv nul by simp
next
  case (Some t)
  have "NUL \<notin> set t" by (rule text_exec_no_nul[OF nul ok Some])
  then show ?thesis using str_exec_yields[OF inv nul ok Some run] Some inv nul by (auto simp: yields_def)
qed

lemma str_reach_inv: "str_reach alloc s \<Longrightarrow> str_inv s \<and> NUL \<notin> set (str_text s)"
proof (induction rule: str_reach.induct)
  case (init n s)
  then show ?case using str_init_spec by force
next
  case (attach buff sz capacity s)
  then show ?case using str_attach_spec by force
next
  case (step s op r s')
  then show ?case using str_step by blast
next
  case (multi s mop r s')
  then show ?case using multi_fits by blast
qed

text \<open>A reachable string, for the examples.\<close>

lemma str_init_eq:
  "0 < n \<Longrightarrow> n + 1 < 2 ^ 32 \<Longrightarrow> alloc (n + 1) \<Longrightarrow>
   str_init alloc n = Some \<lparr>st_size = 0, st_capacity = n, st_str = replicate (n + 1) NUL, st_extendable = True, st_block = n + 1\<rparr>"
  by (simp add: str_init_def str_extend_def put_def overwrite_def Let_def)

lemma str_reach_abc:
  obtains s where "str_reach (\<lambda>n. True) s" "str_text s = ''abc''" "st_size s = 3" "st_extendable s" "st_str s \<noteq> []"
proof -
  let ?alloc = "\<lambda>n :: nat. True" and ?s0 = "\<lparr>st_size = 0, st_capacity = 2, st_str = replicate 3 NUL, st_extendable = True, st_block = 3\<rparr>"
  have s0: "str_init ?alloc 2 = Some ?s0" using str_init_eq[of 2 ?alloc] by simp
  have inv: "str_inv ?s0" using str_init_spec[OF s0] by simp
  have "yields ?alloc ?s0 (str_text ?s0 @ ''abc'') (str_append ?alloc ?s0 ''abc'')" by (rule str_append_yields[OF inv]) simp
  then obtain s where s: "str_append ?alloc ?s0 ''abc'' = (RET_OK, s)" "str_inv s" "str_text s = str_text ?s0 @ ''abc''" "grants ?alloc s"
    "st_size s = length (str_text ?s0 @ ''abc'')"
    by (rule yieldsE) (auto simp: grants_def)
  have "str_reach ?alloc s"
    by (rule str_reach.step[OF str_reach.init[OF s0], where op = "Op_append ''abc''"]) (use s in auto)
  moreover have "st_str s \<noteq> []" using s(2,5) by (auto simp: str_inv_def)
  ultimately show thesis using s by (intro that) (auto simp: grants_def str_text_def)
qed

section \<open>Properties\<close>





text \<open>
  C20. Escaped text is read back as it was. A text appended with its C escapes is restored by
  \<open>str_append_unescape\<close>, and a text appended with XML entities by
  \<open>str_decode_xml_entity\<close>, whatever characters it consists of, when memory is granted.
\<close>

theorem str_escapes_roundtrip:
  assumes "str_reach alloc a" "grants alloc a" and "str_reach alloc b" "grants alloc b"
    and "st_size a + 6 * length t + 3 < 2 ^ 32" and "st_size b + 6 * length t + 3 < 2 ^ 32" and "NUL \<notin> set t"
  shows "\<exists>a' a'' b' b''. str_append_escape alloc a t (length t) = (RET_OK, a') \<and>
    str_append_unescape scan alloc b (drop (st_size a) (str_text a')) (length (drop (st_size a) (str_text a'))) = (RET_OK, b') \<and>
    str_text b' = str_text b @ t \<and>
    str_encode_xml_entity alloc a t = (RET_OK, a'') \<and>
    str_decode_xml_entity alloc b (drop (st_size a) (str_text a'')) = (RET_OK, b'') \<and> str_text b'' = t"
proof -
  have inv: "str_inv a" "str_inv b" using str_reach_inv assms(1,3) by blast+
  have le: "length (escaped t) \<le> 6 * length t" "length (entities t) \<le> 6 * length t"
    by (induction t) (use length_entity in \<open>auto split: option.splits dest!: spec\<close>, fastforce+)
  define a' where "a' = escape_loop alloc a t"
  have a': "str_text a' = str_text a @ escaped t" using escape_loop_grants[OF inv(1) assms(2), of t] le assms(5) by (simp add: a'_def)
  define b' where "b' = unescape_loop scan alloc b (escaped t) 0 (length (escaped t))"
  have b': "str_text b' = str_text b @ t" using unescape_loop_grants[OF inv(2) assms(4), of t 0 "length (escaped t)" scan] assms(6) by (simp add: b'_def)
  obtain a'' where a'': "encode_entities alloc a t = (RET_OK, a'')" "str_text a'' = str_text a @ entities t"
    using encode_entities_grants[OF inv(1) assms(2), of t] le assms(5) by auto
  have "yields alloc b (decode_entities (entities t) 0 (length (entities t)))
      (str_decode_xml_entity_with_len alloc b (entities t) (length (entities t)))"
    by (rule str_decode_xml_entity_yields[OF inv(2)]) (use le assms(6) in linarith)
  then obtain b'' where b'': "str_decode_xml_entity_with_len alloc b (entities t) (length (entities t)) = (RET_OK, b'')"
    "str_text b'' = decode_entities (entities t) 0 (length (entities t))"
    by (rule yieldsE[OF _ assms(4)])
  have "decode_entities (entities t) 0 (length (entities t)) = t" by (rule decode_encoded_entities) simp
  then show ?thesis using a' b' a'' b'' inv
    by (intro exI[of _ a'] exI[of _ a''] exI[of _ b'] exI[of _ b''])
      (simp add: str_append_escape_def str_append_unescape_def str_encode_xml_entity_def str_encode_xml_entity_with_len_def
        str_decode_xml_entity_def a'_def b'_def)
qed

theorem str_escapes_roundtrip_witness:
  "\<exists>s a' b'. str_append_escape (\<lambda>n. True) s [CHR 0x0A, CHR ''&''] (length [CHR 0x0A, CHR ''&'']) = (RET_OK, a') \<and>
    str_append_unescape (\<lambda>s. 0) (\<lambda>n. True) s (drop 3 (str_text a')) (length (drop 3 (str_text a'))) = (RET_OK, b') \<and>
    str_text b' = ''abc'' @ [CHR 0x0A, CHR ''&'']"
proof -
  obtain s where s: "str_reach (\<lambda>n. True) s" "str_text s = ''abc''" "st_size s = 3" "st_extendable s" "st_str s \<noteq> []"
    by (rule str_reach_abc)
  have g: "grants (\<lambda>n. True) s" using s(4) by (simp add: grants_def)
  let ?t = "[CHR 0x0A, CHR ''&'']"
  have "3 + 6 * length ?t + 3 < 2 ^ 32" "NUL \<notin> set ?t" by simp_all
  then obtain a' b' where "str_append_escape (\<lambda>n. True) s ?t (length ?t) = (RET_OK, a')"
    "str_append_unescape (\<lambda>s. 0) (\<lambda>n. True) s (drop 3 (str_text a')) (length (drop 3 (str_text a'))) = (RET_OK, b')"
    "str_text b' = ''abc'' @ ?t"
    using str_escapes_roundtrip[OF s(1) g s(1) g, of ?t "\<lambda>s. 0", unfolded s(2,3)] by blast
  then show ?thesis by blast
qed

end
