(* ===== verification/Buffer.thy ===== *)
theory Buffer
  imports StrText
begin

text \<open>
  The write buffer and the read buffer of \<open>src/src/tkc/buffer.c\<close>. \<open>wb_data\<close> is the block
  the write buffer points to (the empty list is NULL) and \<open>wb_block\<close> the size it was allocated
  with, or the caller attached: a write beyond the block makes the two disagree. Integers are words of
  their width; \<open>float\<close> and \<open>double\<close> values are their bit patterns. Parameters are the byte
  order of the machine (\<open>le\<close>, little endian), the allocator (\<open>alloc\<close>), the size of
  \<open>wchar_t\<close> and the conversions between the two floating point types.

  Shown: a list of values that is written to a growing buffer is read back in order, with the one
  exception the code has for unsigned 64-bit values.
\<close>

section \<open>Integers in memory\<close>

text \<open>\<open>memcpy\<close> of an integer of \<open>n\<close> bytes to memory and back.\<close>

fun low_bytes :: "nat \<Rightarrow> nat \<Rightarrow> byte list" where
  "low_bytes 0 v = []"
| "low_bytes (Suc n) v = word_of_nat v # low_bytes n (v div 256)"

fun low_value :: "byte list \<Rightarrow> nat" where
  "low_value [] = 0"
| "low_value (b # bs) = unat b + 256 * low_value bs"

definition mem_bytes :: "bool \<Rightarrow> nat \<Rightarrow> nat \<Rightarrow> byte list" where
  "mem_bytes le n v = (if le then low_bytes n v else rev (low_bytes n v))"

definition mem_value :: "bool \<Rightarrow> byte list \<Rightarrow> nat" where
  "mem_value le bs = low_value (if le then bs else rev bs)"

definition string_bytes :: "string \<Rightarrow> byte list" where
  "string_bytes s = map of_char s"

section \<open>The write buffer\<close>

record wbuffer_t =
  wb_data :: "byte list"
  wb_cursor :: nat
  wb_capacity :: nat
  wb_extendable :: bool
  wb_block :: nat

definition wbuffer_init :: "byte list \<Rightarrow> nat \<Rightarrow> wbuffer_t" where
  "wbuffer_init data capacity =
     \<lparr>wb_data = data, wb_cursor = 0, wb_capacity = capacity, wb_extendable = False, wb_block = length data\<rparr>"

definition wbuffer_init_extendable :: wbuffer_t where
  "wbuffer_init_extendable = \<lparr>wb_data = [], wb_cursor = 0, wb_capacity = 0, wb_extendable = True, wb_block = 0\<rparr>"

text \<open>The flag says whether the structure itself is allocated.\<close>

definition wbuffer_create :: "bool \<Rightarrow> byte list \<Rightarrow> nat \<Rightarrow> wbuffer_t option" where
  "wbuffer_create self data capacity = (if data \<noteq> [] \<and> capacity > 0 \<and> self then Some (wbuffer_init data capacity) else None)"

definition wbuffer_create_extendable :: "bool \<Rightarrow> wbuffer_t option" where
  "wbuffer_create_extendable self = (if self then Some wbuffer_init_extendable else None)"

definition wbuffer_deinit :: "wbuffer_t \<Rightarrow> ret_t \<times> wbuffer_t" where
  "wbuffer_deinit wb = (RET_OK, \<lparr>wb_data = [], wb_cursor = 0, wb_capacity = 0, wb_extendable = False, wb_block = 0\<rparr>)"

definition wbuffer_rewind :: "wbuffer_t \<Rightarrow> ret_t \<times> wbuffer_t" where
  "wbuffer_rewind wb = (RET_OK, wb\<lparr>wb_cursor := 0\<rparr>)"

text \<open>\<open>capacity * 1.5\<close> is computed as a \<open>double\<close> and cut to an integer.\<close>

definition wbuffer_extend_capacity :: "alloc_t \<Rightarrow> wbuffer_t \<Rightarrow> nat \<Rightarrow> ret_t \<times> wbuffer_t" where
  "wbuffer_extend_capacity alloc wb capacity =
     (if capacity \<le> wb_capacity wb then (RET_OK, wb)
      else if \<not> wb_extendable wb then (RET_FAIL, wb)
      else (let capacity = u32 (max capacity (wb_capacity wb * 3 div 2))
            in if alloc capacity then
                 (let data = take capacity (wb_data wb) @ replicate (capacity - length (wb_data wb)) 0
                  in (RET_OK, wb\<lparr>wb_data := overwrite data (wb_cursor wb) (replicate (capacity - wb_cursor wb) 0),
                                wb_capacity := capacity, wb_block := capacity\<rparr>))
               else (RET_OOM, wb)))"

definition wbuffer_extend_delta :: "alloc_t \<Rightarrow> wbuffer_t \<Rightarrow> nat \<Rightarrow> ret_t \<times> wbuffer_t" where
  "wbuffer_extend_delta alloc wb delta = wbuffer_extend_capacity alloc wb (u32 (wb_cursor wb + delta + 1))"

text \<open>The copy owns a block of \<open>capacity\<close> bytes, whatever the original does.\<close>

definition wbuffer_clone :: "bool \<Rightarrow> alloc_t \<Rightarrow> wbuffer_t \<Rightarrow> wbuffer_t option" where
  "wbuffer_clone self alloc wb =
     (if self \<and> alloc (wb_capacity wb) then
        Some (wb\<lparr>wb_data := take (wb_capacity wb) (wb_data wb), wb_block := wb_capacity wb\<rparr>)
      else None)"

definition wbuffer_skip :: "alloc_t \<Rightarrow> wbuffer_t \<Rightarrow> int \<Rightarrow> ret_t \<times> wbuffer_t" where
  "wbuffer_skip alloc wb delta =
     (if \<not> (wb_extendable wb \<or> wb_data wb \<noteq> []) then (RET_BAD_PARAMS, wb)
      else (let cursor = s32 (int (wb_cursor wb) + delta)
            in if cursor < 0 then (RET_BAD_PARAMS, wb)
               else (case wbuffer_extend_capacity alloc wb (nat cursor) of (r, wb) \<Rightarrow>
                 if r = RET_OK then (RET_OK, wb\<lparr>wb_cursor := nat cursor\<rparr>) else (RET_BAD_PARAMS, wb))))"

text \<open>\<open>memcpy(wbuffer->data + wbuffer->cursor, data, size)\<close> and the cursor moved on.\<close>

definition wbuffer_write_binary :: "alloc_t \<Rightarrow> wbuffer_t \<Rightarrow> byte list \<Rightarrow> ret_t \<times> wbuffer_t" where
  "wbuffer_write_binary alloc wb data =
     (case wbuffer_extend_delta alloc wb (length data) of (r, wb) \<Rightarrow>
        if r = RET_OK then
          (RET_OK, wb\<lparr>wb_data := overwrite (wb_data wb) (wb_cursor wb) data, wb_cursor := u32 (wb_cursor wb + length data)\<rparr>)
        else (RET_BAD_PARAMS, wb))"

definition wbuffer_write_uint8 :: "alloc_t \<Rightarrow> wbuffer_t \<Rightarrow> 8 word \<Rightarrow> ret_t \<times> wbuffer_t" where
  "wbuffer_write_uint8 alloc wb value = wbuffer_write_binary alloc wb [value]"

definition wbuffer_write_uint16 :: "bool \<Rightarrow> alloc_t \<Rightarrow> wbuffer_t \<Rightarrow> 16 word \<Rightarrow> ret_t \<times> wbuffer_t" where
  "wbuffer_write_uint16 le alloc wb value = wbuffer_write_binary alloc wb (mem_bytes le 2 (unat value))"

definition wbuffer_write_uint32 :: "bool \<Rightarrow> alloc_t \<Rightarrow> wbuffer_t \<Rightarrow> 32 word \<Rightarrow> ret_t \<times> wbuffer_t" where
  "wbuffer_write_uint32 le alloc wb value = wbuffer_write_binary alloc wb (mem_bytes le 4 (unat value))"

definition wbuffer_write_uint64 :: "bool \<Rightarrow> alloc_t \<Rightarrow> wbuffer_t \<Rightarrow> 64 word \<Rightarrow> ret_t \<times> wbuffer_t" where
  "wbuffer_write_uint64 le alloc wb value = wbuffer_write_binary alloc wb (mem_bytes le 8 (unat value))"

definition wbuffer_write_int8 :: "alloc_t \<Rightarrow> wbuffer_t \<Rightarrow> 8 word \<Rightarrow> ret_t \<times> wbuffer_t" where
  "wbuffer_write_int8 alloc wb value = wbuffer_write_binary alloc wb [value]"

definition wbuffer_write_int16 :: "bool \<Rightarrow> alloc_t \<Rightarrow> wbuffer_t \<Rightarrow> 16 word \<Rightarrow> ret_t \<times> wbuffer_t" where
  "wbuffer_write_int16 le alloc wb value = wbuffer_write_binary alloc wb (mem_bytes le 2 (unat value))"

definition wbuffer_write_int32 :: "bool \<Rightarrow> alloc_t \<Rightarrow> wbuffer_t \<Rightarrow> 32 word \<Rightarrow> ret_t \<times> wbuffer_t" where
  "wbuffer_write_int32 le alloc wb value = wbuffer_write_binary alloc wb (mem_bytes le 4 (unat value))"

definition wbuffer_write_int64 :: "bool \<Rightarrow> alloc_t \<Rightarrow> wbuffer_t \<Rightarrow> 64 word \<Rightarrow> ret_t \<times> wbuffer_t" where
  "wbuffer_write_int64 le alloc wb value = wbuffer_write_binary alloc wb (mem_bytes le 8 (unat value))"

definition wbuffer_write_float :: "bool \<Rightarrow> alloc_t \<Rightarrow> wbuffer_t \<Rightarrow> 32 word \<Rightarrow> ret_t \<times> wbuffer_t" where
  "wbuffer_write_float le alloc wb value = wbuffer_write_binary alloc wb (mem_bytes le 4 (unat value))"

definition wbuffer_write_double :: "bool \<Rightarrow> alloc_t \<Rightarrow> wbuffer_t \<Rightarrow> 64 word \<Rightarrow> ret_t \<times> wbuffer_t" where
  "wbuffer_write_double le alloc wb value = wbuffer_write_binary alloc wb (mem_bytes le 8 (unat value))"

text \<open>A NULL string is refused.\<close>

definition wbuffer_write_string :: "alloc_t \<Rightarrow> wbuffer_t \<Rightarrow> string option \<Rightarrow> ret_t \<times> wbuffer_t" where
  "wbuffer_write_string alloc wb data =
     (case data of None \<Rightarrow> (RET_BAD_PARAMS, wb) | Some s \<Rightarrow> wbuffer_write_binary alloc wb (string_bytes s @ [0]))"

definition wbuffer_modify_binary :: "wbuffer_t \<Rightarrow> nat \<Rightarrow> byte list \<Rightarrow> ret_t \<times> wbuffer_t" where
  "wbuffer_modify_binary wb offset data =
     (if u32 (offset + length data) \<le> wb_cursor wb then (RET_OK, wb\<lparr>wb_data := overwrite (wb_data wb) offset data\<rparr>)
      else (RET_BAD_PARAMS, wb))"

text \<open>\<open>memmove\<close> of the bytes from \<open>offset\<close> to the cursor.\<close>

definition wbuffer_insert_binary :: "alloc_t \<Rightarrow> wbuffer_t \<Rightarrow> nat \<Rightarrow> byte list \<Rightarrow> ret_t \<times> wbuffer_t" where
  "wbuffer_insert_binary alloc wb offset data =
     (case wbuffer_extend_delta alloc wb (length data) of (r, wb) \<Rightarrow>
        if r = RET_OK then
          (let d = overwrite (wb_data wb) (offset + length data) (take (u32 (wb_cursor wb + 2 ^ 32 - offset)) (drop offset (wb_data wb)));
               d = overwrite d offset data
           in (RET_OK, wb\<lparr>wb_data := d, wb_cursor := u32 (wb_cursor wb + length data)\<rparr>))
        else (RET_BAD_PARAMS, wb))"

definition wbuffer_has_room :: "wbuffer_t \<Rightarrow> nat \<Rightarrow> bool" where
  "wbuffer_has_room wb sz \<longleftrightarrow> wb_data wb \<noteq> [] \<and> u32 (wb_cursor wb + sz) \<le> wb_capacity wb"

section \<open>Tagged values\<close>

text \<open>
  \<open>value_t\<close> as far as the buffers know it; \<open>V_other\<close> stands for a value of any other
  type. A string is NULL or a C string.
\<close>

datatype value_t =
    V_bool bool | V_int8 "8 word" | V_uint8 "8 word" | V_int16 "16 word" | V_uint16 "16 word" | V_int32 "32 word"
  | V_uint32 "32 word" | V_int64 "64 word" | V_uint64 "64 word" | V_float "32 word" | V_float32 "32 word" | V_double "64 word"
  | V_string "string option" | V_wstring "nat list option" | V_other nat

text \<open>The codes of \<open>value_type_t\<close>.\<close>

fun value_type :: "value_t \<Rightarrow> nat" where
  "value_type (V_bool _) = 1" | "value_type (V_int8 _) = 2" | "value_type (V_uint8 _) = 3" | "value_type (V_int16 _) = 4"
| "value_type (V_uint16 _) = 5" | "value_type (V_int32 _) = 6" | "value_type (V_uint32 _) = 7" | "value_type (V_int64 _) = 8"
| "value_type (V_uint64 _) = 9" | "value_type (V_float _) = 11" | "value_type (V_float32 _) = 12" | "value_type (V_double _) = 13"
| "value_type (V_string _) = 14" | "value_type (V_wstring _) = 15" | "value_type (V_other n) = n"

text \<open>
  The machine and the C library: byte order, width of \<open>wchar_t\<close>, \<open>float\<close> to
  \<open>double\<close> and back.
\<close>

record machine =
  m_le :: bool
  m_wsize :: nat
  m_widen :: "32 word \<Rightarrow> 64 word"
  m_narrow :: "64 word \<Rightarrow> 32 word"

text \<open>A copy as UTF-8; NULL when there was no memory for the string.\<close>

definition tk_utf8_dup_wstr :: "nat \<Rightarrow> alloc_t \<Rightarrow> nat list option \<Rightarrow> string option" where
  "tk_utf8_dup_wstr wsize alloc ws =
     (case ws of
        None \<Rightarrow> None
      | Some ws \<Rightarrow>
          (let s = (case str_init alloc (u32 (length ws * 4 + 1)) of Some s \<Rightarrow> s
                    | None \<Rightarrow> \<lparr>st_size = 0, st_capacity = 0, st_str = [], st_extendable = True, st_block = 0\<rparr>);
               s = snd (str_from_wstr wsize alloc s ws)
           in if st_str s = [] then None else Some (c_str s 0)))"

definition value_payload :: "machine \<Rightarrow> alloc_t \<Rightarrow> wbuffer_t \<Rightarrow> value_t \<Rightarrow> ret_t \<times> wbuffer_t" where
  "value_payload m alloc wb v =
     (case v of
        V_bool b \<Rightarrow> wbuffer_write_uint8 alloc wb (if b then 1 else 0)
      | V_uint8 w \<Rightarrow> wbuffer_write_uint8 alloc wb w
      | V_int8 w \<Rightarrow> wbuffer_write_int8 alloc wb w
      | V_uint16 w \<Rightarrow> wbuffer_write_uint16 (m_le m) alloc wb w
      | V_int16 w \<Rightarrow> wbuffer_write_int16 (m_le m) alloc wb w
      | V_uint32 w \<Rightarrow> wbuffer_write_uint32 (m_le m) alloc wb w
      | V_int32 w \<Rightarrow> wbuffer_write_int32 (m_le m) alloc wb w
      | V_uint64 w \<Rightarrow> wbuffer_write_uint64 (m_le m) alloc wb (ucast (ucast w :: 16 word))
      | V_int64 w \<Rightarrow> wbuffer_write_int64 (m_le m) alloc wb w
      | V_float32 w \<Rightarrow> wbuffer_write_float (m_le m) alloc wb w
      | V_float w \<Rightarrow> wbuffer_write_double (m_le m) alloc wb (m_widen m w)
      | V_double w \<Rightarrow> wbuffer_write_double (m_le m) alloc wb w
      | V_string s \<Rightarrow> wbuffer_write_string alloc wb s
      | V_wstring ws \<Rightarrow> wbuffer_write_string alloc wb (tk_utf8_dup_wstr (m_wsize m) alloc ws)
      | V_other n \<Rightarrow> (RET_NOT_IMPL, snd (wbuffer_skip alloc wb (- 1))))"

definition wbuffer_write_value :: "machine \<Rightarrow> alloc_t \<Rightarrow> wbuffer_t \<Rightarrow> value_t \<Rightarrow> ret_t \<times> wbuffer_t" where
  "wbuffer_write_value m alloc wb v =
     (case wbuffer_write_uint8 alloc wb (word_of_nat (case v of V_wstring ws \<Rightarrow> 14 | v \<Rightarrow> value_type v)) of (r, wb) \<Rightarrow>
        if r \<noteq> RET_OK then (r, wb) else value_payload m alloc wb v)"

section \<open>The read buffer\<close>

record rbuffer_t =
  rd_data :: "byte list"
  rd_cursor :: nat
  rd_capacity :: nat

definition rbuffer_init :: "byte list \<Rightarrow> nat \<Rightarrow> rbuffer_t option" where
  "rbuffer_init data capacity = (if data \<noteq> [] then Some \<lparr>rd_data = data, rd_cursor = 0, rd_capacity = capacity\<rparr> else None)"

definition rbuffer_create :: "bool \<Rightarrow> byte list \<Rightarrow> nat \<Rightarrow> rbuffer_t option" where
  "rbuffer_create self data capacity = (if data \<noteq> [] \<and> capacity > 0 \<and> self then rbuffer_init data capacity else None)"

definition rbuffer_has_more :: "rbuffer_t \<Rightarrow> bool" where
  "rbuffer_has_more rb \<longleftrightarrow> rd_cursor rb < rd_capacity rb"

definition rbuffer_rewind :: "rbuffer_t \<Rightarrow> ret_t \<times> rbuffer_t" where
  "rbuffer_rewind rb = (RET_OK, rb\<lparr>rd_cursor := 0\<rparr>)"

text \<open>The second test compares a signed sum with the unsigned capacity.\<close>

definition rbuffer_skip :: "rbuffer_t \<Rightarrow> int \<Rightarrow> ret_t \<times> rbuffer_t" where
  "rbuffer_skip rb offset =
     (let to = s32 (s32 (int (rd_cursor rb)) + offset)
      in if rd_data rb = [] \<or> to < 0 \<or> \<not> nat to \<le> rd_capacity rb then (RET_BAD_PARAMS, rb)
         else (RET_OK, rb\<lparr>rd_cursor := nat ((int (rd_cursor rb) + offset) mod 2 ^ 32)\<rparr>))"

text \<open>The bytes at the cursor, when there are \<open>n\<close>; \<open>sizeof\<close> makes the sum a 64-bit one.\<close>

definition peek_bytes :: "rbuffer_t \<Rightarrow> nat \<Rightarrow> byte list option" where
  "peek_bytes rb n =
     (if rd_data rb \<noteq> [] \<and> rd_cursor rb + n \<le> rd_capacity rb then Some (take n (drop (rd_cursor rb) (rd_data rb))) else None)"

definition read_int :: "bool \<Rightarrow> nat \<Rightarrow> rbuffer_t \<Rightarrow> ret_t \<times> ('a::len) word option \<times> rbuffer_t" where
  "read_int le n rb =
     (case peek_bytes rb n of
        Some bs \<Rightarrow> (RET_OK, Some (word_of_nat (mem_value le bs)), rb\<lparr>rd_cursor := rd_cursor rb + n\<rparr>)
      | None \<Rightarrow> (RET_BAD_PARAMS, None, rb))"

definition peek_int :: "bool \<Rightarrow> nat \<Rightarrow> rbuffer_t \<Rightarrow> ret_t \<times> ('a::len) word option" where
  "peek_int le n rb =
     (case peek_bytes rb n of Some bs \<Rightarrow> (RET_OK, Some (word_of_nat (mem_value le bs))) | None \<Rightarrow> (RET_BAD_PARAMS, None))"

definition rbuffer_read_uint8 :: "rbuffer_t \<Rightarrow> ret_t \<times> 8 word option \<times> rbuffer_t" where
  "rbuffer_read_uint8 rb = read_int True 1 rb"

definition rbuffer_read_uint16 :: "bool \<Rightarrow> rbuffer_t \<Rightarrow> ret_t \<times> 16 word option \<times> rbuffer_t" where
  "rbuffer_read_uint16 le rb = read_int le 2 rb"

definition rbuffer_read_uint32 :: "bool \<Rightarrow> rbuffer_t \<Rightarrow> ret_t \<times> 32 word option \<times> rbuffer_t" where
  "rbuffer_read_uint32 le rb = read_int le 4 rb"

definition rbuffer_read_uint64 :: "bool \<Rightarrow> rbuffer_t \<Rightarrow> ret_t \<times> 64 word option \<times> rbuffer_t" where
  "rbuffer_read_uint64 le rb = read_int le 8 rb"

definition rbuffer_read_int8 :: "rbuffer_t \<Rightarrow> ret_t \<times> 8 word option \<times> rbuffer_t" where
  "rbuffer_read_int8 rb = read_int True 1 rb"

definition rbuffer_read_int16 :: "bool \<Rightarrow> rbuffer_t \<Rightarrow> ret_t \<times> 16 word option \<times> rbuffer_t" where
  "rbuffer_read_int16 le rb = read_int le 2 rb"

definition rbuffer_read_int32 :: "bool \<Rightarrow> rbuffer_t \<Rightarrow> ret_t \<times> 32 word option \<times> rbuffer_t" where
  "rbuffer_read_int32 le rb = read_int le 4 rb"

definition rbuffer_read_int64 :: "bool \<Rightarrow> rbuffer_t \<Rightarrow> ret_t \<times> 64 word option \<times> rbuffer_t" where
  "rbuffer_read_int64 le rb = read_int le 8 rb"

definition rbuffer_read_float :: "bool \<Rightarrow> rbuffer_t \<Rightarrow> ret_t \<times> 32 word option \<times> rbuffer_t" where
  "rbuffer_read_float le rb = read_int le 4 rb"

definition rbuffer_read_double :: "bool \<Rightarrow> rbuffer_t \<Rightarrow> ret_t \<times> 64 word option \<times> rbuffer_t" where
  "rbuffer_read_double le rb = read_int le 8 rb"

definition rbuffer_peek_uint8 :: "rbuffer_t \<Rightarrow> ret_t \<times> 8 word option" where
  "rbuffer_peek_uint8 rb = peek_int True 1 rb"

definition rbuffer_peek_uint16 :: "bool \<Rightarrow> rbuffer_t \<Rightarrow> ret_t \<times> 16 word option" where
  "rbuffer_peek_uint16 le rb = peek_int le 2 rb"

definition rbuffer_peek_uint32 :: "bool \<Rightarrow> rbuffer_t \<Rightarrow> ret_t \<times> 32 word option" where
  "rbuffer_peek_uint32 le rb = peek_int le 4 rb"

text \<open>Here the sum is a 32-bit one.\<close>

definition rbuffer_read_binary :: "rbuffer_t \<Rightarrow> nat \<Rightarrow> ret_t \<times> byte list \<times> rbuffer_t" where
  "rbuffer_read_binary rb sz =
     (if rd_data rb \<noteq> [] \<and> u32 (rd_cursor rb + sz) \<le> rd_capacity rb then
        (RET_OK, take sz (drop (rd_cursor rb) (rd_data rb)), rb\<lparr>rd_cursor := u32 (rd_cursor rb + sz)\<rparr>)
      else (RET_BAD_PARAMS, [], rb))"

definition tk_strnlen :: "byte list \<Rightarrow> nat \<Rightarrow> nat" where
  "tk_strnlen s maxlen = length (takeWhile (\<lambda>b. b \<noteq> 0) (take maxlen s))"

definition rbuffer_read_string :: "rbuffer_t \<Rightarrow> ret_t \<times> string option \<times> rbuffer_t" where
  "rbuffer_read_string rb =
     (if rd_data rb = [] then (RET_BAD_PARAMS, None, rb)
      else (let start = drop (rd_cursor rb) (rd_data rb);
                len = tk_strnlen start (rd_capacity rb - rd_cursor rb)
            in if rd_cursor rb + len = rd_capacity rb then (RET_FAIL, None, rb)
               else (RET_OK, Some (map (\<lambda>b. char_of (unat b)) (take len start)), rb\<lparr>rd_cursor := rd_cursor rb + len + 1\<rparr>)))"

text \<open>A failed read leaves the local variable \<open>0\<close>, and \<open>v\<close> is set to it all the same.\<close>

definition set_read :: "('b \<Rightarrow> value_t) \<Rightarrow> 'b \<Rightarrow> ret_t \<times> 'b option \<times> rbuffer_t \<Rightarrow> ret_t \<times> value_t option \<times> rbuffer_t" where
  "set_read f zero res = (case res of (r, x, rb) \<Rightarrow> (r, Some (f (case x of Some y \<Rightarrow> y | None \<Rightarrow> zero)), rb))"

text \<open>The value \<open>v\<close> is set to; \<open>None\<close> leaves it as it was.\<close>

definition rbuffer_read_value :: "machine \<Rightarrow> rbuffer_t \<Rightarrow> ret_t \<times> value_t option \<times> rbuffer_t" where
  "rbuffer_read_value m rb =
     (if rd_data rb = [] then (RET_BAD_PARAMS, None, rb)
      else (case rbuffer_read_uint8 rb of
              (r, None, rb) \<Rightarrow> (r, None, rb)
            | (r, Some t, rb) \<Rightarrow>
                if t = 1 then set_read (\<lambda>w. V_bool (w \<noteq> 0)) 0 (rbuffer_read_uint8 rb)
                else if t = 3 then set_read V_uint8 0 (rbuffer_read_uint8 rb)
                else if t = 2 then set_read V_int8 0 (rbuffer_read_int8 rb)
                else if t = 5 then set_read V_uint16 0 (rbuffer_read_uint16 (m_le m) rb)
                else if t = 4 then set_read V_int16 0 (rbuffer_read_int16 (m_le m) rb)
                else if t = 7 then set_read V_uint32 0 (rbuffer_read_uint32 (m_le m) rb)
                else if t = 6 then set_read V_int32 0 (rbuffer_read_int32 (m_le m) rb)
                else if t = 9 then set_read V_uint64 0 (rbuffer_read_uint64 (m_le m) rb)
                else if t = 8 then set_read V_int64 0 (rbuffer_read_int64 (m_le m) rb)
                else if t = 12 then set_read V_float32 0 (rbuffer_read_float (m_le m) rb)
                else if t = 11 then set_read (\<lambda>w. V_float (m_narrow m w)) 0 (rbuffer_read_double (m_le m) rb)
                else if t = 13 then set_read V_double 0 (rbuffer_read_double (m_le m) rb)
                else if t = 14 then
                  (case rbuffer_read_string rb of (r, s, rb) \<Rightarrow> (r, Some (V_string s), rb))
                else (RET_NOT_IMPL, None, snd (rbuffer_skip rb (- 1)))))"

section \<open>Bytes written\<close>

definition wb_inv :: "wbuffer_t \<Rightarrow> bool" where
  "wb_inv wb \<longleftrightarrow> length (wb_data wb) = wb_block wb \<and> wb_cursor wb \<le> wb_capacity wb \<and> wb_capacity wb \<le> wb_block wb"

definition wb_bytes :: "wbuffer_t \<Rightarrow> byte list" where
  "wb_bytes wb = take (wb_cursor wb) (wb_data wb)"

lemma wb_bytes_length [simp]: "wb_inv wb \<Longrightarrow> length (wb_bytes wb) = wb_cursor wb"
  by (simp add: wb_inv_def wb_bytes_def)

lemma wbuffer_init_inv: "wb_inv wbuffer_init_extendable" "capacity \<le> length data \<Longrightarrow> wb_inv (wbuffer_init data capacity)"
  by (simp_all add: wb_inv_def wbuffer_init_extendable_def wbuffer_init_def)

definition wb_grants :: "alloc_t \<Rightarrow> wbuffer_t \<Rightarrow> bool" where
  "wb_grants alloc wb \<longleftrightarrow> wb_extendable wb \<and> (\<forall>n. alloc n)"

lemma extend_capacity_spec:
  assumes inv: "wb_inv wb" and cap: "capacity < 2 ^ 31" and run: "wbuffer_extend_capacity alloc wb capacity = (r, wb')"
  shows "wb_inv wb' \<and> wb_bytes wb' = wb_bytes wb \<and> wb_cursor wb' = wb_cursor wb \<and> wb_extendable wb' = wb_extendable wb \<and>
    (r = RET_OK \<longrightarrow> capacity \<le> wb_capacity wb') \<and> (r \<noteq> RET_OK \<longrightarrow> wb' = wb \<and> \<not> wb_grants alloc wb)"
proof (cases "capacity \<le> wb_capacity wb \<or> \<not> wb_extendable wb")
  case True
  then show ?thesis using run inv by (auto simp: wbuffer_extend_capacity_def wb_grants_def split: if_splits)
next
  case False
  let ?n = "max capacity (wb_capacity wb * 3 div 2)"
  have "wb_capacity wb < 2147483648" using False cap by simp
  then have "wb_capacity wb * 3 div 2 < 2 ^ 32" by simp
  then have n: "u32 ?n = ?n" using cap by (simp add: max_def)
  have le: "wb_cursor wb \<le> length (wb_data wb)" "wb_cursor wb < capacity" using inv False by (auto simp: wb_inv_def)
  show ?thesis
  proof (cases "alloc ?n")
    case True
    have d: "overwrite (take ?n (wb_data wb) @ replicate (?n - length (wb_data wb)) 0) (wb_cursor wb) (replicate (?n - wb_cursor wb) 0) =
        take (wb_cursor wb) (wb_data wb) @ replicate (?n - wb_cursor wb) 0"
      using le by (simp add: overwrite_def min_absorb1 min_absorb2)
    have "(r, wb') = (RET_OK, wb\<lparr>wb_data := take (wb_cursor wb) (wb_data wb) @ replicate (?n - wb_cursor wb) 0, wb_capacity := ?n, wb_block := ?n\<rparr>)"
      unfolding run[symmetric] wbuffer_extend_capacity_def using False True by (simp add: Let_def n d del: max_def)
    then show ?thesis using le by (simp add: wb_inv_def wb_bytes_def min_absorb1 min_absorb2)
  next
    case refused: False
    then show ?thesis using run False n inv by (auto simp: wbuffer_extend_capacity_def Let_def wb_grants_def)
  qed
qed

text \<open>The operation appends the bytes \<open>bs\<close>.\<close>

definition wb_appends :: "alloc_t \<Rightarrow> wbuffer_t \<Rightarrow> byte list \<Rightarrow> ret_t \<times> wbuffer_t \<Rightarrow> bool" where
  "wb_appends alloc wb bs m \<longleftrightarrow>
     (case m of (r, wb') \<Rightarrow> wb_inv wb' \<and> wb_extendable wb' = wb_extendable wb \<and>
        (r = RET_OK \<longrightarrow> wb_bytes wb' = wb_bytes wb @ bs) \<and> (r \<noteq> RET_OK \<longrightarrow> wb_bytes wb' = wb_bytes wb \<and> \<not> wb_grants alloc wb))"

lemma write_binary_appends:
  assumes inv: "wb_inv wb" and fits: "wb_cursor wb + length bs + 1 < 2 ^ 31"
  shows "wb_appends alloc wb bs (wbuffer_write_binary alloc wb bs)"
proof -
  obtain r w where run: "wbuffer_extend_delta alloc wb (length bs) = (r, w)" by fastforce
  then have x: "wb_inv w \<and> wb_bytes w = wb_bytes wb \<and> wb_cursor w = wb_cursor wb \<and> wb_extendable w = wb_extendable wb \<and>
    (r = RET_OK \<longrightarrow> wb_cursor wb + length bs + 1 \<le> wb_capacity w) \<and> (r \<noteq> RET_OK \<longrightarrow> w = wb \<and> \<not> wb_grants alloc wb)"
    using extend_capacity_spec[OF inv fits, of alloc r w] fits by (simp add: wbuffer_extend_delta_def)
  show ?thesis
  proof (cases "r = RET_OK")
    case True
    then have "wb_cursor w + length bs \<le> wb_capacity w" "wb_capacity w \<le> wb_block w" "length (wb_data w) = wb_block w"
      using x by (auto simp: wb_inv_def)
    then show ?thesis using True run x fits take_overwrite[of "wb_cursor w" "wb_data w" bs]
      by (auto simp: wbuffer_write_binary_def wb_appends_def wb_inv_def wb_bytes_def)
  next
    case False
    then show ?thesis using run x by (auto simp: wbuffer_write_binary_def wb_appends_def)
  qed
qed

lemma wb_appendsE:
  assumes "wb_appends alloc wb bs m" and "wb_grants alloc wb" and "wb_inv wb"
  obtains wb' where "m = (RET_OK, wb')" "wb_inv wb'" "wb_bytes wb' = wb_bytes wb @ bs" "wb_grants alloc wb'"
    "wb_cursor wb' = wb_cursor wb + length bs"
proof -
  obtain r wb' where m: "m = (r, wb')" by fastforce
  then have "r = RET_OK" "wb_inv wb'" "wb_bytes wb' = wb_bytes wb @ bs" "wb_grants alloc wb'"
    using assms(1,2) by (auto simp: wb_appends_def wb_grants_def)
  moreover have "wb_cursor wb' = wb_cursor wb + length bs"
    using calculation assms(3) by (metis length_append wb_bytes_length)
  ultimately show thesis using m by (intro that) auto
qed

section \<open>The written form of a value\<close>

text \<open>What the reader gets for a value that was written.\<close>

definition stored :: "nat \<Rightarrow> value_t \<Rightarrow> value_t" where
  "stored wsize v =
     (case v of
        V_uint64 w \<Rightarrow> V_uint64 (ucast (ucast w :: 16 word))
      | V_wstring (Some ws) \<Rightarrow> V_string (Some (snd (tk_utf8_from_utf16_ex wsize ws (length ws) (6 * length ws + 1))))
      | v \<Rightarrow> v)"

definition writable :: "nat \<Rightarrow> value_t \<Rightarrow> bool" where
  "writable wsize v =
     (case v of
        V_string s \<Rightarrow> (case s of Some t \<Rightarrow> NUL \<notin> set t | None \<Rightarrow> False)
      | V_wstring ws \<Rightarrow> (case ws of Some t \<Rightarrow> units_ok wsize t \<and> 6 * length t + 3 < 2 ^ 32 | None \<Rightarrow> False)
      | V_other n \<Rightarrow> False
      | _ \<Rightarrow> True)"

definition payload_bytes :: "machine \<Rightarrow> value_t \<Rightarrow> byte list" where
  "payload_bytes m v =
     (case stored (m_wsize m) v of
        V_bool b \<Rightarrow> [if b then 1 else 0] | V_uint8 w \<Rightarrow> [w] | V_int8 w \<Rightarrow> [w]
      | V_uint16 w \<Rightarrow> mem_bytes (m_le m) 2 (unat w) | V_int16 w \<Rightarrow> mem_bytes (m_le m) 2 (unat w)
      | V_uint32 w \<Rightarrow> mem_bytes (m_le m) 4 (unat w) | V_int32 w \<Rightarrow> mem_bytes (m_le m) 4 (unat w)
      | V_uint64 w \<Rightarrow> mem_bytes (m_le m) 8 (unat w) | V_int64 w \<Rightarrow> mem_bytes (m_le m) 8 (unat w)
      | V_float32 w \<Rightarrow> mem_bytes (m_le m) 4 (unat w) | V_float w \<Rightarrow> mem_bytes (m_le m) 8 (unat (m_widen m w))
      | V_double w \<Rightarrow> mem_bytes (m_le m) 8 (unat w)
      | V_string (Some s) \<Rightarrow> string_bytes s @ [0]
      | _ \<Rightarrow> [])"

definition value_bytes :: "machine \<Rightarrow> value_t \<Rightarrow> byte list" where
  "value_bytes m v = word_of_nat (value_type (stored (m_wsize m) v)) # payload_bytes m v"

lemma dup_wstr_text:
  assumes "units_ok wsize ws" and "6 * length ws + 3 < 2 ^ 32" and "\<forall>n. alloc n"
  shows "tk_utf8_dup_wstr wsize alloc (Some ws) = Some (snd (tk_utf8_from_utf16_ex wsize ws (length ws) (6 * length ws + 1)))"
proof -
  let ?t = "snd (tk_utf8_from_utf16_ex wsize ws (length ws) (6 * length ws + 1))"
  let ?n = "length ws * 4 + 1"
  have t: "?t = snd (encode_loop wsize (6 * length ws + 1) ws [])"
    by (simp add: tk_utf8_from_utf16_ex_def split: prod.splits)
  have nul: "NUL \<notin> set ?t" unfolding t by (rule encode_loop_no_nul[OF assms(1)]) simp
  have len: "length ?t < 6 * length ws + 1"
    unfolding t using encode_loop_bound[of "[]" "6 * length ws + 1" wsize ws] by simp
  let ?s = "\<lparr>st_size = 0, st_capacity = ?n, st_str = replicate (?n + 1) NUL, st_extendable = True, st_block = ?n + 1\<rparr>"
  have init: "str_init alloc (u32 ?n) = Some ?s" using str_init_eq[of ?n alloc] assms(2,3) by simp
  have inv: "str_inv ?s" using str_init_spec[OF init] assms(2) by simp
  obtain r0 s0 where clear: "str_clear ?s = (r0, s0)" by fastforce
  have s0: "str_inv s0" "st_extendable s0" "st_size s0 = 0"
    using str_clear_yields[OF inv, of alloc] clear by (auto simp: yields_def str_clear_def put_def)
  obtain r s1 where ext: "str_extend alloc s0 (6 * length ws + 2) = (r, s1)" by fastforce
  have s1: "r = RET_OK" "str_inv s1" "6 * length ws + 2 \<le> st_capacity s1"
    using str_extend_spec[OF s0(1) _ ext] assms(2,3) s0(2) by simp_all
  have b: "length ?t + 1 \<le> length (st_str s1)" using s1(2,3) len by (auto simp: str_inv_def)
  have c: "takeWhile (\<lambda>c. c \<noteq> NUL) (overwrite (st_str s1) 0 (?t @ [NUL])) = ?t"
    using nul by (simp add: overwrite_def takeWhile_append takeWhile_eq_all_conv)
  have "str_from_wstr wsize alloc ?s ws = (RET_OK, (put s1 0 (?t @ [NUL]))\<lparr>st_size := length ?t\<rparr>)"
    using clear ext s1(1) assms(2) c
    by (simp add: str_from_wstr_def str_from_wstr_with_len_def Let_def if_ok_def c_str_def put_def mult.commute)
  then show ?thesis using init c by (simp add: tk_utf8_dup_wstr_def Let_def c_str_def put_def overwrite_def)
qed

lemma value_write_appends:
  assumes inv: "wb_inv wb" and g: "wb_grants alloc wb" and v: "writable (m_wsize m) v"
    and fits: "wb_cursor wb + length (value_bytes m v) + 1 < 2 ^ 31"
  shows "wb_appends alloc wb (value_bytes m v) (wbuffer_write_value m alloc wb v)"
proof -
  let ?t = "word_of_nat (value_type (stored (m_wsize m) v)) :: byte"
  have t: "(word_of_nat (case v of V_wstring ws \<Rightarrow> 14 | v \<Rightarrow> value_type v) :: byte) = ?t"
    using v by (auto simp: stored_def writable_def split: value_t.splits option.splits)
  have "wb_appends alloc wb [?t] (wbuffer_write_binary alloc wb [?t])"
    by (rule write_binary_appends[OF inv]) (use fits in \<open>simp add: value_bytes_def\<close>)
  then obtain w where w: "wbuffer_write_binary alloc wb [?t] = (RET_OK, w)" "wb_inv w" "wb_bytes w = wb_bytes wb @ [?t]"
    "wb_grants alloc w" "wb_cursor w = wb_cursor wb + length [?t]"
    by (rule wb_appendsE[OF _ g inv])
  have "value_payload m alloc w v = wbuffer_write_binary alloc w (payload_bytes m v)"
    using v g dup_wstr_text
    by (auto simp: value_payload_def payload_bytes_def stored_def writable_def wb_grants_def wbuffer_write_uint8_def wbuffer_write_int8_def
        wbuffer_write_uint16_def wbuffer_write_int16_def wbuffer_write_uint32_def wbuffer_write_int32_def wbuffer_write_uint64_def
        wbuffer_write_int64_def wbuffer_write_float_def wbuffer_write_double_def wbuffer_write_string_def
        split: value_t.splits option.splits)
  moreover have "wb_appends alloc w (payload_bytes m v) (wbuffer_write_binary alloc w (payload_bytes m v))"
    by (rule write_binary_appends[OF w(2)]) (use fits w(5) in \<open>simp add: value_bytes_def\<close>)
  ultimately show ?thesis using w t g
    by (auto simp: wbuffer_write_value_def wbuffer_write_uint8_def wb_appends_def value_bytes_def wb_grants_def)
qed

section \<open>Reading back\<close>

lemma length_mem_bytes [simp]: "length (mem_bytes le n v) = n"
proof -
  have "length (low_bytes n v) = n" by (induction n arbitrary: v) auto
  then show ?thesis by (simp add: mem_bytes_def)
qed

lemma low_value_bytes: "low_value (low_bytes n v) = v mod 256 ^ n"
proof (induction n arbitrary: v)
  case (Suc n)
  have "v mod (256 * 256 ^ n) = v mod 256 + 256 * (v div 256 mod 256 ^ n)" by (simp add: mod_mult2_eq)
  then show ?case using Suc by (simp add: unat_of_nat)
qed simp

lemma mem_value_bytes: "mem_value le (mem_bytes le n v) = v mod 256 ^ n"
  by (simp add: mem_value_def mem_bytes_def low_value_bytes)

lemma word_mem:
  assumes "LENGTH('a) = 8 * n"
  shows "word_of_nat (mem_value le (mem_bytes le n (unat (w :: 'a::len word)))) = w"
proof -
  have "unat w < 2 ^ LENGTH('a)" by (rule unsigned_less)
  also have "(2 :: nat) ^ LENGTH('a) = 256 ^ n" unfolding assms by (simp add: power_mult)
  finally show ?thesis by (simp add: mem_value_bytes)
qed

text \<open>The bytes \<open>bs\<close> lie at the cursor.\<close>

definition at_cursor :: "rbuffer_t \<Rightarrow> byte list \<Rightarrow> bool" where
  "at_cursor rb bs \<longleftrightarrow> rd_data rb \<noteq> [] \<and> rd_cursor rb + length bs \<le> rd_capacity rb \<and> rd_capacity rb \<le> length (rd_data rb) \<and>
     take (length bs) (drop (rd_cursor rb) (rd_data rb)) = bs"

definition moved :: "rbuffer_t \<Rightarrow> nat \<Rightarrow> rbuffer_t" where
  "moved rb n = rb\<lparr>rd_cursor := rd_cursor rb + n\<rparr>"

lemma at_cursor_append: "at_cursor rb (xs @ ys) \<Longrightarrow> at_cursor rb xs \<and> at_cursor (moved rb (length xs)) ys"
  by (auto simp: at_cursor_def moved_def take_add) (simp_all add: add.commute)

lemma moved_moved [simp]: "moved (moved rb a) b = moved rb (a + b)"
  by (simp add: moved_def)

lemma read_int_at:
  assumes "at_cursor rb (mem_bytes le n (unat (w :: 'a::len word)))" and "LENGTH('a) = 8 * n"
  shows "read_int le n rb = (RET_OK, Some w, moved rb n)"
  using assms word_mem[OF assms(2), of le w] by (simp add: read_int_def peek_bytes_def at_cursor_def moved_def)

lemma read_byte_at:
  assumes "at_cursor rb [b]"
  shows "read_int True 1 rb = (RET_OK, Some b, moved rb 1)"
  using read_int_at[of rb True 1 b] assms by (simp add: mem_bytes_def)

lemma unat_of_char: "unat (of_char c :: byte) = of_char c"
proof -
  have "(of_char c :: byte) = of_nat (of_char c)" by (rule of_nat_of_char [symmetric])
  then have "unat (of_char c :: byte) = of_char c mod 256" by (simp only: unat_of_nat) simp
  then show ?thesis by simp
qed

lemma read_string_at:
  assumes at: "at_cursor rb (string_bytes s @ [0])" and nul: "NUL \<notin> set s"
  shows "rbuffer_read_string rb = (RET_OK, Some s, moved rb (length s + 1))"
proof -
  let ?d = "drop (rd_cursor rb) (rd_data rb)"
  have len: "length (string_bytes s) = length s" by (simp add: string_bytes_def)
  have tk: "take (Suc (length s)) ?d = string_bytes s @ [0]" and room: "Suc (length s) \<le> rd_capacity rb - rd_cursor rb"
    using at len by (auto simp: at_cursor_def)
  have nz: "0 \<notin> set (string_bytes s)"
  proof
    assume "0 \<in> set (string_bytes s)"
    then obtain c where c: "c \<in> set s" "(of_char c :: byte) = 0" by (auto simp: string_bytes_def)
    then have "unat (of_char c :: byte) = 0" by simp
    then have "of_char c = (0 :: nat)" by (simp add: unat_of_char)
    then show False using c(1) nul by (simp add: of_char_eq_0)
  qed
  have "take (rd_capacity rb - rd_cursor rb) ?d = (string_bytes s @ [0]) @ drop (Suc (length s)) (take (rd_capacity rb - rd_cursor rb) ?d)"
    using tk room by (metis append_take_drop_id min_absorb1 take_take)
  then obtain rest where rest: "take (rd_capacity rb - rd_cursor rb) ?d = string_bytes s @ 0 # rest" by auto
  have "takeWhile (\<lambda>b. b \<noteq> 0) (string_bytes s @ 0 # rest) = string_bytes s" using nz by (auto simp: takeWhile_append takeWhile_eq_all_conv)
  then have "tk_strnlen ?d (rd_capacity rb - rd_cursor rb) = length s" by (simp add: tk_strnlen_def rest len)
  moreover have "take (length s) ?d = string_bytes s" using arg_cong[OF tk, of "take (length s)"] len by (simp add: min_absorb1)
  moreover have "map (\<lambda>b. char_of (unat b)) (string_bytes s) = s"
    by (simp add: string_bytes_def unat_of_char comp_def)
  ultimately show ?thesis using at room by (simp add: rbuffer_read_string_def Let_def at_cursor_def moved_def)
qed

lemma read_value_at:
  assumes at: "at_cursor rb (value_bytes m v)" and v: "writable (m_wsize m) v" and f: "\<forall>x. m_narrow m (m_widen m x) = x"
  shows "rbuffer_read_value m rb = (RET_OK, Some (stored (m_wsize m) v), moved rb (length (value_bytes m v)))"
proof -
  let ?t = "word_of_nat (value_type (stored (m_wsize m) v)) :: byte"
  let ?p = "payload_bytes m v"
  have 1: "at_cursor rb [?t]" and p: "at_cursor (moved rb 1) ?p"
    using at_cursor_append[of rb "[?t]" ?p] at by (simp_all add: value_bytes_def)
  have ne: "rd_data rb \<noteq> []" using at by (simp add: at_cursor_def)
  note t = read_byte_at[OF 1]
  note ints = read_int_at[where rb = "moved rb 1", simplified] read_byte_at[of "moved rb 1", simplified]
  note defs = rbuffer_read_value_def rbuffer_read_uint8_def rbuffer_read_int8_def rbuffer_read_uint16_def rbuffer_read_int16_def
    rbuffer_read_uint32_def rbuffer_read_int32_def rbuffer_read_uint64_def rbuffer_read_int64_def rbuffer_read_float_def
    rbuffer_read_double_def set_read_def
  show ?thesis
  proof (cases "stored (m_wsize m) v")
    case (V_string x)
    have "\<exists>s. x = Some s \<and> NUL \<notin> set s"
    proof (cases v)
      case (V_wstring ws)
      then obtain u where u: "ws = Some u" "units_ok (m_wsize m) u" using v by (auto simp: writable_def split: option.splits)
      have "NUL \<notin> set (snd (encode_loop (m_wsize m) (6 * length u + 1) u []))" by (rule encode_loop_no_nul[OF u(2)]) simp
      then show ?thesis using V_string V_wstring u by (auto simp: stored_def tk_utf8_from_utf16_ex_def split: prod.splits)
    qed (use V_string v in \<open>auto simp: stored_def writable_def split: option.splits\<close>)
    then obtain s where s: "x = Some s" "NUL \<notin> set s" by blast
    then have "?p = string_bytes s @ [0]" using V_string by (simp add: payload_bytes_def)
    then have "rbuffer_read_string (moved rb 1) = (RET_OK, Some s, moved rb (length s + 2))"
      using read_string_at[of "moved rb 1" s] p s(2) by (simp add: add.commute)
    then show ?thesis using t ne V_string s \<open>?p = string_bytes s @ [0]\<close> by (simp add: defs value_bytes_def string_bytes_def)
  next
    case (V_wstring ws)
    then show ?thesis using v by (auto simp: stored_def writable_def split: value_t.splits option.splits)
  next
    case (V_other n)
    then show ?thesis using v by (auto simp: stored_def writable_def split: value_t.splits option.splits)
  qed (use t ne p f in \<open>auto simp: defs value_bytes_def payload_bytes_def ints\<close>)
qed

section \<open>Sequences of values\<close>

fun write_values :: "machine \<Rightarrow> alloc_t \<Rightarrow> wbuffer_t \<Rightarrow> value_t list \<Rightarrow> ret_t \<times> wbuffer_t" where
  "write_values m alloc wb [] = (RET_OK, wb)"
| "write_values m alloc wb (v # vs) =
     (case wbuffer_write_value m alloc wb v of (r, wb) \<Rightarrow> if r = RET_OK then write_values m alloc wb vs else (r, wb))"

fun read_values :: "machine \<Rightarrow> nat \<Rightarrow> rbuffer_t \<Rightarrow> value_t list \<times> rbuffer_t" where
  "read_values m 0 rb = ([], rb)"
| "read_values m (Suc n) rb =
     (case rbuffer_read_value m rb of
        (RET_OK, Some v, rb) \<Rightarrow> (case read_values m n rb of (vs, rb) \<Rightarrow> (v # vs, rb))
      | (_, _, rb) \<Rightarrow> ([], rb))"

definition values_bytes :: "machine \<Rightarrow> value_t list \<Rightarrow> byte list" where
  "values_bytes m vs = concat (map (value_bytes m) vs)"

lemma values_bytes_simps [simp]: "values_bytes m [] = []" "values_bytes m (v # vs) = value_bytes m v @ values_bytes m vs"
  by (simp_all add: values_bytes_def)

lemma write_values_spec:
  assumes "wb_inv wb" and "wb_grants alloc wb" and "list_all (writable (m_wsize m)) vs"
    and "wb_cursor wb + length (values_bytes m vs) + 1 < 2 ^ 31"
  shows "\<exists>wb'. write_values m alloc wb vs = (RET_OK, wb') \<and> wb_inv wb' \<and> wb_bytes wb' = wb_bytes wb @ values_bytes m vs"
  using assms
proof (induction vs arbitrary: wb)
  case (Cons v vs)
  have "wb_appends alloc wb (value_bytes m v) (wbuffer_write_value m alloc wb v)"
    by (rule value_write_appends) (use Cons.prems in auto)
  then obtain w where w: "wbuffer_write_value m alloc wb v = (RET_OK, w)" "wb_inv w" "wb_bytes w = wb_bytes wb @ value_bytes m v"
    "wb_grants alloc w" "wb_cursor w = wb_cursor wb + length (value_bytes m v)"
    by (rule wb_appendsE[OF _ Cons.prems(2,1)])
  have "\<exists>wb'. write_values m alloc w vs = (RET_OK, wb') \<and> wb_inv wb' \<and> wb_bytes wb' = wb_bytes w @ values_bytes m vs"
    by (rule Cons.IH) (use Cons.prems w in simp_all)
  then show ?case using w by auto
qed simp

lemma read_values_spec:
  assumes "at_cursor rb (values_bytes m vs)" and "list_all (writable (m_wsize m)) vs" and "\<forall>x. m_narrow m (m_widen m x) = x"
  shows "read_values m (length vs) rb = (map (stored (m_wsize m)) vs, moved rb (length (values_bytes m vs)))"
  using assms
proof (induction vs arbitrary: rb)
  case Nil
  then show ?case by (simp add: moved_def)
next
  case (Cons v vs)
  have a: "at_cursor rb (value_bytes m v)" "at_cursor (moved rb (length (value_bytes m v))) (values_bytes m vs)"
    using at_cursor_append Cons.prems(1) by auto
  show ?case using read_value_at[OF a(1)] Cons.IH[OF a(2)] Cons.prems(2,3) by simp
qed

section \<open>Properties\<close>

text \<open>
  C22. Values written to a growing buffer are read back in order and exhaust it. For every list of
  values the writer supports, on machines of either byte order, reading as many values from the
  bytes written gives the values as stored. A stored value differs from the value written for wide
  strings only, which come back as their UTF-8 text, and for unsigned 64-bit values of \<open>2^16\<close> and
  more: the writer reads those with \<open>value_uint16\<close>, so that only their low 16 bits survive.
\<close>

theorem buffer_values_roundtrip:
  assumes "list_all (writable (m_wsize m)) vs" and "vs \<noteq> []" and "length (values_bytes m vs) + 1 < 2 ^ 31"
    and "\<forall>x. m_narrow m (m_widen m x) = x" and "\<forall>n. alloc n"
  shows "\<exists>wb rb rb'. write_values m alloc wbuffer_init_extendable vs = (RET_OK, wb) \<and>
    rbuffer_init (wb_data wb) (wb_cursor wb) = Some rb \<and>
    read_values m (length vs) rb = (map (stored (m_wsize m)) vs, rb') \<and> \<not> rbuffer_has_more rb' \<and>
    (\<forall>v \<in> set vs. stored (m_wsize m) v \<noteq> v \<longleftrightarrow> (\<exists>ws. v = V_wstring ws) \<or> (\<exists>w. v = V_uint64 w \<and> 2 ^ 16 \<le> unat w))"
proof -
  obtain wb where wb: "write_values m alloc wbuffer_init_extendable vs = (RET_OK, wb)" "wb_inv wb" "wb_bytes wb = values_bytes m vs"
    using write_values_spec[OF wbuffer_init_inv(1) _ assms(1), of alloc] assms(3,5)
    by (auto simp: wb_grants_def wbuffer_init_extendable_def wb_bytes_def)
  have ne: "values_bytes m vs \<noteq> []" using assms(2) by (cases vs) (auto simp: value_bytes_def)
  have len: "wb_cursor wb = length (values_bytes m vs)" using wb by (metis wb_bytes_length)
  have data: "wb_data wb \<noteq> []" "wb_cursor wb \<le> length (wb_data wb)" "take (wb_cursor wb) (wb_data wb) = values_bytes m vs"
    using wb ne by (auto simp: wb_inv_def wb_bytes_def)
  let ?rb = "\<lparr>rd_data = wb_data wb, rd_cursor = 0, rd_capacity = wb_cursor wb\<rparr>"
  have "at_cursor ?rb (values_bytes m vs)" using data len by (simp add: at_cursor_def)
  note r = read_values_spec[OF this assms(1,4)]
  have "stored (m_wsize m) v \<noteq> v \<longleftrightarrow> (\<exists>ws. v = V_wstring ws) \<or> (\<exists>w. v = V_uint64 w \<and> 2 ^ 16 \<le> unat w)" if "v \<in> set vs" for v
  proof (cases v)
    case (V_uint64 w)
    have "unat (ucast (ucast w :: 16 word) :: 64 word) = unat w mod 2 ^ 16"
      by transfer (simp add: take_bit_eq_mod nat_mod_distrib)
    then have "(ucast (ucast w :: 16 word) :: 64 word) = w \<longleftrightarrow> unat w mod 2 ^ 16 = unat w" by (metis word_unat_eq_iff)
    also have "\<dots> \<longleftrightarrow> unat w < 2 ^ 16" by (metis mod_less mod_less_divisor zero_less_numeral zero_less_power)
    finally show ?thesis using V_uint64 by (simp add: stored_def not_less)
  qed (use that assms(1) in \<open>auto simp: stored_def writable_def list_all_iff split: option.splits\<close>)
  then show ?thesis using wb(1) data(1) r len
    by (intro exI[of _ wb] exI[of _ ?rb] exI[of _ "moved ?rb (length (values_bytes m vs))"])
      (auto simp: rbuffer_init_def rbuffer_has_more_def moved_def)
qed

theorem buffer_values_roundtrip_witness:
  "\<exists>wb rb rb'. write_values \<lparr>m_le = False, m_wsize = 4, m_widen = ucast, m_narrow = ucast\<rparr> (\<lambda>n. True) wbuffer_init_extendable
      [V_string (Some ''ab''), V_int16 (- 2), V_uint64 0x10001] = (RET_OK, wb) \<and> rbuffer_init (wb_data wb) (wb_cursor wb) = Some rb \<and>
    read_values \<lparr>m_le = False, m_wsize = 4, m_widen = ucast, m_narrow = ucast\<rparr> 3 rb =
      ([V_string (Some ''ab''), V_int16 (- 2), V_uint64 1], rb')"
proof -
  let ?m = "\<lparr>m_le = False, m_wsize = 4, m_widen = ucast, m_narrow = ucast\<rparr>" and ?vs = "[V_string (Some ''ab''), V_int16 (- 2), V_uint64 0x10001]"
  have w: "list_all (writable (m_wsize ?m)) ?vs" by (simp add: writable_def)
  have l: "length (values_bytes ?m ?vs) + 1 < 2 ^ 31" by (simp add: value_bytes_def payload_bytes_def stored_def string_bytes_def)
  have "(ucast (ucast (x :: 32 word) :: 64 word) :: 32 word) = x" for x by (rule bit_word_eqI) (simp add: bit_simps)
  then have c: "\<forall>x. m_narrow ?m (m_widen ?m x) = x" by simp
  have s: "map (stored (m_wsize ?m)) ?vs = [V_string (Some ''ab''), V_int16 (- 2), V_uint64 1]"
    by (simp add: stored_def)
  from buffer_values_roundtrip[OF w _ l c, of "\<lambda>n. True", unfolded s] show ?thesis by (auto simp: numeral_3_eq_3)
qed

end
