(* ===== verification/Emitter.thy ===== *)
theory Emitter
  imports AwtkPrelude
begin

text \<open>
  The event dispatcher of \<open>src/src/tkc/emitter.c\<close>, on a heap of items linked by their
  \<open>next\<close> pointers; \<open>None\<close> as the result of an operation is an access through NULL or
  to an item that was freed. A handler may do anything with the emitter while it is dispatched:
  register and remove handlers, its own included, and dispatch again. What it does is given as a
  function (\<open>emitter_dispatch\<close>); \<open>EmitterRun\<close> adds the machine with a stack of running
  dispatches. An \<open>on_destroy\<close> that calls the emitter itself is not modelled.

  Shown here: the loops find the first item they look for, and removing an item that does not run
  unlinks and frees exactly that one.
\<close>

section \<open>State\<close>

record emitter_item_t =
  it_ctx :: ptr
  it_id :: nat
  it_type :: nat
  it_handler :: ptr
  it_tag :: nat
  it_working :: bool
  it_pending :: bool
  it_on_destroy :: ptr
  it_on_destroy_ctx :: ptr
  it_next :: ptr

text \<open>\<open>em_destroyed\<close> records the calls of \<open>on_destroy\<close>.\<close>

record emitter_t =
  em_items :: ptr
  em_next_id :: nat
  em_disable :: int
  em_heap :: "ptr \<Rightarrow> emitter_item_t option"
  em_destroyed :: "(ptr \<times> ptr) list"

record event_t =
  ev_type :: nat
  ev_time :: nat
  ev_target :: ptr

definition get_item :: "emitter_t \<Rightarrow> ptr \<Rightarrow> emitter_item_t option" where
  "get_item em p = (if p = NULL then None else em_heap em p)"

definition upd_item :: "ptr \<Rightarrow> (emitter_item_t \<Rightarrow> emitter_item_t) \<Rightarrow> emitter_t \<Rightarrow> emitter_t option" where
  "upd_item p f em = Option.bind (get_item em p) (\<lambda>it. Some (em\<lparr>em_heap := (em_heap em)(p \<mapsto> f it)\<rparr>))"

section \<open>Registration\<close>

definition emitter_init :: emitter_t where
  "emitter_init = \<lparr>em_items = NULL, em_next_id = 1, em_disable = 0, em_heap = (\<lambda>p. None), em_destroyed = []\<rparr>"

text \<open>\<open>TK_INVALID_ID\<close> is \<open>0\<close>.\<close>

definition emitter_next_id :: "emitter_t \<Rightarrow> nat \<times> emitter_t" where
  "emitter_next_id em =
     (let n = em_next_id em; em = em\<lparr>em_next_id := u32 (n + 1)\<rparr>
      in if n = 0 then (em_next_id em, em\<lparr>em_next_id := u32 (em_next_id em + 1)\<rparr>) else (n, em))"

text \<open>\<open>iter\<close> is the new block, NULL when there is no memory.\<close>

definition emitter_on_with_tag :: "emitter_t \<Rightarrow> ptr \<Rightarrow> nat \<Rightarrow> ptr \<Rightarrow> ptr \<Rightarrow> nat \<Rightarrow> nat \<times> emitter_t" where
  "emitter_on_with_tag em iter etype handler ctx tag =
     (if handler = NULL \<or> iter = NULL then (0, em)
      else (case emitter_next_id em of (n, em) \<Rightarrow>
        (n, em\<lparr>em_heap := (em_heap em)(iter \<mapsto>
               \<lparr>it_ctx = ctx, it_id = n, it_type = etype, it_handler = handler, it_tag = tag, it_working = False, it_pending = False,
                it_on_destroy = NULL, it_on_destroy_ctx = NULL, it_next = em_items em\<rparr>), em_items := iter\<rparr>)))"

definition emitter_on :: "emitter_t \<Rightarrow> ptr \<Rightarrow> nat \<Rightarrow> ptr \<Rightarrow> ptr \<Rightarrow> nat \<times> emitter_t" where
  "emitter_on em iter etype handler ctx = emitter_on_with_tag em iter etype handler ctx 0"

text \<open>The loops over the items: the first item from \<open>iter\<close> on that satisfies \<open>P\<close>, or NULL.\<close>

partial_function (option) find_item :: "emitter_t \<Rightarrow> (ptr \<Rightarrow> emitter_item_t \<Rightarrow> bool) \<Rightarrow> ptr \<Rightarrow> ptr option" where
  "find_item em P iter =
     (if iter = NULL then Some NULL
      else Option.bind (get_item em iter) (\<lambda>it. if P iter it then Some iter else find_item em P (it_next it)))"

definition emitter_exist :: "emitter_t \<Rightarrow> nat \<Rightarrow> ptr \<Rightarrow> ptr \<Rightarrow> bool option" where
  "emitter_exist em etype handler ctx =
     Option.bind (find_item em (\<lambda>p it. it_handler it = handler \<and> it_type it = etype \<and> it_ctx it = ctx) (em_items em))
       (\<lambda>p. Some (p \<noteq> NULL))"

definition emitter_exist_by_etype :: "emitter_t \<Rightarrow> nat \<Rightarrow> bool option" where
  "emitter_exist_by_etype em etype =
     Option.bind (find_item em (\<lambda>p it. it_type it = etype) (em_items em)) (\<lambda>p. Some (p \<noteq> NULL))"

definition emitter_find :: "emitter_t \<Rightarrow> nat \<Rightarrow> ptr option" where
  "emitter_find em n = find_item em (\<lambda>p it. it_id it = n) (em_items em)"

partial_function (option) count_items :: "emitter_t \<Rightarrow> ptr \<Rightarrow> nat \<Rightarrow> nat option" where
  "count_items em iter n =
     (if iter = NULL then Some n
      else Option.bind (get_item em iter) (\<lambda>it. count_items em (it_next it) (u32 (n + 1))))"

definition emitter_size :: "emitter_t \<Rightarrow> nat option" where
  "emitter_size em = count_items em (em_items em) 0"

text \<open>\<open>for (i = 0; i < index && iter != NULL; i++)\<close>\<close>

fun nth_item :: "emitter_t \<Rightarrow> nat \<Rightarrow> ptr \<Rightarrow> ptr option" where
  "nth_item em 0 iter = Some iter"
| "nth_item em (Suc i) iter =
     (if iter = NULL then Some iter else Option.bind (get_item em iter) (\<lambda>it. nth_item em i (it_next it)))"

definition emitter_get_item :: "emitter_t \<Rightarrow> nat \<Rightarrow> ptr option" where
  "emitter_get_item em index =
     Option.bind (emitter_size em) (\<lambda>n. if index < n then nth_item em index (em_items em) else Some NULL)"

definition emitter_set_on_destroy :: "emitter_t \<Rightarrow> nat \<Rightarrow> ptr \<Rightarrow> ptr \<Rightarrow> (ret_t \<times> emitter_t) option" where
  "emitter_set_on_destroy em n on_destroy ctx =
     Option.bind (emitter_find em n) (\<lambda>p.
       if p = NULL then Some (RET_BAD_PARAMS, em)
       else Option.bind (upd_item p (\<lambda>it. it\<lparr>it_on_destroy := on_destroy, it_on_destroy_ctx := ctx\<rparr>) em) (\<lambda>em. Some (RET_OK, em)))"

definition emitter_enable :: "emitter_t \<Rightarrow> ret_t \<times> emitter_t" where
  "emitter_enable em = (if em_disable em > 0 then (RET_OK, em\<lparr>em_disable := em_disable em - 1\<rparr>) else (RET_FAIL, em))"

definition emitter_disable :: "emitter_t \<Rightarrow> ret_t \<times> emitter_t" where
  "emitter_disable em = (RET_OK, em\<lparr>em_disable := s32 (em_disable em + 1)\<rparr>)"

section \<open>Removal\<close>

text \<open>\<open>on_destroy\<close> is called with the item; the block is freed.\<close>

definition emitter_item_destroy :: "emitter_t \<Rightarrow> ptr \<Rightarrow> emitter_t option" where
  "emitter_item_destroy em iter =
     Option.bind (get_item em iter) (\<lambda>it.
       let em = (if it_on_destroy it \<noteq> NULL then em\<lparr>em_destroyed := em_destroyed em @ [(it_on_destroy it, it_on_destroy_ctx it)]\<rparr> else em)
       in Some (em\<lparr>em_heap := (em_heap em)(iter := None)\<rparr>))"

definition emitter_remove :: "emitter_t \<Rightarrow> ptr \<Rightarrow> ptr \<Rightarrow> (ret_t \<times> emitter_t) option" where
  "emitter_remove em prev iter =
     Option.bind (get_item em iter) (\<lambda>it.
       if it_working it then Option.bind (upd_item iter (\<lambda>it. it\<lparr>it_pending := True\<rparr>) em) (\<lambda>em. Some (RET_OK, em))
       else Option.bind (if iter = em_items em then Some (em\<lparr>em_items := it_next it\<rparr>)
                         else upd_item prev (\<lambda>p. p\<lparr>it_next := it_next it\<rparr>) em) (\<lambda>em.
              Option.bind (emitter_item_destroy em iter) (\<lambda>em. Some (RET_OK, em))))"

partial_function (option) remove_item_loop :: "emitter_t \<Rightarrow> ptr \<Rightarrow> ptr \<Rightarrow> ptr \<Rightarrow> (ret_t \<times> emitter_t) option" where
  "remove_item_loop em item prev iter =
     (if iter = NULL then Some (RET_NOT_FOUND, em)
      else Option.bind (get_item em iter) (\<lambda>it.
             if iter = item then emitter_remove em prev iter else remove_item_loop em item iter (it_next it)))"

definition emitter_remove_item :: "emitter_t \<Rightarrow> ptr \<Rightarrow> (ret_t \<times> emitter_t) option" where
  "emitter_remove_item em item = remove_item_loop em item (em_items em) (em_items em)"

partial_function (option) off_ex_loop ::
  "emitter_t \<Rightarrow> (emitter_item_t \<Rightarrow> int) \<Rightarrow> ptr \<Rightarrow> ptr \<Rightarrow> (ret_t \<times> emitter_t) option" where
  "off_ex_loop em cmp prev iter =
     (if iter = NULL then Some (RET_FAIL, em)
      else Option.bind (get_item em iter) (\<lambda>it.
             if \<not> it_pending it \<and> cmp it = 0 then emitter_remove em prev iter else off_ex_loop em cmp iter (it_next it)))"

definition emitter_off_ex :: "emitter_t \<Rightarrow> (emitter_item_t \<Rightarrow> int) \<Rightarrow> (ret_t \<times> emitter_t) option" where
  "emitter_off_ex em cmp = off_ex_loop em cmp (em_items em) (em_items em)"

definition emitter_item_compare_by_tag :: "nat \<Rightarrow> emitter_item_t \<Rightarrow> int" where
  "emitter_item_compare_by_tag tag it = s32 (int (it_tag it) - int tag)"

definition emitter_item_compare_by_ctx :: "ptr \<Rightarrow> emitter_item_t \<Rightarrow> int" where
  "emitter_item_compare_by_ctx ctx it = (if it_ctx it = ctx then 0 else 1)"

definition emitter_item_compare_by_id :: "nat \<Rightarrow> emitter_item_t \<Rightarrow> int" where
  "emitter_item_compare_by_id n it = s32 (int (it_id it) - int n)"

definition emitter_item_compare_by_func :: "nat \<Rightarrow> ptr \<Rightarrow> ptr \<Rightarrow> emitter_item_t \<Rightarrow> int" where
  "emitter_item_compare_by_func etype handler ctx it =
     (if it_type it = etype \<and> it_ctx it = ctx \<and> it_handler it = handler then 0 else - 1)"

definition emitter_off :: "emitter_t \<Rightarrow> nat \<Rightarrow> (ret_t \<times> emitter_t) option" where
  "emitter_off em n = emitter_off_ex em (emitter_item_compare_by_id n)"

text \<open>\<open>while (TRUE)\<close> until nothing is found any more.\<close>

partial_function (option) off_again :: "(emitter_item_t \<Rightarrow> int) \<Rightarrow> emitter_t \<Rightarrow> emitter_t option" where
  "off_again cmp em =
     Option.bind (emitter_off_ex em cmp) (\<lambda>(r, em). if r \<noteq> RET_OK then Some em else off_again cmp em)"

definition off_all :: "emitter_t \<Rightarrow> (emitter_item_t \<Rightarrow> int) \<Rightarrow> (ret_t \<times> emitter_t) option" where
  "off_all em cmp =
     Option.bind (emitter_off_ex em cmp) (\<lambda>(r, em).
       if r = RET_OK then Option.bind (off_again cmp em) (\<lambda>em. Some (r, em)) else Some (r, em))"

definition emitter_off_by_func :: "emitter_t \<Rightarrow> nat \<Rightarrow> ptr \<Rightarrow> ptr \<Rightarrow> (ret_t \<times> emitter_t) option" where
  "emitter_off_by_func em etype handler ctx = off_all em (emitter_item_compare_by_func etype handler ctx)"

definition emitter_off_by_tag :: "emitter_t \<Rightarrow> nat \<Rightarrow> (ret_t \<times> emitter_t) option" where
  "emitter_off_by_tag em tag = off_all em (emitter_item_compare_by_tag tag)"

definition emitter_off_by_ctx :: "emitter_t \<Rightarrow> ptr \<Rightarrow> (ret_t \<times> emitter_t) option" where
  "emitter_off_by_ctx em ctx = off_all em (emitter_item_compare_by_ctx ctx)"

partial_function (option) destroy_items :: "emitter_t \<Rightarrow> ptr \<Rightarrow> emitter_t option" where
  "destroy_items em iter =
     (if iter = NULL then Some em
      else Option.bind (get_item em iter) (\<lambda>it.
             Option.bind (emitter_item_destroy em iter) (\<lambda>em. destroy_items em (it_next it))))"

definition emitter_deinit :: "emitter_t \<Rightarrow> (ret_t \<times> emitter_t) option" where
  "emitter_deinit em =
     (if em_items em \<noteq> NULL then
        Option.bind (destroy_items em (em_items em)) (\<lambda>em. Some (RET_OK, em\<lparr>em_items := NULL\<rparr>))
      else Some (RET_OK, em))"

section \<open>Dispatch\<close>

text \<open>
  One round of the loop of \<open>emitter_dispatch\<close> in two halves. Before the call of the handler: the
  item is marked as working, and whether it was already is remembered. After the call: the mark is
  restored and the status of the handler decides; the result is whether the loop is left, and the item
  to go on with.
\<close>

definition dispatch_call :: "emitter_t \<Rightarrow> ptr \<Rightarrow> (bool \<times> emitter_t) option" where
  "dispatch_call em iter =
     Option.bind (get_item em iter) (\<lambda>it.
       Option.bind (upd_item iter (\<lambda>it. it\<lparr>it_working := True\<rparr>) em) (\<lambda>em. Some (it_working it, em)))"

definition dispatch_after :: "emitter_t \<Rightarrow> ptr \<Rightarrow> bool \<Rightarrow> ret_t \<Rightarrow> (bool \<times> ptr \<times> emitter_t) option" where
  "dispatch_after em iter is_working ret =
     Option.bind (if \<not> is_working then upd_item iter (\<lambda>it. it\<lparr>it_working := False\<rparr>) em else Some em) (\<lambda>em.
       Option.bind (get_item em iter) (\<lambda>it.
         if ret = RET_STOP then
           (if it_pending it then Option.bind (emitter_remove_item em iter) (\<lambda>(_, em). Some (True, NULL, em))
            else Some (True, NULL, em))
         else if ret = RET_REMOVE \<or> it_pending it then
           Option.bind (emitter_remove_item em iter) (\<lambda>(_, em). Some (False, it_next it, em))
         else Some (False, it_next it, em)))"

text \<open>A handler with its context, as a function of the world, the event and the emitter.\<close>

type_synonym 'w handlers = "ptr \<Rightarrow> ptr \<Rightarrow> 'w \<Rightarrow> event_t \<Rightarrow> emitter_t \<Rightarrow> ret_t \<times> 'w \<times> event_t \<times> emitter_t"

partial_function (option) dispatch_loop ::
  "'w handlers \<Rightarrow> 'w \<Rightarrow> event_t \<Rightarrow> emitter_t \<Rightarrow> ptr \<Rightarrow> (ret_t \<times> 'w \<times> event_t \<times> emitter_t) option" where
  "dispatch_loop h w e em iter =
     Option.bind (find_item em (\<lambda>p it. it_type it = ev_type e) iter) (\<lambda>p.
       if p = NULL then Some (RET_OK, w, e, em)
       else Option.bind (dispatch_call em p) (\<lambda>(is_working, em).
              Option.bind (get_item em p) (\<lambda>it.
                case h (it_handler it) (it_ctx it) w e em of (ret, w, e, em) \<Rightarrow>
                  Option.bind (dispatch_after em p is_working ret) (\<lambda>(stop, next, em).
                    if stop then Some (ret, w, e, em) else dispatch_loop h w e em next))))"

text \<open>\<open>now\<close> is the clock, \<open>self\<close> the address of the emitter.\<close>

definition emitter_dispatch ::
  "'w handlers \<Rightarrow> nat \<Rightarrow> ptr \<Rightarrow> 'w \<Rightarrow> emitter_t \<Rightarrow> event_t \<Rightarrow> (ret_t \<times> 'w \<times> event_t \<times> emitter_t) option" where
  "emitter_dispatch h now self w em e =
     (let e = (if ev_time e = 0 then e\<lparr>ev_time := now\<rparr> else e);
          e = (if ev_target e = NULL then e\<lparr>ev_target := self\<rparr> else e)
      in if em_disable em = 0 \<and> em_items em \<noteq> NULL then dispatch_loop h w e em (em_items em) else Some (RET_OK, w, e, em))"

definition emitter_dispatch_simple_event ::
  "'w handlers \<Rightarrow> nat \<Rightarrow> ptr \<Rightarrow> 'w \<Rightarrow> emitter_t \<Rightarrow> nat \<Rightarrow> (ret_t \<times> 'w \<times> event_t \<times> emitter_t) option" where
  "emitter_dispatch_simple_event h now self w em etype =
     emitter_dispatch h now self w em \<lparr>ev_type = etype, ev_time = now, ev_target = self\<rparr>"

definition emitter_forward_retarget ::
  "'w handlers \<Rightarrow> nat \<Rightarrow> ptr \<Rightarrow> 'w \<Rightarrow> emitter_t \<Rightarrow> event_t \<Rightarrow> (ret_t \<times> 'w \<times> event_t \<times> emitter_t) option" where
  "emitter_forward_retarget h now self w em e =
     Option.bind (emitter_dispatch h now self w em (e\<lparr>ev_target := self\<rparr>)) (\<lambda>(ret, w, e', em).
       Some (ret, w, e'\<lparr>ev_target := ev_target e\<rparr>, em))"

section \<open>The list of items\<close>

text \<open>The items \<open>ps\<close> are linked from \<open>p\<close> on, and the last one points to \<open>q\<close>.\<close>

fun iseg :: "(ptr \<Rightarrow> emitter_item_t option) \<Rightarrow> ptr \<Rightarrow> ptr list \<Rightarrow> ptr \<Rightarrow> bool" where
  "iseg hp p [] q \<longleftrightarrow> p = q"
| "iseg hp p (x # xs) q \<longleftrightarrow> p = x \<and> x \<noteq> NULL \<and> (\<exists>it. hp x = Some it \<and> iseg hp (it_next it) xs q)"

definition em_rep :: "emitter_t \<Rightarrow> ptr list \<Rightarrow> bool" where
  "em_rep em ps \<longleftrightarrow> iseg (em_heap em) (em_items em) ps NULL \<and> distinct ps"

text \<open>An item without its place in the list.\<close>

definition core :: "emitter_item_t \<Rightarrow> emitter_item_t" where
  "core it = it\<lparr>it_next := NULL\<rparr>"

lemma core_fields [simp]:
  "it_ctx (core it) = it_ctx it" "it_id (core it) = it_id it" "it_type (core it) = it_type it" "it_handler (core it) = it_handler it"
  "it_tag (core it) = it_tag it" "it_working (core it) = it_working it" "it_pending (core it) = it_pending it"
  "core (it\<lparr>it_next := n\<rparr>) = core it"
  by (simp_all add: core_def)

lemma core_eqD:
  assumes "core a = core b"
  shows "it_ctx a = it_ctx b" "it_id a = it_id b" "it_type a = it_type b" "it_handler a = it_handler b"
    "it_tag a = it_tag b" "it_working a = it_working b" "it_pending a = it_pending b"
  using assms by (metis core_fields)+

lemma iseg_append: "iseg hp p (xs @ ys) q \<longleftrightarrow> (\<exists>r. iseg hp p xs r \<and> iseg hp r ys q)"
  by (induction xs arbitrary: p) auto

lemma iseg_cong:
  "\<forall>x \<in> set xs. map_option it_next (hp' x) = map_option it_next (hp x) \<Longrightarrow> iseg hp' p xs q \<longleftrightarrow> iseg hp p xs q"
proof (induction xs arbitrary: p)
  case (Cons x xs)
  then show ?case by (cases "hp x"; cases "hp' x") auto
qed simp

lemma iseg_upd: "hp x = Some it \<Longrightarrow> it_next it' = it_next it \<Longrightarrow> iseg (hp(x \<mapsto> it')) p xs q \<longleftrightarrow> iseg hp p xs q"
  by (rule iseg_cong) auto

lemma iseg_upd_other: "x \<notin> set xs \<Longrightarrow> iseg (hp(x := v)) p xs q \<longleftrightarrow> iseg hp p xs q"
  by (rule iseg_cong) auto

lemma iseg_in: "iseg hp p xs q \<Longrightarrow> x \<in> set xs \<Longrightarrow> x \<noteq> NULL \<and> (\<exists>it. hp x = Some it)"
  by (induction xs arbitrary: p) auto

lemma iseg_snoc: "iseg hp p (xs @ [x]) q \<longleftrightarrow> iseg hp p xs x \<and> x \<noteq> NULL \<and> (\<exists>it. hp x = Some it \<and> it_next it = q)"
  by (auto simp: iseg_append)

text \<open>Unlinking the item \<open>p\<close> between \<open>xs\<close> and \<open>ys\<close>.\<close>

lemma iseg_unlink:
  assumes "iseg hp a (xs @ p # ys) NULL" and "distinct (xs @ p # ys)" and "xs \<noteq> []" and "hp (last xs) = Some l" and "hp p = Some it"
  shows "iseg (hp(last xs \<mapsto> l\<lparr>it_next := it_next it\<rparr>, p := None)) a (xs @ ys) NULL"
proof -
  define ws where "ws = butlast xs"
  define z where "z = last xs"
  have xs: "xs = ws @ [z]" using assms(3) by (simp add: ws_def z_def)
  have parts: "iseg hp a ws z" "z \<noteq> NULL" "iseg hp (it_next it) ys NULL" "hp z = Some l"
    using assms(1,4,5) by (auto simp: xs iseg_append)
  have nin: "z \<notin> set ws" "p \<notin> set ws" "z \<notin> set ys" "p \<notin> set ys" "z \<noteq> p" using assms(2) by (auto simp: xs)
  have "iseg (hp(z \<mapsto> l\<lparr>it_next := it_next it\<rparr>, p := None)) a (ws @ [z] @ ys) NULL"
    using parts nin by (auto simp: iseg_append iseg_upd_other)
  then show ?thesis by (simp add: xs)
qed

lemma em_rep_get: "em_rep em ps \<Longrightarrow> p \<in> set ps \<Longrightarrow> \<exists>it. get_item em p = Some it \<and> em_heap em p = Some it"
  using iseg_in by (fastforce simp: em_rep_def get_item_def)

text \<open>The item \<open>p\<close> is gone, every other item is as it was, up to its place.\<close>

definition em_gone :: "ptr \<Rightarrow> emitter_t \<Rightarrow> emitter_t \<Rightarrow> bool" where
  "em_gone p em em' \<longleftrightarrow> em_heap em' p = None \<and> (\<forall>q. q \<noteq> p \<longrightarrow> map_option core (em_heap em' q) = map_option core (em_heap em q)) \<and>
     em_next_id em' = em_next_id em \<and> em_disable em' = em_disable em"

lemma emitter_remove_idle:
  assumes rep: "em_rep em (xs @ p # ys)" and it: "em_heap em p = Some it" "\<not> it_working it" and prev: "xs \<noteq> [] \<Longrightarrow> prev = last xs"
  shows "\<exists>em'. emitter_remove em prev p = Some (RET_OK, em') \<and> em_rep em' (xs @ ys) \<and> em_gone p em em'"
proof -
  have seg: "iseg (em_heap em) (em_items em) (xs @ p # ys) NULL" and dist: "distinct (xs @ p # ys)" using rep by (auto simp: em_rep_def)
  have p: "get_item em p = Some it" using it(1) iseg_in[OF seg, of p] by (simp add: get_item_def)
  show ?thesis
  proof (cases "xs = []")
    case True
    then have "em_items em = p" using seg by simp
    moreover have "iseg ((em_heap em)(p := None)) (it_next it) ys NULL" using seg True it(1) dist by (simp add: iseg_upd_other)
    ultimately show ?thesis using True it p dist iseg_in[OF seg, of p]
      by (auto simp: emitter_remove_def emitter_item_destroy_def get_item_def Let_def em_rep_def em_gone_def)
  next
    case False
    obtain l where l: "em_heap em (last xs) = Some l" "last xs \<noteq> NULL" using iseg_in[OF seg, of "last xs"] False by auto
    have ne: "em_items em \<noteq> p" "last xs \<noteq> p" using seg dist False by (cases xs; auto)+
    have "iseg ((em_heap em)(last xs \<mapsto> l\<lparr>it_next := it_next it\<rparr>, p := None)) (em_items em) (xs @ ys) NULL"
      by (rule iseg_unlink[OF seg dist False l(1) it(1)])
    then show ?thesis using prev[OF False] it p l ne dist iseg_in[OF seg, of p]
      by (auto simp: emitter_remove_def emitter_item_destroy_def upd_item_def get_item_def Let_def em_rep_def em_gone_def)
  qed
qed

lemma emitter_remove_working:
  assumes rep: "em_rep em ps" and it: "em_heap em p = Some it" "it_working it" and p: "p \<in> set ps"
  shows "emitter_remove em prev p = Some (RET_OK, em\<lparr>em_heap := (em_heap em)(p \<mapsto> it\<lparr>it_pending := True\<rparr>)\<rparr>)"
    and "em_rep (em\<lparr>em_heap := (em_heap em)(p \<mapsto> it\<lparr>it_pending := True\<rparr>)\<rparr>) ps"
  using em_rep_get[OF rep p] it rep by (auto simp: emitter_remove_def upd_item_def em_rep_def iseg_upd)

text \<open>The loops find the first item they look for.\<close>

lemma find_item_eq:
  "iseg (em_heap em) iter ps NULL \<Longrightarrow>
   find_item em P iter = Some (case find (\<lambda>p. P p (the (em_heap em p))) ps of Some p \<Rightarrow> p | None \<Rightarrow> NULL)"
proof (induction ps arbitrary: iter)
  case Nil
  then show ?case by (simp add: find_item.simps)
next
  case (Cons p ps)
  then obtain it where it: "em_heap em p = Some it" "iter = p" "p \<noteq> NULL" "iseg (em_heap em) (it_next it) ps NULL" by auto
  then show ?case using Cons.IH[OF it(4)] by (subst find_item.simps) (simp add: get_item_def)
qed

lemma remove_item_loop_eq:
  assumes "iseg (em_heap em) iter (xs @ item # ys) NULL" and "item \<notin> set xs"
  shows "remove_item_loop em item prev iter = emitter_remove em (if xs = [] then prev else last xs) item"
  using assms
proof (induction xs arbitrary: iter prev)
  case Nil
  then show ?case by (subst remove_item_loop.simps) (auto simp: get_item_def)
next
  case (Cons x xs)
  then obtain it where it: "em_heap em x = Some it" "iter = x" "x \<noteq> NULL" "iseg (em_heap em) (it_next it) (xs @ item # ys) NULL" by auto
  then show ?case using Cons.IH[OF it(4)] Cons.prems(2) by (subst remove_item_loop.simps) (simp add: get_item_def)
qed

lemma off_ex_loop_eq:
  assumes "iseg (em_heap em) iter ps NULL"
  shows "off_ex_loop em cmp prev iter =
    (case find (\<lambda>p. \<not> it_pending (the (em_heap em p)) \<and> cmp (the (em_heap em p)) = 0) ps of
       None \<Rightarrow> Some (RET_FAIL, em)
     | Some p \<Rightarrow> emitter_remove em (let xs = takeWhile (\<lambda>q. q \<noteq> p) ps in if xs = [] then prev else last xs) p)"
  using assms
proof (induction ps arbitrary: iter prev)
  case Nil
  then show ?case by (simp add: off_ex_loop.simps)
next
  case (Cons x xs)
  then obtain it where it: "em_heap em x = Some it" "iter = x" "x \<noteq> NULL" "iseg (em_heap em) (it_next it) xs NULL" by auto
  show ?case
  proof (cases "\<not> it_pending it \<and> cmp it = 0")
    case True
    then show ?thesis using it by (subst off_ex_loop.simps) (simp add: get_item_def)
  next
    case False
    then show ?thesis
    proof (cases "find (\<lambda>p. \<not> it_pending (the (em_heap em p)) \<and> cmp (the (em_heap em p)) = 0) xs")
      case None
      then show ?thesis using it False Cons.IH[OF it(4), of x] by (subst off_ex_loop.simps) (auto simp: get_item_def)
    next
      case (Some p)
      then have "p \<noteq> x" using False it(1) by (auto simp: find_Some_iff)
      then show ?thesis using Some it False Cons.IH[OF it(4), of x]
        by (subst off_ex_loop.simps) (auto simp: get_item_def Let_def)
    qed
  qed
qed

end
