(* ===== verification/EmitterRun.thy ===== *)
theory EmitterRun
  imports Emitter
begin

text \<open>
  What the operations of the dispatcher (\<open>Emitter\<close>) do to the list of its items
  (\<open>em_abs\<close>), and the machine of running dispatches (\<open>em_exec\<close>, \<open>em_reach\<close>): handlers
  register, remove, block and dispatch at any depth.

  Shown: no sequence of such steps ever reads or frees an item that is gone; a handler that was
  removed while it ran is gone when the outermost dispatch of it returns; handlers that leave the
  emitter alone are called once each, the latest registration first, up to the first that stops the
  event; removing all handlers of a tag ends and removes exactly those.
\<close>

section \<open>The emitter as a list of items\<close>

text \<open>
  The emitter holds exactly the items \<open>xs\<close>, in this order, with their addresses; an item is stored
  here without its link.
\<close>

definition em_abs :: "emitter_t \<Rightarrow> (ptr \<times> emitter_item_t) list \<Rightarrow> bool" where
  "em_abs em xs \<longleftrightarrow> em_rep em (map fst xs) \<and> dom (em_heap em) = fst ` set xs \<and>
     (\<forall>x \<in> set xs. map_option core (em_heap em (fst x)) = Some (snd x)) \<and>
     (\<forall>x \<in> set xs. it_tag (snd x) < 4294967296 \<and> it_id (snd x) < 4294967296) \<and> em_next_id em < 4294967296"

text \<open>Removing the items that satisfy \<open>P\<close>: those that run are marked only.\<close>

definition drop_item :: "ptr \<times> emitter_item_t \<Rightarrow> (ptr \<times> emitter_item_t) list" where
  "drop_item = (\<lambda>(p, it). if it_working it then [(p, it\<lparr>it_pending := True\<rparr>)] else [])"

definition drop_if :: "(ptr \<Rightarrow> emitter_item_t \<Rightarrow> bool) \<Rightarrow> (ptr \<times> emitter_item_t) list \<Rightarrow> (ptr \<times> emitter_item_t) list" where
  "drop_if P xs = concat (map (\<lambda>(p, it). if P p it then drop_item (p, it) else [(p, it)]) xs)"

definition destroy_call :: "emitter_item_t \<Rightarrow> (ptr \<times> ptr) list" where
  "destroy_call it = (if it_on_destroy it \<noteq> NULL then [(it_on_destroy it, it_on_destroy_ctx it)] else [])"

definition dropped :: "(ptr \<Rightarrow> emitter_item_t \<Rightarrow> bool) \<Rightarrow> (ptr \<times> emitter_item_t) list \<Rightarrow> (ptr \<times> ptr) list" where
  "dropped P xs = concat (map (\<lambda>(p, it). if P p it \<and> \<not> it_working it then destroy_call it else []) xs)"

lemma drop_if_simps [simp]:
  "drop_if P [] = []"
  "drop_if P (x # xs) = (if P (fst x) (snd x) then drop_item x else [x]) @ drop_if P xs"
  "drop_if P (xs @ ys) = drop_if P xs @ drop_if P ys"
  by (cases x; auto simp: drop_if_def)+

lemma dropped_simps [simp]:
  "dropped P [] = []"
  "dropped P (x # xs) = (if P (fst x) (snd x) \<and> \<not> it_working (snd x) then destroy_call (snd x) else []) @ dropped P xs"
  "dropped P (xs @ ys) = dropped P xs @ dropped P ys"
  by (cases x; auto simp: dropped_def)+

lemma drop_none: "(\<And>p it. (p, it) \<in> set xs \<Longrightarrow> \<not> P p it) \<Longrightarrow> drop_if P xs = xs \<and> dropped P xs = []"
  by (induction xs) auto

lemma core_destroy [simp]: "destroy_call (core it) = destroy_call it"
  by (simp add: core_def destroy_call_def)

lemma core_flags [simp]:
  "core (it\<lparr>it_pending := b\<rparr>) = (core it)\<lparr>it_pending := b\<rparr>" "core (it\<lparr>it_working := b\<rparr>) = (core it)\<lparr>it_working := b\<rparr>"
  "core (it\<lparr>it_on_destroy := f, it_on_destroy_ctx := c\<rparr>) = (core it)\<lparr>it_on_destroy := f, it_on_destroy_ctx := c\<rparr>"
  by (simp_all add: core_def)

lemma em_abs_get:
  assumes "em_abs em xs" and "(p, it) \<in> set xs"
  obtains it' where "get_item em p = Some it'" "em_heap em p = Some it'" "core it' = it" "p \<noteq> NULL"
proof -
  have "em_rep em (map fst xs)" "p \<in> set (map fst xs)" "map_option core (em_heap em p) = Some it"
    using assms by (force simp: em_abs_def)+
  then show ?thesis using em_rep_get[of em "map fst xs" p] iseg_in that by (fastforce simp: em_rep_def)
qed

lemma em_abs_split:
  assumes "em_abs em (xs @ (p, it) # ys)"
  shows "p \<notin> fst ` set xs" "p \<notin> fst ` set ys" "em_rep em (map fst xs @ p # map fst ys)"
  using assms by (auto simp: em_abs_def em_rep_def)

lemma em_abs_upd:
  assumes abs: "em_abs em (xs @ (p, it) # ys)" and p: "em_heap em p = Some i"
    and i': "it_next i' = it_next i" "it_tag i' = it_tag i" "it_id i' = it_id i"
  shows "em_abs (em\<lparr>em_heap := (em_heap em)(p \<mapsto> i')\<rparr>) (xs @ (p, core i') # ys)"
proof -
  note sp = em_abs_split[OF abs]
  have nin: "x \<noteq> p" if "(x, i) \<in> set xs \<union> set ys" for x i using sp(1,2) that by force
  have "core i = it" using abs p by (simp add: em_abs_def)
  then show ?thesis using abs sp(3) p i' nin by (fastforce simp: em_abs_def em_rep_def iseg_upd)
qed

text \<open>Removing one item.\<close>

lemma emitter_item_destroy_destroyed:
  "emitter_item_destroy em p = Some em' \<Longrightarrow> get_item em p = Some it \<Longrightarrow> em_destroyed em' = em_destroyed em @ destroy_call it"
  by (cases "it_on_destroy it = NULL") (auto simp: emitter_item_destroy_def destroy_call_def)

lemma emitter_remove_destroyed:
  assumes "emitter_remove em prev p = Some (RET_OK, em')" and "get_item em p = Some it" and "\<not> it_working it"
  shows "em_destroyed em' = em_destroyed em @ destroy_call it"
proof -
  obtain em1 where em1: "(if p = em_items em then Some (em\<lparr>em_items := it_next it\<rparr>) else upd_item prev (\<lambda>i. i\<lparr>it_next := it_next it\<rparr>) em) = Some em1"
    "emitter_item_destroy em1 p = Some em'"
    using assms by (auto simp: emitter_remove_def bind_eq_Some_conv)
  then have "em_destroyed em1 = em_destroyed em" by (auto simp: upd_item_def bind_eq_Some_conv split: if_splits)
  moreover have "\<exists>i. get_item em1 p = Some i \<and> core i = core it"
    using em1(1) assms(2) by (auto simp: get_item_def upd_item_def bind_eq_Some_conv split: if_splits)
  ultimately show ?thesis using emitter_item_destroy_destroyed[OF em1(2)] by (metis core_destroy)
qed

lemma emitter_remove_abs:
  assumes abs: "em_abs em (xs @ (p, it) # ys)" and prev: "xs \<noteq> [] \<Longrightarrow> prev = fst (last xs)"
  shows "\<exists>em'. emitter_remove em prev p = Some (RET_OK, em') \<and> em_abs em' (xs @ drop_item (p, it) @ ys) \<and>
    em_destroyed em' = em_destroyed em @ (if it_working it then [] else destroy_call it) \<and> em_disable em' = em_disable em"
proof -
  obtain it' where it': "get_item em p = Some it'" "em_heap em p = Some it'" "core it' = it" "p \<noteq> NULL"
    using em_abs_get[OF abs, of p it] by auto
  note sp = em_abs_split[OF abs]
  show ?thesis
  proof (cases "it_working it")
    case True
    then have w: "it_working it'" using it'(3) by auto
    have "em_abs (em\<lparr>em_heap := (em_heap em)(p \<mapsto> it'\<lparr>it_pending := True\<rparr>)\<rparr>) (xs @ (p, it\<lparr>it_pending := True\<rparr>) # ys)"
      using em_abs_upd[OF abs it'(2), of "it'\<lparr>it_pending := True\<rparr>"] it'(3) by simp
    then show ?thesis using True emitter_remove_working(1)[OF sp(3) it'(2) w, of prev] by (auto simp: drop_item_def)
  next
    case False
    then have w: "\<not> it_working it'" using it'(3) by auto
    obtain em' where em': "emitter_remove em prev p = Some (RET_OK, em')" "em_rep em' (map fst xs @ map fst ys)" "em_gone p em em'"
      using emitter_remove_idle[OF sp(3) it'(2) w, of prev] prev by (auto simp: last_map)
    have core': "map_option core (em_heap em' q) = map_option core (em_heap em q)" if "q \<noteq> p" for q
      using em'(3) that by (auto simp: em_gone_def)
    have "em_heap em' q = None \<longleftrightarrow> em_heap em q = None \<or> q = p" for q
      using core'[of q] em'(3) by (cases "q = p") (auto simp: em_gone_def)
    then have "dom (em_heap em') = dom (em_heap em) - {p}" by (auto simp: dom_def)
    also have "\<dots> = fst ` set (xs @ ys)" using abs sp(1,2) by (auto simp: em_abs_def)
    finally have dom': "dom (em_heap em') = fst ` set (xs @ ys)" .
    have "\<forall>x \<in> set (xs @ ys). map_option core (em_heap em' (fst x)) = Some (snd x)"
    proof
      fix x assume x: "x \<in> set (xs @ ys)"
      then have "fst x \<noteq> p" using sp(1,2) by force
      then show "map_option core (em_heap em' (fst x)) = Some (snd x)" using core'[of "fst x"] abs x by (auto simp: em_abs_def)
    qed
    then have abs': "em_abs em' (xs @ ys)" using em' dom' abs by (auto simp: em_abs_def em_gone_def)
    have "em_destroyed em' = em_destroyed em @ destroy_call it"
      using emitter_remove_destroyed[OF em'(1) it'(1) w] it'(3) by auto
    then show ?thesis using False em' abs' by (auto simp: drop_item_def em_gone_def)
  qed
qed

section \<open>The operations on the list\<close>

fun head_ptr :: "(ptr \<times> emitter_item_t) list \<Rightarrow> ptr" where
  "head_ptr [] = NULL"
| "head_ptr (x # xs) = fst x"

lemma head_ptr_eq: "xs \<noteq> [] \<Longrightarrow> head_ptr xs = fst (hd xs)"
  by (cases xs) auto

lemma em_abs_iseg:
  assumes "em_abs em (xs @ ys)"
  shows "iseg (em_heap em) (head_ptr ys) (map fst ys) NULL"
proof -
  obtain r where "iseg (em_heap em) r (map fst ys) NULL" using assms by (auto simp: em_abs_def em_rep_def iseg_append)
  then show ?thesis by (cases ys) auto
qed

lemma em_abs_items: "em_abs em xs \<Longrightarrow> em_items em = head_ptr xs"
  by (cases xs) (auto simp: em_abs_def em_rep_def)

lemma em_abs_next:
  assumes "em_abs em (xs @ (p, it) # ys)" and "em_heap em p = Some i"
  shows "it_next i = head_ptr ys"
  using em_abs_iseg[OF assms(1)] assms(2) by (cases ys) auto

lemma find_item_abs:
  assumes "em_abs em (xs @ ys)" and core: "\<And>p it. P p (core it) = P p it"
  shows "find_item em P (head_ptr ys) = Some (head_ptr (dropWhile (\<lambda>x. \<not> P (fst x) (snd x)) ys))"
  using assms(1)
proof (induction ys arbitrary: xs)
  case Nil
  then show ?case by (simp add: find_item.simps)
next
  case (Cons y ys)
  obtain p it where y: "y = (p, it)" by (cases y)
  obtain i where i: "get_item em p = Some i" "em_heap em p = Some i" "core i = it" "p \<noteq> NULL"
    using em_abs_get[OF Cons.prems, of p it] y by auto
  have "it_next i = head_ptr ys" using em_abs_next[of em xs p it ys i] Cons.prems y i(2) by simp
  then show ?case using Cons.IH[of "xs @ [y]"] Cons.prems i core[of p i] y by (subst find_item.simps) simp
qed

lemma takeWhile_split: "p \<notin> fst ` set xs \<Longrightarrow> takeWhile (\<lambda>q. q \<noteq> p) (map fst (xs @ (p, it) # ys)) = map fst xs"
  by (induction xs) auto

lemma remove_item_abs:
  assumes "em_abs em (xs @ (p, it) # ys)"
  shows "\<exists>em'. emitter_remove_item em p = Some (RET_OK, em') \<and> em_abs em' (xs @ drop_item (p, it) @ ys) \<and>
    em_destroyed em' = em_destroyed em @ (if it_working it then [] else destroy_call it) \<and> em_disable em' = em_disable em"
proof -
  have "iseg (em_heap em) (em_items em) (map fst xs @ p # map fst ys) NULL"
    using em_abs_split(3)[OF assms] by (simp add: em_rep_def)
  then show ?thesis unfolding emitter_remove_item_def
    using remove_item_loop_eq[of em _ "map fst xs" p] em_abs_split(1)[OF assms] emitter_remove_abs[OF assms]
    by (auto simp: last_map)
qed

lemma remove_item_absent:
  assumes "em_abs em xs" and "p \<notin> fst ` set xs"
  shows "emitter_remove_item em p = Some (RET_NOT_FOUND, em)"
proof -
  have "iseg (em_heap em) q ps NULL \<Longrightarrow> p \<notin> set ps \<Longrightarrow> remove_item_loop em p prev q = Some (RET_NOT_FOUND, em)" for q ps prev
  proof (induction ps arbitrary: q prev)
    case (Cons x ps)
    then obtain i where "em_heap em x = Some i" "q = x" "x \<noteq> NULL" "iseg (em_heap em) (it_next i) ps NULL" by auto
    then show ?case using Cons.IH[of "it_next i"] Cons.prems(2) by (subst remove_item_loop.simps) (simp add: get_item_def)
  qed (simp add: remove_item_loop.simps)
  then show ?thesis using assms by (auto simp: em_abs_def em_rep_def emitter_remove_item_def)
qed

lemma drop_if_here: "p \<notin> fst ` set xs \<Longrightarrow> p \<notin> fst ` set ys \<Longrightarrow> drop_if (\<lambda>q i. q = p) (xs @ (p, it) # ys) = xs @ drop_item (p, it) @ ys"
  using drop_none[of xs "\<lambda>q i. q = p"] drop_none[of ys "\<lambda>q i. q = p"] by force

text \<open>An item that is not already to be removed and that the comparison accepts.\<close>

definition off_match :: "(emitter_item_t \<Rightarrow> int) \<Rightarrow> ptr \<Rightarrow> emitter_item_t \<Rightarrow> bool" where
  "off_match cmp p it \<longleftrightarrow> \<not> it_pending it \<and> cmp it = 0"

lemma off_ex_none:
  assumes "em_abs em xs" and "\<And>it. cmp (core it) = cmp it" and "\<And>p it. (p, it) \<in> set xs \<Longrightarrow> \<not> off_match cmp p it"
  shows "emitter_off_ex em cmp = Some (RET_FAIL, em)"
proof -
  have "find (\<lambda>p. \<not> it_pending (the (em_heap em p)) \<and> cmp (the (em_heap em p)) = 0) (map fst xs) = None"
  proof (clarsimp simp: find_None_iff)
    fix p it assume *: "(p, it) \<in> set xs" "\<not> it_pending (the (em_heap em p))" "cmp (the (em_heap em p)) = 0"
    obtain i where "em_heap em p = Some i" "core i = it" using em_abs_get[OF assms(1) *(1)] by metis
    then show False using assms(2)[of i] assms(3)[OF *(1)] *(2,3) by (auto simp: off_match_def)
  qed
  then show ?thesis using off_ex_loop_eq[of em "em_items em" "map fst xs" cmp "em_items em"] assms(1)
    by (simp add: emitter_off_ex_def em_abs_def em_rep_def)
qed

lemma find_here: "(\<And>x. x \<in> set xs \<Longrightarrow> \<not> P x) \<Longrightarrow> P p \<Longrightarrow> find P (xs @ p # ys) = Some p"
  by (induction xs) auto

lemma off_ex_found:
  assumes abs: "em_abs em (xs @ (p, it) # ys)" and core: "\<And>it. cmp (core it) = cmp it"
    and xs: "\<And>q i. (q, i) \<in> set xs \<Longrightarrow> \<not> off_match cmp q i" and p: "off_match cmp p it"
  shows "\<exists>em'. emitter_off_ex em cmp = Some (RET_OK, em') \<and> em_abs em' (xs @ drop_item (p, it) @ ys) \<and>
    em_destroyed em' = em_destroyed em @ (if it_working it then [] else destroy_call it) \<and> em_disable em' = em_disable em"
proof -
  let ?m = "\<lambda>p. \<not> it_pending (the (em_heap em p)) \<and> cmp (the (em_heap em p)) = 0"
  have m: "?m q \<longleftrightarrow> off_match cmp q i" if "(q, i) \<in> set (xs @ (p, it) # ys)" for q i
    using em_abs_get[OF abs that] core by (metis core_fields(7) off_match_def option.sel)
  have "find ?m (map fst xs @ p # map fst ys) = Some p"
    by (rule find_here) (use m xs p in fastforce)+
  then have "emitter_off_ex em cmp = emitter_remove em (if xs = [] then em_items em else fst (last xs)) p"
    using off_ex_loop_eq[of em "em_items em" "map fst (xs @ (p, it) # ys)" cmp "em_items em"] abs takeWhile_split[OF em_abs_split(1)[OF abs]]
    by (simp add: emitter_off_ex_def em_abs_def em_rep_def last_map)
  then show ?thesis using emitter_remove_abs[OF abs, of "if xs = [] then em_items em else fst (last xs)"] by simp
qed

lemma split_match:
  "(\<forall>x \<in> set xs. \<not> P x) \<or> (\<exists>as x bs. xs = as @ x # bs \<and> P x \<and> (\<forall>y \<in> set as. \<not> P y))"
  by (metis split_list_first_prop)

text \<open>The repeated removal ends, and drops every item that matches.\<close>

lemma off_again_abs:
  assumes "em_abs em xs" and core: "\<And>it. cmp (core it) = cmp it"
  shows "\<exists>em'. off_again cmp em = Some em' \<and> em_abs em' (drop_if (off_match cmp) xs) \<and>
    em_destroyed em' = em_destroyed em @ dropped (off_match cmp) xs \<and> em_disable em' = em_disable em"
  using assms(1)
proof (induction "length (filter (\<lambda>(p, it). off_match cmp p it) xs)" arbitrary: em xs rule: less_induct)
  case less
  consider (none) "\<forall>x \<in> set xs. \<not> off_match cmp (fst x) (snd x)"
    | (some) as p it bs where "xs = as @ (p, it) # bs" "off_match cmp p it" "\<forall>y \<in> set as. \<not> off_match cmp (fst y) (snd y)"
    using split_match[of xs "\<lambda>x. off_match cmp (fst x) (snd x)"] by fastforce
  then show ?case
  proof cases
    case none
    then have "emitter_off_ex em cmp = Some (RET_FAIL, em)" using off_ex_none[where cmp = cmp, OF less.prems core] by fastforce
    moreover have "drop_if (off_match cmp) xs = xs" "dropped (off_match cmp) xs = []"
      using drop_none[of xs "off_match cmp"] none by fastforce+
    ultimately show ?thesis using less.prems by (subst off_again.simps) simp
  next
    case some
    obtain em1 where em1: "emitter_off_ex em cmp = Some (RET_OK, em1)" "em_abs em1 (as @ drop_item (p, it) @ bs)"
      "em_destroyed em1 = em_destroyed em @ (if it_working it then [] else destroy_call it)" "em_disable em1 = em_disable em"
      using off_ex_found[where cmp = cmp, of em as p it bs, OF _ core] less.prems some by fastforce
    have again: "drop_if (off_match cmp) (drop_item (p, it)) = drop_item (p, it)" "dropped (off_match cmp) (drop_item (p, it)) = []"
      by (auto simp: drop_item_def off_match_def)
    have "length (filter (\<lambda>(p, it). off_match cmp p it) (as @ drop_item (p, it) @ bs)) < length (filter (\<lambda>(p, it). off_match cmp p it) xs)"
      using some by (auto simp: drop_item_def off_match_def)
    then obtain em' where "off_again cmp em1 = Some em'" "em_abs em' (drop_if (off_match cmp) (as @ drop_item (p, it) @ bs))"
      "em_destroyed em' = em_destroyed em1 @ dropped (off_match cmp) (as @ drop_item (p, it) @ bs)" "em_disable em' = em_disable em1"
      using less.hyps[OF _ em1(2)] by auto
    moreover have "drop_if (off_match cmp) as = as" "dropped (off_match cmp) as = []"
      using drop_none[of as "off_match cmp"] some(3) by fastforce+
    ultimately show ?thesis using em1(1,3,4) again some(1,2) by (subst off_again.simps) simp
  qed
qed

lemma off_all_abs:
  assumes abs: "em_abs em xs" and core: "\<And>it. cmp (core it) = cmp it"
  shows "\<exists>r em'. off_all em cmp = Some (r, em') \<and> (r = RET_OK \<longleftrightarrow> (\<exists>(p, it) \<in> set xs. off_match cmp p it)) \<and>
    em_abs em' (drop_if (off_match cmp) xs) \<and> em_destroyed em' = em_destroyed em @ dropped (off_match cmp) xs \<and> em_disable em' = em_disable em"
proof (cases "\<exists>(p, it) \<in> set xs. off_match cmp p it")
  case True
  then obtain as p it bs where "xs = as @ (p, it) # bs" "off_match cmp p it" "\<forall>y \<in> set as. \<not> off_match cmp (fst y) (snd y)"
    using split_match[of xs "\<lambda>x. off_match cmp (fst x) (snd x)"] by fastforce
  then obtain em1 where "emitter_off_ex em cmp = Some (RET_OK, em1)"
    using off_ex_found[where cmp = cmp, of em as p it bs, OF _ core] abs by fastforce
  then show ?thesis using True off_again_abs[where cmp = cmp, OF abs core]
    by (subst (asm) off_again.simps) (auto simp: off_all_def)
next
  case False
  then have "emitter_off_ex em cmp = Some (RET_FAIL, em)" using off_ex_none[where cmp = cmp, OF abs core] by blast
  moreover have "drop_if (off_match cmp) xs = xs" "dropped (off_match cmp) xs = []"
    using drop_none[of xs "off_match cmp"] False by fastforce+
  ultimately show ?thesis using False abs by (simp add: off_all_def)
qed

lemma u32_lt [simp]: "u32 n < 4294967296"
  by (simp add: u32_def)

lemma emitter_on_abs:
  assumes abs: "em_abs em xs" and fresh: "iter = NULL \<or> em_heap em iter = None" and tag: "tag < 4294967296"
  shows "\<exists>n em'. emitter_on_with_tag em iter etype handler ctx tag = (n, em') \<and> em_disable em' = em_disable em \<and>
    (if handler = NULL \<or> iter = NULL then n = 0 \<and> em' = em
     else em_abs em' ((iter, \<lparr>it_ctx = ctx, it_id = n, it_type = etype, it_handler = handler, it_tag = tag, it_working = False,
            it_pending = False, it_on_destroy = NULL, it_on_destroy_ctx = NULL, it_next = NULL\<rparr>) # xs))"
proof (cases "handler = NULL \<or> iter = NULL")
  case False
  have iter: "iter \<notin> fst ` set xs" "em_heap em iter = None" using False fresh abs by (auto simp: em_abs_def dom_def)
  have seg: "iseg ((em_heap em)(iter \<mapsto> v)) (em_items em) (map fst xs) NULL" for v
    using abs iter(1) by (simp add: em_abs_def em_rep_def iseg_upd_other)
  have old: "((em_heap em)(iter \<mapsto> v)) (fst x) = em_heap em (fst x)" if "x \<in> set xs" for x v using that iter(1) by force
  obtain n em1 where n: "emitter_next_id em = (n, em1)" by fastforce
  have n': "n < 4294967296" "em_next_id em1 < 4294967296" "em_heap em1 = em_heap em" "em_items em1 = em_items em"
    "em_disable em1 = em_disable em"
    using n abs by (auto simp: emitter_next_id_def Let_def em_abs_def split: if_splits)
  show ?thesis using abs iter False n n' seg old tag by (simp add: emitter_on_with_tag_def em_abs_def em_rep_def core_def)
qed (simp add: emitter_on_with_tag_def)

lemma dispatch_call_abs:
  assumes "em_abs em (xs @ (p, it) # ys)"
  shows "\<exists>em'. dispatch_call em p = Some (it_working it, em') \<and> em_abs em' (xs @ (p, it\<lparr>it_working := True\<rparr>) # ys) \<and>
    em_destroyed em' = em_destroyed em \<and> em_disable em' = em_disable em"
proof -
  obtain i where i: "get_item em p = Some i" "em_heap em p = Some i" "core i = it" using em_abs_get[OF assms, of p it] by auto
  then show ?thesis using em_abs_upd[OF assms i(2), of "i\<lparr>it_working := True\<rparr>"]
    by (auto simp: dispatch_call_def upd_item_def)
qed

text \<open>What is left of the item after its handler has returned.\<close>

definition after_call :: "bool \<Rightarrow> ret_t \<Rightarrow> ptr \<times> emitter_item_t \<Rightarrow> (ptr \<times> emitter_item_t) list" where
  "after_call was ret = (\<lambda>(p, it). if it_pending it \<or> ret = RET_REMOVE then drop_item (p, it\<lparr>it_working := was\<rparr>) else [(p, it\<lparr>it_working := was\<rparr>)])"

lemma dispatch_after_abs:
  assumes abs: "em_abs em (xs @ (p, it) # ys)" and working: "it_working it"
  shows "\<exists>em'. dispatch_after em p was ret = Some (ret = RET_STOP, if ret = RET_STOP then NULL else head_ptr ys, em') \<and>
    em_abs em' (xs @ after_call was ret (p, it) @ ys) \<and> em_disable em' = em_disable em \<and>
    em_destroyed em' = em_destroyed em @ (if (it_pending it \<or> ret = RET_REMOVE) \<and> \<not> was then destroy_call it else [])"
proof -
  obtain i where i: "get_item em p = Some i" "em_heap em p = Some i" "core i = it" "p \<noteq> NULL" using em_abs_get[OF abs, of p it] by auto
  have "\<exists>em1 i1. (if \<not> was then upd_item p (\<lambda>it. it\<lparr>it_working := False\<rparr>) em else Some em) = Some em1 \<and>
     em_abs em1 (xs @ (p, it\<lparr>it_working := was\<rparr>) # ys) \<and> em_disable em1 = em_disable em \<and> em_destroyed em1 = em_destroyed em \<and>
     get_item em1 p = Some i1 \<and> core i1 = it\<lparr>it_working := was\<rparr>"
  proof (cases was)
    case True
    then have "it\<lparr>it_working := was\<rparr> = it" using working by (cases it) simp
    then show ?thesis using True abs i by auto
  next
    case False
    then show ?thesis using em_abs_upd[OF abs i(2), of "i\<lparr>it_working := False\<rparr>"] i by (auto simp: upd_item_def get_item_def)
  qed
  then obtain em1 i1 where em1: "(if \<not> was then upd_item p (\<lambda>it. it\<lparr>it_working := False\<rparr>) em else Some em) = Some em1"
    "em_abs em1 (xs @ (p, it\<lparr>it_working := was\<rparr>) # ys)" "em_disable em1 = em_disable em" "em_destroyed em1 = em_destroyed em"
    "get_item em1 p = Some i1" "core i1 = it\<lparr>it_working := was\<rparr>" by blast
  have i1: "it_pending i1 = it_pending it" "it_next i1 = head_ptr ys"
    using core_eqD(7)[of i1 it] em1(6) core_fields(7)[of i1] em_abs_next[OF em1(2)] em1(5)
    by (auto simp: get_item_def split: if_splits)
  obtain em2 where em2: "emitter_remove_item em1 p = Some (RET_OK, em2)"
    "em_abs em2 (xs @ drop_item (p, it\<lparr>it_working := was\<rparr>) @ ys)"
    "em_destroyed em2 = em_destroyed em1 @ (if was then [] else destroy_call it)" "em_disable em2 = em_disable em1"
    using remove_item_abs[OF em1(2)] by (auto simp: destroy_call_def)
  show ?thesis unfolding dispatch_after_def em1(1)
    using em1(2-5) em2 i1 by (cases "it_pending it"; cases "ret = RET_REMOVE"; cases "ret = RET_STOP") (simp_all add: after_call_def)
qed

lemma dropWhile_split:
  assumes "dropWhile P xs = y # ys"
  shows "xs = takeWhile P xs @ y # ys" and "\<not> P y" and "\<forall>x \<in> set (takeWhile P xs). P x"
  using assms by (metis takeWhile_dropWhile_id, metis hd_dropWhile list.discI list.sel(1), metis set_takeWhileD)

lemma set_on_destroy_abs:
  assumes abs: "em_abs em xs"
  shows "\<exists>r em' xs'. emitter_set_on_destroy em n f c = Some (r, em') \<and> em_abs em' xs' \<and>
    map (\<lambda>(p, it). (p, it_working it, it_pending it)) xs' = map (\<lambda>(p, it). (p, it_working it, it_pending it)) xs"
proof -
  have find: "emitter_find em n = Some (head_ptr (dropWhile (\<lambda>x. it_id (snd x) \<noteq> n) xs))"
    using find_item_abs[of em "[]" xs "\<lambda>p it. it_id it = n"] abs em_abs_items[OF abs] by (simp add: emitter_find_def)
  show ?thesis
  proof (cases "dropWhile (\<lambda>x. it_id (snd x) \<noteq> n) xs")
    case Nil
    then have "emitter_set_on_destroy em n f c = Some (RET_BAD_PARAMS, em)" using find by (simp only: emitter_set_on_destroy_def) simp
    then show ?thesis using abs by blast
  next
    case (Cons y ys)
    obtain p it where y: "y = (p, it)" by (cases y)
    define as where "as = takeWhile (\<lambda>x. it_id (snd x) \<noteq> n) xs"
    have xs: "xs = as @ (p, it) # ys" using dropWhile_split(1)[OF Cons] y by (simp add: as_def)
    obtain i where i: "get_item em p = Some i" "em_heap em p = Some i" "core i = it" "p \<noteq> NULL"
      using em_abs_get[OF abs, of p it] xs by auto
    let ?i = "i\<lparr>it_on_destroy := f, it_on_destroy_ctx := c\<rparr>"
    have "em_abs (em\<lparr>em_heap := (em_heap em)(p \<mapsto> ?i)\<rparr>) (as @ (p, core ?i) # ys)"
      using em_abs_upd[OF _ i(2), of as it ys ?i] abs xs by simp
    then have "\<exists>em' xs'. upd_item p (\<lambda>it. it\<lparr>it_on_destroy := f, it_on_destroy_ctx := c\<rparr>) em = Some em' \<and> em_abs em' xs' \<and>
        map (\<lambda>(p, it). (p, it_working it, it_pending it)) xs' = map (\<lambda>(p, it). (p, it_working it, it_pending it)) xs"
      using i xs by (auto simp: upd_item_def intro!: exI[of _ "as @ (p, core ?i) # ys"])
    moreover have "head_ptr (dropWhile (\<lambda>x. it_id (snd x) \<noteq> n) xs) = p" using Cons y by simp
    ultimately show ?thesis using find i(4) by (auto simp: emitter_set_on_destroy_def)
  qed
qed

lemma emitter_remove_item_abs:
  assumes "em_abs em xs"
  shows "\<exists>r em'. emitter_remove_item em p = Some (r, em') \<and> em_abs em' (drop_if (\<lambda>q it. q = p) xs) \<and> em_disable em' = em_disable em"
proof (cases "p \<in> fst ` set xs")
  case True
  then obtain as it bs where xs: "xs = as @ (p, it) # bs" by (metis imageE prod.collapse split_list)
  then have "drop_if (\<lambda>q it. q = p) xs = as @ drop_item (p, it) @ bs"
    using drop_if_here em_abs_split(1,2) assms by metis
  then show ?thesis using remove_item_abs[of em as p it bs] assms xs by auto
next
  case False
  then have "drop_if (\<lambda>q it. q = p) xs = xs" using drop_none[of xs "\<lambda>q it. q = p"] by force
  then show ?thesis using remove_item_absent[OF assms False] assms by simp
qed

lemma emitter_off_abs:
  assumes abs: "em_abs em xs"
  shows "\<exists>r em' xs'. emitter_off em n = Some (r, em') \<and> em_abs em' xs' \<and> em_disable em' = em_disable em \<and>
    (xs' = xs \<or> (\<exists>p. xs' = drop_if (\<lambda>q it. q = p) xs))"
proof -
  let ?cmp = "emitter_item_compare_by_id n"
  have core: "?cmp (core it) = ?cmp it" for it by (simp add: emitter_item_compare_by_id_def)
  consider (none) "\<forall>x \<in> set xs. \<not> off_match ?cmp (fst x) (snd x)"
    | (some) as p it bs where "xs = as @ (p, it) # bs" "off_match ?cmp p it" "\<forall>y \<in> set as. \<not> off_match ?cmp (fst y) (snd y)"
    using split_match[of xs "\<lambda>x. off_match ?cmp (fst x) (snd x)"] by fastforce
  then show ?thesis
  proof cases
    case none
    then show ?thesis using off_ex_none[where cmp = ?cmp, OF abs core] abs by (fastforce simp: emitter_off_def)
  next
    case some
    then have drop: "drop_if (\<lambda>q it. q = p) xs = as @ drop_item (p, it) @ bs"
      using drop_if_here em_abs_split(1,2) abs by metis
    have abs': "em_abs em (as @ (p, it) # bs)" using abs some(1) by simp
    have none: "\<And>q i. (q, i) \<in> set as \<Longrightarrow> \<not> off_match ?cmp q i" using some(3) by fastforce
    obtain em' where "emitter_off_ex em ?cmp = Some (RET_OK, em')" "em_abs em' (as @ drop_item (p, it) @ bs)" "em_disable em' = em_disable em"
      using off_ex_found[where cmp = ?cmp, OF abs' core none some(2)] by blast
    then show ?thesis unfolding emitter_off_def drop[symmetric] by blast
  qed
qed

section \<open>The machine of running dispatches\<close>

text \<open>
  One step of a program that uses the emitter: an operation, the start of a dispatch of an event of a
  type, or the return of the running handler with its status and the type that the event has then
  (a handler may write to it). The stack holds the items whose handlers run, the innermost first,
  each with the flag \<open>is_working\<close> of its round.
\<close>

datatype em_op =
    Op_on ptr nat ptr ptr nat
  | Op_off nat
  | Op_off_by_func nat ptr ptr
  | Op_off_by_tag nat
  | Op_off_by_ctx ptr
  | Op_remove_item ptr
  | Op_set_on_destroy nat ptr ptr
  | Op_enable
  | Op_disable
  | Op_dispatch nat
  | Op_return ret_t nat

type_synonym em_config = "emitter_t \<times> (ptr \<times> bool) list"

text \<open>The loop of a dispatch from \<open>iter\<close> on, up to the call of the next handler or its end.\<close>

definition dispatch_next :: "nat \<Rightarrow> em_config \<Rightarrow> ptr \<Rightarrow> em_config option" where
  "dispatch_next etype = (\<lambda>(em, st) iter.
     Option.bind (find_item em (\<lambda>p it. it_type it = etype) iter) (\<lambda>p.
       if p = NULL then Some (em, st)
       else Option.bind (dispatch_call em p) (\<lambda>(w, em). Option.bind (get_item em p) (\<lambda>it. Some (em, (p, w) # st)))))"

fun em_exec :: "em_op \<Rightarrow> em_config \<Rightarrow> em_config option" where
  "em_exec (Op_on iter etype handler ctx tag) (em, st) = Some (snd (emitter_on_with_tag em iter etype handler ctx tag), st)"
| "em_exec (Op_off n) (em, st) = map_option (\<lambda>(r, em). (em, st)) (emitter_off em n)"
| "em_exec (Op_off_by_func etype handler ctx) (em, st) = map_option (\<lambda>(r, em). (em, st)) (emitter_off_by_func em etype handler ctx)"
| "em_exec (Op_off_by_tag tag) (em, st) = map_option (\<lambda>(r, em). (em, st)) (emitter_off_by_tag em tag)"
| "em_exec (Op_off_by_ctx ctx) (em, st) = map_option (\<lambda>(r, em). (em, st)) (emitter_off_by_ctx em ctx)"
| "em_exec (Op_remove_item p) (em, st) = map_option (\<lambda>(r, em). (em, st)) (emitter_remove_item em p)"
| "em_exec (Op_set_on_destroy n f c) (em, st) = map_option (\<lambda>(r, em). (em, st)) (emitter_set_on_destroy em n f c)"
| "em_exec Op_enable (em, st) = Some (snd (emitter_enable em), st)"
| "em_exec Op_disable (em, st) = Some (snd (emitter_disable em), st)"
| "em_exec (Op_dispatch etype) (em, st) =
     (if em_disable em = 0 \<and> em_items em \<noteq> NULL then dispatch_next etype (em, st) (em_items em) else Some (em, st))"
| "em_exec (Op_return ret etype) (em, []) = Some (em, [])"
| "em_exec (Op_return ret etype) (em, (p, w) # st) =
     Option.bind (dispatch_after em p w ret) (\<lambda>(stop, next, em). if stop then Some (em, st) else dispatch_next etype (em, st) next)"

text \<open>A new block is not one that is in use; the tag is an \<open>uint32_t\<close>.\<close>

fun em_enabled :: "em_op \<Rightarrow> em_config \<Rightarrow> bool" where
  "em_enabled (Op_on iter etype handler ctx tag) (em, st) \<longleftrightarrow> (iter = NULL \<or> em_heap em iter = None) \<and> tag < 4294967296"
| "em_enabled op c \<longleftrightarrow> True"

inductive em_reach :: "em_config \<Rightarrow> bool" where
  init: "em_reach (emitter_init, [])"
| step: "em_reach c \<Longrightarrow> em_enabled op c \<Longrightarrow> em_exec op c = Some c' \<Longrightarrow> em_reach c'"

fun frames_ok :: "(ptr \<times> bool) list \<Rightarrow> bool" where
  "frames_ok [] \<longleftrightarrow> True"
| "frames_ok ((p, w) # st) \<longleftrightarrow> (w \<longleftrightarrow> p \<in> fst ` set st) \<and> frames_ok st"

text \<open>
  An item is marked as working while its handler runs at some depth, and as to be removed only then;
  every handler that runs belongs to an item of the list.
\<close>

definition mark_ok :: "ptr set \<Rightarrow> ptr \<times> emitter_item_t \<Rightarrow> bool" where
  "mark_ok ws x \<longleftrightarrow> (it_working (snd x) \<longleftrightarrow> fst x \<in> ws) \<and> (it_pending (snd x) \<longrightarrow> it_working (snd x))"

definition marks_ok :: "ptr set \<Rightarrow> (ptr \<times> emitter_item_t) list \<Rightarrow> bool" where
  "marks_ok ws xs \<longleftrightarrow> (\<forall>x \<in> set xs. mark_ok ws x) \<and> ws \<subseteq> fst ` set xs"

definition em_inv :: "em_config \<Rightarrow> bool" where
  "em_inv = (\<lambda>(em, st). frames_ok st \<and> (\<exists>xs. em_abs em xs \<and> marks_ok (fst ` set st) xs))"

lemma mark_drop_item: "mark_ok ws x \<Longrightarrow> y \<in> set (drop_item x) \<Longrightarrow> mark_ok ws y"
  by (cases x) (simp add: drop_item_def mark_ok_def split: if_splits)

lemma mark_drop_if:
  assumes "\<forall>x \<in> set xs. mark_ok ws x"
  shows "\<forall>x \<in> set (drop_if P xs). mark_ok ws x"
  using assms
proof (induction xs)
  case (Cons x xs)
  then show ?case using mark_drop_item[of ws x] by (simp add: ball_Un)
qed simp

lemma drop_item_working: "it_working (snd x) \<Longrightarrow> fst x \<in> fst ` set (drop_item x)"
  by (cases x) (simp add: drop_item_def)

lemma drop_if_keeps_working:
  assumes "x \<in> set xs" and "it_working (snd x)"
  shows "fst x \<in> fst ` set (drop_if P xs)"
proof -
  obtain as bs where "xs = as @ x # bs" using split_list[OF assms(1)] by blast
  then show ?thesis using drop_item_working[OF assms(2)] by (simp add: image_Un)
qed

lemma marks_drop_if:
  assumes "marks_ok ws xs"
  shows "marks_ok ws (drop_if P xs)"
proof -
  have "p \<in> fst ` set (drop_if P xs)" if "p \<in> ws" for p
    using assms that drop_if_keeps_working[of _ xs P] by (fastforce simp: marks_ok_def mark_ok_def)
  then show ?thesis using assms mark_drop_if by (auto simp: marks_ok_def)
qed

lemma em_inv_exec_drop:
  assumes "em_inv (em, st)" and "\<And>xs. em_abs em xs \<Longrightarrow> \<exists>r em' P. res = Some (r, em') \<and> em_abs em' (drop_if P xs)"
  shows "\<exists>c'. map_option (\<lambda>(r, em). (em, st)) res = Some c' \<and> em_inv c'"
  using assms marks_drop_if by (fastforce simp: em_inv_def)

lemma off_all_exec:
  assumes "em_inv (em, st)" and "\<And>it. cmp (core it) = cmp it"
  shows "\<exists>c'. map_option (\<lambda>(r, em). (em, st)) (off_all em cmp) = Some c' \<and> em_inv c'"
  using em_inv_exec_drop[OF assms(1), of "off_all em cmp"] off_all_abs[where cmp = cmp, OF _ assms(2)] by blast

lemma marks_ok_cong:
  assumes "map (\<lambda>(p, it). (p, it_working it, it_pending it)) xs' = map (\<lambda>(p, it). (p, it_working it, it_pending it)) xs"
  shows "marks_ok ws xs' \<longleftrightarrow> marks_ok ws xs"
proof -
  have "marks_ok ws zs \<longleftrightarrow> (\<forall>(p, w, d) \<in> set (map (\<lambda>(p, it). (p, it_working it, it_pending it)) zs). (w \<longleftrightarrow> p \<in> ws) \<and> (d \<longrightarrow> w)) \<and>
      ws \<subseteq> set (map fst (map (\<lambda>(p, it). (p, it_working it, it_pending it)) zs))" for zs
    by (simp add: marks_ok_def mark_ok_def image_image split_beta)
  then show ?thesis using assms by presburger
qed

text \<open>A handler is called, or has returned.\<close>

lemma marks_working:
  assumes "marks_ok ws (xs @ (p, it) # ys)" and "p \<notin> fst ` set xs" and "p \<notin> fst ` set ys"
  shows "marks_ok (insert p ws) (xs @ (p, it\<lparr>it_working := True\<rparr>) # ys)"
proof -
  have "mark_ok (insert p ws) x" if "x \<in> set xs \<union> set ys" for x
  proof -
    have "fst x \<noteq> p" using that assms(2,3) by force
    then show ?thesis using assms(1) that by (auto simp: marks_ok_def mark_ok_def)
  qed
  then show ?thesis using assms(1) by (auto simp: marks_ok_def mark_ok_def)
qed

lemma marks_after_call:
  assumes "marks_ok (insert p ws) (xs @ (p, it) # ys)" and "p \<notin> fst ` set xs" and "p \<notin> fst ` set ys" and "was \<longleftrightarrow> p \<in> ws"
  shows "marks_ok ws (xs @ after_call was ret (p, it) @ ys)"
proof -
  have rest: "mark_ok ws x" if "x \<in> set xs \<union> set ys" for x
  proof -
    have "fst x \<noteq> p" using that assms(2,3) by force
    then show ?thesis using assms(1) that by (auto simp: marks_ok_def mark_ok_def)
  qed
  have "mark_ok ws x" if "x \<in> set (after_call was ret (p, it))" for x
    using that assms(4) by (auto simp: after_call_def drop_item_def mark_ok_def split: if_splits)
  moreover have "p \<in> ws \<Longrightarrow> p \<in> fst ` set (after_call was ret (p, it))" using assms(4) by (simp add: after_call_def drop_item_def)
  moreover have "ws \<subseteq> insert p (fst ` set xs \<union> fst ` set ys)" using assms(1) by (auto simp: marks_ok_def)
  ultimately have "ws \<subseteq> fst ` set xs \<union> fst ` set (after_call was ret (p, it)) \<union> fst ` set ys" by blast
  moreover have "\<forall>x \<in> set (xs @ after_call was ret (p, it) @ ys). mark_ok ws x"
    using rest \<open>\<And>x. x \<in> set (after_call was ret (p, it)) \<Longrightarrow> mark_ok ws x\<close> by (simp add: ball_Un)
  ultimately show ?thesis by (simp add: marks_ok_def image_Un Un_assoc)
qed

lemma dispatch_next_inv:
  assumes abs: "em_abs em (as @ bs)" and inv: "marks_ok (fst ` set st) (as @ bs)" and frames: "frames_ok st"
  shows "\<exists>c'. dispatch_next etype (em, st) (head_ptr bs) = Some c' \<and> em_inv c'"
proof -
  have find: "find_item em (\<lambda>p it. it_type it = etype) (head_ptr bs) = Some (head_ptr (dropWhile (\<lambda>x. it_type (snd x) \<noteq> etype) bs))"
    using find_item_abs[OF abs, of "\<lambda>p it. it_type it = etype"] by simp
  show ?thesis
  proof (cases "dropWhile (\<lambda>x. it_type (snd x) \<noteq> etype) bs")
    case Nil
    then have "dispatch_next etype (em, st) (head_ptr bs) = Some (em, st)" using find by (simp only: dispatch_next_def split) simp
    then show ?thesis using abs inv frames by (auto simp: em_inv_def)
  next
    case (Cons y ys)
    obtain p it where y: "y = (p, it)" by (cases y)
    define zs where "zs = as @ takeWhile (\<lambda>x. it_type (snd x) \<noteq> etype) bs"
    have xs: "as @ bs = zs @ (p, it) # ys" using dropWhile_split(1)[OF Cons] y by (simp add: zs_def)
    have abs': "em_abs em (zs @ (p, it) # ys)" using abs by (simp only: xs)
    obtain em' where em': "dispatch_call em p = Some (it_working it, em')" "em_abs em' (zs @ (p, it\<lparr>it_working := True\<rparr>) # ys)"
      using dispatch_call_abs[OF abs'] by blast
    obtain i where i: "get_item em' p = Some i" using em_abs_get[OF em'(2), of p] by auto
    have p: "p \<noteq> NULL" using em_abs_get[OF abs', of p it] by auto
    have "dispatch_next etype (em, st) (head_ptr bs) = Some (em', (p, it_working it) # st)"
      using find Cons y em'(1) i p by (simp only: dispatch_next_def split) simp
    moreover have "frames_ok ((p, it_working it) # st)" using frames inv unfolding xs by (simp add: marks_ok_def mark_ok_def)
    moreover have "marks_ok (insert p (fst ` set st)) (zs @ (p, it\<lparr>it_working := True\<rparr>) # ys)"
      using marks_working[OF _ em_abs_split(1,2)[OF abs']] inv unfolding xs by blast
    ultimately show ?thesis using em'(2) by (auto simp: em_inv_def)
  qed
qed

lemma em_inv_exec:
  assumes inv: "em_inv c" and en: "em_enabled op c"
  shows "\<exists>c'. em_exec op c = Some c' \<and> em_inv c'"
proof -
  obtain em st where c: "c = (em, st)" by (cases c)
  obtain xs where xs: "frames_ok st" "em_abs em xs" "marks_ok (fst ` set st) xs" using inv c by (auto simp: em_inv_def)
  note inv' = inv[unfolded c]
  show ?thesis
  proof (cases op)
    case (Op_on iter etype handler ctx tag)
    have "\<exists>n em'. emitter_on_with_tag em iter etype handler ctx tag = (n, em') \<and> em_inv (em', st)"
    proof (cases "handler = NULL \<or> iter = NULL")
      case True
      then show ?thesis using inv' by (simp add: emitter_on_with_tag_def)
    next
      case False
      then obtain n em' v where on: "emitter_on_with_tag em iter etype handler ctx tag = (n, em')" "em_abs em' ((iter, v) # xs)"
        "\<not> it_working v" "\<not> it_pending v"
        using emitter_on_abs[OF xs(2), of iter tag etype handler ctx] en Op_on c by (simp split: if_splits) force
      have "iter \<notin> fst ` set st" using em_abs_split(2)[of em' "[]" iter v xs] on(2) xs(3) by (auto simp: marks_ok_def)
      then have "marks_ok (fst ` set st) ((iter, v) # xs)" using xs(3) on(3,4) by (auto simp: marks_ok_def mark_ok_def)
      then show ?thesis using on(1,2) xs(1) by (auto simp: em_inv_def)
    qed
    then show ?thesis using Op_on c by auto
  next
    case (Op_off n)
    have "\<exists>r em' xs'. emitter_off em n = Some (r, em') \<and> em_abs em' xs' \<and> marks_ok (fst ` set st) xs'"
      using emitter_off_abs[OF xs(2), of n] marks_drop_if xs(3) by metis
    then show ?thesis using Op_off c xs(1) by (auto simp: em_inv_def)
  next
    case (Op_off_by_func etype handler ctx)
    then show ?thesis using off_all_exec[where cmp = "emitter_item_compare_by_func etype handler ctx", OF inv'] c
      by (simp add: emitter_off_by_func_def emitter_item_compare_by_func_def)
  next
    case (Op_off_by_tag tag)
    then show ?thesis using off_all_exec[where cmp = "emitter_item_compare_by_tag tag", OF inv'] c
      by (simp add: emitter_off_by_tag_def emitter_item_compare_by_tag_def)
  next
    case (Op_off_by_ctx ctx)
    then show ?thesis using off_all_exec[where cmp = "emitter_item_compare_by_ctx ctx", OF inv'] c
      by (simp add: emitter_off_by_ctx_def emitter_item_compare_by_ctx_def)
  next
    case (Op_remove_item p)
    have "\<exists>r em' xs'. emitter_remove_item em p = Some (r, em') \<and> em_abs em' xs' \<and> marks_ok (fst ` set st) xs'"
      using emitter_remove_item_abs[OF xs(2), of p] marks_drop_if xs(3) by metis
    then show ?thesis using Op_remove_item c xs(1) by (auto simp: em_inv_def)
  next
    case (Op_set_on_destroy n f d)
    obtain r em' xs' where r: "emitter_set_on_destroy em n f d = Some (r, em')" "em_abs em' xs'"
      "map (\<lambda>(p, it). (p, it_working it, it_pending it)) xs' = map (\<lambda>(p, it). (p, it_working it, it_pending it)) xs"
      using set_on_destroy_abs[OF xs(2), of n f d] by blast
    have "marks_ok (fst ` set st) xs'" using marks_ok_cong[OF r(3)] xs(3) by simp
    then show ?thesis using Op_set_on_destroy c r(1,2) xs(1) by (auto simp: em_inv_def)
  next
    case Op_enable
    have "em_abs (snd (emitter_enable em)) xs" using xs(2) by (simp add: emitter_enable_def em_abs_def em_rep_def)
    then show ?thesis using Op_enable c xs by (auto simp: em_inv_def)
  next
    case Op_disable
    have "em_abs (snd (emitter_disable em)) xs" using xs(2) by (simp add: emitter_disable_def em_abs_def em_rep_def)
    then show ?thesis using Op_disable c xs by (auto simp: em_inv_def)
  next
    case (Op_dispatch etype)
    then show ?thesis using dispatch_next_inv[of em "[]" xs st etype] xs em_abs_items[OF xs(2)] inv' c by auto
  next
    case (Op_return ret etype)
    show ?thesis
    proof (cases st)
      case Nil
      then show ?thesis using Op_return c inv by auto
    next
      case (Cons f st')
      obtain p w where f: "f = (p, w)" by (cases f)
      obtain as it bs where sp: "xs = as @ (p, it) # bs"
        using xs(3) Cons f by (fastforce simp: marks_ok_def dest: split_list)
      have abs: "em_abs em (as @ (p, it) # bs)" using xs(2) sp by simp
      have marks: "marks_ok (insert p (fst ` set st')) (as @ (p, it) # bs)" using xs(3) sp Cons f by simp
      then have working: "it_working it" by (auto simp: marks_ok_def mark_ok_def)
      obtain em' where em': "dispatch_after em p w ret = Some (ret = RET_STOP, if ret = RET_STOP then NULL else head_ptr bs, em')"
        "em_abs em' (as @ after_call w ret (p, it) @ bs)"
        using dispatch_after_abs[OF abs working] by blast
      have fr: "w \<longleftrightarrow> p \<in> fst ` set st'" "frames_ok st'" using xs(1) Cons f by auto
      have marks': "marks_ok (fst ` set st') (as @ after_call w ret (p, it) @ bs)"
        by (rule marks_after_call[OF marks em_abs_split(1,2)[OF abs] fr(1)])
      then have "em_inv (em', st')" using em'(2) fr(2) by (auto simp: em_inv_def)
      moreover have "\<exists>c'. dispatch_next etype (em', st') (head_ptr bs) = Some c' \<and> em_inv c'"
        using dispatch_next_inv[of em' "as @ after_call w ret (p, it)" bs st' etype] em'(2) marks' fr(2) by simp
      ultimately show ?thesis using Op_return c Cons f em'(1) by auto
    qed
  qed
qed

lemma em_reach_inv: "em_reach c \<Longrightarrow> em_inv c"
proof (induction rule: em_reach.induct)
  case init
  have "em_abs emitter_init []" by (simp add: em_abs_def em_rep_def emitter_init_def)
  then show ?case by (auto simp: em_inv_def marks_ok_def)
next
  case (step c op c')
  then show ?case using em_inv_exec by fastforce
qed

lemma destroy_items_all:
  assumes "iseg (em_heap em) iter ps NULL" and "distinct ps" and "dom (em_heap em) = set ps"
  shows "\<exists>em'. destroy_items em iter = Some em' \<and> em_heap em' = Map.empty \<and>
    em_destroyed em' = em_destroyed em @ concat (map (\<lambda>p. destroy_call (the (em_heap em p))) ps)"
  using assms
proof (induction ps arbitrary: em iter)
  case Nil
  then show ?case by (simp add: destroy_items.simps)
next
  case (Cons p ps)
  obtain it where it: "em_heap em p = Some it" "iter = p" "p \<noteq> NULL" "iseg (em_heap em) (it_next it) ps NULL" using Cons.prems(1) by auto
  obtain em1 where em1: "emitter_item_destroy em p = Some em1" "em_heap em1 = (em_heap em)(p := None)"
    using it(1,3) by (auto simp: emitter_item_destroy_def get_item_def Let_def)
  have d1: "em_destroyed em1 = em_destroyed em @ destroy_call it"
    using emitter_item_destroy_destroyed[OF em1(1)] it(1,3) by (simp add: get_item_def)
  have "iseg (em_heap em1) (it_next it) ps NULL" "distinct ps" "dom (em_heap em1) = set ps"
    using it(4) Cons.prems(2,3) em1(2) by (auto simp: iseg_upd_other)
  then obtain em' where em': "destroy_items em1 (it_next it) = Some em'" "em_heap em' = Map.empty"
    "em_destroyed em' = em_destroyed em1 @ concat (map (\<lambda>p. destroy_call (the (em_heap em1 p))) ps)"
    using Cons.IH by blast
  moreover have "map (\<lambda>p. destroy_call (the (em_heap em1 p))) ps = map (\<lambda>p. destroy_call (the (em_heap em p))) ps"
    using em1(2) Cons.prems(2) by auto
  ultimately show ?case using it em1(1) d1 by (subst destroy_items.simps) (simp add: get_item_def)
qed

lemma emitter_deinit_abs:
  assumes abs: "em_abs em xs"
  shows "\<exists>em'. emitter_deinit em = Some (RET_OK, em') \<and> em_items em' = NULL \<and> em_heap em' = Map.empty \<and>
    em_destroyed em' = em_destroyed em @ concat (map (destroy_call \<circ> snd) xs)"
proof -
  have same: "destroy_call (the (em_heap em (fst x))) = destroy_call (snd x)" if "x \<in> set xs" for x
    using em_abs_get[OF abs, of "fst x" "snd x"] that by (metis core_destroy option.sel prod.collapse)
  obtain em' where "destroy_items em (em_items em) = Some em'" "em_heap em' = Map.empty"
    "em_destroyed em' = em_destroyed em @ concat (map (\<lambda>p. destroy_call (the (em_heap em p))) (map fst xs))"
    using destroy_items_all[of em "em_items em" "map fst xs"] abs by (auto simp: em_abs_def em_rep_def)
  moreover have "concat (map (\<lambda>p. destroy_call (the (em_heap em p))) (map fst xs)) = concat (map (destroy_call \<circ> snd) xs)"
    using same by (simp cong: map_cong)
  moreover have "em_items em = NULL \<Longrightarrow> xs = [] \<and> em_heap em = Map.empty"
    using abs by (cases xs) (auto simp: em_abs_def em_rep_def)
  ultimately show ?thesis by (cases "em_items em = NULL") (simp_all add: emitter_deinit_def)
qed

text \<open>The difference of two unsigned numbers is zero only when they are equal, read as \<open>int\<close> too.\<close>

lemma compare_by_tag_zero:
  assumes "it_tag it < 4294967296" and "tag < 4294967296"
  shows "emitter_item_compare_by_tag tag it = 0 \<longleftrightarrow> it_tag it = tag"
  using s32_diff_0[of "it_tag it" tag] assms by (simp add: emitter_item_compare_by_tag_def)

lemma drop_cong:
  "(\<And>x. x \<in> set xs \<Longrightarrow> P (fst x) (snd x) \<longleftrightarrow> Q (fst x) (snd x)) \<Longrightarrow> drop_if P xs = drop_if Q xs \<and> dropped P xs = dropped Q xs"
  by (induction xs) auto

section \<open>Handlers that leave the emitter alone\<close>

type_synonym 'w pure_handlers = "ptr \<Rightarrow> ptr \<Rightarrow> 'w \<Rightarrow> event_t \<Rightarrow> ret_t \<times> 'w \<times> event_t"

definition leave_alone :: "'w pure_handlers \<Rightarrow> 'w handlers" where
  "leave_alone g f c w e em = (case g f c w e of (r, w, e) \<Rightarrow> (r, w, e, em))"

text \<open>What such a dispatch does to the items and the world.\<close>

fun run_handlers :: "'w pure_handlers \<Rightarrow> 'w \<Rightarrow> event_t \<Rightarrow> (ptr \<times> emitter_item_t) list \<Rightarrow>
    ret_t \<times> 'w \<times> event_t \<times> (ptr \<times> emitter_item_t) list" where
  "run_handlers g w e [] = (RET_OK, w, e, [])"
| "run_handlers g w e ((p, it) # xs) =
     (if it_type it \<noteq> ev_type e then (case run_handlers g w e xs of (r, w, e, ys) \<Rightarrow> (r, w, e, (p, it) # ys))
      else (case g (it_handler it) (it_ctx it) w e of (r, w, e) \<Rightarrow>
        if r = RET_STOP then (r, w, e, (p, it) # xs)
        else (case run_handlers g w e xs of (r', w, e, ys) \<Rightarrow> (r', w, e, if r = RET_REMOVE then ys else (p, it) # ys))))"

lemma dispatch_loop_run:
  assumes "em_abs em (xs @ ys)" and "\<forall>y \<in> set ys. \<not> it_working (snd y) \<and> \<not> it_pending (snd y)"
    and "run_handlers g w e ys = (r, w', e', zs)"
  shows "\<exists>em'. dispatch_loop (leave_alone g) w e em (head_ptr ys) = Some (r, w', e', em') \<and> em_abs em' (xs @ zs)"
  using assms
proof (induction ys arbitrary: xs w e em r w' e' zs)
  case Nil
  then show ?case by (subst dispatch_loop.simps) (simp add: find_item.simps)
next
  case (Cons y ys)
  obtain p it where y: "y = (p, it)" by (cases y)
  have abs: "em_abs em (xs @ (p, it) # ys)" using Cons.prems(1) y by simp
  have find: "find_item em (\<lambda>p it. it_type it = ev_type e) (head_ptr vs) = Some (head_ptr (dropWhile (\<lambda>x. it_type (snd x) \<noteq> ev_type e) vs))"
    if "em_abs em (us @ vs)" for us vs using find_item_abs[OF that, of "\<lambda>p it. it_type it = ev_type e"] by simp
  show ?case
  proof (cases "it_type it = ev_type e")
    case False
    have "find_item em (\<lambda>p it. it_type it = ev_type e) (head_ptr (y # ys)) = find_item em (\<lambda>p it. it_type it = ev_type e) (head_ptr ys)"
      using find[OF Cons.prems(1)] find[of "xs @ [y]" ys] abs y False by simp
    then have skip: "dispatch_loop (leave_alone g) w e em (head_ptr (y # ys)) = dispatch_loop (leave_alone g) w e em (head_ptr ys)"
      by (simp only: dispatch_loop.simps[of _ w e em])
    obtain zs' where zs': "run_handlers g w e ys = (r, w', e', zs')" "zs = y # zs'"
      using Cons.prems(3) False y by (auto split: prod.splits)
    then show ?thesis using Cons.IH[of em "xs @ [y]" w e r w' e' zs'] Cons.prems(1,2) skip by simp
  next
    case True
    obtain ret w1 e1 where g: "g (it_handler it) (it_ctx it) w e = (ret, w1, e1)" by (cases "g (it_handler it) (it_ctx it) w e")
    obtain em1 where em1: "dispatch_call em p = Some (it_working it, em1)" "em_abs em1 (xs @ (p, it\<lparr>it_working := True\<rparr>) # ys)"
      using dispatch_call_abs[OF abs] by blast
    obtain i where i: "get_item em1 p = Some i" "core i = it\<lparr>it_working := True\<rparr>"
      using em_abs_get[OF em1(2), of p "it\<lparr>it_working := True\<rparr>"] by auto
    have hc: "it_handler i = it_handler it" "it_ctx i = it_ctx it" using core_fields(1,4)[of i] unfolding i(2) by simp_all
    have idle: "\<not> it_working it" "\<not> it_pending it" using Cons.prems(2) y by auto
    have p: "p \<noteq> NULL" using em_abs_get[OF abs, of p it] by auto
    have keep: "it\<lparr>it_working := True, it_working := False\<rparr> = it" using idle by (cases it) simp
    have drop: "after_call False ret (p, it\<lparr>it_working := True\<rparr>) = (if ret = RET_REMOVE then [] else [(p, it)])"
      using idle by (simp only: after_call_def split keep drop_item_def) simp
    obtain em2 where em2: "dispatch_after em1 p False ret = Some (ret = RET_STOP, if ret = RET_STOP then NULL else head_ptr ys, em2)"
      "em_abs em2 (xs @ (if ret = RET_REMOVE then [] else [(p, it)]) @ ys)"
      using dispatch_after_abs[OF em1(2), of False ret] unfolding drop by auto
    have loop: "dispatch_loop (leave_alone g) w e em (head_ptr (y # ys)) =
        (if ret = RET_STOP then Some (ret, w1, e1, em2) else dispatch_loop (leave_alone g) w1 e1 em2 (head_ptr ys))"
      using find[OF Cons.prems(1)] True y em1(1) i(1) g hc idle em2(1) p
      by (subst dispatch_loop.simps) (simp add: leave_alone_def)
    show ?thesis
    proof (cases "ret = RET_STOP")
      case True
      then show ?thesis using loop em2(2) Cons.prems(3) \<open>it_type it = ev_type e\<close> y g by auto
    next
      case False
      then obtain zs' where zs': "run_handlers g w1 e1 ys = (r, w', e', zs')" "zs = (if ret = RET_REMOVE then zs' else (p, it) # zs')"
        using Cons.prems(3) \<open>it_type it = ev_type e\<close> y g by (auto split: prod.splits)
      show ?thesis using Cons.IH[of em2 "xs @ (if ret = RET_REMOVE then [] else [(p, it)])" w1 e1 r w' e' zs'] em2(2) zs' Cons.prems(2) loop False
        by auto
    qed
  qed
qed

section \<open>Properties\<close>

text \<open>A reachable configuration for the examples: the handler of one item runs.\<close>

definition running_item :: emitter_item_t where
  "running_item = \<lparr>it_ctx = 8, it_id = 1, it_type = 5, it_handler = 7, it_tag = 3, it_working = True, it_pending = False,
     it_on_destroy = NULL, it_on_destroy_ctx = NULL, it_next = NULL\<rparr>"

definition running_emitter :: emitter_t where
  "running_emitter = \<lparr>em_items = 100, em_next_id = 2, em_disable = 0, em_heap = [100 \<mapsto> running_item], em_destroyed = []\<rparr>"

lemma running_reachable: "em_reach (running_emitter, [(100, False)])"
proof -
  let ?on = "Op_on 100 5 7 8 3"
  let ?em = "running_emitter\<lparr>em_heap := [100 \<mapsto> running_item\<lparr>it_working := False\<rparr>]\<rparr>"
  have "em_exec ?on (emitter_init, []) = Some (?em, [])"
    by (simp add: emitter_on_with_tag_def emitter_next_id_def emitter_init_def running_emitter_def running_item_def u32_def)
  then have "em_reach (?em, [])" using em_reach.step[OF em_reach.init, of ?on "(?em, [])"] by (simp add: emitter_init_def)
  moreover have "em_exec (Op_dispatch 5) (?em, []) = Some (running_emitter, [(100, False)])"
    by (simp add: dispatch_next_def find_item.simps dispatch_call_def upd_item_def get_item_def running_emitter_def running_item_def)
  ultimately show ?thesis using em_reach.step[of _ "Op_dispatch 5"] by fastforce
qed

text \<open>
  C23. Whatever the handlers do to the emitter while it dispatches (register and remove handlers, their own
  included, by every way there is, block it, dispatch again) and in whatever order they return, no
  operation and no round of a dispatch reaches an item that was freed.
\<close>

theorem emitter_steps_safe:
  assumes "em_reach c" and "em_enabled op c"
  shows "\<exists>c'. em_exec op c = Some c' \<and> em_reach c'"
  using em_inv_exec[OF em_reach_inv[OF assms(1)] assms(2)] em_reach.step[OF assms] by blast

theorem emitter_steps_safe_witness:
  "(\<exists>c'. em_exec (Op_off_by_tag 3) (running_emitter, [(100, False)]) = Some c' \<and> em_reach c') \<and>
   (\<exists>c'. em_exec (Op_return RET_STOP 5) (running_emitter, [(100, False)]) = Some c' \<and> em_reach c')"
  using emitter_steps_safe[OF running_reachable, of "Op_off_by_tag 3"] emitter_steps_safe[OF running_reachable, of "Op_return RET_STOP 5"]
  by simp

text \<open>
  C24. When no dispatch runs, no handler is still marked as working or waits to be removed, and
  \<open>emitter_deinit\<close> then frees every item and calls \<open>on_destroy\<close> once for each that has one.
\<close>

theorem emitter_idle_clean:
  assumes "em_reach (em, [])"
  shows "\<exists>xs em'. em_abs em xs \<and> (\<forall>x \<in> set xs. \<not> it_working (snd x) \<and> \<not> it_pending (snd x)) \<and>
    emitter_deinit em = Some (RET_OK, em') \<and> em_heap em' = Map.empty \<and> em_items em' = NULL \<and>
    em_destroyed em' = em_destroyed em @ concat (map (destroy_call \<circ> snd) xs)"
proof -
  obtain xs where "em_abs em xs" "marks_ok {} xs" using em_reach_inv[OF assms] by (auto simp: em_inv_def)
  then show ?thesis using emitter_deinit_abs[of em xs] by (fastforce simp: marks_ok_def mark_ok_def)
qed

theorem emitter_idle_clean_witness:
  "\<exists>xs em'. em_abs emitter_init xs \<and> (\<forall>x \<in> set xs. \<not> it_working (snd x) \<and> \<not> it_pending (snd x)) \<and>
    emitter_deinit emitter_init = Some (RET_OK, em') \<and> em_heap em' = Map.empty \<and> em_items em' = NULL \<and>
    em_destroyed em' = em_destroyed emitter_init @ concat (map (destroy_call \<circ> snd) xs)"
  by (rule emitter_idle_clean[OF em_reach.init])

text \<open>
  C25. The loop of \<open>emitter_off_by_tag\<close> ends. It removes exactly the handlers of the tag, in order, those
  that run being marked to be removed when they return, calls their \<open>on_destroy\<close>, and returns
  \<open>RET_OK\<close> just when there was one.
\<close>

theorem emitter_off_by_tag_drops:
  assumes "em_abs em xs" and "tag < 4294967296"
  shows "\<exists>r em'. emitter_off_by_tag em tag = Some (r, em') \<and>
    em_abs em' (drop_if (\<lambda>p it. \<not> it_pending it \<and> it_tag it = tag) xs) \<and>
    em_destroyed em' = em_destroyed em @ dropped (\<lambda>p it. \<not> it_pending it \<and> it_tag it = tag) xs \<and>
    (r = RET_OK \<longleftrightarrow> (\<exists>x \<in> set xs. \<not> it_pending (snd x) \<and> it_tag (snd x) = tag))"
proof -
  let ?cmp = "emitter_item_compare_by_tag tag" and ?P = "\<lambda>p it. \<not> it_pending it \<and> it_tag it = tag"
  have core: "?cmp (core it) = ?cmp it" for it by (simp add: emitter_item_compare_by_tag_def)
  have m: "off_match ?cmp (fst x) (snd x) \<longleftrightarrow> ?P (fst x) (snd x)" if "x \<in> set xs" for x
    using assms that compare_by_tag_zero[of "snd x" tag] by (auto simp: off_match_def em_abs_def)
  show ?thesis using off_all_abs[where cmp = ?cmp, OF assms(1) core] m drop_cong[of xs "off_match ?cmp" ?P]
    by (auto simp: emitter_off_by_tag_def split_beta)
qed

theorem emitter_off_by_tag_drops_witness:
  "\<exists>r em'. emitter_off_by_tag running_emitter 3 = Some (r, em') \<and>
    em_abs em' [(100, running_item\<lparr>it_pending := True\<rparr>)] \<and> em_destroyed em' = [] \<and> r = RET_OK"
proof -
  have "em_abs running_emitter [(100, running_item)]"
    by (simp add: em_abs_def em_rep_def running_emitter_def running_item_def core_def)
  from emitter_off_by_tag_drops[OF this, of 3] show ?thesis
    by (simp add: drop_item_def running_item_def running_emitter_def)
qed

text \<open>
  C26. With handlers that leave the emitter alone, a dispatch calls each handler of the event's type once, the
  latest registration first, up to the first that stops the event, whose status it returns; it removes
  those that ask for it and keeps every other item as it was.
\<close>

theorem emitter_dispatch_order:
  assumes "em_abs em xs" and "\<forall>x \<in> set xs. \<not> it_working (snd x) \<and> \<not> it_pending (snd x)" and "em_disable em = 0"
    and "run_handlers g w (e\<lparr>ev_time := if ev_time e = 0 then now else ev_time e, ev_target := if ev_target e = NULL then self else ev_target e\<rparr>) xs
      = (r, w', e', zs)"
  shows "\<exists>em'. emitter_dispatch (leave_alone g) now self w em e = Some (r, w', e', em') \<and> em_abs em' zs"
proof -
  define e1 where "e1 = e\<lparr>ev_time := if ev_time e = 0 then now else ev_time e, ev_target := if ev_target e = NULL then self else ev_target e\<rparr>"
  have e1: "(let e = (if ev_time e = 0 then e\<lparr>ev_time := now\<rparr> else e) in (if ev_target e = NULL then e\<lparr>ev_target := self\<rparr> else e)) = e1"
    by (cases e) (simp add: e1_def)
  obtain em' where "dispatch_loop (leave_alone g) w e1 em (head_ptr xs) = Some (r, w', e', em')" "em_abs em' zs"
    using dispatch_loop_run[of em "[]" xs g w e1 r w' e' zs] assms(1,2,4) unfolding e1_def by auto
  moreover have "em_items em = NULL \<Longrightarrow> xs = []" using assms(1) by (cases xs) (auto simp: em_abs_def em_rep_def)
  ultimately show ?thesis using assms(1,3,4) e1 em_abs_items[OF assms(1)] unfolding e1_def[symmetric] emitter_dispatch_def Let_def
    by auto
qed

theorem emitter_dispatch_order_witness:
  "\<exists>em'. emitter_dispatch (leave_alone (\<lambda>f c w e. (RET_REMOVE, w @ [(f, c, ev_time e)], e))) 50 1 []
      (running_emitter\<lparr>em_heap := [100 \<mapsto> running_item\<lparr>it_working := False\<rparr>]\<rparr>) \<lparr>ev_type = 5, ev_time = 0, ev_target = NULL\<rparr> =
      Some (RET_OK, [(7, 8, 50)], \<lparr>ev_type = 5, ev_time = 50, ev_target = 1\<rparr>, em') \<and> em_abs em' []"
proof (rule emitter_dispatch_order)
  show "em_abs (running_emitter\<lparr>em_heap := [100 \<mapsto> running_item\<lparr>it_working := False\<rparr>]\<rparr>) [(100, running_item\<lparr>it_working := False\<rparr>)]"
    by (simp add: em_abs_def em_rep_def running_emitter_def running_item_def core_def)
qed (simp_all add: running_emitter_def running_item_def)

end
