(* ===== verification/Crc.thy ===== *)
theory Crc
  imports AwtkPrelude "HOL-Library.Word"
begin

unbundle bit_operations_syntax

text \<open>
  The checksums of \<open>src/src/tkc/crc.c\<close> on machine words: the tables that are filled on the first
  use, the updates by table lookup and the loops over a block of bytes. A block is the list of the
  bytes from the pointer on; a loop that reads past its end yields \<open>None\<close>.

  Shown: the table driven update is eight steps of the shift register of the polynomial, whatever calls
  filled the tables; a change within two consecutive bytes (four for the 32-bit sum) always changes
  the checksum; a block may be fed in parts. \<open>tk_crc32_file\<close>, which feeds a file block by block, is not
  modelled.
\<close>

section \<open>Tables\<close>

record crc_tables =
  s_crc16_fcs_table :: "16 word list"
  s_crc16_modbus_table :: "16 word list"
  s_crc32_table :: "32 word list"
  s_crc_tables_ready :: bool

definition CRC16_FCS_POLY_REFLECTED :: "16 word" where "CRC16_FCS_POLY_REFLECTED = 0x8408"
definition CRC16_MODBUS_POLY_REFLECTED :: "16 word" where "CRC16_MODBUS_POLY_REFLECTED = 0xa001"
definition CRC32_IEEE_POLY_REFLECTED :: "32 word" where "CRC32_IEEE_POLY_REFLECTED = 0xedb88320"
definition CRC16_MODBUS_INIT :: "16 word" where "CRC16_MODBUS_INIT = 0xffff"

text \<open>Static storage starts as zero.\<close>

definition crc_tables_zero :: crc_tables where
  "crc_tables_zero = \<lparr>s_crc16_fcs_table = replicate 256 0, s_crc16_modbus_table = replicate 256 0,
     s_crc32_table = replicate 256 0, s_crc_tables_ready = False\<rparr>"

fun reflect_loop16 :: "nat \<Rightarrow> 16 word \<Rightarrow> 16 word \<Rightarrow> 16 word" where
  "reflect_loop16 0 poly crc = crc"
| "reflect_loop16 (Suc n) poly crc =
     reflect_loop16 n poly (if crc AND 0x01 \<noteq> 0 then drop_bit 1 crc XOR poly else drop_bit 1 crc)"

definition crc16_reflect_table_item :: "16 word \<Rightarrow> 16 word \<Rightarrow> 16 word" where
  "crc16_reflect_table_item index poly = reflect_loop16 8 poly index"

definition crc16_update_byte :: "16 word \<Rightarrow> 8 word \<Rightarrow> 16 word list \<Rightarrow> 16 word" where
  "crc16_update_byte crc data table = drop_bit 8 crc XOR table ! unat ((crc XOR ucast data) AND 0xff)"

fun reflect_loop32 :: "nat \<Rightarrow> 32 word \<Rightarrow> 32 word \<Rightarrow> 32 word" where
  "reflect_loop32 0 poly crc = crc"
| "reflect_loop32 (Suc n) poly crc =
     reflect_loop32 n poly (if crc AND 0x01 \<noteq> 0 then drop_bit 1 crc XOR poly else drop_bit 1 crc)"

definition crc32_reflect_table_item :: "32 word \<Rightarrow> 32 word \<Rightarrow> 32 word" where
  "crc32_reflect_table_item index poly = reflect_loop32 8 poly index"

definition crc32_update_byte :: "32 word \<Rightarrow> 8 word \<Rightarrow> 32 word list \<Rightarrow> 32 word" where
  "crc32_update_byte crc data table = drop_bit 8 crc XOR table ! unat ((crc XOR ucast data) AND 0xff)"

fun fill_tables :: "nat \<Rightarrow> nat \<Rightarrow> crc_tables \<Rightarrow> crc_tables" where
  "fill_tables i 0 s = s"
| "fill_tables i (Suc n) s = fill_tables (i + 1) n
     (s\<lparr>s_crc16_fcs_table := (s_crc16_fcs_table s)[i := crc16_reflect_table_item (of_nat i) CRC16_FCS_POLY_REFLECTED],
        s_crc16_modbus_table := (s_crc16_modbus_table s)[i := crc16_reflect_table_item (of_nat i) CRC16_MODBUS_POLY_REFLECTED],
        s_crc32_table := (s_crc32_table s)[i := crc32_reflect_table_item (of_nat i) CRC32_IEEE_POLY_REFLECTED]\<rparr>)"

definition crc_ensure_tables :: "crc_tables \<Rightarrow> crc_tables" where
  "crc_ensure_tables s = (if s_crc_tables_ready s then s else (fill_tables 0 256 s)\<lparr>s_crc_tables_ready := True\<rparr>)"

section \<open>Checksums\<close>

definition tk_crc16_byte :: "crc_tables \<Rightarrow> 16 word \<Rightarrow> 8 word \<Rightarrow> 16 word \<times> crc_tables" where
  "tk_crc16_byte s crc data = (let s = crc_ensure_tables s in (crc16_update_byte crc data (s_crc16_fcs_table s), s))"

fun crc16_loop :: "16 word list \<Rightarrow> 16 word \<Rightarrow> 8 word list \<Rightarrow> nat \<Rightarrow> 16 word option" where
  "crc16_loop table crc pdata 0 = Some crc"
| "crc16_loop table crc [] (Suc n) = None"
| "crc16_loop table crc (b # pdata) (Suc n) = crc16_loop table (crc16_update_byte crc b table) pdata n"

text \<open>A negative length is no byte at all.\<close>

definition tk_crc16 :: "crc_tables \<Rightarrow> 16 word \<Rightarrow> 8 word list \<Rightarrow> int \<Rightarrow> (16 word \<times> crc_tables) option" where
  "tk_crc16 s crc data data_length =
     (let s = crc_ensure_tables s
      in map_option (\<lambda>c. (c, s)) (crc16_loop (s_crc16_fcs_table s) crc data (nat data_length)))"

definition tk_crc16_modbus :: "crc_tables \<Rightarrow> 8 word list \<Rightarrow> nat \<Rightarrow> (16 word \<times> crc_tables) option" where
  "tk_crc16_modbus s data len =
     (let s = crc_ensure_tables s
      in map_option (\<lambda>c. (c, s)) (crc16_loop (s_crc16_modbus_table s) CRC16_MODBUS_INIT data len))"

definition tk_chksum_byte :: "16 word \<Rightarrow> 8 word \<Rightarrow> 16 word" where
  "tk_chksum_byte chk data = chk + ucast data"

fun chksum_loop :: "16 word \<Rightarrow> 8 word list \<Rightarrow> nat \<Rightarrow> 16 word option" where
  "chksum_loop chk pdata 0 = Some chk"
| "chksum_loop chk [] (Suc n) = None"
| "chksum_loop chk (b # pdata) (Suc n) = chksum_loop (chk + ucast b) pdata n"

definition tk_chksum :: "16 word \<Rightarrow> 8 word list \<Rightarrow> int \<Rightarrow> 16 word option" where
  "tk_chksum chk data data_length = map_option (\<lambda>chk. 0xffff - chk) (chksum_loop chk data (nat data_length))"

fun crc32_loop :: "32 word list \<Rightarrow> 32 word \<Rightarrow> 8 word list \<Rightarrow> nat \<Rightarrow> 32 word option" where
  "crc32_loop table crc ptr 0 = Some crc"
| "crc32_loop table crc [] (Suc n) = None"
| "crc32_loop table crc (b # ptr) (Suc n) = crc32_loop table (crc32_update_byte crc b table) ptr n"

text \<open>\<open>None\<close> as \<open>data\<close> is NULL.\<close>

definition tk_crc32 :: "crc_tables \<Rightarrow> 32 word \<Rightarrow> 8 word list option \<Rightarrow> int \<Rightarrow> (32 word \<times> crc_tables) option" where
  "tk_crc32 s init data sz =
     (let s = crc_ensure_tables s
      in case data of None \<Rightarrow> Some (init, s)
         | Some ptr \<Rightarrow> map_option (\<lambda>c. (c, s)) (crc32_loop (s_crc32_table s) init ptr (nat sz)))"

definition tk_crc32_byte :: "crc_tables \<Rightarrow> 32 word \<Rightarrow> 8 word \<Rightarrow> 32 word \<times> crc_tables" where
  "tk_crc32_byte s crc data = (let s = crc_ensure_tables s in (crc32_update_byte crc data (s_crc32_table s), s))"

section \<open>The shift register\<close>

text \<open>One step of the register of a polynomial in reflected form, and one with the next bit of the data.\<close>

definition lfsr :: "'a::len word \<Rightarrow> 'a word \<Rightarrow> 'a word" where
  "lfsr poly c = drop_bit 1 c XOR (if bit c 0 then poly else 0)"

definition lfsr_bit :: "'a::len word \<Rightarrow> bool \<Rightarrow> 'a word \<Rightarrow> 'a word" where
  "lfsr_bit poly b c = drop_bit 1 c XOR (if bit c 0 \<noteq> b then poly else 0)"

text \<open>The bits of a byte, the lowest first.\<close>

definition byte_bits :: "8 word \<Rightarrow> bool list" where
  "byte_bits b = map (bit b) [0..<8]"

lemma and_1_bit: "(c AND 1 \<noteq> 0) \<longleftrightarrow> bit c 0" for c :: "'a::len word"
  by (simp add: and_one_eq odd_iff_mod_2_eq_one bit_0)

lemma lfsr_xor: "lfsr poly (a XOR b) = lfsr poly a XOR lfsr poly b"
  by (rule bit_word_eqI) (auto simp: lfsr_def bit_simps)

lemma lfsr_pow_xor: "(lfsr poly ^^ n) (a XOR b) = (lfsr poly ^^ n) a XOR (lfsr poly ^^ n) b"
  by (induction n arbitrary: a b) (simp_all add: lfsr_xor)

lemma lfsr_pow_0 [simp]: "(lfsr poly ^^ n) 0 = 0"
  by (induction n) (simp_all add: lfsr_def)

lemma lfsr_pow_high:
  "take_bit n c = 0 \<Longrightarrow> (lfsr poly ^^ n) c = drop_bit n c"
proof (induction n)
  case (Suc n)
  have low: "\<not> bit c i" if "i < Suc n" for i
    using Suc.prems that by (metis bit_0_eq bit_take_bit_iff bot_apply bot_bool_def)
  have "take_bit n c = 0" by (rule bit_word_eqI) (use low in \<open>auto simp: bit_simps\<close>)
  then have "(lfsr poly ^^ n) c = drop_bit n c" by (rule Suc.IH)
  moreover have "\<not> bit (drop_bit n c) 0" using low[of n] by (simp add: bit_simps)
  then have "lfsr poly (drop_bit n c) = drop_bit (Suc n) c" by (simp add: lfsr_def)
  ultimately show ?case by (simp only: funpow.simps comp_apply)
qed simp

lemma reflect_loop16: "reflect_loop16 n poly c = (lfsr poly ^^ n) c"
  by (induction n arbitrary: c) (auto simp: lfsr_def and_1_bit funpow_swap1)

lemma reflect_loop32: "reflect_loop32 n poly c = (lfsr poly ^^ n) c"
  by (induction n arbitrary: c) (auto simp: lfsr_def and_1_bit funpow_swap1)

lemma bit_take_Suc:
  fixes w :: "'a::len word"
  assumes "n < LENGTH('a)"
  shows "take_bit (Suc n) w = take_bit n w XOR (if bit w n then push_bit n 1 else 0)"
  using assms by (intro bit_word_eqI) (auto simp: bit_simps less_Suc_eq)

text \<open>Feeding \<open>n\<close> bits is the same as adding them to the register first.\<close>

lemma fold_lfsr_bits:
  fixes w :: "'a::len word"
  assumes "n \<le> LENGTH('a)"
  shows "fold (lfsr_bit poly) (map (bit w) [0..<n]) c = (lfsr poly ^^ n) (c XOR take_bit n w)"
  using assms
proof (induction n)
  case (Suc n)
  let ?x = "(lfsr poly ^^ n) (c XOR take_bit n w)"
  have "take_bit n (push_bit n (1 :: 'a word)) = 0" by (simp only: take_bit_push_bit) simp
  then have "(lfsr poly ^^ n) (push_bit n 1) = drop_bit n (push_bit n (1 :: 'a word))" by (rule lfsr_pow_high)
  also have "\<dots> = 1" using Suc.prems by (intro bit_word_eqI) (auto simp: bit_simps)
  finally have "(lfsr poly ^^ n) (push_bit n 1) = (1 :: 'a word)" .
  then have "(lfsr poly ^^ n) (c XOR take_bit (Suc n) w) = ?x XOR (if bit w n then 1 else 0)"
    using bit_take_Suc[of n w] Suc.prems by (simp add: lfsr_pow_xor flip: xor.assoc)
  then have "(lfsr poly ^^ Suc n) (c XOR take_bit (Suc n) w) = lfsr poly (?x XOR (if bit w n then 1 else 0))" by simp
  also have "\<dots> = lfsr_bit poly (bit w n) ?x"
    by (rule bit_word_eqI) (auto simp: lfsr_def lfsr_bit_def bit_simps)
  finally show ?case using Suc by simp
qed simp

lemma byte_bits_ucast: "8 \<le> LENGTH('a::len) \<Longrightarrow> byte_bits b = map (bit (ucast b :: 'a word)) [0..<8]"
  by (auto simp: byte_bits_def bit_simps)

lemma take_ucast: "8 \<le> LENGTH('a::len) \<Longrightarrow> take_bit 8 (ucast b :: 'a word) = ucast b" for b :: "8 word"
  by (rule bit_word_eqI) (auto simp: bit_simps dest: bit_imp_le_length)

lemma fold_byte:
  fixes c :: "'a::len word"
  assumes "8 \<le> LENGTH('a)"
  shows "fold (lfsr_bit poly) (byte_bits b) c = (lfsr poly ^^ 8) (c XOR ucast b)"
  using fold_lfsr_bits[of 8 poly "ucast b" c] assms byte_bits_ucast[of b, where 'a = 'a] take_ucast[of b, where 'a = 'a] by simp

text \<open>The update through a table of the eight-fold steps.\<close>

lemma lfsr_table:
  fixes c :: "'a::len word" and b :: "8 word"
  assumes len: "8 \<le> LENGTH('a)" and tab: "\<forall>i < 256. tab ! i = (lfsr poly ^^ 8) (of_nat i)"
  shows "drop_bit 8 c XOR tab ! unat ((c XOR ucast b) AND 0xff) = fold (lfsr_bit poly) (byte_bits b) c"
proof -
  define w where "w = c XOR ucast b"
  have mask: "w AND 0xff = take_bit 8 w" by (simp add: take_bit_eq_mask mask_eq_exp_minus_1)
  have "unat (take_bit 8 w) < 256" using take_bit_nat_less_exp[of 8 "unat w"] by (simp add: unsigned_take_bit_eq)
  then have look: "tab ! unat (w AND 0xff) = (lfsr poly ^^ 8) (take_bit 8 w)" using tab mask by simp
  have split: "w = take_bit 8 w XOR push_bit 8 (drop_bit 8 w)"
    by (rule bit_word_eqI) (auto simp: bit_simps dest: bit_imp_le_length)
  have "take_bit 8 (push_bit 8 (drop_bit 8 w)) = 0" by (simp add: take_bit_push_bit)
  then have "(lfsr poly ^^ 8) (push_bit 8 (drop_bit 8 w)) = drop_bit 8 (push_bit 8 (drop_bit 8 w))" by (rule lfsr_pow_high)
  also have "\<dots> = drop_bit 8 w" by (rule bit_word_eqI) (auto simp: bit_simps dest: bit_imp_le_length)
  also have "drop_bit 8 w = drop_bit 8 c"
    by (rule bit_word_eqI) (auto simp: w_def bit_simps dest: bit_imp_le_length)
  finally have "(lfsr poly ^^ 8) w = (lfsr poly ^^ 8) (take_bit 8 w) XOR drop_bit 8 c"
    by (subst split) (simp add: lfsr_pow_xor)
  then show ?thesis using look fold_byte[OF len, of poly b c] by (simp add: w_def xor.commute)
qed

section \<open>The tables are right when they are used\<close>

definition table_of :: "'a::len word \<Rightarrow> 'a word list \<Rightarrow> bool" where
  "table_of poly tab \<longleftrightarrow> (\<forall>i < 256. tab ! i = (lfsr poly ^^ 8) (of_nat i))"

definition tables_ok :: "crc_tables \<Rightarrow> bool" where
  "tables_ok s \<longleftrightarrow> length (s_crc16_fcs_table s) = 256 \<and> length (s_crc16_modbus_table s) = 256 \<and> length (s_crc32_table s) = 256 \<and>
     (s_crc_tables_ready s \<longrightarrow> table_of CRC16_FCS_POLY_REFLECTED (s_crc16_fcs_table s) \<and>
        table_of CRC16_MODBUS_POLY_REFLECTED (s_crc16_modbus_table s) \<and> table_of CRC32_IEEE_POLY_REFLECTED (s_crc32_table s))"

lemma tables_ok_zero: "tables_ok crc_tables_zero"
  by (simp add: tables_ok_def crc_tables_zero_def)

lemma fill_tables_entries:
  assumes "length (s_crc16_fcs_table s) = 256" "length (s_crc16_modbus_table s) = 256" "length (s_crc32_table s) = 256" and "i + n = 256"
    and "\<forall>j < i. s_crc16_fcs_table s ! j = (lfsr CRC16_FCS_POLY_REFLECTED ^^ 8) (of_nat j)"
    and "\<forall>j < i. s_crc16_modbus_table s ! j = (lfsr CRC16_MODBUS_POLY_REFLECTED ^^ 8) (of_nat j)"
    and "\<forall>j < i. s_crc32_table s ! j = (lfsr CRC32_IEEE_POLY_REFLECTED ^^ 8) (of_nat j)"
  shows "tables_ok ((fill_tables i n s)\<lparr>s_crc_tables_ready := True\<rparr>)"
  using assms
proof (induction n arbitrary: i s)
  case 0
  then show ?case by (simp add: tables_ok_def table_of_def)
next
  case (Suc n)
  have "i < 256" using Suc.prems(4) by simp
  show ?case unfolding fill_tables.simps
    by (rule Suc.IH) (use Suc.prems \<open>i < 256\<close> in \<open>simp_all add: nth_list_update less_Suc_eq crc16_reflect_table_item_def
        crc32_reflect_table_item_def reflect_loop16 reflect_loop32\<close>)
qed

lemma crc_ensure_tables_ok:
  assumes "tables_ok s"
  shows "tables_ok (crc_ensure_tables s)" and "s_crc_tables_ready (crc_ensure_tables s)"
  using assms fill_tables_entries[of s 0 256] by (auto simp: crc_ensure_tables_def tables_ok_def)

text \<open>The tables in use, as a bundle.\<close>

lemma ensured:
  assumes "tables_ok s"
  shows "table_of CRC16_FCS_POLY_REFLECTED (s_crc16_fcs_table (crc_ensure_tables s))"
    and "table_of CRC16_MODBUS_POLY_REFLECTED (s_crc16_modbus_table (crc_ensure_tables s))"
    and "table_of CRC32_IEEE_POLY_REFLECTED (s_crc32_table (crc_ensure_tables s))"
  using crc_ensure_tables_ok[OF assms] by (simp_all add: tables_ok_def)

definition register :: "'a::len word \<Rightarrow> 'a word \<Rightarrow> 8 word list \<Rightarrow> 'a word" where
  "register poly c bs = fold (lfsr_bit poly) (concat (map byte_bits bs)) c"

lemma register_simps [simp]:
  "register poly c [] = c"
  "register poly c (b # bs) = register poly (fold (lfsr_bit poly) (byte_bits b) c) bs"
  "register poly c (as @ bs) = register poly (register poly c as) bs"
  by (simp_all add: register_def)

lemma crc16_update: "table_of poly tab \<Longrightarrow> crc16_update_byte c b tab = fold (lfsr_bit poly) (byte_bits b) c"
  using lfsr_table[of tab poly c b] by (simp add: crc16_update_byte_def table_of_def)

lemma crc32_update: "table_of poly tab \<Longrightarrow> crc32_update_byte c b tab = fold (lfsr_bit poly) (byte_bits b) c"
  using lfsr_table[of tab poly c b] by (simp add: crc32_update_byte_def table_of_def)

lemma crc16_loop: "table_of poly tab \<Longrightarrow> n \<le> length bs \<Longrightarrow> crc16_loop tab c bs n = Some (register poly c (take n bs))"
  by (induction tab c bs n rule: crc16_loop.induct) (auto simp: crc16_update)

lemma crc32_loop: "table_of poly tab \<Longrightarrow> n \<le> length bs \<Longrightarrow> crc32_loop tab c bs n = Some (register poly c (take n bs))"
  by (induction tab c bs n rule: crc32_loop.induct) (auto simp: crc32_update)

section \<open>Bursts\<close>

definition top_bit :: "'a::len word \<Rightarrow> bool" where
  "top_bit poly \<longleftrightarrow> bit poly (LENGTH('a) - 1)"

lemma polynomials_top: "top_bit CRC16_FCS_POLY_REFLECTED" "top_bit CRC16_MODBUS_POLY_REFLECTED" "top_bit CRC32_IEEE_POLY_REFLECTED"
  by (simp_all add: top_bit_def CRC16_FCS_POLY_REFLECTED_def CRC16_MODBUS_POLY_REFLECTED_def CRC32_IEEE_POLY_REFLECTED_def)

text \<open>A step of the register can be undone.\<close>

lemma xor_cancel:
  "a XOR c = b XOR c \<longleftrightarrow> a = b" "c XOR a = c XOR b \<longleftrightarrow> a = b" for a b c :: "'a::len word"
  by (metis xor.assoc xor.right_neutral xor_self_eq, metis xor.assoc xor.left_neutral xor_self_eq)

lemma lfsr_inj:
  fixes poly :: "'a::len word"
  assumes "top_bit poly" and "lfsr poly a = lfsr poly b"
  shows "a = b"
proof -
  have top: "bit (lfsr poly c) (LENGTH('a) - 1) \<longleftrightarrow> bit c 0" for c
    using assms(1) by (auto simp: lfsr_def top_bit_def bit_simps dest: bit_imp_le_length)
  have low: "bit a 0 \<longleftrightarrow> bit b 0" using top[of a] top[of b] assms(2) by simp
  have "drop_bit 1 a = drop_bit 1 b" using assms(2) low by (simp add: lfsr_def xor_cancel split: if_splits)
  then have high: "bit a (Suc n) \<longleftrightarrow> bit b (Suc n)" for n by (metis bit_drop_bit_eq comp_apply plus_1_eq_Suc)
  show ?thesis
  proof (rule bit_word_eqI)
    fix n
    show "bit a n \<longleftrightarrow> bit b n" using low high by (cases n) auto
  qed
qed

lemma lfsr_pow_inj: "top_bit poly \<Longrightarrow> (lfsr poly ^^ n) a = (lfsr poly ^^ n) b \<Longrightarrow> a = b"
  by (induction n) (auto dest: lfsr_inj)

lemma lfsr_bit_inj:
  assumes "top_bit poly" and "lfsr_bit poly b x = lfsr_bit poly b y"
  shows "x = y"
proof -
  have "lfsr_bit poly b x = lfsr poly (x XOR (if b then 1 else 0))" for x
    by (rule bit_word_eqI) (auto simp: lfsr_def lfsr_bit_def bit_simps)
  then have "x XOR (if b then 1 else 0) = y XOR (if b then 1 else 0)" using assms lfsr_inj by metis
  then show ?thesis by (simp only: xor_cancel)
qed

lemma fold_lfsr_inj: "top_bit poly \<Longrightarrow> fold (lfsr_bit poly) bs x = fold (lfsr_bit poly) bs y \<Longrightarrow> x = y"
  by (induction bs arbitrary: x y) (auto dest: lfsr_bit_inj)

lemma register_inj: "top_bit poly \<Longrightarrow> register poly x bs = register poly y bs \<Longrightarrow> x = y"
  unfolding register_def by (rule fold_lfsr_inj)

text \<open>Different data of at most the width of the register leads to different sums.\<close>

lemma fold_lfsr_distinguishes:
  fixes poly :: "'a::len word"
  assumes top: "top_bit poly" and len: "length bs \<le> LENGTH('a)" "length cs = length bs"
    and eq: "fold (lfsr_bit poly) bs c = fold (lfsr_bit poly) cs c"
  shows "bs = cs"
proof -
  define wd :: "bool list \<Rightarrow> 'a word" where "wd = (\<lambda>bs. horner_sum of_bool 2 bs)"
  have bits: "map (bit (wd xs)) [0..<length xs] = xs" if "length xs \<le> LENGTH('a)" for xs
    using that by (intro nth_equalityI) (auto simp: wd_def bit_horner_sum_bit_word_iff)
  let ?n = "length bs"
  have fold: "fold (lfsr_bit poly) xs c = (lfsr poly ^^ ?n) (c XOR take_bit ?n (wd xs))" if "length xs = ?n" for xs
    using fold_lfsr_bits[of ?n poly "wd xs" c] bits[of xs] that len(1) by simp
  have "c XOR take_bit ?n (wd bs) = c XOR take_bit ?n (wd cs)"
    using eq fold[of bs] fold[of cs] len(2) lfsr_pow_inj[OF top] by metis
  then have eq': "take_bit ?n (wd bs) = take_bit ?n (wd cs)" by (simp only: xor_cancel)
  have "bit (wd bs) i \<longleftrightarrow> bit (wd cs) i" if "i < ?n" for i
    using that arg_cong[OF eq', of "\<lambda>w. bit w i"] by (simp add: bit_take_bit_iff)
  then have same: "map (bit (wd bs)) [0..<?n] = map (bit (wd cs)) [0..<?n]" by simp
  have cs: "map (bit (wd cs)) [0..<?n] = cs" using bits[of cs] len(1) unfolding len(2) .
  show ?thesis by (rule trans[OF sym[OF bits[OF len(1)]] trans[OF same cs]])
qed

lemma length_byte_bits [simp]: "length (byte_bits b) = 8"
  by (simp add: byte_bits_def)

lemma byte_bits_inj: "byte_bits a = byte_bits b \<Longrightarrow> a = b"
  by (rule bit_word_eqI) (simp add: byte_bits_def)

lemma length_concat_bits: "length (concat (map byte_bits bs)) = 8 * length bs"
  by (induction bs) auto

lemma concat_bits_inj: "length as = length bs \<Longrightarrow> concat (map byte_bits as) = concat (map byte_bits bs) \<Longrightarrow> as = bs"
proof (induction as bs rule: list_induct2)
  case (Cons a as b bs)
  then show ?case using byte_bits_inj by simp
qed simp

lemma register_burst:
  fixes poly :: "'a::len word"
  assumes top: "top_bit poly" and len: "8 * length xs \<le> LENGTH('a)" "length ys = length xs"
    and eq: "register poly c (pre @ xs @ suf) = register poly c (pre @ ys @ suf)"
  shows "xs = ys"
proof -
  let ?c = "register poly c pre"
  have "register poly ?c xs = register poly ?c ys" using eq register_inj[OF top] by (metis register_simps(3))
  then have "concat (map byte_bits xs) = concat (map byte_bits ys)"
    using fold_lfsr_distinguishes[OF top, of "concat (map byte_bits xs)" "concat (map byte_bits ys)" ?c] len
    by (simp add: register_def length_concat_bits)
  then show ?thesis using concat_bits_inj len(2) by metis
qed

section \<open>Properties\<close>

text \<open>
  C27. Whichever call filled the tables, each checksum of a block by table lookup is what the shift register of
  its polynomial holds after the bits of the block, one at a time from the given start value, and the
  tables stay right; with a negative length, or NULL for the 32-bit sum, the start value is returned.
\<close>

theorem crc_matches_register:
  assumes "tables_ok s" and "nat n \<le> length data"
  shows "\<exists>s'. tables_ok s' \<and>
    tk_crc16 s cw data n = Some (register CRC16_FCS_POLY_REFLECTED cw (take (nat n) data), s') \<and>
    tk_crc16_modbus s data (nat n) = Some (register CRC16_MODBUS_POLY_REFLECTED 0xffff (take (nat n) data), s') \<and>
    tk_crc32 s cd (Some data) n = Some (register CRC32_IEEE_POLY_REFLECTED cd (take (nat n) data), s') \<and>
    tk_crc32 s cd None n = Some (cd, s')"
  using crc_ensure_tables_ok(1)[OF assms(1)] ensured[OF assms(1)] assms(2)
  by (intro exI[of _ "crc_ensure_tables s"])
     (simp add: tk_crc16_def tk_crc16_modbus_def tk_crc32_def Let_def crc16_loop crc32_loop CRC16_MODBUS_INIT_def)

theorem crc_matches_register_witness:
  "\<exists>s'. tables_ok s' \<and>
    tk_crc16 crc_tables_zero 0xffff [0x31, 0x32] 1 = Some (register CRC16_FCS_POLY_REFLECTED 0xffff [0x31], s') \<and>
    tk_crc16_modbus crc_tables_zero [0x31, 0x32] 1 = Some (register CRC16_MODBUS_POLY_REFLECTED 0xffff [0x31], s') \<and>
    tk_crc32 crc_tables_zero 0xffffffff (Some [0x31, 0x32]) 1 = Some (register CRC32_IEEE_POLY_REFLECTED 0xffffffff [0x31], s') \<and>
    tk_crc32 crc_tables_zero 0xffffffff None 1 = Some (0xffffffff, s')"
  using crc_matches_register[OF tables_ok_zero, of 1 "[0x31, 0x32]" "0xffff" "0xffffffff"] by simp

text \<open>
  C28. A change of a block within two consecutive bytes always changes its 16-bit sums, and one within four
  consecutive bytes its 32-bit sum.
\<close>

theorem crc_detects_bursts:
  assumes "tables_ok s" and "xs \<noteq> ys" and "length ys = length xs" and "m = int (length (pre @ xs @ suf))"
  shows "(length xs \<le> 2 \<longrightarrow> tk_crc16 s cw (pre @ xs @ suf) m \<noteq> tk_crc16 s cw (pre @ ys @ suf) m \<and>
      tk_crc16_modbus s (pre @ xs @ suf) (nat m) \<noteq> tk_crc16_modbus s (pre @ ys @ suf) (nat m)) \<and>
    (length xs \<le> 4 \<longrightarrow> tk_crc32 s cd (Some (pre @ xs @ suf)) m \<noteq> tk_crc32 s cd (Some (pre @ ys @ suf)) m)"
proof -
  let ?x = "pre @ xs @ suf" and ?y = "pre @ ys @ suf"
  have n: "nat m \<le> length ?x" "nat m \<le> length ?y" "take (nat m) ?x = ?x" "take (nat m) ?y = ?y" using assms(3,4) by auto
  have short: "length xs \<le> 2 \<Longrightarrow> top_bit poly \<Longrightarrow> register poly c ?x \<noteq> register poly c ?y" for poly c :: "16 word"
    using register_burst[of poly xs ys c pre suf] assms(2,3) by fastforce
  have long: "length xs \<le> 4 \<Longrightarrow> top_bit poly \<Longrightarrow> register poly c ?x \<noteq> register poly c ?y" for poly c :: "32 word"
    using register_burst[of poly xs ys c pre suf] assms(2,3) by fastforce
  obtain s1 where 1: "tk_crc16 s cw ?x m = Some (register CRC16_FCS_POLY_REFLECTED cw ?x, s1)"
      "tk_crc16_modbus s ?x (nat m) = Some (register CRC16_MODBUS_POLY_REFLECTED 0xffff ?x, s1)"
      "tk_crc32 s cd (Some ?x) m = Some (register CRC32_IEEE_POLY_REFLECTED cd ?x, s1)"
    using crc_matches_register[OF assms(1) n(1)] unfolding n(3) by blast
  obtain s2 where 2: "tk_crc16 s cw ?y m = Some (register CRC16_FCS_POLY_REFLECTED cw ?y, s2)"
      "tk_crc16_modbus s ?y (nat m) = Some (register CRC16_MODBUS_POLY_REFLECTED 0xffff ?y, s2)"
      "tk_crc32 s cd (Some ?y) m = Some (register CRC32_IEEE_POLY_REFLECTED cd ?y, s2)"
    using crc_matches_register[OF assms(1) n(2)] unfolding n(4) by blast
  show ?thesis unfolding 1 2 option.inject prod.inject
    using short[OF _ polynomials_top(1)] short[OF _ polynomials_top(2)] long[OF _ polynomials_top(3)] by blast
qed

theorem crc_detects_bursts_witness:
  "tk_crc16 crc_tables_zero 0xffff [1, 2, 3, 4] 4 \<noteq> tk_crc16 crc_tables_zero 0xffff [1, 7, 3, 4] 4 \<and>
   tk_crc32 crc_tables_zero 0xffffffff (Some [1, 2, 3, 4]) 4 \<noteq> tk_crc32 crc_tables_zero 0xffffffff (Some [1, 7, 3, 4]) 4"
  using crc_detects_bursts[OF tables_ok_zero, of "[2]" "[7]" 4 "[1]" "[3, 4]" "0xffff" "0xffffffff"] by simp

end
