(* ===== verification/MemSimple.thy ===== *)
theory MemSimple
  imports AwtkPrelude
begin

text \<open>
  The memory allocator of a system without \<open>malloc\<close>, \<open>src/src/tkc/mem_allocator_simple.h\<close>: one buffer, cut
  into blocks that start with their size; a free block continues with the links of a doubly linked list
  of the free blocks in the order of their addresses.

  Memory is bytes, and the fields of a \<open>free_node_t\<close> are read and written through it, with the layout of
  a 64-bit little endian machine, so that what the caller keeps in its blocks and what the allocator
  keeps in the free ones share one memory. A result \<open>None\<close> is an access outside of the buffer or through
  NULL, or a walk that does not end.

  Shown: the blocks tile the buffer, no two neighbours are free, the list links the free ones; every
  operation keeps this and leaves the bytes of all other blocks alone; an allocation fails exactly when
  no free block is large enough.
\<close>

section \<open>Memory\<close>

type_synonym mem = "nat \<Rightarrow> byte"

text \<open>Numbers of \<open>n\<close> bytes, the lowest first.\<close>

fun ld :: "nat \<Rightarrow> mem \<Rightarrow> nat \<Rightarrow> nat" where
  "ld 0 m a = 0"
| "ld (Suc n) m a = unat (m a) + 256 * ld n m (Suc a)"

fun st :: "nat \<Rightarrow> mem \<Rightarrow> nat \<Rightarrow> nat \<Rightarrow> mem" where
  "st 0 m a v = m"
| "st (Suc n) m a v = (st n m (Suc a) (v div 256))(a := word_of_nat v)"

definition fill_bytes :: "mem \<Rightarrow> nat \<Rightarrow> byte \<Rightarrow> nat \<Rightarrow> mem" where
  "fill_bytes m a v n = (\<lambda>x. if a \<le> x \<and> x < a + n then v else m x)"

definition copy_bytes :: "mem \<Rightarrow> nat \<Rightarrow> nat \<Rightarrow> nat \<Rightarrow> mem" where
  "copy_bytes m dst src n = (\<lambda>x. if dst \<le> x \<and> x < dst + n then m (src + (x - dst)) else m x)"

lemma st_other: "x < a \<or> a + n \<le> x \<Longrightarrow> st n m a v x = m x"
  by (induction n arbitrary: m a v) auto

lemma ld_cong: "(\<And>x. a \<le> x \<Longrightarrow> x < a + n \<Longrightarrow> m x = m' x) \<Longrightarrow> ld n m a = ld n m' a"
proof (induction n arbitrary: a)
  case (Suc n)
  have "ld n m (Suc a) = ld n m' (Suc a)" by (rule Suc.IH) (use Suc.prems in auto)
  then show ?case using Suc.prems[of a] by simp
qed simp

lemma ld_st_same [simp]: "ld n (st n m a v) a = v mod 256 ^ n"
proof (induction n arbitrary: m a v)
  case (Suc n)
  have *: "ld n ((st n m (Suc a) (v div 256))(a := word_of_nat v)) (Suc a) = ld n (st n m (Suc a) (v div 256)) (Suc a)"
    by (rule ld_cong) simp
  show ?case by (simp only: ld.simps st.simps * Suc.IH fun_upd_same) (simp add: unat_of_nat mod_mult2_eq)
qed simp

lemma ld_st_other: "b + k \<le> a \<or> a + n \<le> b \<Longrightarrow> ld k (st n m a v) b = ld k m b"
  by (rule ld_cong, rule st_other) auto

section \<open>The allocator\<close>

record free_node =
  fn_size :: nat
  fn_next :: ptr
  fn_prev :: ptr

record mem_info =
  mi_buffer :: ptr
  mi_size :: nat
  mi_used_bytes :: nat
  mi_used_block_nr :: nat
  mi_used_max_bytes :: nat
  mi_used_max_block_nr :: nat
  mi_free_list :: ptr

definition MIN_SIZE :: nat where
  "MIN_SIZE = 24"

text \<open>The fields of the node at an address.\<close>

definition nd_size :: "mem \<Rightarrow> ptr \<Rightarrow> nat" where
  "nd_size m a = ld 4 m a"

definition nd_next :: "mem \<Rightarrow> ptr \<Rightarrow> ptr" where
  "nd_next m a = ld 8 m (a + 8)"

definition nd_prev :: "mem \<Rightarrow> ptr \<Rightarrow> ptr" where
  "nd_prev m a = ld 8 m (a + 16)"

definition node_ok :: "mem_info \<Rightarrow> ptr \<Rightarrow> bool" where
  "node_ok info a \<longleftrightarrow> a \<noteq> NULL \<and> mi_buffer info \<le> a \<and> a + MIN_SIZE \<le> mi_buffer info + mi_size info"

definition w_size :: "mem \<Rightarrow> ptr \<Rightarrow> nat \<Rightarrow> mem" where
  "w_size m a v = st 4 m a v"

definition w_next :: "mem \<Rightarrow> ptr \<Rightarrow> ptr \<Rightarrow> mem" where
  "w_next m a v = st 8 m (a + 8) v"

definition w_prev :: "mem \<Rightarrow> ptr \<Rightarrow> ptr \<Rightarrow> mem" where
  "w_prev m a v = st 8 m (a + 16) v"

definition set_size :: "mem_info \<Rightarrow> mem \<Rightarrow> ptr \<Rightarrow> nat \<Rightarrow> mem option" where
  "set_size info m a v = (if node_ok info a then Some (w_size m a v) else None)"

definition set_next :: "mem_info \<Rightarrow> mem \<Rightarrow> ptr \<Rightarrow> ptr \<Rightarrow> mem option" where
  "set_next info m a v = (if node_ok info a then Some (w_next m a v) else None)"

definition set_prev :: "mem_info \<Rightarrow> mem \<Rightarrow> ptr \<Rightarrow> ptr \<Rightarrow> mem option" where
  "set_prev info m a v = (if node_ok info a then Some (w_prev m a v) else None)"

definition real_size :: "nat \<Rightarrow> nat" where
  "real_size sz = (if sz > MIN_SIZE then sz else MIN_SIZE)"

text \<open>\<open>TK_ROUND_TO8\<close> of a \<open>uint32_t\<close>.\<close>

definition round_to_mach :: "nat \<Rightarrow> nat" where
  "round_to_mach sz = u32 (sz + 7) div 8 * 8"

text \<open>The size of the block for \<open>s\<close> bytes, with its header.\<close>

definition block_size :: "nat \<Rightarrow> nat" where
  "block_size s = round_to_mach (real_size (u32 (s + 4)))"

partial_function (option) find_fit :: "mem_info \<Rightarrow> mem \<Rightarrow> nat \<Rightarrow> ptr \<Rightarrow> ptr option" where
  "find_fit info m sz iter =
     (if iter = NULL then Some NULL
      else if \<not> node_ok info iter then None
      else if nd_size m iter \<ge> sz then Some iter
      else find_fit info m sz (nd_next m iter))"

text \<open>The node leaves the list.\<close>

definition take_whole :: "mem_info \<Rightarrow> mem \<Rightarrow> ptr \<Rightarrow> (mem_info \<times> mem) option" where
  "take_whole info m iter =
     (let info = (if mi_free_list info = iter then info\<lparr>mi_free_list := nd_next m iter\<rparr> else info)
      in Option.bind (if nd_prev m iter \<noteq> NULL then set_next info m (nd_prev m iter) (nd_next m iter) else Some m) (\<lambda>m.
           Option.bind (if nd_next m iter \<noteq> NULL then set_prev info m (nd_next m iter) (nd_prev m iter) else Some m) (\<lambda>m.
             Some (info, m))))"

text \<open>The end of the node stays in the list in its place.\<close>

definition take_part :: "mem_info \<Rightarrow> mem \<Rightarrow> nat \<Rightarrow> ptr \<Rightarrow> (mem_info \<times> mem) option" where
  "take_part info m sz iter =
     (let new_iter = iter + sz
      in Option.bind (set_size info m new_iter (nd_size m iter - sz)) (\<lambda>m.
           Option.bind (set_next info m new_iter (nd_next m iter)) (\<lambda>m.
             Option.bind (set_prev info m new_iter (nd_prev m iter)) (\<lambda>m.
               Option.bind (if nd_prev m iter \<noteq> NULL then set_next info m (nd_prev m iter) new_iter else Some m) (\<lambda>m.
                 Option.bind (if nd_next m iter \<noteq> NULL then set_prev info m (nd_next m iter) new_iter else Some m) (\<lambda>m.
                   Option.bind (set_size info m iter sz) (\<lambda>m.
                     Some (if mi_free_list info = iter then info\<lparr>mi_free_list := new_iter\<rparr> else info, m))))))))"

definition count_used :: "mem_info \<Rightarrow> nat \<Rightarrow> mem_info" where
  "count_used info sz =
     (let info = info\<lparr>mi_used_block_nr := u32 (mi_used_block_nr info + 1), mi_used_bytes := u32 (mi_used_bytes info + sz)\<rparr>;
          info = (if mi_used_block_nr info > mi_used_max_block_nr info then info\<lparr>mi_used_max_block_nr := mi_used_block_nr info\<rparr> else info)
      in if mi_used_bytes info > mi_used_max_bytes info then info\<lparr>mi_used_max_bytes := mi_used_bytes info\<rparr> else info)"

definition tk_alloc_impl :: "mem_info \<Rightarrow> mem \<Rightarrow> nat \<Rightarrow> (ptr \<times> mem_info \<times> mem) option" where
  "tk_alloc_impl info m s =
     (let sz = block_size s
      in Option.bind (find_fit info m sz (mi_free_list info)) (\<lambda>iter.
           if iter = NULL then Some (NULL, info, m)
           else Option.bind (if nd_size m iter < sz + MIN_SIZE then take_whole info m iter else take_part info m sz iter) (\<lambda>(info, m).
                  Some (iter + 4, count_used info (nd_size m iter), m))))"

definition node_merge2 :: "mem_info \<Rightarrow> mem \<Rightarrow> ptr \<Rightarrow> ptr \<Rightarrow> (mem_info \<times> mem) option" where
  "node_merge2 info m prev nxt =
     (if prev = NULL \<or> nxt = NULL then Some (info, m)
      else if \<not> (node_ok info prev \<and> node_ok info nxt) then None
      else if nd_next m prev \<noteq> nxt then Some (info, m)
      else Option.bind (set_next info m prev (nd_next m nxt)) (\<lambda>m.
             Option.bind (if nd_next m nxt \<noteq> NULL then set_prev info m (nd_next m nxt) prev else Some m) (\<lambda>m.
               Option.bind (set_size info m prev (u32 (nd_size m prev + nd_size m nxt))) (\<lambda>m.
                 Some (if mi_free_list info = nxt then info\<lparr>mi_free_list := prev\<rparr> else info, m)))))"

partial_function (option) node_merge :: "mem_info \<Rightarrow> mem \<Rightarrow> ptr \<Rightarrow> (mem_info \<times> mem) option" where
  "node_merge info m iter =
     (if \<not> node_ok info iter then None
      else
        (let prev = nd_prev m iter; nxt = nd_next m iter
         in if prev \<noteq> NULL \<and> \<not> node_ok info prev then None
            else if prev \<noteq> NULL \<and> prev + nd_size m prev = iter then
              Option.bind (node_merge2 info m prev iter) (\<lambda>(info, m). node_merge info m prev)
            else if nxt \<noteq> NULL \<and> iter + nd_size m iter = nxt then
              Option.bind (node_merge2 info m iter nxt) (\<lambda>(info, m). node_merge info m iter)
            else Some (info, m)))"

partial_function (option) insert_loop :: "mem_info \<Rightarrow> mem \<Rightarrow> ptr \<Rightarrow> ptr \<Rightarrow> (mem_info \<times> mem) option" where
  "insert_loop info m free_iter iter =
     (if iter = NULL then Some (info, m)
      else if \<not> node_ok info iter then None
      else if iter > free_iter then
        Option.bind (set_next info m free_iter iter) (\<lambda>m.
          Option.bind (set_prev info m free_iter (nd_prev m iter)) (\<lambda>m.
            Option.bind (if nd_prev m iter \<noteq> NULL then set_next info m (nd_prev m iter) free_iter else Some m) (\<lambda>m.
              Option.bind (set_prev info m iter free_iter) (\<lambda>m.
                Some (if mi_free_list info = iter then info\<lparr>mi_free_list := free_iter\<rparr> else info, m)))))
      else if nd_next m iter = NULL then
        Option.bind (set_next info m iter free_iter) (\<lambda>m. Option.bind (set_prev info m free_iter iter) (\<lambda>m. Some (info, m)))
      else insert_loop info m free_iter (nd_next m iter))"

definition tk_free_impl :: "mem_info \<Rightarrow> mem \<Rightarrow> ptr \<Rightarrow> (mem_info \<times> mem) option" where
  "tk_free_impl info m p =
     (if p = NULL then Some (info, m)
      else
        (let free_iter = p - 4; sz = nd_size m free_iter
         in Option.bind (set_prev info m free_iter NULL) (\<lambda>m.
              Option.bind (set_next info m free_iter NULL) (\<lambda>m.
                Option.bind (if mi_free_list info = NULL then Some (info\<lparr>mi_free_list := free_iter\<rparr>, m)
                             else Option.bind (insert_loop info m free_iter (mi_free_list info)) (\<lambda>(info, m). node_merge info m free_iter)) (\<lambda>(info, m).
                  Some (info\<lparr>mi_used_block_nr := u32 (mi_used_block_nr info + 2 ^ 32 - 1), mi_used_bytes := u32 (mi_used_bytes info + 2 ^ 32 - sz)\<rparr>, m))))))"

text \<open>The bytes that \<open>memcpy\<close> reads and writes are in the buffer.\<close>

definition in_buffer :: "mem_info \<Rightarrow> ptr \<Rightarrow> nat \<Rightarrow> bool" where
  "in_buffer info p n \<longleftrightarrow> mi_buffer info \<le> p \<and> p + n \<le> mi_buffer info + mi_size info"

definition tk_realloc_impl :: "mem_info \<Rightarrow> mem \<Rightarrow> ptr \<Rightarrow> nat \<Rightarrow> (ptr \<times> mem_info \<times> mem) option" where
  "tk_realloc_impl info m p sz =
     (if p \<noteq> NULL then
        (let up_size = u32 (sz + MIN_SIZE); old_size = u32 (nd_size m (p - 4) + 2 ^ 32 - 4)
         in if old_size \<ge> sz \<and> old_size \<le> up_size then Some (p, info, m)
            else Option.bind (tk_alloc_impl info m sz) (\<lambda>(new_ptr, info, m).
                   if new_ptr \<noteq> NULL then
                     (let n = (if sz < old_size then sz else old_size)
                      in if \<not> in_buffer info new_ptr n \<or> \<not> in_buffer info p n then None
                         else Option.bind (tk_free_impl info (copy_bytes m new_ptr p n) p) (\<lambda>(info, m). Some (new_ptr, info, m)))
                   else Some (new_ptr, info, m)))
      else tk_alloc_impl info m sz)"

text \<open>\<open>mem_allocator_simple_init\<close>: the struct is zeroed before \<open>tk_mem_init_impl\<close>.\<close>

definition tk_mem_init_impl :: "mem_info \<Rightarrow> mem \<Rightarrow> ptr \<Rightarrow> nat \<Rightarrow> ret_t \<times> mem_info \<times> mem" where
  "tk_mem_init_impl info m buffer sz =
     (if buffer = NULL \<or> \<not> sz > MIN_SIZE then (RET_BAD_PARAMS, info, m)
      else if mi_buffer info \<noteq> NULL then (RET_FAIL, info, m)
      else
        (let m = fill_bytes m buffer 0 sz;
             m = w_prev m buffer NULL;
             m = w_next m buffer NULL;
             m = w_size m buffer sz
         in (RET_OK, info\<lparr>mi_buffer := buffer, mi_size := sz, mi_free_list := buffer, mi_used_block_nr := 0\<rparr>, m)))"

definition mem_info_zero :: mem_info where
  "mem_info_zero = \<lparr>mi_buffer = NULL, mi_size = 0, mi_used_bytes = 0, mi_used_block_nr = 0, mi_used_max_bytes = 0,
     mi_used_max_block_nr = 0, mi_free_list = NULL\<rparr>"

definition mem_allocator_simple_init :: "mem \<Rightarrow> ptr \<Rightarrow> nat \<Rightarrow> (mem_info \<times> mem) option" where
  "mem_allocator_simple_init m buffer sz =
     (case tk_mem_init_impl mem_info_zero m buffer sz of (r, info, m) \<Rightarrow> if r = RET_OK then Some (info, m) else None)"

definition mem_allocator_simple_is_valid :: "mem_info \<Rightarrow> bool" where
  "mem_allocator_simple_is_valid info \<longleftrightarrow> mi_buffer info \<noteq> NULL \<and> mi_size info > 0"

definition mem_allocator_simple_contains :: "mem_info \<Rightarrow> ptr \<Rightarrow> bool" where
  "mem_allocator_simple_contains info p \<longleftrightarrow> p \<ge> mi_buffer info \<and> p - mi_buffer info < mi_size info"

definition mem_allocator_simple_get_mem_size :: "mem \<Rightarrow> ptr \<Rightarrow> nat" where
  "mem_allocator_simple_get_mem_size m p = (if p = NULL then 0 else nd_size m (p - 4))"


section \<open>Reading what was written\<close>

text \<open>Nodes do not overlap.\<close>

definition apart :: "ptr \<Rightarrow> ptr \<Rightarrow> bool" where
  "apart a b \<longleftrightarrow> a = b \<or> a + 24 \<le> b \<or> b + 24 \<le> a"

lemmas node_defs = nd_size_def nd_next_def nd_prev_def w_size_def w_next_def w_prev_def

lemma node_same [simp]:
  "nd_size (w_size m a v) a = v mod 2 ^ 32" "nd_next (w_next m a v) a = v mod 2 ^ 64" "nd_prev (w_prev m a v) a = v mod 2 ^ 64"
  by (simp_all add: node_defs)

lemma node_field [simp]:
  "nd_next (w_size m a v) a = nd_next m a" "nd_prev (w_size m a v) a = nd_prev m a"
  "nd_size (w_next m a v) a = nd_size m a" "nd_prev (w_next m a v) a = nd_prev m a"
  "nd_size (w_prev m a v) a = nd_size m a" "nd_next (w_prev m a v) a = nd_next m a"
  by (simp_all add: node_defs ld_st_other)

lemma node_other:
  assumes "apart a b" and "a \<noteq> b"
  shows "nd_size (w_size m a v) b = nd_size m b" "nd_next (w_size m a v) b = nd_next m b" "nd_prev (w_size m a v) b = nd_prev m b"
    "nd_size (w_next m a v) b = nd_size m b" "nd_next (w_next m a v) b = nd_next m b" "nd_prev (w_next m a v) b = nd_prev m b"
    "nd_size (w_prev m a v) b = nd_size m b" "nd_next (w_prev m a v) b = nd_next m b" "nd_prev (w_prev m a v) b = nd_prev m b"
  using assms by (auto simp: node_defs apart_def intro!: ld_st_other)

lemma node_apart [simp]:
  assumes "apart a b"
  shows "nd_size (w_size m a v) b = (if a = b then v mod 2 ^ 32 else nd_size m b)"
    and "nd_next (w_size m a v) b = nd_next m b" and "nd_prev (w_size m a v) b = nd_prev m b"
    and "nd_size (w_next m a v) b = nd_size m b" and "nd_next (w_next m a v) b = (if a = b then v mod 2 ^ 64 else nd_next m b)"
    and "nd_prev (w_next m a v) b = nd_prev m b" and "nd_size (w_prev m a v) b = nd_size m b"
    and "nd_next (w_prev m a v) b = nd_next m b" and "nd_prev (w_prev m a v) b = (if a = b then v mod 2 ^ 64 else nd_prev m b)"
  using node_other[OF assms] by (cases "a = b"; simp)+

text \<open>The bytes that writes to nodes may change.\<close>

lemma node_bytes:
  "x < a \<or> a + 24 \<le> x \<Longrightarrow> w_size m a v x = m x" "x < a \<or> a + 24 \<le> x \<Longrightarrow> w_next m a v x = m x" "x < a \<or> a + 24 \<le> x \<Longrightarrow> w_prev m a v x = m x"
  by (auto simp: node_defs intro!: st_other)

section \<open>Blocks\<close>

text \<open>A block of memory with its size, and whether it is free.\<close>

type_synonym blk = "ptr \<times> nat \<times> bool"

fun tiles :: "ptr \<Rightarrow> blk list \<Rightarrow> ptr \<Rightarrow> bool" where
  "tiles a [] e \<longleftrightarrow> a = e"
| "tiles a ((b, s, f) # bs) e \<longleftrightarrow> b = a \<and> 24 \<le> s \<and> tiles (a + s) bs e"

fun frees :: "blk list \<Rightarrow> ptr list" where
  "frees [] = []"
| "frees ((a, s, f) # bs) = (if f then a # frees bs else frees bs)"

fun useds :: "blk list \<Rightarrow> (ptr \<times> nat) list" where
  "useds [] = []"
| "useds ((a, s, f) # bs) = (if f then useds bs else (a, s) # useds bs)"

text \<open>A run of the list: from the node before, along the nodes, to the node after.\<close>

definition hd0 :: "ptr list \<Rightarrow> ptr \<Rightarrow> ptr" where
  "hd0 as n = (case as of [] \<Rightarrow> n | a # _ \<Rightarrow> a)"

definition last0 :: "ptr list \<Rightarrow> ptr \<Rightarrow> ptr" where
  "last0 as p = (if as = [] then p else last as)"

fun lseg :: "mem \<Rightarrow> ptr \<Rightarrow> ptr list \<Rightarrow> ptr \<Rightarrow> bool" where
  "lseg m p [] n \<longleftrightarrow> True"
| "lseg m p (a # as) n \<longleftrightarrow> nd_prev m a = p \<and> nd_next m a = hd0 as n \<and> lseg m a as n"

definition heap_ok :: "mem_info \<Rightarrow> mem \<Rightarrow> blk list \<Rightarrow> bool" where
  "heap_ok info m bs \<longleftrightarrow>
     0 < mi_buffer info \<and> 24 < mi_size info \<and> mi_buffer info + mi_size info < 2 ^ 64 \<and> mi_size info < 2 ^ 32 \<and>
     tiles (mi_buffer info) bs (mi_buffer info + mi_size info) \<and>
     (\<forall>(a, s, f) \<in> set bs. nd_size m a = s) \<and>
     mi_free_list info = hd0 (frees bs) NULL \<and> lseg m NULL (frees bs) NULL"

text \<open>No two neighbours are free.\<close>

fun merged :: "blk list \<Rightarrow> bool" where
  "merged (x # y # bs) \<longleftrightarrow> \<not> (snd (snd x) \<and> snd (snd y)) \<and> merged (y # bs)"
| "merged _ \<longleftrightarrow> True"

definition counts_ok :: "mem_info \<Rightarrow> blk list \<Rightarrow> bool" where
  "counts_ok info bs \<longleftrightarrow> mi_used_bytes info = sum_list (map snd (useds bs)) \<and> mi_used_block_nr info = length (useds bs)"

lemma hd0_simps [simp]: "hd0 [] n = n" "hd0 (a # as) n = a" "hd0 (as @ bs) n = hd0 as (hd0 bs n)"
  by (auto simp: hd0_def split: list.splits)

lemma last0_simps [simp]: "last0 [] p = p" "last0 (a # as) p = last0 as a" "last0 (as @ bs) p = last0 bs (last0 as p)"
  by (auto simp: last0_def)

lemma lseg_append [simp]: "lseg m p (as @ bs) n \<longleftrightarrow> lseg m p as (hd0 bs n) \<and> lseg m (last0 as p) bs n"
  by (induction as arbitrary: p) auto

lemma tiles_append [simp]: "tiles a (us @ vs) e \<longleftrightarrow> (\<exists>b. tiles a us b \<and> tiles b vs e)"
  by (induction us arbitrary: a) auto

lemma frees_append [simp]: "frees (us @ vs) = frees us @ frees vs"
  by (induction us rule: frees.induct) auto

lemma useds_append [simp]: "useds (us @ vs) = useds us @ useds vs"
  by (induction us rule: useds.induct) auto

lemma tiles_bounds: "tiles a bs e \<Longrightarrow> a \<le> e \<and> (\<forall>(b, s, f) \<in> set bs. a \<le> b \<and> b + s \<le> e \<and> 24 \<le> s)"
  by (induction bs arbitrary: a rule: frees.induct) fastforce+

lemma frees_in: "a \<in> set (frees bs) \<longleftrightarrow> (\<exists>s. (a, s, True) \<in> set bs)"
  by (induction bs rule: frees.induct) auto

lemma useds_in: "(a, s) \<in> set (useds bs) \<longleftrightarrow> (a, s, False) \<in> set bs"
  by (induction bs rule: useds.induct) auto

lemma tiles_apart:
  assumes "tiles a bs e" and "(b, s, f) \<in> set bs" and "(c, t, g) \<in> set bs"
  shows "(b, s, f) = (c, t, g) \<or> b + s \<le> c \<or> c + t \<le> b"
  using assms
proof (induction bs arbitrary: a rule: frees.induct)
  case (2 x n h bs)
  then have "tiles (x + n) bs e" "24 \<le> n" "x = a" by auto
  then show ?case using 2 tiles_bounds[of "x + n" bs e] by fastforce
qed simp


section \<open>Writing the links\<close>

lemma lseg_cong:
  "(\<And>a. a \<in> set as \<Longrightarrow> nd_prev m' a = nd_prev m a \<and> nd_next m' a = nd_next m a) \<Longrightarrow> lseg m' p as n \<longleftrightarrow> lseg m p as n"
  by (induction as arbitrary: p) auto

text \<open>The link of the last node of a run to what comes after, and of the first to what comes before.\<close>

definition link_last :: "mem \<Rightarrow> ptr list \<Rightarrow> ptr \<Rightarrow> mem" where
  "link_last m as n = (if as = [] then m else w_next m (last as) n)"

definition link_first :: "mem \<Rightarrow> ptr list \<Rightarrow> ptr \<Rightarrow> mem" where
  "link_first m as p = (if as = [] then m else w_prev m (hd as) p)"

definition nodes_apart :: "ptr set \<Rightarrow> bool" where
  "nodes_apart A \<longleftrightarrow> (\<forall>a \<in> A. \<forall>b \<in> A. apart a b)"

lemma nodes_apartD: "nodes_apart A \<Longrightarrow> a \<in> A \<Longrightarrow> b \<in> A \<Longrightarrow> apart a b"
  by (simp add: nodes_apart_def)

lemma link_last_lseg:
  assumes "nodes_apart (set as)" and "distinct as" and "n' < 2 ^ 64" and "lseg m p as n"
  shows "lseg (link_last m as n') p as n'"
proof (cases as rule: rev_cases)
  case (snoc bs a)
  have other: "apart a b" "a \<noteq> b" if "b \<in> set bs" for b using assms(1,2) snoc that by (auto simp: nodes_apart_def)
  have "lseg (w_next m a n') p bs a \<longleftrightarrow> lseg m p bs a" by (rule lseg_cong) (use other in simp)
  then show ?thesis using assms(3,4) snoc by (simp add: link_last_def)
qed (simp add: link_last_def)

lemma link_first_lseg:
  assumes "nodes_apart (set as)" and "distinct as" and "p' < 2 ^ 64" and "lseg m p as n"
  shows "lseg (link_first m as p') p' as n"
proof (cases as)
  case (Cons a bs)
  have other: "apart a b" "a \<noteq> b" if "b \<in> set bs" for b using assms(1,2) Cons that by (auto simp: nodes_apart_def)
  have "lseg (w_prev m a p') a bs n \<longleftrightarrow> lseg m a bs n" by (rule lseg_cong) (use other in simp)
  then show ?thesis using assms(3,4) Cons by (simp add: link_first_def)
qed (simp add: link_first_def)

lemma link_fields:
  assumes "\<And>a. a \<in> set as \<Longrightarrow> apart a b"
  shows "nd_size (link_last m as n) b = nd_size m b" and "nd_prev (link_last m as n) b = nd_prev m b"
    and "nd_size (link_first m as n) b = nd_size m b" and "nd_next (link_first m as n) b = nd_next m b"
    and "b \<notin> set as \<Longrightarrow> nd_next (link_last m as n) b = nd_next m b" and "b \<notin> set as \<Longrightarrow> nd_prev (link_first m as n) b = nd_prev m b"
  using assms by (auto simp: link_last_def link_first_def)

lemma link_lseg_other:
  assumes "nodes_apart (set as \<union> set bs)" and "set as \<inter> set bs = {}"
  shows "lseg (link_last m as x) p bs n \<longleftrightarrow> lseg m p bs n" and "lseg (link_first m as x) p bs n \<longleftrightarrow> lseg m p bs n"
proof -
  have ap: "apart a b \<and> b \<notin> set as" if "a \<in> set as" "b \<in> set bs" for a b using assms that by (auto simp: nodes_apart_def)
  have b: "nd_prev (link_last m as x) b = nd_prev m b \<and> nd_next (link_last m as x) b = nd_next m b \<and>
      nd_prev (link_first m as x) b = nd_prev m b \<and> nd_next (link_first m as x) b = nd_next m b" if b: "b \<in> set bs" for b
  proof -
    have "b \<notin> set as" using b assms(2) by auto
    then show ?thesis using link_fields[of as b m x] ap[OF _ b] by blast
  qed
  then show "lseg (link_last m as x) p bs n \<longleftrightarrow> lseg m p bs n" "lseg (link_first m as x) p bs n \<longleftrightarrow> lseg m p bs n"
    by (auto intro!: lseg_cong)
qed

lemma size_lseg_other: "nodes_apart (insert b (set as)) \<Longrightarrow> lseg (w_size m b v) p as n \<longleftrightarrow> lseg m p as n"
  by (rule lseg_cong) (simp add: nodes_apart_def)

lemma link_bytes:
  "(\<And>a. a \<in> set as \<Longrightarrow> x < a \<or> a + 24 \<le> x) \<Longrightarrow> link_last m as n x = m x \<and> link_first m as n x = m x"
proof -
  assume "\<And>a. a \<in> set as \<Longrightarrow> x < a \<or> a + 24 \<le> x"
  then have "as \<noteq> [] \<Longrightarrow> x < last as \<or> last as + 24 \<le> x" "as \<noteq> [] \<Longrightarrow> x < hd as \<or> hd as + 24 \<le> x" by simp_all
  then show "link_last m as n x = m x \<and> link_first m as n x = m x" using node_bytes by (auto simp: link_last_def link_first_def)
qed

lemma set_link:
  assumes "\<And>a. a \<in> set as \<Longrightarrow> node_ok info a"
  shows "(if last0 as NULL \<noteq> NULL then set_next info m (last0 as NULL) v else Some m) = Some (link_last m as v)"
    and "(if hd0 as NULL \<noteq> NULL then set_prev info m (hd0 as NULL) v else Some m) = Some (link_first m as v)"
proof -
  have "as \<noteq> [] \<Longrightarrow> node_ok info (last as) \<and> last as \<noteq> NULL \<and> node_ok info (hd as) \<and> hd as \<noteq> NULL"
    using assms[of "last as"] assms[of "hd as"] by (simp add: node_ok_def)
  then show "(if last0 as NULL \<noteq> NULL then set_next info m (last0 as NULL) v else Some m) = Some (link_last m as v)"
    and "(if hd0 as NULL \<noteq> NULL then set_prev info m (hd0 as NULL) v else Some m) = Some (link_first m as v)"
    by (cases as; simp add: last0_def link_last_def link_first_def set_next_def set_prev_def)+
qed

section \<open>What the blocks of a heap are\<close>

lemma heap_blocks:
  assumes "heap_ok info m bs" and "(a, s, f) \<in> set bs"
  shows "node_ok info a" and "0 < a" and "a < 2 ^ 64" and "24 \<le> s" and "s < 2 ^ 32" and "nd_size m a = s"
    and "mi_buffer info \<le> a" and "a + s \<le> mi_buffer info + mi_size info"
proof -
  have "mi_buffer info \<le> a \<and> a + s \<le> mi_buffer info + mi_size info \<and> 24 \<le> s"
    using assms tiles_bounds unfolding heap_ok_def by fastforce
  then show "node_ok info a" "0 < a" "a < 2 ^ 64" "24 \<le> s" "s < 2 ^ 32" "nd_size m a = s" "mi_buffer info \<le> a" "a + s \<le> mi_buffer info + mi_size info"
    using assms by (auto simp: heap_ok_def node_ok_def MIN_SIZE_def)
qed

lemma heap_apart:
  assumes "heap_ok info m bs"
  shows "nodes_apart (fst ` set bs)"
proof -
  have t: "tiles (mi_buffer info) bs (mi_buffer info + mi_size info)" using assms by (simp add: heap_ok_def)
  have "apart a b" if "(a, s, f) \<in> set bs" "(b, t, g) \<in> set bs" for a s f b t g
    using tiles_apart[OF t that] heap_blocks(4)[OF assms that(1)] heap_blocks(4)[OF assms that(2)]
    by (auto simp: apart_def)
  then show ?thesis by (fastforce simp: nodes_apart_def)
qed

lemma frees_sub: "set (frees bs) \<subseteq> fst ` set bs"
  using frees_in by force

lemma nodes_apart_sub: "nodes_apart A \<Longrightarrow> B \<subseteq> A \<Longrightarrow> nodes_apart B"
  by (auto simp: nodes_apart_def)

lemma tiles_sorted: "tiles a bs e \<Longrightarrow> sorted_wrt (<) (map fst bs) \<and> (\<forall>b \<in> fst ` set bs. a \<le> b)"
proof (induction a bs e rule: tiles.induct)
  case (2 a b s f bs e)
  then have "sorted_wrt (<) (map fst bs)" "\<forall>b \<in> fst ` set bs. a + s \<le> b" "24 \<le> s" "b = a" by auto
  then show ?case by fastforce
qed simp

lemma frees_sorted:
  assumes "tiles a bs e"
  shows "sorted_wrt (<) (frees bs)" and "distinct (frees bs)"
proof -
  have "sorted_wrt (<) (frees bs)"
    using assms
  proof (induction a bs e rule: tiles.induct)
    case (2 a b s f bs e)
    then have t: "tiles (a + s) bs e" "24 \<le> s" "b = a" "sorted_wrt (<) (frees bs)" by auto
    have "\<forall>c \<in> set (frees bs). b < c" using tiles_sorted[OF t(1)] frees_sub[of bs] t(2,3) by fastforce
    then show ?case using t(4) by simp
  qed simp
  then show "sorted_wrt (<) (frees bs)" "distinct (frees bs)" by (simp_all add: strict_sorted_iff)
qed

lemma find_fit_eq:
  assumes "lseg m p as NULL" and "\<And>a. a \<in> set as \<Longrightarrow> node_ok info a"
  shows "find_fit info m sz (hd0 as NULL) = Some (case find (\<lambda>a. sz \<le> nd_size m a) as of None \<Rightarrow> NULL | Some a \<Rightarrow> a)"
  using assms
proof (induction as arbitrary: p)
  case Nil
  then show ?case by (simp add: find_fit.simps)
next
  case (Cons a as)
  then have a: "a \<noteq> NULL" "node_ok info a" "nd_next m a = hd0 as NULL" by (auto simp: node_ok_def)
  have "find_fit info m sz (hd0 as NULL) = Some (case find (\<lambda>a. sz \<le> nd_size m a) as of None \<Rightarrow> NULL | Some a \<Rightarrow> a)"
    by (rule Cons.IH[of a]) (use Cons.prems in auto)
  then show ?case using a by (subst find_fit.simps) simp
qed


section \<open>Taking a block\<close>

text \<open>The bytes of the blocks in use are no concern of the writes to free ones.\<close>

definition keeps_used :: "mem \<Rightarrow> mem \<Rightarrow> (ptr \<times> nat) set \<Rightarrow> bool" where
  "keeps_used m m' us \<longleftrightarrow> (\<forall>(b, t) \<in> us. \<forall>x. b \<le> x \<and> x < b + t \<longrightarrow> m' x = m x)"

lemma keeps_used_trans: "keeps_used m m' A \<Longrightarrow> keeps_used m' m'' A \<Longrightarrow> keeps_used m m'' A"
  by (fastforce simp: keeps_used_def)

text \<open>Both runs of the list take up new ends.\<close>

definition relink :: "mem \<Rightarrow> ptr list \<Rightarrow> ptr \<Rightarrow> ptr list \<Rightarrow> ptr \<Rightarrow> mem" where
  "relink m as x bs y = link_first (link_last m as x) bs y"

lemma relink_lseg:
  assumes "nodes_apart (set as \<union> set bs)" and "distinct as" "distinct bs" "set as \<inter> set bs = {}" and "x' < 2 ^ 64" "y' < 2 ^ 64"
    and "lseg m p as x" and "lseg m y bs n"
  shows "lseg (relink m as x' bs y') p as x'" and "lseg (relink m as x' bs y') y' bs n"
proof -
  have ap: "nodes_apart (set as)" "nodes_apart (set bs)" "nodes_apart (set bs \<union> set as)" "set bs \<inter> set as = {}"
    using assms(1,4) by (auto simp: nodes_apart_def)
  have "lseg (link_last m as x') p as x'" by (rule link_last_lseg[OF ap(1) assms(2,5,7)])
  then show "lseg (relink m as x' bs y') p as x'" unfolding relink_def link_lseg_other(2)[OF ap(3,4)] .
  have "lseg (link_last m as x') y bs n" unfolding link_lseg_other(1)[OF assms(1,4)] by (rule assms(8))
  then show "lseg (relink m as x' bs y') y' bs n" unfolding relink_def by (rule link_first_lseg[OF ap(2) assms(3,6)])
qed

lemma relink_size: "(\<And>a. a \<in> set as \<union> set bs \<Longrightarrow> apart a b) \<Longrightarrow> nd_size (relink m as x bs y) b = nd_size m b"
  using link_fields(1)[of as b m x] link_fields(3)[of bs b "link_last m as x" y] by (auto simp: relink_def)

lemma relink_other:
  assumes "\<And>a. a \<in> set as \<union> set bs \<Longrightarrow> apart a b" and "b \<notin> set as \<union> set bs"
  shows "nd_next (relink m as x bs y) b = nd_next m b" and "nd_prev (relink m as x bs y) b = nd_prev m b"
  using assms link_fields[of as b m x] link_fields[of bs b "link_last m as x" y] by (auto simp: relink_def)

lemma relink_bytes: "(\<And>a. a \<in> set as \<union> set bs \<Longrightarrow> x < a \<or> a + 24 \<le> x) \<Longrightarrow> relink m as v bs w x = m x"
  using link_bytes[of as x m v] link_bytes[of bs x "link_last m as v" w] by (auto simp: relink_def)

text \<open>A heap around one of its free blocks.\<close>

lemma heap_split:
  assumes h: "heap_ok info m (us @ (a, s, True) # vs)"
  shows "mi_free_list info = hd0 (frees us @ a # frees vs) NULL"
    and "lseg m NULL (frees us) a" and "nd_prev m a = last0 (frees us) NULL" and "nd_next m a = hd0 (frees vs) NULL" and "lseg m a (frees vs) NULL"
    and "distinct (frees us @ a # frees vs)" and "distinct (frees us)" "distinct (frees vs)" "set (frees us) \<inter> set (frees vs) = {}"
    and "\<And>b. b \<in> set (frees us @ a # frees vs) \<Longrightarrow> node_ok info b \<and> b < 2 ^ 64 \<and> b \<noteq> NULL"
    and "hd0 (frees vs) NULL < 2 ^ 64" and "last0 (frees us) NULL < 2 ^ 64" and "nodes_apart (set (frees us) \<union> set (frees vs))"
    and "\<And>b c. b \<in> set (frees us @ a # frees vs) \<Longrightarrow> c \<in> fst ` set (us @ (a, s, True) # vs) \<Longrightarrow> apart b c"
    and "\<And>b n x c. (b, n) \<in> set (useds (us @ (a, s, True) # vs)) \<Longrightarrow> b \<le> x \<Longrightarrow> x < b + n \<Longrightarrow> c \<in> set (frees us @ a # frees vs) \<Longrightarrow> x < c \<or> c + 24 \<le> x"
proof -
  let ?bs = "us @ (a, s, True) # vs" and ?fu = "frees us" and ?fv = "frees vs"
  have t: "tiles (mi_buffer info) ?bs (mi_buffer info + mi_size info)" and ls: "lseg m NULL (?fu @ a # ?fv) NULL"
    using h by (simp_all add: heap_ok_def)
  show "mi_free_list info = hd0 (?fu @ a # ?fv) NULL" using h by (simp add: heap_ok_def)
  show "lseg m NULL ?fu a" "nd_prev m a = last0 ?fu NULL" "nd_next m a = hd0 ?fv NULL" "lseg m a ?fv NULL" using ls by simp_all
  show d: "distinct (?fu @ a # ?fv)" using frees_sorted(2)[OF t] by simp
  then show "distinct ?fu" "distinct ?fv" "set ?fu \<inter> set ?fv = {}" by auto
  have inb: "\<exists>s. (b, s, True) \<in> set ?bs" if "b \<in> set (?fu @ a # ?fv)" for b using frees_in[of b ?bs] that by simp
  show ok: "node_ok info b \<and> b < 2 ^ 64 \<and> b \<noteq> NULL" if "b \<in> set (?fu @ a # ?fv)" for b
    using inb[OF that] heap_blocks(1,2,3)[OF h] by blast
  show "hd0 ?fv NULL < 2 ^ 64" using ok by (cases ?fv) auto
  show "last0 ?fu NULL < 2 ^ 64" using ok[of "last ?fu"] by (cases "?fu = []") (auto simp: last0_def)
  show ap: "apart b c" if "b \<in> set (?fu @ a # ?fv)" "c \<in> fst ` set ?bs" for b c
    by (rule nodes_apartD[OF heap_apart[OF h] _ that(2)]) (use inb[OF that(1)] in force)
  show "nodes_apart (set ?fu \<union> set ?fv)" by (rule nodes_apart_sub[OF heap_apart[OF h]]) (use frees_sub[of us] frees_sub[of vs] in auto)
  show "x < c \<or> c + 24 \<le> x" if b: "(b, n) \<in> set (useds ?bs)" and x: "b \<le> x" "x < b + n" and c: "c \<in> set (?fu @ a # ?fv)" for b n x c
  proof -
    obtain k where k: "(c, k, True) \<in> set ?bs" using inb[OF c] by blast
    have "(b, n, False) \<in> set ?bs" using b useds_in by blast
    from tiles_apart[OF t this k] show ?thesis using heap_blocks(4)[OF h k] x by auto
  qed
qed

lemma node_ok_free_list [simp]: "node_ok (info\<lparr>mi_free_list := x\<rparr>) b = node_ok info b"
  by (simp add: node_ok_def)

text \<open>The same buffer cut otherwise.\<close>

lemma heap_recut:
  assumes "heap_ok info m bs" and "\<And>e. tiles (mi_buffer info) bs e \<Longrightarrow> tiles (mi_buffer info) bs' e"
    and "\<And>a s f. (a, s, f) \<in> set bs' \<Longrightarrow> nd_size m' a = s"
    and "fl = hd0 (frees bs') NULL" and "lseg m' NULL (frees bs') NULL"
  shows "heap_ok (info\<lparr>mi_free_list := fl\<rparr>) m' bs'"
proof -
  have "\<forall>(a, s, f) \<in> set bs'. nd_size m' a = s" using assms(3) by blast
  then show ?thesis using assms(1,2,4,5) unfolding heap_ok_def by simp
qed

lemma heap_size: "heap_ok info m bs \<Longrightarrow> (a, s, f) \<in> set bs \<Longrightarrow> nd_size m a = s"
  by (rule heap_blocks(6))

lemma take_whole_ok:
  assumes h: "heap_ok info m (us @ (a, s, True) # vs)"
  shows "\<exists>m'. take_whole info m a = Some (info\<lparr>mi_free_list := hd0 (frees us @ frees vs) NULL\<rparr>, m') \<and>
    heap_ok (info\<lparr>mi_free_list := hd0 (frees us @ frees vs) NULL\<rparr>) m' (us @ (a, s, False) # vs) \<and>
    keeps_used m m' (set (useds (us @ (a, s, True) # vs)))"
proof -
  let ?bs = "us @ (a, s, True) # vs" and ?fu = "frees us" and ?fv = "frees vs"
  let ?info = "info\<lparr>mi_free_list := hd0 (?fu @ ?fv) NULL\<rparr>"
  note hs = heap_split[OF h]
  have head: "(if mi_free_list info = a then info\<lparr>mi_free_list := nd_next m a\<rparr> else info) = ?info"
    using hs(1,4,6) by (cases ?fu) auto
  let ?m1 = "link_last m ?fu (hd0 ?fv NULL)"
  let ?m2 = "relink m ?fu (hd0 ?fv NULL) ?fv (last0 ?fu NULL)"
  have "apart b a" if "b \<in> set ?fu" for b by (rule hs(14)) (use that in auto)
  then have f1: "nd_next ?m1 a = nd_next m a" "nd_prev ?m1 a = nd_prev m a" using link_fields[of ?fu a m "hd0 ?fv NULL"] hs(6) by auto
  have w1: "(if nd_prev m a \<noteq> NULL then set_next ?info m (nd_prev m a) (nd_next m a) else Some m) = Some ?m1"
    unfolding hs(3,4) by (rule set_link(1)) (use hs(10) in auto)
  have w2: "(if nd_next ?m1 a \<noteq> NULL then set_prev ?info ?m1 (nd_next ?m1 a) (nd_prev ?m1 a) else Some ?m1) = Some ?m2"
    unfolding f1 hs(3,4) relink_def by (rule set_link(2)) (use hs(10) in auto)
  have run: "take_whole info m a = Some (?info, ?m2)"
    unfolding take_whole_def head Let_def w1 Option.bind.bind_lunit w2 ..
  have sz: "nd_size ?m2 b = nd_size m b" if "b \<in> fst ` set ?bs" for b by (rule relink_size) (use hs(14) that in auto)
  have "lseg ?m2 NULL ?fu (hd0 ?fv NULL)" "lseg ?m2 (last0 ?fu NULL) ?fv NULL"
    by (rule relink_lseg[OF hs(13,7,8,9,11,12,2,5)])+
  then have ls: "lseg ?m2 NULL (frees (us @ (a, s, False) # vs)) NULL" by simp
  have "heap_ok ?info ?m2 (us @ (a, s, False) # vs)"
  proof (rule heap_recut[OF h _ _ _ ls])
    show "nd_size ?m2 b = n" if "(b, n, f) \<in> set (us @ (a, s, False) # vs)" for b n f
    proof -
      have "(b, n, True) \<in> set ?bs \<or> (b, n, False) \<in> set ?bs" using that by (cases f) auto
      then obtain g where g: "(b, n, g) \<in> set ?bs" by blast
      have "b \<in> fst ` set ?bs" using imageI[OF g, of fst] by simp
      then show ?thesis using sz[of b] heap_size[OF h g] by simp
    qed
  qed auto
  moreover have "keeps_used m ?m2 (set (useds ?bs))"
    using hs(15) by (auto simp: keeps_used_def intro!: relink_bytes)
  ultimately show ?thesis using run by blast
qed


text \<open>The rest of a free block takes its place in the list.\<close>

lemma take_part_ok:
  assumes h: "heap_ok info m (us @ (a, s, True) # vs)" and sz: "24 \<le> sz" "sz + 24 \<le> s"
  shows "\<exists>info' m'. take_part info m sz a = Some (info', m') \<and> info' = info\<lparr>mi_free_list := hd0 (frees us) (a + sz)\<rparr> \<and>
    heap_ok info' m' (us @ (a, sz, False) # (a + sz, s - sz, True) # vs) \<and>
    keeps_used m m' (set (useds (us @ (a, s, True) # vs)))"
proof -
  let ?bs = "us @ (a, s, True) # vs" and ?fu = "frees us" and ?fv = "frees vs" and ?n = "a + sz"
  let ?info = "info\<lparr>mi_free_list := hd0 ?fu ?n\<rparr>" and ?bs' = "us @ (a, sz, False) # (a + sz, s - sz, True) # vs"
  note hs = heap_split[OF h]
  have inb: "(a, s, True) \<in> set ?bs" by simp
  note ha = heap_blocks[OF h inb]
  have n: "?n < 2 ^ 64" "?n \<noteq> NULL" "node_ok info ?n"
    using ha sz h by (auto simp: node_ok_def MIN_SIZE_def heap_ok_def)
  have nc: "apart ?n c \<and> ?n \<noteq> c" if c: "c \<in> fst ` set ?bs" for c
  proof -
    obtain t g where t: "(c, t, g) \<in> set ?bs" using c by (metis imageE prod.collapse)
    have "(a, s, True) = (c, t, g) \<or> a + s \<le> c \<or> c + t \<le> a"
      by (rule tiles_apart[OF _ inb t, of "mi_buffer info" "mi_buffer info + mi_size info"]) (use h in \<open>simp add: heap_ok_def\<close>)
    then show ?thesis using heap_blocks(4)[OF h t] sz by (auto simp: apart_def)
  qed
  have sub: "set ?fu \<union> set ?fv \<subseteq> fst ` set ?bs" using frees_sub[of us] frees_sub[of vs] by auto
  have an: "apart c ?n" "c \<noteq> ?n" if "c \<in> set ?fu \<union> set ?fv" for c using nc[of c] sub that by (auto simp: apart_def)
  have na: "apart ?n a" "?n \<noteq> a" using nc[of a] by force+
  let ?m1 = "w_size m ?n (s - sz)"
  let ?m2 = "w_next ?m1 ?n (hd0 ?fv NULL)"
  let ?m3 = "w_prev ?m2 ?n (last0 ?fu NULL)"
  let ?m4 = "link_last ?m3 ?fu ?n"
  let ?m5 = "relink ?m3 ?fu ?n ?fv ?n"
  let ?m6 = "w_size ?m5 a sz"
  have fields: "nd_next ?m3 c = (if c = ?n then hd0 ?fv NULL else nd_next m c)" "nd_prev ?m3 c = (if c = ?n then last0 ?fu NULL else nd_prev m c)"
    "nd_size ?m3 c = (if c = ?n then s - sz else nd_size m c)" if "apart ?n c" for c
    using that hs(11,12) ha(5) by auto
  have fa: "apart b a" if "b \<in> set ?fu \<union> set ?fv" for b by (rule hs(14)) (use that in auto)
  have f4: "nd_next ?m4 a = hd0 ?fv NULL" "nd_prev ?m4 a = last0 ?fu NULL"
    using link_fields(2,5)[of ?fu a ?m3 ?n] fa hs(6) fields(1,2)[OF na(1)] na(2) hs(3,4) by auto
  have w1: "set_size info m ?n (nd_size m a - sz) = Some ?m1" using n(3) ha(6) by (simp add: set_size_def)
  have w2: "set_next info ?m1 ?n (nd_next ?m1 a) = Some ?m2" using n(3) na hs(4) by (simp add: set_next_def)
  have w3: "set_prev info ?m2 ?n (nd_prev ?m2 a) = Some ?m3" using n(3) na hs(3) by (simp add: set_prev_def)
  have f3: "nd_prev ?m3 a = last0 ?fu NULL" using fields(2)[OF na(1)] na(2) hs(3) by simp
  have w4: "(if nd_prev ?m3 a \<noteq> NULL then set_next info ?m3 (nd_prev ?m3 a) ?n else Some ?m3) = Some ?m4"
    unfolding f3 by (rule set_link(1)) (use hs(10) in auto)
  have w5: "(if nd_next ?m4 a \<noteq> NULL then set_prev info ?m4 (nd_next ?m4 a) ?n else Some ?m4) = Some ?m5"
    unfolding f4 relink_def by (rule set_link(2)) (use hs(10) in auto)
  have w6: "set_size info ?m5 a sz = Some ?m6" using ha(1) by (simp add: set_size_def)
  have head: "(if mi_free_list info = a then info\<lparr>mi_free_list := ?n\<rparr> else info) = ?info"
    using hs(1,6) by (cases ?fu) auto
  have run: "take_part info m sz a = Some (?info, ?m6)"
    unfolding take_part_def Let_def w1 Option.bind.bind_lunit w2 w3 w4 w5 w6 head ..
  have ls: "lseg ?m3 p as q \<longleftrightarrow> lseg m p as q" if "set as \<subseteq> set ?fu \<union> set ?fv" for p as q
    by (rule lseg_cong) (use that nc sub fields in \<open>metis subsetD\<close>)
  have "lseg ?m3 NULL ?fu a" "lseg ?m3 a ?fv NULL" using hs(2,5) ls by auto
  from relink_lseg[OF hs(13,7,8,9) n(1) n(1) this]
  have l5: "lseg ?m5 NULL ?fu ?n" "lseg ?m5 ?n ?fv NULL" .
  have n5: "nd_next ?m5 ?n = hd0 ?fv NULL" "nd_prev ?m5 ?n = last0 ?fu NULL"
    using relink_other[of ?fu ?fv ?n ?m3 ?n ?n] an fields(1,2)[of ?n] by (auto simp: apart_def)
  have l6: "lseg ?m6 p as q \<longleftrightarrow> lseg ?m5 p as q" if "set as \<subseteq> insert ?n (set ?fu \<union> set ?fv)" for p as q
  proof (rule lseg_cong)
    fix c assume "c \<in> set as"
    then have "apart a c" using that fa[of c] na by (auto simp: apart_def)
    then show "nd_prev ?m6 c = nd_prev ?m5 c \<and> nd_next ?m6 c = nd_next ?m5 c" by simp
  qed
  have links: "lseg ?m6 NULL (frees ?bs') NULL"
  proof -
    have "lseg ?m5 NULL (?fu @ ?n # ?fv) NULL" using l5 n5 by simp
    then show ?thesis using l6[of "?fu @ ?n # ?fv"] by simp
  qed
  have sizes: "nd_size ?m6 c = t" if c: "(c, t, g) \<in> set ?bs'" for c t g
  proof -
    have a5: "nd_size ?m5 d = nd_size ?m3 d" if "\<And>b. b \<in> set ?fu \<union> set ?fv \<Longrightarrow> apart b d" for d
      by (rule relink_size) (use that in auto)
    consider "c = a" "t = sz" | "c = ?n" "t = s - sz" | "(c, t, g) \<in> set us \<union> set vs" using c by auto
    then show ?thesis
    proof cases
      case 1
      have "sz < 2 ^ 32" using sz ha(5) by simp
      then show ?thesis using 1 by simp
    next
      case 2
      have "nd_size ?m5 ?n = s - sz" using a5[of ?n] an fields(3)[of ?n] by (auto simp: apart_def)
      then show ?thesis using 2 na by (simp add: apart_def)
    next
      case 3
      then have inc: "(c, t, g) \<in> set ?bs" by auto
      then have cb: "c \<in> fst ` set ?bs" by force
      have ca: "c \<noteq> a" using tiles_sorted[of "mi_buffer info" ?bs "mi_buffer info + mi_size info"] h 3
        by (fastforce simp: heap_ok_def sorted_wrt_append)
      have "apart a c" by (rule nodes_apartD[OF heap_apart[OF h] _ cb]) force
      moreover have "nd_size ?m5 c = nd_size ?m3 c" by (rule a5) (use hs(14)[OF _ cb] in auto)
      ultimately show ?thesis using ca fields(3)[of c] nc[OF cb] heap_size[OF h inc] by simp
    qed
  qed
  have hp: "heap_ok ?info ?m6 ?bs'"
  proof (rule heap_recut[OF h _ sizes _ links])
    show "tiles (mi_buffer info) ?bs' e" if "tiles (mi_buffer info) ?bs e" for e
      using that sz by (auto simp: add.assoc)
  qed auto
  have "keeps_used m ?m6 (set (useds ?bs))"
    unfolding keeps_used_def
  proof (clarify)
    fix b t x assume b: "(b, t) \<in> set (useds ?bs)" "b \<le> x" "x < b + t"
    have far: "x < c \<or> c + 24 \<le> x" if "c \<in> set ?fu \<union> set ?fv" for c by (rule hs(15)[OF b]) (use that in auto)
    have "(b, t, False) \<in> set ?bs" using b(1) useds_in by blast
    then have "a + s \<le> b \<or> b + t \<le> a"
      using tiles_apart[OF _ inb, of "mi_buffer info" "mi_buffer info + mi_size info" b t False] h by (auto simp: heap_ok_def)
    then have xa: "x < a \<or> a + s \<le> x" using b by auto
    have "?m6 x = ?m5 x" using xa sz by (intro node_bytes(1)) auto
    also have "\<dots> = ?m3 x" by (rule relink_bytes) (use far in auto)
    also have "\<dots> = ?m2 x" by (rule node_bytes(3)) (use xa sz in auto)
    also have "\<dots> = ?m1 x" by (rule node_bytes(2)) (use xa sz in auto)
    also have "\<dots> = m x" by (rule node_bytes(1)) (use xa sz in auto)
    finally show "?m6 x = m x" .
  qed
  then show ?thesis using run hp by blast
qed


section \<open>Allocating\<close>

text \<open>What is left of an invariant when the free list and the counts are set.\<close>

lemma heap_info_eq:
  "mi_buffer info' = mi_buffer info \<Longrightarrow> mi_size info' = mi_size info \<Longrightarrow> mi_free_list info' = mi_free_list info \<Longrightarrow> heap_ok info' m bs = heap_ok info m bs"
  by (simp add: heap_ok_def)

lemma count_used_fields [simp]:
  "mi_buffer (count_used info n) = mi_buffer info" "mi_size (count_used info n) = mi_size info" "mi_free_list (count_used info n) = mi_free_list info"
  "mi_used_bytes (count_used info n) = u32 (mi_used_bytes info + n)" "mi_used_block_nr (count_used info n) = u32 (mi_used_block_nr info + 1)"
  by (simp_all add: count_used_def Let_def)

lemma block_size_bounds:
  assumes "s < 4294967284"
  shows "s + 4 \<le> block_size s" and "24 \<le> block_size s" and "block_size s < s + 12 \<or> block_size s = 24" and "block_size s < 2 ^ 32" and "8 dvd block_size s"
proof -
  let ?r = "real_size (s + 4)"
  have r: "?r = max 24 (s + 4)" by (simp add: real_size_def MIN_SIZE_def)
  have b: "block_size s = (?r + 7) div 8 * 8"
    using assms r by (simp add: block_size_def round_to_mach_def u32_def)
  show "s + 4 \<le> block_size s" "24 \<le> block_size s" "block_size s < s + 12 \<or> block_size s = 24" "8 dvd block_size s"
    unfolding b r by (auto simp: max_def)
  show "block_size s < 2 ^ 32" unfolding b r using assms by simp
qed

lemma tiles_total: "tiles a bs e \<Longrightarrow> e = a + sum_list (map (\<lambda>(b, s, f). s) bs)"
  by (induction a bs e rule: tiles.induct) auto

lemma useds_total: "sum_list (map snd (useds bs)) \<le> sum_list (map (\<lambda>(b, s, f). s) bs) \<and> 24 * length (useds bs) \<le> sum_list (map (\<lambda>(b, s, f). s) bs)"
  if "\<forall>(b, s, f) \<in> set bs. 24 \<le> s"
  using that by (induction bs rule: useds.induct) auto

lemma heap_used_bounds:
  assumes "heap_ok info m bs"
  shows "sum_list (map snd (useds bs)) < 2 ^ 32" and "length (useds bs) < 2 ^ 32 - 1"
proof -
  have "\<forall>(b, s, f) \<in> set bs. 24 \<le> s" using heap_blocks(4)[OF assms] by blast
  note u = useds_total[OF this]
  have "sum_list (map (\<lambda>(b, s, f). s) bs) = mi_size info" "mi_size info < 2 ^ 32"
    using assms tiles_total unfolding heap_ok_def by fastforce+
  then show "sum_list (map snd (useds bs)) < 2 ^ 32" "length (useds bs) < 2 ^ 32 - 1" using u by auto
qed

lemma merged_split: "merged (us @ (a, s, True) # vs) \<Longrightarrow> merged (us @ (a, t, False) # vs) \<and> merged (us @ (a, t, False) # (b, n, True) # vs)"
proof (induction us rule: merged.induct)
  case "2_2"
  then show ?case by (cases vs) auto
next
  case "2_1"
  then show ?case by (cases vs) auto
qed auto

lemma find_frees:
  assumes "find (\<lambda>a. n \<le> nd_size m a) (frees bs) = Some a" and "\<forall>(b, s, f) \<in> set bs. nd_size m b = s"
  shows "\<exists>us s vs. bs = us @ (a, s, True) # vs \<and> n \<le> s"
proof -
  have "a \<in> set (frees bs)" "n \<le> nd_size m a" using assms(1) by (auto simp: find_Some_iff)
  then obtain s where s: "(a, s, True) \<in> set bs" using frees_in by blast
  then obtain us vs where "bs = us @ (a, s, True) # vs" by (meson split_list)
  then show ?thesis using \<open>n \<le> nd_size m a\<close> assms(2) s by fastforce
qed

text \<open>A well-formed allocator.\<close>

definition mem_inv :: "mem_info \<Rightarrow> mem \<Rightarrow> blk list \<Rightarrow> bool" where
  "mem_inv info m bs \<longleftrightarrow> heap_ok info m bs \<and> merged bs \<and> counts_ok info bs"

text \<open>
  An allocation returns NULL and changes nothing when no free block is large enough, or it turns one
  into a block in use (and a free rest).
\<close>

lemma alloc_ok:
  assumes inv: "mem_inv info m bs" and s: "s < 4294967284"
  shows "\<exists>p info' m' bs'. tk_alloc_impl info m s = Some (p, info', m') \<and> mem_inv info' m' bs' \<and>
    mi_buffer info' = mi_buffer info \<and> mi_size info' = mi_size info \<and> keeps_used m m' (set (useds bs)) \<and>
    (if p = NULL then info' = info \<and> m' = m \<and> bs' = bs \<and> (\<forall>a n. (a, n, True) \<in> set bs \<longrightarrow> n < block_size s)
     else \<exists>us vs n t rest. bs = us @ (p - 4, n, True) # vs \<and> bs' = us @ (p - 4, t, False) # rest @ vs \<and> useds rest = [] \<and> 4 < p \<and> block_size s \<le> t \<and> t < block_size s + 24 \<and> t \<le> n)"
proof -
  have h: "heap_ok info m bs" and mg: "merged bs" and cn: "counts_ok info bs" using inv by (simp_all add: mem_inv_def)
  let ?sz = "block_size s"
  have bsz: "24 \<le> ?sz" "?sz < 2 ^ 32" using block_size_bounds[of s] s by auto
  have ls: "lseg m NULL (frees bs) NULL" and fl: "mi_free_list info = hd0 (frees bs) NULL" and szs: "\<forall>(b, s, f) \<in> set bs. nd_size m b = s"
    using h by (simp_all add: heap_ok_def)
  have ok: "node_ok info a" if "a \<in> set (frees bs)" for a using that frees_in heap_blocks(1)[OF h] by blast
  have find: "find_fit info m ?sz (mi_free_list info) = Some (case find (\<lambda>a. ?sz \<le> nd_size m a) (frees bs) of None \<Rightarrow> NULL | Some a \<Rightarrow> a)"
    unfolding fl by (rule find_fit_eq[OF ls ok])
  show ?thesis
  proof (cases "find (\<lambda>a. ?sz \<le> nd_size m a) (frees bs)")
    case None
    have "n < ?sz" if a: "(a, n, True) \<in> set bs" for a n
    proof -
      have "a \<in> set (frees bs)" using a frees_in by blast
      then have "\<not> ?sz \<le> nd_size m a" using None by (auto simp: find_None_iff)
      then show ?thesis using heap_size[OF h a] by simp
    qed
    then show ?thesis using None find inv by (auto simp: tk_alloc_impl_def Let_def keeps_used_def)
  next
    case (Some a)
    then obtain us n vs where bs: "bs = us @ (a, n, True) # vs" "?sz \<le> n" using find_frees szs by blast
    have inb: "(a, n, True) \<in> set bs" using bs(1) by simp
    note ha = heap_blocks[OF h inb]
    have h': "heap_ok info m (us @ (a, n, True) # vs)" using h bs(1) by simp
    have run: "tk_alloc_impl info m s = Option.bind (if n < ?sz + 24 then take_whole info m a else take_part info m ?sz a) (\<lambda>(info, m).
        Some (a + 4, count_used info (nd_size m a), m))"
      using Some find ha bsz by (simp add: tk_alloc_impl_def Let_def MIN_SIZE_def u32_def)
    have goal: "?thesis" if part: "(if n < ?sz + 24 then take_whole info m a else take_part info m ?sz a) = Some (info1, m1)"
      and hp: "heap_ok info1 m1 (us @ (a, t, False) # rest @ vs)" and f: "info1 = info\<lparr>mi_free_list := x\<rparr>"
      and k: "keeps_used m m1 (set (useds bs))" and t: "?sz \<le> t" "t < ?sz + 24" "t \<le> n" and r: "useds rest = []" "merged (us @ (a, t, False) # rest @ vs)"
    for info1 m1 t rest x
    proof -
      let ?bs' = "us @ (a, t, False) # rest @ vs"
      have na: "nd_size m1 a = t" by (rule heap_size[OF hp, of a t False]) simp
      have u: "mi_used_bytes info + t = sum_list (map snd (useds ?bs'))" "mi_used_block_nr info + 1 = length (useds ?bs')"
        using cn bs(1) r(1) by (simp_all add: counts_ok_def)
      have "heap_ok (count_used info1 t) m1 ?bs'" using hp heap_info_eq[of "count_used info1 t" info1] by simp
      moreover have "counts_ok (count_used info1 t) ?bs'"
        using u heap_used_bounds[OF hp] f by (simp add: counts_ok_def u32_def)
      ultimately have "mem_inv (count_used info1 t) m1 ?bs'" using r(2) by (simp add: mem_inv_def)
      moreover have "tk_alloc_impl info m s = Some (a + 4, count_used info1 t, m1)" unfolding run part using na by simp
      moreover have "\<exists>us' vs' n' t' rest'. bs = us' @ (a + 4 - 4, n', True) # vs' \<and> ?bs' = us' @ (a + 4 - 4, t', False) # rest' @ vs' \<and>
          useds rest' = [] \<and> 4 < a + 4 \<and> ?sz \<le> t' \<and> t' < ?sz + 24 \<and> t' \<le> n'"
        using t r(1) bs(1) ha(2) by (intro exI[of _ us] exI[of _ vs] exI[of _ n] exI[of _ t] exI[of _ rest]) simp
      ultimately show ?thesis using k f
        by (intro exI[of _ "a + 4"] exI[of _ "count_used info1 t"] exI[of _ m1] exI[of _ ?bs']) auto
    qed
    show ?thesis
    proof (cases "n < ?sz + 24")
      case True
      obtain m1 where w: "take_whole info m a = Some (info\<lparr>mi_free_list := hd0 (frees us @ frees vs) NULL\<rparr>, m1)"
        "heap_ok (info\<lparr>mi_free_list := hd0 (frees us @ frees vs) NULL\<rparr>) m1 (us @ (a, n, False) # vs)" "keeps_used m m1 (set (useds bs))"
        using take_whole_ok[OF h'] bs(1) by blast
      show ?thesis
        by (rule goal[of "info\<lparr>mi_free_list := hd0 (frees us @ frees vs) NULL\<rparr>" m1 n "[]", OF _ _ refl])
           (use w True bs mg merged_split in auto)
    next
      case False
      obtain info1 m1 where w: "take_part info m ?sz a = Some (info1, m1)" "info1 = info\<lparr>mi_free_list := hd0 (frees us) (a + ?sz)\<rparr>"
        "heap_ok info1 m1 (us @ (a, ?sz, False) # (a + ?sz, n - ?sz, True) # vs)" "keeps_used m m1 (set (useds bs))"
        using take_part_ok[OF h' bsz(1)] False bs(1) by auto
      show ?thesis
        by (rule goal[of info1 m1 ?sz "[(a + ?sz, n - ?sz, True)]", OF _ _ w(2)])
           (use w False bs mg merged_split[of us a n vs] in auto)
    qed
  qed
qed


section \<open>Releasing\<close>

text \<open>The place in the list.\<close>

lemma insert_skip:
  assumes "lseg m p (as @ bs) NULL" and "bs \<noteq> []" and "hd bs \<noteq> NULL" and "\<And>b. b \<in> set as \<Longrightarrow> b < c \<and> node_ok info b"
  shows "insert_loop info m c (hd0 (as @ bs) NULL) = insert_loop info m c (hd bs)"
  using assms(1,4)
proof (induction as arbitrary: p)
  case Nil
  then show ?case using assms(2) by (cases bs) auto
next
  case (Cons a as)
  then have a: "a < c" "node_ok info a" "a \<noteq> NULL" "nd_next m a = hd0 (as @ bs) NULL" by (auto simp: node_ok_def)
  have ne: "hd0 (as @ bs) NULL \<noteq> NULL"
    using Cons.prems(2) assms(2,3) by (cases as; cases bs) (auto simp: node_ok_def)
  have "insert_loop info m c (hd0 (as @ bs) NULL) = insert_loop info m c (hd bs)"
    by (rule Cons.IH[of a]) (use Cons.prems in auto)
  then show ?case using a ne by (subst insert_loop.simps) auto
qed

lemma insert_last:
  assumes "lseg m p as NULL" and "as \<noteq> []" and "node_ok info c" and "\<And>b. b \<in> set as \<Longrightarrow> b < c \<and> node_ok info b"
  shows "insert_loop info m c (hd as) = Some (info, w_prev (w_next m (last as) c) c (last as))"
  using assms(1,2,4)
proof (induction as arbitrary: p)
  case (Cons a as)
  then have a: "a < c" "node_ok info a" "a \<noteq> NULL" "nd_next m a = hd0 as NULL" by (auto simp: node_ok_def)
  show ?case
  proof (cases as)
    case Nil
    then show ?thesis using a assms(3) by (subst insert_loop.simps) (simp add: set_next_def set_prev_def)
  next
    case (Cons b bs)
    then have b: "b \<noteq> NULL" "nd_next m a = b" using Cons.prems(3)[of b] a(4) by (auto simp: node_ok_def)
    have "insert_loop info m c (hd as) = Some (info, w_prev (w_next m (last as) c) c (last as))"
      by (rule Cons.IH[of a]) (use Cons.prems Cons in auto)
    then show ?thesis using a b Cons by (subst insert_loop.simps) simp
  qed
qed simp

text \<open>The writes that \<open>P\<close> allows: to the links of these nodes.\<close>

definition only_links :: "ptr set \<Rightarrow> mem \<Rightarrow> mem \<Rightarrow> bool" where
  "only_links A m m' \<longleftrightarrow> (\<forall>b. (\<forall>a \<in> A. apart a b) \<longrightarrow> nd_size m' b = nd_size m b) \<and> (\<forall>x. (\<forall>a \<in> A. x < a \<or> a + 24 \<le> x) \<longrightarrow> m' x = m x)"

lemma only_links_refl: "only_links A m m"
  by (simp add: only_links_def)

lemma only_links_next: "only_links A m m' \<Longrightarrow> a \<in> A \<Longrightarrow> only_links A m (w_next m' a v)"
  using node_bytes(2) by (simp add: only_links_def)

lemma only_links_prev: "only_links A m m' \<Longrightarrow> a \<in> A \<Longrightarrow> only_links A m (w_prev m' a v)"
  using node_bytes(3) by (simp add: only_links_def)

lemma only_links_last: "only_links A m m' \<Longrightarrow> set as \<subseteq> A \<Longrightarrow> only_links A m (link_last m' as v)"
  by (cases "as = []") (simp_all add: link_last_def only_links_next subset_iff)

lemma only_links_first: "only_links A m m' \<Longrightarrow> set as \<subseteq> A \<Longrightarrow> only_links A m (link_first m' as v)"
  by (cases "as = []") (simp_all add: link_first_def only_links_prev subset_iff)

lemma insert_ok:
  assumes ls: "lseg m NULL (fu @ fv) NULL" and ne: "fu @ fv \<noteq> []" and fl: "mi_free_list info = hd0 (fu @ fv) NULL"
    and ap: "nodes_apart (set (fu @ c # fv))" and d: "distinct (fu @ c # fv)"
    and lt: "\<And>b. b \<in> set fu \<Longrightarrow> b < c" "\<And>b. b \<in> set fv \<Longrightarrow> c < b"
    and ok: "\<And>b. b \<in> set (fu @ c # fv) \<Longrightarrow> node_ok info b \<and> b < 2 ^ 64" and c0: "nd_next m c = NULL"
  shows "\<exists>m'. insert_loop info m c (mi_free_list info) = Some (info\<lparr>mi_free_list := hd0 fu c\<rparr>, m') \<and>
    lseg m' NULL (fu @ c # fv) NULL \<and> only_links (set (fu @ c # fv)) m m'"
proof -
  have apc: "apart c b" "apart b c" if "b \<in> set fu \<union> set fv" for b using that ap by (auto simp: nodes_apart_def)
  have apf: "nodes_apart (set fu)" "nodes_apart (set fv)" "nodes_apart (set fu \<union> set fv)" "nodes_apart (set fv \<union> set fu)"
    using ap by (auto simp: nodes_apart_def)
  have okc: "node_ok info c" "c < 2 ^ 64" using ok by auto
  show ?thesis
  proof (cases fv)
    case Nil
    then have fu: "fu \<noteq> []" using ne by simp
    have l: "last fu \<in> set fu" using fu by simp
    let ?m1 = "w_next m (last fu) c" and ?m = "w_prev (w_next m (last fu) c) c (last fu)"
    have "insert_loop info m c (hd fu) = Some (info, ?m)"
      by (rule insert_last[OF _ fu okc(1)]) (use ls Nil lt ok in auto)
    moreover have "hd fu = mi_free_list info" "info\<lparr>mi_free_list := hd0 fu c\<rparr> = info" using fl Nil fu by (cases fu; simp)+
    moreover have "lseg ?m1 NULL fu c" using link_last_lseg[OF apf(1) _ okc(2), of m NULL NULL] ls Nil d fu by (simp add: link_last_def)
    then have "lseg ?m NULL fu c" by (subst lseg_cong[of fu ?m ?m1]) (use apc d in auto)
    moreover have "nd_next ?m c = NULL" "nd_prev ?m c = last fu" using c0 apc(2)[of "last fu"] l d Nil ok[of "last fu"] by auto
    then have "lseg ?m NULL (fu @ c # fv) NULL" using \<open>lseg ?m NULL fu c\<close> Nil fu by (simp add: last0_def)
    moreover have "only_links (set (fu @ c # fv)) m ?m"
      by (intro only_links_prev only_links_next only_links_refl) (use l in auto)
    ultimately show ?thesis by auto
  next
    case (Cons y ys)
    have cy: "c < y" using Cons lt(2) by simp
    then have y0: "y \<noteq> NULL" by simp
    have y: "y \<in> set fv" "y \<noteq> NULL" "c < y" "node_ok info y" "y < 2 ^ 64" "hd fv = y" "fv \<noteq> []"
      subgoal using Cons by simp
      subgoal by (rule y0)
      subgoal by (rule cy)
      subgoal using Cons ok[of y] by simp
      subgoal using Cons ok[of y] by simp
      using Cons by simp_all
    have lfu: "lseg m NULL fu y" "nd_prev m y = last0 fu NULL" "lseg m (last0 fu NULL) fv NULL" using ls Cons by auto
    have l64: "last0 fu NULL < 2 ^ 64" using ok[of "last fu"] by (cases "fu = []") (auto simp: last0_def)
    let ?m1 = "w_next m c y"
    let ?m2 = "w_prev ?m1 c (last0 fu NULL)"
    let ?m4 = "relink ?m2 fu c fv c"
    have yc: "apart c y" "c \<noteq> y" "y \<notin> set fu" using apc y(1) d by auto
    have p1: "nd_prev ?m1 y = last0 fu NULL" "nd_prev ?m2 y = last0 fu NULL" using yc lfu(2) by auto
    have w1: "set_next info m c y = Some ?m1" "set_prev info ?m1 c (nd_prev ?m1 y) = Some ?m2" using okc p1 by (simp_all add: set_next_def set_prev_def)
    have w2: "(if nd_prev ?m2 y \<noteq> NULL then set_next info ?m2 (nd_prev ?m2 y) c else Some ?m2) = Some (link_last ?m2 fu c)"
      unfolding p1 by (rule set_link(1)) (use ok in auto)
    have w3: "set_prev info (link_last ?m2 fu c) y c = Some ?m4"
      using y by (simp add: set_prev_def relink_def link_first_def)
    have head: "(if mi_free_list info = y then info\<lparr>mi_free_list := c\<rparr> else info) = info\<lparr>mi_free_list := hd0 fu c\<rparr>"
      using fl Cons yc(3) by (cases fu) auto
    have "insert_loop info m c (mi_free_list info) = insert_loop info m c y"
      unfolding fl y(6)[symmetric] by (rule insert_skip[OF ls y(7)]; use y(6) y0 lt(1) ok in fastforce)
    also have "\<dots> = Some (info\<lparr>mi_free_list := hd0 fu c\<rparr>, ?m4)"
      by (subst insert_loop.simps) (simp only: y(2,3,4) if_True if_False not_True_eq_False w1 w2 w3 head Option.bind.bind_lunit)
    finally have run: "insert_loop info m c (mi_free_list info) = Some (info\<lparr>mi_free_list := hd0 fu c\<rparr>, ?m4)" .
    have same: "lseg ?m2 p as n \<longleftrightarrow> lseg m p as n" if "set as \<subseteq> set fu \<union> set fv" for p as n
    proof (rule lseg_cong)
      fix b assume "b \<in> set as"
      then have "apart c b" "c \<noteq> b" using that apc d by auto
      then show "nd_prev ?m2 b = nd_prev m b \<and> nd_next ?m2 b = nd_next m b" by simp
    qed
    have l2: "lseg ?m2 NULL fu y" "lseg ?m2 (last0 fu NULL) fv NULL" using same[of fu] same[of fv] lfu by auto
    have l4: "lseg ?m4 NULL fu c" "lseg ?m4 c fv NULL"
      by (rule relink_lseg[OF apf(3) _ _ _ okc(2) okc(2) l2]; use d in auto)+
    have f4: "nd_next ?m4 c = y" "nd_prev ?m4 c = last0 fu NULL"
      using relink_other[of fu fv c ?m2 c c] apc d l64 y(5) by auto
    have "lseg ?m4 NULL (fu @ c # fv) NULL" using l4 f4 Cons by simp
    moreover have "only_links (set (fu @ c # fv)) m ?m4" unfolding relink_def
      by (intro only_links_first only_links_last only_links_prev only_links_next only_links_refl) auto
    ultimately show ?thesis using run by blast
  qed
qed


text \<open>Neighbours of the list that touch are neighbours in the heap.\<close>

lemma touch_last:
  assumes "tiles a us e" and "(p, n, f) \<in> set us" and "p + n = e"
  shows "\<exists>us'. us = us' @ [(p, n, f)]"
proof -
  obtain xs ys where us: "us = xs @ (p, n, f) # ys" using assms(2) by (meson split_list)
  then have "tiles (p + n) ys e" using assms(1) by auto
  have "ys = []"
  proof (rule ccontr)
    assume "ys \<noteq> []"
    then obtain q k g zs where "ys = (q, k, g) # zs" by (metis list.exhaust prod_cases3)
    then show False using \<open>tiles (p + n) ys e\<close> tiles_bounds[of "p + n" ys e] assms(3) by fastforce
  qed
  then show ?thesis using us by blast
qed

lemma touch_first:
  assumes "tiles e vs b" and "(q, n, f) \<in> set vs" and "q = e"
  shows "\<exists>vs'. vs = (q, n, f) # vs'"
proof (cases vs)
  case (Cons v vs')
  obtain r k g where v: "v = (r, k, g)" by (cases v)
  then have t: "tiles (e + k) vs' b" "24 \<le> k" "r = e" using assms(1) Cons by auto
  have "(q, n, f) \<notin> set vs'" using tiles_bounds[OF t(1)] t(2) assms(3) by fastforce
  then show ?thesis using assms(2) Cons by auto
qed (use assms in simp)

lemma merge2_ok:
  assumes h: "heap_ok info m (us @ (p, n, True) # (c, s, True) # vs)"
  shows "\<exists>m'. node_merge2 info m p c = Some (info, m') \<and> heap_ok info m' (us @ (p, n + s, True) # vs) \<and>
    keeps_used m m' (set (useds (us @ (p, n, True) # (c, s, True) # vs)))"
proof -
  let ?bs = "us @ (p, n, True) # (c, s, True) # vs" and ?bs' = "us @ (p, n + s, True) # vs" and ?fu = "frees us" and ?fv = "frees vs"
  have h2: "heap_ok info m ((us @ [(p, n, True)]) @ (c, s, True) # vs)" using h by simp
  note hp = heap_split[OF h] and hc = heap_split[OF h2]
  have inb: "(p, n, True) \<in> set ?bs" "(c, s, True) \<in> set ?bs" by auto
  note bp = heap_blocks[OF h inb(1)] and bc = heap_blocks[OF h inb(2)]
  have t: "tiles (mi_buffer info) ?bs (mi_buffer info + mi_size info)" using h by (simp add: heap_ok_def)
  then have pc: "c = p + n" by auto
  have ns: "n + s < 2 ^ 32" using bc(8) bp(7) pc h by (simp add: heap_ok_def)
  have link: "nd_next m p = c" "nd_next m c = hd0 ?fv NULL" using hp(4) hc(4) by simp_all
  let ?m1 = "w_next m p (hd0 ?fv NULL)"
  let ?m2 = "link_first ?m1 ?fv p"
  let ?m3 = "w_size ?m2 p (n + s)"
  have dist: "p \<notin> set ?fu" "p \<notin> set ?fv" "p \<noteq> c" "distinct ?fu" "distinct ?fv" "set ?fu \<inter> set ?fv = {}" using hp(6) by auto
  have app: "apart p b" "apart b p" if "b \<in> fst ` set ?bs" for b
    using hp(14)[of p b] that by (auto simp: apart_def)
  have sub: "set ?fu \<union> set ?fv \<subseteq> fst ` set ?bs" using frees_sub[of us] frees_sub[of vs] by auto
  have cb: "c \<in> fst ` set ?bs" by force
  have fc: "nd_next ?m1 c = hd0 ?fv NULL" using app(1)[OF cb] dist(3) link(2) by simp
  have apv: "apart b c" if "b \<in> set ?fv" for b by (rule hc(14)[OF _ ]) (use that in auto)
  have w1: "set_next info m p (nd_next m c) = Some ?m1" using bp(1) link by (simp add: set_next_def)
  have w2: "(if nd_next ?m1 c \<noteq> NULL then set_prev info ?m1 (nd_next ?m1 c) p else Some ?m1) = Some ?m2"
    unfolding fc by (rule set_link(2)) (use hp(10) in auto)
  have sz: "nd_size ?m2 b = nd_size m b" if "b \<in> fst ` set ?bs" for b
  proof -
    have "apart a b" if "a \<in> set ?fv" for a by (rule hp(14)) (use that \<open>b \<in> fst ` set ?bs\<close> in auto)
    then have "nd_size ?m2 b = nd_size ?m1 b" by (rule link_fields(3))
    then show ?thesis using app(1)[OF that] by simp
  qed
  have "nd_size ?m2 p = n" "nd_size ?m2 c = s" using sz[of p] sz[OF cb] bp(6) bc(6) by force+
  then have w3: "set_size info ?m2 p (u32 (nd_size ?m2 p + nd_size ?m2 c)) = Some ?m3" using bp(1) ns by (simp add: set_size_def u32_def)
  have head: "(if mi_free_list info = c then info\<lparr>mi_free_list := p\<rparr> else info) = info"
    using hp(1) hc(6) by (cases ?fu) auto
  have run: "node_merge2 info m p c = Some (info, ?m3)"
    unfolding node_merge2_def using bp(1,2) bc(1,2) link(1) by (simp only: w1 w2 w3 head Option.bind.bind_lunit) simp
  have pf: "nd_prev ?m1 a = nd_prev m a \<and> nd_next ?m1 a = nd_next m a" if "a \<in> set ?fu \<union> set ?fv" for a
  proof -
    have "apart p a" "p \<noteq> a" using app(1)[of a] sub dist that by auto
    then show ?thesis by simp
  qed
  have ls1: "lseg ?m1 x as y \<longleftrightarrow> lseg m x as y" if "set as \<subseteq> set ?fu \<union> set ?fv" for x as y
    by (rule lseg_cong) (use pf that in blast)
  have "lseg ?m1 c ?fv NULL" using ls1[of ?fv] hc(5) by simp
  then have l2: "lseg ?m2 p ?fv NULL"
    by (intro link_first_lseg[of ?fv p]) (use nodes_apart_sub[OF hp(13)] dist bp(3) in auto)
  have "lseg ?m1 NULL ?fu p" using ls1[of ?fu] hp(2) by simp
  moreover have "nodes_apart (set ?fv \<union> set ?fu)" by (rule nodes_apart_sub[OF hp(13)]) auto
  ultimately have l1: "lseg ?m2 NULL ?fu p" using link_lseg_other(2)[of ?fv ?fu ?m1 p] dist by auto
  have avp: "apart a p" if "a \<in> set ?fv" for a using app(2)[of a] sub that by auto
  have f2: "nd_next ?m2 p = hd0 ?fv NULL" "nd_prev ?m2 p = last0 ?fu NULL"
    using link_fields(4,6)[OF avp, of "?fv" ?m1 p] dist hp(3) hc(11) by auto
  have "lseg ?m2 NULL (?fu @ p # ?fv) NULL" using l1 l2 f2 by simp
  then have links: "lseg ?m3 NULL (frees ?bs') NULL"
  proof -
    assume l: "lseg ?m2 NULL (?fu @ p # ?fv) NULL"
    have "nd_prev ?m3 a = nd_prev ?m2 a \<and> nd_next ?m3 a = nd_next ?m2 a" if "a \<in> set (?fu @ p # ?fv)" for a
    proof -
      have "apart p a" using app(1)[of a] sub that inb(1) by (auto simp: apart_def)
      then show ?thesis by simp
    qed
    then have "lseg ?m3 NULL (?fu @ p # ?fv) NULL \<longleftrightarrow> lseg ?m2 NULL (?fu @ p # ?fv) NULL" by (rule lseg_cong)
    then show ?thesis using l by simp
  qed
  have sizes: "nd_size ?m3 b = k" if b: "(b, k, g) \<in> set ?bs'" for b k g
  proof (cases "b = p")
    case True
    have t': "tiles (mi_buffer info) ?bs' (mi_buffer info + mi_size info)" using t by (auto simp: add.assoc)
    have "(p, n + s, True) \<in> set ?bs'" by simp
    from tiles_apart[OF t' b this] have "k = n + s" using True tiles_bounds[OF t'] b by fastforce
    then show ?thesis using True ns by simp
  next
    case False
    then have inb: "(b, k, g) \<in> set ?bs" using b by auto
    then have "b \<in> fst ` set ?bs" by force
    then show ?thesis using app(1) False sz heap_size[OF h inb] by simp
  qed
  have "heap_ok (info\<lparr>mi_free_list := mi_free_list info\<rparr>) ?m3 ?bs'"
  proof (rule heap_recut[OF h _ sizes _ links])
    show "tiles (mi_buffer info) ?bs' e" if "tiles (mi_buffer info) ?bs e" for e using that by (auto simp: add.assoc)
    show "mi_free_list info = hd0 (frees ?bs') NULL" using hp(1) by simp
  qed
  moreover have "keeps_used m ?m3 (set (useds ?bs))"
    unfolding keeps_used_def
  proof (clarify)
    fix b k x assume b: "(b, k) \<in> set (useds ?bs)" "b \<le> x" "x < b + k"
    have far: "x < a \<or> a + 24 \<le> x" if "a \<in> set (p # ?fv)" for a by (rule hp(15)[OF b]) (use that in auto)
    have "?m3 x = ?m2 x" by (rule node_bytes(1)) (use far in auto)
    also have "\<dots> = ?m1 x" using link_bytes[of ?fv x ?m1 p] far by auto
    also have "\<dots> = m x" by (rule node_bytes(2)) (use far in auto)
    finally show "?m3 x = m x" .
  qed
  ultimately show ?thesis using run by auto
qed


text \<open>Whether the block at the end of a run, or at its start, is free.\<close>

definition last_free :: "blk list \<Rightarrow> bool" where
  "last_free us \<longleftrightarrow> us \<noteq> [] \<and> snd (snd (last us))"

definition first_free :: "blk list \<Rightarrow> bool" where
  "first_free vs \<longleftrightarrow> vs \<noteq> [] \<and> snd (snd (hd vs))"

lemma no_frees: "frees us = [] \<Longrightarrow> \<not> last_free us \<and> \<not> first_free us"
proof -
  assume "frees us = []"
  then have n: "b \<notin> set us" if "snd (snd b)" for b
    using frees_in[of "fst b" us] that by (cases b) auto
  show "\<not> last_free us \<and> \<not> first_free us"
    using n[of "last us"] n[of "hd us"] by (auto simp: last_free_def first_free_def)
qed

lemma merged_free: "merged (us @ (a, s, True) # vs) \<longleftrightarrow> merged us \<and> merged vs \<and> \<not> last_free us \<and> \<not> first_free vs"
proof (induction us rule: merged.induct)
  case "2_1"
  then show ?case by (cases vs) (auto simp: last_free_def first_free_def)
next
  case "2_2"
  then show ?case by (cases vs) (auto simp: last_free_def first_free_def)
qed (auto simp: last_free_def first_free_def)

lemma merged_used: "merged (us @ (a, s, False) # vs) \<longleftrightarrow> merged us \<and> merged vs"
proof (induction us rule: merged.induct)
  case "2_1"
  then show ?case by (cases vs) auto
next
  case "2_2"
  then show ?case by (cases vs) auto
qed auto

lemma prev_no_touch:
  assumes h: "heap_ok info m (us @ (c, s, True) # vs)" and "\<not> last_free us" and p0: "last0 (frees us) NULL \<noteq> NULL"
  shows "node_ok info (last0 (frees us) NULL) \<and> last0 (frees us) NULL + nd_size m (last0 (frees us) NULL) \<noteq> c"
proof -
  let ?p = "last0 (frees us) NULL"
  have t: "tiles (mi_buffer info) us c" using h by (auto simp: heap_ok_def)
  have "frees us \<noteq> []" using p0 by (auto simp: last0_def)
  then have inu: "?p \<in> set (frees us)" by (simp add: last0_def)
  then obtain n where n: "(?p, n, True) \<in> set us" using frees_in by blast
  have "?p + n \<noteq> c"
  proof
    assume "?p + n = c"
    then obtain us' where us: "us = us' @ [(?p, n, True)]" using touch_last[OF t n] by blast
    have "last us = (?p, n, True)" by (subst us) (rule last_snoc)
    moreover have "us \<noteq> []" using n by auto
    ultimately show False using assms(2) by (simp add: last_free_def)
  qed
  then show ?thesis using heap_size[OF h, of ?p n True] n heap_split(10)[OF h, of ?p] inu by simp
qed

lemma merge_none:
  assumes h: "heap_ok info m (us @ (c, s, True) # vs)" and "\<not> last_free us" "\<not> first_free vs"
  shows "node_merge info m c = Some (info, m)"
proof -
  let ?bs = "us @ (c, s, True) # vs"
  have inb: "(c, s, True) \<in> set ?bs" by simp
  note hs = heap_split[OF h] and bc = heap_blocks[OF h inb]
  have t: "tiles (mi_buffer info) ?bs (mi_buffer info + mi_size info)" using h by (simp add: heap_ok_def)
  then have tv: "tiles (c + s) vs (mi_buffer info + mi_size info)" by auto
  let ?q = "hd0 (frees vs) NULL"
  note P = prev_no_touch[OF h assms(2)]
  have Q: "c + s \<noteq> ?q" if q0: "?q \<noteq> NULL"
  proof
    assume e: "c + s = ?q"
    have "frees vs \<noteq> []" using q0 by auto
    then have "?q \<in> set (frees vs)" by (cases "frees vs") auto
    then obtain n where n: "(?q, n, True) \<in> set vs" using frees_in by blast
    obtain vs' where "vs = (?q, n, True) # vs'" using touch_first[OF tv n e[symmetric]] by blast
    then have "hd vs = (?q, n, True)" "vs \<noteq> []" by (metis list.sel(1)) (use n in auto)
    then show False using assms(3) by (simp add: first_free_def)
  qed
  show ?thesis
    by (subst node_merge.simps) (use P Q bc(1,6) hs(3,4) in \<open>cases "last0 (frees us) NULL = NULL"; cases "?q = NULL"; simp add: Let_def\<close>)
qed

lemma merge_next:
  assumes h: "heap_ok info m (us @ (c, s, True) # (q, n, True) # vs)" and "\<not> last_free us"
  shows "node_merge info m c = Option.bind (node_merge2 info m c q) (\<lambda>(info, m). node_merge info m c)"
proof -
  let ?bs = "us @ (c, s, True) # (q, n, True) # vs"
  have inb: "(c, s, True) \<in> set ?bs" "(q, n, True) \<in> set ?bs" by simp_all
  note hs = heap_split[OF h] and bc = heap_blocks[OF h inb(1)] and bq = heap_blocks[OF h inb(2)]
  have t: "tiles (mi_buffer info) ?bs (mi_buffer info + mi_size info)" using h by (simp add: heap_ok_def)
  then have q: "q = c + s" by auto
  note P = prev_no_touch[OF h assms(2)]
  show ?thesis
    by (subst node_merge.simps) (use P bc(1,6) bq(2) q hs(3,4) in \<open>cases "last0 (frees us) NULL = NULL"; simp add: Let_def\<close>)
qed

lemma merge_prev:
  assumes h: "heap_ok info m (us @ (p, n, True) # (c, s, True) # vs)"
  shows "node_merge info m c = Option.bind (node_merge2 info m p c) (\<lambda>(info, m). node_merge info m p)"
proof -
  let ?bs = "us @ (p, n, True) # (c, s, True) # vs"
  have h2: "heap_ok info m ((us @ [(p, n, True)]) @ (c, s, True) # vs)" using h by simp
  have inb: "(p, n, True) \<in> set ?bs" "(c, s, True) \<in> set ?bs" by simp_all
  note hs = heap_split[OF h2] and bp = heap_blocks[OF h inb(1)] and bc = heap_blocks[OF h inb(2)]
  have "tiles (mi_buffer info) ?bs (mi_buffer info + mi_size info)" using h by (simp add: heap_ok_def)
  then have c: "c = p + n" by auto
  have pv: "nd_prev m c = p" using hs(3) by simp
  show ?thesis
    by (subst node_merge.simps) (use pv bc(1) bp(1,2,6) c in \<open>simp add: Let_def\<close>)
qed


text \<open>The new free block grows to both sides, and no two free neighbours are left.\<close>

lemma node_merge_ok:
  assumes h: "heap_ok info m (us @ (c, s, True) # vs)" and mu: "merged us" and mv: "merged vs"
  shows "\<exists>m' bs'. node_merge info m c = Some (info, m') \<and> heap_ok info m' bs' \<and> merged bs' \<and> useds bs' = useds (us @ (c, s, True) # vs) \<and>
    keeps_used m m' (set (useds (us @ (c, s, True) # vs)))"
proof -
  have right: "\<exists>m' bs'. node_merge info m c = Some (info, m') \<and> heap_ok info m' bs' \<and> merged bs' \<and> useds bs' = useds (us @ (c, s, True) # vs) \<and>
      keeps_used m m' (set (useds (us @ (c, s, True) # vs)))"
    if h: "heap_ok info m (us @ (c, s, True) # vs)" and mu: "merged us" and lu: "\<not> last_free us" for m us c s
  proof (cases "first_free vs")
    case True
    then obtain q n vs' where vs: "vs = (q, n, True) # vs'" by (cases vs) (auto simp: first_free_def)
    then have mv': "merged vs'" "\<not> first_free vs'" using mv merged_free[of "[]" q n vs'] by simp_all
    obtain m1 where m1: "node_merge2 info m c q = Some (info, m1)" "heap_ok info m1 (us @ (c, s + n, True) # vs')"
      "keeps_used m m1 (set (useds (us @ (c, s, True) # vs)))" using merge2_ok h vs by blast
    have "node_merge info m c = Some (info, m1)"
      using merge_next[OF _ lu] h vs m1(1) merge_none[OF m1(2) lu mv'(2)] by simp
    moreover have "merged (us @ (c, s + n, True) # vs')" using merged_free mu mv' lu by blast
    moreover have "useds (us @ (c, s + n, True) # vs') = useds (us @ (c, s, True) # vs)" using vs by simp
    ultimately show ?thesis using m1(2,3) by blast
  next
    case False
    have "merged (us @ (c, s, True) # vs)" using merged_free mu mv lu False by blast
    moreover have "keeps_used m m (set (useds (us @ (c, s, True) # vs)))" by (auto simp: keeps_used_def)
    ultimately show ?thesis using merge_none[OF h lu False] h by blast
  qed
  show ?thesis
  proof (cases "last_free us")
    case False
    then show ?thesis using right[OF h mu] by blast
  next
    case True
    then obtain us' p n where us: "us = us' @ [(p, n, True)]" by (cases us rule: rev_cases) (auto simp: last_free_def)
    then have mu': "merged us'" "\<not> last_free us'" using mu merged_free[of us' p n "[]"] by (simp_all add: first_free_def)
    have h': "heap_ok info m (us' @ (p, n, True) # (c, s, True) # vs)" using h us by simp
    have U: "useds (us' @ (p, n + s, True) # vs) = useds (us @ (c, s, True) # vs)"
      "useds (us' @ (p, n, True) # (c, s, True) # vs) = useds (us @ (c, s, True) # vs)" using us by simp_all
    obtain m1 where m1: "node_merge2 info m p c = Some (info, m1)" "heap_ok info m1 (us' @ (p, n + s, True) # vs)"
      "keeps_used m m1 (set (useds (us @ (c, s, True) # vs)))" using merge2_ok[OF h'] U by auto
    obtain m' bs' where m': "node_merge info m1 p = Some (info, m')" "heap_ok info m' bs'" "merged bs'" "useds bs' = useds (us @ (c, s, True) # vs)"
      "keeps_used m1 m' (set (useds (us @ (c, s, True) # vs)))" using right[OF m1(2) mu'] U by auto
    have "node_merge info m c = Some (info, m')" using merge_prev[OF h'] m1(1) m'(1) by simp
    moreover have "keeps_used m m' (set (useds (us @ (c, s, True) # vs)))" using m1(3) m'(5) by (rule keeps_used_trans)
    ultimately show ?thesis using m'(2,3,4) by blast
  qed
qed


lemma only_links_trans: "only_links A m m' \<Longrightarrow> only_links A m' m'' \<Longrightarrow> only_links A m m''"
  by (simp add: only_links_def)

text \<open>The block in use becomes a free one with its place in the list.\<close>

lemma free_link:
  assumes h: "heap_ok info m (us @ (c, s, False) # vs)"
  shows "\<exists>m3. (if mi_free_list info = NULL then Some (info\<lparr>mi_free_list := c\<rparr>, w_next (w_prev m c NULL) c NULL)
      else insert_loop info (w_next (w_prev m c NULL) c NULL) c (mi_free_list info)) = Some (info\<lparr>mi_free_list := hd0 (frees us) c\<rparr>, m3) \<and>
    heap_ok (info\<lparr>mi_free_list := hd0 (frees us) c\<rparr>) m3 (us @ (c, s, True) # vs) \<and> keeps_used m m3 (set (useds us @ useds vs))"
proof -
  let ?bs = "us @ (c, s, False) # vs" and ?bs' = "us @ (c, s, True) # vs" and ?fu = "frees us" and ?fv = "frees vs"
  let ?m2 = "w_next (w_prev m c NULL) c NULL" and ?A = "set (frees us @ c # frees vs)"
  have t: "tiles (mi_buffer info) ?bs (mi_buffer info + mi_size info)" "tiles (mi_buffer info) ?bs' (mi_buffer info + mi_size info)"
    and ls: "lseg m NULL (?fu @ ?fv) NULL" and fl: "mi_free_list info = hd0 (?fu @ ?fv) NULL"
    using h by (auto simp: heap_ok_def)
  have inb: "(c, s, False) \<in> set ?bs" by simp
  have Asub: "?A \<subseteq> fst ` set ?bs" using frees_sub[of us] frees_sub[of vs] by auto
  have ap: "nodes_apart ?A" by (rule nodes_apart_sub[OF heap_apart[OF h] Asub])
  have srt: "sorted_wrt (<) (?fu @ c # ?fv)" and d: "distinct (?fu @ c # ?fv)" using frees_sorted[OF t(2)] by simp_all
  have lt: "\<And>b. b \<in> set ?fu \<Longrightarrow> b < c" "\<And>b. b \<in> set ?fv \<Longrightarrow> c < b" using srt by (auto simp: sorted_wrt_append)
  have ok: "node_ok info b \<and> b < 2 ^ 64" if b: "b \<in> ?A" for b
  proof -
    obtain y where y: "y \<in> set ?bs" "b = fst y" using b Asub by blast
    then have "(b, fst (snd y), snd (snd y)) \<in> set ?bs" by simp
    then show ?thesis using heap_blocks(1,3)[OF h] by blast
  qed
  have c2: "nd_next ?m2 c = NULL" "nd_prev ?m2 c = NULL" by simp_all
  have ls2: "lseg ?m2 NULL (?fu @ ?fv) NULL"
  proof -
    have "nd_prev ?m2 a = nd_prev m a \<and> nd_next ?m2 a = nd_next m a" if "a \<in> set (?fu @ ?fv)" for a
    proof -
      have "apart c a" "c \<noteq> a" using nodes_apartD[OF ap, of c a] d that by auto
      then show ?thesis by simp
    qed
    then have "lseg ?m2 NULL (?fu @ ?fv) NULL \<longleftrightarrow> lseg m NULL (?fu @ ?fv) NULL" by (rule lseg_cong)
    then show ?thesis using ls by simp
  qed
  have ins: "\<exists>m3. (if mi_free_list info = NULL then Some (info\<lparr>mi_free_list := c\<rparr>, ?m2)
      else insert_loop info ?m2 c (mi_free_list info)) = Some (info\<lparr>mi_free_list := hd0 ?fu c\<rparr>, m3) \<and>
    lseg m3 NULL (?fu @ c # ?fv) NULL \<and> only_links ?A ?m2 m3"
  proof (cases "?fu @ ?fv = []")
    case True
    then have "mi_free_list info = NULL" "?fu = []" "?fv = []" using fl by simp_all
    then show ?thesis using c2 only_links_refl[of ?A ?m2] by simp
  next
    case False
    then have "mi_free_list info \<in> set (?fu @ ?fv)" unfolding fl by (cases "?fu @ ?fv") (auto simp: hd0_def)
    then have "mi_free_list info \<noteq> NULL" using ok[of "mi_free_list info"] by (auto simp: node_ok_def)
    then show ?thesis using insert_ok[OF ls2 False fl ap d lt ok c2(1)] by simp
  qed
  then obtain m3 where m3: "(if mi_free_list info = NULL then Some (info\<lparr>mi_free_list := c\<rparr>, ?m2)
      else insert_loop info ?m2 c (mi_free_list info)) = Some (info\<lparr>mi_free_list := hd0 ?fu c\<rparr>, m3)"
    "lseg m3 NULL (?fu @ c # ?fv) NULL" "only_links ?A ?m2 m3" by blast
  have "only_links ?A m ?m2" by (intro only_links_next only_links_prev only_links_refl) simp_all
  then have ol: "only_links ?A m m3" using m3(3) by (rule only_links_trans)
  have "heap_ok (info\<lparr>mi_free_list := hd0 ?fu c\<rparr>) m3 ?bs'"
  proof (rule heap_recut[OF h])
    show "nd_size m3 b = n" if b: "(b, n, f) \<in> set ?bs'" for b n f
    proof -
      have "\<exists>g. (b, n, g) \<in> set ?bs" using b by auto
      then obtain g where g: "(b, n, g) \<in> set ?bs" by blast
      have "b \<in> fst ` set ?bs" using imageI[OF g, of fst] by simp
      then have "\<forall>a \<in> ?A. apart a b" using nodes_apartD[OF heap_apart[OF h]] Asub by blast
      then show ?thesis using ol heap_size[OF h g] by (simp add: only_links_def)
    qed
    show "lseg m3 NULL (frees ?bs') NULL" using m3(2) by simp
  qed auto
  moreover have "keeps_used m m3 (set (useds us @ useds vs))"
    unfolding keeps_used_def
  proof (clarify)
    fix b n x assume b: "(b, n) \<in> set (useds us @ useds vs)" "b \<le> x" "x < b + n"
    have "(b, n) \<in> set (useds ?bs')" using b(1) by simp
    then have inB: "(b, n, False) \<in> set ?bs'" using useds_in by blast
    have "x < a \<or> a + 24 \<le> x" if a: "a \<in> ?A" for a
    proof -
      have "a \<in> set (frees ?bs')" using a by simp
      then obtain k where k: "(a, k, True) \<in> set ?bs'" using frees_in by blast
      have "24 \<le> k" using tiles_bounds[OF t(2)] k by fastforce
      then show ?thesis using tiles_apart[OF t(2) inB k] b(2,3) by auto
    qed
    then show "m3 x = m x" using ol by (simp add: only_links_def)
  qed
  ultimately show ?thesis using m3(1) by blast
qed

lemma u32_sub: "x < 2 ^ 32 \<Longrightarrow> u32 (x + n + 2 ^ 32 - n) = x"
  by (simp add: u32_def)

text \<open>A block is released: it is free, together with its free neighbours.\<close>

lemma free_ok:
  assumes inv: "mem_inv info m (us @ (c, s, False) # vs)"
  shows "\<exists>info' m' bs'. tk_free_impl info m (c + 4) = Some (info', m') \<and> mem_inv info' m' bs' \<and> useds bs' = useds us @ useds vs \<and>
    mi_buffer info' = mi_buffer info \<and> mi_size info' = mi_size info \<and> keeps_used m m' (set (useds us @ useds vs))"
proof -
  let ?bs = "us @ (c, s, False) # vs" and ?m2 = "w_next (w_prev m c NULL) c NULL" and ?i = "info\<lparr>mi_free_list := hd0 (frees us) c\<rparr>"
  have h: "heap_ok info m ?bs" and mu: "merged us" "merged vs" and cn: "counts_ok info ?bs" using inv merged_used by (simp_all add: mem_inv_def)
  have inb: "(c, s, False) \<in> set ?bs" by simp
  note bc = heap_blocks[OF h inb]
  obtain m3 where m3: "(if mi_free_list info = NULL then Some (info\<lparr>mi_free_list := c\<rparr>, ?m2)
      else insert_loop info ?m2 c (mi_free_list info)) = Some (?i, m3)" "heap_ok ?i m3 (us @ (c, s, True) # vs)" "keeps_used m m3 (set (useds us @ useds vs))"
    using free_link[OF h] by blast
  have U: "useds (us @ (c, s, True) # vs) = useds us @ useds vs" by simp
  have "\<exists>m4 bs'. (if mi_free_list info = NULL then Some (info\<lparr>mi_free_list := c\<rparr>, ?m2)
      else Option.bind (insert_loop info ?m2 c (mi_free_list info)) (\<lambda>(info, m). node_merge info m c)) = Some (?i, m4) \<and>
      heap_ok ?i m4 bs' \<and> merged bs' \<and> useds bs' = useds us @ useds vs \<and> keeps_used m m4 (set (useds us @ useds vs))"
  proof (cases "mi_free_list info = NULL")
    case True
    have e: "a \<notin> set (frees ?bs)" for a
    proof
      assume a: "a \<in> set (frees ?bs)"
      have "hd0 (frees ?bs) NULL = NULL" using h True by (simp add: heap_ok_def)
      moreover have "hd0 F NULL \<in> set F" if "a \<in> set F" for F using that by (cases F) auto
      ultimately have "NULL \<in> set (frees ?bs)" using a by metis
      then obtain k where "(NULL, k, True) \<in> set ?bs" using frees_in by blast
      from heap_blocks(2)[OF h this] show False by simp
    qed
    have "frees us = []" by (cases "frees us") (use e in force)+
    moreover have "frees vs = []" by (cases "frees vs") (use e in force)+
    ultimately have "\<not> last_free us" "\<not> first_free vs" using no_frees by auto
    then have "merged (us @ (c, s, True) # vs)" using merged_free mu by blast
    then show ?thesis using True m3 U by auto
  next
    case False
    obtain m4 bs' where "node_merge ?i m3 c = Some (?i, m4)" "heap_ok ?i m4 bs'" "merged bs'" "useds bs' = useds us @ useds vs" "keeps_used m3 m4 (set (useds us @ useds vs))"
      using node_merge_ok[OF m3(2) mu] U by auto
    then show ?thesis using False m3(1) keeps_used_trans[OF m3(3)] by auto
  qed
  then obtain m4 bs' where m4: "(if mi_free_list info = NULL then Some (info\<lparr>mi_free_list := c\<rparr>, ?m2)
      else Option.bind (insert_loop info ?m2 c (mi_free_list info)) (\<lambda>(info, m). node_merge info m c)) = Some (?i, m4)"
      "heap_ok ?i m4 bs'" "merged bs'" "useds bs' = useds us @ useds vs" "keeps_used m m4 (set (useds us @ useds vs))" by blast
  let ?i' = "?i\<lparr>mi_used_block_nr := u32 (mi_used_block_nr ?i + 2 ^ 32 - 1), mi_used_bytes := u32 (mi_used_bytes ?i + 2 ^ 32 - s)\<rparr>"
  have w: "set_prev info m c NULL = Some (w_prev m c NULL)" "set_next info (w_prev m c NULL) c NULL = Some ?m2"
    using bc(1) by (simp_all add: set_prev_def set_next_def)
  have "c + 4 - 4 = c" "c + 4 \<noteq> NULL" by simp_all
  then have run: "tk_free_impl info m (c + 4) = Some (?i', m4)"
    unfolding tk_free_impl_def by (simp only: if_False Let_def w Option.bind.bind_lunit m4(1) prod.case bc(6))
  have "heap_ok ?i' m4 bs'" using m4(2) by (simp add: heap_ok_def)
  moreover have "counts_ok ?i' bs'"
  proof -
    have "mi_used_bytes info = sum_list (map snd (useds us @ useds vs)) + s" "mi_used_block_nr info = length (useds us @ useds vs) + 1"
      using cn by (simp_all add: counts_ok_def)
    then have "u32 (mi_used_bytes info + 2 ^ 32 - s) = sum_list (map snd (useds us @ useds vs))"
      "u32 (mi_used_block_nr info + 2 ^ 32 - 1) = length (useds us @ useds vs)"
      using heap_used_bounds[OF m4(2)] m4(4) by (simp_all only: u32_sub)
    then show ?thesis using m4(4) by (simp add: counts_ok_def)
  qed
  ultimately have "mem_inv ?i' m4 bs'" using m4(3) by (simp add: mem_inv_def)
  then show ?thesis using run m4(4,5) by (intro exI[of _ ?i'] exI[of _ m4] exI[of _ bs']) simp
qed

end
