(* ===== verification/MemAlloc.thy ===== *)
theory MemAlloc
  imports MemSimple
begin

text \<open>
  What the allocator of \<open>MemSimple\<close> promises its callers, as a locale over its operations, and the layers
  above it: the retries of \<open>src/src/tkc/mem_allocator_oom.h\<close> and the entry points of
  \<open>src/src/tkc/mem.c\<close>.

  The abstract specification is a heap of separate byte arrays, one per block in use; the refinement says
  that any legal request on the bytes of the buffer is a step of that heap.
\<close>

section \<open>The blocks in use\<close>

text \<open>The allocator with these blocks in use, by address of their header and size.\<close>

definition live :: "mem_info \<Rightarrow> mem \<Rightarrow> (ptr \<times> nat) set \<Rightarrow> bool" where
  "live info m U \<longleftrightarrow> (\<exists>bs. mem_inv info m bs \<and> set (useds bs) = U)"

lemma useds_distinct: "tiles a bs e \<Longrightarrow> distinct (map fst (useds bs)) \<and> (\<forall>b \<in> fst ` set (useds bs). a \<le> b)"
proof (induction a bs e rule: tiles.induct)
  case (2 a b s f bs e)
  then have "distinct (map fst (useds bs))" "\<forall>b \<in> fst ` set (useds bs). a + s \<le> b" "24 \<le> s" "b = a" by auto
  moreover from this have "a \<notin> fst ` set (useds bs)" by fastforce
  moreover have "\<forall>b \<in> fst ` set (useds bs). a \<le> b" using calculation(2) by auto
  ultimately show ?case by (cases f) simp_all
qed simp

lemma mem_inv_tiles: "mem_inv info m bs \<Longrightarrow> tiles (mi_buffer info) bs (mi_buffer info + mi_size info)"
  by (simp add: mem_inv_def heap_ok_def)

lemma live_blocks:
  assumes "live info m U" and "(a, n) \<in> U"
  shows "24 \<le> n" and "0 < a" and "mi_buffer info \<le> a" and "a + n \<le> mi_buffer info + mi_size info" and "nd_size m a = n"
    and "n < 2 ^ 32" and "a + n < 2 ^ 64"
proof -
  obtain bs where bs: "heap_ok info m bs" "set (useds bs) = U" using assms(1) by (auto simp: live_def mem_inv_def)
  have "(a, n, False) \<in> set bs" using bs(2) assms(2) useds_in by blast
  note hb = heap_blocks[OF bs(1) this]
  show "24 \<le> n" "0 < a" "mi_buffer info \<le> a" "a + n \<le> mi_buffer info + mi_size info" "nd_size m a = n" "n < 2 ^ 32" using hb by simp_all
  then show "a + n < 2 ^ 64" using bs(1) by (simp add: heap_ok_def)
qed

lemma live_apart:
  assumes "live info m U" and "(a, n) \<in> U" and "(b, k) \<in> U"
  shows "(a, n) = (b, k) \<or> a + n \<le> b \<or> b + k \<le> a"
proof -
  obtain bs where bs: "mem_inv info m bs" "set (useds bs) = U" using assms(1) by (auto simp: live_def)
  have "(a, n, False) \<in> set bs" "(b, k, False) \<in> set bs" using bs(2) assms(2,3) useds_in by blast+
  from tiles_apart[OF mem_inv_tiles[OF bs(1)] this] show ?thesis by blast
qed

text \<open>What the callers write to their blocks does not concern the allocator.\<close>

lemma user_writes_ok:
  assumes inv: "mem_inv info m bs" and w: "\<And>x. m' x \<noteq> m x \<Longrightarrow> \<exists>(a, n) \<in> set (useds bs). a + 4 \<le> x \<and> x < a + n"
  shows "mem_inv info m' bs"
proof -
  have h: "heap_ok info m bs" using inv by (simp add: mem_inv_def)
  have t: "tiles (mi_buffer info) bs (mi_buffer info + mi_size info)" by (rule mem_inv_tiles[OF inv])
  have hdr: "m' x = m x" if b: "(b, s, f) \<in> set bs" and x: "b \<le> x" "x < b + (if f then 24 else 4)" for b s f x
  proof (rule ccontr)
    assume "m' x \<noteq> m x"
    then obtain a n where a: "(a, n) \<in> set (useds bs)" "a + 4 \<le> x" "x < a + n" using w by blast
    then have inb: "(a, n, False) \<in> set bs" using useds_in by blast
    have "24 \<le> s" by (rule heap_blocks(4)[OF h b])
    then show False using tiles_apart[OF t inb b] a x by (auto split: if_splits)
  qed
  have sz: "nd_size m' b = s" if b: "(b, s, f) \<in> set bs" for b s f
  proof -
    have "nd_size m' b = nd_size m b" unfolding nd_size_def
      by (rule ld_cong, rule hdr[OF b]) auto
    then show ?thesis using heap_size[OF h b] by simp
  qed
  have lk: "nd_prev m' a = nd_prev m a \<and> nd_next m' a = nd_next m a" if a: "a \<in> set (frees bs)" for a
  proof -
    obtain s where s: "(a, s, True) \<in> set bs" using a frees_in by blast
    have "nd_prev m' a = nd_prev m a" unfolding nd_prev_def by (rule ld_cong, rule hdr[OF s]) auto
    moreover have "nd_next m' a = nd_next m a" unfolding nd_next_def by (rule ld_cong, rule hdr[OF s]) auto
    ultimately show ?thesis by simp
  qed
  have "lseg m' NULL (frees bs) NULL \<longleftrightarrow> lseg m NULL (frees bs) NULL" by (rule lseg_cong[OF lk])
  moreover have "\<forall>(a, s, f) \<in> set bs. nd_size m' a = s" using sz by blast
  ultimately have "heap_ok info m' bs" using h unfolding heap_ok_def by simp
  then show ?thesis using inv by (simp add: mem_inv_def)
qed

lemma live_write:
  assumes "live info m U" and "\<And>x. m' x \<noteq> m x \<Longrightarrow> \<exists>(a, n) \<in> U. a + 4 \<le> x \<and> x < a + n"
  shows "live info m' U"
proof -
  obtain bs where bs: "mem_inv info m bs" "set (useds bs) = U" using assms(1) by (auto simp: live_def)
  have "mem_inv info m' bs" by (rule user_writes_ok[OF bs(1)]) (use assms(2) bs(2) in simp)
  then show ?thesis using bs(2) by (auto simp: live_def)
qed

section \<open>The operations on the blocks in use\<close>

lemma live_alloc:
  assumes l: "live info m U" and s: "s < 4294967284"
  obtains p info' m' t where "tk_alloc_impl info m s = Some (p, info', m')" and "mi_buffer info' = mi_buffer info" "mi_size info' = mi_size info"
    and "keeps_used m m' U"
    and "p = NULL \<Longrightarrow> info' = info \<and> m' = m"
    and "p \<noteq> NULL \<Longrightarrow> 4 < p \<and> p - 4 \<notin> fst ` U \<and> s + 4 \<le> t \<and> live info' m' (insert (p - 4, t) U)"
proof -
  obtain bs where bs: "mem_inv info m bs" "set (useds bs) = U" using l by (auto simp: live_def)
  obtain p info' m' bs' where r: "tk_alloc_impl info m s = Some (p, info', m')" "mem_inv info' m' bs'"
    "mi_buffer info' = mi_buffer info" "mi_size info' = mi_size info" "keeps_used m m' (set (useds bs))"
    and c: "if p = NULL then info' = info \<and> m' = m \<and> bs' = bs \<and> (\<forall>a n. (a, n, True) \<in> set bs \<longrightarrow> n < block_size s)
     else \<exists>us vs n t rest. bs = us @ (p - 4, n, True) # vs \<and> bs' = us @ (p - 4, t, False) # rest @ vs \<and> useds rest = [] \<and> 4 < p \<and> block_size s \<le> t \<and> t < block_size s + 24 \<and> t \<le> n"
    using alloc_ok[OF bs(1) s] by blast
  show thesis
  proof (cases "p = NULL")
    case True
    then show thesis using that[OF r(1,3,4)] r(5) c bs(2) by simp
  next
    case False
    then obtain us vs n t rest where s': "bs = us @ (p - 4, n, True) # vs" "bs' = us @ (p - 4, t, False) # rest @ vs" "useds rest = []"
      "4 < p" "block_size s \<le> t" using c by auto
    have u: "useds bs' = useds us @ (p - 4, t) # useds vs" "useds bs = useds us @ useds vs" using s'(1,2,3) by simp_all
    have "distinct (map fst (useds bs'))" using useds_distinct[OF mem_inv_tiles[OF r(2)]] by blast
    then have "p - 4 \<notin> fst ` U" using u bs(2) by auto
    moreover have "set (useds bs') = insert (p - 4, t) U" using u bs(2) by auto
    then have "live info' m' (insert (p - 4, t) U)" using r(2) by (auto simp: live_def)
    moreover have "s + 4 \<le> t" using s'(5) block_size_bounds(1)[OF s] by simp
    ultimately show thesis using that[OF r(1,3,4)] r(5) bs(2) False s'(4) by blast
  qed
qed

lemma live_free:
  assumes l: "live info m U" and c: "(c, n) \<in> U"
  obtains info' m' where "tk_free_impl info m (c + 4) = Some (info', m')" and "mi_buffer info' = mi_buffer info" "mi_size info' = mi_size info"
    and "live info' m' (U - {(c, n)})" and "keeps_used m m' (U - {(c, n)})"
proof -
  obtain bs where bs: "mem_inv info m bs" "set (useds bs) = U" using l by (auto simp: live_def)
  have "(c, n, False) \<in> set bs" using bs(2) c useds_in by blast
  then obtain us vs where s: "bs = us @ (c, n, False) # vs" by (meson split_list)
  obtain info' m' bs' where r: "tk_free_impl info m (c + 4) = Some (info', m')" "mem_inv info' m' bs'" "useds bs' = useds us @ useds vs"
    "mi_buffer info' = mi_buffer info" "mi_size info' = mi_size info" "keeps_used m m' (set (useds us @ useds vs))"
    using free_ok[of info m us c n vs] bs(1) s by blast
  have "distinct (map fst (useds bs))" using useds_distinct[OF mem_inv_tiles[OF bs(1)]] by blast
  then have "c \<notin> fst ` set (useds us @ useds vs)" using s by auto
  then have "(c, n) \<notin> set (useds us @ useds vs)" by force
  moreover have "U = insert (c, n) (set (useds us @ useds vs))" using bs(2) s by auto
  ultimately have "set (useds us @ useds vs) = U - {(c, n)}" by blast
  then have u: "set (useds bs') = U - {(c, n)}" "keeps_used m m' (U - {(c, n)})" using r(3,6) by simp_all
  then have "live info' m' (U - {(c, n)})" using r(2) by (auto simp: live_def)
  then show thesis using that[OF r(1,4,5)] u(2) by blast
qed


lemma keeps_used_sub: "keeps_used m m' A \<Longrightarrow> B \<subseteq> A \<Longrightarrow> keeps_used m m' B"
  by (auto simp: keeps_used_def)

lemma keeps_usedD: "keeps_used m m' A \<Longrightarrow> (a, n) \<in> A \<Longrightarrow> a \<le> x \<Longrightarrow> x < a + n \<Longrightarrow> m' x = m x"
  by (auto simp: keeps_used_def)

text \<open>A block that changes its size keeps what it holds, as far as it fits.\<close>

lemma live_realloc:
  assumes l: "live info m U" and c: "(c, n) \<in> U" and s: "sz < 4294967284"
  obtains q info' m' t where "tk_realloc_impl info m (c + 4) sz = Some (q, info', m')" and "mi_buffer info' = mi_buffer info" "mi_size info' = mi_size info"
    and "q = NULL \<Longrightarrow> info' = info \<and> m' = m"
    and "q \<noteq> NULL \<Longrightarrow> 4 < q \<and> q - 4 \<notin> fst ` (U - {(c, n)}) \<and> sz + 4 \<le> t \<and> live info' m' (insert (q - 4, t) (U - {(c, n)})) \<and>
      keeps_used m m' (U - {(c, n)}) \<and> (\<forall>i < min sz (n - 4). m' (q + i) = m (c + 4 + i))"
proof -
  note lc = live_blocks[OF l c]
  have old: "u32 (nd_size m (c + 4 - 4) + 2 ^ 32 - 4) = n - 4"
  proof -
    have "nd_size m (c + 4 - 4) + 2 ^ 32 - 4 = (n - 4) + 2 ^ 32" using lc(1,5) by simp
    then show ?thesis using lc(6) by (simp add: u32_def)
  qed
  let ?k = "if sz < n - 4 then sz else n - 4"
  have p0: "c + 4 \<noteq> NULL" by simp
  show thesis
  proof (cases "n - 4 \<ge> sz \<and> n - 4 \<le> u32 (sz + MIN_SIZE)")
    case True
    have run: "tk_realloc_impl info m (c + 4) sz = Some (c + 4, info, m)"
      unfolding tk_realloc_impl_def Let_def old using True by simp
    have "c \<notin> fst ` (U - {(c, n)})"
    proof
      assume "c \<in> fst ` (U - {(c, n)})"
      then obtain k where "(c, k) \<in> U - {(c, n)}" by force
      then have k: "(c, k) \<in> U" "k \<noteq> n" by auto
      then show False using live_apart[OF l c k(1)] live_blocks(1)[OF l k(1)] lc(1) by auto
    qed
    moreover have "insert (c, n) (U - {(c, n)}) = U" using c by blast
    moreover have "keeps_used m m (U - {(c, n)})" by (auto simp: keeps_used_def)
    moreover have "sz + 4 \<le> n" using True lc(1) by linarith
    ultimately show thesis using that[OF run refl refl, of n] lc(1,2) l by simp
  next
    case False
    obtain q info1 m1 t where a: "tk_alloc_impl info m sz = Some (q, info1, m1)" "mi_buffer info1 = mi_buffer info" "mi_size info1 = mi_size info"
      "keeps_used m m1 U" "q = NULL \<Longrightarrow> info1 = info \<and> m1 = m"
      and q: "q \<noteq> NULL \<Longrightarrow> 4 < q \<and> q - 4 \<notin> fst ` U \<and> sz + 4 \<le> t \<and> live info1 m1 (insert (q - 4, t) U)"
      using live_alloc[OF l s] by metis
    have inside: "in_buffer info1 q ?k" "in_buffer info1 (c + 4) ?k" if "q \<noteq> NULL"
    proof -
      have l1: "live info1 m1 (insert (q - 4, t) U)" "4 < q" "sz + 4 \<le> t" using q[OF that] by blast+
      have "mi_buffer info1 \<le> q - 4" "q - 4 + t \<le> mi_buffer info1 + mi_size info1" using live_blocks(3,4)[OF l1(1), of "q - 4" t] by simp_all
      then show "in_buffer info1 q ?k" using l1(2,3) by (auto simp: in_buffer_def)
      show "in_buffer info1 (c + 4) ?k" using lc(1,3,4) a(2,3) by (auto simp: in_buffer_def)
    qed
    have run: "tk_realloc_impl info m (c + 4) sz = (if q \<noteq> NULL then
        Option.bind (tk_free_impl info1 (copy_bytes m1 q (c + 4) ?k) (c + 4)) (\<lambda>(info, m). Some (q, info, m)) else Some (q, info1, m1))"
    proof -
      have f: "(n - 4 \<ge> sz \<and> n - 4 \<le> u32 (sz + MIN_SIZE)) = False" using False by simp
      show ?thesis
      proof (cases "q = NULL")
        case True
        then show ?thesis unfolding tk_realloc_impl_def Let_def old a(1) by (simp only: f if_False p0 if_True not_False_eq_True Option.bind.bind_lunit prod.case) simp
      next
        case nn: False
        have "(\<not> in_buffer info1 q ?k \<or> \<not> in_buffer info1 (c + 4) ?k) = False" using inside[OF nn] by blast
        then show ?thesis unfolding tk_realloc_impl_def Let_def old a(1)
          by (simp only: f if_False p0 nn if_True not_False_eq_True Option.bind.bind_lunit prod.case)
      qed
    qed
    show thesis
    proof (cases "q = NULL")
      case True
      then show thesis using that[of q info m] run a(5) by simp
    next
      case nn: False
      let ?U = "insert (q - 4, t) U" and ?m2 = "copy_bytes m1 q (c + 4) ?k"
      have q4: "4 < q" "q - 4 \<notin> fst ` U" "sz + 4 \<le> t" and l1: "live info1 m1 ?U" using q[OF nn] by simp_all
      have copied: "q \<le> x \<and> x < q + ?k" if "?m2 x \<noteq> m1 x" for x using that by (auto simp: copy_bytes_def split: if_splits)
      have l2: "live info1 ?m2 ?U"
      proof (rule live_write[OF l1])
        fix x assume "?m2 x \<noteq> m1 x"
        then have "q \<le> x" "x < q + sz" using copied[of x] by (auto split: if_splits)
        then have "q - 4 + 4 \<le> x \<and> x < q - 4 + t" using q4 by simp
        then show "\<exists>(a, n) \<in> ?U. a + 4 \<le> x \<and> x < a + n" by blast
      qed
      have inU: "(c, n) \<in> ?U" using c by simp
      obtain info' m' where f: "tk_free_impl info1 ?m2 (c + 4) = Some (info', m')" "mi_buffer info' = mi_buffer info1" "mi_size info' = mi_size info1"
        "live info' m' (?U - {(c, n)})" "keeps_used ?m2 m' (?U - {(c, n)})" using live_free[OF l2 inU] by metis
      have "q - 4 \<noteq> c" using q4(2) c by force
      then have U': "?U - {(c, n)} = insert (q - 4, t) (U - {(c, n)})" by auto
      have "keeps_used m1 ?m2 U"
        unfolding keeps_used_def
      proof (clarify, rule ccontr)
        fix b k x assume b: "(b, k) \<in> U" "b \<le> x" "x < b + k" and "?m2 x \<noteq> m1 x"
        then have x: "q \<le> x" "x < q + sz" using copied[of x] by (auto split: if_splits)
        have "(b, k) \<noteq> (q - 4, t)" using b(1) q4(2) by force
        then have "b + k \<le> q - 4 \<or> q - 4 + t \<le> b" using live_apart[OF l1, of b k "q - 4" t] b(1) by auto
        then show False using b(2,3) x q4 by auto
      qed
      then have k2: "keeps_used m ?m2 U" using keeps_used_trans[OF a(4)] by blast
      have "keeps_used m m' (U - {(c, n)})"
        using keeps_used_trans[OF keeps_used_sub[OF k2] keeps_used_sub[OF f(5)], of "U - {(c, n)}"] U' by blast
      moreover have "m' (q + i) = m (c + 4 + i)" if i: "i < min sz (n - 4)" for i
      proof -
        have "m' (q + i) = ?m2 (q + i)" by (rule keeps_usedD[OF f(5), of "q - 4" t]) (use U' i q4 in auto)
        also have "\<dots> = m1 (c + 4 + i)" using i by (simp add: copy_bytes_def)
        also have "\<dots> = m (c + 4 + i)" by (rule keeps_usedD[OF a(4) c]) (use i in auto)
        finally show ?thesis .
      qed
      moreover have "q - 4 \<notin> fst ` (U - {(c, n)})" using q4(2) by blast
      ultimately show thesis
        using that[of q info' m' t] run nn f(1,2,3,4) a(2,3) q4 unfolding U' by simp
    qed
  qed
qed


lemma live_init:
  assumes "buffer \<noteq> NULL" and "24 < sz" and "sz < 2 ^ 32" and "buffer + sz < 2 ^ 64"
  obtains info m' where "mem_allocator_simple_init m buffer sz = Some (info, m')" and "mi_buffer info = buffer" "mi_size info = sz"
    and "mem_inv info m' [(buffer, sz, True)]" and "\<And>x. x < buffer \<or> buffer + sz \<le> x \<Longrightarrow> m' x = m x"
proof -
  let ?m = "w_size (w_next (w_prev (fill_bytes m buffer 0 sz) buffer NULL) buffer NULL) buffer sz"
  let ?info = "mem_info_zero\<lparr>mi_buffer := buffer, mi_size := sz, mi_free_list := buffer, mi_used_block_nr := 0\<rparr>"
  have "mem_allocator_simple_init m buffer sz = Some (?info, ?m)"
    using assms by (simp add: mem_allocator_simple_init_def tk_mem_init_impl_def Let_def mem_info_zero_def MIN_SIZE_def)
  moreover have "mem_inv ?info ?m [(buffer, sz, True)]"
    using assms by (simp add: mem_inv_def heap_ok_def counts_ok_def mem_info_zero_def)
  moreover have "?m x = m x" if "x < buffer \<or> buffer + sz \<le> x" for x
  proof -
    have "x < buffer \<or> buffer + 24 \<le> x" using that assms(2) by auto
    then show ?thesis using node_bytes that by (auto simp: fill_bytes_def)
  qed
  ultimately show thesis by (intro that[of ?info ?m]) simp_all
qed

section \<open>What an allocator promises\<close>

text \<open>Blocks are given by the address that the caller has and the number of bytes that it may use.\<close>

definition kept :: "mem \<Rightarrow> mem \<Rightarrow> (ptr \<times> nat) set \<Rightarrow> bool" where
  "kept m m' L \<longleftrightarrow> (\<forall>(p, n) \<in> L. \<forall>i < n. m' (p + i) = m (p + i))"

locale allocator =
  fixes inv :: "'s \<Rightarrow> (ptr \<times> nat) set \<Rightarrow> bool"
    and bytes :: "'s \<Rightarrow> mem"
    and store :: "'s \<Rightarrow> ptr \<Rightarrow> byte \<Rightarrow> 's"
    and alloc :: "'s \<Rightarrow> nat \<Rightarrow> (ptr \<times> 's) option"
    and realloc :: "'s \<Rightarrow> ptr \<Rightarrow> nat \<Rightarrow> (ptr \<times> 's) option"
    and free :: "'s \<Rightarrow> ptr \<Rightarrow> 's option"
    and limit :: nat
  assumes inv_null: "inv s L \<Longrightarrow> (p, n) \<in> L \<Longrightarrow> p \<noteq> NULL"
    and inv_apart: "inv s L \<Longrightarrow> (p, n) \<in> L \<Longrightarrow> (q, k) \<in> L \<Longrightarrow> (p, n) = (q, k) \<or> p + n \<le> q \<or> q + k \<le> p"
    and store_inv: "inv s L \<Longrightarrow> (p, n) \<in> L \<Longrightarrow> i < n \<Longrightarrow> inv (store s (p + i) v) L"
    and store_bytes: "inv s L \<Longrightarrow> (p, n) \<in> L \<Longrightarrow> i < n \<Longrightarrow> bytes (store s (p + i) v) = (bytes s)(p + i := v)"
    and alloc_law: "inv s L \<Longrightarrow> sz < limit \<Longrightarrow> \<exists>p s'. alloc s sz = Some (p, s') \<and> kept (bytes s) (bytes s') L \<and>
      (if p = NULL then inv s' L else \<exists>n \<ge> sz. p \<notin> fst ` L \<and> inv s' (insert (p, n) L))"
    and realloc_law: "inv s L \<Longrightarrow> (p, n) \<in> L \<Longrightarrow> sz < limit \<Longrightarrow> \<exists>q s'. realloc s p sz = Some (q, s') \<and>
      (if q = NULL then inv s' L \<and> kept (bytes s) (bytes s') L
       else (\<exists>k \<ge> sz. q \<notin> fst ` (L - {(p, n)}) \<and> inv s' (insert (q, k) (L - {(p, n)})) \<and> (\<forall>i < min sz n. bytes s' (q + i) = bytes s (p + i))) \<and>
         kept (bytes s) (bytes s') (L - {(p, n)}))"
    and realloc_null: "realloc s NULL sz = alloc s sz"
    and free_law: "inv s L \<Longrightarrow> (p, n) \<in> L \<Longrightarrow> \<exists>s'. free s p = Some s' \<and> inv s' (L - {(p, n)}) \<and> kept (bytes s) (bytes s') (L - {(p, n)})"
    and free_null: "free s NULL = Some s"

text \<open>The abstract heap: separate arrays of bytes.\<close>

type_synonym arrays = "ptr \<rightharpoonup> byte list"

datatype mem_op = OpAlloc nat | OpRealloc ptr nat | OpFree ptr | OpStore ptr nat byte

inductive heap_step :: "arrays \<Rightarrow> mem_op \<Rightarrow> ptr \<Rightarrow> arrays \<Rightarrow> bool" where
  alloc_fail: "heap_step A (OpAlloc sz) NULL A"
| alloc_new: "p \<noteq> NULL \<Longrightarrow> p \<notin> dom A \<Longrightarrow> sz \<le> length b \<Longrightarrow> heap_step A (OpAlloc sz) p (A(p \<mapsto> b))"
| realloc_fail: "heap_step A (OpRealloc p sz) NULL A"
| realloc_new: "p \<noteq> NULL \<Longrightarrow> p \<notin> dom A \<Longrightarrow> sz \<le> length b \<Longrightarrow> heap_step A (OpRealloc NULL sz) p (A(p \<mapsto> b))"
| realloc_move: "A p = Some b \<Longrightarrow> q \<noteq> NULL \<Longrightarrow> q = p \<or> q \<notin> dom A \<Longrightarrow> sz \<le> length b' \<Longrightarrow>
    take (min sz (length b)) b' = take (min sz (length b)) b \<Longrightarrow> heap_step A (OpRealloc p sz) q ((A(p := None))(q \<mapsto> b'))"
| free_null: "heap_step A (OpFree NULL) NULL A"
| free_block: "A p = Some b \<Longrightarrow> heap_step A (OpFree p) NULL (A(p := None))"
| store: "A p = Some b \<Longrightarrow> i < length b \<Longrightarrow> heap_step A (OpStore p i v) NULL (A(p \<mapsto> b[i := v]))"

text \<open>The requests that a caller may make.\<close>

fun op_ok :: "nat \<Rightarrow> arrays \<Rightarrow> mem_op \<Rightarrow> bool" where
  "op_ok lim A (OpAlloc sz) \<longleftrightarrow> sz < lim"
| "op_ok lim A (OpRealloc p sz) \<longleftrightarrow> sz < lim \<and> (p = NULL \<or> A p \<noteq> None)"
| "op_ok lim A (OpFree p) \<longleftrightarrow> p = NULL \<or> A p \<noteq> None"
| "op_ok lim A (OpStore p i v) \<longleftrightarrow> (case A p of None \<Rightarrow> False | Some b \<Rightarrow> i < length b)"

fun exec_op :: "('s \<Rightarrow> ptr \<Rightarrow> byte \<Rightarrow> 's) \<Rightarrow> ('s \<Rightarrow> nat \<Rightarrow> (ptr \<times> 's) option) \<Rightarrow> ('s \<Rightarrow> ptr \<Rightarrow> nat \<Rightarrow> (ptr \<times> 's) option) \<Rightarrow>
    ('s \<Rightarrow> ptr \<Rightarrow> 's option) \<Rightarrow> 's \<Rightarrow> mem_op \<Rightarrow> (ptr \<times> 's) option" where
  "exec_op store alloc realloc free s (OpAlloc sz) = alloc s sz"
| "exec_op store alloc realloc free s (OpRealloc p sz) = realloc s p sz"
| "exec_op store alloc realloc free s (OpFree p) = map_option (\<lambda>s. (NULL, s)) (free s p)"
| "exec_op store alloc realloc free s (OpStore p i v) = Some (NULL, store s (p + i) v)"

text \<open>The bytes of the blocks are the arrays.\<close>

definition blocks_of :: "arrays \<Rightarrow> (ptr \<times> nat) set" where
  "blocks_of A = {(p, length b) |p b. A p = Some b}"

definition holds :: "mem \<Rightarrow> arrays \<Rightarrow> bool" where
  "holds m A \<longleftrightarrow> (\<forall>p b. A p = Some b \<longrightarrow> (\<forall>i < length b. m (p + i) = b ! i))"

lemma blocks_of_upd: "p \<notin> dom A \<Longrightarrow> blocks_of (A(p \<mapsto> b)) = insert (p, length b) (blocks_of A)"
  by (auto simp: blocks_of_def split: if_splits)

lemma blocks_of_del: "A p = Some b \<Longrightarrow> blocks_of (A(p := None)) = blocks_of A - {(p, length b)}"
proof -
  assume A: "A p = Some b"
  have "(q, n) \<in> blocks_of (A(p := None)) \<longleftrightarrow> (q, n) \<in> blocks_of A - {(p, length b)}" for q n
    using A by (cases "q = p") (simp_all add: blocks_of_def)
  then show ?thesis by auto
qed

lemma blocks_of_same: "A p = Some b \<Longrightarrow> length b' = length b \<Longrightarrow> blocks_of (A(p \<mapsto> b')) = blocks_of A"
proof -
  assume A: "A p = Some b" "length b' = length b"
  have "(q, n) \<in> blocks_of (A(p \<mapsto> b')) \<longleftrightarrow> (q, n) \<in> blocks_of A" for q n
    using A by (cases "q = p") (simp_all add: blocks_of_def)
  then show ?thesis by auto
qed

lemma blocks_of_fst: "fst ` blocks_of A = dom A"
  by (force simp: blocks_of_def)

lemma blocks_ofI: "A p = Some b \<Longrightarrow> (p, length b) \<in> blocks_of A"
  by (auto simp: blocks_of_def)

lemma holds_kept: "holds m A \<Longrightarrow> kept m m' (blocks_of A) \<Longrightarrow> holds m' A"
  by (fastforce simp: holds_def kept_def blocks_of_def)

lemma holds_del: "holds m A \<Longrightarrow> holds m (A(p := None))"
  by (auto simp: holds_def)

text \<open>What a fresh block holds.\<close>

definition content :: "mem \<Rightarrow> ptr \<Rightarrow> nat \<Rightarrow> byte list" where
  "content m p n = map (\<lambda>i. m (p + i)) [0..<n]"

lemma holds_new: "holds m A \<Longrightarrow> holds m (A(p \<mapsto> content m p n))"
  by (auto simp: holds_def content_def)


definition rep :: "('s \<Rightarrow> (ptr \<times> nat) set \<Rightarrow> bool) \<Rightarrow> ('s \<Rightarrow> mem) \<Rightarrow> 's \<Rightarrow> arrays \<Rightarrow> bool" where
  "rep J bytes s A \<longleftrightarrow> J s (blocks_of A) \<and> holds (bytes s) A"

lemma content_take:
  assumes "\<And>i. i < min sz (length b) \<Longrightarrow> m (p + i) = b ! i" and "sz \<le> n"
  shows "take (min sz (length b)) (content m p n) = take (min sz (length b)) b"
  by (rule nth_equalityI) (use assms in \<open>auto simp: content_def\<close>)

context allocator
begin

lemma step_alloc:
  assumes r: "rep inv bytes s A" and "sz < limit"
  shows "\<exists>p s' A'. alloc s sz = Some (p, s') \<and> heap_step A (OpAlloc sz) p A' \<and> heap_step A (OpRealloc NULL sz) p A' \<and> rep inv bytes s' A'"
proof -
  have i: "inv s (blocks_of A)" and h: "holds (bytes s) A" using r by (simp_all add: rep_def)
  obtain p s' where a: "alloc s sz = Some (p, s')" "kept (bytes s) (bytes s') (blocks_of A)"
    "if p = NULL then inv s' (blocks_of A) else \<exists>n \<ge> sz. p \<notin> fst ` blocks_of A \<and> inv s' (insert (p, n) (blocks_of A))"
    using alloc_law[OF i assms(2)] by blast
  have h': "holds (bytes s') A" by (rule holds_kept[OF h a(2)])
  show ?thesis
  proof (cases "p = NULL")
    case True
    then have "rep inv bytes s' A" using a(3) h' by (simp add: rep_def)
    then show ?thesis using a(1) True heap_step.alloc_fail heap_step.realloc_fail by blast
  next
    case False
    then obtain n where n: "sz \<le> n" "p \<notin> dom A" "inv s' (insert (p, n) (blocks_of A))" using a(3) by (auto simp: blocks_of_fst)
    let ?b = "content (bytes s') p n"
    have lb: "length ?b = n" by (simp add: content_def)
    have "rep inv bytes s' (A(p \<mapsto> ?b))"
      using n(3) holds_new[OF h'] blocks_of_upd[OF n(2), of ?b] by (simp add: rep_def lb)
    moreover have "sz \<le> length ?b" using n(1) lb by simp
    then have "heap_step A (OpAlloc sz) p (A(p \<mapsto> ?b)) \<and> heap_step A (OpRealloc NULL sz) p (A(p \<mapsto> ?b))"
      using heap_step.alloc_new[OF False n(2)] heap_step.realloc_new[OF False n(2)] by blast
    ultimately show ?thesis using a(1) by blast
  qed
qed

lemma step_realloc:
  assumes r: "rep inv bytes s A" and "sz < limit" and p: "A p = Some b"
  shows "\<exists>q s' A'. realloc s p sz = Some (q, s') \<and> heap_step A (OpRealloc p sz) q A' \<and> rep inv bytes s' A'"
proof -
  have i: "inv s (blocks_of A)" and h: "holds (bytes s) A" using r by (simp_all add: rep_def)
  let ?A = "A(p := None)"
  have U: "blocks_of A - {(p, length b)} = blocks_of ?A" using blocks_of_del[of A p b, OF p] by simp
  obtain q s' where a: "realloc s p sz = Some (q, s')" "if q = NULL then inv s' (blocks_of A) \<and> kept (bytes s) (bytes s') (blocks_of A)
       else (\<exists>k \<ge> sz. q \<notin> fst ` blocks_of ?A \<and> inv s' (insert (q, k) (blocks_of ?A)) \<and> (\<forall>i < min sz (length b). bytes s' (q + i) = bytes s (p + i))) \<and>
         kept (bytes s) (bytes s') (blocks_of ?A)"
    using realloc_law[OF i blocks_ofI[of A p b, OF p] assms(2)] unfolding U by blast
  show ?thesis
  proof (cases "q = NULL")
    case True
    then have "rep inv bytes s' A" using a(2) holds_kept[OF h] by (simp add: rep_def)
    then show ?thesis using a(1) True heap_step.realloc_fail by blast
  next
    case False
    then obtain k where k: "sz \<le> k" "q \<notin> dom ?A" "inv s' (insert (q, k) (blocks_of ?A))" "\<And>i. i < min sz (length b) \<Longrightarrow> bytes s' (q + i) = bytes s (p + i)"
      and kp: "kept (bytes s) (bytes s') (blocks_of ?A)" using a(2) unfolding blocks_of_fst by auto
    let ?b = "content (bytes s') q k"
    have lb: "length ?b = k" by (simp add: content_def)
    have "holds (bytes s') ?A" by (rule holds_kept[OF holds_del[OF h] kp])
    then have "rep inv bytes s' (?A(q \<mapsto> ?b))"
      using k(3) holds_new blocks_of_upd[OF k(2), of ?b] by (simp add: rep_def lb)
    moreover have "take (min sz (length b)) ?b = take (min sz (length b)) b"
    proof (rule content_take[OF _ k(1)])
      fix i assume i: "i < min sz (length b)"
      then show "bytes s' (q + i) = b ! i" using k(4)[OF i] h p by (simp add: holds_def)
    qed
    moreover have "q = p \<or> q \<notin> dom A" using k(2) by auto
    ultimately show ?thesis using a(1) heap_step.realloc_move[of A p b q sz ?b] p False k(1) lb by auto
  qed
qed

lemma step_free:
  assumes r: "rep inv bytes s A" and p: "A p = Some b"
  shows "\<exists>s'. free s p = Some s' \<and> rep inv bytes s' (A(p := None))"
proof -
  have i: "inv s (blocks_of A)" and h: "holds (bytes s) A" using r by (simp_all add: rep_def)
  have U: "blocks_of A - {(p, length b)} = blocks_of (A(p := None))" using blocks_of_del[of A p b, OF p] by simp
  obtain s' where "free s p = Some s'" "inv s' (blocks_of (A(p := None)))" "kept (bytes s) (bytes s') (blocks_of (A(p := None)))"
    using free_law[OF i blocks_ofI[of A p b, OF p]] unfolding U by blast
  then show ?thesis using holds_kept[OF holds_del[OF h]] by (auto simp: rep_def)
qed

lemma step_store:
  assumes r: "rep inv bytes s A" and p: "A p = Some b" and i: "i < length b"
  shows "rep inv bytes (store s (p + i) v) (A(p \<mapsto> b[i := v]))"
proof -
  have iv: "inv s (blocks_of A)" and h: "holds (bytes s) A" using r by (simp_all add: rep_def)
  note pb = blocks_ofI[of A p b, OF p]
  have "holds ((bytes s)(p + i := v)) (A(p \<mapsto> b[i := v]))"
    unfolding holds_def
  proof (intro allI impI)
    fix q c j assume q: "(A(p \<mapsto> b[i := v])) q = Some c" "j < length c"
    show "((bytes s)(p + i := v)) (q + j) = c ! j"
    proof (cases "q = p")
      case True
      then show ?thesis using q h p i by (auto simp: holds_def nth_list_update)
    next
      case False
      then have c: "A q = Some c" using q(1) by simp
      then have "p + length b \<le> q \<or> q + length c \<le> p" using inv_apart[OF iv pb blocks_ofI[of A q c, OF c]] False by auto
      then have "q + j \<noteq> p + i" using i q(2) by auto
      then show ?thesis using h c q(2) by (simp add: holds_def)
    qed
  qed
  then show ?thesis
    using store_inv[OF iv pb i] store_bytes[OF iv pb i] blocks_of_same[of A p b "b[i := v]", OF p] by (simp add: rep_def)
qed

text \<open>Every legal request succeeds or is refused with NULL, and does to the arrays what it should.\<close>

theorem simulation:
  assumes "rep inv bytes s A" and "op_ok limit A op"
  shows "\<exists>r s' A'. exec_op store alloc realloc free s op = Some (r, s') \<and> heap_step A op r A' \<and> rep inv bytes s' A'"
proof (cases op)
  case (OpAlloc sz)
  then show ?thesis using step_alloc[OF assms(1), of sz] assms(2) by auto
next
  case (OpRealloc p sz)
  show ?thesis
  proof (cases "A p")
    case None
    then have "p = NULL" using assms(2) OpRealloc by simp
    then show ?thesis using step_alloc[OF assms(1), of sz] assms(2) OpRealloc realloc_null by auto
  next
    case (Some b)
    then show ?thesis using step_realloc[OF assms(1) _ Some, of sz] assms(2) OpRealloc by auto
  qed
next
  case (OpFree p)
  show ?thesis
  proof (cases "A p")
    case None
    then have "p = NULL" using assms(2) OpFree by simp
    then show ?thesis using assms(1) OpFree free_null heap_step.free_null by auto
  next
    case (Some b)
    then show ?thesis using step_free[OF assms(1) Some] heap_step.free_block[of A p b, OF Some] OpFree by auto
  qed
next
  case (OpStore p i v)
  then obtain b where "A p = Some b" "i < length b" using assms(2) by (auto split: option.splits)
  then show ?thesis using step_store[OF assms(1)] heap_step.store[of A p b i v] OpStore by auto
qed

end


section \<open>The simple allocator keeps the promises\<close>

type_synonym simple_heap = "mem_info \<times> mem"

definition mem_allocator_simple_alloc :: "simple_heap \<Rightarrow> nat \<Rightarrow> (ptr \<times> simple_heap) option" where
  "mem_allocator_simple_alloc h sz = tk_alloc_impl (fst h) (snd h) sz"

definition mem_allocator_simple_realloc :: "simple_heap \<Rightarrow> ptr \<Rightarrow> nat \<Rightarrow> (ptr \<times> simple_heap) option" where
  "mem_allocator_simple_realloc h p sz = tk_realloc_impl (fst h) (snd h) p sz"

definition mem_allocator_simple_free :: "simple_heap \<Rightarrow> ptr \<Rightarrow> simple_heap option" where
  "mem_allocator_simple_free h p = tk_free_impl (fst h) (snd h) p"

text \<open>The caller writes to memory.\<close>

definition poke :: "simple_heap \<Rightarrow> ptr \<Rightarrow> byte \<Rightarrow> simple_heap" where
  "poke h x v = (fst h, (snd h)(x := v))"

definition usable :: "(ptr \<times> nat) set \<Rightarrow> (ptr \<times> nat) set" where
  "usable U = (\<lambda>(a, n). (a + 4, n - 4)) ` U"

definition simple_inv :: "simple_heap \<Rightarrow> (ptr \<times> nat) set \<Rightarrow> bool" where
  "simple_inv h L \<longleftrightarrow> (\<exists>U. live (fst h) (snd h) U \<and> L = usable U)"

lemma usableI: "(a, n) \<in> U \<Longrightarrow> (a + 4, n - 4) \<in> usable U"
  by (force simp: usable_def)

lemma usableE:
  assumes "(p, k) \<in> usable U"
  obtains a n where "(a, n) \<in> U" "p = a + 4" "k = n - 4"
  using assms by (auto simp: usable_def)

lemma usable_insert: "4 \<le> p \<Longrightarrow> usable (insert (p - 4, t) U) = insert (p, t - 4) (usable U)"
  by (simp add: usable_def)

lemma live_fun: "live info m U \<Longrightarrow> (a, n) \<in> U \<Longrightarrow> (a, k) \<in> U \<Longrightarrow> n = k"
proof -
  assume l: "live info m U" and n: "(a, n) \<in> U" and k: "(a, k) \<in> U"
  show "n = k" using live_apart[OF l n k] live_blocks(1)[OF l n] live_blocks(1)[OF l k] by auto
qed

lemma usable_remove:
  assumes l: "live info m U" and c: "(c, n) \<in> U"
  shows "usable (U - {(c, n)}) = usable U - {(c + 4, n - 4)}"
proof -
  have "(p, k) \<in> usable (U - {(c, n)}) \<longleftrightarrow> (p, k) \<in> usable U - {(c + 4, n - 4)}" for p k
  proof
    assume "(p, k) \<in> usable (U - {(c, n)})"
    then obtain a j where a: "(a, j) \<in> U - {(c, n)}" "p = a + 4" "k = j - 4" by (rule usableE)
    then have "(a, j) \<in> U" by simp
    then have "a \<noteq> c" using a(1) live_fun[OF l c] by blast
    then show "(p, k) \<in> usable U - {(c + 4, n - 4)}" using usableI[OF \<open>(a, j) \<in> U\<close>] a(2,3) by simp
  next
    assume p: "(p, k) \<in> usable U - {(c + 4, n - 4)}"
    then have "(p, k) \<in> usable U" by simp
    then obtain a j where a: "(a, j) \<in> U" "p = a + 4" "k = j - 4" by (rule usableE)
    then have "(a, j) \<in> U - {(c, n)}" using p by auto
    from usableI[OF this] show "(p, k) \<in> usable (U - {(c, n)})" using a by simp
  qed
  then show ?thesis by auto
qed

lemma kept_usable: "keeps_used m m' U \<Longrightarrow> kept m m' (usable U)"
  unfolding kept_def usable_def by (auto simp: keeps_used_def)

lemma usable_fst: "4 \<le> p \<Longrightarrow> p - 4 \<notin> fst ` U \<Longrightarrow> p \<notin> fst ` usable U"
  by (force simp: usable_def)

interpretation simple: allocator simple_inv snd poke mem_allocator_simple_alloc mem_allocator_simple_realloc mem_allocator_simple_free 4294967284
proof
  fix h :: simple_heap and L p n q k assume "simple_inv h L" and p: "(p, n) \<in> L" and q: "(q, k) \<in> L"
  then obtain U where l: "live (fst h) (snd h) U" and L: "L = usable U" by (auto simp: simple_inv_def)
  obtain a i where a: "(a, i) \<in> U" "p = a + 4" "n = i - 4" using p unfolding L by (rule usableE)
  obtain b j where b: "(b, j) \<in> U" "q = b + 4" "k = j - 4" using q unfolding L by (rule usableE)
  show "(p, n) = (q, k) \<or> p + n \<le> q \<or> q + k \<le> p"
    using live_apart[OF l a(1) b(1)] live_blocks(1)[OF l a(1)] live_blocks(1)[OF l b(1)] a b by auto
next
  fix h :: simple_heap and L p n assume "simple_inv h L" and p: "(p, n) \<in> L"
  then show "p \<noteq> NULL" by (auto simp: simple_inv_def usable_def)
next
  fix h :: simple_heap and L p n i v assume "simple_inv h L" and p: "(p, n) \<in> L" and i: "i < n"
  then obtain U where l: "live (fst h) (snd h) U" and L: "L = usable U" by (auto simp: simple_inv_def)
  obtain a j where a: "(a, j) \<in> U" "p = a + 4" "n = j - 4" using p unfolding L by (rule usableE)
  have "live (fst h) ((snd h)(p + i := v)) U"
  proof (rule live_write[OF l])
    fix x assume "((snd h)(p + i := v)) x \<noteq> snd h x"
    then have "x = p + i" by (auto split: if_splits)
    then show "\<exists>(a, n) \<in> U. a + 4 \<le> x \<and> x < a + n" using a i by (intro bexI[OF _ a(1)]) auto
  qed
  then show "simple_inv (poke h (p + i) v) L" using L by (auto simp: simple_inv_def poke_def)
  show "snd (poke h (p + i) v) = (snd h)(p + i := v)" by (simp add: poke_def)
next
  fix h :: simple_heap and L and sz :: nat assume "simple_inv h L" and sz: "sz < 4294967284"
  then obtain U where l: "live (fst h) (snd h) U" and L: "L = usable U" by (auto simp: simple_inv_def)
  obtain p info' m' t where a: "tk_alloc_impl (fst h) (snd h) sz = Some (p, info', m')" "keeps_used (snd h) m' U"
    "p = NULL \<Longrightarrow> info' = fst h \<and> m' = snd h"
    "p \<noteq> NULL \<Longrightarrow> 4 < p \<and> p - 4 \<notin> fst ` U \<and> sz + 4 \<le> t \<and> live info' m' (insert (p - 4, t) U)"
    by (rule live_alloc[OF l sz]) blast
  have k: "kept (snd h) m' L" unfolding L by (rule kept_usable[OF a(2)])
  have "if p = NULL then simple_inv (info', m') L else \<exists>n \<ge> sz. p \<notin> fst ` L \<and> simple_inv (info', m') (insert (p, n) L)"
  proof (cases "p = NULL")
    case True
    then show ?thesis using a(3) l L by (auto simp: simple_inv_def)
  next
    case False
    then have p: "4 < p" "p - 4 \<notin> fst ` U" "sz + 4 \<le> t" "live info' m' (insert (p - 4, t) U)" using a(4) by simp_all
    have "simple_inv (info', m') (insert (p, t - 4) L)" using p(1,4) usable_insert[of p t U] L by (auto simp: simple_inv_def)
    moreover have "p \<notin> fst ` L" unfolding L by (rule usable_fst) (use p in auto)
    ultimately show ?thesis using False p(3) by (auto intro!: exI[of _ "t - 4"])
  qed
  then show "\<exists>p h'. mem_allocator_simple_alloc h sz = Some (p, h') \<and> kept (snd h) (snd h') L \<and>
      (if p = NULL then simple_inv h' L else \<exists>n \<ge> sz. p \<notin> fst ` L \<and> simple_inv h' (insert (p, n) L))"
    using a(1) k by (intro exI[of _ p] exI[of _ "(info', m')"]) (simp add: mem_allocator_simple_alloc_def)
next
  fix h :: simple_heap and L p n and sz :: nat assume "simple_inv h L" and p: "(p, n) \<in> L" and sz: "sz < 4294967284"
  then obtain U where l: "live (fst h) (snd h) U" and L: "L = usable U" by (auto simp: simple_inv_def)
  obtain c j where c: "(c, j) \<in> U" "p = c + 4" "n = j - 4" using p unfolding L by (rule usableE)
  have L': "L - {(p, n)} = usable (U - {(c, j)})" unfolding L c(2,3) usable_remove[OF l c(1)] ..
  obtain q info' m' t where a: "tk_realloc_impl (fst h) (snd h) (c + 4) sz = Some (q, info', m')"
    "q = NULL \<Longrightarrow> info' = fst h \<and> m' = snd h"
    "q \<noteq> NULL \<Longrightarrow> 4 < q \<and> q - 4 \<notin> fst ` (U - {(c, j)}) \<and> sz + 4 \<le> t \<and> live info' m' (insert (q - 4, t) (U - {(c, j)})) \<and>
      keeps_used (snd h) m' (U - {(c, j)}) \<and> (\<forall>i < min sz (j - 4). m' (q + i) = snd h (c + 4 + i))"
    by (rule live_realloc[OF l c(1) sz]) blast
  have run: "mem_allocator_simple_realloc h p sz = Some (q, (info', m'))" using a(1) c(2) by (simp add: mem_allocator_simple_realloc_def)
  have "if q = NULL then simple_inv (info', m') L \<and> kept (snd h) m' L
       else (\<exists>k \<ge> sz. q \<notin> fst ` (L - {(p, n)}) \<and> simple_inv (info', m') (insert (q, k) (L - {(p, n)})) \<and> (\<forall>i < min sz n. m' (q + i) = snd h (p + i))) \<and>
         kept (snd h) m' (L - {(p, n)})"
  proof (cases "q = NULL")
    case True
    then show ?thesis using a(2) l L by (auto simp: simple_inv_def kept_def)
  next
    case False
    then have q: "4 < q" "q - 4 \<notin> fst ` (U - {(c, j)})" "sz + 4 \<le> t" "live info' m' (insert (q - 4, t) (U - {(c, j)}))"
      "keeps_used (snd h) m' (U - {(c, j)})" "\<forall>i < min sz (j - 4). m' (q + i) = snd h (c + 4 + i)" using a(3) by simp_all
    have "simple_inv (info', m') (insert (q, t - 4) (L - {(p, n)}))"
      using q(1,4) usable_insert[of q t "U - {(c, j)}"] L' by (auto simp: simple_inv_def)
    moreover have "q \<notin> fst ` (L - {(p, n)})" unfolding L' by (rule usable_fst) (use q in auto)
    moreover have "kept (snd h) m' (L - {(p, n)})" unfolding L' by (rule kept_usable[OF q(5)])
    moreover have "sz \<le> t - 4" using q(3) by simp
    ultimately show ?thesis using False q(6) c(2,3) by auto
  qed
  then show "\<exists>q h'. mem_allocator_simple_realloc h p sz = Some (q, h') \<and> (if q = NULL then simple_inv h' L \<and> kept (snd h) (snd h') L
       else (\<exists>k \<ge> sz. q \<notin> fst ` (L - {(p, n)}) \<and> simple_inv h' (insert (q, k) (L - {(p, n)})) \<and> (\<forall>i < min sz n. snd h' (q + i) = snd h (p + i))) \<and>
         kept (snd h) (snd h') (L - {(p, n)}))"
    by (intro exI[of _ q] exI[of _ "(info', m')"] conjI run) (simp only: snd_conv)
next
  fix h :: simple_heap and L p n assume "simple_inv h L" and p: "(p, n) \<in> L"
  then obtain U where l: "live (fst h) (snd h) U" and L: "L = usable U" by (auto simp: simple_inv_def)
  obtain c j where c: "(c, j) \<in> U" "p = c + 4" "n = j - 4" using p unfolding L by (rule usableE)
  have L': "L - {(p, n)} = usable (U - {(c, j)})" unfolding L c(2,3) usable_remove[OF l c(1)] ..
  obtain info' m' where f: "tk_free_impl (fst h) (snd h) (c + 4) = Some (info', m')" "live info' m' (U - {(c, j)})" "keeps_used (snd h) m' (U - {(c, j)})"
    by (rule live_free[OF l c(1)])
  have "simple_inv (info', m') (L - {(p, n)})" unfolding L' using f(2) by (auto simp: simple_inv_def)
  moreover have "kept (snd h) m' (L - {(p, n)})" unfolding L' by (rule kept_usable[OF f(3)])
  ultimately show "\<exists>h'. mem_allocator_simple_free h p = Some h' \<and> simple_inv h' (L - {(p, n)}) \<and> kept (snd h) (snd h') (L - {(p, n)})"
    using f(1) c(2) by (intro exI[of _ "(info', m')"]) (simp add: mem_allocator_simple_free_def)
next
  fix h :: simple_heap and sz :: nat
  show "mem_allocator_simple_realloc h NULL sz = mem_allocator_simple_alloc h sz"
    by (simp add: mem_allocator_simple_realloc_def mem_allocator_simple_alloc_def tk_realloc_impl_def)
  show "mem_allocator_simple_free h NULL = Some h" by (simp add: mem_allocator_simple_free_def tk_free_impl_def)
qed


section \<open>Properties\<close>

text \<open>Everything released, the buffer is one free block again.\<close>

lemma all_free:
  assumes "mem_inv info m bs" and "useds bs = []"
  shows "bs = [(mi_buffer info, mi_size info, True)]"
proof -
  have t: "tiles (mi_buffer info) bs (mi_buffer info + mi_size info)" and mg: "merged bs" using assms(1) mem_inv_tiles by (auto simp: mem_inv_def)
  have fr: "snd (snd b)" if b: "b \<in> set bs" for b
  proof (rule ccontr)
    assume "\<not> snd (snd b)"
    then have "b = (fst b, fst (snd b), False)" by (simp add: prod_eq_iff)
    then have "(fst b, fst (snd b), False) \<in> set bs" using b by simp
    then show False using useds_in[of "fst b" "fst (snd b)" bs] assms(2) by simp
  qed
  show ?thesis
  proof (cases bs rule: remdups_adj.cases)
    case 1
    then have "mi_size info = 0" using t by simp
    then show ?thesis using assms(1) by (simp add: mem_inv_def heap_ok_def)
  next
    case (2 x)
    then show ?thesis using t fr[of x] by (cases x) auto
  next
    case (3 x y zs)
    then show ?thesis using mg fr[of x] fr[of y] by auto
  qed
qed


fun free_each :: "simple_heap \<Rightarrow> ptr list \<Rightarrow> simple_heap option" where
  "free_each h [] = Some h"
| "free_each h (p # ps) = Option.bind (mem_allocator_simple_free h p) (\<lambda>h. free_each h ps)"

lemma free_each_ok:
  assumes "live info m U" and "distinct ps" and "set ps = (\<lambda>a. a + 4) ` fst ` U"
  shows "\<exists>info' m'. free_each (info, m) ps = Some (info', m') \<and> live info' m' {} \<and> mi_buffer info' = mi_buffer info \<and> mi_size info' = mi_size info"
  using assms
proof (induction ps arbitrary: info m U)
  case (Cons p ps)
  have "p \<in> (\<lambda>a. a + 4) ` fst ` U" using Cons.prems(3) by (metis list.set_intros(1))
  then obtain c n where c: "(c, n) \<in> U" "p = c + 4" by auto
  obtain info1 m1 where f: "tk_free_impl info m (c + 4) = Some (info1, m1)" "mi_buffer info1 = mi_buffer info" "mi_size info1 = mi_size info"
    "live info1 m1 (U - {(c, n)})" by (rule live_free[OF Cons.prems(1) c(1)])
  have "fst ` (U - {(c, n)}) = fst ` U - {c}"
  proof -
    have "(c, k) \<in> U \<Longrightarrow> k = n" for k using live_fun[OF Cons.prems(1) c(1)] by blast
    then show ?thesis by force
  qed
  then have "(\<lambda>a. a + 4) ` fst ` (U - {(c, n)}) = (\<lambda>a. a + 4) ` fst ` U - {p}" using c(2) by auto
  moreover have "p \<notin> set ps" using Cons.prems(2) by simp
  then have "set ps = set (p # ps) - {p}" by auto
  ultimately have "set ps = (\<lambda>a. a + 4) ` fst ` (U - {(c, n)})" unfolding Cons.prems(3) by simp
  then obtain info' m' where "free_each (info1, m1) ps = Some (info', m')" "live info' m' {}" "mi_buffer info' = mi_buffer info1" "mi_size info' = mi_size info1"
    using Cons.IH[OF f(4)] Cons.prems(2) by auto
  then show ?case using f(1,2,3) c(2) by (auto simp: mem_allocator_simple_free_def)
qed simp

text \<open>
  C36. Blocks released in any order merge back: when every block in use of a well-formed allocator has
  been released, each by its address, no release goes wrong, and the free list is one block of the
  whole buffer again, with nothing counted as in use.
\<close>

theorem simple_free_all_merges:
  assumes "live info m U" and "distinct ps" and "set ps = (\<lambda>a. a + 4) ` fst ` U"
  shows "\<exists>info' m'. free_each (info, m) ps = Some (info', m') \<and> mi_free_list info' = mi_buffer info \<and>
    nd_size m' (mi_buffer info) = mi_size info \<and> nd_next m' (mi_buffer info) = NULL \<and> nd_prev m' (mi_buffer info) = NULL \<and>
    mi_used_bytes info' = 0 \<and> mi_used_block_nr info' = 0"
proof -
  obtain info' m' where f: "free_each (info, m) ps = Some (info', m')" "live info' m' {}" "mi_buffer info' = mi_buffer info" "mi_size info' = mi_size info"
    using free_each_ok[OF assms] by blast
  then obtain bs where bs: "mem_inv info' m' bs" "useds bs = []" by (auto simp: live_def)
  have "mem_inv info' m' [(mi_buffer info, mi_size info, True)]" using bs all_free[OF bs] f(3,4) by simp
  then show ?thesis using f(1) by (auto simp: mem_inv_def heap_ok_def counts_ok_def)
qed

text \<open>A small allocator: 128 bytes from the address 8.\<close>

lemma sample_heap:
  obtains info m where "mem_allocator_simple_init (\<lambda>_. 0) 8 128 = Some (info, m)" and "mi_buffer info = 8" "mi_size info = 128"
    and "mem_inv info m [(8, 128, True)]" and "live info m {}" and "rep simple_inv snd (info, m) Map.empty"
proof -
  obtain info m where i: "mem_allocator_simple_init (\<lambda>_. 0) 8 128 = Some (info, m)" "mi_buffer info = 8" "mi_size info = 128"
    "mem_inv info m [(8, 128, True)]" by (rule live_init[of 8 128 "\<lambda>_. 0"]) auto
  have l: "live info m {}" unfolding live_def by (intro exI[of _ "[(8, 128, True)]"]) (simp add: i(4))
  moreover have "rep simple_inv snd (info, m) Map.empty"
    using l by (auto simp: rep_def simple_inv_def blocks_of_def holds_def usable_def)
  ultimately show thesis using that i by blast
qed

theorem simple_free_all_merges_witness:
  "\<exists>h p h1 h2. mem_allocator_simple_init (\<lambda>_. 0) 8 128 = Some h \<and> mem_allocator_simple_alloc h 20 = Some (p, h1) \<and> p \<noteq> NULL \<and>
     free_each h1 [p] = Some h2 \<and> mi_free_list (fst h2) = 8 \<and> nd_size (snd h2) 8 = 128 \<and> mi_used_bytes (fst h2) = 0"
proof -
  obtain info m where i: "mem_allocator_simple_init (\<lambda>_. 0) 8 128 = Some (info, m)" "mi_buffer info = 8" "mi_size info = 128"
    "mem_inv info m [(8, 128, True)]" "live info m {}" by (rule sample_heap) blast
  have bs: "block_size 20 = 24" by (simp add: block_size_def round_to_mach_def real_size_def MIN_SIZE_def u32_def)
  obtain p info1 m1 t where a: "tk_alloc_impl info m 20 = Some (p, info1, m1)" "mi_buffer info1 = mi_buffer info" "mi_size info1 = mi_size info"
    "p \<noteq> NULL \<Longrightarrow> 4 < p \<and> p - 4 \<notin> fst ` {} \<and> 20 + 4 \<le> t \<and> live info1 m1 (insert (p - 4, t) {})"
    by (rule live_alloc[OF i(5), of 20]) auto
  have p: "p \<noteq> NULL"
  proof
    assume p: "p = NULL"
    have "if p = NULL then \<forall>a n. (a, n, True) \<in> set [(8, 128, True)] \<longrightarrow> n < block_size 20 else True"
      using alloc_ok[OF i(4), of 20] a(1) by (auto split: if_splits)
    then show False using p bs by simp
  qed
  then have l: "live info1 m1 {(p - 4, t)}" and "4 < p" using a(4) by simp_all
  then obtain info2 m2 where "free_each (info1, m1) [p] = Some (info2, m2)" "mi_free_list info2 = mi_buffer info1" "nd_size m2 (mi_buffer info1) = mi_size info1"
    "mi_used_bytes info2 = 0" using simple_free_all_merges[OF l, of "[p]"] by auto
  then show ?thesis using i(1,2,3) a(1,2,3) p
    by (intro exI[of _ "(info, m)"] exI[of _ p] exI[of _ "(info1, m1)"] exI[of _ "(info2, m2)"]) (simp add: mem_allocator_simple_alloc_def)
qed

text \<open>
  C34. The allocator implements a heap of separate arrays: from a state whose blocks in use hold the
  arrays of \<open>A\<close>, every legal request (an allocation or resizing of less than \<open>2 ^ 32 - 12\<close> bytes, a release
  or resizing of a block in use or NULL, a store inside of a block) runs without touching memory that is
  not the allocator's, and is a step of the arrays: a fresh address with at least the size asked for, or
  NULL and nothing changed; a moved array keeps its content as far as it fits; a release removes its
  array only; a store changes its byte only.
\<close>

theorem simple_allocator_refines:
  assumes "rep simple_inv snd h A" and "op_ok 4294967284 A op"
  shows "\<exists>r h' A'. exec_op poke mem_allocator_simple_alloc mem_allocator_simple_realloc mem_allocator_simple_free h op = Some (r, h') \<and>
    heap_step A op r A' \<and> rep simple_inv snd h' A'"
  by (rule simple.simulation[OF assms])

theorem simple_allocator_refines_witness:
  "\<exists>h r h' A'. mem_allocator_simple_init (\<lambda>_. 0) 8 128 = Some h \<and>
     exec_op poke mem_allocator_simple_alloc mem_allocator_simple_realloc mem_allocator_simple_free h (OpAlloc 20) = Some (r, h') \<and>
     heap_step Map.empty (OpAlloc 20) r A' \<and> rep simple_inv snd h' A'"
proof -
  obtain info m where i: "mem_allocator_simple_init (\<lambda>_. 0) 8 128 = Some (info, m)" "rep simple_inv snd (info, m) Map.empty"
    by (rule sample_heap) blast
  have "op_ok 4294967284 Map.empty (OpAlloc 20)" by simp
  from simple_allocator_refines[OF i(2) this] i(1) show ?thesis by blast
qed

text \<open>
  C35. An allocation of less than \<open>2 ^ 32 - 12\<close> bytes fails exactly when no free block has room for the
  bytes and their header, rounded up. Otherwise the address lies in the buffer with as many bytes after
  it, in what was a free block, and at most 23 bytes more than the rounded size are taken.
\<close>

theorem simple_alloc_fails_iff:
  assumes "mem_inv info m bs" and "s < 4294967284"
  shows "\<exists>p info' m'. tk_alloc_impl info m s = Some (p, info', m') \<and> (p = NULL \<longleftrightarrow> (\<forall>(a, n, f) \<in> set bs. f \<longrightarrow> n < block_size s)) \<and>
    (p \<noteq> NULL \<longrightarrow> mi_buffer info + 4 \<le> p \<and> p + s \<le> mi_buffer info + mi_size info \<and> (\<exists>n. (p - 4, n, True) \<in> set bs \<and> p + s \<le> p - 4 + n) \<and>
      mi_used_bytes info' < mi_used_bytes info + block_size s + 24)"
proof -
  obtain p info' m' bs' where r: "tk_alloc_impl info m s = Some (p, info', m')" "mem_inv info' m' bs'"
    and c: "if p = NULL then info' = info \<and> m' = m \<and> bs' = bs \<and> (\<forall>a n. (a, n, True) \<in> set bs \<longrightarrow> n < block_size s)
     else \<exists>us vs n t rest. bs = us @ (p - 4, n, True) # vs \<and> bs' = us @ (p - 4, t, False) # rest @ vs \<and> useds rest = [] \<and> 4 < p \<and> block_size s \<le> t \<and> t < block_size s + 24 \<and> t \<le> n"
    using alloc_ok[OF assms] by blast
  show ?thesis
  proof (cases "p = NULL")
    case True
    then show ?thesis using r(1) c by auto
  next
    case False
    then obtain us vs n t rest where s: "bs = us @ (p - 4, n, True) # vs" "bs' = us @ (p - 4, t, False) # rest @ vs" "useds rest = []"
      "4 < p" "block_size s \<le> t" "t < block_size s + 24" "t \<le> n" using c by auto
    have inb: "(p - 4, n, True) \<in> set bs" using s(1) by simp
    have h: "heap_ok info m bs" using assms(1) by (simp add: mem_inv_def)
    have sz: "s + 4 \<le> n" using block_size_bounds(1)[OF assms(2)] s(5,7) by simp
    have room: "mi_buffer info + 4 \<le> p" "p + s \<le> mi_buffer info + mi_size info" "p + s \<le> p - 4 + n"
      using heap_blocks(7,8)[OF h inb] s(4) sz by simp_all
    have "mi_used_bytes info' = mi_used_bytes info + t"
      using assms(1) r(2) s(1,2,3) by (simp add: mem_inv_def counts_ok_def)
    then have "mi_used_bytes info' < mi_used_bytes info + block_size s + 24" using s(6) by simp
    moreover have "\<not> (\<forall>(a, n, f) \<in> set bs. f \<longrightarrow> n < block_size s)" using inb s(5,7) by fastforce
    ultimately show ?thesis using r(1) False room inb by blast
  qed
qed

theorem simple_alloc_fails_iff_witness:
  "\<exists>info m. mem_allocator_simple_init (\<lambda>_. 0) 8 128 = Some (info, m) \<and>
     (\<exists>p info' m'. tk_alloc_impl info m 120 = Some (p, info', m') \<and> p \<noteq> NULL) \<and> (\<exists>info' m'. tk_alloc_impl info m 125 = Some (NULL, info', m'))"
proof -
  obtain info m where i: "mem_allocator_simple_init (\<lambda>_. 0) 8 128 = Some (info, m)" "mem_inv info m [(8, 128, True)]" by (rule sample_heap) blast
  have bs: "block_size 120 = 128" "block_size 125 = 136" by (simp_all add: block_size_def round_to_mach_def real_size_def MIN_SIZE_def u32_def)
  have "\<exists>p info' m'. tk_alloc_impl info m 120 = Some (p, info', m') \<and> p \<noteq> NULL"
    using simple_alloc_fails_iff[OF i(2), of 120] bs by fastforce
  moreover have "\<exists>info' m'. tk_alloc_impl info m 125 = Some (NULL, info', m')"
    using simple_alloc_fails_iff[OF i(2), of 125] bs by fastforce
  ultimately show ?thesis using i(1) by blast
qed

end
