(* ===== verification/MemOom.thy ===== *)
theory MemOom
  imports MemAlloc
begin

text \<open>
  The layer that retries when memory runs out, \<open>src/src/tkc/mem_allocator_oom.h\<close>, the lock around an
  allocator, \<open>src/src/tkc/mem_allocator_lock.h\<close>, and the entry points of \<open>src/src/tkc/mem.c\<close>.

  The allocator underneath is a parameter: it is the C library's where there is one and that of
  \<open>MemSimple\<close> elsewhere. The application's callback is one too; it may release blocks.
\<close>

section \<open>Definitions\<close>

definition TRY_MAX_TIMES :: nat where
  "TRY_MAX_TIMES = 5"

text \<open>The callback gets the number of tries and the size; \<open>None\<close> is no callback.\<close>

type_synonym 's on_oom = "(nat \<Rightarrow> nat \<Rightarrow> 's \<Rightarrow> 's) option"

definition tk_mem_on_out_of_memory :: "'s on_oom \<Rightarrow> nat \<Rightarrow> nat \<Rightarrow> 's \<Rightarrow> 's" where
  "tk_mem_on_out_of_memory cb tried sz s = (case cb of None \<Rightarrow> s | Some f \<Rightarrow> f tried sz s)"

function oom_try :: "('s \<Rightarrow> (ptr \<times> 's) option) \<Rightarrow> 's on_oom \<Rightarrow> nat \<Rightarrow> nat \<Rightarrow> 's \<Rightarrow> (ptr \<times> 's) option" where
  "oom_try get cb sz tried s =
     Option.bind (get s) (\<lambda>(addr, s).
       if addr \<noteq> NULL then Some (addr, s)
       else
         (let s = tk_mem_on_out_of_memory cb (tried + 1) sz s
          in if tried + 1 < TRY_MAX_TIMES then oom_try get cb sz (tried + 1) s else Some (NULL, s)))"
  by pat_completeness auto
termination
  by (relation "measure (\<lambda>(get, cb, sz, tried, s). TRY_MAX_TIMES - tried)") auto

declare oom_try.simps [simp del]

definition mem_allocator_oom_alloc :: "('s \<Rightarrow> nat \<Rightarrow> (ptr \<times> 's) option) \<Rightarrow> 's on_oom \<Rightarrow> 's \<Rightarrow> nat \<Rightarrow> (ptr \<times> 's) option" where
  "mem_allocator_oom_alloc alloc cb s sz = oom_try (\<lambda>s. if sz = 0xffffffff then Some (NULL, s) else alloc s sz) cb sz 0 s"

definition mem_allocator_oom_realloc :: "('s \<Rightarrow> ptr \<Rightarrow> nat \<Rightarrow> (ptr \<times> 's) option) \<Rightarrow> 's on_oom \<Rightarrow> 's \<Rightarrow> ptr \<Rightarrow> nat \<Rightarrow> (ptr \<times> 's) option" where
  "mem_allocator_oom_realloc realloc cb s p sz = oom_try (\<lambda>s. realloc s p sz) cb sz 0 s"

definition mem_allocator_oom_free :: "('s \<Rightarrow> ptr \<Rightarrow> 's option) \<Rightarrow> 's \<Rightarrow> ptr \<Rightarrow> 's option" where
  "mem_allocator_oom_free free s p = (if p \<noteq> NULL then free s p else Some s)"

text \<open>The lock: whether it is taken is for the system to say.\<close>

definition mem_allocator_lock_alloc :: "bool \<Rightarrow> ('s \<Rightarrow> nat \<Rightarrow> (ptr \<times> 's) option) \<Rightarrow> 's \<Rightarrow> nat \<Rightarrow> (ptr \<times> 's) option" where
  "mem_allocator_lock_alloc locked alloc s sz = (if locked then alloc s sz else Some (NULL, s))"

definition mem_allocator_lock_realloc :: "bool \<Rightarrow> ('s \<Rightarrow> ptr \<Rightarrow> nat \<Rightarrow> (ptr \<times> 's) option) \<Rightarrow> 's \<Rightarrow> ptr \<Rightarrow> nat \<Rightarrow> (ptr \<times> 's) option" where
  "mem_allocator_lock_realloc locked realloc s p sz = (if locked then realloc s p sz else Some (NULL, s))"

definition mem_allocator_lock_free :: "bool \<Rightarrow> ('s \<Rightarrow> ptr \<Rightarrow> 's option) \<Rightarrow> 's \<Rightarrow> ptr \<Rightarrow> 's option" where
  "mem_allocator_lock_free locked free s p = (if locked then free s p else Some s)"

text \<open>\<open>memset(addr, 0, n)\<close> through the stores of the allocator's memory.\<close>

fun zero_bytes :: "('s \<Rightarrow> ptr \<Rightarrow> byte \<Rightarrow> 's) \<Rightarrow> ptr \<Rightarrow> nat \<Rightarrow> 's \<Rightarrow> 's" where
  "zero_bytes store p 0 s = s"
| "zero_bytes store p (Suc n) s = store (zero_bytes store p n s) (p + n) 0"

definition tk_calloc :: "('s \<Rightarrow> ptr \<Rightarrow> byte \<Rightarrow> 's) \<Rightarrow> ('s \<Rightarrow> nat \<Rightarrow> (ptr \<times> 's) option) \<Rightarrow> 's on_oom \<Rightarrow> 's \<Rightarrow> nat \<Rightarrow> nat \<Rightarrow> (ptr \<times> 's) option" where
  "tk_calloc store alloc cb s nmemb sz =
     (let total_size = u32 (sz * nmemb)
      in Option.bind (mem_allocator_oom_alloc alloc cb s total_size) (\<lambda>(addr, s).
           if addr \<noteq> NULL then Some (addr, zero_bytes store addr total_size s) else Some (NULL, s)))"

definition tk_alloc :: "('s \<Rightarrow> nat \<Rightarrow> (ptr \<times> 's) option) \<Rightarrow> 's on_oom \<Rightarrow> 's \<Rightarrow> nat \<Rightarrow> (ptr \<times> 's) option" where
  "tk_alloc alloc cb s sz = mem_allocator_oom_alloc alloc cb s sz"

definition tk_realloc :: "('s \<Rightarrow> ptr \<Rightarrow> nat \<Rightarrow> (ptr \<times> 's) option) \<Rightarrow> 's on_oom \<Rightarrow> 's \<Rightarrow> ptr \<Rightarrow> nat \<Rightarrow> (ptr \<times> 's) option" where
  "tk_realloc realloc cb s p sz = mem_allocator_oom_realloc realloc cb s p sz"

definition tk_free :: "('s \<Rightarrow> ptr \<Rightarrow> 's option) \<Rightarrow> 's \<Rightarrow> ptr \<Rightarrow> 's option" where
  "tk_free free s p = mem_allocator_oom_free free s p"

section \<open>The retries\<close>

text \<open>The states between the tries that fail.\<close>

fun oom_states :: "('s \<Rightarrow> (ptr \<times> 's) option) \<Rightarrow> 's on_oom \<Rightarrow> nat \<Rightarrow> nat \<Rightarrow> 's \<Rightarrow> 's" where
  "oom_states get cb sz 0 s = s"
| "oom_states get cb sz (Suc k) s = tk_mem_on_out_of_memory cb (Suc k) sz (case get (oom_states get cb sz k s) of None \<Rightarrow> s | Some (_, s') \<Rightarrow> s')"

definition fails :: "('s \<Rightarrow> (ptr \<times> 's) option) \<Rightarrow> 's \<Rightarrow> bool" where
  "fails get s \<longleftrightarrow> (\<exists>s'. get s = Some (NULL, s'))"

lemma oom_try_step:
  assumes "\<And>j. j < k \<Longrightarrow> fails get (oom_states get cb sz j s)" and "k < TRY_MAX_TIMES"
  shows "oom_try get cb sz 0 s = oom_try get cb sz k (oom_states get cb sz k s)"
  using assms
proof (induction k)
  case (Suc k)
  then obtain s' where f: "get (oom_states get cb sz k s) = Some (NULL, s')" by (auto simp: fails_def)
  have "oom_try get cb sz 0 s = oom_try get cb sz k (oom_states get cb sz k s)" using Suc by simp
  then show ?case using f Suc.prems(2) by (simp add: oom_try.simps[of get cb sz k] Let_def)
qed simp

text \<open>
  C37. Running out of memory: a request that the allocator refuses is tried five times at most, with the
  callback told after each refusal how many there were and the size, and every try sees what the
  callback before it released. It gets the address of the first try that succeeds; NULL only after five
  refusals and five calls.
\<close>

theorem oom_retries:
  "(k < TRY_MAX_TIMES \<and> (\<forall>j < k. fails get (oom_states get cb sz j s)) \<and> get (oom_states get cb sz k s) = Some (p, s') \<and> p \<noteq> NULL \<longrightarrow>
      oom_try get cb sz 0 s = Some (p, s')) \<and>
   ((\<forall>j < TRY_MAX_TIMES. fails get (oom_states get cb sz j s)) \<longrightarrow>
      oom_try get cb sz 0 s = Some (NULL, oom_states get cb sz TRY_MAX_TIMES s))"
proof (intro conjI impI)
  assume k: "k < TRY_MAX_TIMES \<and> (\<forall>j < k. fails get (oom_states get cb sz j s)) \<and> get (oom_states get cb sz k s) = Some (p, s') \<and> p \<noteq> NULL"
  then have "oom_try get cb sz 0 s = oom_try get cb sz k (oom_states get cb sz k s)" by (intro oom_try_step) auto
  then show "oom_try get cb sz 0 s = Some (p, s')" using k by (subst (asm) (2) oom_try.simps) simp
next
  assume f: "\<forall>j < TRY_MAX_TIMES. fails get (oom_states get cb sz j s)"
  have "oom_try get cb sz 0 s = oom_try get cb sz 4 (oom_states get cb sz 4 s)" by (rule oom_try_step) (use f in \<open>auto simp: TRY_MAX_TIMES_def\<close>)
  moreover obtain s' where s': "get (oom_states get cb sz 4 s) = Some (NULL, s')" using f[rule_format, of 4] by (auto simp: TRY_MAX_TIMES_def fails_def)
  moreover have T: "TRY_MAX_TIMES = Suc 4" by (simp add: TRY_MAX_TIMES_def)
  moreover have "oom_states get cb sz (Suc 4) s = tk_mem_on_out_of_memory cb (Suc 4) sz s'" by (subst oom_states.simps(2)) (simp add: s')
  ultimately show "oom_try get cb sz 0 s = Some (NULL, oom_states get cb sz TRY_MAX_TIMES s)"
    by (subst (asm) (2) oom_try.simps) simp
qed


theorem oom_retries_witness:
  "oom_try (\<lambda>s. if s < (3::nat) then Some (NULL, s) else Some (40, s)) (Some (\<lambda>tried sz s. Suc s)) 16 0 0 = Some (40, 3) \<and>
   oom_try (\<lambda>s. if s < (9::nat) then Some (NULL, s) else Some (40, s)) (Some (\<lambda>tried sz s. Suc s)) 16 0 0 = Some (NULL, 5)"
proof -
  let ?cb = "Some (\<lambda>(tried::nat) (sz::nat) s. Suc s)"
  have st: "k \<le> n \<Longrightarrow> oom_states (\<lambda>s. if s < n then Some (NULL, s) else Some (40, s)) ?cb 16 k 0 = k" for n k :: nat
    by (induction k) (simp_all add: tk_mem_on_out_of_memory_def)
  have "oom_try (\<lambda>s. if s < (3::nat) then Some (NULL, s) else Some (40, s)) ?cb 16 0 0 = Some (40, 3)"
    by (rule oom_retries[THEN conjunct1, rule_format, of 3]) (auto simp: st fails_def TRY_MAX_TIMES_def)
  moreover have "oom_try (\<lambda>s. if s < (9::nat) then Some (NULL, s) else Some (40, s)) ?cb 16 0 0 =
      Some (NULL, oom_states (\<lambda>s. if s < (9::nat) then Some (NULL, s) else Some (40, s)) ?cb 16 TRY_MAX_TIMES 0)"
    by (rule oom_retries[THEN conjunct2, rule_format]) (auto simp: st fails_def TRY_MAX_TIMES_def)
  then have "oom_try (\<lambda>s. if s < (9::nat) then Some (NULL, s) else Some (40, s)) ?cb 16 0 0 = Some (NULL, 5)"
    by (simp add: st TRY_MAX_TIMES_def)
  ultimately show ?thesis by blast
qed

section \<open>The contract above the retries\<close>

text \<open>What the callback may do: release blocks, and leave the others as they are.\<close>

definition on_oom_ok :: "('s \<Rightarrow> (ptr \<times> nat) set \<Rightarrow> bool) \<Rightarrow> ('s \<Rightarrow> mem) \<Rightarrow> 's on_oom \<Rightarrow> bool" where
  "on_oom_ok J bytes cb \<longleftrightarrow> (\<forall>f. cb = Some f \<longrightarrow> (\<forall>t z s A. rep J bytes s A \<longrightarrow> (\<exists>A'. A' \<subseteq>\<^sub>m A \<and> rep J bytes (f t z s) A')))"

lemma on_oom_step:
  assumes "on_oom_ok J bytes cb" and "rep J bytes s A"
  obtains A' where "A' \<subseteq>\<^sub>m A" and "rep J bytes (tk_mem_on_out_of_memory cb t z s) A'"
proof (cases cb)
  case None
  then show thesis using that[of A] assms(2) by (simp add: tk_mem_on_out_of_memory_def)
next
  case (Some f)
  then obtain A' where "A' \<subseteq>\<^sub>m A" "rep J bytes (f t z s) A'" using assms unfolding on_oom_ok_def by blast
  then show thesis using that[of A'] Some by (simp add: tk_mem_on_out_of_memory_def)
qed

text \<open>
  The state after a request: NULL, or a fresh array. The blocks from before are all there when nobody was
  asked to release any (\<open>keep\<close>), and otherwise some may be gone.
\<close>

definition got :: "('s \<Rightarrow> (ptr \<times> nat) set \<Rightarrow> bool) \<Rightarrow> ('s \<Rightarrow> mem) \<Rightarrow> bool \<Rightarrow> nat \<Rightarrow> arrays \<Rightarrow> ptr \<Rightarrow> 's \<Rightarrow> bool" where
  "got J bytes keep sz A p s \<longleftrightarrow> (\<exists>A'. A' \<subseteq>\<^sub>m A \<and> (keep \<longrightarrow> A' = A) \<and>
     (if p = NULL then rep J bytes s A' else p \<notin> dom A' \<and> (\<exists>b. sz \<le> length b \<and> rep J bytes s (A'(p \<mapsto> b)))))"

lemma got_null: "rep J bytes s A \<Longrightarrow> got J bytes keep sz A NULL s"
  unfolding got_def by (intro exI[of _ A]) simp

lemma got_new: "p \<notin> dom A \<Longrightarrow> sz \<le> length b \<Longrightarrow> p \<noteq> NULL \<Longrightarrow> rep J bytes s (A(p \<mapsto> b)) \<Longrightarrow> got J bytes keep sz A p s"
  unfolding got_def by (intro exI[of _ A]) auto

lemma got_mono: "got J bytes keep sz A' p s \<Longrightarrow> A' \<subseteq>\<^sub>m A \<Longrightarrow> (keep \<Longrightarrow> A' = A) \<Longrightarrow> got J bytes keep sz A p s"
  unfolding got_def using map_le_trans by blast

text \<open>Nobody is asked when there is no callback, or when the first try succeeds.\<close>

definition unasked :: "('s \<Rightarrow> (ptr \<times> 's) option) \<Rightarrow> 's on_oom \<Rightarrow> 's \<Rightarrow> bool" where
  "unasked get cb s \<longleftrightarrow> cb = None \<or> \<not> fails get s"

lemma oom_try_got:
  assumes get: "\<And>s A. rep J bytes s A \<Longrightarrow> \<exists>p s'. get s = Some (p, s') \<and> got J bytes True sz A p s'" and cb: "on_oom_ok J bytes cb"
  shows "rep J bytes s A \<Longrightarrow> \<exists>p s'. oom_try get cb sz tried s = Some (p, s') \<and> got J bytes (unasked get cb s) sz A p s'"
proof (induction "TRY_MAX_TIMES - tried" arbitrary: tried s A rule: less_induct)
  case less
  let ?keep = "unasked get cb s"
  obtain p s1 where g: "get s = Some (p, s1)" "got J bytes True sz A p s1" using get[OF less.prems] by blast
  show ?case
  proof (cases "p = NULL")
    case False
    moreover have "got J bytes ?keep sz A p s1" using g(2) unfolding got_def by blast
    ultimately show ?thesis using g(1) by (subst oom_try.simps) simp
  next
    case True
    then have A1: "rep J bytes s1 A" and none: "?keep \<Longrightarrow> cb = None" using g by (auto simp: got_def unasked_def fails_def)
    let ?s2 = "tk_mem_on_out_of_memory cb (tried + 1) sz s1"
    obtain A2 where A2: "A2 \<subseteq>\<^sub>m A" "rep J bytes ?s2 A2" "?keep \<Longrightarrow> A2 = A"
    proof (cases cb)
      case None
      then show thesis using that[of A] A1 by (simp add: tk_mem_on_out_of_memory_def)
    next
      case (Some f)
      then show thesis using on_oom_step[OF cb A1] none that by blast
    qed
    show ?thesis
    proof (cases "tried + 1 < TRY_MAX_TIMES")
      case True
      obtain q s' where q: "oom_try get cb sz (tried + 1) ?s2 = Some (q, s')" "got J bytes (unasked get cb ?s2) sz A2 q s'"
        using less.hyps[OF _ A2(2), of "tried + 1"] diff_less_mono2[of tried "tried + 1" TRY_MAX_TIMES] True by fastforce
      have "?keep \<Longrightarrow> unasked get cb ?s2" using none by (simp add: unasked_def)
      then have "got J bytes ?keep sz A2 q s'" using q(2) unfolding got_def by blast
      then have "got J bytes ?keep sz A q s'" by (rule got_mono[OF _ A2(1,3)])
      then show ?thesis using g(1) \<open>p = NULL\<close> True q(1) by (subst oom_try.simps) (simp add: Let_def)
    next
      case False
      moreover have "got J bytes ?keep sz A NULL ?s2" using A2 by (auto simp: got_def)
      ultimately show ?thesis using g(1) \<open>p = NULL\<close> by (subst oom_try.simps) (simp add: Let_def)
    qed
  qed
qed

context allocator
begin

lemma alloc_got:
  assumes "rep inv bytes s A" and "sz < limit"
  shows "\<exists>p s'. alloc s sz = Some (p, s') \<and> got inv bytes True sz A p s'"
proof -
  obtain p s' A' where a: "alloc s sz = Some (p, s')" "heap_step A (OpAlloc sz) p A'" "rep inv bytes s' A'"
    using step_alloc[OF assms] by blast
  from a(2) have "got inv bytes True sz A p s'"
  proof cases
    case alloc_fail
    then show ?thesis using a(3) got_null by simp
  next
    case (alloc_new b)
    show ?thesis by (rule got_new[of p A sz b]) (use alloc_new a(3) in simp_all)
  qed
  then show ?thesis using a(1) by blast
qed

text \<open>A request as the retries see it.\<close>

abbreviation request :: "nat \<Rightarrow> 's \<Rightarrow> (ptr \<times> 's) option" where
  "request sz \<equiv> \<lambda>s. if sz = 0xffffffff then Some (NULL, s) else alloc s sz"

lemma oom_alloc_got:
  assumes "rep inv bytes s A" and "sz < limit" and "on_oom_ok inv bytes cb"
  shows "\<exists>p s'. mem_allocator_oom_alloc alloc cb s sz = Some (p, s') \<and> got inv bytes (unasked (request sz) cb s) sz A p s'"
  unfolding mem_allocator_oom_alloc_def
proof (rule oom_try_got[OF _ assms(3,1)])
  fix s A assume r: "rep inv bytes s A"
  have "got inv bytes True sz A NULL s" by (rule got_null[OF r])
  then show "\<exists>p s'. request sz s = Some (p, s') \<and> got inv bytes True sz A p s'"
    using alloc_got[OF r assms(2)] by auto
qed

lemma zero_bytes_rep:
  assumes "rep inv bytes s A" and "A p = Some b" and "n \<le> length b"
  shows "rep inv bytes (zero_bytes store p n s) (A(p \<mapsto> replicate n 0 @ drop n b))"
  using assms(3)
proof (induction n)
  case 0
  have "A(p \<mapsto> b) = A" using assms(2) by auto
  then show ?case using assms(1) by simp
next
  case (Suc n)
  let ?b = "replicate n 0 @ drop n b"
  have r: "rep inv bytes (zero_bytes store p n s) (A(p \<mapsto> ?b))" by (rule Suc.IH) (use Suc.prems in simp)
  have "rep inv bytes (store (zero_bytes store p n s) (p + n) 0) ((A(p \<mapsto> ?b))(p \<mapsto> ?b[n := 0]))"
    by (rule step_store[of "zero_bytes store p n s" "A(p \<mapsto> ?b)" p ?b n 0], rule r) (use Suc.prems in simp_all)
  moreover have "?b[n := 0] = replicate (Suc n) 0 @ drop (Suc n) b"
  proof -
    have d: "drop n b = b ! n # drop (Suc n) b" using Suc.prems by (simp add: Cons_nth_drop_Suc)
    show ?thesis by (subst d) (simp add: list_update_append replicate_append_same[symmetric])
  qed
  ultimately show ?case by (simp only: zero_bytes.simps fun_upd_upd)
qed

lemma calloc_zeroes:
  assumes r: "rep inv bytes s A" and n: "nmemb * sz < limit" "nmemb * sz < 2 ^ 32 - 1" and cb: "on_oom_ok inv bytes cb"
  shows "\<exists>p s' A'. tk_calloc store alloc cb s nmemb sz = Some (p, s') \<and> A' \<subseteq>\<^sub>m A \<and>
    (cb = None \<or> \<not> fails (\<lambda>s. alloc s (nmemb * sz)) s \<longrightarrow> A' = A) \<and>
    (if p = NULL then rep inv bytes s' A'
     else p \<notin> dom A' \<and> (\<exists>b. take (nmemb * sz) b = replicate (nmemb * sz) 0 \<and> rep inv bytes s' (A'(p \<mapsto> b))))"
proof -
  let ?keep = "cb = None \<or> \<not> fails (\<lambda>s. alloc s (nmemb * sz)) s"
  have t: "u32 (sz * nmemb) = nmemb * sz" using n(2) by (simp add: mult.commute)
  have "unasked (request (nmemb * sz)) cb s \<longleftrightarrow> ?keep" using n(2) by (simp add: unasked_def)
  then obtain p s1 A' where g: "mem_allocator_oom_alloc alloc cb s (nmemb * sz) = Some (p, s1)" "A' \<subseteq>\<^sub>m A" "?keep \<longrightarrow> A' = A"
    "if p = NULL then rep inv bytes s1 A' else p \<notin> dom A' \<and> (\<exists>b. nmemb * sz \<le> length b \<and> rep inv bytes s1 (A'(p \<mapsto> b)))"
    using oom_alloc_got[OF r n(1) cb] unfolding got_def by auto
  show ?thesis
  proof (cases "p = NULL")
    case True
    then show ?thesis using g t by (intro exI[of _ p] exI[of _ s1] exI[of _ A']) (auto simp: tk_calloc_def Let_def)
  next
    case False
    then obtain b where b: "p \<notin> dom A'" "nmemb * sz \<le> length b" "rep inv bytes s1 (A'(p \<mapsto> b))" using g(4) by auto
    let ?n = "nmemb * sz"
    have "rep inv bytes (zero_bytes store p ?n s1) ((A'(p \<mapsto> b))(p \<mapsto> replicate ?n 0 @ drop ?n b))"
      by (rule zero_bytes_rep[OF b(3) _ b(2)]) simp
    then have "rep inv bytes (zero_bytes store p ?n s1) (A'(p \<mapsto> replicate ?n 0 @ drop ?n b))" by simp
    moreover have "take ?n (replicate ?n 0 @ drop ?n b) = replicate ?n 0" by simp
    moreover have "tk_calloc store alloc cb s nmemb sz = Some (p, zero_bytes store p ?n s1)"
      using g(1) t False by (simp add: tk_calloc_def Let_def)
    ultimately show ?thesis using False g(2,3) b(1)
      by (intro exI[of _ p] exI[of _ "zero_bytes store p ?n s1"] exI[of _ A']) (simp only: if_False, blast)
  qed
qed

end

text \<open>
  C38. \<open>tk_calloc\<close> on the simple allocator, with any callback that only releases blocks: when the
  number of bytes is below \<open>2 ^ 32 - 12\<close>, it gives NULL, or a block that no one else has whose bytes
  are all zero. Without a callback, or when the first try succeeds, all other blocks are there and hold what they
  held; otherwise those that the callback has not released.
\<close>

theorem tk_calloc_zeroes:
  assumes "rep simple_inv snd h A" and "nmemb * sz < 4294967284" and "on_oom_ok simple_inv snd cb"
  shows "\<exists>p h' A'. tk_calloc poke mem_allocator_simple_alloc cb h nmemb sz = Some (p, h') \<and> A' \<subseteq>\<^sub>m A \<and>
    (cb = None \<or> \<not> fails (\<lambda>h. mem_allocator_simple_alloc h (nmemb * sz)) h \<longrightarrow> A' = A) \<and>
    (if p = NULL then rep simple_inv snd h' A'
     else p \<notin> dom A' \<and> (\<exists>b. take (nmemb * sz) b = replicate (nmemb * sz) 0 \<and> rep simple_inv snd h' (A'(p \<mapsto> b))))"
  by (rule simple.calloc_zeroes[OF assms(1,2) _ assms(3)]) (use assms(2) in simp)

text \<open>Twice, without a callback: the second block leaves the first one alone.\<close>

theorem tk_calloc_zeroes_witness:
  "\<exists>h p h1 A. mem_allocator_simple_init (\<lambda>_. 0) 8 128 = Some h \<and> tk_calloc poke mem_allocator_simple_alloc None h 3 4 = Some (p, h1) \<and>
     rep simple_inv snd h1 A \<and>
     (\<exists>q h2. tk_calloc poke mem_allocator_simple_alloc None h1 5 2 = Some (q, h2) \<and>
       (if q = NULL then rep simple_inv snd h2 A
        else q \<notin> dom A \<and> (\<exists>b. take 10 b = replicate 10 0 \<and> rep simple_inv snd h2 (A(q \<mapsto> b)))))"
proof -
  obtain info m where i: "mem_allocator_simple_init (\<lambda>_. 0) 8 128 = Some (info, m)" "rep simple_inv snd (info, m) Map.empty"
    by (rule sample_heap) blast
  have cb: "on_oom_ok simple_inv snd None" by (simp add: on_oom_ok_def)
  obtain p h1 where p: "tk_calloc poke mem_allocator_simple_alloc None (info, m) 3 4 = Some (p, h1)"
    "if p = NULL then rep simple_inv snd h1 Map.empty
     else p \<notin> dom (Map.empty :: arrays) \<and> (\<exists>b. take (3 * 4) b = replicate (3 * 4) 0 \<and> rep simple_inv snd h1 (Map.empty(p \<mapsto> b)))"
    using tk_calloc_zeroes[OF i(2) _ cb, of 3 4] by auto
  from p(2) obtain A where A: "rep simple_inv snd h1 A" by (auto split: if_splits)
  obtain q h2 where "tk_calloc poke mem_allocator_simple_alloc None h1 5 2 = Some (q, h2)"
    "if q = NULL then rep simple_inv snd h2 A else q \<notin> dom A \<and> (\<exists>b. take (5 * 2) b = replicate (5 * 2) 0 \<and> rep simple_inv snd h2 (A(q \<mapsto> b)))"
    using tk_calloc_zeroes[OF A _ cb, of 5 2] by auto
  then show ?thesis using i(1) p(1) A by (intro exI[of _ "(info, m)"] exI[of _ p] exI[of _ h1] exI[of _ A]) auto
qed

end
