(* ===== verification/Values.thy ===== *)
theory Values
  imports Utf8 "HOL-Library.Monad_Syntax" "HOL-Library.Signed_Division"
begin

unbundle bit_operations_syntax

text \<open>
  The generic value of \<open>src/src/tkc/value.c\<close>: a tag and a union, the setters and the getters with their
  conversions, comparison, and the operations that the expression engine uses.

  The field \<open>sub_type\<close>, which no code of the file uses, is left out. The union is its active member;
  reading another one is \<open>None\<close>, as is what C leaves undefined (signed overflow, a shift by the width of the
  operand or more, a left shift of a negative number or out of the range of its type, the quotient of the
  smallest number by -1, a string behind a dangling pointer). What C leaves to the implementation is as compilers have it: a
  number that is converted to a type it does not fit in is cut to its width, and a right shift copies the sign.
  Integers are \<open>int\<close> with the cut to the width of a C type written out. Floating
  point arithmetic is that of the machine: a value of an abstract type with the operations as fields of
  \<open>host\<close>, which also gives the strings in memory. The conversions of texts to numbers are those of
  \<open>src/src/tkc/utils.c\<close> over the C library's.
\<close>

section \<open>C integers\<close>

definition c_s :: "nat \<Rightarrow> int \<Rightarrow> int" where
  "c_s w x = (x + 2 ^ (w - 1)) mod 2 ^ w - 2 ^ (w - 1)"

definition c_u :: "nat \<Rightarrow> int \<Rightarrow> int" where
  "c_u w x = x mod 2 ^ w"

section \<open>Values\<close>

datatype value_type =
    VT_INVALID | VT_BOOL | VT_INT8 | VT_UINT8 | VT_INT16 | VT_UINT16 | VT_INT32 | VT_UINT32 | VT_INT64 | VT_UINT64
  | VT_POINTER | VT_FLOAT | VT_FLOAT32 | VT_DOUBLE | VT_STRING | VT_WSTRING | VT_OBJECT | VT_SIZED_STRING | VT_BINARY
  | VT_UBJSON | VT_TOKEN | VT_GRADIENT | VT_ID | VT_FUNC | VT_FUNC_DEF | VT_POINTER_REF | VT_BITMAP | VT_RECT

text \<open>The numbers of the enumeration.\<close>

fun vt_code :: "value_type \<Rightarrow> nat" where
  "vt_code VT_INVALID = 0" | "vt_code VT_BOOL = 1" | "vt_code VT_INT8 = 2" | "vt_code VT_UINT8 = 3" | "vt_code VT_INT16 = 4"
| "vt_code VT_UINT16 = 5" | "vt_code VT_INT32 = 6" | "vt_code VT_UINT32 = 7" | "vt_code VT_INT64 = 8" | "vt_code VT_UINT64 = 9"
| "vt_code VT_POINTER = 10" | "vt_code VT_FLOAT = 11" | "vt_code VT_FLOAT32 = 12" | "vt_code VT_DOUBLE = 13" | "vt_code VT_STRING = 14"
| "vt_code VT_WSTRING = 15" | "vt_code VT_OBJECT = 16" | "vt_code VT_SIZED_STRING = 17" | "vt_code VT_BINARY = 18" | "vt_code VT_UBJSON = 19"
| "vt_code VT_TOKEN = 20" | "vt_code VT_GRADIENT = 21" | "vt_code VT_ID = 22" | "vt_code VT_FUNC = 23" | "vt_code VT_FUNC_DEF = 24"
| "vt_code VT_POINTER_REF = 25" | "vt_code VT_BITMAP = 26" | "vt_code VT_RECT = 27"

text \<open>The members of the union.\<close>

datatype 'r uval =
    M_b int | M_i8 int | M_u8 int | M_i16 int | M_u16 int | M_i32 int | M_u32 int | M_i64 int | M_u64 int | M_token int
  | M_f 'r | M_f32 'r | M_f64 'r | M_ptr ptr | M_str ptr | M_wstr ptr | M_object ptr | M_binary_data nat ptr | M_sized_str nat ptr
  | M_id int int ptr | M_ptr_ref ptr | M_func nat ptr | M_bitmap ptr | M_rect int int int int

record 'r val =
  v_type :: value_type
  v_free_handle :: bool
  v_value :: "'r uval"

text \<open>The member that the code reads for a tag: of the integers, of the floating point numbers, of the pointers.\<close>

fun int_member :: "value_type \<Rightarrow> 'r uval \<Rightarrow> int option" where
  "int_member t (M_b x) = (if t = VT_BOOL then Some x else None)"
| "int_member t (M_i8 x) = (if t = VT_INT8 then Some x else None)"
| "int_member t (M_u8 x) = (if t = VT_UINT8 then Some x else None)"
| "int_member t (M_i16 x) = (if t = VT_INT16 then Some x else None)"
| "int_member t (M_u16 x) = (if t = VT_UINT16 then Some x else None)"
| "int_member t (M_i32 x) = (if t = VT_INT32 then Some x else None)"
| "int_member t (M_u32 x) = (if t = VT_UINT32 then Some x else None)"
| "int_member t (M_i64 x) = (if t = VT_INT64 then Some x else None)"
| "int_member t (M_u64 x) = (if t = VT_UINT64 then Some x else None)"
| "int_member t (M_token x) = (if t = VT_TOKEN then Some x else None)"
| "int_member _ _ = None"

fun fp_member :: "value_type \<Rightarrow> 'r uval \<Rightarrow> 'r option" where
  "fp_member t (M_f x) = (if t = VT_FLOAT then Some x else None)"
| "fp_member t (M_f32 x) = (if t = VT_FLOAT32 then Some x else None)"
| "fp_member t (M_f64 x) = (if t = VT_DOUBLE then Some x else None)"
| "fp_member _ _ = None"

fun ptr_member :: "value_type \<Rightarrow> 'r uval \<Rightarrow> ptr option" where
  "ptr_member t (M_ptr p) = (if t = VT_POINTER \<or> t = VT_FUNC_DEF then Some p else None)"
| "ptr_member t (M_str p) = (if t = VT_STRING then Some p else None)"
| "ptr_member t (M_wstr p) = (if t = VT_WSTRING then Some p else None)"
| "ptr_member t (M_object p) = (if t = VT_OBJECT then Some p else None)"
| "ptr_member t (M_ptr_ref p) = (if t = VT_POINTER_REF then Some p else None)"
| "ptr_member t (M_binary_data n p) = (if t = VT_BINARY \<or> t = VT_UBJSON \<or> t = VT_GRADIENT then Some p else None)"
| "ptr_member t (M_sized_str n p) = (if t = VT_SIZED_STRING then Some p else None)"
| "ptr_member t (M_id i j p) = (if t = VT_ID then Some p else None)"
| "ptr_member t (M_func n p) = (if t = VT_FUNC then Some p else None)"
| "ptr_member t (M_bitmap p) = (if t = VT_BITMAP then Some p else None)"
| "ptr_member _ _ = None"

section \<open>The machine\<close>

datatype fprec = Single | Double

datatype fop = FAdd | FSub | FMul | FDiv

record 'r host =
  h_str :: "ptr \<Rightarrow> string option"
  h_wstr :: "ptr \<Rightarrow> nat list option"
  h_wsize :: nat
  h_ref_data :: "ptr \<Rightarrow> ptr option"
  fp_isnan :: "'r \<Rightarrow> bool"
  fp_of_int :: "fprec \<Rightarrow> int \<Rightarrow> 'r"
  fp_trunc :: "'r \<Rightarrow> int"
  fp_single :: "'r \<Rightarrow> 'r"
  fp_op :: "fprec \<Rightarrow> fop \<Rightarrow> 'r \<Rightarrow> 'r \<Rightarrow> 'r"
  fp_neg :: "'r \<Rightarrow> 'r"
  fp_abs :: "'r \<Rightarrow> 'r"
  fp_le :: "'r \<Rightarrow> 'r \<Rightarrow> bool"
  fp_lt :: "'r \<Rightarrow> 'r \<Rightarrow> bool"
  fp_eps4 :: 'r
  fp_eps6 :: 'r
  fp_infinity :: 'r
  fp_atof :: "string \<Rightarrow> 'r"

text \<open>\<open>VALUE_FLOAT_TO\<close>.\<close>

definition value_float_to :: "'r host \<Rightarrow> 'r \<Rightarrow> int \<Rightarrow> int \<Rightarrow> int" where
  "value_float_to H f lo hi =
     (if fp_isnan H f then 0
      else if fp_le H f (fp_of_int H Double lo) then lo
      else if fp_le H (fp_op H Double FAdd (fp_of_int H Double hi) (fp_of_int H Double 1)) f then hi
      else fp_trunc H f)"

definition tk_fequal :: "'r host \<Rightarrow> fprec \<Rightarrow> 'r \<Rightarrow> 'r \<Rightarrow> bool" where
  "tk_fequal H p x y \<longleftrightarrow> fp_lt H (fp_abs H (fp_op H p FSub x y)) (fp_eps4 H)"

definition tk_lfequal :: "'r host \<Rightarrow> fprec \<Rightarrow> 'r \<Rightarrow> 'r \<Rightarrow> bool" where
  "tk_lfequal H p x y \<longleftrightarrow> fp_lt H (fp_abs H (fp_op H p FSub x y)) (fp_eps6 H)"

section \<open>Texts as numbers\<close>

definition chr_at :: "string \<Rightarrow> nat \<Rightarrow> char" where
  "chr_at s i = (if i < length s then s ! i else CHR 0x00)"

definition is_space :: "char \<Rightarrow> bool" where
  "is_space c \<longleftrightarrow> c \<in> {CHR 0x20, CHR 0x09, CHR 0x0A, CHR 0x0B, CHR 0x0C, CHR 0x0D}"

definition digit_val :: "char \<Rightarrow> nat" where
  "digit_val c =
     (let n = of_char c :: nat
      in if 48 \<le> n \<and> n \<le> 57 then n - 48 else if 65 \<le> n \<and> n \<le> 90 then n - 55 else if 97 \<le> n \<and> n \<le> 122 then n - 87 else 99)"

fun digits_from :: "nat \<Rightarrow> nat \<Rightarrow> string \<Rightarrow> nat" where
  "digits_from base acc [] = acc"
| "digits_from base acc (c # s) = (if digit_val c < base then digits_from base (acc * base + digit_val c) s else acc)"

text \<open>The C library's reading of a number: whether it is negative, and its magnitude.\<close>

definition c_strto :: "nat \<Rightarrow> string \<Rightarrow> bool \<times> nat" where
  "c_strto base str =
     (let s = dropWhile is_space str;
          neg = (chr_at s 0 = CHR ''-'');
          s = (if chr_at s 0 = CHR ''-'' \<or> chr_at s 0 = CHR ''+'' then tl s else s);
          s = (if base = 16 \<and> chr_at s 0 = CHR ''0'' \<and> (chr_at s 1 = CHR ''x'' \<or> chr_at s 1 = CHR ''X'') \<and> digit_val (chr_at s 2) < 16
               then drop 2 s else s)
      in (neg, digits_from base 0 s))"

definition clamp :: "int \<Rightarrow> int \<Rightarrow> int \<Rightarrow> int" where
  "clamp lo hi x = (if x < lo then lo else if x > hi then hi else x)"

definition tk_strtol :: "string \<Rightarrow> nat \<Rightarrow> int" where
  "tk_strtol str base = (case c_strto base str of (neg, n) \<Rightarrow> clamp (- (2 ^ 63)) (2 ^ 63 - 1) (if neg then - int n else int n))"

definition tk_strtoull :: "string \<Rightarrow> nat \<Rightarrow> int" where
  "tk_strtoull str base =
     (case c_strto base str of (neg, n) \<Rightarrow> if n \<ge> 2 ^ 64 then 2 ^ 64 - 1 else if neg then c_u 64 (- int n) else int n)"

definition tk_strtoi :: "string \<Rightarrow> nat \<Rightarrow> int" where
  "tk_strtoi str base =
     (let r = tk_strtol str base in if r > 2 ^ 31 - 1 then 2 ^ 31 - 1 else if r < - (2 ^ 31) then - (2 ^ 31) else r)"

definition IS_HEX_NUM :: "string \<Rightarrow> bool" where
  "IS_HEX_NUM s \<longleftrightarrow> chr_at s 0 = CHR ''0'' \<and> (chr_at s 1 = CHR ''x'' \<or> chr_at s 1 = CHR ''X'')"

definition IS_BIN_NUM :: "string \<Rightarrow> bool" where
  "IS_BIN_NUM s \<longleftrightarrow> chr_at s 0 = CHR ''0'' \<and> (chr_at s 1 = CHR ''b'' \<or> chr_at s 1 = CHR ''B'')"

definition tk_atoi :: "string \<Rightarrow> int" where
  "tk_atoi str =
     (if IS_HEX_NUM str then tk_strtoi (drop 2 str) 16
      else if chr_at str 0 = CHR ''#'' then tk_strtoi (drop 1 str) 16
      else if IS_BIN_NUM str then tk_strtoi (drop 2 str) 2
      else tk_strtoi str 10)"

definition tk_atol :: "string \<Rightarrow> int" where
  "tk_atol str =
     (if IS_HEX_NUM str then tk_strtol (drop 2 str) 16
      else if chr_at str 0 = CHR ''#'' then tk_strtol (drop 1 str) 16
      else if IS_BIN_NUM str then tk_strtol (drop 2 str) 2
      else tk_strtol str 10)"

definition tk_atoul :: "string \<Rightarrow> int" where
  "tk_atoul str =
     (if IS_HEX_NUM str then tk_strtoull (drop 2 str) 16
      else if chr_at str 0 = CHR ''#'' then tk_strtoull (drop 1 str) 16
      else if IS_BIN_NUM str then tk_strtoull (drop 2 str) 2
      else tk_strtoull str 10)"

definition tk_atob :: "string \<Rightarrow> bool" where
  "tk_atob str \<longleftrightarrow> \<not> (str = [] \<or> chr_at str 0 = CHR ''f'' \<or> chr_at str 0 = CHR ''F'' \<or> str = ''0'')"

definition tk_watob :: "nat list \<Rightarrow> bool" where
  "tk_watob str \<longleftrightarrow> \<not> (str = [] \<or> hd str = 0x66 \<or> hd str = 0x46 \<or> str = [0x30])"

definition TK_NUM_MAX_LEN :: nat where
  "TK_NUM_MAX_LEN = 31"

text \<open>The buffer of \<open>tk_watoi\<close> starts as zeros, so that it is a string also when the conversion stops.\<close>

definition tk_watoi :: "nat \<Rightarrow> nat list \<Rightarrow> int" where
  "tk_watoi wsize str = tk_atoi (snd (tk_utf8_from_utf16_ex wsize str (length str) TK_NUM_MAX_LEN))"

definition tk_watof :: "'r host \<Rightarrow> nat list \<Rightarrow> 'r" where
  "tk_watof H str = fp_atof H (snd (tk_utf8_from_utf16 (h_wsize H) str TK_NUM_MAX_LEN))"

text \<open>A function of the string behind a pointer; NULL gives \<open>d\<close>.\<close>

definition of_str :: "'r host \<Rightarrow> 'a \<Rightarrow> (string \<Rightarrow> 'a) \<Rightarrow> ptr \<Rightarrow> 'a option" where
  "of_str H d f p = (if p = NULL then Some d else map_option f (h_str H p))"

definition of_wstr :: "'r host \<Rightarrow> 'a \<Rightarrow> (nat list \<Rightarrow> 'a) \<Rightarrow> ptr \<Rightarrow> 'a option" where
  "of_wstr H d f p = (if p = NULL then Some d else map_option f (h_wstr H p))"


section \<open>Setting a value\<close>

definition value_init :: "'r val \<Rightarrow> value_type \<Rightarrow> 'r val" where
  "value_init v t = v\<lparr>v_type := t, v_free_handle := False\<rparr>"

definition value_set_bool :: "'r val \<Rightarrow> int \<Rightarrow> 'r val" where
  "value_set_bool v x = value_init (v\<lparr>v_value := M_b (c_u 8 x)\<rparr>) VT_BOOL"

definition value_set_int8 :: "'r val \<Rightarrow> int \<Rightarrow> 'r val" where
  "value_set_int8 v x = value_init (v\<lparr>v_value := M_i8 (c_s 8 x)\<rparr>) VT_INT8"

definition value_set_uint8 :: "'r val \<Rightarrow> int \<Rightarrow> 'r val" where
  "value_set_uint8 v x = value_init (v\<lparr>v_value := M_u8 (c_u 8 x)\<rparr>) VT_UINT8"

definition value_set_int16 :: "'r val \<Rightarrow> int \<Rightarrow> 'r val" where
  "value_set_int16 v x = value_init (v\<lparr>v_value := M_i16 (c_s 16 x)\<rparr>) VT_INT16"

definition value_set_uint16 :: "'r val \<Rightarrow> int \<Rightarrow> 'r val" where
  "value_set_uint16 v x = value_init (v\<lparr>v_value := M_u16 (c_u 16 x)\<rparr>) VT_UINT16"

definition value_set_int32 :: "'r val \<Rightarrow> int \<Rightarrow> 'r val" where
  "value_set_int32 v x = value_init (v\<lparr>v_value := M_i32 (c_s 32 x)\<rparr>) VT_INT32"

definition value_set_uint32 :: "'r val \<Rightarrow> int \<Rightarrow> 'r val" where
  "value_set_uint32 v x = value_init (v\<lparr>v_value := M_u32 (c_u 32 x)\<rparr>) VT_UINT32"

definition value_set_int64 :: "'r val \<Rightarrow> int \<Rightarrow> 'r val" where
  "value_set_int64 v x = value_init (v\<lparr>v_value := M_i64 (c_s 64 x)\<rparr>) VT_INT64"

definition value_set_uint64 :: "'r val \<Rightarrow> int \<Rightarrow> 'r val" where
  "value_set_uint64 v x = value_init (v\<lparr>v_value := M_u64 (c_u 64 x)\<rparr>) VT_UINT64"

definition value_set_float :: "'r val \<Rightarrow> 'r \<Rightarrow> 'r val" where
  "value_set_float v x = value_init (v\<lparr>v_value := M_f x\<rparr>) VT_FLOAT"

definition value_set_float32 :: "'r val \<Rightarrow> 'r \<Rightarrow> 'r val" where
  "value_set_float32 v x = value_init (v\<lparr>v_value := M_f32 x\<rparr>) VT_FLOAT32"

definition value_set_double :: "'r val \<Rightarrow> 'r \<Rightarrow> 'r val" where
  "value_set_double v x = value_init (v\<lparr>v_value := M_f64 x\<rparr>) VT_DOUBLE"

definition value_set_int :: "'r val \<Rightarrow> int \<Rightarrow> 'r val" where
  "value_set_int v x = value_set_int32 v x"

definition value_set_str :: "'r val \<Rightarrow> ptr \<Rightarrow> 'r val" where
  "value_set_str v p = value_init (v\<lparr>v_value := M_str p\<rparr>) VT_STRING"

definition value_set_wstr :: "'r val \<Rightarrow> ptr \<Rightarrow> 'r val" where
  "value_set_wstr v p = value_init (v\<lparr>v_value := M_wstr p\<rparr>) VT_WSTRING"

definition value_set_token :: "'r val \<Rightarrow> int \<Rightarrow> 'r val" where
  "value_set_token v x = value_init (v\<lparr>v_value := M_token (c_u 32 x)\<rparr>) VT_TOKEN"

definition value_set_sized_str :: "'r val \<Rightarrow> ptr \<Rightarrow> nat \<Rightarrow> 'r val" where
  "value_set_sized_str v p n = value_init (v\<lparr>v_value := M_sized_str n p\<rparr>) VT_SIZED_STRING"

definition value_set_binary_data :: "'r val \<Rightarrow> ptr \<Rightarrow> nat \<Rightarrow> 'r val" where
  "value_set_binary_data v p n = value_init (v\<lparr>v_value := M_binary_data n p\<rparr>) VT_BINARY"

definition value_set_ubjson :: "'r val \<Rightarrow> ptr \<Rightarrow> nat \<Rightarrow> 'r val" where
  "value_set_ubjson v p n = value_init (v\<lparr>v_value := M_binary_data n p\<rparr>) VT_UBJSON"

definition value_set_gradient :: "'r val \<Rightarrow> ptr \<Rightarrow> nat \<Rightarrow> 'r val" where
  "value_set_gradient v p n = value_init (v\<lparr>v_value := M_binary_data n p\<rparr>) VT_GRADIENT"

definition value_set_rect :: "'r val \<Rightarrow> int \<times> int \<times> int \<times> int \<Rightarrow> 'r val" where
  "value_set_rect v r = (case r of (x, y, w, h) \<Rightarrow> value_init (v\<lparr>v_value := M_rect x y w h\<rparr>) VT_RECT)"

text \<open>Setters that refuse NULL: the flag is whether they return the value.\<close>

definition value_set_object :: "'r val \<Rightarrow> ptr \<Rightarrow> bool \<times> 'r val" where
  "value_set_object v p = (if p = NULL then (False, v) else (True, value_init (v\<lparr>v_value := M_object p\<rparr>) VT_OBJECT))"

definition value_set_func :: "'r val \<Rightarrow> ptr \<Rightarrow> bool \<times> 'r val" where
  "value_set_func v p = (if p = NULL then (False, v) else (True, value_init (v\<lparr>v_value := M_func 0 p\<rparr>) VT_FUNC))"

definition value_set_func_def :: "'r val \<Rightarrow> ptr \<Rightarrow> bool \<times> 'r val" where
  "value_set_func_def v p = (if p = NULL then (False, v) else (True, value_init (v\<lparr>v_value := M_ptr p\<rparr>) VT_FUNC_DEF))"

definition value_set_bitmap :: "'r val \<Rightarrow> ptr \<Rightarrow> bool \<times> 'r val" where
  "value_set_bitmap v p = (if p = NULL then (False, v) else (True, value_init (v\<lparr>v_value := M_bitmap p\<rparr>) VT_BITMAP))"

section \<open>Reading a value\<close>

definition value_is_null :: "'r val \<Rightarrow> bool" where
  "value_is_null v \<longleftrightarrow> v_type v = VT_INVALID"

text \<open>A pointer of a value with this tag, NULL for another tag.\<close>

definition ptr_if :: "value_type \<Rightarrow> 'r val \<Rightarrow> ptr option" where
  "ptr_if t v = (if v_type v = t then ptr_member t (v_value v) else Some NULL)"

definition value_str :: "'r val \<Rightarrow> ptr option" where "value_str v = ptr_if VT_STRING v"
definition value_wstr :: "'r val \<Rightarrow> ptr option" where "value_wstr v = ptr_if VT_WSTRING v"
definition value_object :: "'r val \<Rightarrow> ptr option" where "value_object v = ptr_if VT_OBJECT v"
definition value_id :: "'r val \<Rightarrow> ptr option" where "value_id v = ptr_if VT_ID v"
definition value_func :: "'r val \<Rightarrow> ptr option" where "value_func v = ptr_if VT_FUNC v"
definition value_func_def :: "'r val \<Rightarrow> ptr option" where "value_func_def v = ptr_if VT_FUNC_DEF v"
definition value_bitmap :: "'r val \<Rightarrow> ptr option" where "value_bitmap v = ptr_if VT_BITMAP v"

definition value_token :: "'r val \<Rightarrow> int option" where
  "value_token v = (if v_type v = VT_TOKEN then int_member VT_TOKEN (v_value v) else Some 0)"

definition value_pointer :: "'r host \<Rightarrow> 'r val \<Rightarrow> ptr option" where
  "value_pointer H v =
     (case v_type v of
        VT_STRING \<Rightarrow> ptr_member VT_STRING (v_value v)
      | VT_WSTRING \<Rightarrow> ptr_member VT_WSTRING (v_value v)
      | VT_OBJECT \<Rightarrow> ptr_member VT_OBJECT (v_value v)
      | VT_POINTER \<Rightarrow> ptr_member VT_POINTER (v_value v)
      | VT_POINTER_REF \<Rightarrow> Option.bind (ptr_member VT_POINTER_REF (v_value v)) (h_ref_data H)
      | _ \<Rightarrow> Some NULL)"

definition value_int :: "'r host \<Rightarrow> 'r val \<Rightarrow> int option" where
  "value_int H v =
     (case v_type v of
        VT_INVALID \<Rightarrow> Some 0
      | VT_INT8 \<Rightarrow> int_member VT_INT8 (v_value v)
      | VT_UINT8 \<Rightarrow> int_member VT_UINT8 (v_value v)
      | VT_INT16 \<Rightarrow> int_member VT_INT16 (v_value v)
      | VT_UINT16 \<Rightarrow> int_member VT_UINT16 (v_value v)
      | VT_INT32 \<Rightarrow> int_member VT_INT32 (v_value v)
      | VT_UINT32 \<Rightarrow> map_option (c_s 32) (int_member VT_UINT32 (v_value v))
      | VT_INT64 \<Rightarrow> map_option (c_s 32) (int_member VT_INT64 (v_value v))
      | VT_UINT64 \<Rightarrow> map_option (c_s 32) (int_member VT_UINT64 (v_value v))
      | VT_FLOAT \<Rightarrow> map_option (\<lambda>f. value_float_to H f (- (2 ^ 31)) (2 ^ 31 - 1)) (fp_member VT_FLOAT (v_value v))
      | VT_FLOAT32 \<Rightarrow> map_option (\<lambda>f. value_float_to H f (- (2 ^ 31)) (2 ^ 31 - 1)) (fp_member VT_FLOAT32 (v_value v))
      | VT_DOUBLE \<Rightarrow> map_option (\<lambda>f. value_float_to H f (- (2 ^ 31)) (2 ^ 31 - 1)) (fp_member VT_DOUBLE (v_value v))
      | VT_BOOL \<Rightarrow> int_member VT_BOOL (v_value v)
      | VT_STRING \<Rightarrow> Option.bind (ptr_member VT_STRING (v_value v)) (of_str H 0 tk_atoi)
      | VT_WSTRING \<Rightarrow> Option.bind (ptr_member VT_WSTRING (v_value v)) (of_wstr H 0 (tk_watoi (h_wsize H)))
      | _ \<Rightarrow> Some 0)"

definition value_bool :: "'r host \<Rightarrow> 'r val \<Rightarrow> bool option" where
  "value_bool H v =
     (case v_type v of
        VT_INVALID \<Rightarrow> Some False
      | VT_BOOL \<Rightarrow> map_option (\<lambda>x. x \<noteq> 0) (int_member VT_BOOL (v_value v))
      | VT_STRING \<Rightarrow> Option.bind (ptr_member VT_STRING (v_value v)) (of_str H False tk_atob)
      | VT_WSTRING \<Rightarrow> Option.bind (ptr_member VT_WSTRING (v_value v)) (of_wstr H False tk_watob)
      | VT_OBJECT \<Rightarrow> map_option (\<lambda>p. p \<noteq> NULL) (ptr_member VT_OBJECT (v_value v))
      | VT_POINTER \<Rightarrow> map_option (\<lambda>p. p \<noteq> NULL) (ptr_member VT_POINTER (v_value v))
      | VT_POINTER_REF \<Rightarrow> map_option (\<lambda>p. p \<noteq> NULL) (Option.bind (ptr_member VT_POINTER_REF (v_value v)) (h_ref_data H))
      | _ \<Rightarrow> map_option (\<lambda>x. x \<noteq> 0) (value_int H v))"

definition value_int8 :: "'r host \<Rightarrow> 'r val \<Rightarrow> int option" where
  "value_int8 H v = (if v_type v = VT_INT8 then int_member VT_INT8 (v_value v) else map_option (c_s 8) (value_int H v))"

definition value_uint8 :: "'r host \<Rightarrow> 'r val \<Rightarrow> int option" where
  "value_uint8 H v = (if v_type v = VT_UINT8 then int_member VT_UINT8 (v_value v) else map_option (c_u 8) (value_int H v))"

definition value_int16 :: "'r host \<Rightarrow> 'r val \<Rightarrow> int option" where
  "value_int16 H v = (if v_type v = VT_INT16 then int_member VT_INT16 (v_value v) else map_option (c_s 16) (value_int H v))"

definition value_uint16 :: "'r host \<Rightarrow> 'r val \<Rightarrow> int option" where
  "value_uint16 H v = (if v_type v = VT_UINT16 then int_member VT_UINT16 (v_value v) else map_option (c_u 16) (value_int H v))"

definition value_int32 :: "'r host \<Rightarrow> 'r val \<Rightarrow> int option" where
  "value_int32 H v = (if v_type v = VT_INT32 then int_member VT_INT32 (v_value v) else map_option (c_s 32) (value_int H v))"

definition value_uint32 :: "'r host \<Rightarrow> 'r val \<Rightarrow> int option" where
  "value_uint32 H v =
     (if v_type v = VT_UINT32 then int_member VT_UINT32 (v_value v)
      else if v_type v = VT_STRING then map_option (c_u 32) (Option.bind (ptr_member VT_STRING (v_value v)) (of_str H 0 tk_atoul))
      else map_option (c_u 32) (value_int H v))"

definition value_int64 :: "'r host \<Rightarrow> 'r val \<Rightarrow> int option" where
  "value_int64 H v =
     (case v_type v of
        VT_INT64 \<Rightarrow> int_member VT_INT64 (v_value v)
      | VT_UINT64 \<Rightarrow> map_option (c_s 64) (int_member VT_UINT64 (v_value v))
      | VT_STRING \<Rightarrow> Option.bind (ptr_member VT_STRING (v_value v)) (of_str H 0 tk_atol)
      | VT_UINT32 \<Rightarrow> value_uint32 H v
      | VT_FLOAT \<Rightarrow> map_option (\<lambda>f. value_float_to H f (- (2 ^ 63)) (2 ^ 63 - 1)) (fp_member VT_FLOAT (v_value v))
      | VT_FLOAT32 \<Rightarrow> map_option (\<lambda>f. value_float_to H f (- (2 ^ 63)) (2 ^ 63 - 1)) (fp_member VT_FLOAT32 (v_value v))
      | VT_DOUBLE \<Rightarrow> map_option (\<lambda>f. value_float_to H f (- (2 ^ 63)) (2 ^ 63 - 1)) (fp_member VT_DOUBLE (v_value v))
      | _ \<Rightarrow> value_int H v)"

definition value_uint64 :: "'r host \<Rightarrow> 'r val \<Rightarrow> int option" where
  "value_uint64 H v =
     (case v_type v of
        VT_UINT64 \<Rightarrow> int_member VT_UINT64 (v_value v)
      | VT_INT64 \<Rightarrow> map_option (c_u 64) (int_member VT_INT64 (v_value v))
      | VT_STRING \<Rightarrow> Option.bind (ptr_member VT_STRING (v_value v)) (of_str H 0 tk_atoul)
      | VT_FLOAT \<Rightarrow> map_option (\<lambda>f. value_float_to H f 0 (2 ^ 64 - 1)) (fp_member VT_FLOAT (v_value v))
      | VT_FLOAT32 \<Rightarrow> map_option (\<lambda>f. value_float_to H f 0 (2 ^ 64 - 1)) (fp_member VT_FLOAT32 (v_value v))
      | VT_DOUBLE \<Rightarrow> map_option (\<lambda>f. value_float_to H f 0 (2 ^ 64 - 1)) (fp_member VT_DOUBLE (v_value v))
      | _ \<Rightarrow> map_option (c_u 64) (value_int H v))"

definition value_float :: "'r host \<Rightarrow> 'r val \<Rightarrow> 'r option" where
  "value_float H v =
     (let t = v_type v; zero = fp_of_int H Single 0
      in case t of
        VT_FLOAT \<Rightarrow> fp_member VT_FLOAT (v_value v)
      | VT_FLOAT32 \<Rightarrow> fp_member VT_FLOAT32 (v_value v)
      | VT_DOUBLE \<Rightarrow> map_option (fp_single H) (fp_member VT_DOUBLE (v_value v))
      | VT_STRING \<Rightarrow> Option.bind (ptr_member VT_STRING (v_value v)) (of_str H zero (\<lambda>s. fp_single H (fp_atof H s)))
      | VT_WSTRING \<Rightarrow> Option.bind (ptr_member VT_WSTRING (v_value v)) (of_wstr H zero (\<lambda>s. fp_single H (tk_watof H s)))
      | _ \<Rightarrow> (if t \<in> {VT_BOOL, VT_INT8, VT_UINT8, VT_INT16, VT_UINT16, VT_INT32, VT_UINT32, VT_INT64, VT_UINT64}
              then map_option (fp_of_int H Single) (int_member t (v_value v)) else Some zero))"

definition value_float32 :: "'r host \<Rightarrow> 'r val \<Rightarrow> 'r option" where
  "value_float32 H v = (if v_type v = VT_FLOAT32 then fp_member VT_FLOAT32 (v_value v) else value_float H v)"

definition value_double :: "'r host \<Rightarrow> 'r val \<Rightarrow> 'r option" where
  "value_double H v =
     (let t = v_type v; zero = fp_of_int H Double 0
      in case t of
        VT_FLOAT \<Rightarrow> fp_member VT_FLOAT (v_value v)
      | VT_FLOAT32 \<Rightarrow> fp_member VT_FLOAT32 (v_value v)
      | VT_DOUBLE \<Rightarrow> fp_member VT_DOUBLE (v_value v)
      | VT_STRING \<Rightarrow> Option.bind (ptr_member VT_STRING (v_value v)) (of_str H zero (fp_atof H))
      | VT_WSTRING \<Rightarrow> Option.bind (ptr_member VT_WSTRING (v_value v)) (of_wstr H zero (tk_watof H))
      | VT_BOOL \<Rightarrow> map_option (\<lambda>b. fp_of_int H Double (of_bool b)) (value_bool H v)
      | _ \<Rightarrow> (if t \<in> {VT_INT8, VT_UINT8, VT_INT16, VT_UINT16, VT_INT32, VT_UINT32, VT_INT64, VT_UINT64}
              then map_option (fp_of_int H Double) (int_member t (v_value v)) else Some zero))"


section \<open>The switch over the integer types\<close>

text \<open>
  The getter and the setter of a tag, as the cases of a switch name them; the type that C computes in
  after the promotions; its shifts and its sums, products and quotients.
\<close>

definition get_as :: "'r host \<Rightarrow> value_type \<Rightarrow> 'r val \<Rightarrow> int option" where
  "get_as H t v =
     (case t of
        VT_BOOL \<Rightarrow> map_option of_bool (value_bool H v)
      | VT_INT8 \<Rightarrow> value_int8 H v | VT_UINT8 \<Rightarrow> value_uint8 H v
      | VT_INT16 \<Rightarrow> value_int16 H v | VT_UINT16 \<Rightarrow> value_uint16 H v
      | VT_INT32 \<Rightarrow> value_int32 H v | VT_UINT32 \<Rightarrow> value_uint32 H v
      | VT_INT64 \<Rightarrow> value_int64 H v | VT_UINT64 \<Rightarrow> value_uint64 H v
      | _ \<Rightarrow> None)"

definition set_as :: "value_type \<Rightarrow> 'r val \<Rightarrow> int \<Rightarrow> 'r val" where
  "set_as t v x =
     (case t of
        VT_BOOL \<Rightarrow> value_set_bool v x
      | VT_INT8 \<Rightarrow> value_set_int8 v x | VT_UINT8 \<Rightarrow> value_set_uint8 v x
      | VT_INT16 \<Rightarrow> value_set_int16 v x | VT_UINT16 \<Rightarrow> value_set_uint16 v x
      | VT_INT32 \<Rightarrow> value_set_int32 v x | VT_UINT32 \<Rightarrow> value_set_uint32 v x
      | VT_INT64 \<Rightarrow> value_set_int64 v x | VT_UINT64 \<Rightarrow> value_set_uint64 v x
      | _ \<Rightarrow> v)"

definition is_int :: "value_type \<Rightarrow> bool" where
  "is_int t \<longleftrightarrow> t \<in> {VT_INT8, VT_UINT8, VT_INT16, VT_UINT16, VT_INT32, VT_UINT32, VT_INT64, VT_UINT64}"

definition int_bits :: "value_type \<Rightarrow> nat" where
  "int_bits t = (if t = VT_INT8 \<or> t = VT_UINT8 then 8 else if t = VT_INT16 \<or> t = VT_UINT16 then 16
     else if t = VT_INT32 \<or> t = VT_UINT32 then 32 else 64)"

definition c_width :: "value_type \<Rightarrow> nat" where
  "c_width t = (if t = VT_INT64 \<or> t = VT_UINT64 then 64 else 32)"

definition c_signed :: "value_type \<Rightarrow> bool" where
  "c_signed t \<longleftrightarrow> t \<noteq> VT_UINT32 \<and> t \<noteq> VT_UINT64"

text \<open>A result of unsigned arithmetic wraps, one of signed arithmetic that does not fit is undefined.\<close>

definition c_result :: "value_type \<Rightarrow> int \<Rightarrow> int option" where
  "c_result t x =
     (if c_signed t then (if - (2 ^ (c_width t - 1)) \<le> x \<and> x < 2 ^ (c_width t - 1) then Some x else None)
      else Some (c_u (c_width t) x))"

text \<open>
  A left shift of a negative number, or one whose result does not fit, is undefined for a signed type; so is
  every shift by the width or more. A right shift of a negative number copies the sign, as compilers do.
\<close>

definition c_shl :: "value_type \<Rightarrow> int \<Rightarrow> nat \<Rightarrow> int option" where
  "c_shl t x n =
     (if c_width t \<le> n then None
      else if c_signed t then (if 0 \<le> x \<and> push_bit n x < 2 ^ (c_width t - 1) then Some (push_bit n x) else None)
      else Some (c_u (c_width t) (push_bit n x)))"

definition c_shr :: "value_type \<Rightarrow> int \<Rightarrow> nat \<Rightarrow> int option" where
  "c_shr t x n = (if n < c_width t then Some (drop_bit n x) else None)"

definition c_quot :: "value_type \<Rightarrow> int \<Rightarrow> int \<Rightarrow> int option" where
  "c_quot t x y = (if y = 0 then None else c_result t (x sdiv y))"

definition c_rem :: "value_type \<Rightarrow> int \<Rightarrow> int \<Rightarrow> int option" where
  "c_rem t x y = (if y = 0 \<or> c_result t (x sdiv y) = None then None else Some (x smod y))"

definition type_max :: "value_type \<Rightarrow> value_type \<Rightarrow> value_type" where
  "type_max a b = (if vt_code a > vt_code b then a else b)"

type_synonym 'r out = "(ret_t \<times> 'r val) option"

section \<open>Bits\<close>

definition value_lshift :: "'r host \<Rightarrow> 'r val \<Rightarrow> 'r val \<Rightarrow> nat \<Rightarrow> 'r out" where
  "value_lshift H v result n =
     (let t = v_type v in
      if is_int t then do { x \<leftarrow> get_as H t v; y \<leftarrow> c_shl t x n; Some (RET_OK, set_as t result y) }
      else Some (RET_BAD_PARAMS, result))"

definition value_rshift :: "'r host \<Rightarrow> 'r val \<Rightarrow> 'r val \<Rightarrow> nat \<Rightarrow> 'r out" where
  "value_rshift H v result n =
     (let t = v_type v in
      if is_int t then do { x \<leftarrow> get_as H t v; y \<leftarrow> c_shr t x n; Some (RET_OK, set_as t result y) }
      else Some (RET_BAD_PARAMS, result))"

definition value_lshift_r :: "'r host \<Rightarrow> 'r val \<Rightarrow> 'r val \<Rightarrow> nat \<Rightarrow> 'r out" where
  "value_lshift_r H v result n =
     (let t = v_type v; n = n mod int_bits t in
      if is_int t then do { x \<leftarrow> get_as H t v; a \<leftarrow> c_shr t x (int_bits t - n); b \<leftarrow> c_shl t x n; Some (RET_OK, set_as t result (a OR b)) }
      else Some (RET_BAD_PARAMS, result))"

definition value_rshift_r :: "'r host \<Rightarrow> 'r val \<Rightarrow> 'r val \<Rightarrow> nat \<Rightarrow> 'r out" where
  "value_rshift_r H v result n =
     (let t = v_type v; n = n mod int_bits t in
      if is_int t then do { x \<leftarrow> get_as H t v; a \<leftarrow> c_shl t x (int_bits t - n); b \<leftarrow> c_shr t x n; Some (RET_OK, set_as t result (a OR b)) }
      else Some (RET_BAD_PARAMS, result))"

definition value_get_bit :: "'r host \<Rightarrow> 'r val \<Rightarrow> 'r val \<Rightarrow> nat \<Rightarrow> 'r out" where
  "value_get_bit H v result n =
     (let t = v_type v in
      if is_int t then do { x \<leftarrow> get_as H t v; y \<leftarrow> c_shr t x n; Some (RET_OK, value_set_bool result (y AND 1)) }
      else Some (RET_BAD_PARAMS, result))"

text \<open>The mask \<open>1UL << n\<close> is 64 bits wide.\<close>

definition bit_mask :: "nat \<Rightarrow> int option" where
  "bit_mask n = (if n < 64 then Some (push_bit n 1) else None)"

definition value_set_bit :: "'r host \<Rightarrow> 'r val \<Rightarrow> 'r val \<Rightarrow> nat \<Rightarrow> bool \<Rightarrow> 'r out" where
  "value_set_bit H v result n b =
     (let t = v_type v in
      if is_int t then do { x \<leftarrow> get_as H t v; k \<leftarrow> bit_mask n; Some (RET_OK, set_as t result (if b then x OR k else x AND NOT k)) }
      else Some (RET_BAD_PARAMS, result))"

definition value_toggle_bit :: "'r host \<Rightarrow> 'r val \<Rightarrow> 'r val \<Rightarrow> nat \<Rightarrow> 'r out" where
  "value_toggle_bit H v result n =
     (let t = v_type v in
      if is_int t then do { x \<leftarrow> get_as H t v; k \<leftarrow> bit_mask n; Some (RET_OK, set_as t result (x XOR k)) }
      else Some (RET_BAD_PARAMS, result))"

definition value_bit_not :: "'r host \<Rightarrow> 'r val \<Rightarrow> 'r val \<Rightarrow> 'r out" where
  "value_bit_not H v result =
     (let t = v_type v in
      if t = VT_BOOL then do { x \<leftarrow> value_bool H v; Some (RET_OK, value_set_bool result (of_bool (\<not> x))) }
      else if is_int t then do { x \<leftarrow> get_as H t v; Some (RET_OK, set_as t result (NOT x)) }
      else Some (RET_BAD_PARAMS, result))"

definition value_bit_or :: "'r host \<Rightarrow> 'r val \<Rightarrow> 'r val \<Rightarrow> 'r val \<Rightarrow> 'r out" where
  "value_bit_or H v other result =
     (let t = type_max (v_type v) (v_type other) in
      if t = VT_BOOL \<or> is_int t then do { x \<leftarrow> get_as H t v; y \<leftarrow> get_as H t other; Some (RET_OK, set_as t result (x OR y)) }
      else Some (RET_BAD_PARAMS, result))"

definition value_bit_and :: "'r host \<Rightarrow> 'r val \<Rightarrow> 'r val \<Rightarrow> 'r val \<Rightarrow> 'r out" where
  "value_bit_and H v other result =
     (let t = type_max (v_type v) (v_type other) in
      if t = VT_BOOL \<or> is_int t then do { x \<leftarrow> get_as H t v; y \<leftarrow> get_as H t other; Some (RET_OK, set_as t result (x AND y)) }
      else Some (RET_BAD_PARAMS, result))"

definition value_bit_xor :: "'r host \<Rightarrow> 'r val \<Rightarrow> 'r val \<Rightarrow> 'r val \<Rightarrow> 'r out" where
  "value_bit_xor H v other result =
     (let t = type_max (v_type v) (v_type other) in
      if t = VT_BOOL \<or> is_int t then do { x \<leftarrow> get_as H t v; y \<leftarrow> get_as H t other; Some (RET_OK, set_as t result (x XOR y)) }
      else Some (RET_BAD_PARAMS, result))"

section \<open>Arithmetic\<close>

definition value_abs :: "'r host \<Rightarrow> 'r val \<Rightarrow> 'r val \<Rightarrow> 'r out" where
  "value_abs H v result =
     (let t = v_type v; fabs = (\<lambda>p x. if fp_le H (fp_of_int H p 0) x then x else fp_neg H x) in
      if t = VT_BOOL \<or> t = VT_UINT8 \<or> t = VT_UINT16 \<or> t = VT_UINT32 \<or> t = VT_UINT64 then do { x \<leftarrow> get_as H t v; Some (RET_OK, set_as t result x) }
      else if is_int t then do { x \<leftarrow> get_as H t v; y \<leftarrow> c_result t \<bar>x\<bar>; Some (RET_OK, set_as t result y) }
      else if t = VT_FLOAT32 then do { x \<leftarrow> value_float32 H v; Some (RET_OK, value_set_float32 result (fabs Single x)) }
      else if t = VT_FLOAT then do { x \<leftarrow> value_float H v; Some (RET_OK, value_set_float result (fabs Single x)) }
      else if t = VT_DOUBLE then do { x \<leftarrow> value_double H v; Some (RET_OK, value_set_double result (fabs Double x)) }
      else Some (RET_BAD_PARAMS, result))"

text \<open>
  The result of a small type, computed in \<open>int\<close> and kept in a variable of the next size, is stored in
  the type when it fits and in the next signed one otherwise.
\<close>

definition set_small :: "value_type \<Rightarrow> 'r val \<Rightarrow> int \<Rightarrow> 'r val" where
  "set_small t result x =
     (case t of
        VT_BOOL \<Rightarrow> value_set_int8 result x
      | VT_INT8 \<Rightarrow> (let vv = c_s 16 x in if - 128 \<le> vv \<and> vv \<le> 127 then value_set_int8 result vv else value_set_int16 result vv)
      | VT_UINT8 \<Rightarrow> (let vv = c_s 16 x in if 0 \<le> vv \<and> vv \<le> 255 then value_set_uint8 result vv else value_set_int16 result vv)
      | VT_INT16 \<Rightarrow> (let vv = c_s 32 x in if - 32768 \<le> vv \<and> vv \<le> 32767 then value_set_int16 result vv else value_set_int32 result vv)
      | VT_UINT16 \<Rightarrow> (let vv = c_s 32 x in if 0 \<le> vv \<and> vv \<le> 65535 then value_set_uint16 result vv else value_set_int32 result vv)
      | _ \<Rightarrow> result)"

definition is_small :: "value_type \<Rightarrow> bool" where
  "is_small t \<longleftrightarrow> t \<in> {VT_BOOL, VT_INT8, VT_UINT8, VT_INT16, VT_UINT16}"

text \<open>The floating point cases of the four operations.\<close>

definition fp_arith :: "'r host \<Rightarrow> fop \<Rightarrow> value_type \<Rightarrow> 'r val \<Rightarrow> 'r val \<Rightarrow> 'r val \<Rightarrow> 'r out" where
  "fp_arith H f t v other result =
     (if t = VT_FLOAT32 then do { x \<leftarrow> value_float32 H v; y \<leftarrow> value_float32 H other; Some (RET_OK, value_set_float32 result (fp_single H (fp_op H Single f x y))) }
      else if t = VT_FLOAT \<or> t = VT_DOUBLE then do { x \<leftarrow> value_double H v; y \<leftarrow> value_double H other; Some (RET_OK, value_set_double result (fp_op H Double f x y)) }
      else Some (RET_BAD_PARAMS, result))"

definition value_add :: "'r host \<Rightarrow> 'r val \<Rightarrow> 'r val \<Rightarrow> 'r val \<Rightarrow> 'r out" where
  "value_add H v other result =
     (let t = type_max (v_type v) (v_type other) in
      if is_small t then do { x \<leftarrow> get_as H t v; y \<leftarrow> get_as H t other; Some (RET_OK, set_small t result (x + y)) }
      else if is_int t then do { x \<leftarrow> get_as H t v; y \<leftarrow> get_as H t other; z \<leftarrow> c_result t (x + y); Some (RET_OK, set_as t result z) }
      else fp_arith H FAdd t v other result)"

definition value_sub :: "'r host \<Rightarrow> 'r val \<Rightarrow> 'r val \<Rightarrow> 'r val \<Rightarrow> 'r out" where
  "value_sub H v other result =
     (let t = type_max (v_type v) (v_type other) in
      if is_small t then do { x \<leftarrow> get_as H t v; y \<leftarrow> get_as H t other; Some (RET_OK, set_small t result (x - y)) }
      else if t = VT_INT32 then do {
        x \<leftarrow> get_as H t v; y \<leftarrow> get_as H t other;
        Some (RET_OK, if - (2 ^ 31) \<le> x - y \<and> x - y \<le> 2 ^ 31 - 1 then value_set_int32 result (x - y) else value_set_int64 result (x - y)) }
      else if t = VT_UINT32 then do {
        x \<leftarrow> get_as H t v; y \<leftarrow> get_as H t other;
        Some (RET_OK, if 0 \<le> x - y \<and> x - y \<le> 2 ^ 32 - 1 then value_set_uint32 result (x - y) else value_set_int64 result (x - y)) }
      else if is_int t then do { x \<leftarrow> get_as H t v; y \<leftarrow> get_as H t other; z \<leftarrow> c_result t (x - y); Some (RET_OK, set_as t result z) }
      else fp_arith H FSub t v other result)"

definition value_mul :: "'r host \<Rightarrow> 'r val \<Rightarrow> 'r val \<Rightarrow> 'r val \<Rightarrow> 'r out" where
  "value_mul H v other result =
     (let t = type_max (v_type v) (v_type other) in
      if is_small t then do { x \<leftarrow> get_as H t v; y \<leftarrow> get_as H t other; z \<leftarrow> c_result t (x * y); Some (RET_OK, set_small t result z) }
      else if is_int t then do { x \<leftarrow> get_as H t v; y \<leftarrow> get_as H t other; z \<leftarrow> c_result t (x * y); Some (RET_OK, set_as t result z) }
      else fp_arith H FMul t v other result)"

definition value_divisor_is_zero :: "'r host \<Rightarrow> 'r val \<Rightarrow> value_type \<Rightarrow> bool option" where
  "value_divisor_is_zero H other t =
     (if t = VT_BOOL \<or> is_int t then map_option (\<lambda>y. y = 0) (get_as H t other) else Some False)"

definition value_div :: "'r host \<Rightarrow> 'r val \<Rightarrow> 'r val \<Rightarrow> 'r val \<Rightarrow> 'r out" where
  "value_div H v other result =
     (let t = type_max (v_type v) (v_type other) in do {
        zero \<leftarrow> (if vt_code t \<le> vt_code VT_UINT64 then value_divisor_is_zero H other t else Some False);
        if zero then Some (RET_BAD_PARAMS, result)
        else if t = VT_BOOL then do { x \<leftarrow> get_as H t v; y \<leftarrow> get_as H t other; z \<leftarrow> c_quot t x y; Some (RET_OK, value_set_int8 result z) }
        else if is_int t then do { x \<leftarrow> get_as H t v; y \<leftarrow> get_as H t other; z \<leftarrow> c_quot t x y; Some (RET_OK, set_as t result z) }
        else fp_arith H FDiv t v other result })"

definition value_mod :: "'r host \<Rightarrow> 'r val \<Rightarrow> 'r val \<Rightarrow> 'r val \<Rightarrow> 'r out" where
  "value_mod H v other result =
     (let t = type_max (v_type v) (v_type other) in do {
        zero \<leftarrow> (if vt_code t \<le> vt_code VT_UINT64 then value_divisor_is_zero H other t else Some False);
        if zero then Some (RET_BAD_PARAMS, result)
        else if t = VT_BOOL then do { x \<leftarrow> get_as H t v; y \<leftarrow> get_as H t other; z \<leftarrow> c_rem t x y; Some (RET_OK, value_set_int8 result z) }
        else if is_int t then do { x \<leftarrow> get_as H t v; y \<leftarrow> get_as H t other; z \<leftarrow> c_rem t x y; Some (RET_OK, set_as t result z) }
        else Some (RET_BAD_PARAMS, result) })"

fun expt_loop :: "'r host \<Rightarrow> nat \<Rightarrow> 'r \<Rightarrow> 'r \<Rightarrow> 'r" where
  "expt_loop H 0 r b = r"
| "expt_loop H (Suc n) r b = expt_loop H n (fp_op H Double FMul r b) b"

definition value_expt :: "'r host \<Rightarrow> 'r val \<Rightarrow> 'r val \<Rightarrow> 'r val \<Rightarrow> 'r out" where
  "value_expt H v other result =
     (let num = fp_of_int H Double in do {
        b \<leftarrow> value_double H v;
        if tk_fequal H Double b (num 0) then Some (RET_OK, value_set_double result (num 0))
        else do {
          e \<leftarrow> value_int H other;
          if e = 0 then Some (RET_OK, value_set_double result (num 1))
          else do {
            n \<leftarrow> c_result VT_INT32 \<bar>e\<bar>;
            let r = expt_loop H (nat n - 1) b b
            in Some (RET_OK, value_set_double result
                 (if e \<ge> 0 then r else if tk_fequal H Double r (num 0) then fp_infinity H else fp_op H Double FDiv (num 1) r)) } }})"

section \<open>Comparing\<close>

text \<open>\<open>strcmp\<close> and \<open>wcscmp\<close> are specified up to the sign of the result.\<close>

fun c_compare :: "nat list \<Rightarrow> nat list \<Rightarrow> int" where
  "c_compare [] [] = 0"
| "c_compare [] (y # ys) = - 1"
| "c_compare (x # xs) [] = 1"
| "c_compare (x # xs) (y # ys) = (if x = y then c_compare xs ys else if x < y then - 1 else 1)"

definition tk_strcmp :: "'r host \<Rightarrow> ptr \<Rightarrow> ptr \<Rightarrow> int option" where
  "tk_strcmp H a b =
     (if a = b then Some 0 else if a = NULL then Some (- 1) else if b = NULL then Some 1
      else do { x \<leftarrow> h_str H a; y \<leftarrow> h_str H b; Some (c_compare (map of_char x) (map of_char y)) })"

definition tk_wstrcmp :: "'r host \<Rightarrow> ptr \<Rightarrow> ptr \<Rightarrow> int option" where
  "tk_wstrcmp H a b =
     (if a = b then Some 0 else if a = NULL then Some (- 1) else if b = NULL then Some 1
      else do { x \<leftarrow> h_wstr H a; y \<leftarrow> h_wstr H b; Some (c_compare x y) })"

definition fp_compare :: "bool \<Rightarrow> 'r host \<Rightarrow> 'r \<Rightarrow> 'r \<Rightarrow> int" where
  "fp_compare near H x y = (if near then 0 else if fp_lt H y x then 1 else - 1)"

text \<open>The comparison of two objects is that of their class.\<close>

definition value_compare :: "'r host \<Rightarrow> (ptr \<Rightarrow> ptr \<Rightarrow> int) \<Rightarrow> 'r val \<Rightarrow> 'r val \<Rightarrow> int option" where
  "value_compare H object_compare v other =
     (let t = v_type v; i = (\<lambda>u. int_member t (v_value u)); f = (\<lambda>u. fp_member t (v_value u)); p = (\<lambda>u. ptr_member t (v_value u)) in
      if t \<noteq> v_type other then Some (- 1)
      else if t = VT_BOOL \<or> t = VT_INT8 \<or> t = VT_UINT8 \<or> t = VT_INT16 \<or> t = VT_UINT16 then do { x \<leftarrow> i v; y \<leftarrow> i other; Some (x - y) }
      else if t = VT_INT32 then do { x \<leftarrow> i v; y \<leftarrow> i other; c_result VT_INT32 (x - y) }
      else if t = VT_UINT32 then do {
        x \<leftarrow> i v; y \<leftarrow> i other;
        if x > y then Some (c_s 32 (x - y)) else c_result VT_INT32 (- c_s 32 (y - x)) }
      else if t = VT_INT64 then do { x \<leftarrow> i v; y \<leftarrow> i other; d \<leftarrow> c_result VT_INT64 (x - y); Some (c_s 32 d) }
      else if t = VT_UINT64 then do { x \<leftarrow> i v; y \<leftarrow> i other; Some (if x > y then 1 else if x < y then - 1 else 0) }
      else if t = VT_POINTER \<or> t = VT_POINTER_REF \<or> t = VT_BINARY \<or> t = VT_GRADIENT \<or> t = VT_UBJSON then do { a \<leftarrow> p v; b \<leftarrow> p other; Some (pointer_compare a b) }
      else if t = VT_FLOAT \<or> t = VT_FLOAT32 then do { x \<leftarrow> f v; y \<leftarrow> f other; Some (fp_compare (tk_fequal H Single x y) H x y) }
      else if t = VT_DOUBLE then do { x \<leftarrow> f v; y \<leftarrow> f other; Some (fp_compare (tk_lfequal H Double x y) H x y) }
      else if t = VT_STRING then do { a \<leftarrow> p v; b \<leftarrow> p other; tk_strcmp H a b }
      else if t = VT_WSTRING then do { a \<leftarrow> p v; b \<leftarrow> p other; tk_wstrcmp H a b }
      else if t = VT_OBJECT then do { a \<leftarrow> p v; b \<leftarrow> p other; Some (object_compare a b) }
      else Some (- 1))"

definition value_equal :: "'r host \<Rightarrow> (ptr \<Rightarrow> ptr \<Rightarrow> int) \<Rightarrow> 'r val \<Rightarrow> 'r val \<Rightarrow> bool option" where
  "value_equal H object_compare v other = map_option (\<lambda>c. c = 0) (value_compare H object_compare v other)"

text \<open>\<open>value_copy\<close> to another place.\<close>

definition value_copy :: "'r val \<Rightarrow> 'r val" where
  "value_copy src = src\<lparr>v_free_handle := False\<rparr>"

text \<open>The loop of \<open>value_min\<close> and \<open>value_max\<close>: the index of the best so far.\<close>

fun pick_loop :: "('r val \<Rightarrow> 'r val \<Rightarrow> bool option) \<Rightarrow> 'r val list \<Rightarrow> 'r val \<Rightarrow> 'r val option" where
  "pick_loop better [] r = Some r"
| "pick_loop better (a # arr) r = do { b \<leftarrow> better a r; pick_loop better arr (if b then a else r) }"

definition value_best :: "'r host \<Rightarrow> (int \<Rightarrow> int \<Rightarrow> bool) \<Rightarrow> ('r \<Rightarrow> 'r \<Rightarrow> bool) \<Rightarrow> 'r val list \<Rightarrow> 'r val \<Rightarrow> 'r out" where
  "value_best H better fbetter arr result =
     (if arr = [] then Some (RET_BAD_PARAMS, result)
      else
        (let t = v_type (hd arr);
             by_num = (\<lambda>get a r. do { x \<leftarrow> get a; y \<leftarrow> get r; Some (better x y) });
             pick = (\<lambda>b. do { r \<leftarrow> pick_loop b arr (hd arr); Some (RET_OK, value_copy r) })
         in if vt_code VT_INT8 \<le> vt_code t \<and> vt_code t < vt_code VT_UINT64 then pick (by_num (value_int64 H))
            else if t = VT_UINT64 then pick (by_num (value_uint64 H))
            else if t = VT_STRING then pick (\<lambda>a r. do { x \<leftarrow> value_str a; y \<leftarrow> value_str r; c \<leftarrow> tk_strcmp H x y; Some (better c 0) })
            else if t = VT_WSTRING then pick (\<lambda>a r. do { x \<leftarrow> value_wstr a; y \<leftarrow> value_wstr r; c \<leftarrow> tk_wstrcmp H x y; Some (better c 0) })
            else if vt_code VT_FLOAT \<le> vt_code t \<and> vt_code t \<le> vt_code VT_DOUBLE then
              pick (\<lambda>a r. do { x \<leftarrow> value_double H a; y \<leftarrow> value_double H r; Some (fbetter x y) })
            else Some (RET_NOT_IMPL, result)))"

definition value_min :: "'r host \<Rightarrow> 'r val list \<Rightarrow> 'r val \<Rightarrow> 'r out" where
  "value_min H arr result = value_best H (\<lambda>x y. x < y) (fp_lt H) arr result"

definition value_max :: "'r host \<Rightarrow> 'r val list \<Rightarrow> 'r val \<Rightarrow> 'r out" where
  "value_max H arr result = value_best H (\<lambda>x y. x > y) (\<lambda>x y. fp_lt H y x) arr result"

end
