(* ===== verification/ValueOps.thy ===== *)
theory ValueOps
  imports Values
begin

unbundle bit_operations_syntax

text \<open>
  What the operations of \<open>Values\<close> do: well-typed values keep well-typed and their unions are read only as
  they were written; sums, differences, products, quotients and remainders; rotations; single bits;
  comparison.
\<close>

section \<open>Ranges\<close>

fun int_range :: "value_type \<Rightarrow> int \<Rightarrow> bool" where
  "int_range VT_BOOL x \<longleftrightarrow> 0 \<le> x \<and> x < 2 ^ 8"
| "int_range VT_INT8 x \<longleftrightarrow> - (2 ^ 7) \<le> x \<and> x < 2 ^ 7"
| "int_range VT_UINT8 x \<longleftrightarrow> 0 \<le> x \<and> x < 2 ^ 8"
| "int_range VT_INT16 x \<longleftrightarrow> - (2 ^ 15) \<le> x \<and> x < 2 ^ 15"
| "int_range VT_UINT16 x \<longleftrightarrow> 0 \<le> x \<and> x < 2 ^ 16"
| "int_range VT_INT32 x \<longleftrightarrow> - (2 ^ 31) \<le> x \<and> x < 2 ^ 31"
| "int_range VT_UINT32 x \<longleftrightarrow> 0 \<le> x \<and> x < 2 ^ 32"
| "int_range VT_INT64 x \<longleftrightarrow> - (2 ^ 63) \<le> x \<and> x < 2 ^ 63"
| "int_range VT_UINT64 x \<longleftrightarrow> 0 \<le> x \<and> x < 2 ^ 64"
| "int_range VT_TOKEN x \<longleftrightarrow> 0 \<le> x \<and> x < 2 ^ 32"
| "int_range _ x \<longleftrightarrow> False"

lemma c_s_range: "0 < w \<Longrightarrow> - (2 ^ (w - 1)) \<le> c_s w x \<and> c_s w x < 2 ^ (w - 1)"
proof -
  assume "0 < w"
  then obtain k where w: "w = Suc k" by (cases w) auto
  have "(2::int) ^ w = 2 * 2 ^ k" using w by simp
  moreover have "0 \<le> (x + 2 ^ k) mod 2 ^ w" "(x + 2 ^ k) mod 2 ^ w < 2 ^ w" by simp_all
  ultimately show ?thesis using w by (simp add: c_s_def)
qed

lemma c_s_id: "0 < w \<Longrightarrow> - (2 ^ (w - 1)) \<le> x \<Longrightarrow> x < 2 ^ (w - 1) \<Longrightarrow> c_s w x = x"
proof -
  assume a: "0 < w" "- (2 ^ (w - 1)) \<le> x" "x < 2 ^ (w - 1)"
  then obtain k where w: "w = Suc k" by (cases w) auto
  have "(x + 2 ^ k) mod 2 ^ w = x + 2 ^ k" by (rule mod_pos_pos_trivial) (use a w in auto)
  then show ?thesis using w by (simp add: c_s_def)
qed

lemma c_u_range: "0 \<le> c_u w x \<and> c_u w x < 2 ^ w"
  by (simp add: c_u_def)

lemma c_u_id: "0 \<le> x \<Longrightarrow> x < 2 ^ w \<Longrightarrow> c_u w x = x"
  by (simp add: c_u_def)

lemmas c_s_8 = c_s_range[of 8, simplified] and c_s_16 = c_s_range[of 16, simplified] and c_s_32 = c_s_range[of 32, simplified]
  and c_s_64 = c_s_range[of 64, simplified]

lemmas c_u_8 = c_u_range[of 8, simplified] and c_u_16 = c_u_range[of 16, simplified] and c_u_32 = c_u_range[of 32, simplified]
  and c_u_64 = c_u_range[of 64, simplified]

lemmas c_ranges = c_s_8 c_s_16 c_s_32 c_s_64 c_u_8 c_u_16 c_u_32 c_u_64

section \<open>Well-typed values\<close>

definition int_tag :: "value_type \<Rightarrow> bool" where
  "int_tag t \<longleftrightarrow> t = VT_BOOL \<or> is_int t \<or> t = VT_TOKEN"

definition fp_tag :: "value_type \<Rightarrow> bool" where
  "fp_tag t \<longleftrightarrow> t = VT_FLOAT \<or> t = VT_FLOAT32 \<or> t = VT_DOUBLE"

text \<open>The active member is the one of the tag, and holds a number of its type.\<close>

definition val_ok :: "'r val \<Rightarrow> bool" where
  "val_ok v \<longleftrightarrow>
     (case v_type v of
        VT_INVALID \<Rightarrow> True
      | VT_RECT \<Rightarrow> (\<exists>x y w h. v_value v = M_rect x y w h)
      | t \<Rightarrow> (if int_tag t then \<exists>x. int_member t (v_value v) = Some x \<and> int_range t x
             else if fp_tag t then fp_member t (v_value v) \<noteq> None else ptr_member t (v_value v) \<noteq> None))"

text \<open>Strings and shared pointers are behind their pointers.\<close>

definition readable :: "'r host \<Rightarrow> 'r val \<Rightarrow> bool" where
  "readable H v \<longleftrightarrow>
     (\<forall>p. (v_value v = M_str p \<longrightarrow> p = NULL \<or> h_str H p \<noteq> None) \<and> (v_value v = M_wstr p \<longrightarrow> p = NULL \<or> h_wstr H p \<noteq> None) \<and>
       (v_value v = M_ptr_ref p \<longrightarrow> h_ref_data H p \<noteq> None))"

text \<open>A number between the bounds of a type is cut to an integer of the type.\<close>

definition fp_ok :: "'r host \<Rightarrow> bool" where
  "fp_ok H \<longleftrightarrow> (\<forall>f. \<forall>(lo, hi) \<in> {(- (2 ^ 31), 2 ^ 31 - 1), (- (2 ^ 63), 2 ^ 63 - 1), (0, 2 ^ 64 - 1)}.
     \<not> fp_isnan H f \<and> \<not> fp_le H f (fp_of_int H Double lo) \<and> \<not> fp_le H (fp_op H Double FAdd (fp_of_int H Double hi) (fp_of_int H Double 1)) f \<longrightarrow>
     lo \<le> fp_trunc H f \<and> fp_trunc H f \<le> hi)"

lemma float_to_range:
  assumes "fp_ok H" and "(lo, hi) \<in> {(- (2 ^ 31), 2 ^ 31 - 1), (- (2 ^ 63), 2 ^ 63 - 1), (0, 2 ^ 64 - 1)}"
  shows "lo \<le> value_float_to H f lo hi \<and> value_float_to H f lo hi \<le> hi"
proof -
  have "lo \<le> 0" "0 \<le> hi" "lo \<le> hi" using assms(2) by auto
  moreover have "\<not> fp_isnan H f \<and> \<not> fp_le H f (fp_of_int H Double lo) \<and> \<not> fp_le H (fp_op H Double FAdd (fp_of_int H Double hi) (fp_of_int H Double 1)) f \<Longrightarrow>
     lo \<le> fp_trunc H f \<and> fp_trunc H f \<le> hi" using assms unfolding fp_ok_def by fast
  ultimately show ?thesis unfolding value_float_to_def by simp
qed

lemma strtoi_range: "- (2 ^ 31) \<le> tk_strtoi s b \<and> tk_strtoi s b < 2 ^ 31"
  unfolding tk_strtoi_def by (simp add: Let_def)

lemma strtol_range: "- (2 ^ 63) \<le> tk_strtol s b \<and> tk_strtol s b < 2 ^ 63"
  by (simp add: tk_strtol_def clamp_def split: prod.split)

lemma strtoull_range: "0 \<le> tk_strtoull s b \<and> tk_strtoull s b < 2 ^ 64"
proof (cases "c_strto b s")
  case (Pair neg n)
  show ?thesis
  proof (cases "n \<ge> 2 ^ 64")
    case False
    then have "int n < 2 ^ 64" by (simp add: of_nat_less_iff)
    then show ?thesis using Pair False c_u_64 by (simp add: tk_strtoull_def)
  qed (simp add: tk_strtoull_def Pair)
qed

lemma atoi_range: "- (2 ^ 31) \<le> tk_atoi s \<and> tk_atoi s < 2 ^ 31"
  using strtoi_range by (simp add: tk_atoi_def)

lemma atol_range: "- (2 ^ 63) \<le> tk_atol s \<and> tk_atol s < 2 ^ 63"
  using strtol_range by (simp add: tk_atol_def)

lemma atoul_range: "0 \<le> tk_atoul s \<and> tk_atoul s < 2 ^ 64"
  using strtoull_range by (simp add: tk_atoul_def)


lemma member_inv:
  "ptr_member VT_STRING m = Some p \<longleftrightarrow> m = M_str p" "ptr_member VT_WSTRING m = Some p \<longleftrightarrow> m = M_wstr p"
  "ptr_member VT_POINTER_REF m = Some p \<longleftrightarrow> m = M_ptr_ref p"
  by (cases m; auto)+

lemma of_str_total: "p = NULL \<or> h_str H p \<noteq> None \<Longrightarrow> \<exists>x. of_str H d f p = Some x \<and> (x = d \<or> (\<exists>s. x = f s))"
  by (auto simp: of_str_def)

lemma of_wstr_total: "p = NULL \<or> h_wstr H p \<noteq> None \<Longrightarrow> \<exists>x. of_wstr H d f p = Some x \<and> (x = d \<or> (\<exists>s. x = f s))"
  by (auto simp: of_wstr_def)

text \<open>A value with its number, text or pointer.\<close>

lemma val_cases:
  assumes "val_ok v"
  obtains (int) x where "int_tag (v_type v)" "int_member (v_type v) (v_value v) = Some x" "int_range (v_type v) x"
  | (fp) f where "fp_tag (v_type v)" "fp_member (v_type v) (v_value v) = Some f"
  | (ptr) p where "\<not> int_tag (v_type v)" "\<not> fp_tag (v_type v)" "v_type v \<noteq> VT_INVALID" "v_type v \<noteq> VT_RECT" "ptr_member (v_type v) (v_value v) = Some p"
  | (other) "v_type v = VT_INVALID \<or> v_type v = VT_RECT"
proof (cases "v_type v = VT_INVALID \<or> v_type v = VT_RECT")
  case False
  then have "if int_tag (v_type v) then \<exists>x. int_member (v_type v) (v_value v) = Some x \<and> int_range (v_type v) x
             else if fp_tag (v_type v) then fp_member (v_type v) (v_value v) \<noteq> None else ptr_member (v_type v) (v_value v) \<noteq> None"
    using assms by (auto simp: val_ok_def split: value_type.splits)
  then show thesis using False int fp ptr by (auto split: if_splits)
qed (rule other)

lemma string_total:
  assumes "val_ok v" "readable H v" "v_type v = VT_STRING"
  shows "\<exists>x. Option.bind (ptr_member VT_STRING (v_value v)) (of_str H d f) = Some x \<and> (x = d \<or> (\<exists>s. x = f s))"
  using assms(1)
proof (cases rule: val_cases)
  case (ptr p)
  then have "v_value v = M_str p" using assms(3) member_inv(1) by metis
  then have "p = NULL \<or> h_str H p \<noteq> None" using assms(2) by (auto simp: readable_def)
  then show ?thesis using ptr(5) assms(3) of_str_total by simp
qed (use assms(3) in \<open>simp_all add: int_tag_def is_int_def fp_tag_def\<close>)

lemma wstring_total:
  assumes "val_ok v" "readable H v" "v_type v = VT_WSTRING"
  shows "\<exists>x. Option.bind (ptr_member VT_WSTRING (v_value v)) (of_wstr H d f) = Some x \<and> (x = d \<or> (\<exists>s. x = f s))"
  using assms(1)
proof (cases rule: val_cases)
  case (ptr p)
  then have "v_value v = M_wstr p" using assms(3) member_inv(2) by metis
  then have "p = NULL \<or> h_wstr H p \<noteq> None" using assms(2) by (auto simp: readable_def)
  then show ?thesis using ptr(5) assms(3) of_wstr_total by simp
qed (use assms(3) in \<open>simp_all add: int_tag_def is_int_def fp_tag_def\<close>)

lemma shared_total:
  assumes "val_ok v" "readable H v" "v_type v = VT_POINTER_REF"
  shows "\<exists>x. Option.bind (ptr_member VT_POINTER_REF (v_value v)) (h_ref_data H) = Some x"
  using assms(1)
proof (cases rule: val_cases)
  case (ptr p)
  then have "v_value v = M_ptr_ref p" using assms(3) member_inv(3) by metis
  then have "h_ref_data H p \<noteq> None" using assms(2) by (auto simp: readable_def)
  then show ?thesis using ptr(5) assms(3) by auto
qed (use assms(3) in \<open>simp_all add: int_tag_def is_int_def fp_tag_def\<close>)

lemma value_int_range:
  assumes v: "val_ok v" "readable H v" and H: "fp_ok H"
  shows "\<exists>x. value_int H v = Some x \<and> - (2 ^ 31) \<le> x \<and> x < 2 ^ 31"
  using assms(1)
proof (cases rule: val_cases)
  case (int x)
  then show ?thesis using c_s_32[of x] by (cases "v_type v") (auto simp: value_int_def int_tag_def is_int_def)
next
  case (fp f)
  have "- (2 ^ 31) \<le> value_float_to H f (- (2 ^ 31)) (2 ^ 31 - 1) \<and> value_float_to H f (- (2 ^ 31)) (2 ^ 31 - 1) \<le> 2 ^ 31 - 1"
    by (rule float_to_range[OF H]) simp
  then show ?thesis using fp by (cases "v_type v") (auto simp: value_int_def fp_tag_def)
next
  case (ptr p)
  then consider "v_type v = VT_STRING" | "v_type v = VT_WSTRING" | "v_type v \<notin> {VT_STRING, VT_WSTRING}" by blast
  then show ?thesis
  proof cases
    case 1
    then show ?thesis using string_total[OF v 1, of 0 tk_atoi] atoi_range by (auto simp: value_int_def)
  next
    case 2
    have "- (2 ^ 31) \<le> tk_watoi w s \<and> tk_watoi w s < 2 ^ 31" for w s unfolding tk_watoi_def by (rule atoi_range)
    then show ?thesis using 2 wstring_total[OF v 2, of 0 "tk_watoi (h_wsize H)"] by (auto simp: value_int_def)
  next
    case 3
    then show ?thesis using ptr by (cases "v_type v") (auto simp: value_int_def int_tag_def fp_tag_def is_int_def)
  qed
qed (auto simp: value_int_def)


lemma value_bool_total:
  assumes v: "val_ok v" "readable H v" and H: "fp_ok H"
  shows "\<exists>b. value_bool H v = Some b"
proof -
  obtain x where x: "value_int H v = Some x" using value_int_range[OF assms] by blast
  consider "v_type v = VT_STRING" | "v_type v = VT_WSTRING" | "v_type v = VT_POINTER_REF" | "v_type v = VT_BOOL \<or> v_type v = VT_OBJECT \<or> v_type v = VT_POINTER"
    | "v_type v \<notin> {VT_STRING, VT_WSTRING, VT_POINTER_REF, VT_BOOL, VT_OBJECT, VT_POINTER}" by blast
  then show ?thesis
  proof cases
    case 1
    then show ?thesis using string_total[OF v 1, of False tk_atob] by (auto simp: value_bool_def)
  next
    case 2
    then show ?thesis using wstring_total[OF v 2, of False tk_watob] by (auto simp: value_bool_def)
  next
    case 3
    then show ?thesis using shared_total[OF v 3] by (auto simp: value_bool_def)
  next
    case 4
    then show ?thesis using v(1) by (auto simp: value_bool_def val_ok_def int_tag_def fp_tag_def is_int_def)
  next
    case 5
    then show ?thesis using x by (cases "v_type v") (auto simp: value_bool_def)
  qed
qed

lemma own_member:
  assumes "val_ok v" and "v_type v = t" and "int_tag t"
  shows "\<exists>x. int_member t (v_value v) = Some x \<and> int_range t x"
  using assms(1) by (cases rule: val_cases) (use assms(2,3) in \<open>auto simp: int_tag_def fp_tag_def is_int_def\<close>)

lemma fp_case:
  assumes "val_ok v" and "v_type v = t" and "fp_tag t"
  shows "\<exists>f. fp_member t (v_value v) = Some f"
  using assms(1) by (cases rule: val_cases) (use assms(2,3) in \<open>auto simp: int_tag_def fp_tag_def is_int_def\<close>)

lemma value_uint32_range:
  assumes v: "val_ok v" "readable H v" and H: "fp_ok H"
  shows "\<exists>x. value_uint32 H v = Some x \<and> int_range VT_UINT32 x"
proof -
  obtain x where x: "value_int H v = Some x" using value_int_range[OF assms] by blast
  consider "v_type v = VT_UINT32" | "v_type v = VT_STRING" | "v_type v \<noteq> VT_UINT32" "v_type v \<noteq> VT_STRING" by blast
  then show ?thesis
  proof cases
    case 1
    then show ?thesis using own_member[OF v(1) 1] by (simp add: value_uint32_def int_tag_def is_int_def)
  next
    case 2
    then show ?thesis using string_total[OF v 2, of 0 tk_atoul] c_u_32 by (auto simp: value_uint32_def)
  next
    case 3
    then show ?thesis using x c_u_32 by (simp add: value_uint32_def)
  qed
qed

lemma value_int64_range:
  assumes v: "val_ok v" "readable H v" and H: "fp_ok H"
  shows "\<exists>x. value_int64 H v = Some x \<and> int_range VT_INT64 x"
proof -
  obtain x where x: "value_int H v = Some x" "- (2 ^ 31) \<le> x" "x < 2 ^ 31" using value_int_range[OF assms] by blast
  have f: "- (2 ^ 63) \<le> value_float_to H f (- (2 ^ 63)) (2 ^ 63 - 1) \<and> value_float_to H f (- (2 ^ 63)) (2 ^ 63 - 1) \<le> 2 ^ 63 - 1" for f
    by (rule float_to_range[OF H]) simp
  consider "v_type v = VT_INT64" | "v_type v = VT_UINT64" | "v_type v = VT_STRING" | "v_type v = VT_UINT32" | "fp_tag (v_type v)"
    | "v_type v \<notin> {VT_INT64, VT_UINT64, VT_STRING, VT_UINT32}" "\<not> fp_tag (v_type v)" by blast
  then show ?thesis
  proof cases
    case 1
    then show ?thesis using own_member[OF v(1) 1] by (simp add: value_int64_def int_tag_def is_int_def)
  next
    case 2
    then show ?thesis using own_member[OF v(1) 2] c_s_64 by (auto simp: value_int64_def int_tag_def is_int_def)
  next
    case 3
    then show ?thesis using string_total[OF v 3, of 0 tk_atol] atol_range by (auto simp: value_int64_def)
  next
    case 4
    then show ?thesis using value_uint32_range[OF assms] by (auto simp: value_int64_def)
  next
    case 5
    then obtain g where "fp_member (v_type v) (v_value v) = Some g" using fp_case[OF v(1) refl] by blast
    then show ?thesis using 5 f[of g] by (auto simp: value_int64_def fp_tag_def)
  next
    case 6
    then show ?thesis using x by (cases "v_type v") (auto simp: value_int64_def fp_tag_def)
  qed
qed

lemma value_uint64_range:
  assumes v: "val_ok v" "readable H v" and H: "fp_ok H"
  shows "\<exists>x. value_uint64 H v = Some x \<and> int_range VT_UINT64 x"
proof -
  obtain x where x: "value_int H v = Some x" using value_int_range[OF assms] by blast
  have f: "0 \<le> value_float_to H f 0 (2 ^ 64 - 1) \<and> value_float_to H f 0 (2 ^ 64 - 1) \<le> 2 ^ 64 - 1" for f
    by (rule float_to_range[OF H]) simp
  consider "v_type v = VT_INT64" | "v_type v = VT_UINT64" | "v_type v = VT_STRING" | "fp_tag (v_type v)"
    | "v_type v \<notin> {VT_INT64, VT_UINT64, VT_STRING}" "\<not> fp_tag (v_type v)" by blast
  then show ?thesis
  proof cases
    case 1
    then show ?thesis using own_member[OF v(1) 1] c_u_64 by (auto simp: value_uint64_def int_tag_def is_int_def)
  next
    case 2
    then show ?thesis using own_member[OF v(1) 2] by (auto simp: value_uint64_def int_tag_def is_int_def)
  next
    case 3
    then show ?thesis using string_total[OF v 3, of 0 tk_atoul] atoul_range by (auto simp: value_uint64_def)
  next
    case 4
    then obtain g where "fp_member (v_type v) (v_value v) = Some g" using fp_case[OF v(1) refl] by blast
    then show ?thesis using 4 f[of g] by (auto simp: value_uint64_def fp_tag_def)
  next
    case 5
    then show ?thesis using x c_u_64 by (cases "v_type v") (auto simp: value_uint64_def fp_tag_def)
  qed
qed

lemma get_as_range:
  assumes v: "val_ok v" "readable H v" and H: "fp_ok H" and t: "t = VT_BOOL \<or> is_int t"
  shows "\<exists>x. get_as H t v = Some x \<and> int_range t x"
proof -
  obtain x where x: "value_int H v = Some x" using value_int_range[OF v H] by blast
  note own = own_member[OF v(1) refl]
  have "t = VT_INT8 \<Longrightarrow> ?thesis" "t = VT_UINT8 \<Longrightarrow> ?thesis" "t = VT_INT16 \<Longrightarrow> ?thesis" "t = VT_UINT16 \<Longrightarrow> ?thesis" "t = VT_INT32 \<Longrightarrow> ?thesis"
    using own x c_ranges[of x]
    by (auto simp: get_as_def value_int8_def value_uint8_def value_int16_def value_uint16_def value_int32_def int_tag_def is_int_def)
  moreover have "t = VT_BOOL \<Longrightarrow> ?thesis"
  proof -
    assume t: "t = VT_BOOL"
    obtain b where "value_bool H v = Some b" using value_bool_total[OF v H] by blast
    then show ?thesis using t by (intro exI[of _ "of_bool b"]) (simp add: get_as_def)
  qed
  moreover have "t = VT_UINT32 \<Longrightarrow> ?thesis" using value_uint32_range[OF v H] by (simp add: get_as_def)
  moreover have "t = VT_INT64 \<Longrightarrow> ?thesis" using value_int64_range[OF v H] by (simp add: get_as_def)
  moreover have "t = VT_UINT64 \<Longrightarrow> ?thesis" using value_uint64_range[OF v H] by (simp add: get_as_def)
  ultimately show ?thesis using t by (auto simp: is_int_def)
qed

lemma value_float_total:
  assumes v: "val_ok v" "readable H v"
  shows "(\<exists>f. value_float H v = Some f) \<and> (\<exists>f. value_float32 H v = Some f)"
proof -
  have "\<exists>f. value_float H v = Some f"
  proof (cases "v_type v = VT_STRING \<or> v_type v = VT_WSTRING")
    case True
    then show ?thesis
      using string_total[OF v, of "fp_of_int H Single 0" "\<lambda>s. fp_single H (fp_atof H s)"] wstring_total[OF v, of "fp_of_int H Single 0" "\<lambda>s. fp_single H (tk_watof H s)"]
      by (auto simp: value_float_def)
  next
    case False
    show ?thesis using v(1)
    proof (cases rule: val_cases)
      case (int x)
      then show ?thesis by (cases "v_type v") (auto simp: value_float_def int_tag_def is_int_def)
    next
      case (fp f)
      then show ?thesis by (cases "v_type v") (auto simp: value_float_def fp_tag_def)
    next
      case (ptr p)
      then show ?thesis using False by (cases "v_type v") (auto simp: value_float_def int_tag_def fp_tag_def is_int_def)
    qed (auto simp: value_float_def)
  qed
  moreover have "v_type v = VT_FLOAT32 \<Longrightarrow> \<exists>f. fp_member VT_FLOAT32 (v_value v) = Some f" using fp_case[OF v(1)] by (simp add: fp_tag_def)
  ultimately show ?thesis by (auto simp: value_float32_def)
qed

lemma value_double_total:
  assumes v: "val_ok v" "readable H v" and H: "fp_ok H"
  shows "\<exists>f. value_double H v = Some f"
proof (cases "v_type v = VT_STRING \<or> v_type v = VT_WSTRING \<or> v_type v = VT_BOOL")
  case True
  then show ?thesis
    using string_total[OF v, of "fp_of_int H Double 0" "fp_atof H"] wstring_total[OF v, of "fp_of_int H Double 0" "tk_watof H"] value_bool_total[OF v H]
    by (auto simp: value_double_def)
next
  case False
  show ?thesis using v(1)
  proof (cases rule: val_cases)
    case (int x)
    then show ?thesis using False by (cases "v_type v") (auto simp: value_double_def int_tag_def is_int_def)
  next
    case (fp f)
    then show ?thesis by (cases "v_type v") (auto simp: value_double_def fp_tag_def)
  next
    case (ptr p)
    then show ?thesis using False by (cases "v_type v") (auto simp: value_double_def int_tag_def fp_tag_def is_int_def)
  qed (auto simp: value_double_def)
qed


section \<open>Types\<close>

datatype value_op =
    V_ADD | V_SUB | V_MUL | V_DIV | V_MOD | V_AND | V_OR | V_XOR | V_NOT | V_ABS | V_LSHIFT nat | V_RSHIFT nat
  | V_LSHIFT_R nat | V_RSHIFT_R nat | V_GET_BIT nat | V_SET_BIT nat bool | V_TOGGLE_BIT nat

fun run_value_op :: "'r host \<Rightarrow> value_op \<Rightarrow> 'r val \<Rightarrow> 'r val \<Rightarrow> 'r val \<Rightarrow> 'r out" where
  "run_value_op H V_ADD v other result = value_add H v other result"
| "run_value_op H V_SUB v other result = value_sub H v other result"
| "run_value_op H V_MUL v other result = value_mul H v other result"
| "run_value_op H V_DIV v other result = value_div H v other result"
| "run_value_op H V_MOD v other result = value_mod H v other result"
| "run_value_op H V_AND v other result = value_bit_and H v other result"
| "run_value_op H V_OR v other result = value_bit_or H v other result"
| "run_value_op H V_XOR v other result = value_bit_xor H v other result"
| "run_value_op H V_NOT v other result = value_bit_not H v result"
| "run_value_op H V_ABS v other result = value_abs H v result"
| "run_value_op H (V_LSHIFT n) v other result = value_lshift H v result n"
| "run_value_op H (V_RSHIFT n) v other result = value_rshift H v result n"
| "run_value_op H (V_LSHIFT_R n) v other result = value_lshift_r H v result n"
| "run_value_op H (V_RSHIFT_R n) v other result = value_rshift_r H v result n"
| "run_value_op H (V_GET_BIT n) v other result = value_get_bit H v result n"
| "run_value_op H (V_SET_BIT n b) v other result = value_set_bit H v result n b"
| "run_value_op H (V_TOGGLE_BIT n) v other result = value_toggle_bit H v result n"

text \<open>The type that an operation computes in: the larger one of two operands.\<close>

definition binary_op :: "value_op \<Rightarrow> bool" where
  "binary_op op \<longleftrightarrow> op \<in> {V_ADD, V_SUB, V_MUL, V_DIV, V_MOD, V_AND, V_OR, V_XOR}"

definition op_type :: "value_op \<Rightarrow> 'r val \<Rightarrow> 'r val \<Rightarrow> value_type" where
  "op_type op v other = (if binary_op op then type_max (v_type v) (v_type other) else v_type v)"

definition wider :: "value_type \<Rightarrow> value_type" where
  "wider t = (if t = VT_INT8 \<or> t = VT_UINT8 then VT_INT16 else if t = VT_INT16 \<or> t = VT_UINT16 then VT_INT32
     else if t = VT_INT32 \<or> t = VT_UINT32 then VT_INT64 else t)"

text \<open>The types of the result.\<close>

definition result_types :: "value_op \<Rightarrow> value_type \<Rightarrow> value_type set" where
  "result_types op t =
     (if t = VT_BOOL \<and> op \<in> {V_ADD, V_SUB, V_MUL, V_DIV, V_MOD} then {VT_INT8}
      else if is_small t \<and> op \<in> {V_ADD, V_SUB, V_MUL} \<or> t \<in> {VT_INT32, VT_UINT32} \<and> op = V_SUB then {t, wider t}
      else if t = VT_FLOAT \<and> binary_op op then {VT_DOUBLE}
      else (case op of V_GET_BIT n \<Rightarrow> {VT_BOOL} | _ \<Rightarrow> {t}))"

text \<open>What C leaves undefined: signed overflow, and shifts by the width or more or that lose bits of a signed number.\<close>

definition shl_undefined :: "value_type \<Rightarrow> int \<Rightarrow> nat \<Rightarrow> bool" where
  "shl_undefined t x n \<longleftrightarrow> c_width t \<le> n \<or> c_signed t \<and> (x < 0 \<or> 2 ^ (c_width t - 1) \<le> x * 2 ^ n)"

definition op_undefined :: "value_op \<Rightarrow> value_type \<Rightarrow> int \<Rightarrow> int \<Rightarrow> bool" where
  "op_undefined op t x y \<longleftrightarrow>
     (case op of
        V_ADD \<Rightarrow> \<not> is_small t \<and> c_result t (x + y) = None
      | V_SUB \<Rightarrow> t = VT_INT64 \<and> c_result t (x - y) = None
      | V_MUL \<Rightarrow> c_result t (x * y) = None
      | V_DIV \<Rightarrow> y \<noteq> 0 \<and> c_result t (x sdiv y) = None
      | V_MOD \<Rightarrow> y \<noteq> 0 \<and> c_result t (x sdiv y) = None
      | V_ABS \<Rightarrow> c_signed t \<and> c_result t \<bar>x\<bar> = None
      | V_LSHIFT n \<Rightarrow> shl_undefined t x n
      | V_RSHIFT n \<Rightarrow> c_width t \<le> n
      | V_GET_BIT n \<Rightarrow> c_width t \<le> n
      | V_LSHIFT_R n \<Rightarrow> 32 \<le> int_bits t \<and> n mod int_bits t = 0 \<or> shl_undefined t x (n mod int_bits t)
      | V_RSHIFT_R n \<Rightarrow> shl_undefined t x (int_bits t - n mod int_bits t)
      | V_SET_BIT n b \<Rightarrow> 64 \<le> n
      | V_TOGGLE_BIT n \<Rightarrow> 64 \<le> n
      | _ \<Rightarrow> False)"

lemmas set_defs = value_init_def value_set_bool_def value_set_int8_def value_set_uint8_def value_set_int16_def value_set_uint16_def
  value_set_int32_def value_set_uint32_def value_set_int64_def value_set_uint64_def value_set_float_def value_set_float32_def value_set_double_def

definition good_result :: "value_type \<Rightarrow> 'r val \<Rightarrow> bool" where
  "good_result t res \<longleftrightarrow> val_ok res \<and> v_type res = t \<and> \<not> v_free_handle res"

lemma set_int_good [simp]:
  "good_result VT_BOOL (value_set_bool r x)" "good_result VT_INT8 (value_set_int8 r x)" "good_result VT_UINT8 (value_set_uint8 r x)"
  "good_result VT_INT16 (value_set_int16 r x)" "good_result VT_UINT16 (value_set_uint16 r x)" "good_result VT_INT32 (value_set_int32 r x)"
  "good_result VT_UINT32 (value_set_uint32 r x)" "good_result VT_INT64 (value_set_int64 r x)" "good_result VT_UINT64 (value_set_uint64 r x)"
  using c_s_8[of x] c_s_16[of x] c_s_32[of x] c_s_64[of x] c_u_8[of x] c_u_16[of x] c_u_32[of x] c_u_64[of x]
  by (simp_all add: good_result_def set_defs val_ok_def int_tag_def is_int_def)

lemma set_as_good: "t = VT_BOOL \<or> is_int t \<Longrightarrow> good_result t (set_as t r x)"
  by (auto simp: is_int_def set_as_def)

lemma set_small_good:
  "is_small t \<Longrightarrow> \<exists>t' \<in> (if t = VT_BOOL then {VT_INT8} else {t, wider t}). good_result t' (set_small t r x)"
  by (cases t) (simp_all add: is_small_def set_small_def Let_def wider_def)

lemma set_fp_good: "good_result VT_FLOAT (value_set_float r x)" "good_result VT_FLOAT32 (value_set_float32 r x)" "good_result VT_DOUBLE (value_set_double r x)"
  by (simp_all add: good_result_def set_defs val_ok_def int_tag_def fp_tag_def is_int_def)

text \<open>An operation gives a good result or refuses.\<close>

definition typed :: "value_type set \<Rightarrow> bool \<Rightarrow> 'r val \<Rightarrow> 'r out \<Rightarrow> bool" where
  "typed T undef result out \<longleftrightarrow>
     (case out of None \<Rightarrow> undef
      | Some (r, res) \<Rightarrow> r = RET_OK \<and> (\<exists>t \<in> T. good_result t res) \<or> r = RET_BAD_PARAMS \<and> res = result)"

lemma typed_refuse: "typed T u result (Some (RET_BAD_PARAMS, result))"
  by (simp add: typed_def)

lemma typed_good: "good_result t res \<Longrightarrow> t \<in> T \<Longrightarrow> typed T u result (Some (RET_OK, res))"
  by (auto simp: typed_def)

lemma typed_bind: "(\<And>z. a = Some z \<Longrightarrow> typed T u result (f z)) \<Longrightarrow> (a = None \<Longrightarrow> u) \<Longrightarrow> typed T u result (Option.bind a f)"
  by (cases a) (auto simp: typed_def)

lemma fp_arith_typed:
  assumes v: "val_ok v" "readable H v" and w: "val_ok other" "readable H other" and H: "fp_ok H"
    and T: "t = VT_FLOAT32 \<Longrightarrow> VT_FLOAT32 \<in> T" "t = VT_FLOAT \<or> t = VT_DOUBLE \<Longrightarrow> VT_DOUBLE \<in> T"
  shows "typed T u result (fp_arith H f t v other result)"
proof -
  obtain a b c d where f: "value_float32 H v = Some a" "value_float32 H other = Some b" "value_double H v = Some c" "value_double H other = Some d"
    using value_float_total[OF v] value_float_total[OF w] value_double_total[OF v H] value_double_total[OF w H] by blast
  show ?thesis
    by (cases "t = VT_FLOAT32"; cases "t = VT_FLOAT \<or> t = VT_DOUBLE")
       (auto simp: fp_arith_def f intro!: typed_refuse typed_good[OF set_fp_good(2)] typed_good[OF set_fp_good(3)] T)
qed


lemma type_facts:
  "is_small t \<Longrightarrow> t = VT_BOOL \<or> is_int t" "is_int t \<Longrightarrow> t \<noteq> VT_BOOL \<and> t \<noteq> VT_FLOAT \<and> t \<noteq> VT_FLOAT32 \<and> t \<noteq> VT_DOUBLE"
  "vt_code t \<le> vt_code VT_UINT64 \<longleftrightarrow> t = VT_INVALID \<or> t = VT_BOOL \<or> is_int t"
  by (cases t; simp add: is_small_def is_int_def)+

lemma c_result_None: "c_result t z = None \<Longrightarrow> c_signed t"
  by (simp add: c_result_def split: if_splits)

text \<open>The operands of an operation, read as its type.\<close>

definition operands :: "'r host \<Rightarrow> value_type \<Rightarrow> 'r val \<Rightarrow> 'r val \<Rightarrow> int \<Rightarrow> int \<Rightarrow> bool" where
  "operands H t v other x y \<longleftrightarrow> get_as H t v = Some x \<and> get_as H t other = Some y \<and> int_range t x \<and> int_range t y"

definition ready :: "'r host \<Rightarrow> 'r val \<Rightarrow> 'r val \<Rightarrow> bool" where
  "ready H v other \<longleftrightarrow> val_ok v \<and> readable H v \<and> val_ok other \<and> readable H other \<and> fp_ok H"

lemma operands_exist:
  assumes "ready H v other" and "t = VT_BOOL \<or> is_int t"
  obtains x y where "operands H t v other x y" "get_as H t v = Some x" "get_as H t other = Some y"
  using assms get_as_range[of v H t] get_as_range[of other H t] unfolding operands_def ready_def by blast

text \<open>What is shown of an operation.\<close>

definition op_typed :: "'r host \<Rightarrow> value_op \<Rightarrow> 'r val \<Rightarrow> 'r val \<Rightarrow> 'r val \<Rightarrow> bool" where
  "op_typed H op v other result \<longleftrightarrow>
     (let t = op_type op v other
      in typed (result_types op t) (\<exists>x y. operands H t v other x y \<and> op_undefined op t x y) result (run_value_op H op v other result))"

lemma op_typedI:
  assumes "op_type op v other = t"
    and "typed (result_types op t) (\<exists>x y. operands H t v other x y \<and> op_undefined op t x y) result (run_value_op H op v other result)"
  shows "op_typed H op v other result"
  using assms by (simp add: op_typed_def Let_def)

lemma fp_typed:
  assumes "ready H v other" and "binary_op op" and "t \<noteq> VT_BOOL" "\<not> is_small t" "\<not> is_int t"
  shows "typed (result_types op t) u result (fp_arith H f t v other result)"
proof -
  have "VT_FLOAT32 \<in> result_types op VT_FLOAT32" "VT_DOUBLE \<in> result_types op VT_DOUBLE" "VT_DOUBLE \<in> result_types op VT_FLOAT"
    using assms(2) by (auto simp: result_types_def is_small_def binary_op_def)
  then show ?thesis using assms(1) unfolding ready_def by (intro fp_arith_typed) auto
qed

lemma op_type_simps [simp]: "binary_op op \<Longrightarrow> op_type op v other = type_max (v_type v) (v_type other)" "\<not> binary_op op \<Longrightarrow> op_type op v other = v_type v"
  by (simp_all add: op_type_def)

lemma binary_simps [simp]:
  "binary_op V_ADD" "binary_op V_SUB" "binary_op V_MUL" "binary_op V_DIV" "binary_op V_MOD" "binary_op V_AND" "binary_op V_OR" "binary_op V_XOR"
  "\<not> binary_op V_NOT" "\<not> binary_op V_ABS" "\<not> binary_op (V_LSHIFT n)" "\<not> binary_op (V_RSHIFT n)" "\<not> binary_op (V_LSHIFT_R n)" "\<not> binary_op (V_RSHIFT_R n)"
  "\<not> binary_op (V_GET_BIT n)" "\<not> binary_op (V_SET_BIT n b)" "\<not> binary_op (V_TOGGLE_BIT n)"
  by (simp_all add: binary_op_def)

lemma small_typed:
  "is_small t \<Longrightarrow> op \<in> {V_ADD, V_SUB, V_MUL} \<Longrightarrow> typed (result_types op t) u result (Some (RET_OK, set_small t result z))"
  using set_small_good[of t result z] by (auto simp: typed_def result_types_def split: if_splits)

lemma own_typed:
  "t = VT_BOOL \<or> is_int t \<Longrightarrow> t \<in> result_types op t \<Longrightarrow> typed (result_types op t) u result (Some (RET_OK, set_as t result z))"
  by (rule typed_good[OF set_as_good])

lemma in_result_types: "is_int t \<Longrightarrow> (\<And>n. op \<noteq> V_GET_BIT n) \<Longrightarrow> t \<in> result_types op t"
  by (auto simp: result_types_def is_int_def split: value_op.split)

lemma int_typed:
  assumes "ready H v other" and "t = VT_BOOL \<or> is_int t"
    and "\<And>x y. operands H t v other x y \<Longrightarrow> typed T u result (f x y)"
  shows "typed T u result (do { x \<leftarrow> get_as H t v; y \<leftarrow> get_as H t other; f x y })"
proof -
  obtain x y where "operands H t v other x y" "get_as H t v = Some x" "get_as H t other = Some y" using operands_exist[OF assms(1,2)] .
  then show ?thesis using assms(3) by simp
qed

lemma int_typed1:
  assumes "ready H v other" and "t = VT_BOOL \<or> is_int t"
    and "\<And>x y. operands H t v other x y \<Longrightarrow> typed T u result (f x)"
  shows "typed T u result (do { x \<leftarrow> get_as H t v; f x })"
proof -
  obtain x y where "operands H t v other x y" "get_as H t v = Some x" "get_as H t other = Some y" using operands_exist[OF assms(1,2)] .
  then show ?thesis using assms(3) by simp
qed

abbreviation undefined_at :: "'r host \<Rightarrow> value_op \<Rightarrow> value_type \<Rightarrow> 'r val \<Rightarrow> 'r val \<Rightarrow> bool" where
  "undefined_at H op t v other \<equiv> \<exists>x y. operands H t v other x y \<and> op_undefined op t x y"

text \<open>An integer branch: the operands, a result that may be undefined, the setter of the type.\<close>

lemma set_typed:
  assumes "ready H v other" and "is_int t" and "\<And>n. op \<noteq> V_GET_BIT n"
    and "\<And>x y. operands H t v other x y \<Longrightarrow> g x y = None \<Longrightarrow> op_undefined op t x y"
  shows "typed (result_types op t) (undefined_at H op t v other) result
    (do { x \<leftarrow> get_as H t v; y \<leftarrow> get_as H t other; z \<leftarrow> g x y; Some (RET_OK, set_as t result z) })"
  using assms(4) in_result_types[OF assms(2,3)] disjI2[OF assms(2)]
  by (intro int_typed[OF assms(1) disjI2[OF assms(2)]] typed_bind own_typed) blast+

lemma set_typed1:
  assumes "ready H v other" and "is_int t" and "\<And>n. op \<noteq> V_GET_BIT n"
    and "\<And>x y. operands H t v other x y \<Longrightarrow> g x = None \<Longrightarrow> op_undefined op t x y"
  shows "typed (result_types op t) (undefined_at H op t v other) result
    (do { x \<leftarrow> get_as H t v; z \<leftarrow> g x; Some (RET_OK, set_as t result z) })"
  using assms(4) in_result_types[OF assms(2,3)] disjI2[OF assms(2)]
  by (intro int_typed1[OF assms(1) disjI2[OF assms(2)]] typed_bind own_typed) blast+

lemma type_split:
  obtains "is_small t" | "is_int t" "\<not> is_small t" | "\<not> is_small t" "\<not> is_int t" "t \<noteq> VT_BOOL"
  by (auto simp: is_small_def)

lemma add_typed: "ready H v other \<Longrightarrow> op_typed H V_ADD v other result"
proof (rule op_typedI[OF op_type_simps(1)])
  assume r: "ready H v other"
  let ?t = "type_max (v_type v) (v_type other)"
  show "typed (result_types V_ADD ?t) (undefined_at H V_ADD ?t v other) result (run_value_op H V_ADD v other result)"
  proof (cases rule: type_split[of ?t])
    case 1
    have "typed (result_types V_ADD ?t) (undefined_at H V_ADD ?t v other) result
        (do { x \<leftarrow> get_as H ?t v; y \<leftarrow> get_as H ?t other; Some (RET_OK, set_small ?t result (x + y)) })"
      by (rule int_typed[OF r type_facts(1)[OF 1] small_typed[OF 1]]) simp
    then show ?thesis using 1 by (simp add: value_add_def Let_def)
  next
    case 2
    then show ?thesis using set_typed[OF r 2(1), of V_ADD "\<lambda>x y. c_result ?t (x + y)"] by (simp add: value_add_def Let_def op_undefined_def)
  next
    case 3
    then show ?thesis using fp_typed[OF r] by (simp add: value_add_def Let_def)
  qed
qed simp

lemma sub32_good:
  "\<exists>t' \<in> result_types V_SUB VT_INT32. good_result t' (if - (2 ^ 31) \<le> z \<and> z \<le> 2 ^ 31 - 1 then value_set_int32 result z else value_set_int64 result z)"
  "\<exists>t' \<in> result_types V_SUB VT_UINT32. good_result t' (if 0 \<le> z \<and> z \<le> 2 ^ 32 - 1 then value_set_uint32 result z else value_set_int64 result z)"
  by (simp_all add: result_types_def wider_def is_small_def)

lemma sub_typed: "ready H v other \<Longrightarrow> op_typed H V_SUB v other result"
proof (rule op_typedI[OF op_type_simps(1)])
  assume r: "ready H v other"
  let ?t = "type_max (v_type v) (v_type other)"
  let ?typed = "typed (result_types V_SUB ?t) (undefined_at H V_SUB ?t v other) result"
  show "?typed (run_value_op H V_SUB v other result)"
  proof (cases rule: type_split[of ?t])
    case 1
    have "?typed (do { x \<leftarrow> get_as H ?t v; y \<leftarrow> get_as H ?t other; Some (RET_OK, set_small ?t result (x - y)) })"
      by (rule int_typed[OF r type_facts(1)[OF 1] small_typed[OF 1]]) simp
    then show ?thesis using 1 by (simp add: value_sub_def Let_def)
  next
    case 2
    consider "?t = VT_INT32" | "?t = VT_UINT32" | "?t \<noteq> VT_INT32" "?t \<noteq> VT_UINT32" by blast
    then show ?thesis
    proof cases
      case t: 1
      obtain x y where "get_as H ?t v = Some x" "get_as H ?t other = Some y" using operands_exist[OF r] 2 by blast
      then show ?thesis using t sub32_good(1)[of "x - y" result] by (simp add: value_sub_def Let_def is_small_def typed_def)
    next
      case t: 2
      obtain x y where "get_as H ?t v = Some x" "get_as H ?t other = Some y" using operands_exist[OF r] 2 by blast
      then show ?thesis using t sub32_good(2)[of "x - y" result] by (simp add: value_sub_def Let_def is_small_def typed_def)
    next
      case t: 3
      have "op_undefined V_SUB ?t x y" if "c_result ?t (x - y) = None" for x y
        using t 2 c_result_None[OF that] that by (auto simp: op_undefined_def is_int_def is_small_def c_signed_def)
      then show ?thesis using t 2 set_typed[OF r 2(1), of V_SUB "\<lambda>x y. c_result ?t (x - y)"] by (simp add: value_sub_def Let_def)
    qed
  next
    case 3
    then show ?thesis using fp_typed[OF r] by (simp add: value_sub_def Let_def is_int_def)
  qed
qed simp

lemma mul_typed: "ready H v other \<Longrightarrow> op_typed H V_MUL v other result"
proof (rule op_typedI[OF op_type_simps(1)])
  assume r: "ready H v other"
  let ?t = "type_max (v_type v) (v_type other)"
  let ?typed = "typed (result_types V_MUL ?t) (undefined_at H V_MUL ?t v other) result"
  show "?typed (run_value_op H V_MUL v other result)"
  proof (cases rule: type_split[of ?t])
    case 1
    have "?typed (do { x \<leftarrow> get_as H ?t v; y \<leftarrow> get_as H ?t other; z \<leftarrow> c_result ?t (x * y); Some (RET_OK, set_small ?t result z) })"
      by (rule int_typed[OF r type_facts(1)[OF 1] typed_bind[OF small_typed[OF 1]]]) (auto simp: op_undefined_def)
    then show ?thesis using 1 by (simp add: value_mul_def Let_def)
  next
    case 2
    then show ?thesis using set_typed[OF r 2(1), of V_MUL "\<lambda>x y. c_result ?t (x * y)"] by (simp add: value_mul_def Let_def op_undefined_def)
  next
    case 3
    then show ?thesis using fp_typed[OF r] by (simp add: value_mul_def Let_def)
  qed
qed simp

text \<open>Division and remainder: \<open>g\<close> is the quotient or the remainder of the type.\<close>

lemma quot_typed:
  assumes r: "ready H v other" and t: "t = VT_BOOL \<or> is_int t" and op: "op = V_DIV \<or> op = V_MOD"
    and u: "\<And>x y. g x y = None \<Longrightarrow> y = 0 \<or> op_undefined op t x y"
  shows "typed (result_types op t) (undefined_at H op t v other) result
    (do { zero \<leftarrow> (if vt_code t \<le> vt_code VT_UINT64 then value_divisor_is_zero H other t else Some False);
          if zero then Some (RET_BAD_PARAMS, result)
          else if t = VT_BOOL then do { x \<leftarrow> get_as H t v; y \<leftarrow> get_as H t other; z \<leftarrow> g x y; Some (RET_OK, value_set_int8 result z) }
          else if is_int t then do { x \<leftarrow> get_as H t v; y \<leftarrow> get_as H t other; z \<leftarrow> g x y; Some (RET_OK, set_as t result z) }
          else c })"
proof -
  obtain x y where xy: "operands H t v other x y" "get_as H t v = Some x" "get_as H t other = Some y" using operands_exist[OF r t] .
  have "vt_code t \<le> vt_code VT_UINT64" using t by (auto simp: is_int_def)
  then have zero: "(if vt_code t \<le> vt_code VT_UINT64 then value_divisor_is_zero H other t else Some False) = Some (y = 0)"
    using t xy(3) by (auto simp: value_divisor_is_zero_def)
  show ?thesis
  proof (cases "y = 0")
    case True
    then show ?thesis unfolding zero by (simp add: typed_refuse)
  next
    case False
    have undef: "g x y = None \<Longrightarrow> undefined_at H op t v other" using u xy(1) False by blast
    have good: "typed (result_types op t) (undefined_at H op t v other) result
        (do { z \<leftarrow> g x y; Some (RET_OK, if t = VT_BOOL then value_set_int8 result z else set_as t result z) })"
    proof (rule typed_bind[OF _ undef])
      show "typed (result_types op t) (undefined_at H op t v other) result (Some (RET_OK, if t = VT_BOOL then value_set_int8 result z else set_as t result z))" for z
      proof (cases "t = VT_BOOL")
        case True
        then show ?thesis using op by (auto simp: result_types_def is_small_def intro!: typed_good[OF set_int_good(2)])
      next
        case False
        then show ?thesis using t op in_result_types[of t op] typed_good[OF set_as_good[OF t]] by auto
      qed
    qed
    then show ?thesis unfolding zero using xy t False by (cases "t = VT_BOOL") simp_all
  qed
qed

lemma divisor_not_int: "t \<noteq> VT_BOOL \<Longrightarrow> \<not> is_int t \<Longrightarrow> value_divisor_is_zero H w t = Some False"
  by (simp add: value_divisor_is_zero_def)

lemma div_typed: "ready H v other \<Longrightarrow> op_typed H V_DIV v other result"
proof (rule op_typedI[OF op_type_simps(1)])
  assume r: "ready H v other"
  let ?t = "type_max (v_type v) (v_type other)"
  show "typed (result_types V_DIV ?t) (undefined_at H V_DIV ?t v other) result (run_value_op H V_DIV v other result)"
  proof (cases "?t = VT_BOOL \<or> is_int ?t")
    case True
    have "c_quot ?t x y = None \<Longrightarrow> y = 0 \<or> op_undefined V_DIV ?t x y" for x y by (auto simp: c_quot_def op_undefined_def split: if_splits)
    then show ?thesis unfolding run_value_op.simps value_div_def Let_def by (rule quot_typed[OF r True disjI1[OF refl], of "c_quot ?t"])
  next
    case False
    then have "\<not> is_small ?t" using type_facts(1) by blast
    then show ?thesis using False fp_typed[OF r, of V_DIV ?t] divisor_not_int[of ?t H other] by (simp add: value_div_def Let_def)
  qed
qed simp

lemma mod_typed: "ready H v other \<Longrightarrow> op_typed H V_MOD v other result"
proof (rule op_typedI[OF op_type_simps(1)])
  assume r: "ready H v other"
  let ?t = "type_max (v_type v) (v_type other)"
  show "typed (result_types V_MOD ?t) (undefined_at H V_MOD ?t v other) result (run_value_op H V_MOD v other result)"
  proof (cases "?t = VT_BOOL \<or> is_int ?t")
    case True
    have "c_rem ?t x y = None \<Longrightarrow> y = 0 \<or> op_undefined V_MOD ?t x y" for x y by (auto simp: c_rem_def op_undefined_def split: if_splits)
    then show ?thesis unfolding run_value_op.simps value_mod_def Let_def by (rule quot_typed[OF r True disjI2[OF refl], of "c_rem ?t"])
  next
    case False
    then show ?thesis using divisor_not_int[of ?t H other] by (simp add: value_mod_def Let_def typed_refuse)
  qed
qed simp

lemma bit_typed:
  assumes "ready H v other" and "op = V_AND \<or> op = V_OR \<or> op = V_XOR"
  shows "op_typed H op v other result"
proof -
  let ?t = "type_max (v_type v) (v_type other)"
  have op: "binary_op op" using assms(2) by auto
  have own: "t = VT_BOOL \<or> is_int t \<Longrightarrow> t \<in> result_types op t" for t
    using assms(2) by (cases "t = VT_BOOL") (auto simp: result_types_def is_small_def is_int_def)
  have "typed (result_types op ?t) (undefined_at H op ?t v other) result
      (if ?t = VT_BOOL \<or> is_int ?t then do { x \<leftarrow> get_as H ?t v; y \<leftarrow> get_as H ?t other; Some (RET_OK, set_as ?t result (f x y)) }
       else Some (RET_BAD_PARAMS, result))" for f
    using int_typed[OF assms(1), of ?t, OF _ own_typed[OF _ own]] by (auto simp: typed_refuse)
  note this[of "(AND)"] this[of "(OR)"] this[of "(XOR)"]
  then show ?thesis using assms(2) op
    by (intro op_typedI[OF op_type_simps(1)[OF op]])
       (auto simp add: value_bit_and_def value_bit_or_def value_bit_xor_def Let_def)
qed

lemma not_typed: "ready H v other \<Longrightarrow> op_typed H V_NOT v other result"
proof (rule op_typedI[OF op_type_simps(2)])
  assume r: "ready H v other"
  let ?t = "v_type v"
  show "typed (result_types V_NOT ?t) (undefined_at H V_NOT ?t v other) result (run_value_op H V_NOT v other result)"
  proof (cases "?t = VT_BOOL")
    case True
    obtain b where "value_bool H v = Some b" using value_bool_total r unfolding ready_def by blast
    then show ?thesis using True by (auto simp: value_bit_not_def Let_def result_types_def is_small_def intro!: typed_good[OF set_int_good(1)])
  next
    case False
    then show ?thesis using set_typed1[OF r, of ?t V_NOT "\<lambda>x. Some (NOT x)"]
      by (cases "is_int ?t") (simp_all add: value_bit_not_def Let_def typed_refuse)
  qed
qed simp

lemma c_sh_None: "c_shl t x n = None \<longleftrightarrow> shl_undefined t x n" "c_shr t x n = None \<longleftrightarrow> c_width t \<le> n"
  by (auto simp: c_shl_def c_shr_def shl_undefined_def push_bit_eq_mult)

lemma shift_typed:
  assumes r: "ready H v other" and op: "op = V_LSHIFT n \<or> op = V_RSHIFT n"
  shows "op_typed H op v other result"
proof -
  have s: "typed (result_types op (v_type v)) (undefined_at H op (v_type v) v other) result
      (if is_int (v_type v) then do { x \<leftarrow> get_as H (v_type v) v; y \<leftarrow> f x; Some (RET_OK, set_as (v_type v) result y) } else Some (RET_BAD_PARAMS, result))"
    if "\<And>x y. f x = None \<Longrightarrow> op_undefined op (v_type v) x y" for f
    using set_typed1[OF r, of "v_type v" op f] op that by (auto simp: typed_refuse)
  show ?thesis using op s[of "\<lambda>x. c_shl (v_type v) x n"] s[of "\<lambda>x. c_shr (v_type v) x n"] c_sh_None
    by (intro op_typedI[OF op_type_simps(2)]) (auto simp: value_lshift_def value_rshift_def Let_def op_undefined_def)
qed

lemma rotate_bits: "is_int t \<Longrightarrow> n mod int_bits t < c_width t"
  "is_int t \<Longrightarrow> c_width t \<le> int_bits t - n mod int_bits t \<Longrightarrow> 32 \<le> int_bits t \<and> n mod int_bits t = 0"
  by (auto simp: is_int_def int_bits_def c_width_def intro: order_less_trans[OF mod_less_divisor])

lemma rotate_typed:
  assumes r: "ready H v other" and op: "op = V_LSHIFT_R n \<or> op = V_RSHIFT_R n"
  shows "op_typed H op v other result"
proof -
  let ?t = "v_type v"
  have s: "typed (result_types op ?t) (undefined_at H op ?t v other) result
      (if is_int ?t then do { x \<leftarrow> get_as H ?t v; y \<leftarrow> f x; Some (RET_OK, set_as ?t result y) } else Some (RET_BAD_PARAMS, result))"
    if "\<And>x y. is_int ?t \<Longrightarrow> f x = None \<Longrightarrow> op_undefined op ?t x y" for f
    using set_typed1[OF r, of ?t op f] op that by (auto simp: typed_refuse)
  let ?l = "\<lambda>x. do { a \<leftarrow> c_shr ?t x (int_bits ?t - n mod int_bits ?t); b \<leftarrow> c_shl ?t x (n mod int_bits ?t); Some (a OR b) }"
  let ?r = "\<lambda>x. do { a \<leftarrow> c_shl ?t x (int_bits ?t - n mod int_bits ?t); b \<leftarrow> c_shr ?t x (n mod int_bits ?t); Some (a OR b) }"
  have "is_int ?t \<Longrightarrow> ?l x = None \<Longrightarrow> op_undefined (V_LSHIFT_R n) ?t x y"
    "is_int ?t \<Longrightarrow> ?r x = None \<Longrightarrow> op_undefined (V_RSHIFT_R n) ?t x y" for x y
    using rotate_bits[of ?t n] by (auto simp: bind_eq_None_conv c_sh_None op_undefined_def)
  then show ?thesis using op s[of ?l] s[of ?r]
    by (intro op_typedI[OF op_type_simps(2)]) (auto simp: value_lshift_r_def value_rshift_r_def Let_def cong: if_cong)
qed

lemma get_bit_typed: "ready H v other \<Longrightarrow> op_typed H (V_GET_BIT n) v other result"
proof (rule op_typedI[OF op_type_simps(2)])
  assume r: "ready H v other"
  let ?t = "v_type v"
  let ?op = "V_GET_BIT n"
  show "typed (result_types ?op ?t) (undefined_at H ?op ?t v other) result (run_value_op H ?op v other result)"
  proof (cases "is_int ?t")
    case True
    then have bool: "VT_BOOL \<in> result_types ?op ?t" by (auto simp: result_types_def is_int_def)
    have "typed (result_types ?op ?t) (undefined_at H ?op ?t v other) result
        (do { x \<leftarrow> get_as H ?t v; y \<leftarrow> c_shr ?t x n; Some (RET_OK, value_set_bool result (y AND 1)) })"
      by (rule int_typed1[OF r disjI2[OF True] typed_bind[OF typed_good[OF set_int_good(1) bool]]]) (auto simp: c_sh_None op_undefined_def)
    then show ?thesis using True by (simp add: value_get_bit_def Let_def)
  qed (simp add: value_get_bit_def Let_def typed_refuse)
qed simp

lemma mask_typed:
  assumes r: "ready H v other" and op: "op = V_SET_BIT n b \<or> op = V_TOGGLE_BIT n"
  shows "op_typed H op v other result"
proof -
  let ?t = "v_type v"
  have s: "typed (result_types op ?t) (undefined_at H op ?t v other) result
      (if is_int ?t then do { x \<leftarrow> get_as H ?t v; k \<leftarrow> bit_mask n; Some (RET_OK, set_as ?t result (f x k)) } else Some (RET_BAD_PARAMS, result))" for f
    using set_typed1[OF r, of ?t op "\<lambda>x. do { k \<leftarrow> bit_mask n; Some (f x k) }"] op
    by (auto simp: typed_refuse op_undefined_def bit_mask_def)
  show ?thesis using op s[of "\<lambda>x k. if b then x OR k else x AND NOT k"] s[of "(XOR)"]
    by (intro op_typedI[OF op_type_simps(2)]) (auto simp: value_set_bit_def value_toggle_bit_def Let_def)
qed

lemma own_getter:
  "get_as H VT_BOOL v = map_option of_bool (value_bool H v)" "get_as H VT_UINT32 v = value_uint32 H v" "get_as H VT_UINT64 v = value_uint64 H v"
  by (simp_all add: get_as_def)

lemma abs_typed: "ready H v other \<Longrightarrow> op_typed H V_ABS v other result"
proof (rule op_typedI[OF op_type_simps(2)])
  assume r: "ready H v other"
  let ?t = "v_type v"
  let ?typed = "typed (result_types V_ABS ?t) (undefined_at H V_ABS ?t v other) result"
  have v: "val_ok v" "readable H v" "fp_ok H" using r by (auto simp: ready_def)
  consider "?t = VT_BOOL \<or> is_int ?t" "\<not> (is_int ?t \<and> c_signed ?t \<and> ?t \<noteq> VT_UINT8 \<and> ?t \<noteq> VT_UINT16)"
    | "is_int ?t" "c_signed ?t" "?t \<noteq> VT_UINT8" "?t \<noteq> VT_UINT16" | "fp_tag ?t" | "?t \<noteq> VT_BOOL" "\<not> is_int ?t" "\<not> fp_tag ?t" by blast
  then show "?typed (run_value_op H V_ABS v other result)"
  proof cases
    case 1
    have "?t \<in> result_types V_ABS ?t" using 1(1) by (auto simp: result_types_def is_small_def is_int_def)
    then have "?typed (do { x \<leftarrow> get_as H ?t v; Some (RET_OK, set_as ?t result x) })" by (intro int_typed1[OF r 1(1)] own_typed[OF 1(1)])
    moreover have "?t \<in> {VT_BOOL, VT_UINT8, VT_UINT16, VT_UINT32, VT_UINT64}" using 1 by (auto simp: is_int_def c_signed_def)
    ultimately show ?thesis by (auto simp: value_abs_def Let_def)
  next
    case 2
    have "?typed (do { x \<leftarrow> get_as H ?t v; z \<leftarrow> c_result ?t \<bar>x\<bar>; Some (RET_OK, set_as ?t result z) })"
      by (rule set_typed1[OF r 2(1)]) (use 2 in \<open>auto simp: op_undefined_def\<close>)
    then show ?thesis using 2 by (auto simp: value_abs_def Let_def c_signed_def is_int_def)
  next
    case 3
    obtain a b c where "value_float H v = Some a" "value_float32 H v = Some b" "value_double H v = Some c"
      using value_float_total[OF v(1,2)] value_double_total[OF v] by blast
    then show ?thesis using 3
      by (auto simp: value_abs_def Let_def fp_tag_def is_int_def result_types_def is_small_def intro!: typed_good[OF set_fp_good(1)] typed_good[OF set_fp_good(2)] typed_good[OF set_fp_good(3)])
  next
    case 4
    then have "run_value_op H V_ABS v other result = Some (RET_BAD_PARAMS, result)" by (auto simp: value_abs_def Let_def fp_tag_def is_int_def)
    then show ?thesis by (simp add: typed_refuse)
  qed
qed simp

lemma all_typed:
  assumes r: "ready H v other"
  shows "op_typed H op v other result"
proof (cases op)
  case V_AND then show ?thesis using bit_typed[OF r] by blast
next
  case V_OR then show ?thesis using bit_typed[OF r] by blast
next
  case V_XOR then show ?thesis using bit_typed[OF r] by blast
next
  case (V_LSHIFT n) then show ?thesis using shift_typed[OF r] by blast
next
  case (V_RSHIFT n) then show ?thesis using shift_typed[OF r] by blast
next
  case (V_LSHIFT_R n) then show ?thesis using rotate_typed[OF r] by blast
next
  case (V_RSHIFT_R n) then show ?thesis using rotate_typed[OF r] by blast
next
  case (V_SET_BIT n b) then show ?thesis using mask_typed[OF r] by blast
next
  case (V_TOGGLE_BIT n) then show ?thesis using mask_typed[OF r] by blast
qed (use add_typed[OF r] sub_typed[OF r] mul_typed[OF r] div_typed[OF r] mod_typed[OF r] not_typed[OF r] abs_typed[OF r] get_bit_typed[OF r] in simp_all)

section \<open>Exact results\<close>

lemma set_small_exact:
  assumes "is_small t" and "t = VT_BOOL \<Longrightarrow> - 128 \<le> z \<and> z \<le> 127" and "t \<in> {VT_INT8, VT_UINT8} \<Longrightarrow> - (2 ^ 15) \<le> z \<and> z < 2 ^ 15"
    and "- (2 ^ 31) \<le> z" "z < 2 ^ 31"
  shows "int_member (v_type (set_small t result z)) (v_value (set_small t result z)) = Some z"
    and "t \<noteq> VT_BOOL \<Longrightarrow> v_type (set_small t result z) = (if int_range t z then t else wider t)"
proof -
  have c: "- (2 ^ 7) \<le> z \<Longrightarrow> z < 2 ^ 7 \<Longrightarrow> c_s 8 z = z" "- (2 ^ 15) \<le> z \<Longrightarrow> z < 2 ^ 15 \<Longrightarrow> c_s 16 z = z" "c_s 32 z = z"
    "0 \<le> z \<Longrightarrow> z < 2 ^ 8 \<Longrightarrow> c_u 8 z = z" "0 \<le> z \<Longrightarrow> z < 2 ^ 16 \<Longrightarrow> c_u 16 z = z"
    using assms(4,5) by (simp_all add: c_s_id c_u_id)
  consider "t = VT_BOOL" | "t = VT_INT8" | "t = VT_UINT8" | "t = VT_INT16" | "t = VT_UINT16" using assms(1) by (auto simp: is_small_def)
  then show "int_member (v_type (set_small t result z)) (v_value (set_small t result z)) = Some z"
    by cases (use assms(2,3) c in \<open>auto simp: set_small_def set_defs\<close>)
  show "v_type (set_small t result z) = (if int_range t z then t else wider t)" if "t \<noteq> VT_BOOL"
    using assms(1,3) that c by (auto simp: is_small_def set_small_def set_defs wider_def)
qed

lemma set_as_exact: "t = VT_BOOL \<or> is_int t \<Longrightarrow> int_range t z \<Longrightarrow> v_type (set_as t result z) = t \<and> int_member t (v_value (set_as t result z)) = Some z"
  by (auto simp: is_int_def set_as_def set_defs c_s_id c_u_id)

text \<open>Numbers of the same tag: their sum or difference in the tag when it fits and in the wider one otherwise.\<close>

definition number :: "value_type \<Rightarrow> 'r val \<Rightarrow> int \<Rightarrow> bool" where
  "number t v x \<longleftrightarrow> v_type v = t \<and> int_member t (v_value v) = Some x"

definition run_int :: "value_op \<Rightarrow> int \<Rightarrow> int \<Rightarrow> int" where
  "run_int op x y = (if op = V_ADD then x + y else if op = V_SUB then x - y else x * y)"

lemma number_set_small:
  "is_small t \<Longrightarrow> t \<noteq> VT_BOOL \<Longrightarrow> int_range (wider t) z \<Longrightarrow> number (if int_range t z then t else wider t) (set_small t result z) z"
  using set_small_exact[of t z result] by (auto simp: number_def is_small_def wider_def split: if_splits)

lemma number_get: "number t v x \<Longrightarrow> is_int t \<Longrightarrow> get_as H t v = Some x"
  by (auto simp: number_def is_int_def get_as_def value_int8_def value_uint8_def value_int16_def value_uint16_def value_int32_def
      value_uint32_def value_int64_def value_uint64_def)

lemma number_set_as: "is_int t \<Longrightarrow> int_range t z \<Longrightarrow> number t (set_as t result z) z"
  using set_as_exact by (auto simp: number_def)

lemma c_result_in: "is_int t \<Longrightarrow> int_range t z \<Longrightarrow> c_result t z = Some z"
  by (auto simp: is_int_def c_result_def c_signed_def c_width_def c_u_id)

lemma small_range: "is_small t \<Longrightarrow> t \<noteq> VT_BOOL \<Longrightarrow> is_int t"
  by (auto simp: is_small_def is_int_def)

text \<open>The operations that never lose a digit.\<close>

definition exact_op :: "value_op \<Rightarrow> value_type \<Rightarrow> bool" where
  "exact_op op t \<longleftrightarrow>
     (op = V_ADD \<or> op = V_SUB) \<and> is_small t \<and> t \<noteq> VT_BOOL \<or> op = V_SUB \<and> (t = VT_INT32 \<or> t = VT_UINT32) \<or>
     op = V_MUL \<and> (t = VT_INT8 \<or> t = VT_INT16)"

lemma mult_range:
  assumes "\<bar>x\<bar> \<le> b" "\<bar>y\<bar> \<le> b" shows "\<bar>x * y\<bar> \<le> b * (b::int)"
  unfolding abs_mult by (rule mult_mono) (use assms in auto)

lemma run_int_range:
  assumes "exact_op op t" and "int_range t x" "int_range t y"
  shows "int_range (wider t) (run_int op x y)"
proof (cases "op = V_MUL")
  case True
  then have t: "t = VT_INT8 \<or> t = VT_INT16" using assms(1) by (auto simp: exact_op_def)
  then show ?thesis
  proof
    assume "t = VT_INT8"
    then have "\<bar>x * y\<bar> \<le> 2 ^ 7 * 2 ^ 7" by (intro mult_range) (use assms(2,3) in auto)
    then show ?thesis using True \<open>t = VT_INT8\<close> by (simp add: wider_def run_int_def abs_le_iff)
  next
    assume "t = VT_INT16"
    then have "\<bar>x * y\<bar> \<le> 2 ^ 15 * 2 ^ 15" by (intro mult_range) (use assms(2,3) in auto)
    then show ?thesis using True \<open>t = VT_INT16\<close> by (simp add: wider_def run_int_def abs_le_iff)
  qed
next
  case False
  then show ?thesis using assms by (auto simp: exact_op_def is_small_def wider_def run_int_def)
qed

lemma type_max_same [simp]: "type_max t t = t"
  by (simp add: type_max_def)

lemma small_exact:
  assumes "number t v x" "number t other y" and op: "exact_op op t" "is_small t" and r: "int_range t x" "int_range t y"
  shows "run_value_op H op v other result = Some (RET_OK, set_small t result (run_int op x y))"
proof -
  have t: "t \<noteq> VT_BOOL" "v_type v = t" "v_type other = t" using assms by (auto simp: exact_op_def number_def is_small_def)
  note g = number_get[OF assms(1) small_range[OF op(2) t(1)]] number_get[OF assms(2) small_range[OF op(2) t(1)]]
  have "- (2 ^ 31) \<le> run_int op x y" "run_int op x y < 2 ^ 31"
    using run_int_range[OF op(1) r] op(2) t(1) by (auto simp: is_small_def wider_def)
  then have "c_result t (run_int op x y) = Some (run_int op x y)" using op(2) by (auto simp: c_result_def c_width_def c_signed_def is_small_def)
  then show ?thesis using op t g by (auto simp: exact_op_def run_int_def value_add_def value_sub_def value_mul_def Let_def)
qed

lemma exact_typed:
  assumes n: "number t v x" "number t other y" and op: "exact_op op t" and r: "int_range t x" "int_range t y"
  shows "\<exists>res. run_value_op H op v other result = Some (RET_OK, res) \<and>
    number (if int_range t (run_int op x y) then t else wider t) res (run_int op x y)"
proof (cases "is_small t")
  case True
  then show ?thesis using small_exact[OF n op True r] number_set_small[OF True _ run_int_range[OF op r]] op
    by (auto simp: exact_op_def)
next
  case False
  then have t: "op = V_SUB" "t = VT_INT32 \<or> t = VT_UINT32" using op by (auto simp: exact_op_def is_small_def)
  have z: "int_range VT_INT64 (x - y)" using run_int_range[OF op r] t by (auto simp: wider_def run_int_def)
  have i: "is_int t" "type_max (v_type v) (v_type other) = t" using t n by (auto simp: is_int_def number_def)
  note g = number_get[OF n(1) i(1)] number_get[OF n(2) i(1)]
  show ?thesis using t(2)
  proof
    assume "t = VT_INT32"
    then show ?thesis using g i z t(1) number_set_as[of VT_INT32 "x - y" result] number_set_as[of VT_INT64 "x - y" result]
      by (auto simp: value_sub_def Let_def is_small_def set_as_def is_int_def wider_def run_int_def)
  next
    assume "t = VT_UINT32"
    then show ?thesis using g i z t(1) number_set_as[of VT_UINT32 "x - y" result] number_set_as[of VT_INT64 "x - y" result]
      by (auto simp: value_sub_def Let_def is_small_def set_as_def is_int_def wider_def run_int_def)
  qed
qed

section \<open>Quotient and remainder\<close>

lemma sdiv_in:
  assumes x: "- B \<le> x" "x < B" and y: "\<not> (x = - B \<and> y = - 1)" and B: "0 < B"
  shows "- B \<le> x sdiv y \<and> x sdiv y < (B :: int)"
proof -
  have a: "- \<bar>x\<bar> \<le> x sdiv y" "x sdiv y \<le> \<bar>x\<bar>" using sdiv_int_range[of x y] by auto
  have "x sdiv y \<noteq> B"
  proof
    assume e: "x sdiv y = B"
    then have "x = - B" using a x by linarith
    then have "x sdiv y = - x" "x \<noteq> 0" using e B by auto
    then show False using int_sdiv_negated_is_minus1[of x y] y \<open>x = - B\<close> by simp
  qed
  then show ?thesis using a x by linarith
qed

lemma sdiv_nonneg: "0 \<le> x \<Longrightarrow> 0 \<le> y \<Longrightarrow> 0 \<le> x sdiv y \<and> x sdiv y \<le> (x :: int)"
  using zdiv_mono2[of x 1 y] by (cases "y = 0"; cases "x = 0") (auto simp: signed_divide_int_def sgn_if pos_imp_zdiv_nonneg_iff)

text \<open>The quotient of the smallest number by -1 does not fit.\<close>

definition quot_fits :: "value_type \<Rightarrow> int \<Rightarrow> int \<Rightarrow> bool" where
  "quot_fits t x y \<longleftrightarrow> \<not> (y = - 1 \<and> \<not> int_range t (- x))"

definition int_bound :: "value_type \<Rightarrow> int" where
  "int_bound t = (if t = VT_INT8 then 2 ^ 7 else if t = VT_UINT8 then 2 ^ 8 else if t = VT_INT16 then 2 ^ 15 else if t = VT_UINT16 then 2 ^ 16
     else if t = VT_INT32 then 2 ^ 31 else if t = VT_UINT32 then 2 ^ 32 else if t = VT_INT64 then 2 ^ 63 else 2 ^ 64)"

lemma int_range_bound:
  "t \<in> {VT_INT8, VT_INT16, VT_INT32, VT_INT64} \<Longrightarrow> int_range t z \<longleftrightarrow> - int_bound t \<le> z \<and> z < int_bound t"
  "t \<in> {VT_UINT8, VT_UINT16, VT_UINT32, VT_UINT64} \<Longrightarrow> int_range t z \<longleftrightarrow> 0 \<le> z \<and> z < int_bound t"
  by (auto simp: int_bound_def)

lemma sdiv_fits:
  assumes "is_int t" "int_range t x" "int_range t y" "quot_fits t x y"
  shows "int_range t (x sdiv y)"
proof (cases "t \<in> {VT_INT8, VT_INT16, VT_INT32, VT_INT64}")
  case True
  have "0 < int_bound t" by (simp add: int_bound_def)
  then show ?thesis using sdiv_in[of "int_bound t" x y] assms(2,4) unfolding quot_fits_def int_range_bound(1)[OF True] by auto
next
  case False
  then have u: "t \<in> {VT_UINT8, VT_UINT16, VT_UINT32, VT_UINT64}" using assms(1) by (auto simp: is_int_def)
  show ?thesis using sdiv_nonneg[of x y] assms(2,3) unfolding int_range_bound(2)[OF u] by auto
qed

lemma smod_sign: "x smod y = 0 \<or> sgn (x smod y) = sgn (x :: int)"
proof -
  have "0 \<le> \<bar>x\<bar> mod \<bar>y\<bar>" by (cases "y = 0") auto
  then show ?thesis unfolding smod_int_alt_def sgn_mult by (cases "\<bar>x\<bar> mod \<bar>y\<bar> = 0") simp_all
qed

lemma smod_fits:
  assumes "is_int t" "int_range t x" "int_range t y" "y \<noteq> 0"
  shows "int_range t (x smod y)"
proof (cases "t \<in> {VT_INT8, VT_INT16, VT_INT32, VT_INT64}")
  case True
  show ?thesis using smod_int_range[OF assms(4), of x] assms(3) unfolding int_range_bound(1)[OF True] by auto
next
  case False
  then have u: "t \<in> {VT_UINT8, VT_UINT16, VT_UINT32, VT_UINT64}" using assms(1) by (auto simp: is_int_def)
  have "0 < y" using assms(3,4) unfolding int_range_bound(2)[OF u] by simp
  then show ?thesis using smod_int_compares(1,2)[of x y] assms(2,3) unfolding int_range_bound(2)[OF u] by simp
qed

lemma quot_run:
  assumes n: "number t v x" "number t other y" and t: "is_int t"
  shows "value_div H v other result = (if y = 0 then Some (RET_BAD_PARAMS, result) else do { z \<leftarrow> c_quot t x y; Some (RET_OK, set_as t result z) })"
    and "value_mod H v other result = (if y = 0 then Some (RET_BAD_PARAMS, result) else do { z \<leftarrow> c_rem t x y; Some (RET_OK, set_as t result z) })"
proof -
  have m: "type_max (v_type v) (v_type other) = t" "t \<noteq> VT_BOOL" "vt_code t \<le> vt_code VT_UINT64" using n t by (auto simp: number_def is_int_def)
  note g = number_get[OF n(1) t] number_get[OF n(2) t]
  have "value_divisor_is_zero H other t = Some (y = 0)" using g t by (simp add: value_divisor_is_zero_def)
  then show "value_div H v other result = (if y = 0 then Some (RET_BAD_PARAMS, result) else do { z \<leftarrow> c_quot t x y; Some (RET_OK, set_as t result z) })"
    "value_mod H v other result = (if y = 0 then Some (RET_BAD_PARAMS, result) else do { z \<leftarrow> c_rem t x y; Some (RET_OK, set_as t result z) })"
    using m g t unfolding value_div_def value_mod_def Let_def by simp_all
qed

lemma quot_exact:
  assumes n: "number t v x" "number t other y" and t: "is_int t" and r: "int_range t x" "int_range t y"
  shows "y = 0 \<Longrightarrow> value_div H v other result = Some (RET_BAD_PARAMS, result) \<and> value_mod H v other result = Some (RET_BAD_PARAMS, result)"
    and "quot_fits t x y \<Longrightarrow> y \<noteq> 0 \<Longrightarrow> value_div H v other result = Some (RET_OK, set_as t result (x sdiv y))
      \<and> value_mod H v other result = Some (RET_OK, set_as t result (x smod y))"
  using c_result_in[OF t sdiv_fits[OF t r]] by (simp_all add: quot_run[OF n t] c_quot_def c_rem_def)

lemma quot_overflows:
  assumes n: "number t v x" "number t other y" and t: "is_int t" and r: "int_range t x" "int_range t y" and q: "\<not> quot_fits t x y"
  shows "if t = VT_INT8 \<or> t = VT_INT16 then
      \<exists>a b. value_div H v other result = Some (RET_OK, a) \<and> number t a x \<and> value_mod H v other result = Some (RET_OK, b) \<and> number t b 0
    else (t = VT_INT32 \<or> t = VT_INT64) \<and> value_div H v other result = None \<and> value_mod H v other result = None"
proof -
  have y: "y = - 1" "\<not> int_range t (- x)" using q by (auto simp: quot_fits_def)
  have x: "t = VT_INT8 \<and> x = - 128 \<or> t = VT_INT16 \<and> x = - 32768 \<or> t = VT_INT32 \<and> x = - (2 ^ 31) \<or> t = VT_INT64 \<and> x = - (2 ^ 63)"
    using t r y by (auto simp: is_int_def)
  have "z smod 1 = 0" for z :: int by (simp add: smod_int_alt_def)
  with x show ?thesis
    by (auto simp: quot_run[OF n t] y(1) c_quot_def c_rem_def c_result_def c_signed_def c_width_def number_def set_as_def set_defs
      c_s_def)
qed

section \<open>Smallest and largest\<close>

lemma pick_loop_least:
  assumes "\<And>x. \<not> better x x" and "\<And>x y z. \<not> better x y \<Longrightarrow> \<not> better y z \<Longrightarrow> \<not> better x z" and "\<And>x y. better x y \<Longrightarrow> \<not> better y x"
    and "\<And>a. a \<in> insert r (set arr) \<Longrightarrow> get a = Some (k a)"
  shows "\<exists>p \<in> insert r (set arr). pick_loop (\<lambda>a r. do { x \<leftarrow> get a; y \<leftarrow> get r; Some (better x y) }) arr r = Some p
    \<and> (\<forall>a \<in> insert r (set arr). \<not> better (k a) (k p))"
  using assms(4)
proof (induction arr arbitrary: r)
  case Nil
  then show ?case using assms(1) by simp
next
  case (Cons a arr)
  let ?r = "if better (k a) (k r) then a else r"
  have step: "pick_loop (\<lambda>a r. do { x \<leftarrow> get a; y \<leftarrow> get r; Some (better x y) }) (a # arr) r = pick_loop (\<lambda>a r. do { x \<leftarrow> get a; y \<leftarrow> get r; Some (better x y) }) arr ?r"
    using Cons.prems by simp
  obtain p where p: "p \<in> insert ?r (set arr)" "pick_loop (\<lambda>a r. do { x \<leftarrow> get a; y \<leftarrow> get r; Some (better x y) }) arr ?r = Some p"
    "\<forall>b \<in> insert ?r (set arr). \<not> better (k b) (k p)"
  proof -
    have "\<And>b. b \<in> insert ?r (set arr) \<Longrightarrow> get b = Some (k b)" using Cons.prems by (auto split: if_splits)
    from Cons.IH[OF this] show thesis using that by blast
  qed
  have "\<not> better (k a) (k ?r)" "\<not> better (k r) (k ?r)" using assms(1,3) by auto
  then have "\<not> better (k a) (k p)" "\<not> better (k r) (k p)" using p(3) assms(2) by blast+
  then show ?case using p step by (intro bexI[of _ p]) (auto split: if_splits)
qed

text \<open>Lists that start with an integer, and how their values are read: as what the first one is, in 64 bits.\<close>

definition starts_with_int :: "'r val list \<Rightarrow> bool" where
  "starts_with_int arr \<longleftrightarrow> arr \<noteq> [] \<and> is_int (v_type (hd arr))"

definition read_as :: "'r host \<Rightarrow> 'r val list \<Rightarrow> 'r val \<Rightarrow> int option" where
  "read_as H arr a = (if v_type (hd arr) = VT_UINT64 then value_uint64 H a else value_int64 H a)"

lemma best_int:
  assumes "starts_with_int arr" and v: "\<forall>a \<in> set arr. val_ok a \<and> readable H a" and H: "fp_ok H"
    and "\<And>x. \<not> better x x" and "\<And>x y z. \<not> better x y \<Longrightarrow> \<not> better y z \<Longrightarrow> \<not> better x z" and "\<And>x y. better x y \<Longrightarrow> \<not> better y x"
  shows "\<exists>a \<in> set arr. value_best H better fbetter arr result = Some (RET_OK, value_copy a)
    \<and> (\<forall>b \<in> set arr. \<exists>x y. read_as H arr a = Some x \<and> read_as H arr b = Some y \<and> \<not> better y x)"
proof -
  have "\<forall>a \<in> set arr. \<exists>x. read_as H arr a = Some x"
    using v value_int64_range[OF _ _ H] value_uint64_range[OF _ _ H] unfolding read_as_def by metis
  then obtain k where k: "\<forall>a \<in> set arr. read_as H arr a = Some (k a)" by metis
  have ne: "insert (hd arr) (set arr) = set arr" using assms(1) by (auto simp: starts_with_int_def)
  have "\<exists>p \<in> insert (hd arr) (set arr). pick_loop (\<lambda>a r. do { x \<leftarrow> read_as H arr a; y \<leftarrow> read_as H arr r; Some (better x y) }) arr (hd arr) = Some p
    \<and> (\<forall>a \<in> insert (hd arr) (set arr). \<not> better (k a) (k p))"
    by (rule pick_loop_least[OF assms(4,5,6)]) (use k ne in auto)
  then obtain p where p: "p \<in> set arr" "\<forall>a \<in> set arr. \<not> better (k a) (k p)"
    "pick_loop (\<lambda>a r. do { x \<leftarrow> read_as H arr a; y \<leftarrow> read_as H arr r; Some (better x y) }) arr (hd arr) = Some p"
    unfolding ne by blast
  have t: "v_type (hd arr) = VT_UINT64 \<or> vt_code VT_INT8 \<le> vt_code (v_type (hd arr)) \<and> vt_code (v_type (hd arr)) < vt_code VT_UINT64"
    using assms(1) by (auto simp: starts_with_int_def is_int_def)
  have "value_best H better fbetter arr result = Some (RET_OK, value_copy p)"
    using assms(1) p(3) t by (auto simp: value_best_def starts_with_int_def Let_def read_as_def)
  then show ?thesis using p(1,2) k by blast
qed

section \<open>The operations on values\<close>

text \<open>
  C39. Given well-typed operands, each operation on bits or numbers either stores a well-typed value of one of
  its result types, without a handle to free, or refuses and leaves the result as it was; the only other
  outcome is the undefined behaviour of C, and only for the operands named: sums, differences and products out
  of the range of the signed type, the absolute value of the smallest number and its quotient by -1, shifts by the width of
  the operand, and left shifts (those of a rotation too) of a negative number or out of the range of the signed type.
\<close>

theorem value_ops_typed:
  assumes "val_ok v" "readable H v" and "val_ok other" "readable H other" and "fp_ok H"
  shows "case run_value_op H op v other result of
      None \<Rightarrow> \<exists>x y. operands H (op_type op v other) v other x y \<and> op_undefined op (op_type op v other) x y
    | Some (r, res) \<Rightarrow> r = RET_OK \<and> v_type res \<in> result_types op (op_type op v other) \<and> val_ok res \<and> \<not> v_free_handle res
        \<or> r = RET_BAD_PARAMS \<and> res = result"
proof -
  have "ready H v other" using assms by (simp add: ready_def)
  from all_typed[OF this, of op result] show ?thesis
    by (auto simp: op_typed_def typed_def good_result_def Let_def split: option.splits prod.splits)
qed

text \<open>A machine whose numbers are integers, and the two operands 200 and 100 of an addition that leaves the type.\<close>

definition int_host :: "int host" where
  "int_host = \<lparr>h_str = (\<lambda>p. None), h_wstr = (\<lambda>p. None), h_wsize = 4, h_ref_data = (\<lambda>p. None),
     fp_isnan = (\<lambda>x. False), fp_of_int = (\<lambda>p x. x), fp_trunc = (\<lambda>x. x), fp_single = (\<lambda>x. x),
     fp_op = (\<lambda>p f x y. case f of FAdd \<Rightarrow> x + y | FSub \<Rightarrow> x - y | FMul \<Rightarrow> x * y | FDiv \<Rightarrow> x sdiv y),
     fp_neg = uminus, fp_abs = abs, fp_le = (\<le>), fp_lt = (<), fp_eps4 = 1, fp_eps6 = 1, fp_infinity = 2 ^ 64, fp_atof = (\<lambda>s. 0)\<rparr>"

definition u8 :: "int \<Rightarrow> int val" where
  "u8 x = \<lparr>v_type = VT_UINT8, v_free_handle = False, v_value = M_u8 x\<rparr>"

definition no_val :: "int val" where
  "no_val = \<lparr>v_type = VT_INVALID, v_free_handle = False, v_value = M_b 0\<rparr>"

lemma int_host_ok: "fp_ok int_host"
  by (auto simp: fp_ok_def int_host_def)

lemma u8_ok: "0 \<le> x \<Longrightarrow> x < 256 \<Longrightarrow> val_ok (u8 x) \<and> readable int_host (u8 x)"
  by (simp add: val_ok_def u8_def int_tag_def is_int_def readable_def)

lemma u8_add: "run_value_op int_host V_ADD (u8 200) (u8 100) no_val = Some (RET_OK, \<lparr>v_type = VT_INT16, v_free_handle = False, v_value = M_i16 300\<rparr>)"
  by (simp add: value_add_def u8_def no_val_def type_max_def is_small_def get_as_def value_uint8_def set_small_def c_s_def value_set_int16_def
      value_init_def Let_def)

theorem value_ops_typed_witness:
  "run_value_op int_host V_ADD (u8 200) (u8 100) no_val = Some (RET_OK, \<lparr>v_type = VT_INT16, v_free_handle = False, v_value = M_i16 300\<rparr>)
   \<and> result_types V_ADD VT_UINT8 = {VT_UINT8, VT_INT16} \<and> val_ok \<lparr>v_type = VT_INT16, v_free_handle = False, v_value = M_i16 300 :: int uval\<rparr>"
  using value_ops_typed[of "u8 200" int_host "u8 100" V_ADD no_val, OF conjunct1[OF u8_ok] conjunct2[OF u8_ok] conjunct1[OF u8_ok] conjunct2[OF u8_ok] int_host_ok] u8_add
  by (simp add: result_types_def is_small_def wider_def)

text \<open>
  Sums and differences of two 8- or 16-bit numbers, products of two signed 8- or 16-bit numbers, and
  differences of two 32-bit numbers, both of the same type, are exact: the result has the type of the
  operands when the number fits in it and the wider signed type otherwise. (Products of unsigned
  numbers are not: \<open>255 * 255\<close> does not fit in the wider type that is taken for them.)
\<close>

theorem value_arith_exact:
  assumes "number t v x" "number t other y" and "int_range t x" "int_range t y" and "exact_op op t"
  shows "\<exists>res. run_value_op H op v other result = Some (RET_OK, res) \<and>
    number (if int_range t (run_int op x y) then t else wider t) res (run_int op x y)"
  by (rule exact_typed[OF assms(1,2,5,3,4)])

theorem value_arith_exact_witness:
  "\<exists>res. run_value_op int_host V_SUB (u8 100) (u8 200) no_val = Some (RET_OK, res) \<and> number VT_INT16 res (- 100)"
  using value_arith_exact[of VT_UINT8 "u8 100" 100 "u8 200" 200 V_SUB int_host no_val]
  by (simp add: u8_def number_def exact_op_def is_small_def run_int_def wider_def)

text \<open>
  C40. Division and remainder of two integers of the same type: a zero divisor is refused and the result left
  alone. The smallest number of a signed type divided by -1 is given back unchanged, with the remainder 0, for
  8 and 16 bits, and is undefined for 32 and 64 bits. In every other case both succeed, the dividend is the
  quotient times the divisor plus the remainder, and the remainder is smaller than the divisor and has the sign of the
  dividend.
\<close>

theorem value_div_mod:
  assumes "number t v x" "number t other y" and "int_range t x" "int_range t y" and "is_int t"
  shows "if y = 0 then value_div H v other result = Some (RET_BAD_PARAMS, result) \<and> value_mod H v other result = Some (RET_BAD_PARAMS, result)
    else if quot_fits t x y then
      \<exists>q r a b. value_div H v other result = Some (RET_OK, a) \<and> number t a q \<and> value_mod H v other result = Some (RET_OK, b) \<and> number t b r
        \<and> x = q * y + r \<and> \<bar>r\<bar> < \<bar>y\<bar> \<and> (r = 0 \<or> sgn r = sgn x)
    else if t = VT_INT8 \<or> t = VT_INT16 then
      \<exists>a b. value_div H v other result = Some (RET_OK, a) \<and> number t a x \<and> value_mod H v other result = Some (RET_OK, b) \<and> number t b 0
    else (t = VT_INT32 \<or> t = VT_INT64) \<and> value_div H v other result = None \<and> value_mod H v other result = None"
proof (cases "y = 0 \<or> quot_fits t x y")
  case True
  show ?thesis
  proof (cases "y = 0")
    case True
    then show ?thesis using quot_exact(1)[OF assms(1,2,5,3,4)] by simp
  next
    case False
    then have q: "quot_fits t x y" using \<open>y = 0 \<or> quot_fits t x y\<close> by blast
    have "number t (set_as t result (x sdiv y)) (x sdiv y)" "number t (set_as t result (x smod y)) (x smod y)"
      using number_set_as[OF assms(5)] sdiv_fits[OF assms(5,3,4) q] smod_fits[OF assms(5,3,4) False] by blast+
    moreover have "x = x sdiv y * y + x smod y" "\<bar>x smod y\<bar> < \<bar>y\<bar>" using smod_int_range[OF False, of x] sdiv_mult_smod_eq[of x y] by auto
    ultimately show ?thesis using quot_exact(2)[OF assms(1,2,5,3,4) q False] smod_sign[of x y] False q by auto
  qed
next
  case False
  then show ?thesis using quot_overflows[OF assms(1,2,5,3,4), of H result] by simp
qed

theorem value_div_mod_witness:
  "\<exists>q r a b. value_div int_host (u8 200) (u8 7) no_val = Some (RET_OK, a) \<and> number VT_UINT8 a q
     \<and> value_mod int_host (u8 200) (u8 7) no_val = Some (RET_OK, b) \<and> number VT_UINT8 b r \<and> 200 = q * 7 + r \<and> \<bar>r\<bar> < 7"
  using value_div_mod[of VT_UINT8 "u8 200" 200 "u8 7" 7 int_host no_val]
  by (auto simp: u8_def number_def is_int_def quot_fits_def)

text \<open>
  The smallest and the largest of a list of values that starts with an integer: both return a copy of a
  value of the list, and no value of the list, read the way the code reads it, is smaller or larger. Every value is
  read as unsigned 64-bit integer when the first one has this type, and as a signed one otherwise (so
  that a later unsigned one of \<open>2 ^ 63\<close> or more counts as negative).
\<close>

theorem value_min_max_extreme:
  assumes "starts_with_int arr" and "\<forall>a \<in> set arr. val_ok a \<and> readable H a" and "fp_ok H"
  shows "(\<exists>a \<in> set arr. value_min H arr result = Some (RET_OK, value_copy a)
      \<and> (\<forall>b \<in> set arr. \<exists>x y. read_as H arr a = Some x \<and> read_as H arr b = Some y \<and> x \<le> y))
    \<and> (\<exists>a \<in> set arr. value_max H arr result = Some (RET_OK, value_copy a)
      \<and> (\<forall>b \<in> set arr. \<exists>x y. read_as H arr a = Some x \<and> read_as H arr b = Some y \<and> y \<le> x))"
  using best_int[OF assms, of "\<lambda>x y. x < y" "fp_lt H" result] best_int[OF assms, of "\<lambda>x y. x > y" "\<lambda>x y. fp_lt H y x" result]
  unfolding value_min_def value_max_def not_less by simp

text \<open>The largest of three unsigned 64-bit numbers, one of which would be negative as a signed one.\<close>

definition u64v :: "int \<Rightarrow> int val" where
  "u64v x = \<lparr>v_type = VT_UINT64, v_free_handle = False, v_value = M_u64 x\<rparr>"

theorem value_min_max_extreme_witness:
  "(\<exists>a x. value_max int_host [u64v 7, u64v (2 ^ 63 + 1), u64v 9] no_val = Some (RET_OK, value_copy a)
      \<and> read_as int_host [u64v 7, u64v (2 ^ 63 + 1), u64v 9] a = Some x \<and> 2 ^ 63 + 1 \<le> x)
   \<and> value_max int_host [u64v 7, u64v (2 ^ 63 + 1), u64v 9] no_val = Some (RET_OK, u64v (2 ^ 63 + 1))"
proof
  let ?arr = "[u64v 7, u64v (2 ^ 63 + 1), u64v 9]"
  have v: "starts_with_int ?arr" "\<forall>a \<in> set ?arr. val_ok a \<and> readable int_host a"
    by (auto simp: starts_with_int_def u64v_def is_int_def val_ok_def int_tag_def readable_def)
  have "read_as int_host ?arr (u64v (2 ^ 63 + 1)) = Some (2 ^ 63 + 1)" by (simp add: read_as_def value_uint64_def u64v_def)
  moreover from value_min_max_extreme[OF v int_host_ok, of no_val]
  obtain a x y where "value_max int_host ?arr no_val = Some (RET_OK, value_copy a)"
    "read_as int_host ?arr a = Some x" "read_as int_host ?arr (u64v (2 ^ 63 + 1)) = Some y" "y \<le> x"
    by (meson list.set_intros(1) list.set_intros(2))
  ultimately show "\<exists>a x. value_max int_host ?arr no_val = Some (RET_OK, value_copy a) \<and> read_as int_host ?arr a = Some x \<and> 2 ^ 63 + 1 \<le> x"
    by auto
  show "value_max int_host ?arr no_val = Some (RET_OK, u64v (2 ^ 63 + 1))"
    by (simp add: value_max_def value_best_def u64v_def value_uint64_def value_copy_def Let_def)
qed

end
