(* ===== verification/WidgetTree.thy ===== *)
theory WidgetTree
  imports Rect
begin

text \<open>
  The tree of widgets of \<open>src/src/base/widget.c\<close>: a heap of widgets with their parent, their array of
  children and the fields that the operations on the tree read. Here are the walks up and down the
  tree, positions, lookup by name or type, the search for the target of a pointer, and grabbing.

  What a widget class provides through its vtable is a field (its kind, the offset it reports) or an
  argument (its own \<open>is_point_in\<close>). A result \<open>None\<close> is an access to a widget that is not there, or a walk
  that does not end. Sums of coordinates are reduced with \<open>s32\<close>.

  Shown: on a heap that represents a forest of widgets (\<open>forest\<close>) every walk ends; \<open>widget_lookup\<close> finds the
  first match in the order of a traversal of the tree; positions are translated between a widget and
  the screen without loss; the target of a pointer is the topmost child under it that takes events; a
  grab that is released leaves no trace.
\<close>

section \<open>Widgets\<close>

record widget =
  w_x :: int
  w_y :: int
  w_w :: int
  w_h :: int
  w_name :: "string option"
  w_enable :: bool
  w_visible :: bool
  w_sensitive :: bool
  w_focusable :: bool
  w_focused :: bool
  w_dirty :: bool
  w_initializing :: bool
  w_need_update_style :: bool
  w_need_relayout :: bool
  w_parent :: ptr
  w_target :: ptr
  w_grab_widget :: ptr
  w_grab_widget_count :: int
  w_key_target :: ptr
  w_children :: "ptr list option"
  w_type :: string
  w_is_window :: bool
  w_is_window_manager :: bool
  w_is_keyboard :: bool
  w_vt_focusable :: bool
  w_vt_invalidate :: bool
  w_scrollable :: bool
  w_styled :: bool
  w_dirty_rect_tolerance :: int
  w_xoffset :: int
  w_yoffset :: int

type_synonym wtree = "ptr \<Rightarrow> widget option"

definition get_w :: "wtree \<Rightarrow> ptr \<Rightarrow> widget option" where
  "get_w st p = (if p = NULL then None else st p)"

definition upd_w :: "ptr \<Rightarrow> (widget \<Rightarrow> widget) \<Rightarrow> wtree \<Rightarrow> wtree option" where
  "upd_w p f st = Option.bind (get_w st p) (\<lambda>w. Some (st(p \<mapsto> f w)))"

text \<open>What \<open>WIDGET_FOR_EACH_CHILD_BEGIN\<close> iterates over.\<close>

definition kids :: "widget \<Rightarrow> ptr list" where
  "kids w = (case w_children w of None \<Rightarrow> [] | Some cs \<Rightarrow> cs)"

section \<open>Children\<close>

definition widget_count_children :: "wtree \<Rightarrow> ptr \<Rightarrow> int option" where
  "widget_count_children st widget = Option.bind (get_w st widget) (\<lambda>w. Some (int (length (kids w))))"

text \<open>The index is compared as an unsigned number, so a negative one is out of range.\<close>

definition widget_get_child :: "wtree \<Rightarrow> ptr \<Rightarrow> int \<Rightarrow> ptr option" where
  "widget_get_child st widget index =
     Option.bind (get_w st widget) (\<lambda>w.
       case w_children w of None \<Rightarrow> Some NULL
       | Some cs \<Rightarrow> if index < 0 \<or> nat index \<ge> length cs then Some NULL else Some (cs ! nat index))"

fun index_loop :: "ptr list \<Rightarrow> ptr \<Rightarrow> int \<Rightarrow> int" where
  "index_loop [] widget i = - 1"
| "index_loop (iter # cs) widget i = (if iter = widget then i else index_loop cs widget (i + 1))"

definition widget_index_of :: "wtree \<Rightarrow> ptr \<Rightarrow> int option" where
  "widget_index_of st widget =
     (if widget = NULL then Some (- 1)
      else Option.bind (get_w st widget) (\<lambda>w.
        if w_parent w = NULL then Some (- 1)
        else Option.bind (get_w st (w_parent w)) (\<lambda>parent. Some (index_loop (kids parent) widget 0))))"

fun restack_up :: "nat \<Rightarrow> nat \<Rightarrow> ptr list \<Rightarrow> ptr list" where
  "restack_up i index children =
     (if i > index then restack_up (i - 1) index (children[i := children ! (i - 1)]) else children)"

function restack_down :: "nat \<Rightarrow> nat \<Rightarrow> ptr list \<Rightarrow> ptr list" where
  "restack_down i index children =
     (if i < index then restack_down (i + 1) index (children[i := children ! (i + 1)]) else children)"
  by pat_completeness auto
termination by (relation "measure (\<lambda>(i, index, children). index - i)") auto

declare restack_up.simps [simp del] restack_down.simps [simp del]

definition widget_restack :: "wtree \<Rightarrow> ptr \<Rightarrow> nat \<Rightarrow> (ret_t \<times> wtree) option" where
  "widget_restack st widget index =
     (if widget = NULL then Some (RET_BAD_PARAMS, st)
      else Option.bind (get_w st widget) (\<lambda>w.
        if w_parent w = NULL then Some (RET_BAD_PARAMS, st)
        else Option.bind (widget_index_of st widget) (\<lambda>old_index.
          Option.bind (widget_count_children st (w_parent w)) (\<lambda>nr.
            if \<not> (old_index \<ge> 0 \<and> nr > 0) then Some (RET_BAD_PARAMS, st)
            else
              (let index = (if int index \<ge> nr then nat nr - 1 else index)
               in if int index = old_index \<or> nr = 1 then Some (RET_OK, st)
                  else Option.bind (get_w st (w_parent w)) (\<lambda>parent.
                    let children = kids parent;
                        children = (if int index < old_index then restack_up (nat old_index) index children
                                    else restack_down (nat old_index) index children)
                    in Some (RET_OK, st(w_parent w \<mapsto> parent\<lparr>w_children := Some (children[index := widget])\<rparr>))))))))"

section \<open>Walks towards the root\<close>

text \<open>\<open>while (iter) { if (...) return iter; iter = iter->parent; } return NULL;\<close>\<close>

partial_function (option) find_up :: "wtree \<Rightarrow> (ptr \<Rightarrow> widget \<Rightarrow> bool) \<Rightarrow> ptr \<Rightarrow> ptr option" where
  "find_up st P iter =
     (if iter = NULL then Some NULL
      else Option.bind (get_w st iter) (\<lambda>w. if P iter w then Some iter else find_up st P (w_parent w)))"

definition widget_is_parent_of :: "wtree \<Rightarrow> ptr \<Rightarrow> ptr \<Rightarrow> bool option" where
  "widget_is_parent_of st widget child =
     (if widget = NULL \<or> child = NULL then Some False
      else Option.bind (get_w st child) (\<lambda>c.
        Option.bind (find_up st (\<lambda>p w. p = widget) (w_parent c)) (\<lambda>p. Some (p \<noteq> NULL))))"

definition widget_is_direct_parent_of :: "wtree \<Rightarrow> ptr \<Rightarrow> ptr \<Rightarrow> bool option" where
  "widget_is_direct_parent_of st widget child =
     (if widget = NULL \<or> child = NULL then Some False else Option.bind (get_w st child) (\<lambda>c. Some (w_parent c = widget)))"

definition widget_get_window :: "wtree \<Rightarrow> ptr \<Rightarrow> ptr option" where
  "widget_get_window st widget = find_up st (\<lambda>p w. w_is_window w) widget"

definition widget_get_window_or_keyboard :: "wtree \<Rightarrow> ptr \<Rightarrow> ptr option" where
  "widget_get_window_or_keyboard st widget = find_up st (\<lambda>p w. w_is_window w \<or> w_is_keyboard w) widget"

partial_function (option) real_window_loop :: "wtree \<Rightarrow> ptr \<Rightarrow> ptr option" where
  "real_window_loop st win =
     (if win = NULL then Some NULL
      else Option.bind (get_w st win) (\<lambda>w.
        if w_parent w = NULL \<or> w_is_keyboard w then Some win
        else Option.bind (get_w st (w_parent w)) (\<lambda>parent.
          if w_is_window_manager parent then Some win
          else Option.bind (widget_get_window_or_keyboard st (w_parent w)) (real_window_loop st))))"

definition widget_get_real_window_or_keyboard :: "wtree \<Rightarrow> ptr \<Rightarrow> ptr option" where
  "widget_get_real_window_or_keyboard st widget = Option.bind (widget_get_window_or_keyboard st widget) (real_window_loop st)"

text \<open>\<open>wm\<close> is the global \<open>window_manager()\<close>.\<close>

definition widget_get_window_manager :: "wtree \<Rightarrow> ptr \<Rightarrow> ptr \<Rightarrow> ptr option" where
  "widget_get_window_manager st wm widget =
     (if widget = NULL then Some NULL
      else Option.bind (find_up st (\<lambda>p w. w_is_window_manager w) widget) (\<lambda>p. Some (if p = NULL then wm else p)))"

definition widget_find_parent_by_name :: "wtree \<Rightarrow> ptr \<Rightarrow> string \<Rightarrow> ptr option" where
  "widget_find_parent_by_name st widget name =
     (if widget = NULL then Some NULL
      else Option.bind (get_w st widget) (\<lambda>w. find_up st (\<lambda>p i. w_name i = Some name) (w_parent w)))"

definition widget_find_parent_by_type :: "wtree \<Rightarrow> ptr \<Rightarrow> string \<Rightarrow> ptr option" where
  "widget_find_parent_by_type st widget type =
     (if widget = NULL then Some NULL
      else Option.bind (get_w st widget) (\<lambda>w. find_up st (\<lambda>p i. w_type i = type) (w_parent w)))"

definition widget_self_and_ancestors_visible :: "wtree \<Rightarrow> ptr \<Rightarrow> bool option" where
  "widget_self_and_ancestors_visible st widget = Option.bind (find_up st (\<lambda>p w. \<not> w_visible w) widget) (\<lambda>p. Some (p = NULL))"

text \<open>A point and the sums over the widgets up to \<open>stop\<close>, which is NULL for the screen.\<close>

partial_function (option) to_screen_loop :: "wtree \<Rightarrow> ptr \<Rightarrow> ptr \<Rightarrow> int \<times> int \<Rightarrow> (int \<times> int) option" where
  "to_screen_loop st stop iter p =
     (if iter = NULL \<or> iter = stop then Some p
      else Option.bind (get_w st iter) (\<lambda>w.
        to_screen_loop st stop (w_parent w)
          (s32 (s32 (fst p - w_xoffset w) + w_x w), s32 (s32 (snd p - w_yoffset w) + w_y w))))"

definition widget_to_screen_ex :: "wtree \<Rightarrow> ptr \<Rightarrow> ptr \<Rightarrow> int \<times> int \<Rightarrow> (ret_t \<times> (int \<times> int)) option" where
  "widget_to_screen_ex st widget parent p =
     (if widget = NULL then Some (RET_BAD_PARAMS, p) else Option.bind (to_screen_loop st parent widget p) (\<lambda>p. Some (RET_OK, p)))"

definition widget_to_screen :: "wtree \<Rightarrow> ptr \<Rightarrow> int \<times> int \<Rightarrow> (ret_t \<times> (int \<times> int)) option" where
  "widget_to_screen st widget p = widget_to_screen_ex st widget NULL p"

partial_function (option) to_local_loop :: "wtree \<Rightarrow> ptr \<Rightarrow> int \<times> int \<Rightarrow> (int \<times> int) option" where
  "to_local_loop st iter p =
     (if iter = NULL then Some p
      else Option.bind (get_w st iter) (\<lambda>w.
        to_local_loop st (w_parent w)
          (s32 (s32 (fst p + w_xoffset w) - w_x w), s32 (s32 (snd p + w_yoffset w) - w_y w))))"

definition widget_to_local :: "wtree \<Rightarrow> ptr \<Rightarrow> int \<times> int \<Rightarrow> (ret_t \<times> (int \<times> int)) option" where
  "widget_to_local st widget p =
     (if widget = NULL then Some (RET_BAD_PARAMS, p) else Option.bind (to_local_loop st widget p) (\<lambda>p. Some (RET_OK, p)))"

partial_function (option) to_global_loop :: "wtree \<Rightarrow> ptr \<Rightarrow> int \<times> int \<Rightarrow> (int \<times> int) option" where
  "to_global_loop st iter p =
     (if iter = NULL then Some p
      else Option.bind (get_w st iter) (\<lambda>w. to_global_loop st (w_parent w) (s32 (fst p + w_x w), s32 (snd p + w_y w))))"

definition widget_to_global :: "wtree \<Rightarrow> ptr \<Rightarrow> int \<times> int \<Rightarrow> (ret_t \<times> (int \<times> int)) option" where
  "widget_to_global st widget p =
     (if widget = NULL then Some (RET_BAD_PARAMS, p) else Option.bind (to_global_loop st widget p) (\<lambda>p. Some (RET_OK, p)))"

section \<open>Walks towards the leaves\<close>

fun lookup_child :: "wtree \<Rightarrow> (widget \<Rightarrow> bool) \<Rightarrow> ptr list \<Rightarrow> ptr option" where
  "lookup_child st P [] = Some NULL"
| "lookup_child st P (iter # rest) =
     (if iter = NULL then lookup_child st P rest
      else Option.bind (get_w st iter) (\<lambda>w. if P w then Some iter else lookup_child st P rest))"

partial_function (option) lookup_all :: "wtree \<Rightarrow> (widget \<Rightarrow> bool) \<Rightarrow> ptr list \<Rightarrow> ptr option" where
  "lookup_all st P cs =
     (case cs of [] \<Rightarrow> Some NULL
      | iter # rest \<Rightarrow>
          if iter = NULL then lookup_all st P rest
          else Option.bind (get_w st iter) (\<lambda>w.
            if P w then Some iter
            else Option.bind (lookup_all st P (kids w)) (\<lambda>r. if r \<noteq> NULL then Some r else lookup_all st P rest)))"

definition widget_lookup_child :: "wtree \<Rightarrow> ptr \<Rightarrow> string \<Rightarrow> ptr option" where
  "widget_lookup_child st widget name =
     (if widget = NULL then Some NULL
      else Option.bind (get_w st widget) (\<lambda>w. lookup_child st (\<lambda>i. w_name i = Some name) (kids w)))"

definition widget_lookup_all :: "wtree \<Rightarrow> ptr \<Rightarrow> string \<Rightarrow> ptr option" where
  "widget_lookup_all st widget name =
     (if widget = NULL then Some NULL
      else Option.bind (get_w st widget) (\<lambda>w. lookup_all st (\<lambda>i. w_name i = Some name) (kids w)))"

definition widget_lookup :: "wtree \<Rightarrow> ptr \<Rightarrow> string \<Rightarrow> bool \<Rightarrow> ptr option" where
  "widget_lookup st widget name recursive =
     (if recursive then widget_lookup_all st widget name else widget_lookup_child st widget name)"

fun lookup_child_of_type :: "wtree \<Rightarrow> string \<Rightarrow> ptr list \<Rightarrow> ptr option" where
  "lookup_child_of_type st type [] = Some NULL"
| "lookup_child_of_type st type (iter # rest) =
     Option.bind (get_w st iter) (\<lambda>w. if w_type w = type then Some iter else lookup_child_of_type st type rest)"

definition widget_lookup_by_type_child :: "wtree \<Rightarrow> ptr \<Rightarrow> string \<Rightarrow> ptr option" where
  "widget_lookup_by_type_child st widget type =
     (if widget = NULL then Some NULL
      else Option.bind (get_w st widget) (\<lambda>w. lookup_child_of_type st type (kids w)))"

definition widget_lookup_by_type_all :: "wtree \<Rightarrow> ptr \<Rightarrow> string \<Rightarrow> ptr option" where
  "widget_lookup_by_type_all st widget type =
     (if widget = NULL then Some NULL
      else Option.bind (get_w st widget) (\<lambda>w. lookup_all st (\<lambda>i. w_type i = type) (kids w)))"

definition widget_lookup_by_type :: "wtree \<Rightarrow> ptr \<Rightarrow> string \<Rightarrow> bool \<Rightarrow> ptr option" where
  "widget_lookup_by_type st widget type recursive =
     (if recursive then widget_lookup_by_type_all st widget type else widget_lookup_by_type_child st widget type)"

definition tk_str_indexable :: "string \<Rightarrow> bool" where
  "tk_str_indexable str \<longleftrightarrow>
     (str \<noteq> [] \<and> str ! 0 = CHR ''['' \<and> length str \<ge> 3 \<and> str ! (length str - 1) = CHR '']'' \<and>
      (let c = (if length str \<ge> 4 \<and> str ! 1 = CHR ''-'' then str ! 2 else str ! 1) in c \<in> set ''0123456789''))"

text \<open>\<open>atoi\<close> is \<open>tk_atoi\<close>, the number conversion of the C library.\<close>

definition widget_child :: "(string \<Rightarrow> int) \<Rightarrow> wtree \<Rightarrow> ptr \<Rightarrow> string \<Rightarrow> ptr option" where
  "widget_child atoi st widget path =
     (if widget = NULL then Some NULL
      else if tk_str_indexable path then
        (let index = atoi (drop 1 path)
         in Option.bind (if index < 0 then map_option (\<lambda>n. n - index) (widget_count_children st widget) else Some index) (\<lambda>index.
              if index \<ge> 0 then widget_get_child st widget index else Some NULL))
      else widget_lookup_child st widget path)"

section \<open>The target of a pointer\<close>

text \<open>\<open>is_in\<close> is the \<open>is_point_in\<close> of the widget's class, \<open>None\<close> when it has none.\<close>

type_synonym point_test = "ptr \<Rightarrow> int \<Rightarrow> int \<Rightarrow> bool option"

definition widget_is_point_in :: "point_test \<Rightarrow> wtree \<Rightarrow> ptr \<Rightarrow> int \<Rightarrow> int \<Rightarrow> bool \<Rightarrow> bool option" where
  "widget_is_point_in is_in st widget x y is_local =
     (if widget = NULL then Some False
      else Option.bind (get_w st widget) (\<lambda>w.
        Option.bind (if \<not> is_local \<and> w_parent w \<noteq> NULL
                     then map_option (\<lambda>(r, p). (s32 (fst p - w_x w), s32 (snd p - w_y w))) (widget_to_local st (w_parent w) (x, y))
                     else Some (x, y)) (\<lambda>p.
          case is_in widget (fst p) (snd p) of
            None \<Rightarrow> Some (rect_contains (rect_init 0 0 (w_w w) (w_h w)) (fst p) (snd p))
          | Some b \<Rightarrow> Some b)))"

text \<open>The children are visited from the last, which is painted on top.\<close>

fun target_loop :: "point_test \<Rightarrow> wtree \<Rightarrow> int \<times> int \<Rightarrow> ptr list \<Rightarrow> ptr option" where
  "target_loop is_in st p [] = Some NULL"
| "target_loop is_in st p (iter # rest) =
     Option.bind (get_w st iter) (\<lambda>w.
       if \<not> w_sensitive w \<or> \<not> w_enable w then target_loop is_in st p rest
       else Option.bind (widget_is_point_in is_in st iter (s32 (fst p - w_x w)) (s32 (snd p - w_y w)) True) (\<lambda>b.
         if \<not> b then target_loop is_in st p rest else Some iter))"

definition widget_find_target_default :: "point_test \<Rightarrow> wtree \<Rightarrow> ptr \<Rightarrow> int \<Rightarrow> int \<Rightarrow> ptr option" where
  "widget_find_target_default is_in st widget x y =
     (if widget = NULL then Some NULL
      else Option.bind (get_w st widget) (\<lambda>w.
        if w_grab_widget w \<noteq> NULL then Some (w_grab_widget w)
        else Option.bind (widget_to_local st widget (x, y)) (\<lambda>(r, p). target_loop is_in st p (rev (kids w)))))"

text \<open>\<open>vt_find\<close> is the \<open>find_target\<close> of the widget's class.\<close>

definition widget_find_target :: "(ptr \<Rightarrow> int \<Rightarrow> int \<Rightarrow> ptr option) \<Rightarrow> point_test \<Rightarrow> wtree \<Rightarrow> ptr \<Rightarrow> int \<Rightarrow> int \<Rightarrow> ptr option" where
  "widget_find_target vt_find is_in st widget x y =
     (if widget = NULL then Some NULL
      else (case vt_find widget x y of Some r \<Rightarrow> Some r | None \<Rightarrow> widget_find_target_default is_in st widget x y))"

section \<open>Grabbing\<close>

text \<open>
  The walk of \<open>widget_grab\<close> and \<open>widget_ungrab\<close> to the root; the calls for the parents have their
  status ignored.
\<close>

partial_function (option) widget_grab :: "wtree \<Rightarrow> ptr \<Rightarrow> ptr \<Rightarrow> (ret_t \<times> wtree) option" where
  "widget_grab st widget child =
     (if widget = NULL \<or> child = NULL then Some (RET_BAD_PARAMS, st)
      else Option.bind (get_w st widget) (\<lambda>w.
        if \<not> (w_grab_widget w = NULL \<or> w_grab_widget w = child) then Some (RET_BAD_PARAMS, st)
        else
          (let w' = (if w_grab_widget w = NULL then w\<lparr>w_grab_widget := child, w_grab_widget_count := 1\<rparr>
                     else w\<lparr>w_grab_widget_count := s32 (w_grab_widget_count w + 1)\<rparr>);
               st = st(widget \<mapsto> w')
           in if w_parent w \<noteq> NULL then Option.bind (widget_grab st (w_parent w) widget) (\<lambda>(r, st). Some (RET_OK, st))
              else Some (RET_OK, st))))"

text \<open>
  \<open>child\<close> is only used to be compared: for a \<open>widget\<close> without a grab the comparison holds when \<open>child\<close> is
  NULL, and the code then reads through NULL.
\<close>

partial_function (option) widget_ungrab :: "wtree \<Rightarrow> ptr \<Rightarrow> ptr \<Rightarrow> (ret_t \<times> wtree) option" where
  "widget_ungrab st widget child =
     (if widget = NULL then Some (RET_BAD_PARAMS, st)
      else Option.bind (get_w st widget) (\<lambda>w.
        if w_grab_widget w = child then
          Option.bind (get_w st (w_grab_widget w)) (\<lambda>g.
            if w_grab_widget_count g < w_grab_widget_count w then
              (let n = w_grab_widget_count w - 1;
                   w' = (if n \<le> 0 then w\<lparr>w_grab_widget := NULL, w_grab_widget_count := 0\<rparr> else w\<lparr>w_grab_widget_count := n\<rparr>);
                   st = st(widget \<mapsto> w')
               in if w_parent w \<noteq> NULL then Option.bind (widget_ungrab st (w_parent w) widget) (\<lambda>(r, st). Some (RET_OK, st))
                  else Some (RET_OK, st))
            else Some (RET_OK, st))
        else Some (RET_OK, st)))"

section \<open>The forest of widgets\<close>

datatype wt = Node ptr "wt list"

fun root :: "wt \<Rightarrow> ptr" where
  "root (Node p ts) = p"

text \<open>The widgets of a tree in the order of a traversal, a parent before its children.\<close>

fun nodes :: "wt \<Rightarrow> ptr list" where
  "nodes (Node p ts) = p # concat (map nodes ts)"

fun rep :: "wtree \<Rightarrow> ptr \<Rightarrow> wt \<Rightarrow> bool" where
  "rep st parent (Node p ts) \<longleftrightarrow> p \<noteq> NULL \<and> (\<exists>w. st p = Some w \<and> w_parent w = parent \<and> kids w = map root ts) \<and> (\<forall>t \<in> set ts. rep st p t)"

definition forest :: "wtree \<Rightarrow> wt list \<Rightarrow> bool" where
  "forest st ts \<longleftrightarrow> (\<forall>t \<in> set ts. rep st NULL t) \<and> distinct (concat (map nodes ts)) \<and> dom st = set (concat (map nodes ts))"

text \<open>The widgets from \<open>p\<close> to the root above it.\<close>

fun chain :: "wtree \<Rightarrow> ptr \<Rightarrow> ptr list \<Rightarrow> bool" where
  "chain st p [] \<longleftrightarrow> p = NULL"
| "chain st p (q # qs) \<longleftrightarrow> p = q \<and> q \<noteq> NULL \<and> (\<exists>w. st q = Some w \<and> chain st (w_parent w) qs)"

lemma root_in_nodes [simp]: "root t \<in> set (nodes t)"
  by (cases t) simp

lemma rep_nonnull: "rep st parent t \<Longrightarrow> p \<in> set (nodes t) \<Longrightarrow> p \<noteq> NULL \<and> p \<in> dom st"
  by (induction t arbitrary: parent) auto

lemma forest_nonnull: "forest st ts \<Longrightarrow> p \<in> dom st \<Longrightarrow> p \<noteq> NULL"
  using rep_nonnull by (fastforce simp: forest_def)

lemma forest_get: "forest st ts \<Longrightarrow> st p = Some w \<Longrightarrow> get_w st p = Some w"
  using forest_nonnull[of st ts p] by (auto simp: get_w_def)

lemma rep_chain:
  assumes "rep st parent t" and "chain st parent qs" and "p \<in> set (nodes t)"
  shows "\<exists>ps. chain st p ps"
  using assms
proof (induction t arbitrary: parent qs)
  case (Node q ts)
  then obtain w where w: "q \<noteq> NULL" "st q = Some w" "w_parent w = parent" "\<forall>t \<in> set ts. rep st q t" by auto
  have q: "chain st q (q # qs)" using w Node.prems(2) by simp
  show ?case
  proof (cases "p = q")
    case True
    then show ?thesis using q by blast
  next
    case False
    then obtain t where "t \<in> set ts" "p \<in> set (nodes t)" using Node.prems(3) by auto
    then show ?thesis using Node.IH[of t q "q # qs"] q w(4) by blast
  qed
qed

lemma forest_chain:
  assumes "forest st ts" and "p \<in> dom st"
  obtains ps where "chain st p ps" "ps \<noteq> []" "hd ps = p"
proof -
  obtain t where t: "t \<in> set ts" "p \<in> set (nodes t)" using assms by (auto simp: forest_def)
  then obtain ps where ps: "chain st p ps" using rep_chain[of st NULL t "[]" p] assms(1) by (auto simp: forest_def)
  then have "ps \<noteq> [] \<and> hd ps = p" using forest_nonnull[OF assms] by (cases ps) auto
  then show ?thesis using that ps by blast
qed

lemma chain_unique: "chain st p ps \<Longrightarrow> chain st p qs \<Longrightarrow> ps = qs"
proof (induction ps arbitrary: p qs)
  case Nil
  then show ?case by (cases qs) auto
next
  case (Cons a ps)
  then show ?case by (cases qs) auto
qed

lemma chain_suffix: "chain st p (xs @ q # ys) \<Longrightarrow> chain st q (q # ys)"
  by (induction xs arbitrary: p) auto

lemma chain_distinct: "chain st p ps \<Longrightarrow> distinct ps"
proof (induction ps arbitrary: p)
  case (Cons a ps)
  have "a \<notin> set ps"
  proof
    assume "a \<in> set ps"
    then obtain xs ys where "ps = xs @ a # ys" by (meson split_list)
    then have "chain st a (a # ys)" "chain st a (a # ps)" using chain_suffix[of st p "a # xs" a ys] Cons.prems by auto
    then have "a # ys = a # ps" using chain_unique by blast
    then show False using \<open>ps = xs @ a # ys\<close> by simp
  qed
  then show ?case using Cons by auto
qed simp

lemma chain_dom: "chain st p ps \<Longrightarrow> q \<in> set ps \<Longrightarrow> q \<noteq> NULL \<and> q \<in> dom st"
  by (induction ps arbitrary: p) auto

text \<open>Every walk to the root ends.\<close>

lemma find_up_chain:
  "chain st p ps \<Longrightarrow> find_up st P p = Some (case find (\<lambda>q. P q (the (st q))) ps of None \<Rightarrow> NULL | Some q \<Rightarrow> q)"
proof (induction ps arbitrary: p)
  case Nil
  then show ?case by (simp add: find_up.simps)
next
  case (Cons q qs)
  then obtain w where "p = q" "q \<noteq> NULL" "st q = Some w" "chain st (w_parent w) qs" by auto
  then show ?case using Cons.IH[of "w_parent w"] by (subst find_up.simps) (simp add: get_w_def)
qed

definition shift_of :: "widget \<Rightarrow> int \<times> int" where
  "shift_of w = (w_x w - w_xoffset w, w_y w - w_yoffset w)"

definition shift_sum :: "wtree \<Rightarrow> ptr list \<Rightarrow> int \<times> int" where
  "shift_sum st ps = (sum_list (map (\<lambda>q. fst (shift_of (the (st q)))) ps), sum_list (map (\<lambda>q. snd (shift_of (the (st q)))) ps))"

lemma s32_add_left [simp]: "s32 (s32 a + b) = s32 (a + b)"
  and s32_add_right [simp]: "s32 (a + s32 b) = s32 (a + b)"
  and s32_sub_left [simp]: "s32 (s32 a - b) = s32 (a - b)"
  and s32_sub_right [simp]: "s32 (a - s32 b) = s32 (a - b)"
  by (simp_all add: s32_def mod_simps algebra_simps)

lemma to_screen_chain:
  assumes "chain st p ps"
  shows "to_screen_loop st NULL p (s32 a, s32 b) = Some (s32 (a + fst (shift_sum st ps)), s32 (b + snd (shift_sum st ps)))"
  using assms
proof (induction ps arbitrary: p a b)
  case Nil
  then show ?case by (simp add: to_screen_loop.simps shift_sum_def)
next
  case (Cons q qs)
  then obtain w where w: "p = q" "q \<noteq> NULL" "st q = Some w" "chain st (w_parent w) qs" by auto
  then show ?case using Cons.IH[OF w(4), of "a - w_xoffset w + w_x w" "b - w_yoffset w + w_y w"]
    by (subst to_screen_loop.simps) (simp add: get_w_def shift_sum_def shift_of_def algebra_simps)
qed

lemma to_local_chain:
  assumes "chain st p ps"
  shows "to_local_loop st p (s32 a, s32 b) = Some (s32 (a - fst (shift_sum st ps)), s32 (b - snd (shift_sum st ps)))"
  using assms
proof (induction ps arbitrary: p a b)
  case Nil
  then show ?case by (simp add: to_local_loop.simps shift_sum_def)
next
  case (Cons q qs)
  then obtain w where w: "p = q" "q \<noteq> NULL" "st q = Some w" "chain st (w_parent w) qs" by auto
  then show ?case using Cons.IH[OF w(4), of "a + w_xoffset w - w_x w" "b + w_yoffset w - w_y w"]
    by (subst to_local_loop.simps) (simp add: get_w_def shift_sum_def shift_of_def algebra_simps)
qed

lemma forest_subtree:
  assumes "forest st ts" and "p \<in> dom st"
  shows "\<exists>parent us. rep st parent (Node p us)"
proof -
  have "rep st parent t \<Longrightarrow> p \<in> set (nodes t) \<Longrightarrow> \<exists>parent us. rep st parent (Node p us)" for parent t
  proof (induction t arbitrary: parent)
    case (Node q us)
    show ?case
    proof (cases "p = q")
      case True
      then show ?thesis using Node.prems(1) by blast
    next
      case False
      then obtain u where "u \<in> set us" "p \<in> set (nodes u)" using Node.prems(2) by auto
      then show ?thesis using Node.IH Node.prems(1) by auto
    qed
  qed
  then show ?thesis using assms by (auto simp: forest_def)
qed

text \<open>The first of the widgets \<open>ps\<close> that satisfies \<open>P\<close>, or NULL.\<close>

definition first_match :: "wtree \<Rightarrow> (widget \<Rightarrow> bool) \<Rightarrow> ptr list \<Rightarrow> ptr" where
  "first_match st P ps = (case find (\<lambda>q. P (the (st q))) ps of None \<Rightarrow> NULL | Some q \<Rightarrow> q)"

lemma first_match_simps [simp]:
  "first_match st P [] = NULL"
  "first_match st P (p # ps) = (if P (the (st p)) then p else first_match st P ps)"
  by (simp_all add: first_match_def)

lemma first_match_append:
  "NULL \<notin> set ps \<Longrightarrow> first_match st P (ps @ qs) = (if first_match st P ps \<noteq> NULL then first_match st P ps else first_match st P qs)"
  by (induction ps) auto

lemma lookup_child_eq:
  "\<forall>t \<in> set ts. rep st parent t \<Longrightarrow> lookup_child st P (map root ts) = Some (first_match st P (map root ts))"
proof (induction ts)
  case (Cons t ts)
  obtain p us where t: "t = Node p us" by (cases t)
  then show ?case using Cons by (auto simp: get_w_def)
qed simp

lemma lookup_child_of_type_eq:
  "\<forall>t \<in> set ts. rep st parent t \<Longrightarrow> lookup_child_of_type st type (map root ts) = Some (first_match st (\<lambda>w. w_type w = type) (map root ts))"
proof (induction ts)
  case (Cons t ts)
  obtain p us where t: "t = Node p us" by (cases t)
  then show ?case using Cons by (auto simp: get_w_def)
qed simp

lemma lookup_all_eq:
  "\<forall>t \<in> set ts. rep st parent t \<Longrightarrow> lookup_all st P (map root ts) = Some (first_match st P (concat (map nodes ts)))"
proof (induction "sum_list (map size ts)" arbitrary: parent ts rule: less_induct)
  case less
  show ?case
  proof (cases ts)
    case Nil
    then show ?thesis by (simp add: lookup_all.simps)
  next
    case (Cons t rest)
    obtain p us where t: "t = Node p us" by (cases t)
    then obtain w where w: "p \<noteq> NULL" "st p = Some w" "kids w = map root us" "\<forall>u \<in> set us. rep st p u"
      using less.prems Cons by auto
    have size_us: "sum_list (map size us) < size t" using t by (simp add: size_list_conv_sum_list)
    have us: "lookup_all st P (map root us) = Some (first_match st P (concat (map nodes us)))"
      by (rule less.hyps[OF _ w(4)]) (use size_us Cons in simp)
    have rest: "lookup_all st P (map root rest) = Some (first_match st P (concat (map nodes rest)))"
      by (rule less.hyps[of rest parent]) (use Cons t less.prems in auto)
    have "NULL \<notin> set (concat (map nodes us))" using w(4) rep_nonnull by fastforce
    then show ?thesis using Cons t w us rest
      by (subst lookup_all.simps) (simp add: get_w_def first_match_append)
  qed
qed

section \<open>Grabbing, along the chain to the root\<close>

definition grab_one :: "ptr \<Rightarrow> widget \<Rightarrow> widget" where
  "grab_one child w = (if w_grab_widget w = NULL then w\<lparr>w_grab_widget := child, w_grab_widget_count := 1\<rparr>
     else w\<lparr>w_grab_widget_count := s32 (w_grab_widget_count w + 1)\<rparr>)"

fun grab_chain :: "wtree \<Rightarrow> ptr \<Rightarrow> ptr list \<Rightarrow> wtree" where
  "grab_chain st child [] = st"
| "grab_chain st child (p # ps) =
     (case st p of None \<Rightarrow> st
      | Some w \<Rightarrow> if w_grab_widget w = NULL \<or> w_grab_widget w = child then grab_chain (st(p \<mapsto> grab_one child w)) p ps else st)"

lemma chain_upd_grab: "p \<notin> set ps \<Longrightarrow> chain (st(p \<mapsto> w)) q ps \<longleftrightarrow> chain st q ps"
  by (induction ps arbitrary: q) auto

lemma grab_chain_keeps: "x \<notin> set ps \<Longrightarrow> grab_chain st d ps x = st x"
  by (induction st d ps rule: grab_chain.induct) (auto split: option.splits)

lemma grab_chain_other: "c \<notin> set ps \<Longrightarrow> grab_chain (st(c \<mapsto> x)) d ps = (grab_chain st d ps)(c \<mapsto> x)"
proof (induction ps arbitrary: st d)
  case (Cons p ps)
  then have p: "p \<noteq> c" "c \<notin> set ps" by auto
  have twist: "(st(c \<mapsto> x))(p \<mapsto> y) = (st(p \<mapsto> y))(c \<mapsto> x)" for y by (rule fun_upd_twist) (use p(1) in simp)
  have same: "(st(c \<mapsto> x)) p = st p" using p(1) by simp
  show ?case
  proof (cases "st p")
    case None
    then show ?thesis by (simp only: grab_chain.simps same option.case)
  next
    case (Some w)
    show ?thesis
      by (cases "w_grab_widget w = NULL \<or> w_grab_widget w = d")
         (simp_all only: grab_chain.simps same Some option.case twist Cons.IH[OF p(2)] if_True if_False)
  qed
qed simp

lemma grab_one_parent [simp]: "w_parent (grab_one c w) = w_parent w"
  by (simp add: grab_one_def)

lemma widget_grab_chain:
  assumes "chain st p ps" and "ps \<noteq> []" and "child \<noteq> NULL"
  shows "\<exists>r. widget_grab st p child = Some (r, grab_chain st child ps) \<and>
    (r = RET_OK \<longleftrightarrow> w_grab_widget (the (st p)) = NULL \<or> w_grab_widget (the (st p)) = child)"
  using assms
proof (induction ps arbitrary: st p child)
  case (Cons q qs)
  then obtain w where w: "p = q" "q \<noteq> NULL" "st q = Some w" "chain st (w_parent w) qs" by auto
  have "q \<notin> set qs" using chain_distinct[OF Cons.prems(1)] by simp
  then have up: "chain (st(q \<mapsto> grab_one child w)) (w_parent w) qs" using w(4) chain_upd_grab by blast
  have last': "w_parent w = NULL \<longleftrightarrow> qs = []" using w(4) chain_dom by (cases qs) auto
  show ?case
  proof (cases "w_grab_widget w = NULL \<or> w_grab_widget w = child")
    case True
    have fold: "(if w_grab_widget w = NULL then w\<lparr>w_grab_widget := child, w_grab_widget_count := 1\<rparr>
        else w\<lparr>w_grab_widget_count := s32 (w_grab_widget_count w + 1)\<rparr>) = grab_one child w" by (simp add: grab_one_def)
    show ?thesis
    proof (cases "qs = []")
      case True
      then show ?thesis using w Cons.prems(3) last' \<open>w_grab_widget w = NULL \<or> w_grab_widget w = child\<close>
        by (subst widget_grab.simps) (simp add: get_w_def fold Let_def)
    next
      case False
      then obtain r where "widget_grab (st(q \<mapsto> grab_one child w)) (w_parent w) q = Some (r, grab_chain (st(q \<mapsto> grab_one child w)) q qs)"
        using Cons.IH[OF up False w(2)] by blast
      then show ?thesis using w Cons.prems(3) last' False True
        by (subst widget_grab.simps) (simp add: get_w_def fold Let_def)
    qed
  next
    case False
    then show ?thesis using w Cons.prems(3) by (subst widget_grab.simps) (simp add: get_w_def)
  qed
qed simp

text \<open>
  The counts of the grabs on the way up: a widget that grabs nothing counts zero, and it has at least
  as many grabs as the one below that it grabs.
\<close>

fun grabs_ok :: "wtree \<Rightarrow> ptr \<Rightarrow> ptr list \<Rightarrow> bool" where
  "grabs_ok st child [] \<longleftrightarrow> True"
| "grabs_ok st child (p # ps) \<longleftrightarrow>
     (let w = the (st p); c = the (st child)
      in (w_grab_widget w = NULL \<longrightarrow> w_grab_widget_count w = 0 \<and> w_grab_widget_count c \<le> 0) \<and>
         (w_grab_widget w = child \<longrightarrow> 0 < w_grab_widget_count w \<and> w_grab_widget_count w < 2147483647 \<and> w_grab_widget_count c \<le> w_grab_widget_count w) \<and>
         (w_grab_widget w = NULL \<or> w_grab_widget w = child \<longrightarrow> grabs_ok st p ps))"

lemma ungrab_grab_one:
  assumes none: "w_grab_widget w = NULL \<Longrightarrow> w_grab_widget_count w = 0 \<and> w_grab_widget_count c \<le> 0"
    and mine: "w_grab_widget w = child \<Longrightarrow> 0 < w_grab_widget_count w \<and> w_grab_widget_count w < 2147483647 \<and> w_grab_widget_count c \<le> w_grab_widget_count w"
    and either: "w_grab_widget w = NULL \<or> w_grab_widget w = child"
  shows "(let n = w_grab_widget_count (grab_one child w) - 1
        in if n \<le> 0 then (grab_one child w)\<lparr>w_grab_widget := NULL, w_grab_widget_count := 0\<rparr> else (grab_one child w)\<lparr>w_grab_widget_count := n\<rparr>) = w"
    and "w_grab_widget (grab_one child w) = child"
    and "w_grab_widget_count c < w_grab_widget_count (grab_one child w)"
proof -
  have count: "w_grab_widget w \<noteq> NULL \<Longrightarrow> s32 (w_grab_widget_count w + 1) = w_grab_widget_count w + 1"
    using mine either by (simp add: s32_def)
  show "(let n = w_grab_widget_count (grab_one child w) - 1
        in if n \<le> 0 then (grab_one child w)\<lparr>w_grab_widget := NULL, w_grab_widget_count := 0\<rparr> else (grab_one child w)\<lparr>w_grab_widget_count := n\<rparr>) = w"
  proof (cases "w_grab_widget w = NULL")
    case True
    then show ?thesis using none by (cases w) (simp add: grab_one_def)
  next
    case False
    then show ?thesis using mine either count by (cases w) (simp add: grab_one_def)
  qed
  show "w_grab_widget (grab_one child w) = child" using either by (auto simp: grab_one_def)
  show "w_grab_widget_count c < w_grab_widget_count (grab_one child w)"
    using none mine either count by (cases "w_grab_widget w = NULL") (simp_all add: grab_one_def)
qed

lemma widget_ungrab_chain:
  assumes "chain st p ps" and "ps \<noteq> []" and "child \<in> dom st" "child \<noteq> NULL" "child \<notin> set ps" and "grabs_ok st child ps"
  shows "widget_ungrab (grab_chain st child ps) p child = Some (RET_OK, st)"
  using assms
proof (induction ps arbitrary: st p child)
  case (Cons q qs)
  then obtain w where w: "p = q" "q \<noteq> NULL" "st q = Some w" "chain st (w_parent w) qs" by auto
  obtain c where c: "st child = Some c" using Cons.prems(3) by auto
  have q: "q \<notin> set qs" "child \<noteq> q" "child \<notin> set qs" using chain_distinct[OF Cons.prems(1)] Cons.prems(5) by auto
  have last': "w_parent w = NULL \<longleftrightarrow> qs = []" using w(4) chain_dom by (cases qs) auto
  show ?case
  proof (cases "w_grab_widget w = NULL \<or> w_grab_widget w = child")
    case True
    have eff: "grab_chain st child (q # qs) = (grab_chain st q qs)(q \<mapsto> grab_one child w)"
      using True w(3) grab_chain_other[OF q(1)] by simp
    let ?g = "grab_chain st q qs"
    have undo: "?g(q \<mapsto> w) = ?g" using grab_chain_keeps[OF q(1), of st q] w(3) by auto
    have gets: "get_w (?g(q \<mapsto> grab_one child w)) q = Some (grab_one child w)" "get_w (?g(q \<mapsto> grab_one child w)) child = Some c"
      using grab_chain_keeps[OF q(3), of st q] c w(2) q(2) Cons.prems(4) by (simp_all add: get_w_def)
    have restore: "(let n = w_grab_widget_count (grab_one child w) - 1
        in if n \<le> 0 then (grab_one child w)\<lparr>w_grab_widget := NULL, w_grab_widget_count := 0\<rparr> else (grab_one child w)\<lparr>w_grab_widget_count := n\<rparr>) = w"
      "w_grab_widget (grab_one child w) = child" "w_grab_widget_count c < w_grab_widget_count (grab_one child w)"
      by (rule ungrab_grab_one[of w c child]; use Cons.prems(4,6) w(3) c True in \<open>simp add: Let_def\<close>)+
    have rest: "widget_ungrab ?g (w_parent w) q = Some (RET_OK, st)" if "qs \<noteq> []"
      by (rule Cons.IH[OF w(4) that]) (use w q Cons.prems(6) True in \<open>auto simp: Let_def\<close>)
    have step: "widget_ungrab (?g(q \<mapsto> grab_one child w)) q child =
        (if w_parent w \<noteq> NULL then Option.bind (widget_ungrab (?g(q \<mapsto> w)) (w_parent w) q) (\<lambda>(r, st). Some (RET_OK, st))
         else Some (RET_OK, ?g(q \<mapsto> w)))"
      using w(2) gets restore by (subst widget_ungrab.simps) (simp add: Let_def)
    show ?thesis unfolding eff w(1) step undo using rest last' by (cases "qs = []") simp_all
  next
    case False
    then show ?thesis using w Cons.prems(4) by (subst widget_ungrab.simps) (auto simp: get_w_def)
  qed
qed simp

section \<open>Properties\<close>

text \<open>A window with a box that holds a label and a button, and a second button in front.\<close>

definition demo_widget :: "ptr \<Rightarrow> string \<Rightarrow> string \<Rightarrow> int \<times> int \<times> int \<times> int \<Rightarrow> ptr list \<Rightarrow> widget" where
  "demo_widget parent type name g cs = (case g of (x, y, w, h) \<Rightarrow>
     \<lparr>w_x = x, w_y = y, w_w = w, w_h = h, w_name = Some name, w_enable = True, w_visible = True, w_sensitive = True,
      w_focusable = True, w_focused = False, w_dirty = False, w_initializing = False, w_need_update_style = False,
      w_need_relayout = False, w_parent = parent, w_target = NULL, w_grab_widget = NULL, w_grab_widget_count = 0,
      w_key_target = NULL, w_children = Some cs, w_type = type, w_is_window = (parent = NULL), w_is_window_manager = False,
      w_is_keyboard = False, w_vt_focusable = False, w_vt_invalidate = (parent = NULL), w_scrollable = False, w_styled = True,
      w_dirty_rect_tolerance = 4, w_xoffset = 0, w_yoffset = 0\<rparr>)"

definition demo_tree :: wtree where
  "demo_tree = [1 \<mapsto> demo_widget NULL ''window'' ''win'' (10, 20, 200, 100) [2, 5],
     2 \<mapsto> demo_widget 1 ''view'' ''box'' (5, 5, 100, 50) [3, 4],
     3 \<mapsto> demo_widget 2 ''label'' ''title'' (0, 0, 50, 20) [],
     4 \<mapsto> demo_widget 2 ''button'' ''ok'' (0, 20, 50, 20) [],
     5 \<mapsto> demo_widget 1 ''button'' ''ok'' (50, 10, 80, 30) []]"

abbreviation "demo_forest \<equiv> [Node 1 [Node 2 [Node 3 [], Node 4 []], Node 5 []]]"

lemma demo_forest: "forest demo_tree demo_forest"
  by (auto simp: forest_def demo_tree_def demo_widget_def kids_def split: if_splits)

text \<open>
  C32. In a forest of widgets every lookup ends. A recursive lookup by name or type finds the first match in
  the order of a traversal of the widgets below, a lookup that is not recursive the first match among
  the children; the result is NULL when there is none.
\<close>

theorem widget_lookup_preorder:
  assumes "forest st ts" and "p \<in> dom st"
  shows "\<exists>us parent. rep st parent (Node p us) \<and>
    widget_lookup st p name True = Some (first_match st (\<lambda>w. w_name w = Some name) (concat (map nodes us))) \<and>
    widget_lookup st p name False = Some (first_match st (\<lambda>w. w_name w = Some name) (map root us)) \<and>
    widget_lookup_by_type st p type True = Some (first_match st (\<lambda>w. w_type w = type) (concat (map nodes us))) \<and>
    widget_lookup_by_type st p type False = Some (first_match st (\<lambda>w. w_type w = type) (map root us))"
proof -
  obtain parent us where us: "rep st parent (Node p us)" using forest_subtree[OF assms] by blast
  then have "\<forall>u \<in> set us. rep st p u" by simp
  note this [THEN lookup_all_eq] this [THEN lookup_child_eq] this [THEN lookup_child_of_type_eq]
  then show ?thesis using us
    by (intro exI[of _ us] exI[of _ parent])
       (auto simp: widget_lookup_def widget_lookup_by_type_def widget_lookup_all_def widget_lookup_child_def
         widget_lookup_by_type_all_def widget_lookup_by_type_child_def get_w_def)
qed

theorem widget_lookup_preorder_witness:
  "\<exists>us parent. rep demo_tree parent (Node 1 us) \<and>
    widget_lookup demo_tree 1 ''ok'' True = Some (first_match demo_tree (\<lambda>w. w_name w = Some ''ok'') (concat (map nodes us)))"
  using widget_lookup_preorder[OF demo_forest, of 1 "''ok''" "''label''"] by (auto simp: demo_tree_def)

text \<open>
  Positions survive the way to the screen and back: what \<open>widget_to_screen\<close> makes of a point in a widget,
  scrolled by whatever offsets, \<open>widget_to_local\<close> translates to the same point.
\<close>

theorem widget_screen_roundtrip:
  assumes "forest st ts" and "p \<in> dom st" and "s32 x = x" and "s32 y = y"
  shows "\<exists>q. widget_to_screen st p (x, y) = Some (RET_OK, q) \<and> widget_to_local st p q = Some (RET_OK, (x, y))"
proof -
  obtain ps where ps: "chain st p ps" using forest_chain[OF assms(1,2)] by blast
  let ?d = "shift_sum st ps"
  have "to_screen_loop st NULL p (x, y) = Some (s32 (x + fst ?d), s32 (y + snd ?d))" using to_screen_chain[OF ps, of x y] assms(3,4) by simp
  moreover have "to_local_loop st p (s32 (x + fst ?d), s32 (y + snd ?d)) = Some (x, y)"
    using to_local_chain[OF ps, of "x + fst ?d" "y + snd ?d"] assms(3,4) by simp
  ultimately show ?thesis using forest_nonnull[OF assms(1,2)]
    by (simp add: widget_to_screen_def widget_to_screen_ex_def widget_to_local_def)
qed

theorem widget_screen_roundtrip_witness:
  "\<exists>q. widget_to_screen demo_tree 4 (3, - 7) = Some (RET_OK, q) \<and> widget_to_local demo_tree 4 q = Some (RET_OK, (3, - 7))"
  using widget_screen_roundtrip[OF demo_forest, of 4 3 "- 7"] by (simp add: demo_tree_def s32_def)

text \<open>Whether a child takes an event at a point of its parent.\<close>

definition takes_point :: "point_test \<Rightarrow> wtree \<Rightarrow> int \<times> int \<Rightarrow> ptr \<Rightarrow> bool" where
  "takes_point is_in st p c =
     (let w = the (st c); x = s32 (fst p - w_x w); y = s32 (snd p - w_y w)
      in w_sensitive w \<and> w_enable w \<and>
         (case is_in c x y of None \<Rightarrow> rect_contains (rect_init 0 0 (w_w w) (w_h w)) x y | Some b \<Rightarrow> b))"

lemma target_loop_eq:
  "\<forall>c \<in> set cs. c \<noteq> NULL \<and> c \<in> dom st \<Longrightarrow>
    target_loop is_in st p cs = Some (case find (takes_point is_in st p) cs of None \<Rightarrow> NULL | Some c \<Rightarrow> c)"
proof (induction cs)
  case (Cons c cs)
  then obtain w where w: "c \<noteq> NULL" "st c = Some w" by auto
  then show ?case using Cons
    by (cases "is_in c (s32 (fst p - w_x w)) (s32 (snd p - w_y w))")
       (auto simp: get_w_def widget_is_point_in_def takes_point_def Let_def)
qed simp

text \<open>
  C33. The target of a pointer is the widget that has the grab; without a grab it is the topmost child, the
  last in the order of the children, that is sensitive and enabled and contains the point, or NULL when
  there is none.
\<close>

theorem widget_target_topmost:
  assumes "forest st ts" and "st p = Some w"
  shows "\<exists>q. widget_to_local st p (x, y) = Some (RET_OK, q) \<and>
    widget_find_target_default is_in st p x y =
      Some (if w_grab_widget w \<noteq> NULL then w_grab_widget w
            else case find (takes_point is_in st q) (rev (kids w)) of None \<Rightarrow> NULL | Some c \<Rightarrow> c)"
proof -
  have p: "p \<in> dom st" "p \<noteq> NULL" using assms forest_nonnull[OF assms(1)] by auto
  obtain ps where ps: "chain st p ps" using forest_chain[OF assms(1) p(1)] by blast
  have loc: "\<exists>q. to_local_loop st p (a, b) = Some q" for a b
    using ps
  proof (induction ps arbitrary: p a b)
    case Nil
    then show ?case by (simp add: to_local_loop.simps)
  next
    case (Cons q qs)
    then show ?case by (subst to_local_loop.simps) (auto simp: get_w_def)
  qed
  obtain q where "to_local_loop st p (x, y) = Some q" using loc by blast
  then have q: "widget_to_local st p (x, y) = Some (RET_OK, q)" using p(2) by (simp add: widget_to_local_def)
  obtain parent us where us: "rep st parent (Node p us)" using forest_subtree[OF assms(1) p(1)] by blast
  have "c \<noteq> NULL \<and> c \<in> dom st" if c: "c \<in> set (rev (kids w))" for c
  proof -
    obtain u where "u \<in> set us" "c = root u" "rep st p u" using us c assms(2) by auto
    then show ?thesis using rep_nonnull root_in_nodes by blast
  qed
  then show ?thesis using q p assms(2) target_loop_eq[of "rev (kids w)" st is_in q]
    by (auto simp: widget_find_target_default_def get_w_def)
qed

theorem widget_target_topmost_witness:
  "widget_find_target_default (\<lambda>_ _ _. None) demo_tree 1 70 40 = Some 5"
proof -
  have w: "demo_tree 1 = Some (demo_widget NULL ''window'' ''win'' (10, 20, 200, 100) [2, 5])" by (simp add: demo_tree_def)
  have loc: "widget_to_local demo_tree 1 (70, 40) = Some (RET_OK, (60, 20))"
    by (simp add: widget_to_local_def to_local_loop.simps get_w_def demo_tree_def demo_widget_def s32_def)
  have five: "takes_point (\<lambda>_ _ _. None) demo_tree (60, 20) 5"
    by (simp add: takes_point_def demo_tree_def demo_widget_def rect_contains_def rect_init_def s32_def)
  show ?thesis using widget_target_topmost[OF demo_forest w, of 70 40 "\<lambda>_ _ _. None"]
    unfolding loc using five by (simp add: demo_widget_def kids_def)
qed

text \<open>
  A grab that is released leaves no trace: when the counts on the way to the root are consistent, a
  \<open>widget_grab\<close> and the \<open>widget_ungrab\<close> for the same child, as far up as the grab went, restore every
  widget, also when it was refused on the way because another child is grabbed there.
\<close>

theorem widget_grab_released:
  assumes "forest st ts" and "p \<in> dom st" and "chain st p ps" and "child \<in> dom st" and "child \<notin> set ps" and "grabs_ok st child ps"
  shows "\<exists>r st'. widget_grab st p child = Some (r, st') \<and>
    (r = RET_OK \<longleftrightarrow> w_grab_widget (the (st p)) = NULL \<or> w_grab_widget (the (st p)) = child) \<and>
    widget_ungrab st' p child = Some (RET_OK, st)"
proof -
  have "ps \<noteq> []" using assms(2,3) forest_nonnull[OF assms(1,2)] by (cases ps) auto
  then show ?thesis
    using widget_grab_chain[OF assms(3), of child] widget_ungrab_chain[OF assms(3) _ assms(4) _ assms(5,6)] forest_nonnull[OF assms(1,4)]
    by blast
qed

theorem widget_grab_released_witness:
  "\<exists>r st'. widget_grab demo_tree 2 4 = Some (r, st') \<and> r = RET_OK \<and> widget_ungrab st' 2 4 = Some (RET_OK, demo_tree)"
proof -
  have "chain demo_tree 2 [2, 1]" "grabs_ok demo_tree 4 [2, 1]" by (simp_all add: demo_tree_def demo_widget_def)
  from widget_grab_released[OF demo_forest _ this(1) _ _ this(2)] show ?thesis by (simp add: demo_tree_def demo_widget_def)
qed

end
