(* ===== verification/WidgetOps.thy ===== *)
theory WidgetOps
  imports WidgetTree
begin

text \<open>
  The operations of \<open>src/src/base/widget.c\<close> (and \<open>widget_invalidate_default\<close> of \<open>widget_vtable.c\<close>) that
  change the tree of widgets and their focus: adding, inserting and removing children, the focus that
  moves along \<open>key_target\<close>, and the requests to paint.

  What runs outside of these operations is one function \<open>app\<close> of the call and the tree: the vtable of a
  widget class, the handlers of a dispatched event, style objects. Memory is granted.

  Shown, for an \<open>app\<close> that leaves the tree and its links alone: requests to paint, to lay out and to
  update the style return and leave the links alone (\<open>keeps\<close>), and a change of focus returns, leaves
  the tree alone and the key targets among the children (\<open>does\<close>).
\<close>

section \<open>Calls to the outside\<close>

datatype ui_event = EVT_WIDGET_ADD_CHILD | EVT_WIDGET_REMOVE_CHILD | EVT_FOCUS | EVT_BLUR

datatype ui_call =
    On_attach_parent ptr ptr
  | On_detach_parent ptr ptr
  | On_add_child ptr ptr
  | On_remove_child ptr ptr
  | Dispatch ptr ui_event
  | Vt_invalidate ptr rect
  | Update_style_object_recursive ptr
  | Ensure_visible_in_viewport ptr

type_synonym app = "ui_call \<Rightarrow> wtree \<Rightarrow> ret_t \<times> wtree"

text \<open>A call whose status is ignored.\<close>

definition call :: "app \<Rightarrow> ui_call \<Rightarrow> wtree \<Rightarrow> wtree" where
  "call app c st = snd (app c st)"

text \<open>The stage that the window reports.\<close>

datatype window_stage = WINDOW_STAGE_NONE | WINDOW_STAGE_LOADED | WINDOW_STAGE_CREATED | WINDOW_STAGE_OPENED | WINDOW_STAGE_CLOSED | WINDOW_STAGE_SUSPEND

type_synonym stages = "ptr \<Rightarrow> window_stage"

section \<open>Requests to paint and to lay out\<close>

partial_function (option) parent_not_dirty_loop :: "wtree \<Rightarrow> ptr \<Rightarrow> wtree option" where
  "parent_not_dirty_loop st iter =
     (if iter = NULL then Some st
      else Option.bind (get_w st iter) (\<lambda>w.
        let st = st(iter \<mapsto> w\<lparr>w_dirty := False\<rparr>)
        in if w_is_window w then Some st else parent_not_dirty_loop st (w_parent w)))"

definition widget_set_parent_not_dirty :: "wtree \<Rightarrow> ptr \<Rightarrow> wtree option" where
  "widget_set_parent_not_dirty st widget = Option.bind (get_w st widget) (\<lambda>w. parent_not_dirty_loop st (w_parent w))"

text \<open>The rectangle of a widget in the coordinates of its parent, as \<open>widget_invalidate_default\<close> computes it; \<open>None\<close> when it is empty.\<close>

definition invalidate_rect :: "widget \<Rightarrow> rect \<Rightarrow> rect option" where
  "invalidate_rect w r =
     (let r = (if w_scrollable w then
                 (let r = (if \<not> w_dirty w then
                             r\<lparr>rx := (if w_xoffset w > 0 then s32 (rx r - w_xoffset w) else rx r),
                               ry := (if w_yoffset w > 0 then s32 (ry r - w_yoffset w) else ry r)\<rparr>
                           else r)
                  in rect_intersect r (rect_init 0 0 (w_w w) (w_h w)))
               else r)
      in if rw r \<le> 0 \<or> rh r \<le> 0 then None
         else
           (let r = r\<lparr>rx := s32 (rx r + w_x w), ry := s32 (ry r + w_y w)\<rparr>;
                t = w_dirty_rect_tolerance w;
                r = (if w_styled w \<and> t > 0 then rect_init (s32 (rx r - t)) (s32 (ry r - t)) (s32 (rw r + (2 * t + 1))) (s32 (rh r + (2 * t + 1))) else r);
                r = (if rx r < 0 then r\<lparr>rw := s32 (rw r + rx r)\<rparr> else r);
                r = (if ry r < 0 then r\<lparr>rh := s32 (rh r + ry r)\<rparr> else r)
            in Some (rect_init (max 0 (rx r)) (max 0 (ry r)) (max 0 (rw r)) (max 0 (rh r)))))"

partial_function (option) widget_invalidate_default :: "app \<Rightarrow> wtree \<Rightarrow> ptr \<Rightarrow> rect \<Rightarrow> (ret_t \<times> wtree) option" where
  "widget_invalidate_default app st widget r =
     Option.bind (get_w st widget) (\<lambda>w.
       case invalidate_rect w r of None \<Rightarrow> Some (RET_OK, st)
       | Some r \<Rightarrow>
           if w_parent w = NULL then Some (RET_OK, st)
           else Option.bind (get_w st (w_parent w)) (\<lambda>parent.
             if w_vt_invalidate parent then Some (RET_OK, call app (Vt_invalidate (w_parent w) r) st)
             else Option.bind (widget_invalidate_default app st (w_parent w) r) (\<lambda>(ret, st). Some (RET_OK, st))))"

definition widget_invalidate :: "app \<Rightarrow> wtree \<Rightarrow> ptr \<Rightarrow> rect option \<Rightarrow> (ret_t \<times> wtree) option" where
  "widget_invalidate app st widget r =
     (if widget = NULL then Some (RET_BAD_PARAMS, st)
      else Option.bind (get_w st widget) (\<lambda>w.
        if w_dirty w then Some (RET_OK, st)
        else Option.bind (widget_self_and_ancestors_visible st widget) (\<lambda>visible.
          if \<not> visible then Some (RET_OK, st)
          else
            (let r = (case r of None \<Rightarrow> rect_init 0 0 (w_w w) (w_h w) | Some r \<Rightarrow> r);
                 st = st(widget \<mapsto> w\<lparr>w_dirty := True\<rparr>)
             in Option.bind (widget_set_parent_not_dirty st widget) (\<lambda>st.
                  if w_vt_invalidate w then
                    (case app (Vt_invalidate widget r) st of (ret, st) \<Rightarrow>
                       if ret = RET_NOT_IMPL then widget_invalidate_default app st widget r else Some (ret, st))
                  else widget_invalidate_default app st widget r)))))"

definition widget_invalidate_force :: "app \<Rightarrow> wtree \<Rightarrow> ptr \<Rightarrow> rect option \<Rightarrow> (ret_t \<times> wtree) option" where
  "widget_invalidate_force app st widget r =
     (if widget = NULL then Some (RET_BAD_PARAMS, st)
      else Option.bind (upd_w widget (\<lambda>w. w\<lparr>w_dirty := False\<rparr>) st) (\<lambda>st. widget_invalidate app st widget r))"

text \<open>A statement whose status is ignored.\<close>

definition ignore_ret :: "(ret_t \<times> wtree) option \<Rightarrow> wtree option" where
  "ignore_ret m = map_option snd m"

definition widget_set_need_update_style :: "app \<Rightarrow> wtree \<Rightarrow> ptr \<Rightarrow> (ret_t \<times> wtree) option" where
  "widget_set_need_update_style app st widget =
     (if widget = NULL then Some (RET_BAD_PARAMS, st)
      else Option.bind (get_w st widget) (\<lambda>w.
        Option.bind (if \<not> w_need_update_style w then ignore_ret (widget_invalidate_force app st widget None) else Some st) (\<lambda>st.
          Option.bind (upd_w widget (\<lambda>w. w\<lparr>w_need_update_style := True\<rparr>) st) (\<lambda>st. Some (RET_OK, st)))))"

partial_function (option) update_style_all :: "app \<Rightarrow> wtree \<Rightarrow> ptr list \<Rightarrow> wtree option" where
  "update_style_all app st cs =
     (case cs of [] \<Rightarrow> Some st
      | widget # rest \<Rightarrow>
          Option.bind (widget_set_need_update_style app st widget) (\<lambda>(r, st).
            Option.bind (get_w st widget) (\<lambda>w.
              Option.bind (update_style_all app st (kids w)) (\<lambda>st. update_style_all app st rest))))"

definition widget_set_need_update_style_recursive :: "app \<Rightarrow> wtree \<Rightarrow> ptr \<Rightarrow> (ret_t \<times> wtree) option" where
  "widget_set_need_update_style_recursive app st widget =
     (if widget = NULL then Some (RET_BAD_PARAMS, st) else Option.bind (update_style_all app st [widget]) (\<lambda>st. Some (RET_OK, st)))"

partial_function (option) top_window_loop :: "wtree \<Rightarrow> ptr \<Rightarrow> ptr option" where
  "top_window_loop st win =
     (if win = NULL then Some NULL
      else Option.bind (get_w st win) (\<lambda>w.
        if w_parent w = NULL then Some win
        else Option.bind (get_w st (w_parent w)) (\<lambda>parent.
          if w_is_window_manager parent then Some win
          else Option.bind (widget_get_window st (w_parent w)) (top_window_loop st))))"

definition widget_set_need_relayout :: "wtree \<Rightarrow> ptr \<Rightarrow> (ret_t \<times> wtree) option" where
  "widget_set_need_relayout st widget =
     Option.bind (widget_get_window st widget) (\<lambda>win. Option.bind (top_window_loop st win) (\<lambda>win.
       if win \<noteq> NULL then Option.bind (upd_w win (\<lambda>w. w\<lparr>w_need_relayout := True\<rparr>) st) (\<lambda>st. Some (RET_OK, st))
       else Some (RET_OK, st)))"

definition widget_set_need_relayout_children :: "wtree \<Rightarrow> ptr \<Rightarrow> (ret_t \<times> wtree) option" where
  "widget_set_need_relayout_children st widget =
     Option.bind (widget_count_children st widget) (\<lambda>n. if n > 0 then widget_set_need_relayout st widget else Some (RET_OK, st))"

section \<open>Focus\<close>

definition widget_is_window_opened :: "stages \<Rightarrow> wtree \<Rightarrow> ptr \<Rightarrow> bool option" where
  "widget_is_window_opened stages st widget =
     Option.bind (widget_get_window st widget) (\<lambda>win.
       Some (win \<noteq> NULL \<and> stages win \<in> {WINDOW_STAGE_OPENED, WINDOW_STAGE_SUSPEND}))"

definition blur_one :: "app \<Rightarrow> wtree \<Rightarrow> ptr \<Rightarrow> wtree option" where
  "blur_one app st target =
     Option.bind (get_w st target) (\<lambda>w.
       Option.bind (if w_focused w
                    then ignore_ret (widget_set_need_update_style app (call app (Dispatch target EVT_BLUR) (st(target \<mapsto> w\<lparr>w_focused := False\<rparr>))) target)
                    else Some st) (\<lambda>st.
         Option.bind (get_w st target) (\<lambda>w.
           if w_parent w = NULL then Some st
           else Option.bind (get_w st (w_parent w)) (\<lambda>parent.
             Some (if w_key_target parent = target then st(w_parent w \<mapsto> parent\<lparr>w_key_target := NULL\<rparr>) else st)))))"

partial_function (option) widget_dispatch_blur_event :: "app \<Rightarrow> wtree \<Rightarrow> ptr \<Rightarrow> wtree option" where
  "widget_dispatch_blur_event app st target =
     (if target = NULL then Some st
      else Option.bind (blur_one app st target) (\<lambda>st.
        Option.bind (get_w st target) (\<lambda>w. widget_dispatch_blur_event app st (w_key_target w))))"

text \<open>
  \<open>widget_set_focused_internal\<close>, with the step of a widget that gains the focus, the call of
  \<open>widget_set_as_key_target\<close>, as an argument: that function in turn takes the focus from others.
\<close>

definition set_focused_with :: "(wtree \<Rightarrow> wtree option) \<Rightarrow> app \<Rightarrow> stages \<Rightarrow> wtree \<Rightarrow> ptr \<Rightarrow> bool \<Rightarrow> (ret_t \<times> wtree) option" where
  "set_focused_with as_key_target app stages st widget focused =
     Option.bind (widget_get_window st widget) (\<lambda>win.
       if win = NULL then Some (RET_FAIL, st)
       else if stages win = WINDOW_STAGE_SUSPEND then Some (RET_FAIL, st)
       else Option.bind (get_w st widget) (\<lambda>w.
         if w_focused w \<noteq> focused then
           Option.bind (ignore_ret (widget_set_need_update_style app (st(widget \<mapsto> w\<lparr>w_focused := focused\<rparr>)) widget)) (\<lambda>st.
             Option.bind (if focused then map_option (call app (Dispatch widget EVT_FOCUS)) (as_key_target st)
                          else widget_dispatch_blur_event app (call app (Dispatch widget EVT_BLUR) st) widget) (\<lambda>st.
               Option.bind (ignore_ret (widget_invalidate app st widget None)) (\<lambda>st. Some (RET_OK, st))))
         else Some (RET_OK, st)))"

definition take_focus :: "app \<Rightarrow> stages \<Rightarrow> wtree \<Rightarrow> ptr \<Rightarrow> wtree option" where
  "take_focus app stages st widget = ignore_ret (set_focused_with Some app stages st widget False)"

text \<open>The steps of \<open>widget_set_as_key_target\<close> for the parent of \<open>widget\<close>, up to the call for the parent itself.\<close>

definition key_target_one :: "app \<Rightarrow> stages \<Rightarrow> wtree \<Rightarrow> ptr \<Rightarrow> ptr \<Rightarrow> wtree option" where
  "key_target_one app stages st widget parent =
     Option.bind (get_w st parent) (\<lambda>p.
       Option.bind (if \<not> w_focused p
                    then ignore_ret (widget_set_need_update_style app (call app (Dispatch parent EVT_FOCUS) (st(parent \<mapsto> p\<lparr>w_focused := True\<rparr>))) parent)
                    else Some st) (\<lambda>st.
         Option.bind (get_w st parent) (\<lambda>p.
           Option.bind (if w_key_target p \<noteq> NULL \<and> w_key_target p \<noteq> widget
                        then Option.bind (get_w st widget) (\<lambda>w. Option.bind (get_w st (w_parent w)) (\<lambda>p. take_focus app stages st (w_key_target p)))
                        else Some st) (\<lambda>st.
             upd_w parent (\<lambda>p. if w_key_target p \<noteq> widget then p\<lparr>w_key_target := widget\<rparr> else p) st))))"

partial_function (option) widget_set_as_key_target :: "app \<Rightarrow> stages \<Rightarrow> wtree \<Rightarrow> ptr \<Rightarrow> wtree option" where
  "widget_set_as_key_target app stages st widget =
     (if widget = NULL then Some st
      else Option.bind (get_w st widget) (\<lambda>w.
        if w_is_keyboard w \<or> w_parent w = NULL then Some st
        else Option.bind (key_target_one app stages st widget (w_parent w)) (\<lambda>st'.
          Option.bind (widget_set_as_key_target app stages st' (w_parent w)) (\<lambda>st.
            Option.bind (get_w st widget) (\<lambda>w.
              if \<not> w_focused w then ignore_ret (widget_set_need_update_style app st widget) else Some st)))))"

definition widget_set_focused_internal :: "app \<Rightarrow> stages \<Rightarrow> wtree \<Rightarrow> ptr \<Rightarrow> bool \<Rightarrow> (ret_t \<times> wtree) option" where
  "widget_set_focused_internal app stages st widget focused =
     set_focused_with (\<lambda>st. widget_set_as_key_target app stages st widget) app stages st widget focused"

definition widget_set_focused :: "app \<Rightarrow> stages \<Rightarrow> wtree \<Rightarrow> ptr \<Rightarrow> bool \<Rightarrow> (ret_t \<times> wtree) option" where
  "widget_set_focused app stages st widget focused =
     (if widget = NULL then Some (RET_BAD_PARAMS, st)
      else Option.bind (widget_set_focused_internal app stages st widget focused) (\<lambda>(r, st).
        Some (RET_OK, if focused then call app (Ensure_visible_in_viewport widget) st else st)))"

section \<open>Adding and removing children\<close>

definition widget_add_child_default :: "app \<Rightarrow> wtree \<Rightarrow> ptr \<Rightarrow> ptr \<Rightarrow> (ret_t \<times> wtree) option" where
  "widget_add_child_default app st widget child =
     (if widget = NULL \<or> child = NULL then Some (RET_BAD_PARAMS, st)
      else Option.bind (get_w st child) (\<lambda>c.
        if w_parent c \<noteq> NULL then Some (RET_BAD_PARAMS, st)
        else
          (let st = call app (On_attach_parent child widget) (st(child \<mapsto> c\<lparr>w_parent := widget\<rparr>))
           in Option.bind (upd_w widget (\<lambda>w. w\<lparr>w_children := Some (kids w @ [child])\<rparr>) st) (\<lambda>st.
                Option.bind (get_w st widget) (\<lambda>w.
                  Option.bind (if \<not> w_is_window_manager w then ignore_ret (widget_set_need_relayout_children st widget) else Some st) (\<lambda>st.
                    Option.bind (get_w st child) (\<lambda>c.
                      Option.bind (if w_initializing c then Some NULL else widget_get_window st child) (\<lambda>win.
                        Option.bind (if win \<noteq> NULL
                                     then map_option (call app (Update_style_object_recursive child)) (ignore_ret (widget_set_need_update_style_recursive app st child))
                                     else Some st) (\<lambda>st.
                          Some (RET_OK, call app (Dispatch widget EVT_WIDGET_ADD_CHILD) st))))))))))"

definition widget_add_child :: "app \<Rightarrow> wtree \<Rightarrow> ptr \<Rightarrow> ptr \<Rightarrow> (ret_t \<times> wtree) option" where
  "widget_add_child app st widget child =
     (if widget = NULL \<or> child = NULL then Some (RET_BAD_PARAMS, st)
      else Option.bind (get_w st child) (\<lambda>c.
        if w_parent c \<noteq> NULL then Some (RET_BAD_PARAMS, st)
        else Option.bind (upd_w widget (\<lambda>w. w\<lparr>w_children := Some (kids w)\<rparr>) st) (\<lambda>st.
          case app (On_add_child widget child) st of (r, st) \<Rightarrow>
            if r = RET_OK then Some (RET_OK, st) else widget_add_child_default app st widget child)))"

definition widget_remove_child_prepare :: "app \<Rightarrow> stages \<Rightarrow> wtree \<Rightarrow> ptr \<Rightarrow> ptr \<Rightarrow> (ret_t \<times> wtree) option" where
  "widget_remove_child_prepare app stages st widget child =
     (if widget = NULL \<or> child = NULL then Some (RET_BAD_PARAMS, st)
      else Option.bind (get_w st widget) (\<lambda>w.
        Option.bind (if \<not> w_is_window_manager w then ignore_ret (widget_set_need_relayout_children st widget) else Some st) (\<lambda>st.
          Option.bind (widget_is_window_opened stages st child) (\<lambda>opened.
            Option.bind (if opened then ignore_ret (widget_set_focused app stages st child False) else Some st) (\<lambda>st.
              Option.bind (ignore_ret (widget_invalidate_force app st child None)) (\<lambda>st.
                Option.bind (upd_w widget (\<lambda>w. if w_target w = child then w\<lparr>w_target := NULL\<rparr> else w) st) (\<lambda>st.
                  Option.bind (upd_w widget (\<lambda>w. if w_grab_widget w = child then w\<lparr>w_grab_widget := NULL, w_grab_widget_count := 0\<rparr> else w) st) (\<lambda>st.
                    Option.bind (get_w st widget) (\<lambda>w.
                      Option.bind (if w_key_target w = child
                                   then Option.bind (widget_dispatch_blur_event app st (w_key_target w)) (upd_w widget (\<lambda>w. w\<lparr>w_key_target := NULL\<rparr>))
                                   else Some st) (\<lambda>st.
                        case app (On_remove_child widget child) st of (r, st) \<Rightarrow>
                          if r = RET_OK then Some (RET_OK, st)
                          else Option.bind (upd_w child (\<lambda>c. c\<lparr>w_parent := NULL\<rparr>) (call app (On_detach_parent child widget) st)) (\<lambda>st. Some (RET_OK, st))))))))))))"

text \<open>
  \<open>darray_remove\<close> takes the first element out of the array that is \<open>child\<close> to \<open>pointer_compare\<close>, the
  comparison of an array created without one.
\<close>

fun remove_first :: "ptr \<Rightarrow> ptr list \<Rightarrow> ptr list option" where
  "remove_first child [] = None"
| "remove_first child (c # cs) = (if pointer_compare c child = 0 then Some cs else map_option ((#) c) (remove_first child cs))"

definition widget_remove_child :: "app \<Rightarrow> stages \<Rightarrow> wtree \<Rightarrow> ptr \<Rightarrow> ptr \<Rightarrow> (ret_t \<times> wtree) option" where
  "widget_remove_child app stages st widget child =
     (if widget = NULL \<or> child = NULL then Some (RET_BAD_PARAMS, st)
      else Option.bind (widget_remove_child_prepare app stages st widget child) (\<lambda>(r, st).
        Option.bind (get_w st widget) (\<lambda>w.
          case w_children w of None \<Rightarrow> Some (RET_BAD_PARAMS, st)
          | Some cs \<Rightarrow>
              (case remove_first child cs of None \<Rightarrow> Some (RET_NOT_FOUND, st)
               | Some cs \<Rightarrow> Some (RET_OK, call app (Dispatch widget EVT_WIDGET_REMOVE_CHILD) (st(widget \<mapsto> w\<lparr>w_children := Some cs\<rparr>)))))))"

definition widget_insert_child :: "app \<Rightarrow> wtree \<Rightarrow> ptr \<Rightarrow> nat \<Rightarrow> ptr \<Rightarrow> (ret_t \<times> wtree) option" where
  "widget_insert_child app st widget index child =
     (if widget = NULL \<or> child = NULL then Some (RET_BAD_PARAMS, st)
      else Option.bind (widget_add_child app st widget child) (\<lambda>(r, st).
        if r = RET_OK then widget_restack st child index else Some (RET_FAIL, st)))"

section \<open>What leaves the tree alone\<close>

text \<open>The place of a widget and its links to children.\<close>

definition link :: "widget \<Rightarrow> ptr \<times> ptr list option \<times> ptr \<times> ptr \<times> ptr" where
  "link w = (w_parent w, w_children w, w_target w, w_grab_widget w, w_key_target w)"

definition same_links :: "wtree \<Rightarrow> wtree \<Rightarrow> bool" where
  "same_links st st' \<longleftrightarrow> (\<forall>p. map_option link (st' p) = map_option link (st p))"

definition app_ok :: "app \<Rightarrow> bool" where
  "app_ok app \<longleftrightarrow> (\<forall>c st. same_links st (snd (app c st)))"

text \<open>The tree, and the targets of the pointer in it.\<close>

definition place :: "widget \<Rightarrow> ptr \<times> ptr list \<times> ptr \<times> ptr" where
  "place w = (w_parent w, kids w, w_target w, w_grab_widget w)"

definition same_tree :: "wtree \<Rightarrow> wtree \<Rightarrow> bool" where
  "same_tree st st' \<longleftrightarrow> (\<forall>p. map_option place (st' p) = map_option place (st p))"

text \<open>The links of a widget lead to its children.\<close>

definition links_ok :: "wtree \<Rightarrow> bool" where
  "links_ok st \<longleftrightarrow> (\<forall>p w. st p = Some w \<longrightarrow> {w_target w, w_grab_widget w, w_key_target w} \<subseteq> insert NULL (set (kids w)))"

lemma same_links_refl [simp]: "same_links st st"
  by (simp add: same_links_def)

lemma same_links_trans [trans]: "same_links a b \<Longrightarrow> same_links b c \<Longrightarrow> same_links a c"
  by (simp add: same_links_def)

lemma same_links_upd: "st p = Some w \<Longrightarrow> link w' = link w \<Longrightarrow> same_links st (st(p \<mapsto> w'))"
  by (simp add: same_links_def)

lemma same_links_get: "same_links st st' \<Longrightarrow> st p = Some w \<Longrightarrow> \<exists>w'. st' p = Some w' \<and> link w' = link w"
  by (metis map_option_eq_Some same_links_def)

lemma dom_map_eq: "(\<And>p. map_option f (st' p) = map_option f (st p)) \<Longrightarrow> dom st' = dom st"
  by (rule set_eqI) (metis domIff option.map_disc_iff)

lemma same_links_dom: "same_links st st' \<Longrightarrow> dom st' = dom st"
  by (rule dom_map_eq[where f = link]) (simp add: same_links_def)

lemma same_tree_refl [simp]: "same_tree st st"
  by (simp add: same_tree_def)

lemma same_tree_trans [trans]: "same_tree a b \<Longrightarrow> same_tree b c \<Longrightarrow> same_tree a c"
  by (simp add: same_tree_def)

lemma same_links_tree: "same_links st st' \<Longrightarrow> same_tree st st'"
proof -
  assume same: "same_links st st'"
  have at: "place = (\<lambda>(parent, cs, target, grab, key). (parent, case cs of None \<Rightarrow> [] | Some cs \<Rightarrow> cs, target, grab)) \<circ> link"
    by (rule ext) (simp add: link_def place_def kids_def)
  show ?thesis
    unfolding same_tree_def at option.map_comp[symmetric] using same by (simp only: same_links_def) simp
qed

lemma same_tree_get: "same_tree st st' \<Longrightarrow> st p = Some w \<Longrightarrow> \<exists>w'. st' p = Some w' \<and> w_parent w' = w_parent w \<and> kids w' = kids w \<and>
    w_target w' = w_target w \<and> w_grab_widget w' = w_grab_widget w"
proof -
  assume "same_tree st st'" and "st p = Some w"
  then have "map_option place (st' p) = Some (place w)" by (simp add: same_tree_def)
  then show ?thesis by (auto simp: place_def)
qed

lemma same_tree_dom: "same_tree st st' \<Longrightarrow> dom st' = dom st"
  by (rule dom_map_eq[where f = place]) (simp add: same_tree_def)

lemma rep_same_tree: "same_tree st st' \<Longrightarrow> rep st parent t \<Longrightarrow> rep st' parent t"
proof (induction t arbitrary: parent)
  case (Node p us)
  then obtain w where w: "p \<noteq> NULL" "st p = Some w" "w_parent w = parent" "kids w = map root us" "\<forall>u \<in> set us. rep st p u" by auto
  then show ?case using same_tree_get[OF Node.prems(1) w(2)] Node.IH Node.prems(1) by auto
qed

lemma forest_same_tree: "same_tree st st' \<Longrightarrow> forest st ts \<Longrightarrow> forest st' ts"
  using rep_same_tree same_tree_dom by (fastforce simp: forest_def)

lemma links_ok_same: "same_links st st' \<Longrightarrow> links_ok st \<Longrightarrow> links_ok st'"
proof (unfold links_ok_def, clarify del: subsetI)
  fix p w' assume st: "same_links st st'" "\<forall>p w. st p = Some w \<longrightarrow> {w_target w, w_grab_widget w, w_key_target w} \<subseteq> insert NULL (set (kids w))"
    and "st' p = Some w'"
  then obtain w where w: "st p = Some w" "link w = link w'" by (metis map_option_eq_Some same_links_def)
  then have "w_target w' = w_target w" "w_grab_widget w' = w_grab_widget w" "w_key_target w' = w_key_target w" "kids w' = kids w"
    by (simp_all add: link_def kids_def)
  then show "{w_target w', w_grab_widget w', w_key_target w'} \<subseteq> insert NULL (set (kids w'))"
    using st(2) w(1) by (simp only:)
qed

lemma call_same: "app_ok app \<Longrightarrow> same_links st (call app c st)"
  by (simp add: app_ok_def call_def)

text \<open>An operation that returns and leaves the links alone; with a status, and without.\<close>

definition keeps_st :: "wtree \<Rightarrow> wtree option \<Rightarrow> bool" where
  "keeps_st st m \<longleftrightarrow> (\<exists>st'. m = Some st' \<and> same_links st st')"

definition keeps :: "wtree \<Rightarrow> (ret_t \<times> wtree) option \<Rightarrow> bool" where
  "keeps st m \<longleftrightarrow> (\<exists>r st'. m = Some (r, st') \<and> same_links st st')"

lemma keeps_some [simp]: "keeps st (Some (r, st')) \<longleftrightarrow> same_links st st'" "keeps_st st (Some st') \<longleftrightarrow> same_links st st'"
  by (auto simp: keeps_def keeps_st_def)

lemma keeps_ignore [simp]: "keeps_st st (ignore_ret m) \<longleftrightarrow> keeps st m"
  by (cases m) (auto simp: keeps_def keeps_st_def ignore_ret_def)

lemma keeps_bind: "keeps_st st m \<Longrightarrow> (\<And>st'. same_links st st' \<Longrightarrow> keeps st (f st')) \<Longrightarrow> keeps st (Option.bind m f)"
  by (auto simp: keeps_st_def)

lemma keeps_st_bind: "keeps_st st m \<Longrightarrow> (\<And>st'. same_links st st' \<Longrightarrow> keeps_st st (f st')) \<Longrightarrow> keeps_st st (Option.bind m f)"
  by (auto simp: keeps_st_def)

lemma keeps_mono: "same_links st st' \<Longrightarrow> keeps st' m \<Longrightarrow> keeps st m"
  by (auto simp: keeps_def intro: same_links_trans)

lemma keeps_st_mono: "same_links st st' \<Longrightarrow> keeps_st st' m \<Longrightarrow> keeps_st st m"
  by (auto simp: keeps_st_def intro: same_links_trans)

text \<open>A widget of the forest, also after operations that keep the links.\<close>

lemma in_dom_get:
  assumes "forest st ts" and "same_links st st'" and "p \<in> dom st"
  obtains w w' where "get_w st' p = Some w'" "st' p = Some w'" "st p = Some w" "link w' = link w" "p \<noteq> NULL"
  using assms(3) same_links_get[OF assms(2)] forest_nonnull[OF assms(1,3)] that by (fastforce simp: get_w_def)

text \<open>Every theorem here is about a forest; operations in sequence work on one with the same links.\<close>

lemma walk_up:
  assumes "forest st ts" and "same_links st st'" and "p = NULL \<or> p \<in> dom st"
  shows "\<exists>q. find_up st' P p = Some q \<and> (q = NULL \<or> q \<in> dom st)"
proof (cases "p = NULL")
  case True
  then show ?thesis by (simp add: find_up.simps)
next
  case False
  have f: "forest st' ts" using forest_same_tree same_links_tree assms(1,2) by blast
  have d: "dom st' = dom st" by (rule same_links_dom[OF assms(2)])
  obtain ps where "chain st' p ps" using forest_chain[OF f, of p] assms(3) False d by auto
  then have up: "find_up st' P p = Some (case find (\<lambda>q. P q (the (st' q))) ps of None \<Rightarrow> NULL | Some q \<Rightarrow> q)"
    and ps: "\<forall>q \<in> set ps. q \<in> dom st"
    using find_up_chain[of st' p ps P] chain_dom[of st' p ps] d by auto
  show ?thesis
  proof (cases "find (\<lambda>q. P q (the (st' q))) ps")
    case None
    then show ?thesis using up by simp
  next
    case (Some q)
    then have "q \<in> set ps" by (auto simp: find_Some_iff)
    then show ?thesis using Some up ps by simp
  qed
qed

lemma parent_in_dom:
  assumes "forest st ts" and "st p = Some w" and "w_parent w \<noteq> NULL"
  shows "w_parent w \<in> dom st"
proof -
  obtain ps where ps: "chain st p ps" "ps \<noteq> []" using forest_chain[OF assms(1)] assms(2) by blast
  then obtain qs where "chain st (w_parent w) qs" using assms(2) by (cases ps) auto
  then show ?thesis using assms(3) by (cases qs) auto
qed

lemma child_in_dom:
  assumes "forest st ts" and "st p = Some w" and "c \<in> set (kids w)"
  shows "c \<in> dom st" and "\<exists>cw. st c = Some cw \<and> w_parent cw = p"
proof -
  obtain parent us where us: "rep st parent (Node p us)" using forest_subtree[OF assms(1)] assms(2) by blast
  then obtain u where u: "root u = c" "rep st p u" using assms(2,3) by auto
  show par: "\<exists>cw. st c = Some cw \<and> w_parent cw = p" using u by (cases u) auto
  then show "c \<in> dom st" by blast
qed

lemma parent_has_child:
  assumes "forest st ts" and "st p = Some w" and "w_parent w = q" and "q \<noteq> NULL" and "st q = Some qw"
  shows "p \<in> set (kids qw)"
proof -
  have "rep st parent t \<Longrightarrow> p \<in> set (nodes t) \<Longrightarrow> p \<noteq> root t \<Longrightarrow> p \<in> set (kids qw)" for parent t
  proof (induction t arbitrary: parent)
    case (Node r us)
    then obtain rw where rw: "st r = Some rw" "kids rw = map root us" by auto
    obtain u where u: "u \<in> set us" "p \<in> set (nodes u)" using Node.prems by auto
    show ?case
    proof (cases "p = root u")
      case True
      then have "r = q" using u(1) Node.prems(1) assms(2,3) by (cases u) auto
      then show ?thesis using rw True u(1) assms(5) by auto
    next
      case False
      then show ?thesis using Node.IH[OF u(1), of r] Node.prems(1) u by auto
    qed
  qed
  moreover obtain t where t: "t \<in> set ts" "p \<in> set (nodes t)" using assms(1,2) by (auto simp: forest_def)
  moreover have "p \<noteq> root t" using assms(1-4) t(1) by (cases t) (auto simp: forest_def)
  ultimately show ?thesis using assms(1) by (auto simp: forest_def)
qed

lemma chain_same_tree: "same_tree st st' \<Longrightarrow> chain st p ps \<Longrightarrow> chain st' p ps"
proof (induction ps arbitrary: p)
  case (Cons q qs)
  then obtain w where "p = q" "q \<noteq> NULL" "st q = Some w" "chain st (w_parent w) qs" by auto
  then show ?case using same_tree_get[OF Cons.prems(1), of q w] Cons.IH[OF Cons.prems(1)] by auto
qed simp

lemma parent_not_dirty_keeps:
  assumes "chain st iter ps"
  shows "keeps_st st (parent_not_dirty_loop st iter)"
  using assms
proof (induction ps arbitrary: st iter)
  case Nil
  then show ?case by (simp add: parent_not_dirty_loop.simps)
next
  case (Cons q qs)
  then obtain w where w: "iter = q" "q \<noteq> NULL" "st q = Some w" "chain st (w_parent w) qs" by auto
  let ?st = "st(q \<mapsto> w\<lparr>w_dirty := False\<rparr>)"
  have same: "same_links st ?st" using w(3) by (intro same_links_upd) (simp_all add: link_def)
  have "chain ?st (w_parent w) qs" using w(4) chain_upd_grab chain_distinct[OF Cons.prems] by auto
  then have "keeps_st st (parent_not_dirty_loop ?st (w_parent w))" by (rule keeps_st_mono[OF same Cons.IH])
  then show ?case using same w by (subst parent_not_dirty_loop.simps) (simp add: get_w_def Let_def)
qed

lemma invalidate_default_keeps:
  assumes app: "app_ok app" and "chain st p ps" and "ps \<noteq> []"
  shows "keeps st (widget_invalidate_default app st p r)"
  using assms(2,3)
proof (induction ps arbitrary: p r)
  case (Cons q qs)
  then obtain w where w: "p = q" "q \<noteq> NULL" "st q = Some w" "chain st (w_parent w) qs" by auto
  show ?case
  proof (cases "invalidate_rect w r = None \<or> w_parent w = NULL")
    case True
    then show ?thesis using w by (subst widget_invalidate_default.simps) (auto simp: get_w_def split: option.splits)
  next
    case False
    then obtain r' where r': "invalidate_rect w r = Some r'" "w_parent w \<noteq> NULL" by auto
    then have qs: "qs \<noteq> []" using w(4) by (cases qs) auto
    then obtain pw where pw: "get_w st (w_parent w) = Some pw" using w(4) by (cases qs) (auto simp: get_w_def)
    obtain ret st' where st': "widget_invalidate_default app st (w_parent w) r' = Some (ret, st')" "same_links st st'"
      using Cons.IH[OF w(4) qs, of r'] by (auto simp: keeps_def)
    then show ?thesis using w r' pw call_same[OF app]
      by (subst widget_invalidate_default.simps) (simp add: get_w_def)
  qed
qed simp

lemma forest_links: "forest st ts \<Longrightarrow> same_links st st' \<Longrightarrow> forest st' ts"
  using forest_same_tree same_links_tree by blast

lemma invalidate_keeps:
  assumes app: "app_ok app" and f: "forest st ts" and p: "p \<in> dom st"
  shows "keeps st (widget_invalidate app st p r)"
proof -
  obtain w where w: "get_w st p = Some w" "st p = Some w" "p \<noteq> NULL" using in_dom_get[OF f same_links_refl p] by auto
  obtain q where up: "find_up st (\<lambda>p w. \<not> w_visible w) p = Some q" using walk_up[OF f same_links_refl] p by blast
  let ?st = "st(p \<mapsto> w\<lparr>w_dirty := True\<rparr>)"
  have same: "same_links st ?st" using w(2) by (intro same_links_upd) (simp_all add: link_def)
  have f': "forest ?st ts" by (rule forest_links[OF f same])
  obtain ps where ps: "chain ?st p ps" using forest_chain[OF f', of p] by auto
  then obtain qs where qs: "chain ?st (w_parent w) qs" using w(3) by (cases ps) auto
  then obtain st2 where st2: "widget_set_parent_not_dirty ?st p = Some st2" "same_links ?st st2"
    using parent_not_dirty_keeps[OF qs] w(3) by (auto simp: widget_set_parent_not_dirty_def get_w_def keeps_st_def)
  have same2: "same_links st st2" using same st2(2) same_links_trans by blast
  have default: "keeps st (widget_invalidate_default app st3 p r')" if same3: "same_links st st3" for st3 r'
  proof -
    obtain ps3 where "chain st3 p ps3" "ps3 \<noteq> []" using forest_chain[OF forest_links[OF f same3], of p] p same_links_dom[OF same3] by blast
    then show ?thesis by (intro keeps_mono[OF same3 invalidate_default_keeps[OF app]])
  qed
  have vt: "keeps st (case app (Vt_invalidate p r') st2 of (ret, st) \<Rightarrow>
      if ret = RET_NOT_IMPL then widget_invalidate_default app st p r' else Some (ret, st))" for r'
  proof -
    obtain ret st3 where a: "app (Vt_invalidate p r') st2 = (ret, st3)" by fastforce
    have "same_links st2 (snd (app (Vt_invalidate p r') st2))" using app by (simp add: app_ok_def)
    then have "same_links st st3" using same_links_trans[OF same2] a by simp
    then show ?thesis using default a by simp
  qed
  have "keeps st (if w_vt_invalidate w then (case app (Vt_invalidate p r') st2 of (ret, st) \<Rightarrow>
      if ret = RET_NOT_IMPL then widget_invalidate_default app st p r' else Some (ret, st)) else widget_invalidate_default app st2 p r')" for r'
    using vt default[OF same2] by simp
  then show ?thesis using w up st2(1)
    by (auto simp: widget_invalidate_def widget_self_and_ancestors_visible_def Let_def split: option.splits)
qed

lemma invalidate_force_keeps:
  assumes app: "app_ok app" and f: "forest st ts" and p: "p \<in> dom st"
  shows "keeps st (widget_invalidate_force app st p r)"
proof -
  obtain w where w: "get_w st p = Some w" "st p = Some w" "p \<noteq> NULL" using in_dom_get[OF f same_links_refl p] by auto
  have same: "same_links st (st(p \<mapsto> w\<lparr>w_dirty := False\<rparr>))" using w(2) by (intro same_links_upd) (simp_all add: link_def)
  then show ?thesis using w keeps_mono[OF same invalidate_keeps[OF app forest_links[OF f same]]]
    by (simp add: widget_invalidate_force_def upd_w_def)
qed

lemma upd_keeps:
  assumes "forest st ts" and "p \<in> dom st" and "\<And>w. link (f w) = link w"
  shows "keeps_st st (upd_w p f st)"
proof -
  obtain w where w: "get_w st p = Some w" "st p = Some w" using in_dom_get[OF assms(1) same_links_refl assms(2)] by auto
  have "same_links st (st(p \<mapsto> f w))" using w(2) assms(3) by (intro same_links_upd) auto
  then show ?thesis using w(1) by (simp add: upd_w_def)
qed

lemma need_update_style_keeps:
  assumes app: "app_ok app" and f: "forest st ts" and p: "p \<in> dom st"
  shows "keeps st (widget_set_need_update_style app st p)"
proof -
  obtain w where w: "get_w st p = Some w" "p \<noteq> NULL" using in_dom_get[OF f same_links_refl p] by auto
  have "keeps_st st (if \<not> w_need_update_style w then ignore_ret (widget_invalidate_force app st p None) else Some st)"
    using invalidate_force_keeps[OF app f p] by simp
  then have "keeps st (Option.bind (if \<not> w_need_update_style w then ignore_ret (widget_invalidate_force app st p None) else Some st) (\<lambda>st.
      Option.bind (upd_w p (\<lambda>w. w\<lparr>w_need_update_style := True\<rparr>) st) (\<lambda>st. Some (RET_OK, st))))"
  proof (rule keeps_bind)
    fix st' assume same: "same_links st st'"
    have "keeps_st st' (upd_w p (\<lambda>w. w\<lparr>w_need_update_style := True\<rparr>) st')"
      by (rule upd_keeps[OF forest_links[OF f same]]) (use p same_links_dom[OF same] in \<open>auto simp: link_def\<close>)
    then show "keeps st (Option.bind (upd_w p (\<lambda>w. w\<lparr>w_need_update_style := True\<rparr>) st') (\<lambda>st. Some (RET_OK, st)))"
      using same same_links_trans[OF same] by (auto simp: keeps_st_def)
  qed
  then show ?thesis using w by (simp add: widget_set_need_update_style_def)
qed

lemma rep_links: "same_links st st' \<Longrightarrow> rep st parent t \<Longrightarrow> rep st' parent t"
  using rep_same_tree same_links_tree by blast

lemma update_style_all_keeps:
  assumes app: "app_ok app" and f: "forest st ts"
  shows "\<forall>u \<in> set us. rep st parent u \<Longrightarrow> keeps_st st (update_style_all app st (map root us))"
  using f
proof (induction "sum_list (map size us)" arbitrary: st parent us rule: less_induct)
  case less
  show ?case
  proof (cases us)
    case Nil
    then show ?thesis by (simp add: update_style_all.simps)
  next
    case (Cons u rest)
    obtain p vs where u: "u = Node p vs" by (cases u)
    then have p: "rep st parent (Node p vs)" "p \<in> dom st" "p \<noteq> NULL" using less.prems(1) Cons by auto
    have smaller: "sum_list (map size vs) < sum_list (map size us)" "sum_list (map size rest) < sum_list (map size us)"
      using Cons u by (simp_all add: size_list_conv_sum_list)
    obtain r st1 where st1: "widget_set_need_update_style app st p = Some (r, st1)" "same_links st st1"
      using need_update_style_keeps[OF app less.prems(2) p(2)] by (auto simp: keeps_def)
    have f1: "forest st1 ts" by (rule forest_links[OF less.prems(2) st1(2)])
    have r1: "rep st1 parent (Node p vs)" by (rule rep_links[OF st1(2) p(1)])
    then obtain w where w: "st1 p = Some w" "kids w = map root vs" "\<forall>v \<in> set vs. rep st1 p v" by auto
    obtain st2 where st2: "update_style_all app st1 (map root vs) = Some st2" "same_links st1 st2"
      using less.hyps[OF smaller(1) w(3) f1] by (auto simp: keeps_st_def)
    have same2: "same_links st st2" by (rule same_links_trans[OF st1(2) st2(2)])
    have "\<forall>v \<in> set rest. rep st2 parent v" using less.prems(1) Cons rep_links[OF same2] by auto
    then obtain st3 where st3: "update_style_all app st2 (map root rest) = Some st3" "same_links st2 st3"
      using less.hyps[OF smaller(2) _ forest_links[OF less.prems(2) same2]] by (auto simp: keeps_st_def)
    have "same_links st st3" by (rule same_links_trans[OF same2 st3(2)])
    then show ?thesis using Cons u st1(1) w st2(1) st3(1) p(3)
      by (subst update_style_all.simps) (simp add: get_w_def)
  qed
qed

lemma need_update_style_recursive_keeps:
  assumes app: "app_ok app" and f: "forest st ts" and p: "p \<in> dom st"
  shows "keeps st (widget_set_need_update_style_recursive app st p)"
proof -
  obtain parent us where "rep st parent (Node p us)" using forest_subtree[OF f p] by blast
  then have "keeps_st st (update_style_all app st (map root [Node p us]))"
    by (intro update_style_all_keeps[OF app f, of "[Node p us]" parent]) simp
  then show ?thesis using forest_nonnull[OF f p]
    by (auto simp: widget_set_need_update_style_recursive_def keeps_st_def)
qed

lemma find_up_step:
  assumes "chain st p (q # qs)"
  shows "find_up st P p = (if P q (the (st q)) then Some q else find_up st P (w_parent (the (st q))))"
  using assms by (subst find_up.simps) (auto simp: get_w_def)

text \<open>The first window above, and the first above that one.\<close>

lemma top_window_walk:
  assumes "chain st p ps"
  shows "\<exists>q. Option.bind (find_up st (\<lambda>p w. w_is_window w) p) (top_window_loop st) = Some q \<and> (q = NULL \<or> q \<in> dom st)"
  using assms
proof (induction ps arbitrary: p)
  case Nil
  then show ?case by (simp add: find_up.simps top_window_loop.simps)
next
  case (Cons q qs)
  then obtain w where w: "p = q" "q \<noteq> NULL" "st q = Some w" "chain st (w_parent w) qs" by auto
  note IH = Cons.IH[OF w(4)]
  show ?case
  proof (cases "w_is_window w")
    case False
    then show ?thesis using IH find_up_step[OF Cons.prems] w by simp
  next
    case True
    then have here: "find_up st (\<lambda>p w. w_is_window w) p = Some q" using find_up_step[OF Cons.prems] w by simp
    show ?thesis
    proof (cases "w_parent w = NULL")
      case True
      then show ?thesis using here w by (simp add: top_window_loop.simps get_w_def) blast
    next
      case False
      then obtain pw where "st (w_parent w) = Some pw" using w(4) by (cases qs) auto
      then show ?thesis using here w False IH
        by (simp add: top_window_loop.simps[of st q] get_w_def widget_get_window_def) blast
    qed
  qed
qed

lemma need_relayout_keeps:
  assumes f: "forest st ts" and p: "p \<in> dom st"
  shows "keeps st (widget_set_need_relayout_children st p)"
proof -
  obtain ps where ps: "chain st p ps" using forest_chain[OF f p] by blast
  obtain q where q: "Option.bind (widget_get_window st p) (top_window_loop st) = Some q" "q = NULL \<or> q \<in> dom st"
    using top_window_walk[OF ps] unfolding widget_get_window_def by blast
  have "keeps st (widget_set_need_relayout st p)"
  proof (cases "q = NULL")
    case True
    then show ?thesis using q(1) by (auto simp: widget_set_need_relayout_def bind_eq_Some_conv)
  next
    case False
    have "keeps_st st (upd_w q (\<lambda>w. w\<lparr>w_need_relayout := True\<rparr>) st)"
      by (rule upd_keeps[OF f]) (use q(2) False in \<open>auto simp: link_def\<close>)
    then show ?thesis using q(1) False by (auto simp: widget_set_need_relayout_def bind_eq_Some_conv keeps_st_def)
  qed
  moreover obtain w where "get_w st p = Some w" using in_dom_get[OF f same_links_refl p] by auto
  ultimately show ?thesis by (simp add: widget_set_need_relayout_children_def widget_count_children_def)
qed

section \<open>Focus keeps the tree\<close>

text \<open>An operation that returns, keeps parents and children, and leaves links to children only.\<close>

definition does_st :: "wtree \<Rightarrow> wtree option \<Rightarrow> bool" where
  "does_st st m \<longleftrightarrow> (\<exists>st'. m = Some st' \<and> same_tree st st' \<and> links_ok st')"

definition does :: "wtree \<Rightarrow> (ret_t \<times> wtree) option \<Rightarrow> bool" where
  "does st m \<longleftrightarrow> (\<exists>r st'. m = Some (r, st') \<and> same_tree st st' \<and> links_ok st')"

lemma does_some [simp]:
  "does st (Some (r, st')) \<longleftrightarrow> same_tree st st' \<and> links_ok st'" "does_st st (Some st') \<longleftrightarrow> same_tree st st' \<and> links_ok st'"
  by (auto simp: does_def does_st_def)

lemma does_ignore [simp]: "does_st st (ignore_ret m) \<longleftrightarrow> does st m"
  by (cases m) (auto simp: does_def does_st_def ignore_ret_def)

lemma keeps_does: "links_ok st \<Longrightarrow> keeps st m \<Longrightarrow> does st m"
  by (auto simp: keeps_def does_def same_links_tree links_ok_same)

lemma keeps_does_st: "links_ok st \<Longrightarrow> keeps_st st m \<Longrightarrow> does_st st m"
  by (auto simp: keeps_st_def does_st_def same_links_tree links_ok_same)

lemma does_st_bind:
  assumes "does_st st m" and "\<And>st'. same_tree st st' \<Longrightarrow> links_ok st' \<Longrightarrow> does_st st' (f st')"
  shows "does_st st (Option.bind m f)"
  using assms same_tree_trans by (fastforce simp: does_st_def)

lemma does_bind:
  assumes "does_st st m" and "\<And>st'. same_tree st st' \<Longrightarrow> links_ok st' \<Longrightarrow> does st' (f st')"
  shows "does st (Option.bind m f)"
  using assms same_tree_trans by (fastforce simp: does_st_def does_def)

lemma does_st_mono: "same_tree st st' \<Longrightarrow> does_st st' m \<Longrightarrow> does_st st m"
  by (auto simp: does_st_def intro: same_tree_trans)

lemma links_upd:
  assumes "links_ok st" and "st p = Some w" and "place w' = place w"
    and "{w_target w', w_grab_widget w', w_key_target w'} \<subseteq> insert NULL (set (kids w))"
  shows "same_tree st (st(p \<mapsto> w'))" and "links_ok (st(p \<mapsto> w'))"
proof -
  have "kids w' = kids w" using assms(3) by (simp add: place_def)
  then show "same_tree st (st(p \<mapsto> w'))" and "links_ok (st(p \<mapsto> w'))"
    using assms by (simp_all add: same_tree_def links_ok_def)
qed

lemma links_of: "links_ok st \<Longrightarrow> st p = Some w \<Longrightarrow> {w_target w, w_grab_widget w, w_key_target w} \<subseteq> insert NULL (set (kids w))"
  by (simp only: links_ok_def)

lemma set_focus_flag:
  assumes app: "app_ok app" and f: "forest st ts" and w: "st p = Some w"
  shows "keeps_st st (ignore_ret (widget_set_need_update_style app (call app c (st(p \<mapsto> w\<lparr>w_focused := b\<rparr>))) p))"
    and "keeps_st st (ignore_ret (widget_set_need_update_style app (st(p \<mapsto> w\<lparr>w_focused := b\<rparr>)) p))"
proof -
  let ?st = "st(p \<mapsto> w\<lparr>w_focused := b\<rparr>)"
  have 1: "same_links st ?st" using w by (intro same_links_upd) (simp_all add: link_def)
  then have 2: "same_links st (call app c ?st)" using same_links_trans call_same[OF app] by blast
  have d: "p \<in> dom ?st" "p \<in> dom (call app c ?st)" using w same_links_dom[OF 2] by auto
  show "keeps_st st (ignore_ret (widget_set_need_update_style app (call app c ?st) p))"
    using keeps_mono[OF 2 need_update_style_keeps[OF app forest_links[OF f 2] d(2)]] by simp
  show "keeps_st st (ignore_ret (widget_set_need_update_style app ?st p))"
    using keeps_mono[OF 1 need_update_style_keeps[OF app forest_links[OF f 1] d(1)]] by simp
qed

lemma blur_one_does:
  assumes app: "app_ok app" and f: "forest st ts" and p: "p \<in> dom st" and l: "links_ok st"
  shows "does_st st (blur_one app st p)"
proof -
  obtain w where w: "get_w st p = Some w" "st p = Some w" using in_dom_get[OF f same_links_refl p] by auto
  have first: "does_st st (if w_focused w
      then ignore_ret (widget_set_need_update_style app (call app (Dispatch p EVT_BLUR) (st(p \<mapsto> w\<lparr>w_focused := False\<rparr>))) p) else Some st)"
    using keeps_does_st[OF l set_focus_flag(1)[OF app f w(2)]] l by simp
  have "does_st st (Option.bind (if w_focused w
      then ignore_ret (widget_set_need_update_style app (call app (Dispatch p EVT_BLUR) (st(p \<mapsto> w\<lparr>w_focused := False\<rparr>))) p) else Some st)
     (\<lambda>st. Option.bind (get_w st p) (\<lambda>w.
           if w_parent w = NULL then Some st
           else Option.bind (get_w st (w_parent w)) (\<lambda>parent.
             Some (if w_key_target parent = p then st(w_parent w \<mapsto> parent\<lparr>w_key_target := NULL\<rparr>) else st)))))"
  proof (rule does_st_bind[OF first])
    fix st1 assume st1: "same_tree st st1" "links_ok st1"
    have f1: "forest st1 ts" by (rule forest_same_tree[OF st1(1) f])
    have p1: "p \<in> dom st1" using p same_tree_dom[OF st1(1)] by simp
    obtain w1 where w1: "get_w st1 p = Some w1" "st1 p = Some w1" using in_dom_get[OF f1 same_links_refl p1] by auto
    show "does_st st1 (Option.bind (get_w st1 p) (\<lambda>w.
           if w_parent w = NULL then Some st1
           else Option.bind (get_w st1 (w_parent w)) (\<lambda>parent.
             Some (if w_key_target parent = p then st1(w_parent w \<mapsto> parent\<lparr>w_key_target := NULL\<rparr>) else st1))))"
    proof (cases "w_parent w1 = NULL")
      case True
      then show ?thesis using w1 st1(2) by simp
    next
      case False
      then obtain pw where pw: "get_w st1 (w_parent w1) = Some pw" "st1 (w_parent w1) = Some pw"
        using in_dom_get[OF f1 same_links_refl parent_in_dom[OF f1 w1(2) False]] by auto
      have "same_tree st1 (st1(w_parent w1 \<mapsto> pw\<lparr>w_key_target := NULL\<rparr>))" "links_ok (st1(w_parent w1 \<mapsto> pw\<lparr>w_key_target := NULL\<rparr>))"
        by (rule links_upd[OF st1(2) pw(2)]; use links_of[OF st1(2) pw(2)] in \<open>simp add: kids_def place_def\<close>)+
      then show ?thesis using w1 pw False st1(2) by simp
    qed
  qed
  then show ?thesis using w(1) by (simp add: blur_one_def)
qed

lemma blur_event_does:
  assumes app: "app_ok app"
  shows "rep st parent t \<Longrightarrow> forest st ts \<Longrightarrow> links_ok st \<Longrightarrow> does_st st (widget_dispatch_blur_event app st (root t))"
proof (induction t arbitrary: st parent)
  case (Node p us)
  have p: "p \<in> dom st" "p \<noteq> NULL" using Node.prems(1) by auto
  have "does_st st (Option.bind (blur_one app st p) (\<lambda>st. Option.bind (get_w st p) (\<lambda>w. widget_dispatch_blur_event app st (w_key_target w))))"
  proof (rule does_st_bind[OF blur_one_does[OF app Node.prems(2) p(1) Node.prems(3)]])
    fix st1 assume st1: "same_tree st st1" "links_ok st1"
    have f1: "forest st1 ts" by (rule forest_same_tree[OF st1(1) Node.prems(2)])
    have "rep st1 parent (Node p us)" by (rule rep_same_tree[OF st1(1) Node.prems(1)])
    then obtain w where w: "st1 p = Some w" "kids w = map root us" "\<forall>u \<in> set us. rep st1 p u" by auto
    have "does_st st1 (widget_dispatch_blur_event app st1 (w_key_target w))"
    proof (cases "w_key_target w = NULL")
      case True
      then show ?thesis using st1(2) by (simp add: widget_dispatch_blur_event.simps)
    next
      case False
      then obtain u where "u \<in> set us" "root u = w_key_target w" using links_of[OF st1(2) w(1)] w(2) by auto
      then show ?thesis using Node.IH[of u st1 p] w(3) f1 st1(2) by auto
    qed
    then show "does_st st1 (Option.bind (get_w st1 p) (\<lambda>w. widget_dispatch_blur_event app st1 (w_key_target w)))"
      using w(1) p(2) by (simp add: get_w_def)
  qed
  then show ?case using p(2) by (subst widget_dispatch_blur_event.simps) simp
qed

lemma blur_event_at:
  assumes "app_ok app" and "forest st ts" and "links_ok st" and "p = NULL \<or> p \<in> dom st"
  shows "does_st st (widget_dispatch_blur_event app st p)"
proof (cases "p = NULL")
  case True
  then show ?thesis using assms(3) by (simp add: widget_dispatch_blur_event.simps)
next
  case False
  then obtain parent us where "rep st parent (Node p us)" using forest_subtree[OF assms(2)] assms(4) by blast
  then show ?thesis using blur_event_does[OF assms(1) _ assms(2,3), of parent "Node p us"] by simp
qed

text \<open>Both directions of a change of focus.\<close>

lemma set_focused_with_does:
  assumes app: "app_ok app" and f: "forest st ts" and p: "p \<in> dom st" and l: "links_ok st"
    and key: "\<And>st'. same_tree st st' \<Longrightarrow> links_ok st' \<Longrightarrow> does_st st' (key st')"
  shows "does st (set_focused_with key app stages st p b)"
proof -
  obtain w where w: "get_w st p = Some w" "st p = Some w" using in_dom_get[OF f same_links_refl p] by auto
  obtain win where win: "widget_get_window st p = Some win" using walk_up[OF f same_links_refl, of p] p by (auto simp: widget_get_window_def)
  have first: "does_st st (ignore_ret (widget_set_need_update_style app (st(p \<mapsto> w\<lparr>w_focused := b\<rparr>)) p))"
    by (rule keeps_does_st[OF l set_focus_flag(2)[OF app f w(2)]])
  have "does st (Option.bind (ignore_ret (widget_set_need_update_style app (st(p \<mapsto> w\<lparr>w_focused := b\<rparr>)) p)) (\<lambda>st.
             Option.bind (if b then map_option (call app (Dispatch p EVT_FOCUS)) (key st)
                          else widget_dispatch_blur_event app (call app (Dispatch p EVT_BLUR) st) p) (\<lambda>st.
               Option.bind (ignore_ret (widget_invalidate app st p None)) (\<lambda>st. Some (RET_OK, st)))))"
  proof (rule does_bind[OF first], rule does_bind)
    fix st1 assume st1: "same_tree st st1" "links_ok st1"
    have f1: "forest st1 ts" by (rule forest_same_tree[OF st1(1) f])
    let ?st = "call app (Dispatch p EVT_BLUR) st1"
    have same: "same_links st1 ?st" by (rule call_same[OF app])
    have "does_st ?st (widget_dispatch_blur_event app ?st p)"
      by (rule blur_event_at[OF app forest_links[OF f1 same] links_ok_same[OF same st1(2)]])
         (use p same_tree_dom[OF st1(1)] same_links_dom[OF same] in blast)
    then have off: "does_st st1 (widget_dispatch_blur_event app ?st p)" by (rule does_st_mono[OF same_links_tree[OF same]])
    obtain st2 where st2: "key st1 = Some st2" "same_tree st1 st2" "links_ok st2" using key[OF st1] by (auto simp: does_st_def)
    have same2: "same_links st2 (call app (Dispatch p EVT_FOCUS) st2)" by (rule call_same[OF app])
    have "does_st st1 (map_option (call app (Dispatch p EVT_FOCUS)) (key st1))"
      using st2 same_tree_trans[OF st2(2) same_links_tree[OF same2]] links_ok_same[OF same2] by simp
    then show "does_st st1 (if b then map_option (call app (Dispatch p EVT_FOCUS)) (key st1)
        else widget_dispatch_blur_event app ?st p)" using off by simp
  next
    fix st1 st2 assume st12: "same_tree st st1" "links_ok st1" "same_tree st1 st2" "links_ok st2"
    have f2: "forest st2 ts" using st12 f forest_same_tree same_tree_trans by metis
    have p2: "p \<in> dom st2" using p same_tree_dom[OF st12(1)] same_tree_dom[OF st12(3)] by simp
    show "does st2 (Option.bind (ignore_ret (widget_invalidate app st2 p None)) (\<lambda>st. Some (RET_OK, st)))"
      using keeps_does[OF st12(4) invalidate_keeps[OF app f2 p2, of None]] by (auto simp: does_def ignore_ret_def)
  qed
  then show ?thesis using w win l by (auto simp: set_focused_with_def)
qed

lemma take_focus_does:
  assumes "app_ok app" and "forest st ts" and "p \<in> dom st" and "links_ok st"
  shows "does_st st (take_focus app stages st p)"
  using set_focused_with_does[OF assms, of Some stages False] by (simp add: take_focus_def)

lemma key_target_one_does:
  assumes app: "app_ok app" and f: "forest st ts" and l: "links_ok st" and w: "st p = Some w" "w_parent w = q" "q \<noteq> NULL"
  shows "does_st st (key_target_one app stages st p q)"
proof -
  have q: "q \<in> dom st" using parent_in_dom[OF f w(1)] w(2,3) by simp
  obtain qw where qw: "get_w st q = Some qw" "st q = Some qw" using in_dom_get[OF f same_links_refl q] by auto
  let ?m1 = "if \<not> w_focused qw
      then ignore_ret (widget_set_need_update_style app (call app (Dispatch q EVT_FOCUS) (st(q \<mapsto> qw\<lparr>w_focused := True\<rparr>))) q) else Some st"
  have m1: "does_st st ?m1" using keeps_does_st[OF l set_focus_flag(1)[OF app f qw(2)]] l by simp
  have here: "\<exists>w1. st1 p = Some w1 \<and> w_parent w1 = q \<and> get_w st1 p = Some w1" if "same_tree st st1" for st1
    using same_tree_get[OF that w(1)] w(2) forest_nonnull[OF f, of p] w(1) by (auto simp: get_w_def)
  have "does_st st (Option.bind ?m1 (\<lambda>st. Option.bind (get_w st q) (\<lambda>qw.
           Option.bind (if w_key_target qw \<noteq> NULL \<and> w_key_target qw \<noteq> p
                        then Option.bind (get_w st p) (\<lambda>w. Option.bind (get_w st (w_parent w)) (\<lambda>qw. take_focus app stages st (w_key_target qw)))
                        else Some st) (\<lambda>st.
             upd_w q (\<lambda>qw. if w_key_target qw \<noteq> p then qw\<lparr>w_key_target := p\<rparr> else qw) st))))"
  proof (rule does_st_bind[OF m1])
    fix st1 assume st1: "same_tree st st1" "links_ok st1"
    have f1: "forest st1 ts" by (rule forest_same_tree[OF st1(1) f])
    have q1: "q \<in> dom st1" using q same_tree_dom[OF st1(1)] by simp
    obtain qw1 where qw1: "get_w st1 q = Some qw1" "st1 q = Some qw1" using in_dom_get[OF f1 same_links_refl q1] by auto
    obtain w1 where w1: "st1 p = Some w1" "w_parent w1 = q" "get_w st1 p = Some w1" using here[OF st1(1)] by blast
    let ?m2 = "if w_key_target qw1 \<noteq> NULL \<and> w_key_target qw1 \<noteq> p then take_focus app stages st1 (w_key_target qw1) else Some st1"
    have m2: "does_st st1 ?m2"
    proof (cases "w_key_target qw1 \<noteq> NULL")
      case True
      then have "w_key_target qw1 \<in> set (kids qw1)" using links_of[OF st1(2) qw1(2)] by auto
      then show ?thesis using take_focus_does[OF app f1 child_in_dom(1)[OF f1 qw1(2)] st1(2)] st1(2) by simp
    next
      case False
      then show ?thesis using st1(2) by simp
    qed
    have "does_st st1 (Option.bind ?m2 (upd_w q (\<lambda>qw. if w_key_target qw \<noteq> p then qw\<lparr>w_key_target := p\<rparr> else qw)))"
    proof (rule does_st_bind[OF m2])
      fix st2 assume st2: "same_tree st1 st2" "links_ok st2"
      have s2: "same_tree st st2" by (rule same_tree_trans[OF st1(1) st2(1)])
      have f2: "forest st2 ts" by (rule forest_same_tree[OF s2 f])
      have q2: "q \<in> dom st2" using q same_tree_dom[OF s2] by simp
      obtain qw2 where qw2: "get_w st2 q = Some qw2" "st2 q = Some qw2" using in_dom_get[OF f2 same_links_refl q2] by auto
      obtain w2 where w2: "st2 p = Some w2" "w_parent w2 = q" using here[OF s2] by blast
      have child: "p \<in> set (kids qw2)" by (rule parent_has_child[OF f2 w2 w(3) qw2(2)])
      let ?w' = "if w_key_target qw2 \<noteq> p then qw2\<lparr>w_key_target := p\<rparr> else qw2"
      have "same_tree st2 (st2(q \<mapsto> ?w'))" "links_ok (st2(q \<mapsto> ?w'))"
        by (rule links_upd[OF st2(2) qw2(2)]; use links_of[OF st2(2) qw2(2)] child in \<open>simp add: kids_def place_def\<close>)+
      then show "does_st st2 (upd_w q (\<lambda>qw. if w_key_target qw \<noteq> p then qw\<lparr>w_key_target := p\<rparr> else qw) st2)"
        using qw2(1) by (simp add: upd_w_def)
    qed
    then show "does_st st1 (Option.bind (get_w st1 q) (\<lambda>qw.
           Option.bind (if w_key_target qw \<noteq> NULL \<and> w_key_target qw \<noteq> p
                        then Option.bind (get_w st1 p) (\<lambda>w. Option.bind (get_w st1 (w_parent w)) (\<lambda>qw. take_focus app stages st1 (w_key_target qw)))
                        else Some st1) (\<lambda>st.
             upd_w q (\<lambda>qw. if w_key_target qw \<noteq> p then qw\<lparr>w_key_target := p\<rparr> else qw) st)))"
      unfolding qw1(1) w1(3) Option.bind.bind_lunit w1(2) .
  qed
  then show ?thesis using qw(1) by (simp add: key_target_one_def)
qed

lemma as_key_target_does:
  assumes app: "app_ok app"
  shows "chain st p ps \<Longrightarrow> forest st ts \<Longrightarrow> links_ok st \<Longrightarrow> does_st st (widget_set_as_key_target app stages st p)"
proof (induction ps arbitrary: st p)
  case Nil
  then show ?case by (simp add: widget_set_as_key_target.simps)
next
  case (Cons a qs)
  then obtain w where w: "p = a" "a \<noteq> NULL" "st a = Some w" "chain st (w_parent w) qs" by auto
  note f = Cons.prems(2) and l = Cons.prems(3)
  show ?case
  proof (cases "w_is_keyboard w \<or> w_parent w = NULL")
    case True
    then show ?thesis using w l by (subst widget_set_as_key_target.simps) (simp add: get_w_def)
  next
    case False
    have first: "does_st st (key_target_one app stages st p (w_parent w))"
      by (rule key_target_one_does[OF app f l]) (use w False in auto)
    have "does_st st (Option.bind (key_target_one app stages st p (w_parent w)) (\<lambda>st'.
          Option.bind (widget_set_as_key_target app stages st' (w_parent w)) (\<lambda>st.
            Option.bind (get_w st p) (\<lambda>w.
              if \<not> w_focused w then ignore_ret (widget_set_need_update_style app st p) else Some st))))"
    proof (rule does_st_bind[OF first], rule does_st_bind)
      fix st1 assume st1: "same_tree st st1" "links_ok st1"
      show "does_st st1 (widget_set_as_key_target app stages st1 (w_parent w))"
        by (rule Cons.IH[OF chain_same_tree[OF st1(1) w(4)] forest_same_tree[OF st1(1) f] st1(2)])
    next
      fix st1 st2 assume st12: "same_tree st st1" "links_ok st1" "same_tree st1 st2" "links_ok st2"
      have s2: "same_tree st st2" by (rule same_tree_trans[OF st12(1,3)])
      have f2: "forest st2 ts" by (rule forest_same_tree[OF s2 f])
      have p2: "p \<in> dom st2" using w same_tree_dom[OF s2] by auto
      obtain w2 where w2: "get_w st2 p = Some w2" by (rule in_dom_get[OF f2 same_links_refl p2])
      have "does_st st2 (ignore_ret (widget_set_need_update_style app st2 p))"
        using keeps_does[OF st12(4) need_update_style_keeps[OF app f2 p2]] by simp
      then show "does_st st2 (Option.bind (get_w st2 p) (\<lambda>w. if \<not> w_focused w then ignore_ret (widget_set_need_update_style app st2 p) else Some st2))"
        unfolding w2 Option.bind.bind_lunit using st12(4) by simp
    qed
    then show ?thesis using w False by (subst widget_set_as_key_target.simps) (simp add: get_w_def)
  qed
qed

lemma set_focused_internal_does:
  assumes app: "app_ok app" and f: "forest st ts" and p: "p \<in> dom st" and l: "links_ok st"
  shows "does st (widget_set_focused_internal app stages st p b)"
  unfolding widget_set_focused_internal_def
proof (rule set_focused_with_does[OF app f p l])
  fix st1 assume st1: "same_tree st st1" "links_ok st1"
  have f1: "forest st1 ts" by (rule forest_same_tree[OF st1(1) f])
  obtain ps where "chain st1 p ps" using forest_chain[OF f1, of p] p same_tree_dom[OF st1(1)] by auto
  then show "does_st st1 (widget_set_as_key_target app stages st1 p)" by (rule as_key_target_does[OF app _ f1 st1(2)])
qed

lemma set_focused_does:
  assumes app: "app_ok app" and f: "forest st ts" and p: "p \<in> dom st" and l: "links_ok st"
  shows "does st (widget_set_focused app stages st p b)"
proof -
  obtain r st1 where st1: "widget_set_focused_internal app stages st p b = Some (r, st1)" "same_tree st st1" "links_ok st1"
    using set_focused_internal_does[OF assms, of stages b] unfolding does_def by blast
  have same: "same_links st1 (call app (Ensure_visible_in_viewport p) st1)" by (rule call_same[OF app])
  show ?thesis using st1 same_tree_trans[OF st1(2) same_links_tree[OF same]] links_ok_same[OF same st1(3)] forest_nonnull[OF f p]
    by (simp add: widget_set_focused_def)
qed

end
