(* ===== verification/WidgetForest.thy ===== *)
theory WidgetForest
  imports WidgetOps
begin

text \<open>
  The forest of widgets seen from each widget: parents and children agree, every walk to the root ends
  (\<open>wf_tree\<close>). This is the same as being a forest (\<open>forest_wf\<close>, \<open>wf_forest\<close>), and is what an operation
  that moves one widget is checked against: a root attached under a widget that is not below it
  (\<open>wf_attach\<close>), a child detached with everything below it (\<open>wf_detach\<close>).
\<close>

section \<open>A forest, widget by widget\<close>

text \<open>The same fact about every widget of the heap, without the trees.\<close>

definition wf_tree :: "wtree \<Rightarrow> bool" where
  "wf_tree st \<longleftrightarrow> finite (dom st) \<and> NULL \<notin> dom st \<and>
     (\<forall>p w. st p = Some w \<longrightarrow> distinct (kids w) \<and> (\<forall>c \<in> set (kids w). \<exists>cw. st c = Some cw \<and> w_parent cw = p)) \<and>
     (\<forall>p w. st p = Some w \<longrightarrow> w_parent w \<noteq> NULL \<longrightarrow> (\<exists>pw. st (w_parent w) = Some pw \<and> p \<in> set (kids pw))) \<and>
     (\<forall>p \<in> dom st. \<exists>ps. chain st p ps)"

lemma wf_treeD:
  assumes "wf_tree st"
  shows "finite (dom st)" and "NULL \<notin> dom st"
    and "\<And>p w. st p = Some w \<Longrightarrow> distinct (kids w)"
    and "\<And>p w c. st p = Some w \<Longrightarrow> c \<in> set (kids w) \<Longrightarrow> \<exists>cw. st c = Some cw \<and> w_parent cw = p"
    and "\<And>p w. st p = Some w \<Longrightarrow> w_parent w \<noteq> NULL \<Longrightarrow> \<exists>pw. st (w_parent w) = Some pw \<and> p \<in> set (kids pw)"
    and "\<And>p. p \<in> dom st \<Longrightarrow> \<exists>ps. chain st p ps"
  using assms unfolding wf_tree_def by blast+

lemma wf_treeI:
  assumes "finite (dom st)" and "NULL \<notin> dom st"
    and "\<And>p w. st p = Some w \<Longrightarrow> distinct (kids w)"
    and "\<And>p w c. st p = Some w \<Longrightarrow> c \<in> set (kids w) \<Longrightarrow> \<exists>cw. st c = Some cw \<and> w_parent cw = p"
    and "\<And>p w. st p = Some w \<Longrightarrow> w_parent w \<noteq> NULL \<Longrightarrow> \<exists>pw. st (w_parent w) = Some pw \<and> p \<in> set (kids pw)"
    and "\<And>p. p \<in> dom st \<Longrightarrow> \<exists>ps. chain st p ps"
  shows "wf_tree st"
  using assms unfolding wf_tree_def by blast

lemma distinct_roots: "distinct (concat (map nodes us)) \<Longrightarrow> distinct (map root us)"
proof (induction us)
  case (Cons u us)
  have "root u \<notin> set (map root us)"
  proof
    assume "root u \<in> set (map root us)"
    then obtain v where v: "v \<in> set us" "root v = root u" by auto
    then have "root u \<in> set (nodes v)" by (metis root_in_nodes)
    then have "root u \<in> set (nodes u) \<inter> set (concat (map nodes us))" using v(1) by auto
    then show False using Cons.prems by (simp only: list.map concat.simps distinct_append) blast
  qed
  then show ?case using Cons by auto
qed simp

lemma distinct_part: "distinct (concat xss) \<Longrightarrow> xs \<in> set xss \<Longrightarrow> distinct xs"
  by (induction xss) auto

lemma rep_kids_distinct:
  "rep st parent t \<Longrightarrow> distinct (nodes t) \<Longrightarrow> p \<in> set (nodes t) \<Longrightarrow> st p = Some w \<Longrightarrow> distinct (kids w)"
proof (induction t arbitrary: parent)
  case (Node q us)
  show ?case
  proof (cases "p = q")
    case True
    then have "kids w = map root us" using Node.prems(1,4) by auto
    then show ?thesis using distinct_roots Node.prems(2) by auto
  next
    case False
    then obtain u where u: "u \<in> set us" "p \<in> set (nodes u)" using Node.prems(3) by auto
    then have "distinct (nodes u)" using distinct_part[of "map nodes us" "nodes u"] Node.prems(2) by auto
    then show ?thesis using Node.IH[OF u(1) _ _ u(2)] Node.prems(1,4) u(1) by auto
  qed
qed

lemma forest_wf:
  assumes f: "forest st ts"
  shows "wf_tree st"
proof (rule wf_treeI)
  show "finite (dom st)" using f by (simp add: forest_def)
  show "NULL \<notin> dom st" using forest_nonnull[OF f] by blast
  show "\<exists>ps. chain st p ps" if "p \<in> dom st" for p using forest_chain[OF f that] by blast
  show "\<exists>cw. st c = Some cw \<and> w_parent cw = p" if "st p = Some w" "c \<in> set (kids w)" for p w c by (rule child_in_dom(2)[OF f that])
  show "\<exists>pw. st (w_parent w) = Some pw \<and> p \<in> set (kids pw)" if w: "st p = Some w" "w_parent w \<noteq> NULL" for p w
    using parent_in_dom[OF f w] parent_has_child[OF f w(1) refl w(2)] by blast
  show "distinct (kids w)" if w: "st p = Some w" for p w
  proof -
    obtain t where t: "t \<in> set ts" "p \<in> set (nodes t)" using w f by (auto simp: forest_def)
    then have "distinct (nodes t)" using distinct_part[of "map nodes ts" "nodes t"] f by (auto simp: forest_def)
    then show ?thesis using rep_kids_distinct[of st NULL t] f t w by (auto simp: forest_def)
  qed
qed

text \<open>The chain of a widget leads through the roots of the trees it is in, and siblings exclude each other.\<close>

lemma chain_siblings:
  assumes "chain st q ps" and "a \<in> set ps" and "b \<in> set ps" and "w_parent (the (st a)) = w_parent (the (st b))"
  shows "a = b"
proof -
  obtain xs ys where a: "ps = xs @ a # ys" using assms(2) by (meson split_list)
  obtain us vs where b: "ps = us @ b # vs" using assms(3) by (meson split_list)
  have "chain st (w_parent (the (st a))) ys" "chain st (w_parent (the (st b))) vs"
    using chain_suffix[of st q xs a ys] chain_suffix[of st q us b vs] assms(1) a b by auto
  then have "ys = vs" using chain_unique assms(4) by metis
  then show ?thesis using a b by (metis append_eq_append_conv length_Cons list.inject append_Cons same_append_eq append_same_eq butlast_append butlast_snoc append_assoc last_snoc)
qed

lemma rep_parent: "rep st parent t \<Longrightarrow> w_parent (the (st (root t))) = parent"
  by (cases t) auto

lemma rep_chain_root:
  "rep st parent t \<Longrightarrow> chain st parent qs \<Longrightarrow> q \<in> set (nodes t) \<Longrightarrow> \<exists>ps. chain st q ps \<and> root t \<in> set ps"
proof (induction t arbitrary: parent qs)
  case (Node p us)
  then obtain w where w: "p \<noteq> NULL" "st p = Some w" "w_parent w = parent" "\<forall>u \<in> set us. rep st p u" by auto
  have p: "chain st p (p # qs)" using w Node.prems(2) by simp
  show ?case
  proof (cases "q = p")
    case True
    then show ?thesis using p by (intro exI[of _ "p # qs"]) simp
  next
    case False
    then obtain u where u: "u \<in> set us" "q \<in> set (nodes u)" using Node.prems(3) by auto
    then obtain ps where ps: "chain st q ps" "root u \<in> set ps" using Node.IH[OF u(1) _ p u(2)] w(4) by blast
    obtain xs ys where split: "ps = xs @ root u # ys" using ps(2) by (meson split_list)
    then have "chain st (root u) (root u # ys)" using chain_suffix ps(1) by blast
    moreover have "w_parent (the (st (root u))) = p" using w(4) u(1) rep_parent by blast
    ultimately have "chain st p ys" by auto
    then have "p \<in> set ys" using w(1) by (cases ys) auto
    then show ?thesis using ps(1) split by auto
  qed
qed

lemma disjoint_trees:
  assumes "\<forall>u \<in> set us. rep st parent u \<and> distinct (nodes u)" and "chain st parent qs" and "distinct (map root us)"
  shows "distinct (concat (map nodes us))"
  using assms(1,3)
proof (induction us)
  case (Cons u us)
  have "set (nodes u) \<inter> set (nodes v) = {}" if v: "v \<in> set us" for v
  proof (rule ccontr)
    assume "set (nodes u) \<inter> set (nodes v) \<noteq> {}"
    then obtain q where q: "q \<in> set (nodes u)" "q \<in> set (nodes v)" by blast
    have rs: "rep st parent u" "rep st parent v" using Cons.prems(1) v by auto
    obtain ps ps' where ps: "chain st q ps" "root u \<in> set ps" "chain st q ps'" "root v \<in> set ps'"
      using rep_chain_root[OF rs(1) assms(2) q(1)] rep_chain_root[OF rs(2) assms(2) q(2)] by blast
    have "ps = ps'" by (rule chain_unique[OF ps(1,3)])
    then have "root u = root v" using chain_siblings[OF ps(1,2)] ps(4) rep_parent[OF rs(1)] rep_parent[OF rs(2)] by simp
    then show False using Cons.prems(2) v by auto
  qed
  then show ?case using Cons by auto
qed simp

lemma wf_tree_at:
  assumes wf: "wf_tree st"
  shows "chain st p ps \<Longrightarrow> ps \<noteq> [] \<Longrightarrow> card (dom st) < length ps + n \<Longrightarrow>
    \<exists>t. root t = p \<and> rep st (w_parent (the (st p))) t \<and> distinct (nodes t)"
proof (induction n arbitrary: p ps)
  case 0
  have "set ps \<subseteq> dom st" using chain_dom[OF 0(1)] by blast
  then have "card (set ps) \<le> card (dom st)" by (rule card_mono[OF wf_treeD(1)[OF wf]])
  then show ?case using 0 distinct_card[OF chain_distinct[OF 0(1)]] by simp
next
  case (Suc n)
  obtain qs w where w: "ps = p # qs" "p \<noteq> NULL" "st p = Some w" "chain st (w_parent w) qs"
    using Suc.prems(1,2) by (cases ps) auto
  have "\<exists>t. root t = c \<and> rep st p t \<and> distinct (nodes t)" if c: "c \<in> set (kids w)" for c
  proof -
    obtain cw where cw: "st c = Some cw" "w_parent cw = p" using wf_treeD(4)[OF wf w(3) c] by blast
    then have "chain st c (c # ps)" using wf_treeD(2)[OF wf] Suc.prems(1) by auto
    then show ?thesis using Suc.IH[of c "c # ps"] Suc.prems(3) cw by auto
  qed
  then obtain T where T: "\<forall>c \<in> set (kids w). root (T c) = c \<and> rep st p (T c) \<and> distinct (nodes (T c))" by metis
  let ?us = "map T (kids w)"
  have us: "map root ?us = kids w" using T by (simp add: map_idI)
  have r: "rep st (w_parent w) (Node p ?us)" using T us w by auto
  have "distinct (concat (map nodes ?us))"
    by (rule disjoint_trees[OF _ Suc.prems(1)]) (use T us wf_treeD(3)[OF wf w(3)] in auto)
  moreover have "p \<notin> set (nodes (T c))" if c: "c \<in> set (kids w)" for c
  proof
    assume "p \<in> set (nodes (T c))"
    then obtain ps' where ps': "chain st p ps'" "c \<in> set ps'" using rep_chain_root[of st p "T c" ps p] T c Suc.prems(1) by auto
    obtain cw where cw: "st c = Some cw" "w_parent cw = p" using wf_treeD(4)[OF wf w(3) c] by blast
    then have "chain st c (c # ps)" using wf_treeD(2)[OF wf] Suc.prems(1) by auto
    then have "c \<notin> set ps" using chain_distinct by fastforce
    then show False using ps' chain_unique[OF Suc.prems(1) ps'(1)] by simp
  qed
  ultimately show ?case using r w by (intro exI[of _ "Node p ?us"]) auto
qed

lemma rep_closed:
  "rep st parent t \<Longrightarrow> q \<in> set (nodes t) \<Longrightarrow> st q = Some w \<Longrightarrow> c \<in> set (kids w) \<Longrightarrow> c \<in> set (nodes t)"
proof (induction t arbitrary: parent)
  case (Node p us)
  show ?case
  proof (cases "q = p")
    case True
    then obtain u where "u \<in> set us" "c = root u" using Node.prems by auto
    then show ?thesis using root_in_nodes[of u] by fastforce
  next
    case False
    then obtain u where "u \<in> set us" "q \<in> set (nodes u)" using Node.prems(2) by auto
    then show ?thesis using Node.IH Node.prems by auto
  qed
qed

lemma chain_in_tree:
  assumes wf: "wf_tree st" and r: "rep st parent t"
  shows "chain st q ps \<Longrightarrow> root t \<in> set ps \<Longrightarrow> q \<in> set (nodes t)"
proof (induction ps arbitrary: q)
  case (Cons a qs)
  then obtain w where w: "q = a" "st q = Some w" "chain st (w_parent w) qs" by auto
  show ?case
  proof (cases "q = root t")
    case False
    then have r': "root t \<in> set qs" using Cons.prems w by auto
    then have "w_parent w \<noteq> NULL" using w(3) by (cases qs) auto
    then obtain pw where "st (w_parent w) = Some pw" "q \<in> set (kids pw)" using wf_treeD(5)[OF wf w(2)] by blast
    then show ?thesis using rep_closed[OF r Cons.IH[OF w(3) r']] by blast
  qed simp
qed simp

lemma chain_last_root: "chain st p ps \<Longrightarrow> ps \<noteq> [] \<Longrightarrow> last ps \<in> dom st \<and> w_parent (the (st (last ps))) = NULL"
proof (induction ps arbitrary: p)
  case (Cons q qs)
  then show ?case by (cases qs) auto
qed simp

lemma wf_forest:
  assumes wf: "wf_tree st"
  shows "\<exists>ts. forest st ts"
proof -
  let ?R = "{p \<in> dom st. w_parent (the (st p)) = NULL}"
  have "\<exists>t. root t = p \<and> rep st NULL t \<and> distinct (nodes t)" if p: "p \<in> ?R" for p
  proof -
    obtain w where w: "st p = Some w" "w_parent w = NULL" using p by auto
    then have "chain st p [p]" using wf_treeD(2)[OF wf] by auto
    then show ?thesis using wf_tree_at[OF wf, of p "[p]" "card (dom st)"] w by auto
  qed
  then obtain T where T: "\<forall>p \<in> ?R. root (T p) = p \<and> rep st NULL (T p) \<and> distinct (nodes (T p))" by metis
  obtain rs where rs: "set rs = ?R" "distinct rs" using finite_distinct_list[of ?R] wf_treeD(1)[OF wf] by auto
  let ?ts = "map T rs"
  have "map root ?ts = map (\<lambda>p. p) rs" unfolding map_map using T rs(1) by (intro map_cong) auto
  then have roots: "map root ?ts = rs" by simp
  have "distinct (concat (map nodes ?ts))" by (rule disjoint_trees[of _ st NULL "[]"]) (use T rs roots in auto)
  moreover have "q \<in> set (concat (map nodes ?ts))" if q: "q \<in> dom st" for q
  proof -
    obtain ps where ps: "chain st q ps" using wf_treeD(6)[OF wf q] by blast
    then have ne: "ps \<noteq> []" using q wf_treeD(2)[OF wf] by auto
    have "last ps \<in> ?R" using chain_last_root[OF ps ne] by auto
    then have "q \<in> set (nodes (T (last ps)))" "last ps \<in> set rs" using chain_in_tree[OF wf _ ps] T ne rs(1) by auto
    then show ?thesis by auto
  qed
  moreover have "q \<in> dom st" if q: "q \<in> set (concat (map nodes ?ts))" for q
  proof -
    obtain p where p: "p \<in> set rs" "q \<in> set (nodes (T p))" using q by auto
    then have "p \<in> ?R" using rs(1) by (simp only:)
    then have "rep st NULL (T p)" using T by blast
    then show ?thesis using rep_nonnull p(2) by blast
  qed
  moreover have "\<forall>t \<in> set ?ts. rep st NULL t" using T rs(1) by simp
  ultimately show ?thesis unfolding forest_def by blast
qed


section \<open>Attaching and detaching\<close>

lemma chain_same_parents:
  assumes "\<And>q. q \<in> set ps \<Longrightarrow> map_option w_parent (st' q) = map_option w_parent (st q)" and "chain st p ps"
  shows "chain st' p ps"
  using assms
proof (induction ps arbitrary: p)
  case (Cons q qs)
  then obtain w where w: "p = q" "q \<noteq> NULL" "st q = Some w" "chain st (w_parent w) qs" by auto
  obtain w' where "st' q = Some w'" "w_parent w' = w_parent w" using Cons.prems(1)[of q] w(3) by auto
  then show ?case using w Cons.IH[OF Cons.prems(1) w(4)] by auto
qed simp

lemma chain_append:
  assumes "chain st p (qs @ [c])" and "\<And>q. q \<in> set qs \<Longrightarrow> map_option w_parent (st' q) = map_option w_parent (st q)" and "chain st' c rs"
  shows "chain st' p (qs @ rs)"
  using assms(1,2)
proof (induction qs arbitrary: p)
  case Nil
  then show ?case using assms(3) by auto
next
  case (Cons q qs)
  then obtain w where w: "p = q" "q \<noteq> NULL" "st q = Some w" "chain st (w_parent w) (qs @ [c])" by auto
  obtain w' where "st' q = Some w'" "w_parent w' = w_parent w" using Cons.prems(2)[of q] w(3) by auto
  then show ?case using w Cons.IH[OF w(4)] Cons.prems(2) by auto
qed

text \<open>An update of the children of \<open>p\<close> and the parent of \<open>c\<close>.\<close>

lemma upd_pair:
  assumes "p \<noteq> c" and "st' p = Some pw'" and "st' c = Some cw'" and "\<And>q. q \<noteq> p \<Longrightarrow> q \<noteq> c \<Longrightarrow> st' q = st q"
    and "st p = Some pw" and "st c = Some cw" and "w_parent pw' = w_parent pw" and "kids cw' = kids cw" and "w_parent cw' = np" and "kids pw' = ks"
  shows "st' q = Some w \<Longrightarrow> \<exists>ow. st q = Some ow \<and> w_parent w = (if q = c then np else w_parent ow) \<and> kids w = (if q = p then ks else kids ow)"
    and "st q = Some ow \<Longrightarrow> \<exists>w. st' q = Some w \<and> w_parent w = (if q = c then np else w_parent ow) \<and> kids w = (if q = p then ks else kids ow)"
proof -
  consider "q = p" | "q = c" | "q \<noteq> p" "q \<noteq> c" by blast
  then show "st' q = Some w \<Longrightarrow> \<exists>ow. st q = Some ow \<and> w_parent w = (if q = c then np else w_parent ow) \<and> kids w = (if q = p then ks else kids ow)"
  proof cases
    case 1
    then show "st' q = Some w \<Longrightarrow> ?thesis" using assms(1,2,5,7,10) by simp
  next
    case 2
    then show "st' q = Some w \<Longrightarrow> ?thesis" using assms(1,3,6,8,9) by simp
  next
    case 3
    then show "st' q = Some w \<Longrightarrow> ?thesis" using assms(4)[OF 3] by simp
  qed
  consider "q = p" | "q = c" | "q \<noteq> p" "q \<noteq> c" by blast
  then show "st q = Some ow \<Longrightarrow> \<exists>w. st' q = Some w \<and> w_parent w = (if q = c then np else w_parent ow) \<and> kids w = (if q = p then ks else kids ow)"
  proof cases
    case 1
    then show "st q = Some ow \<Longrightarrow> ?thesis" using assms(1,2,5,7,10) by simp
  next
    case 2
    then show "st q = Some ow \<Longrightarrow> ?thesis" using assms(1,3,6,8,9) by simp
  next
    case 3
    then show "st q = Some ow \<Longrightarrow> ?thesis" using assms(4)[OF 3] by simp
  qed
qed

text \<open>A root is attached under a widget that is not below it.\<close>

definition attach :: "ptr \<Rightarrow> ptr \<Rightarrow> ptr list \<Rightarrow> wtree \<Rightarrow> wtree" where
  "attach p c cs st = st(c \<mapsto> (the (st c))\<lparr>w_parent := p\<rparr>, p \<mapsto> (the (st p))\<lparr>w_children := Some cs\<rparr>)"

lemma wf_attach:
  assumes wf: "wf_tree st" and c: "st c = Some cw" "w_parent cw = NULL" and p: "st p = Some pw" "chain st p ps" "c \<notin> set ps"
    and cs: "set cs = insert c (set (kids pw))" "distinct cs"
  shows "wf_tree (attach p c cs st)"
proof -
  let ?st = "attach p c cs st"
  have pc: "p \<noteq> c" using p c wf_treeD(2)[OF wf] by (cases ps) auto
  have at: "?st p = Some (pw\<lparr>w_children := Some cs\<rparr>)" "?st c = Some (cw\<lparr>w_parent := p\<rparr>)" "\<And>q. q \<noteq> p \<Longrightarrow> q \<noteq> c \<Longrightarrow> ?st q = st q"
    using pc c p by (simp_all add: attach_def)
  have dom: "dom ?st = dom st" using c p by (auto simp: attach_def)
  have par: "map_option w_parent (?st q) = map_option w_parent (st q)" if "q \<noteq> c" for q
    using that at(1,3) p(1) by (cases "q = p") auto
  have old: "\<exists>ow. st q = Some ow \<and> w_parent w = (if q = c then p else w_parent ow) \<and> kids w = (if q = p then cs else kids ow)"
    if "?st q = Some w" for q w
    by (rule upd_pair(1)[OF pc at p(1) c(1) _ _ _ _ that]) (simp_all add: kids_def)
  have new: "\<exists>w. ?st q = Some w \<and> w_parent w = (if q = c then p else w_parent ow) \<and> kids w = (if q = p then cs else kids ow)"
    if "st q = Some ow" for q ow
    by (rule upd_pair(2)[OF pc at p(1) c(1) _ _ _ _ that]) (simp_all add: kids_def)
  show ?thesis
  proof (rule wf_treeI)
    show "finite (dom ?st)" "NULL \<notin> dom ?st" using wf_treeD(1,2)[OF wf] dom by auto
    show "distinct (kids w)" if "?st q = Some w" for q w
      using old[OF that] wf_treeD(3)[OF wf] cs(2) by auto
    show "\<exists>dw. ?st d = Some dw \<and> w_parent dw = q" if q: "?st q = Some w" "d \<in> set (kids w)" for q w d
    proof -
      obtain ow where ow: "st q = Some ow" "kids w = (if q = p then cs else kids ow)" using old[OF q(1)] by auto
      show ?thesis
      proof (cases "q = p \<and> d = c")
        case True
        then show ?thesis using at(2) by simp
      next
        case False
        then have d: "d \<in> set (kids ow)" using q(2) ow cs(1) p(1) by (auto split: if_splits)
        then obtain dw where dw: "st d = Some dw" "w_parent dw = q" using wf_treeD(4)[OF wf ow(1)] by blast
        then have "d \<noteq> c" using c(1,2) wf_treeD(2)[OF wf] ow(1) by auto
        then show ?thesis using new[OF dw(1)] dw(2) by auto
      qed
    qed
    show "\<exists>qw. ?st (w_parent w) = Some qw \<and> q \<in> set (kids qw)" if q: "?st q = Some w" "w_parent w \<noteq> NULL" for q w
    proof -
      obtain ow where ow: "st q = Some ow" "w_parent w = (if q = c then p else w_parent ow)" using old[OF q(1)] by auto
      show ?thesis
      proof (cases "q = c")
        case True
        then show ?thesis using ow at(1) cs(1) by (auto simp: kids_def)
      next
        case False
        then obtain qw where qw: "st (w_parent w) = Some qw" "q \<in> set (kids qw)" using wf_treeD(5)[OF wf ow(1)] ow(2) q(2) by auto
        then show ?thesis using new[OF qw(1)] cs(1) p(1) by auto
      qed
    qed
    have pchain: "chain ?st p ps" by (rule chain_same_parents[OF par p(2)]) (use p(3) in auto)
    then have cchain: "chain ?st c (c # ps)" using at(2) c(1) wf_treeD(2)[OF wf] by auto
    show "\<exists>qs. chain ?st q qs" if "q \<in> dom ?st" for q
    proof -
      obtain qs where qs: "chain st q qs" using wf_treeD(6)[OF wf] \<open>q \<in> dom ?st\<close> dom by blast
      show ?thesis
      proof (cases "c \<in> set qs")
        case False
        then have "chain ?st q qs" by (intro chain_same_parents[OF par qs]) auto
        then show ?thesis by blast
      next
        case True
        then obtain xs ys where xs: "qs = xs @ c # ys" "c \<notin> set xs" by (meson split_list_first)
        then have "chain st c (c # ys)" using qs chain_suffix by blast
        then have "ys = []" using c by (cases ys) auto
        then have "chain st q (xs @ [c])" using qs xs(1) by simp
        from chain_append[OF this par cchain] show ?thesis using xs(2) by auto
      qed
    qed
  qed
qed

text \<open>A child is taken out, with everything below.\<close>

definition detach :: "ptr \<Rightarrow> ptr \<Rightarrow> wtree \<Rightarrow> wtree" where
  "detach p c st =
     (let w = the (st p)
      in st(c \<mapsto> (the (st c))\<lparr>w_parent := NULL\<rparr>,
            p \<mapsto> w\<lparr>w_children := Some (remove1 c (kids w)), w_target := (if w_target w = c then NULL else w_target w),
                     w_grab_widget := (if w_grab_widget w = c then NULL else w_grab_widget w)\<rparr>))"

lemma wf_detach:
  assumes wf: "wf_tree st" and c: "st c = Some cw" "w_parent cw = p" and p: "st p = Some pw"
  shows "wf_tree (detach p c st)"
proof -
  let ?st = "detach p c st" and ?cs = "remove1 c (kids pw)"
  obtain qs where qs: "chain st c qs" using wf_treeD(6)[OF wf, of c] c(1) by auto
  then obtain rs where rs: "qs = c # rs" "chain st p rs" using c wf_treeD(2)[OF wf] by (cases qs) auto
  then obtain rs' where "rs = p # rs'" using p wf_treeD(2)[OF wf] by (cases rs) auto
  then have pc: "p \<noteq> c" using chain_distinct[OF qs] rs(1) by auto
  have at: "?st p = Some (pw\<lparr>w_children := Some ?cs, w_target := (if w_target pw = c then NULL else w_target pw),
      w_grab_widget := (if w_grab_widget pw = c then NULL else w_grab_widget pw)\<rparr>)" "?st c = Some (cw\<lparr>w_parent := NULL\<rparr>)" "\<And>q. q \<noteq> p \<Longrightarrow> q \<noteq> c \<Longrightarrow> ?st q = st q"
    using pc c p by (simp_all add: detach_def Let_def)
  have dom: "dom ?st = dom st" using c p by (auto simp: detach_def Let_def)
  have par: "map_option w_parent (?st q) = map_option w_parent (st q)" if "q \<noteq> c" for q
    using that at(1,3) p by (cases "q = p") auto
  have old: "\<exists>ow. st q = Some ow \<and> w_parent w = (if q = c then NULL else w_parent ow) \<and> kids w = (if q = p then ?cs else kids ow)"
    if "?st q = Some w" for q w
    by (rule upd_pair(1)[OF pc at p c(1) _ _ _ _ that]) (simp_all add: kids_def)
  have new: "\<exists>w. ?st q = Some w \<and> w_parent w = (if q = c then NULL else w_parent ow) \<and> kids w = (if q = p then ?cs else kids ow)"
    if "st q = Some ow" for q ow
    by (rule upd_pair(2)[OF pc at p c(1) _ _ _ _ that]) (simp_all add: kids_def)
  have cs: "set ?cs = set (kids pw) - {c}" "distinct ?cs" using wf_treeD(3)[OF wf p] by auto
  show ?thesis
  proof (rule wf_treeI)
    show "finite (dom ?st)" "NULL \<notin> dom ?st" using wf_treeD(1,2)[OF wf] dom by auto
    show "distinct (kids w)" if "?st q = Some w" for q w
      using old[OF that] wf_treeD(3)[OF wf] cs(2) by auto
    show "\<exists>dw. ?st d = Some dw \<and> w_parent dw = q" if q: "?st q = Some w" "d \<in> set (kids w)" for q w d
    proof -
      obtain ow where ow: "st q = Some ow" "kids w = (if q = p then ?cs else kids ow)" using old[OF q(1)] by auto
      then have d: "d \<in> set (kids ow)" "q = p \<longrightarrow> d \<noteq> c" using q(2) cs(1) p by (auto split: if_splits)
      then obtain dw where dw: "st d = Some dw" "w_parent dw = q" using wf_treeD(4)[OF wf ow(1)] by blast
      then have "d \<noteq> c" using d(2) c by auto
      then show ?thesis using new[OF dw(1)] dw(2) by auto
    qed
    show "\<exists>qw. ?st (w_parent w) = Some qw \<and> q \<in> set (kids qw)" if q: "?st q = Some w" "w_parent w \<noteq> NULL" for q w
    proof -
      obtain ow where ow: "st q = Some ow" "w_parent w = w_parent ow" "q \<noteq> c" using old[OF q(1)] q(2) by (auto split: if_splits)
      then obtain qw where qw: "st (w_parent w) = Some qw" "q \<in> set (kids qw)" using wf_treeD(5)[OF wf ow(1)] q(2) by auto
      then show ?thesis using new[OF qw(1)] cs(1) p ow(3) by auto
    qed
    have cchain: "chain ?st c [c]" using at(2) c(1) wf_treeD(2)[OF wf] by auto
    show "\<exists>qs. chain ?st q qs" if "q \<in> dom ?st" for q
    proof -
      obtain qs where qs: "chain st q qs" using wf_treeD(6)[OF wf] \<open>q \<in> dom ?st\<close> dom by blast
      show ?thesis
      proof (cases "c \<in> set qs")
        case False
        then have "chain ?st q qs" by (intro chain_same_parents[OF par qs]) auto
        then show ?thesis by blast
      next
        case True
        then obtain xs ys where xs: "qs = xs @ c # ys" "c \<notin> set xs" by (meson split_list_first)
        have "chain ?st q (xs @ [c])"
          using qs xs(2) unfolding xs(1)
        proof (induction xs arbitrary: q)
          case Nil
          then show ?case using cchain by auto
        next
          case (Cons a xs)
          then obtain aw where aw: "q = a" "a \<noteq> NULL" "st a = Some aw" "chain st (w_parent aw) (xs @ c # ys)" by auto
          then have "chain ?st (w_parent aw) (xs @ [c])" using Cons.IH[OF aw(4)] Cons.prems(2) by simp
          then show ?case using aw new[OF aw(3)] Cons.prems(2) by auto
        qed
        then show ?thesis by blast
      qed
    qed
  qed
qed

end
