(* ===== verification/WidgetSteps.thy ===== *)
theory WidgetSteps
  imports WidgetForest
begin

text \<open>
  The operations on the tree of widgets as steps of a machine: \<open>run_op\<close> runs one, \<open>allowed\<close> is what the
  caller keeps to, \<open>tree_reach\<close> the trees that are reached from no widgets at all.

  Shown: no sequence of operations breaks the forest or leaves a widget with a link to one that is not
  its child, and none reads through NULL or runs forever; where an inserted, restacked or removed child
  ends up. Handlers and the vtables of widget classes leave the tree alone (\<open>app_plain\<close>), and a class has
  no \<open>on_add_child\<close> or \<open>on_remove_child\<close> of its own that takes over.
\<close>

section \<open>What the operations do to the tree\<close>

lemma wf_same_tree: "wf_tree st \<Longrightarrow> same_tree st st' \<Longrightarrow> wf_tree st'"
  using wf_forest forest_wf forest_same_tree by blast

text \<open>What an operation returns, up to the fields that are no part of the tree.\<close>

definition becomes :: "wtree \<Rightarrow> (ret_t \<times> wtree) option \<Rightarrow> bool" where
  "becomes st m \<longleftrightarrow> (\<exists>st'. m = Some (RET_OK, st') \<and> same_tree st st' \<and> links_ok st')"

definition app_plain :: "app \<Rightarrow> bool" where
  "app_plain app \<longleftrightarrow> app_ok app \<and> (\<forall>st p c. fst (app (On_add_child p c) st) \<noteq> RET_OK \<and> fst (app (On_remove_child p c) st) \<noteq> RET_OK)"

lemma becomes_bind:
  assumes "does_st st m" and "\<And>st'. same_tree st st' \<Longrightarrow> links_ok st' \<Longrightarrow> becomes st' (f st')"
  shows "becomes st (Option.bind m f)"
  using assms same_tree_trans by (fastforce simp: does_st_def becomes_def)

lemma does_st_same: "links_ok st \<Longrightarrow> does_st st (Some st)"
  by simp

lemma added_child_does:
  assumes app: "app_ok app" and f: "forest st ts" and l: "links_ok st" and p: "p \<in> dom st" and c: "c \<in> dom st"
  shows "becomes st (Option.bind (get_w st p) (\<lambda>w.
    Option.bind (if \<not> w_is_window_manager w then ignore_ret (widget_set_need_relayout_children st p) else Some st) (\<lambda>st.
      Option.bind (get_w st c) (\<lambda>cw.
        Option.bind (if w_initializing cw then Some NULL else widget_get_window st c) (\<lambda>win.
          Option.bind (if win \<noteq> NULL
                       then map_option (call app (Update_style_object_recursive c)) (ignore_ret (widget_set_need_update_style_recursive app st c))
                       else Some st) (\<lambda>st.
            Some (RET_OK, call app (Dispatch p EVT_WIDGET_ADD_CHILD) st)))))))"
proof -
  obtain w where w: "get_w st p = Some w" by (rule in_dom_get[OF f same_links_refl p])
  have first: "does_st st (if \<not> w_is_window_manager w then ignore_ret (widget_set_need_relayout_children st p) else Some st)"
    using keeps_does[OF l need_relayout_keeps[OF f p]] l by simp
  show ?thesis unfolding w Option.bind.bind_lunit
  proof (rule becomes_bind[OF first])
    fix st1 assume st1: "same_tree st st1" "links_ok st1"
    have f1: "forest st1 ts" by (rule forest_same_tree[OF st1(1) f])
    have c1: "c \<in> dom st1" using c same_tree_dom[OF st1(1)] by simp
    obtain cw where cw: "get_w st1 c = Some cw" by (rule in_dom_get[OF f1 same_links_refl c1])
    obtain win where win: "(if w_initializing cw then Some NULL else widget_get_window st1 c) = Some win"
      using walk_up[OF f1 same_links_refl, of c "\<lambda>p w. w_is_window w"] c1 unfolding widget_get_window_def by (cases "w_initializing cw") auto
    obtain r st2 where st2: "widget_set_need_update_style_recursive app st1 c = Some (r, st2)" "same_links st1 st2"
      using need_update_style_recursive_keeps[OF app f1 c1] unfolding keeps_def by blast
    have "same_links st1 (call app (Update_style_object_recursive c) st2)" by (rule same_links_trans[OF st2(2) call_same[OF app]])
    then have "keeps_st st1 (if win \<noteq> NULL
        then map_option (call app (Update_style_object_recursive c)) (ignore_ret (widget_set_need_update_style_recursive app st1 c)) else Some st1)"
      using st2(1) by (simp add: ignore_ret_def)
    then have second: "does_st st1 (if win \<noteq> NULL
        then map_option (call app (Update_style_object_recursive c)) (ignore_ret (widget_set_need_update_style_recursive app st1 c)) else Some st1)"
      by (rule keeps_does_st[OF st1(2)])
    show "becomes st1 (Option.bind (get_w st1 c) (\<lambda>cw.
        Option.bind (if w_initializing cw then Some NULL else widget_get_window st1 c) (\<lambda>win.
          Option.bind (if win \<noteq> NULL
                       then map_option (call app (Update_style_object_recursive c)) (ignore_ret (widget_set_need_update_style_recursive app st1 c))
                       else Some st1) (\<lambda>st.
            Some (RET_OK, call app (Dispatch p EVT_WIDGET_ADD_CHILD) st)))))"
      unfolding cw win Option.bind.bind_lunit
    proof (rule becomes_bind[OF second])
      fix st3 assume st3: "same_tree st1 st3" "links_ok st3"
      have "same_links st3 (call app (Dispatch p EVT_WIDGET_ADD_CHILD) st3)" by (rule call_same[OF app])
      then show "becomes st3 (Some (RET_OK, call app (Dispatch p EVT_WIDGET_ADD_CHILD) st3))"
        using same_links_tree links_ok_same[OF _ st3(2)] by (auto simp: becomes_def)
    qed
  qed
qed

lemma same_links_kids: "same_links st st' \<Longrightarrow> st p = Some w \<Longrightarrow> \<exists>w'. st' p = Some w' \<and> w_parent w' = w_parent w \<and> kids w' = kids w \<and>
    w_target w' = w_target w \<and> w_grab_widget w' = w_grab_widget w \<and> w_key_target w' = w_key_target w"
  using same_links_get[of st st' p w] by (auto simp: link_def kids_def)

lemma links_set_parent: "links_ok st \<Longrightarrow> st c = Some cw \<Longrightarrow> links_ok (st(c \<mapsto> cw\<lparr>w_parent := p\<rparr>))"
  by (auto simp: links_ok_def kids_def)

lemma add_child_default_does:
  assumes app: "app_ok app" and f: "forest st ts" and l: "links_ok st"
    and c: "st c = Some cw" "w_parent cw = NULL" and p: "st p = Some pw" "chain st p ps" "c \<notin> set ps"
  shows "becomes (attach p c (kids pw @ [c]) st) (widget_add_child_default app st p c)"
proof -
  have nn: "p \<noteq> NULL" "c \<noteq> NULL" using forest_nonnull[OF f] c p by auto
  have pc: "p \<noteq> c" using p nn by (cases ps) auto
  let ?a = "st(c \<mapsto> cw\<lparr>w_parent := p\<rparr>)" and ?st = "attach p c (kids pw @ [c]) st"
  let ?b = "call app (On_attach_parent c p) ?a"
  have ab: "same_links ?a ?b" by (rule call_same[OF app])
  have lb: "links_ok ?b" by (rule links_ok_same[OF ab links_set_parent[OF l c(1)]])
  obtain pb where pb: "?b p = Some pb" "place pb = place pw" "kids pb = kids pw"
    using same_links_kids[OF ab, of p pw] p(1) pc by (auto simp: place_def)
  let ?d = "?b(p \<mapsto> pb\<lparr>w_children := Some (kids pb @ [c])\<rparr>)"
  have same: "same_tree ?st ?d" unfolding same_tree_def
  proof
    fix q
    have q: "map_option place (?b q) = map_option place (?a q)"
      using same_links_tree[OF ab] by (simp add: same_tree_def)
    show "map_option place (?d q) = map_option place (?st q)"
    proof (cases "q = p")
      case True
      then show ?thesis using pb pc p(1) by (simp add: attach_def kids_def place_def)
    next
      case False
      then show ?thesis using q c(1) by (simp add: attach_def place_def)
    qed
  qed
  have ld: "links_ok ?d"
    unfolding links_ok_def
  proof (intro allI impI)
    fix q w assume q: "?d q = Some w"
    show "{w_target w, w_grab_widget w, w_key_target w} \<subseteq> insert NULL (set (kids w))"
    proof (cases "q = p")
      case True
      then have "w = pb\<lparr>w_children := Some (kids pb @ [c])\<rparr>" using q by simp
      then show ?thesis using links_of[OF lb pb(1)] by (auto simp: kids_def)
    next
      case False
      then show ?thesis using links_of[OF lb, of q w] q by simp
    qed
  qed
  have "c \<notin> set (kids pw)" using wf_treeD(4)[OF forest_wf[OF f] p(1), of c] c nn by auto
  then have wf: "wf_tree ?st" by (intro wf_attach[OF forest_wf[OF f] c p]) (use wf_treeD(3)[OF forest_wf[OF f] p(1)] in auto)
  obtain ts' where fd: "forest ?d ts'" using wf_forest[OF wf_same_tree[OF wf same]] by blast
  have dom: "dom ?d = dom st" using same_links_dom[OF ab] c(1) p(1) by auto
  have up: "upd_w p (\<lambda>w. w\<lparr>w_children := Some (kids w @ [c])\<rparr>) ?b = Some ?d"
    using pb(1) nn by (simp add: upd_w_def get_w_def)
  have "becomes ?d (widget_add_child_default app st p c)"
  proof -
    have g: "get_w st c = Some cw" using c(1) nn by (simp add: get_w_def)
    show ?thesis
      unfolding widget_add_child_default_def g Option.bind.bind_lunit Let_def up
      using added_child_does[OF app fd ld, of p c] dom c p nn by (simp only: domI if_False not_not simp_thms)
  qed
  then show ?thesis using same_tree_trans[OF same] by (auto simp: becomes_def)
qed


text \<open>The tree after \<open>widget_add_child\<close> depends on parents and children only.\<close>

lemma attach_same_tree:
  assumes "same_tree st st'" and "st c = Some cw" and "st p = Some pw" and "p \<noteq> c"
  shows "same_tree (attach p c cs st) (attach p c cs st')"
proof -
  obtain cw' pw' where "st' c = Some cw'" "place cw' = place cw" "st' p = Some pw'" "place pw' = place pw"
    using same_tree_get[OF assms(1,2)] same_tree_get[OF assms(1,3)] by (auto simp: place_def)
  then show ?thesis using assms by (auto simp: same_tree_def place_def attach_def kids_def)
qed

lemma add_child_does:
  assumes app: "app_plain app" and f: "forest st ts" and l: "links_ok st"
    and c: "st c = Some cw" "w_parent cw = NULL" and p: "st p = Some pw" "chain st p ps" "c \<notin> set ps"
  shows "becomes (attach p c (kids pw @ [c]) st) (widget_add_child app st p c)"
proof -
  have ok: "app_ok app" using app by (simp add: app_plain_def)
  have nn: "p \<noteq> NULL" "c \<noteq> NULL" using forest_nonnull[OF f] c p by auto
  have pc: "p \<noteq> c" using p nn by (cases ps) auto
  let ?a = "st(p \<mapsto> pw\<lparr>w_children := Some (kids pw)\<rparr>)"
  have la: "links_ok ?a" using links_upd(2)[OF l p(1)] links_of[OF l p(1)] by (simp add: kids_def place_def)
  have sa: "same_tree st ?a" using links_upd(1)[OF l p(1)] links_of[OF l p(1)] by (simp add: kids_def place_def)
  obtain r b where b: "app (On_add_child p c) ?a = (r, b)" by (cases "app (On_add_child p c) ?a")
  then have rb: "r \<noteq> RET_OK" "same_links ?a b" using app by (auto simp: app_plain_def app_ok_def) (metis fst_conv, metis snd_conv)
  have sb: "same_tree st b" by (rule same_tree_trans[OF sa same_links_tree[OF rb(2)]])
  have lb: "links_ok b" by (rule links_ok_same[OF rb(2) la])
  obtain cb where cb: "b c = Some cb" "w_parent cb = NULL" using same_tree_get[OF sb c(1)] c(2) by auto
  obtain pb where pb: "b p = Some pb" "kids pb = kids pw" using same_tree_get[OF sb p(1)] by auto
  have "becomes (attach p c (kids pb @ [c]) b) (widget_add_child_default app b p c)"
    by (rule add_child_default_does[OF ok forest_same_tree[OF sb f] lb cb pb(1) chain_same_tree[OF sb p(2)] p(3)])
  then have "becomes (attach p c (kids pw @ [c]) st) (widget_add_child_default app b p c)"
    using same_tree_trans[OF attach_same_tree[OF sb c(1) p(1) pc]] pb(2) by (auto simp: becomes_def)
  moreover have "widget_add_child app st p c = widget_add_child_default app b p c"
    using nn c p b rb(1) by (simp add: widget_add_child_def get_w_def upd_w_def)
  ultimately show ?thesis by simp
qed

text \<open>\<open>widget_restack\<close> moves one element of the array.\<close>

definition move_to :: "nat \<Rightarrow> nat \<Rightarrow> ptr list \<Rightarrow> ptr list" where
  "move_to i j cs = (let rest = take i cs @ drop (Suc i) cs in take j rest @ cs ! i # drop j rest)"

lemma move_to_mset [simp]: "i < length cs \<Longrightarrow> mset (move_to i j cs) = mset cs"
proof -
  assume i: "i < length cs"
  have "mset (move_to i j cs) = add_mset (cs ! i) (mset (take i cs @ drop (Suc i) cs))"
    unfolding move_to_def Let_def by (metis append_take_drop_id mset.simps(2) mset_append union_mset_add_mset_right)
  also have "\<dots> = mset (take i cs @ cs ! i # drop (Suc i) cs)" by simp
  finally show ?thesis using id_take_nth_drop[OF i] by metis
qed

lemma move_to_set [simp]: "i < length cs \<Longrightarrow> set (move_to i j cs) = set cs"
  by (metis move_to_mset mset_eq_setD)

lemma move_to_distinct [simp]: "i < length cs \<Longrightarrow> distinct (move_to i j cs) = distinct cs"
  by (metis move_to_mset mset_eq_imp_distinct_iff)

lemma move_to_length [simp]: "i < length cs \<Longrightarrow> length (move_to i j cs) = length cs"
  by (metis move_to_mset size_mset)

lemma restack_up_nth:
  "i < length cs \<Longrightarrow> length (restack_up i j cs) = length cs \<and>
    (\<forall>k < length cs. restack_up i j cs ! k = (if j < k \<and> k \<le> i then cs ! (k - 1) else cs ! k))"
proof (induction i j cs rule: restack_up.induct)
  case (1 i j cs)
  show ?case
  proof (cases "i > j")
    case True
    then show ?thesis using 1 by (subst (1 2) restack_up.simps) (auto simp: nth_list_update)
  next
    case False
    then show ?thesis by (subst (1 2) restack_up.simps) auto
  qed
qed

lemma restack_down_nth:
  "j < length cs \<Longrightarrow> length (restack_down i j cs) = length cs \<and>
    (\<forall>k < length cs. restack_down i j cs ! k = (if i \<le> k \<and> k < j then cs ! (k + 1) else cs ! k))"
proof (induction i j cs rule: restack_down.induct)
  case (1 i j cs)
  show ?case
  proof (cases "i < j")
    case True
    have "Suc i \<le> k \<longleftrightarrow> i \<le> k \<and> k \<noteq> i" for k by auto
    then show ?thesis using 1 True by (subst (1 2) restack_down.simps) (auto simp: nth_list_update)
  next
    case False
    then show ?thesis by (subst (1 2) restack_down.simps) auto
  qed
qed

lemma move_to_nth:
  assumes "i < length cs" and "j < length cs" and "k < length cs"
  shows "move_to i j cs ! k = (if k = j then cs ! i else let m = (if k < j then k else k - 1) in if m < i then cs ! m else cs ! Suc m)"
proof -
  let ?r = "take i cs @ drop (Suc i) cs"
  have r: "?r ! m = (if m < i then cs ! m else cs ! Suc m)" if "m < length cs - 1" for m
    using that assms(1) by (auto simp: nth_append min_def)
  have len: "length ?r = length cs - 1" using assms(1) by simp
  have "move_to i j cs ! k = (if k = j then cs ! i else ?r ! (if k < j then k else k - 1))"
    using len assms by (cases "k < j") (auto simp: move_to_def Let_def nth_append nth_Cons' min_def)
  then show ?thesis using r[of "if k < j then k else k - 1"] assms by (auto simp: Let_def)
qed

lemma restack_moves:
  assumes "i < length cs" and "j < length cs"
  shows "(if j < i then restack_up i j cs else restack_down i j cs)[j := cs ! i] = move_to i j cs"
proof (rule nth_equalityI)
  have up: "length (restack_up i j cs) = length cs" "\<And>k. k < length cs \<Longrightarrow> restack_up i j cs ! k = (if j < k \<and> k \<le> i then cs ! (k - 1) else cs ! k)"
    using restack_up_nth[OF assms(1)] by auto
  have down: "length (restack_down i j cs) = length cs" "\<And>k. k < length cs \<Longrightarrow> restack_down i j cs ! k = (if i \<le> k \<and> k < j then cs ! (k + 1) else cs ! k)"
    using restack_down_nth[OF assms(2)] by auto
  show "length ((if j < i then restack_up i j cs else restack_down i j cs)[j := cs ! i]) = length (move_to i j cs)"
    using assms up(1) down(1) by simp
  fix k assume "k < length ((if j < i then restack_up i j cs else restack_down i j cs)[j := cs ! i])"
  then have k: "k < length cs" using up(1) down(1) by (simp split: if_splits)
  show "(if j < i then restack_up i j cs else restack_down i j cs)[j := cs ! i] ! k = move_to i j cs ! k"
  proof (cases "k = j")
    case True
    then show ?thesis using assms up(1) down(1) by (simp add: move_to_nth)
  next
    case False
    then show ?thesis using k assms by (auto simp: move_to_nth up(2) down(2) Let_def)
  qed
qed

lemma move_last [simp]: "move_to (length cs) j (cs @ [c]) = take j cs @ c # drop j cs"
  by (simp add: move_to_def)


lemma index_loop_at:
  "widget \<in> set cs \<Longrightarrow> \<exists>k < length cs. cs ! k = widget \<and> index_loop cs widget i = i + int k"
proof (induction cs arbitrary: i)
  case (Cons c cs)
  show ?case
  proof (cases "c = widget")
    case True
    then show ?thesis by (intro exI[of _ 0]) simp
  next
    case False
    then obtain k where "k < length cs" "cs ! k = widget" "index_loop cs widget (i + 1) = i + 1 + int k" using Cons by auto
    then show ?thesis using False by (intro exI[of _ "Suc k"]) simp
  qed
qed simp

text \<open>The children of a widget in another order.\<close>

lemma wf_perm:
  assumes wf: "wf_tree st" and p: "st p = Some pw" and cs: "set cs = set (kids pw)" "distinct cs"
  shows "wf_tree (st(p \<mapsto> pw\<lparr>w_children := Some cs\<rparr>))"
proof -
  let ?st = "st(p \<mapsto> pw\<lparr>w_children := Some cs\<rparr>)"
  have dom: "dom ?st = dom st" using p by auto
  have old: "\<exists>ow. st q = Some ow \<and> w_parent w = w_parent ow \<and> kids w = (if q = p then cs else kids ow)" if "?st q = Some w" for q w
    using that p by (cases "q = p") (auto simp: kids_def)
  have new: "\<exists>w. ?st q = Some w \<and> w_parent w = w_parent ow \<and> kids w = (if q = p then cs else kids ow)" if "st q = Some ow" for q ow
    using that p by (cases "q = p") (auto simp: kids_def)
  show ?thesis
  proof (rule wf_treeI)
    show "finite (dom ?st)" "NULL \<notin> dom ?st" using wf_treeD(1,2)[OF wf] dom by auto
    show "distinct (kids w)" if "?st q = Some w" for q w using old[OF that] wf_treeD(3)[OF wf] cs(2) by auto
    show "\<exists>dw. ?st d = Some dw \<and> w_parent dw = q" if q: "?st q = Some w" "d \<in> set (kids w)" for q w d
    proof -
      obtain ow where ow: "st q = Some ow" "kids w = (if q = p then cs else kids ow)" using old[OF q(1)] by auto
      then have "d \<in> set (kids ow)" using q(2) cs(1) p by (auto split: if_splits)
      then obtain dw where "st d = Some dw" "w_parent dw = q" using wf_treeD(4)[OF wf ow(1)] by blast
      then show ?thesis using new[of d dw] by auto
    qed
    show "\<exists>qw. ?st (w_parent w) = Some qw \<and> q \<in> set (kids qw)" if q: "?st q = Some w" "w_parent w \<noteq> NULL" for q w
    proof -
      obtain ow where ow: "st q = Some ow" "w_parent w = w_parent ow" using old[OF q(1)] by auto
      then obtain qw where qw: "st (w_parent w) = Some qw" "q \<in> set (kids qw)" using wf_treeD(5)[OF wf ow(1)] q(2) by auto
      then show ?thesis using new[OF qw(1)] cs(1) p by auto
    qed
    show "\<exists>qs. chain ?st q qs" if q: "q \<in> dom ?st" for q
    proof -
      obtain qs where qs: "chain st q qs" using wf_treeD(6)[OF wf] q dom by blast
      have "chain ?st q qs" by (rule chain_same_parents[OF _ qs]) (use p in auto)
      then show ?thesis by blast
    qed
  qed
qed

lemma links_perm:
  assumes "links_ok st" and "st p = Some pw" and "set cs = set (kids pw)"
  shows "links_ok (st(p \<mapsto> pw\<lparr>w_children := Some cs\<rparr>))"
  using assms by (auto simp: links_ok_def kids_def)

lemma restack_does:
  assumes f: "forest st ts" and l: "links_ok st" and c: "st c = Some cw" "w_parent cw = p" and p: "st p = Some pw"
  shows "\<exists>k < length (kids pw). kids pw ! k = c \<and>
    becomes (st(p \<mapsto> pw\<lparr>w_children := Some (move_to k (min index (length (kids pw) - 1)) (kids pw))\<rparr>)) (widget_restack st c index)"
proof -
  have nn: "p \<noteq> NULL" "c \<noteq> NULL" using forest_nonnull[OF f] c p by auto
  have "c \<in> set (kids pw)" by (rule parent_has_child[OF f c nn(1) p])
  then obtain k where k: "k < length (kids pw)" "kids pw ! k = c" "index_loop (kids pw) c 0 = int k"
    using index_loop_at[of c "kids pw" 0] by auto
  let ?n = "length (kids pw)" and ?j = "min index (length (kids pw) - 1)"
  let ?st = "st(p \<mapsto> pw\<lparr>w_children := Some (move_to k ?j (kids pw))\<rparr>)"
  have j: "(if int index \<ge> int ?n then ?n - 1 else index) = ?j" by auto
  have lst: "links_ok ?st" by (rule links_perm[OF l p]) (simp add: k(1))
  have gets: "get_w st c = Some cw" "get_w st p = Some pw" using c p nn by (simp_all add: get_w_def)
  have ne: "kids pw \<noteq> []" using k(1) by auto
  have run: "widget_restack st c index =
      (if int ?j = int k \<or> int ?n = 1 then Some (RET_OK, st)
       else Some (RET_OK, st(p \<mapsto> pw\<lparr>w_children := Some ((if int ?j < int k then restack_up k ?j (kids pw) else restack_down k ?j (kids pw))[?j := c])\<rparr>)))"
    unfolding widget_restack_def widget_index_of_def widget_count_children_def gets c(2) Option.bind.bind_lunit k(3)
    using nn ne j by (simp add: Let_def)
  show ?thesis
  proof (cases "?j = k \<or> ?n = 1")
    case True
    then have jk: "?j = k" using k(1) by auto
    have "move_to k k (kids pw) = kids pw" using k(1) by (simp add: move_to_def Let_def id_take_nth_drop[symmetric] min_def)
    then have "same_tree ?st st" using jk p by (auto simp: same_tree_def place_def kids_def)
    then show ?thesis using k(1,2) run jk l by (auto simp: becomes_def)
  next
    case False
    have "(if int ?j < int k then restack_up k ?j (kids pw) else restack_down k ?j (kids pw))[?j := c] = move_to k ?j (kids pw)"
      using restack_moves[of k "kids pw" ?j] k by simp
    then have "widget_restack st c index = Some (RET_OK, ?st)" unfolding run using False by simp
    then show ?thesis using k(1,2) lst by (auto simp: becomes_def)
  qed
qed

lemma insert_child_does:
  assumes app: "app_plain app" and f: "forest st ts" and l: "links_ok st"
    and c: "st c = Some cw" "w_parent cw = NULL" and p: "st p = Some pw" "chain st p ps" "c \<notin> set ps"
  shows "becomes (attach p c (take index (kids pw) @ c # drop index (kids pw)) st) (widget_insert_child app st p index c)"
proof -
  have nn: "p \<noteq> NULL" "c \<noteq> NULL" using forest_nonnull[OF f] c p by auto
  have pc: "p \<noteq> c" using p nn by (cases ps) auto
  have fresh: "c \<notin> set (kids pw)" using wf_treeD(4)[OF forest_wf[OF f] p(1), of c] c nn by auto
  obtain b where b: "widget_add_child app st p c = Some (RET_OK, b)" "same_tree (attach p c (kids pw @ [c]) st) b" "links_ok b"
    using add_child_does[OF app f l c p] by (auto simp: becomes_def)
  have wf: "wf_tree (attach p c (kids pw @ [c]) st)"
    by (rule wf_attach[OF forest_wf[OF f] c p]) (use fresh wf_treeD(3)[OF forest_wf[OF f] p(1)] in auto)
  obtain ts' where fb: "forest b ts'" using wf_forest[OF wf_same_tree[OF wf b(2)]] by blast
  have at: "attach p c (kids pw @ [c]) st c = Some (cw\<lparr>w_parent := p\<rparr>)" "attach p c (kids pw @ [c]) st p = Some (pw\<lparr>w_children := Some (kids pw @ [c])\<rparr>)"
    using c p pc by (simp_all add: attach_def)
  obtain cb where cb: "b c = Some cb" "w_parent cb = p" using same_tree_get[OF b(2) at(1)] by auto
  obtain pb where pb: "b p = Some pb" "kids pb = kids pw @ [c]" using same_tree_get[OF b(2) at(2)] by (auto simp: kids_def)
  obtain k where k: "k < length (kids pb)" "kids pb ! k = c"
    "becomes (b(p \<mapsto> pb\<lparr>w_children := Some (move_to k (min index (length (kids pb) - 1)) (kids pb))\<rparr>)) (widget_restack b c index)"
    using restack_does[OF fb b(3) cb pb(1)] by blast
  have "k = length (kids pw)"
  proof (rule ccontr)
    assume "k \<noteq> length (kids pw)"
    then have "c = kids pw ! k" "k < length (kids pw)" using k(1,2) pb(2) by (auto simp: nth_append)
    then show False using fresh by simp
  qed
  then have m: "move_to k (min index (length (kids pb) - 1)) (kids pb) = take index (kids pw) @ c # drop index (kids pw)"
    unfolding pb(2) by (cases "index \<le> length (kids pw)") (simp_all add: min_def)
  have "same_tree (attach p c (take index (kids pw) @ c # drop index (kids pw)) st)
      (b(p \<mapsto> pb\<lparr>w_children := Some (take index (kids pw) @ c # drop index (kids pw))\<rparr>))"
  proof -
    have "map_option place (b q) = map_option place (attach p c (kids pw @ [c]) st q)" for q
      using b(2) by (simp add: same_tree_def)
    from this this[of p] show ?thesis using pb pc p(1) by (auto simp: same_tree_def attach_def place_def kids_def)
  qed
  then show ?thesis using k(3) m nn b(1) same_tree_trans by (auto simp: becomes_def widget_insert_child_def)
qed


section \<open>Taking a child out\<close>

text \<open>\<open>darray_remove\<close> tells the widgets apart by the distance of their addresses as an \<open>int\<close>.\<close>

definition addr_ok :: "wtree \<Rightarrow> bool" where
  "addr_ok st \<longleftrightarrow> (\<forall>a \<in> dom st. \<forall>b \<in> dom st. pointer_compare a b = 0 \<longrightarrow> a = b)"

lemma remove_first_eq:
  "c \<in> set cs \<Longrightarrow> (\<And>a. a \<in> set cs \<Longrightarrow> pointer_compare a c = 0 \<Longrightarrow> a = c) \<Longrightarrow> remove_first c cs = Some (remove1 c cs)"
proof (induction cs)
  case (Cons a cs)
  have "pointer_compare c c = 0" by (simp add: pointer_compare_def)
  then show ?case using Cons by auto
qed simp

lemma rep_upd: "rep st parent t \<Longrightarrow> st p = Some w \<Longrightarrow> w_parent w' = w_parent w \<Longrightarrow> kids w' = kids w \<Longrightarrow> rep (st(p \<mapsto> w')) parent t"
  by (induction t arbitrary: parent) auto

lemma forest_upd:
  assumes "forest st ts" and "st p = Some w" and "w_parent w' = w_parent w" and "kids w' = kids w"
  shows "forest (st(p \<mapsto> w')) ts"
proof -
  have "rep (st(p \<mapsto> w')) NULL t" if "rep st NULL t" for t using rep_upd that assms(2-4) by blast
  then show ?thesis using assms by (auto simp: forest_def)
qed

text \<open>The links of a widget with the child \<open>c\<close> cut off.\<close>

definition cut_off :: "ptr \<Rightarrow> widget \<Rightarrow> widget" where
  "cut_off c w = w\<lparr>w_target := (if w_target w = c then NULL else w_target w),
     w_grab_widget := (if w_grab_widget w = c then NULL else w_grab_widget w),
     w_grab_widget_count := (if w_grab_widget w = c then 0 else w_grab_widget_count w)\<rparr>"

lemma cut_off_links:
  assumes f: "forest st ts" and l: "links_ok st" and p: "st p = Some w"
  shows "forest (st(p \<mapsto> cut_off c w)) ts" and "links_ok (st(p \<mapsto> cut_off c w))"
proof -
  show "forest (st(p \<mapsto> cut_off c w)) ts" by (rule forest_upd[OF f p]) (simp_all add: cut_off_def kids_def)
  show "links_ok (st(p \<mapsto> cut_off c w))"
    unfolding links_ok_def
  proof (intro allI impI)
    fix q x assume "(st(p \<mapsto> cut_off c w)) q = Some x"
    then have "x = cut_off c w \<or> st q = Some x" by (auto split: if_splits)
    then show "{w_target x, w_grab_widget x, w_key_target x} \<subseteq> insert NULL (set (kids x))"
      using links_of[OF l p] links_of[OF l, of q x] by (auto simp: cut_off_def kids_def)
  qed
qed

lemma cut_key_does:
  assumes app: "app_ok app" and f: "forest st ts" and l: "links_ok st" and p: "st p = Some w" and c: "c \<in> dom st"
  shows "\<exists>st'. (if w_key_target w = c
      then Option.bind (widget_dispatch_blur_event app st (w_key_target w)) (upd_w p (\<lambda>w. w\<lparr>w_key_target := NULL\<rparr>)) else Some st) = Some st' \<and>
    same_tree st st' \<and> links_ok st' \<and> w_key_target (the (st' p)) \<noteq> c"
proof (cases "w_key_target w = c")
  case False
  then show ?thesis using p l by simp
next
  case True
  obtain a where a: "widget_dispatch_blur_event app st (w_key_target w) = Some a" "same_tree st a" "links_ok a"
    using blur_event_at[OF app f l, of c] c True unfolding does_st_def by blast
  obtain wa where wa: "a p = Some wa" using same_tree_get[OF a(2) p] by blast
  have "same_tree a (a(p \<mapsto> wa\<lparr>w_key_target := NULL\<rparr>))" "links_ok (a(p \<mapsto> wa\<lparr>w_key_target := NULL\<rparr>))"
    by (rule links_upd[OF a(3) wa]; use links_of[OF a(3) wa] in \<open>simp add: place_def kids_def\<close>)+
  then show ?thesis using a True wa forest_nonnull[OF f] p c same_tree_trans[OF a(2)]
    by (intro exI[of _ "a(p \<mapsto> wa\<lparr>w_key_target := NULL\<rparr>)"]) (auto simp: upd_w_def get_w_def)
qed

lemma take_out_does:
  assumes app: "app_ok app" and l: "links_ok st" and pc: "p \<noteq> c" and p: "st p = Some w" "p \<noteq> NULL" and c: "st c = Some cw" "c \<noteq> NULL" "c \<in> set (kids w)"
    and d: "distinct (kids w)" "\<And>a. a \<in> set (kids w) \<Longrightarrow> pointer_compare a c = 0 \<Longrightarrow> a = c"
    and cut: "w_target w \<noteq> c" "w_grab_widget w \<noteq> c" "w_key_target w \<noteq> c"
  shows "\<exists>st1 st'. upd_w c (\<lambda>c. c\<lparr>w_parent := NULL\<rparr>) st = Some st1 \<and>
    (\<exists>w1 cs. get_w st1 p = Some w1 \<and> w_children w1 = Some cs \<and> remove_first c cs = Some (remove1 c cs) \<and>
      call app (Dispatch p EVT_WIDGET_REMOVE_CHILD) (st1(p \<mapsto> w1\<lparr>w_children := Some (remove1 c cs)\<rparr>)) = st') \<and>
    same_tree (detach p c st) st' \<and> links_ok st'"
proof -
  let ?st1 = "st(c \<mapsto> cw\<lparr>w_parent := NULL\<rparr>)"
  let ?st2 = "?st1(p \<mapsto> w\<lparr>w_children := Some (remove1 c (kids w))\<rparr>)"
  have "kids w \<noteq> []" using c(3) by auto
  then obtain cs where cs: "w_children w = Some cs" "kids w = cs" by (cases "w_children w") (auto simp: kids_def)
  have same: "same_links ?st2 (call app (Dispatch p EVT_WIDGET_REMOVE_CHILD) ?st2)" by (rule call_same[OF app])
  have "same_tree (detach p c st) ?st2" using p(1) c(1) pc cut by (auto simp: same_tree_def detach_def Let_def place_def kids_def)
  then have tree: "same_tree (detach p c st) (call app (Dispatch p EVT_WIDGET_REMOVE_CHILD) ?st2)"
    using same_tree_trans same_links_tree[OF same] by blast
  have "links_ok ?st2"
    unfolding links_ok_def
  proof (intro allI impI)
    fix q x assume x: "?st2 q = Some x"
    show "{w_target x, w_grab_widget x, w_key_target x} \<subseteq> insert NULL (set (kids x))"
    proof (cases "q = p")
      case True
      then have "x = w\<lparr>w_children := Some (remove1 c (kids w))\<rparr>" using x by simp
      then show ?thesis using links_of[OF l p(1)] cut d(1) by (auto simp: kids_def)
    next
      case False
      then have "x = cw\<lparr>w_parent := NULL\<rparr> \<and> q = c \<or> st q = Some x" using x by (auto split: if_splits)
      then show ?thesis using links_of[OF l c(1)] links_of[OF l, of q x] by (auto simp: kids_def)
    qed
  qed
  then have "links_ok (call app (Dispatch p EVT_WIDGET_REMOVE_CHILD) ?st2)" by (rule links_ok_same[OF same])
  moreover have "remove_first c cs = Some (remove1 c cs)" using remove_first_eq[of c cs] c(3) d(2) cs(2) by auto
  moreover have "upd_w c (\<lambda>c. c\<lparr>w_parent := NULL\<rparr>) st = Some ?st1" using c by (simp add: upd_w_def get_w_def)
  moreover have "get_w ?st1 p = Some w" using p pc by (simp add: get_w_def)
  ultimately show ?thesis using tree cs by blast
qed


lemma detach_cut:
  assumes "same_tree st a" and "st c = Some cw" and "st p = Some pw" and "p \<noteq> c" and "a p = Some aw"
    and "same_tree (a(p \<mapsto> cut_off c aw)) b"
  shows "same_tree (detach p c st) (detach p c b)"
proof -
  obtain ac where ac: "a c = Some ac" "place ac = place cw" using same_tree_get[OF assms(1,2)] by (auto simp: place_def)
  have aw: "place aw = place pw" using same_tree_get[OF assms(1,3)] assms(5) by (auto simp: place_def)
  have "(a(p \<mapsto> cut_off c aw)) c = Some ac" "(a(p \<mapsto> cut_off c aw)) p = Some (cut_off c aw)" using ac assms(4) by simp_all
  then obtain bc bw where b: "b c = Some bc" "place bc = place cw" "b p = Some bw" "place bw = place (cut_off c aw)"
    using same_tree_get[OF assms(6), of c ac] same_tree_get[OF assms(6), of p "cut_off c aw"] ac(2) by (auto simp: place_def)
  have "map_option place (b q) = map_option place (st q)" if "q \<noteq> p" for q
    using assms(1,6) that by (simp add: same_tree_def)
  then show ?thesis using b aw assms(2-4) by (auto simp: same_tree_def detach_def Let_def place_def cut_off_def kids_def)
qed

lemma remove_child_does:
  assumes app: "app_plain app" and f: "forest st ts" and l: "links_ok st" and addr: "addr_ok st"
    and c: "st c = Some cw" "w_parent cw = p" and p: "st p = Some pw"
  shows "becomes (detach p c st) (widget_remove_child app stages st p c)"
proof -
  have ok: "app_ok app" using app by (simp add: app_plain_def)
  have nn: "p \<noteq> NULL" "c \<noteq> NULL" using forest_nonnull[OF f] c p by auto
  have cp: "c \<in> set (kids pw)" by (rule parent_has_child[OF f c nn(1) p])
  obtain qs where qs: "chain st c qs" using forest_chain[OF f, of c] c(1) by blast
  then obtain qs' where qs': "qs = c # qs'" "chain st p qs'" using c nn by (cases qs) auto
  have pc: "p \<noteq> c" using chain_distinct[OF qs] qs' nn by (cases qs') auto
  have gp: "get_w st p = Some pw" using p nn by (simp add: get_w_def)
  let ?m1 = "if \<not> w_is_window_manager pw then ignore_ret (widget_set_need_relayout_children st p) else Some st"
  have "does_st st ?m1" using keeps_does[OF l need_relayout_keeps[OF f, of p]] l p by auto
  then obtain st1 where st1: "?m1 = Some st1" "same_tree st st1" "links_ok st1" unfolding does_st_def by blast
  have f1: "forest st1 ts" by (rule forest_same_tree[OF st1(2) f])
  have c1: "c \<in> dom st1" using c same_tree_dom[OF st1(2)] by auto
  obtain q where "widget_get_window st1 c = Some q"
    using walk_up[OF f1 same_links_refl, of c "\<lambda>p w. w_is_window w"] c1 unfolding widget_get_window_def by blast
  then obtain opened where opened: "widget_is_window_opened stages st1 c = Some opened" by (simp add: widget_is_window_opened_def)
  let ?m2 = "if opened then ignore_ret (widget_set_focused app stages st1 c False) else Some st1"
  have "does_st st1 ?m2" using set_focused_does[OF ok f1 c1 st1(3)] st1(3) by simp
  then obtain st2 where st2: "?m2 = Some st2" "same_tree st1 st2" "links_ok st2" unfolding does_st_def by blast
  have f2: "forest st2 ts" by (rule forest_same_tree[OF st2(2) f1])
  have c2: "c \<in> dom st2" using c1 same_tree_dom[OF st2(2)] by auto
  have "does_st st2 (ignore_ret (widget_invalidate_force app st2 c None))"
    using keeps_does[OF st2(3) invalidate_force_keeps[OF ok f2 c2]] by simp
  then obtain st3 where st3: "ignore_ret (widget_invalidate_force app st2 c None) = Some st3" "same_tree st2 st3" "links_ok st3" unfolding does_st_def by blast
  have s3: "same_tree st st3" using same_tree_trans st1(2) st2(2) st3(2) by blast
  have f3: "forest st3 ts" by (rule forest_same_tree[OF s3 f])
  obtain w3 where w3: "st3 p = Some w3" "kids w3 = kids pw" using same_tree_get[OF s3 p] by blast
  let ?w = "cut_off c w3"
  have u4: "Option.bind (upd_w p (\<lambda>w. if w_target w = c then w\<lparr>w_target := NULL\<rparr> else w) st3)
      (upd_w p (\<lambda>w. if w_grab_widget w = c then w\<lparr>w_grab_widget := NULL, w_grab_widget_count := 0\<rparr> else w)) = Some (st3(p \<mapsto> ?w))"
    using w3 nn by (auto simp: upd_w_def get_w_def cut_off_def)
  note f4 = cut_off_links(1)[OF f3 st3(3) w3(1), of c] and l4 = cut_off_links(2)[OF f3 st3(3) w3(1), of c]
  have p4: "(st3(p \<mapsto> ?w)) p = Some ?w" by simp
  have c4: "c \<in> dom (st3(p \<mapsto> ?w))" using c same_tree_dom[OF s3] by auto
  obtain st5 where st5: "(if w_key_target ?w = c
      then Option.bind (widget_dispatch_blur_event app (st3(p \<mapsto> ?w)) (w_key_target ?w)) (upd_w p (\<lambda>w. w\<lparr>w_key_target := NULL\<rparr>)) else Some (st3(p \<mapsto> ?w))) = Some st5"
    "same_tree (st3(p \<mapsto> ?w)) st5" "links_ok st5" "w_key_target (the (st5 p)) \<noteq> c"
    using cut_key_does[OF ok f4 l4 p4 c4] by blast
  obtain r st6 where st6: "app (On_remove_child p c) st5 = (r, st6)" by (cases "app (On_remove_child p c) st5")
  then have r: "r \<noteq> RET_OK" "same_links st5 st6" using app by (auto simp: app_plain_def app_ok_def) (metis fst_conv, metis snd_conv)
  let ?st7 = "call app (On_detach_parent c p) st6"
  have s57: "same_links st5 ?st7" by (rule same_links_trans[OF r(2) call_same[OF ok]])
  have s47: "same_tree (st3(p \<mapsto> ?w)) ?st7" by (rule same_tree_trans[OF st5(2) same_links_tree[OF s57]])
  obtain w7 where w7: "?st7 p = Some w7" "kids w7 = kids pw" "w_target w7 = w_target ?w" "w_grab_widget w7 = w_grab_widget ?w"
    using same_tree_get[OF s47 p4] w3(2) by (auto simp: cut_off_def kids_def)
  obtain w5 where w5: "st5 p = Some w5" using same_tree_get[OF st5(2) p4] by blast
  have key7: "w_key_target w7 \<noteq> c" using st5(4) same_links_get[OF s57 w5] w5 w7(1) by (auto simp: link_def)
  have dom7: "dom ?st7 = dom st" using same_tree_dom[OF s47] same_tree_dom[OF s3] p by auto
  obtain c7 where c7: "?st7 c = Some c7" using dom7 c(1) by blast
  have dk: "distinct (kids pw)" "\<And>a. a \<in> set (kids pw) \<Longrightarrow> a \<in> dom st" using wf_treeD(3,4)[OF forest_wf[OF f] p] by auto
  have cut7: "w_target w7 \<noteq> c" "w_grab_widget w7 \<noteq> c" using w7(3,4) nn(2) by (simp_all add: cut_off_def)
  have c7k: "c \<in> set (kids w7)" "distinct (kids w7)" using w7(2) cp dk(1) by simp_all
  have far: "a = c" if "a \<in> set (kids w7)" "pointer_compare a c = 0" for a
  proof -
    have "a \<in> dom st" "c \<in> dom st" using that(1) dk(2) w7(2) c(1) by auto
    then show ?thesis using addr that(2) unfolding addr_ok_def by blast
  qed
  obtain st8 st' where out: "upd_w c (\<lambda>c. c\<lparr>w_parent := NULL\<rparr>) ?st7 = Some st8"
    "\<exists>w1 cs. get_w st8 p = Some w1 \<and> w_children w1 = Some cs \<and> remove_first c cs = Some (remove1 c cs) \<and>
      call app (Dispatch p EVT_WIDGET_REMOVE_CHILD) (st8(p \<mapsto> w1\<lparr>w_children := Some (remove1 c cs)\<rparr>)) = st'"
    "same_tree (detach p c ?st7) st'" "links_ok st'"
    using take_out_does[OF ok links_ok_same[OF s57 st5(3)] pc w7(1) nn(1) c7 nn(2) c7k far cut7 key7] by blast
  have prep: "widget_remove_child_prepare app stages st p c = Some (RET_OK, st8)"
  proof -
    have "Option.bind (upd_w p (\<lambda>w. if w_target w = c then w\<lparr>w_target := NULL\<rparr> else w) st3) (\<lambda>st.
        Option.bind (upd_w p (\<lambda>w. if w_grab_widget w = c then w\<lparr>w_grab_widget := NULL, w_grab_widget_count := 0\<rparr> else w) st) k) =
        k (st3(p \<mapsto> ?w))" for k :: "wtree \<Rightarrow> (ret_t \<times> wtree) option"
      using u4 by (simp add: Option.bind_assoc[symmetric])
    moreover have "get_w (st3(p \<mapsto> ?w)) p = Some ?w" using nn by (simp add: get_w_def)
    ultimately show ?thesis
      using nn by (simp only: widget_remove_child_prepare_def gp st1(1) opened st2(1) st3(1) st5(1) st6 out(1) Option.bind.bind_lunit r(1) prod.case if_False simp_thms)
  qed
  have "widget_remove_child app stages st p c = Some (RET_OK, st')"
    using out(2) nn by (auto simp: widget_remove_child_def prep)
  moreover have "same_tree (detach p c st) st'" by (rule same_tree_trans[OF detach_cut[OF s3 c(1) p pc w3(1) s47] out(3)])
  ultimately show ?thesis using out(4) by (simp add: becomes_def)
qed


section \<open>Creating and grabbing\<close>

text \<open>\<open>widget_init\<close> on a widget that \<open>widget_real_create\<close> has allocated and zeroed.\<close>

definition widget_init :: "app \<Rightarrow> stages \<Rightarrow> wtree \<Rightarrow> ptr \<Rightarrow> ptr \<Rightarrow> int \<times> int \<times> int \<times> int \<Rightarrow> (ptr \<times> wtree) option" where
  "widget_init app stages st widget parent geometry =
     (if widget = NULL then Some (NULL, st)
      else Option.bind (upd_w widget (\<lambda>wg. case geometry of (x, y, w, h) \<Rightarrow>
          wg\<lparr>w_x := x, w_y := y, w_w := w, w_h := h, w_dirty := True, w_enable := True, w_visible := True, w_sensitive := True,
             w_children := None, w_initializing := True, w_target := NULL, w_key_target := NULL, w_grab_widget := NULL,
             w_grab_widget_count := 0, w_focused := False, w_focusable := False, w_dirty_rect_tolerance := 4,
             w_need_update_style := True\<rparr>) st) (\<lambda>st.
        Option.bind (if parent \<noteq> NULL then ignore_ret (widget_add_child app st parent widget) else Some st) (\<lambda>st.
          Option.bind (get_w st widget) (\<lambda>w.
            Option.bind (widget_get_window st widget) (\<lambda>win.
              Option.bind (if \<not> w_styled w \<and> (w_is_window_manager w \<or> win \<noteq> NULL)
                           then Option.bind (upd_w widget (\<lambda>w. w\<lparr>w_styled := True\<rparr>) st) (\<lambda>st.
                                  Option.bind (widget_is_window_opened stages st widget) (\<lambda>opened.
                                    if opened then ignore_ret (widget_set_need_update_style app st widget) else Some st))
                           else Some st) (\<lambda>st.
                Option.bind (ignore_ret (widget_invalidate_force app st widget None)) (\<lambda>st.
                  Option.bind (upd_w widget (\<lambda>w. w\<lparr>w_initializing := False\<rparr>) st) (\<lambda>st. Some (widget, st)))))))))"

lemma wf_fresh:
  assumes wf: "wf_tree st" and p: "st p = None" "p \<noteq> NULL" and w: "w_parent w = NULL" "kids w = []"
  shows "wf_tree (st(p \<mapsto> w))"
proof -
  let ?st = "st(p \<mapsto> w)"
  have ext: "?st q = Some x" if "st q = Some x" for q x using that p(1) by auto
  show ?thesis
  proof (rule wf_treeI)
    show "finite (dom ?st)" "NULL \<notin> dom ?st" using wf_treeD(1,2)[OF wf] p(2) by auto
    show "distinct (kids x)" if "?st q = Some x" for q x using that wf_treeD(3)[OF wf] w(2) by (auto split: if_splits)
    show "\<exists>dw. ?st d = Some dw \<and> w_parent dw = q" if "?st q = Some x" "d \<in> set (kids x)" for q x d
    proof -
      have "st q = Some x" using that w(2) by (auto split: if_splits)
      then show ?thesis using wf_treeD(4)[OF wf] that(2) ext by blast
    qed
    show "\<exists>qw. ?st (w_parent x) = Some qw \<and> q \<in> set (kids qw)" if "?st q = Some x" "w_parent x \<noteq> NULL" for q x
    proof -
      have "st q = Some x" using that w(1) by (auto split: if_splits)
      then show ?thesis using wf_treeD(5)[OF wf] that(2) ext by blast
    qed
    show "\<exists>qs. chain ?st q qs" if q: "q \<in> dom ?st" for q
    proof (cases "q = p")
      case True
      then have "chain ?st q [p]" using w(1) p(2) by simp
      then show ?thesis by blast
    next
      case False
      then obtain qs where qs: "chain st q qs" using wf_treeD(6)[OF wf, of q] q by auto
      have "chain ?st q qs" by (rule chain_same_parents[OF _ qs]) (use chain_dom[OF qs] p(1) in auto)
      then show ?thesis by blast
    qed
  qed
qed

text \<open>The state of a well-formed tree of widgets.\<close>

definition good :: "wtree \<Rightarrow> bool" where
  "good st \<longleftrightarrow> wf_tree st \<and> links_ok st \<and> addr_ok st"

lemma good_forest: "good st \<Longrightarrow> \<exists>ts. forest st ts"
  using wf_forest by (auto simp: good_def)

lemma good_same: "good st \<Longrightarrow> same_tree st st' \<Longrightarrow> links_ok st' \<Longrightarrow> good st'"
  using wf_same_tree same_tree_dom[of st st'] by (auto simp: good_def addr_ok_def)

definition gives :: "(ret_t \<times> wtree) option \<Rightarrow> bool" where
  "gives m \<longleftrightarrow> (\<exists>r st'. m = Some (r, st') \<and> good st')"

lemma does_gives: "good st \<Longrightarrow> does st m \<Longrightarrow> gives m"
  using good_same by (fastforce simp: does_def gives_def)

lemma becomes_gives: "wf_tree st \<Longrightarrow> addr_ok st \<Longrightarrow> becomes st m \<Longrightarrow> gives m"
  using wf_same_tree same_tree_dom by (fastforce simp: becomes_def gives_def good_def addr_ok_def)

lemma keeps_gives: "good st \<Longrightarrow> keeps st m \<Longrightarrow> gives m"
  using does_gives keeps_does by (auto simp: good_def)

lemma attach_dom: "st c = Some cw \<Longrightarrow> st p = Some pw \<Longrightarrow> dom (attach p c cs st) = dom st"
  by (auto simp: attach_def)

lemma detach_dom: "st c = Some cw \<Longrightarrow> st p = Some pw \<Longrightarrow> dom (detach p c st) = dom st"
  by (auto simp: detach_def Let_def)

lemma add_child_gives:
  assumes app: "app_plain app" and g: "good st"
    and c: "st c = Some cw" "w_parent cw = NULL" and p: "st p = Some pw" "chain st p ps" "c \<notin> set ps"
  shows "gives (widget_add_child app st p c)" and "gives (widget_insert_child app st p index c)"
proof -
  obtain ts where f: "forest st ts" using good_forest[OF g] by blast
  have l: "links_ok st" and wf: "wf_tree st" and a: "addr_ok st" using g by (simp_all add: good_def)
  have "c \<notin> set (kids pw)" using wf_treeD(2)[OF wf] wf_treeD(4)[OF wf p(1), of c] c p(1) by auto
  then have cs: "set (kids pw @ [c]) = insert c (set (kids pw))" "distinct (kids pw @ [c])"
    "set (take index (kids pw) @ c # drop index (kids pw)) = insert c (set (kids pw))" "distinct (take index (kids pw) @ c # drop index (kids pw))"
    using wf_treeD(3)[OF wf p(1)] set_append[of "take index (kids pw)" "drop index (kids pw)"]
      distinct_append[of "take index (kids pw)" "drop index (kids pw)"] in_set_takeD[of c index "kids pw"] in_set_dropD[of c index "kids pw"] by auto
  have addr: "addr_ok (attach p c xs st)" for xs using a attach_dom[OF c(1) p(1)] by (simp add: addr_ok_def)
  show "gives (widget_add_child app st p c)"
    by (rule becomes_gives[OF wf_attach[OF wf c p cs(1,2)] addr add_child_does[OF app f l c p]])
  show "gives (widget_insert_child app st p index c)"
    by (rule becomes_gives[OF wf_attach[OF wf c p cs(3,4)] addr insert_child_does[OF app f l c p]])
qed

lemma remove_child_gives:
  assumes app: "app_plain app" and g: "good st" and c: "st c = Some cw" "w_parent cw = p" and p: "st p = Some pw"
  shows "gives (widget_remove_child app stages st p c)"
proof -
  obtain ts where f: "forest st ts" using good_forest[OF g] by blast
  have l: "links_ok st" and wf: "wf_tree st" and a: "addr_ok st" using g by (simp_all add: good_def)
  show ?thesis
    by (rule becomes_gives[OF wf_detach[OF wf c p] _ remove_child_does[OF app f l a c p]])
       (use a detach_dom[OF c(1) p] in \<open>simp add: addr_ok_def\<close>)
qed

lemma restack_gives:
  assumes g: "good st" and c: "st c = Some cw"
  shows "gives (widget_restack st c index)"
proof -
  obtain ts where f: "forest st ts" using good_forest[OF g] by blast
  have l: "links_ok st" and wf: "wf_tree st" and a: "addr_ok st" using g by (simp_all add: good_def)
  show ?thesis
  proof (cases "w_parent cw = NULL")
    case True
    then show ?thesis using c g forest_nonnull[OF f, of c] by (auto simp: widget_restack_def get_w_def gives_def)
  next
    case False
    then obtain p pw where p: "w_parent cw = p" "st p = Some pw" using parent_in_dom[OF f c] by blast
    obtain k where k: "k < length (kids pw)"
      "becomes (st(p \<mapsto> pw\<lparr>w_children := Some (move_to k (min index (length (kids pw) - 1)) (kids pw))\<rparr>)) (widget_restack st c index)"
      using restack_does[OF f l c p(1) p(2)] by blast
    show ?thesis
      by (rule becomes_gives[OF wf_perm[OF wf p(2)] _ k(2)])
         (use k(1) wf_treeD(3)[OF wf p(2)] a p(2) in \<open>auto simp: addr_ok_def\<close>)
  qed
qed


lemma links_grab:
  assumes "links_ok st" and "st p = Some w" and "c \<in> set (kids w) \<or> w_grab_widget w = c"
  shows "links_ok (st(p \<mapsto> w\<lparr>w_grab_widget := c, w_grab_widget_count := n\<rparr>))" and "links_ok (st(p \<mapsto> w\<lparr>w_grab_widget_count := n\<rparr>))"
    and "links_ok (st(p \<mapsto> w\<lparr>w_grab_widget := NULL, w_grab_widget_count := n\<rparr>))"
  using assms(1,3) links_of[OF assms(1,2)] by (auto simp: links_ok_def kids_def)

lemma grab_chain_ok:
  assumes f: "forest st ts"
  shows "links_ok st \<Longrightarrow> chain st p ps \<Longrightarrow> (\<And>w. st p = Some w \<Longrightarrow> child \<in> set (kids w)) \<Longrightarrow>
    forest (grab_chain st child ps) ts \<and> links_ok (grab_chain st child ps) \<and> dom (grab_chain st child ps) = dom st"
  using f
proof (induction ps arbitrary: st p child)
  case (Cons q qs)
  then obtain w where w: "p = q" "q \<noteq> NULL" "st q = Some w" "chain st (w_parent w) qs" by auto
  note f = Cons.prems(4)
  have child: "child \<in> set (kids w)" using Cons.prems(3) w by simp
  let ?st = "st(q \<mapsto> grab_one child w)"
  have l: "links_ok ?st" using links_grab(1)[OF Cons.prems(1) w(3) disjI1[OF child]] links_grab(2)[OF Cons.prems(1) w(3) disjI1[OF child]]
    by (simp add: grab_one_def)
  have f': "forest ?st ts" by (rule forest_upd[OF f w(3)]) (simp_all add: grab_one_def kids_def)
  have up: "chain ?st (w_parent w) qs" using w(4) chain_upd_grab chain_distinct[OF Cons.prems(2)] by auto
  have "q \<in> set (kids x)" if "?st (w_parent w) = Some x" for x
  proof -
    have "w_parent w \<noteq> NULL" by (rule forest_nonnull[OF f' domI]) (rule that)
    then show ?thesis using parent_has_child[OF f', of q "grab_one child w" "w_parent w"] that by simp
  qed
  then have "forest (grab_chain ?st q qs) ts \<and> links_ok (grab_chain ?st q qs) \<and> dom (grab_chain ?st q qs) = dom ?st"
    using Cons.IH[OF l up _ f'] by blast
  moreover have "dom ?st = dom st" using w(3) by auto
  ultimately show ?case using w Cons.prems(1) f by simp
qed simp

lemma grab_gives:
  assumes g: "good st" and c: "st c = Some cw" "w_parent cw = p" and p: "p \<in> dom st"
  shows "gives (widget_grab st p c)"
proof -
  obtain ts where f: "forest st ts" using good_forest[OF g] by blast
  obtain ps where ps: "chain st p ps" "ps \<noteq> []" using forest_chain[OF f p] by blast
  have nn: "p \<noteq> NULL" "c \<noteq> NULL" using forest_nonnull[OF f] c p by auto
  have "forest (grab_chain st c ps) ts \<and> links_ok (grab_chain st c ps) \<and> dom (grab_chain st c ps) = dom st"
    by (rule grab_chain_ok[OF f _ ps(1)]) (use g parent_has_child[OF f c nn(1)] in \<open>auto simp: good_def\<close>)
  then show ?thesis using widget_grab_chain[OF ps nn(2)] g forest_wf by (fastforce simp: gives_def good_def addr_ok_def)
qed

lemma ungrab_does:
  assumes "chain st p ps" and "forest st ts" and "links_ok st" and "p \<in> dom st" and "c \<in> dom st"
  shows "\<exists>r st'. widget_ungrab st p c = Some (r, st') \<and> forest st' ts \<and> links_ok st' \<and> dom st' = dom st"
  using assms
proof (induction ps arbitrary: st p c)
  case Nil
  then show ?case using forest_nonnull[of st ts p] by auto
next
  case (Cons q qs)
  then obtain w where w: "p = q" "q \<noteq> NULL" "st q = Some w" "chain st (w_parent w) qs" by auto
  note f = Cons.prems(2) and l = Cons.prems(3)
  obtain cw where cw: "get_w st c = Some cw" by (rule in_dom_get[OF f same_links_refl Cons.prems(5)])
  show ?case
  proof (cases "w_grab_widget w = c \<and> w_grab_widget_count cw < w_grab_widget_count w")
    case False
    then show ?thesis using w cw f l by (subst widget_ungrab.simps) (auto simp: get_w_def)
  next
    case True
    let ?n = "w_grab_widget_count w - 1"
    let ?w = "if ?n \<le> 0 then w\<lparr>w_grab_widget := NULL, w_grab_widget_count := 0\<rparr> else w\<lparr>w_grab_widget_count := ?n\<rparr>"
    let ?st = "st(q \<mapsto> ?w)"
    have l': "links_ok ?st" using links_grab[OF l w(3), of c] True by simp
    have f': "forest ?st ts" by (rule forest_upd[OF f w(3)]) (simp_all add: kids_def)
    have d': "dom ?st = dom st" using w(3) by auto
    have up: "chain ?st (w_parent w) qs" using w(4) chain_upd_grab chain_distinct[OF Cons.prems(1)] by auto
    have step: "widget_ungrab st p c = (if w_parent w \<noteq> NULL then Option.bind (widget_ungrab ?st (w_parent w) q) (\<lambda>(r, st). Some (RET_OK, st)) else Some (RET_OK, ?st))"
      using w cw True by (subst widget_ungrab.simps) (simp add: get_w_def Let_def)
    show ?thesis
    proof (cases "w_parent w = NULL")
      case True
      then show ?thesis using step l' f' d' by auto
    next
      case False
      have up_q: "w_parent w \<in> dom ?st" "q \<in> dom ?st" using parent_in_dom[OF f w(3) False] d' w(3) by auto
      then obtain r st' where "widget_ungrab ?st (w_parent w) q = Some (r, st')" "forest st' ts" "links_ok st'" "dom st' = dom ?st"
        using Cons.IH[OF up f' l' up_q] by blast
      then show ?thesis using step False d' by simp
    qed
  qed
qed

lemma ungrab_gives:
  assumes g: "good st" and p: "p \<in> dom st" and c: "c \<in> dom st"
  shows "gives (widget_ungrab st p c)"
proof -
  obtain ts where f: "forest st ts" using good_forest[OF g] by blast
  obtain ps where ps: "chain st p ps" using forest_chain[OF f p] by blast
  show ?thesis using ungrab_does[OF ps f _ p c] g forest_wf by (fastforce simp: gives_def good_def addr_ok_def)
qed


text \<open>A widget as its memory is allocated: no parent, no children, no links.\<close>

definition blank :: "widget \<Rightarrow> bool" where
  "blank w \<longleftrightarrow> w_parent w = NULL \<and> w_children w = None \<and> w_target w = NULL \<and> w_grab_widget w = NULL \<and> w_key_target w = NULL"

lemma good_blank:
  assumes g: "good st" and p: "st p = None" "p \<noteq> NULL" and a: "\<And>q. q \<in> dom st \<Longrightarrow> pointer_compare p q \<noteq> 0 \<and> pointer_compare q p \<noteq> 0" and w: "blank w"
  shows "good (st(p \<mapsto> w))"
proof -
  have "wf_tree (st(p \<mapsto> w))" by (rule wf_fresh) (use g p w in \<open>auto simp: good_def blank_def kids_def\<close>)
  then show ?thesis using g w a by (auto simp: good_def blank_def kids_def links_ok_def addr_ok_def)
qed

lemma good_upd:
  assumes g: "good st" and w: "st p = Some w" and same: "link w' = link w"
  shows "good (st(p \<mapsto> w'))"
proof -
  have "same_links st (st(p \<mapsto> w'))" using w same by (intro same_links_upd)
  then show ?thesis using g good_same same_links_tree links_ok_same unfolding good_def by blast
qed

lemma good_keeps_st: "good st \<Longrightarrow> keeps_st st m \<Longrightarrow> \<exists>st'. m = Some st' \<and> good st' \<and> dom st' = dom st"
  using good_same same_links_tree links_ok_same same_links_dom unfolding good_def keeps_st_def by metis

lemma get_w_dom: "good st \<Longrightarrow> p \<in> dom st \<Longrightarrow> \<exists>w. get_w st p = Some w \<and> st p = Some w \<and> p \<noteq> NULL"
  using wf_treeD(2)[of st] by (auto simp: good_def get_w_def)

text \<open>What \<open>widget_init\<close> does once the widget is in its place.\<close>

lemma init_tail:
  assumes app: "app_ok app" and g: "good st" and p: "p \<in> dom st"
  shows "\<exists>st'. Option.bind (get_w st p) (\<lambda>w.
            Option.bind (widget_get_window st p) (\<lambda>win.
              Option.bind (if \<not> w_styled w \<and> (w_is_window_manager w \<or> win \<noteq> NULL)
                           then Option.bind (upd_w p (\<lambda>w. w\<lparr>w_styled := True\<rparr>) st) (\<lambda>st.
                                  Option.bind (widget_is_window_opened stages st p) (\<lambda>opened.
                                    if opened then ignore_ret (widget_set_need_update_style app st p) else Some st))
                           else Some st) (\<lambda>st.
                Option.bind (ignore_ret (widget_invalidate_force app st p None)) (\<lambda>st.
                  Option.bind (upd_w p (\<lambda>w. w\<lparr>w_initializing := False\<rparr>) st) (\<lambda>st. Some (p, st)))))) = Some (p, st') \<and>
    good st' \<and> dom st' = dom st"
proof -
  obtain w where w: "get_w st p = Some w" "st p = Some w" "p \<noteq> NULL" using get_w_dom[OF g p] by blast
  obtain ts where f: "forest st ts" using good_forest[OF g] by blast
  obtain win where win: "widget_get_window st p = Some win"
    using walk_up[OF f same_links_refl, of p "\<lambda>p w. w_is_window w"] p unfolding widget_get_window_def by blast
  let ?s = "st(p \<mapsto> w\<lparr>w_styled := True\<rparr>)"
  have gs: "good ?s" by (rule good_upd[OF g w(2)]) (simp add: link_def)
  have ds: "dom ?s = dom st" using w(2) by auto
  obtain ts' where fs: "forest ?s ts'" using good_forest[OF gs] by blast
  obtain q where "widget_get_window ?s p = Some q"
    using walk_up[OF fs same_links_refl, of p "\<lambda>p w. w_is_window w"] p ds unfolding widget_get_window_def by blast
  then obtain opened where opened: "widget_is_window_opened stages ?s p = Some opened" by (simp add: widget_is_window_opened_def)
  have ks: "keeps_st ?s (if opened then ignore_ret (widget_set_need_update_style app ?s p) else Some ?s)"
    using need_update_style_keeps[OF app fs, of p] p ds by simp
  obtain s' where s': "(if opened then ignore_ret (widget_set_need_update_style app ?s p) else Some ?s) = Some s'" "good s'" "dom s' = dom st"
    using good_keeps_st[OF gs ks] unfolding ds by blast
  let ?m = "if \<not> w_styled w \<and> (w_is_window_manager w \<or> win \<noteq> NULL)
      then Option.bind (upd_w p (\<lambda>w. w\<lparr>w_styled := True\<rparr>) st) (\<lambda>st. Option.bind (widget_is_window_opened stages st p) (\<lambda>opened.
        if opened then ignore_ret (widget_set_need_update_style app st p) else Some st)) else Some st"
  have up: "upd_w p (\<lambda>w. w\<lparr>w_styled := True\<rparr>) st = Some ?s" using w by (simp add: upd_w_def)
  have m: "?m = (if \<not> w_styled w \<and> (w_is_window_manager w \<or> win \<noteq> NULL) then Some s' else Some st)"
    unfolding up Option.bind.bind_lunit opened s'(1) ..
  have "\<exists>a. (if C then Some s' else Some st) = Some a \<and> good a \<and> dom a = dom st" for C
    using s'(2,3) g by (cases C) simp_all
  then obtain a where a: "?m = Some a" "good a" "dom a = dom st" unfolding m by blast
  obtain tsa where fa: "forest a tsa" using good_forest[OF a(2)] by blast
  have pa: "p \<in> dom a" using p a(3) by simp
  have "keeps_st a (ignore_ret (widget_invalidate_force app a p None))" using invalidate_force_keeps[OF app fa pa] by simp
  then obtain b where b: "ignore_ret (widget_invalidate_force app a p None) = Some b" "good b" "dom b = dom a"
    using good_keeps_st[OF a(2)] by blast
  obtain wb where wb: "get_w b p = Some wb" "b p = Some wb" using get_w_dom[OF b(2), of p] pa b(3) by auto
  let ?b = "b(p \<mapsto> wb\<lparr>w_initializing := False\<rparr>)"
  have "good ?b" by (rule good_upd[OF b(2) wb(2)]) (simp add: link_def)
  moreover have "dom ?b = dom st" using wb(2) b(3) a(3) by auto
  moreover have ub: "upd_w p (\<lambda>w. w\<lparr>w_initializing := False\<rparr>) b = Some ?b" using wb by (simp add: upd_w_def)
  ultimately show ?thesis unfolding w(1) win Option.bind.bind_lunit a(1) b(1) ub by blast
qed

lemma init_gives:
  assumes app: "app_plain app" and g: "good st" and fresh: "st p = None" "p \<noteq> NULL"
    and a: "\<And>q. q \<in> dom st \<Longrightarrow> pointer_compare p q \<noteq> 0 \<and> pointer_compare q p \<noteq> 0"
    and w: "blank w" and parent: "parent = NULL \<or> parent \<in> dom st"
  shows "\<exists>st'. widget_init app stages (st(p \<mapsto> w)) p parent geometry = Some (p, st') \<and> good st' \<and> dom st' = insert p (dom st)"
proof -
  obtain x y width h where geo: "geometry = (x, y, width, h)" by (cases geometry)
  let ?w = "w\<lparr>w_x := x, w_y := y, w_w := width, w_h := h, w_dirty := True, w_enable := True, w_visible := True, w_sensitive := True,
             w_children := None, w_initializing := True, w_target := NULL, w_key_target := NULL, w_grab_widget := NULL,
             w_grab_widget_count := 0, w_focused := False, w_focusable := False, w_dirty_rect_tolerance := 4,
             w_need_update_style := True\<rparr>"
  let ?st = "st(p \<mapsto> ?w)"
  have b: "blank ?w" using w by (simp add: blank_def)
  have gs: "good ?st" by (rule good_blank[OF g fresh a b])
  have ok: "app_ok app" using app by (simp add: app_plain_def)
  let ?m = "if parent \<noteq> NULL then ignore_ret (widget_add_child app ?st parent p) else Some ?st"
  have "\<exists>s. ?m = Some s \<and> good s \<and> dom s = dom ?st"
  proof (cases "parent = NULL")
    case True
    then show ?thesis using gs by simp
  next
    case False
    then obtain pw where pw: "st parent = Some pw" using parent by blast
    obtain ts where f: "forest ?st ts" using good_forest[OF gs] by blast
    have "parent \<in> dom st" using pw by (rule domI)
    then obtain ps where ps: "chain st parent ps" using wf_treeD(6)[of st parent] g unfolding good_def by blast
    have pps: "p \<notin> set ps" using chain_dom[OF ps] fresh by auto
    have ps': "chain ?st parent ps" by (rule chain_same_parents[OF _ ps]) (use pps in auto)
    have "parent \<noteq> p" using pw fresh by auto
    then have c: "?st p = Some ?w" "w_parent ?w = NULL" and q: "?st parent = Some pw" using b pw by (simp_all add: blank_def)
    have does: "becomes (attach parent p (kids pw @ [p]) ?st) (widget_add_child app ?st parent p)"
      by (rule add_child_does[OF app f _ c q ps' pps]) (use gs in \<open>simp add: good_def\<close>)
    then obtain s where s: "widget_add_child app ?st parent p = Some (RET_OK, s)" "same_tree (attach parent p (kids pw @ [p]) ?st) s"
      by (auto simp: becomes_def)
    have "gives (widget_add_child app ?st parent p)" by (rule add_child_gives(1)[OF app gs c q ps' pps])
    then have "good s" using s(1) by (auto simp: gives_def)
    moreover have "dom s = dom ?st" using same_tree_dom[OF s(2)] unfolding attach_dom[OF c(1) q] .
    ultimately show ?thesis using s(1) False by (simp add: ignore_ret_def)
  qed
  then obtain s where s: "?m = Some s" "good s" "dom s = dom ?st" by blast
  have ps: "p \<in> dom s" using s(3) by simp
  have up: "upd_w p (\<lambda>wg. case geometry of (x, y, w, h) \<Rightarrow>
          wg\<lparr>w_x := x, w_y := y, w_w := w, w_h := h, w_dirty := True, w_enable := True, w_visible := True, w_sensitive := True,
             w_children := None, w_initializing := True, w_target := NULL, w_key_target := NULL, w_grab_widget := NULL,
             w_grab_widget_count := 0, w_focused := False, w_focusable := False, w_dirty_rect_tolerance := 4,
             w_need_update_style := True\<rparr>) (st(p \<mapsto> w)) = Some ?st"
    using fresh(2) geo by (simp add: upd_w_def get_w_def)
  show ?thesis
    unfolding widget_init_def up Option.bind.bind_lunit s(1)
    using init_tail[OF ok s(2) ps, of stages] s(3) fresh(2) by (simp only: if_False) simp
qed


section \<open>The tree of widgets as a machine\<close>

datatype widget_op =
    Init ptr widget ptr "int \<times> int \<times> int \<times> int"
  | Add_child ptr ptr
  | Insert_child ptr nat ptr
  | Remove_child ptr ptr
  | Restack ptr nat
  | Set_focused ptr bool
  | Grab ptr ptr
  | Ungrab ptr ptr
  | Invalidate ptr "rect option"
  | Invalidate_force ptr "rect option"
  | Need_relayout ptr
  | Need_update_style ptr

fun run_op :: "app \<Rightarrow> stages \<Rightarrow> wtree \<Rightarrow> widget_op \<Rightarrow> (ret_t \<times> wtree) option" where
  "run_op app stages st (Init p w parent geometry) = map_option (\<lambda>(_, st). (RET_OK, st)) (widget_init app stages (st(p \<mapsto> w)) p parent geometry)"
| "run_op app stages st (Add_child p c) = widget_add_child app st p c"
| "run_op app stages st (Insert_child p index c) = widget_insert_child app st p index c"
| "run_op app stages st (Remove_child p c) = widget_remove_child app stages st p c"
| "run_op app stages st (Restack c index) = widget_restack st c index"
| "run_op app stages st (Set_focused p b) = widget_set_focused app stages st p b"
| "run_op app stages st (Grab p c) = widget_grab st p c"
| "run_op app stages st (Ungrab p c) = widget_ungrab st p c"
| "run_op app stages st (Invalidate p r) = widget_invalidate app st p r"
| "run_op app stages st (Invalidate_force p r) = widget_invalidate_force app st p r"
| "run_op app stages st (Need_relayout p) = widget_set_need_relayout_children st p"
| "run_op app stages st (Need_update_style p) = widget_set_need_update_style_recursive app st p"

text \<open>
  What a caller keeps to: the widgets it names exist, new memory is no memory in use, only a root that
  the parent is not below is added, and only children are removed or grabbed.
\<close>

definition below :: "wtree \<Rightarrow> ptr \<Rightarrow> ptr \<Rightarrow> bool" where
  "below st p c \<longleftrightarrow> find_up st (\<lambda>q w. q = c) p \<noteq> Some NULL"

fun allowed :: "wtree \<Rightarrow> widget_op \<Rightarrow> bool" where
  "allowed st (Init p w parent geometry) \<longleftrightarrow> p \<noteq> NULL \<and> st p = None \<and> blank w \<and> (parent = NULL \<or> parent \<in> dom st) \<and>
     (\<forall>q \<in> dom st. pointer_compare p q \<noteq> 0 \<and> pointer_compare q p \<noteq> 0)"
| "allowed st (Add_child p c) \<longleftrightarrow> p \<in> dom st \<and> c \<in> dom st \<and> w_parent (the (st c)) = NULL \<and> \<not> below st p c"
| "allowed st (Insert_child p index c) \<longleftrightarrow> p \<in> dom st \<and> c \<in> dom st \<and> w_parent (the (st c)) = NULL \<and> \<not> below st p c"
| "allowed st (Remove_child p c) \<longleftrightarrow> p \<in> dom st \<and> c \<in> dom st \<and> w_parent (the (st c)) = p"
| "allowed st (Restack c index) \<longleftrightarrow> c \<in> dom st"
| "allowed st (Set_focused p b) \<longleftrightarrow> p \<in> dom st"
| "allowed st (Grab p c) \<longleftrightarrow> p \<in> dom st \<and> c \<in> dom st \<and> w_parent (the (st c)) = p"
| "allowed st (Ungrab p c) \<longleftrightarrow> p \<in> dom st \<and> c \<in> dom st"
| "allowed st (Invalidate p r) \<longleftrightarrow> p \<in> dom st"
| "allowed st (Invalidate_force p r) \<longleftrightarrow> p \<in> dom st"
| "allowed st (Need_relayout p) \<longleftrightarrow> p \<in> dom st"
| "allowed st (Need_update_style p) \<longleftrightarrow> p \<in> dom st"

inductive tree_reach :: "app \<Rightarrow> stages \<Rightarrow> wtree \<Rightarrow> bool" for app stages where
  no_widgets: "tree_reach app stages (\<lambda>_. None)"
| widget_step: "tree_reach app stages st \<Longrightarrow> allowed st op \<Longrightarrow> run_op app stages st op = Some (r, st') \<Longrightarrow> tree_reach app stages st'"

fun_cases run_op_init: "run_op app stages st (Init p w parent geometry) = Some (r, st')"

lemma good_empty: "good (\<lambda>_. None)"
  by (simp add: good_def wf_tree_def links_ok_def addr_ok_def)

lemma not_below_chain:
  assumes wf: "wf_tree st" and p: "p \<in> dom st" and "\<not> below st p c"
  shows "\<exists>ps. chain st p ps \<and> c \<notin> set ps"
proof -
  obtain ps where ps: "chain st p ps" using wf_treeD(6)[OF wf p] by blast
  have "find (\<lambda>q. q = c) ps = None"
  proof (rule ccontr)
    assume "find (\<lambda>q. q = c) ps \<noteq> None"
    then obtain q where q: "find (\<lambda>q. q = c) ps = Some q" by blast
    then have "q \<in> set ps" by (auto simp: find_Some_iff)
    then show False using q find_up_chain[OF ps, of "\<lambda>q w. q = c"] assms(3) chain_dom[OF ps] by (auto simp: below_def)
  qed
  then show ?thesis using ps by (auto simp: find_None_iff)
qed

lemma run_op_gives:
  assumes app: "app_plain app" and g: "good st" and a: "allowed st op"
  shows "gives (run_op app stages st op)"
proof -
  have ok: "app_ok app" using app by (simp add: app_plain_def)
  have wf: "wf_tree st" and l: "links_ok st" using g by (simp_all add: good_def)
  obtain ts where f: "forest st ts" using good_forest[OF g] by blast
  have add: "\<exists>ps cw pw. st c = Some cw \<and> w_parent cw = NULL \<and> st p = Some pw \<and> chain st p ps \<and> c \<notin> set ps"
    if "p \<in> dom st" "c \<in> dom st" "w_parent (the (st c)) = NULL" "\<not> below st p c" for p c
    using that not_below_chain[OF wf that(1,4)] by auto
  show ?thesis
  proof (cases op)
    case (Init p w parent geometry)
    then show ?thesis using init_gives[OF app g, of p w parent stages geometry] a by (auto simp: gives_def)
  next
    case (Add_child p c)
    then show ?thesis using add_child_gives(1)[OF app g] add[of p c] a by auto
  next
    case (Insert_child p index c)
    then show ?thesis using add_child_gives(2)[OF app g] add[of p c] a by auto
  next
    case (Remove_child p c)
    then show ?thesis using remove_child_gives[OF app g, of c _ p] a by auto
  next
    case (Restack c index)
    then show ?thesis using restack_gives[OF g] a by auto
  next
    case (Set_focused p b)
    then show ?thesis using does_gives[OF g set_focused_does[OF ok f _ l]] a by auto
  next
    case (Grab p c)
    then show ?thesis using grab_gives[OF g, of c _ p] a by auto
  next
    case (Ungrab p c)
    then show ?thesis using ungrab_gives[OF g] a by auto
  next
    case (Invalidate p r)
    then show ?thesis using keeps_gives[OF g invalidate_keeps[OF ok f]] a by auto
  next
    case (Invalidate_force p r)
    then show ?thesis using keeps_gives[OF g invalidate_force_keeps[OF ok f]] a by auto
  next
    case (Need_relayout p)
    then show ?thesis using keeps_gives[OF g need_relayout_keeps[OF f]] a by auto
  next
    case (Need_update_style p)
    then show ?thesis using keeps_gives[OF g need_update_style_recursive_keeps[OF ok f]] a by auto
  qed
qed

lemma reach_good:
  assumes "app_plain app" and "tree_reach app stages st"
  shows "good st"
  using assms(2)
proof induction
  case no_widgets
  show ?case by (rule good_empty)
next
  case (widget_step st op r st')
  then show ?case using run_op_gives[OF assms(1), of st op stages] by (auto simp: gives_def)
qed

section \<open>Properties\<close>

text \<open>Handlers that do nothing.\<close>

definition quiet_app :: app where
  "quiet_app c st = (RET_NOT_IMPL, st)"

lemma quiet_plain: "app_plain quiet_app"
  by (simp add: app_plain_def app_ok_def quiet_app_def)

text \<open>
  C29. In every state that creating, adding, inserting, removing and restacking children, focus, grabs and
  requests to paint reach from no widgets, in any order, the widgets form a forest, in which parents and
  children agree and nobody is its own ancestor, with every target, grab and key target a child of the
  widget that holds it; and the next operation returns, without a walk that does not end or a read through a pointer to no
  widget, and keeps this. The restrictions, which the code does not check, are those of \<open>allowed\<close> and \<open>app_plain\<close>: operations are on
  existing widgets, a new widget has an address of its own in its low 32 bits, only a widget without a parent
  is added, and not below itself, only a child of its own is removed from or grabbed by a widget, the methods of
  the classes and the handlers of events change no links, and no class takes over adding or removing a child.
\<close>

theorem widget_tree_safe:
  assumes "app_plain app" and "tree_reach app stages st" and "allowed st op"
  shows "(\<exists>ts. forest st ts) \<and> links_ok st \<and>
    (\<exists>r st'. run_op app stages st op = Some (r, st') \<and> (\<exists>ts. forest st' ts) \<and> links_ok st')"
proof -
  have g: "good st" by (rule reach_good[OF assms(1,2)])
  obtain r st' where st': "run_op app stages st op = Some (r, st')" "good st'"
    using run_op_gives[OF assms(1) g assms(3), of stages] unfolding gives_def by blast
  show ?thesis using good_forest[OF g] good_forest[OF st'(2)] st'(1) g st'(2) unfolding good_def by blast
qed

lemma init_window_then_child:
  defines "raw \<equiv> \<lambda>window. (demo_widget NULL ''view'' ''v'' (0, 0, 10, 10) [])\<lparr>w_children := None, w_is_window := window\<rparr>"
  shows "\<exists>st. tree_reach quiet_app (\<lambda>_. WINDOW_STAGE_OPENED) st \<and> allowed st (Init 2 (raw False) 1 (1, 2, 3, 4))"
proof -
  have raw: "blank (raw b)" for b by (simp add: raw_def blank_def demo_widget_def)
  obtain st where st: "widget_init quiet_app (\<lambda>_. WINDOW_STAGE_OPENED) ((\<lambda>_. None)(1 \<mapsto> raw True)) 1 NULL (0, 0, 100, 100) = Some (1, st)" "dom st = {1}"
    using init_gives[OF quiet_plain good_empty, of 1 "raw True" NULL "\<lambda>_. WINDOW_STAGE_OPENED" "(0, 0, 100, 100)"] raw by auto
  have "tree_reach quiet_app (\<lambda>_. WINDOW_STAGE_OPENED) st"
    by (rule widget_step[OF no_widgets, where op = "Init 1 (raw True) NULL (0, 0, 100, 100)" and r = RET_OK]) (use raw st(1) in simp_all)
  moreover have "2 \<notin> dom st" using st(2) by simp
  then have "st 2 = None" by (simp add: domIff)
  then have "allowed st (Init 2 (raw False) 1 (1, 2, 3, 4))" using raw st(2) by (simp add: pointer_compare_def s32_def)
  ultimately show ?thesis by blast
qed

theorem widget_tree_safe_witness:
  "\<exists>st op r st'. tree_reach quiet_app (\<lambda>_. WINDOW_STAGE_OPENED) st \<and> (\<exists>p. op = Init 2 p 1 (1, 2, 3, 4)) \<and>
    run_op quiet_app (\<lambda>_. WINDOW_STAGE_OPENED) st op = Some (r, st') \<and> links_ok st'"
proof -
  obtain st p where st: "tree_reach quiet_app (\<lambda>_. WINDOW_STAGE_OPENED) st" "allowed st (Init 2 p 1 (1, 2, 3, 4))"
    using init_window_then_child by blast
  from widget_tree_safe[OF quiet_plain st] show ?thesis using st(1) by blast
qed

text \<open>
  C30. A child that is inserted stands at the position asked for, or last, and nothing else in the tree
  changes; taken out again, the tree and the targets in it are what they were.
\<close>

theorem widget_insert_remove:
  assumes "app_plain app" and "forest st ts" and "links_ok st" and "addr_ok st"
    and "st c = Some cw" and "w_parent cw = NULL" and "st p = Some pw" and "\<not> below st p c"
  shows "\<exists>st1 st2. widget_insert_child app st p index c = Some (RET_OK, st1) \<and>
    same_tree (attach p c (take index (kids pw) @ c # drop index (kids pw)) st) st1 \<and>
    widget_remove_child app stages st1 p c = Some (RET_OK, st2) \<and> same_tree st st2"
proof -
  let ?cs = "take index (kids pw) @ c # drop index (kids pw)"
  note wf = forest_wf[OF assms(2)]
  obtain ps where ps: "chain st p ps" "c \<notin> set ps" using not_below_chain[OF wf _ assms(8)] assms(7) by auto
  have nn: "p \<noteq> NULL" "c \<noteq> NULL" using forest_nonnull[OF assms(2)] assms(5,7) by auto
  have pc: "p \<noteq> c" using ps nn by (cases ps) auto
  have fresh: "c \<notin> set (kids pw)" using wf_treeD(4)[OF wf assms(7), of c] assms(5,6) nn by auto
  have g: "good st" using wf assms(3,4) by (simp add: good_def)
  obtain st1 where st1: "widget_insert_child app st p index c = Some (RET_OK, st1)" "same_tree (attach p c ?cs st) st1"
    using insert_child_does[OF assms(1-3,5-7) ps] by (auto simp: becomes_def)
  have "gives (widget_insert_child app st p index c)" by (rule add_child_gives(2)[OF assms(1) g assms(5-7) ps])
  then have g1: "good st1" using st1(1) by (auto simp: gives_def)
  obtain ts1 where f1: "forest st1 ts1" using good_forest[OF g1] by blast
  have at: "attach p c ?cs st c = Some (cw\<lparr>w_parent := p\<rparr>)" "attach p c ?cs st p = Some (pw\<lparr>w_children := Some ?cs\<rparr>)"
    using assms(5,7) pc by (simp_all add: attach_def)
  obtain c1 where c1: "st1 c = Some c1" "w_parent c1 = p" "kids c1 = kids cw" "w_target c1 = w_target cw" "w_grab_widget c1 = w_grab_widget cw"
    using same_tree_get[OF st1(2) at(1)] by (auto simp: kids_def)
  obtain p1 where p1: "st1 p = Some p1" "w_parent p1 = w_parent pw" "kids p1 = ?cs" "w_target p1 = w_target pw" "w_grab_widget p1 = w_grab_widget pw"
    using same_tree_get[OF st1(2) at(2)] by (auto simp: kids_def)
  obtain st2 where st2: "widget_remove_child app stages st1 p c = Some (RET_OK, st2)" "same_tree (detach p c st1) st2"
    using remove_child_does[OF assms(1) f1 _ _ c1(1,2) p1(1)] g1 by (auto simp: becomes_def good_def)
  have unlinked: "w_target pw \<noteq> c" "w_grab_widget pw \<noteq> c" using links_of[OF assms(3,7)] fresh nn by auto
  have out: "remove1 c ?cs = kids pw" using fresh using in_set_takeD[of c index "kids pw"] by (auto simp: remove1_append)
  have "map_option place (detach p c st1 q) = map_option place (st q)" for q
  proof -
    consider "q = p" | "q = c" | "q \<noteq> p" "q \<noteq> c" by blast
    then show ?thesis
    proof cases
      case 1
      then show ?thesis using p1 assms(7) unlinked out by (simp add: detach_def Let_def place_def kids_def)
    next
      case 2
      then show ?thesis using c1 assms(5,6) pc by (simp add: detach_def Let_def place_def kids_def)
    next
      case 3
      then show ?thesis using st1(2) by (simp add: detach_def Let_def same_tree_def attach_def)
    qed
  qed
  then have "same_tree st (detach p c st1)" by (simp add: same_tree_def)
  then show ?thesis using st1 st2 same_tree_trans by blast
qed

text \<open>The forest of a window with children, and a root that is put under it.\<close>

definition demo_two :: wtree where
  "demo_two = demo_tree(6 \<mapsto> demo_widget NULL ''button'' ''new'' (0, 0, 10, 10) [])"

lemma demo_two: "forest demo_two (demo_forest @ [Node 6 []])" "links_ok demo_two" "addr_ok demo_two"
proof -
  show "forest demo_two (demo_forest @ [Node 6 []])"
    by (auto simp: forest_def demo_two_def demo_tree_def demo_widget_def kids_def split: if_splits)
  show "links_ok demo_two" by (auto simp: links_ok_def demo_two_def demo_tree_def demo_widget_def)
  show "addr_ok demo_two" by (auto simp: addr_ok_def demo_two_def demo_tree_def pointer_compare_def s32_def)
qed

theorem widget_insert_remove_witness:
  "\<exists>st1 st2. widget_insert_child quiet_app demo_two 2 1 6 = Some (RET_OK, st1) \<and>
    same_tree (attach 2 6 [3, 6, 4] demo_two) st1 \<and>
    widget_remove_child quiet_app (\<lambda>_. WINDOW_STAGE_OPENED) st1 2 6 = Some (RET_OK, st2) \<and> same_tree demo_two st2"
proof -
  have up: "find_up demo_two (\<lambda>q w. q = 6) 2 = Some NULL"
    by (simp add: find_up.simps get_w_def demo_two_def demo_tree_def demo_widget_def)
  have at: "demo_two 6 = Some (demo_widget NULL ''button'' ''new'' (0, 0, 10, 10) [])" "demo_two 2 = Some (demo_widget 1 ''view'' ''box'' (5, 5, 100, 50) [3, 4])"
    by (simp_all add: demo_two_def demo_tree_def)
  show ?thesis
    using widget_insert_remove[OF quiet_plain demo_two at(1) _ at(2), of 1 "\<lambda>_. WINDOW_STAGE_OPENED"] up
    by (simp add: below_def demo_widget_def kids_def)
qed

text \<open>
  C31. \<open>widget_restack\<close> moves the widget to the position asked for, or to the last, and keeps the order of
  its siblings: the children are those without the widget, with the widget put in at that position.
\<close>

theorem widget_restack_moves:
  assumes "forest st ts" and "links_ok st" and "st c = Some cw" and "w_parent cw \<noteq> NULL"
  shows "\<exists>pw st'. st (w_parent cw) = Some pw \<and> widget_restack st c index = Some (RET_OK, st') \<and> c \<in> set (kids pw) \<and>
    (let j = min index (length (kids pw) - 1); rest = remove1 c (kids pw)
     in same_tree (st(w_parent cw \<mapsto> pw\<lparr>w_children := Some (take j rest @ c # drop j rest)\<rparr>)) st')"
proof -
  obtain pw where pw: "st (w_parent cw) = Some pw" using parent_in_dom[OF assms(1,3,4)] by blast
  obtain k where k: "k < length (kids pw)" "kids pw ! k = c"
    "becomes (st(w_parent cw \<mapsto> pw\<lparr>w_children := Some (move_to k (min index (length (kids pw) - 1)) (kids pw))\<rparr>)) (widget_restack st c index)"
    using restack_does[OF assms(1-3) refl pw] by blast
  have d: "distinct (kids pw)" using wf_treeD(3)[OF forest_wf[OF assms(1)] pw] .
  have "c \<notin> set (take k (kids pw))" using d k(1,2) id_take_nth_drop[OF k(1)] by (metis distinct_append disjoint_iff list.set_intros(1))
  then have "remove1 c (kids pw) = take k (kids pw) @ drop (Suc k) (kids pw)"
    using id_take_nth_drop[OF k(1)] k(2) by (metis remove1.simps(2) remove1_append)
  then show ?thesis using pw k by (auto simp: becomes_def move_to_def Let_def)
qed

theorem widget_restack_moves_witness:
  "\<exists>st'. widget_restack demo_two 4 0 = Some (RET_OK, st') \<and>
    same_tree (demo_two(2 \<mapsto> (the (demo_two 2))\<lparr>w_children := Some [4, 3]\<rparr>)) st'"
proof -
  have at: "demo_two 4 = Some (demo_widget 2 ''button'' ''ok'' (0, 20, 50, 20) [])" "demo_two 2 = Some (demo_widget 1 ''view'' ''box'' (5, 5, 100, 50) [3, 4])"
    by (simp_all add: demo_two_def demo_tree_def)
  show ?thesis using widget_restack_moves[OF demo_two(1,2) at(1), of 0] at(2) by (simp add: demo_widget_def kids_def Let_def)
qed

end
