(* ===== verification/Spec2Isabelle.thy ===== *)
theory Spec2Isabelle
  imports HashTable EventSources Slist Dlist RingBuffer EventQueue DirtyRects Timers Idles Buffer EmitterRun Crc MemOom ValueOps WidgetSteps
begin

text \<open>
  A verification library for the core of AWTK, the GUI toolkit of this repository. AWTK is C: the
  toolkit core is \<open>src/src/tkc\<close> (containers, text, values, events), on which \<open>src/src/base\<close> (main loop,
  widgets, windows, painting) and \<open>src/src/widgets\<close> build. The library models the parts on which the
  rest stands, bottom up.

  How the parts interact. A main loop dispatches its event sources, which take input events from the
  event queue and let the timer and idle managers run what is due, and repaints the dirty region of the
  windows on their canvas. These managers keep reference counted objects in a singly linked list, that of
  the event sources in a dynamic array; widgets and objects send events to their emitters, whose handlers
  are the application. Text and binary data go through the string and byte buffers; tables of the toolkit
  are dynamic arrays, sorted and searched with comparison functions.

  Conventions (\<open>AwtkPrelude\<close>). An address is a natural number, \<open>0\<close> is NULL. A struct is a record with the
  fields of the C struct; an object on the heap is an entry of a map from addresses. \<open>uint32_t\<close> is \<open>nat\<close>
  with \<open>u32\<close> written out where it wraps, \<open>int32_t\<close> is \<open>int\<close> with \<open>s32\<close>; bit level code uses words. A status
  is a \<open>ret_t\<close>; the result \<open>None\<close> of an operation on a heap is an access through NULL, to a freed block or outside
  of a block or of the screen (or a loop that does not end), so that a theorem which gives \<open>Some\<close> states that there is none. Memory
  is granted by an argument (a new address, or a flag); callbacks of the application are functions, with
  the state they may change passed through. Guards against NULL arguments are the types here. Pointer
  loops are \<open>partial_function (option)\<close>, index loops \<open>fun\<close> or \<open>function\<close> with a measure, so no fuel is used.

  Theories, by part:
    \<^item> \<open>AwtkPrelude\<close> (\<open>src/src/tkc/types_def.h\<close>): status codes, the protocol of visitors, comparison functions, addresses and integers; lemmas on lists and maps that the parts share.
    \<^item> \<open>TkQsort\<close> (\<open>src/src/tkc/utils.c\<close>): the quick sort: it ends and sorts for every total preorder.
    \<^item> \<open>Darray\<close> (\<open>src/src/tkc/darray.c\<close>): dynamic arrays with capacity, growth and refusal of memory; insertion, removal, sorted insertion, binary search as their list functions.
    \<^item> \<open>ListContainer\<close>: the contract of a list container as a locale, interpreted by both linked lists.
    \<^item> \<open>Slist\<close> (\<open>src/src/tkc/slist.c\<close>): the singly linked list on a heap of nodes; every sequence of operations refines the same on a plain list.
    \<^item> \<open>Dlist\<close> (\<open>src/src/tkc/dlist.c\<close>): the doubly linked list likewise, with both chains and traversal in both directions.
    \<^item> \<open>HashTable\<close> (\<open>src/src/tkc/hash_table.c\<close>): buckets of dynamic arrays; lookup in one bucket is exact for the table.
    \<^item> \<open>Circular\<close>: indices and counts of a circular buffer, shared by the next two.
    \<^item> \<open>RingBuffer\<close> (\<open>src/src/tkc/ring_buffer.c\<close>): bytes in, bytes out, in order, with growth.
    \<^item> \<open>EventQueue\<close> (\<open>src/src/base/event_queue.c\<close>): the queue of input events.
    \<^item> \<open>Rect\<close> (\<open>src/src/tkc/rect.c\<close>): integer rectangles as sets of points.
    \<^item> \<open>Canvas\<close> (\<open>src/src/base/canvas.c\<close>, \<open>src/src/base/lcd.c\<close>, \<open>src/src/lcd/lcd_mem.inc\<close>): the clip rectangle and drawing on a frame buffer: figures are cut to the clip rectangle.
    \<^item> \<open>DirtyRects\<close> (\<open>src/src/base/dirty_rects.h\<close>, \<open>src/src/base/dirty_rects.inc\<close>): the region to repaint loses no point; painting it brings the canvas up to date there.
    \<^item> \<open>ObjList\<close>, \<open>IdAlloc\<close> (\<open>src/src/tkc/object.c\<close>): reference counts and lists that own references; the search for a fresh id, as a locale of both managers.
    \<^item> \<open>Timers\<close>, \<open>Idles\<close> (\<open>src/src/tkc/timer_manager.c\<close>, \<open>src/src/tkc/timer_info.c\<close>, \<open>src/src/base/timer.c\<close>, \<open>src/src/tkc/idle_manager.c\<close>, \<open>src/src/tkc/idle_info.c\<close>, \<open>src/src/base/idle.c\<close>): dispatch cycles; with callbacks that leave the manager alone, what is due runs once.
    \<^item> \<open>EventSources\<close> (\<open>src/src/tkc/event_source_manager.c\<close>, \<open>src/src/tkc/event_source_manager_default.c\<close>, \<open>src/src/tkc/event_source.c\<close>): the event sources of a main loop: a dispatch works on a snapshot with references of its own, so that sources may come and go meanwhile.
    \<^item> \<open>Utf8\<close> (\<open>src/src/tkc/utf8.c\<close>): conversion between UTF-8 and wide characters of 16 and 32 bits.
    \<^item> \<open>Str\<close>, \<open>StrText\<close> (\<open>src/src/tkc/str.c\<close>, \<open>src/src/tkc/utils.c\<close>): the string buffer as a block of memory with a ghost of what was allocated; its operations on the text, escapes and entities.
    \<^item> \<open>Buffer\<close> (\<open>src/src/tkc/buffer.c\<close>): the write and read buffers and the stream of tagged values.
    \<^item> \<open>Emitter\<close>, \<open>EmitterRun\<close> (\<open>src/src/tkc/emitter.c\<close>): event handlers on a heap of items; the machine of nested dispatches whose handlers change the emitter.
    \<^item> \<open>Crc\<close> (\<open>src/src/tkc/crc.c\<close>): checksums by lazily filled tables against the shift register of the polynomial.
    \<^item> \<open>MemSimple\<close>, \<open>MemAlloc\<close>, \<open>MemOom\<close> (\<open>src/src/tkc/mem_allocator_simple.h\<close>, \<open>src/src/tkc/mem_allocator_oom.h\<close>, \<open>src/src/tkc/mem_allocator_lock.h\<close>, \<open>src/src/tkc/mem.c\<close>): an allocator on the bytes of its buffer, the contract of an allocator as a locale with the refinement of a heap of arrays, the retries and \<open>tk_calloc\<close>.
    \<^item> \<open>Values\<close>, \<open>ValueOps\<close> (\<open>src/src/tkc/value.c\<close>, \<open>src/src/tkc/utils.c\<close>): the tagged value with its conversions and the operations of the expression engine; they keep values well-typed, and which of them are exact.
    \<^item> \<open>WidgetTree\<close> (\<open>src/src/base/widget.c\<close>, \<open>src/src/base/widget_vtable.c\<close>): widgets on a heap as a forest; walks, lookup, positions, the target of a pointer, grabs.
    \<^item> \<open>WidgetOps\<close>, \<open>WidgetForest\<close>, \<open>WidgetSteps\<close> (\<open>src/src/base/widget.c\<close>, \<open>src/src/base/widget_vtable.c\<close>, \<open>src/src/base/widget.h\<close>): children, focus and requests to paint; what they keep of the forest; the machine of these operations and what each does to the tree.

  The operations of a part are definitions with the names of their C functions (a name that clashes with
  Isabelle's gets a suffix), in the order of the source; a C loop is a recursion named after its function.
  Each theory then has its invariant and the lemmas that the operations keep it, and the properties last,
  each with an instance at a concrete input. Lemmas of the form \<open>..._abs\<close> and \<open>..._refines\<close> relate an
  operation to its counterpart on lists or texts.

  Bounds. Sizes are below \<open>2^32\<close> and the statements say where a sum must stay below; where the code wraps
  (growth of buffers near \<open>2^32\<close>, time stamps of timers cut to 32 bits) the models wrap too and the
  theorems either assume the bound or state what happens beyond it.

  The floating point operations of values are fields of a record (\<open>host\<close>), with the one fact that is
  used of them, that a number between the bounds of a type is cut to one of its integers, as \<open>fp_ok\<close>.

  Not modelled: the operating system side (files, sockets, threads, windows), the main loop itself, decoders,
  drawing of text, images and vectors, the floating point formulas, the widgets with their styles, layout and
  properties, the script language, and the readers and writers of data files; the manifest lists them by part.
  In the modelled parts: printf style
  formatting, floating point text and objects as sources of the string buffer, hexadecimal input of the
  read buffer, floating point rectangles, values that own memory, the properties of objects, and callbacks that free the very
  object whose operation runs.
\<close>

end
